(* ===== verification/Prelude.thy ===== *)
theory Prelude
  imports Main "HOL-Library.Word"
begin

text \<open>
  Shared ground of the development: the result type of code that can throw and its
  sequencing operator, the list operations of the JavaScript standard library the sources
  use (\<open>indexOf\<close>, \<open>subarray\<close>), sums over finite tables, and the theorem
  collections the component theories extend.
\<close>

named_theorems res_simps "unfolding rules for the result type"
named_theorems acct_simps "accounting equations of the tables of counters"

section \<open>Results of code that can throw\<close>

text \<open>
  A function of the sources that may throw returns \<open>'e + 'a\<close>: \<open>Inl\<close> carries
  what is thrown, \<open>Inr\<close> what is returned. \<open>rbind\<close> is the sequencing of statements:
  the rest runs only if the first part returned.
\<close>

definition rbind :: "'e + 'a \<Rightarrow> ('a \<Rightarrow> 'e + 'b) \<Rightarrow> 'e + 'b" where
  "rbind m f = (case m of Inl e \<Rightarrow> Inl e | Inr x \<Rightarrow> f x)"

lemma rbind_Inl [simp]: "rbind (Inl e) f = Inl e"
  by (simp add: rbind_def)

lemma rbind_Inr [simp]: "rbind (Inr x) f = f x"
  by (simp add: rbind_def)

lemma rbind_eq_Inr [simp]: "rbind m f = Inr y \<longleftrightarrow> (\<exists>x. m = Inr x \<and> f x = Inr y)"
  by (cases m) auto

lemma rbind_eq_Inl: "rbind m f = Inl e \<longleftrightarrow> m = Inl e \<or> (\<exists>x. m = Inr x \<and> f x = Inl e)"
  by (cases m) auto

lemma rbind_assoc: "rbind (rbind m f) g = rbind m (\<lambda>x. rbind (f x) g)"
  by (cases m) auto

lemma rbind_cong [fundef_cong]:
  "m = m' \<Longrightarrow> (\<And>x. m' = Inr x \<Longrightarrow> f x = f' x) \<Longrightarrow> rbind m f = rbind m' f'"
  by (cases m') auto

text \<open>\<open>if (!b) throw e\<close>.\<close>

definition require_ok :: "bool \<Rightarrow> 'e \<Rightarrow> 'e + unit" where
  "require_ok b e = (if b then Inr () else Inl e)"

lemma require_ok_Inr [simp]: "require_ok b e = Inr u \<longleftrightarrow> b"
  by (simp add: require_ok_def)

lemma require_ok_Inl [simp]: "require_ok b e = Inl e' \<longleftrightarrow> \<not> b \<and> e' = e"
  by (auto simp: require_ok_def)

lemma require_ok_True [simp]: "require_ok True e = Inr ()"
  by (simp add: require_ok_def)

lemma require_ok_False [simp]: "require_ok False e = Inl e"
  by (simp add: require_ok_def)

text \<open>A loop that builds an array of results and stops at the first throw.\<close>

primrec rmap :: "('a \<Rightarrow> 'e + 'b) \<Rightarrow> 'a list \<Rightarrow> 'e + 'b list" where
  "rmap f [] = Inr []"
| "rmap f (x # xs) = rbind (f x) (\<lambda>y. rbind (rmap f xs) (\<lambda>ys. Inr (y # ys)))"

lemma rmap_Inr_iff: "rmap f xs = Inr ys \<longleftrightarrow> list_all2 (\<lambda>x y. f x = Inr y) xs ys"
  by (induction xs arbitrary: ys) (auto simp: list_all2_Cons1)

lemma rmap_length: "rmap f xs = Inr ys \<Longrightarrow> length ys = length xs"
  by (simp add: rmap_Inr_iff list_all2_lengthD)

lemma rmap_all_Inr: "(\<And>x. x \<in> set xs \<Longrightarrow> f x = Inr (g x)) \<Longrightarrow> rmap f xs = Inr (map g xs)"
  by (induction xs) auto

lemmas rbind_intros = rbind_eq_Inr [THEN iffD2]
declare rbind_def [res_simps] require_ok_def [res_simps]

section \<open>Arrays\<close>

text \<open>\<open>subarray xs i j\<close>: the elements at the indices \<open>i \<le> k < j\<close>, as
  \<open>Array.prototype.subarray\<close> and \<open>Buffer.subarray\<close> return them for
  non-negative arguments.\<close>

definition subarray :: "nat \<Rightarrow> nat \<Rightarrow> 'a list \<Rightarrow> 'a list" where
  "subarray i j xs = take (j - i) (drop i xs)"

lemma length_subarray [simp]: "length (subarray i j xs) = min (j - i) (length xs - i)"
  by (simp add: subarray_def min.commute)

lemma subarray_append_middle: "subarray (length xs) (length xs + length ys) (xs @ ys @ zs) = ys"
  by (simp add: subarray_def)

lemma subarray_full: "length xs \<le> j \<Longrightarrow> subarray 0 j xs = xs"
  by (simp add: subarray_def)

lemma subarray_Cons: "i < j \<Longrightarrow> i < length xs \<Longrightarrow> subarray i j xs = xs ! i # subarray (Suc i) j xs"
  by (simp add: subarray_def Cons_nth_drop_Suc [symmetric] Suc_diff_Suc [symmetric]
      take_Cons' split: nat_diff_split)

lemma subarray_empty: "j \<le> i \<Longrightarrow> subarray i j xs = []"
  by (simp add: subarray_def)

text \<open>\<open>indexOf(x, from)\<close>: the least index at or after \<open>from\<close>, or \<open>None\<close> for \<open>-1\<close>.\<close>

fun index_from :: "nat \<Rightarrow> 'a \<Rightarrow> 'a list \<Rightarrow> nat option" where
  "index_from k x [] = None"
| "index_from k x (y # ys) = (if y = x then Some k else index_from (Suc k) x ys)"

definition index_of :: "'a \<Rightarrow> nat \<Rightarrow> 'a list \<Rightarrow> nat option" where
  "index_of x start xs = index_from start x (drop start xs)"

lemma index_from_None [simp]: "index_from k x xs = None \<longleftrightarrow> x \<notin> set xs"
  by (induction k x xs rule: index_from.induct) auto

lemma index_from_split: "x \<notin> set xs \<Longrightarrow> index_from k x (xs @ x # ys) = Some (k + length xs)"
  by (induction xs arbitrary: k) auto

lemma index_of_split:
  "x \<notin> set ys \<Longrightarrow> index_of x (length zs) (zs @ ys @ x # ws) = Some (length zs + length ys)"
  by (simp add: index_of_def index_from_split)

lemma index_of_absent: "x \<notin> set ys \<Longrightarrow> index_of x (length zs) (zs @ ys) = None"
  by (simp add: index_of_def)

text \<open>A list without element \<open>x\<close>, or cut at its first occurrence.\<close>

lemma first_occurrence:
  obtains "x \<notin> set xs" | ys zs where "xs = ys @ x # zs" "x \<notin> set ys"
  by (meson split_list_first)

section \<open>Maps with finite domain and sums of counters\<close>

text \<open>
  Several components keep a table of counters beside a running total (bytes and frames per
  chunked response, credits per lane). The total of such a table:
\<close>

definition msum :: "('k \<rightharpoonup> nat) \<Rightarrow> nat" where
  "msum m = (\<Sum>k\<in>dom m. the (m k))"

definition mget :: "('k \<rightharpoonup> nat) \<Rightarrow> 'k \<Rightarrow> nat" where
  "mget m k = (case m k of None \<Rightarrow> 0 | Some v \<Rightarrow> v)"

lemma msum_empty [simp]: "msum Map.empty = 0"
  by (simp add: msum_def)

lemma mget_empty [simp]: "mget Map.empty k = 0"
  by (simp add: mget_def)

lemma mget_upd [simp]: "mget (m(k \<mapsto> v)) k' = (if k' = k then v else mget m k')"
  by (simp add: mget_def)

lemma mget_del [simp]: "mget (m(k := None)) k' = (if k' = k then 0 else mget m k')"
  by (simp add: mget_def)

lemma msum_remove:
  assumes "finite (dom m)"
  shows "msum (m(k := None)) + mget m k = msum m"
proof (cases "m k")
  case None
  then have "m(k := None) = m" by (auto simp: fun_eq_iff)
  with None show ?thesis by (simp add: mget_def)
next
  case (Some v)
  then have k: "k \<in> dom m" by auto
  have "msum m = the (m k) + (\<Sum>j\<in>dom m - {k}. the (m j))"
    unfolding msum_def using assms k by (simp add: sum.remove)
  moreover have "msum (m(k := None)) = (\<Sum>j\<in>dom m - {k}. the (m j))"
    unfolding msum_def by (rule sum.cong) auto
  ultimately show ?thesis using Some by (simp add: mget_def)
qed

lemma msum_upd [acct_simps]:
  assumes "finite (dom m)"
  shows "msum (m(k \<mapsto> v)) + mget m k = msum m + v"
proof -
  have "msum ((m(k \<mapsto> v))(k := None)) + mget (m(k \<mapsto> v)) k = msum (m(k \<mapsto> v))"
    using assms by (intro msum_remove) simp
  moreover have "(m(k \<mapsto> v))(k := None) = m(k := None)" by simp
  ultimately show ?thesis using msum_remove [OF assms, of k] by simp
qed

lemma mget_le_msum: "finite (dom m) \<Longrightarrow> mget m k \<le> msum m"
  using msum_remove [of m k] by simp

end
