(* ===== verification/JsValue.thy ===== *)
theory JsValue
  imports Prelude
begin

unbundle bit_operations_syntax

text \<open>
  The part of the JavaScript language and of Node's \<open>Buffer\<close> the sources rest on: strings as
  sequences of 16-bit code units, buffers as sequences of bytes, conversion between the two
  (UTF-8, with the replacement of ill-formed parts that \<open>Buffer.from\<close> and
  \<open>Buffer.toString\<close> perform), big-endian integer access, the dynamically typed values the
  code calls \<open>unknown\<close>, and the errors it throws.
\<close>

section \<open>Strings and buffers\<close>

type_synonym jsstr = "16 word list"
type_synonym byte = "8 word"
type_synonym bytes = "8 word list"

text \<open>An ASCII literal of the source.\<close>

definition ascii :: "string \<Rightarrow> jsstr" where
  "ascii s = map of_char s"

definition is_high :: "16 word \<Rightarrow> bool" where
  "is_high u \<longleftrightarrow> 0xD800 \<le> u \<and> u \<le> 0xDBFF"

definition is_low :: "16 word \<Rightarrow> bool" where
  "is_low u \<longleftrightarrow> 0xDC00 \<le> u \<and> u \<le> 0xDFFF"

text \<open>The code point of a surrogate pair.\<close>

definition pair_point :: "16 word \<Rightarrow> 16 word \<Rightarrow> 32 word" where
  "pair_point u v = 0x10000 + push_bit 10 (ucast u - 0xD800) + ucast v - 0xDC00"

definition utf8_of_point :: "32 word \<Rightarrow> bytes" where
  "utf8_of_point p =
    (if p < 0x80 then [ucast p]
     else if p < 0x800 then
       [ucast (0xC0 OR drop_bit 6 p), ucast (0x80 OR (p AND 0x3F))]
     else if p < 0x10000 then
       [ucast (0xE0 OR drop_bit 12 p), ucast (0x80 OR (drop_bit 6 p AND 0x3F)),
        ucast (0x80 OR (p AND 0x3F))]
     else
       [ucast (0xF0 OR drop_bit 18 p), ucast (0x80 OR (drop_bit 12 p AND 0x3F)),
        ucast (0x80 OR (drop_bit 6 p AND 0x3F)), ucast (0x80 OR (p AND 0x3F))])"

text \<open>\<open>Buffer.from(text)\<close>: lone surrogates become U+FFFD.\<close>

fun utf8_encode :: "jsstr \<Rightarrow> bytes" where
  "utf8_encode [] = []"
| "utf8_encode (u # us) =
    (if is_high u then
       (case us of
          v # vs \<Rightarrow>
            if is_low v then utf8_of_point (pair_point u v) @ utf8_encode vs
            else utf8_of_point 0xFFFD @ utf8_encode us
        | [] \<Rightarrow> utf8_of_point 0xFFFD)
     else if is_low u then utf8_of_point 0xFFFD @ utf8_encode us
     else utf8_of_point (ucast u) @ utf8_encode us)"

text \<open>\<open>String.prototype.isWellFormed\<close>.\<close>

fun well_formed :: "jsstr \<Rightarrow> bool" where
  "well_formed [] = True"
| "well_formed (u # us) =
    (if is_high u then (case us of v # vs \<Rightarrow> is_low v \<and> well_formed vs | [] \<Rightarrow> False)
     else \<not> is_low u \<and> well_formed us)"

text \<open>
  \<open>Buffer.toString("utf8")\<close>: the WHATWG decoder. After a lead byte, \<open>n\<close>
  continuation bytes are needed, the first of them in the range \<open>lo\<close> to \<open>hi\<close>.
  The result is the code point, or \<open>None\<close> for an ill-formed part, and the number of bytes
  taken after the lead byte; the byte that breaks a sequence is not taken.
\<close>

fun utf8_tail :: "nat \<Rightarrow> byte \<Rightarrow> byte \<Rightarrow> 32 word \<Rightarrow> bytes \<Rightarrow> 32 word option \<times> nat" where
  "utf8_tail 0 lo hi cp bs = (Some cp, 0)"
| "utf8_tail (Suc n) lo hi cp [] = (None, 0)"
| "utf8_tail (Suc n) lo hi cp (c # cs) =
    (if lo \<le> c \<and> c \<le> hi then
       (case utf8_tail n 0x80 0xBF (push_bit 6 cp OR (ucast c AND 0x3F)) cs of
          (r, k) \<Rightarrow> (r, Suc k))
     else (None, 0))"

definition utf8_next :: "byte \<Rightarrow> bytes \<Rightarrow> 32 word option \<times> nat" where
  "utf8_next b bs =
    (if b < 0x80 then (Some (ucast b), 0)
     else if 0xC2 \<le> b \<and> b \<le> 0xDF then utf8_tail 1 0x80 0xBF (ucast b AND 0x1F) bs
     else if b = 0xE0 then utf8_tail 2 0xA0 0xBF (ucast b AND 0x0F) bs
     else if b = 0xED then utf8_tail 2 0x80 0x9F (ucast b AND 0x0F) bs
     else if 0xE1 \<le> b \<and> b \<le> 0xEF then utf8_tail 2 0x80 0xBF (ucast b AND 0x0F) bs
     else if b = 0xF0 then utf8_tail 3 0x90 0xBF (ucast b AND 0x07) bs
     else if b = 0xF4 then utf8_tail 3 0x80 0x8F (ucast b AND 0x07) bs
     else if 0xF1 \<le> b \<and> b \<le> 0xF3 then utf8_tail 3 0x80 0xBF (ucast b AND 0x07) bs
     else (None, 0))"

definition utf16_of_point :: "32 word \<Rightarrow> jsstr" where
  "utf16_of_point p =
    (if p < 0x10000 then [ucast p]
     else [ucast (0xD800 + drop_bit 10 (p - 0x10000)),
           ucast (0xDC00 + ((p - 0x10000) AND 0x3FF))])"

function utf8_decode :: "bytes \<Rightarrow> jsstr" where
  "utf8_decode [] = []"
| "utf8_decode (b # bs) =
    (case utf8_next b bs of
       (r, k) \<Rightarrow>
         (case r of None \<Rightarrow> [0xFFFD] | Some p \<Rightarrow> utf16_of_point p) @ utf8_decode (drop k bs))"
  by pat_completeness auto
termination
  by (relation "measure length") auto

text \<open>\<open>isUtf8(buffer)\<close>.\<close>

function is_utf8 :: "bytes \<Rightarrow> bool" where
  "is_utf8 [] = True"
| "is_utf8 (b # bs) =
    (case utf8_next b bs of (r, k) \<Rightarrow> r \<noteq> None \<and> is_utf8 (drop k bs))"
  by pat_completeness auto
termination
  by (relation "measure length") auto

subsection \<open>Letter case\<close>

text \<open>
  \<open>toUpperCase\<close> and \<open>toLowerCase\<close>. The code compares the results with ASCII constants
  only. Beside the ASCII letters, these are the code units whose image consists of ASCII
  letters: long s, dotless i, sharp s and the Latin ligatures, the Kelvin sign. Every other
  non-ASCII code unit is left as it is here; its real image contains a non-ASCII code unit too,
  so that no comparison with an ASCII constant can tell the difference.
\<close>

definition upper_unit :: "16 word \<Rightarrow> jsstr" where
  "upper_unit u =
    (if 0x61 \<le> u \<and> u \<le> 0x7A then [u - 0x20]
     else if u = 0x131 then ascii ''I''
     else if u = 0x17F then ascii ''S''
     else if u = 0xDF then ascii ''SS''
     else if u = 0xFB00 then ascii ''FF''
     else if u = 0xFB01 then ascii ''FI''
     else if u = 0xFB02 then ascii ''FL''
     else if u = 0xFB03 then ascii ''FFI''
     else if u = 0xFB04 then ascii ''FFL''
     else if u = 0xFB05 \<or> u = 0xFB06 then ascii ''ST''
     else [u])"

definition to_upper :: "jsstr \<Rightarrow> jsstr" where
  "to_upper s = concat (map upper_unit s)"

definition lower_unit :: "16 word \<Rightarrow> jsstr" where
  "lower_unit u =
    (if 0x41 \<le> u \<and> u \<le> 0x5A then [u + 0x20]
     else if u = 0x212A then ascii ''k''
     else if u = 0x130 then [0x69, 0x307]
     else [u])"

definition to_lower :: "jsstr \<Rightarrow> jsstr" where
  "to_lower s = concat (map lower_unit s)"

section \<open>Dynamically typed values\<close>

text \<open>
  A value of type \<open>unknown\<close>. A finite integral number other than \<open>-0\<close> is
  \<open>JInt\<close>; every other number (fractions, \<open>-0\<close>, infinities, NaN) is \<open>JFloat\<close> with its
  64-bit IEEE pattern. \<open>JHole\<close> stands for a missing slot of a sparse array and occurs
  only as an array element. \<open>JObj\<close> is a plain object (prototype \<open>Object.prototype\<close> or
  null) with its own enumerable properties in order; \<open>JMap\<close> a \<open>Map\<close>; \<open>JErr\<close> an error
  object kept as a value; \<open>JOther\<close> anything else (functions, class instances).
\<close>

datatype jsval =
    JUndef
  | JNull
  | JBool bool
  | JInt int
  | JFloat "64 word"
  | JBig int
  | JStr jsstr
  | JBuf bytes
  | JU8 bytes
  | JSym jsstr
  | JArr "jsval list"
  | JObj "(jsstr \<times> jsval) list"
  | JMap "(jsval \<times> jsval) list"
  | JHole
  | JOther

text \<open>What is thrown: the class of the error, its message, and the values the message or the
  error's fields carry.\<close>

datatype err_class =
    FerricStoreError
  | RequestFrameTooLargeError
  | RequestTimeoutError
  | ConnectionClosedError
  | RequestNotSentError
  | OverloadedError
  | RerouteError
  | FlowAlreadyExistsError
  | FlowWrongStateError
  | StaleLeaseError
  | StalePolicyGenerationError
  | FlowNotFoundError
  | LockHeldError
  | LockNotOwnedError
  | InvalidCommandError
  | HTTPTransportError
  | TypeErr
  | RangeErr
  | SyntaxErr

datatype error = Thrown err_class string "jsval list"

type_synonym 'a res = "error + 'a"

abbreviation ferric_error :: "string \<Rightarrow> error" where
  "ferric_error msg \<equiv> Thrown FerricStoreError msg []"

abbreviation MAX_SAFE :: int where "MAX_SAFE \<equiv> 9007199254740991"

text \<open>\<open>value == null\<close>.\<close>

definition nullish :: "jsval \<Rightarrow> bool" where
  "nullish v \<longleftrightarrow> v = JUndef \<or> v = JNull \<or> v = JHole"

definition safe_int :: "int \<Rightarrow> bool" where
  "safe_int i \<longleftrightarrow> - MAX_SAFE \<le> i \<and> i \<le> MAX_SAFE"

text \<open>\<open>Object.hasOwn\<close> and property access on a plain object.\<close>

definition own :: "jsstr \<Rightarrow> (jsstr \<times> jsval) list \<Rightarrow> jsval option" where
  "own k kvs = map_of kvs k"

section \<open>Big-endian integers in buffers\<close>

text \<open>\<open>k\<close> bytes of a natural number, most significant first, and back.\<close>

fun be_bytes :: "nat \<Rightarrow> nat \<Rightarrow> bytes" where
  "be_bytes 0 n = []"
| "be_bytes (Suc k) n = of_nat (n div 256 ^ k) # be_bytes k n"

fun be_nat :: "bytes \<Rightarrow> nat" where
  "be_nat [] = 0"
| "be_nat (b # bs) = unat b * 256 ^ length bs + be_nat bs"

text \<open>\<open>Buffer.concat(list, totalLength)\<close> cuts or zero-fills to the given length.\<close>

definition buffer_concat :: "bytes list \<Rightarrow> nat \<Rightarrow> bytes" where
  "buffer_concat bufs n = take n (concat bufs @ replicate n 0)"

text \<open>\<open>writeUInt8\<close>, \<open>writeUInt16BE\<close>, \<open>writeUInt32BE\<close>, \<open>writeBigUInt64BE\<close> of width
  \<open>k\<close> bytes: a value out of range throws a \<open>RangeError\<close>.\<close>

definition write_uint :: "nat \<Rightarrow> int \<Rightarrow> bytes res" where
  "write_uint k n =
    (if 0 \<le> n \<and> n < 256 ^ k then Inr (be_bytes k (nat n))
     else Inl (Thrown RangeErr ''ERR_OUT_OF_RANGE'' [JInt n]))"

text \<open>\<open>writeBigInt64BE\<close>: two's complement.\<close>

definition write_i64 :: "int \<Rightarrow> bytes res" where
  "write_i64 n =
    (if - (2 ^ 63) \<le> n \<and> n < 2 ^ 63 then Inr (be_bytes 8 (nat (n mod 2 ^ 64)))
     else Inl (Thrown RangeErr ''ERR_OUT_OF_RANGE'' [JBig n]))"

definition read_i64 :: "bytes \<Rightarrow> int" where
  "read_i64 bs = (let n = int (be_nat bs) in if n < 2 ^ 63 then n else n - 2 ^ 64)"

subsection \<open>Reading back what was written\<close>

lemma length_be_bytes [simp]: "length (be_bytes k n) = k"
  by (induction k) auto

lemma be_nat_be_bytes_mod: "be_nat (be_bytes k n) = n mod 256 ^ k"
proof (induction k)
  case (Suc k)
  have "unat (of_nat (n div 256 ^ k) :: byte) = n div 256 ^ k mod 256"
    by (simp add: unat_of_nat)
  moreover have "n mod (256 ^ k * 256) = 256 ^ k * (n div 256 ^ k mod 256) + n mod 256 ^ k"
    by (rule mod_mult2_eq)
  ultimately show ?case using Suc by (simp add: mult.commute)
qed simp

lemma be_nat_be_bytes [simp]: "n < 256 ^ k \<Longrightarrow> be_nat (be_bytes k n) = n"
  by (simp add: be_nat_be_bytes_mod)

lemma unat_byte: "unat (b :: byte) < 256"
  using unsigned_less [of b, where ?'a = nat] by simp

lemma be_nat_bound: "be_nat bs < 256 ^ length bs"
proof (induction bs)
  case (Cons b bs)
  have "unat b * 256 ^ length bs + be_nat bs < (unat b + 1) * 256 ^ length bs"
    using Cons by simp
  also have "\<dots> \<le> 256 * 256 ^ length bs"
    using unat_byte [of b] by (intro mult_right_mono) auto
  finally show ?case by simp
qed simp

lemma be_bytes_shift: "be_bytes k (m * 256 ^ k + n) = be_bytes k n"
proof (induction k arbitrary: m)
  case (Suc k)
  have "(m * (256 * 256 ^ k) + n) div 256 ^ k = m * 256 + n div 256 ^ k"
    by (simp add: div_add1_eq algebra_simps)
  moreover have "unat (of_nat (m * 256 + n div 256 ^ k) :: byte) =
      unat (of_nat (n div 256 ^ k) :: byte)"
    unfolding unat_of_nat by simp
  ultimately have "(of_nat ((m * (256 * 256 ^ k) + n) div 256 ^ k) :: byte) =
      of_nat (n div 256 ^ k)"
    by (metis word_unat_eq_iff)
  moreover have "be_bytes k (m * (256 * 256 ^ k) + n) = be_bytes k n"
    using Suc [of "m * 256"] by (simp add: mult.assoc)
  ultimately show ?case by (simp only: be_bytes.simps power_Suc)
qed simp

lemma be_bytes_be_nat: "be_bytes (length bs) (be_nat bs) = bs"
proof (induction bs)
  case (Cons b bs)
  have "(unat b * 256 ^ length bs + be_nat bs) div 256 ^ length bs = unat b"
    using be_nat_bound [of bs] by simp
  with Cons be_bytes_shift [of "length bs" "unat b" "be_nat bs"] show ?case by simp
qed simp

lemma write_uint_Inr: "write_uint k n = Inr bs \<longleftrightarrow> 0 \<le> n \<and> n < 256 ^ k \<and> bs = be_bytes k (nat n)"
  by (auto simp: write_uint_def)

lemma read_write_i64: "write_i64 n = Inr bs \<Longrightarrow> length bs = 8 \<and> read_i64 bs = n"
proof -
  assume "write_i64 n = Inr bs"
  then have n: "- (2 ^ 63) \<le> n" "n < 2 ^ 63" and bs: "bs = be_bytes 8 (nat (n mod 2 ^ 64))"
    by (auto simp: write_i64_def split: if_splits)
  have "nat (n mod 2 ^ 64) < 256 ^ 8"
    by (simp add: nat_less_iff)
  then have "int (be_nat bs) = n mod 2 ^ 64" by (simp add: bs)
  moreover have "n mod 2 ^ 64 = (if 0 \<le> n then n else n + 2 ^ 64)"
  proof (cases "0 \<le> n")
    case False
    have "n mod 2 ^ 64 = (n + 2 ^ 64) mod 2 ^ 64" by simp
    also have "\<dots> = n + 2 ^ 64" using n False by (intro mod_pos_pos_trivial) auto
    finally show ?thesis using False by simp
  qed (use n in simp)
  ultimately show ?thesis using n bs by (simp add: read_i64_def Let_def)
qed

end
