(* ===== verification/Utf8.thy ===== *)
theory Utf8
  imports JsValue
begin

unbundle bit_operations_syntax

text \<open>
  Laws of the UTF-8 conversions of \<open>JsValue\<close>: every encoded code point is decoded as
  itself whatever follows it, encoding yields valid UTF-8, decoding inverts encoding on
  well-formed strings, and an ASCII code unit cuts the encoding of a string at the same place
  as it cuts the string. The bit arithmetic is done on the naturals the words denote.
\<close>

section \<open>Bit arithmetic of lead and continuation bytes\<close>

lemma nat_or_add: "a OR b = a + b" if "2 ^ k dvd a" "b < 2 ^ k" for a b :: nat
proof -
  have b: "b = take_bit k b" using that(2) by (simp add: take_bit_nat_eq_self)
  from that obtain c where a: "a = push_bit k c" by (auto simp: push_bit_eq_mult dvd_def ac_simps)
  have "a AND b = 0"
    by (subst b, subst a, rule bit_eqI) (auto simp: bit_simps)
  then show ?thesis by (simp add: disjunctive_add_eq_or)
qed

lemma nat_and_mask: "a AND (2 ^ k - 1) = a mod 2 ^ k" for a :: nat
  by (metis mask_eq_exp_minus_1 take_bit_eq_mask take_bit_eq_mod)

lemmas nat_masks = nat_and_mask [of _ 3, simplified] nat_and_mask [of _ 4, simplified]
  nat_and_mask [of _ 5, simplified] nat_and_mask [of _ 6, simplified]

lemma unat_ucast_mod: "unat (ucast w :: 'b::len word) = unat w mod 2 ^ LENGTH('b)"
  by (simp only: unsigned_ucast_eq take_bit_eq_mod)

lemma unat_u8_ucast: "unat (ucast p :: byte) = unat p mod 256" for p :: "32 word"
  by (simp add: unat_ucast_mod)
lemma unat_u32_ucast: "unat (ucast b :: 32 word) = unat b" for b :: byte
  using unat_byte [of b] by (simp add: unsigned_ucast_eq take_bit_eq_mod)
lemma unat_drop: "unat (drop_bit k p) = unat p div 2 ^ k" for p :: "'a::len word"
  by (simp only: unat_drop_bit_eq) (simp add: drop_bit_eq_div)

lemma n_or: "b < 64 \<Longrightarrow> (128::nat) OR b = 128 + b"
   "b < 64 \<Longrightarrow> (192::nat) OR b = 192 + b" "b < 16 \<Longrightarrow> (224::nat) OR b = 224 + b"
 "b < 8 \<Longrightarrow> (240::nat) OR b = 240 + b"
  using nat_or_add [of 6 128 b] nat_or_add [of 6 192 b] nat_or_add [of 4 224 b] nat_or_add [of 3 240 b]
  by simp_all

lemma cont_byte: "unat (ucast (0x80 OR (q AND 0x3F)) :: byte) = 128 + unat q mod 64" for q :: "32 word"
proof -
  have "unat (0x80 OR (q AND 0x3F)) = 128 OR (unat q mod 64)"
    by (simp add: unsigned_or_eq unsigned_and_eq nat_masks)
  also have "\<dots> = 128 + unat q mod 64" by (rule n_or) simp
  finally show ?thesis unfolding unat_u8_ucast by simp
qed

lemma lead_byte:
  fixes q :: "32 word"
  shows "unat q < 32 \<Longrightarrow> unat (ucast (0xC0 OR q) :: byte) = 192 + unat q"
    and "unat q < 16 \<Longrightarrow> unat (ucast (0xE0 OR q) :: byte) = 224 + unat q"
    and "unat q < 8 \<Longrightarrow> unat (ucast (0xF0 OR q) :: byte) = 240 + unat q"
  unfolding unat_u8_ucast unsigned_or_eq by (simp_all add: n_or)

lemma tail_acc:
  fixes cp :: "32 word" and c :: byte
  assumes "unat cp < 2 ^ 26"
  shows "unat (push_bit 6 cp OR (ucast c AND 0x3F)) = unat cp * 64 + unat c mod 64"
proof -
  have "unat (push_bit 6 cp) = unat cp * 64"
    using assms by (simp only: unsigned_push_bit_eq) (simp add: push_bit_eq_mult take_bit_eq_mod)
  moreover have "unat (ucast c AND (0x3F :: 32 word)) = unat c mod 64"
    by (simp only: unsigned_and_eq unat_u32_ucast) (simp add: nat_masks)
  moreover have "unat cp * 64 OR unat c mod 64 = unat cp * 64 + unat c mod 64"
    by (rule nat_or_add [of 6]) simp_all
  ultimately show ?thesis by (simp add: unsigned_or_eq)
qed

lemma lead_bits:
  fixes b :: byte
  shows "unat (ucast b AND (0x1F :: 32 word)) = unat b mod 32"
    and "unat (ucast b AND (0x0F :: 32 word)) = unat b mod 16"
    and "unat (ucast b AND (0x07 :: 32 word)) = unat b mod 8"
  by (simp_all only: unsigned_and_eq unat_u32_ucast) (simp_all add: nat_masks)

section \<open>Decoding one encoded code point\<close>

definition scalar :: "32 word \<Rightarrow> bool" where
  "scalar p \<longleftrightarrow> p < 0xD800 \<or> (0xE000 \<le> p \<and> p < 0x110000)"

lemma div_64_64: "n div 4096 = n div 64 div 64" "n div 262144 = n div 64 div 64 div 64" for n :: nat
  by (simp_all add: div_mult2_eq [symmetric])

lemma lead_mod:
  "x < 32 \<Longrightarrow> (192 + x) mod 32 = x" "x < 16 \<Longrightarrow> (224 + x) mod 16 = x"
  "x < 8 \<Longrightarrow> (240 + x) mod 8 = x" for x :: nat
  using mod_mult_self3 [of 6 32 x] mod_mult_self3 [of 14 16 x] mod_mult_self3 [of 30 8 x] by simp_all

lemma cont_mod: "(128 + x mod 64) mod 64 = x mod 64" for x :: nat
  using mod_mult_self3 [of 2 64 "x mod 64"] by simp

lemma tail_step:
  fixes cp :: "32 word" and c :: byte
  assumes "unat cp = a" "unat c = 128 + q mod 64" "a < 2 ^ 26" "r = a * 64 + q mod 64"
  shows "unat (push_bit 6 cp OR (ucast c AND 0x3F)) = r"
  using tail_acc [of cp c] assms by (simp only: cont_mod)

lemma two_bytes:
  assumes "0x80 \<le> unat p" "unat p < 0x800"
  shows "utf8_next (ucast (0xC0 OR drop_bit 6 p)) (ucast (0x80 OR (p AND 0x3F)) # rest) = (Some p, 1)"
proof -
  let ?l = "ucast (0xC0 OR drop_bit 6 p) :: byte" and ?c = "ucast (0x80 OR (p AND 0x3F)) :: byte"
  have b: "unat p div 64 < 32" "2 \<le> unat p div 64"
    using assms by (simp_all add: less_mult_imp_div_less)
  have l: "unat ?l = 192 + unat p div 64" using b by (subst lead_byte) (auto simp: unat_drop)
  have a1: "unat (ucast ?l AND (0x1F :: 32 word)) = unat p div 64"
    by (simp only: lead_bits l lead_mod b)
  have "unat (push_bit 6 (ucast ?l AND 0x1F) OR (ucast ?c AND (0x3F :: 32 word))) = unat p"
    by (rule tail_step [OF a1 cont_byte]) (use b in simp_all)
  then have "push_bit 6 (ucast ?l AND 0x1F) OR (ucast ?c AND 0x3F) = p"
    by (simp add: word_unat_eq_iff)
  with b l show ?thesis
    by (simp add: utf8_next_def word_less_nat_alt word_le_nat_alt cont_byte)
qed

lemma utf8_next_three:
  assumes "224 \<le> unat b" "unat b \<le> 239"
  shows "utf8_next b bs = utf8_tail 2 (if unat b = 224 then 0xA0 else 0x80)
    (if unat b = 237 then 0x9F else 0xBF) (ucast b AND 0x0F) bs"
  using assms by (simp add: utf8_next_def word_less_nat_alt word_le_nat_alt word_unat_eq_iff)

lemma utf8_next_four:
  assumes "240 \<le> unat b" "unat b \<le> 244"
  shows "utf8_next b bs = utf8_tail 3 (if unat b = 240 then 0x90 else 0x80)
    (if unat b = 244 then 0x8F else 0xBF) (ucast b AND 0x07) bs"
  using assms by (simp add: utf8_next_def word_less_nat_alt word_le_nat_alt word_unat_eq_iff)

lemma utf8_tail_2:
  "utf8_tail 2 lo hi cp (c # d # bs) = (if lo \<le> c \<and> c \<le> hi \<and> 0x80 \<le> d \<and> d \<le> 0xBF
     then (Some (push_bit 6 (push_bit 6 cp OR (ucast c AND 0x3F)) OR (ucast d AND 0x3F)), 2)
     else if lo \<le> c \<and> c \<le> hi then (None, 1) else (None, 0))"
  by (simp add: numeral_2_eq_2)

lemma utf8_tail_3:
  "utf8_tail 3 lo hi cp (c # cs) =
    (if lo \<le> c \<and> c \<le> hi then
       (case utf8_tail 2 0x80 0xBF (push_bit 6 cp OR (ucast c AND 0x3F)) cs of
          (r, k) \<Rightarrow> (r, Suc k))
     else (None, 0))"
  unfolding numeral_3_eq_3 numeral_2_eq_2 by (simp only: utf8_tail.simps)

lemma div_mod_64:
  fixes n :: nat
  obtains a r where "n = a * 64 + r" "r < 64" "n div 64 = a" "n mod 64 = r"
  by (rule that [of "n div 64" "n mod 64"]) simp_all

lemma cont_range: "0x80 \<le> (ucast (0x80 OR (q AND 0x3F)) :: byte)" 
  "(ucast (0x80 OR (q AND 0x3F)) :: byte) \<le> 0xBF" for q :: "32 word"
proof -
  have "unat q mod 64 < 64" by simp
  then show "0x80 \<le> (ucast (0x80 OR (q AND 0x3F)) :: byte)"
    "(ucast (0x80 OR (q AND 0x3F)) :: byte) \<le> 0xBF"
    unfolding word_le_nat_alt cont_byte by simp_all
qed

lemma three_bytes:
  assumes "0x800 \<le> unat p" "unat p < 0xD800 \<or> 0xE000 \<le> unat p" "unat p < 0x10000"
  shows "utf8_next (ucast (0xE0 OR drop_bit 12 p))
    (ucast (0x80 OR (drop_bit 6 p AND 0x3F)) # ucast (0x80 OR (p AND 0x3F)) # rest) = (Some p, 2)"
proof -
  let ?l = "ucast (0xE0 OR drop_bit 12 p) :: byte"
    and ?m = "ucast (0x80 OR (drop_bit 6 p AND 0x3F)) :: byte"
    and ?c = "ucast (0x80 OR (p AND 0x3F)) :: byte"
  define y where "y = unat p div 64"
  obtain s where s: "unat p = y * 64 + s" "s < 64"
    using div_mod_64 [of "unat p"] y_def by blast
  obtain a r where y: "y = a * 64 + r" "r < 64" "y div 64 = a" "y mod 64 = r"
    by (rule div_mod_64)
  have b: "a < 16" "a = 0 \<longrightarrow> 32 \<le> r" "a = 13 \<longrightarrow> r < 32" using assms y(1,2) s by linarith+
  have l: "unat ?l = 224 + a"
    using b y by (subst lead_byte) (auto simp: unat_drop y_def div_64_64)
  have a1: "unat (ucast ?l AND (0x0F :: 32 word)) = a"
    by (simp only: lead_bits l lead_mod b)
  have m: "unat ?m = 128 + y mod 64" by (simp add: cont_byte unat_drop y_def)
  have a2: "unat (push_bit 6 (ucast ?l AND 0x0F) OR (ucast ?m AND (0x3F :: 32 word))) = y"
    by (rule tail_step [OF a1 m]) (use b y in simp_all)
  have "unat (push_bit 6 (push_bit 6 (ucast ?l AND 0x0F) OR (ucast ?m AND (0x3F :: 32 word))) OR (ucast ?c AND (0x3F :: 32 word))) = unat p"
    by (rule tail_step [OF a2 cont_byte]) (use y b in simp, simp add: y_def)
  then have e: "push_bit 6 (push_bit 6 (ucast ?l AND 0x0F) OR (ucast ?m AND (0x3F :: 32 word))) OR (ucast ?c AND (0x3F :: 32 word)) = p"
    by (simp add: word_unat_eq_iff)
  have "a = 0 \<longrightarrow> 0xA0 \<le> ?m" "a = 13 \<longrightarrow> ?m \<le> 0x9F"
    unfolding word_le_nat_alt m y(4) using b by auto
  moreover have "utf8_next ?l (?m # ?c # rest) = utf8_tail 2 (if a = 0 then 0xA0 else 0x80)
     (if a = 13 then 0x9F else 0xBF) (ucast ?l AND 0x0F) (?m # ?c # rest)"
    using utf8_next_three [of ?l "?m # ?c # rest"] l b by simp
  ultimately show ?thesis
    unfolding utf8_tail_2 e by (auto simp only: cont_range if_True if_False simp_thms split: if_splits)
qed

lemma four_bytes:
  assumes "0x10000 \<le> unat p" "unat p < 0x110000"
  shows "utf8_next (ucast (0xF0 OR drop_bit 18 p))
    (ucast (0x80 OR (drop_bit 12 p AND 0x3F)) # ucast (0x80 OR (drop_bit 6 p AND 0x3F))
      # ucast (0x80 OR (p AND 0x3F)) # rest) = (Some p, 3)"
proof -
  let ?l = "ucast (0xF0 OR drop_bit 18 p) :: byte"
    and ?k = "ucast (0x80 OR (drop_bit 12 p AND 0x3F)) :: byte"
    and ?m = "ucast (0x80 OR (drop_bit 6 p AND 0x3F)) :: byte"
    and ?c = "ucast (0x80 OR (p AND 0x3F)) :: byte"
  define y where "y = unat p div 64"
  define x where "x = y div 64"
  obtain s where s: "unat p = y * 64 + s" "s < 64"
    using div_mod_64 [of "unat p"] y_def by blast
  obtain t where t: "y = x * 64 + t" "t < 64"
    using div_mod_64 [of y] x_def by blast
  obtain a r where x: "x = a * 64 + r" "r < 64" "x div 64 = a" "x mod 64 = r"
    by (rule div_mod_64)
  have b: "a < 5" "a = 0 \<longrightarrow> 16 \<le> r" "a = 4 \<longrightarrow> r < 16" using assms x(1,2) s t by linarith+
  have l: "unat ?l = 240 + a"
    using b x by (subst lead_byte) (auto simp: unat_drop y_def x_def div_64_64)
  have a1: "unat (ucast ?l AND (0x07 :: 32 word)) = a"
    using b by (simp add: lead_bits l lead_mod)
  have k: "unat ?k = 128 + x mod 64" by (simp add: cont_byte unat_drop y_def x_def div_64_64)
  have m: "unat ?m = 128 + y mod 64" by (simp add: cont_byte unat_drop y_def)
  have a2: "unat (push_bit 6 (ucast ?l AND 0x07) OR (ucast ?k AND (0x3F :: 32 word))) = x"
    by (rule tail_step [OF a1 k]) (use b x in simp_all)
  have a3: "unat (push_bit 6 (push_bit 6 (ucast ?l AND 0x07) OR (ucast ?k AND 0x3F)) OR (ucast ?m AND (0x3F :: 32 word))) = y"
    by (rule tail_step [OF a2 m]) (use b x in simp, simp add: x_def)
  have "unat (push_bit 6 (push_bit 6 (push_bit 6 (ucast ?l AND 0x07) OR (ucast ?k AND 0x3F)) OR (ucast ?m AND 0x3F)) OR (ucast ?c AND (0x3F :: 32 word))) = unat p"
    by (rule tail_step [OF a3 cont_byte]) (use x b t in simp, simp add: y_def)
  then have e: "push_bit 6 (push_bit 6 (push_bit 6 (ucast ?l AND 0x07) OR (ucast ?k AND 0x3F)) OR (ucast ?m AND 0x3F)) OR (ucast ?c AND (0x3F :: 32 word)) = p"
    by (simp add: word_unat_eq_iff)
  have "a = 0 \<longrightarrow> 0x90 \<le> ?k" "a = 4 \<longrightarrow> ?k \<le> 0x8F"
    unfolding word_le_nat_alt k x(4) using b by auto
  moreover have "utf8_next ?l (?k # ?m # ?c # rest) = utf8_tail 3 (if a = 0 then 0x90 else 0x80)
     (if a = 4 then 0x8F else 0xBF) (ucast ?l AND 0x07) (?k # ?m # ?c # rest)"
    using utf8_next_four [of ?l "?k # ?m # ?c # rest"] l b by simp
  moreover have "(3 :: nat) = Suc 2" by simp
  ultimately show ?thesis
    unfolding utf8_tail_3 utf8_tail_2 e
    by (simp only: cont_range if_True if_False simp_thms prod.case split: if_splits) 
qed

lemma utf8_next_point:
  assumes "scalar p"
  shows "\<exists>b bs. utf8_of_point p = b # bs \<and> utf8_next b (bs @ rest) = (Some p, length bs)"
proof -
  have np: "unat p < 0xD800 \<or> 0xE000 \<le> unat p" "unat p < 0x110000"
    using assms by (auto simp: scalar_def word_less_nat_alt word_le_nat_alt)
  consider (a) "unat p < 0x80" | (b) "0x80 \<le> unat p" "unat p < 0x800"
    | (c) "0x800 \<le> unat p" "unat p < 0x10000" | (d) "0x10000 \<le> unat p" by linarith
  then show ?thesis
  proof cases
    case a
    have "(ucast (ucast p :: byte) :: 32 word) = p"
      using a by (simp add: word_unat_eq_iff unat_u32_ucast unat_u8_ucast)
    with a show ?thesis
      by (simp add: utf8_of_point_def utf8_next_def word_less_nat_alt unat_u8_ucast)
  next
    case b
    then show ?thesis
      by (simp add: utf8_of_point_def word_less_nat_alt two_bytes)
  next
    case c
    then show ?thesis using np
      by (simp add: utf8_of_point_def word_less_nat_alt three_bytes)
  next
    case d
    then show ?thesis using np
      by (simp add: utf8_of_point_def word_less_nat_alt four_bytes)
  qed
qed

lemma utf8_decode_point:
  assumes "scalar p"
  shows "utf8_decode (utf8_of_point p @ rest) = utf16_of_point p @ utf8_decode rest"
proof -
  obtain b bs where "utf8_of_point p = b # bs" "utf8_next b (bs @ rest) = (Some p, length bs)"
    using utf8_next_point [OF assms] by blast
  then show ?thesis by simp
qed

lemma is_utf8_point:
  assumes "scalar p"
  shows "is_utf8 (utf8_of_point p @ rest) = is_utf8 rest"
proof -
  obtain b bs where "utf8_of_point p = b # bs" "utf8_next b (bs @ rest) = (Some p, length bs)"
    using utf8_next_point [OF assms] by blast
  then show ?thesis by simp
qed

section \<open>Surrogate pairs\<close>

lemma unat_16: "unat (u :: 16 word) < 65536"
  using unsigned_less [of u, where ?'a = nat] by simp

lemma unat_32_16: "unat (ucast (u :: 16 word) :: 32 word) = unat u"
  using unat_16 [of u] by (simp add: unsigned_ucast_eq take_bit_eq_mod)

lemma unat_pair_point:
  assumes "is_high u" "is_low v"
  shows "unat (pair_point u v) = 0x10000 + (unat u - 0xD800) * 1024 + (unat v - 0xDC00)"
proof -
  have u: "0xD800 \<le> unat u" "unat u \<le> 0xDBFF" and v: "0xDC00 \<le> unat v" "unat v \<le> 0xDFFF"
    using assms by (simp_all add: is_high_def is_low_def word_le_nat_alt)
  have a: "(ucast u - 0xD800 :: 32 word) = of_nat (unat u - 0xD800)"
    using u by simp
  have b: "(ucast v :: 32 word) = of_nat (unat v - 0xDC00) + 0xDC00"
    using v by simp
  have "pair_point u v = of_nat (0x10000 + (unat u - 0xD800) * 1024 + (unat v - 0xDC00))"
    unfolding pair_point_def a b push_bit_eq_mult by simp
  moreover have "0x10000 + (unat u - 0xD800) * 1024 + (unat v - 0xDC00) < 2 ^ LENGTH(32)"
    using u v by simp
  ultimately show ?thesis by (simp only: unat_of_nat mod_less)
qed

lemma nat_and_1023: "a AND 1023 = a mod 1024" for a :: nat
  using nat_and_mask [of a 10] by simp

lemma pair_roundtrip:
  assumes "is_high u" "is_low v"
  shows "scalar (pair_point u v)" "utf16_of_point (pair_point u v) = [u, v]"
proof -
  define p where "p = pair_point u v"
  define a b where "a = unat u - 0xD800" "b = unat v - 0xDC00"
  have u: "unat u = 0xD800 + a" "a < 1024" and v: "unat v = 0xDC00 + b" "b < 1024"
    using assms by (auto simp: is_high_def is_low_def word_le_nat_alt a_b_def)
  have p: "unat p = 0x10000 + a * 1024 + b"
    unfolding p_def a_b_def by (rule unat_pair_point [OF assms])
  show "scalar (pair_point u v)"
    unfolding p_def [symmetric] scalar_def word_less_nat_alt word_le_nat_alt using p u v by simp
  have d: "unat (p - 0x10000) = a * 1024 + b"
    using p by (subst unat_sub) (simp_all add: word_le_nat_alt)
  have "unat (0xD800 + drop_bit 10 (p - 0x10000)) = 0xD800 + a"
    using u v by (simp add: unat_word_ariths unat_drop d)
  moreover have "unat ((p - 0x10000) AND 0x3FF) = b"
    using u v d by (simp add: unsigned_and_eq nat_and_1023)
  ultimately have "ucast (0xD800 + drop_bit 10 (p - 0x10000)) = u"
    "ucast (0xDC00 + ((p - 0x10000) AND 0x3FF)) = v"
    using u v by (simp_all add: word_unat_eq_iff unat_ucast_mod unat_word_ariths)
  moreover have "\<not> p < 0x10000" using p by (simp add: word_less_nat_alt)
  ultimately show "utf16_of_point (pair_point u v) = [u, v]"
    unfolding p_def [symmetric] by (simp add: utf16_of_point_def)
qed

lemma unit_roundtrip:
  assumes "\<not> is_high u" "\<not> is_low u"
  shows "scalar (ucast u)" "utf16_of_point (ucast u) = [u]"
proof -
  show "scalar (ucast u)"
    using assms unat_16 [of u]
    by (auto simp: scalar_def is_high_def is_low_def word_less_nat_alt word_le_nat_alt unat_32_16)
  have "(ucast u :: 32 word) < 0x10000"
    using unat_16 [of u] by (simp add: word_less_nat_alt unat_32_16)
  moreover have "(ucast (ucast u :: 32 word) :: 16 word) = u"
    using unat_16 [of u] by (simp add: word_unat_eq_iff unat_ucast_mod)
  ultimately show "utf16_of_point (ucast u) = [u]" by (simp add: utf16_of_point_def)
qed

section \<open>Whole strings\<close>

lemma utf8_encode_valid: "is_utf8 (utf8_encode s)"
proof (induction s rule: utf8_encode.induct)
  case (2 u us)
  have r: "scalar 0xFFFD" by (simp add: scalar_def)
  show ?case
    using 2 r pair_roundtrip(1) unit_roundtrip(1) is_utf8_point [OF r, of "[]"]
    by (auto simp: is_utf8_point split: list.splits)
qed simp

lemma utf8_decode_encode: "well_formed s \<Longrightarrow> utf8_decode (utf8_encode s) = s"
proof (induction s rule: utf8_encode.induct)
  case (2 u us)
  show ?case
  proof (cases "is_high u")
    case True
    with "2.prems" obtain v vs where us: "us = v # vs" "is_low v" "well_formed vs"
      by (auto split: list.splits)
    with True "2.IH"(1) [OF True us(1,2)] show ?thesis
      by (simp add: utf8_decode_point pair_roundtrip)
  next
    case False
    with "2.prems" have "\<not> is_low u" "well_formed us" by auto
    with False "2.IH"(4) show ?thesis
      by (simp add: utf8_decode_point unit_roundtrip)
  qed
qed simp

text \<open>An ASCII code unit is one byte, and no other code unit contributes an ASCII byte.\<close>

lemma ascii_unit: "u < 0x80 \<Longrightarrow> \<not> is_high u \<and> \<not> is_low u \<and> utf8_of_point (ucast u) = [ucast u]"
proof -
  assume "u < 0x80"
  then have u: "unat u < 0x80" by (simp add: word_less_nat_alt)
  then have "(ucast u :: 32 word) < 0x80" by (simp add: word_less_nat_alt unat_32_16)
  moreover have "(ucast (ucast u :: 32 word) :: byte) = ucast u"
    using u by (simp add: word_unat_eq_iff unat_ucast_mod)
  ultimately show ?thesis using u
    by (simp add: utf8_of_point_def is_high_def is_low_def word_le_nat_alt)
qed

lemma utf8_encode_append_ascii:
  assumes "c < 0x80"
  shows "utf8_encode (xs @ c # ys) = utf8_encode xs @ ucast c # utf8_encode ys"
proof (induction xs rule: utf8_encode.induct)
  case 1
  then show ?case using ascii_unit [OF assms] by simp
next
  case (2 u us)
  note c = ascii_unit [OF assms]
  show ?case
  proof (cases us)
    case Nil
    then show ?thesis using c by simp
  next
    case (Cons v vs)
    then show ?thesis using 2 by (cases "is_high u"; cases "is_low v"; cases "is_low u") simp_all
  qed
qed

lemma high_byte: "0x80 \<le> (ucast (0xC0 OR q) :: byte)" "0x80 \<le> (ucast (0xE0 OR q) :: byte)"
  "0x80 \<le> (ucast (0xF0 OR q) :: byte)" for q :: "32 word"
proof -
  have "bit (ucast (k OR q) :: byte) 7" if "bit k 7" for k :: "32 word"
    using that by (simp add: bit_simps)
  then have "bit (ucast (0xC0 OR q) :: byte) 7" "bit (ucast (0xE0 OR q) :: byte) 7"
    "bit (ucast (0xF0 OR q) :: byte) 7" by simp_all
  moreover have "0x80 \<le> b" if "bit b 7" for b :: byte
  proof -
    from that have "bit (unat b) 7" by (simp add: bit_unsigned_iff)
    then have "odd (unat b div 128)" by (simp add: bit_iff_odd)
    then have "unat b div 128 \<noteq> 0" by (metis even_zero)
    then show ?thesis by (simp add: word_le_nat_alt)
  qed
  ultimately show "0x80 \<le> (ucast (0xC0 OR q) :: byte)" "0x80 \<le> (ucast (0xE0 OR q) :: byte)"
  "0x80 \<le> (ucast (0xF0 OR q) :: byte)" by blast+
qed

lemma point_bytes_high:
  "\<not> p < 0x80 \<Longrightarrow> b \<in> set (utf8_of_point p) \<Longrightarrow> 0x80 \<le> b"
  by (auto simp: utf8_of_point_def high_byte cont_range split: if_splits)

lemma ascii_in_encode:
  assumes "c < 0x80"
  shows "ucast c \<in> set (utf8_encode xs) \<longleftrightarrow> c \<in> set xs"
proof
  assume "c \<in> set xs"
  then obtain ys zs where "xs = ys @ c # zs" by (meson split_list)
  then show "ucast c \<in> set (utf8_encode xs)" using utf8_encode_append_ascii [OF assms] by simp
next
  have c: "\<not> 0x80 \<le> (ucast c :: byte)"
    using assms by (simp add: word_less_nat_alt word_le_nat_alt unat_ucast_mod)
  have p: "ucast c \<notin> set (utf8_of_point p)" if "\<not> p < 0x80" for p
    using point_bytes_high [OF that] c by blast
  assume "ucast c \<in> set (utf8_encode xs)"
  then show "c \<in> set xs"
  proof (induction xs rule: utf8_encode.induct)
    case (2 u us)
    have r: "ucast c \<notin> set (utf8_of_point 0xFFFD)" by (rule p) simp
    have pp: "ucast c \<notin> set (utf8_of_point (pair_point u v))" if "is_high u" "is_low v" for v
      by (rule p) (simp add: word_less_nat_alt unat_pair_point that)
    have uu: "ucast c \<in> set (utf8_of_point (ucast u)) \<Longrightarrow> c = u"
    proof -
      assume a: "ucast c \<in> set (utf8_of_point (ucast u))"
      then have l: "(ucast u :: 32 word) < 0x80" using p by blast
      then have "unat u < 0x80" by (simp add: word_less_nat_alt unat_32_16)
      with a l assms show "c = u"
        by (simp add: utf8_of_point_def word_unat_eq_iff word_less_nat_alt unat_ucast_mod)
    qed
    show ?case
    proof (cases "is_high u")
      case True
      then show ?thesis using 2 r pp by (auto split: list.splits if_splits)
    next
      case False
      then show ?thesis using 2 r uu by (auto split: if_splits)
    qed
  qed simp
qed

section \<open>Round trip\<close>

text \<open>Encoding a string without lone surrogates as UTF-8 and decoding the bytes gives the string
  back, whatever its characters (one to four bytes each).\<close>

theorem utf8_roundtrip:
  assumes "well_formed s"
  shows "is_utf8 (utf8_encode s) \<and> utf8_decode (utf8_encode s) = s"
  using assms by (simp add: utf8_encode_valid utf8_decode_encode)

theorem utf8_roundtrip_witness:
  "is_utf8 (utf8_encode [0x41, 0xE9, 0x20AC, 0xD83D, 0xDE00]) \<and>
    utf8_decode (utf8_encode [0x41, 0xE9, 0x20AC, 0xD83D, 0xDE00]) =
      [0x41, 0xE9, 0x20AC, 0xD83D, 0xDE00]"
  by (rule utf8_roundtrip) (simp add: is_high_def is_low_def)

end
