(* ===== verification/ProtocolValue.thy ===== *)
theory ProtocolValue
  imports Utf8
begin

unbundle bit_operations_syntax

text \<open>
  \<open>src/src/protocol-value.ts\<close> and \<open>src/src/protocol-map-key.ts\<close>: the tagged value encoding of the
  native protocol. Encoding is done in two passes, a plan that fixes every length against a byte
  and an item budget, and a writer that fills a buffer allocated from the plan; decoding is bounded
  by a depth and an item budget.

  A JavaScript value is a tree here (\<open>jsval\<close>), so the test for circular references of
  \<open>planContainerValue\<close> has no counterpart; the own properties of an object are a list in
  insertion order (that JavaScript enumerates integer-like names first is not modelled).
\<close>

section \<open>Definitions\<close>

abbreviation DEFAULT_MAX_VALUE_ITEMS :: nat where "DEFAULT_MAX_VALUE_ITEMS \<equiv> 100000"
abbreviation DEFAULT_MAX_VALUE_DEPTH :: nat where "DEFAULT_MAX_VALUE_DEPTH \<equiv> 64"
abbreviation NULL_U32 :: nat where "NULL_U32 \<equiv> 0xFFFFFFFF"
abbreviation MIN_I64 :: int where "MIN_I64 \<equiv> - 9223372036854775808"
abbreviation MAX_I64 :: int where "MAX_I64 \<equiv> 9223372036854775807"
abbreviation MAX_U64 :: int where "MAX_U64 \<equiv> 18446744073709551615"

definition request_frame_too_large :: "nat \<Rightarrow> error" where
  "request_frame_too_large max_bytes =
    Thrown RequestFrameTooLargeError
      ''native protocol request exceeds server-advertised frame limit'' [JInt (int max_bytes)]"

text \<open>\<open>EncodeValuePlan\<close>; a container carries the byte length computed for it, a map entry the byte
  length of its key.\<close>

datatype value_plan =
    PNull | PTrue | PFalse
  | PI64 int
  | PBin bytes
  | PItems nat "value_plan list"
  | PEntries nat "(jsstr \<times> nat \<times> value_plan) list"
  | PDouble "64 word"
  | PU64 int

fun byte_length :: "value_plan \<Rightarrow> nat" where
  "byte_length PNull = 1"
| "byte_length PTrue = 1"
| "byte_length PFalse = 1"
| "byte_length (PI64 _) = 9"
| "byte_length (PBin b) = 5 + length b"
| "byte_length (PItems n _) = n"
| "byte_length (PEntries n _) = n"
| "byte_length (PDouble _) = 9"
| "byte_length (PU64 _) = 9"

record encode_budget =
  max_bytes :: nat
  remaining_bytes :: nat
  remaining_items :: nat

definition consume_encode_bytes :: "encode_budget \<Rightarrow> nat \<Rightarrow> encode_budget res" where
  "consume_encode_bytes budget n =
    (if n > remaining_bytes budget then Inl (request_frame_too_large (max_bytes budget))
     else Inr (budget\<lparr>remaining_bytes := remaining_bytes budget - n\<rparr>))"

definition plan_leaf :: "encode_budget \<Rightarrow> value_plan \<Rightarrow> (value_plan \<times> encode_budget) res" where
  "plan_leaf budget plan =
    rbind (consume_encode_bytes budget (byte_length plan)) (\<lambda>budget. Inr (plan, budget))"

definition unsupported_value :: "string \<Rightarrow> error" where
  "unsupported_value ty = Thrown FerricStoreError ''unsupported native protocol value type'' [JStr (ascii ty)]"

fun plan_scalar :: "jsval \<Rightarrow> encode_budget \<Rightarrow> (value_plan \<times> encode_budget) res" where
  "plan_scalar JUndef budget = plan_leaf budget PNull"
| "plan_scalar JNull budget = plan_leaf budget PNull"
| "plan_scalar (JBool b) budget = plan_leaf budget (if b then PTrue else PFalse)"
| "plan_scalar (JInt i) budget =
    (if \<not> safe_int i then
       Inl (ferric_error ''unsafe integer number; use bigint for exact native encoding'')
     else plan_leaf budget (PI64 i))"
| "plan_scalar (JBig i) budget =
    (if MIN_I64 \<le> i \<and> i \<le> MAX_I64 then plan_leaf budget (PI64 i)
     else if MAX_I64 < i \<and> i \<le> MAX_U64 then plan_leaf budget (PU64 i)
     else Inl (ferric_error ''integer exceeds the signed or unsigned 64-bit native range''))"
| "plan_scalar (JFloat w) budget = plan_leaf budget (PDouble w)"
| "plan_scalar (JStr s) budget = plan_leaf budget (PBin (utf8_encode s))"
| "plan_scalar (JBuf b) budget = plan_leaf budget (PBin b)"
| "plan_scalar (JU8 b) budget = plan_leaf budget (PBin b)"
| "plan_scalar (JSym _) budget = Inl (unsupported_value ''symbol'')"
| "plan_scalar _ budget = Inl (unsupported_value ''object'')"

text \<open>The checks a container passes before its elements are planned.\<close>

definition plan_container_head ::
  "encode_budget \<Rightarrow> nat \<Rightarrow> nat \<Rightarrow> bool \<Rightarrow> encode_budget res" where
  "plan_container_head budget depth count is_array =
    (if depth \<ge> DEFAULT_MAX_VALUE_DEPTH then
       Inl (ferric_error ''native protocol value nesting exceeds max depth'')
     else if count > DEFAULT_MAX_VALUE_ITEMS then
       Inl (ferric_error ''native protocol value container exceeds max items'')
     else if count > remaining_items budget then
       Inl (ferric_error ''native protocol value total items exceed max items'')
     else rbind (consume_encode_bytes
           (budget\<lparr>remaining_items := remaining_items budget - count\<rparr>) 5) (\<lambda>budget.
       if is_array \<and> count > remaining_bytes budget
       then Inl (request_frame_too_large (max_bytes budget))
       else Inr budget))"

fun plan_value :: "jsval \<Rightarrow> encode_budget \<Rightarrow> nat \<Rightarrow> (value_plan \<times> encode_budget) res"
  and plan_items :: "jsval list \<Rightarrow> encode_budget \<Rightarrow> nat \<Rightarrow> (value_plan list \<times> encode_budget) res"
  and plan_entries :: "(jsstr \<times> jsval) list \<Rightarrow> encode_budget \<Rightarrow> nat \<Rightarrow>
    ((jsstr \<times> nat \<times> value_plan) list \<times> encode_budget) res"
where
  "plan_value (JArr xs) budget depth =
    rbind (plan_container_head budget depth (length xs) True) (\<lambda>budget.
    rbind (plan_items xs budget (depth + 1)) (\<lambda>(items, budget).
    Inr (PItems (5 + sum_list (map byte_length items)) items, budget)))"
| "plan_value (JObj kvs) budget depth =
    rbind (plan_container_head budget depth (length kvs) False) (\<lambda>budget.
    rbind (plan_entries kvs budget (depth + 1)) (\<lambda>(entries, budget).
    Inr (PEntries (5 + sum_list (map (\<lambda>(key, klen, plan). 4 + klen + byte_length plan) entries))
      entries, budget)))"
| "plan_value v budget depth = plan_scalar v budget"
| "plan_items [] budget depth = Inr ([], budget)"
| "plan_items (x # xs) budget depth =
    (if x = JHole then Inl (ferric_error ''native protocol value arrays must be dense'')
     else rbind (plan_value x budget depth) (\<lambda>(item, budget).
       rbind (plan_items xs budget depth) (\<lambda>(items, budget). Inr (item # items, budget))))"
| "plan_entries [] budget depth = Inr ([], budget)"
| "plan_entries ((key, v) # kvs) budget depth =
    rbind (consume_encode_bytes budget (4 + length (utf8_encode key))) (\<lambda>budget.
    rbind (plan_value v budget depth) (\<lambda>(plan, budget).
    rbind (plan_entries kvs budget depth) (\<lambda>(plans, budget).
    Inr ((key, length (utf8_encode key), plan) # plans, budget))))"

definition plan_value_with_limit :: "jsval \<Rightarrow> nat \<Rightarrow> (value_plan \<times> encode_budget) res" where
  "plan_value_with_limit v limit =
    plan_value v \<lparr>max_bytes = limit, remaining_bytes = limit,
      remaining_items = DEFAULT_MAX_VALUE_ITEMS\<rparr> 0"

text \<open>\<open>writeValuePlan\<close>: the bytes it writes from its start offset on.\<close>

fun write_plan :: "value_plan \<Rightarrow> bytes res"
  and write_items :: "value_plan list \<Rightarrow> bytes res"
  and write_entries :: "(jsstr \<times> nat \<times> value_plan) list \<Rightarrow> bytes res"
where
  "write_plan PNull = write_uint 1 0"
| "write_plan PTrue = write_uint 1 1"
| "write_plan PFalse = write_uint 1 2"
| "write_plan (PI64 i) =
    rbind (write_uint 1 3) (\<lambda>t. rbind (write_i64 i) (\<lambda>b. Inr (t @ b)))"
| "write_plan (PBin v) =
    rbind (write_uint 1 4) (\<lambda>t. rbind (write_uint 4 (int (length v))) (\<lambda>n. Inr (t @ n @ v)))"
| "write_plan (PItems _ items) =
    rbind (write_uint 1 5) (\<lambda>t. rbind (write_uint 4 (int (length items))) (\<lambda>n.
    rbind (write_items items) (\<lambda>b. Inr (t @ n @ b))))"
| "write_plan (PEntries _ entries) =
    rbind (write_uint 1 6) (\<lambda>t. rbind (write_uint 4 (int (length entries))) (\<lambda>n.
    rbind (write_entries entries) (\<lambda>b. Inr (t @ n @ b))))"
| "write_plan (PDouble w) =
    rbind (write_uint 1 7) (\<lambda>t. Inr (t @ be_bytes 8 (unat w)))"
| "write_plan (PU64 i) =
    rbind (write_uint 1 8) (\<lambda>t. rbind (write_uint 8 i) (\<lambda>b. Inr (t @ b)))"
| "write_items [] = Inr []"
| "write_items (item # items) =
    rbind (write_plan item) (\<lambda>b. rbind (write_items items) (\<lambda>bs. Inr (b @ bs)))"
| "write_entries [] = Inr []"
| "write_entries ((key, klen, plan) # entries) =
    rbind (write_uint 4 (int klen)) (\<lambda>n. rbind (write_plan plan) (\<lambda>b.
    rbind (write_entries entries) (\<lambda>bs. Inr (n @ utf8_encode key @ b @ bs))))"

definition encode_value_with_limit :: "jsval \<Rightarrow> nat \<Rightarrow> bytes res" where
  "encode_value_with_limit v limit =
    rbind (plan_value_with_limit v limit) (\<lambda>(plan, budget). write_plan plan)"

definition encode_value :: "jsval \<Rightarrow> bytes res" where
  "encode_value v = encode_value_with_limit v (nat MAX_SAFE)"

subsection \<open>Decoding\<close>

record decode_limits =
  max_depth :: nat
  max_items :: nat

definition value_truncated :: "bytes \<Rightarrow> error" where
  "value_truncated data = Thrown FerricStoreError ''native protocol value is truncated'' [JBuf data]"

definition require_available :: "bytes \<Rightarrow> nat \<Rightarrow> nat \<Rightarrow> unit res" where
  "require_available data off n = require_ok (off + n \<le> length data) (value_truncated data)"

definition consume_decode_items :: "nat \<Rightarrow> nat \<Rightarrow> nat res" where
  "consume_decode_items count remaining =
    (if count > remaining
     then Inl (ferric_error ''native protocol value total items exceed max items'')
     else Inr (remaining - count))"

definition require_value_container ::
  "nat \<Rightarrow> nat \<Rightarrow> decode_limits \<Rightarrow> nat \<Rightarrow> nat res" where
  "require_value_container count depth limits remaining =
    (if depth \<ge> max_depth limits then
       Inl (ferric_error ''native protocol value nesting exceeds max depth'')
     else if count > max_items limits then
       Inl (ferric_error ''native protocol value container exceeds max items'')
     else consume_decode_items count remaining)"

definition read_u32 :: "bytes \<Rightarrow> nat \<Rightarrow> nat" where
  "read_u32 data off = be_nat (subarray off (off + 4) data)"

definition read_binary :: "bytes \<Rightarrow> nat \<Rightarrow> (bytes \<times> nat) res" where
  "read_binary data off =
    rbind (require_available data off 4) (\<lambda>_.
    (let n = read_u32 data off; off = off + 4 in
     if n = NULL_U32 then Inl (ferric_error ''invalid null binary length'')
     else rbind (require_available data off n) (\<lambda>_.
       Inr (subarray off (off + n) data, off + n))))"

text \<open>\<open>Number\<close> of a 64-bit IEEE pattern: an integral finite value other than \<open>-0\<close> is an integer.\<close>

definition js_double :: "64 word \<Rightarrow> jsval" where
  "js_double w =
    (let s = bit w 63; e = unat (drop_bit 52 w) mod 2048; m = unat w mod 2 ^ 52;
         sg = (\<lambda>n. JInt (if s then - int n else int n))
     in if e = 2047 then JFloat w
        else if e = 0 then (if m = 0 \<and> \<not> s then JInt 0 else JFloat w)
        else if e \<ge> 1075 then sg ((m + 2 ^ 52) * 2 ^ (e - 1075))
        else if (m + 2 ^ 52) mod 2 ^ (1075 - e) = 0 then sg ((m + 2 ^ 52) div 2 ^ (1075 - e))
        else JFloat w)"

text \<open>\<open>setProtocolMapEntry\<close> with a key from the wire.\<close>

definition set_protocol_map_entry ::
  "(jsstr \<times> jsval) list \<Rightarrow> bytes \<Rightarrow> jsval \<Rightarrow> (jsstr \<times> jsval) list res" where
  "set_protocol_map_entry target encoded_key v =
    (if \<not> is_utf8 encoded_key then
       Inl (ferric_error ''native protocol map key must be valid UTF-8'')
     else (let key = utf8_decode encoded_key in
       if own key target \<noteq> None then
         Inl (Thrown FerricStoreError
           ''native protocol response contains duplicate map key'' [JStr key])
       else Inr (target @ [(key, v)])))"

function decode_at ::
    "bytes \<Rightarrow> nat \<Rightarrow> decode_limits \<Rightarrow> nat \<Rightarrow> nat \<Rightarrow> (jsval \<times> nat \<times> nat) res"
  and decode_items ::
    "bytes \<Rightarrow> nat \<Rightarrow> nat \<Rightarrow> decode_limits \<Rightarrow> nat \<Rightarrow> nat \<Rightarrow> (jsval list \<times> nat \<times> nat) res"
  and decode_entries ::
    "bytes \<Rightarrow> nat \<Rightarrow> nat \<Rightarrow> (jsstr \<times> jsval) list \<Rightarrow> decode_limits \<Rightarrow> nat \<Rightarrow> nat \<Rightarrow>
      ((jsstr \<times> jsval) list \<times> nat \<times> nat) res"
where
  "decode_at data off limits remaining depth =
    rbind (require_available data off 1) (\<lambda>_.
    (let tag = unat (data ! off); off = off + 1 in
     if tag = 0 then Inr (JNull, off, remaining)
     else if tag = 1 then Inr (JBool True, off, remaining)
     else if tag = 2 then Inr (JBool False, off, remaining)
     else if tag = 3 then
       rbind (require_available data off 8) (\<lambda>_.
       (let i = read_i64 (subarray off (off + 8) data) in
        Inr (if safe_int i then JInt i else JBig i, off + 8, remaining)))
     else if tag = 4 then
       rbind (read_binary data off) (\<lambda>(v, off). Inr (JBuf v, off, remaining))
     else if tag = 5 then
       rbind (require_available data off 4) (\<lambda>_.
       (let count = read_u32 data off in
        rbind (require_value_container count depth limits remaining) (\<lambda>remaining.
        rbind (decode_items data (off + 4) count limits remaining (depth + 1))
          (\<lambda>(vs, off, remaining). Inr (JArr vs, off, remaining)))))
     else if tag = 6 then
       rbind (require_available data off 4) (\<lambda>_.
       (let count = read_u32 data off in
        rbind (require_value_container count depth limits remaining) (\<lambda>remaining.
        rbind (decode_entries data (off + 4) count [] limits remaining (depth + 1))
          (\<lambda>(kvs, off, remaining). Inr (JObj kvs, off, remaining)))))
     else if tag = 7 then
       rbind (require_available data off 8) (\<lambda>_.
       Inr (js_double (of_nat (be_nat (subarray off (off + 8) data))), off + 8, remaining))
     else if tag = 8 then
       rbind (require_available data off 8) (\<lambda>_.
       (let i = int (be_nat (subarray off (off + 8) data)) in
        Inr (if i \<le> MAX_SAFE then JInt i else JBig i, off + 8, remaining)))
     else Inl (Thrown FerricStoreError ''unknown protocol value tag'' [JInt (int tag)])))"
| "decode_items data off 0 limits remaining depth = Inr ([], off, remaining)"
| "decode_items data off (Suc n) limits remaining depth =
    rbind (decode_at data off limits remaining depth) (\<lambda>(v, off, remaining).
    rbind (decode_items data off n limits remaining depth) (\<lambda>(vs, off, remaining).
    Inr (v # vs, off, remaining)))"
| "decode_entries data off 0 target limits remaining depth = Inr (target, off, remaining)"
| "decode_entries data off (Suc n) target limits remaining depth =
    rbind (read_binary data off) (\<lambda>(key, off).
    rbind (decode_at data off limits remaining depth) (\<lambda>(v, off, remaining).
    rbind (set_protocol_map_entry target key v) (\<lambda>target.
    decode_entries data off n target limits remaining depth)))"
  by pat_completeness auto
termination
  by (relation "measures [
      \<lambda>x. case x of Inl (_, _, limits, _, depth) \<Rightarrow> max_depth limits - depth
        | Inr (Inl (_, _, _, limits, _, depth)) \<Rightarrow> max_depth limits - depth
        | Inr (Inr (_, _, _, _, limits, _, depth)) \<Rightarrow> max_depth limits - depth,
      \<lambda>x. case x of Inl _ \<Rightarrow> 0
        | Inr (Inl (_, _, n, _)) \<Rightarrow> Suc n | Inr (Inr (_, _, n, _)) \<Rightarrow> Suc n]")
    (auto simp: require_value_container_def split: if_splits)

declare decode_at.simps [simp del]

definition decode_value_at :: "bytes \<Rightarrow> nat \<Rightarrow> decode_limits \<Rightarrow> (jsval \<times> nat) res" where
  "decode_value_at data off limits =
    rbind (decode_at data off limits (max_items limits) 0) (\<lambda>(v, off, remaining). Inr (v, off))"

definition default_limits :: decode_limits where
  "default_limits = \<lparr>max_depth = DEFAULT_MAX_VALUE_DEPTH, max_items = DEFAULT_MAX_VALUE_ITEMS\<rparr>"

definition decode_value :: "bytes \<Rightarrow> (jsval \<times> nat) res" where
  "decode_value data = decode_value_at data 0 default_limits"

text \<open>\<open>decodeValueWithBudget\<close>: a decoder that shares its item budget with its caller.\<close>

definition decode_value_with_budget :: "bytes \<Rightarrow> nat \<Rightarrow> nat \<Rightarrow> (jsval \<times> nat \<times> nat) res" where
  "decode_value_with_budget data off remaining = decode_at data off default_limits remaining 0"

section \<open>The planner accounts for every byte\<close>

lemma consume_encode_bytes_Inr:
  "consume_encode_bytes b n = Inr b' \<longleftrightarrow>
    n \<le> remaining_bytes b \<and> b' = b\<lparr>remaining_bytes := remaining_bytes b - n\<rparr>"
  by (auto simp: consume_encode_bytes_def)

lemma plan_leaf_Inr:
  "plan_leaf b p = Inr (q, b') \<longleftrightarrow>
    q = p \<and> byte_length p \<le> remaining_bytes b \<and>
    b' = b\<lparr>remaining_bytes := remaining_bytes b - byte_length p\<rparr>"
  by (auto simp: plan_leaf_def consume_encode_bytes_Inr)

text \<open>What a step of the planner does to the budget: \<open>n\<close> bytes and some items are taken.\<close>

definition spends :: "encode_budget \<Rightarrow> encode_budget \<Rightarrow> nat \<Rightarrow> bool" where
  "spends b b' n \<longleftrightarrow> remaining_bytes b = remaining_bytes b' + n \<and> max_bytes b' = max_bytes b \<and>
    remaining_items b' \<le> remaining_items b"

lemma spends_trans: "spends a b m \<Longrightarrow> spends b c n \<Longrightarrow> spends a c (m + n)"
  by (auto simp: spends_def)

lemma spends_0: "spends b b 0"
  by (simp add: spends_def)

lemma plan_scalar_spends:
  "plan_scalar v b = Inr (p, b') \<Longrightarrow> spends b b' (byte_length p) \<and> remaining_items b' = remaining_items b"
  by (cases v) (auto simp: plan_leaf_Inr spends_def split: if_splits)

lemma plan_container_head_Inr:
  "plan_container_head b depth n arr = Inr b' \<longleftrightarrow>
    depth < DEFAULT_MAX_VALUE_DEPTH \<and> n \<le> DEFAULT_MAX_VALUE_ITEMS \<and> n \<le> remaining_items b \<and>
    5 \<le> remaining_bytes b \<and> (arr \<longrightarrow> n + 5 \<le> remaining_bytes b) \<and>
    b' = b\<lparr>remaining_items := remaining_items b - n, remaining_bytes := remaining_bytes b - 5\<rparr>"
  by (auto simp: plan_container_head_def consume_encode_bytes_Inr split: if_splits)

lemma plan_container_head_spends:
  "plan_container_head b depth n arr = Inr b' \<Longrightarrow>
    spends b b' 5 \<and> remaining_items b = remaining_items b' + n"
  by (auto simp: plan_container_head_Inr spends_def)

definition entry_length :: "jsstr \<times> nat \<times> value_plan \<Rightarrow> nat" where
  "entry_length e = (case e of (key, klen, plan) \<Rightarrow> 4 + klen + byte_length plan)"

lemma entry_length_fold: "(\<lambda>(key, klen, plan). 4 + klen + byte_length plan) = entry_length"
  by (auto simp: entry_length_def)

lemma plan_value_spends:
  "plan_value v b d = Inr (p, b') \<Longrightarrow> spends b b' (byte_length p)"
  "plan_items xs b d = Inr (ps, b') \<Longrightarrow> spends b b' (sum_list (map byte_length ps))"
  "plan_entries kvs b d = Inr (es, b') \<Longrightarrow> spends b b' (sum_list (map entry_length es))"
proof (induction v b d and xs b d and kvs b d arbitrary: p b' and ps b' and es b'
    rule: plan_value_plan_items_plan_entries.induct)
  case (1 xs budget depth)
  from "1.prems"(1) obtain b1 ps where h: "plan_container_head budget depth (length xs) True = Inr b1"
    "plan_items xs b1 (depth + 1) = Inr (ps, b')" "p = PItems (5 + sum_list (map byte_length ps)) ps"
    by auto
  from plan_container_head_spends [OF h(1)] "1.IH" [OF h(1,2)] have "spends budget b' (5 + sum_list (map byte_length ps))"
    by (blast intro: spends_trans)
  with h(3) show ?case by simp
next
  case (2 kvs budget depth)
  from "2.prems"(1) obtain b1 es where h: "plan_container_head budget depth (length kvs) False = Inr b1"
    "plan_entries kvs b1 (depth + 1) = Inr (es, b')" "p = PEntries (5 + sum_list (map entry_length es)) es"
    by (auto simp: entry_length_fold)
  from plan_container_head_spends [OF h(1)] "2.IH" [OF h(1,2)] have "spends budget b' (5 + sum_list (map entry_length es))"
    by (blast intro: spends_trans)
  with h(3) show ?case by simp
next
  case (5 x xs budget depth)
  from "5.prems"(1) obtain q b1 qs where h: "x \<noteq> JHole" "plan_value x budget depth = Inr (q, b1)"
    "plan_items xs b1 depth = Inr (qs, b')" "ps = q # qs"
    by (auto split: if_splits)
  from spends_trans [OF "5.IH"(1) [OF h(1,2)] "5.IH"(2) [OF h(1,2) refl h(3)]] h(4) show ?case
    by simp
next
  case (7 key v kvs budget depth)
  from "7.prems"(1) obtain b1 pl b2 es' where
    1: "consume_encode_bytes budget (4 + length (utf8_encode key)) = Inr b1"
    "plan_value v b1 depth = Inr (pl, b2)" "plan_entries kvs b2 depth = Inr (es', b')"
    and es: "es = (key, length (utf8_encode key), pl) # es'"
    by auto
  have "spends budget b1 (4 + length (utf8_encode key))"
    using 1(1) by (auto simp: consume_encode_bytes_Inr spends_def)
  from spends_trans [OF spends_trans [OF this "7.IH"(1) [OF 1(1,2)]] "7.IH"(2) [OF 1(1,2) refl 1(3)]]
  show ?case by (simp add: es entry_length_def)
qed (simp_all add: plan_scalar_spends spends_0 del: plan_scalar.simps)

section \<open>The writer fills exactly the planned length\<close>

lemma write_leaf_length:
  "plan_leaf b q = Inr (p, b') \<Longrightarrow> write_plan p = Inr bs \<Longrightarrow>
    (\<And>n xs. q \<noteq> PItems n xs) \<Longrightarrow> (\<And>n xs. q \<noteq> PEntries n xs) \<Longrightarrow> length bs = byte_length p"
  by (cases p) (auto simp: plan_leaf_Inr write_uint_Inr simp: write_i64_def split: if_splits)

lemma plan_scalar_write_length:
  "plan_scalar v b = Inr (p, b') \<Longrightarrow> write_plan p = Inr bs \<Longrightarrow> length bs = byte_length p"
  by (cases v) (auto split: if_splits elim!: write_leaf_length)

lemma write_plan_length:
  "plan_value v b d = Inr (p, b') \<Longrightarrow> write_plan p = Inr bs \<Longrightarrow> length bs = byte_length p"
  "plan_items xs b d = Inr (ps, b') \<Longrightarrow> write_items ps = Inr bs \<Longrightarrow>
    length bs = sum_list (map byte_length ps)"
  "plan_entries kvs b d = Inr (es, b') \<Longrightarrow> write_entries es = Inr bs \<Longrightarrow>
    length bs = sum_list (map entry_length es)"
proof (induction v b d and xs b d and kvs b d arbitrary: p b' bs and ps b' bs and es b' bs
    rule: plan_value_plan_items_plan_entries.induct)
  case (1 xs budget depth)
  from "1.prems"(1) obtain b1 ps where h: "plan_container_head budget depth (length xs) True = Inr b1"
    "plan_items xs b1 (depth + 1) = Inr (ps, b')" "p = PItems (5 + sum_list (map byte_length ps)) ps"
    by auto
  with "1.prems"(2) obtain c where c: "write_items ps = Inr c" "length bs = 5 + length c"
    by (auto simp: write_uint_Inr)
  from "1.IH" [OF h(1,2) c(1)] h(3) c(2) show ?case by simp
next
  case (2 kvs budget depth)
  from "2.prems"(1) obtain b1 es where h: "plan_container_head budget depth (length kvs) False = Inr b1"
    "plan_entries kvs b1 (depth + 1) = Inr (es, b')" "p = PEntries (5 + sum_list (map entry_length es)) es"
    by (auto simp: entry_length_fold)
  with "2.prems"(2) obtain c where c: "write_entries es = Inr c" "length bs = 5 + length c"
    by (auto simp: write_uint_Inr)
  from "2.IH" [OF h(1,2) c(1)] h(3) c(2) show ?case by simp
next
  case (5 x xs budget depth)
  from "5.prems"(1) obtain q b1 qs where h: "x \<noteq> JHole" "plan_value x budget depth = Inr (q, b1)"
    "plan_items xs b1 depth = Inr (qs, b')" "ps = q # qs"
    by (auto split: if_splits)
  with "5.prems"(2) obtain c e where c: "write_plan q = Inr c" "write_items qs = Inr e" "bs = c @ e"
    by auto
  from "5.IH"(1) [OF h(1,2) c(1)] "5.IH"(2) [OF h(1,2) refl h(3) c(2)] h(4) c(3) show ?case by simp
next
  case (7 key v kvs budget depth)
  from "7.prems"(1) obtain b1 pl b2 es' where
    1: "consume_encode_bytes budget (4 + length (utf8_encode key)) = Inr b1"
    "plan_value v b1 depth = Inr (pl, b2)" "plan_entries kvs b2 depth = Inr (es', b')"
    and es: "es = (key, length (utf8_encode key), pl) # es'"
    by auto
  with "7.prems"(2) obtain c e where c: "write_plan pl = Inr c" "write_entries es' = Inr e"
    "length bs = 4 + length (utf8_encode key) + length c + length e"
    by (auto simp: write_uint_Inr)
  from "7.IH"(1) [OF 1(1,2) c(1)] "7.IH"(2) [OF 1(1,2) refl 1(3) c(2)] c(3) show ?case
    by (simp add: es entry_length_def)
qed (simp_all add: plan_scalar_write_length del: plan_scalar.simps)

section \<open>Reading at an offset\<close>

text \<open>What the reader sees at \<open>off\<close>: the bytes from there on.\<close>

definition at_off :: "bytes \<Rightarrow> nat \<Rightarrow> bytes \<Rightarrow> bool" where
  "at_off data off rest \<longleftrightarrow> off \<le> length data \<and> drop off data = rest"

lemma at_off_append [simp]: "at_off (xs @ ys) (length xs) ys"
  by (simp add: at_off_def)

lemma at_off_0 [simp]: "at_off xs 0 xs"
  by (simp add: at_off_def)

lemma at_off_step: "at_off data off (xs @ ys) \<Longrightarrow> at_off data (off + length xs) ys"
proof -
  assume a: "at_off data off (xs @ ys)"
  then have d: "drop off data = xs @ ys" and l: "off \<le> length data" by (simp_all add: at_off_def)
  from d have "drop (length xs) (drop off data) = ys" by simp
  moreover from arg_cong [OF d, of length] l have "off + length xs \<le> length data" by simp
  ultimately show ?thesis by (simp add: at_off_def add.commute)
qed

lemma at_off_Cons: "at_off data off (x # ys) \<Longrightarrow> at_off data (Suc off) ys"
  using at_off_step [of data off "[x]" ys] by simp

lemma at_off_nth: "at_off data off (x # ys) \<Longrightarrow> data ! off = x"
  by (metis at_off_def hd_drop_conv_nth drop_eq_Nil list.distinct(1) list.sel(1) not_le)

lemma at_off_sub: "at_off data off (xs @ ys) \<Longrightarrow> subarray off (off + length xs) data = xs"
  by (auto simp: at_off_def subarray_def)

lemma at_off_available: "at_off data off xs \<Longrightarrow> n \<le> length xs \<Longrightarrow> require_available data off n = Inr ()"
  by (auto simp: at_off_def require_available_def)

lemma at_off_u32:
  assumes "at_off data off (be_bytes 4 n @ ys)" "n < 256 ^ 4"
  shows "read_u32 data off = n" "at_off data (off + 4) ys" "require_available data off 4 = Inr ()"
  using at_off_sub [OF assms(1)] at_off_step [OF assms(1)] at_off_available [OF assms(1), of 4] assms(2)
  by (simp_all add: read_u32_def)

lemma at_off_binary:
  assumes "at_off data off (be_bytes 4 (length xs) @ xs @ ys)" "length xs < NULL_U32"
  shows "read_binary data off = Inr (xs, off + 4 + length xs)" "at_off data (off + 4 + length xs) ys"
proof -
  note u = at_off_u32 [OF assms(1)]
  have n: "length xs < 256 ^ 4" using assms(2) by simp
  note v = u(2) [OF n]
  show "read_binary data off = Inr (xs, off + 4 + length xs)"
    using assms(2) at_off_sub [OF v] at_off_available [OF v, of "length xs"]
    by (simp add: read_binary_def u [OF n])
  show "at_off data (off + 4 + length xs) ys" by (rule at_off_step [OF v])
qed

section \<open>Round trip\<close>

text \<open>The value the receiver reconstructs: text arrives as bytes, absence as null, a big integer
  that a number can hold as a number.\<close>

fun wire_value :: "jsval \<Rightarrow> jsval" where
  "wire_value JUndef = JNull"
| "wire_value (JBig i) = (if safe_int i then JInt i else JBig i)"
| "wire_value (JStr s) = JBuf (utf8_encode s)"
| "wire_value (JU8 b) = JBuf b"
| "wire_value (JArr xs) = JArr (map wire_value xs)"
| "wire_value (JObj kvs) = JObj (map (\<lambda>(k, v). (k, wire_value v)) kvs)"
| "wire_value v = v"

text \<open>The inputs it is reconstructed for: object keys are distinct (as in any object) and have no lone
  surrogate, binary values are shorter than the reserved length, and a number kept as a float is
  really none that \<open>JInt\<close> stands for.\<close>

fun wire_ok :: "jsval \<Rightarrow> bool" where
  "wire_ok (JFloat w) = (js_double w = JFloat w)"
| "wire_ok (JStr s) = (length (utf8_encode s) < NULL_U32)"
| "wire_ok (JBuf b) = (length b < NULL_U32)"
| "wire_ok (JU8 b) = (length b < NULL_U32)"
| "wire_ok (JArr xs) = (\<forall>x \<in> set xs. wire_ok x)"
| "wire_ok (JObj kvs) = (distinct (map fst kvs) \<and>
    (\<forall>kv \<in> set kvs. well_formed (fst kv) \<and> length (utf8_encode (fst kv)) < NULL_U32 \<and> wire_ok (snd kv)))"
| "wire_ok v = True"

lemma write_tag: "k < 256 \<Longrightarrow> write_uint 1 (int k) = Inr [of_nat k]"
  by (simp add: write_uint_def)

lemmas write_tags = write_tag [of 0, simplified] write_tag [of 1, simplified]
  write_tag [of 2, simplified] write_tag [of 3, simplified] write_tag [of 4, simplified]
  write_tag [of 5, simplified] write_tag [of 6, simplified] write_tag [of 7, simplified]
  write_tag [of 8, simplified]

lemma decode_const:
  assumes "at_off data off (tag # rest)"
  shows "tag = 0 \<Longrightarrow> decode_at data off limits remaining depth = Inr (JNull, Suc off, remaining)"
    and "tag = 1 \<Longrightarrow> decode_at data off limits remaining depth = Inr (JBool True, Suc off, remaining)"
    and "tag = 2 \<Longrightarrow> decode_at data off limits remaining depth = Inr (JBool False, Suc off, remaining)"
  using at_off_available [OF assms, of 1] at_off_nth [OF assms]
  by (simp_all add: decode_at.simps)

lemma decode_i64:
  assumes "at_off data off (3 # b @ rest)" "write_i64 i = Inr b"
  shows "decode_at data off limits remaining depth =
    Inr (if safe_int i then JInt i else JBig i, off + 9, remaining)"
proof -
  note l = read_write_i64 [OF assms(2)]
  note a = at_off_Cons [OF assms(1)]
  show ?thesis
    using at_off_available [OF assms(1), of 1] at_off_nth [OF assms(1)] at_off_sub [OF a]
      at_off_available [OF a, of 8] l
    by (simp add: decode_at.simps)
qed

lemma decode_u64:
  assumes "at_off data off (8 # be_bytes 8 n @ rest)" "n < 256 ^ 8"
  shows "decode_at data off limits remaining depth =
    Inr (if int n \<le> MAX_SAFE then JInt (int n) else JBig (int n), off + 9, remaining)"
proof -
  note a = at_off_Cons [OF assms(1)]
  show ?thesis
    using at_off_available [OF assms(1), of 1] at_off_nth [OF assms(1)] at_off_sub [OF a]
      at_off_available [OF a, of 8] assms(2)
    by (simp add: decode_at.simps)
qed

lemma decode_double:
  assumes "at_off data off (7 # be_bytes 8 (unat w) @ rest)"
  shows "decode_at data off limits remaining depth = Inr (js_double w, off + 9, remaining)"
proof -
  note a = at_off_Cons [OF assms(1)]
  have "unat w < 256 ^ 8" using unsigned_less [of w, where ?'a = nat] by simp
  then show ?thesis
    using at_off_available [OF assms(1), of 1] at_off_nth [OF assms(1)] at_off_sub [OF a]
      at_off_available [OF a, of 8]
    by (simp add: decode_at.simps)
qed

lemma decode_binary:
  assumes "at_off data off (4 # be_bytes 4 (length v) @ v @ rest)" "length v < NULL_U32"
  shows "decode_at data off limits remaining depth = Inr (JBuf v, off + 5 + length v, remaining)"
  using at_off_available [OF assms(1), of 1] at_off_nth [OF assms(1)]
    at_off_binary(1) [OF at_off_Cons [OF assms(1)] assms(2)]
  by (simp add: decode_at.simps)

lemma scalar_roundtrip:
  assumes "plan_scalar v b = Inr (p, b')" "write_plan p = Inr bs" "wire_ok v"
    and "at_off data off (bs @ post)"
    and "\<And>xs. v \<noteq> JArr xs" "\<And>kvs. v \<noteq> JObj kvs"
  shows "decode_at data off limits remaining depth = Inr (wire_value v, off + length bs, remaining)"
  using assms(1-4)
proof (cases v)
  case (JInt i)
  with assms obtain c where "safe_int i" "write_i64 i = Inr c" "bs = 3 # c"
    by (auto simp: plan_leaf_Inr write_tags split: if_splits)
  with assms(4) JInt show ?thesis
    using decode_i64 [of data off c post i] read_write_i64 [of i c] by simp
next
  case (JBig i)
  show ?thesis
  proof (cases "MIN_I64 \<le> i \<and> i \<le> MAX_I64")
    case True
    with assms JBig obtain c where "write_i64 i = Inr c" "bs = 3 # c"
      by (auto simp: plan_leaf_Inr write_tags)
    with assms(4) JBig show ?thesis
      using decode_i64 [of data off c post i] read_write_i64 [of i c] by simp
  next
    case False
    with assms JBig have i: "MAX_I64 < i" "i \<le> MAX_U64" and "bs = 8 # be_bytes 8 (nat i)"
      by (auto simp: plan_leaf_Inr write_tags write_uint_Inr split: if_splits)
    with assms(4) JBig show ?thesis
      using decode_u64 [of data off "nat i" post] by (simp add: safe_int_def)
  qed
next
  case (JFloat w)
  with assms have "bs = 7 # be_bytes 8 (unat w)" by (auto simp: plan_leaf_Inr write_tags)
  with assms(3,4) JFloat show ?thesis using decode_double [of data off w post] by simp
next
  case (JStr s)
  with assms have "bs = 4 # be_bytes 4 (length (utf8_encode s)) @ utf8_encode s"
    by (auto simp: plan_leaf_Inr write_tags write_uint_Inr)
  with assms(3,4) JStr show ?thesis using decode_binary [of data off "utf8_encode s" post] by simp
next
  case (JBuf s)
  with assms have "bs = 4 # be_bytes 4 (length s) @ s"
    by (auto simp: plan_leaf_Inr write_tags write_uint_Inr)
  with assms(3,4) JBuf show ?thesis using decode_binary [of data off s post] by simp
next
  case (JU8 s)
  with assms have "bs = 4 # be_bytes 4 (length s) @ s"
    by (auto simp: plan_leaf_Inr write_tags write_uint_Inr)
  with assms(3,4) JU8 show ?thesis using decode_binary [of data off s post] by simp
next
  case (JBool x)
  with assms(1,2,4) show ?thesis
    using decode_const(2,3) [of data off "hd bs" post] by (auto simp: plan_leaf_Inr write_tags split: if_splits)
next
  case JUndef
  with assms(1,2,4) show ?thesis
    using decode_const(1) [of data off 0 post] by (auto simp: plan_leaf_Inr write_tags)
next
  case JNull
  with assms(1,2,4) show ?thesis
    using decode_const(1) [of data off 0 post] by (auto simp: plan_leaf_Inr write_tags)
qed (use assms(5,6) in simp_all)

lemma scalar_roundtrip_budget:
  assumes "plan_scalar v b = Inr (p, b')" "write_plan p = Inr bs" "wire_ok v"
    and "at_off data off (bs @ post)"
    and "\<And>xs. v \<noteq> JArr xs" "\<And>kvs. v \<noteq> JObj kvs"
  shows "decode_at data off limits (remaining_items b) depth =
    Inr (wire_value v, off + length bs, remaining_items b')"
  using scalar_roundtrip [OF assms] plan_scalar_spends [OF assms(1)] by simp

lemma decode_array:
  assumes "at_off data off (5 # be_bytes 4 n @ rest)" "n < 256 ^ 4"
    and "require_value_container n depth limits remaining = Inr remaining'"
    and "decode_items data (off + 5) n limits remaining' (depth + 1) = Inr (vs, off', remaining'')"
  shows "decode_at data off limits remaining depth = Inr (JArr vs, off', remaining'')"
  using at_off_available [OF assms(1), of 1] at_off_nth [OF assms(1)] assms(3,4)
    at_off_u32 [OF at_off_Cons [OF assms(1)] assms(2)]
  by (simp add: decode_at.simps add.commute [of 5])

lemma decode_object:
  assumes "at_off data off (6 # be_bytes 4 n @ rest)" "n < 256 ^ 4"
    and "require_value_container n depth limits remaining = Inr remaining'"
    and "decode_entries data (off + 5) n [] limits remaining' (depth + 1) = Inr (kvs, off', remaining'')"
  shows "decode_at data off limits remaining depth = Inr (JObj kvs, off', remaining'')"
  using at_off_available [OF assms(1), of 1] at_off_nth [OF assms(1)] assms(3,4)
    at_off_u32 [OF at_off_Cons [OF assms(1)] assms(2)]
  by (simp add: decode_at.simps add.commute [of 5])

text \<open>What the encoder let through, the decoder's default limits let through.\<close>

lemma container_head_decodes:
  assumes "plan_container_head b depth n arr = Inr b'"
  shows "require_value_container n depth default_limits (remaining_items b) = Inr (remaining_items b')"
    and "n < 256 ^ 4"
  using assms
  by (auto simp: plan_container_head_Inr require_value_container_def default_limits_def
      consume_decode_items_def)

lemma set_entry_fresh:
  assumes "well_formed key" "key \<notin> set (map fst target)"
  shows "set_protocol_map_entry target (utf8_encode key) v = Inr (target @ [(key, v)])"
  using assms by (simp add: set_protocol_map_entry_def utf8_encode_valid utf8_decode_encode own_def
      map_of_eq_None_iff)

lemma plan_roundtrip:
  "plan_value v b d = Inr (p, b') \<Longrightarrow> write_plan p = Inr bs \<Longrightarrow> wire_ok v \<Longrightarrow>
    at_off data off (bs @ post) \<Longrightarrow>
    decode_at data off default_limits (remaining_items b) d =
      Inr (wire_value v, off + length bs, remaining_items b')"
  "plan_items xs b d = Inr (ps, b') \<Longrightarrow> write_items ps = Inr bs \<Longrightarrow> \<forall>x \<in> set xs. wire_ok x \<Longrightarrow>
    at_off data off (bs @ post) \<Longrightarrow>
    decode_items data off (length xs) default_limits (remaining_items b) d =
      Inr (map wire_value xs, off + length bs, remaining_items b')"
  "plan_entries kvs b d = Inr (es, b') \<Longrightarrow> write_entries es = Inr bs \<Longrightarrow>
    wire_ok (JObj kvs) \<Longrightarrow> set (map fst target) \<inter> set (map fst kvs) = {} \<Longrightarrow>
    at_off data off (bs @ post) \<Longrightarrow>
    decode_entries data off (length kvs) target default_limits (remaining_items b) d =
      Inr (target @ map (\<lambda>(k, v). (k, wire_value v)) kvs, off + length bs, remaining_items b')"
proof (induction v b d and xs b d and kvs b d
    arbitrary: p b' bs off post and ps b' bs off post and es b' bs off post target
    rule: plan_value_plan_items_plan_entries.induct)
  case (1 xs budget depth)
  from "1.prems"(1) obtain b1 ps where
    h: "plan_container_head budget depth (length xs) True = Inr b1"
    "plan_items xs b1 (depth + 1) = Inr (ps, b')" "p = PItems (5 + sum_list (map byte_length ps)) ps"
    by auto
  have l: "length ps = length xs" using h(2)
    by (induction xs arbitrary: b1 ps) (auto split: if_splits)
  from "1.prems"(2) h(3) l obtain c where c: "write_items ps = Inr c"
    "bs = 5 # be_bytes 4 (length xs) @ c"
    by (auto simp: write_tags write_uint_Inr)
  note a = "1.prems"(4) [unfolded c(2), simplified]
  note n = container_head_decodes [OF h(1)]
  have "decode_items data (off + 5) (length xs) default_limits (remaining_items b1) (depth + 1) =
      Inr (map wire_value xs, off + 5 + length c, remaining_items b')"
    using "1.IH" [OF h(1,2) c(1)] "1.prems"(3) at_off_u32(2) [OF at_off_Cons [OF a] n(2)]
    by (simp add: add.commute [of 5])
  from decode_array [OF a n(2,1) this] c(2) show ?case by simp
next
  case (2 kvs budget depth)
  from "2.prems"(1) obtain b1 es where
    h: "plan_container_head budget depth (length kvs) False = Inr b1"
    "plan_entries kvs b1 (depth + 1) = Inr (es, b')" "p = PEntries (5 + sum_list (map entry_length es)) es"
    by (auto simp: entry_length_fold)
  have l: "length es = length kvs" using h(2)
    by (induction kvs arbitrary: b1 es) auto
  from "2.prems"(2) h(3) l obtain c where c: "write_entries es = Inr c"
    "bs = 6 # be_bytes 4 (length kvs) @ c"
    by (auto simp: write_tags write_uint_Inr)
  note a = "2.prems"(4) [unfolded c(2), simplified]
  note n = container_head_decodes [OF h(1)]
  have "decode_entries data (off + 5) (length kvs) [] default_limits (remaining_items b1) (depth + 1) =
      Inr (map (\<lambda>(k, v). (k, wire_value v)) kvs, off + 5 + length c, remaining_items b')"
    using "2.IH" [OF h(1,2) c(1) "2.prems"(3), of "[]"] at_off_u32(2) [OF at_off_Cons [OF a] n(2)]
    by (simp add: add.commute [of 5])
  from decode_object [OF a n(2,1) this] c(2) show ?case by simp
next
  case (5 x xs budget depth)
  from "5.prems"(1) obtain q b1 qs where h: "x \<noteq> JHole" "plan_value x budget depth = Inr (q, b1)"
    "plan_items xs b1 depth = Inr (qs, b')" "ps = q # qs"
    by (auto split: if_splits)
  with "5.prems"(2) obtain c e where c: "write_plan q = Inr c" "write_items qs = Inr e" "bs = c @ e"
    by auto
  have a: "at_off data off (c @ e @ post)" using "5.prems"(4) c(3) by simp
  have "decode_at data off default_limits (remaining_items budget) depth =
      Inr (wire_value x, off + length c, remaining_items b1)"
    using "5.IH"(1) [OF h(1,2) c(1) _ a] "5.prems"(3) by simp
  moreover have "decode_items data (off + length c) (length xs) default_limits (remaining_items b1) depth =
      Inr (map wire_value xs, off + length c + length e, remaining_items b')"
    using "5.IH"(2) [OF h(1,2) refl h(3) c(2) _ at_off_step [OF a]] "5.prems"(3) by simp
  ultimately show ?case by (simp add: c(3))
next
  case (7 key v kvs budget depth)
  from "7.prems"(1) obtain b1 pl b2 es' where
    1: "consume_encode_bytes budget (4 + length (utf8_encode key)) = Inr b1"
    "plan_value v b1 depth = Inr (pl, b2)" "plan_entries kvs b2 depth = Inr (es', b')"
    and es: "es = (key, length (utf8_encode key), pl) # es'"
    by auto
  with "7.prems"(2) obtain c e where c: "write_plan pl = Inr c" "write_entries es' = Inr e"
    "bs = be_bytes 4 (length (utf8_encode key)) @ utf8_encode key @ c @ e"
    by (auto simp: write_uint_Inr)
  let ?k = "utf8_encode key"
  have a: "at_off data off (be_bytes 4 (length ?k) @ ?k @ c @ e @ post)"
    using "7.prems"(5) c(3) by simp
  have k: "well_formed key" "length ?k < NULL_U32" "key \<notin> set (map fst target)" "wire_ok v"
    "wire_ok (JObj kvs)" "key \<notin> set (map fst kvs)" "set (map fst target) \<inter> set (map fst kvs) = {}"
    using "7.prems"(3,4) by auto
  note r = at_off_binary [OF a k(2)]
  have i: "remaining_items b1 = remaining_items budget" using 1(1) by (auto simp: consume_encode_bytes_Inr)
  have "decode_at data (off + 4 + length ?k) default_limits (remaining_items budget) depth =
      Inr (wire_value v, off + 4 + length ?k + length c, remaining_items b2)"
    using "7.IH"(1) [OF 1(1,2) c(1) k(4) r(2)] i by simp
  moreover have "decode_entries data (off + 4 + length ?k + length c) (length kvs)
      (target @ [(key, wire_value v)]) default_limits (remaining_items b2) depth =
      Inr ((target @ [(key, wire_value v)]) @ map (\<lambda>(k, v). (k, wire_value v)) kvs,
        off + 4 + length ?k + length c + length e, remaining_items b')"
    using k(6,7) by (intro "7.IH"(2) [OF 1(1,2) refl 1(3) c(2) k(5) _ at_off_step [OF r(2)]]) auto
  ultimately show ?case
    using r(1) set_entry_fresh [OF k(1,3)] by (simp add: c(3) add.assoc)
qed (simp_all add: scalar_roundtrip_budget del: plan_scalar.simps wire_value.simps wire_ok.simps)


section \<open>The decoder stays inside the buffer and its budgets\<close>

lemma read_binary_bounds:
  "read_binary data off = Inr (v, off') \<Longrightarrow> off' = off + 4 + length v \<and> off' \<le> length data"
  by (auto simp: read_binary_def require_available_def Let_def split: if_splits)

text \<open>The number of container slots in a value: what the item budget counts.\<close>

fun value_items :: "jsval \<Rightarrow> nat" where
  "value_items (JArr xs) = length xs + sum_list (map value_items xs)"
| "value_items (JObj kvs) = length kvs + sum_list (map (\<lambda>kv. value_items (snd kv)) kvs)"
| "value_items v = 0"

fun value_depth :: "jsval \<Rightarrow> nat" where
  "value_depth (JArr xs) = Suc (Max (insert 0 (set (map value_depth xs))))"
| "value_depth (JObj kvs) = Suc (Max (insert 0 (set (map (\<lambda>kv. value_depth (snd kv)) kvs))))"
| "value_depth v = 0"

lemma js_double_leaf: "value_items (js_double w) = 0" "value_depth (js_double w) = 0"
  by (simp_all add: js_double_def Let_def)

lemma set_entry_Inr:
  "set_protocol_map_entry target key v = Inr target' \<Longrightarrow>
    target' = target @ [(utf8_decode key, v)] \<and> utf8_decode key \<notin> set (map fst target) \<and> is_utf8 key"
  by (auto simp: set_protocol_map_entry_def own_def Let_def map_of_eq_None_iff split: if_splits)

definition entries_items :: "(jsstr \<times> jsval) list \<Rightarrow> nat" where
  "entries_items kvs = sum_list (map (\<lambda>kv. value_items (snd kv)) kvs)"

lemma require_value_container_Inr:
  "require_value_container n d limits r = Inr r' \<longleftrightarrow>
    d < max_depth limits \<and> n \<le> max_items limits \<and> n \<le> r \<and> r' = r - n"
  by (auto simp: require_value_container_def consume_decode_items_def)

lemma decode_budget:
  "decode_at data off limits r d = Inr (v, off', r') \<Longrightarrow>
    off < off' \<and> off' \<le> length data \<and> r = r' + value_items v"
  "decode_items data off n limits r d = Inr (vs, off', r') \<Longrightarrow> off \<le> length data \<Longrightarrow>
    off \<le> off' \<and> off' \<le> length data \<and> length vs = n \<and> r = r' + sum_list (map value_items vs)"
  "decode_entries data off n target limits r d = Inr (kvs, off', r') \<Longrightarrow> off \<le> length data \<Longrightarrow>
    off \<le> off' \<and> off' \<le> length data \<and> length kvs = length target + n \<and>
    r + entries_items target = r' + entries_items kvs"
proof (induction data off limits r d and data off n limits r d and data off n target limits r d
    arbitrary: v off' r' and vs off' r' and kvs off' r'
    rule: decode_at_decode_items_decode_entries.induct)
  case (1 data off limits r d)
  note prem = "1.prems" [unfolded decode_at.simps [of data off limits r d] Let_def]
  have av: "require_available data off 1 = Inr ()" using prem by auto
  then have o: "off + 1 \<le> length data" by (simp add: require_available_def)
  consider "unat (data ! off) = 5" | "unat (data ! off) = 6" | "unat (data ! off) \<noteq> 5" "unat (data ! off) \<noteq> 6"
    by blast
  then show ?case
  proof cases
    case 1
    with prem obtain r1 vs where h: "require_available data (off + 1) 4 = Inr ()"
      "require_value_container (read_u32 data (off + 1)) d limits r = Inr r1"
      "decode_items data (off + 1 + 4) (read_u32 data (off + 1)) limits r1 (d + 1) = Inr (vs, off', r')"
      "v = JArr vs" by auto
    from h(1) have "off + 1 + 4 \<le> length data" by (simp add: require_available_def)
    with "1.IH"(1) [OF av refl refl _ _ _ _ _ _ h(1) refl h(2) h(3)] 1 h(2) show ?thesis
      by (auto simp: h(4) require_value_container_Inr)
  next
    case 2
    with prem obtain r1 kvs where h: "require_available data (off + 1) 4 = Inr ()"
      "require_value_container (read_u32 data (off + 1)) d limits r = Inr r1"
      "decode_entries data (off + 1 + 4) (read_u32 data (off + 1)) [] limits r1 (d + 1) = Inr (kvs, off', r')"
      "v = JObj kvs" by auto
    from h(1) have "off + 1 + 4 \<le> length data" by (simp add: require_available_def)
    with "1.IH"(2) [OF av refl refl _ _ _ _ _ _ _ h(1) refl h(2) h(3)] 2 h(2) show ?thesis
      by (auto simp: h(4) require_value_container_Inr entries_items_def)
  next
    case 3
    with prem o show ?thesis
      by (auto simp: js_double_leaf require_available_def dest: read_binary_bounds split: if_splits)
  qed
next
  case (3 data off n limits r d)
  from "3.prems"(1) obtain x o1 r1 xs where h: "decode_at data off limits r d = Inr (x, o1, r1)"
    "decode_items data o1 n limits r1 d = Inr (xs, off', r')" "vs = x # xs"
    by auto
  from "3.IH"(1) [OF h(1)] "3.IH"(2) [OF h(1) refl refl h(2)] h(3) show ?case by auto
next
  case (5 data off n target limits r d)
  from "5.prems"(1) obtain key o0 x o1 r1 target' where
    h: "read_binary data off = Inr (key, o0)" "decode_at data o0 limits r d = Inr (x, o1, r1)"
    "set_protocol_map_entry target key x = Inr target'"
    "decode_entries data o1 n target' limits r1 d = Inr (kvs, off', r')"
    by auto
  from "5.IH"(1) [OF h(1) refl h(2)] "5.IH"(2) [OF h(1) refl h(2) refl refl h(3,4)]
    read_binary_bounds [OF h(1)] set_entry_Inr [OF h(3)]
  show ?case by (auto simp: entries_items_def)
qed simp_all

text \<open>The nesting of a decoded value is bounded too.\<close>

lemma depth_Max:
  "\<forall>x \<in> A. d + 1 + f x \<le> (m::nat) \<Longrightarrow> d + 1 \<le> m \<Longrightarrow> finite A \<Longrightarrow>
    d + 1 + Max (insert 0 (f ` A)) \<le> m"
  using Max_in [of "insert 0 (f ` A)"] by auto

lemma decode_depth:
  "decode_at data off limits r d = Inr (v, off', r') \<Longrightarrow> d \<le> max_depth limits \<Longrightarrow>
    d + value_depth v \<le> max_depth limits"
  "decode_items data off n limits r d = Inr (vs, off', r') \<Longrightarrow> d \<le> max_depth limits \<Longrightarrow>
    \<forall>v \<in> set vs. d + value_depth v \<le> max_depth limits"
  "decode_entries data off n target limits r d = Inr (kvs, off', r') \<Longrightarrow> d \<le> max_depth limits \<Longrightarrow>
    \<forall>kv \<in> set target. d + value_depth (snd kv) \<le> max_depth limits \<Longrightarrow>
    \<forall>kv \<in> set kvs. d + value_depth (snd kv) \<le> max_depth limits"
proof (induction data off limits r d and data off n limits r d and data off n target limits r d
    arbitrary: v off' r' and vs off' r' and kvs off' r'
    rule: decode_at_decode_items_decode_entries.induct)
  case (1 data off limits r d)
  note prem = "1.prems"(1) [unfolded decode_at.simps [of data off limits r d] Let_def]
  have av: "require_available data off 1 = Inr ()" using prem by auto
  consider "unat (data ! off) = 5" | "unat (data ! off) = 6" | "unat (data ! off) \<noteq> 5" "unat (data ! off) \<noteq> 6"
    by blast
  then show ?case
  proof cases
    case 1
    with prem obtain r1 vs where h: "require_available data (off + 1) 4 = Inr ()"
      "require_value_container (read_u32 data (off + 1)) d limits r = Inr r1"
      "decode_items data (off + 1 + 4) (read_u32 data (off + 1)) limits r1 (d + 1) = Inr (vs, off', r')"
      "v = JArr vs" by auto
    from h(2) have d: "d + 1 \<le> max_depth limits" by (simp add: require_value_container_Inr)
    have "\<forall>v \<in> set vs. d + 1 + value_depth v \<le> max_depth limits"
      by (rule "1.IH"(1) [OF av refl refl _ _ _ _ _ _ h(1) refl h(2) h(3) d]) (simp_all add: 1)
    then have "d + 1 + Max (insert 0 (value_depth ` set vs)) \<le> max_depth limits"
      using d by (rule depth_Max) simp
    then show ?thesis by (simp add: h(4))
  next
    case 2
    with prem obtain r1 kvs where h: "require_available data (off + 1) 4 = Inr ()"
      "require_value_container (read_u32 data (off + 1)) d limits r = Inr r1"
      "decode_entries data (off + 1 + 4) (read_u32 data (off + 1)) [] limits r1 (d + 1) = Inr (kvs, off', r')"
      "v = JObj kvs" by auto
    from h(2) have d: "d + 1 \<le> max_depth limits" by (simp add: require_value_container_Inr)
    have "\<forall>kv \<in> set kvs. d + 1 + value_depth (snd kv) \<le> max_depth limits"
      by (rule "1.IH"(2) [OF av refl refl _ _ _ _ _ _ _ h(1) refl h(2) h(3) d]) (simp_all add: 2)
    then have "d + 1 + Max (insert 0 ((\<lambda>kv. value_depth (snd kv)) ` set kvs)) \<le> max_depth limits"
      using d by (rule depth_Max) simp
    then show ?thesis by (simp add: h(4))
  next
    case 3
    with prem "1.prems"(2) show ?thesis by (auto simp: js_double_leaf split: if_splits)
  qed
next
  case (3 data off n limits r d)
  from "3.prems"(1) obtain x o1 r1 xs where h: "decode_at data off limits r d = Inr (x, o1, r1)"
    "decode_items data o1 n limits r1 d = Inr (xs, off', r')" "vs = x # xs"
    by auto
  from "3.IH"(1) [OF h(1)] "3.IH"(2) [OF h(1) refl refl h(2)] h(3) "3.prems"(2) show ?case by auto
next
  case (5 data off n target limits r d)
  from "5.prems"(1) obtain key o0 x o1 r1 target' where
    h: "read_binary data off = Inr (key, o0)" "decode_at data o0 limits r d = Inr (x, o1, r1)"
    "set_protocol_map_entry target key x = Inr target'"
    "decode_entries data o1 n target' limits r1 d = Inr (kvs, off', r')"
    by auto
  have "\<forall>kv \<in> set target'. d + value_depth (snd kv) \<le> max_depth limits"
    using "5.IH"(1) [OF h(1) refl h(2) "5.prems"(2)] set_entry_Inr [OF h(3)] "5.prems"(3) by auto
  then show ?case by (rule "5.IH"(2) [OF h(1) refl h(2) refl refl h(3,4) "5.prems"(2)])
qed simp_all

text \<open>Evaluation of the encoder and of the decoder on concrete input.\<close>

lemma be_bytes_1_4: "be_bytes 1 n = [of_nat n]"
  "be_bytes 4 n = [of_nat (n div 16777216), of_nat (n div 65536), of_nat (n div 256), of_nat n]"
proof -
  have four: "(4::nat) = Suc (Suc (Suc (Suc 0)))" by simp
  show "be_bytes 1 n = [of_nat n]" by simp
  show "be_bytes 4 n = [of_nat (n div 16777216), of_nat (n div 65536), of_nat (n div 256), of_nat n]"
    unfolding four by simp
qed

lemmas encode_simps = encode_value_with_limit_def plan_value_with_limit_def plan_container_head_def
  plan_leaf_def consume_encode_bytes_def write_uint_def write_i64_def utf8_of_point_def ascii_def
  is_high_def is_low_def be_bytes_1_4

lemmas decode_simps = decode_value_at_def decode_at.simps require_available_def
  require_value_container_def consume_decode_items_def read_u32_def read_binary_def subarray_def
  set_protocol_map_entry_def Let_def

section \<open>Properties\<close>

text \<open>C12. What \<open>encodeValueWithLimit\<close> produced, \<open>decodeValue\<close> reads back: it consumes exactly the
  encoded bytes, whatever follows them, and returns the value in its wire form (text as bytes,
  \<open>undefined\<close> as null, small big integers as numbers), for every nesting of arrays and objects the
  encoder accepts.\<close>

theorem value_roundtrip:
  assumes "encode_value_with_limit v limit = Inr bs" "wire_ok v"
  shows "decode_value (bs @ post) = Inr (wire_value v, length bs)"
proof -
  from assms(1) obtain p b where h: "plan_value_with_limit v limit = Inr (p, b)" "write_plan p = Inr bs"
    by (auto simp: encode_value_with_limit_def)
  from plan_roundtrip(1) [OF h(1) [unfolded plan_value_with_limit_def] h(2) assms(2), of "bs @ post" 0 post]
  show ?thesis by (simp add: decode_value_def decode_value_at_def default_limits_def)
qed

theorem value_roundtrip_witness:
  "decode_value ([6, 0, 0, 0, 1, 0, 0, 0, 1, 0x61, 5, 0, 0, 0, 2, 1, 4, 0, 0, 0, 1, 0x62] @ [9]) =
    Inr (wire_value (JObj [(ascii ''a'', JArr [JBool True, JStr (ascii ''b'')])]),
      length [6, 0, 0, 0, 1, 0, 0, 0, 1, 0x61, 5, 0, 0, 0, 2, 1, 4, 0, 0, 0, 1, 0x62 :: byte])"
proof (rule value_roundtrip [where limit = 100])
  show "encode_value_with_limit (JObj [(ascii ''a'', JArr [JBool True, JStr (ascii ''b'')])]) 100 =
      Inr [6, 0, 0, 0, 1, 0, 0, 0, 1, 0x61, 5, 0, 0, 0, 2, 1, 4, 0, 0, 0, 1, 0x62]"
    by (simp add: encode_simps)
  show "wire_ok (JObj [(ascii ''a'', JArr [JBool True, JStr (ascii ''b'')])])"
    by (simp add: encode_simps)
qed

text \<open>C21. The planner's length is the length of what is written, and never exceeds the byte limit, so
  the frame header, written before the body, states the body's true length.\<close>

theorem encoded_length_is_planned:
  assumes "plan_value_with_limit v limit = Inr (plan, budget)" "write_plan plan = Inr bs"
  shows "length bs = byte_length plan \<and> length bs \<le> limit \<and>
    remaining_bytes budget = limit - length bs"
  using write_plan_length(1) [OF assms(1) [unfolded plan_value_with_limit_def] assms(2)]
    plan_value_spends(1) [OF assms(1) [unfolded plan_value_with_limit_def]]
  by (auto simp: spends_def)

theorem encoded_length_is_planned_witness:
  "length [5, 0, 0, 0, 1, 0 :: byte] = byte_length (PItems 6 [PNull]) \<and>
    length [5, 0, 0, 0, 1, 0 :: byte] \<le> 6 \<and>
    remaining_bytes \<lparr>max_bytes = 6, remaining_bytes = 0, remaining_items = 99999\<rparr> =
      6 - length [5, 0, 0, 0, 1, 0 :: byte]"
proof (rule encoded_length_is_planned)
  show "plan_value_with_limit (JArr [JUndef]) 6 =
      Inr (PItems 6 [PNull], \<lparr>max_bytes = 6, remaining_bytes = 0, remaining_items = 99999\<rparr>)"
    by (simp add: encode_simps)
  show "write_plan (PItems 6 [PNull]) = Inr [5, 0, 0, 0, 1, 0]" by (simp add: encode_simps)
qed

text \<open>C16. On any bytes, hostile ones included, a decoded value lies inside the buffer and inside both
  budgets: the cursor moves forward and not past the end, the containers hold at most \<open>maxItems\<close>
  slots altogether and nest at most \<open>maxDepth\<close> deep.\<close>

theorem decoded_value_within_budgets:
  assumes "decode_value_at data off limits = Inr (v, off')"
  shows "off < off' \<and> off' \<le> length data \<and> value_items v \<le> max_items limits \<and>
    value_depth v \<le> max_depth limits"
proof -
  from assms obtain r where h: "decode_at data off limits (max_items limits) 0 = Inr (v, off', r)"
    by (auto simp: decode_value_at_def)
  from decode_budget(1) [OF h] decode_depth(1) [OF h] show ?thesis by simp
qed

theorem decoded_value_within_budgets_witness:
  "0 < (6::nat) \<and> 6 \<le> length [5, 0, 0, 0, 1, 0 :: byte] \<and> value_items (JArr [JNull]) \<le> 1 \<and>
    value_depth (JArr [JNull]) \<le> 1"
proof -
  have "decode_value_at [5, 0, 0, 0, 1, 0] 0 \<lparr>max_depth = 1, max_items = 1\<rparr> = Inr (JArr [JNull], 6)"
    by (simp add: decode_simps)
  from decoded_value_within_budgets [OF this] show ?thesis by simp
qed

end
