(* ===== verification/NumberText.thy ===== *)
theory NumberText
  imports ProtocolValue
begin

unbundle bit_operations_syntax

text \<open>
  Numbers as text and back, as far as the argument handling of \<open>src/src/protocol-text.ts\<close> and
  \<open>src/src/protocol-core.ts\<close> needs it: \<open>String(number)\<close> (ECMAScript's shortest decimal that
  reads back as the same double), decimal integer literals, and the text, bytes and integer readings
  of a command argument.
\<close>

section \<open>Decimal text\<close>

fun dec_digits :: "nat \<Rightarrow> nat list" where
  "dec_digits n = (if n < 10 then [n] else dec_digits (n div 10) @ [n mod 10])"

declare dec_digits.simps [simp del]

definition digit_unit :: "nat \<Rightarrow> 16 word" where
  "digit_unit d = of_nat (48 + d)"

definition nat_text :: "nat \<Rightarrow> jsstr" where
  "nat_text n = map digit_unit (dec_digits n)"

definition int_text :: "int \<Rightarrow> jsstr" where
  "int_text i = (if i < 0 then 0x2D # nat_text (nat (- i)) else nat_text (nat i))"

definition is_digit :: "16 word \<Rightarrow> bool" where
  "is_digit u \<longleftrightarrow> 0x30 \<le> u \<and> u \<le> 0x39"

definition digit_value :: "16 word \<Rightarrow> nat" where
  "digit_value u = unat u - 48"

definition digits_value :: "jsstr \<Rightarrow> nat" where
  "digits_value s = foldl (\<lambda>n u. n * 10 + digit_value u) 0 s"

text \<open>The pattern \<open>^[+-]?\d+$\<close>, and \<open>BigInt(source)\<close> of a text that matches it.\<close>

definition signed_body :: "jsstr \<Rightarrow> bool \<times> jsstr" where
  "signed_body s =
    (case s of [] \<Rightarrow> (False, [])
     | u # us \<Rightarrow> if u = 0x2D then (True, us) else if u = 0x2B then (False, us) else (False, s))"

definition is_integer_text :: "jsstr \<Rightarrow> bool" where
  "is_integer_text s = (case signed_body s of (neg, body) \<Rightarrow> body \<noteq> [] \<and> (\<forall>u \<in> set body. is_digit u))"

definition integer_of_text :: "jsstr \<Rightarrow> int" where
  "integer_of_text s = (case signed_body s of (neg, body) \<Rightarrow>
    (if neg then - int (digits_value body) else int (digits_value body)))"

subsection \<open>Shortest decimal of a double\<close>

text \<open>
  \<open>Number::toString\<close> for a positive double \<open>m * 2^e\<close>. The decimals that read back as it lie
  between the midpoints to its neighbours (in units of \<open>2^(e-2)\<close>: \<open>lo\<close> and \<open>hi\<close>, belonging to the
  double when \<open>m\<close> is even). For \<open>k = 1, 2, \<dots>\<close> significant digits the nearest multiple of
  \<open>10^(n-k)\<close> is tried; 17 digits always suffice.
\<close>

definition scaled :: "int \<Rightarrow> int \<Rightarrow> int \<times> int" where
  "scaled v ex = (if ex \<ge> 0 then (v * 2 ^ nat ex, 1) else (v, 2 ^ nat (- ex)))"

definition pow10_frac :: "int \<Rightarrow> int \<times> int" where
  "pow10_frac p = (if p \<ge> 0 then (10 ^ nat p, 1) else (1, 10 ^ nat (- p)))"

definition frac_le :: "int \<times> int \<Rightarrow> int \<times> int \<Rightarrow> bool" where
  "frac_le a b \<longleftrightarrow> fst a * snd b \<le> fst b * snd a"

definition frac_lt :: "int \<times> int \<Rightarrow> int \<times> int \<Rightarrow> bool" where
  "frac_lt a b \<longleftrightarrow> fst a * snd b < fst b * snd a"

text \<open>The decimal exponent \<open>n\<close> with \<open>10^(n-1) \<le> x < 10^n\<close>, searched downwards.\<close>

fun dec_exponent :: "nat \<Rightarrow> int \<times> int \<Rightarrow> int \<Rightarrow> int" where
  "dec_exponent 0 x n = n"
| "dec_exponent (Suc fuel) x n =
    (if frac_le (pow10_frac (n - 1)) x then n else dec_exponent fuel x (n - 1))"

fun shortest_from :: "nat \<Rightarrow> nat \<Rightarrow> int \<Rightarrow> int \<times> int \<Rightarrow> int \<times> int \<Rightarrow> int \<times> int \<Rightarrow> bool \<Rightarrow> int \<times> nat" where
  "shortest_from 0 k n x lo hi incl = (0, k)"
| "shortest_from (Suc fuel) k n x lo hi incl =
    (let p = pow10_frac (n - int k);
         num = fst x * snd p; den = snd x * fst p;
         s = (2 * num + den) div (2 * den);
         v = (s * fst p, snd p)
     in if (if incl then frac_le lo v \<and> frac_le v hi else frac_lt lo v \<and> frac_lt v hi)
        then (s, k) else shortest_from fuel (Suc k) n x lo hi incl)"

definition float_text :: "int \<Rightarrow> int \<Rightarrow> jsstr" where
  "float_text m e =
    (let x = scaled (4 * m) (e - 2);
         lo = scaled (4 * m - (if m = 2 ^ 52 \<and> e > - 1074 then 1 else 2)) (e - 2);
         hi = scaled (4 * m + 2) (e - 2);
         n0 = dec_exponent 700 x 310;
         sk = shortest_from 18 1 n0 x lo hi (even m);
         carry = (fst sk = 10 ^ snd sk);
         ds = (if carry then ascii ''1'' else nat_text (nat (fst sk))); k = int (length ds);
         n = (if carry then n0 + 1 else n0)
     in if k \<le> n \<and> n \<le> 21 then ds @ replicate (nat (n - k)) 0x30
        else if 0 < n \<and> n \<le> 21 then take (nat n) ds @ 0x2E # drop (nat n) ds
        else if - 6 < n \<and> n \<le> 0 then ascii ''0.'' @ replicate (nat (- n)) 0x30 @ ds
        else (let ex = (if n - 1 < 0 then 0x2D else 0x2B) # nat_text (nat \<bar>n - 1\<bar>)
              in if k = 1 then ds @ 0x65 # ex else hd ds # 0x2E # tl ds @ 0x65 # ex))"

text \<open>Mantissa and exponent of a non-zero integral double.\<close>

fun int_parts :: "nat \<Rightarrow> int \<Rightarrow> int \<Rightarrow> int \<times> int" where
  "int_parts 0 m e = (m, e)"
| "int_parts (Suc fuel) m e = (if m < 2 ^ 53 then (m, e) else int_parts fuel (m div 2) (e + 1))"

text \<open>\<open>String(value)\<close> of a number.\<close>

fun number_text :: "jsval \<Rightarrow> jsstr" where
  "number_text (JInt i) =
    (if safe_int i then int_text i
     else (case int_parts 1100 \<bar>i\<bar> 0 of (m, e) \<Rightarrow>
       (if i < 0 then [0x2D] else []) @ float_text m e))"
| "number_text (JFloat w) =
    (let s = bit w 63; e = unat (drop_bit 52 w) mod 2048; m = unat w mod 2 ^ 52;
         sg = (if s then [0x2D] else [])
     in if e = 2047 then (if m = 0 then sg @ ascii ''Infinity'' else ascii ''NaN'')
        else if e = 0 then (if m = 0 then ascii ''0'' else sg @ float_text (int m) (- 1074))
        else sg @ float_text (int m + 2 ^ 52) (int e - 1075))"
| "number_text _ = []"

section \<open>Text and bytes of a command argument\<close>

text \<open>\<open>toBuffer\<close> of \<open>protocol-text.ts\<close> (a symbol is given by its description).\<close>

fun to_buffer :: "jsval \<Rightarrow> bytes res" where
  "to_buffer (JBuf b) = Inr b"
| "to_buffer (JU8 b) = Inr b"
| "to_buffer (JStr s) = Inr (utf8_encode s)"
| "to_buffer (JInt i) = Inr (utf8_encode (number_text (JInt i)))"
| "to_buffer (JFloat w) = Inr (utf8_encode (number_text (JFloat w)))"
| "to_buffer (JBig i) = Inr (utf8_encode (int_text i))"
| "to_buffer (JBool b) = Inr (utf8_encode (ascii (if b then ''true'' else ''false'')))"
| "to_buffer (JSym d) = Inr (utf8_encode d)"
| "to_buffer JUndef = Inr []"
| "to_buffer JNull = Inr []"
| "to_buffer JHole = Inr []"
| "to_buffer _ = Inl (Thrown FerricStoreError ''unsupported binary command argument type'' [JStr (ascii ''object'')])"

definition as_text :: "jsval \<Rightarrow> jsstr res" where
  "as_text v = rbind (to_buffer v) (\<lambda>b. Inr (utf8_decode b))"

fun optional_text :: "jsval \<Rightarrow> jsstr option" where
  "optional_text (JStr s) = (if s = [] then None else Some (utf8_decode (utf8_encode s)))"
| "optional_text (JInt i) = Some (number_text (JInt i))"
| "optional_text (JFloat w) = Some (number_text (JFloat w))"
| "optional_text (JBig i) = Some (int_text i)"
| "optional_text (JBool b) = Some (ascii (if b then ''true'' else ''false''))"
| "optional_text (JBuf b) = Some (utf8_decode b)"
| "optional_text (JU8 b) = Some (utf8_decode b)"
| "optional_text _ = None"

text \<open>\<open>commandToken\<close> of \<open>command-grammar.ts\<close>, and \<open>commandTokenIs\<close>, \<open>commandName\<close>,
  \<open>commandNameIs\<close> of \<open>protocol-text.ts\<close>.\<close>

fun command_token :: "jsval \<Rightarrow> jsstr option" where
  "command_token (JStr s) = Some (to_upper s)"
| "command_token (JBuf b) = Some (to_upper (utf8_decode b))"
| "command_token (JU8 b) = Some (to_upper (utf8_decode b))"
| "command_token _ = None"

fun command_token_is :: "jsval \<Rightarrow> jsstr \<Rightarrow> bool" where
  "command_token_is (JStr s) expected = (to_upper s = expected)"
| "command_token_is (JBuf b) expected = (to_upper (utf8_decode b) = expected)"
| "command_token_is (JU8 b) expected = (to_upper (utf8_decode b) = expected)"
| "command_token_is _ expected = False"

definition command_name :: "jsval \<Rightarrow> jsstr option" where
  "command_name v = command_token v"

definition command_name_is :: "jsval \<Rightarrow> jsstr \<Rightarrow> bool res" where
  "command_name_is v expected =
    (case v of JStr s \<Rightarrow> Inr (s = expected \<or> to_upper s = expected)
     | _ \<Rightarrow> rbind (as_text v) (\<lambda>t. Inr (to_upper t = expected)))"

lemma command_token_is_iff: "command_token_is v e \<longleftrightarrow> command_token v = Some e"
  by (cases v) auto

section \<open>Integer arguments\<close>

text \<open>\<open>integerArg\<close>: an exact signed 64-bit integer; a number when it is safe, else a bigint.\<close>

definition integer_arg :: "jsval \<Rightarrow> jsval res" where
  "integer_arg v =
    (case v of
       JInt i \<Rightarrow>
         if safe_int i then Inr (JInt i)
         else Inl (ferric_error ''unsafe integer command argument; use bigint for exact encoding'')
     | JFloat w \<Rightarrow>
         if w = 0x8000000000000000 then Inr v
         else Inl (ferric_error ''integer command argument must be an integer'')
     | _ \<Rightarrow>
         rbind (case v of JBig i \<Rightarrow> Inr (int_text i) | _ \<Rightarrow> as_text v) (\<lambda>source.
         if \<not> is_integer_text source then
           Inl (ferric_error ''integer command argument must be an integer'')
         else (let integer = integer_of_text source in
           if integer < MIN_I64 \<or> integer > MAX_I64 then
             Inl (ferric_error ''integer command argument exceeds the signed 64-bit range'')
           else Inr (if safe_int integer then JInt integer else JBig integer))))"

definition safe_integer_number_arg :: "jsval \<Rightarrow> jsval res" where
  "safe_integer_number_arg v =
    rbind (integer_arg v) (\<lambda>i.
    case i of JBig _ \<Rightarrow>
      Inl (ferric_error ''integer command argument exceeds the JavaScript safe range'')
    | _ \<Rightarrow> Inr i)"

definition i64_arg :: "jsval \<Rightarrow> int res" where
  "i64_arg v = rbind (integer_arg v) (\<lambda>i.
    Inr (case i of JInt n \<Rightarrow> n | JBig n \<Rightarrow> n | _ \<Rightarrow> 0))"

fun true_text :: "jsstr \<Rightarrow> bool" where
  "true_text t = (t = ascii ''1'' \<or> t = ascii ''TRUE'' \<or> t = ascii ''YES'' \<or> t = ascii ''ON'')"

definition bool_arg :: "jsval \<Rightarrow> bool res" where
  "bool_arg v = (case v of JBool b \<Rightarrow> Inr b
    | _ \<Rightarrow> rbind (as_text v) (\<lambda>t. Inr (true_text (to_upper t))))"

definition is_bool_token :: "jsval \<Rightarrow> bool res" where
  "is_bool_token v = (case v of JBool b \<Rightarrow> Inr True
    | _ \<Rightarrow> rbind (as_text v) (\<lambda>t. (let t = to_upper t in
        Inr (true_text t \<or> t = ascii ''0'' \<or> t = ascii ''FALSE'' \<or> t = ascii ''NO'' \<or> t = ascii ''OFF''))))"

text \<open>\<open>independentMode\<close> and \<open>optionalI64\<close>.\<close>

definition independent_mode :: "jsval \<Rightarrow> nat" where
  "independent_mode v = (if v = JBool True then 2 else if v = JBool False then 1 else 0)"

section \<open>Lemmas\<close>

lemma dec_digits_lt: "d \<in> set (dec_digits n) \<Longrightarrow> d < 10"
proof (induction n rule: dec_digits.induct)
  case (1 n)
  then show ?case by (subst (asm) dec_digits.simps) (auto split: if_splits)
qed

lemma dec_digits_ne: "dec_digits n \<noteq> []"
  by (subst dec_digits.simps) simp

lemma digit_unit: "d < 10 \<Longrightarrow> is_digit (digit_unit d) \<and> digit_value (digit_unit d) = d"
proof -
  assume "d < 10"
  then have "unat (digit_unit d) = 48 + d"
    unfolding digit_unit_def unat_of_nat by simp
  with \<open>d < 10\<close> show ?thesis by (simp add: is_digit_def digit_value_def word_le_nat_alt)
qed

lemma digits_value_text: "digits_value (nat_text n) = n"
proof (induction n rule: dec_digits.induct)
  case (1 n)
  show ?case
  proof (cases "n < 10")
    case True
    then show ?thesis using digit_unit [of n]
      by (simp add: digits_value_def nat_text_def dec_digits.simps [of n])
  next
    case False
    then have "digits_value (nat_text n) = digits_value (nat_text (n div 10)) * 10 + n mod 10"
      using digit_unit [of "n mod 10"]
      by (simp add: digits_value_def nat_text_def dec_digits.simps [of n])
    with 1 [OF False] show ?thesis by simp
  qed
qed

lemma nat_text_digits: "\<forall>u \<in> set (nat_text n). is_digit u"
  using digit_unit dec_digits_lt by (auto simp: nat_text_def)

text \<open>What \<open>integerArg\<close> returns.\<close>

lemma integer_arg_Inr:
  "integer_arg v = Inr r \<Longrightarrow> (\<exists>i. r = JInt i \<and> safe_int i) \<or> r = JFloat 0x8000000000000000 \<or>
    (\<exists>i. r = JBig i \<and> MIN_I64 \<le> i \<and> i \<le> MAX_I64)"
  unfolding integer_arg_def by (cases v) (auto simp: Let_def split: if_splits)

lemma nat_text_inj: "nat_text m = nat_text n \<longleftrightarrow> m = n"
  by (metis digits_value_text)

section \<open>Properties\<close>

text \<open>Writing an integer in decimal and reading the text back with the integer pattern of the
  argument parsers gives the integer, sign and zero included.\<close>

theorem integer_text_roundtrip: "is_integer_text (int_text i) \<and> integer_of_text (int_text i) = i"
proof -
  obtain u us where n: "nat_text (nat \<bar>i\<bar>) = u # us"
    using dec_digits_ne [of "nat \<bar>i\<bar>"] by (cases "dec_digits (nat \<bar>i\<bar>)") (auto simp: nat_text_def)
  then have d: "is_digit u" "\<forall>u \<in> set us. is_digit u" "digits_value (u # us) = nat \<bar>i\<bar>"
    using nat_text_digits [of "nat \<bar>i\<bar>"] digits_value_text [of "nat \<bar>i\<bar>"] by auto
  from d(1) have "u \<noteq> 0x2D" "u \<noteq> 0x2B" by (auto simp: is_digit_def)
  with n d show ?thesis
    by (cases "i < 0") (auto simp: int_text_def is_integer_text_def integer_of_text_def signed_body_def)
qed

end
