(* ===== verification/Frame.thy ===== *)
theory Frame
  imports NumberText
begin

unbundle bit_operations_syntax

text \<open>
  Framing of the native protocol (\<open>encodeRequest\<close>, \<open>tryDecodeFrame\<close> and \<open>laneForOpcode\<close> in
  \<open>src/src/protocol.ts\<close>, the scalar payload writers of \<open>src/src/protocol-core.ts\<close> and the
  constants of \<open>src/src/protocol-constants.ts\<close>): a 24-byte header, magic \<open>FSNP\<close>, version, flags,
  lane, opcode, request id and body length, followed by the body.
\<close>

section \<open>Constants and records\<close>

abbreviation HEADER_SIZE :: nat where "HEADER_SIZE \<equiv> 24"
abbreviation REQUEST_VERSION :: nat where "REQUEST_VERSION \<equiv> 1"
abbreviation RESPONSE_VERSION :: nat where "RESPONSE_VERSION \<equiv> 129"
abbreviation FLAG_CUSTOM_PAYLOAD :: nat where "FLAG_CUSTOM_PAYLOAD \<equiv> 2"
abbreviation FLAG_COMPRESSED :: nat where "FLAG_COMPRESSED \<equiv> 8"
abbreviation FLAG_MORE_CHUNKS :: nat where "FLAG_MORE_CHUNKS \<equiv> 32"
abbreviation DEFAULT_MAX_FRAME_BYTES :: nat where "DEFAULT_MAX_FRAME_BYTES \<equiv> 16 * 1024 * 1024"

text \<open>The magic \<open>FSNP\<close>.\<close>

definition MAGIC :: bytes where "MAGIC = [0x46, 0x53, 0x4E, 0x50]"

datatype claim_mode = ClaimBase | ClaimAttrs | ClaimState | ClaimStateAttrs

text \<open>\<open>ProtocolCommand\<close>; an absent optional property is \<open>None\<close>.\<close>

record protocol_command =
  pc_opcode :: nat
  pc_payload :: jsval
  pc_flags :: "nat option"
  pc_lane_id :: "nat option"
  pc_claim_mode :: "claim_mode option"
  pc_response_items :: "nat option"
  pc_pipeline_modes :: "claim_mode option list option"
  pc_partition_key :: "jsval option"
  pc_partition_keys :: "jsval list option"
  pc_server_block_ms :: "jsval option"

definition plain_command :: "nat \<Rightarrow> jsval \<Rightarrow> protocol_command" where
  "plain_command opcode payload =
    \<lparr>pc_opcode = opcode, pc_payload = payload, pc_flags = None, pc_lane_id = None,
     pc_claim_mode = None, pc_response_items = None, pc_pipeline_modes = None,
     pc_partition_key = None, pc_partition_keys = None, pc_server_block_ms = None\<rparr>"

record response_frame =
  rf_flags :: nat
  rf_lane_id :: nat
  rf_opcode :: nat
  rf_request_id :: nat
  rf_body_length :: nat
  rf_body :: bytes

definition flag_set :: "nat \<Rightarrow> nat \<Rightarrow> bool" where
  "flag_set flags flag \<longleftrightarrow> flags AND flag \<noteq> 0"

section \<open>Requests\<close>

text \<open>\<open>Math.trunc\<close> of a finite double, \<open>None\<close> for an infinity or NaN.\<close>

definition float_trunc :: "64 word \<Rightarrow> int option" where
  "float_trunc w =
    (let e = unat (drop_bit 52 w) mod 2048; m = unat w mod 2 ^ 52;
         sg = (\<lambda>n. if bit w 63 then - int n else int n)
     in if e = 2047 then None
        else if e < 1023 then Some 0
        else if e \<ge> 1075 then Some (sg ((m + 2 ^ 52) * 2 ^ (e - 1075)))
        else Some (sg ((m + 2 ^ 52) div 2 ^ (1075 - e))))"

fun number_trunc :: "jsval \<Rightarrow> int option" where
  "number_trunc (JInt i) = Some i"
| "number_trunc (JFloat w) = float_trunc w"
| "number_trunc _ = None"

definition normalize_encode_limit :: "jsval \<Rightarrow> nat" where
  "normalize_encode_limit v =
    (case number_trunc v of Some i \<Rightarrow> nat (max 0 (min MAX_SAFE i)) | None \<Rightarrow> nat MAX_SAFE)"

definition normalize_decode_limit :: "jsval option \<Rightarrow> nat \<Rightarrow> nat" where
  "normalize_decode_limit v fallback =
    (case v of None \<Rightarrow> fallback
     | Some v \<Rightarrow> (case number_trunc v of Some i \<Rightarrow> nat (max 0 i) | None \<Rightarrow> fallback))"

text \<open>The bytes of a scalar custom payload: their number is \<open>binaryValueByteLength\<close>, and
  \<open>writeCustomPayload\<close> copies them.\<close>

definition custom_payload_bytes :: "jsval \<Rightarrow> bytes res" where
  "custom_payload_bytes v = to_buffer v"

definition binary_value_byte_length :: "jsval \<Rightarrow> nat res" where
  "binary_value_byte_length v = rbind (custom_payload_bytes v) (\<lambda>b. Inr (length b))"

definition lane_for_opcode :: "nat \<Rightarrow> nat" where
  "lane_for_opcode opcode = (if opcode < 0x0100 then 0 else 1)"

definition frame_header :: "nat \<Rightarrow> nat \<Rightarrow> nat \<Rightarrow> nat \<Rightarrow> nat \<Rightarrow> nat \<Rightarrow> bytes res" where
  "frame_header version flags lane opcode request_id body_length =
    rbind (write_uint 1 (int version)) (\<lambda>v.
    rbind (write_uint 1 (int flags)) (\<lambda>f.
    rbind (write_uint 4 (int lane)) (\<lambda>l.
    rbind (write_uint 2 (int opcode)) (\<lambda>c.
    rbind (write_uint 8 (int request_id)) (\<lambda>r.
    rbind (write_uint 4 (int body_length)) (\<lambda>n.
    Inr (MAGIC @ v @ f @ l @ c @ r @ n)))))))"

definition encode_request :: "protocol_command \<Rightarrow> nat \<Rightarrow> jsval \<Rightarrow> bytes res" where
  "encode_request command request_id max_body_bytes =
    (let body_limit = normalize_encode_limit max_body_bytes;
         flags = (case pc_flags command of None \<Rightarrow> 0 | Some f \<Rightarrow> f);
         custom = flag_set flags FLAG_CUSTOM_PAYLOAD;
         lane = (case pc_lane_id command of None \<Rightarrow> lane_for_opcode (pc_opcode command) | Some l \<Rightarrow> l)
     in if custom then
          rbind (custom_payload_bytes (pc_payload command)) (\<lambda>body.
          if length body > body_limit then Inl (request_frame_too_large body_limit)
          else rbind (frame_header REQUEST_VERSION flags lane (pc_opcode command) request_id (length body))
            (\<lambda>header. Inr (header @ body)))
        else
          rbind (plan_value_with_limit (pc_payload command) body_limit) (\<lambda>(plan, budget).
          if byte_length plan > body_limit then Inl (request_frame_too_large body_limit)
          else rbind (frame_header REQUEST_VERSION flags lane (pc_opcode command) request_id
              (byte_length plan)) (\<lambda>header.
            rbind (write_plan plan) (\<lambda>body. Inr (header @ body)))))"

section \<open>Responses\<close>

text \<open>\<open>tryDecodeFrame\<close>: \<open>Inr None\<close> is \<open>null\<close>, more bytes are needed; the limit is the
  normalized one.\<close>

text \<open>\<open>buffer.toString("ascii", 0, 4)\<close>: decoding as ASCII drops the top bit of each byte.\<close>

definition ascii_magic :: "bytes \<Rightarrow> bytes" where
  "ascii_magic buf = map (\<lambda>b. b AND 0x7F) (subarray 0 4 buf)"

definition try_decode_frame :: "bytes \<Rightarrow> nat \<Rightarrow> (response_frame \<times> bytes) option res" where
  "try_decode_frame buf body_limit =
    (if length buf < HEADER_SIZE then Inr None
     else if ascii_magic buf \<noteq> MAGIC then
       Inl (Thrown FerricStoreError ''invalid FerricStore protocol magic'' [JBuf (subarray 0 4 buf)])
     else (let version = unat (buf ! 4) in
       if version \<noteq> RESPONSE_VERSION then
         Inl (Thrown FerricStoreError ''invalid FerricStore protocol response version'' [JInt (int version)])
       else (let body_length = be_nat (subarray 20 24 buf) in
         if body_length > body_limit then
           Inl (Thrown FerricStoreError ''native protocol frame exceeded bytes'' [JInt (int body_limit)])
         else (let frame_length = HEADER_SIZE + body_length in
           if length buf < frame_length then Inr None
           else Inr (Some (
             \<lparr>rf_flags = unat (buf ! 5),
              rf_lane_id = be_nat (subarray 6 10 buf),
              rf_opcode = be_nat (subarray 10 12 buf),
              rf_request_id = be_nat (subarray 12 20 buf),
              rf_body_length = body_length,
              rf_body = subarray HEADER_SIZE frame_length buf\<rparr>,
             drop frame_length buf))))))"

section \<open>Lemmas\<close>

lemma subarray_append_left: "j \<le> length xs \<Longrightarrow> subarray i j (xs @ ys) = subarray i j xs"
  by (cases "i \<le> j") (auto simp: subarray_def)

lemma ascii_magic_append: "4 \<le> length xs \<Longrightarrow> ascii_magic (xs @ ys) = ascii_magic xs"
  by (simp add: ascii_magic_def subarray_append_left)

lemma ascii_magic_MAGIC: "subarray 0 4 bs = MAGIC \<Longrightarrow> ascii_magic bs = MAGIC"
  by (simp add: ascii_magic_def MAGIC_def)

text \<open>Whether a frame is complete, and which, depends only on its own bytes.\<close>

lemma try_decode_frame_prefix:
  "try_decode_frame buf limit = Inr (Some (frame, rest)) \<Longrightarrow>
    try_decode_frame (buf @ extra) limit = Inr (Some (frame, rest @ extra))"
  by (auto simp: try_decode_frame_def Let_def subarray_append_left ascii_magic_append nth_append
      split: if_splits)

lemma try_decode_frame_error_prefix:
  "try_decode_frame buf limit = Inl e \<Longrightarrow> try_decode_frame (buf @ extra) limit = Inl e"
  by (auto simp: try_decode_frame_def Let_def subarray_append_left ascii_magic_append nth_append
      split: if_splits)

lemma try_decode_frame_length:
  "try_decode_frame buf limit = Inr (Some (frame, rest)) \<Longrightarrow>
    length buf = HEADER_SIZE + rf_body_length frame + length rest \<and>
    length (rf_body frame) = rf_body_length frame \<and> rf_body_length frame \<le> limit"
  by (auto simp: try_decode_frame_def Let_def split: if_splits)

lemma frame_header_length: "frame_header v f l c r n = Inr h \<Longrightarrow> length h = HEADER_SIZE"
  by (auto simp: frame_header_def write_uint_Inr MAGIC_def)

lemma frame_header_fields:
  assumes "frame_header v f l c r n = Inr h"
  shows "subarray 0 4 (h @ b) = MAGIC" "unat ((h @ b) ! 4) = v" "unat ((h @ b) ! 5) = f"
    "be_nat (subarray 6 10 (h @ b)) = l" "be_nat (subarray 10 12 (h @ b)) = c"
    "be_nat (subarray 12 20 (h @ b)) = r" "be_nat (subarray 20 24 (h @ b)) = n"
proof -
  from assms have lt: "v < 256" "f < 256" "l < 256 ^ 4" "c < 256 ^ 2" "r < 256 ^ 8" "n < 256 ^ 4"
    and h: "h = MAGIC @ be_bytes 1 v @ be_bytes 1 f @ be_bytes 4 l @ be_bytes 2 c @
      be_bytes 8 r @ be_bytes 4 n"
    by (auto simp: frame_header_def write_uint_Inr)
  have m: "length MAGIC = 4" by (simp add: MAGIC_def)
  show "subarray 0 4 (h @ b) = MAGIC" using m by (simp add: h subarray_def)
  show "unat ((h @ b) ! 4) = v" "unat ((h @ b) ! 5) = f"
    using m lt by (simp_all add: h nth_append unat_of_nat)
  show "be_nat (subarray 6 10 (h @ b)) = l" "be_nat (subarray 10 12 (h @ b)) = c"
    "be_nat (subarray 12 20 (h @ b)) = r" "be_nat (subarray 20 24 (h @ b)) = n"
    using m lt by (simp_all add: h subarray_def)
qed

text \<open>A well-formed response frame on the wire.\<close>

definition response_bytes :: "response_frame \<Rightarrow> bytes res" where
  "response_bytes fr =
    rbind (frame_header RESPONSE_VERSION (rf_flags fr) (rf_lane_id fr) (rf_opcode fr)
      (rf_request_id fr) (rf_body_length fr)) (\<lambda>h. Inr (h @ rf_body fr))"

lemma try_decode_response_bytes:
  assumes "response_bytes fr = Inr bs" "rf_body_length fr = length (rf_body fr)"
    and "rf_body_length fr \<le> limit"
  shows "try_decode_frame (bs @ rest) limit = Inr (Some (fr, rest))"
proof -
  from assms(1) obtain h where h: "frame_header RESPONSE_VERSION (rf_flags fr) (rf_lane_id fr)
      (rf_opcode fr) (rf_request_id fr) (rf_body_length fr) = Inr h" "bs = h @ rf_body fr"
    by (auto simp: response_bytes_def)
  note l = frame_header_length [OF h(1)]
  note f = frame_header_fields [OF h(1), of "rf_body fr @ rest"]
  show ?thesis
    using assms(2,3) l f ascii_magic_MAGIC [of "bs @ rest"]
    by (simp add: try_decode_frame_def h(2) subarray_def)
qed

lemma be_bytes_2_8: "be_bytes 2 n = [of_nat (n div 256), of_nat n]"
  "be_bytes 8 n = [of_nat (n div 72057594037927936), of_nat (n div 281474976710656),
    of_nat (n div 1099511627776), of_nat (n div 4294967296), of_nat (n div 16777216),
    of_nat (n div 65536), of_nat (n div 256), of_nat n]"
proof -
  have two: "(2::nat) = Suc (Suc 0)" by simp
  have eight: "(8::nat) = Suc (Suc (Suc (Suc (Suc (Suc (Suc (Suc 0)))))))" by simp
  show "be_bytes 2 n = [of_nat (n div 256), of_nat n]" unfolding two by simp
  show "be_bytes 8 n = [of_nat (n div 72057594037927936), of_nat (n div 281474976710656),
      of_nat (n div 1099511627776), of_nat (n div 4294967296), of_nat (n div 16777216),
      of_nat (n div 65536), of_nat (n div 256), of_nat n]"
    unfolding eight by simp
qed

text \<open>Only the low seven bits of the first four bytes count.\<close>

lemma try_decode_magic:
  assumes "length m1 = 4" "length m2 = 4" "map (\<lambda>b. b AND 0x7F) m1 = MAGIC"
    "map (\<lambda>b. b AND 0x7F) m2 = MAGIC"
  shows "try_decode_frame (m1 @ rest) limit = try_decode_frame (m2 @ rest) limit"
proof -
  have sub: "subarray i j (m1 @ rest) = subarray i j (m2 @ rest)" if "4 \<le> i" for i j
    using that assms by (simp add: subarray_def)
  have dr: "drop n (m1 @ rest) = drop n (m2 @ rest)" if "4 \<le> n" for n
    using that assms by simp
  have nth: "(m1 @ rest) ! n = (m2 @ rest) ! n" if "4 \<le> n" for n
    using that assms by (simp add: nth_append)
  have len: "length (m1 @ rest) = length (m2 @ rest)" using assms by simp
  have m: "ascii_magic (m1 @ rest) = MAGIC" "ascii_magic (m2 @ rest) = MAGIC"
    using assms by (simp_all add: ascii_magic_def subarray_def)
  have fields: "subarray 20 24 (m1 @ rest) = subarray 20 24 (m2 @ rest)"
    "subarray 6 10 (m1 @ rest) = subarray 6 10 (m2 @ rest)"
    "subarray 10 12 (m1 @ rest) = subarray 10 12 (m2 @ rest)"
    "subarray 12 20 (m1 @ rest) = subarray 12 20 (m2 @ rest)"
    "(m1 @ rest) ! 4 = (m2 @ rest) ! 4" "(m1 @ rest) ! 5 = (m2 @ rest) ! 5"
    "subarray HEADER_SIZE (HEADER_SIZE + n) (m1 @ rest) = subarray HEADER_SIZE (HEADER_SIZE + n) (m2 @ rest)"
    "drop (HEADER_SIZE + n) (m1 @ rest) = drop (HEADER_SIZE + n) (m2 @ rest)" for n
    by (rule sub nth dr, simp)+
  show ?thesis
    unfolding try_decode_frame_def Let_def m len fields by (simp only: not_True_eq_False simp_thms if_False)
qed

section \<open>Properties\<close>

text \<open>C19. A request frame states its own content: if a command is encoded at all, the frame is the
  24-byte header with magic, version, flags, lane, opcode and request id of the command and the
  length of exactly the bytes that follow, and the body respects the byte limit.\<close>

theorem request_frame_layout:
  assumes "encode_request command request_id max_body = Inr bs"
  shows "subarray 0 4 bs = MAGIC \<and> unat (bs ! 4) = REQUEST_VERSION \<and>
    unat (bs ! 5) = (case pc_flags command of None \<Rightarrow> 0 | Some f \<Rightarrow> f) \<and>
    be_nat (subarray 6 10 bs) =
      (case pc_lane_id command of None \<Rightarrow> lane_for_opcode (pc_opcode command) | Some l \<Rightarrow> l) \<and>
    be_nat (subarray 10 12 bs) = pc_opcode command \<and>
    be_nat (subarray 12 20 bs) = request_id \<and>
    be_nat (subarray 20 24 bs) + HEADER_SIZE = length bs \<and>
    length bs \<le> HEADER_SIZE + normalize_encode_limit max_body"
proof -
  define flags where "flags = (case pc_flags command of None \<Rightarrow> 0 | Some f \<Rightarrow> f)"
  define lane where "lane =
    (case pc_lane_id command of None \<Rightarrow> lane_for_opcode (pc_opcode command) | Some l \<Rightarrow> l)"
  obtain header body where h:
    "frame_header REQUEST_VERSION flags lane (pc_opcode command) request_id (length body) = Inr header"
    "bs = header @ body" "length body \<le> normalize_encode_limit max_body"
  proof (cases "flag_set flags FLAG_CUSTOM_PAYLOAD")
    case True
    with assms that show ?thesis
      by (auto simp: encode_request_def Let_def flags_def [symmetric] lane_def [symmetric]
          split: if_splits)
  next
    case False
    with assms obtain plan budget header body where
      p: "plan_value_with_limit (pc_payload command) (normalize_encode_limit max_body) = Inr (plan, budget)"
      "byte_length plan \<le> normalize_encode_limit max_body"
      "frame_header REQUEST_VERSION flags lane (pc_opcode command) request_id (byte_length plan) =
        Inr header"
      "write_plan plan = Inr body" "bs = header @ body"
      by (auto simp: encode_request_def Let_def flags_def [symmetric] lane_def [symmetric]
          split: if_splits)
    from write_plan_length(1) [OF p(1) [unfolded plan_value_with_limit_def] p(4)] p that
    show ?thesis by metis
  qed
  from frame_header_length [OF h(1)] frame_header_fields [OF h(1), of body] h(2,3)
  show ?thesis by (simp add: flags_def lane_def)
qed

theorem request_frame_layout_witness:
  "be_nat (subarray 20 24 (MAGIC @ [1, 0] @ [0, 0, 0, 0] @ [0, 3] @ [0, 0, 0, 0, 0, 0, 0, 7] @ [0, 0, 0, 1] @ [0])) +
    HEADER_SIZE = length (MAGIC @ [1, 0] @ [0, 0, 0, 0] @ [0, 3] @ [0, 0, 0, 0, 0, 0, 0, 7] @ [0, 0, 0, 1] @ [0])"
proof -
  have "encode_request (plain_command 3 JUndef) 7 (JInt 10) =
      Inr (MAGIC @ [1, 0] @ [0, 0, 0, 0] @ [0, 3] @ [0, 0, 0, 0, 0, 0, 0, 7] @ [0, 0, 0, 1] @ [0])"
    by (simp add: encode_request_def plain_command_def flag_set_def frame_header_def
        lane_for_opcode_def normalize_encode_limit_def encode_simps be_bytes_2_8)
  from request_frame_layout [OF this] show ?thesis by simp
qed

text \<open>C20. A response frame put on the wire is found again at the front of the stream, whatever follows
  it, with all its fields, and the rest of the stream is returned unread.\<close>

theorem response_frame_roundtrip:
  assumes "response_bytes fr = Inr bs" "rf_body_length fr = length (rf_body fr)"
    and "rf_body_length fr \<le> limit"
  shows "try_decode_frame (bs @ rest) limit = Inr (Some (fr, rest))"
  using assms by (rule try_decode_response_bytes)

theorem response_frame_roundtrip_witness:
  "try_decode_frame ((MAGIC @ [129, 0] @ [0, 0, 0, 1] @ [1, 2] @ [0, 0, 0, 0, 0, 0, 0, 5] @ [0, 0, 0, 2] @ [8, 9]) @ [7]) 2 =
    Inr (Some (\<lparr>rf_flags = 0, rf_lane_id = 1, rf_opcode = 258, rf_request_id = 5,
      rf_body_length = 2, rf_body = [8, 9]\<rparr>, [7]))"
  by (rule response_frame_roundtrip)
    (simp_all add: response_bytes_def frame_header_def encode_simps be_bytes_2_8)

text \<open>The magic check looks at the low seven bits of its four bytes only, because the comparison
  decodes them as ASCII: a frame whose magic bytes have their top bits set (\<open>C6 D3 CE D0\<close>) is
  accepted like the documented one (\<open>46 53 4E 50\<close>).\<close>

theorem magic_ignores_top_bits:
  "try_decode_frame ([0xC6, 0xD3, 0xCE, 0xD0] @ rest) limit = try_decode_frame (MAGIC @ rest) limit"
  by (rule try_decode_magic) (simp_all add: MAGIC_def)

end
