(* ===== verification/FrameStream.thy ===== *)
theory FrameStream
  imports Prelude
begin

text \<open>
  The interface between a byte stream cut into frames and its reader: what the response handler
  (\<open>src/src/native-response-handler.ts\<close>) relies on in the receive buffer. Data is pushed in chunks
  of any size, frames are pulled; \<open>pending\<close> is what has been pushed and not yet pulled, and \<open>carve\<close>
  the pure function that finds the first frame of a byte string.
\<close>

datatype 'b io = Data "'b list" | Pull

definition data_of :: "'b io list \<Rightarrow> 'b list" where
  "data_of ops = concat (map (\<lambda>op. case op of Data bs \<Rightarrow> bs | Pull \<Rightarrow> []) ops)"

lemma data_of_simps [simp]: "data_of [] = []" "data_of (Data bs # ops) = bs @ data_of ops"
  "data_of (Pull # ops) = data_of ops"
  by (simp_all add: data_of_def)

text \<open>The frames handed out along a history, and the state or error it ends with.\<close>

fun run_io ::
  "('s \<Rightarrow> 'b list \<Rightarrow> 's) \<Rightarrow> ('s \<Rightarrow> 'e + ('f option \<times> 's)) \<Rightarrow> 'b io list \<Rightarrow> 's \<Rightarrow> 'f list \<times> ('e + 's)"
where
  "run_io push pull [] s = ([], Inr s)"
| "run_io push pull (Data bs # ops) s = run_io push pull ops (push s bs)"
| "run_io push pull (Pull # ops) s =
    (case pull s of
       Inl e \<Rightarrow> ([], Inl e)
     | Inr (None, s') \<Rightarrow> run_io push pull ops s'
     | Inr (Some f, s') \<Rightarrow> (case run_io push pull ops s' of (fs, r) \<Rightarrow> (f # fs, r)))"

text \<open>\<open>carve_all carve bs fs\<close>: the rest of \<open>bs\<close> when its first frames are \<open>fs\<close>.\<close>

fun carve_all :: "('b list \<Rightarrow> 'e + ('f \<times> 'b list) option) \<Rightarrow> 'b list \<Rightarrow> 'f list \<Rightarrow> 'b list option" where
  "carve_all carve bs [] = Some bs"
| "carve_all carve bs (f # fs) =
    (case carve bs of
       Inr (Some (g, rest)) \<Rightarrow> if g = f then carve_all carve rest fs else None
     | _ \<Rightarrow> None)"

locale frame_source =
  fixes push :: "'s \<Rightarrow> 'b list \<Rightarrow> 's"
    and pull :: "'s \<Rightarrow> 'e + ('f option \<times> 's)"
    and pending :: "'s \<Rightarrow> 'b list"
    and ok :: "'s \<Rightarrow> bool"
    and carve :: "'b list \<Rightarrow> 'e + ('f \<times> 'b list) option"
  assumes push_ok: "ok s \<Longrightarrow> ok (push s bs)"
    and push_pending: "ok s \<Longrightarrow> pending (push s bs) = pending s @ bs"
    and pull_error: "ok s \<Longrightarrow> carve (pending s) = Inl e \<Longrightarrow> pull s = Inl e"
    and pull_none: "ok s \<Longrightarrow> carve (pending s) = Inr None \<Longrightarrow>
      \<exists>s'. pull s = Inr (None, s') \<and> ok s' \<and> pending s' = pending s"
    and pull_some: "ok s \<Longrightarrow> carve (pending s) = Inr (Some (f, rest)) \<Longrightarrow>
      \<exists>s'. pull s = Inr (Some f, s') \<and> ok s' \<and> pending s' = rest"
    and carve_some: "carve bs = Inr (Some (f, rest)) \<Longrightarrow> carve (bs @ more) = Inr (Some (f, rest @ more))"
    and carve_error: "carve bs = Inl e \<Longrightarrow> carve (bs @ more) = Inl e"
begin

text \<open>Whatever the chunks and the moments of the pulls, the frames handed out are the first frames of
  the concatenated data; an error is the error of the bytes that follow them.\<close>

lemma run_cuts:
  assumes "ok s" "run_io push pull ops s = (fs, r)"
  shows "case r of
      Inr s' \<Rightarrow> ok s' \<and> carve_all carve (pending s @ data_of ops) fs = Some (pending s')
    | Inl e \<Rightarrow> \<exists>rest. carve_all carve (pending s @ data_of ops) fs = Some rest \<and> carve rest = Inl e"
  using assms
proof (induction ops arbitrary: s fs)
  case Nil
  then show ?case by auto
next
  case (Cons op ops)
  show ?case
  proof (cases op)
    case (Data bs)
    with Cons.IH [OF push_ok [OF Cons.prems(1)]] Cons.prems show ?thesis
      by (cases r; simp add: push_pending)
  next
    case Pull
    consider e where "carve (pending s) = Inl e" | "carve (pending s) = Inr None"
      | f rest where "carve (pending s) = Inr (Some (f, rest))"
      by (cases "carve (pending s)") (auto, metis option.exhaust surj_pair)
    then show ?thesis
    proof cases
      case (1 e)
      with pull_error [OF Cons.prems(1)] Cons.prems(2) Pull carve_error show ?thesis
        by auto
    next
      case 2
      with pull_none [OF Cons.prems(1)] obtain s' where
        "pull s = Inr (None, s')" "ok s'" "pending s' = pending s" by blast
      with Cons.IH [of s'] Cons.prems(2) Pull show ?thesis by (cases r; simp)
    next
      case (3 f rest)
      with pull_some [OF Cons.prems(1)] obtain s' where
        s': "pull s = Inr (Some f, s')" "ok s'" "pending s' = rest" by blast
      with Cons.prems(2) Pull obtain gs where g: "fs = f # gs" "run_io push pull ops s' = (gs, r)"
        by (auto split: prod.splits)
      from Cons.IH [OF s'(2) g(2)] carve_some [OF 3, of "data_of ops"] show ?thesis
        by (cases r; simp add: Pull g(1) s'(3))
    qed
  qed
qed

text \<open>After a pull without a frame there is none in the pending bytes.\<close>

lemma pull_none_iff: "ok s \<Longrightarrow> (\<exists>s'. pull s = Inr (None, s')) \<longleftrightarrow> carve (pending s) = Inr None"
proof (cases "carve (pending s)")
  case (Inr r)
  assume "ok s"
  with Inr show ?thesis
    using pull_none [of s] pull_some [of s] by (cases r) auto
qed (use pull_error [of s] in simp)

end

end
