(* ===== verification/ReceiveBuffer.thy ===== *)
theory ReceiveBuffer
  imports Frame FrameStream
begin

text \<open>
  \<open>src/src/native-receive-buffer.ts\<close>: socket chunks of any size come in, protocol frames go out.
  Complete frames are cut out of the queued chunks; for a frame that is not complete yet the bytes
  are moved into pages of at most 64 KiB (\<open>NativeFrameAssembly\<close>), into which later chunks are
  copied directly.

  A frame assembly is modelled by the bytes written to each page and by the room left in the last
  page (\<open>page.byteLength - pageBytes\<close>, 0 when there is no page): the code uses the two numbers only
  through their difference.
\<close>

section \<open>Definitions\<close>

abbreviation FRAME_ASSEMBLY_PAGE_BYTES :: nat where "FRAME_ASSEMBLY_PAGE_BYTES \<equiv> 64 * 1024"

record frame_assembly =
  fa_frame_length :: nat
  fa_pages :: "bytes list"
  fa_room :: nat
  fa_received :: nat

definition new_assembly :: "nat \<Rightarrow> frame_assembly" where
  "new_assembly n = \<lparr>fa_frame_length = n, fa_pages = [], fa_room = 0, fa_received = 0\<rparr>"

definition fa_complete :: "frame_assembly \<Rightarrow> bool" where
  "fa_complete fa \<longleftrightarrow> fa_received fa = fa_frame_length fa"

text \<open>One iteration: open a page if there is none or the last is full, then copy.\<close>

definition fa_open_page :: "frame_assembly \<Rightarrow> frame_assembly" where
  "fa_open_page fa =
    (if fa_room fa = 0
     then fa\<lparr>fa_pages := fa_pages fa @ [[]],
             fa_room := min FRAME_ASSEMBLY_PAGE_BYTES (fa_frame_length fa - fa_received fa)\<rparr>
     else fa)"

lemma fa_open_page_room:
  "fa_received fa < fa_frame_length fa \<Longrightarrow> 0 < fa_room (fa_open_page fa)"
  "fa_received (fa_open_page fa) = fa_received fa"
  "fa_frame_length (fa_open_page fa) = fa_frame_length fa"
  by (simp_all add: fa_open_page_def)

definition fa_copy :: "frame_assembly \<Rightarrow> bytes \<Rightarrow> frame_assembly" where
  "fa_copy fa src =
    fa\<lparr>fa_pages := butlast (fa_pages fa) @ [last (fa_pages fa) @ src],
       fa_room := fa_room fa - length src,
       fa_received := fa_received fa + length src\<rparr>"

function fa_append :: "frame_assembly \<Rightarrow> bytes \<Rightarrow> nat \<Rightarrow> frame_assembly \<times> nat" where
  "fa_append fa chunk source_offset =
    (if source_offset < length chunk \<and> fa_received fa < fa_frame_length fa then
       (let fa = fa_open_page fa;
            n = min (length chunk - source_offset)
                  (min (fa_room fa) (fa_frame_length fa - fa_received fa))
        in fa_append (fa_copy fa (subarray source_offset (source_offset + n) chunk)) chunk
             (source_offset + n))
     else (fa, source_offset))"
  by pat_completeness auto
termination
proof (relation "measure (\<lambda>(fa, chunk, off). length chunk - off)", goal_cases)
  case (2 fa chunk off fa' n)
  then have "0 < n" "off < length chunk"
    using fa_open_page_room [of fa] by simp_all
  then show ?case by (simp only: in_measure prod.case)
qed simp

declare fa_append.simps [simp del]

definition fa_finish :: "frame_assembly \<Rightarrow> bytes res" where
  "fa_finish fa =
    (if \<not> fa_complete fa then Inl (ferric_error ''native receive buffer frame is incomplete'')
     else (case fa_pages fa of
         [] \<Rightarrow> Inl (ferric_error ''native receive buffer frame is empty'')
       | first # rest \<Rightarrow>
           Inr (if rest = [] then first else buffer_concat (fa_pages fa) (fa_frame_length fa))))"

record receive_buffer =
  rb_assembly :: "frame_assembly option"
  rb_chunks :: "bytes list"
  rb_buffered :: nat
  rb_index :: nat
  rb_offset :: nat

definition rb_empty :: receive_buffer where
  "rb_empty = \<lparr>rb_assembly = None, rb_chunks = [], rb_buffered = 0, rb_index = 0, rb_offset = 0\<rparr>"

definition rb_clear :: "receive_buffer \<Rightarrow> receive_buffer" where
  "rb_clear rb = rb\<lparr>rb_assembly := None, rb_chunks := [], rb_buffered := 0, rb_index := 0,
     rb_offset := 0\<rparr>"

definition rb_append :: "receive_buffer \<Rightarrow> bytes \<Rightarrow> receive_buffer" where
  "rb_append rb chunk =
    (if length chunk = 0 then rb
     else (case (case rb_assembly rb of None \<Rightarrow> (None, 0)
                 | Some fa \<Rightarrow> (case fa_append fa chunk 0 of (fa, n) \<Rightarrow> (Some fa, n))) of
       (assembly, consumed) \<Rightarrow>
         (let rb = rb\<lparr>rb_assembly := assembly\<rparr> in
          if consumed < length chunk then
            (let remaining = drop consumed chunk in
             rb\<lparr>rb_chunks := rb_chunks rb @ [remaining],
                rb_buffered := rb_buffered rb + length remaining\<rparr>)
          else rb)))"

definition buffer_underflow :: error where
  "buffer_underflow = ferric_error ''native receive buffer underflow''"

text \<open>The copying loop of \<open>peek\<close>.\<close>

function peek_loop :: "bytes list \<Rightarrow> nat \<Rightarrow> nat \<Rightarrow> nat \<Rightarrow> bytes res" where
  "peek_loop chunks index off n =
    (if n = 0 then Inr []
     else if index \<ge> length chunks then Inl buffer_underflow
     else (let chunk = chunks ! index; k = min n (length chunk - off) in
       rbind (peek_loop chunks (index + 1) 0 (n - k)) (\<lambda>out.
       Inr (subarray off (off + k) chunk @ out))))"
  by pat_completeness auto
termination
  by (relation "measure (\<lambda>(chunks, index, off, n). length chunks - index)") auto

declare peek_loop.simps [simp del]

definition rb_peek :: "receive_buffer \<Rightarrow> nat \<Rightarrow> bytes res" where
  "rb_peek rb n =
    (if rb_index rb \<ge> length (rb_chunks rb) then Inl buffer_underflow
     else (let first = rb_chunks rb ! rb_index rb in
       if length first - rb_offset rb \<ge> n
       then Inr (subarray (rb_offset rb) (rb_offset rb + n) first)
       else peek_loop (rb_chunks rb) (rb_index rb) (rb_offset rb) n))"

text \<open>The consuming loop of \<open>read\<close>. (A chunk counts as used up when the offset has reached its
  end; the code tests equality, which is the same for offsets inside the chunk.)\<close>

function advance_loop :: "bytes list \<Rightarrow> nat \<Rightarrow> nat \<Rightarrow> nat \<Rightarrow> (nat \<times> nat) res" where
  "advance_loop chunks index off remaining =
    (if remaining = 0 then Inr (index, off)
     else if index \<ge> length chunks then Inl buffer_underflow
     else (let chunk = chunks ! index; k = min remaining (length chunk - off) in
       if off + k \<ge> length chunk then advance_loop chunks (index + 1) 0 (remaining - k)
       else advance_loop chunks index (off + k) (remaining - k)))"
  by pat_completeness auto
termination
  by (relation "measures [\<lambda>(chunks, index, off, remaining). length chunks - index,
      \<lambda>(chunks, index, off, remaining). remaining]") (auto simp: Let_def)

declare advance_loop.simps [simp del]

definition rb_compact :: "receive_buffer \<Rightarrow> receive_buffer" where
  "rb_compact rb =
    (if rb_index rb = length (rb_chunks rb) then
       rb\<lparr>rb_chunks := [], rb_index := 0, rb_offset := 0\<rparr>
     else if rb_index rb \<ge> 1024 \<and> rb_index rb * 2 \<ge> length (rb_chunks rb) then
       rb\<lparr>rb_chunks := drop (rb_index rb) (rb_chunks rb), rb_index := 0\<rparr>
     else rb)"

definition rb_read :: "receive_buffer \<Rightarrow> nat \<Rightarrow> (bytes \<times> receive_buffer) res" where
  "rb_read rb n =
    rbind (rb_peek rb n) (\<lambda>out.
    rbind (advance_loop (rb_chunks rb) (rb_index rb) (rb_offset rb) n) (\<lambda>(index, off).
    Inr (out, rb_compact (rb\<lparr>rb_index := index, rb_offset := off,
                             rb_buffered := rb_buffered rb - n\<rparr>))))"

function drain_loop ::
  "bytes list \<Rightarrow> nat \<Rightarrow> nat \<Rightarrow> nat \<Rightarrow> frame_assembly \<Rightarrow> (frame_assembly \<times> nat \<times> nat) res" where
  "drain_loop chunks index off buffered fa =
    (if buffered = 0 then Inr (fa, index, off)
     else if index \<ge> length chunks then Inl buffer_underflow
     else (let chunk = chunks ! index; r = fa_append fa (drop off chunk) 0; k = snd r in
       if k = 0 then Inl (ferric_error ''native receive buffer frame overflow'')
       else if off + k = length chunk then drain_loop chunks (index + 1) 0 (buffered - k) (fst r)
       else drain_loop chunks index (off + k) (buffered - k) (fst r)))"
  by pat_completeness auto
termination
  by (relation "measure (\<lambda>(chunks, index, off, buffered, fa). buffered)") (auto simp: Let_def)

declare drain_loop.simps [simp del]

text \<open>\<open>drainInto\<close>, called with the assembly just stored in the buffer.\<close>

definition rb_drain :: "receive_buffer \<Rightarrow> frame_assembly \<Rightarrow> receive_buffer res" where
  "rb_drain rb fa =
    rbind (drain_loop (rb_chunks rb) (rb_index rb) (rb_offset rb) (rb_buffered rb) fa)
      (\<lambda>(fa, index, off).
    Inr (rb_compact (rb\<lparr>rb_assembly := Some fa, rb_index := index, rb_offset := off,
                        rb_buffered := 0\<rparr>)))"

definition rb_decode_frame :: "bytes \<Rightarrow> nat \<Rightarrow> response_frame res" where
  "rb_decode_frame encoded limit =
    rbind (try_decode_frame encoded limit) (\<lambda>parsed.
    case parsed of
      None \<Rightarrow> Inl (ferric_error ''invalid buffered native protocol frame'')
    | Some (frame, rest) \<Rightarrow>
        if length rest \<noteq> 0 then Inl (ferric_error ''invalid buffered native protocol frame'')
        else Inr frame)"

definition rb_next_frame :: "nat \<Rightarrow> receive_buffer \<Rightarrow> (response_frame option \<times> receive_buffer) res" where
  "rb_next_frame limit rb =
    (case rb_assembly rb of
       Some fa \<Rightarrow>
         if \<not> fa_complete fa then Inr (None, rb)
         else rbind (fa_finish fa) (\<lambda>encoded.
              rbind (rb_decode_frame encoded limit) (\<lambda>frame.
              Inr (Some frame, rb\<lparr>rb_assembly := None\<rparr>)))
     | None \<Rightarrow>
         if rb_buffered rb < HEADER_SIZE then Inr (None, rb)
         else rbind (rb_peek rb HEADER_SIZE) (\<lambda>header.
           rbind (try_decode_frame header limit) (\<lambda>_.
           (let frame_length = HEADER_SIZE + be_nat (subarray 20 24 header) in
            if rb_buffered rb < frame_length then
              rbind (rb_drain rb (new_assembly frame_length)) (\<lambda>rb. Inr (None, rb))
            else rbind (rb_read rb frame_length) (\<lambda>(encoded, rb).
              rbind (rb_decode_frame encoded limit) (\<lambda>frame. Inr (Some frame, rb)))))))"

section \<open>Lemmas\<close>

subsection \<open>Assembling a frame\<close>

definition fa_bytes :: "frame_assembly \<Rightarrow> bytes" where
  "fa_bytes fa = concat (fa_pages fa)"

definition fa_inv :: "frame_assembly \<Rightarrow> bool" where
  "fa_inv fa \<longleftrightarrow> fa_received fa = length (fa_bytes fa) \<and> fa_received fa \<le> fa_frame_length fa \<and>
    (fa_room fa > 0 \<longrightarrow> fa_pages fa \<noteq> []) \<and> fa_room fa \<le> fa_frame_length fa - fa_received fa"

lemma new_assembly_inv: "fa_inv (new_assembly n)" "fa_bytes (new_assembly n) = []"
  by (simp_all add: fa_inv_def fa_bytes_def new_assembly_def)

lemma fa_open_page_inv:
  assumes "fa_inv fa" "fa_received fa < fa_frame_length fa"
  shows "fa_inv (fa_open_page fa)" "fa_bytes (fa_open_page fa) = fa_bytes fa"
    "fa_pages (fa_open_page fa) \<noteq> []"
  using assms by (auto simp: fa_inv_def fa_bytes_def fa_open_page_def)

lemma fa_copy_inv:
  assumes "fa_inv fa" "fa_pages fa \<noteq> []" "length src \<le> fa_room fa"
  shows "fa_inv (fa_copy fa src)" "fa_bytes (fa_copy fa src) = fa_bytes fa @ src"
proof -
  have "concat (fa_pages fa) = concat (butlast (fa_pages fa)) @ last (fa_pages fa)"
    using assms(2) by (metis append_butlast_last_id concat.simps concat_append append_Nil2)
  then show b: "fa_bytes (fa_copy fa src) = fa_bytes fa @ src"
    by (simp add: fa_bytes_def fa_copy_def)
  have "fa_received (fa_copy fa src) = fa_received fa + length src"
    "fa_room (fa_copy fa src) = fa_room fa - length src" "fa_pages (fa_copy fa src) \<noteq> []"
    "fa_frame_length (fa_copy fa src) = fa_frame_length fa"
    by (simp_all add: fa_copy_def)
  with assms b show "fa_inv (fa_copy fa src)" by (auto simp: fa_inv_def)
qed

lemma subarray_glue: "i \<le> j \<Longrightarrow> j \<le> k \<Longrightarrow> subarray i j xs @ subarray j k xs = subarray i k xs"
  using take_add [of "j - i" "k - j" "drop i xs"] by (simp add: subarray_def)

lemma fa_append_spec:
  assumes "fa_inv fa" "off \<le> length chunk" "fa_append fa chunk off = (fa', off')"
  shows "fa_inv fa' \<and> fa_frame_length fa' = fa_frame_length fa \<and>
    off' = off + min (length chunk - off) (fa_frame_length fa - fa_received fa) \<and>
    fa_bytes fa' = fa_bytes fa @ subarray off off' chunk"
  using assms
proof (induction fa chunk off rule: fa_append.induct)
  case (1 fa chunk off)
  show ?case
  proof (cases "off < length chunk \<and> fa_received fa < fa_frame_length fa")
    case False
    with "1.prems" have "fa' = fa" "off' = off" by (auto simp: fa_append.simps [of fa])
    with False "1.prems" show ?thesis by (auto simp: subarray_empty)
  next
    case True
    define p where "p = fa_open_page fa"
    define n where "n = min (length chunk - off) (min (fa_room p) (fa_frame_length p - fa_received p))"
    define q where "q = fa_copy p (subarray off (off + n) chunk)"
    note p = fa_open_page_inv [OF "1.prems"(1) conjunct2 [OF True], folded p_def]
      fa_open_page_room(2,3) [of fa, folded p_def]
    have n: "off + n \<le> length chunk" "n \<le> fa_room p" "n \<le> fa_frame_length fa - fa_received fa"
      using True p by (auto simp: n_def)
    then have len: "length (subarray off (off + n) chunk) = n" by (simp add: subarray_def)
    note q = fa_copy_inv [OF p(1,3), of "subarray off (off + n) chunk", unfolded len, OF n(2), folded q_def]
    have qs: "fa_received q = fa_received fa + n" "fa_frame_length q = fa_frame_length fa"
      using len p by (simp_all add: q_def fa_copy_def)
    have eq: "fa_append q chunk (off + n) = (fa', off')"
      using "1.prems"(3) True by (simp add: fa_append.simps [of fa] Let_def p_def q_def n_def)
    from "1.IH" [OF True p_def n_def] q n(1) eq
    have ih: "fa_inv fa' \<and> fa_frame_length fa' = fa_frame_length q \<and>
      off' = off + n + min (length chunk - (off + n)) (fa_frame_length q - fa_received q) \<and>
      fa_bytes fa' = fa_bytes q @ subarray (off + n) off' chunk"
      by (simp add: q_def)
    then have "off + n \<le> off'" by simp
    then have "subarray off (off + n) chunk @ subarray (off + n) off' chunk = subarray off off' chunk"
      by (simp add: subarray_glue)
    with ih q(2) p(2) qs n show ?thesis by auto
  qed
qed

lemma fa_finish_spec:
  assumes "fa_inv fa" "fa_complete fa" "0 < fa_frame_length fa"
  shows "fa_finish fa = Inr (fa_bytes fa)"
  using assms
  by (auto simp: fa_finish_def fa_complete_def fa_inv_def fa_bytes_def buffer_concat_def
      split: list.splits)

subsection \<open>The chunk queue\<close>

text \<open>The bytes queued from a position on, and the positions the code keeps: inside a chunk, or past
  the last one.\<close>

definition queued :: "bytes list \<Rightarrow> nat \<Rightarrow> nat \<Rightarrow> bytes" where
  "queued chunks index off = drop off (concat (drop index chunks))"

definition position_ok :: "bytes list \<Rightarrow> nat \<Rightarrow> nat \<Rightarrow> bool" where
  "position_ok chunks index off \<longleftrightarrow> index \<le> length chunks \<and> [] \<notin> set chunks \<and>
    (if index < length chunks then off < length (chunks ! index) else off = 0)"

lemma queued_step:
  assumes "position_ok chunks index off" "index < length chunks"
  shows "queued chunks index off = drop off (chunks ! index) @ queued chunks (index + 1) 0"
    and "position_ok chunks (index + 1) 0" "off < length (chunks ! index)"
    and "k < length (chunks ! index) - off \<Longrightarrow> position_ok chunks index (off + k)"
    and "queued chunks index (off + k) = drop k (queued chunks index off)"
proof -
  show off: "off < length (chunks ! index)" using assms by (simp add: position_ok_def)
  have "concat (drop index chunks) = (chunks ! index) @ concat (drop (Suc index) chunks)"
    using assms(2) by (simp add: Cons_nth_drop_Suc [symmetric])
  with off show "queued chunks index off = drop off (chunks ! index) @ queued chunks (index + 1) 0"
    by (simp add: queued_def)
  show "position_ok chunks (index + 1) 0"
    using assms by (auto simp: position_ok_def) (metis nth_mem)
  show "k < length (chunks ! index) - off \<Longrightarrow> position_ok chunks index (off + k)"
    using assms by (auto simp: position_ok_def)
  show "queued chunks index (off + k) = drop k (queued chunks index off)"
    by (simp add: queued_def add.commute)
qed

lemma queued_end: "index \<ge> length chunks \<Longrightarrow> queued chunks index off = []"
  by (simp add: queued_def)

lemma queued_empty_iff: "position_ok chunks index off \<Longrightarrow>
  queued chunks index off = [] \<longleftrightarrow> index = length chunks"
  by (cases "index < length chunks")
    (auto simp: queued_step(1) queued_end dest: queued_step(3), auto simp: position_ok_def)

lemma peek_loop_spec:
  "position_ok chunks index off \<Longrightarrow> n \<le> length (queued chunks index off) \<Longrightarrow>
    peek_loop chunks index off n = Inr (take n (queued chunks index off))"
proof (induction chunks index off n rule: peek_loop.induct)
  case (1 chunks index off n)
  show ?case
  proof (cases "n = 0 \<or> index \<ge> length chunks")
    case True
    with "1.prems" show ?thesis by (subst peek_loop.simps) (auto simp: queued_end)
  next
    case False
    then have i: "index < length chunks" and n: "n \<noteq> 0" "\<not> length chunks \<le> index" by auto
    define k where "k = min n (length (chunks ! index) - off)"
    note q = queued_step [OF "1.prems"(1) i]
    from "1.prems"(2) have "n - k \<le> length (queued chunks (index + 1) 0)"
      by (simp add: q(1) k_def) 
    with "1.IH" [OF n refl k_def q(2)]
    have "peek_loop chunks (index + 1) 0 (n - k) = Inr (take (n - k) (queued chunks (index + 1) 0))" .
    moreover have "subarray off (off + k) (chunks ! index) @ take (n - k) (queued chunks (index + 1) 0)
        = take n (queued chunks index off)"
      by (simp add: q(1) k_def subarray_def min_def)
    ultimately show ?thesis
      using n by (subst peek_loop.simps) (simp add: Let_def k_def [symmetric])
  qed
qed

lemma advance_loop_spec:
  "position_ok chunks index off \<Longrightarrow> n \<le> length (queued chunks index off) \<Longrightarrow>
    \<exists>index' off'. advance_loop chunks index off n = Inr (index', off') \<and>
      position_ok chunks index' off' \<and> queued chunks index' off' = drop n (queued chunks index off)"
proof (induction chunks index off n rule: advance_loop.induct)
  case (1 chunks index off n)
  show ?case
  proof (cases "n = 0 \<or> index \<ge> length chunks")
    case True
    with "1.prems" show ?thesis by (subst advance_loop.simps) (auto simp: queued_end)
  next
    case False
    then have i: "index < length chunks" and n: "n \<noteq> 0" "\<not> length chunks \<le> index" by auto
    define k where "k = min n (length (chunks ! index) - off)"
    note q = queued_step [OF "1.prems"(1) i]
    show ?thesis
    proof (cases "length (chunks ! index) \<le> off + k")
      case True
      then have k: "k = length (chunks ! index) - off" "k \<le> n" by (auto simp: k_def)
      with "1.prems"(2) have "n - k \<le> length (queued chunks (index + 1) 0)" by (simp add: q(1))
      from "1.IH"(1) [OF n refl k_def True q(2) this] show ?thesis
        using n True k by (subst advance_loop.simps) (simp add: Let_def k_def [symmetric] q(1))
    next
      case False
      then have k: "k = n" "n < length (chunks ! index) - off"
        using q(3) by (auto simp: k_def min_def split: if_splits)
      show ?thesis
        using n False q(4) [OF k(2)] q(5)
        by (subst advance_loop.simps) (simp add: Let_def k_def [symmetric] k(1) advance_loop.simps [of _ _ _ 0])
    qed
  qed
qed

lemma drain_loop_spec:
  assumes "position_ok chunks index off" "buffered = length (queued chunks index off)" "fa_inv fa"
    "buffered \<le> fa_frame_length fa - fa_received fa"
  shows "\<exists>fa'. drain_loop chunks index off buffered fa = Inr (fa', length chunks, 0) \<and> fa_inv fa' \<and>
    fa_bytes fa' = fa_bytes fa @ queued chunks index off \<and> fa_frame_length fa' = fa_frame_length fa"
  using assms
proof (induction chunks index off buffered fa rule: drain_loop.induct)
  case (1 chunks index off buffered fa)
  show ?case
  proof (cases "buffered = 0")
    case True
    with "1.prems" queued_empty_iff [OF "1.prems"(1)] have "index = length chunks" "off = 0"
      by (auto simp: position_ok_def)
    with True "1.prems" show ?thesis by (subst drain_loop.simps) auto
  next
    case False
    with "1.prems" have i: "index < length chunks" "\<not> length chunks \<le> index"
      using queued_end [of chunks index off] by (auto simp: not_le [symmetric])
    note q = queued_step [OF "1.prems"(1) i(1)]
    obtain fa1 k where a: "fa_append fa (drop off (chunks ! index)) 0 = (fa1, k)" by fastforce
    from "1.prems"(2,4) have "length (chunks ! index) - off \<le> fa_frame_length fa - fa_received fa"
      by (simp add: q(1))
    with fa_append_spec [OF "1.prems"(3) _ a] have s: "fa_inv fa1"
      "fa_frame_length fa1 = fa_frame_length fa" "k = length (chunks ! index) - off"
      "fa_bytes fa1 = fa_bytes fa @ drop off (chunks ! index)"
      by (simp_all add: subarray_def min_absorb1)
    from s(3) q(3) have k: "k \<noteq> 0" "off + k = length (chunks ! index)" by simp_all
    have b: "buffered - k = length (queued chunks (index + 1) 0)"
      using "1.prems"(2) by (simp add: q(1) s(3))
    have r: "buffered - k \<le> fa_frame_length fa1 - fa_received fa1"
      using "1.prems"(2-4) s by (auto simp: fa_inv_def q(1))
    have "\<exists>fa'. drain_loop chunks (index + 1) 0 (buffered - k) fa1 = Inr (fa', length chunks, 0) \<and>
        fa_inv fa' \<and> fa_bytes fa' = fa_bytes fa1 @ queued chunks (index + 1) 0 \<and>
        fa_frame_length fa' = fa_frame_length fa1"
      using "1.IH"(1) [OF False i(2) refl a [symmetric], of k] a k q(2) b s(1) r by simp
    then show ?thesis
      using False i(2) k a s by (subst drain_loop.simps) (auto simp: Let_def q(1))
  qed
qed

subsection \<open>The buffer's invariant\<close>

definition rb_queued :: "receive_buffer \<Rightarrow> bytes" where
  "rb_queued rb = queued (rb_chunks rb) (rb_index rb) (rb_offset rb)"

definition assembled :: "receive_buffer \<Rightarrow> bytes" where
  "assembled rb = (case rb_assembly rb of None \<Rightarrow> [] | Some fa \<Rightarrow> fa_bytes fa)"

text \<open>The bytes received and not handed out yet.\<close>

definition rb_pending :: "receive_buffer \<Rightarrow> bytes" where
  "rb_pending rb = assembled rb @ rb_queued rb"

text \<open>A frame is assembled only after its header was accepted, with the length of the header, and
  chunks queue behind it only when it is complete.\<close>

definition assembly_ok :: "nat \<Rightarrow> frame_assembly \<Rightarrow> bytes \<Rightarrow> bool" where
  "assembly_ok limit fa behind \<longleftrightarrow> fa_inv fa \<and> HEADER_SIZE \<le> length (fa_bytes fa) \<and>
    fa_frame_length fa = HEADER_SIZE + be_nat (subarray 20 24 (fa_bytes fa)) \<and>
    isl (try_decode_frame (take HEADER_SIZE (fa_bytes fa)) limit) = False \<and>
    (fa_complete fa \<or> behind = [])"

definition rb_inv :: "nat \<Rightarrow> receive_buffer \<Rightarrow> bool" where
  "rb_inv limit rb \<longleftrightarrow> position_ok (rb_chunks rb) (rb_index rb) (rb_offset rb) \<and>
    rb_buffered rb = length (rb_queued rb) \<and>
    (\<forall>fa. rb_assembly rb = Some fa \<longrightarrow> assembly_ok limit fa (rb_queued rb))"

lemma rb_empty_inv: "rb_inv limit rb_empty" "rb_pending rb_empty = []"
  by (simp_all add: rb_inv_def rb_empty_def rb_pending_def rb_queued_def queued_def position_ok_def
      assembled_def)

lemma rb_compact_spec:
  assumes "position_ok (rb_chunks rb) (rb_index rb) (rb_offset rb)"
  shows "position_ok (rb_chunks (rb_compact rb)) (rb_index (rb_compact rb)) (rb_offset (rb_compact rb))"
    "rb_queued (rb_compact rb) = rb_queued rb" "rb_assembly (rb_compact rb) = rb_assembly rb"
    "rb_buffered (rb_compact rb) = rb_buffered rb"
  using assms
  by (auto simp: rb_compact_def position_ok_def rb_queued_def queued_def dest: in_set_dropD)

text \<open>What the first 24 bytes decide.\<close>

lemma take_header:
  assumes "HEADER_SIZE \<le> length bs"
  shows "subarray 0 4 (take HEADER_SIZE bs) = subarray 0 4 bs"
    "ascii_magic (take HEADER_SIZE bs) = ascii_magic bs" "take HEADER_SIZE bs ! 4 = bs ! 4"
    "subarray 20 24 (take HEADER_SIZE bs) = subarray 20 24 bs"
  using assms by (simp_all add: subarray_def ascii_magic_def min_def drop_take)

lemma try_decode_header:
  assumes "HEADER_SIZE \<le> length bs"
  shows "try_decode_frame (take HEADER_SIZE bs) limit = Inl e \<longleftrightarrow> try_decode_frame bs limit = Inl e"
    and "try_decode_frame bs limit = Inr None \<Longrightarrow> length bs < HEADER_SIZE + be_nat (subarray 20 24 bs)"
    and "\<not> isl (try_decode_frame bs limit) \<Longrightarrow> HEADER_SIZE + be_nat (subarray 20 24 bs) \<le> length bs \<Longrightarrow>
      \<exists>fr. try_decode_frame bs limit =
          Inr (Some (fr, drop (HEADER_SIZE + be_nat (subarray 20 24 bs)) bs)) \<and>
        try_decode_frame (take (HEADER_SIZE + be_nat (subarray 20 24 bs)) bs) limit = Inr (Some (fr, []))"
proof -
  show "try_decode_frame (take HEADER_SIZE bs) limit = Inl e \<longleftrightarrow> try_decode_frame bs limit = Inl e"
    using assms take_header [OF assms] by (auto simp: try_decode_frame_def Let_def)
  show "try_decode_frame bs limit = Inr None \<Longrightarrow> length bs < HEADER_SIZE + be_nat (subarray 20 24 bs)"
    using assms by (auto simp: try_decode_frame_def Let_def split: if_splits)
  define n where "n = HEADER_SIZE + be_nat (subarray 20 24 bs)"
  assume ok: "\<not> isl (try_decode_frame bs limit)" and n: "HEADER_SIZE + be_nat (subarray 20 24 bs) \<le> length bs"
  from ok n obtain fr where d: "try_decode_frame bs limit = Inr (Some (fr, drop n bs))"
    by (auto simp: try_decode_frame_def Let_def n_def split: if_splits)
  have s: "subarray i j (take n bs) = subarray i j bs" if "j \<le> n" for i j
    using that by (simp add: subarray_def drop_take min_def)
  have "4 \<le> n" by (simp add: n_def)
  then have "ascii_magic (take n bs) = ascii_magic bs" by (simp add: ascii_magic_def s)
  then have "try_decode_frame (take n bs) limit = Inr (Some (fr, []))"
    using d n by (auto simp: try_decode_frame_def Let_def s n_def [symmetric] split: if_splits)
       (simp_all add: n_def s)
  with d show "\<exists>fr. try_decode_frame bs limit =
          Inr (Some (fr, drop (HEADER_SIZE + be_nat (subarray 20 24 bs)) bs)) \<and>
        try_decode_frame (take (HEADER_SIZE + be_nat (subarray 20 24 bs)) bs) limit = Inr (Some (fr, []))"
    by (auto simp: n_def)
qed

subsection \<open>Appending and taking frames\<close>

lemma queued_snoc:
  assumes "position_ok chunks index off" "c \<noteq> []"
  shows "queued (chunks @ [c]) index off = queued chunks index off @ c"
    and "position_ok (chunks @ [c]) index off"
  using assms
  by (auto simp: queued_def position_ok_def nth_append drop_append Cons_nth_drop_Suc [symmetric]
      split: if_splits)

lemma assembly_ok_append:
  assumes "assembly_ok limit fa behind" "fa_inv fa'" "fa_frame_length fa' = fa_frame_length fa"
    "fa_bytes fa' = fa_bytes fa @ extra" "fa_complete fa' \<or> behind' = []"
  shows "assembly_ok limit fa' behind'"
  using assms by (simp add: assembly_ok_def subarray_append_left)

lemma rb_append_spec:
  assumes "rb_inv limit rb"
  shows "rb_inv limit (rb_append rb c) \<and> rb_pending (rb_append rb c) = rb_pending rb @ c"
proof (cases "c = []")
  case True
  with assms show ?thesis by (simp add: rb_append_def)
next
  case c: False
  note q = queued_snoc [of "rb_chunks rb" "rb_index rb" "rb_offset rb"]
  show ?thesis
  proof (cases "rb_assembly rb")
    case None
    with assms c q [of c] show ?thesis
      by (simp add: rb_append_def rb_inv_def rb_pending_def rb_queued_def assembled_def Let_def)
  next
    case (Some fa)
    from assms Some have ok: "assembly_ok limit fa (rb_queued rb)" by (simp add: rb_inv_def)
    then have inv: "fa_inv fa" and cq: "fa_complete fa \<or> rb_queued rb = []"
      by (simp_all add: assembly_ok_def)
    obtain fa' k where a: "fa_append fa c 0 = (fa', k)" by fastforce
    from fa_append_spec [OF inv _ a] have s: "fa_inv fa'" "fa_frame_length fa' = fa_frame_length fa"
      "k = min (length c) (fa_frame_length fa - fa_received fa)" "fa_bytes fa' = fa_bytes fa @ take k c"
      by (simp_all add: subarray_def)
    from inv s have rec: "fa_received fa' = fa_received fa + k" by (simp add: fa_inv_def)
    show ?thesis
    proof (cases "k < length c")
      case True
      then have "fa_complete fa'" using s(3) rec inv s(2) by (auto simp: fa_complete_def fa_inv_def)
      with assembly_ok_append [OF ok s(1,2,4)] have "assembly_ok limit fa' behind" for behind by blast
      moreover have "rb_queued rb = [] \<or> k = 0" using cq s(3) by (auto simp: fa_complete_def)
      ultimately show ?thesis
        using assms c a s(4) True q [of "drop k c"] Some
        by (auto simp: rb_append_def rb_inv_def rb_pending_def rb_queued_def assembled_def Let_def)
    next
      case False
      with s(3) have k: "k = length c" by simp
      with c s(3) have "\<not> fa_complete fa" by (auto simp: fa_complete_def)
      with cq have e: "rb_queued rb = []" by simp
      with assembly_ok_append [OF ok s(1,2,4), of "[]"] have "assembly_ok limit fa' []" by blast
      with assms c a s(4) k e Some show ?thesis
        by (auto simp: rb_append_def rb_inv_def rb_pending_def rb_queued_def assembled_def Let_def)
    qed
  qed
qed

lemma rb_decode_frame_whole:
  "try_decode_frame bs limit = Inr (Some (fr, [])) \<Longrightarrow> rb_decode_frame bs limit = Inr fr"
  by (simp add: rb_decode_frame_def)

lemma rb_peek_spec:
  assumes "rb_inv limit rb" "n \<le> length (rb_queued rb)" "0 < n"
  shows "rb_peek rb n = Inr (take n (rb_queued rb))"
proof -
  from assms(1) have pos: "position_ok (rb_chunks rb) (rb_index rb) (rb_offset rb)"
    by (simp add: rb_inv_def)
  have i: "rb_index rb < length (rb_chunks rb)"
  proof (rule ccontr)
    assume "\<not> rb_index rb < length (rb_chunks rb)"
    then have "rb_queued rb = []" by (simp add: rb_queued_def queued_end)
    with assms(2,3) show False by simp
  qed
  show ?thesis
  proof (cases "n \<le> length (rb_chunks rb ! rb_index rb) - rb_offset rb")
    case True
    then show ?thesis
      using i queued_step(1) [OF pos i] by (simp add: rb_peek_def rb_queued_def subarray_def)
  next
    case False
    with i peek_loop_spec [OF pos, of n] assms(2) show ?thesis
      by (simp add: rb_peek_def rb_queued_def)
  qed
qed

lemma rb_read_spec:
  assumes "rb_inv limit rb" "n \<le> length (rb_queued rb)" "0 < n" "rb_assembly rb = None"
  shows "\<exists>rb'. rb_read rb n = Inr (take n (rb_queued rb), rb') \<and> rb_inv limit rb' \<and>
    rb_pending rb' = drop n (rb_pending rb)"
proof -
  from assms have pos: "position_ok (rb_chunks rb) (rb_index rb) (rb_offset rb)"
    and len: "n \<le> length (queued (rb_chunks rb) (rb_index rb) (rb_offset rb))"
    by (auto simp: rb_inv_def rb_queued_def)
  from advance_loop_spec [OF pos len] obtain i off where
    adv: "advance_loop (rb_chunks rb) (rb_index rb) (rb_offset rb) n = Inr (i, off)"
    "position_ok (rb_chunks rb) i off"
    "queued (rb_chunks rb) i off = drop n (queued (rb_chunks rb) (rb_index rb) (rb_offset rb))" by blast
  define rb1 where "rb1 = rb\<lparr>rb_index := i, rb_offset := off, rb_buffered := rb_buffered rb - n\<rparr>"
  have "rb_read rb n = Inr (take n (rb_queued rb), rb_compact rb1)"
    using rb_peek_spec [OF assms(1-3)] adv(1) by (simp add: rb_read_def rb1_def)
  moreover have "rb_inv limit (rb_compact rb1) \<and> rb_pending (rb_compact rb1) = drop n (rb_pending rb)"
    using rb_compact_spec [of rb1] adv assms
    by (simp add: rb_inv_def rb_pending_def assembled_def rb1_def rb_queued_def)
  ultimately show ?thesis by blast
qed

lemma try_decode_incomplete:
  "\<not> isl (try_decode_frame bs limit) \<Longrightarrow> length bs < HEADER_SIZE + be_nat (subarray 20 24 bs) \<Longrightarrow>
    try_decode_frame bs limit = Inr None"
  by (auto simp: try_decode_frame_def Let_def split: if_splits)

lemma next_frame_assembled:
  assumes inv: "rb_inv limit rb" and fa: "rb_assembly rb = Some fa"
  shows "case try_decode_frame (rb_pending rb) limit of
      Inl e \<Rightarrow> False
    | Inr None \<Rightarrow> rb_next_frame limit rb = Inr (None, rb)
    | Inr (Some (fr, rest)) \<Rightarrow> \<exists>rb'. rb_next_frame limit rb = Inr (Some fr, rb') \<and> rb_inv limit rb' \<and>
        rb_pending rb' = rest"
proof -
  from inv fa have ok: "assembly_ok limit fa (rb_queued rb)" by (simp add: rb_inv_def)
  then have h: "fa_inv fa" "HEADER_SIZE \<le> length (fa_bytes fa)"
    "fa_frame_length fa = HEADER_SIZE + be_nat (subarray 20 24 (fa_bytes fa))"
    "\<not> isl (try_decode_frame (fa_bytes fa) limit)" "fa_complete fa \<or> rb_queued rb = []"
    by (auto simp: assembly_ok_def isl_def try_decode_header(1))
  have p: "rb_pending rb = fa_bytes fa @ rb_queued rb" using fa by (simp add: rb_pending_def assembled_def)
  show ?thesis
  proof (cases "fa_complete fa")
    case True
    then have len: "length (fa_bytes fa) = fa_frame_length fa" using h(1) by (simp add: fa_complete_def fa_inv_def)
    with try_decode_header(3) [OF h(2,4)] h(3) obtain fr where
      d: "try_decode_frame (fa_bytes fa) limit = Inr (Some (fr, []))" by auto
    from try_decode_frame_prefix [OF d] p
    have dp: "try_decode_frame (rb_pending rb) limit = Inr (Some (fr, rb_queued rb))" by simp
    have "rb_next_frame limit rb = Inr (Some fr, rb\<lparr>rb_assembly := None\<rparr>)"
      using fa True fa_finish_spec [OF h(1) True] rb_decode_frame_whole [OF d] h(3)
      by (simp add: rb_next_frame_def)
    moreover have "rb_inv limit (rb\<lparr>rb_assembly := None\<rparr>)"
      "rb_pending (rb\<lparr>rb_assembly := None\<rparr>) = rb_queued rb"
      using inv by (simp_all add: rb_inv_def rb_pending_def rb_queued_def assembled_def)
    ultimately show ?thesis using dp by simp
  next
    case False
    with h have "rb_queued rb = []" "length (fa_bytes fa) < fa_frame_length fa"
      by (auto simp: fa_complete_def fa_inv_def)
    with try_decode_incomplete [OF h(4)] h(3) p have "try_decode_frame (rb_pending rb) limit = Inr None"
      by simp
    with fa False show ?thesis by (simp add: rb_next_frame_def)
  qed
qed

lemma next_frame_queued:
  assumes inv: "rb_inv limit rb" and fa: "rb_assembly rb = None" and len: "HEADER_SIZE \<le> rb_buffered rb"
  shows "case try_decode_frame (rb_pending rb) limit of
      Inl e \<Rightarrow> rb_next_frame limit rb = Inl e
    | Inr None \<Rightarrow> \<exists>rb'. rb_next_frame limit rb = Inr (None, rb') \<and> rb_inv limit rb' \<and>
        rb_pending rb' = rb_pending rb
    | Inr (Some (fr, rest)) \<Rightarrow> \<exists>rb'. rb_next_frame limit rb = Inr (Some fr, rb') \<and> rb_inv limit rb' \<and>
        rb_pending rb' = rest"
proof -
  have p: "rb_pending rb = rb_queued rb" using fa by (simp add: rb_pending_def assembled_def)
  have b: "rb_buffered rb = length (rb_queued rb)" using inv by (simp add: rb_inv_def)
  with len have l: "HEADER_SIZE \<le> length (rb_queued rb)" by simp
  define header where "header = take HEADER_SIZE (rb_queued rb)"
  define n where "n = HEADER_SIZE + be_nat (subarray 20 24 (rb_queued rb))"
  note th = try_decode_header [OF l, of limit, folded header_def n_def]
  have nh: "HEADER_SIZE + be_nat (subarray 20 24 header) = n"
    using take_header(4) [OF l] by (simp add: header_def n_def)
  have step: "rb_next_frame limit rb = rbind (try_decode_frame header limit) (\<lambda>_.
      if rb_buffered rb < n then
        rbind (rb_drain rb (new_assembly n)) (\<lambda>rb. Inr (None, rb))
      else rbind (rb_read rb n) (\<lambda>(encoded, rb).
        rbind (rb_decode_frame encoded limit) (\<lambda>frame. Inr (Some frame, rb))))"
    using rb_peek_spec [OF inv l] fa len nh
    by (simp add: rb_next_frame_def header_def [symmetric] Let_def not_less [symmetric])
  show ?thesis
  proof (cases "try_decode_frame (rb_queued rb) limit")
    case (Inl e)
    with th(1) have "try_decode_frame header limit = Inl e" by blast
    with step Inl p show ?thesis by simp
  next
    case (Inr r)
    then have nisl: "\<not> isl (try_decode_frame (rb_queued rb) limit)" by simp
    from Inr th(1) obtain r' where hd: "try_decode_frame header limit = Inr r'"
      by (cases "try_decode_frame header limit") auto
    show ?thesis
    proof (cases "rb_buffered rb < n")
      case False
      with th(3) [OF nisl] b obtain fr where
        d: "try_decode_frame (rb_queued rb) limit = Inr (Some (fr, drop n (rb_queued rb)))"
        "try_decode_frame (take n (rb_queued rb)) limit = Inr (Some (fr, []))" by auto
      have "n \<le> length (rb_queued rb)" "0 < n" using False b by (simp_all add: n_def)
      from rb_read_spec [OF inv this fa] obtain rb' where
        "rb_read rb n = Inr (take n (rb_queued rb), rb')" "rb_inv limit rb'"
        "rb_pending rb' = drop n (rb_pending rb)" by blast
      with step hd False rb_decode_frame_whole [OF d(2)] d(1) p show ?thesis by simp
    next
      case True
      with try_decode_incomplete [OF nisl] b
      have none: "try_decode_frame (rb_queued rb) limit = Inr None" by (simp add: n_def)
      have pos: "position_ok (rb_chunks rb) (rb_index rb) (rb_offset rb)"
        using inv by (simp add: rb_inv_def)
      obtain fa' where dr: "drain_loop (rb_chunks rb) (rb_index rb) (rb_offset rb) (rb_buffered rb)
          (new_assembly n) = Inr (fa', length (rb_chunks rb), 0)"
        "fa_inv fa'" "fa_bytes fa' = rb_queued rb" "fa_frame_length fa' = n"
        using drain_loop_spec [OF pos _ new_assembly_inv(1), of "rb_buffered rb" n] True b
        by (auto simp: new_assembly_inv rb_queued_def) (auto simp: new_assembly_def)
      define rb1 where "rb1 = rb\<lparr>rb_assembly := Some fa', rb_index := length (rb_chunks rb),
        rb_offset := 0, rb_buffered := 0\<rparr>"
      have "rb_drain rb (new_assembly n) = Inr (rb_compact rb1)"
        using dr(1) by (simp add: rb_drain_def rb1_def)
      moreover have pos1: "position_ok (rb_chunks rb1) (rb_index rb1) (rb_offset rb1)"
        using pos by (simp add: rb1_def position_ok_def)
      moreover have "rb_queued rb1 = []" by (simp add: rb1_def rb_queued_def queued_end)
      moreover have "assembly_ok limit fa' []"
        using dr l nh hd header_def by (auto simp: assembly_ok_def n_def)
      ultimately show ?thesis
        using rb_compact_spec [OF pos1] step hd True none p dr(3)
        by (auto simp: rb_inv_def rb_pending_def assembled_def rb1_def)
    qed
  qed
qed

lemma next_frame_short:
  assumes "rb_inv limit rb" "rb_assembly rb = None" "rb_buffered rb < HEADER_SIZE"
  shows "try_decode_frame (rb_pending rb) limit = Inr None"
    and "rb_next_frame limit rb = Inr (None, rb)"
  using assms by (simp_all add: rb_inv_def rb_pending_def assembled_def try_decode_frame_def rb_next_frame_def)

lemma next_frame_spec:
  assumes "rb_inv limit rb"
  shows "case try_decode_frame (rb_pending rb) limit of
      Inl e \<Rightarrow> rb_next_frame limit rb = Inl e
    | Inr None \<Rightarrow> \<exists>rb'. rb_next_frame limit rb = Inr (None, rb') \<and> rb_inv limit rb' \<and>
        rb_pending rb' = rb_pending rb
    | Inr (Some (fr, rest)) \<Rightarrow> \<exists>rb'. rb_next_frame limit rb = Inr (Some fr, rb') \<and> rb_inv limit rb' \<and>
        rb_pending rb' = rest"
proof (cases "rb_assembly rb")
  case None
  with next_frame_queued [OF assms] next_frame_short [OF assms] assms show ?thesis
    by (cases "rb_buffered rb < HEADER_SIZE") auto
next
  case (Some fa)
  from next_frame_assembled [OF assms Some] assms show ?thesis
    by (auto split: sum.splits option.splits)
qed

interpretation rb: frame_source rb_append "rb_next_frame limit" rb_pending "rb_inv limit"
  "\<lambda>bs. try_decode_frame bs limit" for limit
proof unfold_locales
  fix rb bs assume "rb_inv limit rb"
  with rb_append_spec show "rb_inv limit (rb_append rb bs)" "rb_pending (rb_append rb bs) = rb_pending rb @ bs"
    by blast+
next
  fix rb e assume "rb_inv limit rb" "try_decode_frame (rb_pending rb) limit = Inl e"
  with next_frame_spec [of limit rb] show "rb_next_frame limit rb = Inl e" by simp
next
  fix rb assume "rb_inv limit rb" "try_decode_frame (rb_pending rb) limit = Inr None"
  with next_frame_spec [of limit rb]
  show "\<exists>rb'. rb_next_frame limit rb = Inr (None, rb') \<and> rb_inv limit rb' \<and> rb_pending rb' = rb_pending rb"
    by simp
next
  fix rb fr rest assume "rb_inv limit rb" "try_decode_frame (rb_pending rb) limit = Inr (Some (fr, rest))"
  with next_frame_spec [of limit rb]
  show "\<exists>rb'. rb_next_frame limit rb = Inr (Some fr, rb') \<and> rb_inv limit rb' \<and> rb_pending rb' = rest"
    by simp
qed (fact try_decode_frame_prefix try_decode_frame_error_prefix)+

lemmas receive_simps = rb_empty_def rb_append_def rb_next_frame_def rb_peek_def peek_loop.simps
  rb_drain_def drain_loop.simps fa_append.simps new_assembly_def fa_open_page_def fa_copy_def
  rb_compact_def fa_complete_def fa_finish_def rb_decode_frame_def try_decode_frame_def ascii_magic_def MAGIC_def
  subarray_def Let_def

section \<open>Properties\<close>

text \<open>C1. The receive buffer is independent of how the socket cuts the stream: for every history of
  chunks and reads, the frames handed out are exactly the first frames that \<open>tryDecodeFrame\<close> finds in
  the concatenated bytes, in order; the bytes not handed out are still pending, and an error is the
  error of those bytes (in particular no internal underflow or overflow error occurs).\<close>

theorem receive_buffer_chunking:
  assumes "run_io rb_append (rb_next_frame limit) ops rb_empty = (frames, result)"
  shows "case result of
      Inr rb \<Rightarrow> carve_all (\<lambda>bs. try_decode_frame bs limit) (data_of ops) frames = Some (rb_pending rb)
    | Inl e \<Rightarrow> \<exists>rest. carve_all (\<lambda>bs. try_decode_frame bs limit) (data_of ops) frames = Some rest \<and>
        try_decode_frame rest limit = Inl e"
  using rb.run_cuts [OF rb_empty_inv(1) assms] by (cases result) (simp_all add: rb_empty_inv)

theorem receive_buffer_chunking_witness:
  "carve_all (\<lambda>bs. try_decode_frame bs 10)
     (data_of [Data MAGIC, Pull, Data ([129, 0, 0, 0, 0, 0, 0, 0, 0, 0, 0, 0, 0, 0, 0, 0, 0, 0, 0, 1]), Pull, Data [7, 70], Pull])
     [\<lparr>rf_flags = 0, rf_lane_id = 0, rf_opcode = 0, rf_request_id = 0, rf_body_length = 1,
       rf_body = [7]\<rparr>] = Some [70]"
proof -
  have "run_io rb_append (rb_next_frame 10)
     [Data MAGIC, Pull, Data ([129, 0, 0, 0, 0, 0, 0, 0, 0, 0, 0, 0, 0, 0, 0, 0, 0, 0, 0, 1]), Pull, Data [7, 70], Pull] rb_empty =
    ([\<lparr>rf_flags = 0, rf_lane_id = 0, rf_opcode = 0, rf_request_id = 0, rf_body_length = 1,
       rf_body = [7]\<rparr>], Inr \<lparr>rb_assembly = None, rb_chunks = [[70]], rb_buffered = 1, rb_index = 0,
      rb_offset = 0\<rparr>)"
    by (simp add: receive_simps)
  from receive_buffer_chunking [OF this] show ?thesis
    by (simp add: rb_pending_def assembled_def rb_queued_def queued_def)
qed

text \<open>Each read returns what the pending bytes demand: the first complete frame, nothing when the
  bytes are only a prefix of a frame (and then no byte is lost), or the decoding error.\<close>

theorem next_frame_decodes_pending:
  assumes "rb_inv limit rb"
  shows "(case try_decode_frame (rb_pending rb) limit of
      Inl e \<Rightarrow> rb_next_frame limit rb = Inl e
    | Inr None \<Rightarrow> \<exists>rb'. rb_next_frame limit rb = Inr (None, rb') \<and> rb_pending rb' = rb_pending rb
    | Inr (Some (fr, rest)) \<Rightarrow> \<exists>rb'. rb_next_frame limit rb = Inr (Some fr, rb') \<and> rb_pending rb' = rest) \<and>
    rb_inv limit (rb_append rb chunk) \<and> rb_pending (rb_append rb chunk) = rb_pending rb @ chunk"
  using next_frame_spec [OF assms] rb_append_spec [OF assms, of chunk]
  by (auto split: sum.splits option.splits)

theorem next_frame_decodes_pending_witness:
  "rb_next_frame 5 rb_empty = Inr (None, rb_empty) \<and>
    (case try_decode_frame (rb_pending rb_empty) 5 of
      Inl e \<Rightarrow> rb_next_frame 5 rb_empty = Inl e
    | Inr None \<Rightarrow> \<exists>rb'. rb_next_frame 5 rb_empty = Inr (None, rb') \<and> rb_pending rb' = rb_pending rb_empty
    | Inr (Some (fr, rest)) \<Rightarrow> \<exists>rb'. rb_next_frame 5 rb_empty = Inr (Some fr, rb') \<and> rb_pending rb' = rest) \<and>
    rb_inv 5 (rb_append rb_empty [1]) \<and> rb_pending (rb_append rb_empty [1]) = rb_pending rb_empty @ [1]"
  using next_frame_decodes_pending [OF rb_empty_inv(1), of 5 "[1]"]
  by (simp add: rb_next_frame_def rb_empty_def)

end
