(* ===== verification/ChunkAssembler.thy ===== *)
theory ChunkAssembler
  imports Frame
begin

text \<open>
  \<open>src/src/native-chunk-assembler.ts\<close>: responses that arrive in several frames (flag
  \<open>MORE_CHUNKS\<close>) are collected per request, opcode and lane, under limits on the bytes and frames of
  one response and of all of them together. A \<open>Map\<close> is a HOL map, a \<open>Set\<close> of keys the list of its
  elements in insertion order. \<open>Inl\<close> is a throw; it happens before the first assignment, so the state
  is then unchanged.
\<close>

section \<open>Definitions\<close>

record chunk_assembler =
  ca_chunks :: "jsstr \<rightharpoonup> bytes list"
  ca_keys :: "nat \<rightharpoonup> jsstr list"
  ca_bytes :: "jsstr \<rightharpoonup> nat"
  ca_frames :: "jsstr \<rightharpoonup> nat"
  ca_total_bytes :: nat
  ca_total_frames :: nat
  ca_max_bytes :: nat
  ca_max_frames :: nat
  ca_max_response :: nat

definition new_assembler :: "nat \<Rightarrow> nat \<Rightarrow> nat \<Rightarrow> chunk_assembler" where
  "new_assembler byte_limit frame_limit response_limit =
    \<lparr>ca_chunks = Map.empty, ca_keys = Map.empty, ca_bytes = Map.empty, ca_frames = Map.empty,
     ca_total_bytes = 0, ca_total_frames = 0,
     ca_max_bytes = byte_limit, ca_max_frames = frame_limit, ca_max_response = response_limit\<rparr>"

definition ca_update_max_response :: "nat \<Rightarrow> chunk_assembler \<Rightarrow> chunk_assembler" where
  "ca_update_max_response limit ca = ca\<lparr>ca_max_response := min (ca_max_response ca) limit\<rparr>"

definition ca_clear :: "chunk_assembler \<Rightarrow> chunk_assembler" where
  "ca_clear ca = ca\<lparr>ca_chunks := Map.empty, ca_keys := Map.empty, ca_bytes := Map.empty,
     ca_frames := Map.empty, ca_total_bytes := 0, ca_total_frames := 0\<rparr>"

text \<open>The key \<open>requestId:opcode:laneId\<close>.\<close>

definition chunk_key :: "response_frame \<Rightarrow> jsstr" where
  "chunk_key fr = nat_text (rf_request_id fr) @ 0x3A # nat_text (rf_opcode fr) @ 0x3A # nat_text (rf_lane_id fr)"

definition ca_assert_limits :: "chunk_assembler \<Rightarrow> nat \<Rightarrow> nat \<Rightarrow> nat \<Rightarrow> unit res" where
  "ca_assert_limits ca bytes frames added =
    (if bytes > ca_max_bytes ca then
       Inl (Thrown FerricStoreError ''chunked response exceeded bytes'' [JInt (int (ca_max_bytes ca))])
     else if frames > ca_max_frames ca then
       Inl (Thrown FerricStoreError ''chunked response exceeded frames'' [JInt (int (ca_max_frames ca))])
     else if bytes > ca_max_response ca then
       Inl (Thrown FerricStoreError ''response exceeded bytes'' [JInt (int (ca_max_response ca))])
     else if ca_total_bytes ca + added > ca_max_bytes ca then
       Inl (Thrown FerricStoreError ''buffered chunk responses exceeded bytes''
         [JInt (int (ca_max_bytes ca))])
     else if ca_total_frames ca + 1 > ca_max_frames ca then
       Inl (Thrown FerricStoreError ''buffered chunk responses exceeded frames''
         [JInt (int (ca_max_frames ca))])
     else Inr ())"

definition ca_release :: "jsstr \<Rightarrow> nat \<Rightarrow> chunk_assembler \<Rightarrow> chunk_assembler" where
  "ca_release key request_id ca =
    (let ca1 = ca\<lparr>ca_total_bytes := ca_total_bytes ca - mget (ca_bytes ca) key,
                  ca_total_frames := ca_total_frames ca - mget (ca_frames ca) key,
                  ca_chunks := (ca_chunks ca)(key := None),
                  ca_bytes := (ca_bytes ca)(key := None),
                  ca_frames := (ca_frames ca)(key := None)\<rparr>
     in (case ca_keys ca request_id of
           None \<Rightarrow> ca1
         | Some keys \<Rightarrow>
             (let keys' = filter (\<lambda>k. k \<noteq> key) keys in
              ca1\<lparr>ca_keys := (ca_keys ca)(request_id := (if keys' = [] then None else Some keys'))\<rparr>)))"

text \<open>\<open>keys.add(key)\<close>, creating the set first.\<close>

definition add_key :: "(nat \<rightharpoonup> jsstr list) \<Rightarrow> nat \<Rightarrow> jsstr \<Rightarrow> (nat \<rightharpoonup> jsstr list)" where
  "add_key keys request_id key =
    (let ks = (case keys request_id of None \<Rightarrow> [] | Some ks \<Rightarrow> ks)
     in keys(request_id \<mapsto> (if key \<in> set ks then ks else ks @ [key])))"

text \<open>The updates of one chunk: counters, then the chunk itself.\<close>

definition ca_store :: "jsstr \<Rightarrow> response_frame \<Rightarrow> nat \<Rightarrow> nat \<Rightarrow> chunk_assembler \<Rightarrow> chunk_assembler" where
  "ca_store key fr bytes frames ca =
    (let ca1 = ca\<lparr>ca_total_bytes := ca_total_bytes ca + length (rf_body fr),
                  ca_total_frames := ca_total_frames ca + 1,
                  ca_bytes := (ca_bytes ca)(key \<mapsto> bytes),
                  ca_frames := (ca_frames ca)(key \<mapsto> frames)\<rparr>
     in (case ca_chunks ca key of
           None \<Rightarrow> ca1\<lparr>ca_chunks := (ca_chunks ca)(key \<mapsto> [rf_body fr]),
                       ca_keys := add_key (ca_keys ca) (rf_request_id fr) key\<rparr>
         | Some bodies \<Rightarrow> ca1\<lparr>ca_chunks := (ca_chunks ca)(key \<mapsto> bodies @ [rf_body fr])\<rparr>))"

definition ca_assemble ::
  "chunk_assembler \<Rightarrow> response_frame \<Rightarrow> (response_frame option \<times> chunk_assembler) res" where
  "ca_assemble ca fr =
    (let key = chunk_key fr; previous = ca_chunks ca key;
         last_frame = \<not> flag_set (rf_flags fr) FLAG_MORE_CHUNKS in
     if last_frame \<and> previous = None then Inr (Some fr, ca)
     else (let bytes = mget (ca_bytes ca) key + length (rf_body fr);
               frames = mget (ca_frames ca) key + 1 in
       rbind (ca_assert_limits ca bytes frames (length (rf_body fr))) (\<lambda>_.
       (let ca2 = ca_store key fr bytes frames ca in
        if \<not> last_frame then Inr (None, ca2)
        else (case ca_chunks ca2 key of
            None \<Rightarrow> Inr (Some fr, ca2)
          | Some chunks \<Rightarrow>
              (let body = buffer_concat chunks bytes in
               Inr (Some (fr\<lparr>rf_body := body, rf_body_length := length body\<rparr>),
                 ca_release key (rf_request_id fr) ca2)))))))"

fun ca_discard_keys :: "jsstr list \<Rightarrow> nat \<Rightarrow> chunk_assembler \<Rightarrow> (nat \<times> nat) \<times> chunk_assembler" where
  "ca_discard_keys [] request_id ca = ((0, 0), ca)"
| "ca_discard_keys (key # keys) request_id ca =
    (let b = mget (ca_bytes ca) key; f = mget (ca_frames ca) key in
     case ca_discard_keys keys request_id (ca_release key request_id ca) of
       ((bytes, frames), ca') \<Rightarrow> ((b + bytes, f + frames), ca'))"

definition ca_discard_request :: "nat \<Rightarrow> chunk_assembler \<Rightarrow> (nat \<times> nat) \<times> chunk_assembler" where
  "ca_discard_request request_id ca =
    (case ca_keys ca request_id of
       None \<Rightarrow> ((0, 0), ca)
     | Some keys \<Rightarrow> ca_discard_keys keys request_id ca)"

section \<open>Lemmas\<close>

subsection \<open>Keys\<close>

lemma colon_not_digit: "\<not> is_digit 0x3A"
  by (simp add: is_digit_def word_le_nat_alt)

definition request_text :: "jsstr \<Rightarrow> jsstr" where
  "request_text key = takeWhile (\<lambda>u. u \<noteq> 0x3A) key"

lemma colon_free: "u \<in> set (nat_text n) \<Longrightarrow> u \<noteq> 0x3A"
  using nat_text_digits [of n] colon_not_digit by auto

lemma before_colon: "0x3A \<notin> set xs \<Longrightarrow> takeWhile (\<lambda>u. u \<noteq> 0x3A) (xs @ 0x3A # ys) = (xs :: jsstr)"
  by (induction xs) auto

lemma request_text_key [simp]: "request_text (chunk_key fr) = nat_text (rf_request_id fr)"
  using before_colon [of "nat_text (rf_request_id fr)"] colon_free
  by (auto simp: request_text_def chunk_key_def)

lemma chunk_key_inj:
  assumes "chunk_key a = chunk_key b"
  shows "rf_request_id a = rf_request_id b \<and> rf_opcode a = rf_opcode b \<and> rf_lane_id a = rf_lane_id b"
proof -
  have cut: "xs = ys \<and> us = vs"
    if "xs @ 0x3A # us = ys @ 0x3A # vs" "(0x3A :: 16 word) \<notin> set xs" "0x3A \<notin> set ys" for xs ys us vs
    using that before_colon [of xs us] before_colon [of ys vs] by simp
  have free: "0x3A \<notin> set (nat_text n)" for n using colon_free by blast
  from cut [OF assms [unfolded chunk_key_def] free free]
  have r: "nat_text (rf_request_id a) = nat_text (rf_request_id b)"
    and rest: "nat_text (rf_opcode a) @ 0x3A # nat_text (rf_lane_id a) =
      nat_text (rf_opcode b) @ 0x3A # nat_text (rf_lane_id b)" by auto
  from r cut [OF rest free free] show ?thesis by (auto simp: nat_text_inj)
qed

subsection \<open>The invariant\<close>

definition byte_count :: "bytes list \<Rightarrow> nat" where
  "byte_count bodies = sum_list (map length bodies)"

text \<open>The tables agree and the totals are their sums, within the limits.\<close>

definition ca_accounts :: "chunk_assembler \<Rightarrow> bool" where
  "ca_accounts ca \<longleftrightarrow> finite (dom (ca_chunks ca)) \<and>
    ca_bytes ca = map_option byte_count \<circ> ca_chunks ca \<and>
    ca_frames ca = map_option length \<circ> ca_chunks ca \<and>
    ca_total_bytes ca = msum (ca_bytes ca) \<and> ca_total_frames ca = msum (ca_frames ca) \<and>
    ca_total_bytes ca \<le> ca_max_bytes ca \<and> ca_total_frames ca \<le> ca_max_frames ca"

text \<open>The index of a request lists exactly its open keys.\<close>

definition ca_indexed :: "chunk_assembler \<Rightarrow> bool" where
  "ca_indexed ca \<longleftrightarrow> (\<forall>r. case ca_keys ca r of
      None \<Rightarrow> \<forall>k \<in> dom (ca_chunks ca). request_text k \<noteq> nat_text r
    | Some ks \<Rightarrow> ks \<noteq> [] \<and> distinct ks \<and>
        set ks = {k \<in> dom (ca_chunks ca). request_text k = nat_text r})"

definition ca_inv :: "chunk_assembler \<Rightarrow> bool" where
  "ca_inv ca \<longleftrightarrow> ca_accounts ca \<and> ca_indexed ca"

definition held :: "chunk_assembler \<Rightarrow> jsstr \<Rightarrow> bytes" where
  "held ca k = (case ca_chunks ca k of None \<Rightarrow> [] | Some bodies \<Rightarrow> concat bodies)"

lemma new_assembler_inv: "ca_inv (new_assembler b f r)" "held (new_assembler b f r) k = []"
  by (simp_all add: ca_inv_def ca_accounts_def ca_indexed_def new_assembler_def held_def)

lemma ca_counts:
  assumes "ca_accounts ca"
  shows "mget (ca_bytes ca) k = (case ca_chunks ca k of None \<Rightarrow> 0 | Some b \<Rightarrow> byte_count b)"
    "mget (ca_frames ca) k = (case ca_chunks ca k of None \<Rightarrow> 0 | Some b \<Rightarrow> length b)"
    "finite (dom (ca_bytes ca))" "finite (dom (ca_frames ca))"
  using assms by (auto simp: ca_accounts_def mget_def dom_def split: option.splits)

lemma map_comp_upd: "(map_option f \<circ> m)(k := map_option f v) = map_option f \<circ> m(k := v)"
  by auto

lemma ca_release_fields:
  "ca_chunks (ca_release key r ca) = (ca_chunks ca)(key := None)"
  "ca_bytes (ca_release key r ca) = (ca_bytes ca)(key := None)"
  "ca_frames (ca_release key r ca) = (ca_frames ca)(key := None)"
  "ca_total_bytes (ca_release key r ca) = ca_total_bytes ca - mget (ca_bytes ca) key"
  "ca_total_frames (ca_release key r ca) = ca_total_frames ca - mget (ca_frames ca) key"
  "ca_max_bytes (ca_release key r ca) = ca_max_bytes ca"
  "ca_max_frames (ca_release key r ca) = ca_max_frames ca"
  "ca_max_response (ca_release key r ca) = ca_max_response ca"
  by (auto simp: ca_release_def Let_def split: option.splits)

lemma ca_release_keys:
  "ca_keys (ca_release key r ca) =
    (case ca_keys ca r of None \<Rightarrow> ca_keys ca
     | Some ks \<Rightarrow> (ca_keys ca)(r := (if filter (\<lambda>k. k \<noteq> key) ks = [] then None
         else Some (filter (\<lambda>k. k \<noteq> key) ks))))"
  by (auto simp: ca_release_def Let_def split: option.splits)

lemma ca_release_inv:
  assumes "ca_inv ca" "request_text key = nat_text r"
  shows "ca_inv (ca_release key r ca)"
proof -
  from assms(1) have a: "ca_accounts ca" and x: "ca_indexed ca" by (simp_all add: ca_inv_def)
  from ca_counts(3,4) [OF a] msum_remove [of "ca_bytes ca" key] msum_remove [of "ca_frames ca" key]
  have m: "msum ((ca_bytes ca)(key := None)) = msum (ca_bytes ca) - mget (ca_bytes ca) key"
    "msum ((ca_frames ca)(key := None)) = msum (ca_frames ca) - mget (ca_frames ca) key" by simp_all
  have "ca_accounts (ca_release key r ca)"
    using a m by (auto simp: ca_accounts_def ca_release_fields map_comp_upd [of _ _ _ None, simplified])
  moreover have "ca_indexed (ca_release key r ca)"
    unfolding ca_indexed_def
  proof
    fix q
    from x have xq: "case ca_keys ca q of
      None \<Rightarrow> \<forall>k \<in> dom (ca_chunks ca). request_text k \<noteq> nat_text q
    | Some ks \<Rightarrow> ks \<noteq> [] \<and> distinct ks \<and> set ks = {k \<in> dom (ca_chunks ca). request_text k = nat_text q}"
      by (simp add: ca_indexed_def)
    have other: "request_text key \<noteq> nat_text q" if "q \<noteq> r" using that assms(2) by (auto simp: nat_text_inj)
    show "case ca_keys (ca_release key r ca) q of
      None \<Rightarrow> \<forall>k \<in> dom (ca_chunks (ca_release key r ca)). request_text k \<noteq> nat_text q
    | Some ks \<Rightarrow> ks \<noteq> [] \<and> distinct ks \<and>
        set ks = {k \<in> dom (ca_chunks (ca_release key r ca)). request_text k = nat_text q}"
    proof (cases "q = r")
      case True
      with xq show ?thesis
        by (auto simp: ca_release_fields ca_release_keys filter_empty_conv split: option.splits if_splits)
    next
      case False
      with xq other show ?thesis
        by (auto simp: ca_release_fields ca_release_keys split: option.splits if_splits)
    qed
  qed
  ultimately show ?thesis by (simp add: ca_inv_def)
qed

lemma ca_store_fields:
  "ca_chunks (ca_store key fr bytes frames ca) = (ca_chunks ca)(key \<mapsto>
    (case ca_chunks ca key of None \<Rightarrow> [] | Some bodies \<Rightarrow> bodies) @ [rf_body fr])"
  "ca_keys (ca_store key fr bytes frames ca) =
    (if ca_chunks ca key = None then add_key (ca_keys ca) (rf_request_id fr) key else ca_keys ca)"
  "ca_bytes (ca_store key fr bytes frames ca) = (ca_bytes ca)(key \<mapsto> bytes)"
  "ca_frames (ca_store key fr bytes frames ca) = (ca_frames ca)(key \<mapsto> frames)"
  "ca_total_bytes (ca_store key fr bytes frames ca) = ca_total_bytes ca + length (rf_body fr)"
  "ca_total_frames (ca_store key fr bytes frames ca) = ca_total_frames ca + 1"
  "ca_max_bytes (ca_store key fr bytes frames ca) = ca_max_bytes ca"
  "ca_max_frames (ca_store key fr bytes frames ca) = ca_max_frames ca"
  "ca_max_response (ca_store key fr bytes frames ca) = ca_max_response ca"
  by (auto simp: ca_store_def Let_def split: option.splits)

lemma ca_store_indexed:
  assumes "ca_indexed ca" "request_text key = nat_text (rf_request_id fr)"
  shows "ca_indexed (ca_store key fr bytes frames ca)"
  unfolding ca_indexed_def
proof
  fix q
  from assms(1) have xq: "case ca_keys ca q of
      None \<Rightarrow> \<forall>k \<in> dom (ca_chunks ca). request_text k \<noteq> nat_text q
    | Some ks \<Rightarrow> ks \<noteq> [] \<and> distinct ks \<and> set ks = {k \<in> dom (ca_chunks ca). request_text k = nat_text q}"
    by (simp add: ca_indexed_def)
  have other: "request_text key \<noteq> nat_text q" if "q \<noteq> rf_request_id fr"
    using that assms(2) by (auto simp: nat_text_inj)
  show "case ca_keys (ca_store key fr bytes frames ca) q of
      None \<Rightarrow> \<forall>k \<in> dom (ca_chunks (ca_store key fr bytes frames ca)). request_text k \<noteq> nat_text q
    | Some ks \<Rightarrow> ks \<noteq> [] \<and> distinct ks \<and>
        set ks = {k \<in> dom (ca_chunks (ca_store key fr bytes frames ca)). request_text k = nat_text q}"
  proof (cases "q = rf_request_id fr")
    case True
    with xq assms(2) show ?thesis
      by (cases "ca_chunks ca key")
        (auto simp: ca_store_fields add_key_def Let_def split: option.splits if_splits)
  next
    case False
    with xq other show ?thesis
      by (auto simp: ca_store_fields add_key_def Let_def split: option.splits if_splits)
  qed
qed

lemma ca_assert_limits_ok:
  "ca_assert_limits ca bytes frames added = Inr u \<longleftrightarrow>
    bytes \<le> ca_max_bytes ca \<and> frames \<le> ca_max_frames ca \<and> bytes \<le> ca_max_response ca \<and>
    ca_total_bytes ca + added \<le> ca_max_bytes ca \<and> ca_total_frames ca + 1 \<le> ca_max_frames ca"
  by (auto simp: ca_assert_limits_def)

lemma ca_store_accounts:
  assumes "ca_accounts ca"
    and "ca_total_bytes ca + length (rf_body fr) \<le> ca_max_bytes ca"
    and "ca_total_frames ca + 1 \<le> ca_max_frames ca"
  shows "ca_accounts (ca_store key fr (mget (ca_bytes ca) key + length (rf_body fr))
    (mget (ca_frames ca) key + 1) ca)"
proof -
  note c = ca_counts [OF assms(1)]
  from c(3,4) msum_upd [of "ca_bytes ca" key "mget (ca_bytes ca) key + length (rf_body fr)"]
    msum_upd [of "ca_frames ca" key "mget (ca_frames ca) key + 1"]
  have m: "msum ((ca_bytes ca)(key \<mapsto> mget (ca_bytes ca) key + length (rf_body fr))) =
      msum (ca_bytes ca) + length (rf_body fr)"
    "msum ((ca_frames ca)(key \<mapsto> mget (ca_frames ca) key + 1)) = msum (ca_frames ca) + 1" by simp_all
  have b: "mget (ca_bytes ca) key + length (rf_body fr) =
      byte_count ((case ca_chunks ca key of None \<Rightarrow> [] | Some bodies \<Rightarrow> bodies) @ [rf_body fr])"
    "mget (ca_frames ca) key + 1 =
      length ((case ca_chunks ca key of None \<Rightarrow> [] | Some bodies \<Rightarrow> bodies) @ [rf_body fr])"
    by (auto simp: c byte_count_def split: option.splits)
  show ?thesis
    using assms m b unfolding ca_accounts_def ca_store_fields
    by (simp add: fun_eq_iff)
qed

lemma byte_count_concat: "byte_count bodies = length (concat bodies)"
  by (simp add: byte_count_def length_concat)

lemma buffer_concat_exact: "buffer_concat bodies (length (concat bodies)) = concat bodies"
  by (simp add: buffer_concat_def)

text \<open>One frame: either it ends a response, which is handed out whole, or it is added to it.\<close>

definition more_chunks :: "response_frame \<Rightarrow> bool" where
  "more_chunks fr = flag_set (rf_flags fr) FLAG_MORE_CHUNKS"

definition whole :: "response_frame \<Rightarrow> bytes \<Rightarrow> response_frame" where
  "whole fr body = fr\<lparr>rf_body := body, rf_body_length := length body\<rparr>"

lemma ca_assemble_spec:
  assumes inv: "ca_inv ca" and len: "rf_body_length fr = length (rf_body fr)"
    and step: "ca_assemble ca fr = Inr (out, ca')"
  shows "ca_inv ca' \<and>
    held ca' = (held ca)(chunk_key fr := (if more_chunks fr then held ca (chunk_key fr) @ rf_body fr else [])) \<and>
    out = (if more_chunks fr then None else Some (whole fr (held ca (chunk_key fr) @ rf_body fr)))"
proof (cases "\<not> more_chunks fr \<and> ca_chunks ca (chunk_key fr) = None")
  case True
  with step have "out = Some fr" "ca' = ca" by (auto simp: ca_assemble_def more_chunks_def)
  with True inv len show ?thesis by (auto simp: held_def whole_def)
next
  case False
  define key where "key = chunk_key fr"
  define bytes where "bytes = mget (ca_bytes ca) key + length (rf_body fr)"
  define frames where "frames = mget (ca_frames ca) key + 1"
  define ca2 where "ca2 = ca_store key fr bytes frames ca"
  from inv have a: "ca_accounts ca" and x: "ca_indexed ca" by (simp_all add: ca_inv_def)
  have req: "request_text key = nat_text (rf_request_id fr)" by (simp add: key_def)
  have lim: "ca_assert_limits ca bytes frames (length (rf_body fr)) = Inr ()"
    and cont: "(if more_chunks fr then Inr (None, ca2)
       else (case ca_chunks ca2 key of
           None \<Rightarrow> Inr (Some fr, ca2)
         | Some chunks \<Rightarrow>
             Inr (Some (whole fr (buffer_concat chunks bytes)),
               ca_release key (rf_request_id fr) ca2))) = (Inr (out, ca') :: (response_frame option \<times> chunk_assembler) res)"
    using step [unfolded ca_assemble_def Let_def, folded more_chunks_def key_def,
        folded bytes_def frames_def, folded ca2_def whole_def] False
    by (auto simp: key_def split: if_splits)
  have inv2: "ca_inv ca2"
    using ca_store_accounts [OF a] ca_store_indexed [OF x req] lim
    by (simp add: ca_inv_def ca2_def bytes_def frames_def ca_assert_limits_ok)
  have chunks2: "ca_chunks ca2 = (ca_chunks ca)(key \<mapsto>
      (case ca_chunks ca key of None \<Rightarrow> [] | Some bodies \<Rightarrow> bodies) @ [rf_body fr])"
    by (simp add: ca2_def ca_store_fields)
  have bytes: "bytes = length (held ca key @ rf_body fr)"
    using ca_counts(1) [OF a, of key] by (auto simp: bytes_def held_def byte_count_concat split: option.splits)
  have held2: "held ca2 = (held ca)(key := held ca key @ rf_body fr)"
    by (auto simp: held_def chunks2 fun_eq_iff split: option.splits)
  show ?thesis
  proof (cases "more_chunks fr")
    case True
    with cont inv2 held2 show ?thesis by (auto simp: key_def)
  next
    case last: False
    have body: "concat (the (ca_chunks ca2 key)) = held ca key @ rf_body fr"
      by (auto simp: chunks2 held_def split: option.splits)
    with cont last have "out = Some (whole fr (held ca key @ rf_body fr))"
      "ca' = ca_release key (rf_request_id fr) ca2"
      using buffer_concat_exact [of "the (ca_chunks ca2 key)"]
      by (auto simp: chunks2 bytes)
    moreover have "held (ca_release key (rf_request_id fr) ca2) = (held ca)(key := [])"
      using held2 by (auto simp: held_def ca_release_fields chunks2 fun_eq_iff split: option.splits)
    ultimately show ?thesis using ca_release_inv [OF inv2 req] last by (simp add: key_def)
  qed
qed

subsection \<open>Whole streams\<close>

text \<open>The assembler fed with the frames of a connection, and what each key should see: the bodies of
  its frames joined up to each one without the flag.\<close>

fun assemble_all :: "chunk_assembler \<Rightarrow> response_frame list \<Rightarrow> (response_frame list \<times> chunk_assembler) res" where
  "assemble_all ca [] = Inr ([], ca)"
| "assemble_all ca (fr # frs) =
    rbind (ca_assemble ca fr) (\<lambda>(out, ca).
    rbind (assemble_all ca frs) (\<lambda>(outs, ca).
    Inr ((case out of None \<Rightarrow> outs | Some whole_frame \<Rightarrow> whole_frame # outs), ca)))"

fun messages :: "bytes \<Rightarrow> response_frame list \<Rightarrow> response_frame list" where
  "messages acc [] = []"
| "messages acc (fr # frs) =
    (if more_chunks fr then messages (acc @ rf_body fr) frs
     else whole fr (acc @ rf_body fr) # messages [] frs)"

lemma chunk_key_whole [simp]: "chunk_key (whole fr body) = chunk_key fr"
  by (simp add: chunk_key_def whole_def)

lemma assemble_all_messages:
  "ca_inv ca \<Longrightarrow> \<forall>fr \<in> set frs. rf_body_length fr = length (rf_body fr) \<Longrightarrow>
    assemble_all ca frs = Inr (outs, ca') \<Longrightarrow>
    ca_inv ca' \<and> (\<forall>k. filter (\<lambda>fr. chunk_key fr = k) outs =
      messages (held ca k) (filter (\<lambda>fr. chunk_key fr = k) frs))"
proof (induction frs arbitrary: ca outs)
  case Nil
  then show ?case by simp
next
  case (Cons fr frs)
  from Cons.prems(3) obtain out ca1 outs1 where h: "ca_assemble ca fr = Inr (out, ca1)"
    "assemble_all ca1 frs = Inr (outs1, ca')"
    "outs = (case out of None \<Rightarrow> outs1 | Some whole_frame \<Rightarrow> whole_frame # outs1)" by auto
  from ca_assemble_spec [OF Cons.prems(1) _ h(1)] Cons.prems(2)
  have s: "ca_inv ca1"
    "held ca1 = (held ca)(chunk_key fr := (if more_chunks fr then held ca (chunk_key fr) @ rf_body fr else []))"
    "out = (if more_chunks fr then None else Some (whole fr (held ca (chunk_key fr) @ rf_body fr)))"
    by simp_all
  from Cons.IH [OF s(1) _ h(2)] Cons.prems(2) have ih: "ca_inv ca'"
    "\<And>k. filter (\<lambda>fr. chunk_key fr = k) outs1 = messages (held ca1 k) (filter (\<lambda>fr. chunk_key fr = k) frs)"
    by auto
  then show ?case by (auto simp: h(3) s(2,3))
qed

lemma ca_indexed_None: "ca_indexed ca \<Longrightarrow> ca_keys ca r = None \<Longrightarrow> ca_chunks ca k = Some b \<Longrightarrow>
    request_text k \<noteq> nat_text r"
  unfolding ca_indexed_def by (drule spec [of _ r]) auto

lemma ca_indexed_Some: "ca_indexed ca \<Longrightarrow> ca_keys ca r = Some ks \<Longrightarrow>
    distinct ks \<and> set ks = {k \<in> dom (ca_chunks ca). request_text k = nat_text r}"
  unfolding ca_indexed_def by (drule spec [of _ r]) auto

text \<open>Discarding a request closes its keys and reports their sizes.\<close>

lemma ca_discard_keys_spec:
  "ca_inv ca \<Longrightarrow> distinct ks \<Longrightarrow> \<forall>k \<in> set ks. request_text k = nat_text r \<and> k \<in> dom (ca_chunks ca) \<Longrightarrow>
    ca_discard_keys ks r ca = ((b, f), ca') \<Longrightarrow>
    ca_inv ca' \<and> ca_chunks ca' = (\<lambda>k. if k \<in> set ks then None else ca_chunks ca k) \<and>
    b = sum_list (map (\<lambda>k. length (held ca k)) ks) \<and>
    ca_total_bytes ca = ca_total_bytes ca' + b \<and> ca_total_frames ca = ca_total_frames ca' + f"
proof (induction ks arbitrary: ca b f)
  case (Cons k ks)
  define ca1 where "ca1 = ca_release k r ca"
  obtain b1 f1 where d: "ca_discard_keys ks r ca1 = ((b1, f1), ca')"
    "b = mget (ca_bytes ca) k + b1" "f = mget (ca_frames ca) k + f1"
    using Cons.prems(4) by (auto simp: ca1_def split: prod.splits)
  from Cons.prems have inv1: "ca_inv ca1" by (auto simp: ca1_def intro: ca_release_inv)
  have dom1: "\<forall>j \<in> set ks. request_text j = nat_text r \<and> j \<in> dom (ca_chunks ca1)"
    using Cons.prems(2,3) by (auto simp: ca1_def ca_release_fields)
  have a: "ca_accounts ca" using Cons.prems(1) by (simp add: ca_inv_def)
  have t: "ca_total_bytes ca = ca_total_bytes ca1 + mget (ca_bytes ca) k"
    "ca_total_frames ca = ca_total_frames ca1 + mget (ca_frames ca) k"
    using a mget_le_msum [OF ca_counts(3) [OF a], of k] mget_le_msum [OF ca_counts(4) [OF a], of k]
    by (simp_all add: ca1_def ca_release_fields ca_accounts_def)
  have h: "held ca1 j = held ca j" if "j \<in> set ks" for j
    using that Cons.prems(2) by (auto simp: held_def ca1_def ca_release_fields)
  have hk: "mget (ca_bytes ca) k = length (held ca k)"
    using ca_counts(1) [OF a, of k] by (auto simp: held_def byte_count_concat split: option.splits)
  have ih: "ca_inv ca'" "ca_chunks ca' = (\<lambda>k. if k \<in> set ks then None else ca_chunks ca1 k)"
    "b1 = sum_list (map (\<lambda>k. length (held ca1 k)) ks)"
    "ca_total_bytes ca1 = ca_total_bytes ca' + b1" "ca_total_frames ca1 = ca_total_frames ca' + f1"
    using Cons.IH [OF inv1 _ dom1 d(1)] Cons.prems(2) by simp_all
  have "ca_chunks ca' = (\<lambda>j. if j \<in> set (k # ks) then None else ca_chunks ca j)"
    by (auto simp: ih(2) fun_eq_iff ca1_def ca_release_fields)
  moreover have "map (\<lambda>k. length (held ca1 k)) ks = map (\<lambda>k. length (held ca k)) ks"
    using h by simp
  ultimately show ?case using ih(1,3-5) t hk d(2,3) by (simp only: list.map sum_list.Cons) simp
qed (auto simp: fun_eq_iff)

lemma discard_request_spec:
  assumes "ca_inv ca" "ca_discard_request r ca = ((bytes, frames), ca')"
  shows "ca_inv ca' \<and>
    ca_chunks ca' = (\<lambda>k. if request_text k = nat_text r then None else ca_chunks ca k) \<and>
    ca_total_bytes ca = ca_total_bytes ca' + bytes \<and> ca_total_frames ca = ca_total_frames ca' + frames"
proof (cases "ca_keys ca r")
  case None
  with assms(1) have "ca_chunks ca k = None" if "request_text k = nat_text r" for k
    using that ca_indexed_None [of ca r k] by (cases "ca_chunks ca k") (auto simp: ca_inv_def)
  then have "ca_chunks ca = (\<lambda>k. if request_text k = nat_text r then None else ca_chunks ca k)" by (auto simp: fun_eq_iff)
  with None assms show ?thesis by (auto simp: ca_discard_request_def)
next
  case (Some ks)
  with assms(1) have ks: "distinct ks" "set ks = {k \<in> dom (ca_chunks ca). request_text k = nat_text r}"
    using ca_indexed_Some by (auto simp: ca_inv_def)
  have d: "ca_discard_keys ks r ca = ((bytes, frames), ca')"
    using assms(2) Some by (simp add: ca_discard_request_def)
  have "(\<lambda>k. if k \<in> set ks then None else ca_chunks ca k) =
      (\<lambda>k. if request_text k = nat_text r then None else ca_chunks ca k)"
    using ks(2) by (auto simp: fun_eq_iff dom_def)
  with ca_discard_keys_spec [OF assms(1) ks(1) _ d] ks(2) show ?thesis by auto
qed

subsection \<open>Histories\<close>

text \<open>What a connection does with its assembler: it feeds it the frames it has parsed (a refused one
  leaves it as it is), drops what a finished request has left behind, lowers the response limit, and
  starts again.\<close>

inductive ca_step :: "chunk_assembler \<Rightarrow> chunk_assembler \<Rightarrow> bool" where
  frame: "rf_body_length fr = length (rf_body fr) \<Longrightarrow> ca_assemble ca fr = Inr (out, ca') \<Longrightarrow> ca_step ca ca'"
| discard: "ca_discard_request r ca = (share, ca') \<Longrightarrow> ca_step ca ca'"
| limit: "ca_step ca (ca_update_max_response n ca)"
| reset: "ca_step ca (ca_clear ca)"

definition ca_within :: "nat \<Rightarrow> nat \<Rightarrow> nat \<Rightarrow> chunk_assembler \<Rightarrow> bool" where
  "ca_within byte_limit frame_limit response_limit ca \<longleftrightarrow>
    ca_max_bytes ca = byte_limit \<and> ca_max_frames ca = frame_limit \<and>
    ca_max_response ca \<le> response_limit \<and> (\<forall>k. length (held ca k) \<le> response_limit)"

lemma ca_key_bytes: "ca_accounts ca \<Longrightarrow> mget (ca_bytes ca) k = length (held ca k)"
  using ca_counts(1) [of ca k] by (auto simp: held_def byte_count_concat split: option.splits)

lemma ca_assemble_limits:
  assumes "ca_inv ca" "ca_assemble ca fr = Inr (out, ca')"
  shows "ca_max_bytes ca' = ca_max_bytes ca \<and> ca_max_frames ca' = ca_max_frames ca \<and>
    ca_max_response ca' = ca_max_response ca \<and>
    (more_chunks fr \<longrightarrow> length (held ca (chunk_key fr)) + length (rf_body fr) \<le> ca_max_response ca)"
  using assms ca_key_bytes [of ca "chunk_key fr"]
  by (auto simp: ca_assemble_def Let_def more_chunks_def ca_inv_def ca_assert_limits_ok
      ca_store_fields ca_release_fields split: if_splits option.splits)

lemma ca_assemble_refused:
  assumes "ca_inv ca"
  shows "(\<exists>e. ca_assemble ca fr = Inl e) \<longleftrightarrow>
    (more_chunks fr \<or> ca_chunks ca (chunk_key fr) \<noteq> None) \<and>
    (ca_max_bytes ca < ca_total_bytes ca + length (rf_body fr) \<or> ca_max_frames ca < ca_total_frames ca + 1 \<or>
      ca_max_response ca < length (held ca (chunk_key fr)) + length (rf_body fr))"
proof -
  let ?k = "chunk_key fr" and ?n = "length (rf_body fr)"
  from assms have a: "ca_accounts ca" by (simp add: ca_inv_def)
  have le: "mget (ca_bytes ca) ?k \<le> ca_total_bytes ca" "mget (ca_frames ca) ?k \<le> ca_total_frames ca"
    using a mget_le_msum [OF ca_counts(3) [OF a], of ?k] mget_le_msum [OF ca_counts(4) [OF a], of ?k]
    by (simp_all add: ca_accounts_def)
  have "(\<exists>e. ca_assemble ca fr = Inl e) \<longleftrightarrow>
      (more_chunks fr \<or> ca_chunks ca ?k \<noteq> None) \<and>
      ca_assert_limits ca (mget (ca_bytes ca) ?k + ?n) (mget (ca_frames ca) ?k + 1) ?n \<noteq> Inr ()"
    by (cases "ca_assert_limits ca (mget (ca_bytes ca) ?k + ?n) (mget (ca_frames ca) ?k + 1) ?n")
      (auto simp: ca_assemble_def Let_def more_chunks_def split: option.split)
  then show ?thesis
    using le by (auto simp: ca_assert_limits_ok ca_key_bytes [OF a])
qed

lemma ca_discard_limits:
  assumes "ca_discard_request r ca = (share, ca')"
  shows "ca_max_bytes ca' = ca_max_bytes ca \<and> ca_max_frames ca' = ca_max_frames ca \<and>
    ca_max_response ca' = ca_max_response ca"
proof -
  have "ca_max_bytes c' = ca_max_bytes c \<and> ca_max_frames c' = ca_max_frames c \<and>
      ca_max_response c' = ca_max_response c" if "ca_discard_keys ks r c = (s, c')" for ks c s c'
    using that
  proof (induction ks arbitrary: c s)
    case (Cons k ks)
    then show ?case by (fastforce simp: Let_def ca_release_fields split: prod.splits)
  qed simp
  with assms show ?thesis by (auto simp: ca_discard_request_def split: option.splits)
qed

lemma ca_step_keeps:
  "ca_step ca ca' \<Longrightarrow> ca_inv ca \<and> ca_within b f r ca \<Longrightarrow> ca_inv ca' \<and> ca_within b f r ca'"
proof (induction rule: ca_step.induct)
  case (frame fr ca out ca')
  then have inv: "ca_inv ca" by simp
  from ca_assemble_spec [OF inv frame.hyps] ca_assemble_limits [OF inv frame.hyps(2)] frame.prems
  show ?case by (auto simp: ca_within_def)
next
  case (discard q ca share ca')
  obtain bytes frames where s: "share = (bytes, frames)" by (cases share)
  from discard_request_spec [of ca q bytes frames ca'] ca_discard_limits [OF discard.hyps] discard
  have "ca_inv ca'" "ca_max_bytes ca' = ca_max_bytes ca" "ca_max_frames ca' = ca_max_frames ca"
    "ca_max_response ca' = ca_max_response ca"
    "ca_chunks ca' = (\<lambda>k. if request_text k = nat_text q then None else ca_chunks ca k)"
    by (simp_all add: s)
  then show ?case using discard.prems by (simp add: ca_within_def held_def)
next
  case (limit ca n)
  let ?ca = "ca_update_max_response n ca"
  have "held ?ca = held ca" by (simp add: held_def ca_update_max_response_def fun_eq_iff cong: option.case_cong)
  moreover have "ca_accounts ?ca = ca_accounts ca"
    by (simp add: ca_accounts_def ca_update_max_response_def)
  moreover have "ca_indexed ?ca = ca_indexed ca"
    by (simp add: ca_indexed_def ca_update_max_response_def cong: option.case_cong)
  ultimately show ?case using limit
    by (simp add: ca_inv_def ca_within_def)
      (simp add: ca_update_max_response_def min.coboundedI1)
next
  case (reset ca)
  then show ?case
    by (simp add: ca_inv_def ca_accounts_def ca_indexed_def ca_within_def held_def ca_clear_def)
qed

lemma ca_reachable:
  "ca_step\<^sup>*\<^sup>* (new_assembler b f r) ca \<Longrightarrow> ca_inv ca \<and> ca_within b f r ca"
proof (induction rule: rtranclp_induct)
  case base
  show ?case by (simp add: new_assembler_inv ca_within_def) (simp add: new_assembler_def)
qed (rule ca_step_keeps)

text \<open>A frame for evaluation.\<close>

definition demo_frame :: "nat \<Rightarrow> nat \<Rightarrow> bytes \<Rightarrow> response_frame" where
  "demo_frame flags request_id body = \<lparr>rf_flags = flags, rf_lane_id = 1, rf_opcode = 258,
    rf_request_id = request_id, rf_body_length = length body, rf_body = body\<rparr>"

lemmas assemble_simps = ca_assemble_def new_assembler_def demo_frame_def chunk_key_def flag_set_def
  ca_assert_limits_def ca_store_def ca_release_def add_key_def buffer_concat_def nat_text_def digit_unit_def
  dec_digits.simps Let_def mget_def

section \<open>Properties\<close>

text \<open>C23. Responses split into chunks are put together independently: whatever the order in which the
  frames of different requests, opcodes and lanes are interleaved on the connection, the responses
  handed out for one of them are those of its own frames, bodies joined in order, and the tables, totals
  and limits stay consistent. Frames share a key only when they are of the same request, opcode and
  lane.\<close>

theorem interleaved_chunks_reassemble:
  assumes "assemble_all (new_assembler byte_limit frame_limit response_limit) frames = Inr (outs, ca)"
    and "\<forall>fr \<in> set frames. rf_body_length fr = length (rf_body fr)"
  shows "ca_inv ca \<and> (\<forall>k. filter (\<lambda>fr. chunk_key fr = k) outs =
    messages [] (filter (\<lambda>fr. chunk_key fr = k) frames)) \<and>
    (\<forall>a b. chunk_key a = chunk_key b \<longrightarrow>
      rf_request_id a = rf_request_id b \<and> rf_opcode a = rf_opcode b \<and> rf_lane_id a = rf_lane_id b)"
proof (intro conjI allI impI)
  show "rf_request_id a = rf_request_id b" "rf_opcode a = rf_opcode b" "rf_lane_id a = rf_lane_id b"
    if "chunk_key a = chunk_key b" for a b using chunk_key_inj [OF that] by simp_all
qed (use assemble_all_messages [OF new_assembler_inv(1) assms(2,1)] in \<open>simp_all add: new_assembler_inv(2)\<close>)

theorem interleaved_chunks_reassemble_witness:
  "\<forall>k. filter (\<lambda>fr. chunk_key fr = k) [demo_frame 0 8 [9], demo_frame 0 7 [1, 2]] =
    messages [] (filter (\<lambda>fr. chunk_key fr = k) [demo_frame 32 7 [1], demo_frame 0 8 [9], demo_frame 0 7 [2]])"
proof -
  obtain ca where "assemble_all (new_assembler 10 10 10)
      [demo_frame 32 7 [1], demo_frame 0 8 [9], demo_frame 0 7 [2]] =
      Inr ([demo_frame 0 8 [9], demo_frame 0 7 [1, 2]], ca)"
    by (simp add: assemble_simps)
  from interleaved_chunks_reassemble [OF this] show ?thesis by (simp add: demo_frame_def)
qed

text \<open>C24. The memory held for unfinished responses is bounded whatever the server sends. After any
  sequence of accepted frames, discarded requests, lowered response limits and resets, from the empty
  assembler on, the byte and frame totals are the sums over the chunks held, within the two limits of
  the assembler, and no response is held beyond the response limit. The next frame is refused exactly
  when it belongs to an unfinished or chunked response and would exceed one of the limits in force. And
  discarding a request closes its keys and no other, and reports exactly the bytes and frames they held,
  by which the totals fall.\<close>

theorem discard_request_accounts:
  assumes "ca_step\<^sup>*\<^sup>* (new_assembler byte_limit frame_limit response_limit) ca"
  shows "ca_total_bytes ca = msum (map_option byte_count \<circ> ca_chunks ca) \<and>
    ca_total_frames ca = msum (map_option length \<circ> ca_chunks ca) \<and>
    ca_total_bytes ca \<le> byte_limit \<and> ca_total_frames ca \<le> frame_limit \<and>
    (\<forall>k bodies. ca_chunks ca k = Some bodies \<longrightarrow> byte_count bodies \<le> response_limit) \<and>
    (\<forall>fr. (\<exists>e. ca_assemble ca fr = Inl e) \<longleftrightarrow>
      (more_chunks fr \<or> ca_chunks ca (chunk_key fr) \<noteq> None) \<and>
      (byte_limit < ca_total_bytes ca + length (rf_body fr) \<or> frame_limit < ca_total_frames ca + 1 \<or>
        ca_max_response ca < length (held ca (chunk_key fr)) + length (rf_body fr))) \<and>
    (\<forall>r bytes frames ca'. ca_discard_request r ca = ((bytes, frames), ca') \<longrightarrow>
      ca_chunks ca' = (\<lambda>k. if request_text k = nat_text r then None else ca_chunks ca k) \<and>
      ca_total_bytes ca = ca_total_bytes ca' + bytes \<and>
      ca_total_frames ca = ca_total_frames ca' + frames \<and>
      msum (map_option byte_count \<circ> ca_chunks ca) = msum (map_option byte_count \<circ> ca_chunks ca') + bytes \<and>
      msum (map_option length \<circ> ca_chunks ca) = msum (map_option length \<circ> ca_chunks ca') + frames)"
proof -
  from ca_reachable [OF assms] have inv: "ca_inv ca" and within: "ca_within byte_limit frame_limit response_limit ca"
    by simp_all
  have sums: "msum (map_option byte_count \<circ> ca_chunks c) = ca_total_bytes c"
    "msum (map_option length \<circ> ca_chunks c) = ca_total_frames c" if "ca_inv c" for c
    using that by (simp_all add: ca_inv_def ca_accounts_def)
  have bounds: "byte_count bodies \<le> response_limit" if "ca_chunks ca k = Some bodies" for k bodies
    using within that unfolding ca_within_def by (auto simp: held_def byte_count_concat dest: spec [of _ k])
  have totals: "ca_total_bytes ca \<le> byte_limit" "ca_total_frames ca \<le> frame_limit"
    "ca_max_bytes ca = byte_limit" "ca_max_frames ca = frame_limit"
    using inv within unfolding ca_inv_def ca_accounts_def ca_within_def by auto
  have discard: "ca_chunks ca' = (\<lambda>k. if request_text k = nat_text r then None else ca_chunks ca k) \<and>
      ca_total_bytes ca = ca_total_bytes ca' + bytes \<and> ca_total_frames ca = ca_total_frames ca' + frames \<and>
      msum (map_option byte_count \<circ> ca_chunks ca) = msum (map_option byte_count \<circ> ca_chunks ca') + bytes \<and>
      msum (map_option length \<circ> ca_chunks ca) = msum (map_option length \<circ> ca_chunks ca') + frames"
    if "ca_discard_request r ca = ((bytes, frames), ca')" for r bytes frames ca'
    using discard_request_spec [OF inv that] sums [OF inv] sums [of ca'] by presburger
  show ?thesis
    using sums [OF inv] bounds totals(1,2) discard ca_assemble_refused [OF inv, unfolded totals(3,4)]
    by (intro conjI allI impI) simp_all
qed

text \<open>Two unfinished responses are held, and the first one is discarded.\<close>

definition demo_held :: chunk_assembler where
  "demo_held = snd (projr (ca_assemble
    (snd (projr (ca_assemble (new_assembler 5 5 5) (demo_frame 32 7 [1])))) (demo_frame 32 8 [9, 9])))"

theorem discard_request_accounts_witness:
  "ca_total_bytes demo_held = 3 \<and> ca_total_bytes demo_held \<le> 5 \<and>
    fst (ca_discard_request 7 demo_held) = (1, 1) \<and>
    ca_total_bytes (snd (ca_discard_request 7 demo_held)) = 2 \<and>
    ca_chunks (snd (ca_discard_request 7 demo_held)) (chunk_key (demo_frame 32 7 [])) = None \<and>
    ca_chunks (snd (ca_discard_request 7 demo_held)) (chunk_key (demo_frame 32 8 [])) = Some [[9, 9]]"
proof -
  define one where "one = snd (projr (ca_assemble (new_assembler 5 5 5) (demo_frame 32 7 [1])))"
  have "ca_step (new_assembler 5 5 5) one"
    by (rule ca_step.frame [of "demo_frame 32 7 [1]" _ None]) (simp_all add: one_def assemble_simps)
  moreover have "ca_step one demo_held"
    by (rule ca_step.frame [of "demo_frame 32 8 [9, 9]" _ None])
      (simp_all add: one_def demo_held_def assemble_simps)
  ultimately have "ca_step\<^sup>*\<^sup>* (new_assembler 5 5 5) demo_held" by simp
  note spec = discard_request_accounts [OF this]
  have d: "ca_discard_request 7 demo_held =
      ((1, 1), snd (ca_discard_request 7 demo_held))" "ca_total_bytes demo_held = 3"
    by (simp_all add: demo_held_def ca_discard_request_def ca_release_def assemble_simps)
  have c: "ca_chunks demo_held (chunk_key (demo_frame 32 8 [])) = Some [[9, 9]]"
    by (simp add: demo_held_def assemble_simps)
  have r: "request_text (chunk_key (demo_frame 32 8 [])) \<noteq> nat_text 7"
    by (simp add: nat_text_inj demo_frame_def)
  have k: "request_text (chunk_key (demo_frame 32 7 [])) = nat_text 7" by (simp add: demo_frame_def)
  from spec d(1) have "ca_chunks (snd (ca_discard_request 7 demo_held)) =
      (\<lambda>k. if request_text k = nat_text 7 then None else ca_chunks demo_held k)"
    "ca_total_bytes demo_held = ca_total_bytes (snd (ca_discard_request 7 demo_held)) + 1"
    "ca_total_bytes demo_held \<le> 5" by blast+
  moreover have "fst (ca_discard_request 7 demo_held) = (1, 1)" by (subst d(1)) simp
  ultimately show ?thesis using d(2) c r k by simp
qed

end
