(* ===== verification/Tables.thy ===== *)
theory Tables
  imports Prelude "HOL-Library.AList"
begin

text \<open>
  Insertion-ordered tables. A JavaScript \<open>Map\<close> that the code iterates over is the list of its
  entries (\<open>AList.update\<close> is \<open>set\<close>, \<open>AList.delete\<close> is \<open>delete\<close>, \<open>map_of\<close> is \<open>get\<close>), a \<open>Set\<close> the
  list of its elements. Here are the sums over such a table, which the counters kept beside it are
  compared with, and the effect of its operations on the keys.
\<close>

section \<open>Sets\<close>

text \<open>\<open>Set.add\<close> on the list of a set's elements.\<close>

definition set_add :: "'a \<Rightarrow> 'a list \<Rightarrow> 'a list" where
  "set_add x xs = (if x \<in> set xs then xs else xs @ [x])"

lemma set_set_add [simp]: "set (set_add x xs) = insert x (set xs)"
  by (auto simp: set_add_def)

lemma distinct_set_add [simp]: "distinct (set_add x xs) = distinct xs"
  by (auto simp: set_add_def)

lemma length_set_add: "length (set_add x xs) \<le> Suc (length xs)"
  by (simp add: set_add_def)

section \<open>Maps\<close>

definition keys_of :: "('k \<times> 'v) list \<Rightarrow> 'k set" where
  "keys_of al = fst ` set al"

lemma keys_of_update [simp]: "keys_of (AList.update k v al) = insert k (keys_of al)"
  using dom_update [of k v al] by (simp add: keys_of_def)

lemma keys_of_delete [simp]: "keys_of (AList.delete k al) = keys_of al - {k}"
  using delete_keys [of k al] by (auto simp: keys_of_def AList.delete_eq)

lemma keys_of_map_of: "k \<in> keys_of al \<longleftrightarrow> map_of al k \<noteq> None"
  by (simp add: keys_of_def map_of_eq_None_iff)

lemma alist_update_new: "map_of al k = None \<Longrightarrow> AList.update k v al = al @ [(k, v)]"
  by (induction al) (auto split: if_splits)

definition asum :: "('v \<Rightarrow> nat) \<Rightarrow> ('k \<times> 'v) list \<Rightarrow> nat" where
  "asum f al = sum_list (map (\<lambda>kv. f (snd kv)) al)"

lemma asum_simps [simp]: "asum f [] = 0" "asum f (kv # al) = f (snd kv) + asum f al"
  by (simp_all add: asum_def)

lemma asum_update_Some [acct_simps]:
  "map_of al k = Some old \<Longrightarrow> asum f (AList.update k v al) + f old = asum f al + f v"
  by (induction al) auto

lemma asum_update_None [acct_simps]:
  "map_of al k = None \<Longrightarrow> asum f (AList.update k v al) = asum f al + f v"
  by (induction al) (auto split: if_splits)

lemma asum_delete_le: "asum f (AList.delete k al) \<le> asum f al"
  by (induction al) (auto simp: AList.delete_eq)

lemma asum_delete_Some:
  "map_of al k = Some old \<Longrightarrow> asum f (AList.delete k al) + f old \<le> asum f al"
proof (induction al)
  case (Cons kv al)
  then show ?case using asum_delete_le [of f k al]
    by (cases kv) (auto simp: AList.delete_eq split: if_splits)
qed simp

lemma asum_delete [acct_simps]:
  "distinct (map fst al) \<Longrightarrow> map_of al k = Some old \<Longrightarrow> asum f (AList.delete k al) + f old = asum f al"
proof (induction al)
  case (Cons kv al)
  then show ?case
    by (cases kv) (auto simp: AList.delete_eq delete_id [unfolded AList.delete_eq])
qed simp

lemma asum_ge: "map_of al k = Some v \<Longrightarrow> f v \<le> asum f al"
  by (induction al) (auto split: if_splits)

lemma asum_cong: "(\<And>k v. (k, v) \<in> set al \<Longrightarrow> f v = g v) \<Longrightarrow> asum f al = asum g al"
  unfolding asum_def by (rule arg_cong [where f = sum_list], rule map_cong) auto

text \<open>The values of a table put in a row.\<close>

lemma distinct_concat_values:
  "distinct (map fst al) \<Longrightarrow> (\<And>k v. (k, v) \<in> set al \<Longrightarrow> distinct (f v)) \<Longrightarrow>
    (\<And>k v k' v'. (k, v) \<in> set al \<Longrightarrow> (k', v') \<in> set al \<Longrightarrow> k \<noteq> k' \<Longrightarrow> set (f v) \<inter> set (f v') = {}) \<Longrightarrow>
    distinct (concat (map (\<lambda>(k, v). f v) al))"
proof (induction al)
  case (Cons kv al)
  obtain k v where kv: "kv = (k, v)" by fastforce
  have "distinct (concat (map (\<lambda>(k, v). f v) al))"
  proof (rule Cons.IH)
    show "distinct (map fst al)" using Cons.prems(1) by simp
    show "distinct (f v)" if "(k, v) \<in> set al" for k v
      by (rule Cons.prems(2) [of k]) (simp add: that)
    show "set (f v) \<inter> set (f v') = {}" if "(k, v) \<in> set al" "(k', v') \<in> set al" "k \<noteq> k'" for k v k' v'
      by (rule Cons.prems(3) [of k _ k']) (simp_all add: that)
  qed
  moreover have "set (f v) \<inter> set (f v') = {}" if "(k', v') \<in> set al" for k' v'
  proof (rule Cons.prems(3))
    show "(k, v) \<in> set (kv # al)" "(k', v') \<in> set (kv # al)" using that kv by auto
    show "k \<noteq> k'" using Cons.prems(1) that kv by force
  qed
  ultimately show ?case using Cons.prems(2) [of k v] kv by auto
qed simp

end
