(* ===== verification/FlowControl.thy ===== *)
theory FlowControl
  imports JsValue Tables
begin

text \<open>
  \<open>src/src/native-flow-control.ts\<close>: the credits the server grants a connection, in total and per
  lane, and the requests waiting for one. A waiter is the number of its \<open>wait\<close> call; the \<open>settled\<close>
  flag of its object, which the queues, the timer and the canceller share, is membership in
  \<open>fc_settled\<close>, and what became of its promise is an entry of \<open>fc_log\<close>. \<open>queuesByLane\<close> is the list
  of the map's entries and \<open>readyLanes\<close> the list of the set's elements, both in insertion order.
\<close>

section \<open>Definitions\<close>

abbreviation WAITER_COMPACTION_THRESHOLD :: nat where "WAITER_COMPACTION_THRESHOLD \<equiv> 1024"

datatype wait_outcome = Granted | TimedOut | Cancelled error

record lane_queue =
  lq_head :: nat
  lq_waiting :: nat
  lq_waiters :: "nat list"

record flow_control =
  fc_active_total :: nat
  fc_active :: "nat \<rightharpoonup> nat"
  fc_closed :: "error option"
  fc_connection_limit :: nat
  fc_lane_queue_limit :: nat
  fc_lane_limit :: nat
  fc_window_limit :: nat
  fc_queues :: "(nat \<times> lane_queue) list"
  fc_ready :: "nat list"
  fc_queued_total :: nat
  fc_max_queued :: nat
  fc_settled :: "nat set"
  fc_next :: nat
  fc_log :: "(nat \<times> wait_outcome) list"

definition new_flow_control :: "nat \<Rightarrow> flow_control" where
  "new_flow_control max_queued =
    \<lparr>fc_active_total = 0, fc_active = Map.empty, fc_closed = None, fc_connection_limit = 4096,
     fc_lane_queue_limit = nat MAX_SAFE, fc_lane_limit = 1024, fc_window_limit = 1024,
     fc_queues = [], fc_ready = [], fc_queued_total = 0, fc_max_queued = max_queued,
     fc_settled = {}, fc_next = 0, fc_log = []\<rparr>"

definition fc_activate :: "nat \<Rightarrow> flow_control \<Rightarrow> flow_control" where
  "fc_activate lane fc = fc\<lparr>fc_active_total := fc_active_total fc + 1,
     fc_active := (fc_active fc)(lane \<mapsto> mget (fc_active fc) lane + 1)\<rparr>"

definition fc_try_acquire :: "nat \<Rightarrow> flow_control \<Rightarrow> bool \<times> flow_control" where
  "fc_try_acquire lane fc =
    (if fc_closed fc \<noteq> None \<or> fc_active_total fc \<ge> fc_connection_limit fc \<or>
        mget (fc_active fc) lane \<ge> fc_lane_limit fc
     then (False, fc) else (True, fc_activate lane fc))"

text \<open>\<open>wait\<close>: a rejected promise, or a waiter that will be settled later.\<close>

definition fc_wait :: "nat \<Rightarrow> flow_control \<Rightarrow> (error + nat) \<times> flow_control" where
  "fc_wait lane fc =
    (case fc_closed fc of
       Some e \<Rightarrow> (Inl e, fc)
     | None \<Rightarrow>
         if fc_lane_queue_limit fc = 0 then
           (Inl (Thrown OverloadedError ''client_lane_queue_full'' []), fc)
         else if fc_queued_total fc \<ge> fc_max_queued fc then
           (Inl (Thrown OverloadedError ''client_queue_full'' []), fc)
         else (let waiter = fc_next fc;
                   fc1 = (case map_of (fc_queues fc) lane of
                       None \<Rightarrow> fc\<lparr>fc_queues := AList.update lane
                                   \<lparr>lq_head = 0, lq_waiting = 1, lq_waiters = [waiter]\<rparr> (fc_queues fc),
                                 fc_ready := set_add lane (fc_ready fc)\<rparr>
                     | Some q \<Rightarrow> fc\<lparr>fc_queues := AList.update lane
                                   (q\<lparr>lq_waiting := lq_waiting q + 1, lq_waiters := lq_waiters q @ [waiter]\<rparr>)
                                   (fc_queues fc)\<rparr>)
               in (Inr waiter, fc1\<lparr>fc_queued_total := fc_queued_total fc + 1, fc_next := waiter + 1\<rparr>)))"

text \<open>The waiters of a queue that still count.\<close>

definition live :: "nat set \<Rightarrow> lane_queue \<Rightarrow> nat list" where
  "live settled q = filter (\<lambda>w. w \<notin> settled) (drop (lq_head q) (lq_waiters q))"

definition fc_compact :: "nat set \<Rightarrow> lane_queue \<Rightarrow> lane_queue" where
  "fc_compact settled q =
    (let remaining = length (lq_waiters q) - lq_head q;
         tombstones = remaining - lq_waiting q;
         compact_consumed = (lq_head q \<ge> WAITER_COMPACTION_THRESHOLD \<and>
           lq_head q * 2 \<ge> length (lq_waiters q));
         compact_tombstones = (tombstones \<ge> WAITER_COMPACTION_THRESHOLD \<and> tombstones * 2 \<ge> remaining)
     in if \<not> compact_consumed \<and> \<not> compact_tombstones then q
        else q\<lparr>lq_waiters := live settled q, lq_head := 0\<rparr>)"

text \<open>The timer of a waiter fires.\<close>

definition fc_timeout :: "nat \<Rightarrow> nat \<Rightarrow> flow_control \<Rightarrow> flow_control" where
  "fc_timeout waiter lane fc =
    (if waiter \<in> fc_settled fc then fc
     else (let fc1 = fc\<lparr>fc_settled := insert waiter (fc_settled fc),
                        fc_queued_total := fc_queued_total fc - 1\<rparr>;
               fc2 = (case map_of (fc_queues fc) lane of
                   None \<Rightarrow> fc1
                 | Some q \<Rightarrow>
                     (let q = q\<lparr>lq_waiting := lq_waiting q - 1\<rparr> in
                      if lq_waiting q = 0
                      then fc1\<lparr>fc_queues := AList.delete lane (fc_queues fc),
                               fc_ready := removeAll lane (fc_ready fc)\<rparr>
                      else fc1\<lparr>fc_queues := AList.update lane (fc_compact (fc_settled fc1) q) (fc_queues fc)\<rparr>))
           in fc2\<lparr>fc_log := fc_log fc @ [(waiter, TimedOut)]\<rparr>))"

fun take_waiter :: "nat set \<Rightarrow> nat list \<Rightarrow> nat option \<times> nat" where
  "take_waiter settled [] = (None, 0)"
| "take_waiter settled (w # ws) =
    (if w \<notin> settled then (Some w, 1)
     else (case take_waiter settled ws of (r, n) \<Rightarrow> (r, n + 1)))"

text \<open>\<open>takeWaiter\<close>: the first unsettled waiter from the head on, and the queue with its head moved.\<close>

definition fc_take_waiter :: "nat set \<Rightarrow> lane_queue \<Rightarrow> nat option \<times> lane_queue" where
  "fc_take_waiter settled q =
    (case take_waiter settled (drop (lq_head q) (lq_waiters q)) of
       (r, n) \<Rightarrow> (r, q\<lparr>lq_head := lq_head q + n\<rparr>))"

fun next_grantable ::
  "nat \<Rightarrow> (nat \<times> lane_queue) list \<Rightarrow> (nat \<rightharpoonup> nat) \<Rightarrow> nat \<Rightarrow> nat list \<Rightarrow> nat option \<times> nat list"
where
  "next_grantable 0 queues active limit ready = (None, ready)"
| "next_grantable (Suc attempts) queues active limit [] = (None, [])"
| "next_grantable (Suc attempts) queues active limit (lane # ready) =
    (case map_of queues lane of
       None \<Rightarrow> next_grantable attempts queues active limit ready
     | Some q \<Rightarrow>
         if lq_waiting q = 0 then next_grantable attempts queues active limit ready
         else if mget active lane < limit then (Some lane, ready)
         else next_grantable attempts queues active limit (set_add lane ready))"

text \<open>What \<open>pump\<close> does with the lane it found.\<close>

definition fc_grant :: "nat \<Rightarrow> flow_control \<Rightarrow> flow_control" where
  "fc_grant lane fc =
    (case map_of (fc_queues fc) lane of
       None \<Rightarrow> fc
     | Some q \<Rightarrow>
         (case fc_take_waiter (fc_settled fc) q of
            (None, q) \<Rightarrow> fc\<lparr>fc_queues := AList.delete lane (fc_queues fc)\<rparr>
          | (Some waiter, q) \<Rightarrow>
              (let q = q\<lparr>lq_waiting := lq_waiting q - 1\<rparr>;
                   settled = insert waiter (fc_settled fc);
                   fc1 = fc\<lparr>fc_queued_total := fc_queued_total fc - 1, fc_settled := settled\<rparr>;
                   fc2 = (if lq_waiting q > 0
                     then fc1\<lparr>fc_queues := AList.update lane (fc_compact settled q) (fc_queues fc),
                              fc_ready := set_add lane (fc_ready fc)\<rparr>
                     else fc1\<lparr>fc_queues := AList.delete lane (fc_queues fc)\<rparr>)
               in fc_activate lane (fc2\<lparr>fc_log := fc_log fc @ [(waiter, Granted)]\<rparr>))))"

subsection \<open>The pump terminates\<close>

lemma take_waiter_Some:
  "take_waiter settled ws = (Some w, n) \<Longrightarrow>
    w \<notin> settled \<and> 0 < n \<and> n \<le> length ws \<and>
    filter (\<lambda>x. x \<notin> settled) ws = w # filter (\<lambda>x. x \<notin> settled) (drop n ws)"
  by (induction ws arbitrary: n) (auto split: if_splits prod.splits)

lemma take_waiter_None:
  "take_waiter settled ws = (None, n) \<Longrightarrow> filter (\<lambda>x. x \<notin> settled) ws = []"
  by (induction ws arbitrary: n) (auto split: if_splits prod.splits)

definition slots :: "lane_queue \<Rightarrow> nat" where
  "slots q = length (lq_waiters q) - lq_head q"

lemma fc_take_waiter_Some:
  assumes "fc_take_waiter settled q = (Some w, q')"
  shows "w \<notin> settled" "live settled q = w # live settled q'" "slots q' < slots q"
    "lq_waiting q' = lq_waiting q" "lq_head q' \<le> length (lq_waiters q')" "lq_waiters q' = lq_waiters q"
proof -
  obtain n where n: "take_waiter settled (drop (lq_head q) (lq_waiters q)) = (Some w, n)"
    "q' = q\<lparr>lq_head := lq_head q + n\<rparr>"
    using assms by (auto simp: fc_take_waiter_def split: prod.splits)
  from take_waiter_Some [OF n(1)] n(2)
  show "w \<notin> settled" "live settled q = w # live settled q'" "slots q' < slots q"
    "lq_waiting q' = lq_waiting q" "lq_head q' \<le> length (lq_waiters q')" "lq_waiters q' = lq_waiters q"
    by (auto simp: live_def slots_def add.commute)
qed

lemma live_length: "length (live settled q) \<le> slots q"
  by (simp add: live_def slots_def) (metis length_drop length_filter_le)

lemma slots_compact: "slots (fc_compact settled q) \<le> slots q"
  using live_length [of settled q] by (simp add: fc_compact_def Let_def slots_def)

lemma slots_waiting: "slots (q\<lparr>lq_waiting := n\<rparr>) = slots q"
  by (simp add: slots_def)

lemma next_grantable_shrinks:
  "next_grantable attempts queues active limit ready = (Some lane, ready') \<Longrightarrow>
    length ready' < length ready"
proof (induction attempts queues active limit ready rule: next_grantable.induct)
  case (3 attempts queues active limit l ready)
  have "length (set_add l ready) \<le> length (l # ready)" using length_set_add [of l ready] by simp
  with 3 show ?case by (fastforce split: option.splits if_splits)
qed auto

definition pump_slots :: "flow_control \<Rightarrow> nat" where
  "pump_slots fc = asum slots (fc_queues fc)"

lemma fc_grant_decreases:
  "pump_slots (fc_grant lane fc) < pump_slots fc \<or>
    pump_slots (fc_grant lane fc) \<le> pump_slots fc \<and> fc_ready (fc_grant lane fc) = fc_ready fc"
proof (cases "map_of (fc_queues fc) lane")
  case None
  then show ?thesis by (simp add: fc_grant_def)
next
  case q: (Some q)
  obtain r q1 where t: "fc_take_waiter (fc_settled fc) q = (r, q1)" by fastforce
  show ?thesis
  proof (cases r)
    case None
    with q t asum_delete_le [of slots lane "fc_queues fc"] show ?thesis
      by (simp add: fc_grant_def pump_slots_def)
  next
    case (Some w)
    define settled where "settled = insert w (fc_settled fc)"
    define q2 where "q2 = q1\<lparr>lq_waiting := lq_waiting q1 - 1\<rparr>"
    have lt: "slots q1 < slots q" using fc_take_waiter_Some(3) t Some by simp
    have le: "slots (fc_compact settled q2) \<le> slots q1"
      using slots_compact [of settled q2] by (simp add: q2_def slots_waiting)
    have "fc_queues (fc_grant lane fc) = (if 0 < lq_waiting q2
        then AList.update lane (fc_compact settled q2) (fc_queues fc)
        else AList.delete lane (fc_queues fc))"
      using q t Some by (simp add: fc_grant_def settled_def q2_def fc_activate_def Let_def)
    then show ?thesis
      using asum_update_Some [OF q, of slots "fc_compact settled q2"] asum_delete_Some [OF q, of slots] lt le
      by (simp add: pump_slots_def)
  qed
qed

function pump :: "flow_control \<Rightarrow> flow_control" where
  "pump fc =
    (if fc_closed fc = None \<and> fc_active_total fc < fc_connection_limit fc \<and> fc_ready fc \<noteq> [] then
       (case next_grantable (length (fc_ready fc)) (fc_queues fc) (fc_active fc) (fc_lane_limit fc)
           (fc_ready fc) of
          (None, ready) \<Rightarrow> fc\<lparr>fc_ready := ready\<rparr>
        | (Some lane, ready) \<Rightarrow> pump (fc_grant lane (fc\<lparr>fc_ready := ready\<rparr>)))
     else fc)"
  by pat_completeness auto
termination
proof (relation "measures [pump_slots, \<lambda>fc. length (fc_ready fc)]", goal_cases)
  case (2 fc r ready lane)
  then have "next_grantable (length (fc_ready fc)) (fc_queues fc) (fc_active fc) (fc_lane_limit fc)
      (fc_ready fc) = (Some lane, ready)" by simp
  from next_grantable_shrinks [OF this] fc_grant_decreases [of lane "fc\<lparr>fc_ready := ready\<rparr>"]
  show ?case by (auto simp: pump_slots_def)
qed simp

declare pump.simps [simp del]

subsection \<open>The other operations\<close>

definition fc_give_back :: "nat \<Rightarrow> flow_control \<Rightarrow> flow_control" where
  "fc_give_back lane fc = (let active = mget (fc_active fc) lane in
    fc\<lparr>fc_active_total := fc_active_total fc - 1,
       fc_active := (fc_active fc)(lane := (if active = 1 then None else Some (active - 1)))\<rparr>)"

definition fc_release :: "nat \<Rightarrow> flow_control \<Rightarrow> flow_control" where
  "fc_release lane fc =
    (if mget (fc_active fc) lane = 0 then fc
     else (let fc1 = fc_give_back lane fc in if fc_closed fc = None then pump fc1 else fc1))"

definition fc_update_limits :: "nat option \<Rightarrow> nat option \<Rightarrow> flow_control \<Rightarrow> flow_control" where
  "fc_update_limits connection_limit lane_limit fc =
    (let fc1 = fc\<lparr>fc_connection_limit := (case connection_limit of None \<Rightarrow> fc_connection_limit fc | Some n \<Rightarrow> n),
                  fc_window_limit := (case lane_limit of None \<Rightarrow> fc_window_limit fc | Some n \<Rightarrow> n)\<rparr>
     in pump (fc1\<lparr>fc_lane_limit := min (fc_window_limit fc1) (fc_lane_queue_limit fc1)\<rparr>))"

definition fc_update_lane_queue_limit :: "nat \<Rightarrow> flow_control \<Rightarrow> flow_control" where
  "fc_update_lane_queue_limit limit fc =
    pump (fc\<lparr>fc_lane_queue_limit := limit, fc_lane_limit := min (fc_window_limit fc) limit\<rparr>)"

definition fc_cancel_queued :: "error \<Rightarrow> flow_control \<Rightarrow> flow_control" where
  "fc_cancel_queued e fc =
    (let waiters = concat (map (\<lambda>(lane, q). live (fc_settled fc) q) (fc_queues fc)) in
     fc\<lparr>fc_queues := [], fc_ready := [], fc_queued_total := 0,
        fc_settled := fc_settled fc \<union> set waiters,
        fc_log := fc_log fc @ map (\<lambda>w. (w, Cancelled e)) waiters\<rparr>)"

definition fc_close :: "error \<Rightarrow> flow_control \<Rightarrow> flow_control" where
  "fc_close e fc =
    (if fc_closed fc \<noteq> None then fc else fc_cancel_queued e (fc\<lparr>fc_closed := Some e\<rparr>))"

section \<open>The invariant\<close>

text \<open>The requests waiting on a lane, first come first.\<close>

definition view :: "flow_control \<Rightarrow> nat \<Rightarrow> nat list" where
  "view fc lane = (case map_of (fc_queues fc) lane of None \<Rightarrow> [] | Some q \<Rightarrow> live (fc_settled fc) q)"

definition queue_ok :: "nat set \<Rightarrow> lane_queue \<Rightarrow> bool" where
  "queue_ok settled q \<longleftrightarrow> lq_head q \<le> length (lq_waiters q) \<and>
    lq_waiting q = length (live settled q) \<and> 0 < lq_waiting q"

definition credits_ok :: "flow_control \<Rightarrow> bool" where
  "credits_ok fc \<longleftrightarrow> finite (dom (fc_active fc)) \<and> (\<forall>lane. fc_active fc lane \<noteq> Some 0) \<and>
    fc_active_total fc = msum (fc_active fc)"

text \<open>Every lane with a queue is in the rotation, except the one the pump has just taken out.\<close>

definition tables_ok :: "nat set \<Rightarrow> flow_control \<Rightarrow> bool" where
  "tables_ok taken fc \<longleftrightarrow> distinct (map fst (fc_queues fc)) \<and>
    (\<forall>lane q. map_of (fc_queues fc) lane = Some q \<longrightarrow> queue_ok (fc_settled fc) q) \<and>
    distinct (fc_ready fc) \<and> set (fc_ready fc) \<union> taken = keys_of (fc_queues fc) \<and>
    fc_queued_total fc = asum lq_waiting (fc_queues fc) \<and> fc_queued_total fc \<le> fc_max_queued fc \<and>
    (fc_closed fc \<noteq> None \<longrightarrow> fc_queues fc = []) \<and>
    fc_lane_limit fc = min (fc_window_limit fc) (fc_lane_queue_limit fc)"

text \<open>Every waiter ever made is either waiting on one lane, once, or settled, once.\<close>

definition waiters_ok :: "flow_control \<Rightarrow> bool" where
  "waiters_ok fc \<longleftrightarrow> (\<forall>lane. distinct (view fc lane)) \<and>
    (\<forall>lane lane'. lane \<noteq> lane' \<longrightarrow> set (view fc lane) \<inter> set (view fc lane') = {}) \<and>
    (\<Union>lane. set (view fc lane)) \<union> fc_settled fc = {..<fc_next fc} \<and>
    distinct (map fst (fc_log fc)) \<and> fst ` set (fc_log fc) = fc_settled fc"

definition fc_inv :: "flow_control \<Rightarrow> bool" where
  "fc_inv fc \<longleftrightarrow> credits_ok fc \<and> tables_ok {} fc \<and> waiters_ok fc"

lemma new_flow_control_inv: "fc_inv (new_flow_control n)"
  by (simp add: fc_inv_def credits_ok_def tables_ok_def waiters_ok_def new_flow_control_def view_def
      keys_of_def)

lemma view_unsettled: "w \<in> set (view fc lane) \<Longrightarrow> w \<notin> fc_settled fc"
  by (auto simp: view_def live_def split: option.splits)

lemma live_compact [simp]: "live settled (fc_compact settled q) = live settled q"
  by (simp add: fc_compact_def live_def Let_def)

lemma live_waiting [simp]: "live settled (q\<lparr>lq_waiting := n\<rparr>) = live settled q"
  by (simp add: live_def)

lemma live_insert: "live (insert w settled) q = filter (\<lambda>x. x \<noteq> w) (live settled q)"
  by (auto simp: live_def intro: filter_cong)

lemma compact_fields: "lq_waiting (fc_compact settled q) = lq_waiting q"
  "lq_head q \<le> length (lq_waiters q) \<Longrightarrow>
    lq_head (fc_compact settled q) \<le> length (lq_waiters (fc_compact settled q))"
  by (simp_all add: fc_compact_def Let_def)

subsection \<open>Credits\<close>

lemma credits_activate: "credits_ok fc \<Longrightarrow> credits_ok (fc_activate lane fc)"
  using msum_upd [of "fc_active fc" lane "mget (fc_active fc) lane + 1"]
  by (auto simp: credits_ok_def fc_activate_def)

lemma credits_release:
  assumes "credits_ok fc" "mget (fc_active fc) lane = n" "0 < n"
  shows "credits_ok (fc\<lparr>fc_active_total := fc_active_total fc - 1,
    fc_active := (fc_active fc)(lane := (if n = 1 then None else Some (n - 1)))\<rparr>)"
proof -
  have fin: "finite (dom (fc_active fc))" using assms(1) by (simp add: credits_ok_def)
  show ?thesis
  proof (cases "n = 1")
    case True
    with assms msum_remove [OF fin, of lane] show ?thesis by (auto simp: credits_ok_def)
  next
    case False
    with assms msum_upd [OF fin, of lane "n - 1"] show ?thesis by (auto simp: credits_ok_def)
  qed
qed

subsection \<open>Settling a waiter\<close>

text \<open>When waiter \<open>w\<close> of a lane is settled, the other lanes do not change.\<close>

lemma other_lanes:
  assumes "waiters_ok fc" "w \<in> set (view fc lane)" "map_of (fc_queues fc) lane' = Some q" "lane' \<noteq> lane"
  shows "live (insert w (fc_settled fc)) q = live (fc_settled fc) q"
proof -
  have "set (view fc lane') \<inter> set (view fc lane) = {}" using assms(1,4) by (simp add: waiters_ok_def)
  with assms(2,3) have "w \<notin> set (live (fc_settled fc) q)" by (auto simp: view_def)
  then show ?thesis by (auto simp: live_insert filter_id_conv)
qed

lemma distinct_filter_length:
  "w \<in> set xs \<Longrightarrow> distinct xs \<Longrightarrow> Suc (length (filter (\<lambda>x. x \<noteq> w) xs)) = length xs"
proof (induction xs)
  case (Cons a xs)
  have "filter (\<lambda>x. x \<noteq> w) xs = xs" if "w \<notin> set xs" using that by (intro filter_True) auto
  with Cons show ?case by auto
qed simp

lemma waiters_settle:
  assumes ok: "waiters_ok fc" and w: "w \<in> set (view fc lane)"
    and v: "view fc' = (view fc)(lane := filter (\<lambda>x. x \<noteq> w) (view fc lane))"
    and f: "fc_settled fc' = insert w (fc_settled fc)" "fc_log fc' = fc_log fc @ [(w, outcome)]"
      "fc_next fc' = fc_next fc"
  shows "waiters_ok fc'"
proof -
  have new: "w \<notin> fst ` set (fc_log fc)" using view_unsettled [OF w] ok by (simp add: waiters_ok_def)
  have "(\<Union>l. set (view fc' l)) = (\<Union>l. set (view fc l)) - {w}"
  proof -
    have "w \<notin> set (view fc l)" if "l \<noteq> lane" for l using ok w that by (auto simp: waiters_ok_def)
    then show ?thesis by (auto simp: v split: if_splits)
  qed
  then have "(\<Union>l. set (view fc' l)) \<union> fc_settled fc' = {..<fc_next fc'}"
  proof -
    have "(\<Union>lane. set (view fc lane)) \<union> fc_settled fc = {..<fc_next fc}"
      using ok by (simp add: waiters_ok_def)
    moreover have "w \<in> (\<Union>lane. set (view fc lane))" using w by blast
    ultimately show ?thesis
      using \<open>(\<Union>l. set (view fc' l)) = (\<Union>l. set (view fc l)) - {w}\<close> by (auto simp: f)
  qed
  moreover have "\<forall>l. distinct (view fc' l)" using ok by (simp add: waiters_ok_def v)
  moreover have "\<forall>l l'. l \<noteq> l' \<longrightarrow> set (view fc' l) \<inter> set (view fc' l') = {}"
    using ok by (auto simp: waiters_ok_def v)
  moreover have "distinct (map fst (fc_log fc'))" "fst ` set (fc_log fc') = fc_settled fc'"
    using ok new by (auto simp: waiters_ok_def f)
  ultimately show ?thesis unfolding waiters_ok_def by blast
qed

text \<open>The queue of the lane afterwards: replaced, or removed when nobody is left.\<close>

lemma tables_settle:
  assumes ok: "tables_ok taken fc" and wok: "waiters_ok fc" and w: "w \<in> set (view fc lane)"
    and q: "map_of (fc_queues fc) lane = Some q"
    and q': "live (insert w (fc_settled fc)) q' = filter (\<lambda>x. x \<noteq> w) (view fc lane)"
      "lq_waiting q' = lq_waiting q - 1" "lq_head q' \<le> length (lq_waiters q')"
    and f: "fc_queues fc' = (if lq_waiting q' > 0 then AList.update lane q' (fc_queues fc)
        else AList.delete lane (fc_queues fc))"
      "fc_settled fc' = insert w (fc_settled fc)" "fc_queued_total fc' = fc_queued_total fc - 1"
      "distinct (fc_ready fc')" "set (fc_ready fc') \<union> taken' = (if lq_waiting q' > 0
        then keys_of (fc_queues fc) else keys_of (fc_queues fc) - {lane})"
      "fc_max_queued fc' = fc_max_queued fc" "fc_closed fc' = fc_closed fc"
      "fc_lane_limit fc' = fc_lane_limit fc" "fc_window_limit fc' = fc_window_limit fc"
      "fc_lane_queue_limit fc' = fc_lane_queue_limit fc"
  shows "tables_ok taken' fc' \<and> view fc' = (view fc)(lane := filter (\<lambda>x. x \<noteq> w) (view fc lane))"
proof
  have qok: "queue_ok (fc_settled fc) q" using ok q by (simp add: tables_ok_def)
  have len: "length (filter (\<lambda>x. x \<noteq> w) (view fc lane)) = lq_waiting q - 1"
  proof -
    have "distinct (view fc lane)" using wok by (simp add: waiters_ok_def)
    with w have "length (filter (\<lambda>x. x \<noteq> w) (view fc lane)) = length (view fc lane) - 1"
      using distinct_filter_length [of w "view fc lane"] by simp
    then show ?thesis using qok q by (simp add: queue_ok_def view_def)
  qed
  have lane_in: "lane \<in> keys_of (fc_queues fc)" using q by (simp add: keys_of_map_of)
  have dk: "distinct (map fst (fc_queues fc))" using ok by (simp add: tables_ok_def)
  have others: "queue_ok (fc_settled fc') p" if "map_of (fc_queues fc) l = Some p" "l \<noteq> lane" for l p
  proof -
    from ok that have "queue_ok (fc_settled fc) p" by (auto simp: tables_ok_def)
    with other_lanes [OF wok w that] show ?thesis by (auto simp: queue_ok_def f(2))
  qed
  show "view fc' = (view fc)(lane := filter (\<lambda>x. x \<noteq> w) (view fc lane))"
  proof
    fix l
    show "view fc' l = ((view fc)(lane := filter (\<lambda>x. x \<noteq> w) (view fc lane))) l"
      using other_lanes [OF wok w, of l] q'(1,2) len
      by (auto simp: view_def f(1,2) update_conv' delete_conv' split: option.splits)
  qed
  have "fc_queued_total fc' = asum lq_waiting (fc_queues fc')"
    using ok asum_update_Some [OF q, of lq_waiting q'] asum_delete [OF dk q, of lq_waiting] q'(2) qok
    by (auto simp: f tables_ok_def queue_ok_def)
  moreover have "queue_ok (fc_settled fc') p" if p: "map_of (fc_queues fc') l = Some p" for l p
  proof (cases "l = lane")
    case True
    with p q' len show ?thesis
      by (auto simp: f(1) update_conv' delete_conv' queue_ok_def f(2) split: if_splits)
  next
    case False
    with p have "map_of (fc_queues fc) l = Some p"
      by (simp add: f(1) update_conv' delete_conv' split: if_splits)
    with others False show ?thesis by blast
  qed
  ultimately show "tables_ok taken' fc'"
    using ok dk lane_in by (auto simp: tables_ok_def f distinct_update distinct_delete)
qed

subsection \<open>Granting and pumping\<close>

lemma fc_grant_spec:
  assumes cok: "credits_ok fc" and tok: "tables_ok {lane} fc" and wok: "waiters_ok fc"
    and lane: "map_of (fc_queues fc) lane \<noteq> None" "lane \<notin> set (fc_ready fc)"
  shows "credits_ok (fc_grant lane fc) \<and> tables_ok {} (fc_grant lane fc) \<and> waiters_ok (fc_grant lane fc) \<and>
    view fc lane \<noteq> [] \<and> view (fc_grant lane fc) = (view fc)(lane := tl (view fc lane)) \<and>
    fc_log (fc_grant lane fc) = fc_log fc @ [(hd (view fc lane), Granted)] \<and>
    fc_active (fc_grant lane fc) = (fc_active fc)(lane \<mapsto> mget (fc_active fc) lane + 1) \<and>
    fc_active_total (fc_grant lane fc) = fc_active_total fc + 1 \<and>
    fc_connection_limit (fc_grant lane fc) = fc_connection_limit fc \<and>
    fc_lane_limit (fc_grant lane fc) = fc_lane_limit fc \<and>
    fc_closed (fc_grant lane fc) = fc_closed fc"
proof -
  from lane obtain q where q: "map_of (fc_queues fc) lane = Some q" by auto
  from tok q have qok: "queue_ok (fc_settled fc) q" by (simp add: tables_ok_def)
  obtain r q1 where t: "fc_take_waiter (fc_settled fc) q = (r, q1)" by fastforce
  have "live (fc_settled fc) q \<noteq> []" using qok by (auto simp: queue_ok_def)
  then obtain w where r: "r = Some w"
    using t take_waiter_None by (cases r) (auto simp: fc_take_waiter_def live_def split: prod.splits)
  note tw = fc_take_waiter_Some [OF t [unfolded r]]
  define q2 where "q2 = q1\<lparr>lq_waiting := lq_waiting q1 - 1\<rparr>"
  define settled where "settled = insert w (fc_settled fc)"
  define q' where "q' = (if lq_waiting q2 > 0 then fc_compact settled q2 else q2)"
  have v: "view fc lane = w # live (fc_settled fc) q1" using q tw(2) by (simp add: view_def)
  have w: "w \<in> set (view fc lane)" by (simp add: v)
  have dv: "distinct (view fc lane)" using wok by (simp add: waiters_ok_def)
  have flt: "filter (\<lambda>x. x \<noteq> w) (view fc lane) = tl (view fc lane)"
    using dv v by (auto intro: filter_True)
  have l2: "live settled q2 = filter (\<lambda>x. x \<noteq> w) (view fc lane)"
    by (simp add: q2_def settled_def live_insert v)
  have q'p: "live settled q' = filter (\<lambda>x. x \<noteq> w) (view fc lane)" "lq_waiting q' = lq_waiting q - 1"
    "lq_head q' \<le> length (lq_waiters q')"
    using l2 tw(4-6) compact_fields [where settled = settled and q = q2] by (auto simp: q'_def q2_def)
  define g where "g = fc_grant lane fc"
  have fields: "fc_queues g = (if lq_waiting q' > 0 then AList.update lane q' (fc_queues fc)
      else AList.delete lane (fc_queues fc))"
    "fc_ready g = (if lq_waiting q' > 0 then set_add lane (fc_ready fc) else fc_ready fc)"
    "fc_settled g = insert w (fc_settled fc)" "fc_queued_total g = fc_queued_total fc - 1"
    "fc_log g = fc_log fc @ [(w, Granted)]" "fc_next g = fc_next fc"
    "fc_active g = (fc_active fc)(lane \<mapsto> mget (fc_active fc) lane + 1)"
    "fc_active_total g = fc_active_total fc + 1" "fc_max_queued g = fc_max_queued fc"
    "fc_closed g = fc_closed fc" "fc_lane_limit g = fc_lane_limit fc"
    "fc_window_limit g = fc_window_limit fc" "fc_lane_queue_limit g = fc_lane_queue_limit fc"
    "fc_connection_limit g = fc_connection_limit fc"
    using q t r compact_fields(1) [where settled = settled and q = q2]
    by (auto simp: g_def fc_grant_def fc_activate_def Let_def q'_def q2_def settled_def)
  have ready: "distinct (fc_ready g)" "set (fc_ready g) \<union> {} = (if lq_waiting q' > 0
      then keys_of (fc_queues fc) else keys_of (fc_queues fc) - {lane})"
    using tok lane(2) by (auto simp: tables_ok_def fields(2))
  from tables_settle [OF tok wok w q q'p [unfolded settled_def] fields(1,3,4) ready fields(9-13)]
  have tg: "tables_ok {} g" "view g = (view fc)(lane := filter (\<lambda>x. x \<noteq> w) (view fc lane))" by auto
  from waiters_settle [OF wok w tg(2) fields(3,5,6)] have "waiters_ok g" .
  moreover have "credits_ok g"
    using credits_activate [OF cok, of lane] by (simp add: credits_ok_def fields fc_activate_def)
  ultimately show ?thesis
    using tg fields v flt by (simp add: g_def [symmetric])
qed

lemma next_grantable_spec:
  "distinct ready \<Longrightarrow> (\<forall>lane \<in> set ready. \<exists>q. map_of queues lane = Some q \<and> lq_waiting q \<noteq> 0) \<Longrightarrow>
    attempts \<le> length ready \<Longrightarrow> next_grantable attempts queues active limit ready = (r, ready') \<Longrightarrow>
    (case r of
       None \<Rightarrow> set ready' = set ready \<and> distinct ready' \<and>
         (\<forall>lane \<in> set (take attempts ready). limit \<le> mget active lane)
     | Some lane \<Rightarrow> set ready = insert lane (set ready') \<and> distinct (lane # ready') \<and> mget active lane < limit)"
proof (induction attempts queues active limit ready rule: next_grantable.induct)
  case (3 attempts queues active limit lane ready)
  from "3.prems"(2) obtain q where q: "map_of queues lane = Some q" "lq_waiting q \<noteq> 0" by auto
  show ?case
  proof (cases "mget active lane < limit")
    case True
    with q "3.prems"(1,4) show ?thesis by auto
  next
    case False
    have sa: "set_add lane ready = ready @ [lane]" using "3.prems"(1) by (simp add: set_add_def)
    have "case r of
       None \<Rightarrow> set ready' = set (set_add lane ready) \<and> distinct ready' \<and>
         (\<forall>l \<in> set (take attempts (set_add lane ready)). limit \<le> mget active l)
     | Some l \<Rightarrow> set (set_add lane ready) = insert l (set ready') \<and> distinct (l # ready') \<and> mget active l < limit"
      by (rule "3.IH"(3) [OF q False]) (use "3.prems" q False sa in auto)
    with "3.prems"(3) False show ?thesis by (auto simp: sa split: option.splits)
  qed
qed auto

text \<open>What a pump grants: some first waiters of every lane, one credit each.\<close>

definition lane_grants :: "flow_control \<Rightarrow> flow_control \<Rightarrow> nat \<Rightarrow> bool" where
  "lane_grants fc fc' lane \<longleftrightarrow> (\<exists>k. view fc' lane = drop k (view fc lane) \<and> k \<le> length (view fc lane) \<and>
      mget (fc_active fc') lane = mget (fc_active fc) lane + k \<and>
      (\<forall>w \<in> set (take k (view fc lane)). (w, Granted) \<in> set (fc_log fc')))"

definition granted :: "flow_control \<Rightarrow> flow_control \<Rightarrow> bool" where
  "granted fc fc' \<longleftrightarrow> (\<forall>lane. lane_grants fc fc' lane) \<and>
    set (fc_log fc) \<subseteq> set (fc_log fc') \<and>
    fc_active_total fc' \<le> max (fc_active_total fc) (fc_connection_limit fc) \<and>
    (\<forall>lane. mget (fc_active fc') lane \<le> max (mget (fc_active fc) lane) (fc_lane_limit fc)) \<and>
    fc_connection_limit fc' = fc_connection_limit fc \<and> fc_lane_limit fc' = fc_lane_limit fc \<and>
    fc_closed fc' = fc_closed fc"

text \<open>No credit is free for anybody who waits.\<close>

definition drained :: "flow_control \<Rightarrow> bool" where
  "drained fc \<longleftrightarrow> fc_closed fc = None \<longrightarrow> fc_connection_limit fc \<le> fc_active_total fc \<or>
    (\<forall>lane. view fc lane \<noteq> [] \<longrightarrow> fc_lane_limit fc \<le> mget (fc_active fc) lane)"

lemma view_ready [simp]: "view (fc\<lparr>fc_ready := ready\<rparr>) = view fc"
  by (auto simp: view_def fun_eq_iff split: option.splits)

lemma view_cong: "fc_queues a = fc_queues b \<Longrightarrow> fc_settled a = fc_settled b \<Longrightarrow> view a = view b"
  by (simp add: view_def fun_eq_iff cong: option.case_cong)

lemma view_queue: "w \<in> set (view fc lane) \<Longrightarrow> \<exists>q. map_of (fc_queues fc) lane = Some q"
  by (cases "map_of (fc_queues fc) lane") (simp_all add: view_def)

lemma view_keys: "view fc lane \<noteq> [] \<Longrightarrow> lane \<in> keys_of (fc_queues fc)"
  by (auto simp: view_def keys_of_map_of split: option.splits)

lemma granted_refl: "granted fc fc"
  by (auto simp: granted_def lane_grants_def intro!: exI [of _ 0])

lemma lane_grants_trans:
  assumes "lane_grants a b lane" "lane_grants b c lane" "set (fc_log b) \<subseteq> set (fc_log c)"
  shows "lane_grants a c lane"
proof -
  from assms(1) obtain i where i: "view b lane = drop i (view a lane)" "i \<le> length (view a lane)"
    "mget (fc_active b) lane = mget (fc_active a) lane + i"
    "\<forall>w \<in> set (take i (view a lane)). (w, Granted) \<in> set (fc_log b)"
    unfolding lane_grants_def by blast
  from assms(2) obtain j where j: "view c lane = drop j (view b lane)" "j \<le> length (view b lane)"
    "mget (fc_active c) lane = mget (fc_active b) lane + j"
    "\<forall>w \<in> set (take j (view b lane)). (w, Granted) \<in> set (fc_log c)"
    unfolding lane_grants_def by blast
  have "set (take (i + j) (view a lane)) = set (take i (view a lane)) \<union> set (take j (view b lane))"
    by (simp add: take_add i(1))
  with i j assms(3) show ?thesis
    unfolding lane_grants_def by (intro exI [of _ "i + j"]) (auto simp: add.commute)
qed

lemma le_max_trans: "y \<le> max x l \<Longrightarrow> z \<le> max y l \<Longrightarrow> z \<le> max x (l :: nat)"
  by (simp add: max_def split: if_splits)

lemma granted_trans:
  assumes "granted a b" "granted b c"
  shows "granted a c"
proof -
  have "lane_grants a c lane" for lane
    using assms lane_grants_trans [of a b lane c] by (simp add: granted_def)
  moreover have "fc_active_total c \<le> max (fc_active_total a) (fc_connection_limit a)"
    by (rule le_max_trans [of "fc_active_total b"]) (use assms in \<open>simp_all add: granted_def\<close>)
  moreover have "mget (fc_active c) lane \<le> max (mget (fc_active a) lane) (fc_lane_limit a)" for lane
    by (rule le_max_trans [of "mget (fc_active b) lane"]) (use assms in \<open>simp_all add: granted_def\<close>)
  moreover have "set (fc_log a) \<subseteq> set (fc_log c)"
    by (rule subset_trans [of _ "set (fc_log b)"]) (use assms in \<open>simp_all add: granted_def\<close>)
  ultimately show ?thesis using assms by (simp add: granted_def)
qed

text \<open>One grant.\<close>

lemma granted_one:
  assumes "view fc lane \<noteq> []" "view fc' = (view fc)(lane := tl (view fc lane))"
    "fc_log fc' = fc_log fc @ [(hd (view fc lane), Granted)]"
    "fc_active fc' = (fc_active fc)(lane \<mapsto> mget (fc_active fc) lane + 1)"
    "fc_active_total fc' = fc_active_total fc + 1" "fc_connection_limit fc' = fc_connection_limit fc"
    "fc_lane_limit fc' = fc_lane_limit fc" "fc_closed fc' = fc_closed fc"
    "fc_active_total fc < fc_connection_limit fc" "mget (fc_active fc) lane < fc_lane_limit fc"
  shows "granted fc fc'"
proof -
  have "lane_grants fc fc' l" for l
  proof (cases "l = lane")
    case True
    with assms(1-4) show ?thesis
      by (cases "view fc lane") (auto simp: lane_grants_def intro!: exI [of _ 1])
  next
    case False
    with assms(2,4) show ?thesis by (auto simp: lane_grants_def intro!: exI [of _ 0])
  qed
  with assms show ?thesis by (auto simp: granted_def)
qed

lemma pump_spec:
  "fc_inv fc \<Longrightarrow> fc_inv (pump fc) \<and> drained (pump fc) \<and> granted fc (pump fc)"
proof (induction fc rule: pump.induct)
  case (1 fc)
  have tok: "tables_ok {} fc" using "1.prems" by (simp add: fc_inv_def)
  show ?case
  proof (cases "fc_closed fc = None \<and> fc_active_total fc < fc_connection_limit fc \<and> fc_ready fc \<noteq> []")
    case False
    then have "pump fc = fc" by (subst pump.simps) (rule if_not_P)
    moreover have "drained fc"
      using False tok by (auto simp: drained_def tables_ok_def dest: view_keys)
    ultimately show ?thesis using "1.prems" granted_refl by simp
  next
    case True
    obtain r ready where n: "next_grantable (length (fc_ready fc)) (fc_queues fc) (fc_active fc)
        (fc_lane_limit fc) (fc_ready fc) = (r, ready)" by fastforce
    have "\<forall>lane \<in> set (fc_ready fc). \<exists>q. map_of (fc_queues fc) lane = Some q \<and> lq_waiting q \<noteq> 0"
      using tok by (fastforce simp: tables_ok_def keys_of_map_of queue_ok_def)
    with next_grantable_spec [OF _ this _ n] tok
    have spec: "case r of
       None \<Rightarrow> set ready = set (fc_ready fc) \<and> distinct ready \<and>
         (\<forall>lane \<in> set (fc_ready fc). fc_lane_limit fc \<le> mget (fc_active fc) lane)
     | Some lane \<Rightarrow> set (fc_ready fc) = insert lane (set ready) \<and> distinct (lane # ready) \<and>
         mget (fc_active fc) lane < fc_lane_limit fc"
      by (simp add: tables_ok_def split: option.splits)
    show ?thesis
    proof (cases r)
      case None
      then have p: "pump fc = fc\<lparr>fc_ready := ready\<rparr>" using True n by (subst pump.simps) simp
      have "fc_inv (fc\<lparr>fc_ready := ready\<rparr>)"
        using "1.prems" spec None
        by (simp add: fc_inv_def credits_ok_def tables_ok_def waiters_ok_def)
      moreover have "drained (fc\<lparr>fc_ready := ready\<rparr>)"
        using spec None tok view_keys [of fc] by (auto simp: drained_def tables_ok_def)
      moreover have "granted fc (fc\<lparr>fc_ready := ready\<rparr>)"
        using granted_refl [of fc] by (simp add: granted_def lane_grants_def)
      ultimately show ?thesis by (simp add: p)
    next
      case (Some lane)
      define fc1 where "fc1 = fc\<lparr>fc_ready := ready\<rparr>"
      have p: "pump fc = pump (fc_grant lane fc1)" using True n Some by (subst pump.simps) (simp add: fc1_def)
      have view1: "view fc1 = view fc" by (simp add: fc1_def)
      have "lane \<in> keys_of (fc_queues fc)" using spec Some tok by (auto simp: tables_ok_def)
      then have has: "map_of (fc_queues fc1) lane \<noteq> None" by (simp add: fc1_def keys_of_map_of)
      have pre: "credits_ok fc1" "tables_ok {lane} fc1" "waiters_ok fc1" "lane \<notin> set (fc_ready fc1)"
        using "1.prems" spec Some
        by (auto simp: fc_inv_def fc1_def credits_ok_def tables_ok_def waiters_ok_def)
      note g = fc_grant_spec [OF pre(1-3) has pre(4), unfolded view1]
      then have inv: "fc_inv (fc_grant lane fc1)" by (simp add: fc_inv_def)
      from "1.IH" [OF True n [symmetric] Some] inv
      have ih: "fc_inv (pump (fc_grant lane fc1))" "drained (pump (fc_grant lane fc1))"
        "granted (fc_grant lane fc1) (pump (fc_grant lane fc1))" by (simp_all add: fc1_def)
      have "mget (fc_active fc) lane < fc_lane_limit fc" using spec Some by simp
      then have "granted fc (fc_grant lane fc1)"
        using g True by (intro granted_one) (simp_all add: fc1_def)
      from granted_trans [OF this ih(3)] have "granted fc (pump (fc_grant lane fc1))" .
      with ih p show ?thesis by simp
    qed
  qed
qed

subsection \<open>The other operations keep the invariant\<close>

lemma tables_no_queues:
  "tables_ok {} fc \<Longrightarrow> fc_queues fc = [] \<Longrightarrow> fc_ready fc = [] \<and> fc_queued_total fc = 0"
  by (simp add: tables_ok_def keys_of_def)

lemma waiters_ok_cong:
  "waiters_ok a \<Longrightarrow> view b = view a \<Longrightarrow> fc_settled b = fc_settled a \<Longrightarrow> fc_next b = fc_next a \<Longrightarrow>
    fc_log b = fc_log a \<Longrightarrow> waiters_ok b"
  by (simp add: waiters_ok_def)

lemma waiters_lt: "waiters_ok fc \<Longrightarrow> w \<in> set (view fc lane) \<Longrightarrow> w < fc_next fc"
  unfolding waiters_ok_def by (metis UN_I UNIV_I Un_iff lessThan_iff)

lemma inv_activate:
  assumes "fc_inv fc"
  shows "fc_inv (fc_activate lane fc)"
proof -
  have "view (fc_activate lane fc) = view fc" by (rule view_cong) (simp_all add: fc_activate_def)
  from waiters_ok_cong [OF _ this] assms have "waiters_ok (fc_activate lane fc)"
    by (simp add: fc_inv_def fc_activate_def)
  moreover have "tables_ok {} (fc_activate lane fc)"
    using assms by (simp add: fc_inv_def tables_ok_def fc_activate_def)
  ultimately show ?thesis using assms credits_activate by (simp add: fc_inv_def)
qed

lemma inv_try_acquire: "fc_inv fc \<Longrightarrow> fc_inv (snd (fc_try_acquire lane fc))"
  by (simp add: fc_try_acquire_def inv_activate)

lemma inv_same:
  assumes "fc_inv fc" "fc_queues g = fc_queues fc" "fc_ready g = fc_ready fc"
    "fc_settled g = fc_settled fc" "fc_queued_total g = fc_queued_total fc" "fc_log g = fc_log fc"
    "fc_next g = fc_next fc" "fc_max_queued g = fc_max_queued fc" "fc_closed g = fc_closed fc"
    "fc_lane_limit g = min (fc_window_limit g) (fc_lane_queue_limit g)" "credits_ok g"
  shows "fc_inv g"
proof -
  have "view g = view fc" using assms(2,4) by (rule view_cong)
  with assms have "waiters_ok g" by (intro waiters_ok_cong [of fc g]) (simp_all add: fc_inv_def)
  moreover have "tables_ok {} g"
    using assms(1) unfolding fc_inv_def tables_ok_def assms(2-10) by blast
  ultimately show ?thesis using assms(11) by (simp add: fc_inv_def)
qed

lemma inv_give_back:
  assumes "fc_inv fc" "mget (fc_active fc) lane \<noteq> 0"
  shows "fc_inv (fc_give_back lane fc)"
proof -
  have "credits_ok (fc_give_back lane fc)"
    using assms credits_release [of fc lane "mget (fc_active fc) lane"]
    by (simp add: fc_inv_def fc_give_back_def Let_def)
  moreover have "fc_lane_limit fc = min (fc_window_limit fc) (fc_lane_queue_limit fc)"
    using assms(1) by (simp add: fc_inv_def tables_ok_def)
  ultimately show ?thesis
    using assms(1) by (intro inv_same [OF assms(1)]) (simp_all add: fc_give_back_def Let_def)
qed

lemma inv_release: "fc_inv fc \<Longrightarrow> fc_inv (fc_release lane fc)"
  using pump_spec [of "fc_give_back lane fc"] inv_give_back [of fc lane]
  by (simp add: fc_release_def Let_def)

lemma inv_limits:
  assumes "fc_inv fc"
  shows "fc_inv (fc\<lparr>fc_connection_limit := x, fc_window_limit := y,
    fc_lane_limit := min y (fc_lane_queue_limit fc)\<rparr>)"
  using assms by (intro inv_same [OF assms]) (simp_all add: fc_inv_def credits_ok_def)

lemma inv_update_limits:
  "fc_inv fc \<Longrightarrow> fc_inv (fc_update_limits a b fc) \<and> drained (fc_update_limits a b fc)"
  using pump_spec [OF inv_limits] by (simp add: fc_update_limits_def Let_def)

lemma inv_lane_queue:
  assumes "fc_inv fc"
  shows "fc_inv (fc\<lparr>fc_lane_queue_limit := n, fc_lane_limit := min (fc_window_limit fc) n\<rparr>)"
  using assms by (intro inv_same [OF assms]) (simp_all add: fc_inv_def credits_ok_def)

lemma inv_update_lane_queue_limit:
  "fc_inv fc \<Longrightarrow>
    fc_inv (fc_update_lane_queue_limit n fc) \<and> drained (fc_update_lane_queue_limit n fc)"
  using pump_spec [OF inv_lane_queue] by (simp add: fc_update_lane_queue_limit_def)

lemma inv_timeout:
  assumes inv: "fc_inv fc" and w: "w \<in> set (view fc lane)"
  shows "fc_inv (fc_timeout w lane fc)"
    and "view (fc_timeout w lane fc) = (view fc)(lane := filter (\<lambda>x. x \<noteq> w) (view fc lane))"
    and "fc_log (fc_timeout w lane fc) = fc_log fc @ [(w, TimedOut)]"
proof -
  from view_queue [OF w] obtain q where q: "map_of (fc_queues fc) lane = Some q" by blast
  from inv have tok: "tables_ok {} fc" and wok: "waiters_ok fc" and cok: "credits_ok fc"
    by (simp_all add: fc_inv_def)
  from tok q have qok: "queue_ok (fc_settled fc) q" by (simp add: tables_ok_def)
  define q1 where "q1 = q\<lparr>lq_waiting := lq_waiting q - 1\<rparr>"
  define settled where "settled = insert w (fc_settled fc)"
  define q' where "q' = (if lq_waiting q1 > 0 then fc_compact settled q1 else q1)"
  have "live settled q1 = filter (\<lambda>x. x \<noteq> w) (view fc lane)"
    using q by (simp add: q1_def live_insert settled_def view_def)
  moreover have "lq_head q1 \<le> length (lq_waiters q1)" using qok by (simp add: q1_def queue_ok_def)
  ultimately have q'p: "live settled q' = filter (\<lambda>x. x \<noteq> w) (view fc lane)"
    "lq_waiting q' = lq_waiting q - 1" "lq_head q' \<le> length (lq_waiters q')"
    using compact_fields [where settled = settled and q = q1] by (simp_all add: q'_def) (simp add: q1_def)
  define g where "g = fc_timeout w lane fc"
  have fields: "fc_queues g = (if lq_waiting q' > 0 then AList.update lane q' (fc_queues fc)
      else AList.delete lane (fc_queues fc))"
    "fc_ready g = (if lq_waiting q' > 0 then fc_ready fc else removeAll lane (fc_ready fc))"
    "fc_settled g = insert w (fc_settled fc)" "fc_queued_total g = fc_queued_total fc - 1"
    "fc_log g = fc_log fc @ [(w, TimedOut)]" "fc_next g = fc_next fc" "fc_active g = fc_active fc"
    "fc_active_total g = fc_active_total fc" "fc_max_queued g = fc_max_queued fc"
    "fc_closed g = fc_closed fc" "fc_lane_limit g = fc_lane_limit fc"
    "fc_window_limit g = fc_window_limit fc" "fc_lane_queue_limit g = fc_lane_queue_limit fc"
    using q view_unsettled [OF w] compact_fields(1) [where settled = settled and q = q1]
    by (auto simp: g_def fc_timeout_def Let_def q'_def q1_def settled_def)
  have ready: "distinct (fc_ready g)" "set (fc_ready g) \<union> {} = (if lq_waiting q' > 0
      then keys_of (fc_queues fc) else keys_of (fc_queues fc) - {lane})"
    using tok by (simp_all add: tables_ok_def fields(2) distinct_removeAll)
  from tables_settle [OF tok wok w q q'p [unfolded settled_def] fields(1,3,4) ready fields(9-13)]
  have tg: "tables_ok {} g" "view g = (view fc)(lane := filter (\<lambda>x. x \<noteq> w) (view fc lane))" by auto
  from waiters_settle [OF wok w tg(2) fields(3,5,6)] have "waiters_ok g" .
  moreover have "credits_ok g" using cok by (simp add: credits_ok_def fields)
  ultimately show "fc_inv (fc_timeout w lane fc)" using tg(1) by (simp add: fc_inv_def g_def)
  show "view (fc_timeout w lane fc) = (view fc)(lane := filter (\<lambda>x. x \<noteq> w) (view fc lane))"
    using tg(2) by (simp add: g_def)
  show "fc_log (fc_timeout w lane fc) = fc_log fc @ [(w, TimedOut)]" using fields(5) by (simp add: g_def)
qed

lemma inv_wait:
  assumes inv: "fc_inv fc"
  shows "case fc_wait lane fc of
      (Inl e, fc') \<Rightarrow> fc' = fc
    | (Inr w, fc') \<Rightarrow> fc_inv fc' \<and> w = fc_next fc \<and> view fc' = (view fc)(lane := view fc lane @ [w])"
proof (cases "fc_closed fc = None \<and> fc_lane_queue_limit fc \<noteq> 0 \<and> fc_queued_total fc < fc_max_queued fc")
  case False
  then show ?thesis by (auto simp: fc_wait_def split: option.splits)
next
  case True
  from inv have tok: "tables_ok {} fc" and wok: "waiters_ok fc" and cok: "credits_ok fc"
    by (simp_all add: fc_inv_def)
  define w where "w = fc_next fc"
  have fresh: "w \<notin> fc_settled fc" using wok by (auto simp: waiters_ok_def w_def)
  define q' where "q' = (case map_of (fc_queues fc) lane of
      None \<Rightarrow> \<lparr>lq_head = 0, lq_waiting = 1, lq_waiters = [w]\<rparr>
    | Some q \<Rightarrow> q\<lparr>lq_waiting := lq_waiting q + 1, lq_waiters := lq_waiters q @ [w]\<rparr>)"
  define g where "g = snd (fc_wait lane fc)"
  have r: "fc_wait lane fc = (Inr w, g)" and
    fields: "fc_queues g = AList.update lane q' (fc_queues fc)"
    "fc_ready g = (if map_of (fc_queues fc) lane = None then set_add lane (fc_ready fc) else fc_ready fc)"
    "fc_settled g = fc_settled fc" "fc_queued_total g = fc_queued_total fc + 1"
    "fc_log g = fc_log fc" "fc_next g = w + 1" "fc_active g = fc_active fc"
    "fc_active_total g = fc_active_total fc" "fc_max_queued g = fc_max_queued fc"
    "fc_closed g = fc_closed fc" "fc_lane_limit g = fc_lane_limit fc"
    "fc_window_limit g = fc_window_limit fc" "fc_lane_queue_limit g = fc_lane_queue_limit fc"
    using True by (auto simp: g_def fc_wait_def Let_def w_def q'_def split: option.splits)
  have lq: "live (fc_settled fc) q' = view fc lane @ [w]" "lq_waiting q' = length (view fc lane) + 1"
    "lq_head q' \<le> length (lq_waiters q')"
  proof -
    have "live (fc_settled fc) q' = view fc lane @ [w] \<and> lq_waiting q' = length (view fc lane) + 1 \<and>
      lq_head q' \<le> length (lq_waiters q')"
    proof (cases "map_of (fc_queues fc) lane")
      case None
      then show ?thesis using fresh by (simp add: q'_def view_def live_def)
    next
      case (Some q)
      with tok have "queue_ok (fc_settled fc) q" by (simp add: tables_ok_def)
      then show ?thesis using fresh Some by (simp add: q'_def view_def queue_ok_def live_def)
    qed
    then show "live (fc_settled fc) q' = view fc lane @ [w]" "lq_waiting q' = length (view fc lane) + 1"
      "lq_head q' \<le> length (lq_waiters q')" by blast+
  qed
  have v: "view g = (view fc)(lane := view fc lane @ [w])"
    using lq(1) by (auto simp: view_def fields update_conv' fun_eq_iff split: option.splits)
  have "fc_queued_total g = asum lq_waiting (fc_queues g)"
  proof (cases "map_of (fc_queues fc) lane")
    case None
    then show ?thesis using tok asum_update_None [OF None, of lq_waiting q']
      by (simp add: fields tables_ok_def q'_def)
  next
    case (Some q)
    then show ?thesis using tok asum_update_Some [OF Some, of lq_waiting q']
      by (simp add: fields tables_ok_def q'_def)
  qed
  moreover have "queue_ok (fc_settled g) p" if p: "map_of (fc_queues g) l = Some p" for l p
  proof (cases "l = lane")
    case True
    with p lq show ?thesis by (simp add: fields update_conv' queue_ok_def)
  next
    case False
    with p tok show ?thesis by (simp add: fields update_conv' tables_ok_def)
  qed
  moreover have "distinct (fc_ready g)" "set (fc_ready g) \<union> {} = keys_of (fc_queues g)"
    using tok by (auto simp: fields tables_ok_def keys_of_map_of)
  ultimately have "tables_ok {} g"
    using tok True by (auto simp: tables_ok_def fields distinct_update)
  moreover have "waiters_ok g"
  proof -
    have old: "x < w" if "x \<in> set (view fc l)" for x l
      using waiters_lt [OF wok that] by (simp add: w_def)
    have "(\<Union>l. set (view g l)) = insert w (\<Union>l. set (view fc l))" by (auto simp: v split: if_splits)
    moreover have "insert w {..<w} = {..<w + 1}" by auto
    ultimately have "(\<Union>l. set (view g l)) \<union> fc_settled g = {..<fc_next g}"
      using wok by (simp add: waiters_ok_def fields w_def)
    moreover have "\<forall>l. distinct (view g l)" using wok old by (auto simp: waiters_ok_def v)
    moreover have "\<forall>l l'. l \<noteq> l' \<longrightarrow> set (view g l) \<inter> set (view g l') = {}"
    proof (intro allI impI)
      fix l l' :: nat assume ne: "l \<noteq> l'"
      have d: "set (view fc l) \<inter> set (view fc l') = {}" using wok ne by (simp add: waiters_ok_def)
      have "w \<notin> set (view fc l)" "w \<notin> set (view fc l')" using old by blast+
      with d ne show "set (view g l) \<inter> set (view g l') = {}" by (auto simp: v)
    qed
    ultimately show ?thesis using wok by (auto simp: waiters_ok_def fields)
  qed
  moreover have "credits_ok g" using cok by (simp add: credits_ok_def fields)
  ultimately show ?thesis using r v by (simp add: fc_inv_def w_def)
qed

lemma inv_cancel:
  assumes inv: "credits_ok fc" "waiters_ok fc" and tok: "tables_ok {} fc \<or> tables_ok {} (fc\<lparr>fc_closed := None\<rparr>)"
  shows "fc_inv (fc_cancel_queued e fc)"
proof -
  define ws where "ws = concat (map (\<lambda>(lane, q). live (fc_settled fc) q) (fc_queues fc))"
  define g where "g = fc_cancel_queued e fc"
  have g: "fc_queues g = []" "fc_ready g = []" "fc_queued_total g = 0" "fc_settled g = fc_settled fc \<union> set ws"
    "fc_log g = fc_log fc @ map (\<lambda>w. (w, Cancelled e)) ws" "fc_next g = fc_next fc"
    "fc_active g = fc_active fc" "fc_active_total g = fc_active_total fc"
    "fc_lane_limit g = fc_lane_limit fc" "fc_window_limit g = fc_window_limit fc"
    "fc_lane_queue_limit g = fc_lane_queue_limit fc"
    by (simp_all add: g_def fc_cancel_queued_def ws_def)
  have dk: "distinct (map fst (fc_queues fc))" using tok by (auto simp: tables_ok_def)
  have vq: "view fc lane = live (fc_settled fc) q" if "(lane, q) \<in> set (fc_queues fc)" for lane q
    using that dk by (simp add: view_def)
  have ws: "set ws = (\<Union>lane. set (view fc lane))"
  proof
    show "set ws \<subseteq> (\<Union>lane. set (view fc lane))"
    proof
      fix w assume "w \<in> set ws"
      then obtain l q where "(l, q) \<in> set (fc_queues fc)" "w \<in> set (live (fc_settled fc) q)"
        by (auto simp: ws_def)
      with vq have "w \<in> set (view fc l)" by simp
      then show "w \<in> (\<Union>lane. set (view fc lane))" by blast
    qed
    show "(\<Union>lane. set (view fc lane)) \<subseteq> set ws"
    proof
      fix w assume "w \<in> (\<Union>lane. set (view fc lane))"
      then obtain lane where w: "w \<in> set (view fc lane)" by blast
      from view_queue [OF w] obtain q where "map_of (fc_queues fc) lane = Some q" by blast
      from map_of_SomeD [OF this] vq [OF map_of_SomeD [OF this]] w show "w \<in> set ws"
        by (auto simp: ws_def)
    qed
  qed
  have vd: "distinct (view fc l)" for l using inv(2) by (simp add: waiters_ok_def)
  have vdis: "l \<noteq> l' \<Longrightarrow> set (view fc l) \<inter> set (view fc l') = {}" for l l'
    using inv(2) by (simp add: waiters_ok_def)
  have dws: "distinct ws"
    unfolding ws_def
  proof (rule distinct_concat_values [OF dk])
    fix l q assume "(l, q) \<in> set (fc_queues fc)"
    from vq [OF this] show "distinct (live (fc_settled fc) q)" using vd [of l] by simp
  next
    fix l q l' q' assume "(l, q) \<in> set (fc_queues fc)" "(l', q') \<in> set (fc_queues fc)" "l \<noteq> l'"
    with vq [of l q] vq [of l' q'] show "set (live (fc_settled fc) q) \<inter> set (live (fc_settled fc) q') = {}"
      using vdis [of l l'] by simp
  qed
  have un: "set ws \<inter> fc_settled fc = {}" using ws view_unsettled by auto
  have logs: "distinct (map fst (fc_log fc))" "fst ` set (fc_log fc) = fc_settled fc"
    "set ws \<union> fc_settled fc = {..<fc_next fc}" using inv(2) by (simp_all add: waiters_ok_def ws)
  have "view g lane = []" for lane by (simp add: view_def g)
  moreover have "map fst (fc_log g) = map fst (fc_log fc) @ ws" by (simp add: g comp_def)
  then have "distinct (map fst (fc_log g))" "set (map fst (fc_log g)) = fc_settled g"
    using logs dws un by (auto simp: g)
  moreover have "fc_settled g = {..<fc_next g}" using logs(3) by (simp add: g Un_commute)
  ultimately have "waiters_ok g" by (simp add: waiters_ok_def)
  moreover have "credits_ok g" using inv(1) by (simp add: credits_ok_def g)
  moreover have "tables_ok {} g" using tok by (auto simp: tables_ok_def g keys_of_def)
  ultimately show ?thesis by (simp add: fc_inv_def g_def)
qed

lemma inv_close: "fc_inv fc \<Longrightarrow> fc_inv (fc_close e fc)"
proof (cases "fc_closed fc = None")
  case True
  assume inv: "fc_inv fc"
  have "view (fc\<lparr>fc_closed := Some e\<rparr>) = view fc" by (rule view_cong) simp_all
  with inv True have "credits_ok (fc\<lparr>fc_closed := Some e\<rparr>)" "waiters_ok (fc\<lparr>fc_closed := Some e\<rparr>)"
    "tables_ok {} (fc\<lparr>fc_closed := Some e, fc_closed := None\<rparr>)"
    by (simp_all add: fc_inv_def credits_ok_def waiters_ok_def tables_ok_def)
  with True show ?thesis by (simp add: fc_close_def inv_cancel)
qed (simp add: fc_close_def)

lemma inv_cancel_queued: "fc_inv fc \<Longrightarrow> fc_inv (fc_cancel_queued e fc)"
  by (rule inv_cancel) (simp_all add: fc_inv_def)

section \<open>Histories\<close>

text \<open>What the connection does with its flow control, in any order; a timer fires for a waiter of
  its lane, or too late.\<close>

inductive fc_step :: "flow_control \<Rightarrow> flow_control \<Rightarrow> bool" where
  acquire: "fc_step fc (snd (fc_try_acquire lane fc))"
| wait: "fc_step fc (snd (fc_wait lane fc))"
| timeout: "w \<in> set (view fc lane) \<Longrightarrow> fc_step fc (fc_timeout w lane fc)"
| late: "w \<in> fc_settled fc \<Longrightarrow> fc_step fc (fc_timeout w lane fc)"
| release: "fc_step fc (fc_release lane fc)"
| limits: "fc_step fc (fc_update_limits connection lane_limit fc)"
| lane_queue: "fc_step fc (fc_update_lane_queue_limit n fc)"
| cancel: "fc_step fc (fc_cancel_queued e fc)"
| close: "fc_step fc (fc_close e fc)"

inductive_cases fc_stepE: "fc_step fc fc'"

lemma fc_step_inv: "fc_step fc fc' \<Longrightarrow> fc_inv fc \<Longrightarrow> fc_inv fc'"
proof (induction rule: fc_step.induct)
  case (wait fc lane)
  then show ?case using inv_wait [of fc lane] by (auto split: prod.splits sum.splits)
next
  case (late w fc lane)
  then show ?case by (simp add: fc_timeout_def)
qed (simp_all add: inv_try_acquire inv_timeout inv_release inv_update_limits
    inv_update_lane_queue_limit inv_cancel_queued inv_close)

lemma reachable_inv: "fc_step\<^sup>*\<^sup>* (new_flow_control n) fc \<Longrightarrow> fc_inv fc"
  by (induction rule: rtranclp_induct) (auto intro: new_flow_control_inv fc_step_inv)

text \<open>The credits an operation may take: it never raises a count above the limit in force after it
  (a limit lowered below the current count raises nothing), and a closed flow control grants
  none.\<close>

definition credits_within :: "flow_control \<Rightarrow> flow_control \<Rightarrow> bool" where
  "credits_within fc fc' \<longleftrightarrow>
    fc_active_total fc' \<le> max (fc_active_total fc) (fc_connection_limit fc') \<and>
    (\<forall>lane. mget (fc_active fc') lane \<le> max (mget (fc_active fc) lane) (fc_lane_limit fc')) \<and>
    (fc_closed fc \<noteq> None \<longrightarrow> fc_active_total fc' \<le> fc_active_total fc)"

lemma credits_same:
  "fc_active_total fc' = fc_active_total fc \<Longrightarrow> fc_active fc' = fc_active fc \<Longrightarrow> credits_within fc fc'"
  by (simp add: credits_within_def)

lemma credits_acquire: "credits_within fc (snd (fc_try_acquire lane fc))"
  by (auto simp: credits_within_def fc_try_acquire_def fc_activate_def mget_def)

lemma pump_closed: "fc_closed fc \<noteq> None \<Longrightarrow> pump fc = fc"
  by (subst pump.simps) (rule if_not_P, simp)

text \<open>The pump after an operation that raised no count.\<close>

lemma credits_pump:
  assumes "fc_inv mid" "fc_active_total mid \<le> fc_active_total fc"
    "\<And>lane. mget (fc_active mid) lane \<le> mget (fc_active fc) lane" "fc_closed mid = fc_closed fc"
  shows "credits_within fc (pump mid)"
proof -
  from pump_spec [OF assms(1)] have g: "granted mid (pump mid)" by simp
  have "mget (fc_active (pump mid)) lane \<le> max (mget (fc_active fc) lane) (fc_lane_limit (pump mid))" for lane
    using g assms(3) [of lane] unfolding granted_def by (metis max.mono order_refl order_trans)
  moreover have "fc_active_total (pump mid) \<le> max (fc_active_total fc) (fc_connection_limit (pump mid))"
    using g assms(2) unfolding granted_def by (metis max.mono order_refl order_trans)
  ultimately show ?thesis
    using pump_closed [of mid] assms(2,4) by (simp add: credits_within_def)
qed

lemma credits_release_within:
  assumes "fc_inv fc"
  shows "credits_within fc (fc_release lane fc)"
proof (cases "mget (fc_active fc) lane = 0")
  case True
  then show ?thesis by (simp add: fc_release_def credits_same)
next
  case False
  let ?mid = "fc_give_back lane fc"
  have le: "fc_active_total ?mid \<le> fc_active_total fc"
    "mget (fc_active ?mid) l \<le> mget (fc_active fc) l" "fc_closed ?mid = fc_closed fc" for l
    by (auto simp: fc_give_back_def Let_def mget_def split: option.splits)
  show ?thesis
  proof (cases "fc_closed fc = None")
    case True
    with False have "fc_release lane fc = pump ?mid" by (simp add: fc_release_def Let_def le(3))
    with credits_pump [OF inv_give_back [OF assms False] le] show ?thesis by simp
  next
    case closed: False
    with False have "fc_release lane fc = ?mid" by (auto simp: fc_release_def Let_def le(3))
    with le show ?thesis by (simp add: credits_within_def le_max_iff_disj)
  qed
qed

lemma credits_of_limits: "fc_inv fc \<Longrightarrow> credits_within fc (fc_update_limits a b fc)"
  using inv_limits [of fc] by (auto simp: fc_update_limits_def Let_def intro!: credits_pump)

lemma credits_of_lane_queue: "fc_inv fc \<Longrightarrow> credits_within fc (fc_update_lane_queue_limit n fc)"
  using inv_lane_queue [of fc] by (auto simp: fc_update_lane_queue_limit_def intro!: credits_pump)

lemma fc_step_credits: "fc_step fc fc' \<Longrightarrow> fc_inv fc \<Longrightarrow> credits_within fc fc'"
proof (induction rule: fc_step.induct)
  case (wait fc lane)
  show ?case
    by (rule credits_same) (simp_all add: fc_wait_def Let_def split: option.split)
next
  case (timeout w fc lane)
  show ?case
    by (rule credits_same) (simp_all add: fc_timeout_def Let_def split: option.split)
next
  case (late w fc lane)
  then show ?case by (simp add: fc_timeout_def credits_same)
qed (auto simp: credits_acquire credits_release_within credits_of_limits credits_of_lane_queue
    fc_cancel_queued_def fc_close_def Let_def intro!: credits_same)

section \<open>Properties\<close>

text \<open>C22. In every state the flow control can reach, the connection's credit count is the sum of the
  lanes' counts, the number of queued requests is that of the waiters and within its limit, a closed
  flow control has no queue, and no request is lost or answered twice: each waiter ever made is either
  still waiting, once, on one lane, or has exactly one outcome. And whatever happens next (an
  acquisition, a wait, a timer, a release, new limits, a cancellation, a close), no credit is taken
  beyond a limit: the counts of the connection and of every lane stay within the limits then in force
  unless they were already above, in which case they do not grow; and once closed, no credit is
  granted.\<close>

theorem flow_control_accounts:
  assumes "fc_step\<^sup>*\<^sup>* (new_flow_control n) fc"
  shows "fc_active_total fc = msum (fc_active fc) \<and>
    fc_queued_total fc = asum (\<lambda>q. length (live (fc_settled fc) q)) (fc_queues fc) \<and>
    fc_queued_total fc \<le> fc_max_queued fc \<and>
    (fc_closed fc \<noteq> None \<longrightarrow> fc_queues fc = []) \<and>
    distinct (map fst (fc_log fc)) \<and>
    (\<forall>w < fc_next fc. (w \<in> fst ` set (fc_log fc)) \<noteq> (\<exists>lane. w \<in> set (view fc lane))) \<and>
    (\<forall>lane. distinct (view fc lane)) \<and>
    (\<forall>lane lane'. lane \<noteq> lane' \<longrightarrow> set (view fc lane) \<inter> set (view fc lane') = {}) \<and>
    (\<forall>fc'. fc_step fc fc' \<longrightarrow>
      fc_active_total fc' \<le> max (fc_active_total fc) (fc_connection_limit fc') \<and>
      (\<forall>lane. mget (fc_active fc') lane \<le> max (mget (fc_active fc) lane) (fc_lane_limit fc')) \<and>
      (fc_closed fc \<noteq> None \<longrightarrow> fc_active_total fc' \<le> fc_active_total fc))"
proof -
  have step: "credits_within fc fc'" if "fc_step fc fc'" for fc'
    using that reachable_inv [OF assms] by (rule fc_step_credits)
  from reachable_inv [OF assms] have inv: "credits_ok fc" "tables_ok {} fc" "waiters_ok fc"
    by (simp_all add: fc_inv_def)
  have "asum lq_waiting (fc_queues fc) = asum (\<lambda>q. length (live (fc_settled fc) q)) (fc_queues fc)"
    using inv(2) by (intro asum_cong) (auto simp: tables_ok_def queue_ok_def)
  moreover have "(w \<in> fst ` set (fc_log fc)) \<noteq> (\<exists>lane. w \<in> set (view fc lane))" if "w < fc_next fc" for w
  proof -
    have logged: "fst ` set (fc_log fc) = fc_settled fc"
      and all: "(\<Union>lane. set (view fc lane)) \<union> fc_settled fc = {..<fc_next fc}"
      using inv(3) by (simp_all add: waiters_ok_def)
    from that all have "w \<in> (\<Union>lane. set (view fc lane)) \<union> fc_settled fc" by simp
    then show ?thesis using view_unsettled [of w fc] logged by blast
  qed
  ultimately show ?thesis
    using inv step by (simp add: credits_ok_def tables_ok_def waiters_ok_def credits_within_def)
qed

theorem flow_control_accounts_witness:
  "fc_active_total (snd (fc_try_acquire 1 (new_flow_control 5))) =
    msum (fc_active (snd (fc_try_acquire 1 (new_flow_control 5)))) \<and>
   fc_active_total (snd (fc_try_acquire 1 (new_flow_control 5))) = 1"
proof -
  have "fc_step\<^sup>*\<^sup>* (new_flow_control 5) (snd (fc_try_acquire 1 (new_flow_control 5)))"
    by (rule r_into_rtranclp) (rule fc_step.acquire)
  from flow_control_accounts [OF this] show ?thesis
    by (simp add: fc_try_acquire_def new_flow_control_def fc_activate_def)
qed

text \<open>C5. Giving back a credit is work-conserving, fair and safe: afterwards no request waits for a
  credit that is free; every lane has lost a prefix of its queue, first come first served, each of
  those requests granted exactly one credit of its lane; and neither the connection's nor a lane's
  count has been raised above its limit.\<close>

theorem release_grants_in_order:
  assumes "fc_inv fc" "fc_closed fc = None" "0 < mget (fc_active fc) lane"
  shows "drained (fc_release lane fc) \<and> granted (fc_give_back lane fc) (fc_release lane fc) \<and>
    fc_inv (fc_release lane fc)"
  using assms pump_spec [of "fc_give_back lane fc"] inv_give_back [of fc lane]
  by (simp add: fc_release_def Let_def)

theorem release_grants_in_order_witness:
  "drained (fc_release 1 (snd (fc_try_acquire 1 (new_flow_control 5)))) \<and>
    granted (fc_give_back 1 (snd (fc_try_acquire 1 (new_flow_control 5))))
      (fc_release 1 (snd (fc_try_acquire 1 (new_flow_control 5)))) \<and>
    fc_inv (fc_release 1 (snd (fc_try_acquire 1 (new_flow_control 5))))"
  by (rule release_grants_in_order [OF inv_try_acquire [OF new_flow_control_inv]])
    (simp_all add: fc_try_acquire_def new_flow_control_def fc_activate_def)

end
