(* ===== verification/CommandCatalog.thy ===== *)
theory CommandCatalog
  imports JsValue
begin

text \<open>
  The tables of the program: the command classifications that routing, batching and connection
  policy share (command-metadata.ts, command-metadata-flow.ts and the tables kept beside their users
  in http-command-policy.ts, command-grammar.ts, auto-batch-ordering.ts and errors.ts), the opcodes
  and the field numbers of the wire protocol (protocol-constants.ts). A \<open>Set\<close> of command names is
  the list of its elements as written in the source; \<open>has\<close> is its membership test for the strings of
  the program. The names are the source's.
\<close>

section \<open>Sets of names\<close>

type_synonym catalog = "string list"

definition has :: "catalog \<Rightarrow> jsstr \<Rightarrow> bool" where
  "has names s \<longleftrightarrow> list_ex (\<lambda>n. ascii n = s) names"

lemma unat_of_char: "unat (of_char c :: 16 word) = of_char c"
proof -
  have "(of_char c :: nat) < 65536" using nat_of_char_less_256 [of c] by linarith
  then show ?thesis using unat_of_nat [of "of_char c", where ?'a = 16] by (simp add: of_nat_of_char)
qed

lemma of_char_16_eq: "(of_char c :: 16 word) = of_char d \<longleftrightarrow> c = d"
proof
  assume "(of_char c :: 16 word) = of_char d"
  then have "(of_char c :: nat) = of_char d" using unat_of_char [of c] unat_of_char [of d] by metis
  then show "c = d" by (rule of_char_eqI)
qed simp

lemma ascii_eq [simp]: "ascii s = ascii t \<longleftrightarrow> s = t"
proof -
  have "inj (of_char :: char \<Rightarrow> 16 word)" by (rule injI) (simp add: of_char_16_eq)
  then show ?thesis by (simp add: ascii_def inj_map_eq_map)
qed

lemma has_ascii [simp]: "has names (ascii s) \<longleftrightarrow> s \<in> set names"
  by (auto simp: has_def list_ex_iff)

lemma has_iff: "has names s \<longleftrightarrow> (\<exists>n \<in> set names. s = ascii n)"
  by (auto simp: has_def list_ex_iff)

lemma has_append [simp]: "has (xs @ ys) s \<longleftrightarrow> has xs s \<or> has ys s"
  by (auto simp: has_def)

lemma has_Nil [simp]: "\<not> has [] s"
  by (simp add: has_def)

text \<open>The names of the tables are unchanged by the letter case conversions the code applies.\<close>

lemma to_lower_ascii:
  "list_all (\<lambda>c. \<not> (0x41 \<le> (of_char c :: nat) \<and> (of_char c :: nat) \<le> 0x5A)) s \<Longrightarrow> to_lower (ascii s) = ascii s"
proof (induction s)
  case (Cons c s)
  have ne: "(of_char c :: nat) \<noteq> 304" "(of_char c :: nat) \<noteq> 8490" using nat_of_char_less_256 [of c] by linarith+
  have "lower_unit (of_char c) = [of_char c]"
    using Cons.prems unat_of_char [of c] ne by (auto simp: lower_unit_def word_le_nat_alt word_unat_eq_iff)
  with Cons show ?case by (simp add: to_lower_def ascii_def)
qed (simp add: to_lower_def ascii_def)

lemma to_upper_ascii: "list_all (\<lambda>c. (of_char c :: nat) < 0x61) s \<Longrightarrow> to_upper (ascii s) = ascii s"
proof (induction s)
  case (Cons c s)
  have "upper_unit (of_char c) = [of_char c]"
    using Cons.prems unat_of_char [of c] by (auto simp: upper_unit_def word_le_nat_alt word_unat_eq_iff)
  with Cons show ?case by (simp add: to_upper_def ascii_def)
qed (simp add: to_upper_def ascii_def)

definition upper_names :: "catalog \<Rightarrow> bool" where
  "upper_names names \<longleftrightarrow> list_all (list_all (\<lambda>c. (of_char c :: nat) < 0x61)) names"

lemma upper_names_has: "upper_names names \<Longrightarrow> has names s \<Longrightarrow> to_upper s = s"
  by (auto simp: upper_names_def has_iff list_all_iff intro!: to_upper_ascii)

text \<open>Relations between two catalogs, decided on the names as written.\<close>

definition within :: "catalog \<Rightarrow> catalog \<Rightarrow> bool" where
  "within xs ys \<longleftrightarrow> list_all (\<lambda>x. x \<in> set ys) xs"

definition apart :: "catalog \<Rightarrow> catalog \<Rightarrow> bool" where
  "apart xs ys \<longleftrightarrow> list_all (\<lambda>x. \<not> x \<in> set ys) xs"

lemma within_has: "within xs ys \<Longrightarrow> has xs s \<Longrightarrow> has ys s"
  by (auto simp: within_def has_iff list_all_iff)

lemma apart_has: "apart xs ys \<Longrightarrow> has xs s \<Longrightarrow> \<not> has ys s"
  by (auto simp: apart_def has_iff list_all_iff)

section \<open>The tables\<close>

subsection \<open>command-metadata.ts\<close>

definition safeAutoBatchCommands :: catalog where
  "safeAutoBatchCommands = [
    ''DEL'', ''EXISTS'', ''GET'', ''HGET'', ''HGETALL'', ''HMGET'', ''HSET'', ''LPOP'',
    ''LPUSH'', ''LRANGE'', ''MGET'', ''MSET'', ''RPOP'', ''RPUSH'', ''SADD'', ''SISMEMBER'',
    ''SMEMBERS'', ''SREM'', ''SET'', ''ZADD'', ''ZRANGE'', ''ZREM'', ''ZSCORE'',
    ''FLOW.CANCEL'', ''FLOW.CANCEL_MANY'', ''FLOW.COMPLETE'', ''FLOW.COMPLETE_MANY'',
    ''FLOW.CREATE'', ''FLOW.CREATE_MANY'', ''FLOW.EXTEND_LEASE'', ''FLOW.FAIL'',
    ''FLOW.FAIL_MANY'', ''FLOW.GET'', ''FLOW.HISTORY'', ''FLOW.RETRY'', ''FLOW.RETRY_MANY'',
    ''FLOW.SIGNAL'', ''FLOW.START_AND_CLAIM'', ''FLOW.STEP_CONTINUE'', ''FLOW.TRANSITION'',
    ''FLOW.TRANSITION_MANY'', ''FLOW.RUN_STEPS_MANY'', ''FLOW.VALUE.MGET'', ''FLOW.VALUE.PUT'']"

definition neverAutoBatchCommandPrefixes :: catalog where
  "neverAutoBatchCommandPrefixes = [
    ''AUTH'', ''BACKPRESSURE'', ''BLMOVE'', ''BLMPOP'', ''BLPOP'', ''BRPOP'', ''BRPOPLPUSH'',
    ''BZMPOP'', ''BZPOPMAX'', ''BZPOPMIN'', ''CLIENT'', ''DISCARD'', ''EVENT'', ''EXEC'',
    ''GOAWAY'', ''HELLO'', ''MONITOR'', ''MULTI'', ''OPTIONS'', ''PING'', ''PIPELINE'',
    ''PSUBSCRIBE'', ''PUNSUBSCRIBE'', ''QUIT'', ''READONLY'', ''READWRITE'', ''RESET'',
    ''ROUTE'', ''ROUTE_BATCH'', ''SELECT'', ''SHARDS'', ''SSUBSCRIBE'', ''STARTUP'',
    ''SUBSCRIBE'', ''SUBSCRIBE_EVENTS'', ''SUNSUBSCRIBE'', ''UNSUBSCRIBE'',
    ''UNSUBSCRIBE_EVENTS'', ''UNWATCH'', ''WAIT'', ''WAITAOF'', ''WATCH'', ''WINDOW_UPDATE'',
    ''XREAD'', ''XREADGROUP'']"

definition neverAutoBatchCommands :: catalog where
  "neverAutoBatchCommands = [
    ''FLOW.CLAIM_DUE'', ''FLOW.RECLAIM'', ''FLOW.SCHEDULE.FIRE_DUE'']"

definition flowIdReadAutoBatchCommands :: catalog where
  "flowIdReadAutoBatchCommands = [
    ''FLOW.GET'', ''FLOW.HISTORY'']"

definition flowIdWriteAutoBatchCommands :: catalog where
  "flowIdWriteAutoBatchCommands = [
    ''FLOW.CANCEL'', ''FLOW.COMPLETE'', ''FLOW.CREATE'', ''FLOW.EXTEND_LEASE'', ''FLOW.FAIL'',
    ''FLOW.RETRY'', ''FLOW.SIGNAL'', ''FLOW.START_AND_CLAIM'', ''FLOW.STEP_CONTINUE'',
    ''FLOW.TRANSITION'']"

definition flowManyWriteAutoBatchCommands :: catalog where
  "flowManyWriteAutoBatchCommands = [
    ''FLOW.CANCEL_MANY'', ''FLOW.COMPLETE_MANY'', ''FLOW.CREATE_MANY'', ''FLOW.FAIL_MANY'',
    ''FLOW.RETRY_MANY'', ''FLOW.RUN_STEPS_MANY'', ''FLOW.TRANSITION_MANY'']"

definition readOnlyAutoBatchCommands :: catalog where
  "readOnlyAutoBatchCommands = [
    ''EXISTS'', ''GET'', ''HGET'', ''HGETALL'', ''HMGET'', ''LRANGE'', ''MGET'', ''SISMEMBER'',
    ''SMEMBERS'', ''ZRANGE'', ''ZSCORE'']"

definition connectionPinnedCommands :: catalog where
  "connectionPinnedCommands = [
    ''DISCARD'', ''EXEC'', ''MONITOR'', ''MULTI'', ''PSUBSCRIBE'', ''PUNSUBSCRIBE'',
    ''SSUBSCRIBE'', ''SUBSCRIBE'', ''SUNSUBSCRIBE'', ''UNSUBSCRIBE'', ''UNWATCH'', ''WATCH'']"

definition connectionStateMutationCommands :: catalog where
  "connectionStateMutationCommands = [
    ''AUTH'', ''CLIENT.SETNAME'', ''HELLO'', ''QUIT'', ''RESET'', ''SANDBOX'', ''STARTUP'',
    ''SUBSCRIBE_EVENTS'', ''UNSUBSCRIBE_EVENTS'', ''WINDOW_UPDATE'']"

definition connectionBlockingCommands :: catalog where
  "connectionBlockingCommands = [
    ''BLMOVE'', ''BLMPOP'', ''BLPOP'', ''BRPOP'', ''BRPOPLPUSH'', ''BZMPOP'', ''BZPOPMAX'',
    ''BZPOPMIN'', ''XREAD'', ''XREADGROUP'']"

definition decomposableCommandNames :: catalog where
  "decomposableCommandNames = [
    ''DEL'', ''EXISTS'', ''FLOW.VALUE.MGET'', ''MGET'', ''UNLINK'']"

definition firstKeyCommands :: catalog where
  "firstKeyCommands = [
    ''APPEND'', ''BF.ADD'', ''BF.CARD'', ''BF.EXISTS'', ''BF.INFO'', ''BF.INSERT'', ''BF.MADD'',
    ''BF.MEXISTS'', ''BF.RESERVE'', ''BITCOUNT'', ''BITFIELD'', ''BITFIELD_RO'', ''BITPOS'',
    ''CAS'', ''CF.ADD'', ''CF.ADDNX'', ''CF.COUNT'', ''CF.DEL'', ''CF.EXISTS'', ''CF.INFO'',
    ''CF.INSERT'', ''CF.INSERTNX'', ''CF.MEXISTS'', ''CF.RESERVE'', ''CMS.INCRBY'',
    ''CMS.INFO'', ''CMS.INITBYDIM'', ''CMS.INITBYPROB'', ''CMS.QUERY'', ''DECR'', ''DECRBY'',
    ''EXPIRE'', ''EXPIREAT'', ''EXPIRETIME'', ''EXTEND'', ''FERRICSTORE.KEY_INFO'',
    ''FETCH_OR_COMPUTE'', ''FETCH_OR_COMPUTE_ERROR'', ''FETCH_OR_COMPUTE_RESULT'', ''GEOADD'',
    ''GEODIST'', ''GEOHASH'', ''GEOPOS'', ''GEOSEARCH'', ''GET'', ''GETBIT'', ''GETDEL'',
    ''GETEX'', ''GETRANGE'', ''GETSET'', ''HDEL'', ''HEXISTS'', ''HEXPIRE'', ''HEXPIREAT'',
    ''HEXPIRETIME'', ''HGET'', ''HGETALL'', ''HGETDEL'', ''HGETEX'', ''HINCRBY'',
    ''HINCRBYFLOAT'', ''HKEYS'', ''HLEN'', ''HMGET'', ''HMSET'', ''HPERSIST'', ''HPEXPIRE'',
    ''HPEXPIREAT'', ''HPEXPIRETIME'', ''HPTTL'', ''HRANDFIELD'', ''HSCAN'', ''HSET'',
    ''HSETEX'', ''HSETNX'', ''HSTRLEN'', ''HTTL'', ''HVALS'', ''INCR'', ''INCRBY'',
    ''INCRBYFLOAT'', ''KEY_INFO'', ''LINDEX'', ''LINSERT'', ''LLEN'', ''LOCK'', ''LPOP'',
    ''LPOS'', ''LPUSH'', ''LPUSHX'', ''LRANGE'', ''LREM'', ''LSET'', ''LTRIM'', ''PERSIST'',
    ''PEXPIRE'', ''PEXPIREAT'', ''PEXPIRETIME'', ''PFADD'', ''PSETEX'', ''PTTL'',
    ''RATELIMIT.ADD'', ''RPOP'', ''RPUSH'', ''RPUSHX'', ''SADD'', ''SCARD'', ''SET'',
    ''SETBIT'', ''SETEX'', ''SETNX'', ''SETRANGE'', ''SISMEMBER'', ''SMEMBERS'', ''SMISMEMBER'',
    ''SPOP'', ''SRANDMEMBER'', ''SREM'', ''SSCAN'', ''STRLEN'', ''TDIGEST.ADD'',
    ''TDIGEST.BYRANK'', ''TDIGEST.BYREVRANK'', ''TDIGEST.CDF'', ''TDIGEST.CREATE'',
    ''TDIGEST.INFO'', ''TDIGEST.MAX'', ''TDIGEST.MIN'', ''TDIGEST.QUANTILE'', ''TDIGEST.RANK'',
    ''TDIGEST.RESET'', ''TDIGEST.REVRANK'', ''TDIGEST.TRIMMED_MEAN'', ''TOPK.ADD'',
    ''TOPK.COUNT'', ''TOPK.INCRBY'', ''TOPK.INFO'', ''TOPK.LIST'', ''TOPK.QUERY'',
    ''TOPK.RESERVE'', ''TTL'', ''TYPE'', ''UNLOCK'', ''XACK'', ''XADD'', ''XAUTOCLAIM'',
    ''XCLAIM'', ''XDEL'', ''XLEN'', ''XPENDING'', ''XRANGE'', ''XREVRANGE'', ''XSETID'',
    ''XTRIM'', ''ZADD'', ''ZCARD'', ''ZCOUNT'', ''ZINCRBY'', ''ZLEXCOUNT'', ''ZMSCORE'',
    ''ZPOPMAX'', ''ZPOPMIN'', ''ZRANDMEMBER'', ''ZRANGE'', ''ZRANGEBYLEX'', ''ZRANGEBYSCORE'',
    ''ZRANK'', ''ZREM'', ''ZREMRANGEBYLEX'', ''ZREMRANGEBYRANK'', ''ZREMRANGEBYSCORE'',
    ''ZREVRANGE'', ''ZREVRANGEBYLEX'', ''ZREVRANGEBYSCORE'', ''ZREVRANK'', ''ZSCAN'', ''ZSCORE'']"

definition secondKeyCommands :: catalog where
  "secondKeyCommands = [
    ''MEMORY'', ''OBJECT'', ''XGROUP'', ''XINFO'']"

definition twoKeyCommands :: catalog where
  "twoKeyCommands = [
    ''BLMOVE'', ''COPY'', ''GEOSEARCHSTORE'', ''LCS'', ''LMOVE'', ''RENAME'', ''RENAMENX'',
    ''RPOPLPUSH'', ''SMOVE'', ''ZRANGESTORE'']"

definition trailingArgumentMultiKeyCommands :: catalog where
  "trailingArgumentMultiKeyCommands = [
    ''BLPOP'', ''BRPOP'', ''BZPOPMAX'', ''BZPOPMIN'']"

definition allArgumentMultiKeyCommands :: catalog where
  "allArgumentMultiKeyCommands = [
    ''PFCOUNT'', ''PFMERGE'', ''SDIFF'', ''SDIFFSTORE'', ''SINTER'', ''SINTERSTORE'',
    ''SUNION'', ''SUNIONSTORE'', ''TOUCH'']"

definition typeScopedFlowCommands :: catalog where
  "typeScopedFlowCommands = [
    ''FLOW.APPROVAL.LIST'', ''FLOW.ATTRIBUTE_VALUES'', ''FLOW.ATTRIBUTES'',
    ''FLOW.BUDGET.LIST'', ''FLOW.GOVERNANCE.OVERVIEW'', ''FLOW.INFO'', ''FLOW.LIMIT.LIST'',
    ''FLOW.POLICY.GET'', ''FLOW.POLICY.SET'', ''FLOW.RETENTION_CLEANUP'',
    ''FLOW.SCHEDULE.FIRE_DUE'', ''FLOW.SCHEDULE.LIST'', ''FLOW.STATS'']"

definition flowApprovalIdCommands :: catalog where
  "flowApprovalIdCommands = [
    ''FLOW.APPROVAL.APPROVE'', ''FLOW.APPROVAL.GET'', ''FLOW.APPROVAL.REJECT'',
    ''FLOW.APPROVAL.REQUEST'']"

definition flowGovernanceScopeCommands :: catalog where
  "flowGovernanceScopeCommands = [
    ''FLOW.BUDGET.COMMIT'', ''FLOW.BUDGET.GET'', ''FLOW.BUDGET.RELEASE'',
    ''FLOW.BUDGET.RESERVE'', ''FLOW.CIRCUIT.CLOSE'', ''FLOW.CIRCUIT.GET'',
    ''FLOW.CIRCUIT.OPEN'', ''FLOW.LIMIT.GET'', ''FLOW.LIMIT.LEASE'', ''FLOW.LIMIT.RELEASE'',
    ''FLOW.LIMIT.SPEND'']"

subsection \<open>command-metadata-flow.ts\<close>

definition flowStateIdCommands :: catalog where
  "flowStateIdCommands = [
    ''FLOW.CANCEL'', ''FLOW.COMPLETE'', ''FLOW.CREATE'', ''FLOW.EFFECT.COMPENSATE'',
    ''FLOW.EFFECT.CONFIRM'', ''FLOW.EFFECT.FAIL'', ''FLOW.EFFECT.GET'', ''FLOW.EFFECT.RESERVE'',
    ''FLOW.EXTEND_LEASE'', ''FLOW.FAIL'', ''FLOW.GET'', ''FLOW.GOVERNANCE.LEDGER'',
    ''FLOW.HISTORY'', ''FLOW.RETRY'', ''FLOW.REWIND'', ''FLOW.SIGNAL'', ''FLOW.SPAWN_CHILDREN'',
    ''FLOW.START_AND_CLAIM'', ''FLOW.STEP_CONTINUE'', ''FLOW.TRANSITION'']"

definition flowScheduleCommands :: catalog where
  "flowScheduleCommands = [
    ''FLOW.SCHEDULE.CREATE'', ''FLOW.SCHEDULE.DELETE'', ''FLOW.SCHEDULE.FIRE'',
    ''FLOW.SCHEDULE.FIRE_DUE'', ''FLOW.SCHEDULE.GET'', ''FLOW.SCHEDULE.LIST'',
    ''FLOW.SCHEDULE.PAUSE'', ''FLOW.SCHEDULE.RESUME'']"

subsection \<open>http-command-policy.ts\<close>

definition nativeOnlyCommands :: catalog where
  "nativeOnlyCommands = [
    ''AUTH'', ''BACKPRESSURE'', ''CLIENT'', ''CLIENT.INFO'', ''CLIENT.SETNAME'',
    ''COMMAND_EXEC'', ''EVENT'', ''GOAWAY'', ''HELLO'', ''OPTIONS'', ''PIPELINE'', ''QUIT'',
    ''ROUTE'', ''ROUTE_BATCH'', ''SHARDS'', ''STARTUP'', ''SUBSCRIBE_EVENTS'',
    ''UNSUBSCRIBE_EVENTS'', ''WINDOW_UPDATE'']"

definition sessionOnlyCommands :: catalog where
  "sessionOnlyCommands = [
    ''ASKING'', ''AUTH'', ''CLIENT'', ''DISCARD'', ''EXEC'', ''FETCH_OR_COMPUTE'',
    ''FETCH_OR_COMPUTE_ERROR'', ''FETCH_OR_COMPUTE_RESULT'', ''HELLO'', ''MONITOR'', ''MULTI'',
    ''PSUBSCRIBE'', ''PSYNC'', ''PUNSUBSCRIBE'', ''QUIT'', ''READONLY'', ''READWRITE'',
    ''REPLCONF'', ''RESET'', ''SANDBOX'', ''SELECT'', ''SSUBSCRIBE'', ''SUBSCRIBE'',
    ''SUNSUBSCRIBE'', ''SYNC'', ''UNSUBSCRIBE'', ''UNWATCH'', ''WATCH'']"

subsection \<open>command-grammar.ts\<close>

definition compoundCommandPrefixes :: catalog where
  "compoundCommandPrefixes = [
    ''CLIENT'', ''CLUSTER'', ''FLOW'']"

definition flowValueMGetMaxBytesTokens :: catalog where
  "flowValueMGetMaxBytesTokens = [
    ''MAX_BYTES'', ''MAXBYTES'']"

definition countedKeyCommands :: catalog where
  "countedKeyCommands = [
    ''LMPOP'', ''SINTERCARD'', ''ZDIFF'', ''ZINTER'', ''ZINTERCARD'', ''ZMPOP'', ''ZUNION'']"

definition destinationCountedKeyCommands :: catalog where
  "destinationCountedKeyCommands = [
    ''CMS.MERGE'', ''TDIGEST.MERGE'', ''ZDIFFSTORE'', ''ZINTERSTORE'', ''ZUNIONSTORE'']"

subsection \<open>auto-batch-ordering.ts\<close>

definition flowValuePutOptionTokens :: catalog where
  "flowValuePutOptionTokens = [
    ''NAME'', ''NOW'', ''OVERRIDE'', ''OWNER_FLOW_ID'', ''PARTITION'', ''TTL'', ''TTL_MS'']"

subsection \<open>errors.ts\<close>

definition OVERLOAD_CODES :: catalog where
  "OVERLOAD_CODES = [
    ''backpressure'', ''busy'', ''flow_control_window_exhausted'', ''lane_queue_full'',
    ''overloaded'']"

subsection \<open>Opcodes (protocol-constants.ts)\<close>

definition COMMAND_OPCODES :: "(string \<times> nat) list" where
  "COMMAND_OPCODES = [
    (''HELLO'', 0x1), (''AUTH'', 0x2), (''PING'', 0x3), (''CLIENT.SETNAME'', 0x4),
    (''CLIENT.INFO'', 0x5), (''ROUTE'', 0x6), (''SHARDS'', 0x7), (''BACKPRESSURE'', 0x8),
    (''QUIT'', 0x9), (''GOAWAY'', 0xa), (''OPTIONS'', 0xb), (''STARTUP'', 0xc),
    (''WINDOW_UPDATE'', 0xd), (''PIPELINE'', 0xe), (''ROUTE_BATCH'', 0xf), (''EVENT'', 0x10),
    (''SUBSCRIBE_EVENTS'', 0x11), (''UNSUBSCRIBE_EVENTS'', 0x12), (''COMMAND_EXEC'', 0x100),
    (''GET'', 0x101), (''SET'', 0x102), (''DEL'', 0x103), (''MGET'', 0x104), (''MSET'', 0x105),
    (''CAS'', 0x106), (''LOCK'', 0x107), (''UNLOCK'', 0x108), (''EXTEND'', 0x109),
    (''RATELIMIT.ADD'', 0x10a), (''FETCH_OR_COMPUTE'', 0x10b),
    (''FETCH_OR_COMPUTE_RESULT'', 0x10c), (''FETCH_OR_COMPUTE_ERROR'', 0x10d),
    (''HSET'', 0x110), (''HGET'', 0x111), (''HMGET'', 0x112), (''HGETALL'', 0x113),
    (''LPUSH'', 0x120), (''RPUSH'', 0x121), (''LPOP'', 0x122), (''RPOP'', 0x123),
    (''LRANGE'', 0x124), (''SADD'', 0x130), (''SREM'', 0x131), (''SMEMBERS'', 0x132),
    (''SISMEMBER'', 0x133), (''ZADD'', 0x140), (''ZREM'', 0x141), (''ZRANGE'', 0x142),
    (''ZSCORE'', 0x143), (''FLOW.CREATE'', 0x201), (''FLOW.GET'', 0x202),
    (''FLOW.CLAIM_DUE'', 0x203), (''FLOW.COMPLETE'', 0x204), (''FLOW.TRANSITION'', 0x205),
    (''FLOW.RETRY'', 0x206), (''FLOW.FAIL'', 0x207), (''FLOW.CANCEL'', 0x208),
    (''FLOW.EXTEND_LEASE'', 0x209), (''FLOW.HISTORY'', 0x20a), (''FLOW.VALUE.PUT'', 0x20b),
    (''FLOW.VALUE.MGET'', 0x20c), (''FLOW.SIGNAL'', 0x20d), (''FLOW.CREATE_MANY'', 0x20f),
    (''FLOW.COMPLETE_MANY'', 0x210), (''FLOW.TRANSITION_MANY'', 0x211),
    (''FLOW.RETRY_MANY'', 0x212), (''FLOW.FAIL_MANY'', 0x213), (''FLOW.CANCEL_MANY'', 0x214),
    (''FLOW.RECLAIM'', 0x215), (''FLOW.REWIND'', 0x216), (''FLOW.INFO'', 0x21c),
    (''FLOW.POLICY.SET'', 0x21e), (''FLOW.POLICY.GET'', 0x21f),
    (''FLOW.SPAWN_CHILDREN'', 0x220), (''FLOW.RETENTION_CLEANUP'', 0x221),
    (''FLOW.STEP_CONTINUE'', 0x222), (''FLOW.START_AND_CLAIM'', 0x223),
    (''FLOW.RUN_STEPS_MANY'', 0x224), (''FLOW.SCHEDULE.CREATE'', 0x225),
    (''FLOW.SCHEDULE.GET'', 0x226), (''FLOW.SCHEDULE.DELETE'', 0x227),
    (''FLOW.SCHEDULE.FIRE_DUE'', 0x228), (''FLOW.SCHEDULE.LIST'', 0x229),
    (''FLOW.SCHEDULE.FIRE'', 0x22a), (''FLOW.SCHEDULE.PAUSE'', 0x22b),
    (''FLOW.SCHEDULE.RESUME'', 0x22c), (''FLOW.STATS'', 0x22d), (''FLOW.ATTRIBUTES'', 0x22e),
    (''FLOW.ATTRIBUTE_VALUES'', 0x22f), (''FLOW.QUERY'', 0x231),
    (''FLOW.EFFECT.RESERVE'', 0x240), (''FLOW.EFFECT.CONFIRM'', 0x241),
    (''FLOW.EFFECT.FAIL'', 0x242), (''FLOW.EFFECT.COMPENSATE'', 0x243),
    (''FLOW.EFFECT.GET'', 0x244), (''FLOW.GOVERNANCE.LEDGER'', 0x245),
    (''FLOW.APPROVAL.REQUEST'', 0x246), (''FLOW.APPROVAL.APPROVE'', 0x247),
    (''FLOW.APPROVAL.REJECT'', 0x248), (''FLOW.APPROVAL.GET'', 0x249),
    (''FLOW.CIRCUIT.OPEN'', 0x24a), (''FLOW.CIRCUIT.CLOSE'', 0x24b),
    (''FLOW.CIRCUIT.GET'', 0x24c), (''FLOW.BUDGET.RESERVE'', 0x24d),
    (''FLOW.BUDGET.GET'', 0x24e), (''FLOW.LIMIT.LEASE'', 0x24f), (''FLOW.LIMIT.SPEND'', 0x250),
    (''FLOW.LIMIT.RELEASE'', 0x251), (''FLOW.LIMIT.GET'', 0x252),
    (''FLOW.APPROVAL.LIST'', 0x253), (''FLOW.GOVERNANCE.OVERVIEW'', 0x254),
    (''FLOW.BUDGET.LIST'', 0x255), (''FLOW.LIMIT.LIST'', 0x256),
    (''FLOW.BUDGET.COMMIT'', 0x257), (''FLOW.BUDGET.RELEASE'', 0x258),
    (''CLUSTER.HEALTH'', 0x301), (''CLUSTER.STATS'', 0x302), (''CLUSTER.KEYSLOT'', 0x303),
    (''CLUSTER.SLOTS'', 0x304), (''CLUSTER.STATUS'', 0x305), (''CLUSTER.JOIN'', 0x306),
    (''CLUSTER.LEAVE'', 0x307), (''CLUSTER.FAILOVER'', 0x308), (''CLUSTER.PROMOTE'', 0x309),
    (''CLUSTER.DEMOTE'', 0x30a), (''CLUSTER.ROLE'', 0x30b), (''FERRICSTORE.KEY_INFO'', 0x30c),
    (''FERRICSTORE.CONFIG'', 0x30d), (''FERRICSTORE.HOTNESS'', 0x30e),
    (''FERRICSTORE.METRICS'', 0x30f), (''FERRICSTORE.BLOBGC'', 0x310),
    (''CLUSTER.FEATURES'', 0x311), (''CLUSTER.FEATURES.RAISE'', 0x312)]"

definition command_opcode :: "string \<Rightarrow> nat" where
  "command_opcode name = (case map_of COMMAND_OPCODES name of None \<Rightarrow> 0 | Some op \<Rightarrow> op)"

definition opcode_aliases :: "(string \<times> string) list" where
  "opcode_aliases = [
    (''startup'', ''STARTUP''), (''auth'', ''AUTH''), (''ping'', ''PING''),
    (''clientSetName'', ''CLIENT.SETNAME''), (''clientInfo'', ''CLIENT.INFO''),
    (''route'', ''ROUTE''), (''routeBatch'', ''ROUTE_BATCH''), (''shards'', ''SHARDS''),
    (''backpressure'', ''BACKPRESSURE''), (''goaway'', ''GOAWAY''), (''event'', ''EVENT''),
    (''windowUpdate'', ''WINDOW_UPDATE''), (''subscribeEvents'', ''SUBSCRIBE_EVENTS''),
    (''unsubscribeEvents'', ''UNSUBSCRIBE_EVENTS''), (''options'', ''OPTIONS''),
    (''quit'', ''QUIT''), (''commandExec'', ''COMMAND_EXEC''), (''get'', ''GET''),
    (''set'', ''SET''), (''del'', ''DEL''), (''mget'', ''MGET''), (''mset'', ''MSET''),
    (''pipeline'', ''PIPELINE''), (''flowCreate'', ''FLOW.CREATE''),
    (''flowGet'', ''FLOW.GET''), (''flowClaimDue'', ''FLOW.CLAIM_DUE''),
    (''flowComplete'', ''FLOW.COMPLETE''), (''flowTransition'', ''FLOW.TRANSITION''),
    (''flowRetry'', ''FLOW.RETRY''), (''flowFail'', ''FLOW.FAIL''),
    (''flowValuePut'', ''FLOW.VALUE.PUT''), (''flowValueMGet'', ''FLOW.VALUE.MGET''),
    (''flowSignal'', ''FLOW.SIGNAL''), (''flowCreateMany'', ''FLOW.CREATE_MANY''),
    (''flowCompleteMany'', ''FLOW.COMPLETE_MANY''),
    (''flowTransitionMany'', ''FLOW.TRANSITION_MANY''),
    (''flowRetryMany'', ''FLOW.RETRY_MANY''), (''flowFailMany'', ''FLOW.FAIL_MANY''),
    (''flowReclaim'', ''FLOW.RECLAIM''), (''flowPolicySet'', ''FLOW.POLICY.SET''),
    (''flowPolicyGet'', ''FLOW.POLICY.GET''), (''flowSpawnChildren'', ''FLOW.SPAWN_CHILDREN''),
    (''flowStepContinue'', ''FLOW.STEP_CONTINUE''),
    (''flowStartAndClaim'', ''FLOW.START_AND_CLAIM''),
    (''flowRunStepsMany'', ''FLOW.RUN_STEPS_MANY''), (''flowQuery'', ''FLOW.QUERY'')]"

definition OPCODES :: "(string \<times> nat) list" where
  "OPCODES = map (\<lambda>(alias, name). (alias, command_opcode name)) opcode_aliases"

definition FLOW_RECORD_FIELD_KEYS :: "string list" where
  "FLOW_RECORD_FIELD_KEYS = [
    '''', ''id'', ''type'', ''state'', ''version'', ''priority'', ''partition_key'',
    ''payload_ref'', ''result_ref'', ''error_ref'', ''payload'', ''result'', ''error'',
    ''created_at_ms'', ''updated_at_ms'', ''next_run_at_ms'', ''lease_deadline_ms'',
    ''lease_owner'', ''lease_token'', ''fencing_token'', ''attempts'', ''history_max_events'',
    ''history_hot_max_events'', ''child_groups'', ''parent_flow_id'', ''parent_partition_key'',
    ''root_flow_id'', ''correlation_id'', ''terminal_retention_until_ms'', ''ttl_ms'',
    ''retention_ttl_ms'', ''run_state'', ''value_refs'', ''values'', ''payload_omitted'',
    ''payload_size'', ''result_omitted'', ''result_size'', ''error_omitted'', ''error_size'',
    ''max_attempts'', ''attributes'']"

section \<open>Opcodes and names\<close>

text \<open>\<open>commandNamesByOpcode\<close>: later entries of the list of pairs overwrite earlier ones.\<close>

definition commandNamesByOpcode :: "nat \<rightharpoonup> string" where
  "commandNamesByOpcode = map_of (rev (map (\<lambda>(name, opcode). (opcode, name)) COMMAND_OPCODES))"

fun ascending :: "nat list \<Rightarrow> bool" where
  "ascending (x # y # ys) = (x < y \<and> ascending (y # ys))"
| "ascending _ = True"

lemma ascending_bound: "ascending (x # xs) \<Longrightarrow> y \<in> set xs \<Longrightarrow> x < y"
  by (induction xs arbitrary: x) force+

lemma ascending_distinct: "ascending xs \<Longrightarrow> distinct xs"
  by (induction xs rule: ascending.induct) (auto dest: ascending_bound)

lemma opcodes_ascending: "ascending (map snd COMMAND_OPCODES)"
  by (simp add: COMMAND_OPCODES_def)

lemma opcode_bounds: "(name, opcode) \<in> set COMMAND_OPCODES \<Longrightarrow> 0 < opcode \<and> opcode < 0x10000"
  by (simp add: COMMAND_OPCODES_def) auto

lemma opcode_names_distinct: "distinct (map fst COMMAND_OPCODES)"
  by (simp add: COMMAND_OPCODES_def)

lemma aliases_known: "within (map snd opcode_aliases) (map fst COMMAND_OPCODES)"
  by (simp add: within_def opcode_aliases_def COMMAND_OPCODES_def)

lemma command_opcode_iff: "(name, opcode) \<in> set COMMAND_OPCODES \<Longrightarrow> command_opcode name = opcode"
  by (simp add: command_opcode_def opcode_names_distinct)

text \<open>The opcode table is a numbering: every opcode is a non-zero 16-bit number, the name found for
  a command's opcode is the command's own, and every entry of \<open>OPCODES\<close> is the opcode of an existing
  command.\<close>

theorem opcode_table_is_numbering:
  "list_all (\<lambda>(name, opcode). 0 < opcode \<and> opcode < 0x10000 \<and>
      command_opcode name = opcode \<and> commandNamesByOpcode opcode = Some name) COMMAND_OPCODES \<and>
    list_all (\<lambda>(al, opcode). opcode \<in> snd ` set COMMAND_OPCODES) OPCODES"
proof -
  have "distinct (map fst (rev (map (\<lambda>(name, opcode). (opcode, name)) COMMAND_OPCODES)))"
    using ascending_distinct [OF opcodes_ascending] by (simp add: rev_map [symmetric] comp_def case_prod_unfold)
  then have inverse: "commandNamesByOpcode opcode = Some name" if "(name, opcode) \<in> set COMMAND_OPCODES" for name opcode
    unfolding commandNamesByOpcode_def using that by (intro map_of_is_SomeI) force+
  have known: "\<exists>name. (name, opcode) \<in> set COMMAND_OPCODES" if "(al, opcode) \<in> set OPCODES" for al opcode
  proof -
    from that obtain name where name: "(al, name) \<in> set opcode_aliases" and op: "opcode = command_opcode name"
      by (auto simp: OPCODES_def)
    from name have "name \<in> set (map fst COMMAND_OPCODES)"
      using aliases_known by (force simp: within_def list_all_iff)
    then obtain opcode' where "(name, opcode') \<in> set COMMAND_OPCODES" by auto
    with op show ?thesis by (auto dest: command_opcode_iff)
  qed
  show ?thesis
    using inverse known opcode_bounds command_opcode_iff unfolding list_all_iff by (auto, force)
qed

end
