(* ===== verification/Crc32.thy ===== *)
theory Crc32
  imports Utf8
begin

unbundle bit_operations_syntax

text \<open>
  \<open>src/src/crc32.ts\<close>: the table-driven CRC-32 and its variant over a UTF-16 string,
  which feeds the UTF-8 bytes of a range of the string to the same update without building a
  buffer. JavaScript's 32-bit integer operators (\<open>\<and>\<close>, \<open>>>>\<close>, \<open>\<oplus>\<close>) act on bit
  patterns, modelled as \<open>32 word\<close>; the final \<open>>>> 0\<close> only reads the pattern as unsigned.
\<close>

section \<open>Definitions\<close>

text \<open>One step of the inner loop that fills the table.\<close>

definition crc_bit :: "32 word \<Rightarrow> 32 word" where
  "crc_bit value = (if value AND 1 \<noteq> 0 then 0xEDB88320 XOR drop_bit 1 value else drop_bit 1 value)"

definition crc_entry :: "32 word \<Rightarrow> 32 word" where
  "crc_entry index = (crc_bit ^^ 8) index"

definition crc_table :: "32 word list" where
  "crc_table = map (\<lambda>i. crc_entry (of_nat i)) [0..<256]"

text \<open>\<open>table[i] ?? 0\<close>.\<close>

definition table_at :: "nat \<Rightarrow> 32 word" where
  "table_at i = (if i < length crc_table then crc_table ! i else 0)"

definition update_crc32 :: "32 word \<Rightarrow> 32 word \<Rightarrow> 32 word" where
  "update_crc32 value byte = drop_bit 8 value XOR table_at (unat ((value XOR byte) AND 0xFF))"

definition crc32 :: "bytes \<Rightarrow> 32 word" where
  "crc32 buffer =
    fold (\<lambda>byte value. update_crc32 value (ucast byte)) buffer 0xFFFFFFFF XOR 0xFFFFFFFF"

text \<open>The code point at \<open>i\<close> and by how much the loop body of \<open>crc32Utf8\<close> advances the index
  before the loop itself does (1 for a surrogate pair), as computed by its first half.\<close>

definition point_at :: "jsstr \<Rightarrow> nat \<Rightarrow> nat \<Rightarrow> 32 word \<times> nat" where
  "point_at text i stop =
    (let first = text ! i in
     if 0xD800 \<le> first \<and> first \<le> 0xDBFF then
       (let second = (if i + 1 < stop then text ! (i + 1) else 0) in
        if 0xDC00 \<le> second \<and> second \<le> 0xDFFF then
          (0x10000 + push_bit 10 (ucast first - 0xD800) + ucast second - 0xDC00, 1)
        else (0xFFFD, 0))
     else if 0xDC00 \<le> first \<and> first \<le> 0xDFFF then (0xFFFD, 0)
     else (ucast first, 0))"

text \<open>The second half: the bytes of the code point are fed to the checksum.\<close>

definition update_point :: "32 word \<Rightarrow> 32 word \<Rightarrow> 32 word" where
  "update_point value point =
    (if point < 0x80 then update_crc32 value point
     else if point < 0x800 then
       update_crc32 (update_crc32 value (0xC0 OR drop_bit 6 point)) (0x80 OR (point AND 0x3F))
     else if point < 0x10000 then
       update_crc32
         (update_crc32 (update_crc32 value (0xE0 OR drop_bit 12 point))
           (0x80 OR (drop_bit 6 point AND 0x3F)))
         (0x80 OR (point AND 0x3F))
     else
       update_crc32
         (update_crc32
           (update_crc32 (update_crc32 value (0xF0 OR drop_bit 18 point))
             (0x80 OR (drop_bit 12 point AND 0x3F)))
           (0x80 OR (drop_bit 6 point AND 0x3F)))
         (0x80 OR (point AND 0x3F)))"

function crc32_loop :: "jsstr \<Rightarrow> nat \<Rightarrow> nat \<Rightarrow> 32 word \<Rightarrow> 32 word" where
  "crc32_loop text i stop value =
    (if i < stop then
       (case point_at text i stop of
          (point, extra) \<Rightarrow> crc32_loop text (i + extra + 1) stop (update_point value point))
     else value)"
  by pat_completeness auto
termination
  by (relation "measure (\<lambda>(text, i, stop, value). stop - i)") auto

declare crc32_loop.simps [simp del]

definition crc32_utf8 :: "jsstr \<Rightarrow> nat \<Rightarrow> nat \<Rightarrow> 32 word" where
  "crc32_utf8 text start stop = crc32_loop text start stop 0xFFFFFFFF XOR 0xFFFFFFFF"

section \<open>The checksum of the standard\<close>

text \<open>CRC-32 as ISO 3309 and ITU-T V.42 define it, with no register, table or shift of the code.
  Polynomials over the two-element field are lists of coefficients, the highest power first. A
  message is the sequence of its bits in the order of transmission (each byte from its least
  significant bit); it is multiplied by \<open>x^32\<close>, its first 32 coefficients are complemented, it is
  divided by the generator polynomial, and the checksum is the complement of the remainder, whose
  highest power is the least significant bit of the result.\<close>

definition GENERATOR :: "bool list" where
  "GENERATOR = map (\<lambda>e. e \<in> set [32, 26, 23, 22, 16, 12, 11, 10, 8, 7, 5, 4, 2, 1, 0]) (rev [0..<33])"

text \<open>Addition of the leading coefficients: the second polynomial is added to the first one
  from its highest power on.\<close>

fun poly_add :: "bool list \<Rightarrow> bool list \<Rightarrow> bool list" where
  "poly_add (a # as) (b # bs) = (a \<noteq> b) # poly_add as bs"
| "poly_add as bs = as"

lemma length_poly_add [simp]: "length (poly_add as bs) = length as"
  by (induction as bs rule: poly_add.induct) simp_all

text \<open>Long division by the generator, of which only the remainder is kept: a leading coefficient
  1 is cancelled by subtracting the generator, a leading 0 is dropped.\<close>

function poly_remainder :: "bool list \<Rightarrow> bool list" where
  "poly_remainder as =
    (if length as < length GENERATOR then as
     else if hd as then poly_remainder (tl (poly_add as GENERATOR))
     else poly_remainder (tl as))"
  by pat_completeness auto
termination
  by (relation "measure length") (auto simp: GENERATOR_def neq_Nil_conv)

declare poly_remainder.simps [simp del]

definition transmitted :: "bytes \<Rightarrow> bool list" where
  "transmitted buffer = concat (map (\<lambda>b. map (bit b) [0..<8]) buffer)"

definition crc32_ref :: "bytes \<Rightarrow> 32 word" where
  "crc32_ref buffer =
    horner_sum of_bool 2
      (map Not
        (poly_remainder
          (poly_add (transmitted buffer @ replicate 32 False) (replicate 32 True))))"

text \<open>The check value of the standard: the digits 1 to 9 in ASCII.\<close>

lemma crc32_ref_check: "crc32_ref (map (\<lambda>i. of_nat (48 + i)) [1..<10]) = 0xCBF43926"
  by code_simp

section \<open>The table implements the bitwise checksum\<close>

text \<open>In between: each byte is added to the register, which is then shifted eight times.\<close>

definition crc_byte_ref :: "32 word \<Rightarrow> byte \<Rightarrow> 32 word" where
  "crc_byte_ref value b = (crc_bit ^^ 8) (value XOR ucast b)"

lemma crc_bit_alt: "crc_bit v = drop_bit 1 v XOR (if bit v 0 then 0xEDB88320 else 0)"
  by (simp add: crc_bit_def and_one_eq odd_iff_mod_2_eq_one bit_0 xor.commute)

lemma crc_bit_xor: "crc_bit (x XOR y) = crc_bit x XOR crc_bit y"
  by (auto simp: crc_bit_alt drop_bit_xor bit_xor_iff xor.assoc xor.left_commute)

lemma crc_bits_xor: "(crc_bit ^^ n) (x XOR y) = (crc_bit ^^ n) x XOR (crc_bit ^^ n) y"
  by (induction n) (simp_all add: crc_bit_xor)

lemma crc_bits_shift: "(\<And>i. i < n \<Longrightarrow> \<not> bit x i) \<Longrightarrow> (crc_bit ^^ n) x = drop_bit n x"
proof (induction n)
  case (Suc n)
  then have "(crc_bit ^^ n) x = drop_bit n x" by simp
  moreover have "\<not> bit (drop_bit n x) 0" using Suc.prems [of n] by (simp add: bit_drop_bit_eq)
  ultimately show ?case by (simp add: crc_bit_alt [of "drop_bit n x"])
qed simp

lemma mask_8: "(0xFF :: 32 word) = mask 8"
  by (simp add: mask_eq_exp_minus_1)

lemma table_at_entry: "i < 256 \<Longrightarrow> table_at i = crc_entry (of_nat i)"
  by (simp add: table_at_def crc_table_def)

lemma table_at_low: "table_at (unat (x AND 0xFF)) = crc_entry (x AND 0xFF)"
proof -
  have "unat (x AND 0xFF) = unat x mod 256"
    by (simp only: mask_8 take_bit_eq_mask [symmetric] unsigned_take_bit_eq)
      (simp add: take_bit_eq_mod)
  then have "unat (x AND 0xFF) < 256" by simp
  then show ?thesis by (simp add: table_at_entry)
qed

lemma crc_split: "(crc_bit ^^ 8) x = drop_bit 8 x XOR crc_entry (x AND 0xFF)"
proof -
  have x: "x = (x AND NOT 0xFF) XOR (x AND 0xFF)"
    by (rule bit_eqI) (auto simp: bit_simps)
  have "(crc_bit ^^ 8) x = (crc_bit ^^ 8) (x AND NOT 0xFF) XOR crc_entry (x AND 0xFF)"
    by (subst x) (simp only: crc_bits_xor crc_entry_def)
  moreover have "(crc_bit ^^ 8) (x AND NOT 0xFF) = drop_bit 8 x"
  proof (subst crc_bits_shift)
    show "\<not> bit (x AND NOT 0xFF) i" if "i < 8" for i
      using that by (simp only: mask_8) (simp add: bit_simps)
    show "drop_bit 8 (x AND NOT 0xFF) = drop_bit 8 x"
      by (rule bit_eqI) (simp only: mask_8, auto simp: bit_simps dest: bit_imp_le_length)
  qed
  ultimately show ?thesis by simp
qed

lemma update_is_ref: "update_crc32 v (ucast b) = crc_byte_ref v b"
proof -
  have "drop_bit 8 (v XOR ucast b) = drop_bit 8 v" for b :: byte
    by (rule bit_eqI) (auto simp: bit_simps dest: bit_imp_le_length)
  then show ?thesis
    by (simp add: update_crc32_def crc_byte_ref_def crc_split table_at_low)
qed

lemma update_low_byte: "update_crc32 v (ucast (ucast q :: byte)) = update_crc32 v q"
proof -
  have "(v XOR ucast (ucast q :: byte)) AND 0xFF = (v XOR q) AND 0xFF"
    by (rule bit_eqI) (simp only: mask_8, auto simp: bit_simps)
  then show ?thesis by (simp add: update_crc32_def)
qed

text \<open>The string checksum is the checksum of the UTF-8 encoding.\<close>

abbreviation crc_feed :: "bytes \<Rightarrow> 32 word \<Rightarrow> 32 word" where
  "crc_feed bs v \<equiv> fold (\<lambda>b value. update_crc32 value (ucast b)) bs v"

lemma update_point_feed: "update_point v p = crc_feed (utf8_of_point p) v"
  by (simp add: update_point_def utf8_of_point_def update_low_byte)

lemma subarray_head: "i < j \<Longrightarrow> j \<le> length xs \<Longrightarrow> subarray i j xs = xs ! i # subarray (Suc i) j xs"
  by (rule subarray_Cons) simp_all

lemma crc32_loop_feed:
  "stop \<le> length str \<Longrightarrow>
    crc32_loop str i stop v = crc_feed (utf8_encode (subarray i stop str)) v"
proof (induction str i stop v rule: crc32_loop.induct)
  case (1 str i stop v)
  show ?case
  proof (cases "i < stop")
    case False
    then show ?thesis by (subst crc32_loop.simps) (simp add: subarray_empty)
  next
    case True
    obtain p extra where pt: "point_at str i stop = (p, extra)" by fastforce
    have loop: "crc32_loop str i stop v =
        crc_feed (utf8_encode (subarray (i + extra + 1) stop str)) (crc_feed (utf8_of_point p) v)"
      using "1.IH" [OF True pt [symmetric] "1.prems"] True pt
      by (subst crc32_loop.simps) (simp add: update_point_feed)
    have s: "subarray i stop str = str ! i # subarray (Suc i) stop str"
      using True "1.prems" by (rule subarray_head)
    have "utf8_encode (subarray i stop str) =
        utf8_of_point p @ utf8_encode (subarray (i + extra + 1) stop str)"
    proof (cases "is_high (str ! i)")
      case hi: True
      show ?thesis
      proof (cases "i + 1 < stop")
        case True
        then have s': "subarray (Suc i) stop str = str ! Suc i # subarray (Suc (Suc i)) stop str"
          using "1.prems" by (intro subarray_head) simp_all
        show ?thesis using hi True pt
          by (auto simp: s s' point_at_def is_high_def [symmetric] is_low_def [symmetric]
              pair_point_def Let_def split: if_splits)
      next
        case False
        then have "subarray (Suc i) stop str = []" by (simp add: subarray_empty)
        with False hi pt show ?thesis
          by (auto simp: s point_at_def is_high_def [symmetric] Let_def split: if_splits)
      qed
    next
      case False
      with pt show ?thesis
        by (auto simp: s point_at_def is_high_def [symmetric] is_low_def [symmetric] Let_def
            split: if_splits)
    qed
    with loop show ?thesis by simp
  qed
qed

section \<open>The bitwise checksum is the remainder of the division\<close>

text \<open>The register holds the remainder of what has been sent, highest power in bit 0.\<close>

definition register :: "32 word \<Rightarrow> bool list" where
  "register v = map (bit v) [0..<32]"

lemma length_register [simp]: "length (register v) = 32"
  by (simp add: register_def)

lemma register_nth: "i < 32 \<Longrightarrow> register v ! i = bit v i"
  by (simp add: register_def)

lemma GENERATOR_bits: "GENERATOR = True # register 0xEDB88320"
  by code_simp

lemma poly_add_nth:
  "i < length as \<Longrightarrow> poly_add as bs ! i = (if i < length bs then as ! i \<noteq> bs ! i else as ! i)"
proof (induction as bs arbitrary: i rule: poly_add.induct)
  case (1 a as b bs)
  then show ?case by (cases i) auto
qed auto

lemma crc_bit_nth: "i < 32 \<Longrightarrow>
    bit (crc_bit v) i \<longleftrightarrow> (bit v (Suc i) \<noteq> (bit v 0 \<and> bit (0xEDB88320 :: 32 word) i))"
  by (auto simp: crc_bit_alt bit_xor_iff bit_drop_bit_eq)

definition feed_bit :: "bool \<Rightarrow> 32 word \<Rightarrow> 32 word" where
  "feed_bit s v = crc_bit (v XOR of_bool s)"

lemma feed_bit_nth: "i < 32 \<Longrightarrow>
    bit (feed_bit s v) i \<longleftrightarrow>
      (bit v (Suc i) \<noteq> ((bit v 0 \<noteq> s) \<and> bit (0xEDB88320 :: 32 word) i))"
  by (simp add: feed_bit_def crc_bit_nth bit_xor_iff bit_of_bool_iff)

lemma poly_add_cancel:
  assumes "32 \<le> length as"
  shows "tl (if s \<noteq> bit v 0 then poly_add (poly_add (s # as) (register v)) GENERATOR
      else poly_add (s # as) (register v)) = poly_add as (register (feed_bit s v))"
    (is "?l = ?r")
proof (rule nth_equalityI)
  show "length ?l = length ?r" by (simp split: if_split)
  fix i assume "i < length ?l"
  then have i: "i < length as" by (simp split: if_splits)
  have "\<not> bit v (Suc i)" if "31 \<le> i" using that by (auto dest: bit_imp_le_length)
  then show "?l ! i = ?r ! i" using i
    by (cases "i < 31"; cases "i = 31")
      (auto simp: nth_tl poly_add_nth GENERATOR_bits nth_Cons' register_nth feed_bit_nth)
qed

lemma remainder_feed:
  "poly_remainder (poly_add (ss @ replicate 32 False) (register v)) = register (fold feed_bit ss v)"
proof (induction ss arbitrary: v)
  case Nil
  have "poly_add (replicate 32 False) (register v) = register v"
    by (rule nth_equalityI) (simp_all add: poly_add_nth)
  then show ?case by (simp add: poly_remainder.simps GENERATOR_bits)
next
  case (Cons s ss)
  let ?as = "poly_add (s # ss @ replicate 32 False) (register v)"
  have h: "hd ?as \<longleftrightarrow> s \<noteq> bit v 0"
    by (simp add: hd_conv_nth poly_add_nth register_nth flip: length_greater_0_conv)
  have "\<not> length ?as < length GENERATOR" by (simp add: GENERATOR_bits)
  with h have "poly_remainder ?as = poly_remainder (tl (if s \<noteq> bit v 0 then poly_add ?as GENERATOR else ?as))"
    by (subst poly_remainder.simps) auto
  also have "\<dots> = poly_remainder (poly_add (ss @ replicate 32 False) (register (feed_bit s v)))"
    by (subst poly_add_cancel) simp_all
  finally show ?case by (simp add: Cons.IH)
qed

lemma crc_bits_feed:
  "drop_bit n w = 0 \<Longrightarrow> (crc_bit ^^ n) (v XOR w) = fold feed_bit (map (bit w) [0..<n]) v"
proof (induction n arbitrary: v w)
  case (Suc n)
  have w: "w = of_bool (bit w 0) XOR push_bit 1 (drop_bit 1 w)"
  proof (rule bit_eqI)
    fix i
    show "bit w i \<longleftrightarrow> bit (of_bool (bit w 0) XOR push_bit 1 (drop_bit 1 w)) i"
      by (simp only: bit_xor_iff bit_push_bit_iff bit_of_bool_iff bit_drop_bit_eq o_apply,
          cases i) (auto dest: bit_imp_le_length)
  qed
  have "crc_bit (push_bit 1 (drop_bit 1 w)) = drop_bit 1 w"
  proof -
    have "\<not> bit (push_bit 1 (drop_bit 1 w)) 0"
      by (simp only: bit_push_bit_iff) simp
    then have "crc_bit (push_bit 1 (drop_bit 1 w)) = drop_bit 1 (push_bit 1 (drop_bit 1 w))"
      by (simp only: crc_bit_alt if_False xor.right_neutral)
    also have "\<dots> = drop_bit 1 w"
      by (rule bit_eqI)
        (simp only: bit_push_bit_iff bit_drop_bit_eq o_apply, auto dest: bit_imp_le_length)
    finally show ?thesis .
  qed
  then have "crc_bit (v XOR w) = feed_bit (bit w 0) v XOR drop_bit 1 w"
    by (subst w) (simp only: feed_bit_def crc_bit_xor xor.assoc [symmetric])
  moreover have "map (bit w) [0..<Suc n] = bit w 0 # map (bit (drop_bit 1 w)) [0..<n]"
    by (simp add: upt_conv_Cons map_Suc_upt [symmetric] bit_drop_bit_eq o_def del: upt_Suc)
  moreover have "drop_bit n (drop_bit 1 w) = 0" using Suc.prems by simp
  ultimately show ?case using Suc.IH [of "drop_bit 1 w" "feed_bit (bit w 0) v"]
    by (simp add: funpow_swap1)
qed simp

lemma crc_byte_feed: "crc_byte_ref v b = fold feed_bit (map (bit b) [0..<8]) v"
proof -
  have "drop_bit 8 (ucast b :: 32 word) = 0"
    by (rule bit_eqI) (auto simp: bit_simps dest: bit_imp_le_length)
  moreover have "map (bit (ucast b :: 32 word)) [0..<8] = map (bit b) [0..<8]"
    by (auto simp: bit_simps)
  ultimately show ?thesis by (simp only: crc_byte_ref_def crc_bits_feed)
qed

lemma fold_bytes_feed: "fold (\<lambda>b v. crc_byte_ref v b) bs v = fold feed_bit (transmitted bs) v"
  by (induction bs arbitrary: v) (simp_all add: transmitted_def crc_byte_feed)

lemma register_complement: "horner_sum of_bool 2 (map Not (register v)) = v XOR 0xFFFFFFFF"
proof (rule bit_word_eqI)
  fix n assume "n < LENGTH(32)"
  moreover have "(0xFFFFFFFF :: 32 word) = mask 32" by (simp add: mask_eq_exp_minus_1)
  ultimately show "bit (horner_sum of_bool 2 (map Not (register v)) :: 32 word) n =
      bit (v XOR 0xFFFFFFFF) n"
    by (simp only: bit_horner_sum_bit_word_iff bit_xor_iff bit_mask_iff) (simp add: register_nth)
qed

lemma register_ones: "register 0xFFFFFFFF = replicate 32 True"
  by code_simp

section \<open>Properties\<close>

text \<open>C17. The table-driven checksum of the code is the CRC-32 of the standard on every sequence of
  bytes: the complement of the remainder of the message, its first 32 bits complemented and
  multiplied by \<open>x^32\<close>, in the long division by the polynomial
  \<open>x^32 + x^26 + x^23 + x^22 + x^16 + x^12 + x^11 + x^10 + x^8 + x^7 + x^5 + x^4 + x^2 + x + 1\<close>,
  every byte sent from its least significant bit on.\<close>

theorem crc32_is_ref: "crc32 bs = crc32_ref bs"
proof -
  have "crc32_ref bs = fold feed_bit (transmitted bs) 0xFFFFFFFF XOR 0xFFFFFFFF"
    by (simp add: crc32_ref_def remainder_feed register_complement flip: register_ones)
  then show ?thesis
    by (simp add: crc32_def update_is_ref fold_bytes_feed)
qed

end
