(* ===== verification/KeySlots.thy ===== *)
theory KeySlots
  imports Crc32
begin

unbundle bit_operations_syntax

text \<open>
  Which of the 1024 routing slots a key belongs to (\<open>src/src/topology-utilities.ts\<close>), and the
  check that the keys of an MSET-family command share one (\<open>src/src/key-slot-validation.ts\<close>).
  A key is a string or a buffer. The string path computes the hash-tag range on UTF-16 indices and
  never builds the UTF-8 bytes; the buffer path works on the bytes. Both must agree.
\<close>

section \<open>Definitions\<close>

datatype route_key = KeyStr jsstr | KeyBuf bytes

abbreviation OPEN_BRACE :: byte where "OPEN_BRACE \<equiv> 0x7B"
abbreviation CLOSE_BRACE :: byte where "CLOSE_BRACE \<equiv> 0x7D"

definition hash_tag_or_key :: "bytes \<Rightarrow> bytes" where
  "hash_tag_or_key key =
    (case index_of OPEN_BRACE 0 key of
       None \<Rightarrow> key
     | Some start \<Rightarrow>
         (case index_of CLOSE_BRACE (start + 1) key of
            None \<Rightarrow> key
          | Some stop \<Rightarrow> if stop > start + 1 then subarray (start + 1) stop key else key))"

definition string_hash_range :: "jsstr \<Rightarrow> nat \<times> nat" where
  "string_hash_range key =
    (case index_of 0x7B 0 key of
       None \<Rightarrow> (0, length key)
     | Some start_brace \<Rightarrow>
         (case index_of 0x7D (start_brace + 1) key of
            None \<Rightarrow> (0, length key)
          | Some end_brace \<Rightarrow>
              if end_brace > start_brace + 1 then (start_brace + 1, end_brace)
              else (0, length key)))"

definition ROUTE_SLOT_MASK :: "32 word" where "ROUTE_SLOT_MASK = 1023"

fun routing_slot_for_key :: "route_key \<Rightarrow> nat" where
  "routing_slot_for_key (KeyStr key) =
    (case string_hash_range key of
       (start, stop) \<Rightarrow> unat (crc32_utf8 key start stop AND ROUTE_SLOT_MASK))"
| "routing_slot_for_key (KeyBuf key) = unat (crc32 (hash_tag_or_key key) AND ROUTE_SLOT_MASK)"

text \<open>\<open>typeof key === "string" || Buffer.isBuffer(key)\<close>.\<close>

fun as_route_key :: "jsval \<Rightarrow> route_key option" where
  "as_route_key (JStr s) = Some (KeyStr s)"
| "as_route_key (JBuf b) = Some (KeyBuf b)"
| "as_route_key _ = None"

text \<open>
  \<open>assertKeyValueCommandSharesSlot\<close>. The set of arrays already validated is represented by what it
  says of this array: \<open>cached\<close>, whether it was in the set. The result is that flag afterwards.
\<close>

fun shares_slot_loop :: "nat option \<Rightarrow> jsval list \<Rightarrow> jsval \<Rightarrow> bool res" where
  "shares_slot_loop expected (key # val # rest) command =
    (case as_route_key key of
       None \<Rightarrow> Inr False
     | Some k \<Rightarrow>
         (let slot = routing_slot_for_key k;
              want = (case expected of None \<Rightarrow> slot | Some e \<Rightarrow> e)
          in if slot \<noteq> want then Inl (Thrown TypeErr ''keys must share a slot'' [command])
             else shares_slot_loop (Some want) rest command))"
| "shares_slot_loop expected _ command = Inr True"

definition assert_kv_shares_slot :: "bool \<Rightarrow> jsval list \<Rightarrow> jsval \<Rightarrow> bool res" where
  "assert_kv_shares_slot cached args command =
    (if cached \<or> length args < 3 \<or> even (length args) then Inr cached
     else shares_slot_loop None (tl args) command)"

text \<open>\<open>assertAtomicKeyValueCommandSharesSlot\<close>.\<close>

definition atomic_command_name :: "jsval list \<Rightarrow> jsstr" where
  "atomic_command_name args =
    to_upper (case args of JStr s # _ \<Rightarrow> s | JBuf b # _ \<Rightarrow> utf8_decode b | _ \<Rightarrow> [])"

definition assert_atomic_kv_shares_slot :: "bool \<Rightarrow> jsval list \<Rightarrow> bool res" where
  "assert_atomic_kv_shares_slot cached args =
    (let command = atomic_command_name args in
     if command = ascii ''MSET'' \<or> command = ascii ''MSETNX''
     then assert_kv_shares_slot cached args (JStr command)
     else Inr cached)"

section \<open>Lemmas\<close>

lemma slot_bound_word: "unat (x AND ROUTE_SLOT_MASK) < 1024"
proof -
  have "unat (x AND ROUTE_SLOT_MASK) = unat x AND 1023"
    by (simp add: ROUTE_SLOT_MASK_def unsigned_and_eq)
  also have "\<dots> = unat x mod 1024" by (rule nat_and_1023)
  finally show ?thesis by simp
qed

lemma crc32_utf8_subarray:
  assumes "stop \<le> length s"
  shows "crc32_utf8 s start stop = crc32 (utf8_encode (subarray start stop s))"
  using crc32_loop_feed [OF assms] by (simp add: crc32_utf8_def crc32_def)

text \<open>The two ways to find the tag, on a key cut at its first braces.\<close>

lemma hash_tag_parts:
  assumes "OPEN_BRACE \<notin> set pre" "CLOSE_BRACE \<notin> set tag"
  shows "hash_tag_or_key (pre @ OPEN_BRACE # tag @ CLOSE_BRACE # post) =
    (if tag = [] then pre @ OPEN_BRACE # tag @ CLOSE_BRACE # post else tag)"
proof -
  have "index_of CLOSE_BRACE (length pre + 1) (pre @ OPEN_BRACE # tag @ CLOSE_BRACE # post) =
      Some (length pre + 1 + length tag)"
    using index_of_split [OF assms(2), of "pre @ [OPEN_BRACE]" post] by simp
  moreover have "index_of OPEN_BRACE 0 (pre @ OPEN_BRACE # tag @ CLOSE_BRACE # post) =
      Some (length pre)"
    using index_of_split [OF assms(1), of "[]" "tag @ CLOSE_BRACE # post"] by simp
  moreover have "subarray (length pre + 1) (length pre + 1 + length tag)
      (pre @ OPEN_BRACE # tag @ CLOSE_BRACE # post) = tag"
    using subarray_append_middle [of "pre @ [OPEN_BRACE]" tag "CLOSE_BRACE # post"] by simp
  ultimately show ?thesis by (simp add: hash_tag_or_key_def)
qed

lemma hash_tag_no_open: "OPEN_BRACE \<notin> set key \<Longrightarrow> hash_tag_or_key key = key"
  using index_of_absent [of OPEN_BRACE key "[]"] by (simp add: hash_tag_or_key_def)

lemma hash_tag_no_close:
  assumes "OPEN_BRACE \<notin> set pre" "CLOSE_BRACE \<notin> set post"
  shows "hash_tag_or_key (pre @ OPEN_BRACE # post) = pre @ OPEN_BRACE # post"
  using index_of_split [OF assms(1), of "[]" post]
    index_of_absent [OF assms(2), of "pre @ [OPEN_BRACE]"]
  by (simp add: hash_tag_or_key_def)

lemma range_parts:
  assumes "0x7B \<notin> set pre" "0x7D \<notin> set tag"
  shows "string_hash_range (pre @ 0x7B # tag @ 0x7D # post) =
    (if tag = [] then (0, length (pre @ 0x7B # tag @ 0x7D # post))
     else (length pre + 1, length pre + 1 + length tag))"
proof -
  have "index_of 0x7D (length pre + 1) (pre @ 0x7B # tag @ 0x7D # post) =
      Some (length pre + 1 + length tag)"
    using index_of_split [OF assms(2), of "pre @ [0x7B]" post] by simp
  moreover have "index_of 0x7B 0 (pre @ 0x7B # tag @ 0x7D # post) = Some (length pre)"
    using index_of_split [OF assms(1), of "[]" "tag @ 0x7D # post"] by simp
  ultimately show ?thesis by (simp add: string_hash_range_def)
qed

lemma range_no_open: "0x7B \<notin> set key \<Longrightarrow> string_hash_range key = (0, length key)"
  using index_of_absent [of "0x7B" key "[]"] by (simp add: string_hash_range_def)

lemma range_no_close:
  assumes "0x7B \<notin> set pre" "0x7D \<notin> set post"
  shows "string_hash_range (pre @ 0x7B # post) = (0, length (pre @ 0x7B # post))"
  using index_of_split [OF assms(1), of "[]" post] index_of_absent [OF assms(2), of "pre @ [0x7B]"]
  by (simp add: string_hash_range_def)

text \<open>The range always lies in the string, and its encoding is the tag of the encoding.\<close>

lemma brace_bytes: "ucast (0x7B :: 16 word) = OPEN_BRACE" "ucast (0x7D :: 16 word) = CLOSE_BRACE"
  by simp_all

lemma brace_encode:
  "OPEN_BRACE \<in> set (utf8_encode s) \<longleftrightarrow> 0x7B \<in> set s"
  "CLOSE_BRACE \<in> set (utf8_encode s) \<longleftrightarrow> 0x7D \<in> set s"
  using ascii_in_encode [of "0x7B" s] ascii_in_encode [of "0x7D" s] by simp_all

lemma encode_braces:
  "utf8_encode (pre @ 0x7B # post) = utf8_encode pre @ OPEN_BRACE # utf8_encode post"
  "utf8_encode (pre @ 0x7D # post) = utf8_encode pre @ CLOSE_BRACE # utf8_encode post"
  using utf8_encode_append_ascii [of "0x7B" pre post] utf8_encode_append_ascii [of "0x7D" pre post]
  by simp_all

lemma utf8_encode_Nil [simp]: "utf8_encode s = [] \<longleftrightarrow> s = []"
  by (cases s) (auto simp: utf8_of_point_def split: list.splits)

lemma string_range_tag:
  "case string_hash_range s of (start, stop) \<Rightarrow>
    stop \<le> length s \<and> utf8_encode (subarray start stop s) = hash_tag_or_key (utf8_encode s)"
proof (cases rule: first_occurrence [of "0x7B" s])
  case 1
  then show ?thesis
    by (simp add: range_no_open hash_tag_no_open brace_encode subarray_full)
next
  case (2 pre post)
  show ?thesis
  proof (cases rule: first_occurrence [of "0x7D" post])
    case 1
    with 2 show ?thesis
      by (simp add: range_no_close hash_tag_no_close brace_encode encode_braces subarray_full)
  next
    case (2 tag rest)
    note s = \<open>s = pre @ 0x7B # post\<close> \<open>0x7B \<notin> set pre\<close>
    have "subarray (length pre + 1) (length pre + 1 + length tag) s = tag"
      using subarray_append_middle [of "pre @ [0x7B]" tag "0x7D # rest"] s(1) 2(1) by simp
    with 2 s encode_braces(2) [of "[]" rest] show ?thesis
      by (simp add: range_parts hash_tag_parts brace_encode encode_braces subarray_full
          del: utf8_encode.simps(2))
  qed
qed

lemma slot_bound: "routing_slot_for_key k < 1024"
  by (cases k) (auto simp: slot_bound_word split: prod.splits)

section \<open>The MSET check\<close>

text \<open>The keys of an argument list \<open>k1 v1 k2 v2 \<dots>\<close>.\<close>

fun pair_keys :: "jsval list \<Rightarrow> jsval list" where
  "pair_keys (k # v # rest) = k # pair_keys rest"
| "pair_keys _ = []"

lemma shares_slot_loop_Some:
  "shares_slot_loop (Some w) args c = Inr True \<longleftrightarrow>
    (\<forall>k \<in> set (pair_keys args). \<exists>rk. as_route_key k = Some rk \<and> routing_slot_for_key rk = w)"
proof (induction args rule: pair_keys.induct)
  case (1 k v rest)
  then show ?case by (cases "as_route_key k") (auto simp: Let_def)
qed simp_all

lemma shares_slot_loop_None:
  "shares_slot_loop None (k # v # rest) c = Inr True \<longleftrightarrow>
    (\<exists>rk. as_route_key k = Some rk \<and>
      shares_slot_loop (Some (routing_slot_for_key rk)) rest c = Inr True)"
  by (cases "as_route_key k") (simp_all add: Let_def)

lemma shares_slot_loop_Inl_Some:
  "shares_slot_loop (Some w) args c = Inl e \<Longrightarrow>
    \<exists>k rk. k \<in> set (pair_keys args) \<and> as_route_key k = Some rk \<and> routing_slot_for_key rk \<noteq> w"
proof (induction args rule: pair_keys.induct)
  case (1 k v rest)
  then show ?case by (cases "as_route_key k") (auto simp: Let_def split: if_splits)
qed simp_all

lemma shares_slot_loop_Inl:
  assumes "shares_slot_loop None (k # v # rest) c = Inl e"
  shows "\<exists>k1 k2 r1 r2. k1 \<in> set (pair_keys (k # v # rest)) \<and> k2 \<in> set (pair_keys (k # v # rest)) \<and>
    as_route_key k1 = Some r1 \<and> as_route_key k2 = Some r2 \<and>
    routing_slot_for_key r1 \<noteq> routing_slot_for_key r2"
proof (cases "as_route_key k")
  case (Some rk)
  with assms have "shares_slot_loop (Some (routing_slot_for_key rk)) rest c = Inl e"
    by (simp add: Let_def)
  from shares_slot_loop_Inl_Some [OF this] Some show ?thesis by auto
qed (use assms in simp)

section \<open>Properties\<close>

text \<open>A key given as a string and the same key given as its UTF-8 bytes are routed to the same
  slot, lone surrogates, hash tags and supplementary characters included: the checksum that reads the
  UTF-16 units directly agrees with the checksum of the encoded bytes.\<close>

theorem slot_string_as_buffer:
  "routing_slot_for_key (KeyStr s) = routing_slot_for_key (KeyBuf (utf8_encode s))"
  using string_range_tag [of s] by (cases "string_hash_range s") (simp add: crc32_utf8_subarray)

text \<open>Two keys with the same non-empty hash tag, the text between the first opening brace and
  the next closing brace, are routed to the same slot, whatever surrounds the tag, and the slot is
  one of the 1024.\<close>

theorem same_tag_same_slot:
  assumes "OPEN_BRACE \<notin> set pre" "OPEN_BRACE \<notin> set pre'" "CLOSE_BRACE \<notin> set tag" "tag \<noteq> []"
  shows "routing_slot_for_key (KeyBuf (pre @ OPEN_BRACE # tag @ CLOSE_BRACE # post)) =
      routing_slot_for_key (KeyBuf (pre' @ OPEN_BRACE # tag @ CLOSE_BRACE # post')) \<and>
    routing_slot_for_key key < 1024"
  using assms by (simp add: hash_tag_parts slot_bound)

theorem same_tag_same_slot_witness:
  "routing_slot_for_key (KeyBuf ([1] @ OPEN_BRACE # [2] @ CLOSE_BRACE # [3])) =
      routing_slot_for_key (KeyBuf ([] @ OPEN_BRACE # [2] @ CLOSE_BRACE # [CLOSE_BRACE])) \<and>
    routing_slot_for_key (KeyStr []) < 1024"
  by (rule same_tag_same_slot) simp_all

text \<open>C18. The \<open>MSET\<close> check accepts a command (and remembers it as checked) exactly when all its keys
  have a route and lie on one slot; it rejects it only when two keys lie on different slots.\<close>

theorem mset_check_exact:
  assumes "kvs \<noteq> []" "even (length kvs)"
  shows "(assert_kv_shares_slot False (name # kvs) c = Inr True \<longleftrightarrow>
      (\<exists>slot. \<forall>k \<in> set (pair_keys kvs).
        \<exists>rk. as_route_key k = Some rk \<and> routing_slot_for_key rk = slot)) \<and>
    (\<forall>e. assert_kv_shares_slot False (name # kvs) c = Inl e \<longrightarrow>
      (\<exists>k1 k2 r1 r2. k1 \<in> set (pair_keys kvs) \<and> k2 \<in> set (pair_keys kvs) \<and>
        as_route_key k1 = Some r1 \<and> as_route_key k2 = Some r2 \<and>
        routing_slot_for_key r1 \<noteq> routing_slot_for_key r2))"
proof -
  from assms obtain k v rest where kvs: "kvs = k # v # rest"
    by (cases kvs; cases "tl kvs") auto
  have chk: "assert_kv_shares_slot False (name # kvs) c = shares_slot_loop None kvs c"
    using assms(2) by (simp add: assert_kv_shares_slot_def kvs)
  have iff: "shares_slot_loop None kvs c = Inr True \<longleftrightarrow> (\<exists>slot. \<forall>k \<in> set (pair_keys kvs).
      \<exists>rk. as_route_key k = Some rk \<and> routing_slot_for_key rk = slot)"
    unfolding kvs shares_slot_loop_None shares_slot_loop_Some by auto
  show ?thesis
    unfolding chk iff using shares_slot_loop_Inl [of k v rest c, folded kvs] by blast
qed

theorem mset_check_exact_witness:
  "(assert_kv_shares_slot False (JStr [] # [JBuf [], JNull, JStr [], JNull]) JUndef = Inr True \<longleftrightarrow>
    (\<exists>slot. \<forall>k \<in> set (pair_keys [JBuf [], JNull, JStr [], JNull]).
        \<exists>rk. as_route_key k = Some rk \<and> routing_slot_for_key rk = slot))"
  using mset_check_exact [of "[JBuf [], JNull, JStr [], JNull]" "JStr []" JUndef] by simp

end
