(* ===== verification/CommandGrammar.thy ===== *)
theory CommandGrammar
  imports NumberText CommandCatalog KeySlots "HOL-Library.Sublist"
begin

text \<open>
  Where the keys of a command are (\<open>src/src/command-grammar.ts\<close>): the command name of an argument
  list (one word, or two for the compound prefixes), the trailing size option of FLOW.VALUE.MGET, and
  the key arguments of every command that is routed by its arguments. An argument list is a dense
  array; reading it out of range gives \<open>undefined\<close>.
\<close>

section \<open>Definitions\<close>

definition arg_at :: "jsval list \<Rightarrow> nat \<Rightarrow> jsval" where
  "arg_at args i = (if i < length args then args ! i else JUndef)"

record command_view =
  view_start :: nat
  view_name :: "jsstr option"

definition commandView :: "jsval list \<Rightarrow> command_view" where
  "commandView command =
    (case command_token (arg_at command 0) of
       None \<Rightarrow> \<lparr>view_start = 1, view_name = None\<rparr>
     | Some first \<Rightarrow>
         if has compoundCommandPrefixes first \<and> length command > 1 then
           (case command_token (arg_at command 1) of
              Some second \<Rightarrow> \<lparr>view_start = 2, view_name = Some (first @ ascii ''.'' @ second)\<rparr>
            | None \<Rightarrow> \<lparr>view_start = 1, view_name = Some first\<rparr>)
         else \<lparr>view_start = 1, view_name = Some first\<rparr>)"

text \<open>
  \<open>safeIntegerArgument\<close>. The number \<open>-0\<close> is a safe integer; its readers only compare the result
  with integers and add to it, where it is \<open>0\<close>.
\<close>

definition safe_integer_of :: "int \<Rightarrow> int option" where
  "safe_integer_of i = (if safe_int i then Some i else None)"

definition safe_integer_text :: "jsstr \<Rightarrow> int option" where
  "safe_integer_text s = (if is_integer_text s then safe_integer_of (integer_of_text s) else None)"

fun safeIntegerArgument :: "jsval \<Rightarrow> int option" where
  "safeIntegerArgument (JInt i) = safe_integer_of i"
| "safeIntegerArgument (JFloat w) = (if w = 0x8000000000000000 then Some 0 else None)"
| "safeIntegerArgument (JBig i) = safe_integer_of i"
| "safeIntegerArgument (JStr s) = safe_integer_text s"
| "safeIntegerArgument (JBuf b) = safe_integer_text (utf8_decode b)"
| "safeIntegerArgument (JU8 b) = safe_integer_text (utf8_decode b)"
| "safeIntegerArgument _ = None"

definition isNonNegativeSafeIntegerArgument :: "jsval \<Rightarrow> bool" where
  "isNonNegativeSafeIntegerArgument v =
    (case safeIntegerArgument v of None \<Rightarrow> False | Some parsed \<Rightarrow> parsed \<ge> 0)"

definition token_in :: "catalog \<Rightarrow> jsval \<Rightarrow> bool" where
  "token_in names v = (case command_token v of None \<Rightarrow> False | Some t \<Rightarrow> has names t)"

record value_mget_arguments =
  has_max_bytes :: bool
  max_bytes_arg :: jsval
  mget_refs :: "jsval list"
  mget_suffix :: "jsval list"

definition has_max_bytes_option :: "jsval list \<Rightarrow> nat \<Rightarrow> bool" where
  "has_max_bytes_option args argument_start \<longleftrightarrow>
    argument_start + 2 \<le> length args \<and>
    token_in flowValueMGetMaxBytesTokens (arg_at args (length args - 2)) \<and>
    isNonNegativeSafeIntegerArgument (arg_at args (length args - 1))"

definition splitFlowValueMGetArguments :: "jsval list \<Rightarrow> nat \<Rightarrow> value_mget_arguments" where
  "splitFlowValueMGetArguments args argument_start =
    (if has_max_bytes_option args argument_start
     then \<lparr>has_max_bytes = True, max_bytes_arg = arg_at args (length args - 1),
           mget_refs = subarray argument_start (length args - 2) args,
           mget_suffix = drop (length args - 2) args\<rparr>
     else \<lparr>has_max_bytes = False, max_bytes_arg = JUndef,
           mget_refs = drop argument_start args, mget_suffix = []\<rparr>)"

text \<open>\<open>sortKeys\<close>: the loop over the options after the key.\<close>

function sort_options :: "jsval list \<Rightarrow> jsval list" where
  "sort_options [] = []"
| "sort_options (a # rest) =
    (let token = command_token a in
     if token = Some (ascii ''STORE'') \<and> rest \<noteq> [] then hd rest # sort_options (tl rest)
     else if token = Some (ascii ''BY'') \<or> token = Some (ascii ''GET'') then sort_options (tl rest)
     else if token = Some (ascii ''LIMIT'') then sort_options (drop 2 rest)
     else sort_options rest)"
  by pat_completeness auto
termination
  by (relation "measure length") auto

definition sortKeys :: "jsval list \<Rightarrow> jsval list" where
  "sortKeys args = (if length args < 2 then [] else arg_at args 1 # sort_options (drop 2 args))"

definition bitopKeys :: "jsval list \<Rightarrow> jsval list" where
  "bitopKeys args = (if length args < 4 then [] else drop 2 args)"

definition countedKeys :: "jsval list \<Rightarrow> nat \<Rightarrow> nat \<Rightarrow> bool \<Rightarrow> jsval list" where
  "countedKeys args count_index keys_index include_destination =
    (case safeIntegerArgument (arg_at args count_index) of
       None \<Rightarrow> []
     | Some count \<Rightarrow>
         if count \<le> 0 \<or> int keys_index + count > int (length args) then []
         else (if include_destination then [arg_at args 1] else []) @
           subarray keys_index (keys_index + nat count) args)"

text \<open>\<open>streamReadKeys\<close>: the options before the word STREAMS; \<open>None\<close> where the code returns \<open>[]\<close>.\<close>

function stream_tail :: "bool \<Rightarrow> jsval list \<Rightarrow> jsval list option" where
  "stream_tail grouped [] = None"
| "stream_tail grouped (a # rest) =
    (let token = command_token a in
     if token = Some (ascii ''STREAMS'') then Some rest
     else if token = Some (ascii ''COUNT'') \<or> token = Some (ascii ''BLOCK'') then
       (if rest = [] then None else stream_tail grouped (tl rest))
     else if grouped \<and> token = Some (ascii ''NOACK'') then stream_tail grouped rest
     else None)"
  by pat_completeness auto
termination
  by (relation "measure (length \<circ> snd)") auto

definition stream_half :: "jsval list option \<Rightarrow> jsval list" where
  "stream_half r = (case r of
     None \<Rightarrow> []
   | Some stream_args \<Rightarrow>
       if stream_args = [] \<or> odd (length stream_args) then []
       else take (length stream_args div 2) stream_args)"

definition streamReadKeys :: "jsval list \<Rightarrow> jsval list" where
  "streamReadKeys args =
    (let command = command_token (arg_at args 0) in
     if command = Some (ascii ''XREADGROUP'') then
       (if command_token (arg_at args 1) \<noteq> Some (ascii ''GROUP'') \<or> length args < 5 then []
        else stream_half (stream_tail True (drop 4 args)))
     else if command = Some (ascii ''XREAD'') then stream_half (stream_tail False (drop 1 args))
     else [])"

definition secondKeySubcommands :: "(string \<times> catalog) list" where
  "secondKeySubcommands = [
    (''MEMORY'', [''USAGE'']),
    (''OBJECT'', [''ENCODING'', ''FREQ'', ''IDLETIME'', ''REFCOUNT'']),
    (''XGROUP'', [''CREATE'', ''SETID'', ''DESTROY'', ''CREATECONSUMER'', ''DELCONSUMER'']),
    (''XINFO'', [''STREAM'', ''GROUPS'', ''CONSUMERS''])]"

definition second_key_allowed :: "jsstr \<Rightarrow> jsval \<Rightarrow> bool" where
  "second_key_allowed name arg =
    (case find (\<lambda>e. ascii (fst e) = name) secondKeySubcommands of
       None \<Rightarrow> False | Some e \<Rightarrow> token_in (snd e) arg)"

definition mset_keys :: "jsval list \<Rightarrow> jsval list" where
  "mset_keys args =
    (if length args < 3 \<or> (length args - 1) mod 2 \<noteq> 0 then [] else pair_keys (drop 1 args))"

text \<open>\<open>routingKeyArguments\<close>: \<open>None\<close> for \<open>{ handled: false }\<close>.\<close>

definition routing_key_arguments :: "jsstr \<Rightarrow> jsval list \<Rightarrow> jsval list option" where
  "routing_key_arguments name args =
    (if has [''MGET'', ''DEL'', ''EXISTS'', ''UNLINK''] name then Some (drop 1 args)
     else if has [''MSET'', ''MSETNX''] name then Some (mset_keys args)
     else if name = ascii ''BITOP'' then Some (bitopKeys args)
     else if name = ascii ''SORT'' then Some (sortKeys args)
     else if name = ascii ''SORT_RO'' then Some (subarray 1 2 args)
     else if has twoKeyCommands name then Some (if length args \<ge> 3 then subarray 1 3 args else [])
     else if has [''XREAD'', ''XREADGROUP''] name then Some (streamReadKeys args)
     else if has firstKeyCommands name then Some (subarray 1 2 args)
     else if has secondKeyCommands name then
       Some (if second_key_allowed name (arg_at args 1) then subarray 2 3 args else [])
     else if has trailingArgumentMultiKeyCommands name then
       Some (if length args \<ge> 3 then subarray 1 (length args - 1) args else [])
     else if has allArgumentMultiKeyCommands name then Some (drop 1 args)
     else if has [''BLMPOP'', ''BZMPOP''] name then Some (countedKeys args 2 3 False)
     else if has countedKeyCommands name then Some (countedKeys args 1 2 False)
     else if has destinationCountedKeyCommands name then Some (countedKeys args 2 3 True)
     else None)"

definition routingKeyArguments :: "jsstr option \<Rightarrow> jsval list \<Rightarrow> jsval list option" where
  "routingKeyArguments name args =
    (case name of None \<Rightarrow> None | Some n \<Rightarrow> routing_key_arguments n args)"

definition specializedRoutingCommandNames :: catalog where
  "specializedRoutingCommandNames =
    [''BITOP'', ''SORT'', ''SORT_RO'', ''BLMPOP'', ''BZMPOP'', ''MSET'', ''MSETNX''] @
    countedKeyCommands @ destinationCountedKeyCommands @ [''XREAD'', ''XREADGROUP''] @
    twoKeyCommands @ secondKeyCommands @ trailingArgumentMultiKeyCommands @
    allArgumentMultiKeyCommands @ [''DEL'', ''EXISTS'', ''MGET'', ''UNLINK'']"

section \<open>Lemmas\<close>

lemma has_Cons: "has (n # ns) s \<longleftrightarrow> s = ascii n \<or> has ns s"
  by (auto simp: has_def)

subsection \<open>Keys are arguments, in order\<close>

lemma subseq_subarray: "k \<le> i \<Longrightarrow> subseq (subarray i j xs) (drop k xs)"
proof -
  assume "k \<le> i"
  have "subseq (subarray i j xs) (drop (i - k) (drop k xs))"
    using \<open>k \<le> i\<close> by (simp add: subarray_def take_is_prefix prefix_imp_subseq)
  then show ?thesis
    by (meson subseq_order.order_trans suffix_drop suffix_imp_subseq)
qed

lemma subseq_drop: "k \<le> i \<Longrightarrow> subseq (drop i xs) (drop k xs)"
  using subseq_subarray [of k i "length xs" xs] by (simp add: subarray_def)

lemma subseq_arg_Cons:
  "i < length args \<Longrightarrow> subseq ks (drop (Suc i) args) \<Longrightarrow> subseq (arg_at args i # ks) (drop i args)"
  by (simp add: arg_at_def Cons_nth_drop_Suc [symmetric])

lemma pair_keys_subseq: "subseq (pair_keys xs) xs"
  by (induction xs rule: pair_keys.induct) auto

lemma sort_options_subseq: "subseq (sort_options xs) xs"
proof (induction xs rule: sort_options.induct)
  case (2 a rest)
  have skip: "subseq ys rest \<Longrightarrow> subseq ys (a # rest)" for ys by (rule list_emb_Cons)
  have skip2: "subseq ys (tl rest) \<Longrightarrow> subseq ys (a # rest)" for ys
    by (cases rest) (auto intro: skip list_emb_Cons)
  have skip3: "subseq ys (drop 2 rest) \<Longrightarrow> subseq ys (a # rest)" for ys
    using subseq_drop [of 0 2 rest] skip [of ys] by (auto intro: subseq_order.order_trans)
  have store: "rest \<noteq> [] \<Longrightarrow> subseq ys (tl rest) \<Longrightarrow> subseq (hd rest # ys) (a # rest)" for ys
    by (cases rest) (auto intro: skip)
  let ?token = "command_token a"
  consider "?token = Some (ascii ''STORE'') \<and> rest \<noteq> []"
    | "\<not> (?token = Some (ascii ''STORE'') \<and> rest \<noteq> [])"
      "?token = Some (ascii ''BY'') \<or> ?token = Some (ascii ''GET'')"
    | "\<not> (?token = Some (ascii ''STORE'') \<and> rest \<noteq> [])"
      "\<not> (?token = Some (ascii ''BY'') \<or> ?token = Some (ascii ''GET''))"
      "?token = Some (ascii ''LIMIT'')"
    | "\<not> (?token = Some (ascii ''STORE'') \<and> rest \<noteq> [])"
      "\<not> (?token = Some (ascii ''BY'') \<or> ?token = Some (ascii ''GET''))"
      "?token \<noteq> Some (ascii ''LIMIT'')"
    by blast
  then show ?case
  proof cases
    case 1
    then have "sort_options (a # rest) = hd rest # sort_options (tl rest)" by (simp add: Let_def)
    with store [OF _ 2(1)] 1 show ?thesis by simp
  qed (use 2 skip skip2 skip3 in \<open>simp_all add: Let_def\<close>)
qed simp

lemma stream_tail_suffix: "stream_tail grouped xs = Some ys \<Longrightarrow> suffix ys xs"
proof (induction grouped xs rule: stream_tail.induct)
  case (2 grouped a rest)
  then show ?case
    by (cases rest) (auto simp: Let_def intro: suffix_ConsI split: if_splits)
qed simp

lemma stream_half_subseq: "subseq (stream_half (stream_tail grouped xs)) xs"
proof (cases "stream_tail grouped xs")
  case (Some ys)
  have "subseq (take n ys) ys" for n by (simp add: take_is_prefix prefix_imp_subseq)
  with stream_tail_suffix [OF Some] show ?thesis
    unfolding Some stream_half_def
    by (auto intro: subseq_order.order_trans suffix_imp_subseq)
qed (simp add: stream_half_def)

lemma mset_keys_subseq: "subseq (mset_keys args) (drop 1 args)"
  using pair_keys_subseq by (simp add: mset_keys_def)

lemma sortKeys_subseq: "subseq (sortKeys args) (drop 1 args)"
  using sort_options_subseq [of "drop 2 args"] subseq_arg_Cons [of 1 args]
  by (simp add: sortKeys_def numeral_2_eq_2)

lemma bitopKeys_subseq: "subseq (bitopKeys args) (drop 1 args)"
  using subseq_drop [of 1 2 args] by (simp add: bitopKeys_def)

lemma countedKeys_subseq:
  assumes "1 \<le> keys_index" "include_destination \<Longrightarrow> 2 \<le> keys_index"
  shows "subseq (countedKeys args count_index keys_index include_destination) (drop 1 args)"
proof -
  have "subseq ((if include_destination then [arg_at args 1] else []) @ subarray keys_index j args) (drop 1 args)"
    if "keys_index < length args" for j
  proof (cases include_destination)
    case True
    then have "subseq (subarray keys_index j args) (drop (Suc 1) args)"
      using assms(2) by (intro subseq_subarray) simp
    with True subseq_arg_Cons [of 1 args "subarray keys_index j args"] assms that show ?thesis by simp
  qed (use assms subseq_subarray [of 1 keys_index] in simp)
  then show ?thesis by (auto simp: countedKeys_def split: option.splits)
qed

lemma streamReadKeys_subseq: "subseq (streamReadKeys args) (drop 1 args)"
  using stream_half_subseq [of True "drop 4 args"] stream_half_subseq [of False "drop 1 args"]
    subseq_drop [of 1 4 args]
  by (auto simp: streamReadKeys_def Let_def intro: subseq_order.order_trans)

lemmas key_subseqs = mset_keys_subseq [simplified One_nat_def] sortKeys_subseq [simplified One_nat_def]
  bitopKeys_subseq [simplified One_nat_def] countedKeys_subseq [simplified One_nat_def]
  streamReadKeys_subseq [simplified One_nat_def] subseq_subarray subseq_drop

lemma routing_keys_subseq: "routing_key_arguments name args = Some keys \<Longrightarrow> subseq keys (drop 1 args)"
  unfolding routing_key_arguments_def
  by (auto split: if_splits simp: key_subseqs)

subsection \<open>Every name of the catalogs has a grammar\<close>

lemma specialized_apart: "apart specializedRoutingCommandNames firstKeyCommands"
  unfolding specializedRoutingCommandNames_def countedKeyCommands_def destinationCountedKeyCommands_def
    twoKeyCommands_def secondKeyCommands_def trailingArgumentMultiKeyCommands_def
    allArgumentMultiKeyCommands_def apart_def firstKeyCommands_def
  by simp

lemma routing_key_arguments_None:
  "routing_key_arguments name args = None \<longleftrightarrow>
    \<not> has firstKeyCommands name \<and> \<not> has specializedRoutingCommandNames name"
  by (auto simp: routing_key_arguments_def specializedRoutingCommandNames_def has_Cons)

lemma first_key_arguments:
  assumes "has firstKeyCommands name"
  shows "routing_key_arguments name args = Some (subarray 1 2 args)"
proof -
  have "\<not> has specializedRoutingCommandNames name"
    using apart_has [OF specialized_apart] assms by blast
  then show ?thesis using assms
    by (auto simp: routing_key_arguments_def specializedRoutingCommandNames_def has_Cons)
qed

subsection \<open>The value options of FLOW.VALUE.MGET\<close>

lemma split_value_mget:
  "mget_refs (splitFlowValueMGetArguments args start) @ mget_suffix (splitFlowValueMGetArguments args start) =
    drop start args"
proof (cases "has_max_bytes_option args start")
  case True
  then have len: "start + 2 \<le> length args" by (simp add: has_max_bytes_option_def)
  then have "drop (length args - 2) args = drop (length args - 2 - start) (drop start args)"
    by simp
  with True len show ?thesis
    by (simp only: splitFlowValueMGetArguments_def if_True value_mget_arguments.simps subarray_def append_take_drop_id)
qed (simp add: splitFlowValueMGetArguments_def)

section \<open>Properties\<close>

text \<open>C25. The routing grammar covers the catalogs and invents nothing: a command is handled exactly when
  its name is in one of the two catalogs of routed names; a first-key command is routed by its first
  argument alone, no specialised rule taking precedence; and for every command the keys found are
  arguments after the command name, in their order, none taken twice.\<close>

theorem routing_grammar:
  "(routingKeyArguments (Some name) args = None \<longleftrightarrow>
      \<not> has firstKeyCommands name \<and> \<not> has specializedRoutingCommandNames name) \<and>
    (has firstKeyCommands name \<longrightarrow> routingKeyArguments (Some name) args = Some (subarray 1 2 args)) \<and>
    (\<forall>keys. routingKeyArguments (Some name) args = Some keys \<longrightarrow> subseq keys (drop 1 args))"
  unfolding routingKeyArguments_def option.case
  using routing_key_arguments_None first_key_arguments routing_keys_subseq by metis

theorem routing_grammar_witness:
  "routingKeyArguments (Some (ascii ''GET'')) [JStr (ascii ''GET''), JStr (ascii ''k'')] = Some [JStr (ascii ''k'')] \<and>
    subseq [JStr (ascii ''k'')] (drop 1 [JStr (ascii ''GET''), JStr (ascii ''k'')])"
proof -
  let ?args = "[JStr (ascii ''GET''), JStr (ascii ''k'')]"
  have "has firstKeyCommands (ascii ''GET'')" by (simp add: firstKeyCommands_def)
  with routing_grammar [of "ascii ''GET''" ?args]
  have "routingKeyArguments (Some (ascii ''GET'')) ?args = Some (subarray 1 2 ?args)" by blast
  then have get: "routingKeyArguments (Some (ascii ''GET'')) ?args = Some [JStr (ascii ''k'')]"
    by (simp add: subarray_def)
  with routing_grammar [of "ascii ''GET''" ?args] show ?thesis by blast
qed

end
