(* ===== verification/CommandPolicy.thy ===== *)
theory CommandPolicy
  imports CommandGrammar
begin

text \<open>
  Which commands may run where: the HTTP transport (\<open>src/src/http-command-policy.ts\<close>), pooled and
  reconnecting connections (\<open>src/src/protocol-connection-policy.ts\<close>) and automatic replay
  (\<open>src/src/command-retry-policy.ts\<close>).
\<close>

section \<open>HTTP\<close>

datatype http_disposition = Supported | NativeOnly

definition httpCommandDisposition :: "jsstr \<Rightarrow> http_disposition" where
  "httpCommandDisposition name =
    (let normalized = to_upper name in
     if has nativeOnlyCommands normalized \<or> has sessionOnlyCommands normalized then NativeOnly else Supported)"

definition assertHTTPCommandSupported :: "jsval \<Rightarrow> unit res" where
  "assertHTTPCommandSupported name =
    (case command_token name of
       None \<Rightarrow> Inl (Thrown TypeErr ''HTTP command must have a name'' [])
     | Some normalized \<Rightarrow>
         if normalized = [] then Inl (Thrown TypeErr ''HTTP command must have a name'' [])
         else if has sessionOnlyCommands normalized then
           Inl (Thrown InvalidCommandError ''requires a persistent native TCP session'' [JStr normalized])
         else if has nativeOnlyCommands normalized then
           Inl (Thrown InvalidCommandError ''is a native TCP transport control command'' [JStr normalized])
         else Inr ())"

section \<open>Connection state\<close>

definition connectionScopedCommandName :: "jsval list \<Rightarrow> jsstr option \<Rightarrow> jsstr option" where
  "connectionScopedCommandName args outer =
    (let index = (if outer = Some (ascii ''COMMAND_EXEC'') then 1 else 0);
         command = (if outer = Some (ascii ''COMMAND_EXEC'') then command_name (arg_at args 1) else outer)
     in if command = Some (ascii ''CLIENT'') \<and> command_name (arg_at args (index + 1)) = Some (ascii ''SETNAME'')
        then Some (ascii ''CLIENT.SETNAME'') else command)"

definition name_in :: "catalog \<Rightarrow> jsstr option \<Rightarrow> bool" where
  "name_in names command = (case command of None \<Rightarrow> False | Some c \<Rightarrow> has names c)"

definition commandRequiresDedicatedConnection :: "jsval list \<Rightarrow> jsstr option \<Rightarrow> bool" where
  "commandRequiresDedicatedConnection args outer =
    (let command = connectionScopedCommandName args outer in
     name_in connectionPinnedCommands command \<or> name_in connectionStateMutationCommands command)"

definition commandMutatesConnectionState :: "jsval list \<Rightarrow> bool" where
  "commandMutatesConnectionState args =
    name_in connectionStateMutationCommands (connectionScopedCommandName args (command_name (arg_at args 0)))"

definition assertNormalizedNotPinned :: "jsval list \<Rightarrow> jsstr option \<Rightarrow> unit res" where
  "assertNormalizedNotPinned args outer =
    (case connectionScopedCommandName args outer of
       None \<Rightarrow> Inr ()
     | Some command \<Rightarrow>
         if has connectionPinnedCommands command then
           Inl (Thrown InvalidCommandError ''requires a pinned connection session'' [JStr command])
         else Inr ())"

definition assertNotPinned :: "jsval list \<Rightarrow> unit res" where
  "assertNotPinned args = assertNormalizedNotPinned args (command_name (arg_at args 0))"

definition dots_to_spaces :: "jsstr \<Rightarrow> jsstr" where
  "dots_to_spaces s = map (\<lambda>u. if u = 0x2E then 0x20 else u) s"

definition assertStableConnectionState :: "jsval list \<Rightarrow> unit res" where
  "assertStableConnectionState args =
    (case connectionScopedCommandName args (command_name (arg_at args 0)) of
       None \<Rightarrow> Inr ()
     | Some command \<Rightarrow>
         if has connectionStateMutationCommands command then
           Inl (Thrown InvalidCommandError ''requires a stable single connection'' [JStr (dots_to_spaces command)])
         else Inr ())"

section \<open>Compare-and-set commands\<close>

fun cas_options :: "jsval list \<Rightarrow> bool" where
  "cas_options [] = False"
| "cas_options (a # rest) =
    (if a = JHole then False
     else if command_name a = Some (ascii ''EXPECTED_GENERATION'') then True
     else cas_options (drop 1 rest))"

definition isCasMutation :: "jsval list \<Rightarrow> bool" where
  "isCasMutation args =
    (let offset = (if command_name (arg_at args 0) = Some (ascii ''COMMAND_EXEC'') then 1 else 0);
         name = command_name (arg_at args offset)
     in if name = Some (ascii ''CAS'') then True
        else if name \<noteq> Some (ascii ''FLOW.POLICY.SET'') then False
        else cas_options (drop (offset + 2) args))"

section \<open>Lemmas\<close>

lemma name_in_simps [simp]: "\<not> name_in names None" "name_in names (Some c) = has names c"
  by (simp_all add: name_in_def)

lemma pinned_within_session: "within connectionPinnedCommands sessionOnlyCommands"
  by (simp add: within_def connectionPinnedCommands_def sessionOnlyCommands_def)

lemma state_within_http: "within connectionStateMutationCommands (nativeOnlyCommands @ sessionOnlyCommands)"
  by (simp add: within_def connectionStateMutationCommands_def nativeOnlyCommands_def sessionOnlyCommands_def)

lemma http_rejects:
  assumes "command_token v = Some c" "c = [] \<or> has nativeOnlyCommands c \<or> has sessionOnlyCommands c"
  shows "\<exists>e. assertHTTPCommandSupported v = Inl e"
  using assms by (auto simp: assertHTTPCommandSupported_def)

lemma list_all_drop1: "list_all p xs \<Longrightarrow> list_all p (drop 1 xs)"
  by (cases xs) auto

lemma cas_options_iff:
  "list_all (\<lambda>x. x \<noteq> JHole) xs \<Longrightarrow> cas_options xs \<longleftrightarrow>
    (\<exists>i < length xs. even i \<and> command_name (xs ! i) = Some (ascii ''EXPECTED_GENERATION''))"
proof (induction xs rule: cas_options.induct)
  case (2 a rest)
  have split: "(\<exists>i < length (a # rest). even i \<and> P ((a # rest) ! i)) \<longleftrightarrow>
      P a \<or> (\<exists>i < length (drop 1 rest). even i \<and> P (drop 1 rest ! i))" for P
  proof (cases rest)
    case (Cons b more)
    have "(\<exists>i < Suc (Suc n). even i \<and> Q i) \<longleftrightarrow> Q 0 \<or> (\<exists>i < n. even i \<and> Q (Suc (Suc i)))" for n and Q :: "nat \<Rightarrow> bool"
    proof
      assume "\<exists>i < Suc (Suc n). even i \<and> Q i"
      then obtain i where "i < Suc (Suc n)" "even i" "Q i" by blast
      then show "Q 0 \<or> (\<exists>i < n. even i \<and> Q (Suc (Suc i)))"
        by (cases i; cases "i - 1") auto
    qed force
    then show ?thesis by (simp add: Cons)
  qed simp
  have "a \<noteq> JHole" and rest: "list_all (\<lambda>x. x \<noteq> JHole) (drop 1 rest)"
    using 2(2) list_all_drop1 [of _ rest] by auto
  then show ?case
    using 2(1) [OF _ _ rest]
    unfolding split [of "\<lambda>x. command_name x = Some (ascii ''EXPECTED_GENERATION'')"]
    by (cases "command_name a = Some (ascii ''EXPECTED_GENERATION'')") (simp_all only: cas_options.simps if_False if_True, simp_all)
qed simp

text \<open>The name a wrapped command has when it is sent through COMMAND_EXEC.\<close>

lemma arg_at_Cons [simp]: "arg_at (a # args) 0 = a" "arg_at (a # args) (Suc i) = arg_at args i"
  by (simp_all add: arg_at_def)

lemma upper_policy_names: "upper_names (connectionPinnedCommands @ connectionStateMutationCommands)"
  by (simp add: upper_names_def connectionPinnedCommands_def connectionStateMutationCommands_def)

lemma dedicated_not_http:
  assumes "commandRequiresDedicatedConnection args outer"
  shows "\<exists>name. connectionScopedCommandName args outer = Some name \<and> httpCommandDisposition name = NativeOnly"
proof -
  from assms obtain name where name: "connectionScopedCommandName args outer = Some name"
    and has: "has (connectionPinnedCommands @ connectionStateMutationCommands) name"
    by (cases "connectionScopedCommandName args outer") (auto simp: commandRequiresDedicatedConnection_def Let_def)
  have "has sessionOnlyCommands name \<or> has (nativeOnlyCommands @ sessionOnlyCommands) name"
    using has within_has [OF pinned_within_session] within_has [OF state_within_http] by auto
  moreover have "to_upper name = name" by (rule upper_names_has [OF upper_policy_names has])
  ultimately show ?thesis using name by (auto simp: httpCommandDisposition_def Let_def)
qed

section \<open>Properties\<close>

text \<open>A command needs a connection of its own exactly when the multiplexed client rejects it as
  pinned or the pooled client rejects it as changing connection state; and the HTTP transport has
  none of these commands: under the name they have there they are for the native transport only.\<close>

theorem dedicated_commands_are_rejected:
  "(commandRequiresDedicatedConnection args (command_name (arg_at args 0)) \<longleftrightarrow>
      assertNotPinned args \<noteq> Inr () \<or> assertStableConnectionState args \<noteq> Inr ()) \<and>
    (commandRequiresDedicatedConnection args outer \<longrightarrow>
      (\<exists>name. connectionScopedCommandName args outer = Some name \<and> httpCommandDisposition name = NativeOnly))"
  using dedicated_not_http [of args outer]
  by (auto simp: commandRequiresDedicatedConnection_def Let_def assertNotPinned_def assertNormalizedNotPinned_def
      assertStableConnectionState_def split: option.splits)

theorem dedicated_commands_are_rejected_witness:
  "let args = [JStr (ascii ''COMMAND_EXEC''), JStr (ascii ''WATCH''), JStr (ascii ''k'')] in
   connectionScopedCommandName args (Some (ascii ''COMMAND_EXEC'')) = Some (ascii ''WATCH'') \<and>
   httpCommandDisposition (ascii ''WATCH'') = NativeOnly"
proof -
  let ?args = "[JStr (ascii ''COMMAND_EXEC''), JStr (ascii ''WATCH''), JStr (ascii ''k'')]"
  have up: "to_upper (ascii ''WATCH'') = ascii ''WATCH''" by (rule to_upper_ascii) simp
  have scoped: "connectionScopedCommandName ?args (Some (ascii ''COMMAND_EXEC'')) = Some (ascii ''WATCH'')"
    by (simp add: connectionScopedCommandName_def Let_def command_name_def up)
  then have "commandRequiresDedicatedConnection ?args (Some (ascii ''COMMAND_EXEC''))"
    by (simp add: commandRequiresDedicatedConnection_def Let_def connectionPinnedCommands_def)
  with dedicated_commands_are_rejected [of ?args "Some (ascii ''COMMAND_EXEC'')"] scoped
  show ?thesis by (simp add: Let_def)
qed

text \<open>A compare-and-set is recognised wherever it stands: a CAS, or a FLOW.POLICY.SET with the option
  EXPECTED_GENERATION among its option names (every second argument after the flow type), and nothing
  else; and wrapping a command in COMMAND_EXEC does not change the answer.\<close>

theorem cas_mutation_exact:
  assumes "list_all (\<lambda>x. x \<noteq> JHole) args"
    and "command_name (arg_at args 0) \<noteq> Some (ascii ''COMMAND_EXEC'')"
    and "command_name wrapper = Some (ascii ''COMMAND_EXEC'')"
  shows "(isCasMutation args \<longleftrightarrow>
      command_name (arg_at args 0) = Some (ascii ''CAS'') \<or>
      command_name (arg_at args 0) = Some (ascii ''FLOW.POLICY.SET'') \<and>
        (\<exists>i. 2 \<le> i \<and> i < length args \<and> even i \<and>
          command_name (args ! i) = Some (ascii ''EXPECTED_GENERATION''))) \<and>
    isCasMutation (wrapper # args) = isCasMutation args"
proof -
  have "list_all (\<lambda>x. x \<noteq> JHole) (drop 2 args)"
    using assms(1) by (auto simp: list_all_iff dest: in_set_dropD)
  note options = cas_options_iff [OF this]
  have "(\<exists>i < length (drop 2 args). even i \<and> P (drop 2 args ! i)) \<longleftrightarrow>
      (\<exists>i. 2 \<le> i \<and> i < length args \<and> even i \<and> P (args ! i))" for P
  proof
    assume "\<exists>i < length (drop 2 args). even i \<and> P (drop 2 args ! i)"
    then obtain i where "i < length (drop 2 args)" "even i" "P (drop 2 args ! i)" by blast
    then show "\<exists>i. 2 \<le> i \<and> i < length args \<and> even i \<and> P (args ! i)"
      by (intro exI [of _ "i + 2"]) (auto simp: add.commute)
  next
    assume "\<exists>i. 2 \<le> i \<and> i < length args \<and> even i \<and> P (args ! i)"
    then obtain i where "2 \<le> i" "i < length args" "even i" "P (args ! i)" by blast
    then show "\<exists>i < length (drop 2 args). even i \<and> P (drop 2 args ! i)"
      by (intro exI [of _ "i - 2"]) (auto simp: Suc_diff_Suc numeral_2_eq_2)
  qed
  then have "cas_options (drop 2 args) \<longleftrightarrow> (\<exists>i. 2 \<le> i \<and> i < length args \<and> even i \<and>
      command_name (args ! i) = Some (ascii ''EXPECTED_GENERATION''))"
    unfolding options .
  with assms(2,3) show ?thesis
    by (auto simp: isCasMutation_def Let_def numeral_3_eq_3 numeral_2_eq_2)
qed

theorem cas_mutation_exact_witness:
  "isCasMutation [JStr (ascii ''COMMAND_EXEC''), JStr (ascii ''CAS'')] = isCasMutation [JStr (ascii ''CAS'')]"
proof -
  have "to_upper (ascii ''COMMAND_EXEC'') = ascii ''COMMAND_EXEC''" "to_upper (ascii ''CAS'') = ascii ''CAS''"
    by (rule to_upper_ascii, simp)+
  then show ?thesis
    using cas_mutation_exact [of "[JStr (ascii ''CAS'')]" "JStr (ascii ''COMMAND_EXEC'')"]
    by (simp add: command_name_def)
qed

end
