(* ===== verification/Errors.thy ===== *)
theory Errors
  imports NumberText CommandCatalog "HOL-Library.Sublist"
begin

text \<open>
  The errors of the SDK (\<open>src/src/errors.ts\<close>): the constructors of the error classes with the retry
  advice they derive from the server's response, the classification of a server error by status,
  structured code and message text, and the mapping of foreign exceptions. Also the retry decisions
  taken from an error (\<open>src/src/topology-options.ts\<close>, \<open>src/src/topology-reroute-retry.ts\<close>).
\<close>

section \<open>Regular expressions used on messages\<close>

text \<open>\<open>text.contains(part)\<close>.\<close>

fun contains :: "jsstr \<Rightarrow> jsstr \<Rightarrow> bool" where
  "contains [] part = (part = [])"
| "contains (c # cs) part = (prefix part (c # cs) \<or> contains cs part)"

text \<open>The classes \<open>\w\<close> and \<open>\s\<close>, for the character at an end of a match or its absence.\<close>

definition is_word_unit :: "16 word \<Rightarrow> bool" where
  "is_word_unit c \<longleftrightarrow> (0x30 \<le> c \<and> c \<le> 0x39) \<or> (0x41 \<le> c \<and> c \<le> 0x5A) \<or> c = 0x5F \<or> (0x61 \<le> c \<and> c \<le> 0x7A)"

definition is_space_unit :: "16 word \<Rightarrow> bool" where
  "is_space_unit c \<longleftrightarrow> (0x9 \<le> c \<and> c \<le> 0xD) \<or> c = 0x20 \<or> c = 0xA0 \<or> c = 0x1680 \<or>
    (0x2000 \<le> c \<and> c \<le> 0x200A) \<or> c = 0x2028 \<or> c = 0x2029 \<or> c = 0x202F \<or> c = 0x205F \<or>
    c = 0x3000 \<or> c = 0xFEFF"

definition edge :: "(16 word \<Rightarrow> bool) \<Rightarrow> 16 word option \<Rightarrow> bool" where
  "edge p c = (case c of None \<Rightarrow> False | Some u \<Rightarrow> p u)"

definition next_unit :: "jsstr \<Rightarrow> 16 word option" where
  "next_unit s = (case s of [] \<Rightarrow> None | c # cs \<Rightarrow> Some c)"

text \<open>\<open>exec\<close>: the leftmost position at which a pattern, given the unit before it, matches.\<close>

fun search :: "(16 word option \<Rightarrow> jsstr \<Rightarrow> 'a option) \<Rightarrow> 16 word option \<Rightarrow> jsstr \<Rightarrow> 'a option" where
  "search m before [] = m before []"
| "search m before (c # cs) = (case m before (c # cs) of Some r \<Rightarrow> Some r | None \<Rightarrow> search m (Some c) cs)"

fun strip :: "jsstr \<Rightarrow> jsstr \<Rightarrow> jsstr option" where
  "strip [] s = Some s"
| "strip (p # ps) (c # cs) = (if p = c then strip ps cs else None)"
| "strip (p # ps) [] = None"

text \<open>\<open>\boverloaded\b\<close> and \<open>(?:^|\s)busy(?:\s|:|$)\<close>.\<close>

definition whole_word :: "string \<Rightarrow> 16 word option \<Rightarrow> jsstr \<Rightarrow> unit option" where
  "whole_word w before s =
    (case strip (ascii w) s of
       None \<Rightarrow> None
     | Some rest \<Rightarrow>
         if edge is_word_unit before \<or> edge is_word_unit (next_unit rest) then None else Some ())"

definition busy_word :: "16 word option \<Rightarrow> jsstr \<Rightarrow> unit option" where
  "busy_word before s =
    (case strip (ascii ''busy'') s of
       None \<Rightarrow> None
     | Some rest \<Rightarrow>
         if (before = None \<or> edge is_space_unit before) \<and>
            (rest = [] \<or> edge is_space_unit (next_unit rest) \<or> next_unit rest = Some 0x3A)
         then Some () else None)"

definition overloadMessage :: "jsstr \<Rightarrow> bool" where
  "overloadMessage message \<longleftrightarrow>
    search (whole_word ''overloaded'') None message \<noteq> None \<or> search busy_word None message \<noteq> None"

text \<open>\<open>\bname=([0-9]+)\b\<close>: a run of digits that ends at a word boundary is the whole run.\<close>

definition nonNegativeSafeIntegerText :: "jsstr \<Rightarrow> int option" where
  "nonNegativeSafeIntegerText s =
    (if s = [] \<or> \<not> list_all is_digit s then None
     else if int (digits_value s) \<le> MAX_SAFE then Some (int (digits_value s)) else None)"

definition digits_field :: "string \<Rightarrow> 16 word option \<Rightarrow> jsstr \<Rightarrow> jsstr option" where
  "digits_field name before s =
    (case strip (ascii name @ ascii ''='') s of
       None \<Rightarrow> None
     | Some rest \<Rightarrow>
         if edge is_word_unit before \<or> takeWhile is_digit rest = [] \<or>
            edge is_word_unit (next_unit (dropWhile is_digit rest)) then None
         else Some (takeWhile is_digit rest))"

definition intField :: "jsstr \<Rightarrow> string \<Rightarrow> int option" where
  "intField message name =
    (case search (digits_field name) None message of None \<Rightarrow> None | Some ds \<Rightarrow> nonNegativeSafeIntegerText ds)"

text \<open>\<open>\bname=([a-z0-9_:-]+)\b\<close>: the longest part of the run that ends at a word boundary.\<close>

definition is_field_unit :: "16 word \<Rightarrow> bool" where
  "is_field_unit c \<longleftrightarrow> (0x61 \<le> c \<and> c \<le> 0x7A) \<or> (0x30 \<le> c \<and> c \<le> 0x39) \<or> c = 0x5F \<or> c = 0x3A \<or> c = 0x2D"

fun longest_to_boundary :: "nat \<Rightarrow> jsstr \<Rightarrow> jsstr option" where
  "longest_to_boundary 0 rest = None"
| "longest_to_boundary (Suc n) rest =
    (if is_word_unit (rest ! n) \<noteq> edge is_word_unit (next_unit (drop (Suc n) rest))
     then Some (take (Suc n) rest) else longest_to_boundary n rest)"

definition text_field :: "string \<Rightarrow> 16 word option \<Rightarrow> jsstr \<Rightarrow> jsstr option" where
  "text_field name before s =
    (case strip (ascii name @ ascii ''='') s of
       None \<Rightarrow> None
     | Some rest \<Rightarrow>
         if edge is_word_unit before then None
         else longest_to_boundary (length (takeWhile is_field_unit rest)) rest)"

definition stringField :: "jsstr \<Rightarrow> string \<Rightarrow> jsstr option" where
  "stringField message name = search (text_field name) None message"

section \<open>Fields of a structured response\<close>

fun binaryText :: "jsval \<Rightarrow> jsstr option" where
  "binaryText (JStr s) = Some s"
| "binaryText (JBuf b) = Some (utf8_decode b)"
| "binaryText (JU8 b) = Some (utf8_decode b)"
| "binaryText _ = None"

definition map_entry :: "(jsval \<Rightarrow> bool) \<Rightarrow> (jsval \<times> jsval) list \<Rightarrow> jsval option" where
  "map_entry p kvs = map_option snd (find (\<lambda>kv. p (fst kv)) kvs)"

fun structuredField :: "jsval \<Rightarrow> string \<Rightarrow> jsval" where
  "structuredField (JMap kvs) name =
    (case map_entry (\<lambda>k. k = JStr (ascii name)) kvs of
       Some v \<Rightarrow> v
     | None \<Rightarrow>
         (case map_entry (\<lambda>k. binaryText k = Some (ascii name)) kvs of Some v \<Rightarrow> v | None \<Rightarrow> JUndef))"
| "structuredField (JObj kvs) name = (case own (ascii name) kvs of Some v \<Rightarrow> v | None \<Rightarrow> JUndef)"
| "structuredField _ name = JUndef"

text \<open>A number \<open>-0\<close> is a safe integer and not negative; it is \<open>0\<close> to every reader of the field.\<close>

definition structuredIntegerField :: "jsval \<Rightarrow> string \<Rightarrow> int option" where
  "structuredIntegerField raw name =
    (let v = structuredField raw name in
     case v of
       JInt i \<Rightarrow> if safe_int i \<and> i \<ge> 0 then Some i else None
     | JFloat w \<Rightarrow> if w = 0x8000000000000000 then Some 0 else None
     | JBig i \<Rightarrow> if i \<ge> 0 \<and> i \<le> MAX_SAFE then Some i else None
     | _ \<Rightarrow> (case binaryText v of None \<Rightarrow> None | Some s \<Rightarrow> nonNegativeSafeIntegerText s))"

definition boolean_text :: "jsstr \<Rightarrow> bool option" where
  "boolean_text s =
    (let t = to_lower s in
     if t = ascii ''true'' \<or> t = ascii ''1'' then Some True
     else if t = ascii ''false'' \<or> t = ascii ''0'' then Some False else None)"

definition structuredBooleanField :: "jsval \<Rightarrow> string \<Rightarrow> bool option" where
  "structuredBooleanField raw name =
    (let v = structuredField raw name in
     case v of
       JBool b \<Rightarrow> Some b
     | _ \<Rightarrow> (case binaryText v of None \<Rightarrow> None | Some s \<Rightarrow> boolean_text s))"

definition structuredStringField :: "jsval \<Rightarrow> string \<Rightarrow> jsstr option" where
  "structuredStringField raw name = binaryText (structuredField raw name)"

section \<open>Error objects\<close>

datatype disposition = Unsent | PossiblySent

record sdk_error =
  err_class :: err_class
  err_message :: jsstr
  err_raw :: jsval
  err_cause :: jsval
  err_retryable :: "bool option"
  err_safe_to_retry :: "bool option"
  err_retry_after_ms :: "int option"
  err_disposition :: "disposition option"
  err_reason :: "jsstr option"

record err_options =
  opt_raw :: jsval
  opt_cause :: jsval
  opt_retryable :: "bool option"
  opt_safe_to_retry :: "bool option"
  opt_retry_after_ms :: "int option"

definition raw_options :: "jsval \<Rightarrow> jsval \<Rightarrow> err_options" where
  "raw_options raw cause = \<lparr>opt_raw = raw, opt_cause = cause, opt_retryable = None,
    opt_safe_to_retry = None, opt_retry_after_ms = None\<rparr>"

text \<open>The operator \<open>??\<close> on optional values.\<close>

definition or_else :: "'a option \<Rightarrow> 'a option \<Rightarrow> 'a option" where
  "or_else a b = (case a of None \<Rightarrow> b | Some x \<Rightarrow> Some x)"

lemma or_else_simps [simp]:
  "or_else None b = b" "or_else (Some x) b = Some x" "or_else a None = a" "or_else a a = a"
  by (auto simp: or_else_def split: option.split)

lemma or_else_assoc: "or_else (or_else a b) a = or_else a b"
  by (cases a) (auto simp: or_else_def split: option.split)

definition new_error :: "err_class \<Rightarrow> jsstr \<Rightarrow> err_options \<Rightarrow> sdk_error" where
  "new_error cls msg opts = \<lparr>err_class = cls, err_message = msg, err_raw = opt_raw opts,
    err_cause = opt_cause opts,
    err_retryable = or_else (opt_retryable opts) (structuredBooleanField (opt_raw opts) ''retryable''),
    err_safe_to_retry =
      or_else (opt_safe_to_retry opts) (structuredBooleanField (opt_raw opts) ''safe_to_retry''),
    err_retry_after_ms =
      or_else (opt_retry_after_ms opts) (structuredIntegerField (opt_raw opts) ''retry_after_ms''),
    err_disposition = None, err_reason = None\<rparr>"

definition http_transport_error :: "jsstr \<Rightarrow> err_options \<Rightarrow> disposition option \<Rightarrow> sdk_error" where
  "http_transport_error msg opts disp =
    (new_error HTTPTransportError msg (opts\<lparr>
        opt_retryable := or_else (opt_retryable opts) (if disp = Some Unsent then Some False else None),
        opt_safe_to_retry := or_else (opt_safe_to_retry opts)
          (map_option (\<lambda>d. d = Unsent) disp)\<rparr>))
      \<lparr>err_disposition := disp\<rparr>"

definition connection_closed_error :: "disposition \<Rightarrow> jsval \<Rightarrow> jsval \<Rightarrow> jsstr option \<Rightarrow> sdk_error" where
  "connection_closed_error disp raw cause msg =
    (new_error ConnectionClosedError
      (case msg of Some m \<Rightarrow> m
        | None \<Rightarrow> if disp = Unsent then ascii ''FerricStore connection is closed''
                  else ascii ''FerricStore connection closed'')
      (raw_options raw cause))\<lparr>err_disposition := Some disp\<rparr>"

definition request_timeout_error :: "int \<Rightarrow> disposition \<Rightarrow> jsval \<Rightarrow> jsval \<Rightarrow> sdk_error" where
  "request_timeout_error timeout_ms disp raw cause =
    (new_error RequestTimeoutError
      (ascii ''FerricStore request timed out after '' @ number_text (JInt timeout_ms) @ ascii ''ms'')
      (raw_options raw cause))\<lparr>err_disposition := Some disp\<rparr>"

definition request_not_sent_error :: "jsstr \<Rightarrow> jsval \<Rightarrow> jsval \<Rightarrow> sdk_error" where
  "request_not_sent_error msg raw cause =
    (new_error RequestNotSentError msg
      ((raw_options raw cause)\<lparr>opt_retryable := Some False, opt_safe_to_retry := Some True\<rparr>))
      \<lparr>err_disposition := Some Unsent\<rparr>"

definition overloaded_error :: "jsstr \<Rightarrow> err_options \<Rightarrow> jsstr option \<Rightarrow> sdk_error" where
  "overloaded_error msg opts reason =
    (let local = nullish (opt_raw opts);
         default = (if local then Some True else None)
     in (new_error OverloadedError msg (opts\<lparr>
          opt_retryable := or_else (opt_retryable opts) default,
          opt_safe_to_retry := or_else (opt_safe_to_retry opts) default\<rparr>))\<lparr>err_reason := reason\<rparr>)"

section \<open>Classification of server errors\<close>

definition isBusyStatus :: "jsval \<Rightarrow> bool" where
  "isBusyStatus status =
    (case status of JInt i \<Rightarrow> i = 4
     | JStr s \<Rightarrow> s = ascii ''4'' \<or> to_lower s = ascii ''busy'' | _ \<Rightarrow> False)"

definition isRerouteStatus :: "jsval \<Rightarrow> bool" where
  "isRerouteStatus status =
    (case status of JInt i \<Rightarrow> i = 5
     | JStr s \<Rightarrow> s = ascii ''5'' \<or> to_lower s = ascii ''reroute'' | _ \<Rightarrow> False)"

definition isOverloadCode :: "jsstr option \<Rightarrow> bool" where
  "isOverloadCode code = (case code of None \<Rightarrow> False | Some c \<Rightarrow> has OVERLOAD_CODES (to_lower c))"

definition code_in :: "catalog \<Rightarrow> jsstr option \<Rightarrow> bool" where
  "code_in names code = (case code of None \<Rightarrow> False | Some c \<Rightarrow> has names c)"

definition says :: "string \<Rightarrow> jsstr \<Rightarrow> bool" where
  "says phrase lower = contains lower (ascii phrase)"

text \<open>The class a server error gets, from its status, its structured code and its lower-case message.\<close>

definition server_error_class :: "jsval \<Rightarrow> jsstr option \<Rightarrow> jsstr \<Rightarrow> err_class" where
  "server_error_class status structured_code lower =
    (let code = map_option to_lower structured_code in
     if isRerouteStatus status \<or> code_in [''reroute''] code then RerouteError
     else if isBusyStatus status \<or> isOverloadCode structured_code \<or> overloadMessage lower then OverloadedError
     else if code_in [''flow_already_exists''] code \<or> (says ''flow'' lower \<and> says ''already exists'' lower)
       then FlowAlreadyExistsError
     else if says ''flow wrong state'' lower \<or> code_in [''flow_wrong_state''] code
       then FlowWrongStateError
     else if code_in [''stale_lease'', ''stale_flow_lease''] code \<or> says ''stale flow lease'' lower \<or>
         says ''stale lease'' lower \<or> says ''stale token'' lower then StaleLeaseError
     else if code_in [''stale_generation'', ''stale_policy_generation'', ''stale_flow_policy_generation''] code \<or>
         says ''stale flow policy generation'' lower \<or> says ''stale policy generation'' lower
       then StalePolicyGenerationError
     else if code_in [''flow_not_found''] code \<or>
         (says ''flow'' lower \<and> (says ''not found'' lower \<or> says ''does not exist'' lower))
       then FlowNotFoundError
     else if code_in [''lock_held''] code \<or> says ''lock is held'' lower \<or> says ''held by another owner'' lower
       then LockHeldError
     else if code_in [''lock_not_owned''] code \<or> says ''not the lock owner'' lower \<or>
         says ''caller is not the lock owner'' lower then LockNotOwnedError
     else if code_in [''invalid_command''] code \<or> says ''wrong number of arguments'' lower \<or>
         says ''syntax error'' lower then InvalidCommandError
     else FerricStoreError)"

definition classifyServerError :: "jsstr \<Rightarrow> jsval \<Rightarrow> jsval \<Rightarrow> jsval \<Rightarrow> sdk_error" where
  "classifyServerError msg raw cause status =
    (let lower = to_lower msg;
         structured_code = structuredStringField raw ''code'';
         retry_after = or_else (structuredIntegerField raw ''retry_after_ms'') (intField lower ''retry_after_ms'');
         opts = (raw_options raw cause)\<lparr>
           opt_retryable := structuredBooleanField raw ''retryable'',
           opt_safe_to_retry := structuredBooleanField raw ''safe_to_retry'',
           opt_retry_after_ms := retry_after\<rparr>;
         cls = server_error_class status structured_code lower
     in if cls = OverloadedError then
          overloaded_error msg opts
            (or_else (or_else (structuredStringField raw ''reason'') structured_code) (stringField lower ''reason''))
        else if cls = RerouteError \<or> cls = FerricStoreError then new_error cls msg opts
        else new_error cls msg (raw_options raw cause))"

text \<open>
  What is thrown or rejected with: an error of the SDK, another \<open>Error\<close> object with its name, message
  and own properties, or a value that is not an \<open>Error\<close>.
\<close>

datatype thrown = Sdk sdk_error | Foreign jsstr jsstr "(jsstr \<times> jsval) list" | Value jsval

definition server_like :: "jsstr \<Rightarrow> jsstr \<Rightarrow> bool" where
  "server_like name msg \<longleftrightarrow> name = ascii ''ResponseError'' \<or> prefix (ascii ''ERR '') msg \<or>
    prefix (ascii ''WRONGTYPE '') msg \<or> prefix (ascii ''DISTLOCK '') msg"

fun mapException :: "thrown \<Rightarrow> thrown" where
  "mapException (Sdk e) = Sdk e"
| "mapException (Value v) = Value v"
| "mapException (Foreign name msg props) =
    (if server_like name msg then Sdk (classifyServerError msg (JObj props) (JObj props) JUndef)
     else Foreign name msg props)"

section \<open>Retry decisions\<close>

definition not_leader :: "16 word option \<Rightarrow> jsstr \<Rightarrow> unit option" where
  "not_leader before s =
    (case whole_word ''not leader'' before s of Some u \<Rightarrow> Some u
     | None \<Rightarrow> whole_word ''not the leader'' before s)"

definition route_error_message :: "jsstr \<Rightarrow> bool" where
  "route_error_message msg =
    (let m = to_lower msg in
     says ''connection closed'' m \<or> says ''connection is closed'' m \<or> says ''shard not available'' m \<or>
     says ''shard is not available'' m \<or> search not_leader None m \<noteq> None \<or>
     search (whole_word ''stale leader'') None m \<noteq> None)"

fun isRetryableRouteError :: "thrown \<Rightarrow> bool" where
  "isRetryableRouteError (Sdk e) =
    (err_class e = RerouteError \<or> err_class e = ConnectionClosedError \<or> route_error_message (err_message e))"
| "isRetryableRouteError (Foreign name msg props) = route_error_message msg"
| "isRetryableRouteError (Value v) = False"

fun isExplicitlySafeReroute :: "thrown \<Rightarrow> bool" where
  "isExplicitlySafeReroute (Sdk e) =
    (if err_class e = ConnectionClosedError then err_disposition e = Some Unsent
     else err_class e = RerouteError \<and> err_retryable e = Some True \<and> err_safe_to_retry e = Some True)"
| "isExplicitlySafeReroute _ = False"

fun retryAfterMs :: "thrown \<Rightarrow> int" where
  "retryAfterMs (Sdk e) = (case err_retry_after_ms e of None \<Rightarrow> 0 | Some ms \<Rightarrow> ms)"
| "retryAfterMs _ = 0"

text \<open>
  \<open>canRetrySafeReroute\<close>. The refresh of the topology is an argument: whether it succeeds. \<open>opened\<close> is
  whether the pool is still open when the wait is over; a closed pool throws \<open>closed_error\<close>. The result
  beside the outcome is the number of refreshes made and the milliseconds slept.
\<close>

definition canRetrySafeReroute ::
  "thrown \<Rightarrow> nat \<Rightarrow> bool \<Rightarrow> bool \<Rightarrow> bool \<Rightarrow> thrown \<Rightarrow> (thrown + bool) \<times> nat \<times> int" where
  "canRetrySafeReroute e attempt retry_allowed refreshes opened closed_error =
    (if attempt \<noteq> 0 \<or> \<not> isRetryableRouteError e then (Inr False, 0, 0)
     else if \<not> refreshes \<or> \<not> retry_allowed \<or> \<not> isExplicitlySafeReroute e then (Inr False, 1, 0)
     else let slept = max 0 (retryAfterMs e) in
       if opened then (Inr True, 1, slept) else (Inl closed_error, 1, slept))"

section \<open>Lemmas\<close>

lemma code_in_simps [simp]:
  "\<not> code_in names None" "code_in names (Some c) = has names c"
  by (simp_all add: code_in_def)

lemma isOverloadCode_None [simp]: "\<not> isOverloadCode None"
  by (simp add: isOverloadCode_def)

lemma structured_nullish:
  assumes "nullish raw"
  shows "structuredBooleanField raw name = None" "structuredIntegerField raw name = None"
  using assms
  by (auto simp: nullish_def structuredBooleanField_def structuredIntegerField_def)

text \<open>The \<open>code\<close> each class declares.\<close>

fun error_code :: "err_class \<Rightarrow> string" where
  "error_code FlowNotFoundError = ''flow_not_found''"
| "error_code FlowWrongStateError = ''flow_wrong_state''"
| "error_code StaleLeaseError = ''stale_lease''"
| "error_code StalePolicyGenerationError = ''stale_policy_generation''"
| "error_code FlowAlreadyExistsError = ''flow_already_exists''"
| "error_code LockHeldError = ''lock_held''"
| "error_code LockNotOwnedError = ''lock_not_owned''"
| "error_code InvalidCommandError = ''invalid_command''"
| "error_code OverloadedError = ''overloaded''"
| "error_code RerouteError = ''reroute''"
| "error_code HTTPTransportError = ''http_transport''"
| "error_code ConnectionClosedError = ''connection_closed''"
| "error_code RequestTimeoutError = ''request_timeout''"
| "error_code RequestNotSentError = ''request_not_sent''"
| "error_code _ = ''ferricstore_error''"

definition server_classes :: "err_class list" where
  "server_classes = [RerouteError, OverloadedError, FlowAlreadyExistsError, FlowWrongStateError, StaleLeaseError,
    StalePolicyGenerationError, FlowNotFoundError, LockHeldError, LockNotOwnedError, InvalidCommandError]"

lemma error_code_lower: "to_lower (ascii (error_code cls)) = ascii (error_code cls)"
  by (rule to_lower_ascii) (cases cls; simp)

lemmas code_lower =
  error_code_lower [of RerouteError, unfolded error_code.simps]
  error_code_lower [of OverloadedError, unfolded error_code.simps]
  error_code_lower [of FlowAlreadyExistsError, unfolded error_code.simps]
  error_code_lower [of FlowWrongStateError, unfolded error_code.simps]
  error_code_lower [of StaleLeaseError, unfolded error_code.simps]
  error_code_lower [of StalePolicyGenerationError, unfolded error_code.simps]
  error_code_lower [of FlowNotFoundError, unfolded error_code.simps]
  error_code_lower [of LockHeldError, unfolded error_code.simps]
  error_code_lower [of LockNotOwnedError, unfolded error_code.simps]
  error_code_lower [of InvalidCommandError, unfolded error_code.simps]

lemma silent_text:
  assumes "server_error_class status None lower = FerricStoreError"
  shows "\<not> isRerouteStatus status" "\<not> isBusyStatus status" "\<not> overloadMessage lower"
    "\<not> (says ''flow'' lower \<and> says ''already exists'' lower)" "\<not> says ''flow wrong state'' lower"
    "\<not> says ''stale flow lease'' lower" "\<not> says ''stale lease'' lower" "\<not> says ''stale token'' lower"
    "\<not> says ''stale flow policy generation'' lower" "\<not> says ''stale policy generation'' lower"
    "\<not> (says ''flow'' lower \<and> (says ''not found'' lower \<or> says ''does not exist'' lower))"
    "\<not> says ''lock is held'' lower" "\<not> says ''held by another owner'' lower"
    "\<not> says ''not the lock owner'' lower" "\<not> says ''caller is not the lock owner'' lower"
    "\<not> says ''wrong number of arguments'' lower" "\<not> says ''syntax error'' lower"
  using assms by (auto simp: server_error_class_def Let_def split: if_splits)

lemma classify_class:
  "err_class (classifyServerError msg raw cause status) =
    server_error_class status (structuredStringField raw ''code'') (to_lower msg)"
  by (simp add: classifyServerError_def Let_def overloaded_error_def new_error_def)

section \<open>Properties\<close>

text \<open>A server response whose structured code is the code of an error class is given that class,
  whenever the status and the message text by themselves say nothing: the codes of the classes and the
  classification agree.\<close>

theorem structured_code_decides:
  assumes "cls \<in> set server_classes"
    and "structuredStringField raw ''code'' = Some (ascii (error_code cls))"
    and "server_error_class status None (to_lower msg) = FerricStoreError"
  shows "err_class (classifyServerError msg raw cause status) = cls"
proof -
  note silent = silent_text [OF assms(3)]
  have "server_error_class status (Some (ascii (error_code cls))) (to_lower msg) = cls"
    using assms(1) unfolding server_classes_def list.set insert_iff empty_iff
    by (elim disjE FalseE; hypsubst; simp only: error_code.simps option.map code_lower server_error_class_def
        Let_def silent; simp add: isOverloadCode_def code_lower OVERLOAD_CODES_def)
  with assms(2) show ?thesis by (simp add: classify_class)
qed

theorem structured_code_decides_witness:
  "err_class (classifyServerError (ascii ''no'') (JObj [(ascii ''code'', JStr (ascii ''lock_held''))]) JUndef JUndef) =
    LockHeldError"
proof (rule structured_code_decides)
  show "LockHeldError \<in> set server_classes" by (simp add: server_classes_def)
  show "structuredStringField (JObj [(ascii ''code'', JStr (ascii ''lock_held''))]) ''code'' =
      Some (ascii (error_code LockHeldError))"
    by (simp add: structuredStringField_def own_def)
  have "to_lower (ascii ''no'') = ascii ''no''" by (rule to_lower_ascii) simp
  then show "server_error_class JUndef None (to_lower (ascii ''no'')) = FerricStoreError"
    by (simp add: server_error_class_def isRerouteStatus_def isBusyStatus_def overloadMessage_def
        whole_word_def busy_word_def says_def ascii_def prefix_def)
qed

text \<open>Retry advice is the server's. A classified error keeps the message, the response and the cause;
  it is marked safe to retry only if the response says so, or if there is no response at all and the
  error is a local overload; and the same holds for \<open>retryable\<close>. The waiting time is the one of the
  response, or the one written in the message of a class that carries it.\<close>

theorem retry_advice_is_the_servers:
  "let e = classifyServerError msg raw cause status;
      cls = server_error_class status (structuredStringField raw ''code'') (to_lower msg);
      local_overload = (cls = OverloadedError \<and> nullish raw)
   in err_class e = cls \<and> err_message e = msg \<and> err_raw e = raw \<and> err_cause e = cause \<and>
    err_safe_to_retry e = (if local_overload then Some True else structuredBooleanField raw ''safe_to_retry'') \<and>
    err_retryable e = (if local_overload then Some True else structuredBooleanField raw ''retryable'') \<and>
    err_retry_after_ms e = or_else (structuredIntegerField raw ''retry_after_ms'')
      (if cls = RerouteError \<or> cls = OverloadedError \<or> cls = FerricStoreError
       then intField (to_lower msg) ''retry_after_ms'' else None)"
proof -
  define cls where "cls = server_error_class status (structuredStringField raw ''code'') (to_lower msg)"
  have cls: "err_class (classifyServerError msg raw cause status) = cls"
    by (simp add: classify_class cls_def)
  note unfolds = classifyServerError_def Let_def new_error_def raw_options_def cls_def [symmetric]
  consider "cls = OverloadedError" | "cls = RerouteError \<or> cls = FerricStoreError"
    | "cls \<noteq> OverloadedError" "\<not> (cls = RerouteError \<or> cls = FerricStoreError)" by blast
  then show ?thesis
  proof cases
    case 1
    then show ?thesis
      by (simp only: cls_def [symmetric] Let_def cls)
        (cases "nullish raw"; simp add: unfolds overloaded_error_def structured_nullish or_else_assoc)
  next
    case 2
    then show ?thesis
      by (simp only: cls_def [symmetric] Let_def cls) (auto simp: unfolds or_else_assoc)
  next
    case 3
    then show ?thesis
      by (simp only: cls_def [symmetric] Let_def cls) (simp add: unfolds)
  qed
qed

text \<open>C26. A command is executed again by itself only when that is safe: on the first attempt, with retries
  allowed, after a successful refresh of the topology, and either because the request was never sent or
  because the server, refusing it with a reroute, declared it both retryable and safe to retry.\<close>

theorem reroute_retry_is_safe:
  assumes "canRetrySafeReroute e attempt retry_allowed refreshes opened closed_error = (Inr True, n, slept)"
  shows "attempt = 0 \<and> retry_allowed \<and> refreshes \<and> opened \<and> n = 1 \<and> slept = max 0 (retryAfterMs e) \<and>
    (\<exists>x. e = Sdk x \<and> (err_class x = ConnectionClosedError \<and> err_disposition x = Some Unsent \<or>
      err_class x = RerouteError \<and> err_retryable x = Some True \<and> err_safe_to_retry x = Some True))"
proof -
  have "isExplicitlySafeReroute e \<and> attempt = 0 \<and> retry_allowed \<and> refreshes \<and> opened \<and> n = 1 \<and>
      slept = max 0 (retryAfterMs e)"
    using assms by (auto simp: canRetrySafeReroute_def Let_def split: if_splits)
  then show ?thesis by (cases e) (auto split: if_splits)
qed

theorem reroute_retry_is_safe_witness:
  "let e = Sdk (connection_closed_error Unsent JUndef JUndef None)
   in canRetrySafeReroute e 0 True True True (Value JUndef) = (Inr True, 1, 0) \<and>
    (\<exists>x. e = Sdk x \<and> (err_class x = ConnectionClosedError \<and> err_disposition x = Some Unsent \<or>
      err_class x = RerouteError \<and> err_retryable x = Some True \<and> err_safe_to_retry x = Some True))"
proof -
  let ?e = "Sdk (connection_closed_error Unsent JUndef JUndef None)"
  have "canRetrySafeReroute ?e 0 True True True (Value JUndef) = (Inr True, 1, 0)"
    by (simp add: canRetrySafeReroute_def connection_closed_error_def new_error_def raw_options_def
        structuredIntegerField_def structuredBooleanField_def)
  with reroute_retry_is_safe [OF this] show ?thesis by (simp add: Let_def)
qed

lemma mapException_idem: "mapException (mapException e) = mapException e"
  by (cases e) auto

end
