(* ===== verification/Topology.thy ===== *)
theory Topology
  imports NumberText KeySlots Tables CommandCatalog
begin

text \<open>
  The routing table of a cluster (\<open>src/src/routing-topology.ts\<close>) and the endpoint helpers it uses
  (\<open>src/src/topology-utilities.ts\<close>): a SHARDS response is turned into a route for each of the 1024
  slots, or refused. The platform's URL parser, which judges a host name, is a parameter: \<open>url_ok\<close> says
  whether \<open>ferric://host:6388\<close> is parsed with a host, that port and no credentials.
\<close>

section \<open>Fields of a decoded response\<close>

fun is_map_or_object :: "jsval \<Rightarrow> bool" where
  "is_map_or_object (JObj kvs) = True"
| "is_map_or_object (JMap kvs) = True"
| "is_map_or_object (JU8 b) = True"
| "is_map_or_object JOther = True"
| "is_map_or_object _ = False"

definition map_field :: "(jsval \<times> jsval) list \<Rightarrow> jsstr \<Rightarrow> jsval option" where
  "map_field kvs key =
    (case map_of kvs (JStr key) of
       Some v \<Rightarrow> Some v
     | None \<Rightarrow> map_option snd (find (\<lambda>kv. fst kv = JBuf (utf8_encode key)) kvs))"

text \<open>\<open>getField(source, ...keys)\<close>: the first key the source has.\<close>

fun getField :: "jsval \<Rightarrow> string list \<Rightarrow> jsval" where
  "getField source [] = JUndef"
| "getField source (key # keys) =
    (case (case source of
        JMap kvs \<Rightarrow> map_field kvs (ascii key)
      | JObj kvs \<Rightarrow> own (ascii key) kvs
      | _ \<Rightarrow> None) of
       Some v \<Rightarrow> v
     | None \<Rightarrow> getField source keys)"

fun textOrUndefined :: "jsval \<Rightarrow> jsstr option" where
  "textOrUndefined (JStr s) = Some s"
| "textOrUndefined (JBuf b) = Some (utf8_decode b)"
| "textOrUndefined _ = None"

text \<open>The number \<open>-0\<close> is a safe integer; as a slot, shard or epoch it is \<open>0\<close>.\<close>

fun numberOrUndefined :: "jsval \<Rightarrow> int option" where
  "numberOrUndefined (JInt i) = (if safe_int i then Some i else None)"
| "numberOrUndefined (JFloat w) = (if w = 0x8000000000000000 then Some 0 else None)"
| "numberOrUndefined _ = None"

section \<open>Endpoints\<close>

record routing_endpoint =
  ep_node :: jsstr
  ep_host :: jsstr
  ep_port :: int
  ep_tls_port :: "int option"

text \<open>
  \<open>normalizedEndpointHost\<close>. The host names of a cluster are ASCII (the URL parser turns any other name
  into ASCII before it is used for a connection), so that the letter case conversion is exact.
\<close>

definition normalizedEndpointHost :: "jsstr \<Rightarrow> jsstr" where
  "normalizedEndpointHost host =
    (let lower = to_lower host in
     if lower \<noteq> [] \<and> hd lower = 0x5B \<and> last lower = 0x5D then subarray 1 (length lower - 1) lower else lower)"

definition is_trimmable :: "16 word \<Rightarrow> bool" where
  "is_trimmable c \<longleftrightarrow> (0x9 \<le> c \<and> c \<le> 0xD) \<or> c = 0x20 \<or> c = 0xA0 \<or> c = 0x1680 \<or>
    (0x2000 \<le> c \<and> c \<le> 0x200A) \<or> c = 0x2028 \<or> c = 0x2029 \<or> c = 0x202F \<or> c = 0x205F \<or>
    c = 0x3000 \<or> c = 0xFEFF"

text \<open>\<open>validEndpointHost\<close>: the class \<open>[\s\\/?#@]\<close> contains the units that \<open>trim\<close> removes.\<close>

definition forbidden_host_unit :: "16 word \<Rightarrow> bool" where
  "forbidden_host_unit c \<longleftrightarrow> is_trimmable c \<or> c = 0x5C \<or> c = 0x2F \<or> c = 0x3F \<or> c = 0x23 \<or> c = 0x40"

definition authority_host :: "jsstr \<Rightarrow> jsstr" where
  "authority_host host =
    (if 0x3A \<in> set host \<and> (host = [] \<or> hd host \<noteq> 0x5B) then 0x5B # host @ [0x5D] else host)"

definition validEndpointHost :: "(jsstr \<Rightarrow> bool) \<Rightarrow> jsstr \<Rightarrow> bool" where
  "validEndpointHost url_ok host \<longleftrightarrow>
    host \<noteq> [] \<and> list_all (\<lambda>c. \<not> forbidden_host_unit c) host \<and> url_ok (authority_host host)"

definition port_ok :: "int option \<Rightarrow> bool" where
  "port_ok p = (case p of None \<Rightarrow> False | Some n \<Rightarrow> 0 < n \<and> n \<le> 65535)"

definition endpointFromRange :: "(jsstr \<Rightarrow> bool) \<Rightarrow> jsval \<Rightarrow> routing_endpoint res" where
  "endpointFromRange url_ok item =
    (let endpoint_value = getField item [''endpoint''];
         bad = Inl (Thrown FerricStoreError ''invalid SHARDS endpoint'' [item]) in
     if \<not> nullish endpoint_value \<and> \<not> is_map_or_object endpoint_value then bad
     else let raw = (if nullish endpoint_value then item else endpoint_value);
              host = textOrUndefined (getField raw [''host'', ''native_host'']);
              native_port = numberOrUndefined (getField raw [''native_port''])
     in case host of
       None \<Rightarrow> bad
     | Some h \<Rightarrow>
         if \<not> validEndpointHost url_ok h \<or> \<not> port_ok native_port then bad
         else let tls_value = getField raw [''native_tls_port'']; tls_port = numberOrUndefined tls_value
         in if \<not> nullish tls_value \<and> \<not> port_ok tls_port then bad
            else Inr \<lparr>ep_node = (case textOrUndefined (getField raw [''node'', ''leader_node'', ''owner_node'']) of
                        Some n \<Rightarrow> n | None \<Rightarrow> h),
                      ep_host = h, ep_port = the native_port, ep_tls_port = tls_port\<rparr>)"

definition sameEndpoint :: "routing_endpoint \<Rightarrow> routing_endpoint \<Rightarrow> bool" where
  "sameEndpoint l r \<longleftrightarrow> normalizedEndpointHost (ep_host l) = normalizedEndpointHost (ep_host r) \<and>
    ep_port l = ep_port r \<and> ep_tls_port l = ep_tls_port r \<and> ep_node l = ep_node r"

definition endpointKeyFor :: "routing_endpoint \<Rightarrow> jsstr" where
  "endpointKeyFor e = normalizedEndpointHost (ep_host e) @ 0x3A # int_text (ep_port e)"

definition endpoint_port :: "routing_endpoint \<Rightarrow> bool \<Rightarrow> int" where
  "endpoint_port e use_tls = (case ep_tls_port e of Some p \<Rightarrow> if use_tls then p else ep_port e | None \<Rightarrow> ep_port e)"

definition url_scheme :: "bool \<Rightarrow> jsstr" where
  "url_scheme use_tls = ascii (if use_tls then ''ferrics'' else ''ferric'') @ ascii ''://''"

definition connectionKeyForEndpoint :: "routing_endpoint \<Rightarrow> bool \<Rightarrow> jsstr" where
  "connectionKeyForEndpoint e use_tls =
    url_scheme use_tls @ normalizedEndpointHost (ep_host e) @ 0x3A # int_text (endpoint_port e use_tls)"

definition urlFromEndpoint :: "routing_endpoint \<Rightarrow> bool \<Rightarrow> jsstr" where
  "urlFromEndpoint e use_tls =
    url_scheme use_tls @ authority_host (ep_host e) @ 0x3A # int_text (endpoint_port e use_tls)"

section \<open>The routing table\<close>

definition ROUTE_SLOT_COUNT :: nat where "ROUTE_SLOT_COUNT = 1024"

record routing_route =
  rt_shard :: nat
  rt_lane :: nat
  rt_endpoint_key :: jsstr
  rt_endpoint :: routing_endpoint
  rt_leader :: jsstr

record routing_topology =
  tp_epoch :: nat
  tp_shard_count :: nat
  tp_slots :: "routing_route option list"
  tp_endpoints :: "(jsstr \<times> routing_endpoint) list"

definition empty_topology :: routing_topology where
  "empty_topology = \<lparr>tp_epoch = 0, tp_shard_count = 0,
    tp_slots = replicate ROUTE_SLOT_COUNT None, tp_endpoints = []\<rparr>"

text \<open>The tables of \<open>build\<close> while it goes through the ranges.\<close>

record topology_tables =
  tt_slots :: "routing_route option list"
  tt_endpoints :: "(jsstr \<times> routing_endpoint) list"
  tt_routes :: "nat \<rightharpoonup> routing_route"
  tt_shards :: "nat list"

definition empty_tables :: topology_tables where
  "empty_tables = \<lparr>tt_slots = replicate ROUTE_SLOT_COUNT None, tt_endpoints = [],
    tt_routes = Map.empty, tt_shards = []\<rparr>"

abbreviation topology_error :: "string \<Rightarrow> jsval \<Rightarrow> error" where
  "topology_error msg raw \<equiv> Thrown FerricStoreError msg [raw]"

text \<open>The slots, shard and lane of one range, checked.\<close>

definition range_numbers :: "nat option \<Rightarrow> jsval \<Rightarrow> (nat \<times> nat \<times> nat \<times> nat) res" where
  "range_numbers declared item =
    (case (numberOrUndefined (getField item [''first_slot'']), numberOrUndefined (getField item [''last_slot'']),
           numberOrUndefined (getField item [''shard'']), numberOrUndefined (getField item [''lane_id''])) of
       (Some lo, Some hi, Some shard, Some lane) \<Rightarrow>
         if lo < 0 \<or> hi < lo \<or> hi \<ge> int ROUTE_SLOT_COUNT \<or>
            shard < 0 \<or> shard > 0xFFFFFFFF \<or> lane \<le> 0 \<or> lane > 0xFFFFFFFF
         then Inl (topology_error ''invalid SHARDS range'' item)
         else (case declared of
           Some count \<Rightarrow>
             if nat shard \<ge> count then Inl (topology_error ''invalid SHARDS shard metadata'' item)
             else Inr (nat lo, nat hi, nat shard, nat lane)
         | None \<Rightarrow> Inr (nat lo, nat hi, nat shard, nat lane))
     | _ \<Rightarrow> Inl (topology_error ''invalid SHARDS range'' item))"

definition route_of :: "routing_endpoint \<Rightarrow> nat \<Rightarrow> nat \<Rightarrow> routing_route" where
  "route_of endpoint lane shard = \<lparr>rt_shard = shard, rt_lane = lane,
    rt_endpoint_key = endpointKeyFor endpoint, rt_endpoint = endpoint, rt_leader = ep_node endpoint\<rparr>"

definition same_route :: "routing_route \<Rightarrow> routing_route \<Rightarrow> bool" where
  "same_route existing route \<longleftrightarrow> rt_endpoint_key existing = rt_endpoint_key route \<and>
    rt_lane existing = rt_lane route \<and> sameEndpoint (rt_endpoint existing) (rt_endpoint route)"

fun fill_slots :: "nat \<Rightarrow> nat \<Rightarrow> routing_route \<Rightarrow> jsval \<Rightarrow> routing_route option list \<Rightarrow>
    routing_route option list res" where
  "fill_slots slot 0 route item slots = Inr slots"
| "fill_slots slot (Suc n) route item slots =
    (if slots ! slot \<noteq> None then Inl (topology_error ''invalid SHARDS topology: overlapping slot'' item)
     else fill_slots (Suc slot) n route item (slots[slot := Some route]))"

definition add_range :: "(jsstr \<Rightarrow> bool) \<Rightarrow> nat option \<Rightarrow> jsval \<Rightarrow> topology_tables \<Rightarrow> topology_tables res" where
  "add_range url_ok declared item tt =
    rbind (require_ok (textOrUndefined (getField item [''hint'']) \<noteq> Some (ascii ''leader_unknown''))
      (topology_error ''SHARDS range has no leader'' item)) (\<lambda>_.
    rbind (endpointFromRange url_ok item) (\<lambda>endpoint.
    rbind (range_numbers declared item) (\<lambda>(lo, hi, shard, lane).
    let route = route_of endpoint lane shard; key = rt_endpoint_key route in
    rbind (require_ok (case tt_routes tt shard of None \<Rightarrow> True | Some existing \<Rightarrow> same_route existing route)
      (topology_error ''invalid SHARDS topology: inconsistent route'' item)) (\<lambda>_.
    rbind (require_ok (case map_of (tt_endpoints tt) key of None \<Rightarrow> True | Some existing \<Rightarrow> sameEndpoint existing endpoint)
      (topology_error ''invalid SHARDS topology: inconsistent endpoint'' item)) (\<lambda>_.
    rbind (fill_slots lo (Suc hi - lo) route item (tt_slots tt)) (\<lambda>slots.
    Inr \<lparr>tt_slots = slots, tt_endpoints = AList.update key endpoint (tt_endpoints tt),
      tt_routes = (tt_routes tt)(shard \<mapsto> route), tt_shards = set_add shard (tt_shards tt)\<rparr>))))))"

fun add_ranges :: "(jsstr \<Rightarrow> bool) \<Rightarrow> nat option \<Rightarrow> jsval list \<Rightarrow> topology_tables \<Rightarrow> topology_tables res" where
  "add_ranges url_ok declared [] tt = Inr tt"
| "add_ranges url_ok declared (item # items) tt =
    rbind (add_range url_ok declared item tt) (\<lambda>tt'. add_ranges url_ok declared items tt')"

text \<open>A declared number: absent, or present and at least \<open>least\<close>.\<close>

definition declared_ok :: "jsval \<Rightarrow> int \<Rightarrow> bool" where
  "declared_ok v least =
    (nullish v \<or> (case numberOrUndefined v of None \<Rightarrow> False | Some n \<Rightarrow> least \<le> n))"

definition declared_number :: "jsval \<Rightarrow> nat option" where
  "declared_number v = map_option nat (numberOrUndefined v)"

definition build_topology :: "(jsstr \<Rightarrow> bool) \<Rightarrow> jsval \<Rightarrow> routing_topology res" where
  "build_topology url_ok payload =
    (case getField payload [''ranges''] of
       JArr ranges \<Rightarrow>
         (let slots_value = getField payload [''slots'']; epoch_value = getField payload [''route_epoch''];
              count_value = getField payload [''shard_count''] in
          rbind (require_ok ((nullish slots_value \<or> numberOrUndefined slots_value = Some (int ROUTE_SLOT_COUNT)) \<and>
              declared_ok epoch_value 0 \<and> declared_ok count_value 1)
            (topology_error ''invalid SHARDS topology metadata'' payload)) (\<lambda>_.
          rbind (add_ranges url_ok (declared_number count_value) ranges empty_tables) (\<lambda>tt.
          rbind (require_ok (None \<notin> set (tt_slots tt))
            (topology_error ''invalid SHARDS topology: no route for slot'' payload)) (\<lambda>_.
          let count = (case declared_number count_value of Some n \<Rightarrow> n | None \<Rightarrow> length (tt_shards tt)) in
          rbind (require_ok (count \<noteq> 0 \<and> length (tt_shards tt) = count)
            (topology_error ''invalid SHARDS shard count'' payload)) (\<lambda>_.
          rbind (require_ok (list_all (\<lambda>shard. shard \<in> set (tt_shards tt)) [0..<count])
            (topology_error ''invalid SHARDS topology: no range for shard'' payload)) (\<lambda>_.
          Inr \<lparr>tp_epoch = (case declared_number epoch_value of Some n \<Rightarrow> n | None \<Rightarrow> 0),
            tp_shard_count = count, tp_slots = tt_slots tt, tp_endpoints = tt_endpoints tt\<rparr>))))))
     | _ \<Rightarrow> Inl (topology_error ''invalid SHARDS topology payload'' payload))"

definition routeKey :: "routing_topology \<Rightarrow> route_key \<Rightarrow> (routing_route \<times> nat) res" where
  "routeKey topology key =
    (let slot = routing_slot_for_key key in
     case (if slot < length (tp_slots topology) then tp_slots topology ! slot else None) of
       None \<Rightarrow> Inl (Thrown FerricStoreError ''no route for slot'' [JInt (int slot)])
     | Some route \<Rightarrow> Inr (route, slot))"

section \<open>Lemmas\<close>

lemma sameEndpoint_refl [simp]: "sameEndpoint e e"
  by (simp add: sameEndpoint_def)

lemma sameEndpoint_trans: "sameEndpoint a b \<Longrightarrow> sameEndpoint b c \<Longrightarrow> sameEndpoint a c"
  by (simp add: sameEndpoint_def)

lemma sameEndpoint_join: "sameEndpoint e a \<Longrightarrow> sameEndpoint e b \<Longrightarrow> sameEndpoint a b"
  by (simp add: sameEndpoint_def)

lemma sameEndpoint_sym: "sameEndpoint a b \<Longrightarrow> sameEndpoint b a"
  by (simp add: sameEndpoint_def)

lemma same_route_refl [simp]: "same_route r r"
  by (simp add: same_route_def)

lemma same_route_trans: "same_route a b \<Longrightarrow> same_route b c \<Longrightarrow> same_route a c"
  by (auto simp: same_route_def intro: sameEndpoint_trans)

lemma same_route_sym: "same_route a b \<Longrightarrow> same_route b a"
  by (auto simp: same_route_def intro: sameEndpoint_sym)

lemma route_of_simps [simp]:
  "rt_shard (route_of e l s) = s" "rt_lane (route_of e l s) = l"
  "rt_endpoint_key (route_of e l s) = endpointKeyFor e" "rt_endpoint (route_of e l s) = e"
  by (simp_all add: route_of_def)

subsection \<open>One range\<close>

lemma option_case_all: "(case x of None \<Rightarrow> True | Some e \<Rightarrow> P e) \<longleftrightarrow> (\<forall>e. x = Some e \<longrightarrow> P e)"
  by (cases x) auto

lemma fill_slots_Inr:
  "fill_slots slot n route item slots = Inr slots' \<Longrightarrow> slot + n \<le> length slots \<Longrightarrow>
    length slots' = length slots \<and>
    (\<forall>s. slots' ! s = (if slot \<le> s \<and> s < slot + n then Some route else slots ! s)) \<and>
    (\<forall>s. slot \<le> s \<and> s < slot + n \<longrightarrow> slots ! s = None)"
proof (induction slot n route item slots rule: fill_slots.induct)
  case (2 slot n route item slots)
  then have empty: "slots ! slot = None" and ok: "fill_slots (Suc slot) n route item (slots[slot := Some route]) = Inr slots'"
    by (auto split: if_splits)
  from 2(1) [OF _ ok] 2(3) empty have
    "length slots' = length slots"
    "\<And>s. slots' ! s = (if Suc slot \<le> s \<and> s < Suc slot + n then Some route else slots[slot := Some route] ! s)"
    "\<And>s. Suc slot \<le> s \<and> s < Suc slot + n \<Longrightarrow> slots[slot := Some route] ! s = None"
    by simp_all
  with 2(3) empty show ?case
    by (auto simp: nth_list_update le_Suc_eq not_less_eq_eq split: if_splits) (metis le_antisym not_less_eq_eq)+
qed auto

lemma range_numbers_Inr:
  "range_numbers declared item = Inr (lo, hi, shard, lane) \<Longrightarrow>
    lo \<le> hi \<and> hi < ROUTE_SLOT_COUNT \<and> 0 < lane \<and> lane \<le> 0xFFFFFFFF \<and> shard \<le> 0xFFFFFFFF"
  by (auto simp: range_numbers_def nat_le_eq_zle split: option.splits if_splits)

lemma fill_slots_ok:
  "slot + n \<le> length slots \<Longrightarrow> (\<And>s. slot \<le> s \<Longrightarrow> s < slot + n \<Longrightarrow> slots ! s = None) \<Longrightarrow>
    \<exists>slots'. fill_slots slot n route item slots = Inr slots'"
  by (induction n arbitrary: slot slots) (auto simp: nth_list_update)

text \<open>A range assigns a slot to a route.\<close>

definition assigns :: "(jsstr \<Rightarrow> bool) \<Rightarrow> nat option \<Rightarrow> jsval \<Rightarrow> nat \<Rightarrow> routing_route \<Rightarrow> bool" where
  "assigns url_ok declared item slot route \<longleftrightarrow>
    (\<exists>lo hi shard lane endpoint. range_numbers declared item = Inr (lo, hi, shard, lane) \<and>
      endpointFromRange url_ok item = Inr endpoint \<and> lo \<le> slot \<and> slot \<le> hi \<and>
      route = route_of endpoint lane shard)"

definition tables_inv :: "topology_tables \<Rightarrow> bool" where
  "tables_inv tt \<longleftrightarrow> length (tt_slots tt) = ROUTE_SLOT_COUNT \<and> distinct (tt_shards tt) \<and>
    set (tt_shards tt) = dom (tt_routes tt) \<and>
    (\<forall>shard \<in> set (tt_shards tt). \<exists>slot < ROUTE_SLOT_COUNT. \<exists>r. tt_slots tt ! slot = Some r \<and> rt_shard r = shard) \<and>
    (\<forall>slot < ROUTE_SLOT_COUNT. \<forall>r. tt_slots tt ! slot = Some r \<longrightarrow>
      (\<exists>r'. tt_routes tt (rt_shard r) = Some r' \<and> same_route r r') \<and>
      (\<exists>e. map_of (tt_endpoints tt) (rt_endpoint_key r) = Some e \<and> sameEndpoint e (rt_endpoint r)))"

lemma empty_tables_inv: "tables_inv empty_tables"
  by (simp add: tables_inv_def empty_tables_def)

lemma add_range_inv:
  assumes inv: "tables_inv tt" and ok: "add_range url_ok declared item tt = Inr tt'"
  shows "tables_inv tt' \<and>
    (\<forall>slot < ROUTE_SLOT_COUNT. \<forall>r. tt_slots tt' ! slot = Some r \<longleftrightarrow>
      tt_slots tt ! slot = Some r \<or> assigns url_ok declared item slot r)"
proof -
  from ok obtain endpoint lo hi shard lane slots
    where ep: "endpointFromRange url_ok item = Inr endpoint"
    and num: "range_numbers declared item = Inr (lo, hi, shard, lane)"
    and routes: "\<And>r. tt_routes tt shard = Some r \<Longrightarrow> same_route r (route_of endpoint lane shard)"
    and endpoints: "\<And>e. map_of (tt_endpoints tt) (endpointKeyFor endpoint) = Some e \<Longrightarrow> sameEndpoint e endpoint"
    and fill: "fill_slots lo (Suc hi - lo) (route_of endpoint lane shard) item (tt_slots tt) = Inr slots"
    and tt': "tt' = \<lparr>tt_slots = slots, tt_endpoints = AList.update (endpointKeyFor endpoint) endpoint (tt_endpoints tt),
      tt_routes = (tt_routes tt)(shard \<mapsto> route_of endpoint lane shard), tt_shards = set_add shard (tt_shards tt)\<rparr>"
    by (clarsimp simp: add_range_def Let_def option_case_all simp del: getField.simps)
  let ?route = "route_of endpoint lane shard"
  note n = range_numbers_Inr [OF num]
  have len: "length (tt_slots tt) = ROUTE_SLOT_COUNT" using inv by (simp add: tables_inv_def)
  have "lo + (Suc hi - lo) \<le> length (tt_slots tt)" using n len by simp
  note filled = fill_slots_Inr [OF fill this]
  have slots: "slots ! s = (if lo \<le> s \<and> s \<le> hi then Some ?route else tt_slots tt ! s)" for s
    using filled n by auto
  have assign: "assigns url_ok declared item s r \<longleftrightarrow> lo \<le> s \<and> s \<le> hi \<and> r = ?route" for s r
    using num ep by (auto simp: assigns_def)
  have free: "tt_slots tt ! s = None" if "lo \<le> s" "s \<le> hi" for s
    using filled that by auto
  have old: "(\<exists>r'. tt_routes tt (rt_shard r) = Some r' \<and> same_route r r') \<and>
      (\<exists>e. map_of (tt_endpoints tt) (rt_endpoint_key r) = Some e \<and> sameEndpoint e (rt_endpoint r))"
    if "s < ROUTE_SLOT_COUNT" "tt_slots tt ! s = Some r" for s r
    using inv that by (auto simp: tables_inv_def)
  have "length slots = ROUTE_SLOT_COUNT" using filled len by simp
  moreover have "(\<exists>r'. tt_routes tt' (rt_shard r) = Some r' \<and> same_route r r') \<and>
      (\<exists>e. map_of (tt_endpoints tt') (rt_endpoint_key r) = Some e \<and> sameEndpoint e (rt_endpoint r))"
    if "s < ROUTE_SLOT_COUNT" "slots ! s = Some r" for s r
  proof (cases "lo \<le> s \<and> s \<le> hi")
    case True
    then have "r = ?route" using that slots by simp
    then show ?thesis by (simp add: tt' update_conv')
  next
    case False
    then have "tt_slots tt ! s = Some r" using that slots by auto
    from old [OF that(1) this] routes endpoints show ?thesis
      by (auto simp: tt' update_conv' intro: same_route_trans sameEndpoint_join)
  qed
  moreover have "\<exists>s < ROUTE_SLOT_COUNT. \<exists>r. slots ! s = Some r \<and> rt_shard r = k" if "k \<in> set (tt_shards tt')" for k
  proof (cases "k = shard")
    case True
    then show ?thesis using slots n by (intro exI [of _ lo]) auto
  next
    case False
    with that have "k \<in> set (tt_shards tt)" by (simp add: tt')
    then obtain s r where "s < ROUTE_SLOT_COUNT" "tt_slots tt ! s = Some r" "rt_shard r = k"
      using inv unfolding tables_inv_def by blast
    then show ?thesis using slots free by (intro exI [of _ s]) force
  qed
  ultimately have "tables_inv tt'"
    using inv unfolding tables_inv_def by (simp add: tt')
  moreover have "tt_slots tt' ! s = Some r \<longleftrightarrow> tt_slots tt ! s = Some r \<or> assigns url_ok declared item s r" for s r
    using slots [of s] free [of s] by (auto simp: tt' assign)
  ultimately show ?thesis by blast
qed

lemma add_ranges_inv:
  "add_ranges url_ok declared items tt = Inr tt' \<Longrightarrow> tables_inv tt \<Longrightarrow>
    tables_inv tt' \<and> (\<forall>slot < ROUTE_SLOT_COUNT. \<forall>r. tt_slots tt' ! slot = Some r \<longleftrightarrow>
      tt_slots tt ! slot = Some r \<or> (\<exists>item \<in> set items. assigns url_ok declared item slot r))"
proof (induction items arbitrary: tt)
  case (Cons item items)
  from Cons.prems(1) obtain tt1 where one: "add_range url_ok declared item tt = Inr tt1"
    and rest: "add_ranges url_ok declared items tt1 = Inr tt'" by auto
  note step = add_range_inv [OF Cons.prems(2) one]
  from Cons.IH [OF rest] step show ?case by auto
qed simp

subsection \<open>The whole table\<close>

lemma build_topology_Inr:
  assumes "build_topology url_ok payload = Inr t"
  obtains ranges declared tt where "getField payload [''ranges''] = JArr ranges"
    "declared = declared_number (getField payload [''shard_count''])"
    "add_ranges url_ok declared ranges empty_tables = Inr tt" "None \<notin> set (tt_slots tt)"
    "tp_slots t = tt_slots tt" "tp_endpoints t = tt_endpoints tt" "tp_shard_count t = length (tt_shards tt)"
    "tp_shard_count t \<noteq> 0" "{0..<tp_shard_count t} \<subseteq> set (tt_shards tt)"
proof -
  from assms obtain ranges where "getField payload [''ranges''] = JArr ranges"
    by (auto simp: build_topology_def simp del: getField.simps split: jsval.splits)
  with assms obtain tt where
    "add_ranges url_ok (declared_number (getField payload [''shard_count''])) ranges empty_tables = Inr tt"
    "None \<notin> set (tt_slots tt)" "tp_slots t = tt_slots tt" "tp_endpoints t = tt_endpoints tt"
    "tp_shard_count t = length (tt_shards tt)" "tp_shard_count t \<noteq> 0"
    "\<forall>shard \<in> {0..<tp_shard_count t}. shard \<in> set (tt_shards tt)"
    by (auto simp: build_topology_def Let_def list_all_iff simp del: getField.simps)
  with \<open>getField payload [''ranges''] = JArr ranges\<close> that show ?thesis by blast
qed

definition topology_ok :: "routing_topology \<Rightarrow> bool" where
  "topology_ok t \<longleftrightarrow> length (tp_slots t) = ROUTE_SLOT_COUNT \<and> tp_shard_count t \<noteq> 0 \<and>
    (\<forall>slot < ROUTE_SLOT_COUNT. \<exists>r. tp_slots t ! slot = Some r \<and> rt_shard r < tp_shard_count t \<and>
      (\<exists>e. map_of (tp_endpoints t) (rt_endpoint_key r) = Some e \<and> sameEndpoint e (rt_endpoint r))) \<and>
    (\<forall>shard < tp_shard_count t. \<exists>slot < ROUTE_SLOT_COUNT. \<exists>r. tp_slots t ! slot = Some r \<and> rt_shard r = shard) \<and>
    (\<forall>s1 < ROUTE_SLOT_COUNT. \<forall>s2 < ROUTE_SLOT_COUNT. \<forall>r1 r2. tp_slots t ! s1 = Some r1 \<and> tp_slots t ! s2 = Some r2 \<and>
      rt_shard r1 = rt_shard r2 \<longrightarrow> same_route r1 r2)"

lemma build_topology_ok:
  assumes "build_topology url_ok payload = Inr t"
  shows "topology_ok t \<and>
    (\<exists>ranges. getField payload [''ranges''] = JArr ranges \<and>
      (\<forall>slot < ROUTE_SLOT_COUNT. \<forall>r. tp_slots t ! slot = Some r \<longleftrightarrow>
        (\<exists>item \<in> set ranges. assigns url_ok (declared_number (getField payload [''shard_count''])) item slot r)))"
  using assms
proof (rule build_topology_Inr)
  fix ranges declared tt
  assume ranges: "getField payload [''ranges''] = JArr ranges"
    and declared: "declared = declared_number (getField payload [''shard_count''])"
    and add: "add_ranges url_ok declared ranges empty_tables = Inr tt"
    and full: "None \<notin> set (tt_slots tt)"
    and t: "tp_slots t = tt_slots tt" "tp_endpoints t = tt_endpoints tt" "tp_shard_count t = length (tt_shards tt)"
    and count: "tp_shard_count t \<noteq> 0" "{0..<tp_shard_count t} \<subseteq> set (tt_shards tt)"
  note all = add_ranges_inv [OF add empty_tables_inv]
  then have inv: "tables_inv tt" by blast
  then have len: "length (tt_slots tt) = ROUTE_SLOT_COUNT" and dist: "distinct (tt_shards tt)"
    by (simp_all add: tables_inv_def)
  have shards: "set (tt_shards tt) = {0..<tp_shard_count t}"
  proof (rule card_subset_eq [symmetric])
    show "card {0..<tp_shard_count t} = card (set (tt_shards tt))"
      using dist t(3) by (simp add: distinct_card)
  qed (use count in auto)
  have route: "\<exists>r. tt_slots tt ! s = Some r" if "s < ROUTE_SLOT_COUNT" for s
    using that full len by (metis not_None_eq nth_mem)
  have ok: "(\<exists>r'. tt_routes tt (rt_shard r) = Some r' \<and> same_route r r') \<and>
      (\<exists>e. map_of (tt_endpoints tt) (rt_endpoint_key r) = Some e \<and> sameEndpoint e (rt_endpoint r))"
    if "s < ROUTE_SLOT_COUNT" "tt_slots tt ! s = Some r" for s r
    using inv that by (auto simp: tables_inv_def)
  have shard: "rt_shard r < tp_shard_count t" if "s < ROUTE_SLOT_COUNT" "tt_slots tt ! s = Some r" for s r
  proof -
    from ok [OF that] have "rt_shard r \<in> dom (tt_routes tt)" by auto
    then show ?thesis using inv shards by (auto simp: tables_inv_def)
  qed
  have same: "same_route r1 r2" if "s1 < ROUTE_SLOT_COUNT" "s2 < ROUTE_SLOT_COUNT" "tt_slots tt ! s1 = Some r1"
    "tt_slots tt ! s2 = Some r2" "rt_shard r1 = rt_shard r2" for s1 s2 r1 r2
    using ok [OF that(1,3)] ok [OF that(2,4)] that(5) by (auto intro: same_route_trans same_route_sym)
  have served: "\<exists>s < ROUTE_SLOT_COUNT. \<exists>r. tt_slots tt ! s = Some r \<and> rt_shard r = k" if "k < tp_shard_count t" for k
    using inv that shards by (auto simp: tables_inv_def)
  have "topology_ok t"
    unfolding topology_ok_def t(1,2) using len count(1) route ok shard same served by blast
  moreover have "tp_slots t ! s = Some r \<longleftrightarrow> (\<exists>item \<in> set ranges. assigns url_ok declared item s r)"
    if "s < ROUTE_SLOT_COUNT" for s r
    using all that by (simp add: t empty_tables_def)
  ultimately show ?thesis using ranges declared by blast
qed

lemma routeKey_total:
  assumes "topology_ok t"
  shows "\<exists>r. routeKey t key = Inr (r, routing_slot_for_key key) \<and> rt_shard r < tp_shard_count t"
proof -
  have "routing_slot_for_key key < ROUTE_SLOT_COUNT" using slot_bound [of key] by (simp add: ROUTE_SLOT_COUNT_def)
  then show ?thesis using assms by (auto simp: topology_ok_def routeKey_def Let_def)
qed

section \<open>Properties\<close>

text \<open>C27. A SHARDS response that is accepted describes a complete and consistent cluster: each of the 1024
  slots has a route, which is the one of the range that contains the slot; the shards of the routes are
  the numbers below the shard count, each serving some slot; the ranges of a shard agree on its route;
  the endpoint of every route is registered under its key; and every key, whatever its bytes, is routed.\<close>

theorem accepted_topology_routes_everything:
  assumes "build_topology url_ok payload = Inr t"
  shows "topology_ok t \<and>
    (\<exists>ranges. getField payload [''ranges''] = JArr ranges \<and>
      (\<forall>slot < ROUTE_SLOT_COUNT. \<forall>r. tp_slots t ! slot = Some r \<longleftrightarrow>
        (\<exists>item \<in> set ranges. assigns url_ok (declared_number (getField payload [''shard_count''])) item slot r))) \<and>
    (\<forall>key. \<exists>r. routeKey t key = Inr (r, routing_slot_for_key key) \<and> rt_shard r < tp_shard_count t)"
  using build_topology_ok [OF assms] routeKey_total by blast

definition demo_shards :: jsval where
  "demo_shards = JObj [(ascii ''ranges'', JArr [JObj [(ascii ''first_slot'', JInt 0), (ascii ''last_slot'', JInt 1023),
    (ascii ''shard'', JInt 0), (ascii ''lane_id'', JInt 1), (ascii ''host'', JStr (ascii ''a'')),
    (ascii ''native_port'', JInt 6388)]])]"

lemma demo_shards_accepted: "\<exists>t. build_topology (\<lambda>_. True) demo_shards = Inr t"
proof -
  define item where "item = JObj [(ascii ''first_slot'', JInt 0), (ascii ''last_slot'', JInt 1023),
    (ascii ''shard'', JInt 0), (ascii ''lane_id'', JInt 1), (ascii ''host'', JStr (ascii ''a'')),
    (ascii ''native_port'', JInt 6388)]"
  have ranges: "getField demo_shards [''ranges''] = JArr [item]"
    and absent: "getField demo_shards [''slots''] = JUndef" "getField demo_shards [''route_epoch''] = JUndef"
      "getField demo_shards [''shard_count''] = JUndef"
    by (simp_all add: demo_shards_def item_def own_def)
  have "\<exists>e. endpointFromRange (\<lambda>_. True) item = Inr e"
    by (simp add: endpointFromRange_def item_def own_def Let_def nullish_def validEndpointHost_def ascii_def
        forbidden_host_unit_def is_trimmable_def safe_int_def port_ok_def)
  then obtain e where e: "endpointFromRange (\<lambda>_. True) item = Inr e" ..
  have nums: "range_numbers None item = Inr (0, 1023, 0, 1)"
    by (simp add: range_numbers_def item_def own_def safe_int_def ROUTE_SLOT_COUNT_def)
  have hint: "textOrUndefined (getField item [''hint'']) \<noteq> Some (ascii ''leader_unknown'')"
    by (simp add: item_def own_def)
  obtain slots where slots: "fill_slots 0 1024 (route_of e 1 0) item (replicate 1024 None) = Inr slots"
    using fill_slots_ok [of 0 1024 "replicate 1024 None"] by auto
  with fill_slots_Inr [OF slots] have full: "length slots = 1024" "\<And>s. s < 1024 \<Longrightarrow> slots ! s = Some (route_of e 1 0)"
    by auto
  then have "None \<notin> set slots" by (auto simp: in_set_conv_nth)
  moreover have "add_range (\<lambda>_. True) None item empty_tables = Inr \<lparr>tt_slots = slots,
      tt_endpoints = [(endpointKeyFor e, e)], tt_routes = [0 \<mapsto> route_of e 1 0], tt_shards = [0]\<rparr>"
    using slots by (simp add: add_range_def hint e nums empty_tables_def ROUTE_SLOT_COUNT_def set_add_def Let_def
        del: getField.simps fill_slots.simps)
  ultimately show ?thesis
    by (simp add: build_topology_def ranges absent nullish_def declared_ok_def declared_number_def Let_def
        del: getField.simps)
qed

theorem accepted_topology_routes_everything_witness:
  "\<exists>t. build_topology (\<lambda>_. True) demo_shards = Inr t \<and> topology_ok t \<and>
    (\<exists>r. routeKey t (KeyStr []) = Inr (r, routing_slot_for_key (KeyStr [])) \<and> rt_shard r < tp_shard_count t)"
  using demo_shards_accepted accepted_topology_routes_everything by metis

end
