(* ===== verification/AccessOrder.thy ===== *)
theory AccessOrder
  imports Tables
begin

text \<open>
  Ordering by access. Several parts of the batching code order operations on named resources by the
  same bookkeeping: per resource, the last writer and the readers since. An operation depends on the
  last writer of every resource it touches and, when it writes, on the readers since that write. Here
  is that bookkeeping as an abstract history of accesses, and what it gives: the dependencies of an
  operation are earlier, each is a conflict, and every conflicting earlier operation is reached by
  following dependencies.
\<close>

datatype access = Read | Write

text \<open>\<open>hist i k\<close>: how operation \<open>i\<close> accesses resource \<open>k\<close>.\<close>

type_synonym 'k history = "nat \<Rightarrow> 'k \<Rightarrow> access option"

definition last_writer :: "'k history \<Rightarrow> nat \<Rightarrow> 'k \<Rightarrow> nat \<Rightarrow> bool" where
  "last_writer hist n k j \<longleftrightarrow> j < n \<and> hist j k = Some Write \<and> (\<forall>m. j < m \<and> m < n \<longrightarrow> hist m k \<noteq> Some Write)"

definition reader_since :: "'k history \<Rightarrow> nat \<Rightarrow> 'k \<Rightarrow> nat \<Rightarrow> bool" where
  "reader_since hist n k j \<longleftrightarrow> j < n \<and> hist j k = Some Read \<and> (\<forall>m. j < m \<and> m < n \<longrightarrow> hist m k \<noteq> Some Write)"

definition depends :: "'k history \<Rightarrow> nat \<Rightarrow> nat \<Rightarrow> bool" where
  "depends hist i j \<longleftrightarrow> (\<exists>k. hist i k \<noteq> None \<and> last_writer hist i k j \<or>
    hist i k = Some Write \<and> reader_since hist i k j)"

definition conflict :: "'k history \<Rightarrow> nat \<Rightarrow> nat \<Rightarrow> bool" where
  "conflict hist i j \<longleftrightarrow> (\<exists>k. hist i k \<noteq> None \<and> hist j k \<noteq> None \<and> (hist i k = Some Write \<or> hist j k = Some Write))"

lemma depends_earlier: "depends hist i j \<Longrightarrow> j < i"
  by (auto simp: depends_def last_writer_def reader_since_def)

lemma depends_conflict: "depends hist i j \<Longrightarrow> conflict hist j i"
  by (auto simp: depends_def conflict_def last_writer_def reader_since_def)

lemma last_writer_unique: "last_writer hist n k j \<Longrightarrow> last_writer hist n k j' \<Longrightarrow> j = j'"
  by (metis last_writer_def linorder_neqE_nat)

lemma some_last_writer:
  assumes "i < n" "hist i k = Some Write"
  obtains w where "i \<le> w" "last_writer hist n k w"
proof -
  define w where "w = Max {m. m < n \<and> hist m k = Some Write}"
  have fin: "finite {m. m < n \<and> hist m k = Some Write}" by simp
  have mem: "w \<in> {m. m < n \<and> hist m k = Some Write}"
    unfolding w_def using assms by (intro Max_in [OF fin]) auto
  have max: "m \<le> w" if "m < n" "hist m k = Some Write" for m
    unfolding w_def using that by (intro Max_ge [OF fin]) auto
  show thesis
  proof (rule that)
    show "i \<le> w" using max assms by blast
    show "last_writer hist n k w"
      unfolding last_writer_def using mem by (auto dest: max)
  qed
qed

lemma conflicts_reached:
  "i < j \<Longrightarrow> hist i k \<noteq> None \<Longrightarrow> hist j k \<noteq> None \<Longrightarrow> hist i k = Some Write \<or> hist j k = Some Write \<Longrightarrow>
    (depends hist)\<^sup>+\<^sup>+ j i"
proof (induction j rule: less_induct)
  case (less j)
  have via: "(depends hist)\<^sup>+\<^sup>+ j i" if w: "last_writer hist j k w" "i \<le> w" for w
  proof (cases "w = i")
    case True
    with w less.prems(3) have "depends hist j i" by (auto simp: depends_def)
    then show ?thesis by (rule tranclp.r_into_trancl)
  next
    case False
    with w have "i < w" "w < j" "hist w k = Some Write" by (simp_all add: last_writer_def)
    then have "(depends hist)\<^sup>+\<^sup>+ w i" using less.IH less.prems(2) by simp
    moreover have "depends hist j w" using w less.prems(3) by (auto simp: depends_def)
    ultimately show ?thesis by (meson tranclp_into_tranclp2)
  qed
  show ?case
  proof (cases "hist i k")
    case None
    with less.prems show ?thesis by simp
  next
    case (Some a)
    show ?thesis
    proof (cases a)
      case Write
      with some_last_writer [of i j hist k] less.prems(1) Some via show ?thesis by metis
    next
      case Read
      with Some less.prems(4) have writes: "hist j k = Some Write" by simp
      show ?thesis
      proof (cases "\<exists>m. i < m \<and> m < j \<and> hist m k = Some Write")
        case True
        then obtain m where m: "i < m" "m < j" "hist m k = Some Write" by blast
        from some_last_writer [of m j hist k] m obtain w where "m \<le> w" "last_writer hist j k w" by metis
        with m(1) via show ?thesis by simp
      next
        case False
        then have "reader_since hist j k i"
          using Some Read less.prems(1) by (auto simp: reader_since_def)
        with writes have "depends hist j i" by (auto simp: depends_def)
        then show ?thesis by (rule tranclp.r_into_trancl)
      qed
    qed
  qed
qed

section \<open>The bookkeeping\<close>

text \<open>
  Tables of last writers and readers that agree with the history of the first \<open>n\<close> operations, as far
  as these are still in \<open>live\<close>: an operation that is over may be forgotten.
\<close>

definition tracks :: "'k history \<Rightarrow> nat \<Rightarrow> nat set \<Rightarrow> ('k \<Rightarrow> nat option) \<Rightarrow> ('k \<Rightarrow> nat set) \<Rightarrow> bool" where
  "tracks hist n live writes reads \<longleftrightarrow>
    (\<forall>k j. writes k = Some j \<longleftrightarrow> last_writer hist n k j \<and> j \<in> live) \<and>
    (\<forall>k. reads k = {j. reader_since hist n k j} \<inter> live)"

lemma last_writer_Suc:
  "last_writer hist (Suc n) k j \<longleftrightarrow> (if hist n k = Some Write then j = n else last_writer hist n k j)"
  by (auto simp: last_writer_def less_Suc_eq)

lemma reader_since_Suc:
  "reader_since hist (Suc n) k j \<longleftrightarrow>
    (if hist n k = Some Write then False else if hist n k = Some Read then j = n \<or> reader_since hist n k j
     else reader_since hist n k j)"
  by (auto simp: reader_since_def less_Suc_eq)

lemma history_lt: "last_writer hist n k j \<Longrightarrow> j < n" "reader_since hist n k j \<Longrightarrow> j < n"
  by (simp_all add: last_writer_def reader_since_def)

text \<open>The dependencies read off the tables.\<close>

definition table_deps :: "('k \<Rightarrow> nat option) \<Rightarrow> ('k \<Rightarrow> nat set) \<Rightarrow> ('k \<times> access) list \<Rightarrow> nat set" where
  "table_deps writes reads al =
    (\<Union>(k, a) \<in> set al. set_option (writes k) \<union> (if a = Write then reads k else {}))"

lemma table_deps_depends:
  assumes "tracks hist n live writes reads" "hist n = map_of al" "distinct (map fst al)"
  shows "table_deps writes reads al = {j. depends hist n j} \<inter> live"
proof (rule set_eqI)
  fix j
  have al: "(k, a) \<in> set al \<longleftrightarrow> hist n k = Some a" for k a
    using assms(2,3) by simp
  have "j \<in> table_deps writes reads al \<longleftrightarrow>
      (\<exists>k a. hist n k = Some a \<and> (writes k = Some j \<or> a = Write \<and> j \<in> reads k))"
    unfolding table_deps_def al [symmetric] by (force split: if_splits)
  also have "\<dots> \<longleftrightarrow> depends hist n j \<and> j \<in> live"
    using assms(1) by (auto simp: tracks_def depends_def)
  finally show "j \<in> table_deps writes reads al \<longleftrightarrow> j \<in> {j. depends hist n j} \<inter> live" by simp
qed

text \<open>The tables depend on the history before \<open>n\<close> only.\<close>

lemma depends_cong: "(\<And>m. m \<le> i \<Longrightarrow> hist m = hist' m) \<Longrightarrow> depends hist i j \<longleftrightarrow> depends hist' i j"
  by (auto simp: depends_def last_writer_def reader_since_def)

lemma last_writer_cong: "(\<And>m. m < n \<Longrightarrow> hist m = hist' m) \<Longrightarrow> last_writer hist n k j \<longleftrightarrow> last_writer hist' n k j"
  by (auto simp: last_writer_def)

lemma tracks_cong:
  assumes "\<And>m. m < n \<Longrightarrow> hist m = hist' m"
  shows "tracks hist n live writes reads \<longleftrightarrow> tracks hist' n live writes reads"
proof -
  have "last_writer hist n k j \<longleftrightarrow> last_writer hist' n k j" "reader_since hist n k j \<longleftrightarrow> reader_since hist' n k j" for k j
    using assms by (auto simp: last_writer_def reader_since_def)
  then show ?thesis by (simp add: tracks_def)
qed

text \<open>
  The interface of such a pair of tables: the empty one, and noting the accesses of operation \<open>n\<close>, one
  access per resource. Its extension can forget an operation that is over.
\<close>

locale access_table =
  fixes wf :: "'s \<Rightarrow> bool"
    and writer :: "'s \<Rightarrow> 'k \<Rightarrow> nat option"
    and readers :: "'s \<Rightarrow> 'k \<Rightarrow> nat set"
    and start :: 's
    and note_access :: "nat \<Rightarrow> ('k \<times> access) list \<Rightarrow> 's \<Rightarrow> 's"
  assumes start_wf: "wf start"
    and start_empty: "writer start k = None" "readers start k = {}"
    and note_wf: "wf s \<Longrightarrow> distinct (map fst al) \<Longrightarrow> wf (note_access n al s)"
    and note_writer: "wf s \<Longrightarrow> distinct (map fst al) \<Longrightarrow>
      writer (note_access n al s) k = (if map_of al k = Some Write then Some n else writer s k)"
    and note_readers: "wf s \<Longrightarrow> distinct (map fst al) \<Longrightarrow>
      readers (note_access n al s) k =
        (if map_of al k = Some Write then {} else if map_of al k = Some Read then insert n (readers s k)
         else readers s k)"
begin

lemma tracks_start: "tracks hist 0 live (writer start) (readers start)"
  by (simp add: tracks_def start_empty last_writer_def reader_since_def)

lemma tracks_note:
  assumes "tracks hist n live (writer s) (readers s)" "wf s" "distinct (map fst al)" "hist n = map_of al"
  shows "tracks hist (Suc n) (insert n live) (writer (note_access n al s)) (readers (note_access n al s))"
  using assms(1)
  by (auto simp: tracks_def note_writer [OF assms(2,3)] note_readers [OF assms(2,3)] last_writer_Suc
      reader_since_Suc assms(4) [symmetric] dest: history_lt split: if_splits)

end

locale forgetful_table = access_table +
  fixes forget :: "nat \<Rightarrow> ('k \<times> access) list \<Rightarrow> 's \<Rightarrow> 's"
  assumes forget_wf: "wf s \<Longrightarrow> distinct (map fst al) \<Longrightarrow> wf (forget n al s)"
    and forget_writer: "wf s \<Longrightarrow> distinct (map fst al) \<Longrightarrow>
      writer (forget n al s) k = (if map_of al k = Some Write \<and> writer s k = Some n then None else writer s k)"
    and forget_readers: "wf s \<Longrightarrow> distinct (map fst al) \<Longrightarrow>
      readers (forget n al s) k = (if map_of al k = Some Read then readers s k - {n} else readers s k)"
begin

lemma tracks_forget:
  assumes "tracks hist n live (writer s) (readers s)" "wf s" "distinct (map fst al)" "hist i = map_of al"
  shows "tracks hist n (live - {i}) (writer (forget i al s)) (readers (forget i al s))"
proof -
  have "hist i k = Some Write" if "last_writer hist n k i" for k using that by (simp add: last_writer_def)
  moreover have "hist i k = Some Read" if "reader_since hist n k i" for k using that by (simp add: reader_since_def)
  ultimately show ?thesis
    using assms(1) unfolding tracks_def forget_writer [OF assms(2,3)] forget_readers [OF assms(2,3)]
      assms(4) [symmetric] by (auto dest: last_writer_unique)
qed

end

end
