(* ===== verification/AutoBatchOrdering.thy ===== *)
theory AutoBatchOrdering
  imports CommandGrammar AccessOrder
begin

text \<open>
  The ordering plan of an automatic batch (\<open>src/src/auto-batch-ordering.ts\<close>): which named resources each
  command reads or writes, and for every command of the batch the earlier commands it must wait for when
  the batch is executed command by command. A \<open>Map\<close> from resource keys to accesses is an association
  list in insertion order.
\<close>

section \<open>Base64\<close>

text \<open>\<open>buffer.toString("base64")\<close>, by groups of three bytes.\<close>

definition base64_alphabet :: string where
  "base64_alphabet = ''ABCDEFGHIJKLMNOPQRSTUVWXYZabcdefghijklmnopqrstuvwxyz0123456789+/''"

definition base64_digit :: "nat \<Rightarrow> 16 word" where
  "base64_digit d = of_char (base64_alphabet ! d)"

definition base64_group :: "nat \<Rightarrow> nat \<Rightarrow> jsstr" where
  "base64_group digits n = map (\<lambda>i. base64_digit (n div 64 ^ (3 - i) mod 64)) [0..<digits]"

fun base64 :: "bytes \<Rightarrow> jsstr" where
  "base64 (a # b # c # rest) = base64_group 4 (unat a * 65536 + unat b * 256 + unat c) @ base64 rest"
| "base64 [a, b] = base64_group 3 (unat a * 65536 + unat b * 256) @ [0x3D]"
| "base64 [a] = base64_group 2 (unat a * 65536) @ [0x3D, 0x3D]"
| "base64 [] = []"

section \<open>Resources\<close>

fun isAutoBatchResourceValue :: "jsval \<Rightarrow> bool" where
  "isAutoBatchResourceValue (JStr s) = True"
| "isAutoBatchResourceValue (JBuf b) = True"
| "isAutoBatchResourceValue _ = False"

fun is_buffer :: "jsval \<Rightarrow> bool" where
  "is_buffer (JBuf b) = True"
| "is_buffer _ = False"

text \<open>\<open>Number.isSafeInteger\<close> also holds of \<open>-0\<close>.\<close>

fun isFencingToken :: "jsval \<Rightarrow> bool" where
  "isFencingToken (JInt i) = safe_int i"
| "isFencingToken (JFloat w) = (w = 0x8000000000000000)"
| "isFencingToken (JBig i) = True"
| "isFencingToken _ = False"

fun nonNegativeItemCount :: "jsval \<Rightarrow> nat option" where
  "nonNegativeItemCount (JInt i) = (if safe_int i \<and> i \<ge> 0 then Some (nat i) else None)"
| "nonNegativeItemCount (JFloat w) = (if w = 0x8000000000000000 then Some 0 else None)"
| "nonNegativeItemCount _ = None"

fun resource_bytes :: "jsval \<Rightarrow> bytes" where
  "resource_bytes (JStr s) = utf8_encode s"
| "resource_bytes (JBuf b) = b"
| "resource_bytes _ = []"

definition autoBatchResourceKey :: "string \<Rightarrow> jsval \<Rightarrow> jsstr" where
  "autoBatchResourceKey namespace v = ascii namespace @ 0x3A # base64 (resource_bytes v)"

section \<open>The items of the many-commands\<close>

text \<open>A loop over positions that returns at the first hit.\<close>

fun first_some :: "('a \<Rightarrow> 'b option) \<Rightarrow> 'a list \<Rightarrow> 'b option" where
  "first_some f [] = None"
| "first_some f (x # xs) = (case f x of Some r \<Rightarrow> Some r | None \<Rightarrow> first_some f xs)"

definition token_at :: "jsval list \<Rightarrow> nat \<Rightarrow> jsstr option" where
  "token_at command i = command_token (arg_at command i)"

definition item_ids_at :: "jsval list \<Rightarrow> nat \<Rightarrow> (nat \<Rightarrow> bool) \<Rightarrow> nat \<Rightarrow> jsval list option" where
  "item_ids_at command width valid_item marker =
    (let count = length command - marker - 1;
         items = map (\<lambda>n. marker + 1 + n * width) [0..<count div width] in
     if token_at command marker \<noteq> Some (ascii ''ITEMS'') \<or> count = 0 \<or> count mod width \<noteq> 0 then None
     else if list_all (\<lambda>i. isAutoBatchResourceValue (arg_at command i) \<and> valid_item i) items
     then Some (map (arg_at command) items) else None)"

definition fixedFlowItemIds :: "jsval list \<Rightarrow> nat \<Rightarrow> (nat \<Rightarrow> bool) \<Rightarrow> nat option \<Rightarrow> jsval list option" where
  "fixedFlowItemIds command width valid_item only_marker =
    first_some (item_ids_at command width valid_item)
      (case only_marker of
         Some m \<Rightarrow> [m]
       | None \<Rightarrow> [view_start (commandView command)..<length command])"

definition skipExtendedNamedItems :: "jsval list \<Rightarrow> nat \<Rightarrow> bool \<Rightarrow> nat option" where
  "skipExtendedNamedItems command count_index encoded_values =
    (case nonNegativeItemCount (arg_at command count_index) of
       None \<Rightarrow> None
     | Some count \<Rightarrow>
         let first_item = count_index + 1 in
         if int count > (int (length command) - int first_item) div 2 then None
         else if list_all (\<lambda>n. isAutoBatchResourceValue (arg_at command (first_item + n * 2)) \<and>
             (if encoded_values then is_buffer (arg_at command (first_item + n * 2 + 1))
              else isAutoBatchResourceValue (arg_at command (first_item + n * 2 + 1)))) [0..<count]
         then Some (first_item + count * 2) else None)"

fun extended_items :: "jsval list \<Rightarrow> nat \<Rightarrow> nat \<Rightarrow> (jsval list \<times> nat) option" where
  "extended_items command 0 cursor = Some ([], cursor)"
| "extended_items command (Suc n) cursor =
    (let id = arg_at command cursor in
     if \<not> isAutoBatchResourceValue id \<or> \<not> isAutoBatchResourceValue (arg_at command (cursor + 1)) \<or>
        \<not> is_buffer (arg_at command (cursor + 2)) then None
     else (case skipExtendedNamedItems command (cursor + 3) True of
         None \<Rightarrow> None
       | Some after_values \<Rightarrow>
           (case skipExtendedNamedItems command after_values False of
              None \<Rightarrow> None
            | Some after_refs \<Rightarrow>
                map_option (\<lambda>(ids, stop). (id # ids, stop)) (extended_items command n after_refs))))"

definition extendedCreateManyAutoBatchIds :: "jsval list \<Rightarrow> nat \<Rightarrow> jsval list option" where
  "extendedCreateManyAutoBatchIds command marker =
    (case nonNegativeItemCount (arg_at command (marker + 1)) of
       None \<Rightarrow> None
     | Some count \<Rightarrow>
         if count = 0 then None
         else (case extended_items command count (marker + 2) of
             None \<Rightarrow> None
           | Some (ids, cursor) \<Rightarrow> if cursor = length command then Some ids else None))"

definition is_mixed :: "jsval list \<Rightarrow> bool" where
  "is_mixed command \<longleftrightarrow> token_at command (view_start (commandView command)) = Some (ascii ''MIXED'')"

definition resource_at :: "jsval list \<Rightarrow> nat \<Rightarrow> bool" where
  "resource_at command i = isAutoBatchResourceValue (arg_at command i)"

definition createManyAutoBatchIds :: "jsval list \<Rightarrow> jsval list option" where
  "createManyAutoBatchIds command =
    (let start = view_start (commandView command); mixed = is_mixed command; width = (if mixed then 3 else 2) in
     first_some (\<lambda>marker.
       if token_at command marker = Some (ascii ''ITEMS'') then
         fixedFlowItemIds command width (\<lambda>i. resource_at command i \<and>
           (mixed \<longrightarrow> resource_at command (i + 1)) \<and> is_buffer (arg_at command (i + width - 1))) (Some marker)
       else if token_at command marker = Some (ascii ''ITEMS_EXT'') then
         extendedCreateManyAutoBatchIds command marker
       else None) [start + 1..<length command])"

text \<open>The identifier of one item of FLOW.RUN_STEPS_MANY: a name, or the \<open>id\<close> of an object.\<close>

fun run_step_id :: "jsval \<Rightarrow> jsval option" where
  "run_step_id (JStr s) = Some (JStr s)"
| "run_step_id (JBuf b) = Some (JBuf b)"
| "run_step_id (JObj kvs) =
    (case own (ascii ''id'') kvs of
       Some v \<Rightarrow> if isAutoBatchResourceValue v then Some v else None
     | None \<Rightarrow> None)"
| "run_step_id _ = None"

fun all_some :: "'a option list \<Rightarrow> 'a list option" where
  "all_some [] = Some []"
| "all_some (None # xs) = None"
| "all_some (Some x # xs) = map_option (Cons x) (all_some xs)"

definition run_steps_at :: "jsval list \<Rightarrow> nat \<Rightarrow> jsval list option option" where
  "run_steps_at command marker =
    (case arg_at command (marker + 1) of
       JArr items \<Rightarrow>
         if token_at command marker = Some (ascii ''ITEMS'') \<and> marker + 2 = length command
         then Some (case all_some (map run_step_id items) of
             None \<Rightarrow> None | Some ids \<Rightarrow> if ids = [] then None else Some ids)
         else None
     | _ \<Rightarrow> None)"

definition runStepsManyAutoBatchIds :: "jsval list \<Rightarrow> jsval list option" where
  "runStepsManyAutoBatchIds command =
    (case first_some (run_steps_at command)
        [view_start (commandView command)..<length command - 1] of
       None \<Rightarrow> None | Some ids \<Rightarrow> ids)"

definition flowManyAutoBatchIds :: "jsval list \<Rightarrow> jsstr \<Rightarrow> jsval list option" where
  "flowManyAutoBatchIds command name =
    (if name = ascii ''FLOW.RUN_STEPS_MANY'' then runStepsManyAutoBatchIds command
     else if name = ascii ''FLOW.CREATE_MANY'' then createManyAutoBatchIds command
     else let mixed = is_mixed command; off = (if mixed then 1 else 0) in
       if name = ascii ''FLOW.CANCEL_MANY'' then
         fixedFlowItemIds command (2 + off) (\<lambda>i. resource_at command i \<and>
           (mixed \<longrightarrow> resource_at command (i + 1)) \<and> isFencingToken (arg_at command (i + 1 + off))) None
       else if name = ascii ''FLOW.TRANSITION_MANY'' then
         fixedFlowItemIds command (3 + off) (\<lambda>i. resource_at command i \<and>
           (mixed \<longrightarrow> resource_at command (i + 1)) \<and> isFencingToken (arg_at command (i + 1 + off)) \<and>
           is_buffer (arg_at command (i + 2 + off))) None
       else
         fixedFlowItemIds command (3 + off) (\<lambda>i. resource_at command i \<and>
           (mixed \<longrightarrow> resource_at command (i + 1)) \<and> is_buffer (arg_at command (i + 1 + off)) \<and>
           isFencingToken (arg_at command (i + 2 + off))) None)"

section \<open>The accesses of a command\<close>

type_synonym accesses = "(jsstr \<times> access) list"

fun flowValuePutOwner :: "jsval list \<Rightarrow> jsval \<Rightarrow> jsval" where
  "flowValuePutOwner [] owner = owner"
| "flowValuePutOwner [a] owner = JUndef"
| "flowValuePutOwner (a # b # rest) owner =
    (if token_in flowValuePutOptionTokens a
     then flowValuePutOwner rest (if command_token a = Some (ascii ''OWNER_FLOW_ID'') then b else owner)
     else JUndef)"

definition flowValuePutAccesses :: "jsval list \<Rightarrow> accesses option" where
  "flowValuePutAccesses command =
    (let value_index = view_start (commandView command) in
     if nullish (arg_at command value_index) then None
     else let owner = flowValuePutOwner (drop (value_index + 1) command) JUndef in
       if isAutoBatchResourceValue owner then Some [(autoBatchResourceKey ''flow'' owner, Write)]
       else Some [(ascii ''flow_value:shared'', Write)])"

text \<open>\<open>namespaced ns access values\<close>: the accesses of a list of names, if they are names at all.\<close>

definition namespaced :: "string \<Rightarrow> access \<Rightarrow> jsval list \<Rightarrow> accesses option" where
  "namespaced namespace a vals =
    (if list_all isAutoBatchResourceValue vals
     then Some (map (\<lambda>v. (autoBatchResourceKey namespace v, a)) vals) else None)"

definition nonempty :: "'a list option \<Rightarrow> 'a list option" where
  "nonempty r = (case r of Some [] \<Rightarrow> None | _ \<Rightarrow> r)"

definition flowValueMGetAccesses :: "jsval list \<Rightarrow> accesses option" where
  "flowValueMGetAccesses command =
    nonempty (namespaced ''flow_value'' Read
      (mget_refs (splitFlowValueMGetArguments command (view_start (commandView command)))))"

definition flowAutoBatchOrderingAccesses :: "jsval list \<Rightarrow> jsstr \<Rightarrow> accesses option" where
  "flowAutoBatchOrderingAccesses command name =
    (if name = ascii ''FLOW.VALUE.MGET'' then flowValueMGetAccesses command
     else if name = ascii ''FLOW.VALUE.PUT'' then flowValuePutAccesses command
     else if has flowManyWriteAutoBatchCommands name then
       map_option (map (\<lambda>v. (autoBatchResourceKey ''flow'' v, Write))) (flowManyAutoBatchIds command name)
     else
       (case (if has flowIdReadAutoBatchCommands name then Some Read
              else if has flowIdWriteAutoBatchCommands name then Some Write else None) of
          None \<Rightarrow> None
        | Some a \<Rightarrow> namespaced ''flow'' a [arg_at command (view_start (commandView command))]))"

definition kv_values :: "jsval list \<Rightarrow> jsstr \<Rightarrow> jsval list option" where
  "kv_values command name =
    (if has [''DEL'', ''EXISTS'', ''MGET''] name then Some (drop 1 command)
     else if name = ascii ''MSET'' then
       (if length command < 3 \<or> (length command - 1) mod 2 \<noteq> 0 then None
        else if list_all isAutoBatchResourceValue (pair_keys (drop 1 command)) then Some (pair_keys (drop 1 command))
        else None)
     else Some (subarray 1 2 command))"

definition autoBatchCommandOrderingAccesses :: "jsval list \<Rightarrow> accesses option" where
  "autoBatchCommandOrderingAccesses command =
    (case view_name (commandView command) of
       None \<Rightarrow> None
     | Some name \<Rightarrow>
         if \<not> has safeAutoBatchCommands name then None
         else if prefix (ascii ''FLOW.'') name then flowAutoBatchOrderingAccesses command name
         else (case kv_values command name of
             None \<Rightarrow> None
           | Some vals \<Rightarrow>
               nonempty (namespaced ''kv'' (if has readOnlyAutoBatchCommands name then Read else Write) vals)))"

section \<open>The plan\<close>

text \<open>One access recorded in a map: a write replaces a read, a read replaces nothing.\<close>

definition merge_access :: "jsstr \<times> access \<Rightarrow> accesses \<Rightarrow> accesses" where
  "merge_access ka al =
    (if snd ka = Write \<or> map_of al (fst ka) = None then AList.update (fst ka) (snd ka) al else al)"

definition merge_all :: "accesses \<Rightarrow> accesses \<Rightarrow> accesses" where
  "merge_all raw al = fold merge_access raw al"

record plan_tables =
  pt_writes :: "jsstr \<rightharpoonup> nat"
  pt_reads :: "jsstr \<rightharpoonup> nat list"

definition empty_plan :: plan_tables where
  "empty_plan = \<lparr>pt_writes = Map.empty, pt_reads = Map.empty\<rparr>"

definition reads_of :: "plan_tables \<Rightarrow> jsstr \<Rightarrow> nat list" where
  "reads_of pt key = (case pt_reads pt key of None \<Rightarrow> [] | Some rs \<Rightarrow> rs)"

text \<open>The set \<open>dependencies\<close> of one command, as the list of its elements.\<close>

definition add_dependencies :: "plan_tables \<Rightarrow> jsstr \<times> access \<Rightarrow> nat list \<Rightarrow> nat list" where
  "add_dependencies pt ka deps =
    (let deps1 = (case pt_writes pt (fst ka) of None \<Rightarrow> deps | Some w \<Rightarrow> set_add w deps)
     in if snd ka = Write then fold set_add (reads_of pt (fst ka)) deps1 else deps1)"

definition note_access :: "nat \<Rightarrow> jsstr \<times> access \<Rightarrow> plan_tables \<Rightarrow> plan_tables" where
  "note_access index ka pt =
    (if snd ka = Read then pt\<lparr>pt_reads := (pt_reads pt)(fst ka \<mapsto> set_add index (reads_of pt (fst ka)))\<rparr>
     else pt\<lparr>pt_reads := (pt_reads pt)(fst ka := None), pt_writes := (pt_writes pt)(fst ka \<mapsto> index)\<rparr>)"

definition note_accesses :: "nat \<Rightarrow> accesses \<Rightarrow> plan_tables \<Rightarrow> plan_tables" where
  "note_accesses index al pt = fold (note_access index) al pt"

fun plan_loop :: "nat \<Rightarrow> jsval list list \<Rightarrow> accesses \<Rightarrow> plan_tables \<Rightarrow> (accesses \<times> nat list list) option" where
  "plan_loop index [] accesses pt = Some (accesses, [])"
| "plan_loop index (command # rest) accesses pt =
    (case autoBatchCommandOrderingAccesses command of
       None \<Rightarrow> None
     | Some raw \<Rightarrow>
         let command_accesses = merge_all raw [];
             dependencies = sort (fold (add_dependencies pt) command_accesses [])
         in map_option (\<lambda>(all, deps). (all, dependencies # deps))
              (plan_loop (Suc index) rest (merge_all raw accesses) (note_accesses index command_accesses pt)))"

definition autoBatchOrderingPlan :: "jsval list list \<Rightarrow> (accesses \<times> nat list list) option" where
  "autoBatchOrderingPlan batch =
    (case plan_loop 0 batch [] empty_plan of
       None \<Rightarrow> None
     | Some (accesses, deps) \<Rightarrow> if accesses = [] then None else Some (accesses, deps))"

section \<open>Lemmas\<close>

subsection \<open>Merging accesses\<close>

lemma merge_access_keys: "distinct (map fst al) \<Longrightarrow> distinct (map fst (merge_access ka al))"
  by (simp add: merge_access_def distinct_update)

lemma merge_all_distinct: "distinct (map fst al) \<Longrightarrow> distinct (map fst (merge_all raw al))"
  unfolding merge_all_def by (induction raw arbitrary: al) (auto simp: merge_access_keys)

lemma map_of_merge_access:
  "map_of (merge_access ka al) k =
    (if fst ka = k \<and> (snd ka = Write \<or> map_of al k = None) then Some (snd ka) else map_of al k)"
  by (auto simp: merge_access_def update_conv')

lemma map_of_merge_all:
  "map_of (merge_all raw al) k =
    (if (k, Write) \<in> set raw then Some Write
     else if map_of al k \<noteq> None then map_of al k
     else if (k, Read) \<in> set raw then Some Read else None)"
proof (induction raw arbitrary: al)
  case (Cons ka raw)
  obtain k' a where ka: "ka = (k', a)" by fastforce
  show ?case
    using Cons [of "merge_access ka al"]
    by (cases a) (auto simp: merge_all_def map_of_merge_access ka)
qed (simp add: merge_all_def)

subsection \<open>The tables of the plan\<close>

lemma note_accesses_writes:
  "distinct (map fst al) \<Longrightarrow>
    pt_writes (note_accesses n al pt) k = (if map_of al k = Some Write then Some n else pt_writes pt k)"
proof (induction al arbitrary: pt)
  case (Cons ka al)
  obtain k' a where ka: "ka = (k', a)" by fastforce
  have "map_of al k' = None" using Cons.prems ka by (simp add: map_of_eq_None_iff)
  with Cons show ?case by (cases a) (auto simp: note_accesses_def note_access_def ka)
qed (simp add: note_accesses_def)

lemma note_access_reads:
  "set (reads_of (note_access n (k', a) pt) k) =
    (if k = k' then (if a = Write then {} else insert n (set (reads_of pt k))) else set (reads_of pt k))"
  by (cases a) (auto simp: note_access_def reads_of_def)

lemma note_accesses_reads:
  "distinct (map fst al) \<Longrightarrow> set (reads_of (note_accesses n al pt) k) =
    (if map_of al k = Some Write then {} else if map_of al k = Some Read then insert n (set (reads_of pt k))
     else set (reads_of pt k))"
proof (induction al arbitrary: pt)
  case (Cons ka al)
  obtain k' a where ka: "ka = (k', a)" by fastforce
  have "map_of al k' = None" using Cons.prems ka by (simp add: map_of_eq_None_iff)
  with Cons.prems Cons.IH [of "note_access n ka pt"] show ?case
    by (cases a) (auto simp: note_accesses_def note_access_reads ka)
qed (simp add: note_accesses_def)

lemma empty_plan_reads [simp]: "reads_of empty_plan k = []"
  by (simp add: reads_of_def empty_plan_def)

interpretation plan: access_table "\<lambda>_. True" pt_writes "\<lambda>pt k. set (reads_of pt k)" empty_plan note_accesses
  by unfold_locales (simp_all add: note_accesses_writes note_accesses_reads, simp add: empty_plan_def)

lemma fold_set_add: "set (fold set_add xs ys) = set xs \<union> set ys" "distinct ys \<Longrightarrow> distinct (fold set_add xs ys)"
  by (induction xs arbitrary: ys) auto

lemma add_dependencies_set:
  "set (add_dependencies pt (k, a) deps) =
    set deps \<union> set_option (pt_writes pt k) \<union> (if a = Write then set (reads_of pt k) else {})"
  "distinct deps \<Longrightarrow> distinct (add_dependencies pt ka deps)"
  by (auto simp: add_dependencies_def fold_set_add Let_def split: option.split)

lemma fold_add_dependencies:
  "set (fold (add_dependencies pt) al deps) =
    set deps \<union> table_deps (pt_writes pt) (\<lambda>k. set (reads_of pt k)) al"
  "distinct deps \<Longrightarrow> distinct (fold (add_dependencies pt) al deps)"
  by (induction al arbitrary: deps) (auto simp: table_deps_def add_dependencies_set)

subsection \<open>The loop\<close>

text \<open>How the command at a position accesses a resource.\<close>

definition command_access :: "jsval list \<Rightarrow> jsstr \<Rightarrow> access option" where
  "command_access command k =
    (case autoBatchCommandOrderingAccesses command of
       None \<Rightarrow> None
     | Some raw \<Rightarrow>
         if (k, Write) \<in> set raw then Some Write else if (k, Read) \<in> set raw then Some Read else None)"

definition batch_history :: "jsval list list \<Rightarrow> jsstr history" where
  "batch_history batch i k = (if i < length batch then command_access (batch ! i) k else None)"

lemma map_of_merged:
  "autoBatchCommandOrderingAccesses command = Some raw \<Longrightarrow>
    map_of (merge_all raw []) = command_access command"
  by (auto simp: fun_eq_iff map_of_merge_all command_access_def)

lemma plan_loop_spec:
  "plan_loop index rest accesses pt = Some (all, deps) \<Longrightarrow> drop index batch = rest \<Longrightarrow>
    tracks (batch_history batch) index UNIV (pt_writes pt) (\<lambda>k. set (reads_of pt k)) \<Longrightarrow>
    length deps = length rest \<and>
    (\<forall>i < length rest. sorted (deps ! i) \<and> distinct (deps ! i) \<and>
      set (deps ! i) = {j. depends (batch_history batch) (index + i) j}) \<and>
    (\<forall>k. map_of all k = (if \<exists>i < length rest. command_access (rest ! i) k = Some Write then Some Write
      else if map_of accesses k \<noteq> None then map_of accesses k
      else if \<exists>i < length rest. command_access (rest ! i) k = Some Read then Some Read else None))"
proof (induction index rest accesses pt arbitrary: all deps rule: plan_loop.induct)
  case (2 index command rest accesses pt)
  from 2(2) obtain raw tail_deps where raw: "autoBatchCommandOrderingAccesses command = Some raw"
    and tail: "plan_loop (Suc index) rest (merge_all raw accesses) (note_accesses index (merge_all raw []) pt) =
      Some (all, tail_deps)"
    and deps: "deps = sort (fold (add_dependencies pt) (merge_all raw []) []) # tail_deps"
    by (auto simp: Let_def split: option.splits)
  have "index < length batch" using 2(3) by (metis drop_all list.distinct(1) not_le)
  with 2(3) have at: "batch ! index = command" and rest: "drop (Suc index) batch = rest"
    by (simp_all add: Cons_nth_drop_Suc [symmetric])
  have hist: "batch_history batch index = map_of (merge_all raw [])"
    using \<open>index < length batch\<close> by (simp add: fun_eq_iff batch_history_def at map_of_merged [OF raw])
  have al: "distinct (map fst (merge_all raw []))" by (simp add: merge_all_distinct)
  have "tracks (batch_history batch) (Suc index) (insert index UNIV)
      (pt_writes (note_accesses index (merge_all raw []) pt))
      (\<lambda>k. set (reads_of (note_accesses index (merge_all raw []) pt) k))"
    by (rule plan.tracks_note [OF 2(4) _ al hist]) simp
  then have IH: "length tail_deps = length rest"
    "\<And>i. i < length rest \<Longrightarrow> sorted (tail_deps ! i) \<and> distinct (tail_deps ! i) \<and>
      set (tail_deps ! i) = {j. depends (batch_history batch) (Suc index + i) j}"
    "\<And>k. map_of all k = (if \<exists>i < length rest. command_access (rest ! i) k = Some Write then Some Write
      else if map_of (merge_all raw accesses) k \<noteq> None then map_of (merge_all raw accesses) k
      else if \<exists>i < length rest. command_access (rest ! i) k = Some Read then Some Read else None)"
    using 2(1) [OF raw refl refl tail rest] by simp_all
  have first: "set (sort (fold (add_dependencies pt) (merge_all raw []) [])) =
      {j. depends (batch_history batch) index j}"
    using table_deps_depends [OF 2(4) hist al] by (simp add: fold_add_dependencies)
  have "map_of all k = (if \<exists>i < length (command # rest). command_access ((command # rest) ! i) k = Some Write
      then Some Write else if map_of accesses k \<noteq> None then map_of accesses k
      else if \<exists>i < length (command # rest). command_access ((command # rest) ! i) k = Some Read then Some Read
      else None)" for k
    unfolding IH(3) map_of_merge_all by (auto simp: Ex_less_Suc2 command_access_def raw)
  moreover have "sorted (deps ! i) \<and> distinct (deps ! i) \<and>
      set (deps ! i) = {j. depends (batch_history batch) (index + i) j}" if "i < length (command # rest)" for i
    using that IH(2) [of "i - 1"] first by (cases i) (auto simp: deps fold_add_dependencies)
  ultimately show ?case using IH(1) by (simp add: deps)
qed auto

subsection \<open>Resource keys\<close>

lemma base64_alphabet: "distinct base64_alphabet" "length base64_alphabet = 64" "CHR ''='' \<notin> set base64_alphabet"
  by (simp_all add: base64_alphabet_def)

lemma base64_digit_eq: "d < 64 \<Longrightarrow> e < 64 \<Longrightarrow> base64_digit d = base64_digit e \<longleftrightarrow> d = e"
  by (simp add: base64_digit_def of_char_16_eq nth_eq_iff_index_eq base64_alphabet)

lemma base64_digit_pad: "d < 64 \<Longrightarrow> base64_digit d \<noteq> 0x3D"
proof
  assume "d < 64" "base64_digit d = 0x3D"
  moreover have "(0x3D :: 16 word) = of_char (CHR ''='')" by simp
  ultimately have "base64_alphabet ! d = CHR ''=''" by (simp only: base64_digit_def of_char_16_eq)
  with \<open>d < 64\<close> show False using base64_alphabet nth_mem by metis
qed

lemma base64_group_length [simp]: "length (base64_group k n) = k"
  by (simp add: base64_group_def)

lemma base64_group_pad: "0x3D \<notin> set (base64_group k n)"
  using base64_digit_pad by (auto simp: base64_group_def)

lemma base64_group_digit:
  "base64_group k n = base64_group k m \<Longrightarrow> i < k \<Longrightarrow> n div 64 ^ (3 - i) mod 64 = m div 64 ^ (3 - i) mod 64"
proof -
  assume "base64_group k n = base64_group k m" "i < k"
  then have "base64_group k n ! i = base64_group k m ! i" by simp
  with \<open>i < k\<close> show ?thesis by (simp add: base64_group_def base64_digit_eq)
qed

lemma mod_join: "n mod a = m mod a \<Longrightarrow> n div a mod b = m div a mod b \<Longrightarrow> n mod (a * b) = m mod (a * b)" for n :: nat
  by (simp add: mod_mult2_eq)

lemma base64_group_determines:
  assumes "base64_group k n = base64_group k m"
  shows "2 \<le> k \<Longrightarrow> n div 4096 mod 4096 = m div 4096 mod 4096"
    and "3 \<le> k \<Longrightarrow> n div 64 mod 262144 = m div 64 mod 262144"
    and "4 \<le> k \<Longrightarrow> n mod 16777216 = m mod 16777216"
proof -
  note digit = base64_group_digit [OF assms]
  show two: "n div 4096 mod 4096 = m div 4096 mod 4096" if "2 \<le> k"
    using mod_join [of "n div 4096" 64 "m div 4096" 64] digit [of 0] digit [of 1] that
      div_mult2_eq [of n 4096 64] div_mult2_eq [of m 4096 64] by simp
  show three: "n div 64 mod 262144 = m div 64 mod 262144" if "3 \<le> k"
    using mod_join [of "n div 64" 64 "m div 64" 4096] digit [of 2] that two
      div_mult2_eq [of n 64 64] div_mult2_eq [of m 64 64] by simp
  show "n mod 16777216 = m mod 16777216" if "4 \<le> k"
    using mod_join [of n 64 m 262144] digit [of 3] that three by simp
qed

lemma radix_eq: "(b :: nat) < k \<Longrightarrow> b' < k \<Longrightarrow> a * k + b = a' * k + b' \<longleftrightarrow> a = a' \<and> b = b'"
proof
  assume "b < k" "b' < k" and eq: "a * k + b = a' * k + b'"
  then have "(a * k + b) div k = (a' * k + b') div k" "(a * k + b) mod k = (a' * k + b') mod k" by simp_all
  then show "a = a' \<and> b = b'" using \<open>b < k\<close> \<open>b' < k\<close> by simp
qed simp

lemma group_three_bytes:
  fixes a b c a' b' c' :: byte
  assumes "base64_group 4 (unat a * 65536 + unat b * 256 + unat c) = base64_group 4 (unat a' * 65536 + unat b' * 256 + unat c')"
  shows "a = a' \<and> b = b' \<and> c = c'"
proof -
  have "unat a * 65536 + unat b * 256 + unat c < 16777216" "unat a' * 65536 + unat b' * 256 + unat c' < 16777216"
    using unat_byte [of a] unat_byte [of b] unat_byte [of c] unat_byte [of a'] unat_byte [of b'] unat_byte [of c']
    by linarith+
  with base64_group_determines(3) [OF assms]
  have "(unat a * 256 + unat b) * 256 + unat c = (unat a' * 256 + unat b') * 256 + unat c'" by simp
  then have "unat a * 256 + unat b = unat a' * 256 + unat b' \<and> unat c = unat c'"
    by (simp only: radix_eq [OF unat_byte unat_byte])
  then have "(unat a = unat a' \<and> unat b = unat b') \<and> unat c = unat c'"
    by (simp only: radix_eq [OF unat_byte unat_byte])
  then show ?thesis by (simp add: word_unat_eq_iff)
qed

lemma group_two_bytes:
  fixes a b a' b' :: byte
  assumes "base64_group 3 (unat a * 65536 + unat b * 256) = base64_group 3 (unat a' * 65536 + unat b' * 256)"
  shows "a = a' \<and> b = b'"
proof -
  have div64: "(unat x * 65536 + unat y * 256) div 64 = (unat x * 256 + unat y) * 4" for x y :: byte
  proof -
    have "unat x * 65536 + unat y * 256 = (unat x * 256 + unat y) * 4 * 64" by simp
    then show ?thesis by (simp only: nonzero_mult_div_cancel_right)
  qed
  have lt: "(unat x * 256 + unat y) * 4 < 262144" for x y :: byte
    using unat_byte [of x] unat_byte [of y] by simp
  have "(unat a * 256 + unat b) * 4 = (unat a' * 256 + unat b') * 4"
    using base64_group_determines(2) [OF assms] unfolding div64 by (simp only: mod_less lt order_refl numeral_le_iff)
  then have "unat a * 256 + unat b = unat a' * 256 + unat b'" by simp
  then have "unat a = unat a' \<and> unat b = unat b'" by (simp only: radix_eq [OF unat_byte unat_byte])
  then show ?thesis by (simp add: word_unat_eq_iff)
qed

lemma group_one_byte:
  fixes a a' :: byte
  assumes "base64_group 2 (unat a * 65536) = base64_group 2 (unat a' * 65536)"
  shows "a = a'"
proof -
  have "unat x * 65536 div 4096 = unat x * 16" for x :: byte
  proof -
    have "unat x * 65536 = unat x * 16 * 4096" by simp
    then show ?thesis by (simp only: nonzero_mult_div_cancel_right)
  qed
  moreover have "unat a * 16 < 4096" "unat a' * 16 < 4096"
    using unat_byte [of a] unat_byte [of a'] by linarith+
  ultimately show ?thesis using base64_group_determines(1) [OF assms] by (simp add: word_unat_eq_iff)
qed

text \<open>The padding tells the length of the last group.\<close>

definition padding :: "jsstr \<Rightarrow> bool \<times> bool \<times> bool" where
  "padding s = (s = [], 0x3D \<in> set (take 3 s), 0x3D \<in> set (take 4 s))"

lemma padding_base64:
  "padding (base64 (a # b # c # rest)) = (False, False, False)"
  "padding (base64 [a, b]) = (False, False, True)"
  "padding (base64 [a]) = (False, True, True)"
  "padding (base64 []) = (True, False, False)"
  using base64_group_pad
  by (auto simp: padding_def base64_group_pad dest: in_set_takeD simp flip: length_0_conv)

lemma base64_inj: "base64 xs = base64 ys \<longleftrightarrow> xs = ys"
proof
  show "base64 xs = base64 ys \<Longrightarrow> xs = ys"
  proof (induction xs arbitrary: ys rule: base64.induct)
    case (1 a b c rest)
    then have "padding (base64 ys) = (False, False, False)" by (simp only: padding_base64 flip: 1(2))
    then obtain a' b' c' rest' where ys: "ys = a' # b' # c' # rest'"
      by (cases ys rule: base64.cases) (simp_all add: padding_base64 del: base64.simps)
    then have "base64_group 4 (unat a * 65536 + unat b * 256 + unat c) =
        base64_group 4 (unat a' * 65536 + unat b' * 256 + unat c') \<and> base64 rest = base64 rest'"
      using 1(2) by (simp add: append_eq_append_conv)
    with 1(1) [of rest'] ys group_three_bytes show ?case by blast
  next
    case (2 a b)
    then have "padding (base64 ys) = (False, False, True)" by (simp only: padding_base64 flip: 2)
    then obtain a' b' where ys: "ys = [a', b']"
      by (cases ys rule: base64.cases) (simp_all add: padding_base64 del: base64.simps)
    with 2 group_two_bytes [of a b a' b'] show ?case by simp
  next
    case (3 a)
    then have "padding (base64 ys) = (False, True, True)" by (simp only: padding_base64 flip: 3)
    then obtain a' where ys: "ys = [a']"
      by (cases ys rule: base64.cases) (simp_all add: padding_base64 del: base64.simps)
    with 3 group_one_byte [of a a'] show ?case by simp
  next
    case 4
    then have "padding (base64 ys) = (True, False, False)" by (simp only: padding_base64 flip: 4)
    then show ?case by (cases ys rule: base64.cases) (simp_all add: padding_base64 del: base64.simps)
  qed
qed simp

lemma resource_key_eq:
  "autoBatchResourceKey ns v = autoBatchResourceKey ns w \<longleftrightarrow> resource_bytes v = resource_bytes w"
  by (simp add: autoBatchResourceKey_def base64_inj)

section \<open>Properties\<close>

text \<open>C8. The plan of a batch orders every conflict: each command waits for exactly the last earlier writer
  of every resource it touches and, if it writes, for the readers since; so it waits for earlier
  commands only and never without a conflict; and of two commands that touch a common resource, one of
  them writing it, the later one waits, directly or through others, for the earlier one. The summary of
  accesses of the whole batch has every resource touched, as written if any command writes it.\<close>

theorem plan_orders_conflicts:
  assumes "autoBatchOrderingPlan batch = Some (accesses, deps)"
  shows "length deps = length batch \<and>
    (\<forall>i < length batch. set (deps ! i) = {j. depends (batch_history batch) i j} \<and>
      sorted (deps ! i) \<and> distinct (deps ! i)) \<and>
    (\<forall>i < length batch. \<forall>j. j \<in> set (deps ! i) \<longrightarrow> j < i \<and> conflict (batch_history batch) j i) \<and>
    (\<forall>i j. i < j \<and> j < length batch \<and> conflict (batch_history batch) i j \<longrightarrow>
      (\<lambda>a b. a < length batch \<and> b \<in> set (deps ! a))\<^sup>+\<^sup>+ j i) \<and>
    (\<forall>k. map_of accesses k =
      (if \<exists>i < length batch. command_access (batch ! i) k = Some Write then Some Write
       else if \<exists>i < length batch. command_access (batch ! i) k = Some Read then Some Read else None))"
proof -
  from assms have loop: "plan_loop 0 batch [] empty_plan = Some (accesses, deps)"
    by (auto simp: autoBatchOrderingPlan_def split: option.splits if_splits)
  note spec = plan_loop_spec [OF loop, of batch, simplified drop_0, OF refl plan.tracks_start]
  then have deps: "set (deps ! i) = {j. depends (batch_history batch) i j}" if "i < length batch" for i
    using that by simp
  have reach: "(\<lambda>a b. a < length batch \<and> b \<in> set (deps ! a))\<^sup>+\<^sup>+ j i"
    if "i < j" "j < length batch" "conflict (batch_history batch) i j" for i j
  proof -
    from that(3) have "(depends (batch_history batch))\<^sup>+\<^sup>+ j i"
      using conflicts_reached [OF that(1), of "batch_history batch"] unfolding conflict_def by blast
    then show ?thesis using that(2)
    proof (induction rule: tranclp_induct)
      case (base y)
      then show ?case using deps by (intro tranclp.r_into_trancl) simp
    next
      case (step y z)
      then have path: "(\<lambda>a b. a < length batch \<and> b \<in> set (deps ! a))\<^sup>+\<^sup>+ j y" by simp
      from step.hyps(1) have "y < j"
        by (induction rule: tranclp_induct) (auto dest: depends_earlier)
      with step.prems step.hyps(2) deps [of y] have "y < length batch \<and> z \<in> set (deps ! y)" by simp
      with path show ?case by (rule tranclp.trancl_into_trancl)
    qed
  qed
  have edge: "j < i \<and> conflict (batch_history batch) j i" if "i < length batch" "j \<in> set (deps ! i)" for i j
    using that deps depends_earlier [of "batch_history batch" i j] depends_conflict [of "batch_history batch" i j] by simp
  have exact: "length deps = length batch \<and>
      (\<forall>i < length batch. set (deps ! i) = {j. depends (batch_history batch) i j} \<and>
        sorted (deps ! i) \<and> distinct (deps ! i))"
    using spec by simp
  have all: "\<forall>k. map_of accesses k =
      (if \<exists>i < length batch. command_access (batch ! i) k = Some Write then Some Write
       else if \<exists>i < length batch. command_access (batch ! i) k = Some Read then Some Read else None)"
    using spec by (simp only: map_of.simps simp_thms if_False not_True_eq_False)
  show ?thesis using exact all edge reach by blast
qed

definition demo_batch :: "jsval list list" where
  "demo_batch = [[JStr (ascii ''SET''), JStr (ascii ''k''), JStr (ascii ''v'')], [JStr (ascii ''GET''), JStr (ascii ''k'')]]"

lemma demo_batch_plan:
  "autoBatchOrderingPlan demo_batch = Some ([(autoBatchResourceKey ''kv'' (JStr (ascii ''k'')), Write)], [[], [0]])"
proof -
  have names: "to_upper (ascii ''SET'') = ascii ''SET''" "to_upper (ascii ''GET'') = ascii ''GET''"
    by (rule to_upper_ascii, simp)+
  have flow: "\<not> prefix (ascii ''FLOW.'') (ascii ''SET'')" "\<not> prefix (ascii ''FLOW.'') (ascii ''GET'')"
    by (simp_all add: ascii_def)
  note unfolds = autoBatchCommandOrderingAccesses_def commandView_def arg_at_def names flow
    compoundCommandPrefixes_def safeAutoBatchCommands_def readOnlyAutoBatchCommands_def kv_values_def
    nonempty_def namespaced_def subarray_def
  have "autoBatchCommandOrderingAccesses [JStr (ascii ''SET''), JStr (ascii ''k''), JStr (ascii ''v'')] =
      Some [(autoBatchResourceKey ''kv'' (JStr (ascii ''k'')), Write)]"
    and "autoBatchCommandOrderingAccesses [JStr (ascii ''GET''), JStr (ascii ''k'')] =
      Some [(autoBatchResourceKey ''kv'' (JStr (ascii ''k'')), Read)]"
    by (simp_all add: unfolds)
  then show ?thesis
    by (simp add: autoBatchOrderingPlan_def demo_batch_def merge_all_def merge_access_def add_dependencies_def
        note_accesses_def note_access_def empty_plan_def reads_of_def set_add_def Let_def)
qed

theorem plan_orders_conflicts_witness:
  "\<exists>accesses deps. autoBatchOrderingPlan demo_batch = Some (accesses, deps) \<and> deps = [[], [0]] \<and>
    (\<forall>i < length demo_batch. set (deps ! i) = {j. depends (batch_history demo_batch) i j})"
proof (intro exI conjI)
  show "autoBatchOrderingPlan demo_batch =
      Some ([(autoBatchResourceKey ''kv'' (JStr (ascii ''k'')), Write)], [[], [0]])"
    by (rule demo_batch_plan)
  show "\<forall>i < length demo_batch. set ([[], [0]] ! i) = {j. depends (batch_history demo_batch) i j}"
    using plan_orders_conflicts [OF demo_batch_plan] by (elim conjE) simp
qed simp

text \<open>Two values of a command name the same resource exactly when they are the same bytes: strings and
  buffers are told apart by their UTF-8 bytes alone, in whatever form they are written, and the base64
  text of a resource key never confuses two of them.\<close>

theorem resource_keys_exact:
  "(autoBatchResourceKey ns (JStr s) = autoBatchResourceKey ns (JBuf b) \<longleftrightarrow> utf8_encode s = b) \<and>
    (autoBatchResourceKey ns (JBuf b) = autoBatchResourceKey ns (JBuf c) \<longleftrightarrow> b = c) \<and>
    (autoBatchResourceKey ns (JStr s) = autoBatchResourceKey ns (JStr t) \<longleftrightarrow> utf8_encode s = utf8_encode t)"
  by (simp add: resource_key_eq)

end
