(* ===== verification/AutoBatch.thy ===== *)
theory AutoBatch
  imports AutoBatchOrdering Errors "HOL-Library.Multiset"
begin

text \<open>
  The automatic batching executor (\<open>src/src/auto-batch.ts\<close>): commands wait in a queue, a flush takes a
  batch of them, and batches run concurrently unless they touch a common resource. Which batch waits for
  which is kept in shared objects, one per resource key (\<open>AutoBatchKeyState\<close>), reached from a map and
  from the closures of the batches still in flight; they live in a store here, so that the aliasing is
  visible. A step of the executor is one turn of the event loop: a command comes in, the flush timer
  fires, the awaited batches of a batch are over and it is sent, its pipeline answers, the client closes.
\<close>

section \<open>The table of key states\<close>

record key_state =
  ks_last :: "nat option"
  ks_reads :: "nat list"

definition new_key_state :: key_state where
  "new_key_state = \<lparr>ks_last = None, ks_reads = []\<rparr>"

text \<open>The store of key states, \<open>batchKeyStates\<close>, and the map \<open>keyStates\<close> each batch captured.\<close>

record key_table =
  kt_heap :: "key_state list"
  kt_keys :: "jsstr \<rightharpoonup> nat"
  kt_captured :: "nat \<Rightarrow> jsstr \<rightharpoonup> nat"

definition empty_key_table :: key_table where
  "empty_key_table = \<lparr>kt_heap = [], kt_keys = Map.empty, kt_captured = (\<lambda>_. Map.empty)\<rparr>"

text \<open>The first loop of \<open>flushNow\<close> over the accesses: find or make the state of the key, capture it.\<close>

definition capture_key :: "nat \<Rightarrow> jsstr \<times> access \<Rightarrow> key_table \<Rightarrow> key_table" where
  "capture_key n ka kt =
    (case kt_keys kt (fst ka) of
       Some a \<Rightarrow> kt\<lparr>kt_captured := (kt_captured kt)(n := (kt_captured kt n)(fst ka \<mapsto> a))\<rparr>
     | None \<Rightarrow>
         kt\<lparr>kt_heap := kt_heap kt @ [new_key_state],
           kt_keys := (kt_keys kt)(fst ka \<mapsto> length (kt_heap kt)),
           kt_captured := (kt_captured kt)(n := (kt_captured kt n)(fst ka \<mapsto> length (kt_heap kt)))\<rparr>)"

definition captured_state :: "nat \<Rightarrow> jsstr \<Rightarrow> key_table \<Rightarrow> key_state option" where
  "captured_state n k kt = map_option (\<lambda>a. kt_heap kt ! a) (kt_captured kt n k)"

text \<open>The dependencies that loop collects.\<close>

definition key_dependencies :: "nat \<Rightarrow> accesses \<Rightarrow> key_table \<Rightarrow> nat list" where
  "key_dependencies n al kt = concat (map (\<lambda>(k, a).
    (case captured_state n k kt of
       None \<Rightarrow> []
     | Some st \<Rightarrow> (case ks_last st of None \<Rightarrow> [] | Some w \<Rightarrow> [w]) @ (if a = Write then ks_reads st else []))) al)"

text \<open>The second loop: record the batch in the captured states.\<close>

definition record_key :: "nat \<Rightarrow> jsstr \<times> access \<Rightarrow> key_table \<Rightarrow> key_table" where
  "record_key n ka kt =
    (case kt_captured kt n (fst ka) of
       None \<Rightarrow> kt
     | Some a \<Rightarrow> kt\<lparr>kt_heap := (kt_heap kt)[a :=
         (if snd ka = Read then (kt_heap kt ! a)\<lparr>ks_reads := set_add n (ks_reads (kt_heap kt ! a))\<rparr>
          else (kt_heap kt ! a)\<lparr>ks_reads := [], ks_last := Some n\<rparr>)]\<rparr>)"

definition note_batch :: "nat \<Rightarrow> accesses \<Rightarrow> key_table \<Rightarrow> key_table" where
  "note_batch n al kt = fold (record_key n) al (fold (capture_key n) al kt)"

text \<open>The cleanup when the batch is over.\<close>

definition release_state :: "nat \<Rightarrow> access \<Rightarrow> key_state \<Rightarrow> key_state" where
  "release_state n a st =
    (if a = Read then st\<lparr>ks_reads := removeAll n (ks_reads st)\<rparr>
     else if ks_last st = Some n then st\<lparr>ks_last := None\<rparr> else st)"

definition release_key :: "nat \<Rightarrow> jsstr \<times> access \<Rightarrow> key_table \<Rightarrow> key_table" where
  "release_key n ka kt =
    (case kt_captured kt n (fst ka) of
       None \<Rightarrow> kt
     | Some a \<Rightarrow>
         let st = release_state n (snd ka) (kt_heap kt ! a); kt' = kt\<lparr>kt_heap := (kt_heap kt)[a := st]\<rparr>
         in if ks_last st = None \<and> ks_reads st = [] \<and> kt_keys kt (fst ka) = Some a
            then kt'\<lparr>kt_keys := (kt_keys kt)(fst ka := None)\<rparr> else kt')"

definition forget_batch :: "nat \<Rightarrow> accesses \<Rightarrow> key_table \<Rightarrow> key_table" where
  "forget_batch n al kt = fold (release_key n) al kt"

section \<open>The executor\<close>

datatype outcome = Resolved jsval | Rejected thrown

datatype item_result = MissingItem | ErrorItem thrown | RejectedItem jsval | ValueItem jsval

text \<open>What the pipeline of a batch answers: it throws, or it returns a list of item results, or it
  returns something else.\<close>

datatype pipeline_result = PipelineThrew thrown | PipelineResults "item_result list" | PipelineOther

definition plain_error :: "jsstr \<Rightarrow> thrown" where
  "plain_error msg = Foreign (ascii ''Error'') msg []"

fun item_outcome :: "nat \<Rightarrow> item_result \<Rightarrow> outcome" where
  "item_outcome i MissingItem =
    Rejected (plain_error (ascii ''FerricStore auto-batch response item '' @ nat_text i @ ascii '' is missing''))"
| "item_outcome i (ErrorItem e) = Rejected (mapException e)"
| "item_outcome i (RejectedItem v) = Rejected (Value v)"
| "item_outcome i (ValueItem v) = Resolved v"

definition sendBatch_outcomes :: "nat \<Rightarrow> pipeline_result \<Rightarrow> outcome list" where
  "sendBatch_outcomes n result =
    (case result of
       PipelineThrew e \<Rightarrow> replicate n (Rejected e)
     | PipelineOther \<Rightarrow> replicate n (Rejected (plain_error (ascii ''FerricStore auto-batch response length mismatch'')))
     | PipelineResults results \<Rightarrow>
         if length results \<noteq> n then
           replicate n (Rejected (plain_error (ascii ''FerricStore auto-batch response length mismatch'')))
         else map2 item_outcome [0..<n] results)"

datatype batch_phase = Waiting | Running | Over

record auto_batch_item =
  item_id :: nat
  item_command :: "jsval list"

record batch =
  b_items :: "nat list"
  b_accesses :: "accesses option"
  b_deps :: "nat list"
  b_phase :: batch_phase

record auto_batch =
  ab_max :: nat
  ab_closed :: bool
  ab_scheduled :: bool
  ab_pending :: "auto_batch_item list"
  ab_next_item :: nat
  ab_batches :: "batch list"
  ab_in_flight :: "nat list"
  ab_tail :: "nat option"
  ab_table :: key_table
  ab_outcomes :: "(nat \<times> outcome) list"

definition new_auto_batch :: "nat \<Rightarrow> auto_batch" where
  "new_auto_batch max_commands = \<lparr>ab_max = max_commands, ab_closed = False, ab_scheduled = False,
    ab_pending = [], ab_next_item = 0, ab_batches = [], ab_in_flight = [], ab_tail = None,
    ab_table = empty_key_table, ab_outcomes = []\<rparr>"

text \<open>Submitting a batch: its dependencies, and its entry in the tables. \<open>None\<close> is a batch whose accesses
  are not known.\<close>

definition submit_batch :: "nat list \<Rightarrow> accesses option \<Rightarrow> auto_batch \<Rightarrow> auto_batch" where
  "submit_batch items acc ab =
    (let n = length (ab_batches ab);
         kt = (case acc of None \<Rightarrow> ab_table ab | Some al \<Rightarrow> fold (capture_key n) al (ab_table ab));
         deps = (case acc of None \<Rightarrow> ab_in_flight ab
           | Some al \<Rightarrow> (case ab_tail ab of None \<Rightarrow> [] | Some t \<Rightarrow> [t]) @ key_dependencies n al kt)
     in ab\<lparr>ab_batches := ab_batches ab @ [\<lparr>b_items = items, b_accesses = acc, b_deps = remdups deps, b_phase = Waiting\<rparr>],
          ab_tail := (if acc = None then Some n else ab_tail ab),
          ab_table := (case acc of None \<Rightarrow> kt | Some al \<Rightarrow> fold (record_key n) al kt),
          ab_in_flight := set_add n (ab_in_flight ab)\<rparr>)"

definition flushNow :: "auto_batch \<Rightarrow> auto_batch" where
  "flushNow ab =
    (let ab0 = ab\<lparr>ab_scheduled := False\<rparr> in
     if ab_pending ab = [] then ab0
     else let items = take (ab_max ab) (ab_pending ab); rest = drop (ab_max ab) (ab_pending ab)
       in submit_batch (map item_id items) (map_option fst (autoBatchOrderingPlan (map item_command items)))
            (ab0\<lparr>ab_pending := rest, ab_scheduled := (rest \<noteq> [])\<rparr>))"

definition enqueue_command :: "jsval list \<Rightarrow> auto_batch \<Rightarrow> (thrown + nat) \<times> auto_batch" where
  "enqueue_command command ab =
    (if ab_closed ab then
       (Inl (Sdk (request_not_sent_error (ascii ''FerricStore client is closed'') JUndef JUndef)), ab)
     else let ab1 = ab\<lparr>ab_pending := ab_pending ab @ [\<lparr>item_id = ab_next_item ab, item_command = command\<rparr>],
                ab_next_item := Suc (ab_next_item ab)\<rparr>
       in (Inr (ab_next_item ab),
           if length (ab_pending ab1) \<ge> ab_max ab then flushNow ab1 else ab1\<lparr>ab_scheduled := True\<rparr>))"

text \<open>A batch is sent when all it waits for is over.\<close>

definition phase :: "auto_batch \<Rightarrow> nat \<Rightarrow> batch_phase" where
  "phase ab i = b_phase (ab_batches ab ! i)"

definition can_start :: "auto_batch \<Rightarrow> nat \<Rightarrow> bool" where
  "can_start ab i \<longleftrightarrow> i < length (ab_batches ab) \<and> phase ab i = Waiting \<and>
    list_all (\<lambda>d. phase ab d = Over) (b_deps (ab_batches ab ! i))"

definition set_phase :: "nat \<Rightarrow> batch_phase \<Rightarrow> auto_batch \<Rightarrow> auto_batch" where
  "set_phase i p ab = ab\<lparr>ab_batches := (ab_batches ab)[i := (ab_batches ab ! i)\<lparr>b_phase := p\<rparr>]\<rparr>"

definition start_batch :: "nat \<Rightarrow> auto_batch \<Rightarrow> auto_batch" where
  "start_batch i ab = set_phase i Running ab"

definition settle_batch :: "nat \<Rightarrow> pipeline_result \<Rightarrow> auto_batch \<Rightarrow> auto_batch" where
  "settle_batch i result ab =
    (let b = ab_batches ab ! i; ab1 = set_phase i Over ab
     in ab1\<lparr>ab_outcomes := ab_outcomes ab @ zip (b_items b) (sendBatch_outcomes (length (b_items b)) result),
          ab_in_flight := removeAll i (ab_in_flight ab),
          ab_tail := (if b_accesses b = None \<and> ab_tail ab = Some i then None else ab_tail ab),
          ab_table := (case b_accesses b of None \<Rightarrow> ab_table ab | Some al \<Rightarrow> forget_batch i al (ab_table ab))\<rparr>)"

definition close_executor :: "auto_batch \<Rightarrow> auto_batch" where
  "close_executor ab =
    (if ab_closed ab then ab
     else ab\<lparr>ab_closed := True, ab_scheduled := False, ab_pending := [],
       ab_outcomes := ab_outcomes ab @ map (\<lambda>it. (item_id it, Rejected (Sdk (request_not_sent_error
         (ascii ''FerricStore client closed before auto-batch flush'') JUndef JUndef)))) (ab_pending ab)\<rparr>)"

inductive ab_step :: "auto_batch \<Rightarrow> auto_batch \<Rightarrow> bool" where
  enqueue: "ab_step ab (snd (enqueue_command command ab))"
| timer: "ab_scheduled ab \<Longrightarrow> ab_step ab (flushNow ab)"
| flush: "ab_step ab (flushNow ab)"
| start: "can_start ab i \<Longrightarrow> ab_step ab (start_batch i ab)"
| settle: "i < length (ab_batches ab) \<Longrightarrow> phase ab i = Running \<Longrightarrow> ab_step ab (settle_batch i result ab)"
| close: "ab_step ab (close_executor ab)"

inductive_cases ab_stepE: "ab_step ab ab'"

section \<open>The table of key states is an access table\<close>

definition refers :: "key_table \<Rightarrow> jsstr \<Rightarrow> nat \<Rightarrow> bool" where
  "refers kt k a \<longleftrightarrow> kt_keys kt k = Some a \<or> (\<exists>i. kt_captured kt i k = Some a)"

definition recorded :: "key_state \<Rightarrow> nat \<Rightarrow> bool" where
  "recorded st i \<longleftrightarrow> ks_last st = Some i \<or> i \<in> set (ks_reads st)"

definition kt_wf :: "key_table \<Rightarrow> bool" where
  "kt_wf kt \<longleftrightarrow> (\<forall>k a. refers kt k a \<longrightarrow> a < length (kt_heap kt)) \<and>
    (\<forall>k k' a. refers kt k a \<and> refers kt k' a \<longrightarrow> k = k') \<and>
    (\<forall>k a i. kt_keys kt k = Some a \<and> recorded (kt_heap kt ! a) i \<longrightarrow> kt_captured kt i k = Some a)"

definition kt_state :: "key_table \<Rightarrow> jsstr \<Rightarrow> key_state" where
  "kt_state kt k = (case kt_keys kt k of None \<Rightarrow> new_key_state | Some a \<Rightarrow> kt_heap kt ! a)"

definition kt_writer :: "key_table \<Rightarrow> jsstr \<Rightarrow> nat option" where
  "kt_writer kt k = ks_last (kt_state kt k)"

definition kt_readers :: "key_table \<Rightarrow> jsstr \<Rightarrow> nat set" where
  "kt_readers kt k = set (ks_reads (kt_state kt k))"

lemma kt_wfD:
  assumes "kt_wf kt"
  shows "refers kt k a \<Longrightarrow> a < length (kt_heap kt)"
    and "refers kt k a \<Longrightarrow> refers kt k' a \<Longrightarrow> k = k'"
    and "kt_keys kt k = Some a \<Longrightarrow> recorded (kt_heap kt ! a) i \<Longrightarrow> kt_captured kt i k = Some a"
  using assms unfolding kt_wf_def by blast+

lemma new_key_state [simp]: "\<not> recorded new_key_state i" "ks_last new_key_state = None" "ks_reads new_key_state = []"
  by (simp_all add: new_key_state_def recorded_def)

text \<open>The key in the table of captured maps after \<open>capture_key\<close>.\<close>

lemma capture_key_spec:
  assumes wf: "kt_wf kt"
  shows "kt_wf (capture_key n (k, a) kt) \<and> (\<forall>k'. kt_state (capture_key n (k, a) kt) k' = kt_state kt k') \<and>
    (\<forall>k' b. kt_keys kt k' = Some b \<longrightarrow> kt_keys (capture_key n (k, a) kt) k' = Some b) \<and>
    kt_keys (capture_key n (k, a) kt) k \<noteq> None \<and>
    kt_captured (capture_key n (k, a) kt) n k = kt_keys (capture_key n (k, a) kt) k \<and>
    (\<forall>k'. k' \<noteq> k \<longrightarrow> kt_captured (capture_key n (k, a) kt) n k' = kt_captured kt n k')"
proof (cases "kt_keys kt k")
  case (Some b)
  let ?kt = "capture_key n (k, a) kt"
  have kt: "kt_heap ?kt = kt_heap kt" "kt_keys ?kt = kt_keys kt"
    "kt_captured ?kt = (kt_captured kt)(n := (kt_captured kt n)(k \<mapsto> b))"
    using Some by (simp_all add: capture_key_def)
  have ref: "refers kt k' c" if "refers ?kt k' c" for k' c
    using that Some by (auto simp: refers_def kt split: if_splits)
  have "kt_captured ?kt i k' = Some c" if "kt_keys kt k' = Some c" "recorded (kt_heap kt ! c) i" for k' c i
    using kt_wfD(3) [OF wf that] that(1) Some by (auto simp: kt)
  moreover have "c < length (kt_heap kt)" if "refers ?kt k' c" for k' c
    using kt_wfD(1) [OF wf ref [OF that]] .
  moreover have "k1 = k2" if "refers ?kt k1 c" "refers ?kt k2 c" for k1 k2 c
    using kt_wfD(2) [OF wf ref [OF that(1)] ref [OF that(2)]] .
  ultimately have "kt_wf ?kt" unfolding kt_wf_def kt(1,2) by blast
  then show ?thesis using Some by (simp add: kt kt_state_def split: option.split)
next
  case None
  let ?kt = "capture_key n (k, a) kt" and ?b = "length (kt_heap kt)"
  have kt: "kt_heap ?kt = kt_heap kt @ [new_key_state]" "kt_keys ?kt = (kt_keys kt)(k \<mapsto> ?b)"
    "kt_captured ?kt = (kt_captured kt)(n := (kt_captured kt n)(k \<mapsto> ?b))"
    using None by (simp_all add: capture_key_def)
  have ref: "refers kt k' c \<or> k' = k \<and> c = ?b" if "refers ?kt k' c" for k' c
    using that by (auto simp: refers_def kt split: if_splits)
  have old: "c < ?b" if "refers kt k' c" for k' c using kt_wfD(1) [OF wf that] .
  have keys_old: "c < ?b" if "kt_keys kt k' = Some c" for k' c using old that by (auto simp: refers_def)
  have "kt_captured ?kt i k' = Some c" if "kt_keys ?kt k' = Some c" "recorded (kt_heap ?kt ! c) i" for k' c i
  proof (cases "k' = k")
    case True
    with that show ?thesis by (auto simp: kt nth_append)
  next
    case False
    with that have "kt_keys kt k' = Some c" "recorded (kt_heap kt ! c) i"
      using keys_old by (auto simp: kt nth_append split: if_splits)
    from kt_wfD(3) [OF wf this] False show ?thesis by (auto simp: kt)
  qed
  moreover have "c < length (kt_heap ?kt)" if "refers ?kt k' c" for k' c
    using ref [OF that] old by (auto simp: kt less_Suc_eq)
  moreover have "k1 = k2" if "refers ?kt k1 c" "refers ?kt k2 c" for k1 k2 c
    using ref [OF that(1)] ref [OF that(2)] old kt_wfD(2) [OF wf] by blast
  ultimately have "kt_wf ?kt" unfolding kt_wf_def by blast
  moreover have "kt_state ?kt k' = kt_state kt k'" for k'
    using None keys_old by (auto simp: kt_state_def kt nth_append split: option.split)
  ultimately show ?thesis using None by (auto simp: kt)
qed

lemma record_key_spec:
  assumes wf: "kt_wf kt" and cap: "kt_captured kt n k = kt_keys kt k" "kt_keys kt k = Some b"
  shows "kt_wf (record_key n (k, a) kt)"
    and "kt_writer (record_key n (k, a) kt) k' = (if k' = k \<and> a = Write then Some n else kt_writer kt k')"
    and "kt_readers (record_key n (k, a) kt) k' =
      (if k' = k then (if a = Write then {} else insert n (kt_readers kt k)) else kt_readers kt k')"
    and "kt_keys (record_key n (k, a) kt) = kt_keys kt" "kt_captured (record_key n (k, a) kt) = kt_captured kt"
proof -
  let ?kt = "record_key n (k, a) kt"
  define st where "st = (if a = Read then (kt_heap kt ! b)\<lparr>ks_reads := set_add n (ks_reads (kt_heap kt ! b))\<rparr>
    else (kt_heap kt ! b)\<lparr>ks_reads := [], ks_last := Some n\<rparr>)"
  have kt: "kt_heap ?kt = (kt_heap kt)[b := st]"
    using cap by (simp add: record_key_def st_def)
  show keys: "kt_keys ?kt = kt_keys kt" and capt: "kt_captured ?kt = kt_captured kt"
    using cap by (simp_all add: record_key_def)
  have refs: "refers ?kt = refers kt" by (simp add: refers_def fun_eq_iff keys capt)
  have b: "b < length (kt_heap kt)" using kt_wfD(1) [OF wf] cap by (auto simp: refers_def)
  have other: "c \<noteq> b" if "kt_keys kt k' = Some c" "k' \<noteq> k" for k' c
    using kt_wfD(2) [OF wf] cap that unfolding refers_def by blast
  have rec: "recorded st i \<Longrightarrow> i = n \<or> recorded (kt_heap kt ! b) i" for i
    by (auto simp: st_def recorded_def split: if_splits)
  have "kt_captured kt i k' = Some c" if "kt_keys kt k' = Some c" "recorded ((kt_heap kt)[b := st] ! c) i" for k' c i
    using that rec [of i] b kt_wfD(3) [OF wf] cap other [OF that(1)]
    by (cases "k' = k") (auto simp: nth_list_update split: if_splits)
  then show "kt_wf ?kt"
    using kt_wfD(1,2) [OF wf] unfolding kt_wf_def refs keys capt kt length_list_update by blast
  have state: "kt_state ?kt k' = (if k' = k then st else kt_state kt k')"
  proof (cases "kt_keys kt k'")
    case None
    with cap show ?thesis by (auto simp: kt_state_def keys)
  next
    case (Some c)
    with other [OF Some] b cap show ?thesis by (cases "k' = k") (simp_all add: kt_state_def keys kt)
  qed
  have st: "ks_last st = (if a = Write then Some n else ks_last (kt_heap kt ! b))"
    "set (ks_reads st) = (if a = Write then {} else insert n (set (ks_reads (kt_heap kt ! b))))"
    unfolding st_def by (cases a; simp)+
  have "kt_state kt k = kt_heap kt ! b" using cap by (simp add: kt_state_def)
  then show "kt_writer ?kt k' = (if k' = k \<and> a = Write then Some n else kt_writer kt k')"
    and "kt_readers ?kt k' = (if k' = k then (if a = Write then {} else insert n (kt_readers kt k)) else kt_readers kt k')"
    by (simp_all add: kt_writer_def kt_readers_def state st)
qed

text \<open>Releasing a captured state that is not the current one of its key changes nothing one can see, for
  the batch is not recorded in the current one.\<close>

lemma release_key_spec:
  assumes wf: "kt_wf kt"
  shows "kt_wf (release_key n (k, a) kt) \<and>
    kt_writer (release_key n (k, a) kt) k' =
      (if k' = k \<and> a = Write \<and> kt_writer kt k = Some n then None else kt_writer kt k') \<and>
    kt_readers (release_key n (k, a) kt) k' =
      (if k' = k \<and> a = Read then kt_readers kt k - {n} else kt_readers kt k')"
proof (cases "kt_captured kt n k")
  case None
  have "\<not> recorded (kt_state kt k) n"
    using kt_wfD(3) [OF wf, of k _ n] None by (auto simp: kt_state_def split: option.split)
  then have "kt_writer kt k \<noteq> Some n" "n \<notin> kt_readers kt k"
    by (simp_all add: recorded_def kt_writer_def kt_readers_def)
  with None wf show ?thesis by (auto simp: release_key_def)
next
  case (Some b)
  let ?kt = "release_key n (k, a) kt" and ?st = "release_state n a (kt_heap kt ! b)"
  have heap: "kt_heap ?kt = (kt_heap kt)[b := ?st]" and capt: "kt_captured ?kt = kt_captured kt"
    using Some by (simp_all add: release_key_def Let_def)
  have keys: "kt_keys ?kt = kt_keys kt \<or>
      kt_keys ?kt = (kt_keys kt)(k := None) \<and> kt_keys kt k = Some b \<and> ks_last ?st = None \<and> ks_reads ?st = []"
    using Some by (auto simp: release_key_def Let_def)
  have sub: "kt_keys ?kt k1 = Some c \<Longrightarrow> kt_keys kt k1 = Some c" for k1 c
    using keys by (auto split: if_splits)
  have ref: "refers ?kt k1 c \<Longrightarrow> refers kt k1 c" for k1 c
    using sub by (auto simp: refers_def capt)
  have b: "b < length (kt_heap kt)" using kt_wfD(1) [OF wf] Some by (auto simp: refers_def)
  have owner: "k1 = k" if "kt_keys kt k1 = Some b" for k1
    using kt_wfD(2) [OF wf] Some that unfolding refers_def by blast
  have rec: "recorded ?st i \<Longrightarrow> recorded (kt_heap kt ! b) i" for i
    by (auto simp: release_state_def recorded_def split: if_splits)
  have "kt_captured kt i k1 = Some c" if "kt_keys ?kt k1 = Some c" "recorded ((kt_heap kt)[b := ?st] ! c) i" for k1 c i
    using kt_wfD(3) [OF wf sub [OF that(1)]] that(2) rec b by (auto simp: nth_list_update split: if_splits)
  then have wf': "kt_wf ?kt"
    using kt_wfD(1,2) [OF wf] ref unfolding kt_wf_def heap capt length_list_update by blast
  have state: "kt_state ?kt k1 = (if kt_keys kt k1 = Some b then ?st else kt_state kt k1)" for k1
  proof (cases "kt_keys ?kt k1")
    case None
    then have "kt_keys kt k1 = None \<or> kt_keys kt k1 = Some b \<and> ?st = new_key_state"
      using keys by (auto simp: new_key_state_def split: if_splits)
    with None show ?thesis by (auto simp: kt_state_def)
  next
    case (Some c)
    with sub [OF Some] b show ?thesis by (simp add: kt_state_def heap nth_list_update)
  qed
  have stale: "kt_writer kt k \<noteq> Some n \<and> n \<notin> kt_readers kt k" if "kt_keys kt k \<noteq> Some b"
  proof -
    have "\<not> recorded (kt_state kt k) n"
      using kt_wfD(3) [OF wf, of k _ n] that Some by (auto simp: kt_state_def split: option.split)
    then show ?thesis by (simp add: recorded_def kt_writer_def kt_readers_def)
  qed
  have cur: "kt_state kt k = kt_heap kt ! b" if "kt_keys kt k = Some b" using that by (simp add: kt_state_def)
  show ?thesis
  proof (cases "kt_keys kt k = Some b")
    case True
    have st: "ks_last ?st = (if a = Write \<and> ks_last (kt_heap kt ! b) = Some n then None else ks_last (kt_heap kt ! b))"
      "set (ks_reads ?st) = (if a = Read then set (ks_reads (kt_heap kt ! b)) - {n} else set (ks_reads (kt_heap kt ! b)))"
      unfolding release_state_def by (cases a; simp)+
    show ?thesis
    proof (cases "k' = k")
      case eq: True
      then show ?thesis using wf' True st by (simp add: kt_writer_def kt_readers_def state cur)
    next
      case False
      then have "kt_keys kt k' \<noteq> Some b" using owner by blast
      with False show ?thesis using wf' by (simp add: kt_writer_def kt_readers_def state)
    qed
  next
    case False
    then have "kt_state ?kt k1 = kt_state kt k1" for k1 using state owner by auto
    with stale [OF False] wf' show ?thesis by (auto simp: kt_writer_def kt_readers_def)
  qed
qed

lemma fold_capture:
  assumes "kt_wf kt"
  shows "kt_wf (fold (capture_key n) al kt) \<and>
    (\<forall>k. kt_state (fold (capture_key n) al kt) k = kt_state kt k) \<and>
    (\<forall>k b. kt_keys kt k = Some b \<longrightarrow> kt_keys (fold (capture_key n) al kt) k = Some b) \<and>
    (\<forall>k. kt_keys kt k \<noteq> None \<and> kt_captured kt n k = kt_keys kt k \<or> k \<in> fst ` set al \<longrightarrow>
      kt_keys (fold (capture_key n) al kt) k \<noteq> None \<and>
      kt_captured (fold (capture_key n) al kt) n k = kt_keys (fold (capture_key n) al kt) k)"
  using assms
proof (induction al arbitrary: kt)
  case (Cons ka al)
  obtain k a where ka: "ka = (k, a)" by fastforce
  note one = capture_key_spec [OF Cons.prems, of n k a]
  let ?kt = "capture_key n (k, a) kt"
  have IH: "kt_wf (fold (capture_key n) al ?kt)"
    "\<And>k. kt_state (fold (capture_key n) al ?kt) k = kt_state ?kt k"
    "\<And>k b. kt_keys ?kt k = Some b \<Longrightarrow> kt_keys (fold (capture_key n) al ?kt) k = Some b"
    "\<And>k. kt_keys ?kt k \<noteq> None \<and> kt_captured ?kt n k = kt_keys ?kt k \<or> k \<in> fst ` set al \<Longrightarrow>
      kt_keys (fold (capture_key n) al ?kt) k \<noteq> None \<and>
      kt_captured (fold (capture_key n) al ?kt) n k = kt_keys (fold (capture_key n) al ?kt) k"
    using Cons.IH [of ?kt] one by blast+
  have keep: "kt_keys ?kt k' \<noteq> None \<and> kt_captured ?kt n k' = kt_keys ?kt k'"
    if "kt_keys kt k' \<noteq> None" "kt_captured kt n k' = kt_keys kt k'" for k'
    using one that by (cases "k' = k") auto
  have seen: "kt_keys ?kt k' \<noteq> None \<and> kt_captured ?kt n k' = kt_keys ?kt k' \<or> k' \<in> fst ` set al"
    if "kt_keys kt k' \<noteq> None \<and> kt_captured kt n k' = kt_keys kt k' \<or> k' \<in> fst ` set (ka # al)" for k'
    using that keep one by (auto simp: ka)
  show ?case
    unfolding ka fold.simps comp_def
  proof (intro conjI allI impI)
    show "kt_wf (fold (capture_key n) al ?kt)" by (rule IH(1))
    show "kt_state (fold (capture_key n) al ?kt) k' = kt_state kt k'" for k' using IH(2) one by simp
    show "kt_keys (fold (capture_key n) al ?kt) k' = Some b" if "kt_keys kt k' = Some b" for k' b
      using IH(3) one that by blast
  qed (use IH(4) seen in \<open>auto simp: ka\<close>)
qed auto

lemma fold_record:
  "kt_wf kt \<Longrightarrow> distinct (map fst al) \<Longrightarrow>
    (\<And>k. k \<in> fst ` set al \<Longrightarrow> kt_keys kt k \<noteq> None \<and> kt_captured kt n k = kt_keys kt k) \<Longrightarrow>
    kt_wf (fold (record_key n) al kt) \<and>
    (\<forall>k. kt_writer (fold (record_key n) al kt) k = (if map_of al k = Some Write then Some n else kt_writer kt k)) \<and>
    (\<forall>k. kt_readers (fold (record_key n) al kt) k =
      (if map_of al k = Some Write then {} else if map_of al k = Some Read then insert n (kt_readers kt k)
       else kt_readers kt k))"
proof (induction al arbitrary: kt)
  case (Cons ka al)
  obtain k a where ka: "ka = (k, a)" by fastforce
  from Cons.prems(3) [of k] obtain b where cap: "kt_captured kt n k = kt_keys kt k" "kt_keys kt k = Some b"
    by (auto simp: ka)
  let ?kt = "record_key n (k, a) kt"
  note one = record_key_spec [OF Cons.prems(1) cap, of a]
  have fresh: "map_of al k = None" using Cons.prems(2) by (simp add: ka map_of_eq_None_iff)
  have "kt_keys ?kt k' \<noteq> None \<and> kt_captured ?kt n k' = kt_keys ?kt k'" if "k' \<in> fst ` set al" for k'
    using Cons.prems(3) [of k'] that one(4,5) by simp
  with Cons.IH [OF one(1)] Cons.prems(2)
  have IH: "kt_wf (fold (record_key n) al ?kt)"
    "\<And>k. kt_writer (fold (record_key n) al ?kt) k = (if map_of al k = Some Write then Some n else kt_writer ?kt k)"
    "\<And>k. kt_readers (fold (record_key n) al ?kt) k =
      (if map_of al k = Some Write then {} else if map_of al k = Some Read then insert n (kt_readers ?kt k)
       else kt_readers ?kt k)"
    by (simp_all add: ka)
  show ?case
    unfolding ka fold.simps comp_def using IH fresh one(2,3)
    by (cases a) simp_all
qed simp

lemma fold_release:
  "kt_wf kt \<Longrightarrow> distinct (map fst al) \<Longrightarrow>
    kt_wf (forget_batch n al kt) \<and>
    (\<forall>k. kt_writer (forget_batch n al kt) k =
      (if map_of al k = Some Write \<and> kt_writer kt k = Some n then None else kt_writer kt k)) \<and>
    (\<forall>k. kt_readers (forget_batch n al kt) k =
      (if map_of al k = Some Read then kt_readers kt k - {n} else kt_readers kt k))"
  unfolding forget_batch_def
proof (induction al arbitrary: kt)
  case (Cons ka al)
  obtain k a where ka: "ka = (k, a)" by fastforce
  note one = release_key_spec [OF Cons.prems(1), of n k a]
  have fresh: "map_of al k = None" using Cons.prems(2) by (simp add: ka map_of_eq_None_iff)
  let ?kt = "release_key n (k, a) kt"
  have IH: "kt_wf (fold (release_key n) al ?kt)"
    "\<And>k. kt_writer (fold (release_key n) al ?kt) k =
      (if map_of al k = Some Write \<and> kt_writer ?kt k = Some n then None else kt_writer ?kt k)"
    "\<And>k. kt_readers (fold (release_key n) al ?kt) k =
      (if map_of al k = Some Read then kt_readers ?kt k - {n} else kt_readers ?kt k)"
    using Cons.IH [of ?kt] one Cons.prems(2) by (simp_all add: ka)
  have w: "kt_writer ?kt k' = (if k' = k \<and> a = Write \<and> kt_writer kt k = Some n then None else kt_writer kt k')"
    and r: "kt_readers ?kt k' = (if k' = k \<and> a = Read then kt_readers kt k - {n} else kt_readers kt k')" for k'
    using release_key_spec [OF Cons.prems(1), of n k a k'] by blast+
  show ?case
    unfolding ka fold.simps comp_def using IH fresh w r
    by (cases a) simp_all
qed simp

lemma empty_key_table_wf: "kt_wf empty_key_table"
  by (simp add: kt_wf_def refers_def empty_key_table_def)

lemma note_batch_spec:
  assumes "kt_wf kt" "distinct (map fst al)"
  shows "kt_wf (note_batch n al kt)"
    and "kt_writer (note_batch n al kt) k = (if map_of al k = Some Write then Some n else kt_writer kt k)"
    and "kt_readers (note_batch n al kt) k =
      (if map_of al k = Some Write then {} else if map_of al k = Some Read then insert n (kt_readers kt k)
       else kt_readers kt k)"
proof -
  let ?kt = "fold (capture_key n) al kt"
  note cap = fold_capture [OF assms(1), of n al]
  have "kt_keys ?kt k \<noteq> None \<and> kt_captured ?kt n k = kt_keys ?kt k" if "k \<in> fst ` set al" for k
    using cap that by blast
  note rec = fold_record [OF _ assms(2) this]
  have same: "kt_writer ?kt k = kt_writer kt k" "kt_readers ?kt k = kt_readers kt k" for k
    using cap by (simp_all add: kt_writer_def kt_readers_def)
  show "kt_wf (note_batch n al kt)"
    and "kt_writer (note_batch n al kt) k = (if map_of al k = Some Write then Some n else kt_writer kt k)"
    and "kt_readers (note_batch n al kt) k =
      (if map_of al k = Some Write then {} else if map_of al k = Some Read then insert n (kt_readers kt k)
       else kt_readers kt k)"
    unfolding note_batch_def using cap rec same by simp_all
qed

text \<open>The table holds no idle entry: a key stays in \<open>batchKeyStates\<close> only as long as its state has a
  last writer or a reader.\<close>

definition kt_tight :: "key_table \<Rightarrow> bool" where
  "kt_tight kt \<longleftrightarrow> (\<forall>k. kt_keys kt k \<noteq> None \<longrightarrow> kt_writer kt k \<noteq> None \<or> kt_readers kt k \<noteq> {})"

definition kt_ok :: "key_table \<Rightarrow> bool" where
  "kt_ok kt \<longleftrightarrow> kt_wf kt \<and> kt_tight kt"

lemma capture_key_keys: "kt_keys (capture_key n ka kt) k \<noteq> None \<Longrightarrow> kt_keys kt k \<noteq> None \<or> k = fst ka"
  by (auto simp: capture_key_def split: option.splits if_splits)

lemma fold_capture_keys:
  "kt_keys (fold (capture_key n) al kt) k \<noteq> None \<Longrightarrow> kt_keys kt k \<noteq> None \<or> k \<in> fst ` set al"
proof (induction al arbitrary: kt)
  case (Cons ka al)
  then show ?case using capture_key_keys [of n ka kt k] by auto
qed simp

lemma fold_record_keys: "kt_keys (fold (record_key n) al kt) = kt_keys kt"
proof (induction al arbitrary: kt)
  case (Cons ka al)
  have "kt_keys (record_key n ka kt) = kt_keys kt" by (simp add: record_key_def split: option.split)
  with Cons show ?case by simp
qed simp

lemma note_batch_tight:
  assumes "kt_wf kt" "kt_tight kt" "distinct (map fst al)"
  shows "kt_tight (note_batch n al kt)"
  unfolding kt_tight_def
proof (intro allI impI)
  fix k assume "kt_keys (note_batch n al kt) k \<noteq> None"
  then have "kt_keys kt k \<noteq> None \<or> k \<in> fst ` set al"
    using fold_capture_keys unfolding note_batch_def fold_record_keys by fast
  moreover have "map_of al k = Some Write \<or> map_of al k = Some Read" if "k \<in> fst ` set al"
    using that map_of_eq_None_iff [of al k] access.exhaust by (cases "map_of al k") auto
  ultimately show "kt_writer (note_batch n al kt) k \<noteq> None \<or> kt_readers (note_batch n al kt) k \<noteq> {}"
    using assms(2) unfolding note_batch_spec(2,3) [OF assms(1,3)] kt_tight_def by auto
qed

lemma release_key_tight:
  assumes wf: "kt_wf kt" and tight: "kt_tight kt"
  shows "kt_tight (release_key n (k, a) kt)"
proof (cases "kt_captured kt n k")
  case None
  with tight show ?thesis by (simp add: release_key_def)
next
  case (Some b)
  let ?kt = "release_key n (k, a) kt" and ?st = "release_state n a (kt_heap kt ! b)"
  have b: "b < length (kt_heap kt)" using kt_wfD(1) [OF wf] Some by (auto simp: refers_def)
  have owner: "k1 = k" if "kt_keys kt k1 = Some b" for k1
    using kt_wfD(2) [OF wf] Some that unfolding refers_def by blast
  have keys: "kt_keys ?kt k1 = (if k1 = k \<and> kt_keys kt k = Some b \<and> ks_last ?st = None \<and> ks_reads ?st = []
      then None else kt_keys kt k1)" for k1
    using Some by (auto simp: release_key_def Let_def)
  have heap: "kt_heap ?kt = (kt_heap kt)[b := ?st]" using Some by (simp add: release_key_def Let_def)
  show ?thesis
    unfolding kt_tight_def
  proof (intro allI impI)
    fix k1 assume there: "kt_keys ?kt k1 \<noteq> None"
    then obtain c where c: "kt_keys kt k1 = Some c" "kt_keys ?kt k1 = Some c"
      by (auto simp: keys split: if_splits)
    show "kt_writer ?kt k1 \<noteq> None \<or> kt_readers ?kt k1 \<noteq> {}"
    proof (cases "c = b")
      case True
      with there c owner have "\<not> (ks_last ?st = None \<and> ks_reads ?st = [])" by (auto simp: keys split: if_splits)
      with c True b show ?thesis by (simp add: kt_writer_def kt_readers_def kt_state_def heap)
    next
      case False
      with c tight show ?thesis
        by (auto simp: kt_tight_def kt_writer_def kt_readers_def kt_state_def heap)
    qed
  qed
qed

lemma forget_batch_tight:
  "kt_wf kt \<Longrightarrow> kt_tight kt \<Longrightarrow> kt_tight (forget_batch n al kt)"
  unfolding forget_batch_def
proof (induction al arbitrary: kt)
  case (Cons ka al)
  obtain k a where ka: "ka = (k, a)" by fastforce
  show ?case
    using Cons.IH [of "release_key n (k, a) kt"] release_key_spec [OF Cons.prems(1)]
      release_key_tight [OF Cons.prems] by (simp add: ka)
qed simp

interpretation keys: forgetful_table kt_ok kt_writer kt_readers empty_key_table note_batch forget_batch
proof unfold_locales
  show "kt_writer empty_key_table k = None" "kt_readers empty_key_table k = {}" for k
    by (simp_all add: kt_writer_def kt_readers_def kt_state_def empty_key_table_def)
  show "kt_ok empty_key_table"
    using empty_key_table_wf by (simp add: kt_ok_def kt_tight_def empty_key_table_def)
qed (use note_batch_spec fold_release note_batch_tight forget_batch_tight in \<open>simp_all add: kt_ok_def\<close>)

section \<open>Invariant of the executor\<close>

text \<open>
  The resources of a batch: those of its accesses, and one more, \<open>None\<close>, that a batch of unknown
  accesses writes and every other batch reads.
\<close>

fun batch_access :: "batch \<Rightarrow> jsstr option \<Rightarrow> access option" where
  "batch_access b None = Some (if b_accesses b = None then Write else Read)"
| "batch_access b (Some k) = (case b_accesses b of None \<Rightarrow> None | Some al \<Rightarrow> map_of al k)"

definition ab_history :: "auto_batch \<Rightarrow> jsstr option history" where
  "ab_history ab i r = (if i < length (ab_batches ab) then batch_access (ab_batches ab ! i) r else None)"

definition key_history :: "auto_batch \<Rightarrow> jsstr history" where
  "key_history ab i k = ab_history ab i (Some k)"

definition deps_of :: "auto_batch \<Rightarrow> nat \<Rightarrow> nat set" where
  "deps_of ab i = set (b_deps (ab_batches ab ! i))"

definition accesses_ok :: "batch list \<Rightarrow> bool" where
  "accesses_ok bs \<longleftrightarrow> (\<forall>b \<in> set bs. \<forall>al. b_accesses b = Some al \<longrightarrow> distinct (map fst al))"

definition ab_tables_ok :: "auto_batch \<Rightarrow> bool" where
  "ab_tables_ok ab \<longleftrightarrow>
    set (ab_in_flight ab) = {i. i < length (ab_batches ab) \<and> phase ab i \<noteq> Over} \<and>
    kt_ok (ab_table ab) \<and>
    tracks (key_history ab) (length (ab_batches ab)) (set (ab_in_flight ab))
      (kt_writer (ab_table ab)) (kt_readers (ab_table ab)) \<and>
    (\<forall>j. ab_tail ab = Some j \<longleftrightarrow>
      last_writer (ab_history ab) (length (ab_batches ab)) None j \<and> j \<in> set (ab_in_flight ab)) \<and>
    accesses_ok (ab_batches ab)"

definition ab_deps_ok :: "auto_batch \<Rightarrow> bool" where
  "ab_deps_ok ab \<longleftrightarrow> (\<forall>j < length (ab_batches ab).
    (\<forall>i. depends (ab_history ab) j i \<longrightarrow> i \<in> deps_of ab j \<or> phase ab i = Over) \<and>
    (\<forall>d \<in> deps_of ab j. d < j) \<and>
    (phase ab j \<noteq> Waiting \<longrightarrow> (\<forall>d \<in> deps_of ab j. phase ab d = Over)))"

definition unanswered :: "batch list \<Rightarrow> nat list" where
  "unanswered bs = concat (map b_items (filter (\<lambda>b. b_phase b \<noteq> Over) bs))"

definition ab_items_ok :: "auto_batch \<Rightarrow> bool" where
  "ab_items_ok ab \<longleftrightarrow> mset (map fst (ab_outcomes ab)) + mset (unanswered (ab_batches ab)) +
    mset (map item_id (ab_pending ab)) = mset [0..<ab_next_item ab]"

definition ab_inv :: "auto_batch \<Rightarrow> bool" where
  "ab_inv ab \<longleftrightarrow> ab_tables_ok ab \<and> ab_deps_ok ab \<and> ab_items_ok ab"

lemma new_auto_batch_inv: "ab_inv (new_auto_batch m)"
proof -
  have "tracks (key_history (new_auto_batch m)) 0 {} (kt_writer empty_key_table) (kt_readers empty_key_table)"
    by (rule keys.tracks_start)
  then show ?thesis
    by (simp add: ab_inv_def ab_tables_ok_def ab_deps_ok_def ab_items_ok_def new_auto_batch_def
        keys.start_wf last_writer_def unanswered_def accesses_ok_def)
qed

subsection \<open>Submitting\<close>

lemma history_old: "i < length (ab_batches ab) \<Longrightarrow> ab_history (submit_batch items acc ab) i = ab_history ab i"
  by (simp add: ab_history_def submit_batch_def Let_def nth_append fun_eq_iff)

lemma history_new:
  "ab_history (submit_batch items acc ab) (length (ab_batches ab)) r =
    (case r of None \<Rightarrow> Some (if acc = None then Write else Read)
     | Some k \<Rightarrow> (case acc of None \<Rightarrow> None | Some al \<Rightarrow> map_of al k))"
  by (simp add: ab_history_def submit_batch_def Let_def nth_append split: option.split)

lemma phase_submit:
  "i < length (ab_batches ab) \<Longrightarrow> phase (submit_batch items acc ab) i = phase ab i"
  "phase (submit_batch items acc ab) (length (ab_batches ab)) = Waiting"
  "length (ab_batches (submit_batch items acc ab)) = Suc (length (ab_batches ab))"
  "i < length (ab_batches ab) \<Longrightarrow> deps_of (submit_batch items acc ab) i = deps_of ab i"
  by (simp_all add: phase_def deps_of_def submit_batch_def Let_def nth_append)

lemma key_dependencies_set:
  assumes "kt_wf kt"
  shows "set (key_dependencies n al (fold (capture_key n) al kt)) = table_deps (kt_writer kt) (kt_readers kt) al"
proof -
  let ?kt = "fold (capture_key n) al kt"
  note cap = fold_capture [OF assms, of n al]
  have "captured_state n k ?kt = Some (kt_state kt k)" if "(k, a) \<in> set al" for k a
  proof -
    have "k \<in> fst ` set al" using that by force
    then have "kt_keys ?kt k \<noteq> None" "kt_captured ?kt n k = kt_keys ?kt k" using cap by blast+
    then have "captured_state n k ?kt = Some (kt_state ?kt k)"
      by (auto simp: captured_state_def kt_state_def)
    with cap show ?thesis by simp
  qed
  then show ?thesis
    unfolding key_dependencies_def table_deps_def set_concat set_map image_image
    by (intro SUP_cong) (auto simp: kt_writer_def kt_readers_def split: option.splits if_splits)
qed

lemma submit_deps_of:
  "deps_of (submit_batch items acc ab) (length (ab_batches ab)) =
    (case acc of None \<Rightarrow> set (ab_in_flight ab)
     | Some al \<Rightarrow> set_option (ab_tail ab) \<union>
         set (key_dependencies (length (ab_batches ab)) al (fold (capture_key (length (ab_batches ab))) al (ab_table ab))))"
  by (auto simp: deps_of_def submit_batch_def Let_def nth_append split: option.splits)

lemma submit_fields:
  "ab_table (submit_batch items acc ab) = (case acc of None \<Rightarrow> ab_table ab | Some al \<Rightarrow>
    note_batch (length (ab_batches ab)) al (ab_table ab))"
  "ab_tail (submit_batch items acc ab) = (if acc = None then Some (length (ab_batches ab)) else ab_tail ab)"
  "set (ab_in_flight (submit_batch items acc ab)) = insert (length (ab_batches ab)) (set (ab_in_flight ab))"
  "ab_outcomes (submit_batch items acc ab) = ab_outcomes ab"
  "ab_pending (submit_batch items acc ab) = ab_pending ab"
  "ab_next_item (submit_batch items acc ab) = ab_next_item ab"
  "ab_max (submit_batch items acc ab) = ab_max ab"
  "ab_closed (submit_batch items acc ab) = ab_closed ab"
  by (auto simp: submit_batch_def Let_def note_batch_def split: option.split)

lemma submit_tables:
  assumes ok: "ab_tables_ok ab" and al: "\<And>al. acc = Some al \<Longrightarrow> distinct (map fst al)"
  shows "ab_tables_ok (submit_batch items acc ab)"
proof -
  let ?ab = "submit_batch items acc ab" and ?n = "length (ab_batches ab)"
  define al' where "al' = (case acc of None \<Rightarrow> [] | Some al \<Rightarrow> al)"
  have dist: "distinct (map fst al')" using al by (auto simp: al'_def split: option.split)
  have live: "set (ab_in_flight ab) = {i. i < ?n \<and> phase ab i \<noteq> Over}"
    and wf: "kt_ok (ab_table ab)"
    and tracks: "tracks (key_history ab) ?n (set (ab_in_flight ab)) (kt_writer (ab_table ab)) (kt_readers (ab_table ab))"
    and tail: "\<And>j. ab_tail ab = Some j \<longleftrightarrow> last_writer (ab_history ab) ?n None j \<and> j \<in> set (ab_in_flight ab)"
    and keys: "accesses_ok (ab_batches ab)"
    using ok by (auto simp: ab_tables_ok_def)
  have table: "ab_table ?ab = note_batch ?n al' (ab_table ab)"
    by (auto simp: submit_fields al'_def note_batch_def split: option.split)
  have "tracks (key_history ?ab) ?n (set (ab_in_flight ab)) (kt_writer (ab_table ab)) (kt_readers (ab_table ab))"
    using tracks by (subst tracks_cong [of ?n _ "key_history ab"]) (simp_all add: key_history_def fun_eq_iff history_old)
  moreover have "key_history ?ab ?n = map_of al'"
    by (auto simp: key_history_def fun_eq_iff history_new al'_def split: option.split)
  ultimately have "tracks (key_history ?ab) (Suc ?n) (insert ?n (set (ab_in_flight ab)))
      (kt_writer (ab_table ?ab)) (kt_readers (ab_table ?ab))"
    unfolding table by (intro keys.tracks_note wf dist)
  moreover have "set (ab_in_flight ?ab) = {i. i < Suc ?n \<and> phase ?ab i \<noteq> Over}"
    unfolding submit_fields live by (auto simp: less_Suc_eq phase_submit)
  moreover have "kt_ok (ab_table ?ab)" unfolding table by (rule keys.note_wf [OF wf dist])
  moreover have "ab_tail ?ab = Some j \<longleftrightarrow>
      last_writer (ab_history ?ab) (Suc ?n) None j \<and> j \<in> insert ?n (set (ab_in_flight ab))" for j
  proof -
    have "last_writer (ab_history ?ab) ?n None j \<longleftrightarrow> last_writer (ab_history ab) ?n None j"
      by (rule last_writer_cong) (simp add: history_old)
    then show ?thesis
      using tail [of j] history_lt [of "ab_history ab" ?n None j]
      by (auto simp: submit_fields last_writer_Suc history_new split: if_splits)
  qed
  moreover have "accesses_ok (ab_batches ?ab)"
    using keys al by (auto simp: submit_batch_def Let_def accesses_ok_def)
  ultimately show ?thesis by (simp add: ab_tables_ok_def phase_submit submit_fields)
qed

lemma submit_deps:
  assumes ok: "ab_tables_ok ab" "ab_deps_ok ab" and al: "\<And>al. acc = Some al \<Longrightarrow> distinct (map fst al)"
  shows "ab_deps_ok (submit_batch items acc ab)"
proof -
  let ?ab = "submit_batch items acc ab" and ?n = "length (ab_batches ab)"
  have live: "set (ab_in_flight ab) = {i. i < ?n \<and> phase ab i \<noteq> Over}"
    and wf: "kt_wf (ab_table ab)"
    and tracks: "tracks (key_history ab) ?n (set (ab_in_flight ab)) (kt_writer (ab_table ab)) (kt_readers (ab_table ab))"
    and tail: "\<And>j. ab_tail ab = Some j \<longleftrightarrow> last_writer (ab_history ab) ?n None j \<and> j \<in> set (ab_in_flight ab)"
    using ok(1) by (auto simp: ab_tables_ok_def kt_ok_def)
  have same: "last_writer (ab_history ?ab) ?n r j \<longleftrightarrow> last_writer (ab_history ab) ?n r j" for r j
    by (rule last_writer_cong) (simp add: history_old)
  have tracks': "tracks (key_history ?ab) ?n (set (ab_in_flight ab)) (kt_writer (ab_table ab)) (kt_readers (ab_table ab))"
    using tracks by (subst tracks_cong [of ?n _ "key_history ab"]) (simp_all add: key_history_def fun_eq_iff history_old)
  have shift: "last_writer (key_history ?ab) ?n k = last_writer (ab_history ?ab) ?n (Some k)"
    "reader_since (key_history ?ab) ?n k = reader_since (ab_history ?ab) ?n (Some k)"
    "key_history ?ab ?n k = ab_history ?ab ?n (Some k)" for k
    by (simp_all add: fun_eq_iff key_history_def last_writer_def reader_since_def)
  have deps: "deps_of ?ab ?n = (case acc of None \<Rightarrow> set (ab_in_flight ab)
      | Some al \<Rightarrow> set_option (ab_tail ab) \<union> {i. depends (key_history ?ab) ?n i} \<inter> set (ab_in_flight ab))"
  proof (cases acc)
    case (Some al)
    have "key_history ?ab ?n = map_of al"
      by (simp add: key_history_def fun_eq_iff history_new Some)
    note this' = table_deps_depends [OF tracks' this assms(3) [OF Some]]
    show ?thesis
      unfolding this' [symmetric] by (simp add: submit_deps_of Some key_dependencies_set [OF wf])
  qed (simp add: submit_deps_of)
  have new: "i \<in> deps_of ?ab ?n \<or> phase ?ab i = Over" if "depends (ab_history ?ab) ?n i" for i
  proof (cases "i \<in> set (ab_in_flight ab)")
    case False
    then show ?thesis using live depends_earlier [OF that] by (simp add: phase_submit)
  next
    case True
    have "i \<in> deps_of ?ab ?n"
    proof (cases acc)
      case None
      have "deps_of ?ab ?n = set (ab_in_flight ab)" unfolding deps by (simp add: None)
      with True show ?thesis by blast
    next
      case (Some al)
      from that obtain r where r: "ab_history ?ab ?n r \<noteq> None \<and> last_writer (ab_history ?ab) ?n r i \<or>
          ab_history ?ab ?n r = Some Write \<and> reader_since (ab_history ?ab) ?n r i"
        by (auto simp: depends_def)
      show ?thesis
      proof (cases r)
        case None
        have "ab_history ?ab ?n None = Some Read" using Some by (simp add: history_new)
        with r None have "last_writer (ab_history ab) ?n None i" unfolding same by simp
        with True tail have "ab_tail ab = Some i" by blast
        then show ?thesis unfolding deps by (simp add: Some)
      next
        case (Some k)
        with r have "depends (key_history ?ab) ?n i"
          unfolding depends_def by (intro exI [of _ k]) (simp only: shift)
        with True show ?thesis unfolding deps by (simp add: \<open>acc = Some al\<close>)
      qed
    qed
    then show ?thesis ..
  qed
  have lt: "d < ?n" if "d \<in> deps_of ?ab ?n" for d
    using that live tail by (auto simp: deps split: option.splits)
  have old: "depends (ab_history ?ab) j i \<longleftrightarrow> depends (ab_history ab) j i" if "j < ?n" for i j
    using that by (intro depends_cong) (simp add: history_old)
  show ?thesis
    unfolding ab_deps_ok_def phase_submit
  proof (intro allI impI)
    fix j assume "j < Suc ?n"
    then consider "j < ?n" | "j = ?n" by linarith
    then show "(\<forall>i. depends (ab_history ?ab) j i \<longrightarrow> i \<in> deps_of ?ab j \<or> phase ?ab i = Over) \<and>
      (\<forall>d \<in> deps_of ?ab j. d < j) \<and> (phase ?ab j \<noteq> Waiting \<longrightarrow> (\<forall>d \<in> deps_of ?ab j. phase ?ab d = Over))"
    proof cases
      case 1
      have at: "\<forall>i. depends (ab_history ab) j i \<longrightarrow> i \<in> deps_of ab j \<or> phase ab i = Over"
        "\<forall>d \<in> deps_of ab j. d < j" "phase ab j \<noteq> Waiting \<longrightarrow> (\<forall>d \<in> deps_of ab j. phase ab d = Over)"
        using ok(2) 1 by (simp_all add: ab_deps_ok_def)
      have keep: "phase ?ab i = phase ab i" if "i < j" for i using that 1 by (simp add: phase_submit)
      have here: "phase ?ab j = phase ab j" "deps_of ?ab j = deps_of ab j" using 1 by (simp_all add: phase_submit)
      show ?thesis
        unfolding here old [OF 1] using at keep depends_earlier by metis
    next
      case 2
      then show ?thesis using new lt by (simp add: phase_submit)
    qed
  qed
qed

subsection \<open>The queue\<close>

lemma plan_loop_distinct:
  "plan_loop index cmds al pt = Some (al', deps) \<Longrightarrow> distinct (map fst al) \<Longrightarrow> distinct (map fst al')"
  by (induction index cmds al pt arbitrary: al' deps rule: plan_loop.induct)
     (auto simp: merge_all_distinct Let_def split: option.splits)

lemma plan_distinct: "autoBatchOrderingPlan cmds = Some (al, deps) \<Longrightarrow> distinct (map fst al)"
  by (auto simp: autoBatchOrderingPlan_def split: option.splits if_splits dest: plan_loop_distinct)

lemma sendBatch_outcomes_length [simp]: "length (sendBatch_outcomes n result) = n"
  by (auto simp: sendBatch_outcomes_def split: pipeline_result.split)

lemma unanswered_simps:
  "unanswered [] = []"
  "unanswered (b # bs) = (if b_phase b = Over then [] else b_items b) @ unanswered bs"
  "unanswered (bs @ cs) = unanswered bs @ unanswered cs"
  by (simp_all add: unanswered_def)

lemma submit_items:
  "mset (unanswered (ab_batches (submit_batch items acc ab))) = mset (unanswered (ab_batches ab)) + mset items"
  by (simp add: submit_batch_def Let_def unanswered_simps)

text \<open>What only touches the queue keeps the tables and the dependencies.\<close>

lemma queue_only:
  assumes "ab_batches ab' = ab_batches ab" "ab_in_flight ab' = ab_in_flight ab" "ab_tail ab' = ab_tail ab"
    "ab_table ab' = ab_table ab"
  shows "ab_tables_ok ab' \<longleftrightarrow> ab_tables_ok ab" "ab_deps_ok ab' \<longleftrightarrow> ab_deps_ok ab"
proof -
  have "phase ab' = phase ab" "deps_of ab' = deps_of ab" "ab_history ab' = ab_history ab" "key_history ab' = key_history ab"
    using assms by (simp_all add: fun_eq_iff phase_def deps_of_def ab_history_def key_history_def)
  then show "ab_tables_ok ab' \<longleftrightarrow> ab_tables_ok ab" "ab_deps_ok ab' \<longleftrightarrow> ab_deps_ok ab"
    using assms by (simp_all add: ab_tables_ok_def ab_deps_ok_def)
qed

lemma flush_inv:
  assumes "ab_inv ab" shows "ab_inv (flushNow ab)"
proof (cases "ab_pending ab = []")
  case True
  then show ?thesis
    using assms queue_only [of "flushNow ab" ab] by (simp add: ab_inv_def flushNow_def ab_items_ok_def)
next
  case False
  let ?items = "take (ab_max ab) (ab_pending ab)" and ?rest = "drop (ab_max ab) (ab_pending ab)"
  let ?acc = "map_option fst (autoBatchOrderingPlan (map item_command ?items))"
  let ?ab = "ab\<lparr>ab_scheduled := False, ab_pending := ?rest, ab_scheduled := ?rest \<noteq> []\<rparr>"
  have flush: "flushNow ab = submit_batch (map item_id ?items) ?acc ?ab"
    using False by (simp add: flushNow_def Let_def not_le)
  have "ab_tables_ok ?ab" "ab_deps_ok ?ab"
    using assms queue_only [of ?ab ab] by (simp_all add: ab_inv_def)
  then have "ab_tables_ok (flushNow ab)" "ab_deps_ok (flushNow ab)"
    unfolding flush by (auto intro!: submit_tables submit_deps dest: plan_distinct)
  moreover have "mset (map item_id (ab_pending ab)) = mset (map item_id ?items) + mset (map item_id ?rest)"
    by (metis append_take_drop_id map_append mset_append)
  with assms have "ab_items_ok (flushNow ab)"
    unfolding flush ab_items_ok_def submit_items by (simp add: ab_inv_def ab_items_ok_def submit_fields ac_simps)
  ultimately show ?thesis by (simp add: ab_inv_def)
qed

lemma enqueue_inv:
  assumes "ab_inv ab" shows "ab_inv (snd (enqueue_command command ab))"
proof -
  let ?ab = "ab\<lparr>ab_pending := ab_pending ab @ [\<lparr>item_id = ab_next_item ab, item_command = command\<rparr>],
    ab_next_item := Suc (ab_next_item ab)\<rparr>"
  have "ab_inv (?ab\<lparr>ab_scheduled := s\<rparr>)" for s
    using assms queue_only [of "?ab\<lparr>ab_scheduled := s\<rparr>" ab] by (simp add: ab_inv_def ab_items_ok_def)
  from this [of True] flush_inv [OF this [of "ab_scheduled ab"]] show ?thesis
    using assms by (simp add: enqueue_command_def Let_def)
qed

lemma close_inv:
  assumes "ab_inv ab" shows "ab_inv (close_executor ab)"
proof (cases "ab_closed ab")
  case False
  let ?ab = "close_executor ab"
  have fields: "ab_batches ?ab = ab_batches ab" "ab_in_flight ?ab = ab_in_flight ab" "ab_tail ?ab = ab_tail ab"
    "ab_table ?ab = ab_table ab" "ab_pending ?ab = []" "ab_next_item ?ab = ab_next_item ab"
    "map fst (ab_outcomes ?ab) = map fst (ab_outcomes ab) @ map item_id (ab_pending ab)"
    using False by (simp_all add: close_executor_def)
  have "ab_items_ok ?ab"
    using assms unfolding ab_inv_def ab_items_ok_def fields mset_append by (simp add: ac_simps)
  with assms show ?thesis
    using queue_only [OF fields(1-4)] by (simp add: ab_inv_def)
qed (use assms in \<open>simp add: close_executor_def\<close>)

subsection \<open>The batches\<close>

lemma set_phase_fields:
  "ab_history (set_phase i p ab) = ab_history ab" "deps_of (set_phase i p ab) = deps_of ab"
  "i < length (ab_batches ab) \<Longrightarrow> phase (set_phase i p ab) j = (if j = i then p else phase ab j)"
  "length (ab_batches (set_phase i p ab)) = length (ab_batches ab)"
proof -
  show "ab_history (set_phase i p ab) = ab_history ab"
  proof (intro ext)
    fix j r
    have "batch_access (b\<lparr>b_phase := p\<rparr>) r = batch_access b r" for b by (cases r) simp_all
    then show "ab_history (set_phase i p ab) j r = ab_history ab j r"
      by (cases "j = i") (simp_all add: set_phase_def ab_history_def)
  qed
  show "deps_of (set_phase i p ab) = deps_of ab"
  proof
    fix j
    show "deps_of (set_phase i p ab) j = deps_of ab j"
    proof (cases "i < length (ab_batches ab)")
      case True
      then show ?thesis by (simp add: set_phase_def deps_of_def nth_list_update)
    next
      case False
      then have "(ab_batches ab)[i := b] = ab_batches ab" for b by (simp add: list_update_beyond)
      then show ?thesis by (simp add: set_phase_def deps_of_def)
    qed
  qed
qed (simp_all add: set_phase_def phase_def nth_list_update)

lemma set_phase_same [simp]:
  "ab_in_flight (set_phase i p ab) = ab_in_flight ab" "ab_tail (set_phase i p ab) = ab_tail ab"
  "ab_table (set_phase i p ab) = ab_table ab" "ab_pending (set_phase i p ab) = ab_pending ab"
  "ab_next_item (set_phase i p ab) = ab_next_item ab" "ab_outcomes (set_phase i p ab) = ab_outcomes ab"
  by (simp_all add: set_phase_def)

lemma set_phase_accesses:
  assumes "accesses_ok (ab_batches ab)" "i < length (ab_batches ab)"
  shows "accesses_ok (ab_batches (set_phase i p ab))"
proof -
  let ?b = "(ab_batches ab ! i)\<lparr>b_phase := p\<rparr>"
  have "b = ?b \<or> b \<in> set (ab_batches ab)" if "b \<in> set (ab_batches (set_phase i p ab))" for b
    using that set_update_subset_insert [of "ab_batches ab" i ?b] by (auto simp: set_phase_def)
  moreover have "distinct (map fst al)" if "b_accesses ?b = Some al" for al
  proof -
    have "b_accesses (ab_batches ab ! i) = Some al" using that by simp
    then show ?thesis using assms(1) nth_mem [OF assms(2)] unfolding accesses_ok_def by blast
  qed
  ultimately show ?thesis using assms(1) unfolding accesses_ok_def by metis
qed

lemma unanswered_update:
  assumes "i < length bs"
  shows "mset (unanswered (bs[i := b])) + mset (unanswered [bs ! i]) = mset (unanswered bs) + mset (unanswered [b])"
proof -
  have "unanswered bs = unanswered (take i bs @ [bs ! i] @ drop (Suc i) bs)"
    using id_take_nth_drop [OF assms] by simp
  moreover have "unanswered (bs[i := b]) = unanswered (take i bs @ [b] @ drop (Suc i) bs)"
    using upd_conv_take_nth_drop [OF assms] by simp
  ultimately show ?thesis by (simp only: unanswered_simps(3) mset_append ac_simps)
qed

lemma set_phase_deps:
  assumes "ab_deps_ok ab" "i < length (ab_batches ab)" "phase ab i \<noteq> Over" "p \<noteq> Waiting"
    "p = Running \<Longrightarrow> list_all (\<lambda>d. phase ab d = Over) (b_deps (ab_batches ab ! i))"
    "p = Over \<Longrightarrow> phase ab i = Running"
  shows "ab_deps_ok (set_phase i p ab)"
  unfolding ab_deps_ok_def set_phase_fields(1,2,4) set_phase_fields(3) [OF assms(2)]
proof (intro allI impI)
  have at: "depends (ab_history ab) j k \<Longrightarrow> k \<in> deps_of ab j \<or> phase ab k = Over"
    "d \<in> deps_of ab j \<Longrightarrow> d < j" "phase ab j \<noteq> Waiting \<Longrightarrow> d \<in> deps_of ab j \<Longrightarrow> phase ab d = Over"
    if "j < length (ab_batches ab)" for j k d
    using assms(1) that unfolding ab_deps_ok_def by blast+
  have mine: "phase ab d = Over" if d: "d \<in> deps_of ab i" for d
  proof (cases p)
    case Running
    then show ?thesis using assms(5) d by (simp add: deps_of_def list_all_iff)
  next
    case Over
    then show ?thesis using at(3) [OF assms(2) _ d] assms(6) by simp
  qed (use assms(4) in simp)
  have keep: "(if k = i then p else phase ab k) = Over" if "phase ab k = Over" for k
    using that assms(3) by auto
  fix j assume j: "j < length (ab_batches ab)"
  show "(\<forall>k. depends (ab_history ab) j k \<longrightarrow> k \<in> deps_of ab j \<or> (if k = i then p else phase ab k) = Over) \<and>
    (\<forall>d \<in> deps_of ab j. d < j) \<and>
    ((if j = i then p else phase ab j) \<noteq> Waiting \<longrightarrow> (\<forall>d \<in> deps_of ab j. (if d = i then p else phase ab d) = Over))"
  proof (intro conjI allI impI ballI)
    show "k \<in> deps_of ab j \<or> (if k = i then p else phase ab k) = Over" if "depends (ab_history ab) j k" for k
      using at(1) [OF j that] keep by blast
    show "d < j" if "d \<in> deps_of ab j" for d using at(2) [OF j that] .
    show "(if d = i then p else phase ab d) = Over"
      if "(if j = i then p else phase ab j) \<noteq> Waiting" "d \<in> deps_of ab j" for d
      using that at(3) [OF j _ that(2)] mine by (intro keep) (cases "j = i"; simp)
  qed
qed

lemma start_inv:
  assumes "ab_inv ab" "can_start ab i" shows "ab_inv (start_batch i ab)"
proof -
  let ?ab = "start_batch i ab"
  have i: "i < length (ab_batches ab)" "phase ab i = Waiting"
    "list_all (\<lambda>d. phase ab d = Over) (b_deps (ab_batches ab ! i))"
    using assms(2) by (auto simp: can_start_def)
  have deps: "ab_deps_ok ?ab"
    unfolding start_batch_def using assms(1) i by (intro set_phase_deps) (simp_all add: ab_inv_def)
  have live: "j < length (ab_batches ?ab) \<and> phase ?ab j \<noteq> Over \<longleftrightarrow> j < length (ab_batches ab) \<and> phase ab j \<noteq> Over" for j
    using i by (auto simp: start_batch_def set_phase_fields)
  have hist: "key_history ?ab = key_history ab" "ab_history ?ab = ab_history ab" "length (ab_batches ?ab) = length (ab_batches ab)"
    by (simp_all add: fun_eq_iff key_history_def start_batch_def set_phase_fields)
  have same: "ab_in_flight ?ab = ab_in_flight ab" "ab_table ?ab = ab_table ab" "ab_tail ?ab = ab_tail ab"
    by (simp_all add: start_batch_def)
  have accs: "accesses_ok (ab_batches ?ab)"
    unfolding start_batch_def using assms(1) i(1) by (intro set_phase_accesses) (simp_all add: ab_inv_def ab_tables_ok_def)
  have tables: "ab_tables_ok ?ab"
    using assms(1) accs unfolding ab_inv_def ab_tables_ok_def live unfolding hist same by blast
  have "mset (unanswered (ab_batches ?ab)) = mset (unanswered (ab_batches ab))"
    using unanswered_update [OF i(1), of "(ab_batches ab ! i)\<lparr>b_phase := Running\<rparr>"] i(2)
    by (simp add: start_batch_def set_phase_def unanswered_simps phase_def)
  with assms(1) have "ab_items_ok ?ab"
    by (simp add: ab_inv_def ab_items_ok_def start_batch_def)
  with deps tables show ?thesis by (simp add: ab_inv_def)
qed

lemma settle_fields:
  "ab_batches (settle_batch i result ab) = ab_batches (set_phase i Over ab)"
  "ab_in_flight (settle_batch i result ab) = removeAll i (ab_in_flight ab)"
  "ab_table (settle_batch i result ab) =
    forget_batch i (case b_accesses (ab_batches ab ! i) of None \<Rightarrow> [] | Some al \<Rightarrow> al) (ab_table ab)"
  "ab_tail (settle_batch i result ab) =
    (if b_accesses (ab_batches ab ! i) = None \<and> ab_tail ab = Some i then None else ab_tail ab)"
  "map fst (ab_outcomes (settle_batch i result ab)) = map fst (ab_outcomes ab) @ b_items (ab_batches ab ! i)"
  "ab_pending (settle_batch i result ab) = ab_pending ab"
  "ab_next_item (settle_batch i result ab) = ab_next_item ab"
  by (simp_all add: settle_batch_def Let_def forget_batch_def split: option.split)

lemma settle_views:
  "phase (settle_batch i result ab) = phase (set_phase i Over ab)"
  "deps_of (settle_batch i result ab) = deps_of ab"
  "ab_history (settle_batch i result ab) = ab_history ab"
  "key_history (settle_batch i result ab) = key_history ab"
  "length (ab_batches (settle_batch i result ab)) = length (ab_batches ab)"
proof -
  show "phase (settle_batch i result ab) = phase (set_phase i Over ab)"
    by (simp add: fun_eq_iff phase_def settle_fields)
  have "deps_of (settle_batch i result ab) = deps_of (set_phase i Over ab)"
    by (simp add: fun_eq_iff deps_of_def settle_fields)
  then show "deps_of (settle_batch i result ab) = deps_of ab" by (simp only: set_phase_fields)
  have "ab_history (settle_batch i result ab) = ab_history (set_phase i Over ab)"
    by (simp add: fun_eq_iff ab_history_def settle_fields)
  then show hist: "ab_history (settle_batch i result ab) = ab_history ab" by (simp only: set_phase_fields)
  show "key_history (settle_batch i result ab) = key_history ab" by (simp add: fun_eq_iff key_history_def hist)
  show "length (ab_batches (settle_batch i result ab)) = length (ab_batches ab)"
    by (simp add: settle_fields set_phase_fields)
qed

lemma settle_tables:
  assumes ok: "ab_tables_ok ab" and i: "i < length (ab_batches ab)"
  shows "ab_tables_ok (settle_batch i result ab)"
proof -
  let ?ab = "settle_batch i result ab" and ?n = "length (ab_batches ab)" and ?b = "ab_batches ab ! i"
  define al where "al = (case b_accesses ?b of None \<Rightarrow> [] | Some al \<Rightarrow> al)"
  have live: "set (ab_in_flight ab) = {i. i < ?n \<and> phase ab i \<noteq> Over}"
    and wf: "kt_ok (ab_table ab)"
    and tracks: "tracks (key_history ab) ?n (set (ab_in_flight ab)) (kt_writer (ab_table ab)) (kt_readers (ab_table ab))"
    and tail: "\<And>j. ab_tail ab = Some j \<longleftrightarrow> last_writer (ab_history ab) ?n None j \<and> j \<in> set (ab_in_flight ab)"
    and accs: "accesses_ok (ab_batches ab)"
    using ok by (auto simp: ab_tables_ok_def)
  have dist: "distinct (map fst al)"
    using accs nth_mem [OF i] unfolding accesses_ok_def al_def by (cases "b_accesses ?b") auto
  have hist: "key_history ab i = map_of al"
    using i by (auto simp: key_history_def ab_history_def fun_eq_iff al_def split: option.split)
  have table: "ab_table ?ab = forget_batch i al (ab_table ab)" by (simp add: settle_fields al_def)
  have live': "set (ab_in_flight ?ab) = set (ab_in_flight ab) - {i}" by (simp add: settle_fields)
  have new_live: "set (ab_in_flight ?ab) = {j. j < ?n \<and> phase ?ab j \<noteq> Over}"
    unfolding live' live settle_views using i by (auto simp: set_phase_fields)
  have "b_accesses ?b = None" if "ab_tail ab = Some i"
    using that tail [of i] i by (auto simp: last_writer_def ab_history_def split: if_splits)
  then have new_tail: "ab_tail ?ab = Some j \<longleftrightarrow> ab_tail ab = Some j \<and> j \<noteq> i" for j
    by (auto simp: settle_fields)
  show ?thesis
    unfolding ab_tables_ok_def settle_views(3-5)
  proof (intro conjI allI)
    show "set (ab_in_flight ?ab) = {j. j < ?n \<and> phase ?ab j \<noteq> Over}" by (rule new_live)
    show "kt_ok (ab_table ?ab)" unfolding table by (rule keys.forget_wf [OF wf dist])
    show "tracks (key_history ab) ?n (set (ab_in_flight ?ab)) (kt_writer (ab_table ?ab)) (kt_readers (ab_table ?ab))"
      unfolding table live' by (rule keys.tracks_forget [OF tracks wf dist hist])
    show "ab_tail ?ab = Some j \<longleftrightarrow> last_writer (ab_history ab) ?n None j \<and> j \<in> set (ab_in_flight ?ab)" for j
      unfolding new_tail live' using tail [of j] by blast
    show "accesses_ok (ab_batches ?ab)"
      unfolding settle_fields by (rule set_phase_accesses [OF accs i])
  qed
qed

lemma settle_inv:
  assumes "ab_inv ab" "i < length (ab_batches ab)" "phase ab i = Running"
  shows "ab_inv (settle_batch i result ab)"
proof -
  let ?ab = "settle_batch i result ab"
  have tables: "ab_tables_ok ?ab" using assms by (simp add: ab_inv_def settle_tables)
  have "ab_deps_ok (set_phase i Over ab)"
    using assms by (intro set_phase_deps) (simp_all add: ab_inv_def)
  then have deps: "ab_deps_ok ?ab"
    unfolding ab_deps_ok_def settle_views set_phase_fields(1,2,4) .
  have "mset (unanswered (ab_batches ?ab)) + mset (b_items (ab_batches ab ! i)) = mset (unanswered (ab_batches ab))"
    using unanswered_update [OF assms(2), of "(ab_batches ab ! i)\<lparr>b_phase := Over\<rparr>"] assms(3)
    by (simp add: settle_fields set_phase_def unanswered_simps phase_def)
  moreover have "mset (map fst (ab_outcomes ?ab)) = mset (map fst (ab_outcomes ab)) + mset (b_items (ab_batches ab ! i))"
    by (simp only: settle_fields mset_append)
  ultimately have "mset (map fst (ab_outcomes ?ab)) + mset (unanswered (ab_batches ?ab)) =
      mset (map fst (ab_outcomes ab)) + mset (unanswered (ab_batches ab))"
    by (simp only: ac_simps)
  with assms(1) have "ab_items_ok ?ab"
    unfolding ab_items_ok_def ab_inv_def settle_fields(6,7) by simp
  with tables deps show ?thesis by (simp add: ab_inv_def)
qed

lemma ab_step_inv: "ab_step ab ab' \<Longrightarrow> ab_inv ab \<Longrightarrow> ab_inv ab'"
  by (induction rule: ab_step.induct) (simp_all add: enqueue_inv flush_inv start_inv settle_inv close_inv)

definition ab_reachable :: "nat \<Rightarrow> auto_batch \<Rightarrow> bool" where
  "ab_reachable m ab \<longleftrightarrow> ab_step\<^sup>*\<^sup>* (new_auto_batch m) ab"

lemma ab_reachable_inv: "ab_reachable m ab \<Longrightarrow> ab_inv ab"
  unfolding ab_reachable_def by (induction rule: rtranclp_induct) (auto intro: ab_step_inv new_auto_batch_inv)

section \<open>What the executor guarantees\<close>

lemma deps_path_over:
  assumes "ab_deps_ok ab" "(depends (ab_history ab))\<^sup>+\<^sup>+ j i" "j < length (ab_batches ab)" "phase ab j \<noteq> Waiting"
  shows "phase ab i = Over"
  using assms(2-4)
proof (induction j rule: converse_tranclp_induct)
  case (base j)
  then show ?case using assms(1) unfolding ab_deps_ok_def by blast
next
  case (step j m)
  then have "phase ab m = Over" using assms(1) unfolding ab_deps_ok_def by blast
  moreover have "m < length (ab_batches ab)" using depends_earlier [OF step(1)] step.prems(1) by simp
  ultimately show ?case using step.IH by simp
qed

text \<open>A run: two batches of the same two commands, the first is sent and answered, the second is sent.\<close>

definition demo_enqueue :: "auto_batch \<Rightarrow> auto_batch" where
  "demo_enqueue ab = fold (\<lambda>command ab. snd (enqueue_command command ab)) demo_batch ab"

definition demo_two :: auto_batch where
  "demo_two = demo_enqueue (demo_enqueue (new_auto_batch 2))"

definition demo_sent :: auto_batch where
  "demo_sent = start_batch 1 (settle_batch 0 (PipelineResults [ValueItem JNull, MissingItem]) (start_batch 0 demo_two))"

lemma demo_flush:
  "ab_max ab = 2 \<Longrightarrow> ab_pending ab = [] \<Longrightarrow> \<not> ab_closed ab \<Longrightarrow>
    demo_enqueue ab = submit_batch [ab_next_item ab, Suc (ab_next_item ab)]
      (Some [(autoBatchResourceKey ''kv'' (JStr (ascii ''k'')), Write)])
      (ab\<lparr>ab_next_item := Suc (Suc (ab_next_item ab)), ab_pending := [], ab_scheduled := False\<rparr>)"
  using demo_batch_plan
  by (simp add: demo_enqueue_def enqueue_command_def flushNow_def Let_def demo_batch_def)

lemma demo_two_eq:
  "ab_batches demo_two = (let al = Some [(autoBatchResourceKey ''kv'' (JStr (ascii ''k'')), Write)] in
    [\<lparr>b_items = [0, 1], b_accesses = al, b_deps = [], b_phase = Waiting\<rparr>,
     \<lparr>b_items = [2, 3], b_accesses = al, b_deps = [0], b_phase = Waiting\<rparr>])"
  "ab_in_flight demo_two = [0, 1]"
proof -
  define K where "K = autoBatchResourceKey ''kv'' (JStr (ascii ''k''))"
  have one: "demo_enqueue (new_auto_batch 2) = submit_batch [0, Suc 0] (Some [(K, Write)])
      ((new_auto_batch 2)\<lparr>ab_next_item := Suc (Suc 0)\<rparr>)"
    by (simp add: demo_flush K_def new_auto_batch_def)
  note unfolds = demo_two_def one submit_batch_def Let_def new_auto_batch_def empty_key_table_def capture_key_def
    record_key_def key_dependencies_def captured_state_def new_key_state_def set_add_def demo_flush K_def [symmetric]
  show "ab_batches demo_two = (let al = Some [(autoBatchResourceKey ''kv'' (JStr (ascii ''k'')), Write)] in
    [\<lparr>b_items = [0, 1], b_accesses = al, b_deps = [], b_phase = Waiting\<rparr>,
     \<lparr>b_items = [2, 3], b_accesses = al, b_deps = [0], b_phase = Waiting\<rparr>])"
    "ab_in_flight demo_two = [0, 1]"
    by (simp_all add: unfolds)
qed

lemma demo_reachable: "ab_reachable 2 demo_two" "ab_reachable 2 demo_sent"
proof -
  have more: "ab_reachable m ab \<Longrightarrow> ab_step ab ab' \<Longrightarrow> ab_reachable m ab'" for m ab ab'
    unfolding ab_reachable_def by (rule rtranclp.rtrancl_into_rtrancl)
  have enq: "ab_reachable m ab \<Longrightarrow> ab_reachable m (demo_enqueue ab)" for m ab
  proof -
    assume "ab_reachable m ab"
    then have "ab_reachable m (snd (enqueue_command c ab))" for c by (rule more) (rule ab_step.enqueue)
    then have "ab_reachable m (snd (enqueue_command c' (snd (enqueue_command c ab))))" for c c'
      by (rule more) (rule ab_step.enqueue)
    then show ?thesis unfolding demo_enqueue_def demo_batch_def by simp
  qed
  show two: "ab_reachable 2 demo_two" unfolding demo_two_def by (intro enq) (simp add: ab_reachable_def)
  have "can_start demo_two 0" by (simp add: can_start_def phase_def demo_two_eq Let_def)
  from more [OF two ab_step.start [OF this]] have one: "ab_reachable 2 (start_batch 0 demo_two)" .
  have "ab_reachable 2 (settle_batch 0 (PipelineResults [ValueItem JNull, MissingItem]) (start_batch 0 demo_two))"
    by (rule more [OF one], rule ab_step.settle)
      (simp_all add: phase_def start_batch_def set_phase_def demo_two_eq Let_def)
  then show "ab_reachable 2 demo_sent"
    unfolding demo_sent_def
    by (rule more, intro ab_step.start)
      (simp add: can_start_def phase_def settle_fields start_batch_def set_phase_def demo_two_eq Let_def)
qed

text \<open>C2. Order of conflicting batches: whatever the interleaving of submissions, sends and answers, two
  batches that touch a common resource, one of them writing it, or of which one has unknown accesses, are
  never under way at the same time: as soon as the later of the two is sent, the earlier one is over.\<close>

theorem conflicting_batches_are_ordered:
  assumes "ab_reachable m ab" "i < j" "j < length (ab_batches ab)" "conflict (ab_history ab) i j" "phase ab j \<noteq> Waiting"
  shows "phase ab i = Over"
proof -
  from assms(4) obtain r where "ab_history ab i r \<noteq> None" "ab_history ab j r \<noteq> None"
    "ab_history ab i r = Some Write \<or> ab_history ab j r = Some Write"
    by (auto simp: conflict_def)
  from conflicts_reached [of i j "ab_history ab" r] assms(2) this have path: "(depends (ab_history ab))\<^sup>+\<^sup>+ j i" by blast
  have "ab_deps_ok ab" using ab_reachable_inv [OF assms(1)] by (simp add: ab_inv_def)
  from deps_path_over [OF this path assms(3,5)] show ?thesis .
qed

theorem conflicting_batches_are_ordered_witness:
  "conflict (ab_history demo_sent) 0 1 \<and> phase demo_sent 1 = Running \<and> phase demo_sent 0 = Over"
proof -
  have batches: "ab_batches demo_sent ! 0 = (ab_batches demo_two ! 0)\<lparr>b_phase := Over\<rparr>"
    "ab_batches demo_sent ! 1 = (ab_batches demo_two ! 1)\<lparr>b_phase := Running\<rparr>" "length (ab_batches demo_sent) = 2"
    by (simp_all add: demo_sent_def settle_fields start_batch_def set_phase_def demo_two_eq Let_def)
  then have "ab_history demo_sent 0 (Some (autoBatchResourceKey ''kv'' (JStr (ascii ''k'')))) = Some Write"
    "ab_history demo_sent 1 (Some (autoBatchResourceKey ''kv'' (JStr (ascii ''k'')))) = Some Write"
    by (simp_all add: ab_history_def demo_two_eq Let_def)
  then have conflict: "conflict (ab_history demo_sent) 0 1" unfolding conflict_def by blast
  have running: "phase demo_sent 1 = Running" using batches by (simp add: phase_def)
  have "phase demo_sent 0 = Over"
    by (rule conflicting_batches_are_ordered [OF demo_reachable(2) _ _ conflict]) (simp_all add: running [simplified] batches)
  with conflict running show ?thesis by blast
qed

text \<open>The executor does not deadlock: as long as a batch is in flight, one is running, or one can be
  sent because everything it waits for is over.\<close>

theorem executor_makes_progress:
  assumes "ab_reachable m ab" "ab_in_flight ab \<noteq> []"
  shows "\<exists>i. i < length (ab_batches ab) \<and> (phase ab i = Running \<or> can_start ab i)"
proof -
  have inv: "ab_tables_ok ab" "ab_deps_ok ab" using ab_reachable_inv [OF assms(1)] by (simp_all add: ab_inv_def)
  define P where "P i \<longleftrightarrow> i < length (ab_batches ab) \<and> phase ab i \<noteq> Over" for i
  have "set (ab_in_flight ab) = {i. P i}" using inv(1) by (simp add: ab_tables_ok_def P_def)
  with assms(2) have "\<exists>i. P i" by (metis empty_Collect_eq set_empty)
  then obtain i where i: "P i" "\<And>d. d < i \<Longrightarrow> \<not> P d" using exists_least_iff [of P] by blast
  have "phase ab d = Over" if "d \<in> deps_of ab i" for d
  proof -
    have "d < i" using inv(2) i(1) that unfolding ab_deps_ok_def P_def by blast
    then show ?thesis using i(2) [of d] i(1) by (simp add: P_def)
  qed
  then have "phase ab i = Running \<or> can_start ab i"
    using i(1) by (cases "phase ab i") (auto simp: P_def can_start_def list_all_iff deps_of_def)
  with i(1) show ?thesis unfolding P_def by blast
qed

theorem executor_makes_progress_witness:
  "ab_in_flight demo_two = [0, 1] \<and> (\<exists>i. i < length (ab_batches demo_two) \<and> (phase demo_two i = Running \<or> can_start demo_two i))"
  using executor_makes_progress [OF demo_reachable(1)] by (simp add: demo_two_eq(2))

text \<open>C7. Every command is answered exactly once: in every state the numbers of the commands answered, of
  those in a batch under way and of those in the queue are, together, each command ever accepted, once.
  The table of key states has an entry only for a key that a batch in flight last wrote or reads, and
  when no batch is in flight no table of the executor has an entry left.\<close>

theorem commands_are_answered_once:
  assumes "ab_reachable m ab"
  shows "mset (map fst (ab_outcomes ab)) + mset (unanswered (ab_batches ab)) + mset (map item_id (ab_pending ab)) =
      mset [0..<ab_next_item ab] \<and> distinct (map fst (ab_outcomes ab)) \<and>
    (\<forall>k. kt_keys (ab_table ab) k \<noteq> None \<longrightarrow>
      (\<exists>i \<in> set (ab_in_flight ab). kt_writer (ab_table ab) k = Some i \<or> i \<in> kt_readers (ab_table ab) k)) \<and>
    (ab_in_flight ab = [] \<longrightarrow> ab_tail ab = None \<and> kt_keys (ab_table ab) = Map.empty \<and>
      kt_writer (ab_table ab) k = None \<and> kt_readers (ab_table ab) k = {} \<and>
      unanswered (ab_batches ab) = [])"
proof (intro conjI impI)
  have inv: "ab_tables_ok ab" "ab_items_ok ab" using ab_reachable_inv [OF assms] by (simp_all add: ab_inv_def)
  show all: "mset (map fst (ab_outcomes ab)) + mset (unanswered (ab_batches ab)) + mset (map item_id (ab_pending ab)) =
      mset [0..<ab_next_item ab]"
    using inv(2) by (simp only: ab_items_ok_def)
  have "mset (map fst (ab_outcomes ab) @ unanswered (ab_batches ab) @ map item_id (ab_pending ab)) = mset [0..<ab_next_item ab]"
    unfolding all [symmetric] by (simp only: mset_append ac_simps)
  then have "distinct (map fst (ab_outcomes ab) @ unanswered (ab_batches ab) @ map item_id (ab_pending ab))"
    by (metis distinct_upt mset_eq_imp_distinct_iff)
  then show "distinct (map fst (ab_outcomes ab))" by simp
  have keys: "\<exists>i \<in> set (ab_in_flight ab). kt_writer (ab_table ab) k = Some i \<or> i \<in> kt_readers (ab_table ab) k"
    if "kt_keys (ab_table ab) k \<noteq> None" for k
  proof -
    have "kt_writer (ab_table ab) k \<noteq> None \<or> kt_readers (ab_table ab) k \<noteq> {}"
      using that inv(1) by (simp add: ab_tables_ok_def kt_ok_def kt_tight_def)
    then show ?thesis using inv(1) unfolding ab_tables_ok_def tracks_def by fastforce
  qed
  then show "\<forall>k. kt_keys (ab_table ab) k \<noteq> None \<longrightarrow>
      (\<exists>i \<in> set (ab_in_flight ab). kt_writer (ab_table ab) k = Some i \<or> i \<in> kt_readers (ab_table ab) k)"
    by blast
  assume idle: "ab_in_flight ab = []"
  show "kt_keys (ab_table ab) = Map.empty" using keys idle by fastforce
  show "ab_tail ab = None" "kt_writer (ab_table ab) k = None" "kt_readers (ab_table ab) k = {}"
    using inv(1) idle by (auto simp: ab_tables_ok_def tracks_def)
  have "b_phase b = Over" if "b \<in> set (ab_batches ab)" for b
    using that inv(1) idle by (auto simp: ab_tables_ok_def phase_def in_set_conv_nth)
  then show "unanswered (ab_batches ab) = []" by (auto simp: unanswered_def)
qed

theorem commands_are_answered_once_witness:
  "distinct (map fst (ab_outcomes demo_sent)) \<and> ab_in_flight demo_sent = [1] \<and> map fst (ab_outcomes demo_sent) = [0, 1]"
proof (intro conjI)
  show "distinct (map fst (ab_outcomes demo_sent))" using commands_are_answered_once [OF demo_reachable(2)] by blast
  have "ab_outcomes demo_two = []" by (simp add: demo_two_def demo_flush submit_fields new_auto_batch_def)
  then show "ab_in_flight demo_sent = [1]" "map fst (ab_outcomes demo_sent) = [0, 1]"
    unfolding demo_sent_def start_batch_def
    by (simp_all add: settle_fields demo_two_eq Let_def set_phase_def)
qed

end
