(* ===== verification/NativeConnection.thy ===== *)
theory NativeConnection
  imports Errors Tables "HOL-Library.Multiset"
begin

text \<open>
  The requests of a native connection (\<open>native-write-queue.ts\<close>, \<open>native-request-scheduler.ts\<close>,
  \<open>native-pending-timeout.ts\<close> and the request table of \<open>native-adapter.ts\<close>): a request gets a number,
  enters the table of pending requests and its frame is written to the socket, or queued when the socket
  asks to wait. It leaves the table with a response, a time-out, or the end of the connection, and the
  error it then gets says whether its frame can have reached the server.

  The write queue shares each queued write between an array and a map; a cancelled write is emptied in
  place. The queued writes live in a store here, the array and the map hold their addresses.
\<close>

section \<open>State\<close>

record queued_write =
  qw_bytes :: int
  qw_frame :: "bytes option"
  qw_request :: int

record pending_request =
  pr_credit :: bool
  pr_indefinite :: bool
  pr_lane :: int
  pr_timed_out :: bool

text \<open>An answer: what a response said, an error of the connection, or a frame that could not be encoded.\<close>

datatype answer = Response "thrown + jsval" | Failed sdk_error | NotEncoded thrown

text \<open>What \<open>socket.write\<close> does with a frame: takes it, takes it and asks to wait, throws.\<close>

datatype socket_answer = Accepted | Full | Threw jsval

record native_adapter =
  qw_heap :: "queued_write list"
  queuedWrites :: "nat list"
  queuedWritesByRequest :: "(int \<times> nat) list"
  queuedWriteBytes :: int
  queuedWriteHead :: nat
  queuedWriteTombstones :: int
  writeBlocked :: bool
  maxQueuedWriteBytes :: int
  na_closed :: bool
  na_draining :: bool
  na_pending :: "(int \<times> pending_request) list"
  pendingControlRequests :: int
  maxPendingControlRequests :: int
  na_request_id :: int
  na_attempts :: "(int \<times> bytes \<times> socket_answer) list"
  na_answers :: "(int \<times> answer) list"
  na_released :: "int list"

definition new_native_adapter :: "int \<Rightarrow> int \<Rightarrow> native_adapter" where
  "new_native_adapter byte_limit control_limit = \<lparr>qw_heap = [], queuedWrites = [], queuedWritesByRequest = [],
    queuedWriteBytes = 0, queuedWriteHead = 0, queuedWriteTombstones = 0, writeBlocked = False,
    maxQueuedWriteBytes = byte_limit, na_closed = False, na_draining = False, na_pending = [],
    pendingControlRequests = 0, maxPendingControlRequests = control_limit, na_request_id = 0,
    na_attempts = [], na_answers = [], na_released = []\<rparr>"

definition MAX_REQUEST_ID :: int where
  "MAX_REQUEST_ID = 0xffffffffffffffff"

definition nextRequestId :: "native_adapter \<Rightarrow> int \<times> native_adapter" where
  "nextRequestId na =
    (let i = (if na_request_id na = MAX_REQUEST_ID then 1 else na_request_id na + 1)
     in (i, na\<lparr>na_request_id := i\<rparr>))"

definition unsentConnectionClosedError :: "jsval \<Rightarrow> sdk_error" where
  "unsentConnectionClosedError cause =
    (if nullish cause then connection_closed_error Unsent JUndef JUndef None
     else connection_closed_error Unsent cause cause None)"

definition possiblySentConnectionClosedError :: "jsval \<Rightarrow> jsstr option \<Rightarrow> sdk_error" where
  "possiblySentConnectionClosedError cause msg =
    (if nullish cause then connection_closed_error PossiblySent JUndef JUndef msg
     else connection_closed_error PossiblySent cause cause msg)"

section \<open>The write queue\<close>

definition queue_clear :: "native_adapter \<Rightarrow> native_adapter" where
  "queue_clear na = na\<lparr>queuedWrites := [], queuedWritesByRequest := [], queuedWriteBytes := 0,
    queuedWriteHead := 0, queuedWriteTombstones := 0, writeBlocked := False\<rparr>"

definition queue_has :: "native_adapter \<Rightarrow> int \<Rightarrow> bool" where
  "queue_has na rid \<longleftrightarrow> map_of (queuedWritesByRequest na) rid \<noteq> None"

definition live_slot :: "queued_write list \<Rightarrow> nat \<Rightarrow> bool" where
  "live_slot heap a \<longleftrightarrow> qw_frame (heap ! a) \<noteq> None"

definition compactTombstones :: "native_adapter \<Rightarrow> native_adapter" where
  "compactTombstones na =
    (if queuedWritesByRequest na = [] then
       na\<lparr>queuedWrites := [], queuedWriteHead := 0, queuedWriteTombstones := 0\<rparr>
     else let remaining = int (length (queuedWrites na)) - int (queuedWriteHead na) in
       if queuedWriteTombstones na < 1024 \<or> queuedWriteTombstones na * 2 < remaining then na
       else na\<lparr>queuedWrites := filter (live_slot (qw_heap na)) (drop (queuedWriteHead na) (queuedWrites na)),
               queuedWriteHead := 0, queuedWriteTombstones := 0\<rparr>)"

definition empty_slot :: "nat \<Rightarrow> native_adapter \<Rightarrow> native_adapter" where
  "empty_slot a na = na\<lparr>qw_heap := (qw_heap na)[a := (qw_heap na ! a)\<lparr>qw_frame := None\<rparr>],
    queuedWritesByRequest := AList.delete (qw_request (qw_heap na ! a)) (queuedWritesByRequest na),
    queuedWriteBytes := max 0 (queuedWriteBytes na - qw_bytes (qw_heap na ! a))\<rparr>"

definition queue_cancel :: "int \<Rightarrow> native_adapter \<Rightarrow> native_adapter" where
  "queue_cancel rid na =
    (case map_of (queuedWritesByRequest na) rid of
       None \<Rightarrow> na
     | Some a \<Rightarrow>
         if qw_frame (qw_heap na ! a) = None then na
         else compactTombstones ((empty_slot a na)\<lparr>queuedWriteTombstones := queuedWriteTombstones na + 1\<rparr>))"

section \<open>The table of pending requests\<close>

definition finishDrainIfIdle :: "native_adapter \<Rightarrow> native_adapter" where
  "finishDrainIfIdle na =
    (if \<not> na_draining na \<or> na_pending na \<noteq> [] \<or> na_closed na then na else na\<lparr>na_closed := True\<rparr>)"

definition takePending :: "int \<Rightarrow> native_adapter \<Rightarrow> pending_request option \<times> native_adapter" where
  "takePending rid na =
    (case map_of (na_pending na) rid of
       None \<Rightarrow> (None, na)
     | Some p \<Rightarrow>
         let na1 = queue_cancel rid (na\<lparr>na_pending := AList.delete rid (na_pending na)\<rparr>);
             na2 = (if pr_credit p then na1\<lparr>na_released := na_released na1 @ [pr_lane p]\<rparr>
                    else na1\<lparr>pendingControlRequests := max 0 (pendingControlRequests na1 - 1)\<rparr>)
         in (Some p, finishDrainIfIdle na2))"

definition answer_request :: "int \<Rightarrow> answer \<Rightarrow> native_adapter \<Rightarrow> native_adapter" where
  "answer_request rid a na = na\<lparr>na_answers := na_answers na @ [(rid, a)]\<rparr>"

text \<open>\<open>takePending(id)?.reject(error)\<close>, the \<open>rejectPending\<close> callback of the write queue.\<close>

definition take_and_answer :: "int \<Rightarrow> answer \<Rightarrow> native_adapter \<Rightarrow> native_adapter" where
  "take_and_answer rid a na =
    (case takePending rid na of (None, na') \<Rightarrow> na' | (Some _, na') \<Rightarrow> answer_request rid a na')"

section \<open>Writing\<close>

definition writeFrame :: "(nat \<Rightarrow> socket_answer) \<Rightarrow> int \<Rightarrow> bytes \<Rightarrow> native_adapter \<Rightarrow> native_adapter" where
  "writeFrame sock rid frame na =
    (let s = sock (length (na_attempts na)); na1 = na\<lparr>na_attempts := na_attempts na @ [(rid, frame, s)]\<rparr>
     in case s of
       Accepted \<Rightarrow> na1
     | Full \<Rightarrow> na1\<lparr>writeBlocked := True\<rparr>
     | Threw e \<Rightarrow> take_and_answer rid (Failed (unsentConnectionClosedError e)) na1)"

definition write_frame_queued :: "int \<Rightarrow> bytes \<Rightarrow> native_adapter \<Rightarrow> native_adapter" where
  "write_frame_queued rid frame na =
    na\<lparr>qw_heap := qw_heap na @ [\<lparr>qw_bytes = int (length frame), qw_frame = Some frame, qw_request = rid\<rparr>],
       queuedWrites := queuedWrites na @ [length (qw_heap na)],
       queuedWritesByRequest := AList.update rid (length (qw_heap na)) (queuedWritesByRequest na),
       queuedWriteBytes := queuedWriteBytes na + int (length frame)\<rparr>"

definition queue_write :: "(nat \<Rightarrow> socket_answer) \<Rightarrow> int \<Rightarrow> bytes \<Rightarrow> native_adapter \<Rightarrow> native_adapter" where
  "queue_write sock rid frame na =
    (if \<not> writeBlocked na then writeFrame sock rid frame na
     else if int (length frame) > maxQueuedWriteBytes na - queuedWriteBytes na then
       take_and_answer rid (Failed (overloaded_error (ascii ''FerricStore client write queue is full'')
         (raw_options JUndef JUndef) (Some (ascii ''client_write_queue_full'')))) na
     else write_frame_queued rid frame na)"

text \<open>The drain event. One turn of its loop takes the slot at the head.\<close>

definition flush_step :: "(nat \<Rightarrow> socket_answer) \<Rightarrow> native_adapter \<Rightarrow> native_adapter" where
  "flush_step sock na =
    (let a = queuedWrites na ! queuedWriteHead na; q = qw_heap na ! a;
         na1 = na\<lparr>queuedWriteHead := queuedWriteHead na + 1\<rparr>
     in case qw_frame q of
       None \<Rightarrow> na1\<lparr>queuedWriteTombstones := max 0 (queuedWriteTombstones na - 1)\<rparr>
     | Some frame \<Rightarrow>
         let na2 = empty_slot a na1
         in if map_of (na_pending na2) (qw_request q) \<noteq> None then writeFrame sock (qw_request q) frame na2 else na2)"

definition flush_more :: "native_adapter \<Rightarrow> bool" where
  "flush_more na \<longleftrightarrow> \<not> writeBlocked na \<and> queuedWriteHead na < length (queuedWrites na)"

text \<open>The array can be emptied while the loop runs, by the compaction a rejected request brings about; the
  distance from the head to the end still decreases.\<close>

definition slots_left :: "native_adapter \<Rightarrow> nat" where
  "slots_left na = length (queuedWrites na) - queuedWriteHead na"

lemma slots_left_updates [simp]:
  "slots_left (empty_slot a na) = slots_left na"
  "slots_left (na\<lparr>queuedWriteTombstones := t\<rparr>) = slots_left na"
  "slots_left (na\<lparr>na_pending := ps\<rparr>) = slots_left na"
  "slots_left (na\<lparr>na_attempts := ats\<rparr>) = slots_left na"
  "slots_left (na\<lparr>na_released := rs\<rparr>) = slots_left na"
  "slots_left (na\<lparr>pendingControlRequests := c\<rparr>) = slots_left na"
  "slots_left (na\<lparr>writeBlocked := b\<rparr>) = slots_left na"
  "slots_left (finishDrainIfIdle na) = slots_left na"
  "slots_left (answer_request rid x na) = slots_left na"
  by (simp_all add: slots_left_def empty_slot_def finishDrainIfIdle_def answer_request_def)

lemma slots_left_compact: "slots_left (compactTombstones na) \<le> slots_left na"
  using length_filter_le [of "live_slot (qw_heap na)" "drop (queuedWriteHead na) (queuedWrites na)"]
  by (simp add: slots_left_def compactTombstones_def Let_def)

lemma slots_left_cancel: "slots_left (queue_cancel rid na) \<le> slots_left na"
  using slots_left_compact [of "(empty_slot a na)\<lparr>queuedWriteTombstones := queuedWriteTombstones na + 1\<rparr>" for a]
  by (simp add: queue_cancel_def split: option.split)

lemma slots_left_take: "slots_left (take_and_answer rid x na) \<le> slots_left na"
  using slots_left_cancel [of rid "na\<lparr>na_pending := AList.delete rid (na_pending na)\<rparr>"]
  by (simp add: take_and_answer_def takePending_def Let_def split: option.split prod.split)

lemma slots_left_write: "slots_left (writeFrame sock rid frame na) \<le> slots_left na"
  unfolding writeFrame_def Let_def
  using slots_left_take [of rid x "na\<lparr>na_attempts := ats\<rparr>" for x ats] by (simp split: socket_answer.split)

lemma slots_left_flush_step:
  assumes "flush_more na"
  shows "slots_left (flush_step sock na) < slots_left na"
proof -
  let ?na = "na\<lparr>queuedWriteHead := Suc (queuedWriteHead na)\<rparr>" and ?a = "queuedWrites na ! queuedWriteHead na"
  have "slots_left ?na < slots_left na"
    using assms by (auto simp: slots_left_def flush_more_def)
  moreover have "slots_left (flush_step sock na) \<le> slots_left ?na"
    using slots_left_write [of sock _ _ "empty_slot ?a ?na"]
    by (simp add: flush_step_def Let_def split: option.split)
  ultimately show ?thesis by simp
qed

function flush_loop :: "(nat \<Rightarrow> socket_answer) \<Rightarrow> native_adapter \<Rightarrow> native_adapter" where
  "flush_loop sock na = (if flush_more na then flush_loop sock (flush_step sock na) else na)"
  by pat_completeness auto

termination
  by (relation "measure (\<lambda>(sock, na). slots_left na)") (simp_all add: slots_left_flush_step)

declare flush_loop.simps [simp del]

definition queue_flush :: "(nat \<Rightarrow> socket_answer) \<Rightarrow> native_adapter \<Rightarrow> native_adapter" where
  "queue_flush sock na =
    (if na_closed na then queue_clear na
     else let na1 = flush_loop sock (na\<lparr>writeBlocked := False\<rparr>) in
       if queuedWriteHead na1 = length (queuedWrites na1) then
         na1\<lparr>queuedWrites := [], queuedWriteHead := 0, queuedWriteTombstones := 0\<rparr>
       else if queuedWriteHead na1 \<ge> 1024 \<and> queuedWriteHead na1 * 2 \<ge> length (queuedWrites na1) then
         na1\<lparr>queuedWrites := drop (queuedWriteHead na1) (queuedWrites na1), queuedWriteHead := 0\<rparr>
       else na1)"

definition rejectQueued :: "sdk_error \<Rightarrow> native_adapter \<Rightarrow> native_adapter" where
  "rejectQueued e na =
    fold (\<lambda>rid na. queue_cancel rid (take_and_answer rid (Failed e) na)) (map fst (queuedWritesByRequest na)) na"

section \<open>The life of a request\<close>

text \<open>Sending, once the credit of a data command is acquired: the frame is the result of the encoder.\<close>

definition sendAcquiredRequest ::
  "(nat \<Rightarrow> socket_answer) \<Rightarrow> pending_request \<Rightarrow> thrown + bytes \<Rightarrow> native_adapter \<Rightarrow> (thrown + int) \<times> native_adapter" where
  "sendAcquiredRequest sock p encoded na =
    (if \<not> pr_credit p \<and> pendingControlRequests na \<ge> maxPendingControlRequests na then
       (Inl (Sdk (overloaded_error (ascii ''FerricStore client control request limit is full'')
          (raw_options JUndef JUndef) (Some (ascii ''client_control_requests_full'')))), na)
     else let (rid, na1) = nextRequestId na in
       case encoded of
         Inl e \<Rightarrow> (Inl e, answer_request rid (NotEncoded e)
           (if pr_credit p then na1\<lparr>na_released := na_released na1 @ [pr_lane p]\<rparr> else na1))
       | Inr frame \<Rightarrow>
           let na2 = (if pr_credit p then na1 else na1\<lparr>pendingControlRequests := pendingControlRequests na1 + 1\<rparr>);
               na3 = na2\<lparr>na_pending := AList.update rid p (na_pending na2)\<rparr>
           in (Inr rid, queue_write sock rid frame na3))"

text \<open>The error callback of \<open>socket.write\<close>.\<close>

definition write_failed :: "int \<Rightarrow> jsval \<Rightarrow> native_adapter \<Rightarrow> native_adapter" where
  "write_failed rid e na = take_and_answer rid (Failed (possiblySentConnectionClosedError e None)) na"

definition timeoutPending :: "int \<Rightarrow> int \<Rightarrow> native_adapter \<Rightarrow> native_adapter" where
  "timeoutPending rid ms na =
    (case map_of (na_pending na) rid of
       None \<Rightarrow> na
     | Some p \<Rightarrow>
         if \<not> pr_credit p \<or> queue_has na rid then
           take_and_answer rid (Failed (request_timeout_error ms
             (if queue_has na rid then Unsent else PossiblySent) JUndef JUndef)) na
         else answer_request rid (Failed (request_timeout_error ms PossiblySent JUndef JUndef))
           (na\<lparr>na_pending := AList.update rid (p\<lparr>pr_timed_out := True\<rparr>) (na_pending na)\<rparr>))"

text \<open>The last frame of a response: a request that timed out is only forgotten.\<close>

definition handle_response :: "int \<Rightarrow> thrown + jsval \<Rightarrow> native_adapter \<Rightarrow> native_adapter" where
  "handle_response rid result na =
    (case map_of (na_pending na) rid of
       None \<Rightarrow> na
     | Some p \<Rightarrow> if pr_timed_out p then snd (takePending rid na) else take_and_answer rid (Response result) na)"

text \<open>The end of the connection. The error of a request tells whether its frame was still queued.\<close>

definition failAll :: "jsval \<Rightarrow> jsstr option \<Rightarrow> native_adapter \<Rightarrow> native_adapter" where
  "failAll cause msg na =
    (if na_closed na then na
     else queue_clear (na\<lparr>na_closed := True,
       na_released := na_released na @ map (pr_lane \<circ> snd) (filter (pr_credit \<circ> snd) (na_pending na)),
       na_answers := na_answers na @ map (\<lambda>(rid, p). (rid, Failed
         (if queue_has na rid then unsentConnectionClosedError cause
          else possiblySentConnectionClosedError cause msg))) (na_pending na),
       na_pending := [], pendingControlRequests := 0\<rparr>))"

definition beginDraining :: "native_adapter \<Rightarrow> native_adapter" where
  "beginDraining na =
    (let na1 = rejectQueued (unsentConnectionClosedError JUndef) (na\<lparr>na_draining := True\<rparr>);
         indefinite = map fst (filter (pr_indefinite \<circ> snd) (na_pending na1));
         reject_one = (\<lambda>rid na. take_and_answer rid (Failed
           (if queue_has na rid then unsentConnectionClosedError JUndef
            else possiblySentConnectionClosedError JUndef None)) na)
     in finishDrainIfIdle (fold reject_one indefinite na1))"

section \<open>The write queue is a queue\<close>

text \<open>The queued writes still to be written, and what ties them to the map and the counters.\<close>

definition live_of :: "queued_write list \<Rightarrow> nat list \<Rightarrow> nat list" where
  "live_of heap slots = filter (live_slot heap) slots"

definition slot_view :: "queued_write list \<Rightarrow> nat \<Rightarrow> int \<times> bytes" where
  "slot_view heap a = (qw_request (heap ! a), the (qw_frame (heap ! a)))"

definition wq_core :: "queued_write list \<Rightarrow> nat list \<Rightarrow> (int \<times> nat) list \<Rightarrow> int \<Rightarrow> bool" where
  "wq_core heap slots by_request byte_count \<longleftrightarrow>
    (\<forall>a \<in> set slots. a < length heap) \<and> distinct slots \<and> distinct (map fst by_request) \<and>
    (\<forall>rid a. (rid, a) \<in> set by_request \<longleftrightarrow> a \<in> set (live_of heap slots) \<and> qw_request (heap ! a) = rid) \<and>
    (\<forall>a \<in> set (live_of heap slots). qw_bytes (heap ! a) = int (length (the (qw_frame (heap ! a))))) \<and>
    byte_count = sum_list (map (\<lambda>a. qw_bytes (heap ! a)) (live_of heap slots))"

definition slots_of :: "native_adapter \<Rightarrow> nat list" where
  "slots_of na = drop (queuedWriteHead na) (queuedWrites na)"

definition queue_view :: "native_adapter \<Rightarrow> (int \<times> bytes) list" where
  "queue_view na = map (slot_view (qw_heap na)) (live_of (qw_heap na) (slots_of na))"

definition queue_ok :: "native_adapter \<Rightarrow> bool" where
  "queue_ok na \<longleftrightarrow> wq_core (qw_heap na) (slots_of na) (queuedWritesByRequest na) (queuedWriteBytes na) \<and>
    queuedWriteHead na \<le> length (queuedWrites na) \<and>
    queuedWriteTombstones na + int (length (live_of (qw_heap na) (slots_of na))) = int (length (slots_of na))"

lemma wq_core_slots:
  assumes "wq_core heap slots by_request n" "set slots' \<subseteq> set slots" "distinct slots'" "live_of heap slots' = live_of heap slots"
  shows "wq_core heap slots' by_request n"
  using assms unfolding wq_core_def by auto

lemma live_of_idem [simp]: "live_of heap (live_of heap slots) = live_of heap slots"
  by (simp add: live_of_def)

lemma live_of_Cons: "live_of heap (a # slots) = (if live_slot heap a then a # live_of heap slots else live_of heap slots)"
  by (simp add: live_of_def)

lemma live_of_Nil [simp]: "live_of heap [] = []"
  by (simp add: live_of_def)

lemma live_of_length: "length (live_of heap slots) \<le> length slots"
  by (simp add: live_of_def)

lemma core_requests:
  assumes "wq_core heap slots by_request n" "a \<in> set (live_of heap slots)" "b \<in> set (live_of heap slots)"
    "qw_request (heap ! a) = qw_request (heap ! b)"
  shows "a = b"
proof -
  have "(qw_request (heap ! a), a) \<in> set by_request" "(qw_request (heap ! a), b) \<in> set by_request"
    using assms by (auto simp: wq_core_def)
  then show ?thesis using assms(1) by (metis eq_key_imp_eq_value wq_core_def)
qed

lemma live_of_empty:
  assumes "a < length heap" "\<forall>b \<in> set slots. b < length heap"
  shows "live_of (heap[a := (heap ! a)\<lparr>qw_frame := None\<rparr>]) slots = filter (\<lambda>b. b \<noteq> a) (live_of heap slots)"
  using assms(2)
proof (induction slots)
  case (Cons b slots)
  with assms(1) show ?case by (cases "b = a") (simp_all add: live_of_Cons live_slot_def live_of_def)
qed (simp add: live_of_def)

lemma sum_list_filter_out:
  "distinct xs \<Longrightarrow> a \<in> set xs \<Longrightarrow> sum_list (map f (filter (\<lambda>b. b \<noteq> a) xs)) = sum_list (map f xs) - (f a :: int)"
proof (induction xs)
  case (Cons x xs)
  have "filter (\<lambda>b. b \<noteq> a) xs = xs" if "a \<notin> set xs" using that by (induction xs) auto
  with Cons show ?case by auto
qed simp

lemma core_empty:
  fixes heap :: "queued_write list"
  assumes core: "wq_core heap slots by_request n" and a: "a \<in> set (live_of heap slots)"
    and slots': "slots' = slots \<or> slots = a # slots'"
  defines "heap' \<equiv> heap[a := (heap ! a)\<lparr>qw_frame := None\<rparr>]"
  shows "wq_core heap' slots' (AList.delete (qw_request (heap ! a)) by_request) (max 0 (n - qw_bytes (heap ! a))) \<and>
    live_of heap' slots' = filter (\<lambda>b. b \<noteq> a) (live_of heap slots)"
proof -
  have bound: "\<forall>b \<in> set slots. b < length heap" and dist: "distinct slots"
    and by_dist: "distinct (map fst by_request)"
    and entry: "(rid, b) \<in> set by_request \<longleftrightarrow> b \<in> set (live_of heap slots) \<and> qw_request (heap ! b) = rid"
    and sizes: "\<forall>b \<in> set (live_of heap slots). qw_bytes (heap ! b) = int (length (the (qw_frame (heap ! b))))"
    and total: "n = sum_list (map (\<lambda>b. qw_bytes (heap ! b)) (live_of heap slots))" for rid b
    using core unfolding wq_core_def by blast+
  have a': "a < length heap" using a bound by (auto simp: live_of_def)
  have live: "live_of heap' slots' = filter (\<lambda>b. b \<noteq> a) (live_of heap slots)"
  proof -
    have all: "live_of heap' slots = filter (\<lambda>b. b \<noteq> a) (live_of heap slots)"
      unfolding heap'_def by (rule live_of_empty [OF a' bound])
    moreover have "live_of heap' slots' = live_of heap' slots" if "slots = a # slots'"
      using a' that by (simp add: live_of_def live_slot_def heap'_def)
    ultimately show ?thesis using slots' by auto
  qed
  have live_dist: "distinct (live_of heap slots)" using dist by (simp add: live_of_def)
  have same: "heap' ! b = heap ! b" if "b \<noteq> a" for b using that by (simp add: heap'_def)
  have rest: "map (\<lambda>b. qw_bytes (heap' ! b)) (live_of heap' slots') =
      map (\<lambda>b. qw_bytes (heap ! b)) (filter (\<lambda>b. b \<noteq> a) (live_of heap slots))"
    unfolding live using same by simp
  have "0 \<le> sum_list (map (\<lambda>b. qw_bytes (heap ! b)) (filter (\<lambda>b. b \<noteq> a) (live_of heap slots)))"
    using sizes by (intro sum_list_nonneg) auto
  then have count: "max 0 (n - qw_bytes (heap ! a)) = sum_list (map (\<lambda>b. qw_bytes (heap' ! b)) (live_of heap' slots'))"
    unfolding rest total sum_list_filter_out [OF live_dist a] by simp
  have keys: "(rid, b) \<in> set (AList.delete (qw_request (heap ! a)) by_request) \<longleftrightarrow>
      b \<in> set (live_of heap' slots') \<and> qw_request (heap' ! b) = rid" for rid b
  proof -
    have "(rid, b) \<in> set (AList.delete (qw_request (heap ! a)) by_request) \<longleftrightarrow>
        b \<in> set (live_of heap slots) \<and> qw_request (heap ! b) = rid \<and> rid \<noteq> qw_request (heap ! a)"
      by (auto simp: AList.delete_eq entry)
    also have "\<dots> \<longleftrightarrow> b \<in> set (live_of heap slots) \<and> qw_request (heap ! b) = rid \<and> b \<noteq> a"
      using core_requests [OF core _ a] by auto
    also have "\<dots> \<longleftrightarrow> b \<in> set (live_of heap' slots') \<and> qw_request (heap' ! b) = rid"
      unfolding live using same by auto
    finally show ?thesis .
  qed
  have sub: "set slots' \<subseteq> set slots" "distinct slots'" using slots' dist by auto
  have "wq_core heap' slots' (AList.delete (qw_request (heap ! a)) by_request) (max 0 (n - qw_bytes (heap ! a)))"
    unfolding wq_core_def
  proof (intro conjI allI)
    show "\<forall>b \<in> set slots'. b < length heap'" using sub bound by (auto simp: heap'_def)
    show "distinct (map fst (AList.delete (qw_request (heap ! a)) by_request))" by (rule distinct_delete [OF by_dist])
    show "\<forall>b \<in> set (live_of heap' slots'). qw_bytes (heap' ! b) = int (length (the (qw_frame (heap' ! b))))"
      using sizes same unfolding live by simp
  qed (use sub(2) keys count in \<open>simp_all only:\<close>)
  with live show ?thesis by blast
qed

lemma queue_okD:
  assumes "queue_ok na"
  shows "wq_core (qw_heap na) (slots_of na) (queuedWritesByRequest na) (queuedWriteBytes na)"
    and "queuedWriteHead na \<le> length (queuedWrites na)"
    and "queuedWriteTombstones na + int (length (live_of (qw_heap na) (slots_of na))) = int (length (slots_of na))"
  using assms by (simp_all add: queue_ok_def)

lemma view_filter:
  assumes "wq_core heap slots by_request n" "a \<in> set (live_of heap slots)"
  shows "map (slot_view (heap[a := b])) (filter (\<lambda>b. b \<noteq> a) (live_of heap slots)) =
    filter (\<lambda>(r, _). r \<noteq> qw_request (heap ! a)) (map (slot_view heap) (live_of heap slots))"
proof -
  have "filter (\<lambda>(r, _). r \<noteq> qw_request (heap ! a)) (map (slot_view heap) xs) =
      map (slot_view (heap[a := b])) (filter (\<lambda>b. b \<noteq> a) xs)" if "set xs \<subseteq> set (live_of heap slots)" for xs
    using that core_requests [OF assms(1) _ assms(2)]
    by (induction xs) (auto simp: slot_view_def)
  from this [of "live_of heap slots"] show ?thesis by simp
qed

lemma compact_queue:
  assumes "queue_ok na"
  shows "queue_ok (compactTombstones na)" "queue_view (compactTombstones na) = queue_view na"
proof -
  let ?na = "compactTombstones na"
  note ok = queue_okD [OF assms]
  have "queue_ok ?na \<and> queue_view ?na = queue_view na"
  proof (cases "queuedWritesByRequest na = []")
    case True
    have "(qw_request (qw_heap na ! a), a) \<in> set (queuedWritesByRequest na)" if "a \<in> set (live_of (qw_heap na) (slots_of na))" for a
      using ok(1) that by (simp add: wq_core_def)
    then have "set (live_of (qw_heap na) (slots_of na)) = {}" using True by (metis all_not_in_conv empty_iff empty_set)
    then have none: "live_of (qw_heap na) (slots_of na) = []" by simp
    have "wq_core (qw_heap na) [] (queuedWritesByRequest na) (queuedWriteBytes na)"
      by (rule wq_core_slots [OF ok(1)]) (simp_all add: none live_of_def [of _ "[]"])
    then show ?thesis
      using True none by (simp add: queue_ok_def queue_view_def compactTombstones_def slots_of_def live_of_def [of _ "[]"])
  next
    case False
    let ?live = "live_of (qw_heap na) (slots_of na)"
    have "?na = na \<or> ?na = na\<lparr>queuedWrites := ?live, queuedWriteHead := 0, queuedWriteTombstones := 0\<rparr>"
      using False by (simp add: compactTombstones_def Let_def live_of_def slots_of_def)
    moreover have "wq_core (qw_heap na) ?live (queuedWritesByRequest na) (queuedWriteBytes na)"
    proof (rule wq_core_slots [OF ok(1)])
      show "set ?live \<subseteq> set (slots_of na)" by (auto simp: live_of_def)
      show "distinct ?live" using ok(1) by (simp add: wq_core_def live_of_def)
    qed simp
    then have "queue_ok (na\<lparr>queuedWrites := ?live, queuedWriteHead := 0, queuedWriteTombstones := 0\<rparr>)"
      by (simp add: queue_ok_def slots_of_def)
    ultimately show ?thesis using assms by (auto simp: queue_view_def slots_of_def)
  qed
  then show "queue_ok ?na" "queue_view ?na = queue_view na" by simp_all
qed

lemma queue_has_iff: "queue_ok na \<Longrightarrow> queue_has na rid \<longleftrightarrow> rid \<in> fst ` set (queue_view na)"
proof -
  assume "queue_ok na"
  note core = queue_okD(1) [OF this]
  have "queue_has na rid \<longleftrightarrow> (\<exists>a. (rid, a) \<in> set (queuedWritesByRequest na))"
    by (force simp: queue_has_def map_of_eq_None_iff)
  also have "\<dots> \<longleftrightarrow> rid \<in> fst ` set (queue_view na)"
    using core by (force simp: wq_core_def queue_view_def slot_view_def)
  finally show "queue_has na rid \<longleftrightarrow> rid \<in> fst ` set (queue_view na)" .
qed

lemma cancel_queue:
  assumes "queue_ok na"
  shows "queue_ok (queue_cancel rid na) \<and>
    queue_view (queue_cancel rid na) = filter (\<lambda>(r, _). r \<noteq> rid) (queue_view na)"
proof (cases "map_of (queuedWritesByRequest na) rid")
  case None
  then have "\<not> queue_has na rid" by (simp add: queue_has_def)
  then have "rid \<notin> fst ` set (queue_view na)" using queue_has_iff [OF assms] by blast
  then have "filter (\<lambda>(r, _). r \<noteq> rid) (queue_view na) = queue_view na"
    by (intro filter_True) (auto simp: image_iff)
  with None assms show ?thesis by (simp add: queue_cancel_def)
next
  case (Some a)
  note ok = queue_okD [OF assms]
  from Some have "(rid, a) \<in> set (queuedWritesByRequest na)" by (rule map_of_SomeD)
  with ok(1) have a: "a \<in> set (live_of (qw_heap na) (slots_of na))" "qw_request (qw_heap na ! a) = rid"
    unfolding wq_core_def by blast+
  then have frame: "qw_frame (qw_heap na ! a) \<noteq> None" by (simp add: live_of_def live_slot_def)
  let ?na = "(empty_slot a na)\<lparr>queuedWriteTombstones := queuedWriteTombstones na + 1\<rparr>"
  have slots: "slots_of ?na = slots_of na" by (simp add: slots_of_def empty_slot_def)
  note one = core_empty [OF ok(1) a(1), of "slots_of na", simplified]
  have "length (filter (\<lambda>b. b \<noteq> a) xs) + 1 = length xs" if "distinct xs" "a \<in> set xs" for xs
    using that by (induction xs) (auto simp: filter_id_conv intro!: arg_cong [where f = length] filter_True)
  from this [OF _ a(1)] have len: "length (live_of (qw_heap na) (slots_of na)) =
      length (filter (\<lambda>b. b \<noteq> a) (live_of (qw_heap na) (slots_of na))) + 1"
    using ok(1) by (simp add: wq_core_def live_of_def)
  have "queue_ok ?na"
    unfolding queue_ok_def slots using one ok(2,3) len by (simp add: empty_slot_def)
  moreover have "queue_view ?na = filter (\<lambda>(r, _). r \<noteq> rid) (queue_view na)"
    unfolding queue_view_def slots using one view_filter [OF ok(1) a(1)] a(2) by (simp add: empty_slot_def)
  moreover have "queue_cancel rid na = compactTombstones ?na"
    using Some frame by (simp only: queue_cancel_def option.case if_False)
  ultimately show ?thesis using compact_queue [of ?na] by simp
qed

lemma write_queued_queue:
  assumes "queue_ok na" "\<not> queue_has na rid"
  shows "queue_ok (write_frame_queued rid frame na) \<and>
    queue_view (write_frame_queued rid frame na) = queue_view na @ [(rid, frame)]"
proof -
  let ?na = "write_frame_queued rid frame na" and ?a = "length (qw_heap na)"
  let ?q = "\<lparr>qw_bytes = int (length frame), qw_frame = Some frame, qw_request = rid\<rparr>"
  note ok = queue_okD [OF assms(1)]
  have heap: "qw_heap ?na = qw_heap na @ [?q]" by (simp add: write_frame_queued_def)
  have slots: "slots_of ?na = slots_of na @ [?a]"
    using ok(2) by (simp add: slots_of_def write_frame_queued_def)
  have bound: "b < ?a" if "b \<in> set (slots_of na)" for b using ok(1) that by (simp add: wq_core_def)
  have live: "live_of (qw_heap ?na) (slots_of ?na) = live_of (qw_heap na) (slots_of na) @ [?a]"
  proof -
    have "live_of (qw_heap ?na) xs = live_of (qw_heap na) xs" if "\<forall>b \<in> set xs. b < ?a" for xs
      using that by (induction xs) (simp_all add: live_of_def live_slot_def heap nth_append)
    then show ?thesis using bound unfolding slots by (simp add: live_of_def live_slot_def heap)
  qed
  have old: "qw_heap ?na ! b = qw_heap na ! b" if "b \<in> set (live_of (qw_heap na) (slots_of na))" for b
    using bound that by (simp add: heap nth_append live_of_def)
  have "map_of (queuedWritesByRequest na) rid = None" using assms(2) by (simp add: queue_has_def)
  then have by_request: "queuedWritesByRequest ?na = queuedWritesByRequest na @ [(rid, ?a)]"
    by (simp add: write_frame_queued_def alist_update_new)
  have entry: "(r, b) \<in> set (queuedWritesByRequest na) \<longleftrightarrow>
      b \<in> set (live_of (qw_heap na) (slots_of na)) \<and> qw_request (qw_heap na ! b) = r" for r b
    using ok(1) by (simp only: wq_core_def)
  have "wq_core (qw_heap ?na) (slots_of ?na) (queuedWritesByRequest ?na) (queuedWriteBytes ?na)"
    unfolding wq_core_def live
  proof (intro conjI allI)
    show "\<forall>b \<in> set (slots_of ?na). b < length (qw_heap ?na)" using bound by (auto simp: slots heap less_Suc_eq)
    show "distinct (slots_of ?na)" using ok(1) bound by (auto simp: slots wq_core_def)
    show "distinct (map fst (queuedWritesByRequest ?na))"
      using ok(1) \<open>map_of (queuedWritesByRequest na) rid = None\<close> by (simp add: by_request wq_core_def map_of_eq_None_iff)
    show "\<forall>b \<in> set (live_of (qw_heap na) (slots_of na) @ [?a]).
        qw_bytes (qw_heap ?na ! b) = int (length (the (qw_frame (qw_heap ?na ! b))))"
      using ok(1) old by (simp add: wq_core_def heap)
    show "queuedWriteBytes ?na = sum_list (map (\<lambda>b. qw_bytes (qw_heap ?na ! b)) (live_of (qw_heap na) (slots_of na) @ [?a]))"
    proof -
      have "map (\<lambda>b. qw_bytes (qw_heap ?na ! b)) (live_of (qw_heap na) (slots_of na)) =
          map (\<lambda>b. qw_bytes (qw_heap na ! b)) (live_of (qw_heap na) (slots_of na))"
        using old by simp
      moreover have "queuedWriteBytes na = sum_list (map (\<lambda>b. qw_bytes (qw_heap na ! b)) (live_of (qw_heap na) (slots_of na)))"
        using ok(1) by (simp only: wq_core_def)
      moreover have "queuedWriteBytes ?na = queuedWriteBytes na + int (length frame)" "qw_bytes (qw_heap ?na ! ?a) = int (length frame)"
        by (simp_all add: write_frame_queued_def)
      ultimately show ?thesis by (simp only: map_append sum_list_append list.map sum_list.Cons sum_list.Nil add_0_right)
    qed
    show "(r, b) \<in> set (queuedWritesByRequest ?na) \<longleftrightarrow>
        b \<in> set (live_of (qw_heap na) (slots_of na) @ [?a]) \<and> qw_request (qw_heap ?na ! b) = r" for r b
    proof (cases "b \<in> set (live_of (qw_heap na) (slots_of na))")
      case True
      then have "b \<noteq> ?a" using bound by (auto simp: live_of_def)
      with True show ?thesis by (simp add: by_request entry old)
    next
      case False
      then have "(r, b) \<notin> set (queuedWritesByRequest na)" by (simp add: entry)
      with False show ?thesis by (auto simp: by_request heap)
    qed
  qed
  moreover have "queuedWriteTombstones ?na = queuedWriteTombstones na" "queuedWriteHead ?na = queuedWriteHead na"
    "length (queuedWrites ?na) = Suc (length (queuedWrites na))"
    by (simp_all add: write_frame_queued_def)
  ultimately have "queue_ok ?na" using ok(2,3) unfolding queue_ok_def live by (simp add: slots)
  moreover have "queue_view ?na = queue_view na @ [(rid, frame)]"
    unfolding queue_view_def live using old by (simp add: slot_view_def) (simp add: heap)
  ultimately show ?thesis by blast
qed

section \<open>The connection, abstractly\<close>

text \<open>
  The specification: what was written and what is queued are two lists, and each operation acts on them
  and on the table of requests directly. \<open>view_of\<close> maps a state of the code to it.
\<close>

record conn =
  c_written :: "(int \<times> bytes) list"
  c_queued :: "(int \<times> bytes) list"
  c_pending :: "(int \<times> pending_request) list"
  c_answers :: "(int \<times> answer) list"
  c_last :: int
  c_control :: int
  c_released :: "int list"

definition taken :: "socket_answer \<Rightarrow> bool" where
  "taken s \<longleftrightarrow> s = Accepted \<or> s = Full"

definition written_of :: "(int \<times> bytes \<times> socket_answer) list \<Rightarrow> (int \<times> bytes) list" where
  "written_of attempts = map (\<lambda>(rid, frame, _). (rid, frame)) (filter (\<lambda>(_, _, s). taken s) attempts)"

definition written :: "native_adapter \<Rightarrow> (int \<times> bytes) list" where
  "written na = written_of (na_attempts na)"

definition view_of :: "native_adapter \<Rightarrow> conn" where
  "view_of na = \<lparr>c_written = written na, c_queued = queue_view na, c_pending = na_pending na,
    c_answers = na_answers na, c_last = na_request_id na, c_control = pendingControlRequests na,
    c_released = na_released na\<rparr>"

definition spec_take :: "int \<Rightarrow> conn \<Rightarrow> conn" where
  "spec_take rid c =
    (case map_of (c_pending c) rid of
       None \<Rightarrow> c
     | Some p \<Rightarrow> c\<lparr>c_queued := filter (\<lambda>(r, _). r \<noteq> rid) (c_queued c),
         c_pending := AList.delete rid (c_pending c),
         c_control := (if pr_credit p then c_control c else max 0 (c_control c - 1)),
         c_released := c_released c @ (if pr_credit p then [pr_lane p] else [])\<rparr>)"

definition spec_answer :: "int \<Rightarrow> answer \<Rightarrow> conn \<Rightarrow> conn" where
  "spec_answer rid a c = c\<lparr>c_answers := c_answers c @ [(rid, a)]\<rparr>"

definition spec_reject :: "int \<Rightarrow> answer \<Rightarrow> conn \<Rightarrow> conn" where
  "spec_reject rid a c = (if map_of (c_pending c) rid = None then c else spec_answer rid a (spec_take rid c))"

text \<open>The fields the operations of the queue leave alone.\<close>

lemma cancel_fields [simp]:
  "na_pending (queue_cancel rid na) = na_pending na" "na_answers (queue_cancel rid na) = na_answers na"
  "na_request_id (queue_cancel rid na) = na_request_id na" "na_attempts (queue_cancel rid na) = na_attempts na"
  "pendingControlRequests (queue_cancel rid na) = pendingControlRequests na"
  "na_released (queue_cancel rid na) = na_released na" "writeBlocked (queue_cancel rid na) = writeBlocked na"
  "na_closed (queue_cancel rid na) = na_closed na" "na_draining (queue_cancel rid na) = na_draining na"
  by (simp_all add: queue_cancel_def compactTombstones_def empty_slot_def Let_def split: option.split)

definition queue_fields :: "native_adapter \<Rightarrow> queued_write list \<times> nat list \<times> (int \<times> nat) list \<times> int \<times> nat \<times> int" where
  "queue_fields na = (qw_heap na, queuedWrites na, queuedWritesByRequest na, queuedWriteBytes na,
    queuedWriteHead na, queuedWriteTombstones na)"

lemma queue_fields_cong:
  "queue_fields na = queue_fields na' \<Longrightarrow> queue_ok na = queue_ok na' \<and> queue_view na = queue_view na' \<and>
    queue_has na = queue_has na'"
  by (simp add: queue_fields_def queue_ok_def queue_view_def slots_of_def queue_has_def fun_eq_iff)

lemma queue_fields_updates [simp]:
  "queue_fields (na\<lparr>na_pending := x1\<rparr>) = queue_fields na" "queue_fields (na\<lparr>na_answers := x2\<rparr>) = queue_fields na"
  "queue_fields (na\<lparr>na_released := x3\<rparr>) = queue_fields na" "queue_fields (na\<lparr>pendingControlRequests := x4\<rparr>) = queue_fields na"
  "queue_fields (na\<lparr>na_attempts := x5\<rparr>) = queue_fields na" "queue_fields (na\<lparr>writeBlocked := b1\<rparr>) = queue_fields na"
  "queue_fields (na\<lparr>na_closed := b2\<rparr>) = queue_fields na" "queue_fields (na\<lparr>na_draining := b3\<rparr>) = queue_fields na"
  "queue_fields (na\<lparr>na_request_id := x6\<rparr>) = queue_fields na"
  by (simp_all add: queue_fields_def)

lemmas queue_same = queue_fields_cong [THEN conjunct1] queue_fields_cong [THEN conjunct2, THEN conjunct1]

lemma take_pending_view:
  assumes "queue_ok na"
  shows "queue_ok (snd (takePending rid na)) \<and> view_of (snd (takePending rid na)) = spec_take rid (view_of na) \<and>
    fst (takePending rid na) = map_of (na_pending na) rid \<and>
    writeBlocked (snd (takePending rid na)) = writeBlocked na"
proof (cases "map_of (na_pending na) rid")
  case None
  with assms show ?thesis by (simp add: takePending_def spec_take_def view_of_def)
next
  case (Some p)
  let ?na0 = "na\<lparr>na_pending := AList.delete rid (na_pending na)\<rparr>"
  let ?na1 = "queue_cancel rid ?na0"
  define na2 where "na2 = (if pr_credit p then ?na1\<lparr>na_released := na_released ?na1 @ [pr_lane p]\<rparr>
    else ?na1\<lparr>pendingControlRequests := max 0 (pendingControlRequests ?na1 - 1)\<rparr>)"
  have "queue_ok ?na0" "queue_view ?na0 = queue_view na"
    using assms queue_same [of ?na0 na] by simp_all
  with cancel_queue [of ?na0 rid] have one: "queue_ok ?na1" "queue_view ?na1 = filter (\<lambda>(r, _). r \<noteq> rid) (queue_view na)"
    by simp_all
  have take: "takePending rid na = (Some p, finishDrainIfIdle na2)"
    using Some by (simp add: takePending_def na2_def Let_def)
  have "queue_fields (finishDrainIfIdle na2) = queue_fields ?na1" by (simp add: finishDrainIfIdle_def na2_def)
  note queue_same [OF this]
  moreover have "na_pending (finishDrainIfIdle na2) = AList.delete rid (na_pending na)"
    "na_answers (finishDrainIfIdle na2) = na_answers na" "na_request_id (finishDrainIfIdle na2) = na_request_id na"
    "written (finishDrainIfIdle na2) = written na" "writeBlocked (finishDrainIfIdle na2) = writeBlocked na"
    "pendingControlRequests (finishDrainIfIdle na2) =
      (if pr_credit p then pendingControlRequests na else max 0 (pendingControlRequests na - 1))"
    "na_released (finishDrainIfIdle na2) = na_released na @ (if pr_credit p then [pr_lane p] else [])"
    by (simp_all add: finishDrainIfIdle_def na2_def written_def)
  ultimately show ?thesis
    unfolding take using one Some by (simp add: view_of_def spec_take_def)
qed

lemma take_and_answer_view:
  assumes "queue_ok na"
  shows "queue_ok (take_and_answer rid a na) \<and> view_of (take_and_answer rid a na) = spec_reject rid a (view_of na) \<and>
    writeBlocked (take_and_answer rid a na) = writeBlocked na"
proof -
  note one = take_pending_view [OF assms, of rid]
  have "queue_ok (answer_request rid a na') = queue_ok na'" "view_of (answer_request rid a na') = spec_answer rid a (view_of na')"
    "writeBlocked (answer_request rid a na') = writeBlocked na'" for na'
    using queue_same [of "answer_request rid a na'" na']
    by (simp_all add: answer_request_def view_of_def spec_answer_def written_def)
  moreover have "na_pending na = c_pending (view_of na)" by (simp add: view_of_def)
  ultimately show ?thesis
    using one by (cases "takePending rid na") (auto simp: take_and_answer_def spec_reject_def spec_take_def split: option.split)
qed

section \<open>Invariant of the connection\<close>

text \<open>An error that says unsent, or that the queue was full, is told of a request whose frame never reached
  the socket and never will; one that says possibly sent, of a request whose frame did.\<close>

definition truthful :: "int set \<Rightarrow> int set \<Rightarrow> int \<Rightarrow> answer \<Rightarrow> bool" where
  "truthful sent pending rid a =
    (case a of
       Response _ \<Rightarrow> True
     | NotEncoded _ \<Rightarrow> rid \<notin> sent \<and> rid \<notin> pending
     | Failed e \<Rightarrow>
         (err_disposition e = Some Unsent \<or> err_class e = OverloadedError \<longrightarrow> rid \<notin> sent \<and> rid \<notin> pending) \<and>
         (err_disposition e = Some PossiblySent \<longrightarrow> rid \<in> sent))"

type_synonym send_log = "(pending_request \<times> (thrown + bytes) \<times> (thrown + int)) list"

abbreviation credit_lanes :: "(int \<times> pending_request) list \<Rightarrow> int multiset" where
  "credit_lanes ps \<equiv> image_mset (\<lambda>x. pr_lane (snd x)) (filter_mset (\<lambda>x. pr_credit (snd x)) (mset ps))"

abbreviation control_count :: "(int \<times> pending_request) list \<Rightarrow> int" where
  "control_count ps \<equiv> int (size (filter_mset (\<lambda>x. \<not> pr_credit (snd x)) (mset ps)))"

definition acquired_lanes :: "send_log \<Rightarrow> int multiset" where
  "acquired_lanes sends = image_mset (\<lambda>x. pr_lane (fst x)) (filter_mset (\<lambda>x. pr_credit (fst x)) (mset sends))"

definition conn_inv :: "send_log \<Rightarrow> conn \<Rightarrow> bool" where
  "conn_inv sends c \<longleftrightarrow>
    distinct (map fst (c_pending c)) \<and>
    fst ` set (c_queued c) \<subseteq> keys_of (c_pending c) \<and>
    keys_of (c_pending c) \<subseteq> fst ` set (c_queued c) \<union> fst ` set (c_written c) \<and>
    sorted_wrt (<) (map fst (c_written c @ c_queued c)) \<and>
    (\<forall>rid \<in> keys_of (c_pending c) \<union> fst ` set (c_answers c) \<union> fst ` set (c_written c @ c_queued c). 1 \<le> rid \<and> rid \<le> c_last c) \<and>
    (\<forall>x \<in> set (c_answers c). truthful (fst ` set (c_written c)) (keys_of (c_pending c)) (fst x) (snd x)) \<and>
    (\<forall>rid. 1 \<le> rid \<and> rid \<le> c_last c \<longrightarrow> rid \<in> keys_of (c_pending c) \<or> rid \<in> fst ` set (c_answers c)) \<and>
    (\<forall>x \<in> set (c_pending c). pr_timed_out (snd x) \<longrightarrow> fst x \<in> fst ` set (c_answers c)) \<and>
    c_control c = control_count (c_pending c) \<and>
    mset (c_released c) + credit_lanes (c_pending c) = acquired_lanes sends \<and>
    (\<forall>x \<in> set (c_written c @ c_queued c). \<exists>p. (p, Inr (snd x), Inr (fst x)) \<in> set sends) \<and>
    0 \<le> c_last c"

lemma conn_invD:
  assumes "conn_inv sends c"
  shows "distinct (map fst (c_pending c))" "fst ` set (c_queued c) \<subseteq> keys_of (c_pending c)"
    "keys_of (c_pending c) \<subseteq> fst ` set (c_queued c) \<union> fst ` set (c_written c)"
    "sorted_wrt (<) (map fst (c_written c @ c_queued c))"
    "\<forall>rid \<in> keys_of (c_pending c) \<union> fst ` set (c_answers c) \<union> fst ` set (c_written c @ c_queued c). 1 \<le> rid \<and> rid \<le> c_last c"
    "\<forall>x \<in> set (c_answers c). truthful (fst ` set (c_written c)) (keys_of (c_pending c)) (fst x) (snd x)"
    "\<forall>rid. 1 \<le> rid \<and> rid \<le> c_last c \<longrightarrow> rid \<in> keys_of (c_pending c) \<or> rid \<in> fst ` set (c_answers c)"
    "\<forall>x \<in> set (c_pending c). pr_timed_out (snd x) \<longrightarrow> fst x \<in> fst ` set (c_answers c)"
    "c_control c = control_count (c_pending c)"
    "mset (c_released c) + credit_lanes (c_pending c) = acquired_lanes sends"
    "\<forall>x \<in> set (c_written c @ c_queued c). \<exists>p. (p, Inr (snd x), Inr (fst x)) \<in> set sends" "0 \<le> c_last c"
  using assms unfolding conn_inv_def by blast+

lemma mset_delete:
  "distinct (map fst al) \<Longrightarrow> map_of al k = Some v \<Longrightarrow> mset al = add_mset (k, v) (mset (AList.delete k al))"
proof (induction al)
  case (Cons x al)
  show ?case
  proof (cases "fst x = k")
    case True
    then have "k \<notin> fst ` set al" using Cons.prems by auto
    then have "AList.delete k al = al" by (induction al) auto
    with True Cons.prems show ?thesis by (cases x) auto
  next
    case False
    with Cons show ?thesis by (cases x) auto
  qed
qed simp

lemma mset_update:
  "distinct (map fst al) \<Longrightarrow> map_of al k = Some v \<Longrightarrow>
    mset (AList.update k v' al) = add_mset (k, v') (mset (AList.delete k al))"
proof (induction al)
  case (Cons x al)
  show ?case
  proof (cases "fst x = k")
    case True
    then have "k \<notin> fst ` set al" using Cons.prems by auto
    then have "AList.delete k al = al" by (induction al) auto
    with True show ?thesis by (cases x) auto
  next
    case False
    with Cons show ?thesis by (cases x) auto
  qed
qed simp

lemma truthful_shrink: "truthful sent pending rid a \<Longrightarrow> pending' \<subseteq> pending \<Longrightarrow> truthful sent pending' rid a"
  by (auto simp: truthful_def split: answer.splits)

text \<open>A request leaves the table, answered now or before.\<close>

lemma inv_leave:
  assumes inv: "conn_inv sends c" and p: "map_of (c_pending c) rid = Some p"
    and new: "\<forall>x \<in> set ans. fst x = rid \<and> truthful (fst ` set (c_written c)) (keys_of (c_pending c) - {rid}) rid (snd x)"
    and answered: "rid \<in> fst ` set (c_answers c @ ans)"
  shows "conn_inv sends ((spec_take rid c)\<lparr>c_answers := c_answers c @ ans\<rparr>)"
proof -
  note D = conn_invD [OF inv]
  let ?c = "(spec_take rid c)\<lparr>c_answers := c_answers c @ ans\<rparr>" and ?P = "AList.delete rid (c_pending c)"
    and ?Q = "filter (\<lambda>(r, _). r \<noteq> rid) (c_queued c)"
  have fields: "c_pending ?c = ?P" "c_queued ?c = ?Q" "c_written ?c = c_written c" "c_answers ?c = c_answers c @ ans"
    "c_last ?c = c_last c" "c_control ?c = (if pr_credit p then c_control c else max 0 (c_control c - 1))"
    "c_released ?c = c_released c @ (if pr_credit p then [pr_lane p] else [])"
    using p by (simp_all add: spec_take_def)
  have Q: "fst ` set ?Q = fst ` set (c_queued c) - {rid}" "set ?Q \<subseteq> set (c_queued c)" by force+
  have rid: "rid \<in> keys_of (c_pending c)" using p by (simp add: keys_of_map_of)
  have mset: "mset (c_pending c) = add_mset (rid, p) (mset ?P)" by (rule mset_delete [OF D(1) p])
  show ?thesis
    unfolding conn_inv_def fields
  proof (intro conjI)
    show "distinct (map fst ?P)" by (rule distinct_delete [OF D(1)])
    show "fst ` set ?Q \<subseteq> keys_of ?P" "keys_of ?P \<subseteq> fst ` set ?Q \<union> fst ` set (c_written c)"
      using D(2,3) Q(1) by auto
    have "map fst (filter (\<lambda>(r, _). r \<noteq> rid) q) = filter (\<lambda>r. r \<noteq> rid) (map fst q)" for q :: "(int \<times> bytes) list"
      by (induction q) auto
    moreover have "sorted_wrt (<) (map fst (c_queued c))" "sorted_wrt (<) (map fst (c_written c))"
      "\<forall>x \<in> set (map fst (c_written c)). \<forall>y \<in> set (map fst (c_queued c)). x < y"
      using D(4) unfolding map_append sorted_wrt_append by blast+
    ultimately show "sorted_wrt (<) (map fst (c_written c @ ?Q))"
      by (auto simp: sorted_wrt_append sorted_wrt_filter)
    show "\<forall>r \<in> keys_of ?P \<union> fst ` set (c_answers c @ ans) \<union> fst ` set (c_written c @ ?Q). 1 \<le> r \<and> r \<le> c_last c"
    proof
      fix r assume "r \<in> keys_of ?P \<union> fst ` set (c_answers c @ ans) \<union> fst ` set (c_written c @ ?Q)"
      then have "r \<in> keys_of (c_pending c) \<union> fst ` set (c_answers c) \<union> fst ` set (c_written c @ c_queued c)"
        using new rid Q(2) by auto
      then show "1 \<le> r \<and> r \<le> c_last c" by (rule bspec [OF D(5)])
    qed
    show "\<forall>x \<in> set (c_answers c @ ans). truthful (fst ` set (c_written c)) (keys_of ?P) (fst x) (snd x)"
      using D(6) new by (auto intro: truthful_shrink)
    show "\<forall>r. 1 \<le> r \<and> r \<le> c_last c \<longrightarrow> r \<in> keys_of ?P \<or> r \<in> fst ` set (c_answers c @ ans)"
      using D(7) answered by auto
    show "\<forall>x \<in> set ?P. pr_timed_out (snd x) \<longrightarrow> fst x \<in> fst ` set (c_answers c @ ans)"
      using D(8) by (auto simp: AList.delete_eq image_Un)
    show "(if pr_credit p then c_control c else max 0 (c_control c - 1)) = control_count ?P"
      using D(9) mset by simp
    show "mset (c_released c @ (if pr_credit p then [pr_lane p] else [])) + credit_lanes ?P = acquired_lanes sends"
      using D(10) mset by (cases "pr_credit p") simp_all
    show "\<forall>x \<in> set (c_written c @ ?Q). \<exists>p. (p, Inr (snd x), Inr (fst x)) \<in> set sends" using D(11) Q(2) by auto
  qed (rule D(12))
qed

lemma inv_reject:
  assumes "conn_inv sends c"
    "rid \<in> keys_of (c_pending c) \<Longrightarrow> truthful (fst ` set (c_written c)) (keys_of (c_pending c) - {rid}) rid a"
  shows "conn_inv sends (spec_reject rid a c)"
proof (cases "map_of (c_pending c) rid")
  case None
  with assms(1) show ?thesis by (simp add: spec_reject_def)
next
  case (Some p)
  then have "spec_reject rid a c = (spec_take rid c)\<lparr>c_answers := c_answers c @ [(rid, a)]\<rparr>"
    by (simp add: spec_reject_def spec_answer_def spec_take_def)
  moreover have "rid \<in> keys_of (c_pending c)" using Some by (simp add: keys_of_map_of)
  ultimately show ?thesis using inv_leave [OF assms(1) Some, of "[(rid, a)]"] assms(2) by simp
qed

lemma inv_forget:
  assumes "conn_inv sends c" "rid \<in> fst ` set (c_answers c)"
  shows "conn_inv sends (spec_take rid c)"
proof (cases "map_of (c_pending c) rid")
  case None
  with assms(1) show ?thesis by (simp add: spec_take_def)
next
  case (Some p)
  then have "spec_take rid c = (spec_take rid c)\<lparr>c_answers := c_answers c @ []\<rparr>"
    by (simp add: spec_take_def)
  with inv_leave [OF assms(1) Some, of "[]"] assms(2) show ?thesis by simp
qed

text \<open>A request is admitted: its frame is written or queued. Or it is given up at once.\<close>

definition spec_admit :: "int \<Rightarrow> pending_request \<Rightarrow> conn \<Rightarrow> conn" where
  "spec_admit rid p c = c\<lparr>c_last := rid, c_pending := c_pending c @ [(rid, p)],
    c_control := c_control c + (if pr_credit p then 0 else 1)\<rparr>"

lemma acquired_snoc: "acquired_lanes (sends @ [(p, enc, res)]) = acquired_lanes sends + (if pr_credit p then {#pr_lane p#} else {#})"
  by (simp add: acquired_lanes_def)

lemma inv_fresh:
  assumes "conn_inv sends c"
  shows "c_last c + 1 \<notin> keys_of (c_pending c)" "c_last c + 1 \<notin> fst ` set (c_queued c)"
    "c_last c + 1 \<notin> fst ` set (c_written c)" "c_last c + 1 \<notin> fst ` set (c_answers c)"
proof -
  have "c_last c + 1 \<notin> keys_of (c_pending c) \<union> fst ` set (c_answers c) \<union> fst ` set (c_written c @ c_queued c)"
  proof
    assume "c_last c + 1 \<in> keys_of (c_pending c) \<union> fst ` set (c_answers c) \<union> fst ` set (c_written c @ c_queued c)"
    from bspec [OF conn_invD(5) [OF assms] this] show False by simp
  qed
  then show "c_last c + 1 \<notin> keys_of (c_pending c)" "c_last c + 1 \<notin> fst ` set (c_queued c)"
    "c_last c + 1 \<notin> fst ` set (c_written c)" "c_last c + 1 \<notin> fst ` set (c_answers c)"
    by auto
qed

lemma truthful_grow:
  "truthful sent pending rid a \<Longrightarrow> rid \<noteq> r \<or> r \<in> pending \<Longrightarrow> truthful (insert r sent) pending rid a"
  "truthful sent pending rid a \<Longrightarrow> rid \<noteq> r \<Longrightarrow> truthful sent (insert r pending) rid a"
  by (auto simp: truthful_def split: answer.splits)

lemma inv_admit:
  assumes inv: "conn_inv sends c" and p: "\<not> pr_timed_out p" and rid: "rid = c_last c + 1"
    and place: "w @ q = [(rid, frame)]" "w \<noteq> [] \<Longrightarrow> c_queued c = []"
  shows "conn_inv (sends @ [(p, Inr frame, Inr rid)])
    ((spec_admit rid p c)\<lparr>c_written := c_written c @ w, c_queued := c_queued c @ q\<rparr>)"
proof -
  note D = conn_invD [OF inv]
  let ?c = "(spec_admit rid p c)\<lparr>c_written := c_written c @ w, c_queued := c_queued c @ q\<rparr>"
  let ?P = "c_pending c @ [(rid, p)]"
  have fields: "c_pending ?c = ?P" "c_queued ?c = c_queued c @ q" "c_written ?c = c_written c @ w"
    "c_answers ?c = c_answers c" "c_last ?c = rid" "c_control ?c = c_control c + (if pr_credit p then 0 else 1)"
    "c_released ?c = c_released c"
    by (simp_all add: spec_admit_def)
  note new = inv_fresh [OF inv, folded rid]
  have keys: "keys_of ?P = insert rid (keys_of (c_pending c))" by (auto simp: keys_of_def)
  have wq: "w = [] \<and> q = [(rid, frame)] \<or> w = [(rid, frame)] \<and> q = [] \<and> c_queued c = []"
    using place by (auto simp: append_eq_Cons_conv)
  have all: "(c_written c @ w) @ c_queued c @ q = (c_written c @ c_queued c) @ [(rid, frame)]"
    using wq by auto
  have le: "r \<le> c_last c" if "r \<in> fst ` set (c_written c @ c_queued c)" for r using D(5) that by blast
  show ?thesis
    unfolding conn_inv_def fields
  proof (intro conjI)
    show "distinct (map fst ?P)" using D(1) new(1) by (simp add: keys_of_def)
    show "fst ` set (c_queued c @ q) \<subseteq> keys_of ?P" using D(2) wq by (auto simp: keys)
    show "keys_of ?P \<subseteq> fst ` set (c_queued c @ q) \<union> fst ` set (c_written c @ w)" using D(3) wq by (auto simp: keys)
    show "sorted_wrt (<) (map fst ((c_written c @ w) @ c_queued c @ q))"
    proof -
      have "\<forall>r \<in> set (map fst (c_written c @ c_queued c)). r < rid" using le rid by fastforce
      then show ?thesis unfolding all using D(4) by (simp add: sorted_wrt_append)
    qed
    show "\<forall>r \<in> keys_of ?P \<union> fst ` set (c_answers c) \<union> fst ` set ((c_written c @ w) @ c_queued c @ q). 1 \<le> r \<and> r \<le> rid"
    proof
      fix r assume "r \<in> keys_of ?P \<union> fst ` set (c_answers c) \<union> fst ` set ((c_written c @ w) @ c_queued c @ q)"
      then have "r = rid \<or> r \<in> keys_of (c_pending c) \<union> fst ` set (c_answers c) \<union> fst ` set (c_written c @ c_queued c)"
        unfolding all keys by auto
      then show "1 \<le> r \<and> r \<le> rid" using bspec [OF D(5), of r] D(12) rid by linarith
    qed
    show "\<forall>x \<in> set (c_answers c). truthful (fst ` set (c_written c @ w)) (keys_of ?P) (fst x) (snd x)"
    proof
      fix x assume x: "x \<in> set (c_answers c)"
      then have t: "truthful (fst ` set (c_written c)) (keys_of (c_pending c)) (fst x) (snd x)" and "fst x \<noteq> rid"
        using D(6) new(4) by auto
      from truthful_grow(2) [OF this] have "truthful (fst ` set (c_written c)) (keys_of ?P) (fst x) (snd x)" by (simp add: keys)
      with \<open>fst x \<noteq> rid\<close> wq show "truthful (fst ` set (c_written c @ w)) (keys_of ?P) (fst x) (snd x)"
        by (auto intro: truthful_grow(1))
    qed
    show "\<forall>r. 1 \<le> r \<and> r \<le> rid \<longrightarrow> r \<in> keys_of ?P \<or> r \<in> fst ` set (c_answers c)"
    proof (intro allI impI)
      fix r assume "1 \<le> r \<and> r \<le> rid"
      then have "r = rid \<or> 1 \<le> r \<and> r \<le> c_last c" using rid by auto
      with D(7) show "r \<in> keys_of ?P \<or> r \<in> fst ` set (c_answers c)" unfolding keys by blast
    qed
    show "\<forall>x \<in> set ?P. pr_timed_out (snd x) \<longrightarrow> fst x \<in> fst ` set (c_answers c)" using D(8) p by auto
    show "c_control c + (if pr_credit p then 0 else 1) = control_count ?P" using D(9) by simp
    show "mset (c_released c) + credit_lanes ?P = acquired_lanes (sends @ [(p, Inr frame, Inr rid)])"
      using D(10) by (auto simp: acquired_snoc)
    show "\<forall>x \<in> set ((c_written c @ w) @ c_queued c @ q). \<exists>p'. (p', Inr (snd x), Inr (fst x)) \<in> set (sends @ [(p, Inr frame, Inr rid)])"
      unfolding all using D(11) by auto
    show "0 \<le> rid" using D(12) rid by simp
  qed
qed

lemma inv_refused:
  assumes inv: "conn_inv sends c" and rid: "rid = c_last c + 1"
    and a: "truthful (fst ` set (c_written c)) (keys_of (c_pending c)) rid a"
  shows "conn_inv (sends @ [(p, enc, res)]) (c\<lparr>c_last := rid, c_answers := c_answers c @ [(rid, a)],
    c_released := c_released c @ (if pr_credit p then [pr_lane p] else [])\<rparr>)"
proof -
  note D = conn_invD [OF inv]
  have range: "\<forall>r \<in> keys_of (c_pending c) \<union> fst ` set (c_answers c @ [(rid, a)]) \<union> fst ` set (c_written c @ c_queued c).
      1 \<le> r \<and> r \<le> rid"
  proof
    fix r assume "r \<in> keys_of (c_pending c) \<union> fst ` set (c_answers c @ [(rid, a)]) \<union> fst ` set (c_written c @ c_queued c)"
    then have "r = rid \<or> r \<in> keys_of (c_pending c) \<union> fst ` set (c_answers c) \<union> fst ` set (c_written c @ c_queued c)"
      by auto
    then show "1 \<le> r \<and> r \<le> rid" using bspec [OF D(5), of r] D(12) rid by linarith
  qed
  have all: "\<forall>r. 1 \<le> r \<and> r \<le> rid \<longrightarrow> r \<in> keys_of (c_pending c) \<or> r \<in> fst ` set (c_answers c @ [(rid, a)])"
  proof (intro allI impI)
    fix r assume "1 \<le> r \<and> r \<le> rid"
    then have "r = rid \<or> 1 \<le> r \<and> r \<le> c_last c" using rid by auto
    with D(7) show "r \<in> keys_of (c_pending c) \<or> r \<in> fst ` set (c_answers c @ [(rid, a)])" by auto
  qed
  let ?c = "c\<lparr>c_last := rid, c_answers := c_answers c @ [(rid, a)],
    c_released := c_released c @ (if pr_credit p then [pr_lane p] else [])\<rparr>"
  have fields: "c_pending ?c = c_pending c" "c_queued ?c = c_queued c" "c_written ?c = c_written c"
    "c_answers ?c = c_answers c @ [(rid, a)]" "c_last ?c = rid" "c_control ?c = c_control c"
    "c_released ?c = c_released c @ (if pr_credit p then [pr_lane p] else [])"
    by simp_all
  have "\<forall>x \<in> set (c_answers c @ [(rid, a)]). truthful (fst ` set (c_written c)) (keys_of (c_pending c)) (fst x) (snd x)"
    using D(6) a by auto
  moreover have "\<forall>x \<in> set (c_pending c). pr_timed_out (snd x) \<longrightarrow> fst x \<in> fst ` set (c_answers c @ [(rid, a)])"
    using D(8) by auto
  moreover have "mset (c_released c @ (if pr_credit p then [pr_lane p] else [])) + credit_lanes (c_pending c) =
      acquired_lanes (sends @ [(p, enc, res)])"
    using D(10) [symmetric] by (simp add: acquired_snoc)
  moreover have "\<forall>x \<in> set (c_written c @ c_queued c). \<exists>p'. (p', Inr (snd x), Inr (fst x)) \<in> set (sends @ [(p, enc, res)])"
    using D(11) by fastforce
  moreover have "0 \<le> rid" using D(12) rid by simp
  ultimately show ?thesis
    unfolding conn_inv_def fields using D(1-4,9) range all by (intro conjI)
qed

lemma inv_no_credit:
  assumes "conn_inv sends c" "\<not> pr_credit p" shows "conn_inv (sends @ [(p, enc, Inl e)]) c"
proof -
  note D = conn_invD [OF assms(1)]
  have "mset (c_released c) + credit_lanes (c_pending c) = acquired_lanes (sends @ [(p, enc, Inl e)])"
    using D(10) assms(2) by (simp add: acquired_snoc)
  moreover have "\<forall>x \<in> set (c_written c @ c_queued c). \<exists>p'. (p', Inr (snd x), Inr (fst x)) \<in> set (sends @ [(p, enc, Inl e)])"
    using D(11) by fastforce
  ultimately show ?thesis unfolding conn_inv_def using D(1-9,12) by (intro conjI)
qed

text \<open>The head of the queue is written.\<close>

lemma inv_write_head:
  assumes inv: "conn_inv sends c" and q: "c_queued c = x # qs"
  shows "conn_inv sends (c\<lparr>c_written := c_written c @ [x], c_queued := qs\<rparr>)"
proof -
  note D = conn_invD [OF inv]
  let ?c = "c\<lparr>c_written := c_written c @ [x], c_queued := qs\<rparr>"
  have fields: "c_pending ?c = c_pending c" "c_queued ?c = qs" "c_written ?c = c_written c @ [x]"
    "c_answers ?c = c_answers c" "c_last ?c = c_last c" "c_control ?c = c_control c" "c_released ?c = c_released c"
    by simp_all
  have all: "(c_written c @ [x]) @ qs = c_written c @ c_queued c" by (simp add: q)
  have x: "fst x \<in> keys_of (c_pending c)" using D(2) q by auto
  have "\<forall>y \<in> set (c_answers c). truthful (fst ` set (c_written c @ [x])) (keys_of (c_pending c)) (fst y) (snd y)"
    using D(6) x by (auto intro: truthful_grow(1))
  moreover have "fst ` set qs \<subseteq> keys_of (c_pending c)"
    "keys_of (c_pending c) \<subseteq> fst ` set qs \<union> fst ` set (c_written c @ [x])"
    using D(2,3) q by auto
  ultimately show ?thesis
    unfolding conn_inv_def fields all using D(1,4,5,7-12) by (intro conjI)
qed

text \<open>A request whose frame was written times out: it is answered, and stays in the table.\<close>

lemma inv_late:
  assumes inv: "conn_inv sends c" and p: "map_of (c_pending c) rid = Some p"
    and a: "truthful (fst ` set (c_written c)) (keys_of (c_pending c)) rid a"
  shows "conn_inv sends (c\<lparr>c_pending := AList.update rid (p\<lparr>pr_timed_out := True\<rparr>) (c_pending c),
    c_answers := c_answers c @ [(rid, a)]\<rparr>)"
proof -
  note D = conn_invD [OF inv]
  let ?P = "AList.update rid (p\<lparr>pr_timed_out := True\<rparr>) (c_pending c)"
  let ?c = "c\<lparr>c_pending := ?P, c_answers := c_answers c @ [(rid, a)]\<rparr>"
  have fields: "c_pending ?c = ?P" "c_queued ?c = c_queued c" "c_written ?c = c_written c"
    "c_answers ?c = c_answers c @ [(rid, a)]" "c_last ?c = c_last c" "c_control ?c = c_control c" "c_released ?c = c_released c"
    by simp_all
  have rid: "rid \<in> keys_of (c_pending c)" using p by (simp add: keys_of_map_of)
  then have keys: "keys_of ?P = keys_of (c_pending c)" by auto
  have mset: "mset (c_pending c) = add_mset (rid, p) (mset (AList.delete rid (c_pending c)))"
    "mset ?P = add_mset (rid, p\<lparr>pr_timed_out := True\<rparr>) (mset (AList.delete rid (c_pending c)))"
    by (rule mset_delete [OF D(1) p], rule mset_update [OF D(1) p])
  have elems: "set ?P = insert (rid, p\<lparr>pr_timed_out := True\<rparr>) (set (AList.delete rid (c_pending c)))"
    using arg_cong [OF mset(2), of set_mset] by simp
  show ?thesis
    unfolding conn_inv_def fields keys
  proof (intro conjI)
    show "distinct (map fst ?P)" by (rule distinct_update [OF D(1)])
    show "\<forall>r \<in> keys_of (c_pending c) \<union> fst ` set (c_answers c @ [(rid, a)]) \<union> fst ` set (c_written c @ c_queued c).
        1 \<le> r \<and> r \<le> c_last c"
      using D(5) rid by auto
    show "\<forall>x \<in> set (c_answers c @ [(rid, a)]). truthful (fst ` set (c_written c)) (keys_of (c_pending c)) (fst x) (snd x)"
      using D(6) a by auto
    show "\<forall>r. 1 \<le> r \<and> r \<le> c_last c \<longrightarrow> r \<in> keys_of (c_pending c) \<or> r \<in> fst ` set (c_answers c @ [(rid, a)])"
      using D(7) by auto
    show "\<forall>x \<in> set ?P. pr_timed_out (snd x) \<longrightarrow> fst x \<in> fst ` set (c_answers c @ [(rid, a)])"
      using D(8) unfolding elems by (auto simp: AList.delete_eq)
    show "c_control c = control_count ?P" using D(9) mset by simp
    show "mset (c_released c) + credit_lanes ?P = acquired_lanes sends"
      using D(10) mset by (cases "pr_credit p") simp_all
  qed (use D(2-4,11,12) in blast)+
qed

text \<open>The connection fails: every request is answered.\<close>

lemma inv_fail_all:
  assumes inv: "conn_inv sends c"
    and ans: "map fst ans = map fst (c_pending c)" "\<forall>x \<in> set ans. truthful (fst ` set (c_written c)) {} (fst x) (snd x)"
    and rel: "released = map (pr_lane \<circ> snd) (filter (pr_credit \<circ> snd) (c_pending c))"
  shows "conn_inv sends (c\<lparr>c_queued := [], c_pending := [], c_control := 0, c_answers := c_answers c @ ans,
    c_released := c_released c @ released\<rparr>)"
proof -
  note D = conn_invD [OF inv]
  let ?c = "c\<lparr>c_queued := [], c_pending := [], c_control := 0, c_answers := c_answers c @ ans,
    c_released := c_released c @ released\<rparr>"
  have fields: "c_pending ?c = []" "c_queued ?c = []" "c_written ?c = c_written c"
    "c_answers ?c = c_answers c @ ans" "c_last ?c = c_last c" "c_control ?c = 0"
    "c_released ?c = c_released c @ released"
    by simp_all
  have ids: "fst ` set ans = keys_of (c_pending c)"
    unfolding keys_of_def using arg_cong [OF ans(1), of set] by simp
  show ?thesis
    unfolding conn_inv_def fields
  proof (intro conjI)
    show "sorted_wrt (<) (map fst (c_written c @ []))" using D(4) by (simp add: sorted_wrt_append)
    show "\<forall>r \<in> keys_of [] \<union> fst ` set (c_answers c @ ans) \<union> fst ` set (c_written c @ []). 1 \<le> r \<and> r \<le> c_last c"
    proof
      fix r assume "r \<in> keys_of [] \<union> fst ` set (c_answers c @ ans) \<union> fst ` set (c_written c @ [])"
      then have "r \<in> keys_of (c_pending c) \<union> fst ` set (c_answers c) \<union> fst ` set (c_written c @ c_queued c)"
        unfolding ids [symmetric] by (auto simp: keys_of_def)
      then show "1 \<le> r \<and> r \<le> c_last c" by (rule bspec [OF D(5)])
    qed
    show "\<forall>x \<in> set (c_answers c @ ans). truthful (fst ` set (c_written c)) (keys_of []) (fst x) (snd x)"
      using D(6) ans(2) by (auto intro: truthful_shrink simp: keys_of_def)
    show "\<forall>r. 1 \<le> r \<and> r \<le> c_last c \<longrightarrow> r \<in> keys_of [] \<or> r \<in> fst ` set (c_answers c @ ans)"
      using D(7) ids by (auto simp: image_Un)
    show "mset (c_released c @ released) + credit_lanes [] = acquired_lanes sends"
      using D(10) by (simp add: rel comp_def mset_filter)
    show "\<forall>x \<in> set (c_written c @ []). \<exists>p. (p, Inr (snd x), Inr (fst x)) \<in> set sends" using D(11) by simp
  qed (use D(12) in \<open>simp_all add: keys_of_def\<close>)
qed

section \<open>The operations keep the invariant\<close>

definition conn_ok :: "send_log \<Rightarrow> native_adapter \<Rightarrow> bool" where
  "conn_ok sends na \<longleftrightarrow> queue_ok na \<and> conn_inv sends (view_of na) \<and> (na_closed na \<longrightarrow> na_pending na = [])"

text \<open>When the socket does not ask to wait, nothing is queued.\<close>

definition idle :: "native_adapter \<Rightarrow> bool" where
  "idle na \<longleftrightarrow> writeBlocked na \<or> queue_view na = []"

lemma view_sel [simp]:
  "c_written (view_of na) = written na" "c_queued (view_of na) = queue_view na" "c_pending (view_of na) = na_pending na"
  "c_answers (view_of na) = na_answers na" "c_last (view_of na) = na_request_id na"
  "c_control (view_of na) = pendingControlRequests na" "c_released (view_of na) = na_released na"
  by (simp_all add: view_of_def)

lemma spec_take_sel [simp]:
  "c_written (spec_take rid c) = c_written c" "c_answers (spec_take rid c) = c_answers c" "c_last (spec_take rid c) = c_last c"
  "c_pending (spec_take rid c) = AList.delete rid (c_pending c)"
  by (auto simp: spec_take_def delete_id map_of_eq_None_iff split: option.split)

lemma spec_reject_sel [simp]: "c_written (spec_reject rid a c) = c_written c"
  "c_pending (spec_reject rid a c) = AList.delete rid (c_pending c)"
  by (auto simp: spec_reject_def spec_answer_def delete_id map_of_eq_None_iff)

lemma error_dispositions [simp]:
  "err_disposition (unsentConnectionClosedError cause) = Some Unsent"
  "err_disposition (possiblySentConnectionClosedError cause msg) = Some PossiblySent"
  "err_class (unsentConnectionClosedError cause) = ConnectionClosedError"
  "err_class (possiblySentConnectionClosedError cause msg) = ConnectionClosedError"
  "err_disposition (request_timeout_error ms d raw cause) = Some d"
  "err_class (request_timeout_error ms d raw cause) = RequestTimeoutError"
  "err_disposition (overloaded_error m opts reason) = None"
  "err_class (overloaded_error m opts reason) = OverloadedError"
  by (simp_all add: unsentConnectionClosedError_def possiblySentConnectionClosedError_def connection_closed_error_def
      request_timeout_error_def overloaded_error_def new_error_def Let_def)

lemma queued_not_written:
  assumes "conn_inv sends c" "rid \<in> fst ` set (c_queued c)" shows "rid \<notin> fst ` set (c_written c)"
proof
  assume "rid \<in> fst ` set (c_written c)"
  with assms(2) have "rid \<in> set (map fst (c_written c))" "rid \<in> set (map fst (c_queued c))" by simp_all
  with conn_invD(4) [OF assms(1)] have "rid < rid" unfolding map_append sorted_wrt_append by blast
  then show False by simp
qed

lemma take_closed: "na_closed na \<Longrightarrow> na_closed (snd (takePending rid na))"
  "na_closed (snd (takePending rid na)) \<Longrightarrow> na_closed na \<or> na_pending (snd (takePending rid na)) = []"
  by (auto simp: takePending_def finishDrainIfIdle_def Let_def split: option.splits if_splits)

lemma take_ok:
  assumes "conn_ok sends na" "conn_inv sends (spec_take rid (view_of na))"
  shows "conn_ok sends (snd (takePending rid na)) \<and> (idle na \<longrightarrow> idle (snd (takePending rid na)))"
proof -
  have q: "queue_ok na" using assms(1) by (simp add: conn_ok_def)
  note one = take_pending_view [OF q, of rid]
  have view: "view_of (snd (takePending rid na)) = spec_take rid (view_of na)" using one by blast
  from arg_cong [OF view, of c_pending] have pend: "na_pending (snd (takePending rid na)) = AList.delete rid (na_pending na)" by simp
  from arg_cong [OF view, of c_queued] have "queue_view na = [] \<Longrightarrow> queue_view (snd (takePending rid na)) = []"
    by (auto simp: spec_take_def split: option.splits)
  moreover have "na_closed (snd (takePending rid na)) \<longrightarrow> na_pending (snd (takePending rid na)) = []"
    using take_closed(2) [of rid na] assms(1) pend by (auto simp: conn_ok_def)
  ultimately show ?thesis using one assms(2) by (simp add: conn_ok_def idle_def)
qed

lemma reject_ok:
  assumes "conn_ok sends na"
    "rid \<in> keys_of (na_pending na) \<Longrightarrow> truthful (fst ` set (written na)) (keys_of (na_pending na) - {rid}) rid a"
  shows "conn_ok sends (take_and_answer rid a na) \<and> (idle na \<longrightarrow> idle (take_and_answer rid a na))"
proof -
  have q: "queue_ok na" and inv: "conn_inv sends (view_of na)" using assms(1) by (simp_all add: conn_ok_def)
  note one = take_and_answer_view [OF q, of rid a]
  have view: "view_of (take_and_answer rid a na) = spec_reject rid a (view_of na)" using one by blast
  from arg_cong [OF view, of c_queued] have "queue_view na = [] \<Longrightarrow> queue_view (take_and_answer rid a na) = []"
    by (auto simp: spec_reject_def spec_answer_def spec_take_def split: option.splits if_splits)
  moreover have "conn_inv sends (spec_reject rid a (view_of na))"
    using assms(2) by (intro inv_reject [OF inv]) simp
  moreover have "na_closed (take_and_answer rid a na) \<longrightarrow> na_pending (take_and_answer rid a na) = []"
  proof -
    from arg_cong [OF view, of c_pending] have "na_pending (take_and_answer rid a na) = AList.delete rid (na_pending na)" by simp
    moreover have "na_closed (take_and_answer rid a na) = na_closed (snd (takePending rid na))"
      by (simp add: take_and_answer_def answer_request_def split: prod.split option.split)
    moreover have "na_pending (snd (takePending rid na)) = AList.delete rid (na_pending na)"
      using arg_cong [OF take_pending_view [OF q, of rid, THEN conjunct2, THEN conjunct1], of c_pending] by simp
    ultimately show ?thesis using take_closed(2) [of rid na] assms(1) by (auto simp: conn_ok_def)
  qed
  ultimately show ?thesis using one by (simp add: conn_ok_def idle_def)
qed

text \<open>Writing one frame.\<close>

lemma write_frame_view:
  assumes "queue_ok na"
  shows "queue_ok (writeFrame sock rid frame na) \<and> (writeBlocked na \<longrightarrow> writeBlocked (writeFrame sock rid frame na)) \<and>
    (view_of (writeFrame sock rid frame na) = (view_of na)\<lparr>c_written := written na @ [(rid, frame)]\<rparr> \<and>
       na_closed (writeFrame sock rid frame na) = na_closed na \<or>
     (\<exists>e na1. view_of na1 = view_of na \<and> queue_ok na1 \<and> na_closed na1 = na_closed na \<and>
       writeFrame sock rid frame na = take_and_answer rid (Failed (unsentConnectionClosedError e)) na1))"
proof -
  let ?s = "sock (length (na_attempts na))" and ?na1 = "na\<lparr>na_attempts := na_attempts na @ [(rid, frame, sock (length (na_attempts na)))]\<rparr>"
  have same: "queue_ok ?na1" "queue_view ?na1 = queue_view na" using assms queue_same [of ?na1 na] by simp_all
  have blocked: "queue_ok (?na1\<lparr>writeBlocked := b\<rparr>)" "queue_view (?na1\<lparr>writeBlocked := b\<rparr>) = queue_view na" for b
    using assms queue_same [of "?na1\<lparr>writeBlocked := b\<rparr>" na] by simp_all
  show ?thesis
  proof (cases ?s)
    case Accepted
    then show ?thesis using same by (simp add: writeFrame_def view_of_def written_def written_of_def taken_def)
  next
    case Full
    then show ?thesis using blocked by (simp add: writeFrame_def view_of_def written_def written_of_def taken_def)
  next
    case (Threw e)
    then have "writeFrame sock rid frame na = take_and_answer rid (Failed (unsentConnectionClosedError e)) ?na1"
      by (simp add: writeFrame_def)
    moreover have "view_of ?na1 = view_of na" using same Threw by (simp add: view_of_def written_def written_of_def taken_def)
    moreover have "na_closed ?na1 = na_closed na" "writeBlocked ?na1 = writeBlocked na" by simp_all
    ultimately show ?thesis using same take_and_answer_view [OF same(1)] by metis
  qed
qed

text \<open>One turn of the flush.\<close>

lemma flush_pop:
  assumes q: "queue_ok na" and "flush_more na"
  defines "a \<equiv> queuedWrites na ! queuedWriteHead na" and "na1 \<equiv> na\<lparr>queuedWriteHead := queuedWriteHead na + 1\<rparr>"
  shows "qw_frame (qw_heap na ! a) = None \<Longrightarrow>
      queue_ok (na1\<lparr>queuedWriteTombstones := max 0 (queuedWriteTombstones na - 1)\<rparr>) \<and>
      queue_view (na1\<lparr>queuedWriteTombstones := max 0 (queuedWriteTombstones na - 1)\<rparr>) = queue_view na"
    and "qw_frame (qw_heap na ! a) = Some frame \<Longrightarrow>
      queue_ok (empty_slot a na1) \<and> queue_view na = (qw_request (qw_heap na ! a), frame) # queue_view (empty_slot a na1)"
proof -
  note ok = queue_okD [OF q]
  have lt: "queuedWriteHead na < length (queuedWrites na)" using assms(2) by (simp add: flush_more_def)
  let ?rest = "slots_of na1"
  have slots: "slots_of na = a # ?rest"
    using lt by (simp add: slots_of_def a_def na1_def Cons_nth_drop_Suc)
  have dist: "a \<notin> set ?rest" "distinct ?rest" using ok(1) unfolding slots wq_core_def by simp_all
  show "queue_ok (na1\<lparr>queuedWriteTombstones := max 0 (queuedWriteTombstones na - 1)\<rparr>) \<and>
      queue_view (na1\<lparr>queuedWriteTombstones := max 0 (queuedWriteTombstones na - 1)\<rparr>) = queue_view na"
    if dead: "qw_frame (qw_heap na ! a) = None"
  proof -
    let ?na = "na1\<lparr>queuedWriteTombstones := max 0 (queuedWriteTombstones na - 1)\<rparr>"
    have s: "slots_of ?na = ?rest" by (simp add: slots_of_def na1_def)
    have live: "live_of (qw_heap na) (slots_of na) = live_of (qw_heap na) ?rest"
      unfolding slots using dead by (simp add: live_of_Cons live_slot_def)
    have "wq_core (qw_heap na) ?rest (queuedWritesByRequest na) (queuedWriteBytes na)"
      by (rule wq_core_slots [OF ok(1)]) (use dist live in \<open>simp_all add: slots\<close>, auto)
    moreover have "length (live_of (qw_heap na) ?rest) \<le> length ?rest" by (rule live_of_length)
    then have "max 0 (queuedWriteTombstones na - 1) + int (length (live_of (qw_heap na) ?rest)) = int (length ?rest)"
      using ok(3) unfolding live by (simp add: slots)
    ultimately have "queue_ok ?na" using lt unfolding queue_ok_def s by (simp add: na1_def)
    moreover have "queue_view ?na = queue_view na" unfolding queue_view_def live s by (simp add: na1_def)
    ultimately show ?thesis by blast
  qed
  show "queue_ok (empty_slot a na1) \<and> queue_view na = (qw_request (qw_heap na ! a), frame) # queue_view (empty_slot a na1)"
    if frame: "qw_frame (qw_heap na ! a) = Some frame"
  proof -
    let ?na = "empty_slot a na1"
    have s: "slots_of ?na = ?rest" by (simp add: slots_of_def na1_def empty_slot_def)
    have live: "live_of (qw_heap na) (slots_of na) = a # live_of (qw_heap na) ?rest"
      unfolding slots using frame by (simp add: live_of_Cons live_slot_def)
    have out: "filter (\<lambda>b. b \<noteq> a) (live_of (qw_heap na) ?rest) = live_of (qw_heap na) ?rest"
      using dist by (intro filter_True) (auto simp: live_of_def)
    note one = core_empty [OF ok(1), of a ?rest, unfolded live, simplified, unfolded out, simplified slots simp_thms]
    have heap: "qw_heap ?na = (qw_heap na)[a := (qw_heap na ! a)\<lparr>qw_frame := None\<rparr>]"
      "queuedWritesByRequest ?na = AList.delete (qw_request (qw_heap na ! a)) (queuedWritesByRequest na)"
      "queuedWriteBytes ?na = max 0 (queuedWriteBytes na - qw_bytes (qw_heap na ! a))"
      "queuedWriteTombstones ?na = queuedWriteTombstones na" "queuedWriteHead ?na = Suc (queuedWriteHead na)"
      "queuedWrites ?na = queuedWrites na"
      by (simp_all add: empty_slot_def na1_def)
    have "queue_ok ?na"
      using one ok(3) lt unfolding queue_ok_def s heap live by (simp add: slots)
    moreover have "queue_view na = (qw_request (qw_heap na ! a), frame) # queue_view ?na"
    proof -
      have "live_of (qw_heap ?na) ?rest = live_of (qw_heap na) ?rest" using one unfolding heap by blast
      moreover have "slot_view (qw_heap ?na) b = slot_view (qw_heap na) b" if "b \<in> set (live_of (qw_heap na) ?rest)" for b
      proof -
        have "b \<noteq> a" using that dist by (auto simp: live_of_def)
        then show ?thesis by (simp add: slot_view_def heap)
      qed
      ultimately show ?thesis unfolding queue_view_def live s using frame by (simp add: slot_view_def)
    qed
    ultimately show ?thesis by blast
  qed
qed

lemma conn_okD:
  assumes "conn_ok sends na"
  shows "queue_ok na" "conn_inv sends (view_of na)" "na_closed na \<Longrightarrow> na_pending na = []"
  using assms by (simp_all add: conn_ok_def)

lemma unsent_truthful:
  "rid \<notin> sent \<Longrightarrow> rid \<notin> pending \<Longrightarrow> truthful sent pending rid (Failed (unsentConnectionClosedError e))"
  "rid \<notin> sent \<Longrightarrow> rid \<notin> pending \<Longrightarrow> truthful sent pending rid (Failed (overloaded_error m opts reason))"
  "rid \<in> sent \<Longrightarrow> truthful sent pending rid (Failed (possiblySentConnectionClosedError e msg))"
  "truthful sent pending rid (Response r)"
  "rid \<notin> sent \<Longrightarrow> rid \<notin> pending \<Longrightarrow> truthful sent pending rid (NotEncoded t)"
  "rid \<notin> sent \<Longrightarrow> rid \<notin> pending \<Longrightarrow> truthful sent pending rid (Failed (request_timeout_error ms Unsent raw cause))"
  "rid \<in> sent \<Longrightarrow> truthful sent pending rid (Failed (request_timeout_error ms PossiblySent raw cause))"
  by (simp_all add: truthful_def)

lemma empty_slot_fields [simp]: "na_pending (empty_slot a na) = na_pending na" "na_closed (empty_slot a na) = na_closed na"
  by (simp_all add: empty_slot_def)

lemma flush_step_ok:
  assumes ok: "conn_ok sends na" and more: "flush_more na"
  shows "conn_ok sends (flush_step sock na)"
proof -
  note okD = conn_okD [OF ok]
  let ?a = "queuedWrites na ! queuedWriteHead na" and ?na1 = "na\<lparr>queuedWriteHead := queuedWriteHead na + 1\<rparr>"
  note pop = flush_pop [OF okD(1) more]
  show ?thesis
  proof (cases "qw_frame (qw_heap na ! ?a)")
    case None
    let ?na = "?na1\<lparr>queuedWriteTombstones := max 0 (queuedWriteTombstones na - 1)\<rparr>"
    have step: "flush_step sock na = ?na" using None by (simp add: flush_step_def Let_def)
    have "view_of ?na = view_of na" using pop(1) [OF None] by (simp add: view_of_def written_def)
    then show ?thesis unfolding step using pop(1) [OF None] okD by (simp add: conn_ok_def)
  next
    case (Some frame)
    let ?na2 = "empty_slot ?a ?na1" and ?rid = "qw_request (qw_heap na ! ?a)"
    have na2: "queue_ok ?na2" "queue_view na = (?rid, frame) # queue_view ?na2" using pop(2) [OF Some] by simp_all
    have same: "na_pending ?na2 = na_pending na" "na_closed ?na2 = na_closed na"
      by (simp_all add: empty_slot_def)
    have view2: "view_of ?na2 = (view_of na)\<lparr>c_queued := queue_view ?na2\<rparr>"
      by (simp add: view_of_def written_def empty_slot_def)
    have pending: "?rid \<in> keys_of (na_pending na)" using conn_invD(2) [OF okD(2)] na2(2) by simp
    then have step: "flush_step sock na = writeFrame sock ?rid frame ?na2"
      using Some by (simp add: flush_step_def Let_def keys_of_map_of)
    have fresh: "?rid \<notin> fst ` set (written na)" using queued_not_written [OF okD(2)] na2(2) by simp
    have closed: "na_closed ?na2 \<Longrightarrow> na_pending ?na2 = []" using okD(3) by (simp add: same)
    from write_frame_view [OF na2(1), of sock ?rid frame] consider
        (taken) "queue_ok (writeFrame sock ?rid frame ?na2)" "na_closed (writeFrame sock ?rid frame ?na2) = na_closed na"
          "view_of (writeFrame sock ?rid frame ?na2) = (view_of ?na2)\<lparr>c_written := written ?na2 @ [(?rid, frame)]\<rparr>"
      | (threw) e na3 where "view_of na3 = view_of ?na2" "queue_ok na3" "na_closed na3 = na_closed na"
          "writeFrame sock ?rid frame ?na2 = take_and_answer ?rid (Failed (unsentConnectionClosedError e)) na3"
      using same(2) by auto
    then show ?thesis
    proof cases
      case taken
      have view: "view_of (writeFrame sock ?rid frame ?na2) =
          (view_of na)\<lparr>c_written := c_written (view_of na) @ [(?rid, frame)], c_queued := queue_view ?na2\<rparr>"
        unfolding taken(3) view2 by (simp add: written_def empty_slot_def)
      have "conn_inv sends (view_of (writeFrame sock ?rid frame ?na2))"
        unfolding view by (rule inv_write_head [OF okD(2)]) (simp add: na2(2))
      moreover have "na_pending (writeFrame sock ?rid frame ?na2) = na_pending na"
        using arg_cong [OF view, of c_pending] by simp
      ultimately show ?thesis unfolding step using taken(1,2) okD(3) by (simp add: conn_ok_def)
    next
      case threw
      let ?x = "Failed (unsentConnectionClosedError e)"
      have view: "view_of (take_and_answer ?rid ?x na3) = spec_reject ?rid ?x (view_of ?na2)"
        using take_and_answer_view [OF threw(2)] threw(1) by metis
      have drop_head: "spec_reject ?rid ?x ((view_of na)\<lparr>c_queued := queue_view ?na2\<rparr>) = spec_reject ?rid ?x (view_of na)"
        using pending na2(2) by (auto simp: spec_reject_def spec_answer_def spec_take_def keys_of_map_of)
      have "conn_inv sends (spec_reject ?rid ?x (view_of na))"
        using fresh by (intro inv_reject [OF okD(2)] unsent_truthful) simp_all
      then have inv: "conn_inv sends (view_of (take_and_answer ?rid ?x na3))" unfolding view view2 drop_head .
      have pend: "na_pending na3 = na_pending na" using arg_cong [OF threw(1), of c_pending] same(1) by simp
      have "na_closed (take_and_answer ?rid ?x na3) \<longrightarrow> na_pending (take_and_answer ?rid ?x na3) = []"
      proof -
        from arg_cong [OF view, of c_pending] have "na_pending (take_and_answer ?rid ?x na3) = AList.delete ?rid (na_pending na)"
          by (simp add: same)
        moreover have "na_closed (take_and_answer ?rid ?x na3) = na_closed (snd (takePending ?rid na3))"
          by (simp add: take_and_answer_def answer_request_def split: prod.split option.split)
        moreover have "na_pending (snd (takePending ?rid na3)) = AList.delete ?rid (na_pending na)"
          using arg_cong [OF take_pending_view [OF threw(2), of ?rid, THEN conjunct2, THEN conjunct1], of c_pending] pend by simp
        ultimately show ?thesis using take_closed(2) [of ?rid na3] threw(3) okD(3) by auto
      qed
      with inv take_and_answer_view [OF threw(2), of ?rid ?x] show ?thesis
        unfolding step threw(4) by (simp add: conn_ok_def)
    qed
  qed
qed

lemma flush_loop_ok: "conn_ok sends na \<Longrightarrow> conn_ok sends (flush_loop sock na) \<and> \<not> flush_more (flush_loop sock na)"
proof (induction sock na rule: flush_loop.induct)
  case (1 sock na)
  show ?case
  proof (cases "flush_more na")
    case True
    with 1 flush_step_ok show ?thesis by (simp add: flush_loop.simps [of sock na])
  next
    case False
    with 1 show ?thesis by (simp add: flush_loop.simps [of sock na])
  qed
qed

lemma conn_ok_queue_change:
  assumes "conn_ok sends na" "queue_ok na'" "view_of na' = view_of na" "na_closed na' = na_closed na"
  shows "conn_ok sends na'"
proof -
  have "na_pending na' = na_pending na" using arg_cong [OF assms(3), of c_pending] by simp
  with assms show ?thesis by (simp add: conn_ok_def)
qed

lemma flush_ok:
  assumes ok: "conn_ok sends na" and "idle na"
  shows "conn_ok sends (queue_flush sock na) \<and> idle (queue_flush sock na)"
proof (cases "na_closed na")
  case True
  note okD = conn_okD [OF ok]
  from okD(3) [OF True] conn_invD(2) [OF okD(2)] have empty: "queue_view na = []" by (simp add: keys_of_def)
  let ?na = "queue_clear na"
  have "queue_view ?na = []" by (simp add: queue_view_def slots_of_def queue_clear_def live_of_def)
  moreover have "queue_ok ?na" by (simp add: queue_ok_def wq_core_def slots_of_def queue_clear_def live_of_def)
  moreover have "view_of ?na = view_of na"
    using empty calculation(1) by (simp add: view_of_def written_def) (simp add: queue_clear_def)
  moreover have "na_closed ?na = na_closed na" by (simp add: queue_clear_def)
  ultimately show ?thesis
    using True conn_ok_queue_change [OF ok, of ?na] by (simp add: queue_flush_def idle_def)
next
  case False
  let ?na0 = "na\<lparr>writeBlocked := False\<rparr>" and ?na1 = "flush_loop sock (na\<lparr>writeBlocked := False\<rparr>)"
  have "queue_ok ?na0" "queue_view ?na0 = queue_view na" using conn_okD(1) [OF ok] queue_same [of ?na0 na] by simp_all
  then have "conn_ok sends ?na0" by (intro conn_ok_queue_change [OF ok]) (simp_all add: view_of_def written_def)
  then have loop: "conn_ok sends ?na1" "\<not> flush_more ?na1" using flush_loop_ok by blast+
  have "slots_of ?na1 = []" if "\<not> writeBlocked ?na1" using loop(2) that by (auto simp: flush_more_def slots_of_def)
  then have idle: "idle ?na1" by (cases "writeBlocked ?na1") (simp_all add: idle_def queue_view_def live_of_def)
  note okD = conn_okD [OF loop(1)] and q = queue_okD [OF conn_okD(1) [OF loop(1)]]
  let ?reset = "?na1\<lparr>queuedWrites := [], queuedWriteHead := 0, queuedWriteTombstones := 0\<rparr>"
  let ?splice = "?na1\<lparr>queuedWrites := drop (queuedWriteHead ?na1) (queuedWrites ?na1), queuedWriteHead := 0\<rparr>"
  have slots: "slots_of ?reset = []" "slots_of ?splice = slots_of ?na1" by (simp_all add: slots_of_def)
  have splice: "queue_ok ?splice" "queue_view ?splice = queue_view ?na1"
    unfolding queue_ok_def queue_view_def slots using q by simp_all
  have reset: "queue_ok ?reset \<and> queue_view ?reset = queue_view ?na1" if "queuedWriteHead ?na1 = length (queuedWrites ?na1)"
  proof -
    have "slots_of ?na1 = []" using that by (simp add: slots_of_def)
    with q show ?thesis unfolding queue_ok_def queue_view_def slots by simp
  qed
  have "conn_ok sends ?splice" "idle ?splice"
    using splice idle by (auto intro: conn_ok_queue_change [OF loop(1)] simp: view_of_def written_def idle_def)
  moreover have "conn_ok sends ?reset" "idle ?reset" if "queuedWriteHead ?na1 = length (queuedWrites ?na1)"
    using reset [OF that] idle by (auto intro: conn_ok_queue_change [OF loop(1)] simp: view_of_def written_def idle_def)
  ultimately show ?thesis
    using False loop(1) idle by (simp add: queue_flush_def Let_def)
qed

text \<open>Sending.\<close>

lemma spec_reject_admit:
  assumes "conn_inv sends c" "rid = c_last c + 1"
  shows "spec_reject rid a (spec_admit rid p c) = c\<lparr>c_last := rid, c_answers := c_answers c @ [(rid, a)],
    c_released := c_released c @ (if pr_credit p then [pr_lane p] else [])\<rparr>"
proof -
  note fresh = inv_fresh [OF assms(1), folded assms(2)]
  have "filter (\<lambda>(r, _). r \<noteq> rid) (c_queued c) = c_queued c"
    using fresh(2) by (intro filter_True) force
  moreover have "AList.delete rid (c_pending c @ [(rid, p)]) = c_pending c"
    using fresh(1) by (force simp: AList.delete_eq keys_of_def intro!: filter_True)
  moreover have "map_of (c_pending c @ [(rid, p)]) rid = Some p"
    using fresh(1) by (simp add: keys_of_map_of map_add_Some_iff)
  moreover have "0 \<le> c_control c" using conn_invD(9) [OF assms(1)] by simp
  ultimately show ?thesis
    by (intro conn.equality)
      (simp_all add: spec_reject_def spec_answer_def spec_take_def spec_admit_def del: map_of_append)
qed

lemma write_ok:
  assumes ok: "conn_ok sends na" and idle: "idle na" and p: "\<not> pr_timed_out p" and rid: "rid = na_request_id na + 1"
    and open_: "\<not> na_closed na"
    and na3: "view_of na3 = spec_admit rid p (view_of na)" "queue_fields na3 = queue_fields na"
      "writeBlocked na3 = writeBlocked na" "na_closed na3 = na_closed na"
  shows "conn_ok (sends @ [(p, Inr frame, Inr rid)]) (queue_write sock rid frame na3) \<and> idle (queue_write sock rid frame na3)"
proof -
  note okD = conn_okD [OF ok]
  note same = queue_fields_cong [OF na3(2)]
  have q3: "queue_ok na3" "queue_view na3 = queue_view na" using same okD(1) by simp_all
  have rid': "rid = c_last (view_of na) + 1" using rid by simp
  let ?sends = "sends @ [(p, Inr frame, Inr rid)]"
  have gone: "conn_ok ?sends (take_and_answer rid a na4) \<and> (idle na4 \<longrightarrow> idle (take_and_answer rid a na4))"
    if "view_of na4 = spec_admit rid p (view_of na)" "queue_ok na4" "na_closed na4 = na_closed na"
      "truthful (fst ` set (written na)) (keys_of (na_pending na)) rid a" for na4 a
  proof -
    note one = take_and_answer_view [OF that(2), of rid a]
    have view: "view_of (take_and_answer rid a na4) = (view_of na)\<lparr>c_last := rid,
        c_answers := c_answers (view_of na) @ [(rid, a)],
        c_released := c_released (view_of na) @ (if pr_credit p then [pr_lane p] else [])\<rparr>"
      using one unfolding that(1) spec_reject_admit [OF okD(2) rid'] by blast
    have "conn_inv ?sends (view_of (take_and_answer rid a na4))"
      unfolding view using that(4) by (intro inv_refused [OF okD(2) rid']) simp
    moreover have "na_pending (take_and_answer rid a na4) = na_pending na" "queue_view (take_and_answer rid a na4) = queue_view na"
      using arg_cong [OF view, of c_pending] arg_cong [OF view, of c_queued] by simp_all
    moreover have "na_closed (take_and_answer rid a na4) \<longrightarrow> na_pending (take_and_answer rid a na4) = []"
    proof -
      have "na_closed (take_and_answer rid a na4) = na_closed (snd (takePending rid na4))"
        by (simp add: take_and_answer_def answer_request_def split: prod.split option.split)
      moreover have "na_pending (snd (takePending rid na4)) = na_pending (take_and_answer rid a na4)"
        by (simp add: take_and_answer_def answer_request_def split: prod.split option.split)
      ultimately show ?thesis using take_closed(2) [of rid na4] that(3) open_ by simp
    qed
    moreover have "queue_view na4 = queue_view na" using arg_cong [OF that(1), of c_queued] by (simp add: spec_admit_def)
    ultimately show ?thesis using one by (simp add: conn_ok_def idle_def)
  qed
  have unsent: "rid \<notin> fst ` set (written na)" "rid \<notin> keys_of (na_pending na)" "rid \<notin> fst ` set (queue_view na)"
    using inv_fresh [OF okD(2), folded rid'] by simp_all
  show ?thesis
  proof (cases "writeBlocked na3")
    case False
    have empty: "queue_view na = []" using False idle na3(3) by (simp add: idle_def)
    from write_frame_view [OF q3(1), of sock rid frame] consider
        (taken) "queue_ok (writeFrame sock rid frame na3)" "na_closed (writeFrame sock rid frame na3) = na_closed na"
          "view_of (writeFrame sock rid frame na3) = (view_of na3)\<lparr>c_written := written na3 @ [(rid, frame)]\<rparr>"
      | (threw) e na4 where "view_of na4 = view_of na3" "queue_ok na4" "na_closed na4 = na_closed na"
          "writeFrame sock rid frame na3 = take_and_answer rid (Failed (unsentConnectionClosedError e)) na4"
      using na3(4) by auto
    then show ?thesis
    proof cases
      case taken
      have "written na3 = written na" using arg_cong [OF na3(1), of c_written] by (simp add: spec_admit_def)
      then have view: "view_of (writeFrame sock rid frame na3) = (spec_admit rid p (view_of na))\<lparr>
          c_written := c_written (view_of na) @ [(rid, frame)], c_queued := c_queued (view_of na) @ []\<rparr>"
        unfolding taken(3) na3(1) by (simp add: spec_admit_def)
      have "conn_inv ?sends (view_of (writeFrame sock rid frame na3))"
        unfolding view by (rule inv_admit [OF okD(2) p rid']) (simp_all add: empty)
      moreover have "queue_view (writeFrame sock rid frame na3) = []" using arg_cong [OF view, of c_queued] empty by simp
      ultimately show ?thesis using taken open_ False by (simp add: queue_write_def conn_ok_def idle_def)
    next
      case threw
      have "idle na4" using arg_cong [OF threw(1), of c_queued] empty q3(2) by (simp add: idle_def)
      then show ?thesis
        using False gone [of na4 "Failed (unsentConnectionClosedError e)"] threw na3(1) unsent
        by (simp add: queue_write_def unsent_truthful)
    qed
  next
    case True
    let ?over = "overloaded_error (ascii ''FerricStore client write queue is full'')
      (raw_options JUndef JUndef) (Some (ascii ''client_write_queue_full''))"
    have "idle na3" using True by (simp add: idle_def)
    with gone [of na3 "Failed ?over"] unsent na3 q3(1)
    have over: "conn_ok ?sends (take_and_answer rid (Failed ?over) na3) \<and> idle (take_and_answer rid (Failed ?over) na3)"
      by (simp add: unsent_truthful)
    have "\<not> queue_has na3 rid" using queue_has_iff [OF q3(1)] unsent(3) q3(2) by simp
    note queued = write_queued_queue [OF q3(1) this, of frame]
    have view: "view_of (write_frame_queued rid frame na3) = (spec_admit rid p (view_of na))\<lparr>
        c_written := c_written (view_of na) @ [], c_queued := c_queued (view_of na) @ [(rid, frame)]\<rparr>"
    proof -
      have "view_of (write_frame_queued rid frame na3) = (view_of na3)\<lparr>c_queued := queue_view na @ [(rid, frame)]\<rparr>"
        using queued q3(2) by (simp add: view_of_def written_def) (simp add: write_frame_queued_def)
      then show ?thesis unfolding na3(1) by (simp add: spec_admit_def)
    qed
    have "conn_inv ?sends (view_of (write_frame_queued rid frame na3))"
      unfolding view by (rule inv_admit [OF okD(2) p rid']) simp_all
    moreover have "na_closed (write_frame_queued rid frame na3) = na_closed na3"
      "writeBlocked (write_frame_queued rid frame na3) = writeBlocked na3"
      by (simp_all add: write_frame_queued_def)
    ultimately have "conn_ok ?sends (write_frame_queued rid frame na3) \<and> idle (write_frame_queued rid frame na3)"
      using queued na3(4) open_ True by (simp add: conn_ok_def idle_def)
    with over True show ?thesis by (simp add: queue_write_def)
  qed
qed

lemma send_ok:
  assumes ok: "conn_ok sends na" and idle: "idle na" and p: "\<not> pr_timed_out p" and open_: "\<not> na_closed na"
    and small: "na_request_id na \<noteq> MAX_REQUEST_ID"
  shows "conn_ok (sends @ [(p, encoded, fst (sendAcquiredRequest sock p encoded na))]) (snd (sendAcquiredRequest sock p encoded na)) \<and>
    idle (snd (sendAcquiredRequest sock p encoded na))"
proof (cases "\<not> pr_credit p \<and> pendingControlRequests na \<ge> maxPendingControlRequests na")
  case True
  note okD = conn_okD [OF ok]
  let ?e = "Sdk (overloaded_error (ascii ''FerricStore client control request limit is full'')
    (raw_options JUndef JUndef) (Some (ascii ''client_control_requests_full'')))"
  have "conn_inv (sends @ [(p, encoded, Inl ?e)]) (view_of na)"
    using True by (intro inv_no_credit [OF okD(2)]) simp
  with True ok idle show ?thesis by (simp add: sendAcquiredRequest_def conn_ok_def)
next
  case allowed: False
  note okD = conn_okD [OF ok]
  let ?rid = "na_request_id na + 1" and ?na1 = "na\<lparr>na_request_id := na_request_id na + 1\<rparr>"
  have next_id: "nextRequestId na = (?rid, ?na1)" using small by (simp add: nextRequestId_def Let_def)
  have rid: "?rid = c_last (view_of na) + 1" by simp
  have allowed': "(\<not> pr_credit p \<and> pendingControlRequests na \<ge> maxPendingControlRequests na) = False"
    using allowed by simp
  show ?thesis
  proof (cases encoded)
    case (Inl e)
    let ?na2 = "answer_request ?rid (NotEncoded e) (if pr_credit p then ?na1\<lparr>na_released := na_released ?na1 @ [pr_lane p]\<rparr> else ?na1)"
    have res: "sendAcquiredRequest sock p encoded na = (Inl e, ?na2)"
      by (simp only: sendAcquiredRequest_def allowed' if_False next_id prod.case Inl sum.case Let_def)
    have fields: "queue_fields ?na2 = queue_fields na" "na_closed ?na2 = na_closed na" "writeBlocked ?na2 = writeBlocked na"
      by (simp_all add: answer_request_def)
    have view: "view_of ?na2 = (view_of na)\<lparr>c_last := ?rid, c_answers := c_answers (view_of na) @ [(?rid, NotEncoded e)],
        c_released := c_released (view_of na) @ (if pr_credit p then [pr_lane p] else [])\<rparr>"
      using queue_fields_cong [OF fields(1)] by (simp add: view_of_def answer_request_def written_def)
    have "truthful (fst ` set (written na)) (keys_of (na_pending na)) ?rid (NotEncoded e)"
      using inv_fresh(1,3) [OF okD(2)] by (intro unsent_truthful(5)) simp_all
    then have "conn_inv (sends @ [(p, encoded, Inl e)]) (view_of ?na2)"
      unfolding view by (intro inv_refused [OF okD(2) rid]) simp
    moreover have "queue_view ?na2 = queue_view na" "queue_ok ?na2" using queue_fields_cong [OF fields(1)] okD(1) by simp_all
    ultimately show ?thesis
      using fields open_ idle unfolding res by (simp add: conn_ok_def idle_def)
  next
    case (Inr frame)
    let ?na3 = "(if pr_credit p then ?na1 else ?na1\<lparr>pendingControlRequests := pendingControlRequests ?na1 + 1\<rparr>)
      \<lparr>na_pending := AList.update ?rid p (na_pending na)\<rparr>"
    have res: "sendAcquiredRequest sock p encoded na = (Inr ?rid, queue_write sock ?rid frame ?na3)"
      by (simp add: sendAcquiredRequest_def allowed' next_id Inr Let_def)
    have "map_of (na_pending na) ?rid = None" using inv_fresh(1) [OF okD(2)] by (simp add: keys_of_map_of)
    then have pend: "AList.update ?rid p (na_pending na) = na_pending na @ [(?rid, p)]" by (rule alist_update_new)
    have fields: "queue_fields ?na3 = queue_fields na" "na_closed ?na3 = na_closed na" "writeBlocked ?na3 = writeBlocked na"
      by simp_all
    have view: "view_of ?na3 = spec_admit ?rid p (view_of na)"
      using queue_fields_cong [OF fields(1)] pend by (simp add: view_of_def spec_admit_def written_def)
    from write_ok [OF ok idle p refl open_ view fields(1,3,2)] show ?thesis
      unfolding res by (simp add: Inr)
  qed
qed

text \<open>Answers whose error depends on whether the frame is still queued.\<close>

lemma pending_queued_or_written:
  assumes "conn_ok sends na" "rid \<in> keys_of (na_pending na)"
  shows "queue_has na rid \<Longrightarrow> rid \<notin> fst ` set (written na)" "\<not> queue_has na rid \<Longrightarrow> rid \<in> fst ` set (written na)"
proof -
  note okD = conn_okD [OF assms(1)]
  have has: "queue_has na rid \<longleftrightarrow> rid \<in> fst ` set (queue_view na)" by (rule queue_has_iff [OF okD(1)])
  show "queue_has na rid \<Longrightarrow> rid \<notin> fst ` set (written na)"
    using queued_not_written [OF okD(2), of rid] has by simp
  have "rid \<in> fst ` set (queue_view na) \<union> fst ` set (written na)"
    using conn_invD(3) [OF okD(2)] assms(2) unfolding view_sel by (rule subsetD)
  then show "\<not> queue_has na rid \<Longrightarrow> rid \<in> fst ` set (written na)" using has by simp
qed

lemma timeout_ok:
  assumes "conn_ok sends na"
  shows "conn_ok sends (timeoutPending rid ms na) \<and> (idle na \<longrightarrow> idle (timeoutPending rid ms na))"
proof (cases "map_of (na_pending na) rid")
  case None
  with assms show ?thesis by (simp add: timeoutPending_def)
next
  case (Some p)
  then have rid: "rid \<in> keys_of (na_pending na)" by (simp add: keys_of_map_of)
  note place = pending_queued_or_written [OF assms rid]
  show ?thesis
  proof (cases "\<not> pr_credit p \<or> queue_has na rid")
    case True
    let ?a = "Failed (request_timeout_error ms (if queue_has na rid then Unsent else PossiblySent) JUndef JUndef)"
    have "truthful (fst ` set (written na)) (keys_of (na_pending na) - {rid}) rid ?a"
      using place by (cases "queue_has na rid") (simp_all add: unsent_truthful)
    with True Some reject_ok [OF assms, of rid ?a] show ?thesis by (simp add: timeoutPending_def)
  next
    case False
    let ?a = "Failed (request_timeout_error ms PossiblySent JUndef JUndef)"
    let ?na = "answer_request rid ?a (na\<lparr>na_pending := AList.update rid (p\<lparr>pr_timed_out := True\<rparr>) (na_pending na)\<rparr>)"
    note okD = conn_okD [OF assms]
    have res: "timeoutPending rid ms na = ?na" using False Some by (simp add: timeoutPending_def)
    have fields: "queue_fields ?na = queue_fields na" "na_closed ?na = na_closed na" "writeBlocked ?na = writeBlocked na"
      by (simp_all add: answer_request_def)
    have view: "view_of ?na = (view_of na)\<lparr>c_pending := AList.update rid (p\<lparr>pr_timed_out := True\<rparr>) (c_pending (view_of na)),
        c_answers := c_answers (view_of na) @ [(rid, ?a)]\<rparr>"
      using queue_fields_cong [OF fields(1)] by (simp add: view_of_def answer_request_def written_def)
    have "conn_inv sends (view_of ?na)"
      unfolding view using Some place False by (intro inv_late [OF okD(2)]) (simp_all add: unsent_truthful)
    moreover have "\<not> na_closed na" using okD(3) rid by (auto simp: keys_of_def)
    moreover have "queue_view ?na = queue_view na" "queue_ok ?na" using queue_fields_cong [OF fields(1)] okD(1) by simp_all
    ultimately show ?thesis using fields unfolding res by (simp add: conn_ok_def idle_def)
  qed
qed

lemma response_ok:
  assumes "conn_ok sends na"
  shows "conn_ok sends (handle_response rid result na) \<and> (idle na \<longrightarrow> idle (handle_response rid result na))"
proof (cases "map_of (na_pending na) rid")
  case None
  with assms show ?thesis by (simp add: handle_response_def)
next
  case (Some p)
  note okD = conn_okD [OF assms]
  show ?thesis
  proof (cases "pr_timed_out p")
    case True
    have "rid \<in> fst ` set (c_answers (view_of na))"
      using bspec [OF conn_invD(8) [OF okD(2)], of "(rid, p)"] map_of_SomeD [OF Some] True by simp
    from take_ok [OF assms inv_forget [OF okD(2) this]] show ?thesis using Some True by (simp add: handle_response_def)
  next
    case False
    with Some reject_ok [OF assms, of rid "Response result"] show ?thesis
      by (simp add: handle_response_def unsent_truthful)
  qed
qed

lemma write_failed_ok:
  assumes "conn_ok sends na" "rid \<in> fst ` set (written na)"
  shows "conn_ok sends (write_failed rid e na) \<and> (idle na \<longrightarrow> idle (write_failed rid e na))"
  unfolding write_failed_def using assms by (intro reject_ok) (simp_all add: unsent_truthful)

lemma fail_all_ok:
  assumes ok: "conn_ok sends na" and "idle na"
  shows "conn_ok sends (failAll cause msg na) \<and> idle (failAll cause msg na)"
proof (cases "na_closed na")
  case True
  with assms show ?thesis by (simp add: failAll_def)
next
  case False
  note okD = conn_okD [OF ok]
  let ?na = "failAll cause msg na"
  define ans where "ans = map (\<lambda>(rid, p). (rid, Failed
    (if queue_has na rid then unsentConnectionClosedError cause else possiblySentConnectionClosedError cause msg))) (na_pending na)"
  have empty: "queue_view ?na = []" "queue_ok ?na"
    using False by (simp_all add: failAll_def queue_clear_def queue_view_def queue_ok_def slots_of_def wq_core_def)
  have view: "view_of ?na = (view_of na)\<lparr>c_queued := [], c_pending := [], c_control := 0,
      c_answers := c_answers (view_of na) @ ans,
      c_released := c_released (view_of na) @ map (pr_lane \<circ> snd) (filter (pr_credit \<circ> snd) (c_pending (view_of na)))\<rparr>"
    using False empty by (intro conn.equality) (simp_all add: failAll_def queue_clear_def ans_def written_def)
  have ids: "map fst ans = map fst (na_pending na)" by (simp add: ans_def case_prod_beta comp_def)
  have "truthful (fst ` set (written na)) {} rid (Failed
      (if queue_has na rid then unsentConnectionClosedError cause else possiblySentConnectionClosedError cause msg))"
    if "rid \<in> keys_of (na_pending na)" for rid
    using pending_queued_or_written [OF ok that] by (cases "queue_has na rid") (simp_all add: unsent_truthful)
  then have told: "\<forall>x \<in> set ans. truthful (fst ` set (written na)) {} (fst x) (snd x)"
    by (force simp: ans_def keys_of_def)
  have "conn_inv sends (view_of ?na)"
    unfolding view using ids told by (intro inv_fail_all [OF okD(2) _ _ refl]) simp_all
  moreover have "na_pending ?na = []" using arg_cong [OF view, of c_pending] by simp
  ultimately show ?thesis using empty by (simp add: conn_ok_def idle_def)
qed

text \<open>Draining: what is queued is rejected as unsent, and the requests without a time limit are rejected.\<close>

lemma reject_written: "conn_ok sends na \<Longrightarrow> written (take_and_answer rid a na) = written na \<and>
    na_pending (take_and_answer rid a na) = AList.delete rid (na_pending na)"
proof -
  assume "conn_ok sends na"
  from take_and_answer_view [OF conn_okD(1) [OF this], of rid a]
  have view: "view_of (take_and_answer rid a na) = spec_reject rid a (view_of na)" by blast
  from arg_cong [OF view, of c_written] arg_cong [OF view, of c_pending] show ?thesis by simp
qed

lemma cancel_gone:
  assumes "conn_ok sends na" "rid \<notin> keys_of (na_pending na)"
  shows "conn_ok sends (queue_cancel rid na) \<and> (idle na \<longrightarrow> idle (queue_cancel rid na)) \<and> written (queue_cancel rid na) = written na"
proof -
  note okD = conn_okD [OF assms(1)]
  note one = cancel_queue [OF okD(1), of rid]
  have "rid \<notin> fst ` set (queue_view na)" using conn_invD(2) [OF okD(2)] assms(2) by auto
  then have "filter (\<lambda>(r, _). r \<noteq> rid) (queue_view na) = queue_view na" by (intro filter_True) force
  with one have "queue_ok (queue_cancel rid na)" "queue_view (queue_cancel rid na) = queue_view na" by simp_all
  moreover from this have "view_of (queue_cancel rid na) = view_of na" by (simp add: view_of_def written_def)
  ultimately show ?thesis
    using conn_ok_queue_change [OF assms(1), of "queue_cancel rid na"] by (simp add: idle_def written_def)
qed

lemma reject_queued_ok:
  assumes "conn_ok sends na" "idle na"
  shows "conn_ok sends (rejectQueued (unsentConnectionClosedError e) na) \<and> idle (rejectQueued (unsentConnectionClosedError e) na)"
proof -
  let ?step = "\<lambda>rid na. queue_cancel rid (take_and_answer rid (Failed (unsentConnectionClosedError e)) na)"
  have fold: "conn_ok sends (fold ?step rids na) \<and> idle (fold ?step rids na)"
    if "conn_ok sends na" "idle na" "\<forall>rid \<in> set rids. rid \<notin> fst ` set (written na)" for rids na
    using that
  proof (induction rids arbitrary: na)
    case (Cons rid rids)
    let ?na = "take_and_answer rid (Failed (unsentConnectionClosedError e)) na"
    have one: "conn_ok sends ?na \<and> (idle na \<longrightarrow> idle ?na)"
      using Cons.prems by (intro reject_ok) (simp_all add: unsent_truthful)
    have "rid \<notin> keys_of (na_pending ?na)" using reject_written [OF Cons.prems(1)] by simp
    with cancel_gone [of sends ?na rid] one Cons.prems(2)
    have two: "conn_ok sends (?step rid na)" "idle (?step rid na)" "written (?step rid na) = written ?na" by simp_all
    then have "written (?step rid na) = written na" using reject_written [OF Cons.prems(1)] by simp
    with Cons.IH [OF two(1,2)] Cons.prems(3) show ?case by simp
  qed simp
  have "rid \<notin> fst ` set (written na)" if "rid \<in> set (map fst (queuedWritesByRequest na))" for rid
  proof -
    note okD = conn_okD [OF assms(1)]
    have "queue_has na rid" using that by (force simp: queue_has_def map_of_eq_None_iff)
    then show ?thesis using queue_has_iff [OF okD(1)] queued_not_written [OF okD(2), of rid] by simp
  qed
  then show ?thesis unfolding rejectQueued_def by (intro fold assms ballI)
qed

lemma finish_ok:
  assumes "conn_ok sends na" "idle na" shows "conn_ok sends (finishDrainIfIdle na) \<and> idle (finishDrainIfIdle na)"
proof -
  let ?na = "na\<lparr>na_closed := True\<rparr>"
  note okD = conn_okD [OF assms(1)]
  have same: "queue_ok ?na" "queue_view ?na = queue_view na" using okD(1) queue_same [of ?na na] by simp_all
  then have "view_of ?na = view_of na" by (simp add: view_of_def written_def)
  with same okD(2) assms(2) have "conn_ok sends ?na" "idle ?na" if "na_pending na = []"
    using that by (simp_all add: conn_ok_def idle_def)
  with assms show ?thesis by (simp add: finishDrainIfIdle_def)
qed

lemma drain_ok:
  assumes "conn_ok sends na" "idle na"
  shows "conn_ok sends (beginDraining na) \<and> idle (beginDraining na)"
proof -
  let ?na0 = "na\<lparr>na_draining := True\<rparr>"
  let ?reject = "\<lambda>rid na. take_and_answer rid (Failed (if queue_has na rid then unsentConnectionClosedError JUndef
    else possiblySentConnectionClosedError JUndef None)) na"
  have one: "conn_ok sends (?reject rid na) \<and> (idle na \<longrightarrow> idle (?reject rid na))" if "conn_ok sends na" for rid na
  proof (rule reject_ok [OF that])
    assume "rid \<in> keys_of (na_pending na)"
    from pending_queued_or_written [OF that this]
    show "truthful (fst ` set (written na)) (keys_of (na_pending na) - {rid}) rid
        (Failed (if queue_has na rid then unsentConnectionClosedError JUndef else possiblySentConnectionClosedError JUndef None))"
      by (cases "queue_has na rid") (simp_all add: unsent_truthful)
  qed
  have fold: "conn_ok sends na \<Longrightarrow> idle na \<Longrightarrow> conn_ok sends (fold ?reject rids na) \<and> idle (fold ?reject rids na)" for rids na
    using one by (induction rids arbitrary: na) simp_all
  have "queue_ok ?na0" "queue_view ?na0 = queue_view na" using conn_okD(1) [OF assms(1)] queue_same [of ?na0 na] by simp_all
  then have "conn_ok sends ?na0" "idle ?na0"
    using assms by (auto intro!: conn_ok_queue_change [OF assms(1)] simp: view_of_def written_def idle_def)
  from reject_queued_ok [OF this, of JUndef] show ?thesis
    unfolding beginDraining_def Let_def by (intro finish_ok) (simp_all add: fold)
qed

section \<open>Runs of a connection\<close>

text \<open>
  The events of a connection, in any order: a request is sent, the socket drains, a write is reported
  failed after the socket took the frame, a request times out, a response is complete, the server asks to
  drain, the connection fails or is closed. The socket answers each write as it likes.
\<close>

inductive native_run :: "int \<Rightarrow> int \<Rightarrow> send_log \<Rightarrow> native_adapter \<Rightarrow> bool" for byte_limit control_limit where
  start: "native_run byte_limit control_limit [] (new_native_adapter byte_limit control_limit)"
| send: "native_run byte_limit control_limit sends na \<Longrightarrow> \<not> na_closed na \<Longrightarrow> \<not> pr_timed_out p \<Longrightarrow>
    na_request_id na \<noteq> MAX_REQUEST_ID \<Longrightarrow> sendAcquiredRequest sock p encoded na = (result, na') \<Longrightarrow>
    native_run byte_limit control_limit (sends @ [(p, encoded, result)]) na'"
| drain: "native_run byte_limit control_limit sends na \<Longrightarrow> native_run byte_limit control_limit sends (queue_flush sock na)"
| lost: "native_run byte_limit control_limit sends na \<Longrightarrow> rid \<in> fst ` set (written na) \<Longrightarrow>
    native_run byte_limit control_limit sends (write_failed rid e na)"
| timed_out: "native_run byte_limit control_limit sends na \<Longrightarrow>
    native_run byte_limit control_limit sends (timeoutPending rid ms na)"
| response: "native_run byte_limit control_limit sends na \<Longrightarrow>
    native_run byte_limit control_limit sends (handle_response rid result na)"
| goaway: "native_run byte_limit control_limit sends na \<Longrightarrow> native_run byte_limit control_limit sends (beginDraining na)"
| fail: "native_run byte_limit control_limit sends na \<Longrightarrow> native_run byte_limit control_limit sends (failAll cause msg na)"

lemma run_ok: "native_run byte_limit control_limit sends na \<Longrightarrow> conn_ok sends na \<and> idle na"
proof (induction rule: native_run.induct)
  case start
  show ?case
    by (simp add: conn_ok_def idle_def queue_ok_def wq_core_def conn_inv_def new_native_adapter_def slots_of_def
        written_def written_of_def queue_view_def acquired_lanes_def keys_of_def)
next
  case (send sends na p sock encoded result na')
  then show ?case using send_ok [of sends na p encoded sock] by simp
next
  case (drain sends na sock)
  then show ?case using flush_ok [of sends na sock] by simp
next
  case (lost sends na rid e)
  then show ?case using write_failed_ok [of sends na rid e] by simp
next
  case (timed_out sends na rid ms)
  then show ?case using timeout_ok [of sends na rid ms] by simp
next
  case (response sends na rid result)
  then show ?case using response_ok [of sends na rid result] by simp
next
  case (goaway sends na)
  then show ?case using drain_ok [of sends na] by simp
next
  case (fail sends na cause msg)
  then show ?case using fail_all_ok [of sends na cause msg] by simp
qed

text \<open>A run: the socket takes a first frame and asks to wait, a second request is queued, the server asks to
  drain, the connection fails.\<close>

definition demo_request :: pending_request where
  "demo_request = \<lparr>pr_credit = True, pr_indefinite = False, pr_lane = 1, pr_timed_out = False\<rparr>"

definition demo_two_sent :: native_adapter where
  "demo_two_sent = snd (sendAcquiredRequest (\<lambda>_. Full) demo_request (Inr [2])
    (snd (sendAcquiredRequest (\<lambda>_. Full) demo_request (Inr [1]) (new_native_adapter 100 10))))"

definition demo_failed :: native_adapter where
  "demo_failed = failAll JUndef None (beginDraining demo_two_sent)"

definition demo_sends :: send_log where
  "demo_sends = [(demo_request, Inr [1], Inr 1), (demo_request, Inr [2], Inr 2)]"

lemmas demo_unfolds = sendAcquiredRequest_def new_native_adapter_def nextRequestId_def MAX_REQUEST_ID_def Let_def
  queue_write_def writeFrame_def write_frame_queued_def demo_request_def

lemma demo_two_sent_eq:
  "demo_two_sent = \<lparr>qw_heap = [\<lparr>qw_bytes = 1, qw_frame = Some [2], qw_request = 2\<rparr>], queuedWrites = [0],
    queuedWritesByRequest = [(2, 0)], queuedWriteBytes = 1, queuedWriteHead = 0, queuedWriteTombstones = 0,
    writeBlocked = True, maxQueuedWriteBytes = 100, na_closed = False, na_draining = False,
    na_pending = [(1, demo_request), (2, demo_request)], pendingControlRequests = 0, maxPendingControlRequests = 10,
    na_request_id = 2, na_attempts = [(1, [1], Full)], na_answers = [], na_released = []\<rparr>"
  by (simp add: demo_two_sent_def demo_unfolds)

lemma demo_two_sent_run: "native_run 100 10 demo_sends demo_two_sent"
proof -
  define na1 where "na1 = snd (sendAcquiredRequest (\<lambda>_. Full) demo_request (Inr [1]) (new_native_adapter 100 10))"
  have one: "sendAcquiredRequest (\<lambda>_. Full) demo_request (Inr [1]) (new_native_adapter 100 10) = (Inr 1, na1)"
    unfolding na1_def by (simp add: demo_unfolds)
  have two: "sendAcquiredRequest (\<lambda>_. Full) demo_request (Inr [2]) na1 = (Inr 2, demo_two_sent)"
    unfolding demo_two_sent_def na1_def by (simp add: demo_unfolds)
  have "native_run 100 10 ([] @ [(demo_request, Inr [1], Inr 1)]) na1"
    by (rule native_run.send [OF native_run.start _ _ _ one]) (simp_all add: demo_unfolds)
  from native_run.send [OF this _ _ _ two] show ?thesis
    by (simp add: na1_def demo_sends_def demo_unfolds)
qed

lemma demo_failed_run: "native_run 100 10 demo_sends demo_failed"
  unfolding demo_failed_def by (intro native_run.fail native_run.goaway demo_two_sent_run)

lemma demo_failed_eq:
  "na_answers demo_failed = [(2, Failed (unsentConnectionClosedError JUndef)), (1, Failed (possiblySentConnectionClosedError JUndef None))]"
  "written demo_failed = [(1, [1])]"
  by (simp_all add: demo_failed_def demo_two_sent_eq failAll_def beginDraining_def rejectQueued_def take_and_answer_def
      takePending_def queue_cancel_def compactTombstones_def empty_slot_def finishDrainIfIdle_def answer_request_def
      queue_has_def queue_clear_def Let_def demo_request_def written_def written_of_def taken_def)

text \<open>C6. The disposition of an error is the truth: in any run of a connection, a request rejected as unsent,
  or because the write queue was full, has not been handed to the socket, and, since this holds of every
  later state too, never is; a request rejected as possibly sent was handed to the socket.\<close>

theorem dispositions_are_truthful:
  assumes "native_run byte_limit control_limit sends na" "(rid, Failed e) \<in> set (na_answers na)"
  shows "(err_disposition e = Some Unsent \<or> err_class e = OverloadedError \<longrightarrow> rid \<notin> fst ` set (written na)) \<and>
    (err_disposition e = Some PossiblySent \<longrightarrow> rid \<in> fst ` set (written na))"
proof -
  have "conn_inv sends (view_of na)" using run_ok [OF assms(1)] by (simp add: conn_ok_def)
  from bspec [OF conn_invD(6) [OF this], of "(rid, Failed e)"] assms(2) show ?thesis by (simp add: truthful_def)
qed

theorem dispositions_are_truthful_witness:
  "map fst (na_answers demo_failed) = [2, 1] \<and> 2 \<notin> fst ` set (written demo_failed) \<and> 1 \<in> fst ` set (written demo_failed)"
  using dispositions_are_truthful [OF demo_failed_run, of 2 "unsentConnectionClosedError JUndef"]
    dispositions_are_truthful [OF demo_failed_run, of 1 "possiblySentConnectionClosedError JUndef None"]
  by (simp add: demo_failed_eq)

text \<open>C28. Frames reach the socket in the order of their requests, each at most once, and each is the frame its
  request was encoded to, whatever is queued, cancelled and compacted in between.\<close>

theorem frames_are_written_in_order:
  assumes "native_run byte_limit control_limit sends na"
  shows "sorted_wrt (<) (map fst (written na)) \<and>
    list_all (\<lambda>(rid, frame). \<exists>p. (p, Inr frame, Inr rid) \<in> set sends) (written na @ queue_view na) \<and>
    queuedWriteBytes na = int (sum_list (map (length \<circ> snd) (queue_view na)))"
proof (intro conjI)
  have ok: "queue_ok na" "conn_inv sends (view_of na)" using run_ok [OF assms] by (simp_all add: conn_ok_def)
  show "sorted_wrt (<) (map fst (written na))"
    using conn_invD(4) [OF ok(2)] by (simp add: sorted_wrt_append)
  show "list_all (\<lambda>(rid, frame). \<exists>p. (p, Inr frame, Inr rid) \<in> set sends) (written na @ queue_view na)"
    using conn_invD(11) [OF ok(2)] by (simp add: list_all_iff case_prod_beta)
  have core: "\<forall>a \<in> set (live_of (qw_heap na) (slots_of na)). qw_bytes (qw_heap na ! a) = int (length (the (qw_frame (qw_heap na ! a))))"
    "queuedWriteBytes na = sum_list (map (\<lambda>a. qw_bytes (qw_heap na ! a)) (live_of (qw_heap na) (slots_of na)))"
    using queue_okD(1) [OF ok(1)] unfolding wq_core_def by blast+
  have "sum_list (map (\<lambda>a. qw_bytes (qw_heap na ! a)) xs) = int (sum_list (map (length \<circ> snd \<circ> slot_view (qw_heap na)) xs))"
    if "\<forall>a \<in> set xs. qw_bytes (qw_heap na ! a) = int (length (the (qw_frame (qw_heap na ! a))))" for xs
    using that by (induction xs) (simp_all add: slot_view_def)
  from this [OF core(1)] show "queuedWriteBytes na = int (sum_list (map (length \<circ> snd) (queue_view na)))"
    unfolding core(2) queue_view_def by simp
qed

theorem frames_are_written_in_order_witness:
  "queuedWriteBytes demo_two_sent = 1 \<and> sorted_wrt (<) (map fst (written demo_two_sent)) \<and>
    int (sum_list (map (length \<circ> snd) (queue_view demo_two_sent))) = 1"
  using frames_are_written_in_order [OF demo_two_sent_run] by (simp add: demo_two_sent_eq)

text \<open>C29. No request and no credit is lost: every request number given out is pending or answered, a closed
  connection has no request pending, and the flow control credits taken are exactly those given back and
  those of the requests pending.\<close>

theorem requests_are_not_lost:
  assumes "native_run byte_limit control_limit sends na"
  shows "list_all (\<lambda>rid. map_of (na_pending na) rid \<noteq> None \<or> rid \<in> fst ` set (na_answers na)) [1..na_request_id na] \<and>
    (na_closed na \<longrightarrow> na_pending na = []) \<and>
    mset (na_released na) + credit_lanes (na_pending na) = acquired_lanes sends \<and>
    pendingControlRequests na = control_count (na_pending na)"
proof -
  have ok: "conn_inv sends (view_of na)" "na_closed na \<longrightarrow> na_pending na = []"
    using run_ok [OF assms] by (simp_all add: conn_ok_def)
  have "map_of (na_pending na) rid \<noteq> None \<or> rid \<in> fst ` set (na_answers na)" if "rid \<in> set [1..na_request_id na]" for rid
    using conn_invD(7) [OF ok(1)] that by (simp add: keys_of_map_of)
  then show ?thesis using conn_invD(9,10) [OF ok(1)] ok(2) by (simp add: list_all_iff)
qed

theorem requests_are_not_lost_witness:
  "mset (na_released demo_failed) + credit_lanes (na_pending demo_failed) = acquired_lanes demo_sends \<and>
    size (acquired_lanes demo_sends) = 2"
  using requests_are_not_lost [OF demo_failed_run]
  by (simp add: demo_sends_def acquired_lanes_def demo_request_def)

end
