(* ===== verification/Http2SlotPool.thy ===== *)
theory Http2SlotPool
  imports Errors Tables "HOL-Library.Multiset"
begin

text \<open>
  The stream slots of an HTTP/2 session (\<open>http2-slot-pool.ts\<close>). Callers that find no free slot wait in a
  doubly linked list of waiter objects; a waiter can be removed from the middle when its signal aborts.
  The waiter objects live in a store, as do the flags of the release functions handed out. The loops of
  \<open>drain\<close> and \<open>retire\<close> run until the list is empty: on a list that does not fit its links they would
  never end, so they are partial here, and that they end is proved.
\<close>

section \<open>The code\<close>

record waiter =
  w_call :: nat
  w_reason :: thrown
  w_next :: "nat option"
  w_previous :: "nat option"
  w_queued :: bool
  w_settled :: bool

datatype slot_answer = Granted nat | Refused thrown

text \<open>\<open>sp_waiters\<close> is the store of waiters, \<open>sp_released\<close> that of the release functions' flags. Callers and idle
  callbacks are numbered.\<close>

record slot_pool =
  sp_active :: int
  sp_idle :: "nat option"
  sp_limit :: "int option"
  sp_retired :: "thrown option"
  sp_head :: "nat option"
  sp_tail :: "nat option"
  sp_waiters :: "waiter list"
  sp_released :: "bool list"
  sp_calls :: nat
  sp_answers :: "(nat \<times> slot_answer) list"
  sp_notified :: "nat list"

definition new_slot_pool :: slot_pool where
  "new_slot_pool = \<lparr>sp_active = 0, sp_idle = None, sp_limit = None, sp_retired = None, sp_head = None, sp_tail = None,
    sp_waiters = [], sp_released = [], sp_calls = 0, sp_answers = [], sp_notified = []\<rparr>"

fun signalAbortError :: "thrown \<Rightarrow> thrown" where
  "signalAbortError (Value v) = Sdk (http_transport_error (ascii ''HTTP request was aborted'') (raw_options v JUndef) None)"
| "signalAbortError e = e"

definition update_waiter :: "nat \<Rightarrow> (waiter \<Rightarrow> waiter) \<Rightarrow> slot_pool \<Rightarrow> slot_pool" where
  "update_waiter w f p = p\<lparr>sp_waiters := (sp_waiters p)[w := f (sp_waiters p ! w)]\<rparr>"

definition removeWaiter :: "nat \<Rightarrow> slot_pool \<Rightarrow> slot_pool" where
  "removeWaiter w p =
    (let x = sp_waiters p ! w in
     if \<not> w_queued x then p
     else let
       p1 = (case w_previous x of None \<Rightarrow> p\<lparr>sp_head := w_next x\<rparr> | Some v \<Rightarrow> update_waiter v (\<lambda>y. y\<lparr>w_next := w_next x\<rparr>) p);
       p2 = (case w_next x of None \<Rightarrow> p1\<lparr>sp_tail := w_previous x\<rparr> | Some v \<Rightarrow> update_waiter v (\<lambda>y. y\<lparr>w_previous := w_previous x\<rparr>) p1)
     in update_waiter w (\<lambda>y. y\<lparr>w_next := None, w_previous := None, w_queued := False\<rparr>) p2)"

definition enqueueWaiter :: "waiter \<Rightarrow> slot_pool \<Rightarrow> slot_pool" where
  "enqueueWaiter x p =
    (let w = length (sp_waiters p); p1 = p\<lparr>sp_waiters := sp_waiters p @ [x\<lparr>w_previous := sp_tail p\<rparr>]\<rparr>;
         p2 = (case sp_tail p of None \<Rightarrow> p1\<lparr>sp_head := Some w\<rparr> | Some v \<Rightarrow> update_waiter v (\<lambda>y. y\<lparr>w_next := Some w\<rparr>) p1)
     in p2\<lparr>sp_tail := Some w\<rparr>)"

definition answer_call :: "nat \<Rightarrow> slot_answer \<Rightarrow> slot_pool \<Rightarrow> slot_pool" where
  "answer_call i a p = p\<lparr>sp_answers := sp_answers p @ [(i, a)]\<rparr>"

text \<open>A slot is taken for a caller, who gets a release function.\<close>

definition grant :: "nat \<Rightarrow> slot_pool \<Rightarrow> slot_pool" where
  "grant i p = answer_call i (Granted (length (sp_released p)))
    (p\<lparr>sp_active := sp_active p + 1, sp_released := sp_released p @ [False]\<rparr>)"

definition has_slot :: "slot_pool \<Rightarrow> bool" where
  "has_slot p \<longleftrightarrow> (case sp_limit p of None \<Rightarrow> False | Some l \<Rightarrow> sp_active p < l)"

partial_function (option) drain :: "slot_pool \<Rightarrow> slot_pool option" where
  "drain p =
    (if sp_retired p = None \<and> has_slot p then
       (case sp_head p of
          None \<Rightarrow> Some p
        | Some w \<Rightarrow>
            let p1 = removeWaiter w p in
            if w_settled (sp_waiters p1 ! w) then drain p1
            else drain (grant (w_call (sp_waiters p1 ! w)) (update_waiter w (\<lambda>y. y\<lparr>w_settled := True\<rparr>) p1)))
     else Some p)"

definition acquire :: "thrown option \<Rightarrow> thrown \<Rightarrow> slot_pool \<Rightarrow> slot_pool" where
  "acquire aborted reason p =
    (let i = sp_calls p; p0 = p\<lparr>sp_calls := sp_calls p + 1\<rparr> in
     case aborted of Some r \<Rightarrow> answer_call i (Refused (signalAbortError r)) p0
     | None \<Rightarrow> (case sp_retired p of Some e \<Rightarrow> answer_call i (Refused e) p0
       | None \<Rightarrow> if has_slot p then grant i p0
           else enqueueWaiter \<lparr>w_call = i, w_reason = reason, w_next = None, w_previous = None,
             w_queued = True, w_settled = False\<rparr> p0))"

text \<open>The abort listener of a waiter.\<close>

definition abort_waiter :: "nat \<Rightarrow> slot_pool \<Rightarrow> slot_pool" where
  "abort_waiter w p =
    (if w_settled (sp_waiters p ! w) then p
     else answer_call (w_call (sp_waiters p ! w)) (Refused (signalAbortError (w_reason (sp_waiters p ! w))))
       (removeWaiter w (update_waiter w (\<lambda>y. y\<lparr>w_settled := True\<rparr>) p)))"

definition updateLimit :: "int \<Rightarrow> slot_pool \<Rightarrow> slot_pool option" where
  "updateLimit l p = (if sp_retired p \<noteq> None then Some p else drain (p\<lparr>sp_limit := Some l\<rparr>))"

partial_function (option) refuse_all :: "thrown \<Rightarrow> slot_pool \<Rightarrow> slot_pool option" where
  "refuse_all e p =
    (case sp_head p of
       None \<Rightarrow> Some p
     | Some w \<Rightarrow>
         let p1 = removeWaiter w p in
         if w_settled (sp_waiters p1 ! w) then refuse_all e p1
         else refuse_all e (answer_call (w_call (sp_waiters p1 ! w)) (Refused e)
           (update_waiter w (\<lambda>y. y\<lparr>w_settled := True\<rparr>) p1)))"

definition retire :: "thrown \<Rightarrow> slot_pool \<Rightarrow> slot_pool option" where
  "retire e p = (if sp_retired p \<noteq> None then Some p else refuse_all e (p\<lparr>sp_retired := Some e\<rparr>))"

definition whenIdle :: "nat \<Rightarrow> slot_pool \<Rightarrow> slot_pool" where
  "whenIdle callback p =
    (if sp_active p = 0 then p\<lparr>sp_notified := sp_notified p @ [callback]\<rparr> else p\<lparr>sp_idle := Some callback\<rparr>)"

definition release_slot :: "nat \<Rightarrow> slot_pool \<Rightarrow> slot_pool option" where
  "release_slot r p =
    (if sp_released p ! r then Some p
     else (case drain (p\<lparr>sp_released := (sp_released p)[r := True], sp_active := sp_active p - 1\<rparr>) of
       None \<Rightarrow> None
     | Some p1 \<Rightarrow> Some (if sp_active p1 = 0
         then p1\<lparr>sp_idle := None, sp_notified := sp_notified p1 @ (case sp_idle p1 of None \<Rightarrow> [] | Some c \<Rightarrow> [c])\<rparr> else p1)))"

declare drain.simps [code] refuse_all.simps [code]

datatype pool_op = Acquire "thrown option" thrown | AbortWaiter nat | UpdateLimit int | Retire thrown | WhenIdle nat | Release nat

text \<open>Only signals of existing waiters abort, only release functions handed out are called.\<close>

fun pool_step :: "pool_op \<Rightarrow> slot_pool \<Rightarrow> slot_pool option" where
  "pool_step (Acquire aborted reason) p = Some (acquire aborted reason p)"
| "pool_step (AbortWaiter w) p = Some (if w < length (sp_waiters p) then abort_waiter w p else p)"
| "pool_step (UpdateLimit l) p = updateLimit l p"
| "pool_step (Retire e) p = retire e p"
| "pool_step (WhenIdle c) p = Some (whenIdle c p)"
| "pool_step (Release r) p = (if r < length (sp_released p) then release_slot r p else Some p)"

fun pool_run :: "pool_op list \<Rightarrow> slot_pool \<Rightarrow> slot_pool option" where
  "pool_run [] p = Some p"
| "pool_run (op # ops) p = Option.bind (pool_step op p) (pool_run ops)"

section \<open>The linked list\<close>

text \<open>\<open>seg ws p c xs l n\<close>: from the link \<open>c\<close>, whose node has the predecessor \<open>p\<close>, the links run through the
  waiters \<open>xs\<close>, the last of which is \<open>l\<close>, to the link \<open>n\<close>.\<close>

fun seg :: "waiter list \<Rightarrow> nat option \<Rightarrow> nat option \<Rightarrow> nat list \<Rightarrow> nat option \<Rightarrow> nat option \<Rightarrow> bool" where
  "seg ws p c [] l n \<longleftrightarrow> c = n \<and> l = p"
| "seg ws p c (x # xs) l n \<longleftrightarrow> c = Some x \<and> x < length ws \<and> w_previous (ws ! x) = p \<and>
    seg ws (Some x) (w_next (ws ! x)) xs l n"

lemma seg_append: "seg ws p c (xs @ ys) l n \<longleftrightarrow> (\<exists>m k. seg ws p c xs m k \<and> seg ws m k ys l n)"
  by (induction xs arbitrary: p c) auto

lemma seg_frame: "y \<notin> set xs \<Longrightarrow> seg (ws[y := v]) p c xs l n \<longleftrightarrow> seg ws p c xs l n"
  by (induction xs arbitrary: p c) auto

lemma seg_extend: "seg ws p c xs l n \<Longrightarrow> seg (ws @ vs) p c xs l n"
  by (induction xs arbitrary: p c) (auto simp: nth_append)

lemma seg_bound: "seg ws p c xs l n \<Longrightarrow> x \<in> set xs \<Longrightarrow> x < length ws"
  by (induction xs arbitrary: p c) auto

text \<open>Redirecting the last link of a segment, and the first backward link.\<close>

lemma seg_last: "seg ws p c (xs @ [x]) l n \<longleftrightarrow>
    l = Some x \<and> x < length ws \<and> w_next (ws ! x) = n \<and> (\<exists>m. seg ws p c xs m (Some x) \<and> w_previous (ws ! x) = m)"
  by (auto simp: seg_append)

lemma seg_redirect_next:
  assumes "seg ws p c (xs @ [x]) l n" "x \<notin> set xs" "w_previous v = w_previous (ws ! x)" "w_next v = n'"
  shows "seg (ws[x := v]) p c (xs @ [x]) l n'"
  using assms by (auto simp: seg_last seg_frame)

lemma seg_redirect_previous:
  assumes "seg ws p c (x # xs) l n" "x \<notin> set xs" "w_next v = w_next (ws ! x)" "w_previous v = p'"
  shows "seg (ws[x := v]) p' c (x # xs) l n"
  using assms by (auto simp: seg_frame)

definition linked :: "waiter list \<Rightarrow> nat option \<Rightarrow> nat option \<Rightarrow> nat list \<Rightarrow> bool" where
  "linked ws front rear q \<longleftrightarrow> distinct q \<and> seg ws None front q rear None \<and> (\<forall>x < length ws. w_queued (ws ! x) \<longleftrightarrow> x \<in> set q)"

abbreviation pool_linked :: "slot_pool \<Rightarrow> nat list \<Rightarrow> bool" where
  "pool_linked p q \<equiv> linked (sp_waiters p) (sp_head p) (sp_tail p) q"

text \<open>What stays of the waiters when links change.\<close>

definition caller :: "waiter \<Rightarrow> nat \<times> thrown \<times> bool" where
  "caller x = (w_call x, w_reason x, w_settled x)"

definition same_callers :: "waiter list \<Rightarrow> waiter list \<Rightarrow> bool" where
  "same_callers ws vs \<longleftrightarrow> map caller ws = map caller vs"

lemma same_callers_refl: "same_callers ws ws"
  by (simp add: same_callers_def)

lemma map_update_same: "f v = f (ws ! x) \<Longrightarrow> map f (ws[x := v]) = map f ws"
  by (cases "x < length ws") (simp_all add: map_update list_update_beyond list_update_same_conv)

lemma nth_update_any: "xs[i := v] ! j = (if j = i \<and> i < length xs then v else xs ! j)"
  by (cases "i < length xs") (auto simp: nth_list_update list_update_beyond)

lemma same_callers_update:
  "same_callers ws vs \<Longrightarrow> caller v = caller (ws ! x) \<Longrightarrow> same_callers (ws[x := v]) vs"
  by (simp only: same_callers_def map_update_same)

definition unlinked :: "waiter list \<Rightarrow> nat \<Rightarrow> waiter list" where
  "unlinked ws w =
    (let x = ws ! w;
         ws1 = (case w_previous x of None \<Rightarrow> ws | Some v \<Rightarrow> ws[v := (ws ! v)\<lparr>w_next := w_next x\<rparr>]);
         ws2 = (case w_next x of None \<Rightarrow> ws1 | Some v \<Rightarrow> ws1[v := (ws1 ! v)\<lparr>w_previous := w_previous x\<rparr>])
     in ws2[w := (ws2 ! w)\<lparr>w_next := None, w_previous := None, w_queued := False\<rparr>])"

lemma removeWaiter_fields:
  assumes "w_queued (sp_waiters p ! w)"
  shows "removeWaiter w p = p\<lparr>
    sp_head := (if w_previous (sp_waiters p ! w) = None then w_next (sp_waiters p ! w) else sp_head p),
    sp_tail := (if w_next (sp_waiters p ! w) = None then w_previous (sp_waiters p ! w) else sp_tail p),
    sp_waiters := unlinked (sp_waiters p) w\<rparr>"
  using assms
  by (intro slot_pool.equality)
    (simp_all add: removeWaiter_def unlinked_def Let_def update_waiter_def split: option.split)

lemma unlinked_callers: "same_callers (unlinked ws w) ws"
  unfolding unlinked_def Let_def
  by (cases "w_previous (ws ! w)"; cases "w_next (ws ! w)")
    (simp_all add: same_callers_update same_callers_refl caller_def)

lemma unlink_linked:
  assumes "linked ws front rear (as @ w # bs)"
  defines "x \<equiv> ws ! w"
  shows "linked (unlinked ws w) (if w_previous x = None then w_next x else front) (if w_next x = None then w_previous x else rear) (as @ bs)"
proof -
  have dist: "distinct (as @ w # bs)" and queued: "\<forall>y < length ws. w_queued (ws ! y) \<longleftrightarrow> y \<in> set (as @ w # bs)"
    using assms(1) by (simp_all add: linked_def)
  obtain m where as: "seg ws None front as m (Some w)" and w: "w < length ws" "w_previous x = m"
    and bs: "seg ws (Some w) (w_next x) bs rear None"
    using assms(1) by (auto simp: linked_def seg_append x_def)
  define ws1 where "ws1 = (case m of None \<Rightarrow> ws | Some v \<Rightarrow> ws[v := (ws ! v)\<lparr>w_next := w_next x\<rparr>])"
  define ws2 where "ws2 = (case w_next x of None \<Rightarrow> ws1 | Some v \<Rightarrow> ws1[v := (ws1 ! v)\<lparr>w_previous := m\<rparr>])"
  have ws3: "unlinked ws w = ws2[w := (ws2 ! w)\<lparr>w_next := None, w_previous := None, w_queued := False\<rparr>]"
    by (simp only: unlinked_def Let_def ws2_def ws1_def w(2) x_def [symmetric])
  have first: "seg ws1 None (if m = None then w_next x else front) as m (w_next x) \<and> seg ws1 (Some w) (w_next x) bs rear None"
  proof (cases as rule: rev_cases)
    case Nil
    with as bs show ?thesis by (simp add: ws1_def)
  next
    case (snoc as' a)
    with as have m: "m = Some a" by (simp add: seg_last)
    have "a \<notin> set as'" "a \<notin> set bs" using dist snoc by auto
    then show ?thesis
      using seg_redirect_next [OF as [unfolded snoc], of "(ws ! a)\<lparr>w_next := w_next x\<rparr>" "w_next x"] bs
      by (simp add: ws1_def m snoc seg_frame)
  qed
  have second: "seg ws2 None (if m = None then w_next x else front) as m (w_next x) \<and>
      seg ws2 m (w_next x) bs (if w_next x = None then m else rear) None"
  proof (cases bs)
    case Nil
    with bs first show ?thesis by (simp add: ws2_def)
  next
    case (Cons b bs')
    with bs have n: "w_next x = Some b" by simp
    have "b \<notin> set as" "b \<notin> set bs'" using dist Cons by auto
    then show ?thesis
      using seg_redirect_previous [of ws1 "Some w" "w_next x" b bs' rear None "(ws1 ! b)\<lparr>w_previous := m\<rparr>" m] first
      by (simp add: ws2_def n Cons seg_frame)
  qed
  have len: "length ws2 = length ws" by (simp add: ws1_def ws2_def split: option.split)
  have keep: "w_queued (ws2 ! y) = w_queued (ws ! y)" if "y < length ws" for y
  proof -
    have "map w_queued ws1 = map w_queued ws" by (simp add: ws1_def map_update_same split: option.split)
    moreover have "map w_queued ws2 = map w_queued ws1" by (simp add: ws2_def map_update_same split: option.split)
    ultimately have "map w_queued ws2 ! y = map w_queued ws ! y" by simp
    with that len show ?thesis by simp
  qed
  have "w \<notin> set as" "w \<notin> set bs" using dist by auto
  with second have "seg (unlinked ws w) None (if m = None then w_next x else front) (as @ bs) (if w_next x = None then m else rear) None"
    unfolding ws3 seg_append by (intro exI [of _ m] exI [of _ "w_next x"]) (simp add: seg_frame)
  moreover have "\<forall>y < length (unlinked ws w). w_queued (unlinked ws w ! y) \<longleftrightarrow> y \<in> set (as @ bs)"
    using queued keep len dist w(1) unfolding ws3 by (auto simp: nth_list_update)
  ultimately show ?thesis using dist unfolding linked_def w(2) by auto
qed

lemma remove_waiter:
  assumes "pool_linked p (as @ w # bs)"
  shows "pool_linked (removeWaiter w p) (as @ bs) \<and> same_callers (sp_waiters (removeWaiter w p)) (sp_waiters p) \<and>
    (\<exists>front rear ws. removeWaiter w p = p\<lparr>sp_head := front, sp_tail := rear, sp_waiters := ws\<rparr>)"
proof -
  have "w < length (sp_waiters p)" using assms seg_bound by (auto simp: linked_def)
  then have "w_queued (sp_waiters p ! w)" using assms by (simp add: linked_def)
  note fields = removeWaiter_fields [OF this]
  show ?thesis
  proof (intro conjI)
    show "pool_linked (removeWaiter w p) (as @ bs)" "same_callers (sp_waiters (removeWaiter w p)) (sp_waiters p)"
      unfolding fields using unlink_linked [OF assms] unlinked_callers [of "sp_waiters p" w] by simp_all
    show "\<exists>front rear ws. removeWaiter w p = p\<lparr>sp_head := front, sp_tail := rear, sp_waiters := ws\<rparr>"
      using fields by blast
  qed
qed

lemma enqueue_waiter:
  assumes "pool_linked p q" "w_queued x" "w_next x = None"
  shows "pool_linked (enqueueWaiter x p) (q @ [length (sp_waiters p)])"
proof -
  let ?w = "length (sp_waiters p)" and ?ws = "sp_waiters p @ [x\<lparr>w_previous := sp_tail p\<rparr>]"
  have dist: "distinct q" and seg: "seg (sp_waiters p) None (sp_head p) q (sp_tail p) None"
    and queued: "\<forall>y < ?w. w_queued (sp_waiters p ! y) \<longleftrightarrow> y \<in> set q"
    using assms(1) by (simp_all add: linked_def)
  have fresh: "?w \<notin> set q" using seg_bound [OF seg] by blast
  have seg': "seg ?ws None (sp_head p) q (sp_tail p) None" by (rule seg_extend [OF seg])
  show ?thesis
  proof (cases q rule: rev_cases)
    case Nil
    with seg have "sp_tail p = None" by simp
    then show ?thesis
      using queued Nil assms(2,3) by (auto simp: linked_def enqueueWaiter_def Let_def nth_append less_Suc_eq)
  next
    case (snoc q' v)
    with seg have v: "sp_tail p = Some v" "v < ?w" by (simp_all add: seg_last)
    let ?ws' = "?ws[v := (?ws ! v)\<lparr>w_next := Some ?w\<rparr>]"
    have "seg ?ws' None (sp_head p) (q' @ [v]) (Some v) (Some ?w)"
      using seg' dist unfolding snoc v(1) by (intro seg_redirect_next) simp_all
    then have "seg ?ws' None (sp_head p) (q @ [?w]) (Some ?w) None"
      using v assms(3) by (auto simp: snoc seg_append nth_append)
    moreover have "\<forall>y < length ?ws'. w_queued (?ws' ! y) \<longleftrightarrow> y \<in> set (q @ [?w])"
      using queued fresh assms(2) v(2) by (auto simp: nth_append nth_list_update less_Suc_eq)
    ultimately show ?thesis
      using dist fresh v(1) by (simp add: linked_def enqueueWaiter_def Let_def update_waiter_def)
  qed
qed

section \<open>Invariant\<close>

definition call_of :: "slot_pool \<Rightarrow> nat \<Rightarrow> nat" where
  "call_of p w = w_call (sp_waiters p ! w)"

definition granted :: "slot_pool \<Rightarrow> nat list" where
  "granted p = map fst (filter (\<lambda>(_, a). case a of Granted _ \<Rightarrow> True | _ \<Rightarrow> False) (sp_answers p))"

text \<open>\<open>q\<close> are the waiters in the list, in its order. The invariant without, and with, no slot being free while
  someone waits.\<close>

definition pool_core :: "slot_pool \<Rightarrow> nat list \<Rightarrow> bool" where
  "pool_core p q \<longleftrightarrow> pool_linked p q \<and> (\<forall>w < length (sp_waiters p). w_settled (sp_waiters p ! w) \<longleftrightarrow> w \<notin> set q) \<and>
    sorted_wrt (<) (granted p @ map (call_of p) q) \<and>
    mset (map fst (sp_answers p)) + mset (map (call_of p) q) = mset [0..<sp_calls p] \<and>
    sp_active p = int (length (filter Not (sp_released p)))"

definition pool_inv :: "slot_pool \<Rightarrow> nat list \<Rightarrow> bool" where
  "pool_inv p q \<longleftrightarrow> pool_core p q \<and> (sp_retired p \<noteq> None \<or> has_slot p \<longrightarrow> q = [])"

lemma pool_coreD:
  assumes "pool_core p q"
  shows "pool_linked p q" "\<forall>w < length (sp_waiters p). w_settled (sp_waiters p ! w) \<longleftrightarrow> w \<notin> set q"
    "sorted_wrt (<) (granted p @ map (call_of p) q)"
    "mset (map fst (sp_answers p)) + mset (map (call_of p) q) = mset [0..<sp_calls p]"
    "sp_active p = int (length (filter Not (sp_released p)))"
  using assms by (simp_all add: pool_core_def)

lemma core_bounds:
  assumes "pool_core p q"
  shows "x \<in> set (granted p) \<Longrightarrow> x < sp_calls p" "w \<in> set q \<Longrightarrow> call_of p w < sp_calls p" "w \<in> set q \<Longrightarrow> w < length (sp_waiters p)"
proof -
  have all: "set (map fst (sp_answers p)) \<union> set (map (call_of p) q) = {0..<sp_calls p}"
    using arg_cong [OF pool_coreD(4) [OF assms], of set_mset] by simp
  have "set (granted p) \<subseteq> set (map fst (sp_answers p))" by (auto simp: granted_def)
  with all show "x \<in> set (granted p) \<Longrightarrow> x < sp_calls p" "w \<in> set q \<Longrightarrow> call_of p w < sp_calls p" by auto
  show "w \<in> set q \<Longrightarrow> w < length (sp_waiters p)"
    using pool_coreD(1) [OF assms] seg_bound by (auto simp: linked_def)
qed

text \<open>A waiter leaves the list, settled and answered. \<open>p'\<close> is the pool before the answer.\<close>

lemma leave:
  assumes core: "pool_core p (as @ w # bs)"
    and p': "sp_waiters p' = (sp_waiters (removeWaiter w p))[w := (sp_waiters (removeWaiter w p) ! w)\<lparr>w_settled := True\<rparr>]"
      "sp_head p' = sp_head (removeWaiter w p)" "sp_tail p' = sp_tail (removeWaiter w p)"
      "sp_answers p' = sp_answers p @ [(call_of p w, a)]" "sp_calls p' = sp_calls p"
      "sp_active p' = int (length (filter Not (sp_released p')))"
    and a: "as = [] \<or> (\<forall>r. a \<noteq> Granted r)"
  shows "pool_core p' (as @ bs)"
proof -
  note D = pool_coreD [OF core]
  note rem = remove_waiter [OF D(1)]
  let ?ws = "sp_waiters (removeWaiter w p)"
  have callers: "map caller ?ws = map caller (sp_waiters p)" using rem by (simp add: same_callers_def)
  have len: "length ?ws = length (sp_waiters p)" using arg_cong [OF callers, of length] by simp
  have caller: "caller (?ws ! x) = caller (sp_waiters p ! x)" if "x < length (sp_waiters p)" for x
    using arg_cong [OF callers, of "\<lambda>l. l ! x"] that len by simp
  have w: "w < length (sp_waiters p)" using core_bounds(3) [OF core] by simp
  have new: "w_call (sp_waiters p' ! x) = w_call (sp_waiters p ! x)"
    "w_settled (sp_waiters p' ! x) \<longleftrightarrow> w_settled (sp_waiters p ! x) \<or> x = w"
    if "x < length (sp_waiters p)" for x
    using caller [OF that] that len unfolding p'(1) by (cases "x = w"; simp add: caller_def)+
  have calls: "map (call_of p') q = map (call_of p) q" if "set q \<subseteq> set (as @ w # bs)" for q
    using that new(1) core_bounds(3) [OF core] by (auto simp: call_of_def)
  have dist: "distinct (as @ w # bs)" using D(1) by (simp add: linked_def)
  have "linked (sp_waiters p') (sp_head p') (sp_tail p') (as @ bs)"
  proof -
    have link: "linked ?ws (sp_head p') (sp_tail p') (as @ bs)" using rem p'(2,3) by simp
    have "w \<notin> set (as @ bs)" using dist by auto
    then show ?thesis
      using link w len unfolding p'(1) linked_def by (auto simp: seg_frame nth_list_update)
  qed
  moreover have "\<forall>x < length (sp_waiters p'). w_settled (sp_waiters p' ! x) \<longleftrightarrow> x \<notin> set (as @ bs)"
    using D(2) new(2) dist len unfolding p'(1) length_list_update by auto
  moreover have "sorted_wrt (<) (granted p' @ map (call_of p') (as @ bs))"
  proof -
    have "granted p' = granted p @ (case a of Granted _ \<Rightarrow> [call_of p w] | _ \<Rightarrow> [])"
      by (simp add: granted_def p'(4) split: slot_answer.split)
    moreover have "sorted_wrt (<) (granted p @ map (call_of p) as @ map (call_of p) bs)" "as = [] \<Longrightarrow>
        sorted_wrt (<) (granted p @ [call_of p w] @ map (call_of p) bs)"
      using D(3) by (auto simp: sorted_wrt_append)
    moreover have same: "map (call_of p') (as @ bs) = map (call_of p) (as @ bs)" by (rule calls) auto
    ultimately show ?thesis unfolding same using a by (cases a) auto
  qed
  moreover have "mset (map fst (sp_answers p')) + mset (map (call_of p') (as @ bs)) = mset [0..<sp_calls p']"
  proof -
    have "map (call_of p') (as @ bs) = map (call_of p) (as @ bs)" by (rule calls) auto
    then show ?thesis using D(4) by (simp only: p'(4,5) map_append) simp
  qed
  ultimately show ?thesis using p'(6) by (simp add: pool_core_def)
qed

text \<open>The loops return.\<close>

lemma head_of: "pool_linked p q \<Longrightarrow> sp_head p = (case q of [] \<Rightarrow> None | w # _ \<Rightarrow> Some w)"
  by (cases q) (simp_all add: linked_def)

lemma removed_waiter:
  assumes "pool_core p (as @ w # bs)"
  shows "w_call (sp_waiters (removeWaiter w p) ! w) = call_of p w" "\<not> w_settled (sp_waiters (removeWaiter w p) ! w)"
    "w_reason (sp_waiters (removeWaiter w p) ! w) = w_reason (sp_waiters p ! w)"
proof -
  note D = pool_coreD [OF assms]
  have w: "w < length (sp_waiters p)" using core_bounds(3) [OF assms] by simp
  have "map caller (sp_waiters (removeWaiter w p)) ! w = map caller (sp_waiters p) ! w"
    "length (sp_waiters (removeWaiter w p)) = length (sp_waiters p)"
    using remove_waiter [OF D(1)] map_eq_imp_length_eq by (auto simp: same_callers_def)
  with w have c: "caller (sp_waiters (removeWaiter w p) ! w) = caller (sp_waiters p ! w)" by simp
  have "\<not> w_settled (sp_waiters p ! w)" using D(2) w by simp
  with c show "w_call (sp_waiters (removeWaiter w p) ! w) = call_of p w" "\<not> w_settled (sp_waiters (removeWaiter w p) ! w)"
    "w_reason (sp_waiters (removeWaiter w p) ! w) = w_reason (sp_waiters p ! w)"
    by (simp_all add: caller_def call_of_def)
qed

lemma removed_fields:
  assumes "pool_core p (as @ w # bs)"
  shows "sp_answers (removeWaiter w p) = sp_answers p" "sp_calls (removeWaiter w p) = sp_calls p"
    "sp_active (removeWaiter w p) = sp_active p" "sp_released (removeWaiter w p) = sp_released p"
    "sp_retired (removeWaiter w p) = sp_retired p" "sp_limit (removeWaiter w p) = sp_limit p"
proof -
  obtain front rear ws where "removeWaiter w p = p\<lparr>sp_head := front, sp_tail := rear, sp_waiters := ws\<rparr>"
    using remove_waiter [OF pool_coreD(1) [OF assms]] by blast
  then show "sp_answers (removeWaiter w p) = sp_answers p" "sp_calls (removeWaiter w p) = sp_calls p"
    "sp_active (removeWaiter w p) = sp_active p" "sp_released (removeWaiter w p) = sp_released p"
    "sp_retired (removeWaiter w p) = sp_retired p" "sp_limit (removeWaiter w p) = sp_limit p"
    by simp_all
qed

lemma drain_returns:
  "pool_core p q \<Longrightarrow> sp_retired p = None \<or> q = [] \<Longrightarrow> \<exists>p' q'. drain p = Some p' \<and> pool_inv p' q'"
proof (induction q arbitrary: p)
  case Nil
  then have "sp_head p = None" using head_of [OF pool_coreD(1)] by force
  then have "drain p = Some p" by (simp add: drain.simps)
  with Nil show ?case by (intro exI [of _ p] exI [of _ "[]"]) (simp add: pool_inv_def)
next
  case (Cons w q)
  have core: "pool_core p ([] @ w # q)" using Cons.prems by simp
  show ?case
  proof (cases "sp_retired p = None \<and> has_slot p")
    case False
    then have "(sp_retired p = None \<and> has_slot p) = False" by simp
    then have "drain p = Some p" by (subst drain.simps) (simp only: if_False)
    with False Cons.prems show ?thesis by (intro exI [of _ p] exI [of _ "w # q"]) (auto simp: pool_inv_def)
  next
    case True
    let ?p1 = "removeWaiter w p"
    let ?p2 = "grant (w_call (sp_waiters ?p1 ! w)) (update_waiter w (\<lambda>y. y\<lparr>w_settled := True\<rparr>) ?p1)"
    note gone = removed_waiter [OF core] and same = removed_fields [OF core]
    have step: "drain p = drain ?p2"
      using True gone(2) head_of [OF pool_coreD(1) [OF core]] by (subst drain.simps) (simp add: Let_def)
    have "pool_core ?p2 ([] @ q)"
      by (rule leave [OF core, of _ "Granted (length (sp_released p))"])
        (use pool_coreD(5) [OF core] in \<open>simp_all add: grant_def answer_call_def update_waiter_def gone same\<close>)
    moreover have "sp_retired ?p2 = None" using True by (simp add: grant_def answer_call_def update_waiter_def same)
    ultimately show ?thesis using Cons.IH [of ?p2] step by simp
  qed
qed

lemma refuse_all_returns:
  "pool_core p q \<Longrightarrow> \<exists>p'. refuse_all e p = Some p' \<and> pool_core p' []"
proof (induction q arbitrary: p)
  case Nil
  then have "sp_head p = None" using head_of [OF pool_coreD(1)] by force
  with Nil show ?case by (simp add: refuse_all.simps)
next
  case (Cons w q)
  have core: "pool_core p ([] @ w # q)" using Cons.prems by simp
  let ?p1 = "removeWaiter w p"
  let ?p2 = "answer_call (w_call (sp_waiters ?p1 ! w)) (Refused e) (update_waiter w (\<lambda>y. y\<lparr>w_settled := True\<rparr>) ?p1)"
  note gone = removed_waiter [OF core] and same = removed_fields [OF core]
  have "refuse_all e p = refuse_all e ?p2"
    using gone(2) head_of [OF pool_coreD(1) [OF core]] by (subst refuse_all.simps) (simp add: Let_def)
  moreover have "pool_core ?p2 ([] @ q)"
    by (rule leave [OF core, of _ "Refused e"])
      (use pool_coreD(5) [OF core] in \<open>simp_all add: answer_call_def update_waiter_def gone same\<close>)
  ultimately show ?case using Cons.IH [of ?p2] by simp
qed

text \<open>The fields the invariant speaks of.\<close>

lemma pool_core_cong:
  assumes "pool_core p q" "sp_waiters p' = sp_waiters p" "sp_head p' = sp_head p" "sp_tail p' = sp_tail p"
    "sp_answers p' = sp_answers p" "sp_calls p' = sp_calls p" "sp_active p' = int (length (filter Not (sp_released p')))"
  shows "pool_core p' q"
proof -
  have "call_of p' = call_of p" "granted p' = granted p" using assms by (simp_all add: call_of_def granted_def fun_eq_iff)
  with assms show ?thesis by (simp add: pool_core_def)
qed

lemma core_answer_new:
  assumes core: "pool_core p q" and a: "(\<forall>r. a \<noteq> Granted r) \<or> q = []"
    and p': "sp_waiters p' = sp_waiters p" "sp_head p' = sp_head p" "sp_tail p' = sp_tail p"
      "sp_answers p' = sp_answers p @ [(sp_calls p, a)]" "sp_calls p' = Suc (sp_calls p)"
      "sp_active p' = int (length (filter Not (sp_released p')))"
  shows "pool_core p' q"
proof -
  note D = pool_coreD [OF core]
  have call: "call_of p' = call_of p" using p'(1) by (simp add: call_of_def fun_eq_iff)
  have "granted p' = granted p @ (case a of Granted _ \<Rightarrow> [sp_calls p] | _ \<Rightarrow> [])"
    by (simp add: granted_def p'(4) split: slot_answer.split)
  moreover have "sorted_wrt (<) (granted p @ [sp_calls p])" if "q = []"
    using D(3) core_bounds(1) [OF core] that by (simp add: sorted_wrt_append)
  ultimately have "sorted_wrt (<) (granted p' @ map (call_of p') q)"
    using D(3) a unfolding call by (cases a) auto
  moreover have "mset (map fst (sp_answers p')) + mset (map (call_of p') q) = mset [0..<sp_calls p']"
    unfolding call p'(4,5) using D(4) by simp
  ultimately show ?thesis using D(1,2) p' by (simp add: pool_core_def)
qed

lemma has_slot_cong: "sp_limit p' = sp_limit p \<Longrightarrow> sp_active p' = sp_active p \<Longrightarrow> has_slot p' = has_slot p"
  by (simp add: has_slot_def split: option.split)

lemma acquire_inv:
  assumes inv: "pool_inv p q"
  shows "\<exists>q'. pool_inv (acquire aborted reason p) q'"
proof -
  note core = inv [unfolded pool_inv_def, THEN conjunct1]
  note D = pool_coreD [OF core]
  let ?entry = "p\<lparr>sp_calls := Suc (sp_calls p)\<rparr>"
  have refused: "pool_inv (answer_call (sp_calls p) (Refused e) ?entry) q" for e
  proof -
    have "pool_core (answer_call (sp_calls p) (Refused e) ?entry) q"
      by (rule core_answer_new [OF core, of "Refused e"]) (simp_all add: answer_call_def D(5))
    moreover have "has_slot (answer_call (sp_calls p) (Refused e) ?entry) = has_slot p"
      by (rule has_slot_cong) (simp_all add: answer_call_def)
    ultimately show ?thesis using inv by (simp add: pool_inv_def) (simp add: answer_call_def)
  qed
  consider (now) e where "acquire aborted reason p = answer_call (sp_calls p) (Refused e) ?entry"
    | (slot) "sp_retired p = None" "has_slot p" "acquire aborted reason p = grant (sp_calls p) ?entry"
    | (wait) "sp_retired p = None" "\<not> has_slot p" "acquire aborted reason p = enqueueWaiter \<lparr>w_call = sp_calls p,
        w_reason = reason, w_next = None, w_previous = None, w_queued = True, w_settled = False\<rparr> ?entry"
    by (cases aborted; cases "sp_retired p"; cases "has_slot p") (auto simp: acquire_def Let_def has_slot_def)
  then show ?thesis
  proof cases
    case now
    with refused show ?thesis by auto
  next
    case slot
    then have "q = []" using inv by (simp add: pool_inv_def)
    moreover have "pool_core (grant (sp_calls p) ?entry) q"
      by (rule core_answer_new [OF core, of "Granted (length (sp_released p))"])
        (simp_all add: calculation grant_def answer_call_def D(5))
    ultimately show ?thesis using slot(3) by (auto simp: pool_inv_def)
  next
    case wait
    let ?x = "\<lparr>w_call = sp_calls p, w_reason = reason, w_next = None, w_previous = None, w_queued = True, w_settled = False\<rparr>"
    let ?p = "enqueueWaiter ?x ?entry" and ?w = "length (sp_waiters p)"
    have link: "pool_linked ?p (q @ [?w])" using enqueue_waiter [of ?entry q ?x] D(1) by simp
    have fields: "sp_answers ?p = sp_answers p" "sp_calls ?p = Suc (sp_calls p)" "sp_active ?p = sp_active p"
      "sp_released ?p = sp_released p" "sp_retired ?p = sp_retired p" "sp_limit ?p = sp_limit p"
      by (simp_all add: enqueueWaiter_def Let_def update_waiter_def split: option.split)
    have callers: "map caller (sp_waiters ?p) = map caller (sp_waiters p) @ [caller ?x]"
    proof (cases "sp_tail p")
      case (Some v)
      have "map caller (sp_waiters ?p) = map caller (sp_waiters p @ [?x\<lparr>w_previous := sp_tail p\<rparr>])"
        using Some by (simp add: enqueueWaiter_def Let_def update_waiter_def map_update_same [of caller] caller_def)
      then show ?thesis by (simp add: caller_def)
    qed (simp add: enqueueWaiter_def Let_def caller_def)
    then have len: "length (sp_waiters ?p) = Suc ?w" by (metis length_append_singleton length_map)
    have at: "caller (sp_waiters ?p ! x) = (if x < ?w then caller (sp_waiters p ! x) else caller ?x)" if "x < Suc ?w" for x
    proof -
      have "map caller (sp_waiters ?p) ! x = (map caller (sp_waiters p) @ [caller ?x]) ! x" using callers by simp
      with that len show ?thesis by (auto simp: nth_append less_Suc_eq)
    qed
    have old: "x < ?w" if "x \<in> set q" for x using core_bounds(3) [OF core that] .
    have at_old: "w_call (sp_waiters ?p ! x) = w_call (sp_waiters p ! x)"
      "w_settled (sp_waiters ?p ! x) = w_settled (sp_waiters p ! x)" if "x < ?w" for x
      using at [OF less_SucI [OF that]] that by (simp_all add: caller_def)
    have at_new: "w_call (sp_waiters ?p ! ?w) = sp_calls p" "\<not> w_settled (sp_waiters ?p ! ?w)"
      using at [OF lessI] by (simp_all add: caller_def)
    have calls: "map (call_of ?p) (q @ [?w]) = map (call_of p) q @ [sp_calls p]"
      using at_old(1) at_new(1) old by (simp add: call_of_def)
    have "\<forall>x < length (sp_waiters ?p). w_settled (sp_waiters ?p ! x) \<longleftrightarrow> x \<notin> set (q @ [?w])"
    proof (intro allI impI)
      fix x assume "x < length (sp_waiters ?p)"
      then have "x < ?w \<or> x = ?w" using len by auto
      with at_old(2) at_new(2) D(2) old show "w_settled (sp_waiters ?p ! x) \<longleftrightarrow> x \<notin> set (q @ [?w])"
        by auto
    qed
    moreover have "sorted_wrt (<) (granted ?p @ map (call_of ?p) (q @ [?w]))"
    proof -
      have "granted ?p = granted p" unfolding granted_def fields(1) ..
      moreover have "\<forall>x \<in> set (granted p @ map (call_of p) q). x < sp_calls p" using core_bounds(1,2) [OF core] by auto
      moreover have "sorted_wrt (<) ((granted p @ map (call_of p) q) @ [sp_calls p])"
        using D(3) calculation(2) by (simp add: sorted_wrt_append)
      ultimately show ?thesis unfolding calls by simp
    qed
    moreover have "mset (map fst (sp_answers ?p)) + mset (map (call_of ?p) (q @ [?w])) = mset [0..<sp_calls ?p]"
      unfolding calls fields using D(4) by simp
    ultimately have "pool_core ?p (q @ [?w])" using link D(5) by (simp add: pool_core_def fields)
    moreover have "has_slot ?p = has_slot p" by (rule has_slot_cong) (simp_all only: fields)
    ultimately have "pool_inv ?p (q @ [?w])" using wait(1,2) by (simp add: pool_inv_def fields)
    then show ?thesis using wait(3) by auto
  qed
qed

lemma abort_inv:
  assumes inv: "pool_inv p q" and w: "w < length (sp_waiters p)"
  shows "\<exists>q'. pool_inv (abort_waiter w p) q'"
proof -
  note core = inv [unfolded pool_inv_def, THEN conjunct1]
  note D = pool_coreD [OF core]
  show ?thesis
  proof (cases "w_settled (sp_waiters p ! w)")
    case True
    with inv show ?thesis by (auto simp: abort_waiter_def)
  next
    case False
    with D(2) w have "w \<in> set q" by blast
    then obtain as bs where q: "q = as @ w # bs" by (meson split_list)
    let ?flag = "\<lambda>y. y\<lparr>w_settled := True\<rparr>" and ?ws = "(sp_waiters p)[w := (sp_waiters p ! w)\<lparr>w_settled := True\<rparr>]"
    have core': "pool_core p (as @ w # bs)" using core q by simp
    have queued: "w_queued (sp_waiters p ! w)" using D(1) w \<open>w \<in> set q\<close> by (simp add: linked_def)
    have same: "w_previous (?ws ! w) = w_previous (sp_waiters p ! w)" "w_next (?ws ! w) = w_next (sp_waiters p ! w)"
      "w_queued (?ws ! w)" using w queued by simp_all
    note fields = removeWaiter_fields [of "update_waiter w ?flag p" w, unfolded update_waiter_def, simplified, OF same(3)]
    have dist: "distinct (as @ w # bs)" using D(1) q by (simp add: linked_def)
    have others: "w_previous (sp_waiters p ! w) \<noteq> Some w" "w_next (sp_waiters p ! w) \<noteq> Some w"
    proof -
      obtain m where seg: "seg (sp_waiters p) None (sp_head p) as m (Some w)" "w_previous (sp_waiters p ! w) = m"
          "seg (sp_waiters p) (Some w) (w_next (sp_waiters p ! w)) bs (sp_tail p) None"
        using D(1) by (auto simp: linked_def q seg_append)
      show "w_previous (sp_waiters p ! w) \<noteq> Some w"
        using seg(1,2) dist by (cases as rule: rev_cases) (auto simp: seg_last)
      show "w_next (sp_waiters p ! w) \<noteq> Some w" using seg(3) dist by (cases bs) auto
    qed
    have commute: "unlinked ?ws w = (unlinked (sp_waiters p) w)[w := (unlinked (sp_waiters p) w ! w)\<lparr>w_settled := True\<rparr>]"
      using others w unfolding unlinked_def Let_def same
      by (cases "w_previous (sp_waiters p ! w)"; cases "w_next (sp_waiters p ! w)")
        (auto intro!: nth_equalityI waiter.equality simp: nth_update_any)
    let ?a = "Refused (signalAbortError (w_reason (sp_waiters p ! w)))"
    have abort: "abort_waiter w p = answer_call (call_of p w) ?a (removeWaiter w (update_waiter w ?flag p))"
      using False by (simp add: abort_waiter_def call_of_def)
    note plain = removeWaiter_fields [OF queued]
    have "pool_core (abort_waiter w p) (as @ bs)"
      by (rule leave [OF core', of _ ?a])
        (use D(5) in \<open>simp_all add: abort answer_call_def update_waiter_def fields plain commute w\<close>)
    moreover have "has_slot (abort_waiter w p) = has_slot p" "sp_retired (abort_waiter w p) = sp_retired p"
      by (rule has_slot_cong) (simp_all add: abort answer_call_def update_waiter_def fields)
    ultimately show ?thesis using inv q by (auto simp: pool_inv_def)
  qed
qed

lemma step_returns:
  assumes inv: "pool_inv p q"
  shows "\<exists>p' q'. pool_step op p = Some p' \<and> pool_inv p' q'"
proof -
  note core = inv [unfolded pool_inv_def, THEN conjunct1]
  note D = pool_coreD [OF core]
  have stays: "sp_retired p \<noteq> None \<Longrightarrow> q = []" using inv by (simp add: pool_inv_def)
  show ?thesis
  proof (cases op)
    case (Acquire aborted reason)
    with acquire_inv [OF inv] show ?thesis by simp
  next
    case (AbortWaiter w)
    with inv abort_inv [OF inv, of w] show ?thesis by auto
  next
    case (UpdateLimit l)
    show ?thesis
    proof (cases "sp_retired p")
      case None
      have "pool_core (p\<lparr>sp_limit := Some l\<rparr>) q" by (rule pool_core_cong [OF core]) (simp_all add: D(5))
      from drain_returns [OF this] None UpdateLimit show ?thesis by (simp add: updateLimit_def)
    qed (use UpdateLimit inv in \<open>auto simp: updateLimit_def\<close>)
  next
    case (Retire e)
    show ?thesis
    proof (cases "sp_retired p")
      case None
      have "pool_core (p\<lparr>sp_retired := Some e\<rparr>) q" by (rule pool_core_cong [OF core]) (simp_all add: D(5))
      from refuse_all_returns [OF this, of e] None Retire show ?thesis by (auto simp: retire_def pool_inv_def)
    qed (use Retire inv in \<open>auto simp: retire_def\<close>)
  next
    case (WhenIdle c)
    have "pool_core (whenIdle c p) q" by (rule pool_core_cong [OF core]) (simp_all add: whenIdle_def D(5))
    moreover have "has_slot (whenIdle c p) = has_slot p" by (rule has_slot_cong) (simp_all add: whenIdle_def)
    ultimately show ?thesis using inv WhenIdle by (auto simp: pool_inv_def whenIdle_def)
  next
    case (Release r)
    show ?thesis
    proof (cases "r < length (sp_released p) \<and> \<not> sp_released p ! r")
      case False
      with inv Release show ?thesis by (auto simp: release_slot_def)
    next
      case True
      let ?p1 = "p\<lparr>sp_released := (sp_released p)[r := True], sp_active := sp_active p - 1\<rparr>"
      have count: "length (filter Not (bs[r := True])) + 1 = length (filter Not bs)" if "r < length bs" "\<not> bs ! r" for bs
        using that by (induction bs arbitrary: r) (auto simp: nth_Cons split: nat.splits)
      have "pool_core ?p1 q"
        by (rule pool_core_cong [OF core]) (use D(5) count [of "sp_released p"] True in \<open>simp_all\<close>)
      then have "\<exists>p2 q2. drain ?p1 = Some p2 \<and> pool_inv p2 q2" by (rule drain_returns) (use stays in \<open>cases "sp_retired p"; simp\<close>)
      then obtain p2 q2 where p2: "drain ?p1 = Some p2" "pool_inv p2 q2" by blast
      let ?p3 = "if sp_active p2 = 0
         then p2\<lparr>sp_idle := None, sp_notified := sp_notified p2 @ (case sp_idle p2 of None \<Rightarrow> [] | Some c \<Rightarrow> [c])\<rparr> else p2"
      have core2: "pool_core p2 q2" using p2(2) by (simp add: pool_inv_def)
      have "pool_core ?p3 q2" by (rule pool_core_cong [OF core2]) (simp_all add: pool_coreD(5) [OF core2])
      moreover have "has_slot ?p3 = has_slot p2" "sp_retired ?p3 = sp_retired p2" by (rule has_slot_cong) simp_all
      ultimately have "pool_inv ?p3 q2" using p2(2) by (metis pool_inv_def)
      with Release True p2(1) show ?thesis by (auto simp: release_slot_def)
    qed
  qed
qed

lemma run_returns: "pool_inv p q \<Longrightarrow> \<exists>p' q'. pool_run ops p = Some p' \<and> pool_inv p' q'"
proof (induction ops arbitrary: p q)
  case (Cons op ops)
  from step_returns [OF Cons.prems, of op] Cons.IH show ?case by fastforce
qed auto

lemma new_pool_inv: "pool_inv new_slot_pool []"
  by (simp add: pool_inv_def pool_core_def new_slot_pool_def linked_def granted_def has_slot_def)

section \<open>What the pool guarantees\<close>

definition waiting :: "slot_pool \<Rightarrow> nat list" where
  "waiting p = map w_call (filter w_queued (sp_waiters p))"

lemma waiting_set:
  assumes "pool_inv p q" shows "mset (waiting p) = mset (map (call_of p) q)"
proof -
  have link: "pool_linked p q" using assms by (simp add: pool_inv_def pool_core_def)
  have "filter w_queued (sp_waiters p) = map ((!) (sp_waiters p)) (filter (\<lambda>w. w_queued (sp_waiters p ! w)) [0..<length (sp_waiters p)])"
    using filter_map [of w_queued "(!) (sp_waiters p)" "[0..<length (sp_waiters p)]"] by (simp add: map_nth comp_def)
  moreover have "mset (filter (\<lambda>w. w_queued (sp_waiters p ! w)) [0..<length (sp_waiters p)]) = mset q"
  proof (rule set_eq_iff_mset_eq_distinct [THEN iffD1])
    show "set (filter (\<lambda>w. w_queued (sp_waiters p ! w)) [0..<length (sp_waiters p)]) = set q"
      using link seg_bound by (auto simp: linked_def)
  qed (use link in \<open>simp_all add: linked_def\<close>)
  ultimately have "mset (waiting p) = image_mset (\<lambda>w. w_call (sp_waiters p ! w)) (mset q)"
    unfolding waiting_def by (metis (no_types, lifting) comp_apply image_mset_cong list.map_comp mset_map)
  then show ?thesis by (simp add: call_of_def [abs_def])
qed

text \<open>C30. The loops over the linked list of waiters end: after any sequence of operations, waiters removed from
  the middle of the list included, every operation returns.\<close>

theorem slot_pool_returns: "\<exists>p. pool_run ops new_slot_pool = Some p"
  using run_returns [OF new_pool_inv] by blast

text \<open>C31. The slots are handed out fairly and none is lost: after any sequence of operations, the slots taken
  are those granted and not released, slots were granted in the order of the calls and before every call
  still waiting, nobody waits while a slot is free or when the session is retired, and every call is
  answered once or waiting.\<close>

theorem slots_are_granted_in_order:
  assumes "pool_run ops new_slot_pool = Some p"
  shows "sp_active p = int (length (filter Not (sp_released p))) \<and>
    sorted_wrt (<) (granted p) \<and> (\<forall>i. i \<in> set (granted p) \<longrightarrow> (\<forall>j. j \<in> set (waiting p) \<longrightarrow> i < j)) \<and>
    (has_slot p \<or> sp_retired p \<noteq> None \<longrightarrow> waiting p = []) \<and>
    mset (map fst (sp_answers p)) + mset (waiting p) = mset [0..<sp_calls p]"
proof -
  obtain q where inv: "pool_inv p q" using run_returns [OF new_pool_inv, of ops] assms by auto
  then have core: "pool_core p q" by (simp add: pool_inv_def)
  note D = pool_coreD [OF core] and waits = waiting_set [OF inv]
  have set: "set (waiting p) = set (map (call_of p) q)" using arg_cong [OF waits, of set_mset] by simp
  have "sorted_wrt (<) (granted p)" "\<forall>i \<in> set (granted p). \<forall>j \<in> set (map (call_of p) q). i < j"
    using D(3) by (simp_all add: sorted_wrt_append)
  moreover have "waiting p = []" if "has_slot p \<or> sp_retired p \<noteq> None"
  proof -
    have "q = []" using inv that by (auto simp: pool_inv_def)
    with set show ?thesis by simp
  qed
  ultimately show ?thesis using D(4,5) waits by (simp only: set) (simp add: Ball_def)
qed

definition pool_example :: "pool_op list" where
  "pool_example = [UpdateLimit 1, Acquire None (Value JUndef), Acquire None (Value JUndef), Acquire None (Value JUndef),
    Acquire None (Value JUndef), AbortWaiter 1, Release 0]"

lemma pool_example_run: "case pool_run pool_example new_slot_pool of None \<Rightarrow> False
    | Some p \<Rightarrow> granted p = [0, 1] \<and> waiting p = [3] \<and> sp_active p = 1"
  by code_simp

lemma slots_are_granted_in_order_witness:
  "\<exists>p. pool_run pool_example new_slot_pool = Some p \<and> (\<forall>i \<in> {0, 1}. \<forall>j \<in> {3}. i < (j :: nat)) \<and>
    mset (map fst (sp_answers p)) + mset [3] = mset [0..<sp_calls p] \<and> granted p = [0, 1]"
proof -
  obtain p where p: "pool_run pool_example new_slot_pool = Some p" using run_returns [OF new_pool_inv] by blast
  then have "granted p = [0, 1]" "waiting p = [3]" using pool_example_run by simp_all
  with slots_are_granted_in_order [OF p] p show ?thesis by simp
qed

end
