(* ===== verification/NumberArg.thy ===== *)
theory NumberArg
  imports Errors
begin

text \<open>
  \<open>numberArg\<close> and \<open>blockDurationMs\<close> of \<open>src/src/protocol-core.ts\<close>: reading a command argument as a
  finite number. \<open>Number(text)\<close> of an arbitrary text is written out: the white space around the
  literal, the radix prefixes, \<open>Infinity\<close>, and decimal literals with a fraction and an exponent,
  whose exact rational value is rounded to the nearest double, ties to even.
\<close>

section \<open>Rounding a rational to a double\<close>

fun bit_len :: "nat \<Rightarrow> nat" where
  "bit_len n = (if n = 0 then 0 else Suc (bit_len (n div 2)))"

declare bit_len.simps [simp del]

definition round_half_even :: "nat \<Rightarrow> nat \<Rightarrow> nat" where
  "round_half_even n d =
    (let q = n div d; r = n mod d in if 2 * r > d \<or> (2 * r = d \<and> odd q) then q + 1 else q)"

text \<open>
  The exponent \<open>e\<close> with \<open>2^52 \<le> (n / d) / 2^e < 2^53\<close>, at least that of the subnormal doubles.
\<close>

definition ratio_exponent :: "nat \<Rightarrow> nat \<Rightarrow> int" where
  "ratio_exponent n d =
    (let b = int (bit_len n) - int (bit_len d);
         f = (if n * 2 ^ nat (- b) \<ge> d * 2 ^ nat b then b else b - 1)
     in max (f - 52) (- 1074))"

definition NAN :: "64 word" where "NAN = 0x7FF8000000000000"

definition infinite_double :: "bool \<Rightarrow> jsval" where
  "infinite_double neg = JFloat (if neg then 0xFFF0000000000000 else 0x7FF0000000000000)"

text \<open>The double \<open>\<plusminus> q * 2^e\<close> for \<open>q \<le> 2^53\<close>.\<close>

definition make_double :: "bool \<Rightarrow> nat \<Rightarrow> int \<Rightarrow> jsval" where
  "make_double neg q e =
    (let (q, e) = (if q = 2 ^ 53 then (2 ^ 52, e + 1) else (q, e));
         sg = (\<lambda>n. JInt (if neg then - int n else int n))
     in if q = 0 then (if neg then JFloat 0x8000000000000000 else JInt 0)
        else if e > 971 then infinite_double neg
        else if e \<ge> 0 then sg (q * 2 ^ nat e)
        else if q mod 2 ^ nat (- e) = 0 then sg (q div 2 ^ nat (- e))
        else JFloat (of_nat ((if neg then 2 ^ 63 else 0) +
          (if q < 2 ^ 52 then q else nat (e + 1075) * 2 ^ 52 + (q - 2 ^ 52)))))"

definition double_of_ratio :: "bool \<Rightarrow> nat \<Rightarrow> nat \<Rightarrow> jsval" where
  "double_of_ratio neg n d =
    (let e = ratio_exponent n d
     in make_double neg (round_half_even (n * 2 ^ nat (- e)) (d * 2 ^ nat e)) e)"

section \<open>\<open>Number(text)\<close>\<close>

definition trim_spaces :: "jsstr \<Rightarrow> jsstr" where
  "trim_spaces s = rev (dropWhile is_space_unit (rev (dropWhile is_space_unit s)))"

text \<open>A digit of a radix up to 16, and the value of a digit sequence.\<close>

definition radix_digit :: "16 word \<Rightarrow> nat option" where
  "radix_digit u =
    (if is_digit u then Some (digit_value u)
     else if 0x61 \<le> u \<and> u \<le> 0x66 then Some (unat u - 87)
     else if 0x41 \<le> u \<and> u \<le> 0x46 then Some (unat u - 55)
     else None)"

fun radix_value :: "nat \<Rightarrow> nat \<Rightarrow> jsstr \<Rightarrow> nat option" where
  "radix_value r acc [] = Some acc"
| "radix_value r acc (u # us) =
    (case radix_digit u of
       None \<Rightarrow> None
     | Some d \<Rightarrow> if d < r then radix_value r (acc * r + d) us else None)"

definition radix_of_unit :: "16 word \<Rightarrow> nat option" where
  "radix_of_unit u =
    (if u = 0x78 \<or> u = 0x58 then Some 16
     else if u = 0x6F \<or> u = 0x4F then Some 8
     else if u = 0x62 \<or> u = 0x42 then Some 2 else None)"

definition radix_literal :: "jsstr \<Rightarrow> nat option" where
  "radix_literal s =
    (case s of
       z # x # u # us \<Rightarrow>
         (if z = 0x30 then (case radix_of_unit x of None \<Rightarrow> None | Some r \<Rightarrow> radix_value r 0 (u # us))
          else None)
     | _ \<Rightarrow> None)"

text \<open>The exponent after the digits, and the mantissa with the power of ten of a decimal literal.\<close>

definition exponent_part :: "jsstr \<Rightarrow> int option" where
  "exponent_part s =
    (case s of
       [] \<Rightarrow> Some 0
     | u # us \<Rightarrow> if (u = 0x65 \<or> u = 0x45) \<and> is_integer_text us then Some (integer_of_text us) else None)"

definition decimal_literal :: "jsstr \<Rightarrow> (nat \<times> int) option" where
  "decimal_literal s =
    (let whole = takeWhile is_digit s; rest = dropWhile is_digit s;
         fraction = (case rest of u # us \<Rightarrow> if u = 0x2E then takeWhile is_digit us else [] | [] \<Rightarrow> []);
         tail = (case rest of u # us \<Rightarrow> if u = 0x2E then dropWhile is_digit us else rest | [] \<Rightarrow> [])
     in if whole = [] \<and> fraction = [] then None
        else (case exponent_part tail of
          None \<Rightarrow> None
        | Some e \<Rightarrow> Some (digits_value (whole @ fraction), e - int (length fraction))))"

definition number_of_text :: "jsstr \<Rightarrow> jsval" where
  "number_of_text text_in =
    (let s = trim_spaces text_in; (neg, body) = signed_body s
     in if s = [] then JInt 0
        else if body = ascii ''Infinity'' then infinite_double neg
        else (case radix_literal s of
          Some n \<Rightarrow> double_of_ratio False n 1
        | None \<Rightarrow>
            (case decimal_literal body of
               None \<Rightarrow> JFloat NAN
             | Some (m, e) \<Rightarrow> double_of_ratio neg (m * 10 ^ nat e) (10 ^ nat (- e)))))"

section \<open>Number arguments\<close>

definition is_finite :: "jsval \<Rightarrow> bool" where
  "is_finite v = (case v of JFloat w \<Rightarrow> unat (drop_bit 52 w) mod 2048 \<noteq> 2047 | JInt _ \<Rightarrow> True | _ \<Rightarrow> False)"

definition range_error :: error where
  "range_error = ferric_error ''numeric command argument exceeds the JavaScript safe range''"

definition numberArg :: "jsval \<Rightarrow> jsval res" where
  "numberArg v =
    rbind (case v of
        JBig i \<Rightarrow> if safe_int i then Inr (JInt i) else Inl range_error
      | JInt i \<Rightarrow> Inr (JInt i)
      | JFloat w \<Rightarrow> Inr (JFloat w)
      | _ \<Rightarrow> rbind (as_text v) (\<lambda>t. Inr (number_of_text t))) (\<lambda>number.
    if \<not> is_finite number then Inl (ferric_error ''numeric command argument must be finite'')
    else (case number of
        JInt i \<Rightarrow> if safe_int i then Inr (JInt i) else Inl range_error
      | _ \<Rightarrow> Inr number))"

text \<open>Sign, numerator and denominator of a finite number.\<close>

definition number_ratio :: "jsval \<Rightarrow> bool \<times> nat \<times> nat" where
  "number_ratio v =
    (case v of
       JInt i \<Rightarrow> (i < 0, nat \<bar>i\<bar>, 1)
     | JFloat w \<Rightarrow>
         (let e = unat (drop_bit 52 w) mod 2048; m = unat w mod 2 ^ 52;
              (q, x) = (if e = 0 then (m, - 1074) else (m + 2 ^ 52, int e - 1075))
          in (bit w 63, q * 2 ^ nat x, 2 ^ nat (- x)))
     | _ \<Rightarrow> (False, 0, 1))"

text \<open>\<open>duration * multiplier\<close>, and \<open>Math.min\<close> with the largest safe integer.\<close>

definition times_number :: "jsval \<Rightarrow> nat \<Rightarrow> jsval" where
  "times_number v k = (case number_ratio v of (neg, n, d) \<Rightarrow> double_of_ratio neg (n * k) d)"

definition min_safe :: "jsval \<Rightarrow> jsval" where
  "min_safe v =
    (case v of
       JInt i \<Rightarrow> JInt (min MAX_SAFE i)
     | _ \<Rightarrow> if v = infinite_double False then JInt MAX_SAFE else v)"

definition is_negative :: "jsval \<Rightarrow> bool" where
  "is_negative v = (case number_ratio v of (neg, n, d) \<Rightarrow> neg \<and> n \<noteq> 0)"

definition blockDurationMs :: "jsval \<Rightarrow> nat \<Rightarrow> jsval option" where
  "blockDurationMs v multiplier =
    (case numberArg v of
       Inl _ \<Rightarrow> None
     | Inr duration \<Rightarrow>
         if is_negative duration then None else Some (min_safe (times_number duration multiplier)))"

section \<open>Lemmas\<close>

lemma bit_len_bounds: "0 < n \<Longrightarrow> 0 < bit_len n \<and> 2 ^ (bit_len n - 1) \<le> n \<and> n < 2 ^ bit_len n"
proof (induction n rule: bit_len.induct)
  case (1 n)
  show ?case
  proof (cases "n = Suc 0")
    case True
    then show ?thesis by (simp add: bit_len.simps [of "Suc 0"] bit_len.simps [of 0])
  next
    case False
    with 1 have ih: "0 < bit_len (n div 2)" "2 ^ (bit_len (n div 2) - 1) \<le> n div 2" "n div 2 < 2 ^ bit_len (n div 2)"
      by auto
    then obtain l where l: "bit_len (n div 2) = Suc l" by (cases "bit_len (n div 2)") auto
    from 1(2) have "bit_len n = Suc (Suc l)" using l by (simp add: bit_len.simps [of n])
    moreover have "2 * (n div 2) \<le> n" "n < 2 * (n div 2) + 2" by auto
    moreover have "2 ^ l \<le> n div 2" "n div 2 < 2 * 2 ^ l" using ih l by auto
    ultimately show ?thesis by simp
  qed
qed

lemma double_of_int:
  assumes "n < 2 ^ 53" "neg \<longrightarrow> 0 < n"
  shows "double_of_ratio neg n 1 = JInt (if neg then - int n else int n)"
proof (cases "n = 0")
  case True
  then have "ratio_exponent n 1 = - 54"
    by (simp add: ratio_exponent_def bit_len.simps [of 0] bit_len.simps [of "Suc 0"] Let_def)
  with True assms(2) show ?thesis
    by (simp add: double_of_ratio_def round_half_even_def make_double_def)
next
  case False
  define l where "l = bit_len n - 1"
  from False bit_len_bounds [of n] have l: "bit_len n = Suc l" "2 ^ l \<le> n" "n < 2 ^ Suc l"
    by (auto simp: l_def)
  have "(2 :: nat) ^ l < 2 ^ 53" using l(2) assms(1) by (rule le_less_trans)
  then have l53: "l < 53" by (simp only: power_strict_increasing_iff one_less_numeral_iff semiring_norm)
  have one: "bit_len (Suc 0) = 1" by (simp add: bit_len.simps [of "Suc 0"] bit_len.simps [of 0])
  have e: "ratio_exponent n 1 = int l - 52"
    using l l53 by (simp add: ratio_exponent_def one Let_def)
  have q: "n * 2 ^ (52 - l) < 2 ^ 53"
  proof -
    have "n * 2 ^ (52 - l) < 2 ^ Suc l * 2 ^ (52 - l)" using l(3) by simp
    also have "\<dots> = 2 ^ (Suc l + (52 - l))" by (simp only: power_add)
    also have "\<dots> = 2 ^ 53" using l53 by simp
    finally show ?thesis .
  qed
  have ne: "nat (- (int l - 52)) = 52 - l" "nat (int l - 52) = 0" using l53 by auto
  have r: "round_half_even (n * 2 ^ (52 - l)) 1 = n * 2 ^ (52 - l)"
    by (simp add: round_half_even_def)
  show ?thesis
  proof (cases "l = 52")
    case True
    with e q False assms show ?thesis
      by (simp add: double_of_ratio_def make_double_def round_half_even_def)
  next
    case less: False
    with l53 have "int l - 52 < 0" by simp
    moreover have "n * 2 ^ (52 - l) \<noteq> 2 ^ 53" using q by simp
    ultimately show ?thesis using False
      unfolding double_of_ratio_def e Let_def ne power_0 mult_1_right r make_double_def
      by (simp only: if_False split_conv ne) (auto simp: ne)
  qed
qed

text \<open>The text of an integer is read as that integer.\<close>

lemma digit_not: "is_digit u \<Longrightarrow> \<not> is_space_unit u \<and> radix_of_unit u = None \<and> u \<noteq> 0x2D \<and> u \<noteq> 0x2B \<and> u \<noteq> 0x2E"
  by (auto simp: is_digit_def is_space_unit_def radix_of_unit_def word_le_nat_alt)

lemma trim_spaces_id:
  assumes "s \<noteq> []" "\<not> is_space_unit (hd s)" "\<not> is_space_unit (last s)"
  shows "trim_spaces s = s"
proof -
  have "dropWhile is_space_unit s = s" using assms(1,2) by (cases s) auto
  moreover have "dropWhile is_space_unit (rev s) = rev s"
    using assms(3) by (simp add: dropWhile_eq_self_iff hd_rev)
  ultimately show ?thesis by (simp add: trim_spaces_def)
qed

lemma nat_text_ne: "nat_text n \<noteq> []"
  by (simp add: nat_text_def dec_digits_ne)

lemma nat_text_decimal: "decimal_literal (nat_text n) = Some (n, 0)"
proof -
  have "takeWhile is_digit (nat_text n) = nat_text n" "dropWhile is_digit (nat_text n) = []"
    using nat_text_digits [of n] by (auto simp only: takeWhile_eq_all_conv dropWhile_eq_Nil_conv)
  then show ?thesis
    by (simp only: decimal_literal_def exponent_part_def Let_def list.case option.case append_Nil2
        digits_value_text list.size of_nat_0 nat_text_ne simp_thms if_False) simp
qed

lemma int_text_radix: "radix_literal (int_text i) = None"
proof -
  have "radix_literal (nat_text n) = None" for n
  proof (cases "nat_text n")
    case (Cons z s)
    then show ?thesis
      using nat_text_digits [of n] digit_not
      by (cases s) (auto simp: radix_literal_def split: list.split)
  qed (simp add: radix_literal_def)
  moreover have "radix_literal (0x2D # s) = None" for s
    by (simp add: radix_literal_def split: list.split)
  ultimately show ?thesis by (simp add: int_text_def)
qed

lemma int_text_signed:
  "signed_body (int_text i) = (i < 0, nat_text (nat \<bar>i\<bar>))"
proof -
  obtain u us where u: "nat_text (nat i) = u # us" using nat_text_ne [of "nat i"] by (cases "nat_text (nat i)") auto
  then have "is_digit u" using nat_text_digits [of "nat i"] by simp
  then show ?thesis using u digit_not [of u] by (auto simp: int_text_def signed_body_def)
qed

lemma int_text_trim: "trim_spaces (int_text i) = int_text i"
proof (rule trim_spaces_id)
  have d: "\<forall>u \<in> set (nat_text n). \<not> is_space_unit u" for n
    using nat_text_digits [of n] digit_not by blast
  have sign: "\<not> is_space_unit 0x2D" by (simp add: is_space_unit_def word_le_nat_alt)
  show "int_text i \<noteq> []" by (simp add: int_text_def nat_text_ne)
  show "\<not> is_space_unit (hd (int_text i))"
    using sign d hd_in_set [OF nat_text_ne] by (auto simp: int_text_def)
  show "\<not> is_space_unit (last (int_text i))"
    using d bspec [OF d last_in_set [OF nat_text_ne]] by (auto simp: int_text_def nat_text_ne)
qed

lemma nat_text_not_infinity: "nat_text n \<noteq> ascii ''Infinity''"
proof
  assume "nat_text n = ascii ''Infinity''"
  then have "is_digit (hd (ascii ''Infinity''))"
    using nat_text_digits [of n] hd_in_set [OF nat_text_ne [of n]] by simp
  then show False by (simp add: ascii_def is_digit_def word_le_nat_alt)
qed

lemma number_of_int_text:
  assumes "safe_int i"
  shows "number_of_text (int_text i) = JInt i"
proof -
  have "nat \<bar>i\<bar> < 2 ^ 53" using assms by (auto simp: safe_int_def)
  then have "double_of_ratio (i < 0) (nat \<bar>i\<bar>) 1 = JInt i"
    by (subst double_of_int) auto
  moreover have "int_text i \<noteq> []" by (simp add: int_text_def nat_text_ne)
  ultimately show ?thesis
    by (simp only: number_of_text_def int_text_trim int_text_signed int_text_radix
        nat_text_not_infinity nat_text_decimal Let_def split_conv if_False option.case)
      (simp add: number_of_text_def)
qed

lemma ascii_well_formed: "\<forall>u \<in> set s. u < 0x80 \<Longrightarrow> well_formed s"
  by (induction s) (simp_all add: ascii_unit)

lemma digit_below: "is_digit u \<Longrightarrow> u < 0x80"
  by (auto simp: is_digit_def word_le_nat_alt word_less_nat_alt)

lemma int_text_ascii: "\<forall>u \<in> set (int_text i). u < 0x80"
  using nat_text_digits digit_below by (auto simp: int_text_def word_less_nat_alt)

lemma numberArg_of_integer:
  assumes "safe_int i"
  shows "numberArg (JInt i) = Inr (JInt i)" "numberArg (JBig i) = Inr (JInt i)"
    "numberArg (JStr (int_text i)) = Inr (JInt i)"
proof -
  have ascii: "utf8_decode (utf8_encode (int_text i)) = int_text i"
    by (rule utf8_decode_encode [OF ascii_well_formed [OF int_text_ascii]])
  show "numberArg (JInt i) = Inr (JInt i)" "numberArg (JBig i) = Inr (JInt i)"
    using assms by (simp_all add: numberArg_def is_finite_def)
  show "numberArg (JStr (int_text i)) = Inr (JInt i)"
    using assms by (simp add: numberArg_def as_text_def ascii number_of_int_text is_finite_def)
qed

lemma numberArg_finite: "numberArg v = Inr n \<Longrightarrow> is_finite n"
  by (auto simp: numberArg_def is_finite_def split: if_splits jsval.splits)

lemma numberArg_number: "numberArg v = Inr n \<Longrightarrow> (\<exists>i. n = JInt i \<and> safe_int i) \<or> (\<exists>w. n = JFloat w)"
  by (cases "numberArg v"; cases n) (auto simp: numberArg_def is_finite_def split: if_splits jsval.splits)

text \<open>A blank argument is the number zero: \<open>Number("")\<close> is.\<close>

lemma numberArg_blank:
  assumes "list_all is_space_unit (utf8_decode (utf8_encode s))"
  shows "numberArg (JStr s) = Inr (JInt 0)"
proof -
  have "dropWhile is_space_unit (utf8_decode (utf8_encode s)) = []"
    using assms by (simp only: dropWhile_eq_Nil_conv list_all_iff)
  then have "trim_spaces (utf8_decode (utf8_encode s)) = []"
    by (simp only: trim_spaces_def rev.simps dropWhile.simps)
  then show ?thesis
    by (simp add: numberArg_def as_text_def number_of_text_def is_finite_def safe_int_def signed_body_def)
qed

text \<open>The mantissa of a decimal literal is rounded to a nearest multiple of the last place.\<close>

lemma round_half_even_nearest:
  assumes "0 < d"
  shows "2 * \<bar>int (round_half_even n d * d) - int n\<bar> \<le> int d"
proof -
  define q r where "q = n div d" and "r = n mod d"
  have "n = q * d + r" by (simp add: q_def r_def)
  then have n: "int n = int q * int d + int r" by simp
  have "r < d" using assms by (simp add: r_def)
  then show ?thesis
    by (auto simp: round_half_even_def q_def [symmetric] r_def [symmetric] Let_def n distrib_right)
qed

end
