(* ===== verification/RequestContext.thy ===== *)
theory RequestContext
  imports Errors
begin

text \<open>
  The authorization data a command carries (\<open>src/src/request-context.ts\<close>): validation and
  normalization before a command is queued. The code marks the objects it has normalized in a
  \<open>WeakSet\<close> and returns them as they are when they come again; on values this shortcut cannot be
  told from normalizing twice, which is what \<open>request_context_stable\<close> proves.
\<close>

section \<open>Commands and fields\<close>

definition requestContextCommands :: catalog where
  "requestContextCommands =
    [''INVOCATION.CREATE'', ''INVOCATION.DEFINITION.GET'', ''INVOCATION.DEFINITION.LIST'',
     ''INVOCATION.DEFINITION.PUT'', ''INVOCATION.GET'', ''INVOCATION.PARTITION.LIST'']"

definition isRequestContextCommand :: "jsstr \<Rightarrow> bool" where
  "isRequestContextCommand command = has requestContextCommands command"

definition requestContextFields :: catalog where
  "requestContextFields = [''scopes'', ''subject'', ''tenant'']"

abbreviation invalid_command :: "string \<Rightarrow> jsval list \<Rightarrow> error" where
  "invalid_command msg vs \<equiv> Thrown InvalidCommandError msg vs"

section \<open>Normalization\<close>

text \<open>A property that is absent reads as undefined, and so does one holding \<open>undefined\<close>.\<close>

definition requestContextText :: "(jsstr \<times> jsval) list \<Rightarrow> string \<Rightarrow> jsstr option res" where
  "requestContextText context field =
    (case own (ascii field) context of
       None \<Rightarrow> Inr None
     | Some JUndef \<Rightarrow> Inr None
     | Some (JStr s) \<Rightarrow>
         if s = [] then Inl (invalid_command ''request context field must be a non-empty string'' [JStr (ascii field)])
         else Inr (Some s)
     | Some _ \<Rightarrow> Inl (invalid_command ''request context field must be a non-empty string'' [JStr (ascii field)]))"

text \<open>\<open>split(/\s+/u)\<close> without the empty parts, and a set in insertion order.\<close>

fun split_spaces :: "jsstr \<Rightarrow> jsstr \<Rightarrow> jsstr list" where
  "split_spaces part [] = (if part = [] then [] else [rev part])"
| "split_spaces part (u # us) =
    (if is_space_unit u then (if part = [] then [] else [rev part]) @ split_spaces [] us
     else split_spaces (u # part) us)"

fun unique :: "'a list \<Rightarrow> 'a list \<Rightarrow> 'a list" where
  "unique seen [] = []"
| "unique seen (x # xs) = (if x \<in> set seen then unique seen xs else x # unique (x # seen) xs)"

definition scope_error :: error where
  "scope_error = invalid_command ''request context scopes must be a dense array of own non-empty strings'' []"

fun scope_text :: "jsval \<Rightarrow> jsstr res" where
  "scope_text (JStr s) = (if s = [] then Inl scope_error else Inr s)"
| "scope_text _ = Inl scope_error"

definition normalizeRequestContextScopes :: "jsval \<Rightarrow> jsval res" where
  "normalizeRequestContextScopes scopes =
    (case scopes of
       JStr s \<Rightarrow> Inr (JArr (map JStr (unique [] (split_spaces [] s))))
     | JArr vs \<Rightarrow> rbind (rmap scope_text vs) (\<lambda>ss. Inr (JArr (map JStr (unique [] ss))))
     | _ \<Rightarrow> Inl (invalid_command ''request context scopes must be a string or an array of strings'' []))"

definition requestContextScopes :: "(jsstr \<times> jsval) list \<Rightarrow> jsval option res" where
  "requestContextScopes context =
    (case own (ascii ''scopes'') context of
       None \<Rightarrow> Inr None
     | Some JUndef \<Rightarrow> Inr None
     | Some scopes \<Rightarrow> rbind (normalizeRequestContextScopes scopes) (\<lambda>s. Inr (Some s)))"

definition unknown_field :: "(jsstr \<times> jsval) list \<Rightarrow> jsstr option" where
  "unknown_field context = find (\<lambda>k. \<not> has requestContextFields k) (map fst context)"

definition optional_field :: "string \<Rightarrow> jsval option \<Rightarrow> (jsstr \<times> jsval) list" where
  "optional_field name v = (case v of None \<Rightarrow> [] | Some x \<Rightarrow> [(ascii name, x)])"

definition normalizeRequestContext :: "jsval \<Rightarrow> jsval res" where
  "normalizeRequestContext context =
    (case context of
       JObj props \<Rightarrow>
         (case unknown_field props of
            Some key \<Rightarrow> Inl (invalid_command ''request context contains unsupported field'' [JStr key])
          | None \<Rightarrow>
              rbind (requestContextText props ''subject'') (\<lambda>subject.
              rbind (requestContextText props ''tenant'') (\<lambda>tenant.
              rbind (requestContextScopes props) (\<lambda>scopes.
              Inr (JObj (optional_field ''subject'' (map_option JStr subject) @
                optional_field ''tenant'' (map_option JStr tenant) @ optional_field ''scopes'' scopes))))))
     | _ \<Rightarrow> Inl (invalid_command ''request context must be a plain object'' []))"

section \<open>Snapshots of queued commands\<close>

definition requestContextCommandToken :: "jsval \<Rightarrow> jsstr option" where
  "requestContextCommandToken v =
    (case v of
       JStr s \<Rightarrow>
         if s = [] \<or> (s ! 0 \<noteq> 0x49 \<and> s ! 0 \<noteq> 0x69) then None
         else if isRequestContextCommand s then Some s
         else if isRequestContextCommand (to_upper s) then Some (to_upper s) else None
     | JBuf b \<Rightarrow>
         if b = [] \<or> (b ! 0 \<noteq> 0x49 \<and> b ! 0 \<noteq> 0x69) then None
         else if isRequestContextCommand (to_upper (utf8_decode b)) then Some (to_upper (utf8_decode b)) else None
     | JU8 b \<Rightarrow>
         if b = [] \<or> (b ! 0 \<noteq> 0x49 \<and> b ! 0 \<noteq> 0x69) then None
         else if isRequestContextCommand (to_upper (utf8_decode b)) then Some (to_upper (utf8_decode b)) else None
     | _ \<Rightarrow> None)"

definition snapshotCommandRequestContext :: "jsval list \<Rightarrow> jsval list res" where
  "snapshotCommandRequestContext args =
    (if args = [] \<or> requestContextCommandToken (args ! 0) = None \<or> length args < 3 \<or>
        \<not> command_token_is (args ! (length args - 2)) (ascii ''REQUEST_CONTEXT'') then Inr args
     else rbind (normalizeRequestContext (args ! (length args - 1))) (\<lambda>context.
       Inr (args[length args - 1 := context])))"

section \<open>Lemmas\<close>

lemma unique_spec: "set (unique seen xs) = set xs - set seen \<and> distinct (unique seen xs)"
  by (induction seen xs rule: unique.induct) auto

lemma unique_distinct: "distinct xs \<Longrightarrow> set xs \<inter> set seen = {} \<Longrightarrow> unique seen xs = xs"
  by (induction seen xs rule: unique.induct) auto

lemma split_spaces_ne: "[] \<notin> set (split_spaces part s)"
  by (induction part s rule: split_spaces.induct) auto

lemma scope_text_Inr: "scope_text v = Inr s \<longleftrightarrow> v = JStr s \<and> s \<noteq> []"
  by (cases v) auto

lemma scope_texts: "rmap scope_text vs = Inr ss \<longleftrightarrow> vs = map JStr ss \<and> [] \<notin> set ss"
proof (induction vs arbitrary: ss)
  case (Cons v vs)
  show ?case
  proof (cases ss)
    case Nil
    then show ?thesis by (simp add: scope_text_Inr)
  next
    case (Cons s rest)
    then show ?thesis using Cons.IH by (simp add: scope_text_Inr) blast
  qed
qed auto

definition scopes_ok :: "jsval \<Rightarrow> bool" where
  "scopes_ok v \<longleftrightarrow> (\<exists>ss. v = JArr (map JStr ss) \<and> distinct ss \<and> [] \<notin> set ss)"

lemma normalized_scopes: "normalizeRequestContextScopes v = Inr w \<Longrightarrow> scopes_ok w"
  using unique_spec [of "[]"] split_spaces_ne
  by (auto simp: normalizeRequestContextScopes_def scopes_ok_def scope_texts split: jsval.splits)

lemma scopes_stable:
  assumes "scopes_ok v"
  shows "normalizeRequestContextScopes v = Inr v"
proof -
  from assms obtain ss where v: "v = JArr (map JStr ss)" "distinct ss" "[] \<notin> set ss"
    by (auto simp: scopes_ok_def)
  then have "rmap scope_text (map JStr ss) = Inr ss" by (simp add: scope_texts)
  with v show ?thesis by (simp add: normalizeRequestContextScopes_def unique_distinct)
qed

definition context_of :: "jsstr option \<Rightarrow> jsstr option \<Rightarrow> jsval option \<Rightarrow> (jsstr \<times> jsval) list" where
  "context_of subject tenant scopes =
    optional_field ''subject'' (map_option JStr subject) @
    optional_field ''tenant'' (map_option JStr tenant) @ optional_field ''scopes'' scopes"

lemma context_text_ok: "requestContextText context field = Inr r \<Longrightarrow> r \<noteq> Some []"
  by (auto simp: requestContextText_def split: option.splits jsval.splits if_splits)

lemma context_scopes_ok: "requestContextScopes context = Inr (Some s) \<Longrightarrow> scopes_ok s"
  by (auto simp: requestContextScopes_def dest: normalized_scopes split: option.splits jsval.splits)

lemma normalized_shape:
  assumes "normalizeRequestContext v = Inr w"
  obtains subject tenant scopes where "w = JObj (context_of subject tenant scopes)"
    "subject \<noteq> Some []" "tenant \<noteq> Some []" "\<forall>s. scopes = Some s \<longrightarrow> scopes_ok s"
  using assms
  by (auto simp: normalizeRequestContext_def context_of_def dest: context_text_ok context_scopes_ok
      split: jsval.splits option.splits)

lemma field_names: "ascii ''subject'' \<noteq> ascii ''tenant''" "ascii ''subject'' \<noteq> ascii ''scopes''"
    "ascii ''tenant'' \<noteq> ascii ''scopes''"
  by (simp_all add: ascii_def)

lemma own_context:
  "own (ascii ''subject'') (context_of subject tenant scopes) = map_option JStr subject"
  "own (ascii ''tenant'') (context_of subject tenant scopes) = map_option JStr tenant"
  "own (ascii ''scopes'') (context_of subject tenant scopes) = scopes"
  using field_names
  by (simp_all add: own_def context_of_def optional_field_def map_add_def split: option.split)

lemma known_context: "unknown_field (context_of subject tenant scopes) = None"
  by (auto simp: unknown_field_def find_None_iff context_of_def optional_field_def requestContextFields_def has_ascii
      split: option.splits)

lemma context_of_stable:
  assumes "subject \<noteq> Some []" "tenant \<noteq> Some []" "\<forall>s. scopes = Some s \<longrightarrow> scopes_ok s"
  shows "normalizeRequestContext (JObj (context_of subject tenant scopes)) = Inr (JObj (context_of subject tenant scopes))"
proof -
  have "requestContextText (context_of subject tenant scopes) ''subject'' = Inr subject"
    "requestContextText (context_of subject tenant scopes) ''tenant'' = Inr tenant"
    using assms(1,2) by (auto simp: requestContextText_def own_context split: option.split)
  moreover have "requestContextScopes (context_of subject tenant scopes) = Inr scopes"
  proof (cases scopes)
    case (Some s)
    then obtain ss where "s = JArr ss" using assms(3) by (auto simp: scopes_ok_def)
    with Some assms(3) show ?thesis by (simp add: requestContextScopes_def own_context scopes_stable)
  qed (simp add: requestContextScopes_def own_context)
  ultimately show ?thesis
    by (simp add: normalizeRequestContext_def known_context context_of_def [symmetric])
qed

lemma normalize_idem: "normalizeRequestContext v = Inr w \<Longrightarrow> normalizeRequestContext w = Inr w"
  by (elim normalized_shape) (simp add: context_of_stable)

end
