(* ===== verification/CommandExec.thy ===== *)
theory CommandExec
  imports NumberArg RequestContext CommandPolicy Frame
begin

text \<open>
  The generic command path of \<open>src/src/protocol-core.ts\<close> (\<open>commandExec\<close>) with the time a command may
  keep its response pending on the server, and the classification of commands that follows from it:
  \<open>commandHasServerBlock\<close>, \<open>isConnectionBlockingCommand\<close>, and
  \<open>commandRequiresOrderedPipelineExecution\<close> of \<open>src/src/protocol-connection-policy.ts\<close>.
\<close>

section \<open>How long a command may block\<close>

text \<open>The options of a command, from the first that can have a value; the last duration counts.\<close>

fun optionBlockDurationMs :: "string list \<Rightarrow> string option \<Rightarrow> jsval option \<Rightarrow> jsval list \<Rightarrow> jsval option" where
  "optionBlockDurationMs names stop serverBlockMs (a # b # rest) =
    (if (case stop of None \<Rightarrow> False | Some s \<Rightarrow> command_token_is a (ascii s)) then serverBlockMs
     else if list_ex (\<lambda>name. command_token_is a (ascii name)) names then
       optionBlockDurationMs names stop
         (case blockDurationMs b 1 of None \<Rightarrow> serverBlockMs | Some d \<Rightarrow> Some d) rest
     else optionBlockDurationMs names stop serverBlockMs (b # rest))"
| "optionBlockDurationMs names stop serverBlockMs _ = serverBlockMs"

definition block_ms_of :: "jsstr \<Rightarrow> jsval list \<Rightarrow> jsval option" where
  "block_ms_of command args =
    (let n = length args; is = (\<lambda>name. command = ascii name)
     in if (is ''BLPOP'' \<or> is ''BRPOP'') \<and> n \<ge> 3 then blockDurationMs (args ! (n - 1)) 1000
        else if is ''BRPOPLPUSH'' \<and> n = 4 then blockDurationMs (args ! 3) 1000
        else if is ''BLMOVE'' \<and> n \<ge> 6 then blockDurationMs (args ! (n - 1)) 1000
        else if (is ''BLMPOP'' \<or> is ''BZMPOP'') \<and> n \<ge> 2 then blockDurationMs (args ! 1) 1000
        else if (is ''BZPOPMAX'' \<or> is ''BZPOPMIN'') \<and> n \<ge> 3 then blockDurationMs (args ! (n - 1)) 1000
        else if is ''XREAD'' \<or> is ''XREADGROUP'' then
          optionBlockDurationMs [''BLOCK''] (Some ''STREAMS'') None (tl args)
        else if is ''WAIT'' \<and> n = 3 then blockDurationMs (args ! 2) 1
        else if is ''WAITAOF'' \<and> n = 4 then blockDurationMs (args ! 3) 1
        else if is ''FLOW.CLAIM_DUE'' \<or> is ''FLOW.SCHEDULE.FIRE_DUE'' then
          optionBlockDurationMs [''BLOCK'', ''BLOCK_MS''] None None (tl args)
        else if is ''FETCH_OR_COMPUTE'' \<and> n \<ge> 3 then blockDurationMs (args ! 2) 1
        else None)"

definition serverBlockMetadata :: "jsval list \<Rightarrow> jsval option res" where
  "serverBlockMetadata args =
    rbind (as_text (arg_at args 0)) (\<lambda>t. Inr (block_ms_of (to_upper t) args))"

section \<open>The generic command\<close>

abbreviation COMMAND_EXEC_OPCODE :: nat where
  "COMMAND_EXEC_OPCODE \<equiv> command_opcode ''COMMAND_EXEC''"

definition exec_payload :: "jsval list \<Rightarrow> jsstr \<Rightarrow> (jsstr \<times> jsval) list res" where
  "exec_payload commandArgs command =
    (let n = length commandArgs in
     if isRequestContextCommand command \<and> n \<ge> 2 \<and>
        command_token_is (commandArgs ! (n - 2)) (ascii ''REQUEST_CONTEXT'') then
       rbind (normalizeRequestContext (commandArgs ! (n - 1))) (\<lambda>context.
       Inr [(ascii ''args'', JArr (take (n - 2) commandArgs)), (ascii ''command'', JStr command),
            (ascii ''request_context'', context)])
     else Inr [(ascii ''args'', JArr commandArgs), (ascii ''command'', JStr command)])"

definition commandExec :: "jsval list \<Rightarrow> protocol_command res" where
  "commandExec args =
    (if args = [] then Inl (ferric_error ''command requires at least one argument'')
     else rbind (as_text (args ! 0)) (\<lambda>t.
       rbind (exec_payload (tl args) (to_upper t)) (\<lambda>payload.
       rbind (serverBlockMetadata args) (\<lambda>block.
       Inr ((plain_command COMMAND_EXEC_OPCODE (JObj payload))\<lparr>pc_server_block_ms := block\<rparr>)))))"

section \<open>Classification\<close>

definition unwrapped :: "jsval list \<Rightarrow> jsval list" where
  "unwrapped args = (if command_name (arg_at args 0) = Some (ascii ''COMMAND_EXEC'') then tl args else args)"

definition commandHasServerBlock :: "jsval list \<Rightarrow> bool res" where
  "commandHasServerBlock args =
    (let normalized = unwrapped args in
     if normalized = [] then Inr False
     else rbind (serverBlockMetadata normalized) (\<lambda>block. Inr (block \<noteq> None)))"

definition isConnectionBlockingCommand :: "jsval list \<Rightarrow> bool res" where
  "isConnectionBlockingCommand args =
    (let normalized = unwrapped args in
     case command_name (arg_at normalized 0) of
       None \<Rightarrow> Inr False
     | Some command \<Rightarrow>
         if has connectionBlockingCommands command then commandHasServerBlock normalized else Inr False)"

definition commandRequiresOrderedPipelineExecution :: "jsval list \<Rightarrow> bool res" where
  "commandRequiresOrderedPipelineExecution args =
    (if commandRequiresDedicatedConnection args (command_name (arg_at args 0)) then Inr True
     else isConnectionBlockingCommand args)"

section \<open>Lemmas\<close>

text \<open>A text whose upper-case form is an ASCII name has no surrogates, so that it survives the
  conversion to bytes and back.\<close>

lemma upper_unit_surrogate: "is_high u \<or> is_low u \<Longrightarrow> upper_unit u = [u]"
  by (auto simp: is_high_def is_low_def upper_unit_def word_le_nat_alt)

lemma no_surrogates_well_formed: "\<forall>u \<in> set s. \<not> is_high u \<and> \<not> is_low u \<Longrightarrow> well_formed s"
  by (induction s) auto

lemma ascii_surrogate: "u < 0x80 \<Longrightarrow> \<not> is_high u \<and> \<not> is_low u"
  by (auto simp: is_high_def is_low_def word_le_nat_alt word_less_nat_alt)

lemma upper_ascii_well_formed:
  assumes "\<forall>u \<in> set (to_upper s). u < 0x80"
  shows "well_formed s"
proof (rule no_surrogates_well_formed, intro ballI)
  fix u assume u: "u \<in> set s"
  show "\<not> is_high u \<and> \<not> is_low u"
  proof (rule ccontr)
    assume "\<not> (\<not> is_high u \<and> \<not> is_low u)"
    then have "upper_unit u = [u]" using upper_unit_surrogate by blast
    then have "u \<in> set (to_upper s)" using u by (force simp: to_upper_def)
    then have "u < 0x80" using assms by blast
    with \<open>\<not> (\<not> is_high u \<and> \<not> is_low u)\<close> show False using ascii_surrogate by blast
  qed
qed

lemma ascii_low: "list_all (\<lambda>c. of_char c < (128 :: nat)) n \<Longrightarrow> \<forall>u \<in> set (ascii n). u < 0x80"
  by (auto simp: ascii_def list_all_iff word_less_nat_alt unat_of_char)

lemma context_names_low: "list_all (list_all (\<lambda>c. of_char c < (128 :: nat))) requestContextCommands"
  by (simp add: requestContextCommands_def)

lemma context_name_low: "isRequestContextCommand c \<Longrightarrow> \<forall>u \<in> set c. u < 0x80"
  using ascii_low context_names_low
  by (auto simp: isRequestContextCommand_def has_iff list_all_iff [of _ requestContextCommands])

lemma context_name_upper: "isRequestContextCommand c \<Longrightarrow> to_upper c = c"
  by (auto simp: isRequestContextCommand_def has_iff requestContextCommands_def to_upper_ascii)

lemma context_token_text:
  assumes "requestContextCommandToken v = Some c"
  shows "\<exists>t. as_text v = Inr t \<and> isRequestContextCommand (to_upper t)"
proof (cases v)
  case (JStr s)
  then have c: "isRequestContextCommand (to_upper s)"
    using assms by (auto simp: requestContextCommandToken_def context_name_upper split: if_splits)
  then have "well_formed s" using context_name_low upper_ascii_well_formed by blast
  with JStr c show ?thesis by (simp add: as_text_def utf8_decode_encode)
qed (use assms in \<open>auto simp: requestContextCommandToken_def as_text_def split: if_splits\<close>)

text \<open>None of the commands that carry a request context blocks.\<close>

lemma context_command_never_blocks: "isRequestContextCommand c \<Longrightarrow> block_ms_of c args = None"
  by (auto simp: isRequestContextCommand_def has_iff requestContextCommands_def block_ms_of_def ascii_def)

text \<open>The classification of a command never throws.\<close>

lemma command_name_text: "command_name v = Some c \<Longrightarrow> \<exists>t. as_text v = Inr t"
  by (cases v) (auto simp: command_name_def as_text_def)

lemma block_metadata_named: "command_name (arg_at args 0) = Some c \<Longrightarrow> \<exists>b. serverBlockMetadata args = Inr b"
  using command_name_text by (fastforce simp: serverBlockMetadata_def)

lemma not_blocking_exec: "\<not> has connectionBlockingCommands (ascii ''COMMAND_EXEC'')"
  by (simp add: has_ascii connectionBlockingCommands_def)

lemma blocking_total: "\<exists>b. isConnectionBlockingCommand args = Inr b"
proof (cases "command_name (arg_at (unwrapped args) 0)")
  case (Some c)
  show ?thesis
  proof (cases "has connectionBlockingCommands c")
    case True
    with Some not_blocking_exec have "unwrapped (unwrapped args) = unwrapped args"
      by (auto simp: unwrapped_def)
    with block_metadata_named [OF Some] Some True show ?thesis
      by (auto simp: isConnectionBlockingCommand_def commandHasServerBlock_def Let_def)
  next
    case False
    with Some have "isConnectionBlockingCommand args = Inr False"
      by (simp add: isConnectionBlockingCommand_def Let_def)
    then show ?thesis by blast
  qed
next
  case None
  then have "isConnectionBlockingCommand args = Inr False"
    by (simp add: isConnectionBlockingCommand_def Let_def)
  then show ?thesis by blast
qed

lemma ordered_total: "\<exists>b. commandRequiresOrderedPipelineExecution args = Inr b"
  using blocking_total [of args]
  by (cases "commandRequiresDedicatedConnection args (command_name (arg_at args 0))")
    (auto simp: commandRequiresOrderedPipelineExecution_def)

section \<open>Properties\<close>

lemma update_last_take: "take (length xs - Suc 0 - 1) (xs[length xs - 1 := y]) = take (length xs - Suc 0 - 1) xs"
  by simp

text \<open>C37. A command whose authorization data is normalized when it is queued is sent exactly as if it
  had been encoded at once: the snapshot changes neither the payload nor the blocking time, and a
  command the snapshot leaves alone is unchanged.\<close>

theorem queued_context_same_command:
  assumes "snapshotCommandRequestContext args = Inr args'"
  shows "commandExec args' = commandExec args"
proof (cases "args' = args")
  case False
  define n where "n = length args"
  from assms False obtain c w where
    h: "requestContextCommandToken (args ! 0) = Some c" "3 \<le> n" "args \<noteq> []"
      "command_token_is (args ! (n - 2)) (ascii ''REQUEST_CONTEXT'')"
      "normalizeRequestContext (args ! (n - 1)) = Inr w" "args' = args[n - 1 := w]"
    by (auto simp: snapshotCommandRequestContext_def n_def split: if_splits)
  from context_token_text [OF h(1)] obtain t where t: "as_text (args ! 0) = Inr t" "isRequestContextCommand (to_upper t)"
    by blast
  obtain a rest where a: "args = a # rest" using h(3) by (cases args) auto
  define m where "m = length rest"
  have n: "n = Suc m" "2 \<le> m" using a h(2) by (auto simp: n_def m_def)
  have args': "args' = a # rest[m - 1 := w]" using h(6) a n by (cases m) auto
  have last2: "command_token_is (rest ! (m - 2)) (ascii ''REQUEST_CONTEXT'')"
    using h(4) a n by (simp add: nth_Cons' numeral_2_eq_2)
  have last1: "normalizeRequestContext (rest ! (m - 1)) = Inr w" using h(5) a n by (simp add: nth_Cons')
  have "exec_payload (rest[m - 1 := w]) (to_upper t) = exec_payload rest (to_upper t)"
    using t(2) last1 last2 normalize_idem [OF last1] n by (simp add: exec_payload_def m_def [symmetric] Let_def)
  moreover have "serverBlockMetadata (a # rest[m - 1 := w]) = serverBlockMetadata (a # rest)"
    using t a context_command_never_blocks [OF t(2)] by (simp add: serverBlockMetadata_def)
  ultimately show ?thesis using t(1) a by (simp add: commandExec_def args')
qed simp

text \<open>C38. Asking whether a command must run alone on its connection never throws, whatever its
  arguments, and wrapping the command in COMMAND_EXEC does not change the answer.\<close>

theorem ordering_check_total:
  "\<exists>b. commandRequiresOrderedPipelineExecution args = Inr b \<and>
    (command_name (arg_at args 0) \<noteq> Some (ascii ''COMMAND_EXEC'') \<longrightarrow>
      commandRequiresOrderedPipelineExecution (JStr (ascii ''COMMAND_EXEC'') # args) = Inr b)"
proof -
  obtain b where b: "commandRequiresOrderedPipelineExecution args = Inr b" using ordered_total by blast
  have "commandRequiresOrderedPipelineExecution (JStr (ascii ''COMMAND_EXEC'') # args) = Inr b"
    if plain: "command_name (arg_at args 0) \<noteq> Some (ascii ''COMMAND_EXEC'')"
  proof -
    let ?w = "JStr (ascii ''COMMAND_EXEC'') # args"
    have name: "command_name (JStr (ascii ''COMMAND_EXEC'')) = Some (ascii ''COMMAND_EXEC'')"
      by (simp add: command_name_def to_upper_ascii)
    have u: "unwrapped ?w = args" "unwrapped args = args" using name plain by (simp_all add: unwrapped_def)
    have "connectionScopedCommandName ?w (command_name (arg_at ?w 0)) =
        connectionScopedCommandName args (command_name (arg_at args 0))"
      using plain by (simp add: connectionScopedCommandName_def name)
    then have "commandRequiresDedicatedConnection ?w (command_name (arg_at ?w 0)) =
        commandRequiresDedicatedConnection args (command_name (arg_at args 0))"
      by (simp add: commandRequiresDedicatedConnection_def)
    moreover have "isConnectionBlockingCommand ?w = isConnectionBlockingCommand args"
      by (simp add: isConnectionBlockingCommand_def u)
    ultimately show ?thesis using b by (simp only: commandRequiresOrderedPipelineExecution_def)
  qed
  with b show ?thesis by blast
qed

definition demo_blpop :: "jsval list" where
  "demo_blpop = [JStr (ascii ''blpop''), JStr (ascii ''k''), JInt 2]"

lemma blocks_safe_int:
  assumes "safe_int i" "0 \<le> i"
  shows "blockDurationMs (JInt i) k \<noteq> None"
  using assms by (simp add: blockDurationMs_def numberArg_of_integer is_negative_def number_ratio_def)

lemma demo_blpop_ordered: "commandRequiresOrderedPipelineExecution demo_blpop = Inr True"
proof -
  have name: "command_name (arg_at demo_blpop 0) = Some (ascii ''BLPOP'')" by code_simp
  have tx: "as_text (arg_at demo_blpop 0) = Inr (ascii ''blpop'')" by code_simp
  have up: "to_upper (ascii ''blpop'') = ascii ''BLPOP''" by code_simp
  have u: "unwrapped demo_blpop = demo_blpop" using name by (simp add: unwrapped_def)
  have "block_ms_of (ascii ''BLPOP'') demo_blpop \<noteq> None"
    using blocks_safe_int [of 2 1000] by (simp add: block_ms_of_def demo_blpop_def safe_int_def)
  moreover have "demo_blpop \<noteq> []" by (simp add: demo_blpop_def)
  ultimately have "isConnectionBlockingCommand demo_blpop = Inr True"
    by (simp add: isConnectionBlockingCommand_def commandHasServerBlock_def serverBlockMetadata_def
        u name tx up Let_def connectionBlockingCommands_def)
  then show ?thesis by (simp add: commandRequiresOrderedPipelineExecution_def)
qed

lemma ordering_check_total_witness:
  "commandRequiresOrderedPipelineExecution (JStr (ascii ''COMMAND_EXEC'') # demo_blpop) = Inr True"
proof -
  have "command_name (arg_at demo_blpop 0) \<noteq> Some (ascii ''COMMAND_EXEC'')" by code_simp
  with ordering_check_total [of demo_blpop] demo_blpop_ordered show ?thesis by auto
qed

definition demo_context :: "jsval list" where
  "demo_context = [JStr (ascii ''invocation.get''), JStr (ascii ''REQUEST_CONTEXT''),
    JObj [(ascii ''scopes'', JStr (ascii ''a b a'')), (ascii ''tenant'', JStr (ascii ''t''))]]"

definition demo_snapshot :: "jsval list" where
  "demo_snapshot = [JStr (ascii ''invocation.get''), JStr (ascii ''REQUEST_CONTEXT''),
    JObj [(ascii ''tenant'', JStr (ascii ''t'')), (ascii ''scopes'', JArr [JStr (ascii ''a''), JStr (ascii ''b'')])]]"

lemma demo_context_snapshot: "snapshotCommandRequestContext demo_context = Inr demo_snapshot"
  by code_simp

lemma queued_context_same_command_witness: "commandExec demo_snapshot = commandExec demo_context"
  by (rule queued_context_same_command [OF demo_context_snapshot])

end
