(* ===== verification/PipelineExecution.thy ===== *)
theory PipelineExecution
  imports Errors AutoBatchOrdering CommandExec
begin

text \<open>
  The pipeline helpers (\<open>pipeline-execution.ts\<close>): the options of a pipeline and of its parts, the checks of
  its response, and the execution of its commands one by one when the executor has no native pipeline:
  in order, behind dependencies and a pool of slots, or by a number of workers. A command runs from the
  call of \<open>executeCommandArgs\<close> until its promise settles; each step of the relation below is one callback
  of the event loop, with the settled value chosen by the environment. Command lists are dense here, so the
  checks for holes cannot fail.
\<close>

section \<open>Options and responses\<close>

record pipeline_options =
  po_dependencies :: "int list list option"
  po_concurrency :: jsval
  po_ordered :: bool
  po_throw :: "bool option"

definition pipelineErrorCollectingOptions :: "pipeline_options \<Rightarrow> pipeline_options" where
  "pipelineErrorCollectingOptions options =
    (if po_throw options = Some False then options else options\<lparr>po_throw := Some False\<rparr>)"

text \<open>Commands that hold their connection, or change it, are executed in order when there is no native pipeline.\<close>

fun needs_order :: "jsval list list \<Rightarrow> bool res" where
  "needs_order [] = Inr False"
| "needs_order (command # commands) =
    rbind (commandRequiresOrderedPipelineExecution command) (\<lambda>b. if b then Inr True else needs_order commands)"

definition pipelineFallbackOptions :: "jsval list list \<Rightarrow> pipeline_options \<Rightarrow> pipeline_options res" where
  "pipelineFallbackOptions commands options =
    (if po_ordered options then Inr options
     else rbind (needs_order commands) (\<lambda>b. Inr (if b then options\<lparr>po_ordered := True\<rparr> else options)))"

text \<open>\<open>dependencies[index] ?? []\<close>.\<close>

definition dependency_row :: "int list list \<Rightarrow> nat \<Rightarrow> int list" where
  "dependency_row deps i = (if i < length deps then deps ! i else [])"

text \<open>\<open>localIndices\<close>: a later occurrence of an index overwrites an earlier one.\<close>

definition local_indices :: "nat list \<Rightarrow> int \<rightharpoonup> nat" where
  "local_indices originals = map_of (rev (zip (map int originals) [0..<length originals]))"

definition pipelineSubsetOptions :: "pipeline_options \<Rightarrow> nat list \<Rightarrow> pipeline_options" where
  "pipelineSubsetOptions options originals =
    (case po_dependencies options of
       None \<Rightarrow> options
     | Some deps \<Rightarrow> options\<lparr>po_dependencies := Some (map (\<lambda>original.
         map int (List.map_filter (local_indices originals) (dependency_row deps original))) originals)\<rparr>)"

definition pipelineSliceOptions :: "pipeline_options \<Rightarrow> nat \<Rightarrow> nat \<Rightarrow> pipeline_options" where
  "pipelineSliceOptions options start end =
    (if po_dependencies options = None then options else pipelineSubsetOptions options [start..<end])"

text \<open>A part of a pipeline keeps the dependencies between its commands, at their new places.\<close>

lemma local_indices_some:
  assumes "distinct originals"
  shows "local_indices originals d = Some l \<longleftrightarrow> l < length originals \<and> d = int (originals ! l)"
proof -
  have "distinct (map fst (rev (zip (map int originals) [0..<length originals])))"
    using assms by (simp add: rev_map [symmetric] distinct_map)
  from map_of_eq_Some_iff [OF this, of d l]
  have "local_indices originals d = Some l \<longleftrightarrow> (d, l) \<in> set (zip (map int originals) [0..<length originals])"
    by (simp add: local_indices_def)
  also have "\<dots> \<longleftrightarrow> l < length originals \<and> d = int (originals ! l)"
    by (auto simp: in_set_zip intro!: exI [of _ l])
  finally show ?thesis .
qed

lemma subset_dependencies:
  assumes "distinct originals" "po_dependencies options = Some deps" "k < length originals"
    "po_dependencies (pipelineSubsetOptions options originals) = Some deps'"
  shows "set (dependency_row deps' k) =
    {int l | l. l < length originals \<and> int (originals ! l) \<in> set (dependency_row deps (originals ! k))}"
proof -
  have "dependency_row deps' k = map int (List.map_filter (local_indices originals) (dependency_row deps (originals ! k)))"
    using assms(2-4) by (auto simp: pipelineSubsetOptions_def dependency_row_def)
  then have "set (dependency_row deps' k) =
      int ` {l. \<exists>d \<in> set (dependency_row deps (originals ! k)). local_indices originals d = Some l}"
    by (force simp: List.map_filter_def)
  then show ?thesis unfolding local_indices_some [OF assms(1)] by auto
qed

text \<open>The positional contract of a response; \<open>Inl\<close> is the message of the type error. An array marked as decoded
  from a compact response has no holes.\<close>

definition first_hole :: "jsval list \<Rightarrow> nat option" where
  "first_hole items = find (\<lambda>i. items ! i = JHole) [0..<length items]"

definition validatePipelineResponse :: "jsval \<Rightarrow> nat \<Rightarrow> jsstr \<Rightarrow> jsstr + jsval list" where
  "validatePipelineResponse v expected operation =
    (case v of
       JArr items \<Rightarrow>
         if length items \<noteq> expected
         then Inl (operation @ ascii '' returned '' @ number_text (JInt (int (length items))) @ ascii '' items; expected '' @
           number_text (JInt (int expected)))
         else (case first_hole items of
             Some i \<Rightarrow> Inl (operation @ ascii '' response item '' @ number_text (JInt (int i)) @ ascii '' is missing'')
           | None \<Rightarrow> Inr items)
     | _ \<Rightarrow> Inl (operation @ ascii '' returned an invalid response''))"

text \<open>The values of a response: errors are values too.\<close>

fun is_error :: "thrown \<Rightarrow> bool" where
  "is_error (Value v) = False"
| "is_error e = True"

text \<open>The first error; the flags mark the items that were thrown.\<close>

fun first_error :: "thrown list \<Rightarrow> bool list \<Rightarrow> thrown option" where
  "first_error (r # rs) (b # bs) = (if b \<or> is_error r then Some r else first_error rs bs)"
| "first_error (r # rs) [] = (if is_error r then Some r else first_error rs [])"
| "first_error [] bs = None"

definition surfaceFirstPipelineItemError :: "thrown list \<Rightarrow> bool list option \<Rightarrow> pipeline_options \<Rightarrow> thrown + thrown list" where
  "surfaceFirstPipelineItemError results flags options =
    (if po_throw options = Some False then Inr results
     else case first_error results (case flags of None \<Rightarrow> replicate (length results) False | Some bs \<Rightarrow> bs) of
         Some e \<Rightarrow> Inl e | None \<Rightarrow> Inr results)"

text \<open>The results, with the rejection flags attached where the errors are collected.\<close>

definition surfaceIndividualCommandErrors ::
  "thrown list \<Rightarrow> bool list \<Rightarrow> bool \<Rightarrow> pipeline_options \<Rightarrow> thrown + thrown list \<times> bool list option" where
  "surfaceIndividualCommandErrors results rejected has_rejected options =
    (if po_throw options \<noteq> Some False then
       (case first_error results rejected of Some e \<Rightarrow> Inl e | None \<Rightarrow> Inr (results, None))
     else Inr (results, if has_rejected then Some rejected else None))"

definition DEFAULT_FALLBACK_CONCURRENCY :: nat where
  "DEFAULT_FALLBACK_CONCURRENCY = 64"

text \<open>\<open>None\<close> is the type error.\<close>

definition fallbackConcurrency :: "jsval \<Rightarrow> nat \<Rightarrow> nat option" where
  "fallbackConcurrency v n =
    (if nullish v then Some (min n DEFAULT_FALLBACK_CONCURRENCY)
     else case v of JInt i \<Rightarrow> if safe_int i \<and> 0 < i then Some (min n (nat i)) else None | _ \<Rightarrow> None)"

section \<open>Execution\<close>

datatype task = Blocked | Queued | Admitted | Running | Settled thrown bool

datatype run_event = Started nat | Finished nat

text \<open>The three loops of \<open>executeCommandArraysIndividually\<close>.\<close>

datatype fallback_mode = Ordered | Dependent "int list list" nat | Workers nat

text \<open>The tasks, one per command; \<open>active\<close> and the waiters of the slot pool, in their order; the next index of
  the loop or the workers; what each worker runs. The log is ghost.\<close>

record fallback =
  fb_tasks :: "task list"
  fb_active :: nat
  fb_waiters :: "nat list"
  fb_next :: nat
  fb_workers :: "nat option list"
  fb_log :: "run_event list"

definition start_task :: "nat \<Rightarrow> fallback \<Rightarrow> fallback" where
  "start_task i st = st\<lparr>fb_tasks := (fb_tasks st)[i := Running], fb_log := fb_log st @ [Started i]\<rparr>"

definition finish_task :: "nat \<Rightarrow> thrown \<Rightarrow> bool \<Rightarrow> fallback \<Rightarrow> fallback" where
  "finish_task i r rejected st =
    st\<lparr>fb_tasks := (fb_tasks st)[i := Settled r rejected], fb_log := fb_log st @ [Finished i]\<rparr>"

text \<open>The prerequisites of a task: the tasks it awaits.\<close>

definition prerequisites :: "int list list \<Rightarrow> nat \<Rightarrow> nat list" where
  "prerequisites deps i = map nat (filter (\<lambda>d. 0 \<le> d \<and> d < int i) (dependency_row deps i))"

text \<open>\<open>AsyncSlotPool.run\<close>: before the operation, and its \<open>finally\<close> block.\<close>

definition slot_enter :: "nat \<Rightarrow> nat \<Rightarrow> fallback \<Rightarrow> fallback" where
  "slot_enter limit i st =
    (if limit \<le> fb_active st then st\<lparr>fb_tasks := (fb_tasks st)[i := Queued], fb_waiters := fb_waiters st @ [i]\<rparr>
     else start_task i (st\<lparr>fb_active := fb_active st + 1\<rparr>))"

definition slot_leave :: "fallback \<Rightarrow> fallback" where
  "slot_leave st =
    (case fb_waiters st of
       [] \<Rightarrow> st\<lparr>fb_active := fb_active st - 1\<rparr>
     | w # ws \<Rightarrow> st\<lparr>fb_waiters := ws, fb_tasks := (fb_tasks st)[w := Admitted]\<rparr>)"

text \<open>The head of the loop of a worker, and of the ordered loop.\<close>

definition worker_pull :: "nat \<Rightarrow> fallback \<Rightarrow> fallback" where
  "worker_pull w st =
    (if fb_next st < length (fb_tasks st)
     then start_task (fb_next st) (st\<lparr>fb_next := fb_next st + 1, fb_workers := (fb_workers st)[w := Some (fb_next st)]\<rparr>)
     else st\<lparr>fb_workers := (fb_workers st)[w := None]\<rparr>)"

definition ordered_next :: "fallback \<Rightarrow> fallback" where
  "ordered_next st =
    (if fb_next st < length (fb_tasks st) then start_task (fb_next st) (st\<lparr>fb_next := fb_next st + 1\<rparr>) else st)"

definition fallback_modes :: "pipeline_options \<Rightarrow> nat \<Rightarrow> fallback_mode option" where
  "fallback_modes options n =
    (if po_ordered options then Some Ordered
     else case fallbackConcurrency (po_concurrency options) n of
         None \<Rightarrow> None
       | Some k \<Rightarrow> Some (case po_dependencies options of Some deps \<Rightarrow> Dependent deps k | None \<Rightarrow> Workers k))"

definition idle_fallback :: "nat \<Rightarrow> nat \<Rightarrow> fallback" where
  "idle_fallback n workers = \<lparr>fb_tasks = replicate n Blocked, fb_active = 0, fb_waiters = [], fb_next = 0,
    fb_workers = replicate workers None, fb_log = []\<rparr>"

fun begin_fallback :: "fallback_mode \<Rightarrow> nat \<Rightarrow> fallback" where
  "begin_fallback Ordered n = ordered_next (idle_fallback n 0)"
| "begin_fallback (Dependent deps limit) n = idle_fallback n 0"
| "begin_fallback (Workers k) n = fold worker_pull [0..<k] (idle_fallback n k)"

definition is_settled :: "task \<Rightarrow> bool" where
  "is_settled t \<longleftrightarrow> (case t of Settled _ _ \<Rightarrow> True | _ \<Rightarrow> False)"

inductive fallback_step :: "fallback_mode \<Rightarrow> fallback \<Rightarrow> fallback \<Rightarrow> bool" where
  ordered_settles: "i < length (fb_tasks st) \<Longrightarrow> fb_tasks st ! i = Running \<Longrightarrow>
    fallback_step Ordered st (ordered_next (finish_task i r rejected st))"
| prerequisites_settled: "i < length (fb_tasks st) \<Longrightarrow> fb_tasks st ! i = Blocked \<Longrightarrow>
    list_all (\<lambda>d. is_settled (fb_tasks st ! d)) (prerequisites deps i) \<Longrightarrow>
    fallback_step (Dependent deps limit) st (slot_enter limit i st)"
| admitted_resumes: "i < length (fb_tasks st) \<Longrightarrow> fb_tasks st ! i = Admitted \<Longrightarrow>
    fallback_step (Dependent deps limit) st (start_task i st)"
| dependent_settles: "i < length (fb_tasks st) \<Longrightarrow> fb_tasks st ! i = Running \<Longrightarrow>
    fallback_step (Dependent deps limit) st (slot_leave (finish_task i r rejected st))"
| worker_settles: "w < length (fb_workers st) \<Longrightarrow> fb_workers st ! w = Some i \<Longrightarrow>
    fallback_step (Workers k) st (worker_pull w (finish_task i r rejected st))"

text \<open>What the call returns once every task is settled.\<close>

fun task_result :: "task \<Rightarrow> thrown" where
  "task_result (Settled r rejected) = r"
| "task_result _ = Value JUndef"

fun task_rejected :: "task \<Rightarrow> bool" where
  "task_rejected (Settled r rejected) = rejected"
| "task_rejected _ = False"

definition fallback_result :: "pipeline_options \<Rightarrow> fallback \<Rightarrow> thrown + thrown list \<times> bool list option" where
  "fallback_result options st = surfaceIndividualCommandErrors (map task_result (fb_tasks st))
    (map task_rejected (fb_tasks st)) (list_ex task_rejected (fb_tasks st)) options"

section \<open>Legal schedules\<close>

text \<open>What the three loops promise, as logs: a command starts once, after its prerequisites have finished and
  while fewer than \<open>limit\<close> commands are in flight; only a command in flight finishes.\<close>

definition in_flight :: "run_event list \<Rightarrow> nat set" where
  "in_flight log = {i. Started i \<in> set log \<and> Finished i \<notin> set log}"

inductive legal_schedule :: "(nat \<Rightarrow> nat list) \<Rightarrow> nat \<Rightarrow> nat \<Rightarrow> run_event list \<Rightarrow> bool"
  for pre :: "nat \<Rightarrow> nat list" and limit n :: nat where
  nothing: "legal_schedule pre limit n []"
| start: "legal_schedule pre limit n log \<Longrightarrow> j < n \<Longrightarrow> Started j \<notin> set log \<Longrightarrow>
    \<forall>d \<in> set (pre j). Finished d \<in> set log \<Longrightarrow> card (in_flight log) < limit \<Longrightarrow>
    legal_schedule pre limit n (log @ [Started j])"
| finish: "legal_schedule pre limit n log \<Longrightarrow> i \<in> in_flight log \<Longrightarrow> legal_schedule pre limit n (log @ [Finished i])"

lemma legal_events:
  "legal_schedule pre limit n log \<Longrightarrow> distinct log \<and> (\<forall>i. Finished i \<in> set log \<longrightarrow> Started i \<in> set log) \<and>
    (\<forall>i. Started i \<in> set log \<longrightarrow> i < n)"
  by (induction rule: legal_schedule.induct) (auto simp: in_flight_def)

lemma legal_limit: "legal_schedule pre limit n log \<Longrightarrow> card (in_flight log) \<le> limit"
proof (induction rule: legal_schedule.induct)
  case (start log j)
  have "in_flight (log @ [Started j]) \<subseteq> insert j (in_flight log)" by (auto simp: in_flight_def)
  moreover have "in_flight log \<subseteq> {..<n}" using legal_events [OF start.hyps(1)] by (auto simp: in_flight_def)
  then have "finite (in_flight log)" by (rule finite_subset) simp
  ultimately have "card (in_flight (log @ [Started j])) \<le> card (insert j (in_flight log))"
    by (intro card_mono) simp_all
  also have "\<dots> \<le> Suc (card (in_flight log))" by (rule card_insert_le_m1) simp_all
  finally have "card (in_flight (log @ [Started j])) \<le> Suc (card (in_flight log))" .
  then show ?case using start.hyps(5) by simp
next
  case (finish log i)
  have "in_flight log \<subseteq> {..<n}" using legal_events [OF finish.hyps(1)] by (auto simp: in_flight_def)
  then have "finite (in_flight log)" by (rule finite_subset) simp
  moreover have "in_flight (log @ [Finished i]) \<subseteq> in_flight log" by (auto simp: in_flight_def)
  ultimately show ?case using finish.IH card_mono le_trans by blast
qed (simp add: in_flight_def)

text \<open>Whatever starts, its prerequisites have finished before.\<close>

lemma legal_order:
  "legal_schedule pre limit n log \<Longrightarrow> log = xs @ Started j # ys \<Longrightarrow> d \<in> set (pre j) \<Longrightarrow> Finished d \<in> set xs"
proof (induction arbitrary: xs ys rule: legal_schedule.induct)
  case (start log i)
  then show ?case by (cases ys rule: rev_cases) auto
next
  case (finish log i)
  then show ?case by (cases ys rule: rev_cases) auto
qed simp

lemma legal_started_first:
  "legal_schedule pre limit n log \<Longrightarrow> log = xs @ Finished i # ys \<Longrightarrow> Started i \<in> set xs"
proof (induction arbitrary: xs ys rule: legal_schedule.induct)
  case (start log i)
  then show ?case by (cases ys rule: rev_cases) auto
next
  case (finish log i)
  then show ?case by (cases ys rule: rev_cases) (auto simp: in_flight_def)
qed simp

text \<open>So a chain of prerequisites runs in its order.\<close>

lemma legal_chain:
  assumes legal: "legal_schedule pre limit n log" and chain: "(\<lambda>a b. b \<in> set (pre a))\<^sup>+\<^sup>+ j i"
  shows "log = xs @ Started j # ys \<Longrightarrow> Finished i \<in> set xs"
  using chain
proof (induction arbitrary: rule: tranclp_induct)
  case (base d)
  then show ?case using legal_order [OF legal] by blast
next
  case (step d e)
  then have "Finished d \<in> set xs" by blast
  then obtain us vs where xs: "xs = us @ Finished d # vs" by (meson split_list)
  with step.prems have "Started d \<in> set us" using legal_started_first [OF legal, of us d "vs @ Started j # ys"] by simp
  then obtain ps qs where us: "us = ps @ Started d # qs" by (meson split_list)
  have "Finished e \<in> set ps"
    using legal_order [OF legal, of ps d "qs @ Finished d # vs @ Started j # ys"] step.hyps(2) step.prems by (simp add: xs us)
  then show ?case by (simp add: xs us)
qed

section \<open>The loops refine them\<close>

fun mode_prerequisites :: "fallback_mode \<Rightarrow> nat \<Rightarrow> nat list" where
  "mode_prerequisites Ordered i = [0..<i]"
| "mode_prerequisites (Dependent deps limit) i = prerequisites deps i"
| "mode_prerequisites (Workers k) i = []"

fun mode_limit :: "fallback_mode \<Rightarrow> nat" where
  "mode_limit Ordered = 1"
| "mode_limit (Dependent deps limit) = limit"
| "mode_limit (Workers k) = k"

text \<open>The log agrees with a task.\<close>

definition task_logged :: "run_event list \<Rightarrow> nat \<Rightarrow> task \<Rightarrow> bool" where
  "task_logged log i t \<longleftrightarrow> (Started i \<in> set log \<longleftrightarrow> t = Running \<or> is_settled t) \<and> (Finished i \<in> set log \<longleftrightarrow> is_settled t)"

lemma is_settled_simps [simp]:
  "is_settled (Settled r b)" "\<not> is_settled Running" "\<not> is_settled Blocked" "\<not> is_settled Queued" "\<not> is_settled Admitted"
  by (simp_all add: is_settled_def)

lemma not_settled_cases: "\<not> is_settled t \<Longrightarrow> t = Blocked \<or> t = Queued \<or> t = Admitted \<or> t = Running"
  by (cases t) simp_all

definition fb_core :: "fallback_mode \<Rightarrow> nat \<Rightarrow> fallback \<Rightarrow> bool" where
  "fb_core m n st \<longleftrightarrow> length (fb_tasks st) = n \<and> (\<forall>i < n. task_logged (fb_log st) i (fb_tasks st ! i)) \<and>
    legal_schedule (mode_prerequisites m) (mode_limit m) n (fb_log st)"

lemma fb_coreD:
  assumes "fb_core m n st"
  shows "length (fb_tasks st) = n" "i < n \<Longrightarrow> task_logged (fb_log st) i (fb_tasks st ! i)"
    "legal_schedule (mode_prerequisites m) (mode_limit m) n (fb_log st)"
  using assms by (simp_all add: fb_core_def)

lemma core_in_flight: "fb_core m n st \<Longrightarrow> in_flight (fb_log st) = {i. i < n \<and> fb_tasks st ! i = Running}"
proof (intro set_eqI iffI)
  fix i assume core: "fb_core m n st" and i: "i \<in> in_flight (fb_log st)"
  then have "i < n" using legal_events [OF fb_coreD(3) [OF core]] by (simp add: in_flight_def)
  with fb_coreD(2) [OF core this] i show "i \<in> {i. i < n \<and> fb_tasks st ! i = Running}"
    by (auto simp: in_flight_def task_logged_def)
next
  fix i assume core: "fb_core m n st" and i: "i \<in> {i. i < n \<and> fb_tasks st ! i = Running}"
  with fb_coreD(2) [OF core, of i] show "i \<in> in_flight (fb_log st)" by (simp add: in_flight_def task_logged_def)
qed

lemma count_list_update:
  "i < length xs \<Longrightarrow> count_list (xs[i := v]) x + (if xs ! i = x then 1 else 0) = count_list xs x + (if v = x then 1 else 0)"
proof (induction xs arbitrary: i)
  case (Cons y xs)
  then show ?case by (cases i) (auto dest!: Cons.IH)
qed simp

lemma core_running: "fb_core m n st \<Longrightarrow> card (in_flight (fb_log st)) = count_list (fb_tasks st) Running"
  by (simp add: core_in_flight count_list_eq_length_filter length_filter_conv_card fb_coreD(1) eq_commute [of Running] conj_commute)

lemma core_cong:
  "fb_core m n st \<Longrightarrow> fb_tasks st' = fb_tasks st \<Longrightarrow> fb_log st' = fb_log st \<Longrightarrow> fb_core m n st'"
  by (simp add: fb_core_def)

lemma core_start:
  assumes core: "fb_core m n st" and i: "i < n" "\<not> is_settled (fb_tasks st ! i)" "fb_tasks st ! i \<noteq> Running"
    and pre: "\<forall>d \<in> set (mode_prerequisites m i). d < n \<and> is_settled (fb_tasks st ! d)"
    and limit: "count_list (fb_tasks st) Running < mode_limit m"
  shows "fb_core m n (start_task i st)"
proof -
  note D = fb_coreD [OF core]
  have "legal_schedule (mode_prerequisites m) (mode_limit m) n (fb_log st @ [Started i])"
  proof (rule legal_schedule.start [OF D(3) i(1)])
    show "Started i \<notin> set (fb_log st)" using D(2) [OF i(1)] i(2,3) by (simp add: task_logged_def)
    show "\<forall>d \<in> set (mode_prerequisites m i). Finished d \<in> set (fb_log st)" using D(2) pre by (simp add: task_logged_def)
    show "card (in_flight (fb_log st)) < mode_limit m" using limit core_running [OF core] by simp
  qed
  moreover have "task_logged (fb_log st @ [Started i]) j ((fb_tasks st)[i := Running] ! j)" if "j < n" for j
    using D(2) [OF that] that i(2) D(1) by (cases "j = i") (simp_all add: task_logged_def)
  ultimately show ?thesis using D(1) by (simp add: fb_core_def start_task_def)
qed

lemma core_finish:
  assumes core: "fb_core m n st" and i: "i < n" "fb_tasks st ! i = Running"
  shows "fb_core m n (finish_task i r b st)"
proof -
  note D = fb_coreD [OF core]
  have "legal_schedule (mode_prerequisites m) (mode_limit m) n (fb_log st @ [Finished i])"
    using legal_schedule.finish [OF D(3)] core_in_flight [OF core] i by simp
  moreover have "task_logged (fb_log st @ [Finished i]) j ((fb_tasks st)[i := Settled r b] ! j)" if "j < n" for j
    using D(2) [OF that] that i(2) D(1) by (cases "j = i") (auto simp: task_logged_def)
  ultimately show ?thesis using D(1) by (simp add: fb_core_def finish_task_def)
qed

text \<open>Waiting tasks may change their state.\<close>

lemma core_relabel:
  assumes core: "fb_core m n st" and i: "i < n" "\<not> is_settled (fb_tasks st ! i)" "fb_tasks st ! i \<noteq> Running"
    and t: "\<not> is_settled t" "t \<noteq> Running" and st': "fb_tasks st' = (fb_tasks st)[i := t]" "fb_log st' = fb_log st"
  shows "fb_core m n st'"
proof -
  note D = fb_coreD [OF core]
  have "task_logged (fb_log st) j ((fb_tasks st)[i := t] ! j)" if "j < n" for j
    using D(2) [OF that] that i D(1) t by (cases "j = i") (simp_all add: task_logged_def)
  then show ?thesis using D(1,3) by (simp add: fb_core_def st')
qed

lemma idle_core: "fb_core m n (idle_fallback n k)"
  by (simp add: fb_core_def idle_fallback_def task_logged_def legal_schedule.nothing)

definition ordered_part :: "nat \<Rightarrow> fallback \<Rightarrow> bool" where
  "ordered_part n st \<longleftrightarrow> fb_next st \<le> n \<and> (0 < n \<longrightarrow> 0 < fb_next st) \<and>
    (\<forall>i < n. fb_tasks st ! i = Blocked \<longleftrightarrow> fb_next st \<le> i) \<and>
    (\<forall>i < n. Suc i < fb_next st \<longrightarrow> is_settled (fb_tasks st ! i)) \<and>
    (\<forall>i < n. Suc i = fb_next st \<longrightarrow> fb_tasks st ! i = Running \<or> is_settled (fb_tasks st ! i) \<and> fb_next st = n)"

text \<open>The slot pool: its queue, its slots, and that whoever uses it has its prerequisites.\<close>

definition waiters_part :: "nat \<Rightarrow> fallback \<Rightarrow> bool" where
  "waiters_part n st \<longleftrightarrow> distinct (fb_waiters st) \<and> (\<forall>i. i \<in> set (fb_waiters st) \<longleftrightarrow> i < n \<and> fb_tasks st ! i = Queued)"

definition slots_part :: "nat \<Rightarrow> fallback \<Rightarrow> bool" where
  "slots_part limit st \<longleftrightarrow> fb_active st = count_list (fb_tasks st) Running + count_list (fb_tasks st) Admitted \<and>
    fb_active st \<le> limit \<and> (fb_waiters st \<noteq> [] \<longrightarrow> fb_active st = limit)"

definition ready_part :: "int list list \<Rightarrow> nat \<Rightarrow> fallback \<Rightarrow> bool" where
  "ready_part deps n st \<longleftrightarrow> (\<forall>i < n. fb_tasks st ! i = Queued \<or> fb_tasks st ! i = Admitted \<longrightarrow>
    (\<forall>d \<in> set (prerequisites deps i). is_settled (fb_tasks st ! d)))"

text \<open>\<open>W\<close> are the workers at the head of no loop.\<close>

definition worker_part :: "nat \<Rightarrow> nat \<Rightarrow> nat set \<Rightarrow> fallback \<Rightarrow> bool" where
  "worker_part k n W st \<longleftrightarrow> length (fb_workers st) = k \<and> fb_next st \<le> n \<and>
    (\<forall>i < n. fb_tasks st ! i = Blocked \<longleftrightarrow> fb_next st \<le> i) \<and>
    (\<forall>i < n. fb_tasks st ! i \<noteq> Queued \<and> fb_tasks st ! i \<noteq> Admitted) \<and>
    (\<forall>i. i < n \<and> fb_tasks st ! i = Running \<longleftrightarrow> (\<exists>w \<in> W. fb_workers st ! w = Some i)) \<and>
    (\<forall>w \<in> W. \<forall>v \<in> W. fb_workers st ! w = fb_workers st ! v \<and> fb_workers st ! w \<noteq> None \<longrightarrow> w = v) \<and>
    (\<forall>w \<in> W. fb_workers st ! w = None \<longrightarrow> fb_next st = n)"

fun fb_inv :: "fallback_mode \<Rightarrow> nat \<Rightarrow> fallback \<Rightarrow> bool" where
  "fb_inv Ordered n st \<longleftrightarrow> fb_core Ordered n st \<and> ordered_part n st"
| "fb_inv (Dependent deps limit) n st \<longleftrightarrow> fb_core (Dependent deps limit) n st \<and>
    waiters_part n st \<and> slots_part limit st \<and> ready_part deps n st"
| "fb_inv (Workers k) n st \<longleftrightarrow> fb_core (Workers k) n st \<and> worker_part k n {..<k} st"

text \<open>The ordered loop: nothing runs when it goes on to the next command.\<close>

lemma ordered_next_inv:
  assumes core: "fb_core Ordered n st" and bound: "fb_next st \<le> n"
    and settled: "\<And>i. i < fb_next st \<Longrightarrow> is_settled (fb_tasks st ! i)"
    and blocked: "\<And>i. i < n \<Longrightarrow> fb_next st \<le> i \<Longrightarrow> fb_tasks st ! i = Blocked"
  shows "fb_inv Ordered n (ordered_next st)"
proof -
  have len: "length (fb_tasks st) = n" by (rule fb_coreD(1) [OF core])
  have other: "fb_tasks st ! i = Blocked \<longleftrightarrow> fb_next st \<le> i" if "i < n" for i
    using settled [of i] blocked [OF that] by (cases "fb_next st \<le> i") auto
  show ?thesis
  proof (cases "fb_next st < n")
    case False
    then have "ordered_next st = st" using len by (simp add: ordered_next_def)
    then show ?thesis using False core bound settled other by (simp add: ordered_part_def)
  next
    case True
    let ?st = "st\<lparr>fb_next := fb_next st + 1\<rparr>"
    have none: "fb_tasks st ! i \<noteq> Running" if "i < n" for i
      using settled [of i] blocked [of i] that by (cases "i < fb_next st") auto
    then have "Running \<notin> set (fb_tasks st)" using len by (auto simp: in_set_conv_nth)
    then have count: "count_list (fb_tasks st) Running = 0" by simp
    have core': "fb_core Ordered n ?st" by (rule core_cong [OF core]) simp_all
    have "fb_core Ordered n (start_task (fb_next st) ?st)"
      by (rule core_start [OF core']) (use True blocked [of "fb_next st"] settled count in \<open>auto\<close>)
    moreover have "ordered_part n (start_task (fb_next st) ?st)"
      using True settled other len by (auto simp: ordered_part_def start_task_def nth_list_update)
    ultimately show ?thesis using True len by (simp add: ordered_next_def)
  qed
qed

lemma ordered_settle_inv:
  assumes inv: "fb_inv Ordered n st" and i: "i < n" "fb_tasks st ! i = Running"
  shows "fb_inv Ordered n (ordered_next (finish_task i r b st))"
proof -
  have core: "fb_core Ordered n st" and part: "ordered_part n st" using inv by simp_all
  have len: "length (fb_tasks st) = n" by (rule fb_coreD(1) [OF core])
  have at: "Suc i = fb_next st"
  proof (rule ccontr)
    assume "Suc i \<noteq> fb_next st"
    then consider "Suc i < fb_next st" | "fb_next st \<le> i" by linarith
    then show False
    proof cases
      case 1
      then have "is_settled (fb_tasks st ! i)" using part i(1) unfolding ordered_part_def by blast
      with i(2) show False by simp
    next
      case 2
      then have "fb_tasks st ! i = Blocked" using part i(1) unfolding ordered_part_def by blast
      with i(2) show False by simp
    qed
  qed
  show ?thesis
  proof (rule ordered_next_inv)
    show "fb_core Ordered n (finish_task i r b st)" by (rule core_finish [OF core i])
    show "fb_next (finish_task i r b st) \<le> n" using part by (simp add: ordered_part_def finish_task_def)
    show "is_settled (fb_tasks (finish_task i r b st) ! j)" if "j < fb_next (finish_task i r b st)" for j
      using part that at len i(1) by (cases "j = i") (simp_all add: ordered_part_def finish_task_def)
    show "fb_tasks (finish_task i r b st) ! j = Blocked" if "j < n" "fb_next (finish_task i r b st) \<le> j" for j
      using part that at len by (cases "j = i") (simp_all add: ordered_part_def finish_task_def)
  qed
qed

text \<open>The slot pool.\<close>

lemma task_counts:
  assumes "i < length (fb_tasks st)"
  shows "count_list ((fb_tasks st)[i := t]) x + (if fb_tasks st ! i = x then 1 else 0) =
    count_list (fb_tasks st) x + (if t = x then 1 else 0)"
  by (rule count_list_update [OF assms])

lemma waiters_update:
  assumes "waiters_part n st" "length (fb_tasks st) = n" "fb_tasks st ! i \<noteq> Queued" "t \<noteq> Queued"
    "fb_tasks st' = (fb_tasks st)[i := t]" "fb_waiters st' = fb_waiters st"
  shows "waiters_part n st'"
proof -
  have "(j < n \<and> fb_tasks st' ! j = Queued) = (j < n \<and> fb_tasks st ! j = Queued)" for j
    using assms(2-5) by (cases "j = i") simp_all
  then show ?thesis using assms(1,6) by (simp add: waiters_part_def)
qed

lemma ready_update:
  assumes "ready_part deps n st" "length (fb_tasks st) = n" "i < n" "\<not> is_settled (fb_tasks st ! i)"
    "fb_tasks st' = (fb_tasks st)[i := t]"
    "t = Queued \<or> t = Admitted \<Longrightarrow> \<forall>d \<in> set (prerequisites deps i). is_settled (fb_tasks st ! d)"
  shows "ready_part deps n st'"
proof -
  have keep: "is_settled (fb_tasks st' ! d)" if "is_settled (fb_tasks st ! d)" for d
    using that assms(4,5) by (cases "d = i") simp_all
  show ?thesis unfolding ready_part_def
  proof (intro allI impI ballI)
    fix j d assume j: "j < n" "fb_tasks st' ! j = Queued \<or> fb_tasks st' ! j = Admitted" "d \<in> set (prerequisites deps j)"
    show "is_settled (fb_tasks st' ! d)"
    proof (cases "j = i")
      case True
      with j(2,3) assms(2,3,5,6) have "is_settled (fb_tasks st ! d)" by simp
      then show ?thesis by (rule keep)
    next
      case False
      with j assms(1,5) have "is_settled (fb_tasks st ! d)" by (auto simp: ready_part_def)
      then show ?thesis by (rule keep)
    qed
  qed
qed

lemma prerequisites_below: "d \<in> set (prerequisites deps i) \<Longrightarrow> d < i"
  by (auto simp: prerequisites_def)

lemma dependent_enter_inv:
  assumes inv: "fb_inv (Dependent deps limit) n st" and i: "i < n" "fb_tasks st ! i = Blocked"
    and pre: "list_all (\<lambda>d. is_settled (fb_tasks st ! d)) (prerequisites deps i)"
  shows "fb_inv (Dependent deps limit) n (slot_enter limit i st)"
proof -
  have core: "fb_core (Dependent deps limit) n st" and parts: "waiters_part n st" "slots_part limit st" "ready_part deps n st"
    using inv by simp_all
  have len: "length (fb_tasks st) = n" by (rule fb_coreD(1) [OF core])
  have il: "i < length (fb_tasks st)" using i len by simp
  have ready: "\<forall>d \<in> set (prerequisites deps i). is_settled (fb_tasks st ! d)" using pre by (simp add: list_all_iff)
  show ?thesis
  proof (cases "limit \<le> fb_active st")
    case True
    let ?st = "st\<lparr>fb_tasks := (fb_tasks st)[i := Queued], fb_waiters := fb_waiters st @ [i]\<rparr>"
    have "fb_core (Dependent deps limit) n ?st" by (rule core_relabel [OF core i(1)]) (simp_all add: i)
    moreover have "waiters_part n ?st"
    proof -
      have "i \<notin> set (fb_waiters st)" using parts(1) i(2) by (simp add: waiters_part_def)
      moreover have "(j < n \<and> (fb_tasks st)[i := Queued] ! j = Queued) = (j = i \<or> j < n \<and> fb_tasks st ! j = Queued)" for j
        using i(1) len by (cases "j = i") simp_all
      ultimately show ?thesis using parts(1) by (auto simp: waiters_part_def)
    qed
    moreover have "slots_part limit ?st"
      using parts(2) True task_counts [OF il, of Queued Running] task_counts [OF il, of Queued Admitted] i(2)
      by (simp add: slots_part_def)
    moreover have "ready_part deps n ?st"
      by (rule ready_update [OF parts(3) len i(1), of _ Queued]) (use i ready in simp_all)
    ultimately show ?thesis using True by (simp add: slot_enter_def)
  next
    case False
    let ?st = "st\<lparr>fb_active := fb_active st + 1\<rparr>"
    have core': "fb_core (Dependent deps limit) n ?st" by (rule core_cong [OF core]) simp_all
    have "fb_core (Dependent deps limit) n (start_task i ?st)"
    proof (rule core_start [OF core' i(1)])
      show "count_list (fb_tasks ?st) Running < mode_limit (Dependent deps limit)"
        using False parts(2) by (simp add: slots_part_def)
      show "\<forall>d \<in> set (mode_prerequisites (Dependent deps limit) i). d < n \<and> is_settled (fb_tasks ?st ! d)"
        using ready prerequisites_below i(1) by fastforce
    qed (simp_all add: i)
    moreover have "waiters_part n (start_task i ?st)"
      by (rule waiters_update [OF parts(1) len, of i Running]) (simp_all add: i start_task_def)
    moreover have "slots_part limit (start_task i ?st)"
      using parts(2) False task_counts [OF il, of Running Running] task_counts [OF il, of Running Admitted] i(2)
      by (simp add: slots_part_def start_task_def)
    moreover have "ready_part deps n (start_task i ?st)"
      by (rule ready_update [OF parts(3) len i(1), of _ Running]) (use i ready in \<open>simp_all add: start_task_def\<close>)
    ultimately show ?thesis using False by (simp add: slot_enter_def)
  qed
qed

lemma dependent_resume_inv:
  assumes inv: "fb_inv (Dependent deps limit) n st" and i: "i < n" "fb_tasks st ! i = Admitted"
  shows "fb_inv (Dependent deps limit) n (start_task i st)"
proof -
  have core: "fb_core (Dependent deps limit) n st" and parts: "waiters_part n st" "slots_part limit st" "ready_part deps n st"
    using inv by simp_all
  have len: "length (fb_tasks st) = n" by (rule fb_coreD(1) [OF core])
  have il: "i < length (fb_tasks st)" using i len by simp
  note counts = task_counts [OF il, of Running Running] task_counts [OF il, of Running Admitted]
  have "fb_core (Dependent deps limit) n (start_task i st)"
  proof (rule core_start [OF core i(1)])
    show "count_list (fb_tasks st) Running < mode_limit (Dependent deps limit)"
      using counts i(2) parts(2) by (simp add: slots_part_def)
    show "\<forall>d \<in> set (mode_prerequisites (Dependent deps limit) i). d < n \<and> is_settled (fb_tasks st ! d)"
      using parts(3) i prerequisites_below by (fastforce simp: ready_part_def)
  qed (simp_all add: i)
  moreover have "waiters_part n (start_task i st)"
    by (rule waiters_update [OF parts(1) len, of i Running]) (simp_all add: i start_task_def)
  moreover have "slots_part limit (start_task i st)"
    using parts(2) counts i(2) by (auto simp: slots_part_def start_task_def)
  moreover have "ready_part deps n (start_task i st)"
    by (rule ready_update [OF parts(3) len i(1), of _ Running]) (use i in \<open>simp_all add: start_task_def\<close>)
  ultimately show ?thesis by simp
qed

lemma dependent_settle_inv:
  assumes inv: "fb_inv (Dependent deps limit) n st" and i: "i < n" "fb_tasks st ! i = Running"
  shows "fb_inv (Dependent deps limit) n (slot_leave (finish_task i r b st))"
proof -
  have core: "fb_core (Dependent deps limit) n st" and parts: "waiters_part n st" "slots_part limit st" "ready_part deps n st"
    using inv by simp_all
  have len: "length (fb_tasks st) = n" by (rule fb_coreD(1) [OF core])
  have il: "i < length (fb_tasks st)" using i len by simp
  let ?st = "finish_task i r b st"
  note counts = task_counts [OF il, of "Settled r b" Running] task_counts [OF il, of "Settled r b" Admitted]
  have core1: "fb_core (Dependent deps limit) n ?st" by (rule core_finish [OF core i])
  have len1: "length (fb_tasks ?st) = n" by (rule fb_coreD(1) [OF core1])
  have waiters1: "waiters_part n ?st"
    by (rule waiters_update [OF parts(1) len, of i "Settled r b"]) (simp_all add: i finish_task_def)
  have ready1: "ready_part deps n ?st"
    by (rule ready_update [OF parts(3) len i(1), of _ "Settled r b"]) (use i in \<open>simp_all add: finish_task_def\<close>)
  have active: "fb_active ?st = Suc (count_list (fb_tasks ?st) Running + count_list (fb_tasks ?st) Admitted)"
    "fb_active ?st \<le> limit" "fb_waiters ?st \<noteq> [] \<Longrightarrow> fb_active ?st = limit"
    using counts i(2) parts(2) by (simp_all add: slots_part_def finish_task_def)
  show ?thesis
  proof (cases "fb_waiters ?st")
    case Nil
    let ?st' = "?st\<lparr>fb_active := fb_active ?st - 1\<rparr>"
    have "fb_core (Dependent deps limit) n ?st'" by (rule core_cong [OF core1]) simp_all
    moreover have "waiters_part n ?st'" "ready_part deps n ?st'"
      using waiters1 ready1 by (simp_all add: waiters_part_def ready_part_def)
    moreover have "slots_part limit ?st'" using active Nil by (simp add: slots_part_def)
    ultimately show ?thesis using Nil by (simp add: slot_leave_def)
  next
    case (Cons w ws)
    let ?st' = "?st\<lparr>fb_waiters := ws, fb_tasks := (fb_tasks ?st)[w := Admitted]\<rparr>"
    have w: "w < n" "fb_tasks ?st ! w = Queued" "w \<notin> set ws" using waiters1 Cons by (auto simp: waiters_part_def)
    have wl: "w < length (fb_tasks ?st)" using w(1) len1 by simp
    have "fb_core (Dependent deps limit) n ?st'" by (rule core_relabel [OF core1 w(1)]) (simp_all add: w)
    moreover have "waiters_part n ?st'"
    proof -
      have "(j < n \<and> (fb_tasks ?st)[w := Admitted] ! j = Queued) = (j \<noteq> w \<and> j < n \<and> fb_tasks ?st ! j = Queued)" for j
        using w(1) len1 by (cases "j = w") simp_all
      then show ?thesis using waiters1 Cons by (auto simp: waiters_part_def)
    qed
    moreover have "slots_part limit ?st'"
      using active Cons w(2) task_counts [OF wl, of Admitted Running] task_counts [OF wl, of Admitted Admitted]
      by (simp add: slots_part_def)
    moreover have "ready_part deps n ?st'"
      by (rule ready_update [OF ready1 len1 w(1), of _ Admitted]) (use w ready1 in \<open>auto simp: ready_part_def\<close>)
    ultimately show ?thesis using Cons by (simp add: slot_leave_def)
  qed
qed

text \<open>The workers. A worker at the head of its loop is one more that could run.\<close>

lemma worker_partD:
  assumes "worker_part k n W st"
  shows "length (fb_workers st) = k" "fb_next st \<le> n" "i < n \<Longrightarrow> fb_tasks st ! i = Blocked \<longleftrightarrow> fb_next st \<le> i"
    "i < n \<Longrightarrow> fb_tasks st ! i \<noteq> Queued \<and> fb_tasks st ! i \<noteq> Admitted"
    "i < n \<and> fb_tasks st ! i = Running \<longleftrightarrow> (\<exists>w \<in> W. fb_workers st ! w = Some i)"
    "w \<in> W \<Longrightarrow> v \<in> W \<Longrightarrow> fb_workers st ! w = fb_workers st ! v \<Longrightarrow> fb_workers st ! w \<noteq> None \<Longrightarrow> w = v"
    "w \<in> W \<Longrightarrow> fb_workers st ! w = None \<Longrightarrow> fb_next st = n"
  using assms unfolding worker_part_def by blast+

lemma running_workers:
  assumes core: "fb_core m n st" and part: "worker_part k n W st" and W: "finite W"
  shows "count_list (fb_tasks st) Running \<le> card W"
proof -
  have "in_flight (fb_log st) \<subseteq> (\<lambda>w. the (fb_workers st ! w)) ` W"
  proof
    fix i assume "i \<in> in_flight (fb_log st)"
    then have "\<exists>w \<in> W. fb_workers st ! w = Some i" using core_in_flight [OF core] worker_partD(5) [OF part] by simp
    then show "i \<in> (\<lambda>w. the (fb_workers st ! w)) ` W" by force
  qed
  then have "card (in_flight (fb_log st)) \<le> card W" using W by (meson card_image_le card_mono finite_imageI le_trans)
  then show ?thesis using core_running [OF core] by simp
qed

lemma worker_pull_inv:
  assumes core: "fb_core (Workers k) n st" and part: "worker_part k n W st" and W: "W \<subseteq> {..<k}" "w < k" "w \<notin> W"
  shows "fb_core (Workers k) n (worker_pull w st) \<and> worker_part k n (insert w W) (worker_pull w st)"
proof -
  note D = worker_partD [OF part]
  have len: "length (fb_tasks st) = n" by (rule fb_coreD(1) [OF core])
  have same: "(fb_workers st)[w := x] ! v = fb_workers st ! v" if "v \<in> W" for x v using that W(3) by (cases "v = w") auto
  show ?thesis
  proof (cases "fb_next st < n")
    case False
    let ?st = "st\<lparr>fb_workers := (fb_workers st)[w := None]\<rparr>"
    have "fb_core (Workers k) n ?st" by (rule core_cong [OF core]) simp_all
    moreover have "worker_part k n (insert w W) ?st" unfolding worker_part_def
    proof (intro conjI)
      show "\<forall>i. i < n \<and> fb_tasks ?st ! i = Running \<longleftrightarrow> (\<exists>v \<in> insert w W. fb_workers ?st ! v = Some i)"
        using D(5) same W(2) D(1) by simp
      show "\<forall>v \<in> insert w W. \<forall>u \<in> insert w W. fb_workers ?st ! v = fb_workers ?st ! u \<and> fb_workers ?st ! v \<noteq> None \<longrightarrow> v = u"
      proof -
        have "fb_workers ?st ! v = (if v = w then None else fb_workers st ! v)" if "v \<in> insert w W" for v
          using same [of v] that W(2) D(1) by auto
        then show ?thesis using D(6) by (metis insert_iff)
      qed
      show "\<forall>v \<in> insert w W. fb_workers ?st ! v = None \<longrightarrow> fb_next ?st = n" using False D(2) by simp
    qed (use D(1-4) in simp_all)
    ultimately show ?thesis using False len by (simp add: worker_pull_def)
  next
    case True
    let ?i = "fb_next st" and ?st = "st\<lparr>fb_next := Suc (fb_next st), fb_workers := (fb_workers st)[w := Some (fb_next st)]\<rparr>"
    let ?st' = "start_task ?i ?st"
    have core': "fb_core (Workers k) n ?st" by (rule core_cong [OF core]) simp_all
    have blocked: "fb_tasks st ! ?i = Blocked" using D(3) [OF True] by simp
    have "W \<subset> {..<k}" using W by auto
    then have "card W < k" using psubset_card_mono [of "{..<k}" W] by simp
    moreover have "count_list (fb_tasks st) Running \<le> card W"
      by (rule running_workers [OF core part]) (use W(1) finite_subset in blast)
    ultimately have "fb_core (Workers k) n ?st'"
      by (intro core_start [OF core' True]) (simp_all add: blocked)
    moreover have "worker_part k n (insert w W) ?st'" unfolding worker_part_def
    proof (intro conjI)
      have tasks: "fb_tasks ?st' ! i = (if i = ?i then Running else fb_tasks st ! i)" for i
        using True len by (simp add: start_task_def)
      show "\<forall>i < n. (fb_tasks ?st' ! i = Blocked) = (fb_next ?st' \<le> i)"
      proof (intro allI impI)
        fix i assume "i < n"
        then show "(fb_tasks ?st' ! i = Blocked) = (fb_next ?st' \<le> i)"
          using D(3) [of i] unfolding tasks by (cases "i = ?i") (auto simp: start_task_def)
      qed
      show "\<forall>i < n. fb_tasks ?st' ! i \<noteq> Queued \<and> fb_tasks ?st' ! i \<noteq> Admitted" using D(4) by (simp add: tasks)
      have busy: "fb_workers ?st' ! v = (if v = w then Some ?i else fb_workers st ! v)" if "v \<in> insert w W" for v
        using W D(1) that by (auto simp: start_task_def)
      have fresh: "fb_workers st ! v \<noteq> Some ?i" if "v \<in> W" for v using D(5) [of ?i] blocked that by auto
      show "\<forall>i. i < n \<and> fb_tasks ?st' ! i = Running \<longleftrightarrow> (\<exists>v \<in> insert w W. fb_workers ?st' ! v = Some i)"
      proof
        fix i
        show "i < n \<and> fb_tasks ?st' ! i = Running \<longleftrightarrow> (\<exists>v \<in> insert w W. fb_workers ?st' ! v = Some i)"
        proof (cases "i = ?i")
          case True
          then show ?thesis using \<open>?i < n\<close> W D(1) tasks by (simp add: start_task_def)
        next
          case False
          have "(\<exists>v \<in> insert w W. fb_workers ?st' ! v = Some i) = (\<exists>v \<in> W. fb_workers st ! v = Some i)"
          proof -
            have "fb_workers ?st' ! v = Some i \<longleftrightarrow> v \<in> W \<and> fb_workers st ! v = Some i" if "v \<in> insert w W" for v
              using busy [OF that] that False W(3) by (cases "v = w") auto
            then show ?thesis by blast
          qed
          then show ?thesis using D(5) [of i] False tasks by simp
        qed
      qed
      show "\<forall>v \<in> insert w W. \<forall>u \<in> insert w W. fb_workers ?st' ! v = fb_workers ?st' ! u \<and> fb_workers ?st' ! v \<noteq> None \<longrightarrow> v = u"
        using D(6) fresh busy by (metis insert_iff)
      show "\<forall>v \<in> insert w W. fb_workers ?st' ! v = None \<longrightarrow> fb_next ?st' = n"
      proof (intro ballI impI)
        fix v assume v: "v \<in> insert w W" "fb_workers ?st' ! v = None"
        then have "v \<in> W" "fb_workers st ! v = None" using busy [OF v(1)] by (auto split: if_splits)
        then have "fb_next st = n" by (rule D(7))
        with True show "fb_next ?st' = n" by simp
      qed
    qed (use D(1) True in \<open>simp_all add: start_task_def\<close>)
    ultimately show ?thesis using True len by (simp add: worker_pull_def)
  qed
qed

lemma worker_settle_inv:
  assumes inv: "fb_inv (Workers k) n st" and w: "w < length (fb_workers st)" "fb_workers st ! w = Some i"
  shows "fb_inv (Workers k) n (worker_pull w (finish_task i r b st))"
proof -
  have core: "fb_core (Workers k) n st" and part: "worker_part k n {..<k} st" using inv by simp_all
  note D = worker_partD [OF part]
  have len: "length (fb_tasks st) = n" by (rule fb_coreD(1) [OF core])
  have wk: "w < k" using w(1) D(1) by simp
  have i: "i < n" "fb_tasks st ! i = Running" using D(5) [of i] w(2) wk by auto
  let ?st = "finish_task i r b st" and ?W = "{..<k} - {w}"
  have tasks: "fb_tasks ?st ! j = (if j = i then Settled r b else fb_tasks st ! j)" for j
    using i(1) len by (simp add: finish_task_def)
  have workers: "fb_workers ?st = fb_workers st" "fb_next ?st = fb_next st" by (simp_all add: finish_task_def)
  have "fb_core (Workers k) n ?st" by (rule core_finish [OF core i])
  moreover have "worker_part k n ?W ?st" unfolding worker_part_def
  proof (intro conjI)
    show "\<forall>j < n. fb_tasks ?st ! j = Blocked \<longleftrightarrow> fb_next ?st \<le> j" using D(3) D(3) [OF i(1)] i(2) by (auto simp: tasks workers)
    show "\<forall>j < n. fb_tasks ?st ! j \<noteq> Queued \<and> fb_tasks ?st ! j \<noteq> Admitted" using D(4) by (simp add: tasks)
    show "\<forall>j. j < n \<and> fb_tasks ?st ! j = Running \<longleftrightarrow> (\<exists>v \<in> ?W. fb_workers ?st ! v = Some j)"
    proof
      fix j
      show "j < n \<and> fb_tasks ?st ! j = Running \<longleftrightarrow> (\<exists>v \<in> ?W. fb_workers ?st ! v = Some j)"
      proof (cases "j = i")
        case True
        then have "fb_workers st ! v \<noteq> Some j" if "v \<in> ?W" for v using D(6) [of v w] w(2) wk that by auto
        then show ?thesis using True by (simp add: tasks workers)
      next
        case False
        then have "(\<exists>v \<in> ?W. fb_workers st ! v = Some j) = (\<exists>v \<in> {..<k}. fb_workers st ! v = Some j)" using w(2) by auto
        then show ?thesis using D(5) [of j] False by (simp add: tasks workers)
      qed
    qed
    show "\<forall>v \<in> ?W. \<forall>u \<in> ?W. fb_workers ?st ! v = fb_workers ?st ! u \<and> fb_workers ?st ! v \<noteq> None \<longrightarrow> v = u"
      unfolding workers using D(6) by blast
    show "\<forall>v \<in> ?W. fb_workers ?st ! v = None \<longrightarrow> fb_next ?st = n" unfolding workers using D(7) by blast
  qed (use D(1,2) in \<open>simp_all add: workers\<close>)
  ultimately have "fb_core (Workers k) n (worker_pull w ?st) \<and> worker_part k n (insert w ?W) (worker_pull w ?st)"
    by (rule worker_pull_inv) (use wk in auto)
  moreover have "insert w ?W = {..<k}" using wk by auto
  ultimately show ?thesis by simp
qed

lemma workers_begin: "j \<le> k \<Longrightarrow> fb_core (Workers k) n (fold worker_pull [0..<j] (idle_fallback n k)) \<and>
    worker_part k n {..<j} (fold worker_pull [0..<j] (idle_fallback n k))"
proof (induction j)
  case 0
  have "worker_part k n {..<0} (idle_fallback n k)" by (simp add: worker_part_def idle_fallback_def)
  then show ?case using idle_core by simp
next
  case (Suc j)
  let ?st = "fold worker_pull [0..<j] (idle_fallback n k)"
  have "fb_core (Workers k) n ?st" "worker_part k n {..<j} ?st" using Suc by simp_all
  then have "fb_core (Workers k) n (worker_pull j ?st) \<and> worker_part k n (insert j {..<j}) (worker_pull j ?st)"
    by (rule worker_pull_inv) (use Suc.prems in auto)
  moreover have "insert j {..<j} = {..<Suc j}" by auto
  ultimately show ?case by simp
qed

lemma begin_inv: "fb_inv m n (begin_fallback m n)"
proof (cases m)
  case Ordered
  have "fb_inv Ordered n (ordered_next (idle_fallback n 0))"
    by (rule ordered_next_inv [OF idle_core]) (simp_all add: idle_fallback_def)
  then show ?thesis by (simp add: Ordered)
next
  case (Dependent deps limit)
  have "waiters_part n (idle_fallback n 0)" "slots_part limit (idle_fallback n 0)" "ready_part deps n (idle_fallback n 0)"
    by (auto simp: waiters_part_def slots_part_def ready_part_def idle_fallback_def count_list_0_iff)
  then show ?thesis using idle_core by (simp add: Dependent)
next
  case (Workers k)
  then show ?thesis using workers_begin [of k k n] by simp
qed

lemma fb_inv_core: "fb_inv m n st \<Longrightarrow> fb_core m n st"
  by (cases m) simp_all

lemma fallback_step_inv:
  assumes "fallback_step m st st'" "fb_inv m n st"
  shows "fb_inv m n st'"
  using assms
proof (induction rule: fallback_step.induct)
  case (ordered_settles i st r rejected)
  then show ?case using fb_coreD(1) [OF fb_inv_core [OF ordered_settles(3)]] by (intro ordered_settle_inv) simp_all
next
  case (prerequisites_settled i st deps limit)
  then show ?case using fb_coreD(1) [OF fb_inv_core [OF prerequisites_settled(4)]] by (intro dependent_enter_inv) simp_all
next
  case (admitted_resumes i st deps limit)
  then show ?case using fb_coreD(1) [OF fb_inv_core [OF admitted_resumes(3)]] by (intro dependent_resume_inv) simp_all
next
  case (dependent_settles i st deps limit r rejected)
  then show ?case using fb_coreD(1) [OF fb_inv_core [OF dependent_settles(3)]] by (intro dependent_settle_inv) simp_all
next
  case (worker_settles w st i k r rejected)
  then show ?case by (intro worker_settle_inv)
qed

lemma fallback_run_inv: "(fallback_step m)\<^sup>*\<^sup>* (begin_fallback m n) st \<Longrightarrow> fb_inv m n st"
  by (induction rule: rtranclp_induct) (use begin_inv fallback_step_inv in blast)+

section \<open>Progress\<close>

fun task_rank :: "task \<Rightarrow> nat" where
  "task_rank Blocked = 4"
| "task_rank Queued = 3"
| "task_rank Admitted = 2"
| "task_rank Running = 1"
| "task_rank (Settled r b) = 0"

definition fb_rank :: "fallback \<Rightarrow> nat" where
  "fb_rank st = sum_list (map task_rank (fb_tasks st))"

lemma rank_update:
  "i < length xs \<Longrightarrow> sum_list (map task_rank (xs[i := t])) + task_rank (xs ! i) = sum_list (map task_rank xs) + task_rank t"
proof (induction xs arbitrary: i)
  case (Cons y xs)
  then show ?case by (cases i) (auto dest!: Cons.IH)
qed simp

lemma rank_less: "i < length xs \<Longrightarrow> task_rank t < task_rank (xs ! i) \<Longrightarrow>
    sum_list (map task_rank (xs[i := t])) < sum_list (map task_rank xs)"
  using rank_update [of i xs t] by linarith

lemma rank_finish: "i < length (fb_tasks st) \<Longrightarrow> fb_tasks st ! i = Running \<Longrightarrow> fb_rank (finish_task i r b st) < fb_rank st"
  by (simp add: fb_rank_def finish_task_def rank_less)

lemma rank_start:
  "i < length (fb_tasks st) \<Longrightarrow> \<not> is_settled (fb_tasks st ! i) \<Longrightarrow> fb_tasks st ! i \<noteq> Running \<Longrightarrow>
    fb_rank (start_task i st) < fb_rank st"
  by (cases "fb_tasks st ! i") (simp_all add: fb_rank_def start_task_def rank_less)

lemma fallback_step_rank:
  assumes "fallback_step m st st'" "fb_inv m n st"
  shows "fb_rank st' < fb_rank st"
  using assms
proof (induction rule: fallback_step.induct)
  case (ordered_settles i st r rejected)
  have core: "fb_core Ordered n (finish_task i r rejected st)" and part: "ordered_part n st"
    using ordered_settles(3) core_finish [of Ordered n st i] ordered_settles(1,2) fb_coreD(1) [of Ordered n st] by auto
  note less = rank_finish [OF ordered_settles(1,2), of r rejected]
  show ?case
  proof (cases "fb_next (finish_task i r rejected st) < length (fb_tasks (finish_task i r rejected st))")
    case True
    have "fb_tasks (finish_task i r rejected st) ! fb_next (finish_task i r rejected st) = Blocked"
      using True part ordered_settles(2) fb_coreD(1) [of Ordered n st] ordered_settles(3)
      by (cases "i = fb_next st") (auto simp: ordered_part_def finish_task_def)
    then have "fb_rank (ordered_next (finish_task i r rejected st)) < fb_rank (finish_task i r rejected st)"
      using True rank_start [of "fb_next (finish_task i r rejected st)"
        "finish_task i r rejected st\<lparr>fb_next := fb_next (finish_task i r rejected st) + 1\<rparr>"]
      by (simp add: ordered_next_def) (simp add: fb_rank_def)
    with less show ?thesis by linarith
  qed (use less in \<open>simp add: ordered_next_def\<close>)
next
  case (prerequisites_settled i st deps limit)
  have "fb_rank (start_task i (st\<lparr>fb_active := fb_active st + 1\<rparr>)) < fb_rank (st\<lparr>fb_active := fb_active st + 1\<rparr>)"
    by (rule rank_start) (use prerequisites_settled in simp_all)
  then show ?case using prerequisites_settled rank_less [of i "fb_tasks st" Queued]
    by (simp add: slot_enter_def fb_rank_def)
next
  case (admitted_resumes i st deps limit)
  then show ?case by (intro rank_start) simp_all
next
  case (dependent_settles i st deps limit r rejected)
  have inv: "waiters_part n st" "fb_core (Dependent deps limit) n st" using dependent_settles(3) by simp_all
  note less = rank_finish [OF dependent_settles(1,2), of r rejected]
  show ?case
  proof (cases "fb_waiters (finish_task i r rejected st)")
    case (Cons w ws)
    then have "w \<in> set (fb_waiters st)" by (simp add: finish_task_def)
    then have w: "w < n" "fb_tasks st ! w = Queued" using inv(1) unfolding waiters_part_def by blast+
    have "fb_rank (slot_leave (finish_task i r rejected st)) < fb_rank (finish_task i r rejected st)"
      using Cons w dependent_settles(2) fb_coreD(1) [OF inv(2)] rank_less [of w "fb_tasks (finish_task i r rejected st)" Admitted]
      by (cases "w = i") (simp_all add: slot_leave_def fb_rank_def, simp add: finish_task_def)
    with less show ?thesis by linarith
  qed (use less in \<open>simp add: slot_leave_def fb_rank_def\<close>)
next
  case (worker_settles w st i k r rejected)
  have core: "fb_core (Workers k) n st" and part: "worker_part k n {..<k} st" using worker_settles(3) by simp_all
  have i: "i < length (fb_tasks st)" "fb_tasks st ! i = Running"
    using worker_partD(1,5) [OF part] worker_settles(1,2) fb_coreD(1) [OF core] by auto
  note less = rank_finish [OF i, of r rejected]
  show ?case
  proof (cases "fb_next (finish_task i r rejected st) < length (fb_tasks (finish_task i r rejected st))")
    case True
    have fresh: "fb_next (finish_task i r rejected st) < n" using True fb_coreD(1) [OF core] by (simp add: finish_task_def)
    have "fb_tasks st ! fb_next st = Blocked" using worker_partD(3) [OF part] fresh by (simp add: finish_task_def)
    moreover from this have "i \<noteq> fb_next st" using i(2) by auto
    ultimately have "fb_tasks (finish_task i r rejected st) ! fb_next (finish_task i r rejected st) = Blocked"
      by (simp add: finish_task_def)
    then have "fb_rank (worker_pull w (finish_task i r rejected st)) < fb_rank (finish_task i r rejected st)"
      using True rank_start [of "fb_next (finish_task i r rejected st)" "finish_task i r rejected st
        \<lparr>fb_next := fb_next (finish_task i r rejected st) + 1,
         fb_workers := (fb_workers (finish_task i r rejected st))[w := Some (fb_next (finish_task i r rejected st))]\<rparr>"]
      by (simp add: worker_pull_def) (simp add: fb_rank_def)
    with less show ?thesis by linarith
  qed (use less in \<open>simp add: worker_pull_def fb_rank_def\<close>)
qed

lemma ordered_progress:
  assumes inv: "fb_inv Ordered n st" and open_task: "i < n" "\<not> is_settled (fb_tasks st ! i)"
  shows "\<exists>st'. fallback_step Ordered st st'"
proof -
  have core: "fb_core Ordered n st" and part: "ordered_part n st" using inv by simp_all
  have len: "length (fb_tasks st) = n" by (rule fb_coreD(1) [OF core])
  note P = part [unfolded ordered_part_def]
  let ?p = "fb_next st - 1"
  have p: "Suc ?p = fb_next st" "?p < n" using P open_task(1) by linarith+
  then have last_task: "fb_tasks st ! ?p = Running \<or> is_settled (fb_tasks st ! ?p) \<and> fb_next st = n" using P by blast
  have "fb_tasks st ! ?p = Running"
  proof (rule ccontr)
    assume "fb_tasks st ! ?p \<noteq> Running"
    with last_task have settled: "is_settled (fb_tasks st ! ?p)" "fb_next st = n" by blast+
    then have "i = ?p \<or> Suc i < fb_next st" using open_task(1) by linarith
    then have "is_settled (fb_tasks st ! i)" using settled(1) P open_task(1) by blast
    with open_task(2) show False ..
  qed
  then show ?thesis using ordered_settles [of ?p st] p(2) len by blast
qed

lemma dependent_progress:
  assumes inv: "fb_inv (Dependent deps limit) n st" and limit: "0 < limit"
    and open_task: "i < n" "\<not> is_settled (fb_tasks st ! i)"
  shows "\<exists>st'. fallback_step (Dependent deps limit) st st'"
proof -
  have core: "fb_core (Dependent deps limit) n st" and parts: "waiters_part n st" "slots_part limit st" using inv by simp_all
  have len: "length (fb_tasks st) = n" by (rule fb_coreD(1) [OF core])
  show ?thesis
  proof (cases "\<exists>j < n. fb_tasks st ! j = Running \<or> fb_tasks st ! j = Admitted")
    case True
    then show ?thesis using admitted_resumes dependent_settles len by metis
  next
    case False
    then have "Running \<notin> set (fb_tasks st)" "Admitted \<notin> set (fb_tasks st)" using len by (auto simp: in_set_conv_nth)
    then have "fb_active st = 0" using parts(2) by (simp add: slots_part_def)
    then have "fb_waiters st = []" using parts(2) limit by (auto simp: slots_part_def)
    then have queued: "fb_tasks st ! j \<noteq> Queued" if "j < n" for j using parts(1) that by (simp add: waiters_part_def)
    define j where "j = (LEAST j. \<not> is_settled (fb_tasks st ! j))"
    have j: "\<not> is_settled (fb_tasks st ! j)" unfolding j_def using open_task(2) by (rule LeastI)
    have "j \<le> i" unfolding j_def using open_task(2) by (rule Least_le)
    then have "j < n" using open_task(1) by simp
    moreover from this have "fb_tasks st ! j = Blocked" using not_settled_cases [OF j] queued False by blast
    moreover have "is_settled (fb_tasks st ! d)" if "d < j" for d using that not_less_Least unfolding j_def by blast
    then have "list_all (\<lambda>d. is_settled (fb_tasks st ! d)) (prerequisites deps j)"
      using prerequisites_below by (auto simp: list_all_iff)
    ultimately show ?thesis using prerequisites_settled [of j st deps limit] len by auto
  qed
qed

lemma workers_progress:
  assumes inv: "fb_inv (Workers k) n st" and k: "0 < k" and open_task: "i < n" "\<not> is_settled (fb_tasks st ! i)"
  shows "\<exists>st'. fallback_step (Workers k) st st'"
proof -
  have part: "worker_part k n {..<k} st" using inv by simp
  note D = worker_partD [OF part]
  show ?thesis
  proof (cases "fb_workers st ! 0")
    case (Some j)
    then show ?thesis using worker_settles [of 0 st j k] k D(1) by auto
  next
    case None
    then have "fb_next st = n" using D(7) [of 0] k by simp
    then have "fb_tasks st ! i \<noteq> Blocked" using D(3) [OF open_task(1)] open_task(1) by simp
    then have "fb_tasks st ! i = Running" using not_settled_cases [OF open_task(2)] D(4) [OF open_task(1)] by blast
    then obtain w where "w < k" "fb_workers st ! w = Some i" using D(5) [of i] open_task(1) by auto
    then show ?thesis using worker_settles [of w st i k] D(1) by auto
  qed
qed

lemma fallback_progress:
  assumes "fb_inv m n st" "0 < mode_limit m" "\<not> list_all is_settled (fb_tasks st)"
  shows "\<exists>st'. fallback_step m st st'"
proof -
  obtain i where i: "i < n" "\<not> is_settled (fb_tasks st ! i)"
    using assms(3) fb_coreD(1) [OF fb_inv_core [OF assms(1)]] by (auto simp: list_all_length)
  show ?thesis
  proof (cases m)
    case Ordered
    with ordered_progress [OF _ i] assms(1) show ?thesis by simp
  next
    case (Dependent deps limit)
    with dependent_progress [OF _ _ i] assms(1,2) show ?thesis by simp
  next
    case (Workers k)
    with workers_progress [OF _ _ i] assms(1,2) show ?thesis by simp
  qed
qed

section \<open>Properties\<close>

lemma fallback_modes_limit: "fallback_modes options n = Some m \<Longrightarrow> 0 < n \<Longrightarrow> 0 < mode_limit m"
  by (auto simp: fallback_modes_def fallbackConcurrency_def DEFAULT_FALLBACK_CONCURRENCY_def
      split: if_splits option.splits jsval.splits)

lemma begin_rank: "fb_inv m n st \<Longrightarrow> fb_rank st \<le> 4 * n"
proof -
  assume "fb_inv m n st"
  then have "length (fb_tasks st) = n" using fb_coreD(1) fb_inv_core by blast
  moreover have "sum_list (map task_rank ts) \<le> 4 * length ts" for ts
  proof (induction ts)
    case (Cons t ts)
    then show ?case by (cases t) simp_all
  qed simp
  ultimately show ?thesis by (auto simp: fb_rank_def)
qed

lemma fallback_run_rank:
  "(fallback_step m ^^ k) (begin_fallback m n) st \<Longrightarrow> fb_inv m n st \<and> k + fb_rank st \<le> 4 * n"
proof (induction k arbitrary: st)
  case 0
  then have "st = begin_fallback m n" by simp
  then show ?case using begin_inv [of m n] begin_rank [OF begin_inv, of m n] by simp
next
  case (Suc k)
  then obtain st' where "(fallback_step m ^^ k) (begin_fallback m n) st'" "fallback_step m st' st" by auto
  with Suc.IH [of st'] show ?case using fallback_step_inv [of m st' st n] fallback_step_rank [of m st' st n] by fastforce
qed

text \<open>C32. Commands executed one by one all run: whatever the options, the dependencies (cycles and indexes out
  of range included) and the number of slots, and in whatever order the commands settle, the execution
  cannot be stuck before every command is settled, it ends after at most four callbacks per command,
  every command has then run exactly once, and its result is in its place.\<close>

theorem fallback_completes:
  assumes "fallback_modes options n = Some m" "(fallback_step m ^^ k) (begin_fallback m n) st"
  shows "k \<le> 4 * n \<and> (list_all is_settled (fb_tasks st) \<or> (\<exists>st'. fallback_step m st st')) \<and>
    (list_all is_settled (fb_tasks st) \<longrightarrow>
      distinct (fb_log st) \<and> set (fb_log st) = Started ` {..<n} \<union> Finished ` {..<n} \<and>
      (\<forall>i < n. \<exists>r b. fb_tasks st ! i = Settled r b \<and> map task_result (fb_tasks st) ! i = r) \<and>
      length (map task_result (fb_tasks st)) = n)"
proof -
  have inv: "fb_inv m n st" and rank: "k \<le> 4 * n" using fallback_run_rank [OF assms(2)] by auto
  note core = fb_inv_core [OF inv] and D = fb_coreD [OF fb_inv_core [OF inv]]
  have progress: "list_all is_settled (fb_tasks st) \<or> (\<exists>st'. fallback_step m st st')"
    using fallback_progress [OF inv] fallback_modes_limit [OF assms(1)] D(1) by (cases n) auto
  have complete: "distinct (fb_log st) \<and> set (fb_log st) = Started ` {..<n} \<union> Finished ` {..<n} \<and>
      (\<forall>i < n. \<exists>r b. fb_tasks st ! i = Settled r b \<and> map task_result (fb_tasks st) ! i = r) \<and>
      length (map task_result (fb_tasks st)) = n" if settled: "list_all is_settled (fb_tasks st)"
  proof (intro conjI)
    have at: "is_settled (fb_tasks st ! i)" if "i < n" for i using settled D(1) that by (simp add: list_all_length)
    show "distinct (fb_log st)" using legal_events [OF D(3)] by simp
    show "set (fb_log st) = Started ` {..<n} \<union> Finished ` {..<n}"
    proof (intro set_eqI iffI)
      fix e assume "e \<in> set (fb_log st)"
      then show "e \<in> Started ` {..<n} \<union> Finished ` {..<n}" using legal_events [OF D(3)] by (cases e rule: run_event.exhaust) auto
    next
      fix e assume "e \<in> Started ` {..<n} \<union> Finished ` {..<n}"
      then show "e \<in> set (fb_log st)" using D(2) at by (auto simp: task_logged_def)
    qed
    show "\<forall>i < n. \<exists>r b. fb_tasks st ! i = Settled r b \<and> map task_result (fb_tasks st) ! i = r"
    proof (intro allI impI)
      fix i assume "i < n"
      with at [of i] D(1) show "\<exists>r b. fb_tasks st ! i = Settled r b \<and> map task_result (fb_tasks st) ! i = r"
        by (cases "fb_tasks st ! i") simp_all
    qed
  qed (simp add: D(1))
  show ?thesis using rank progress complete by blast
qed

definition plain_options :: "int list list option \<Rightarrow> pipeline_options" where
  "plain_options deps = \<lparr>po_dependencies = deps, po_concurrency = JUndef, po_ordered = False, po_throw = None\<rparr>"

lemma plain_options_mode: "fallback_modes (plain_options (Some [[], [0]])) 2 = Some (Dependent [[], [0]] 2)"
  by (simp add: fallback_modes_def plain_options_def fallbackConcurrency_def DEFAULT_FALLBACK_CONCURRENCY_def nullish_def)

definition demo_run :: "nat \<Rightarrow> fallback" where
  "demo_run k = (let m = idle_fallback 2 0; a = slot_enter 2 0 m; b = slot_leave (finish_task 0 (Value JNull) False a);
    c = slot_enter 2 1 b; d = slot_leave (finish_task 1 (Value JNull) False c) in [m, a, b, c, d] ! k)"

lemma demo_run_steps:
  "fallback_step (Dependent [[], [0]] 2) (demo_run 0) (demo_run 1)" "fallback_step (Dependent [[], [0]] 2) (demo_run 1) (demo_run 2)"
  "fallback_step (Dependent [[], [0]] 2) (demo_run 2) (demo_run 3)" "fallback_step (Dependent [[], [0]] 2) (demo_run 3) (demo_run 4)"
proof -
  note defs = demo_run_def Let_def idle_fallback_def slot_enter_def slot_leave_def finish_task_def start_task_def
    prerequisites_def dependency_row_def numeral_2_eq_2 numeral_3_eq_3
  show "fallback_step (Dependent [[], [0]] 2) (demo_run 0) (demo_run 1)"
    using prerequisites_settled [of 0 "demo_run 0" "[[], [0]]" 2] by (simp add: defs)
  show "fallback_step (Dependent [[], [0]] 2) (demo_run 1) (demo_run 2)"
    using dependent_settles [of 0 "demo_run 1" "[[], [0]]" 2 "Value JNull" False] by (simp add: defs)
  show "fallback_step (Dependent [[], [0]] 2) (demo_run 2) (demo_run 3)"
    using prerequisites_settled [of 1 "demo_run 2" "[[], [0]]" 2] by (simp add: defs)
  show "fallback_step (Dependent [[], [0]] 2) (demo_run 3) (demo_run 4)"
    using dependent_settles [of 1 "demo_run 3" "[[], [0]]" 2 "Value JNull" False] by (simp add: defs numeral_eq_Suc)
qed

lemma demo_run_log: "fb_log (demo_run 4) = [Started 0, Finished 0, Started 1, Finished 1]"
  by (simp add: demo_run_def Let_def idle_fallback_def slot_enter_def slot_leave_def finish_task_def start_task_def numeral_eq_Suc)

lemma demo_run_settled: "list_all is_settled (fb_tasks (demo_run 4))"
  by (simp add: demo_run_def Let_def idle_fallback_def slot_enter_def slot_leave_def finish_task_def start_task_def numeral_eq_Suc)

lemma demo_run_reached: "(fallback_step (Dependent [[], [0]] 2) ^^ 4) (begin_fallback (Dependent [[], [0]] 2) 2) (demo_run 4)"
proof -
  have "begin_fallback (Dependent [[], [0]] 2) 2 = demo_run 0" by (simp add: demo_run_def Let_def)
  with demo_run_steps show ?thesis by (auto simp: numeral_eq_Suc)
qed

theorem fallback_completes_witness:
  "4 \<le> 4 * (2 :: nat) \<and> length (map task_result (fb_tasks (demo_run 4))) = 2 \<and>
    set (fb_log (demo_run 4)) = Started ` {..<2} \<union> Finished ` {..<2}"
  using fallback_completes [OF plain_options_mode demo_run_reached] demo_run_settled by blast

lemma plan_dependencies:
  assumes "autoBatchOrderingPlan batch = Some (accesses, deps)"
  shows "length deps = length batch" "i < length batch \<Longrightarrow> set (deps ! i) = {j. depends (batch_history batch) i j}"
proof -
  from assms have loop: "plan_loop 0 batch [] empty_plan = Some (accesses, deps)"
    by (auto simp: autoBatchOrderingPlan_def split: option.splits if_splits)
  note spec = plan_loop_spec [OF loop, of batch, simplified drop_0, OF refl plan.tracks_start]
  show "length deps = length batch" "i < length batch \<Longrightarrow> set (deps ! i) = {j. depends (batch_history batch) i j}"
    using spec by simp_all
qed

text \<open>In every mode of a planned batch, a conflict is a chain of prerequisites.\<close>

lemma planned_chain:
  assumes plan: "autoBatchOrderingPlan batch = Some (accesses, deps)"
    and m: "m = Ordered \<or> m = Dependent (map (map int) deps) limit"
    and ij: "i < j" "j < length batch" "conflict (batch_history batch) i j"
  shows "(\<lambda>a b. b \<in> set (mode_prerequisites m a))\<^sup>+\<^sup>+ j i"
proof -
  have edge: "b \<in> set (mode_prerequisites m a)" if "a < length batch" "depends (batch_history batch) a b" for a b
  proof -
    have b: "b < a" by (rule depends_earlier [OF that(2)])
    have "b \<in> set (deps ! a)" using plan_dependencies(2) [OF plan that(1)] that(2) by simp
    then have "int b \<in> set (dependency_row (map (map int) deps) a)"
      using that(1) plan_dependencies(1) [OF plan] by (simp add: dependency_row_def)
    then have "b \<in> set (prerequisites (map (map int) deps) a)"
      using b by (force simp: prerequisites_def)
    with m b show ?thesis by auto
  qed
  have "(depends (batch_history batch))\<^sup>+\<^sup>+ j i"
    using conflicts_reached [OF ij(1), of "batch_history batch"] ij(3) unfolding conflict_def by blast
  then have "(\<lambda>a b. b \<in> set (mode_prerequisites m a))\<^sup>+\<^sup>+ j i \<and> i < length batch"
  proof (induction rule: tranclp_induct)
    case (base y)
    then show ?case using edge [OF ij(2) base] depends_earlier [OF base] ij(2) by auto
  next
    case (step y z)
    then have "y < length batch" by blast
    with step edge [OF _ step.hyps(2)] depends_earlier [OF step.hyps(2)] show ?case
      by (auto intro: tranclp.trancl_into_trancl)
  qed
  then show ?thesis ..
qed

text \<open>C9. Auto-batched commands that touch a common resource keep their order even when the executor has no
  native pipeline: the ordering plan of the batch, handed over as dependencies, makes the one-by-one
  execution start a command only after every earlier command in conflict with it has finished, while no
  command runs twice and never more run at once than the concurrency option (64 by default) allows.\<close>

theorem batched_conflicts_run_in_order:
  assumes "autoBatchOrderingPlan batch = Some (accesses, deps)"
    and "po_dependencies options = Some (map (map int) deps)" "fallback_modes options (length batch) = Some m"
    and "(fallback_step m)\<^sup>*\<^sup>* (begin_fallback m (length batch)) st"
  shows "distinct (fb_log st) \<and> card (in_flight (fb_log st)) \<le> mode_limit m \<and>
    (\<forall>i j xs ys. i < j \<and> j < length batch \<and> conflict (batch_history batch) i j \<and>
      fb_log st = xs @ Started j # ys \<longrightarrow> Finished i \<in> set xs)"
proof -
  have legal: "legal_schedule (mode_prerequisites m) (mode_limit m) (length batch) (fb_log st)"
    using fb_coreD(3) [OF fb_inv_core [OF fallback_run_inv [OF assms(4)]]] .
  have m: "m = Ordered \<or> m = Dependent (map (map int) deps) (mode_limit m)"
    using assms(2,3) by (auto simp: fallback_modes_def split: if_splits option.splits)
  have "Finished i \<in> set xs" if "i < j" "j < length batch" "conflict (batch_history batch) i j"
      "fb_log st = xs @ Started j # ys" for i j xs ys
    by (rule legal_chain [OF legal planned_chain [OF assms(1) m that(1-3)] that(4)])
  then show ?thesis using legal_events [OF legal] legal_limit [OF legal] by blast
qed

theorem batched_conflicts_run_in_order_witness:
  "conflict (batch_history demo_batch) 0 1 \<and> card (in_flight (fb_log (demo_run 4))) \<le> 2 \<and>
    (\<exists>xs ys. fb_log (demo_run 4) = xs @ Started 1 # ys \<and> Finished 0 \<in> set xs)"
proof -
  have len: "length demo_batch = 2" by (simp add: demo_batch_def)
  have run: "(fallback_step (Dependent [[], [0]] 2))\<^sup>*\<^sup>* (begin_fallback (Dependent [[], [0]] 2) (length demo_batch)) (demo_run 4)"
    using relpowp_imp_rtranclp [OF demo_run_reached] len by simp
  have deps: "po_dependencies (plain_options (Some [[], [0]])) = Some (map (map int) [[], [0]])" by (simp add: plain_options_def)
  have mode: "fallback_modes (plain_options (Some [[], [0]])) (length demo_batch) = Some (Dependent [[], [0]] 2)"
    unfolding len by (rule plain_options_mode)
  have "depends (batch_history demo_batch) 1 0" using plan_dependencies(2) [OF demo_batch_plan, of 1] len by auto
  then have conflict: "conflict (batch_history demo_batch) 0 1" by (rule depends_conflict)
  have log: "fb_log (demo_run 4) = [Started 0, Finished 0] @ Started 1 # [Finished 1]" by (simp add: demo_run_log)
  have "card (in_flight (fb_log (demo_run 4))) \<le> mode_limit (Dependent [[], [0]] 2)" "Finished 0 \<in> set [Started 0, Finished 0]"
    using batched_conflicts_run_in_order [OF demo_batch_plan deps mode run] conflict log len by auto
  then have "\<exists>xs ys. fb_log (demo_run 4) = xs @ Started 1 # ys \<and> Finished 0 \<in> set xs" using log by blast
  with conflict \<open>card _ \<le> _\<close> show ?thesis by simp
qed

text \<open>The decision to execute in order.\<close>

lemma needs_order_spec:
  "\<exists>b. needs_order commands = Inr b \<and>
    (b \<longleftrightarrow> (\<exists>c \<in> set commands. commandRequiresOrderedPipelineExecution c = Inr True))"
proof (induction commands)
  case (Cons c commands)
  obtain b where "commandRequiresOrderedPipelineExecution c = Inr b" using ordered_total by blast
  with Cons show ?case by (cases b) auto
next
  case Nil
  have "needs_order [] = Inr False" by simp
  then show ?case by (intro exI [of _ False]) simp
qed

lemma fallback_options_ordered:
  assumes "c \<in> set commands" "commandRequiresOrderedPipelineExecution c = Inr True"
  shows "\<exists>options'. pipelineFallbackOptions commands options = Inr options' \<and> po_ordered options'"
  using needs_order_spec [of commands] assms by (auto simp: pipelineFallbackOptions_def)

text \<open>C36. A pipeline with a command that blocks its connection or belongs to it is executed strictly one
  command after the other when it has to be executed command by command: the options are accepted, no
  two commands are in flight together, and a command starts only when all the earlier ones have finished.\<close>

theorem sensitive_pipelines_run_alone:
  assumes "c \<in> set commands" "commandRequiresOrderedPipelineExecution c = Inr True"
  shows "\<exists>options'. pipelineFallbackOptions commands options = Inr options' \<and>
    (\<forall>m st. fallback_modes options' (length commands) = Some m \<longrightarrow>
      (fallback_step m)\<^sup>*\<^sup>* (begin_fallback m (length commands)) st \<longrightarrow>
      card (in_flight (fb_log st)) \<le> 1 \<and>
      (\<forall>i j xs ys. fb_log st = xs @ Started j # ys \<and> i < j \<longrightarrow> Finished i \<in> set xs))"
proof -
  obtain options' where o: "pipelineFallbackOptions commands options = Inr options'" "po_ordered options'"
    using fallback_options_ordered [OF assms] by blast
  have "card (in_flight (fb_log st)) \<le> 1 \<and>
      (\<forall>i j xs ys. fb_log st = xs @ Started j # ys \<and> i < j \<longrightarrow> Finished i \<in> set xs)"
    if m: "fallback_modes options' (length commands) = Some m"
      and run: "(fallback_step m)\<^sup>*\<^sup>* (begin_fallback m (length commands)) st" for m st
  proof -
    have "m = Ordered" using m o(2) by (simp add: fallback_modes_def)
    then have legal: "legal_schedule (mode_prerequisites Ordered) 1 (length commands) (fb_log st)"
      using fb_coreD(3) [OF fb_inv_core [OF fallback_run_inv [OF run]]] by simp
    then show ?thesis using legal_limit [OF legal] legal_order [OF legal] by force
  qed
  with o(1) show ?thesis by blast
qed

theorem sensitive_pipelines_run_alone_witness:
  "\<exists>options'. pipelineFallbackOptions [demo_context, demo_blpop] (plain_options None) = Inr options' \<and>
    card (in_flight (fb_log (begin_fallback Ordered 2))) \<le> 1"
proof -
  have mem: "demo_blpop \<in> set [demo_context, demo_blpop]" by simp
  have two: "length [demo_context, demo_blpop] = 2" by simp
  obtain options' where o: "pipelineFallbackOptions [demo_context, demo_blpop] (plain_options None) = Inr options'"
      "\<forall>m st. fallback_modes options' (length [demo_context, demo_blpop]) = Some m \<longrightarrow>
        (fallback_step m)\<^sup>*\<^sup>* (begin_fallback m (length [demo_context, demo_blpop])) st \<longrightarrow>
        card (in_flight (fb_log st)) \<le> 1 \<and>
        (\<forall>i j xs ys. fb_log st = xs @ Started j # ys \<and> i < j \<longrightarrow> Finished i \<in> set xs)"
    using sensitive_pipelines_run_alone [OF mem demo_blpop_ordered, of "plain_options None"] by blast
  have "po_ordered options'"
    using fallback_options_ordered [OF mem demo_blpop_ordered, of "plain_options None"] o(1) by simp
  then have "fallback_modes options' (length [demo_context, demo_blpop]) = Some Ordered"
    by (simp add: fallback_modes_def)
  with o show ?thesis unfolding two by blast
qed

end
