(* ===== verification/ReconnectingExecutor.thy ===== *)
theory ReconnectingExecutor
  imports Errors
begin

text \<open>
  The reconnecting executor (\<open>reconnecting-executor.ts\<close>): calls run on the current executor; when its
  connection is lost a call may have it replaced, and only some calls are then sent again. Calls are
  asynchronous and share the executor, the reconnection under way and the closed flag, so each step of the
  relation below is what one of them does between two awaits; the outcomes of operations, of closing and
  of creating executors are chosen by the environment. Executors are numbered in the order of their
  creation. Values that are thrown are references into a heap of JavaScript values, since an error is
  searched for the errors it holds.
\<close>

section \<open>Errors\<close>

text \<open>A value as the predicates see it: the disposition of a \<open>ConnectionClosedError\<close>; whether it is an object; the
  \<open>cause\<close> of an \<open>Error\<close> and the \<open>raw\<close> value of a \<open>FerricStoreError\<close>, when not nullish.\<close>

record js_node =
  node_closed :: "disposition option"
  node_object :: bool
  node_cause :: "nat option"
  node_raw :: "nat option"

type_synonym js_heap = "nat \<Rightarrow> js_node"

definition isReconnectableClosedConnectionError :: "js_heap \<Rightarrow> nat \<Rightarrow> bool" where
  "isReconnectableClosedConnectionError h e \<longleftrightarrow> node_closed (h e) = Some Unsent"

definition isClosedConnectionError :: "js_heap \<Rightarrow> nat \<Rightarrow> bool" where
  "isClosedConnectionError h e \<longleftrightarrow> node_closed (h e) \<noteq> None"

text \<open>The loop of \<open>isReadOnlyReconnectableClosedConnectionError\<close>: \<open>n\<close> visits are left; the top of the stack
  \<open>pending\<close> comes first.\<close>

fun reconnectable_search :: "js_heap \<Rightarrow> nat \<Rightarrow> nat list \<Rightarrow> nat list \<Rightarrow> bool" where
  "reconnectable_search h 0 pending seen = False"
| "reconnectable_search h (Suc n) [] seen = False"
| "reconnectable_search h (Suc n) (e # pending) seen =
    (if isReconnectableClosedConnectionError h e then True
     else if \<not> node_object (h e) \<or> e \<in> set seen then reconnectable_search h n pending seen
     else reconnectable_search h n
       (case_option [] (\<lambda>r. [r]) (node_raw (h e)) @ case_option [] (\<lambda>c. [c]) (node_cause (h e)) @ pending) (e # seen))"

definition isReadOnlyReconnectableClosedConnectionError :: "js_heap \<Rightarrow> nat \<Rightarrow> bool" where
  "isReadOnlyReconnectableClosedConnectionError h e = reconnectable_search h 16 [e] []"

text \<open>What it finds is there.\<close>

inductive held_by :: "js_heap \<Rightarrow> nat \<Rightarrow> nat \<Rightarrow> bool" for h :: js_heap where
  self: "held_by h e e"
| cause: "held_by h e f \<Longrightarrow> node_cause (h f) = Some g \<Longrightarrow> held_by h e g"
| raw: "held_by h e f \<Longrightarrow> node_raw (h f) = Some g \<Longrightarrow> held_by h e g"

lemma reconnectable_search_sound:
  "reconnectable_search h n pending seen \<Longrightarrow> \<forall>p \<in> set pending. held_by h e p \<Longrightarrow>
    \<exists>f. held_by h e f \<and> isReconnectableClosedConnectionError h f"
proof (induction h n pending seen rule: reconnectable_search.induct)
  case (3 h n p pending seen)
  have here: "held_by h e p" and rest: "\<forall>q \<in> set pending. held_by h e q" using "3.prems"(2) by simp_all
  consider "isReconnectableClosedConnectionError h p"
    | "\<not> isReconnectableClosedConnectionError h p" "\<not> node_object (h p) \<or> p \<in> set seen"
    | "\<not> isReconnectableClosedConnectionError h p" "\<not> (\<not> node_object (h p) \<or> p \<in> set seen)"
    by blast
  then show ?case
  proof cases
    case 1
    with here show ?thesis by blast
  next
    case 2
    with "3.IH"(1) "3.prems"(1) rest show ?thesis by simp
  next
    case 3
    have "\<forall>q \<in> set (case_option [] (\<lambda>r. [r]) (node_raw (h p)) @ case_option [] (\<lambda>c. [c]) (node_cause (h p)) @ pending).
        held_by h e q"
      using rest held_by.cause [OF here] held_by.raw [OF here] by (auto split: option.splits)
    with "3.IH"(2) [OF 3] "3.prems"(1) 3 show ?thesis by simp
  qed
qed simp_all

section \<open>State\<close>

text \<open>What a call rejects with: a thrown value, or the \<open>RequestNotSentError\<close> of a closed client.\<close>

datatype rx_error = Thrown nat | ClientClosed

text \<open>A pipeline on an executor without pipelines goes on as calls of its commands; a fused one gives up.\<close>

datatype rx_result = Returned | Threw rx_error | Individually | NoFusedPipeline

datatype rx_kind = CommandCall bool | ReadOnlyCall | PipelineCall | FusedCall

text \<open>Where a call waits: for an executor promise; for its operation; in \<open>reconnect\<close> for the promise observed, for
  the reconnection under way, or for the promise that replaced the observed one; or before the next
  attempt.\<close>

datatype rx_pc =
    AwaitExecutor nat
  | AwaitOperation
  | ObserveExecutor nat
  | JoinReconnect nat
  | AwaitReplaced nat
  | Backoff
  | Over rx_result

text \<open>\<open>rc_sends\<close> and \<open>rc_errors\<close> are ghosts: the executors the operation was sent to, and its failures.\<close>

record rx_call =
  rc_kind :: rx_kind
  rc_pc :: rx_pc
  rc_executor :: nat
  rc_error :: nat
  rc_retries :: nat
  rc_sends :: "nat list"
  rc_errors :: "nat list"

datatype rx_promise = Pending | Fulfilled nat | Rejected nat

datatype rx_attempt = ClosingStale nat | Creating nat | ClosingNew nat | Reconnected nat | ReconnectFailed rx_error

datatype rx_closing = Open | AwaitCurrent nat "nat option" | ClosingExecutor nat "nat option" | AwaitReconnect "nat option" | Closed

text \<open>\<open>executorPromise\<close> and \<open>reconnectPromise\<close> are references to promises and reconnections. \<open>rx_created\<close> counts the
  executors; \<open>rx_asked\<close>, a ghost, has those asked to close.\<close>

record rx_state =
  rx_max_retries :: nat
  rx_closed :: bool
  rx_closing :: rx_closing
  rx_promises :: "rx_promise list"
  rx_executor :: nat
  rx_attempts :: "rx_attempt list"
  rx_reconnect :: "nat option"
  rx_created :: nat
  rx_asked :: "nat list"
  rx_calls :: "rx_call list"

text \<open>The constructor asks for the first executor.\<close>

definition new_executor :: "nat \<Rightarrow> rx_state" where
  "new_executor max_retries = \<lparr>rx_max_retries = max_retries, rx_closed = False, rx_closing = Open, rx_promises = [Pending],
    rx_executor = 0, rx_attempts = [], rx_reconnect = None, rx_created = 0, rx_asked = [], rx_calls = []\<rparr>"

section \<open>Code\<close>

definition on_call :: "nat \<Rightarrow> (rx_call \<Rightarrow> rx_call) \<Rightarrow> rx_state \<Rightarrow> rx_state" where
  "on_call i f st = st\<lparr>rx_calls := (rx_calls st)[i := f (rx_calls st ! i)]\<rparr>"

definition goto :: "rx_pc \<Rightarrow> rx_call \<Rightarrow> rx_call" where
  "goto pc c = c\<lparr>rc_pc := pc\<rparr>"

definition over :: "nat \<Rightarrow> rx_result \<Rightarrow> rx_state \<Rightarrow> rx_state" where
  "over i r st = on_call i (goto (Over r)) st"

text \<open>\<open>operation(executor)\<close>.\<close>

definition send_operation :: "nat \<Rightarrow> nat \<Rightarrow> rx_state \<Rightarrow> rx_state" where
  "send_operation i x st = on_call i (\<lambda>c. c\<lparr>rc_pc := AwaitOperation, rc_executor := x, rc_sends := rc_sends c @ [x]\<rparr>) st"

fun replay_allowed :: "rx_kind \<Rightarrow> bool" where
  "replay_allowed (CommandCall cas) = (\<not> cas)"
| "replay_allowed ReadOnlyCall = True"
| "replay_allowed PipelineCall = False"
| "replay_allowed FusedCall = False"

fun reconnectable :: "js_heap \<Rightarrow> rx_kind \<Rightarrow> nat \<Rightarrow> bool" where
  "reconnectable h (CommandCall cas) e =
    (if cas then isClosedConnectionError h e else isReconnectableClosedConnectionError h e)"
| "reconnectable h ReadOnlyCall e = isReadOnlyReconnectableClosedConnectionError h e"
| "reconnectable h PipelineCall e = isReconnectableClosedConnectionError h e"
| "reconnectable h FusedCall e = isReconnectableClosedConnectionError h e"

text \<open>A call arrives.\<close>

definition new_call :: "rx_kind \<Rightarrow> rx_state \<Rightarrow> rx_state" where
  "new_call kind st =
    (let pc = (if (kind = PipelineCall \<or> kind = FusedCall) \<and> rx_closed st then Over (Threw ClientClosed)
               else AwaitExecutor (rx_executor st))
     in st\<lparr>rx_calls := rx_calls st @ [\<lparr>rc_kind = kind, rc_pc = pc, rc_executor = 0, rc_error = 0, rc_retries = 0,
       rc_sends = [], rc_errors = []\<rparr>]\<rparr>)"

text \<open>The head of the loop of \<open>withReconnect\<close>, and the same place of the pipelines.\<close>

definition loop_head :: "nat \<Rightarrow> nat \<Rightarrow> rx_state \<Rightarrow> rx_state" where
  "loop_head i x st = (if rx_closed st then over i (Threw ClientClosed) st else send_operation i x st)"

definition pipeline_head :: "(nat \<Rightarrow> bool) \<Rightarrow> (nat \<Rightarrow> bool) \<Rightarrow> nat \<Rightarrow> nat \<Rightarrow> rx_state \<Rightarrow> rx_state" where
  "pipeline_head can_pipeline can_fuse i x st =
    (if rx_closed st then over i (Threw ClientClosed) st
     else if rc_kind (rx_calls st ! i) = PipelineCall \<and> \<not> can_pipeline x then over i Individually st
     else if rc_kind (rx_calls st ! i) = FusedCall \<and> \<not> can_fuse x then over i NoFusedPipeline st
     else send_operation i x st)"

definition is_pipeline :: "rx_kind \<Rightarrow> bool" where
  "is_pipeline kind \<longleftrightarrow> kind = PipelineCall \<or> kind = FusedCall"

definition executor_ready :: "(nat \<Rightarrow> bool) \<Rightarrow> (nat \<Rightarrow> bool) \<Rightarrow> nat \<Rightarrow> nat \<Rightarrow> rx_state \<Rightarrow> rx_state" where
  "executor_ready can_pipeline can_fuse i x st =
    (if is_pipeline (rc_kind (rx_calls st ! i)) then pipeline_head can_pipeline can_fuse i x st else loop_head i x st)"

text \<open>After \<open>await this.reconnect(executor)\<close>: it returned the executor \<open>y\<close>, or threw.\<close>

definition reconnected :: "nat \<Rightarrow> nat \<Rightarrow> rx_state \<Rightarrow> rx_state" where
  "reconnected i y st =
    (let c = rx_calls st ! i in
     if \<not> replay_allowed (rc_kind c) then over i (Threw (Thrown (rc_error c))) st else loop_head i y st)"

definition reconnect_threw :: "nat \<Rightarrow> rx_error \<Rightarrow> rx_state \<Rightarrow> rx_state" where
  "reconnect_threw i err st =
    (let c = rx_calls st ! i in
     if \<not> replay_allowed (rc_kind c) then over i (Threw (Thrown (rc_error c))) st
     else if rx_closed st \<or> rx_max_retries st \<le> rc_retries c then over i (Threw err) st
     else on_call i (goto Backoff) st)"

text \<open>\<open>reconnect\<close>, up to its first await, and after the observed promise settled; \<open>current\<close> is its executor.\<close>

definition begin_reconnect :: "nat \<Rightarrow> rx_state \<Rightarrow> rx_state" where
  "begin_reconnect i st =
    (if rx_closed st then reconnect_threw i ClientClosed st
     else case rx_reconnect st of
         Some r \<Rightarrow> on_call i (goto (JoinReconnect r)) st
       | None \<Rightarrow> on_call i (goto (ObserveExecutor (rx_executor st))) st)"

definition observed :: "nat \<Rightarrow> nat \<Rightarrow> nat option \<Rightarrow> rx_state \<Rightarrow> rx_state" where
  "observed i p current st =
    (let stale = rc_executor (rx_calls st ! i) in
     if rx_closed st then reconnect_threw i ClientClosed st
     else case rx_reconnect st of
         Some r \<Rightarrow> on_call i (goto (JoinReconnect r)) st
       | None \<Rightarrow>
           if rx_executor st \<noteq> p then on_call i (goto (AwaitReplaced (rx_executor st))) st
           else if current \<noteq> None \<and> current \<noteq> Some stale then reconnected i (the current) st
           else on_call i (goto (JoinReconnect (length (rx_attempts st))))
             (st\<lparr>rx_attempts := rx_attempts st @ [ClosingStale stale], rx_reconnect := Some (length (rx_attempts st)),
               rx_asked := rx_asked st @ [stale]\<rparr>))"

text \<open>The operation failed: the handler of \<open>withReconnect\<close>, and that of the pipelines.\<close>

definition operation_failed :: "js_heap \<Rightarrow> nat \<Rightarrow> nat \<Rightarrow> rx_state \<Rightarrow> rx_state" where
  "operation_failed h i e st =
    (let c = rx_calls st ! i; st1 = on_call i (\<lambda>c. c\<lparr>rc_error := e, rc_errors := rc_errors c @ [e]\<rparr>) st in
     if rx_closed st \<or> rx_max_retries st \<le> rc_retries c \<or> \<not> reconnectable h (rc_kind c) e
     then over i (Threw (Thrown e)) st1
     else if \<not> replay_allowed (rc_kind c) then begin_reconnect i st1
     else begin_reconnect i (on_call i (\<lambda>c. c\<lparr>rc_retries := rc_retries c + 1\<rparr>) st1))"

definition pipeline_failed :: "js_heap \<Rightarrow> nat \<Rightarrow> nat \<Rightarrow> rx_state \<Rightarrow> rx_state" where
  "pipeline_failed h i e st =
    (let st1 = on_call i (\<lambda>c. c\<lparr>rc_error := e, rc_errors := rc_errors c @ [e]\<rparr>) st in
     if \<not> rx_closed st \<and> 0 < rx_max_retries st \<and> isReconnectableClosedConnectionError h e
     then begin_reconnect i st1 else over i (Threw (Thrown e)) st1)"

definition failed :: "js_heap \<Rightarrow> nat \<Rightarrow> nat \<Rightarrow> rx_state \<Rightarrow> rx_state" where
  "failed h i e st =
    (if is_pipeline (rc_kind (rx_calls st ! i)) then pipeline_failed h i e st else operation_failed h i e st)"

text \<open>The reconnection itself. Its \<open>finally\<close> runs before anything can look at its outcome.\<close>

definition settle_attempt :: "nat \<Rightarrow> rx_attempt \<Rightarrow> rx_state \<Rightarrow> rx_state" where
  "settle_attempt r a st = st\<lparr>rx_attempts := (rx_attempts st)[r := a], rx_reconnect := None\<rparr>"

definition executor_created :: "nat \<Rightarrow> rx_state \<Rightarrow> rx_state" where
  "executor_created r st =
    (let y = rx_created st; st1 = st\<lparr>rx_created := rx_created st + 1\<rparr> in
     if rx_closed st then st1\<lparr>rx_attempts := (rx_attempts st)[r := ClosingNew y], rx_asked := rx_asked st @ [y]\<rparr>
     else settle_attempt r (Reconnected y)
       (st1\<lparr>rx_promises := rx_promises st @ [Fulfilled y], rx_executor := length (rx_promises st)\<rparr>))"

text \<open>\<open>close\<close>.\<close>

definition close_call :: "rx_state \<Rightarrow> rx_state" where
  "close_call st =
    (if rx_closing st \<noteq> Open then st
     else st\<lparr>rx_closed := True, rx_closing := AwaitCurrent (rx_executor st) (rx_reconnect st)\<rparr>)"

text \<open>One step. The first executor arrives or fails; then what calls, reconnections and \<open>close\<close> do.\<close>

inductive rx_step :: "js_heap \<Rightarrow> (nat \<Rightarrow> bool) \<Rightarrow> (nat \<Rightarrow> bool) \<Rightarrow> rx_state \<Rightarrow> rx_state \<Rightarrow> bool"
  for h :: js_heap and can_pipeline can_fuse :: "nat \<Rightarrow> bool" where
  first_ready: "rx_promises st ! 0 = Pending \<Longrightarrow>
    rx_step h can_pipeline can_fuse st
      (st\<lparr>rx_promises := (rx_promises st)[0 := Fulfilled (rx_created st)], rx_created := rx_created st + 1\<rparr>)"
| first_failed: "rx_promises st ! 0 = Pending \<Longrightarrow>
    rx_step h can_pipeline can_fuse st (st\<lparr>rx_promises := (rx_promises st)[0 := Rejected e]\<rparr>)"
| called: "rx_step h can_pipeline can_fuse st (new_call kind st)"
| ready: "i < length (rx_calls st) \<Longrightarrow> rc_pc (rx_calls st ! i) = AwaitExecutor p \<Longrightarrow> rx_promises st ! p = Fulfilled x \<Longrightarrow>
    rx_step h can_pipeline can_fuse st (executor_ready can_pipeline can_fuse i x st)"
| not_ready: "i < length (rx_calls st) \<Longrightarrow> rc_pc (rx_calls st ! i) = AwaitExecutor p \<Longrightarrow> rx_promises st ! p = Rejected e \<Longrightarrow>
    rx_step h can_pipeline can_fuse st (over i (Threw (Thrown e)) st)"
| operation_returns: "i < length (rx_calls st) \<Longrightarrow> rc_pc (rx_calls st ! i) = AwaitOperation \<Longrightarrow>
    rx_step h can_pipeline can_fuse st (over i Returned st)"
| operation_fails: "i < length (rx_calls st) \<Longrightarrow> rc_pc (rx_calls st ! i) = AwaitOperation \<Longrightarrow>
    rx_step h can_pipeline can_fuse st (failed h i e st)"
| observes: "i < length (rx_calls st) \<Longrightarrow> rc_pc (rx_calls st ! i) = ObserveExecutor p \<Longrightarrow> rx_promises st ! p = Fulfilled x \<Longrightarrow>
    rx_step h can_pipeline can_fuse st (observed i p (Some x) st)"
| observes_none: "i < length (rx_calls st) \<Longrightarrow> rc_pc (rx_calls st ! i) = ObserveExecutor p \<Longrightarrow> rx_promises st ! p = Rejected e \<Longrightarrow>
    rx_step h can_pipeline can_fuse st (observed i p None st)"
| replaced: "i < length (rx_calls st) \<Longrightarrow> rc_pc (rx_calls st ! i) = AwaitReplaced p \<Longrightarrow> rx_promises st ! p = Fulfilled y \<Longrightarrow>
    rx_step h can_pipeline can_fuse st (reconnected i y st)"
| replaced_failed: "i < length (rx_calls st) \<Longrightarrow> rc_pc (rx_calls st ! i) = AwaitReplaced p \<Longrightarrow> rx_promises st ! p = Rejected e \<Longrightarrow>
    rx_step h can_pipeline can_fuse st (reconnect_threw i (Thrown e) st)"
| joined: "i < length (rx_calls st) \<Longrightarrow> rc_pc (rx_calls st ! i) = JoinReconnect r \<Longrightarrow> rx_attempts st ! r = Reconnected y \<Longrightarrow>
    rx_step h can_pipeline can_fuse st (reconnected i y st)"
| joined_failed: "i < length (rx_calls st) \<Longrightarrow> rc_pc (rx_calls st ! i) = JoinReconnect r \<Longrightarrow> rx_attempts st ! r = ReconnectFailed err \<Longrightarrow>
    rx_step h can_pipeline can_fuse st (reconnect_threw i err st)"
| slept: "i < length (rx_calls st) \<Longrightarrow> rc_pc (rx_calls st ! i) = Backoff \<Longrightarrow>
    rx_step h can_pipeline can_fuse st
      (begin_reconnect i (on_call i (\<lambda>c. c\<lparr>rc_retries := rc_retries c + 1\<rparr>) st))"
| sleep_failed: "i < length (rx_calls st) \<Longrightarrow> rc_pc (rx_calls st ! i) = Backoff \<Longrightarrow>
    rx_step h can_pipeline can_fuse st (over i (Threw (if rx_closed st then ClientClosed else Thrown e)) st)"
| stale_closed: "rx_reconnect st = Some r \<Longrightarrow> rx_attempts st ! r = ClosingStale x \<Longrightarrow>
    rx_step h can_pipeline can_fuse st (st\<lparr>rx_attempts := (rx_attempts st)[r := Creating x]\<rparr>)"
| stale_close_threw: "rx_reconnect st = Some r \<Longrightarrow> rx_attempts st ! r = ClosingStale x \<Longrightarrow>
    rx_step h can_pipeline can_fuse st (settle_attempt r (ReconnectFailed (Thrown e)) st)"
| created: "rx_reconnect st = Some r \<Longrightarrow> rx_attempts st ! r = Creating x \<Longrightarrow>
    rx_step h can_pipeline can_fuse st (executor_created r st)"
| not_created: "rx_reconnect st = Some r \<Longrightarrow> rx_attempts st ! r = Creating x \<Longrightarrow>
    rx_step h can_pipeline can_fuse st (settle_attempt r (ReconnectFailed (Thrown e)) st)"
| new_closed: "rx_reconnect st = Some r \<Longrightarrow> rx_attempts st ! r = ClosingNew y \<Longrightarrow>
    rx_step h can_pipeline can_fuse st (settle_attempt r (ReconnectFailed ClientClosed) st)"
| new_close_threw: "rx_reconnect st = Some r \<Longrightarrow> rx_attempts st ! r = ClosingNew y \<Longrightarrow>
    rx_step h can_pipeline can_fuse st (settle_attempt r (ReconnectFailed (Thrown e)) st)"
| close_called: "rx_step h can_pipeline can_fuse st (close_call st)"
| close_finds: "rx_closing st = AwaitCurrent p r \<Longrightarrow> rx_promises st ! p = Fulfilled x \<Longrightarrow>
    rx_step h can_pipeline can_fuse st (st\<lparr>rx_closing := ClosingExecutor x r, rx_asked := rx_asked st @ [x]\<rparr>)"
| close_finds_none: "rx_closing st = AwaitCurrent p r \<Longrightarrow> rx_promises st ! p = Rejected e \<Longrightarrow>
    rx_step h can_pipeline can_fuse st (st\<lparr>rx_closing := AwaitReconnect r\<rparr>)"
| executor_closed: "rx_closing st = ClosingExecutor x r \<Longrightarrow>
    rx_step h can_pipeline can_fuse st (st\<lparr>rx_closing := AwaitReconnect r\<rparr>)"
| close_over: "rx_closing st = AwaitReconnect r \<Longrightarrow> r = None \<or> rx_reconnect st \<noteq> r \<Longrightarrow>
    rx_step h can_pipeline can_fuse st (st\<lparr>rx_closing := Closed\<rparr>)"

section \<open>Invariant\<close>

definition executor_at :: "rx_state \<Rightarrow> nat \<Rightarrow> nat option" where
  "executor_at st p = (case rx_promises st ! p of Fulfilled x \<Rightarrow> Some x | _ \<Rightarrow> None)"

abbreviation current :: "rx_state \<Rightarrow> nat option" where
  "current st \<equiv> executor_at st (rx_executor st)"

lemma executor_at_simps [simp]:
  "rx_promises st ! p = Fulfilled x \<Longrightarrow> executor_at st p = Some x"
  "executor_at st p = Some x \<longleftrightarrow> rx_promises st ! p = Fulfilled x"
  by (auto simp: executor_at_def split: rx_promise.splits)

text \<open>Only the first promise may not be fulfilled, and then there is no other; executors are promised in the
  order of their creation.\<close>

definition promises_ok :: "rx_state \<Rightarrow> bool" where
  "promises_ok st \<longleftrightarrow> length (rx_promises st) = Suc (rx_executor st) \<and>
    (\<forall>p. 0 < p \<and> p \<le> rx_executor st \<longrightarrow> executor_at st p \<noteq> None) \<and>
    (executor_at st 0 = None \<longrightarrow> rx_executor st = 0 \<and> rx_created st = 0) \<and>
    (\<forall>p x. p \<le> rx_executor st \<and> executor_at st p = Some x \<longrightarrow> x < rx_created st) \<and>
    (\<forall>p q x y. p < q \<and> q \<le> rx_executor st \<and> executor_at st p = Some x \<and> executor_at st q = Some y \<longrightarrow> x < y)"

fun attempt_over :: "rx_attempt \<Rightarrow> bool" where
  "attempt_over (Reconnected y) = True"
| "attempt_over (ReconnectFailed err) = True"
| "attempt_over a = False"

text \<open>A reconnection under way replaces the current executor, which was asked to close.\<close>

fun attempt_ok :: "rx_state \<Rightarrow> rx_attempt \<Rightarrow> bool" where
  "attempt_ok st (ClosingStale x) \<longleftrightarrow> current st = Some x \<and> x \<in> set (rx_asked st)"
| "attempt_ok st (Creating x) \<longleftrightarrow> current st = Some x \<and> x \<in> set (rx_asked st)"
| "attempt_ok st (ClosingNew y) \<longleftrightarrow> rx_closed st \<and> current st \<noteq> None"
| "attempt_ok st a \<longleftrightarrow> False"

definition attempts_ok :: "rx_state \<Rightarrow> bool" where
  "attempts_ok st \<longleftrightarrow>
    (\<forall>r. rx_reconnect st = Some r \<longrightarrow> r < length (rx_attempts st) \<and> attempt_ok st (rx_attempts st ! r)) \<and>
    (\<forall>r < length (rx_attempts st). rx_reconnect st \<noteq> Some r \<longrightarrow> attempt_over (rx_attempts st ! r)) \<and>
    (\<forall>r < length (rx_attempts st). \<forall>y. rx_attempts st ! r = Reconnected y \<longrightarrow> (\<exists>z. current st = Some z \<and> y \<le> z))"

definition asked_ok :: "rx_state \<Rightarrow> bool" where
  "asked_ok st \<longleftrightarrow> (\<forall>y < rx_created st. y \<in> set (rx_asked st) \<or> current st = Some y)"

text \<open>The reconnection that \<open>close\<close> waits for is the only one there can be.\<close>

definition awaits :: "rx_state \<Rightarrow> nat option \<Rightarrow> bool" where
  "awaits st r \<longleftrightarrow> rx_reconnect st = None \<or> rx_reconnect st = r"

definition all_asked :: "rx_state \<Rightarrow> bool" where
  "all_asked st \<longleftrightarrow> rx_promises st ! 0 \<noteq> Pending \<and> (\<forall>y < rx_created st. y \<in> set (rx_asked st))"

definition closing_ok :: "rx_state \<Rightarrow> bool" where
  "closing_ok st \<longleftrightarrow> (rx_closed st \<longleftrightarrow> rx_closing st \<noteq> Open) \<and>
    (case rx_closing st of
       Open \<Rightarrow> True
     | AwaitCurrent p r \<Rightarrow> p = rx_executor st \<and> awaits st r
     | ClosingExecutor x r \<Rightarrow> all_asked st \<and> awaits st r
     | AwaitReconnect r \<Rightarrow> all_asked st \<and> awaits st r
     | Closed \<Rightarrow> all_asked st \<and> rx_reconnect st = None)"

definition base_ok :: "rx_state \<Rightarrow> bool" where
  "base_ok st \<longleftrightarrow> promises_ok st \<and> attempts_ok st \<and> asked_ok st \<and> closing_ok st"

text \<open>Calls. What they sent and how that failed; \<open>in_reconnect\<close> is a call whose operation failed.\<close>

definition history_ok :: "js_heap \<Rightarrow> rx_state \<Rightarrow> rx_call \<Rightarrow> bool" where
  "history_ok h st c \<longleftrightarrow> sorted_wrt (<) (rc_sends c) \<and> (\<forall>x \<in> set (rc_sends c). x < rx_created st) \<and>
    length (rc_sends c) \<le> Suc (rc_retries c) \<and> rc_retries c \<le> rx_max_retries st \<and>
    (\<not> replay_allowed (rc_kind c) \<longrightarrow> length (rc_sends c) \<le> 1) \<and>
    length (rc_errors c) \<le> length (rc_sends c) \<and>
    (\<forall>k. Suc k < length (rc_sends c) \<longrightarrow> k < length (rc_errors c) \<and> reconnectable h (rc_kind c) (rc_errors c ! k))"

definition uses_executor :: "rx_state \<Rightarrow> rx_call \<Rightarrow> bool" where
  "uses_executor st c \<longleftrightarrow> rc_sends c \<noteq> [] \<and> last (rc_sends c) = rc_executor c \<and> (\<exists>x. current st = Some x \<and> rc_executor c \<le> x)"

definition in_reconnect :: "js_heap \<Rightarrow> rx_state \<Rightarrow> rx_call \<Rightarrow> bool" where
  "in_reconnect h st c \<longleftrightarrow> history_ok h st c \<and> uses_executor st c \<and> length (rc_errors c) = length (rc_sends c) \<and>
    reconnectable h (rc_kind c) (last (rc_errors c)) \<and> (replay_allowed (rc_kind c) \<longrightarrow> length (rc_sends c) \<le> rc_retries c)"

fun pc_ok :: "js_heap \<Rightarrow> rx_state \<Rightarrow> rx_call \<Rightarrow> rx_pc \<Rightarrow> bool" where
  "pc_ok h st c (AwaitExecutor p) \<longleftrightarrow> rc_sends c = [] \<and> p \<le> rx_executor st"
| "pc_ok h st c AwaitOperation \<longleftrightarrow> uses_executor st c \<and> length (rc_sends c) = Suc (length (rc_errors c))"
| "pc_ok h st c (ObserveExecutor p) \<longleftrightarrow> in_reconnect h st c \<and> p \<le> rx_executor st \<and>
    (\<exists>x. executor_at st p = Some x \<and> rc_executor c \<le> x)"
| "pc_ok h st c (JoinReconnect r) \<longleftrightarrow> in_reconnect h st c \<and> r < length (rx_attempts st) \<and>
    (\<forall>y. rx_attempts st ! r = Reconnected y \<longrightarrow> rc_executor c < y)"
| "pc_ok h st c (AwaitReplaced p) \<longleftrightarrow> in_reconnect h st c \<and> p \<le> rx_executor st \<and>
    (\<exists>x. executor_at st p = Some x \<and> rc_executor c < x)"
| "pc_ok h st c Backoff \<longleftrightarrow> in_reconnect h st c \<and> rc_retries c < rx_max_retries st \<and> replay_allowed (rc_kind c)"
| "pc_ok h st c (Over r) \<longleftrightarrow> True"

definition call_ok :: "js_heap \<Rightarrow> rx_state \<Rightarrow> rx_call \<Rightarrow> bool" where
  "call_ok h st c \<longleftrightarrow> history_ok h st c \<and> pc_ok h st c (rc_pc c)"

definition calls_but :: "js_heap \<Rightarrow> nat option \<Rightarrow> rx_state \<Rightarrow> bool" where
  "calls_but h i st \<longleftrightarrow> (\<forall>j < length (rx_calls st). Some j \<noteq> i \<longrightarrow> call_ok h st (rx_calls st ! j))"

definition rx_inv :: "js_heap \<Rightarrow> rx_state \<Rightarrow> bool" where
  "rx_inv h st \<longleftrightarrow> base_ok st \<and> calls_but h None st"

text \<open>What calls know stays true while the rest goes on.\<close>

definition rx_grows :: "rx_state \<Rightarrow> rx_state \<Rightarrow> bool" where
  "rx_grows st st' \<longleftrightarrow> rx_max_retries st' = rx_max_retries st \<and> rx_created st \<le> rx_created st' \<and>
    rx_executor st \<le> rx_executor st' \<and>
    (\<forall>p \<le> rx_executor st. \<forall>x. executor_at st p = Some x \<longrightarrow> executor_at st' p = Some x) \<and>
    (\<forall>x. current st = Some x \<longrightarrow> (\<exists>y. current st' = Some y \<and> x \<le> y)) \<and>
    length (rx_attempts st) \<le> length (rx_attempts st') \<and>
    (\<forall>r < length (rx_attempts st). \<forall>y. rx_attempts st' ! r = Reconnected y \<longrightarrow>
      rx_attempts st ! r = Reconnected y \<or> rx_created st \<le> y)"

lemma rx_growsD:
  assumes "rx_grows st st'"
  shows "rx_max_retries st' = rx_max_retries st" "rx_created st \<le> rx_created st'" "rx_executor st \<le> rx_executor st'"
    "p \<le> rx_executor st \<Longrightarrow> executor_at st p = Some x \<Longrightarrow> executor_at st' p = Some x"
    "current st = Some x \<Longrightarrow> \<exists>y. current st' = Some y \<and> x \<le> y"
    "length (rx_attempts st) \<le> length (rx_attempts st')"
    "r < length (rx_attempts st) \<Longrightarrow> rx_attempts st' ! r = Reconnected y \<Longrightarrow> rx_attempts st ! r = Reconnected y \<or> rx_created st \<le> y"
  using assms unfolding rx_grows_def by blast+

lemma history_mono: "history_ok h st c \<Longrightarrow> rx_grows st st' \<Longrightarrow> history_ok h st' c"
  using rx_growsD(1,2) [of st st'] by (fastforce simp: history_ok_def)

lemma uses_mono: "uses_executor st c \<Longrightarrow> rx_grows st st' \<Longrightarrow> uses_executor st' c"
  using rx_growsD(5) [of st st'] le_trans unfolding uses_executor_def by blast

lemma in_reconnect_mono: "in_reconnect h st c \<Longrightarrow> rx_grows st st' \<Longrightarrow> in_reconnect h st' c"
  unfolding in_reconnect_def using history_mono uses_mono by blast

lemma executor_below: "uses_executor st c \<Longrightarrow> history_ok h st c \<Longrightarrow> rc_executor c < rx_created st"
  by (metis history_ok_def last_in_set uses_executor_def)

lemma call_mono: "call_ok h st c \<Longrightarrow> rx_grows st st' \<Longrightarrow> call_ok h st' c"
proof -
  assume ok: "call_ok h st c" and grows: "rx_grows st st'"
  note D = rx_growsD [OF grows]
  have hist: "history_ok h st c" and pc: "pc_ok h st c (rc_pc c)" using ok by (simp_all add: call_ok_def)
  have "pc_ok h st' c (rc_pc c)"
  proof (cases "rc_pc c")
    case (JoinReconnect r)
    then have r: "in_reconnect h st c" "r < length (rx_attempts st)" "\<And>y. rx_attempts st ! r = Reconnected y \<Longrightarrow> rc_executor c < y"
      using pc by simp_all
    have "rc_executor c < y" if "rx_attempts st' ! r = Reconnected y" for y
      using D(7) [OF r(2) that] r(3) executor_below [of st c h] r(1) by (auto simp: in_reconnect_def)
    then show ?thesis using r D(6) in_reconnect_mono [OF r(1) grows] JoinReconnect by simp
  next
    case (ObserveExecutor p)
    then have p: "in_reconnect h st c" "p \<le> rx_executor st" "\<exists>x. executor_at st p = Some x \<and> rc_executor c \<le> x" using pc by simp_all
    then have "\<exists>x. executor_at st' p = Some x \<and> rc_executor c \<le> x" using D(4) by blast
    then show ?thesis using ObserveExecutor in_reconnect_mono [OF p(1) grows] p(2) D(3) by simp
  next
    case (AwaitReplaced p)
    then have p: "in_reconnect h st c" "p \<le> rx_executor st" "\<exists>x. executor_at st p = Some x \<and> rc_executor c < x" using pc by simp_all
    then have "\<exists>x. executor_at st' p = Some x \<and> rc_executor c < x" using D(4) by blast
    then show ?thesis using AwaitReplaced in_reconnect_mono [OF p(1) grows] p(2) D(3) by simp
  qed (use pc D in_reconnect_mono [OF _ grows] uses_mono [OF _ grows] in simp_all)
  with history_mono [OF hist grows] show ?thesis by (simp add: call_ok_def)
qed

text \<open>Changing a call leaves the rest as it is.\<close>

lemma calls_irrelevant [simp]:
  "executor_at (st\<lparr>rx_calls := cs\<rparr>) = executor_at st"
  "history_ok h (st\<lparr>rx_calls := cs\<rparr>) = history_ok h st"
  "uses_executor (st\<lparr>rx_calls := cs\<rparr>) = uses_executor st"
  "in_reconnect h (st\<lparr>rx_calls := cs\<rparr>) = in_reconnect h st"
  "pc_ok h (st\<lparr>rx_calls := cs\<rparr>) c pc = pc_ok h st c pc"
  "call_ok h (st\<lparr>rx_calls := cs\<rparr>) = call_ok h st"
  "attempt_ok (st\<lparr>rx_calls := cs\<rparr>) a = attempt_ok st a"
  "base_ok (st\<lparr>rx_calls := cs\<rparr>) = base_ok st"
proof -
  show at: "executor_at (st\<lparr>rx_calls := cs\<rparr>) = executor_at st" by (simp add: executor_at_def fun_eq_iff)
  show hist: "history_ok h (st\<lparr>rx_calls := cs\<rparr>) = history_ok h st" by (simp add: history_ok_def fun_eq_iff)
  show uses: "uses_executor (st\<lparr>rx_calls := cs\<rparr>) = uses_executor st" by (simp add: uses_executor_def fun_eq_iff)
  show recon: "in_reconnect h (st\<lparr>rx_calls := cs\<rparr>) = in_reconnect h st"
    by (simp add: in_reconnect_def hist uses fun_eq_iff)
  have pc: "pc_ok h (st\<lparr>rx_calls := cs\<rparr>) c pc = pc_ok h st c pc" for c pc
    by (cases pc) (simp_all add: uses recon at del: executor_at_simps)
  then show "pc_ok h (st\<lparr>rx_calls := cs\<rparr>) c pc = pc_ok h st c pc" .
  show "call_ok h (st\<lparr>rx_calls := cs\<rparr>) = call_ok h st" by (simp add: call_ok_def hist pc fun_eq_iff)
  have attempt: "attempt_ok (st\<lparr>rx_calls := cs\<rparr>) a = attempt_ok st a" for a
    by (cases a) (simp_all add: at del: executor_at_simps)
  then show "attempt_ok (st\<lparr>rx_calls := cs\<rparr>) a = attempt_ok st a" .
  have "awaits (st\<lparr>rx_calls := cs\<rparr>) = awaits st" "all_asked (st\<lparr>rx_calls := cs\<rparr>) = all_asked st"
    by (simp_all add: awaits_def all_asked_def fun_eq_iff)
  then have "closing_ok (st\<lparr>rx_calls := cs\<rparr>) = closing_ok st"
    by (simp add: closing_ok_def split: rx_closing.split)
  then show "base_ok (st\<lparr>rx_calls := cs\<rparr>) = base_ok st"
    by (simp add: base_ok_def promises_ok_def attempts_ok_def asked_ok_def at attempt
        del: executor_at_simps)
qed

definition inv_but :: "js_heap \<Rightarrow> nat \<Rightarrow> rx_state \<Rightarrow> bool" where
  "inv_but h i st \<longleftrightarrow> base_ok st \<and> calls_but h (Some i) st \<and> i < length (rx_calls st)"

lemma inv_butI: "rx_inv h st \<Longrightarrow> i < length (rx_calls st) \<Longrightarrow> inv_but h i st"
  by (simp add: rx_inv_def inv_but_def calls_but_def)

lemma on_call_inv: "inv_but h i st \<Longrightarrow> call_ok h st (f (rx_calls st ! i)) \<Longrightarrow> rx_inv h (on_call i f st)"
  by (simp add: inv_but_def rx_inv_def calls_but_def on_call_def nth_list_update)

lemma on_call_but: "inv_but h i st \<Longrightarrow> inv_but h i (on_call i f st)"
  by (simp add: inv_but_def calls_but_def on_call_def)

lemma on_call_fields [simp]:
  "rx_closed (on_call i f st) = rx_closed st" "rx_max_retries (on_call i f st) = rx_max_retries st"
  "rx_reconnect (on_call i f st) = rx_reconnect st" "rx_executor (on_call i f st) = rx_executor st"
  "rx_attempts (on_call i f st) = rx_attempts st" "rx_created (on_call i f st) = rx_created st"
  "length (rx_calls (on_call i f st)) = length (rx_calls st)" "executor_at (on_call i f st) = executor_at st"
  "i < length (rx_calls st) \<Longrightarrow> rx_calls (on_call i f st) ! i = f (rx_calls st ! i)"
  "history_ok h (on_call i f st) = history_ok h st" "in_reconnect h (on_call i f st) = in_reconnect h st"
  "uses_executor (on_call i f st) = uses_executor st"
  by (simp_all add: on_call_def)

lemma goto_fields [simp]:
  "rc_kind (goto pc c) = rc_kind c" "rc_pc (goto pc c) = pc" "rc_executor (goto pc c) = rc_executor c"
  "rc_error (goto pc c) = rc_error c" "rc_retries (goto pc c) = rc_retries c" "rc_sends (goto pc c) = rc_sends c"
  "rc_errors (goto pc c) = rc_errors c" "history_ok h st (goto pc c) = history_ok h st c"
  "uses_executor st (goto pc c) = uses_executor st c" "in_reconnect h st (goto pc c) = in_reconnect h st c"
  by (simp_all add: goto_def history_ok_def uses_executor_def in_reconnect_def)

lemma over_inv: "inv_but h i st \<Longrightarrow> history_ok h st (rx_calls st ! i) \<Longrightarrow> rx_inv h (over i r st)"
  unfolding over_def by (rule on_call_inv) (simp_all add: call_ok_def)

lemma reconnect_threw_inv:
  assumes "inv_but h i st" "in_reconnect h st (rx_calls st ! i)"
  shows "rx_inv h (reconnect_threw i err st)"
proof -
  have hist: "history_ok h st (rx_calls st ! i)" using assms(2) by (simp add: in_reconnect_def)
  have "rx_inv h (on_call i (goto Backoff) st)"
    if "\<not> (rx_closed st \<or> rx_max_retries st \<le> rc_retries (rx_calls st ! i))" "replay_allowed (rc_kind (rx_calls st ! i))"
    by (rule on_call_inv [OF assms(1)]) (use that assms(2) hist in \<open>simp add: call_ok_def\<close>)
  then show ?thesis using over_inv [OF assms(1) hist] by (simp add: reconnect_threw_def Let_def)
qed

lemma increasing_last: "sorted_wrt (<) xs \<Longrightarrow> s \<in> set xs \<Longrightarrow> s \<le> last xs" for s :: nat
proof (induction xs)
  case (Cons x xs)
  then show ?case by (cases "xs = []") (auto dest!: last_in_set intro: less_imp_le)
qed simp

lemma send_inv:
  assumes but: "inv_but h i st" and hist: "history_ok h st c" and c: "c = rx_calls st ! i"
    and x: "current st = Some y" "x \<le> y" "x < rx_created st"
    and fresh: "rc_sends c = [] \<and> rc_errors c = [] \<or> in_reconnect h st c \<and> rc_executor c < x \<and> replay_allowed (rc_kind c)"
  shows "rx_inv h (send_operation i x st)"
  unfolding send_operation_def
proof (rule on_call_inv [OF but])
  let ?c = "c\<lparr>rc_pc := AwaitOperation, rc_executor := x, rc_sends := rc_sends c @ [x]\<rparr>"
  have uses: "uses_executor st ?c" using x by (auto simp: uses_executor_def)
  have "history_ok h st ?c \<and> length (rc_sends ?c) = Suc (length (rc_errors ?c))"
    using fresh
  proof
    assume new: "rc_sends c = [] \<and> rc_errors c = []"
    with hist x(3) show ?thesis by (simp add: history_ok_def)
  next
    assume again: "in_reconnect h st c \<and> rc_executor c < x \<and> replay_allowed (rc_kind c)"
    note I = again [unfolded in_reconnect_def uses_executor_def] and H = hist [unfolded history_ok_def]
    have ne: "rc_sends c \<noteq> []" "rc_errors c \<noteq> []" using I by auto
    have below: "s < x" if "s \<in> set (rc_sends c)" for s
    proof -
      have "s \<le> last (rc_sends c)"
        using H that increasing_last by blast
      with I show ?thesis by linarith
    qed
    have errors: "k < length (rc_errors c) \<and> reconnectable h (rc_kind c) (rc_errors c ! k)" if "k < length (rc_sends c)" for k
    proof (cases "Suc k = length (rc_sends c)")
      case True
      then have "rc_errors c ! k = last (rc_errors c)" using I ne(2) by (simp add: last_conv_nth flip: True)
      with I that show ?thesis by simp
    next
      case False
      with H that show ?thesis by auto
    qed
    have "sorted_wrt (<) (rc_sends c @ [x])" using H below by (simp add: sorted_wrt_append)
    with H I again x(3) errors show ?thesis by (simp add: history_ok_def)
  qed
  with uses show "call_ok h st ((rx_calls st ! i)\<lparr>rc_pc := AwaitOperation, rc_executor := x,
      rc_sends := rc_sends (rx_calls st ! i) @ [x]\<rparr>)"
    by (simp add: call_ok_def c [symmetric])
qed

lemma loop_head_inv:
  assumes "inv_but h i st" "history_ok h st (rx_calls st ! i)" "current st = Some y" "x \<le> y" "x < rx_created st"
    "rc_sends (rx_calls st ! i) = [] \<and> rc_errors (rx_calls st ! i) = [] \<or>
     in_reconnect h st (rx_calls st ! i) \<and> rc_executor (rx_calls st ! i) < x \<and> replay_allowed (rc_kind (rx_calls st ! i))"
  shows "rx_inv h (loop_head i x st)"
  unfolding loop_head_def using over_inv [OF assms(1,2)] send_inv [OF assms(1,2) refl assms(3-6)] by simp

lemma reconnected_inv:
  assumes but: "inv_but h i st" and c: "in_reconnect h st (rx_calls st ! i)" "rc_executor (rx_calls st ! i) < x"
    and x: "current st = Some y" "x \<le> y"
  shows "rx_inv h (reconnected i x st)"
proof -
  have hist: "history_ok h st (rx_calls st ! i)" using c(1) by (simp add: in_reconnect_def)
  have "y < rx_created st" using but x(1) by (auto simp: inv_but_def base_ok_def promises_ok_def)
  with x(2) have "x < rx_created st" by simp
  then have "rx_inv h (loop_head i x st)" if "replay_allowed (rc_kind (rx_calls st ! i))"
    using loop_head_inv [OF but hist x] c that by blast
  then show ?thesis using over_inv [OF but hist] by (simp add: reconnected_def Let_def)
qed

lemma join_inv:
  assumes but: "inv_but h i st" and c: "in_reconnect h st (rx_calls st ! i)" and r: "rx_reconnect st = Some r"
  shows "rx_inv h (on_call i (goto (JoinReconnect r)) st)"
proof (rule on_call_inv [OF but])
  have "r < length (rx_attempts st)" "attempt_ok st (rx_attempts st ! r)"
    using but r by (auto simp: inv_but_def base_ok_def attempts_ok_def)
  with c show "call_ok h st (goto (JoinReconnect r) (rx_calls st ! i))"
    by (cases "rx_attempts st ! r") (simp_all add: call_ok_def in_reconnect_def)
qed

lemma begin_reconnect_inv:
  assumes but: "inv_but h i st" and c: "in_reconnect h st (rx_calls st ! i)"
  shows "rx_inv h (begin_reconnect i st)"
proof -
  have "rx_inv h (on_call i (goto (ObserveExecutor (rx_executor st))) st)"
  proof (rule on_call_inv [OF but])
    show "call_ok h st (goto (ObserveExecutor (rx_executor st)) (rx_calls st ! i))"
      using c by (auto simp: call_ok_def in_reconnect_def uses_executor_def)
  qed
  then show ?thesis
    using reconnect_threw_inv [OF assms] join_inv [OF assms] by (simp add: begin_reconnect_def split: option.split)
qed

text \<open>A reconnection begins.\<close>

lemma start_attempt_inv:
  assumes but: "inv_but h i st" and c: "in_reconnect h st (rx_calls st ! i)"
    and st: "rx_reconnect st = None" "\<not> rx_closed st" "current st = Some (rc_executor (rx_calls st ! i))"
  defines "st1 \<equiv> st\<lparr>rx_attempts := rx_attempts st @ [ClosingStale (rc_executor (rx_calls st ! i))],
    rx_reconnect := Some (length (rx_attempts st)), rx_asked := rx_asked st @ [rc_executor (rx_calls st ! i)]\<rparr>"
  shows "rx_inv h (on_call i (goto (JoinReconnect (length (rx_attempts st)))) st1)"
proof -
  have at: "executor_at st1 = executor_at st" by (simp add: st1_def executor_at_def fun_eq_iff)
  have base: "base_ok st" and calls: "calls_but h (Some i) st" and i: "i < length (rx_calls st)"
    using but by (simp_all add: inv_but_def)
  have grows: "rx_grows st st1" unfolding rx_grows_def at by (auto simp: st1_def nth_append)
  have "promises_ok st1" using base unfolding base_ok_def promises_ok_def at by (simp add: st1_def)
  moreover have "attempts_ok st1"
    using base st(1,3) unfolding base_ok_def attempts_ok_def
    by (auto simp: st1_def nth_append less_Suc_eq executor_at_def split: rx_promise.splits)
  moreover have "asked_ok st1" using base unfolding base_ok_def asked_ok_def at by (auto simp: st1_def)
  moreover have "closing_ok st1" using base st(2) by (simp add: base_ok_def closing_ok_def st1_def)
  moreover have "calls_but h (Some i) st1"
    using calls call_mono [OF _ grows] unfolding calls_but_def by (simp add: st1_def)
  ultimately have but1: "inv_but h i st1" using i by (simp add: inv_but_def base_ok_def st1_def)
  have "rx_calls st1 = rx_calls st" "rx_reconnect st1 = Some (length (rx_attempts st))" by (simp_all add: st1_def)
  then show ?thesis using join_inv [OF but1] in_reconnect_mono [OF c grows] by simp
qed

lemma observed_inv:
  assumes but: "inv_but h i st" and c: "in_reconnect h st (rx_calls st ! i)"
    and p: "p \<le> rx_executor st" "executor_at st p = Some x" "rc_executor (rx_calls st ! i) \<le> x"
  shows "rx_inv h (observed i p (Some x) st)"
proof -
  let ?stale = "rc_executor (rx_calls st ! i)"
  have promises: "promises_ok st" using but by (simp add: inv_but_def base_ok_def)
  have "rx_inv h (on_call i (goto (AwaitReplaced (rx_executor st))) st)" if "rx_executor st \<noteq> p"
  proof (rule on_call_inv [OF but])
    have less: "p < rx_executor st" using p(1) that by simp
    then obtain y where y: "current st = Some y" using promises unfolding promises_ok_def by (metis gr_implies_not0 neq0_conv not_None_eq order_refl)
    then have "x < y" using promises less p(2) unfolding promises_ok_def by blast
    with p(3) y show "call_ok h st (goto (AwaitReplaced (rx_executor st)) (rx_calls st ! i))"
      using c by (simp add: call_ok_def in_reconnect_def)
  qed
  moreover have "rx_inv h (reconnected i x st)" if "rx_executor st = p" "x \<noteq> ?stale"
    by (rule reconnected_inv [OF but c]) (use that p in auto)
  ultimately show ?thesis
    unfolding observed_def Let_def
    using reconnect_threw_inv [OF but c] join_inv [OF but c] start_attempt_inv [OF but c] p(2)
    by (auto split: option.split)
qed

lemma failed_inv:
  assumes inv: "rx_inv h st" and i: "i < length (rx_calls st)" and pc: "rc_pc (rx_calls st ! i) = AwaitOperation"
  shows "rx_inv h (failed h i e st)"
proof -
  let ?c = "rx_calls st ! i" and ?f = "\<lambda>c. c\<lparr>rc_error := e, rc_errors := rc_errors c @ [e]\<rparr>"
  let ?g = "\<lambda>c :: rx_call. c\<lparr>rc_retries := rc_retries c + 1\<rparr>"
  have "call_ok h st ?c" using inv i by (simp add: rx_inv_def calls_but_def)
  then have hist: "history_ok h st ?c" and uses: "uses_executor st ?c" and len: "length (rc_sends ?c) = Suc (length (rc_errors ?c))"
    using pc by (simp_all add: call_ok_def)
  have but: "inv_but h i (on_call i ?f st)" by (rule on_call_but [OF inv_butI [OF inv i]])
  have hist1: "history_ok h st (?f ?c)" using hist len by (auto simp: history_ok_def nth_append)
  have uses1: "uses_executor st (?f ?c)" using uses by (simp add: uses_executor_def)
  have over1: "rx_inv h (over i r (on_call i ?f st))" for r
    by (rule over_inv [OF but]) (simp add: i hist1)
  have once: "in_reconnect h st (?f ?c)" if "reconnectable h (rc_kind ?c) e" "\<not> replay_allowed (rc_kind ?c)"
    using hist1 uses1 len that by (simp add: in_reconnect_def)
  have again: "in_reconnect h st (?g (?f ?c))"
    if "reconnectable h (rc_kind ?c) e" "replay_allowed (rc_kind ?c)" "rc_retries ?c < rx_max_retries st"
    using hist1 uses1 len that by (simp add: in_reconnect_def history_ok_def uses_executor_def)
  have "rx_inv h (begin_reconnect i (on_call i ?f st))" if "reconnectable h (rc_kind ?c) e" "\<not> replay_allowed (rc_kind ?c)"
    by (rule begin_reconnect_inv [OF but]) (use once [OF that] i in simp)
  moreover have "rx_inv h (begin_reconnect i (on_call i ?g (on_call i ?f st)))"
    if "reconnectable h (rc_kind ?c) e" "replay_allowed (rc_kind ?c)" "rc_retries ?c < rx_max_retries st"
    by (rule begin_reconnect_inv [OF on_call_but [OF but]]) (use again [OF that] i in simp)
  moreover have "is_pipeline (rc_kind ?c) \<Longrightarrow> \<not> replay_allowed (rc_kind ?c) \<and>
      reconnectable h (rc_kind ?c) e = isReconnectableClosedConnectionError h e"
    by (auto simp: is_pipeline_def)
  ultimately show ?thesis using over1
    by (cases "is_pipeline (rc_kind ?c)") (simp_all add: failed_def pipeline_failed_def operation_failed_def Let_def)
qed

lemma at_most_current:
  assumes "promises_ok st" "p \<le> rx_executor st" "executor_at st p = Some x"
  obtains y where "current st = Some y" "x \<le> y"
proof (cases "p = rx_executor st")
  case True
  with assms(3) that show thesis by blast
next
  case False
  with assms(2) have less: "p < rx_executor st" by simp
  then obtain y where "current st = Some y"
    using assms(1) unfolding promises_ok_def by (metis gr_implies_not0 neq0_conv not_None_eq order_refl)
  moreover from this have "x < y" using assms(1,3) less unfolding promises_ok_def by blast
  ultimately show thesis using that by simp
qed

lemma executor_ready_inv:
  assumes inv: "rx_inv h st" and i: "i < length (rx_calls st)" and pc: "rc_pc (rx_calls st ! i) = AwaitExecutor p"
    and x: "executor_at st p = Some x"
  shows "rx_inv h (executor_ready can_pipeline can_fuse i x st)"
proof -
  let ?c = "rx_calls st ! i"
  have "call_ok h st ?c" and base: "promises_ok st" using inv i by (simp_all add: rx_inv_def calls_but_def base_ok_def)
  then have hist: "history_ok h st ?c" and new: "rc_sends ?c = []" "p \<le> rx_executor st" using pc by (simp_all add: call_ok_def)
  then have none: "rc_sends ?c = [] \<and> rc_errors ?c = []" by (simp add: history_ok_def)
  note but = inv_butI [OF inv i]
  have below: "x < rx_created st" using base x new(2) unfolding promises_ok_def by blast
  obtain y where y: "current st = Some y" "x \<le> y" by (rule at_most_current [OF base new(2) x])
  have "rx_inv h (send_operation i x st)" by (rule send_inv [OF but hist refl y below]) (use none in blast)
  then show ?thesis
    using over_inv [OF but hist] by (simp add: executor_ready_def pipeline_head_def loop_head_def)
qed

lemma new_call_inv:
  assumes "rx_inv h st" shows "rx_inv h (new_call kind st)"
proof -
  let ?c = "\<lparr>rc_kind = kind, rc_pc = pc, rc_executor = 0, rc_error = 0, rc_retries = 0, rc_sends = [], rc_errors = []\<rparr>"
  have "call_ok h st \<lparr>rc_kind = kind, rc_pc = pc, rc_executor = 0, rc_error = 0, rc_retries = 0, rc_sends = [], rc_errors = []\<rparr>"
    if "pc = AwaitExecutor (rx_executor st) \<or> (\<exists>r. pc = Over r)" for pc
    using that by (auto simp: call_ok_def history_ok_def)
  then show ?thesis
    using assms by (auto simp: new_call_def Let_def rx_inv_def calls_but_def nth_append less_Suc_eq)
qed

lemma base_step_inv:
  assumes "rx_inv h st" "base_ok st'" "rx_grows st st'" "rx_calls st' = rx_calls st"
  shows "rx_inv h st'"
  using assms call_mono [OF _ assms(3)] by (simp add: rx_inv_def calls_but_def)

lemma first_ready_inv:
  assumes inv: "rx_inv h st" and first: "rx_promises st ! 0 = Pending"
  shows "rx_inv h (st\<lparr>rx_promises := (rx_promises st)[0 := Fulfilled (rx_created st)], rx_created := rx_created st + 1\<rparr>)"
    (is "rx_inv h ?st")
proof -
  have base: "base_ok st" using inv by (simp add: rx_inv_def)
  have none: "executor_at st 0 = None" using first by (simp add: executor_at_def)
  then have zero: "rx_executor st = 0" "rx_created st = 0" "length (rx_promises st) = 1"
    using base by (auto simp: base_ok_def promises_ok_def)
  have at: "executor_at ?st 0 = Some 0" using zero by (simp add: executor_at_def)
  have no_attempt: "rx_reconnect st = None"
  proof (cases "rx_reconnect st")
    case (Some r)
    then have "attempt_ok st (rx_attempts st ! r)" using base by (simp add: base_ok_def attempts_ok_def)
    then show ?thesis using none zero by (cases "rx_attempts st ! r") auto
  qed simp
  have "promises_ok ?st" using zero at by (auto simp: promises_ok_def)
  moreover have "attempts_ok ?st" using base no_attempt none zero at by (auto simp: base_ok_def attempts_ok_def)
  moreover have "asked_ok ?st" using zero at by (simp add: asked_ok_def)
  moreover have "closing_ok ?st"
    using base first by (auto simp: base_ok_def closing_ok_def all_asked_def awaits_def split: rx_closing.splits)
  ultimately have "base_ok ?st" by (simp add: base_ok_def)
  moreover have "rx_grows st ?st" using zero none at by (auto simp: rx_grows_def)
  ultimately show ?thesis by (rule base_step_inv [OF inv]) simp
qed

text \<open>A reconnection moves on, or is over without a new executor.\<close>

lemma attempt_step_inv:
  assumes inv: "rx_inv h st" and r: "rx_reconnect st = Some r" and st': "rx_calls st' = rx_calls st"
    "rx_promises st' = rx_promises st" "rx_executor st' = rx_executor st" "rx_created st' = rx_created st"
    "rx_asked st' = rx_asked st" "rx_closed st' = rx_closed st" "rx_closing st' = rx_closing st"
    "rx_max_retries st' = rx_max_retries st" "rx_attempts st' = (rx_attempts st)[r := a]"
    and a: "rx_reconnect st' = Some r \<and> attempt_ok st a \<or> rx_reconnect st' = None \<and> (\<exists>err. a = ReconnectFailed err)"
  shows "rx_inv h st'"
proof -
  have base: "base_ok st" using inv by (simp add: rx_inv_def)
  then have attempts: "attempts_ok st" by (simp add: base_ok_def)
  have rl: "r < length (rx_attempts st)" using attempts r by (simp add: attempts_ok_def)
  have at: "executor_at st' = executor_at st" by (simp add: executor_at_def fun_eq_iff st')
  have notdone: "a \<noteq> Reconnected y" for y using a by auto
  have ok: "attempt_ok st' b = attempt_ok st b" for b
    by (cases b) (simp_all add: at st' del: executor_at_simps)
  have nth: "rx_attempts st' ! s = (if s = r then a else rx_attempts st ! s)" for s using rl by (simp add: st')
  have "promises_ok st'" using base by (simp add: base_ok_def promises_ok_def at st' del: executor_at_simps)
  moreover have "attempts_ok st'" unfolding attempts_ok_def
  proof (intro conjI allI impI)
    fix s assume "rx_reconnect st' = Some s"
    with a show "s < length (rx_attempts st')" "attempt_ok st' (rx_attempts st' ! s)" using rl ok by (auto simp: nth) (simp add: st')
  next
    fix s assume s: "s < length (rx_attempts st')" "rx_reconnect st' \<noteq> Some s"
    show "attempt_over (rx_attempts st' ! s)"
    proof (cases "s = r")
      case True
      with s a show ?thesis by (auto simp: nth)
    next
      case False
      with s attempts r show ?thesis by (simp add: attempts_ok_def nth) (simp add: st')
    qed
  next
    fix s y assume "s < length (rx_attempts st')" "rx_attempts st' ! s = Reconnected y"
    then have "s < length (rx_attempts st)" "rx_attempts st ! s = Reconnected y"
      using notdone rl by (cases "s = r"; simp add: st')+
    with attempts show "\<exists>z. current st' = Some z \<and> y \<le> z"
      unfolding attempts_ok_def at st' by blast
  qed
  moreover have "asked_ok st'" using base by (simp add: base_ok_def asked_ok_def at st' del: executor_at_simps)
  moreover have "closing_ok st'"
    using base a r by (auto simp: base_ok_def closing_ok_def all_asked_def awaits_def st' split: rx_closing.splits)
  ultimately have "base_ok st'" by (simp add: base_ok_def)
  moreover have "rx_grows st st'" unfolding rx_grows_def at using notdone by (simp add: nth) (auto simp: st')
  ultimately show ?thesis by (rule base_step_inv [OF inv]) (rule st')
qed

lemma executor_created_inv:
  assumes inv: "rx_inv h st" and r: "rx_reconnect st = Some r" and a: "rx_attempts st ! r = Creating x"
  shows "rx_inv h (executor_created r st)"
proof -
  have base: "promises_ok st" "attempts_ok st" "asked_ok st" "closing_ok st" using inv by (simp_all add: rx_inv_def base_ok_def)
  have rl: "r < length (rx_attempts st)" and cur: "current st = Some x" and asked: "x \<in> set (rx_asked st)"
    using base(2) r a by (auto simp: attempts_ok_def)
  show ?thesis
  proof (cases "rx_closed st")
    case True
    let ?st = "st\<lparr>rx_created := Suc (rx_created st), rx_attempts := (rx_attempts st)[r := ClosingNew (rx_created st)],
      rx_asked := rx_asked st @ [rx_created st]\<rparr>"
    have at: "executor_at ?st = executor_at st" by (simp add: executor_at_def fun_eq_iff)
    have "promises_ok ?st" using base(1) cur unfolding promises_ok_def at by (auto simp: less_Suc_eq)
    moreover have "attempts_ok ?st"
      using base(2) r rl True cur unfolding attempts_ok_def at by (auto simp: nth_list_update)
    moreover have "asked_ok ?st" using base(3) unfolding asked_ok_def at by (auto simp: less_Suc_eq)
    moreover have "closing_ok ?st"
      using base(4) by (auto simp: closing_ok_def all_asked_def awaits_def less_Suc_eq split: rx_closing.splits)
    ultimately have "base_ok ?st" by (simp add: base_ok_def)
    moreover have "rx_grows st ?st" unfolding rx_grows_def at using rl by (auto simp: nth_list_update)
    ultimately have "rx_inv h ?st" by (rule base_step_inv [OF inv]) simp
    then show ?thesis using True by (simp add: executor_created_def Let_def)
  next
    case False
    let ?y = "rx_created st"
    let ?st = "settle_attempt r (Reconnected ?y)
      (st\<lparr>rx_created := Suc (rx_created st), rx_promises := rx_promises st @ [Fulfilled ?y], rx_executor := length (rx_promises st)\<rparr>)"
    have len: "length (rx_promises st) = Suc (rx_executor st)" using base(1) by (simp add: promises_ok_def)
    have fields: "rx_created ?st = Suc ?y" "rx_executor ?st = Suc (rx_executor st)" "rx_reconnect ?st = None"
      "rx_attempts ?st = (rx_attempts st)[r := Reconnected ?y]" "rx_asked ?st = rx_asked st"
      "rx_closing ?st = rx_closing st" "rx_closed ?st = rx_closed st" "rx_calls ?st = rx_calls st"
      "rx_max_retries ?st = rx_max_retries st" "length (rx_promises ?st) = Suc (Suc (rx_executor st))"
      by (simp_all add: settle_attempt_def len)
    have at: "executor_at ?st p = (if p = Suc (rx_executor st) then Some ?y else executor_at st p)" if "p \<le> Suc (rx_executor st)" for p
      using that len by (auto simp: executor_at_def settle_attempt_def nth_append)
    have below: "z < ?y" if "p \<le> rx_executor st" "executor_at st p = Some z" for p z
      using base(1) that unfolding promises_ok_def by blast
    have "promises_ok ?st" unfolding promises_ok_def fields
    proof (intro conjI allI impI)
      fix p assume "0 < p \<and> p \<le> Suc (rx_executor st)"
      then show "executor_at ?st p \<noteq> None" using base(1) at [of p] by (auto simp: promises_ok_def)
    next
      assume "executor_at ?st 0 = None"
      then have "executor_at st 0 = None" using at [of 0] by simp
      then have "rx_executor st = 0" using base(1) unfolding promises_ok_def by blast
      with \<open>executor_at st 0 = None\<close> cur show "Suc (rx_executor st) = 0" "Suc ?y = 0" by simp_all
    next
      fix p z assume "p \<le> Suc (rx_executor st) \<and> executor_at ?st p = Some z"
      then show "z < Suc ?y" using at [of p] below [of p z] by (cases "p = Suc (rx_executor st)") auto
    next
      fix p q z w assume pq: "p < q \<and> q \<le> Suc (rx_executor st) \<and> executor_at ?st p = Some z \<and> executor_at ?st q = Some w"
      then have z: "executor_at st p = Some z" "p \<le> rx_executor st" using at [of p] by (auto simp del: executor_at_simps)
      show "z < w"
      proof (cases "q = Suc (rx_executor st)")
        case True
        then have "w = ?y" using pq at [of q] by (simp del: executor_at_simps)
        with below [OF z(2,1)] show ?thesis by simp
      next
        case False
        then have "executor_at st q = Some w" "q \<le> rx_executor st" using pq at [of q] by (auto simp del: executor_at_simps)
        with z pq base(1) show ?thesis unfolding promises_ok_def by blast
      qed
    qed (use len in simp)
    moreover have cur': "current ?st = Some ?y" using at [of "Suc (rx_executor st)"] by (simp add: fields del: executor_at_simps)
    have old: "z \<le> ?y" if "s < length (rx_attempts st)" "rx_attempts st ! s = Reconnected z" for s z
    proof -
      have "\<exists>v. current st = Some v \<and> z \<le> v" using base(2) that unfolding attempts_ok_def by blast
      then obtain v where v: "current st = Some v" "z \<le> v" by blast
      with below [OF order_refl v(1)] show ?thesis by simp
    qed
    have "attempts_ok ?st" unfolding attempts_ok_def cur' unfolding fields
      using base(2) r rl old unfolding attempts_ok_def
      by (auto simp: nth_list_update simp del: executor_at_simps)
    moreover have "asked_ok ?st" unfolding asked_ok_def cur' unfolding fields
      using base(3) asked cur unfolding asked_ok_def by (auto simp: less_Suc_eq)
    moreover have "closing_ok ?st" using base(4) False by (simp add: closing_ok_def fields)
    ultimately have "base_ok ?st" by (simp add: base_ok_def)
    moreover have "rx_grows st ?st" unfolding rx_grows_def cur' unfolding fields
      using at below [OF order_refl] rl by (auto simp: nth_list_update simp del: executor_at_simps intro: less_imp_le)
    ultimately have "rx_inv h ?st" by (rule base_step_inv [OF inv]) (rule fields)
    then show ?thesis using False by (simp add: executor_created_def Let_def)
  qed
qed

text \<open>\<open>close\<close>.\<close>

lemma closing_step_inv:
  assumes inv: "rx_inv h st" and st': "rx_calls st' = rx_calls st" "rx_promises st' = rx_promises st"
    "rx_executor st' = rx_executor st" "rx_created st' = rx_created st" "rx_reconnect st' = rx_reconnect st"
    "rx_attempts st' = rx_attempts st" "rx_max_retries st' = rx_max_retries st" "set (rx_asked st) \<subseteq> set (rx_asked st')"
    "rx_closed st \<Longrightarrow> rx_closed st'" and closing: "closing_ok st'"
  shows "rx_inv h st'"
proof -
  have base: "base_ok st" using inv by (simp add: rx_inv_def)
  have at: "executor_at st' = executor_at st" by (simp add: executor_at_def fun_eq_iff st')
  have attempt: "attempt_ok st a \<Longrightarrow> attempt_ok st' a" for a
    using st'(9) subsetD [OF st'(8)] by (cases a) (simp_all add: at st'(3) del: executor_at_simps)
  have "promises_ok st'" using base by (simp add: base_ok_def promises_ok_def at st' del: executor_at_simps)
  moreover have "attempts_ok st'"
    using base attempt unfolding base_ok_def attempts_ok_def at st'(3,5,6) by blast
  moreover have "asked_ok st'" using base st'(8) unfolding base_ok_def asked_ok_def at st'(3,4) by blast
  ultimately have "base_ok st'" using closing by (simp add: base_ok_def)
  moreover have "rx_grows st st'" unfolding rx_grows_def at by (simp add: st')
  ultimately show ?thesis by (rule base_step_inv [OF inv]) (rule st')
qed

lemma current_not_pending: "promises_ok st \<Longrightarrow> current st = Some x \<Longrightarrow> rx_promises st ! 0 \<noteq> Pending"
proof (cases "rx_executor st = 0")
  case False
  assume "promises_ok st" "current st = Some x"
  then have "executor_at st 0 = None \<longrightarrow> rx_executor st = 0" by (simp add: promises_ok_def)
  with False have "executor_at st 0 \<noteq> None" by simp
  then show ?thesis by (auto simp: executor_at_def)
qed auto

lemma first_failed_inv:
  assumes inv: "rx_inv h st" and first: "rx_promises st ! 0 = Pending"
  shows "rx_inv h (st\<lparr>rx_promises := (rx_promises st)[0 := Rejected e]\<rparr>)" (is "rx_inv h ?st")
proof -
  have base: "base_ok st" using inv by (simp add: rx_inv_def)
  have none: "executor_at st 0 = None" using first by (simp add: executor_at_def)
  then have zero: "rx_executor st = 0" "rx_created st = 0" "length (rx_promises st) = 1"
    using base by (auto simp: base_ok_def promises_ok_def)
  have at: "executor_at ?st 0 = None" using zero by (simp add: executor_at_def)
  have no_attempt: "rx_reconnect st = None"
  proof (cases "rx_reconnect st")
    case (Some r)
    then have "attempt_ok st (rx_attempts st ! r)" using base by (simp add: base_ok_def attempts_ok_def)
    then show ?thesis using none zero by (cases "rx_attempts st ! r") auto
  qed simp
  have "promises_ok ?st" using zero at by (auto simp: promises_ok_def)
  moreover have "attempts_ok ?st" using base no_attempt none zero at by (auto simp: base_ok_def attempts_ok_def)
  moreover have "asked_ok ?st" using zero by (simp add: asked_ok_def)
  moreover have "closing_ok ?st"
    using base first by (auto simp: base_ok_def closing_ok_def all_asked_def awaits_def split: rx_closing.splits)
  ultimately have "base_ok ?st" by (simp add: base_ok_def)
  moreover have "rx_grows st ?st" using zero none by (auto simp: rx_grows_def)
  ultimately show ?thesis by (rule base_step_inv [OF inv]) simp
qed

lemma rx_step_inv:
  assumes "rx_step h can_pipeline can_fuse st st'" "rx_inv h st"
  shows "rx_inv h st'"
proof -
  note inv = assms(2)
  have base: "promises_ok st" "attempts_ok st" "asked_ok st" "closing_ok st" using inv by (simp_all add: rx_inv_def base_ok_def)
  have call: "call_ok h st (rx_calls st ! i)" if "i < length (rx_calls st)" for i using inv that by (simp add: rx_inv_def calls_but_def)
  note but = inv_butI [OF inv]
  show ?thesis using assms(1)
  proof cases
    case first_ready
    then show ?thesis using first_ready_inv [OF inv] by simp
  next
    case (first_failed e)
    then show ?thesis using first_failed_inv [OF inv] by simp
  next
    case (called kind)
    then show ?thesis using new_call_inv [OF inv] by simp
  next
    case (ready i p x)
    then show ?thesis using executor_ready_inv [OF inv] by simp
  next
    case (not_ready i p e)
    then show ?thesis using over_inv [OF but] call by (simp add: call_ok_def)
  next
    case (operation_returns i)
    then show ?thesis using over_inv [OF but] call by (simp add: call_ok_def)
  next
    case (operation_fails i e)
    then show ?thesis using failed_inv [OF inv] by simp
  next
    case (observes i p x)
    then have "pc_ok h st (rx_calls st ! i) (ObserveExecutor p)" using call [of i] by (simp add: call_ok_def)
    with observes show ?thesis using observed_inv [OF but, of i p x] by auto
  next
    case (observes_none i p e)
    then have "pc_ok h st (rx_calls st ! i) (ObserveExecutor p)" using call [of i] by (simp add: call_ok_def)
    with observes_none show ?thesis by (simp add: executor_at_def)
  next
    case (replaced i p y)
    then have "pc_ok h st (rx_calls st ! i) (AwaitReplaced p)" using call [of i] by (simp add: call_ok_def)
    then have c: "in_reconnect h st (rx_calls st ! i)" "p \<le> rx_executor st" "rc_executor (rx_calls st ! i) < y"
      using replaced by auto
    have "executor_at st p = Some y" using replaced by simp
    then obtain z where "current st = Some z" "y \<le> z" by (rule at_most_current [OF base(1) c(2)])
    with reconnected_inv [OF but [OF replaced(2)] c(1,3)] replaced(1) show ?thesis by simp
  next
    case (replaced_failed i p e)
    then have "pc_ok h st (rx_calls st ! i) (AwaitReplaced p)" using call [of i] by (simp add: call_ok_def)
    with replaced_failed show ?thesis by (simp add: executor_at_def)
  next
    case (joined i r y)
    then have "pc_ok h st (rx_calls st ! i) (JoinReconnect r)" using call [of i] by (simp add: call_ok_def)
    then have c: "in_reconnect h st (rx_calls st ! i)" "r < length (rx_attempts st)" "rc_executor (rx_calls st ! i) < y"
      using joined by simp_all
    then obtain z where "current st = Some z" "y \<le> z" using base(2) joined(4) unfolding attempts_ok_def by blast
    with reconnected_inv [OF but [OF joined(2)] c(1,3)] joined(1) show ?thesis by simp
  next
    case (joined_failed i r err)
    then have "pc_ok h st (rx_calls st ! i) (JoinReconnect r)" using call [of i] by (simp add: call_ok_def)
    with reconnect_threw_inv [OF but] joined_failed show ?thesis by simp
  next
    case (slept i)
    let ?f = "\<lambda>c :: rx_call. c\<lparr>rc_retries := rc_retries c + 1\<rparr>"
    have "in_reconnect h st (rx_calls st ! i)" "rc_retries (rx_calls st ! i) < rx_max_retries st"
      using call [OF slept(2)] slept(3) by (simp_all add: call_ok_def)
    then have "in_reconnect h st (?f (rx_calls st ! i))" by (auto simp: in_reconnect_def history_ok_def uses_executor_def)
    then show ?thesis
      unfolding slept(1) by (intro begin_reconnect_inv [OF on_call_but [OF but [OF slept(2)]]]) (simp add: slept(2))
  next
    case (sleep_failed i e)
    then show ?thesis using over_inv [OF but] call by (simp add: call_ok_def)
  next
    case (stale_closed r x)
    have "attempt_ok st (Creating x)" using base(2) stale_closed by (auto simp: attempts_ok_def)
    then show ?thesis
      using attempt_step_inv [OF inv stale_closed(2), of _ "Creating x"] stale_closed by simp
  next
    case (stale_close_threw r x e)
    then show ?thesis using attempt_step_inv [OF inv stale_close_threw(2), of _ "ReconnectFailed (Thrown e)"]
      by (simp add: settle_attempt_def)
  next
    case (created r x)
    then show ?thesis using executor_created_inv [OF inv] by simp
  next
    case (not_created r x e)
    then show ?thesis using attempt_step_inv [OF inv not_created(2), of _ "ReconnectFailed (Thrown e)"]
      by (simp add: settle_attempt_def)
  next
    case (new_closed r y)
    then show ?thesis using attempt_step_inv [OF inv new_closed(2), of _ "ReconnectFailed ClientClosed"]
      by (simp add: settle_attempt_def)
  next
    case (new_close_threw r y e)
    then show ?thesis using attempt_step_inv [OF inv new_close_threw(2), of _ "ReconnectFailed (Thrown e)"]
      by (simp add: settle_attempt_def)
  next
    case close_called
    show ?thesis
    proof (cases "rx_closing st = Open")
      case True
      then have "closing_ok st'" using close_called by (simp add: close_call_def closing_ok_def awaits_def)
      then show ?thesis using closing_step_inv [OF inv, of st'] close_called True by (simp add: close_call_def)
    qed (use inv close_called in \<open>simp add: close_call_def\<close>)
  next
    case (close_finds p r x)
    then have x: "current st = Some x" using base(4) by (simp add: closing_ok_def)
    have "rx_promises st ! 0 \<noteq> Pending" by (rule current_not_pending [OF base(1) x])
    then have "closing_ok st'"
      using base(3,4) close_finds x by (auto simp: closing_ok_def all_asked_def awaits_def asked_ok_def)
    then show ?thesis using closing_step_inv [OF inv, of st'] close_finds by auto
  next
    case (close_finds_none p r e)
    then have p: "p = rx_executor st" using base(4) by (simp add: closing_ok_def)
    then have none: "current st = None" using close_finds_none by (simp add: executor_at_def)
    then have zero: "rx_executor st = 0" using base(1) unfolding promises_ok_def by (metis neq0_conv order_refl)
    then have "rx_created st = 0" using base(1) none unfolding promises_ok_def by metis
    then have "closing_ok st'"
      using base(4) close_finds_none p zero by (auto simp: closing_ok_def all_asked_def awaits_def)
    then show ?thesis using closing_step_inv [OF inv, of st'] close_finds_none by simp
  next
    case (executor_closed x r)
    then have "closing_ok st'" using base(4) by (auto simp: closing_ok_def all_asked_def awaits_def)
    then show ?thesis using closing_step_inv [OF inv, of st'] executor_closed by simp
  next
    case (close_over r)
    then have "closing_ok st'" using base(4) by (auto simp: closing_ok_def all_asked_def awaits_def)
    then show ?thesis using closing_step_inv [OF inv, of st'] close_over by simp
  qed
qed

lemma new_executor_inv: "rx_inv h (new_executor m)"
proof -
  have none: "executor_at (new_executor m) 0 = None" by (simp add: new_executor_def executor_at_def)
  have fields: "rx_executor (new_executor m) = 0" "rx_created (new_executor m) = 0" "length (rx_promises (new_executor m)) = 1"
    by (simp_all add: new_executor_def)
  have "promises_ok (new_executor m)"
    by (auto simp: promises_ok_def fields simp del: executor_at_simps) (use none in \<open>metis neq0_conv option.distinct(1)\<close>)
  moreover have "attempts_ok (new_executor m)" "asked_ok (new_executor m)" "closing_ok (new_executor m)"
    by (simp_all add: new_executor_def attempts_ok_def asked_ok_def closing_ok_def)
  ultimately show ?thesis by (simp add: rx_inv_def base_ok_def calls_but_def) (simp add: new_executor_def)
qed

lemma rx_run_inv: "(rx_step h can_pipeline can_fuse)\<^sup>*\<^sup>* (new_executor m) st \<Longrightarrow> rx_inv h st"
  by (induction rule: rtranclp_induct) (use new_executor_inv rx_step_inv in blast)+

section \<open>Properties\<close>

definition total_sends :: "rx_state \<Rightarrow> nat" where
  "total_sends st = sum_list (map (\<lambda>c. length (rc_sends c)) (rx_calls st))"

lemmas call_steps = over_def goto_def loop_head_def pipeline_head_def executor_ready_def reconnected_def reconnect_threw_def
  begin_reconnect_def observed_def operation_failed_def pipeline_failed_def failed_def send_operation_def new_call_def
  settle_attempt_def executor_created_def close_call_def Let_def

lemma max_retries_fixed:
  "rx_step h can_pipeline can_fuse st st' \<Longrightarrow> rx_max_retries st' = rx_max_retries st"
  by (induction rule: rx_step.induct) (simp_all add: call_steps on_call_def split: option.split)

lemma map_list_update_same: "(\<And>c. f (g c) = f c) \<Longrightarrow> map f (xs[i := g (xs ! i)]) = map f xs"
  by (cases "i < length xs") (simp_all add: map_update list_update_same_conv list_update_beyond)

lemma total_on_call: "(\<And>c. rc_sends (f c) = rc_sends c) \<Longrightarrow> total_sends (on_call i f st) = total_sends st"
  using map_list_update_same [of "\<lambda>c. length (rc_sends c)" f] by (simp add: total_sends_def on_call_def)

lemma closed_sends_nothing:
  "rx_step h can_pipeline can_fuse st st' \<Longrightarrow> rx_closed st \<Longrightarrow> total_sends st' = total_sends st"
proof (induction rule: rx_step.induct)
  case (called st kind)
  then show ?case by (simp add: total_sends_def new_call_def Let_def)
qed (simp_all add: call_steps total_on_call, simp_all add: total_sends_def)

text \<open>A replayed operation failed before with an error that says it was not sent.\<close>

fun replay_justified :: "js_heap \<Rightarrow> rx_kind \<Rightarrow> nat \<Rightarrow> bool" where
  "replay_justified h (CommandCall cas) e \<longleftrightarrow> \<not> cas \<and> node_closed (h e) = Some Unsent"
| "replay_justified h ReadOnlyCall e \<longleftrightarrow> (\<exists>f. held_by h e f \<and> node_closed (h f) = Some Unsent)"
| "replay_justified h PipelineCall e \<longleftrightarrow> False"
| "replay_justified h FusedCall e \<longleftrightarrow> False"

lemma reconnectable_justified: "reconnectable h kind e \<Longrightarrow> replay_allowed kind \<Longrightarrow> replay_justified h kind e"
proof (cases kind)
  case ReadOnlyCall
  assume "reconnectable h kind e"
  then have "reconnectable_search h 16 [e] []" by (simp add: ReadOnlyCall isReadOnlyReconnectableClosedConnectionError_def)
  from reconnectable_search_sound [OF this] show ?thesis
    by (auto simp: ReadOnlyCall isReconnectableClosedConnectionError_def intro: held_by.self)
qed (simp_all add: isReconnectableClosedConnectionError_def)

text \<open>C3. Calls are replayed only when that is safe: in any interleaving of calls, reconnections and closing, an
  operation is sent again only after its last attempt failed with a connection that closed before the
  request was sent (read-only calls: the error holds such an error), never for a compare-and-set command
  or a pipeline, each time on a newer executor and at most the configured number of times; and a closed
  client sends nothing more.\<close>

theorem replays_are_safe:
  assumes "(rx_step h can_pipeline can_fuse)\<^sup>*\<^sup>* (new_executor m) st" "i < length (rx_calls st)"
  shows "sorted_wrt (<) (rc_sends (rx_calls st ! i)) \<and> length (rc_sends (rx_calls st ! i)) \<le> Suc m \<and>
    (\<forall>k. Suc k < length (rc_sends (rx_calls st ! i)) \<longrightarrow> k < length (rc_errors (rx_calls st ! i)) \<and>
      replay_justified h (rc_kind (rx_calls st ! i)) (rc_errors (rx_calls st ! i) ! k)) \<and>
    (rx_closed st \<longrightarrow> (\<forall>st'. rx_step h can_pipeline can_fuse st st' \<longrightarrow> total_sends st' = total_sends st))"
proof -
  let ?c = "rx_calls st ! i"
  have inv: "rx_inv h st" using rx_run_inv [OF assms(1)] .
  have max: "rx_max_retries st = m"
    using assms(1) by (induction rule: rtranclp_induct) (simp_all add: new_executor_def max_retries_fixed)
  have H: "history_ok h st ?c" using inv assms(2) by (simp add: rx_inv_def calls_but_def call_ok_def)
  have "replay_justified h (rc_kind ?c) (rc_errors ?c ! k)" if "Suc k < length (rc_sends ?c)" for k
  proof (rule reconnectable_justified)
    show "reconnectable h (rc_kind ?c) (rc_errors ?c ! k)" using H that by (simp add: history_ok_def)
    show "replay_allowed (rc_kind ?c)" using H that by (auto simp: history_ok_def)
  qed
  then show ?thesis
    using H max closed_sends_nothing by (simp add: history_ok_def)
qed

text \<open>C33. No executor is lost: at every moment each executor ever created has been asked to close, except the
  current one; at most one reconnection is under way, so there is never more than one executor in use;
  and when \<open>close\<close> has completed, every executor was asked to close and none is created any more.\<close>

theorem executors_are_closed:
  assumes "(rx_step h can_pipeline can_fuse)\<^sup>*\<^sup>* (new_executor m) st"
  shows "(\<forall>y. y < rx_created st \<longrightarrow> y \<in> set (rx_asked st) \<or> current st = Some y) \<and>
    (\<forall>r. r < length (rx_attempts st) \<and> rx_reconnect st \<noteq> Some r \<longrightarrow> attempt_over (rx_attempts st ! r)) \<and>
    (rx_closing st = Closed \<longrightarrow> set (rx_asked st) \<supseteq> {..<rx_created st} \<and>
      (\<forall>st'. rx_step h can_pipeline can_fuse st st' \<longrightarrow> rx_created st' = rx_created st \<and> rx_closing st' = Closed))"
proof -
  have base: "promises_ok st" "attempts_ok st" "asked_ok st" "closing_ok st"
    using rx_run_inv [OF assms] by (simp_all add: rx_inv_def base_ok_def)
  have stays: "rx_created st' = rx_created st \<and> rx_closing st' = Closed"
    if closed: "rx_closing st = Closed" and step: "rx_step h can_pipeline can_fuse st st'" for st'
  proof -
    have idle: "rx_promises st ! 0 \<noteq> Pending" "rx_reconnect st = None" "rx_closed st"
      using base(4) closed by (simp_all add: closing_ok_def all_asked_def)
    have on_call: "rx_closing (on_call i f st') = rx_closing st'" for i f st' by (simp add: on_call_def)
    show ?thesis using step
      by cases (use idle closed in \<open>simp_all add: call_steps on_call\<close>)
  qed
  show ?thesis using base(2-4) stays
    by (auto simp: attempts_ok_def asked_ok_def closing_ok_def all_asked_def simp del: executor_at_simps)
qed

text \<open>A run: the first connection closes before a request is sent, which is sent again; then the client closes.\<close>

definition unsent_heap :: js_heap where
  "unsent_heap e = \<lparr>node_closed = Some Unsent, node_object = True, node_cause = None, node_raw = None\<rparr>"

definition rx_demo :: "nat \<Rightarrow> rx_state" where
  "rx_demo k =
    (let a = new_executor 1; b = a\<lparr>rx_promises := [Fulfilled 0], rx_created := 1\<rparr>; c = new_call (CommandCall False) b;
      d = executor_ready (\<lambda>_. True) (\<lambda>_. True) 0 0 c; e = failed unsent_heap 0 7 d; f = observed 0 0 (Some 0) e;
      g = f\<lparr>rx_attempts := [Creating 0]\<rparr>; h = executor_created 0 g; i = reconnected 0 1 h
     in [a, b, c, d, e, f, g, h, i] ! k)"

definition rx_replayed :: rx_state where
  "rx_replayed = \<lparr>rx_max_retries = 1, rx_closed = False, rx_closing = Open, rx_promises = [Fulfilled 0, Fulfilled 1],
    rx_executor = 1, rx_attempts = [Reconnected 1], rx_reconnect = None, rx_created = 2, rx_asked = [0],
    rx_calls = [\<lparr>rc_kind = CommandCall False, rc_pc = AwaitOperation, rc_executor = 1, rc_error = 7, rc_retries = 1,
      rc_sends = [0, 1], rc_errors = [7]\<rparr>]\<rparr>"

definition rx_close_demo :: "nat \<Rightarrow> rx_state" where
  "rx_close_demo k =
    (let j = close_call rx_replayed; k1 = j\<lparr>rx_closing := ClosingExecutor 1 None, rx_asked := [0, 1]\<rparr>;
      l = k1\<lparr>rx_closing := AwaitReconnect None\<rparr>; m = l\<lparr>rx_closing := Closed\<rparr> in [rx_replayed, j, k1, l, m] ! k)"

abbreviation rx_demo_step :: "rx_state \<Rightarrow> rx_state \<Rightarrow> bool" where
  "rx_demo_step \<equiv> rx_step unsent_heap (\<lambda>_. True) (\<lambda>_. True)"

lemmas rx_demo_simps = rx_demo_def call_steps on_call_def new_executor_def is_pipeline_def unsent_heap_def
  isReconnectableClosedConnectionError_def numeral_eq_Suc

lemma rx_demo_steps:
  "rx_demo_step (rx_demo 0) (rx_demo 1)" "rx_demo_step (rx_demo 1) (rx_demo 2)" "rx_demo_step (rx_demo 2) (rx_demo 3)"
  "rx_demo_step (rx_demo 3) (rx_demo 4)" "rx_demo_step (rx_demo 4) (rx_demo 5)" "rx_demo_step (rx_demo 5) (rx_demo 6)"
  "rx_demo_step (rx_demo 6) (rx_demo 7)" "rx_demo_step (rx_demo 7) rx_replayed"
proof -
  note intros = rx_step.intros [where h = unsent_heap and can_pipeline = "\<lambda>_. True" and can_fuse = "\<lambda>_. True"]
  show "rx_demo_step (rx_demo 0) (rx_demo 1)" using intros(1) [of "rx_demo 0"] by (simp add: rx_demo_simps)
  show "rx_demo_step (rx_demo 1) (rx_demo 2)" using intros(3) [of "rx_demo 1" "CommandCall False"] by (simp add: rx_demo_simps)
  show "rx_demo_step (rx_demo 2) (rx_demo 3)" using intros(4) [of 0 "rx_demo 2" 0 0] by (simp add: rx_demo_simps)
  show "rx_demo_step (rx_demo 3) (rx_demo 4)" using intros(7) [of 0 "rx_demo 3" 7] by (simp add: rx_demo_simps)
  show "rx_demo_step (rx_demo 4) (rx_demo 5)" using intros(8) [of 0 "rx_demo 4" 0 0] by (simp add: rx_demo_simps)
  show "rx_demo_step (rx_demo 5) (rx_demo 6)" using intros(16) [of "rx_demo 5" 0 0] by (simp add: rx_demo_simps)
  show "rx_demo_step (rx_demo 6) (rx_demo 7)" using intros(18) [of "rx_demo 6" 0 0] by (simp add: rx_demo_simps)
  show "rx_demo_step (rx_demo 7) rx_replayed"
    using intros(12) [of 0 "rx_demo 7" 0 1] by (simp add: rx_demo_simps rx_replayed_def)
qed

lemma rx_close_demo_steps:
  "rx_demo_step rx_replayed (rx_close_demo 1)" "rx_demo_step (rx_close_demo 1) (rx_close_demo 2)"
  "rx_demo_step (rx_close_demo 2) (rx_close_demo 3)" "rx_demo_step (rx_close_demo 3) (rx_close_demo 4)"
proof -
  note intros = rx_step.intros [where h = unsent_heap and can_pipeline = "\<lambda>_. True" and can_fuse = "\<lambda>_. True"]
  note defs = rx_close_demo_def rx_replayed_def close_call_def Let_def numeral_eq_Suc
  show "rx_demo_step rx_replayed (rx_close_demo 1)" using intros(22) [of rx_replayed] by (simp add: rx_close_demo_def Let_def)
  show "rx_demo_step (rx_close_demo 1) (rx_close_demo 2)" using intros(23) [of "rx_close_demo 1" 1 None 1] by (simp add: defs)
  show "rx_demo_step (rx_close_demo 2) (rx_close_demo 3)" using intros(25) [of "rx_close_demo 2" 1 None] by (simp add: defs)
  show "rx_demo_step (rx_close_demo 3) (rx_close_demo 4)" using intros(26) [of "rx_close_demo 3" None] by (simp add: defs)
qed

lemma rx_demo_reached: "rx_demo_step\<^sup>*\<^sup>* (new_executor 1) rx_replayed" "rx_demo_step\<^sup>*\<^sup>* (new_executor 1) (rx_close_demo 4)"
proof -
  have start: "new_executor 1 = rx_demo 0" by (simp add: rx_demo_def Let_def)
  note run = rtranclp.rtrancl_into_rtrancl [where r = rx_demo_step]
  have "rx_demo_step\<^sup>*\<^sup>* (rx_demo 0) (rx_demo 0)" ..
  note run [OF this rx_demo_steps(1)]
  note run [OF this rx_demo_steps(2)]
  note run [OF this rx_demo_steps(3)]
  note run [OF this rx_demo_steps(4)]
  note run [OF this rx_demo_steps(5)]
  note run [OF this rx_demo_steps(6)]
  note run [OF this rx_demo_steps(7)]
  note replayed = run [OF this rx_demo_steps(8)]
  note run [OF this rx_close_demo_steps(1)]
  note run [OF this rx_close_demo_steps(2)]
  note run [OF this rx_close_demo_steps(3)]
  note closed = run [OF this rx_close_demo_steps(4)]
  from replayed closed
  show "rx_demo_step\<^sup>*\<^sup>* (new_executor 1) rx_replayed" "rx_demo_step\<^sup>*\<^sup>* (new_executor 1) (rx_close_demo 4)"
    by (simp_all only: start)
qed

theorem replays_are_safe_witness:
  "rc_sends (rx_calls rx_replayed ! 0) = [0, 1] \<and>
    replay_justified unsent_heap (CommandCall False) (rc_errors (rx_calls rx_replayed ! 0) ! 0)"
proof -
  have c: "length (rx_calls rx_replayed) = 1" "rc_sends (rx_calls rx_replayed ! 0) = [0, 1]"
    "rc_kind (rx_calls rx_replayed ! 0) = CommandCall False"
    by (simp_all add: rx_replayed_def)
  have i: "0 < length (rx_calls rx_replayed)" using c(1) by simp
  have "replay_justified unsent_heap (rc_kind (rx_calls rx_replayed ! 0)) (rc_errors (rx_calls rx_replayed ! 0) ! 0)"
    using replays_are_safe [OF rx_demo_reached(1) i] c(2) by simp
  then show ?thesis unfolding c(3) using c(2) by blast
qed

theorem executors_are_closed_witness:
  "rx_closing (rx_close_demo 4) = Closed \<and> rx_created (rx_close_demo 4) = 2 \<and> {..<2} \<subseteq> set (rx_asked (rx_close_demo 4))"
proof -
  have c: "rx_closing (rx_close_demo 4) = Closed" "rx_created (rx_close_demo 4) = 2"
    by (simp_all add: rx_close_demo_def rx_replayed_def close_call_def Let_def numeral_eq_Suc)
  then have "{..<rx_created (rx_close_demo 4)} \<subseteq> set (rx_asked (rx_close_demo 4))"
    using executors_are_closed [OF rx_demo_reached(2)] by blast
  with c show ?thesis by simp
qed

end
