(* ===== verification/FlowRouting.thy ===== *)
theory FlowRouting
  imports AutoBatchOrdering Topology "HOL-Library.Multiset"
begin

text \<open>
  The routing keys of Flow partitions (\<open>flow-partition-route-cache.ts\<close>, \<open>auto-partition.ts\<close>): a partition made
  by the client names its bucket, any other is hashed with SHA-256 behind a cache of bounded size that
  drops its least recently used entries; and the grouping of keys by route (\<open>topology-routing.ts\<close>).
\<close>

section \<open>SHA-256\<close>

text \<open>The digest of \<open>node:crypto\<close>, as FIPS 180-4 has it.\<close>

fun root_below :: "nat \<Rightarrow> nat \<Rightarrow> nat \<Rightarrow> nat \<Rightarrow> nat" where
  "root_below k n 0 r = r"
| "root_below k n (Suc b) r = root_below k n b (if (r + 2 ^ b) ^ k \<le> n then r + 2 ^ b else r)"

definition small_primes :: "nat \<Rightarrow> nat list" where
  "small_primes bound = filter (\<lambda>p. list_all (\<lambda>d. p mod d \<noteq> 0) [2..<p]) [2..<bound]"

text \<open>The constants are the first 32 fractional bits of the cube roots of the first 64 primes and of
  the square roots of the first 8.\<close>

definition root_fraction :: "nat \<Rightarrow> nat \<Rightarrow> 32 word" where
  "root_fraction k p = of_nat (root_below k (p * 2 ^ (32 * k)) 40 0)"

definition sha_constants :: "32 word list" where
  "sha_constants = map (root_fraction 3) (small_primes 312)"

definition sha_initial :: "32 word list" where
  "sha_initial = map (root_fraction 2) (small_primes 20)"

unbundle bit_operations_syntax

text \<open>The bytes of a word, the most significant first.\<close>

definition word_bytes :: "nat list \<Rightarrow> 'a::len word \<Rightarrow> bytes" where
  "word_bytes shifts w = map (\<lambda>k. ucast (drop_bit k w)) shifts"

definition sha_pad :: "bytes \<Rightarrow> bytes" where
  "sha_pad m = m @ 0x80 # replicate ((119 - length m mod 64) mod 64) 0 @
    word_bytes [56, 48, 40, 32, 24, 16, 8, 0] (of_nat (8 * length m) :: 64 word)"

definition sha_word :: "bytes \<Rightarrow> nat \<Rightarrow> 32 word" where
  "sha_word b i = push_bit 24 (ucast (b ! (4 * i))) OR push_bit 16 (ucast (b ! (4 * i + 1))) OR
    push_bit 8 (ucast (b ! (4 * i + 2))) OR ucast (b ! (4 * i + 3))"

definition sha_schedule :: "bytes \<Rightarrow> 32 word list" where
  "sha_schedule block = fold (\<lambda>t w.
      let x = w ! (t - 15); y = w ! (t - 2);
        s0 = word_rotr 7 x XOR word_rotr 18 x XOR drop_bit 3 x;
        s1 = word_rotr 17 y XOR word_rotr 19 y XOR drop_bit 10 y
      in w @ [w ! (t - 16) + s0 + w ! (t - 7) + s1])
    [16..<64] (map (sha_word block) [0..<16])"

fun sha_round :: "32 word \<Rightarrow> 32 word list \<Rightarrow> 32 word list" where
  "sha_round kw [a, b, c, d, e, f, g, h] =
    (let t1 = h + (word_rotr 6 e XOR word_rotr 11 e XOR word_rotr 25 e) + ((e AND f) XOR (NOT e AND g)) + kw;
         t2 = (word_rotr 2 a XOR word_rotr 13 a XOR word_rotr 22 a) + ((a AND b) XOR (a AND c) XOR (b AND c))
     in [t1 + t2, a, b, c, d + t1, e, f, g])"
| "sha_round kw s = s"

definition sha_compress :: "bytes \<Rightarrow> 32 word list \<Rightarrow> 32 word list" where
  "sha_compress block s = map2 (+) s (fold sha_round (map2 (+) sha_constants (sha_schedule block)) s)"

function sha_blocks :: "bytes \<Rightarrow> 32 word list \<Rightarrow> 32 word list" where
  "sha_blocks m s = (if length m < 64 then s else sha_blocks (drop 64 m) (sha_compress (take 64 m) s))"
  by pat_completeness auto
termination by (relation "measure (length \<circ> fst)") auto

declare sha_blocks.simps [simp del]

definition sha256 :: "bytes \<Rightarrow> bytes" where
  "sha256 m = concat (map (word_bytes [24, 16, 8, 0]) (sha_blocks (sha_pad m) sha_initial))"

text \<open>\<open>digest("base64url")\<close>.\<close>

definition base64url :: "bytes \<Rightarrow> jsstr" where
  "base64url b = map (\<lambda>u. if u = 0x2B then 0x2D else if u = 0x2F then 0x5F else u) (takeWhile (\<lambda>u. u \<noteq> 0x3D) (base64 b))"

section \<open>Partitions\<close>

definition AUTO_PREFIX :: jsstr where
  "AUTO_PREFIX = ascii ''__flow_auto__:''"

definition AUTO_PREFIX_bytes :: bytes where
  "AUTO_PREFIX_bytes = map of_char ''__flow_auto__:''"

definition AUTO_PARTITION_BUCKETS :: "32 word" where
  "AUTO_PARTITION_BUCKETS = 256"

definition autoPartitionKeyForId :: "jsstr \<Rightarrow> jsstr" where
  "autoPartitionKeyForId i = AUTO_PREFIX @ nat_text (unat (crc32_utf8 i 0 (length i) mod AUTO_PARTITION_BUCKETS))"

text \<open>The bucket of an automatic partition: \<open>0|[1-9]\d{0,2}\<close> below 256, of a string and of a buffer.\<close>

definition bucket_text :: "jsstr \<Rightarrow> bool" where
  "bucket_text ds \<longleftrightarrow> ds = [0x30] \<or> ds \<noteq> [] \<and> length ds \<le> 3 \<and> list_all is_digit ds \<and> ds ! 0 \<noteq> 0x30"

definition flowAutoBucket_text :: "jsstr \<Rightarrow> nat option" where
  "flowAutoBucket_text s =
    (let ds = drop (length AUTO_PREFIX) s in
     if take (length AUTO_PREFIX) s = AUTO_PREFIX \<and> bucket_text ds \<and> digits_value ds < 256 then Some (digits_value ds) else None)"

fun bucket_loop :: "bytes \<Rightarrow> nat \<Rightarrow> nat option" where
  "bucket_loop [] bucket = Some bucket"
| "bucket_loop (d # ds) bucket = (if d < 0x30 \<or> 0x39 < d then None else bucket_loop ds (bucket * 10 + unat d - 0x30))"

definition flowAutoBucket_bytes :: "bytes \<Rightarrow> nat option" where
  "flowAutoBucket_bytes v =
    (let n = length AUTO_PREFIX_bytes in
     if length v < n + 1 \<or> n + 3 < length v then None
     else if take n v \<noteq> AUTO_PREFIX_bytes then None
     else if n + 1 < length v \<and> v ! n = 0x30 then None
     else case bucket_loop (drop n v) 0 of None \<Rightarrow> None | Some b \<Rightarrow> if b < 256 then Some b else None)"

definition hashRoute :: "bytes \<Rightarrow> jsstr" where
  "hashRoute v = ascii ''{f:'' @ base64url (sha256 v) @ ascii ''}''"

definition bucket_route :: "nat \<Rightarrow> jsstr" where
  "bucket_route b = ascii ''{fa:'' @ nat_text b @ ascii ''}''"

section \<open>The cache\<close>

definition MAX_CACHEABLE_PARTITION_BYTES :: nat where "MAX_CACHEABLE_PARTITION_BYTES = 4 * 1024"
definition MAX_CACHE_BYTES :: nat where "MAX_CACHE_BYTES = 1 * 1024 * 1024"
definition MAX_CACHE_ENTRIES :: nat where "MAX_CACHE_ENTRIES = 1024"
definition CACHE_ENTRY_OVERHEAD_BYTES :: nat where "CACHE_ENTRY_OVERHEAD_BYTES = 96"

record cache_entry =
  ce_bytes :: nat
  ce_route :: jsstr

text \<open>The entries of the map in their insertion order, the oldest first.\<close>

record route_cache =
  rc_entries :: "(jsstr \<times> cache_entry) list"
  rc_bytes :: int
  rc_hits :: nat
  rc_misses :: nat

definition resetFlowPartitionRouteCache :: route_cache where
  "resetFlowPartitionRouteCache = \<lparr>rc_entries = [], rc_bytes = 0, rc_hits = 0, rc_misses = 0\<rparr>"

definition estimatedEntryBytes :: "jsstr \<Rightarrow> jsstr \<Rightarrow> nat" where
  "estimatedEntryBytes key route = CACHE_ENTRY_OVERHEAD_BYTES + 2 * (length key + length route)"

definition evictOldest :: "route_cache \<Rightarrow> route_cache" where
  "evictOldest c =
    (case rc_entries c of
       [] \<Rightarrow> c
     | (k, e) # rest \<Rightarrow> c\<lparr>rc_entries := rest, rc_bytes := rc_bytes c - int (ce_bytes e)\<rparr>)"

function make_room :: "nat \<Rightarrow> route_cache \<Rightarrow> route_cache" where
  "make_room n c =
    (if MAX_CACHE_ENTRIES \<le> length (rc_entries c) \<or>
        0 < length (rc_entries c) \<and> int MAX_CACHE_BYTES < rc_bytes c + int n
     then make_room n (evictOldest c) else c)"
  by pat_completeness auto
termination
  by (relation "measure (\<lambda>(n, c). length (rc_entries c))")
    (auto simp: evictOldest_def MAX_CACHE_ENTRIES_def split: list.split)

declare make_room.simps [simp del]

definition hashed_route :: "bytes \<Rightarrow> route_cache \<Rightarrow> jsstr \<times> route_cache" where
  "hashed_route v c =
    (if MAX_CACHEABLE_PARTITION_BYTES < length v then (hashRoute v, c)
     else let key = base64 v in
       case map_of (rc_entries c) key of
         Some e \<Rightarrow> (ce_route e, c\<lparr>rc_hits := rc_hits c + 1, rc_entries := AList.delete key (rc_entries c) @ [(key, e)]\<rparr>)
       | None \<Rightarrow>
           let route = hashRoute v; n = estimatedEntryBytes key route;
             c1 = make_room n (c\<lparr>rc_misses := rc_misses c + 1\<rparr>)
           in (route, if n \<le> MAX_CACHE_BYTES
             then c1\<lparr>rc_entries := rc_entries c1 @ [(key, \<lparr>ce_bytes = n, ce_route = route\<rparr>)],
               rc_bytes := rc_bytes c1 + int n\<rparr>
             else c1))"

fun flowLogicalPartitionRoutingKey :: "jsval \<Rightarrow> route_cache \<Rightarrow> jsstr option \<times> route_cache" where
  "flowLogicalPartitionRoutingKey (JStr s) c =
    (case flowAutoBucket_text s of
       Some b \<Rightarrow> (Some (bucket_route b), c)
     | None \<Rightarrow> (case hashed_route (utf8_encode s) c of (r, c1) \<Rightarrow> (Some r, c1)))"
| "flowLogicalPartitionRoutingKey (JBuf v) c =
    (case flowAutoBucket_bytes v of
       Some b \<Rightarrow> (Some (bucket_route b), c)
     | None \<Rightarrow> (case hashed_route v c of (r, c1) \<Rightarrow> (Some r, c1)))"
| "flowLogicalPartitionRoutingKey _ c = (None, c)"

text \<open>A sequence of lookups.\<close>

fun route_all :: "('v \<Rightarrow> route_cache \<Rightarrow> jsstr option \<times> route_cache) \<Rightarrow> 'v list \<Rightarrow> route_cache \<Rightarrow> jsstr option list \<times> route_cache" where
  "route_all f [] c = ([], c)"
| "route_all f (v # vs) c = (case f v c of (r, c1) \<Rightarrow> (case route_all f vs c1 of (rs, c2) \<Rightarrow> (r # rs, c2)))"

section \<open>Strings and buffers\<close>

lemma utf8_encode_ascii_append: "list_all (\<lambda>c. c < 0x80) xs \<Longrightarrow> utf8_encode (xs @ ys) = map ucast xs @ utf8_encode ys"
  using utf8_encode_append_ascii [of _ "[]"] by (induction xs) simp_all

text \<open>The bytes of a string that begin with ASCII begin with the string's own units.\<close>

lemma utf8_encode_ascii_head:
  assumes "utf8_encode s = ucast c # bs" "c < (0x80 :: 16 word)"
  shows "\<exists>ys. s = c # ys \<and> utf8_encode ys = bs"
proof -
  have low: "\<not> 0x80 \<le> (ucast c :: byte)"
    using assms(2) by (simp add: word_less_nat_alt word_le_nat_alt unat_ucast_mod)
  have first: "p < 0x80" if "utf8_of_point p @ rest = ucast c # bs" for p rest
  proof (rule ccontr)
    assume high: "\<not> p < 0x80"
    have "utf8_of_point p \<noteq> []" by (simp add: utf8_of_point_def)
    then have "ucast c \<in> set (utf8_of_point p)" using that by (cases "utf8_of_point p") auto
    with point_bytes_high [OF high] low show False by blast
  qed
  obtain u us where s: "s = u # us" using assms(1) by (cases s) auto
  have not_high: "\<not> is_high u"
  proof
    assume high: "is_high u"
    show False
    proof (cases us)
      case Nil
      then show False using assms(1) high first [where p = "0xFFFD" and rest = "[]"] by (simp add: s)
    next
      case (Cons v vs)
      have "pair_point u v < 0x80 \<Longrightarrow> is_low v \<Longrightarrow> False"
        using high by (simp add: word_less_nat_alt unat_pair_point)
      then show False using assms(1) high Cons first [where p = "pair_point u v"] first [where p = "0xFFFD"] by (auto simp: s split: if_splits)
    qed
  qed
  have not_low: "\<not> is_low u" using assms(1) not_high first [where p = "0xFFFD"] by (auto simp: s)
  have enc: "utf8_of_point (ucast u) @ utf8_encode us = ucast c # bs" using assms(1) not_high not_low by (simp add: s)
  have lt: "(ucast u :: 32 word) < 0x80" by (rule first [OF enc])
  then have "unat u < 0x80" by (simp add: word_less_nat_alt unat_32_16)
  moreover have "(ucast (ucast u :: 32 word) :: byte) = ucast c" "utf8_encode us = bs"
    using enc lt by (simp_all add: utf8_of_point_def)
  ultimately have "u = c" using assms(2) by (simp add: word_unat_eq_iff word_less_nat_alt unat_ucast_mod)
  with s \<open>utf8_encode us = bs\<close> show ?thesis by blast
qed

lemma utf8_encode_ascii_prefix:
  "utf8_encode s = map ucast xs @ bs \<Longrightarrow> list_all (\<lambda>c. c < (0x80 :: 16 word)) xs \<Longrightarrow> \<exists>ys. s = xs @ ys \<and> utf8_encode ys = bs"
proof (induction xs arbitrary: s)
  case (Cons c xs)
  then obtain ys where "s = c # ys" "utf8_encode ys = map ucast xs @ bs"
    using utf8_encode_ascii_head [of s c "map ucast xs @ bs"] by auto
  with Cons.IH [of ys] Cons.prems(2) show ?case by auto
qed simp

lemma auto_prefix: "list_all (\<lambda>c. c < 0x80) AUTO_PREFIX" "map ucast AUTO_PREFIX = AUTO_PREFIX_bytes" "length AUTO_PREFIX = 14"
    "length AUTO_PREFIX_bytes = 14"
  by (simp_all add: AUTO_PREFIX_def AUTO_PREFIX_bytes_def ascii_def)

lemma digit_byte:
  fixes d :: byte
  shows "\<not> (d < 0x30 \<or> 0x39 < d) \<longleftrightarrow> is_digit (ucast d)" "digit_value (ucast d) = unat d - 48"
  by (simp_all add: is_digit_def digit_value_def word_less_nat_alt word_le_nat_alt unat_ucast_mod not_less
      unat_byte [of d, THEN mod_less [OF order.strict_trans2]])

lemma ucast_8_16_8: "ucast (ucast b :: 16 word) = (b :: byte)"
  using unat_byte [of b] by (simp add: word_unat_eq_iff unat_ucast_mod)

lemma ucast_16_8_16: "u < 0x80 \<Longrightarrow> ucast (ucast u :: byte) = (u :: 16 word)"
  by (simp add: word_unat_eq_iff unat_ucast_mod word_less_nat_alt)

lemma zero_byte: "(ucast b :: 16 word) = 0x30 \<longleftrightarrow> b = 0x30" for b :: byte
proof -
  have "unat b < 65536" using unat_byte [of b] by simp
  then show ?thesis by (simp add: word_unat_eq_iff unat_ucast_mod)
qed

lemma digit_ascii: "is_digit u \<Longrightarrow> u < 0x80"
  by (simp add: is_digit_def word_less_nat_alt word_le_nat_alt)

lemma bucket_loop_digits:
  "bucket_loop bs b = (if list_all is_digit (map ucast bs) then Some (foldl (\<lambda>n u. n * 10 + digit_value u) b (map ucast bs)) else None)"
proof (induction bs arbitrary: b)
  case (Cons d ds)
  show ?case
  proof (cases "d < 0x30 \<or> 0x39 < d")
    case True
    then have "\<not> is_digit (ucast d)" using digit_byte(1) [of d] by blast
    then show ?thesis using True by simp
  next
    case False
    then have "b * 10 + unat d - 48 = b * 10 + (unat d - 48)" by (simp add: word_less_nat_alt not_less)
    moreover have "is_digit (ucast d)" using False digit_byte(1) [of d] by blast
    ultimately show ?thesis using False Cons.IH digit_byte(2) [of d] by simp
  qed
qed simp

lemma bucket_text_digits: "bucket_text ds \<Longrightarrow> list_all is_digit ds"
  by (auto simp: bucket_text_def is_digit_def)

lemma bucket_text_iff: "list_all is_digit ds \<Longrightarrow>
    bucket_text ds \<longleftrightarrow> 0 < length ds \<and> length ds \<le> 3 \<and> \<not> (1 < length ds \<and> ds ! 0 = 0x30)"
  by (cases ds rule: list.exhaust; cases "tl ds") (auto simp: bucket_text_def)

lemma auto_bucket_agrees: "flowAutoBucket_bytes (utf8_encode s) = flowAutoBucket_text s"
proof (cases "take 14 (utf8_encode s) = AUTO_PREFIX_bytes")
  case False
  have "take 14 s \<noteq> AUTO_PREFIX"
  proof
    assume "take 14 s = AUTO_PREFIX"
    then have "s = AUTO_PREFIX @ drop 14 s" by (metis append_take_drop_id)
    then have "utf8_encode s = AUTO_PREFIX_bytes @ utf8_encode (drop 14 s)"
      using utf8_encode_ascii_append [OF auto_prefix(1)] auto_prefix(2) by metis
    with False show False using auto_prefix(4) by simp
  qed
  with False show ?thesis by (simp add: flowAutoBucket_bytes_def flowAutoBucket_text_def auto_prefix(3,4) Let_def)
next
  case True
  then have "utf8_encode s = map ucast AUTO_PREFIX @ drop 14 (utf8_encode s)"
    unfolding auto_prefix(2) by (metis append_take_drop_id)
  then obtain ds where s: "s = AUTO_PREFIX @ ds" and ds: "utf8_encode ds = drop 14 (utf8_encode s)"
    using utf8_encode_ascii_prefix auto_prefix(1) by blast
  let ?bs = "drop 14 (utf8_encode s)"
  have len: "length (utf8_encode s) = 14 + length ?bs" and at: "1 < length ?bs \<Longrightarrow> utf8_encode s ! 14 = ?bs ! 0"
    using True auto_prefix(4) by (auto dest: arg_cong [of _ _ length])
  have string_side: "flowAutoBucket_text s = (if bucket_text ds \<and> digits_value ds < 256 then Some (digits_value ds) else None)"
    by (simp add: flowAutoBucket_text_def auto_prefix(3) s Let_def)
  have buffer_side: "flowAutoBucket_bytes (utf8_encode s) =
      (if length ?bs < 1 \<or> 3 < length ?bs then None else if 1 < length ?bs \<and> ?bs ! 0 = 0x30 then None
       else case bucket_loop ?bs 0 of None \<Rightarrow> None | Some b \<Rightarrow> if b < 256 then Some b else None)"
    using True at unfolding flowAutoBucket_bytes_def Let_def auto_prefix(4) len by auto
  show ?thesis
  proof (cases "list_all is_digit (map ucast ?bs :: jsstr)")
    case digits: True
    have "utf8_encode ds = map ucast (map ucast ?bs :: jsstr) @ []" using ds by (simp add: ucast_8_16_8 comp_def)
    moreover have "list_all (\<lambda>c. c < 0x80) (map ucast ?bs :: jsstr)"
      using digits digit_ascii by (auto simp: list_all_iff)
    ultimately obtain ys where "ds = map ucast ?bs @ ys" "utf8_encode ys = []" using utf8_encode_ascii_prefix by blast
    then have same: "ds = map ucast ?bs" by simp
    have zero: "?bs ! 0 = 0x30 \<longleftrightarrow> ds ! 0 = 0x30" if "1 < length ?bs"
    proof -
      have "ds ! 0 = ucast (?bs ! 0)" using that by (simp add: same)
      then show ?thesis by (simp only: zero_byte)
    qed
    have lens: "length ds = length ?bs" by (simp add: same)
    have "bucket_text ds \<longleftrightarrow> \<not> (length ?bs < 1 \<or> 3 < length ?bs) \<and> \<not> (1 < length ?bs \<and> ?bs ! 0 = 0x30)"
      using bucket_text_iff [of ds] digits zero lens unfolding same [symmetric] by auto
    moreover have "bucket_loop ?bs 0 = Some (digits_value ds)"
      using digits by (simp add: bucket_loop_digits digits_value_def same)
    ultimately show ?thesis unfolding string_side buffer_side by auto
  next
    case False
    have "\<not> bucket_text ds"
    proof
      assume "bucket_text ds"
      then have digits: "list_all is_digit ds" by (rule bucket_text_digits)
      then have ascii: "list_all (\<lambda>c. c < 0x80) ds" using digit_ascii by (auto simp: list_all_iff)
      have "?bs = map ucast ds" using utf8_encode_ascii_append [OF ascii, of "[]"] ds by simp
      then have "(map ucast ?bs :: jsstr) = ds" using ascii by (simp add: list_all_iff ucast_16_8_16 map_idI)
      with False digits show False by simp
    qed
    then show ?thesis using False unfolding string_side buffer_side by (simp add: bucket_loop_digits)
  qed
qed

section \<open>The cache answers for the hash\<close>

definition entry_ok :: "jsstr \<times> cache_entry \<Rightarrow> bool" where
  "entry_ok ke \<longleftrightarrow> (\<exists>v. fst ke = base64 v \<and> ce_route (snd ke) = hashRoute v) \<and>
    ce_bytes (snd ke) = estimatedEntryBytes (fst ke) (ce_route (snd ke))"

definition entries_bytes :: "(jsstr \<times> cache_entry) list \<Rightarrow> int" where
  "entries_bytes es = (\<Sum>ke\<leftarrow>es. int (ce_bytes (snd ke)))"

definition cache_ok :: "route_cache \<Rightarrow> bool" where
  "cache_ok c \<longleftrightarrow> distinct (map fst (rc_entries c)) \<and> list_all entry_ok (rc_entries c) \<and>
    rc_bytes c = entries_bytes (rc_entries c) \<and> length (rc_entries c) \<le> MAX_CACHE_ENTRIES \<and> rc_bytes c \<le> int MAX_CACHE_BYTES"

lemma entries_bytes_simps [simp]:
  "entries_bytes [] = 0" "entries_bytes (ke # es) = int (ce_bytes (snd ke)) + entries_bytes es"
  "entries_bytes (es @ fs) = entries_bytes es + entries_bytes fs"
  by (simp_all add: entries_bytes_def)

lemma evict_ok: "cache_ok c \<Longrightarrow> cache_ok (evictOldest c) \<and> set (rc_entries (evictOldest c)) \<subseteq> set (rc_entries c)"
  by (cases "rc_entries c") (auto simp: cache_ok_def evictOldest_def)

lemma make_room_ok:
  "cache_ok c \<Longrightarrow> cache_ok (make_room n c) \<and> set (rc_entries (make_room n c)) \<subseteq> set (rc_entries c) \<and>
    length (rc_entries (make_room n c)) < MAX_CACHE_ENTRIES \<and>
    (rc_entries (make_room n c) = [] \<or> rc_bytes (make_room n c) + int n \<le> int MAX_CACHE_BYTES)"
proof (induction n c rule: make_room.induct)
  case (1 n c)
  show ?case
  proof (cases "MAX_CACHE_ENTRIES \<le> length (rc_entries c) \<or> 0 < length (rc_entries c) \<and> int MAX_CACHE_BYTES < rc_bytes c + int n")
    case True
    have "make_room n c = make_room n (evictOldest c)" by (subst make_room.simps) (simp only: True if_True)
    with 1(1) [OF True] evict_ok [OF 1(2)] show ?thesis by auto
  next
    case False
    have "make_room n c = c" by (subst make_room.simps) (simp only: False if_False)
    with False 1(2) show ?thesis by auto
  qed
qed

lemma delete_bytes:
  "distinct (map fst es) \<Longrightarrow> map_of es k = Some e \<Longrightarrow> entries_bytes (AList.delete k es) + int (ce_bytes e) = entries_bytes es"
proof (induction es)
  case (Cons ke es)
  show ?case
  proof (cases "fst ke = k")
    case True
    then have "k \<notin> fst ` set es" using Cons.prems(1) by auto
    then have "AList.delete k es = es" by (force simp: AList.delete_eq filter_id_conv)
    with True Cons.prems show ?thesis by (cases ke) simp
  next
    case False
    with Cons show ?thesis by (cases ke) auto
  qed
qed simp

lemma delete_length: "map_of es k = Some e \<Longrightarrow> length (AList.delete k es) < length es"
  by (induction es) (auto split: if_splits intro: le_imp_less_Suc length_delete_le)

lemma hashed_route_ok:
  assumes ok: "cache_ok c"
  shows "fst (hashed_route v c) = hashRoute v \<and> cache_ok (snd (hashed_route v c))"
proof (cases "MAX_CACHEABLE_PARTITION_BYTES < length v")
  case True
  then show ?thesis using ok by (simp add: hashed_route_def)
next
  case False
  note O = ok [unfolded cache_ok_def]
  show ?thesis
  proof (cases "map_of (rc_entries c) (base64 v)")
    case (Some e)
    then have mem: "(base64 v, e) \<in> set (rc_entries c)" by (rule map_of_SomeD)
    then have e: "entry_ok (base64 v, e)" using O by (auto simp: list_all_iff)
    then have route: "ce_route e = hashRoute v" by (auto simp: entry_ok_def base64_inj)
    let ?es = "AList.delete (base64 v) (rc_entries c)"
    have sub: "set ?es \<subseteq> set (rc_entries c)" by (auto simp: AList.delete_eq)
    have "distinct (map fst (?es @ [(base64 v, e)]))" using O by (auto simp: delete_keys distinct_removeAll)
    moreover have "list_all entry_ok (?es @ [(base64 v, e)])" using O e sub by (auto simp: list_all_iff)
    moreover have "entries_bytes (?es @ [(base64 v, e)]) = entries_bytes (rc_entries c)"
      using delete_bytes [OF _ Some] O by simp
    moreover have "length (?es @ [(base64 v, e)]) \<le> length (rc_entries c)" using delete_length [OF Some] by simp
    ultimately have "cache_ok (c\<lparr>rc_hits := rc_hits c + 1, rc_entries := ?es @ [(base64 v, e)]\<rparr>)"
      using O by (simp add: cache_ok_def)
    with Some False route show ?thesis by (simp add: hashed_route_def Let_def)
  next
    case None
    let ?c0 = "c\<lparr>rc_misses := rc_misses c + 1\<rparr>" and ?n = "estimatedEntryBytes (base64 v) (hashRoute v)"
    let ?c1 = "make_room ?n ?c0" and ?e = "\<lparr>ce_bytes = ?n, ce_route = hashRoute v\<rparr>"
    have "cache_ok ?c0" using ok by (simp add: cache_ok_def)
    from make_room_ok [OF this, of ?n] have c1: "cache_ok ?c1" "set (rc_entries ?c1) \<subseteq> set (rc_entries c)"
      "length (rc_entries ?c1) < MAX_CACHE_ENTRIES" "rc_entries ?c1 = [] \<or> rc_bytes ?c1 + int ?n \<le> int MAX_CACHE_BYTES" by simp_all
    note C = c1(1) [unfolded cache_ok_def]
    have "base64 v \<notin> fst ` set (rc_entries c)" using None by (simp add: map_of_eq_None_iff)
    then have fresh: "base64 v \<notin> fst ` set (rc_entries ?c1)" using c1(2) by blast
    have "entry_ok (base64 v, ?e)" by (auto simp: entry_ok_def)
    then have "cache_ok (?c1\<lparr>rc_entries := rc_entries ?c1 @ [(base64 v, ?e)], rc_bytes := rc_bytes ?c1 + int ?n\<rparr>)"
      if "?n \<le> MAX_CACHE_BYTES"
      using C c1(3,4) fresh that by (auto simp: cache_ok_def)
    with None False c1(1) show ?thesis by (simp add: hashed_route_def Let_def)
  qed
qed

section \<open>Properties\<close>

text \<open>The route of a partition, without the cache.\<close>

fun partition_route :: "jsval \<Rightarrow> jsstr option" where
  "partition_route (JStr s) = Some (case flowAutoBucket_text s of Some b \<Rightarrow> bucket_route b | None \<Rightarrow> hashRoute (utf8_encode s))"
| "partition_route (JBuf v) = Some (case flowAutoBucket_bytes v of Some b \<Rightarrow> bucket_route b | None \<Rightarrow> hashRoute v)"
| "partition_route _ = None"

lemma lookup_ok:
  "cache_ok c \<Longrightarrow> fst (flowLogicalPartitionRoutingKey v c) = partition_route v \<and> cache_ok (snd (flowLogicalPartitionRoutingKey v c))"
proof -
  assume ok: "cache_ok c"
  show ?thesis
  proof (cases v)
    case (JStr s)
    then show ?thesis using ok hashed_route_ok [OF ok, of "utf8_encode s"]
      by (cases "flowAutoBucket_text s"; cases "hashed_route (utf8_encode s) c") simp_all
  next
    case (JBuf b)
    then show ?thesis using ok hashed_route_ok [OF ok, of b]
      by (cases "flowAutoBucket_bytes b"; cases "hashed_route b c") simp_all
  qed (use ok in simp_all)
qed

lemma route_all_ok:
  assumes "\<And>v c. cache_ok c \<Longrightarrow> fst (f v c) = g v \<and> cache_ok (snd (f v c))"
  shows "cache_ok c \<Longrightarrow> fst (route_all f vs c) = map g vs \<and> cache_ok (snd (route_all f vs c))"
proof (induction vs arbitrary: c)
  case (Cons v vs)
  obtain r c1 where step: "f v c = (r, c1)" by fastforce
  obtain rs c2 where rest: "route_all f vs c1 = (rs, c2)" by fastforce
  from assms [OF Cons.prems, of v] Cons.IH [of c1] show ?case by (simp add: step rest)
qed simp

text \<open>C34. A Flow partition is routed by its bytes alone: for any sequence of lookups, hits, misses and evictions
  included, the cached function returns for each partition what the hash (or the bucket of an automatic
  partition) gives, a string is routed like the buffer of its UTF-8 bytes, and the cache keeps to its
  limits, its byte count being exactly that of its entries.\<close>

theorem route_cache_transparent:
  "fst (route_all flowLogicalPartitionRoutingKey vs resetFlowPartitionRouteCache) = map partition_route vs \<and>
    partition_route (JStr s) = partition_route (JBuf (utf8_encode s)) \<and>
    (let c = snd (route_all flowLogicalPartitionRoutingKey vs resetFlowPartitionRouteCache) in
      length (rc_entries c) \<le> MAX_CACHE_ENTRIES \<and> 0 \<le> rc_bytes c \<and> rc_bytes c \<le> int MAX_CACHE_BYTES \<and>
      rc_bytes c = entries_bytes (rc_entries c) \<and> distinct (map fst (rc_entries c)))"
proof -
  have "cache_ok resetFlowPartitionRouteCache" by (simp add: cache_ok_def resetFlowPartitionRouteCache_def)
  then have all: "fst (route_all flowLogicalPartitionRoutingKey vs resetFlowPartitionRouteCache) = map partition_route vs"
    "cache_ok (snd (route_all flowLogicalPartitionRoutingKey vs resetFlowPartitionRouteCache))"
    using route_all_ok [of flowLogicalPartitionRoutingKey partition_route, OF lookup_ok] by blast+
  have "0 \<le> entries_bytes es" for es by (induction es) simp_all
  with all(2) have "let c = snd (route_all flowLogicalPartitionRoutingKey vs resetFlowPartitionRouteCache) in
      length (rc_entries c) \<le> MAX_CACHE_ENTRIES \<and> 0 \<le> rc_bytes c \<and> rc_bytes c \<le> int MAX_CACHE_BYTES \<and>
      rc_bytes c = entries_bytes (rc_entries c) \<and> distinct (map fst (rc_entries c))"
    by (simp add: cache_ok_def Let_def)
  then show ?thesis using all(1) by (simp add: auto_bucket_agrees)
qed

section \<open>Keys of commands\<close>

definition singleShardKey :: "jsval list \<Rightarrow> jsval option" where
  "singleShardKey keys =
    (case keys of
       [] \<Rightarrow> None
     | first # _ \<Rightarrow>
         (case rmap (\<lambda>k. case as_route_key k of None \<Rightarrow> Inl () | Some r \<Rightarrow> Inr (routing_slot_for_key r)) keys of
            Inl _ \<Rightarrow> None
          | Inr slots \<Rightarrow> if list_all (\<lambda>s. s = slots ! 0) slots then Some first else None))"

definition flowAutoIdRoutingKey :: "jsval \<Rightarrow> jsstr option" where
  "flowAutoIdRoutingKey v =
    (case v of
       JStr s \<Rightarrow> Some (bucket_route (unat (crc32_utf8 s 0 (length s) AND 0xFF)))
     | JBuf b \<Rightarrow> Some (bucket_route (unat (crc32 b AND 0xFF)))
     | _ \<Rightarrow> None)"

definition flowClaimLogicalPartitionRoutingKey :: "jsval \<Rightarrow> route_cache \<Rightarrow> jsstr option \<times> route_cache" where
  "flowClaimLogicalPartitionRoutingKey v c =
    (if as_route_key v = None then (None, c)
     else if command_token v = Some (ascii ''AUTO'') \<or> command_token v = Some (ascii ''ANY'') then (None, c)
     else if command_token v = Some (ascii ''GLOBAL'') then (Some (ascii ''{f}''), c)
     else flowLogicalPartitionRoutingKey v c)"

definition single_shard_partition ::
  "(jsval \<Rightarrow> route_cache \<Rightarrow> jsstr option \<times> route_cache) \<Rightarrow> jsval list \<Rightarrow> route_cache \<Rightarrow> jsval option \<times> route_cache" where
  "single_shard_partition f values c =
    (case route_all f values c of (keys, c1) \<Rightarrow>
      (if None \<in> set keys then None else singleShardKey (map (JStr \<circ> the) keys), c1))"

definition singleShardFlowPartitionKey :: "jsval list \<Rightarrow> route_cache \<Rightarrow> jsval option \<times> route_cache" where
  "singleShardFlowPartitionKey = single_shard_partition flowLogicalPartitionRoutingKey"

definition singleShardFlowClaimPartitionKey :: "jsval list \<Rightarrow> route_cache \<Rightarrow> jsval option \<times> route_cache" where
  "singleShardFlowClaimPartitionKey = single_shard_partition flowClaimLogicalPartitionRoutingKey"

text \<open>A workflow's id and its buffer go to one slot.\<close>

lemma auto_id_same: "flowAutoIdRoutingKey (JStr s) = flowAutoIdRoutingKey (JBuf (utf8_encode s))"
  by (simp add: flowAutoIdRoutingKey_def crc32_utf8_subarray subarray_full)

section \<open>Groups\<close>

record key_group =
  kg_entries :: "(nat \<times> jsval) list"
  kg_route :: routing_route

definition group_key :: "routing_route \<Rightarrow> jsstr" where
  "group_key r = rt_endpoint_key r @ 0 # nat_text (rt_lane r)"

definition add_to_group :: "nat \<times> jsval \<Rightarrow> routing_route \<Rightarrow> (jsstr \<times> key_group) list \<Rightarrow> (jsstr \<times> key_group) list" where
  "add_to_group entry r gs =
    (case map_of gs (group_key r) of
       None \<Rightarrow> gs @ [(group_key r, \<lparr>kg_entries = [entry], kg_route = r\<rparr>)]
     | Some g \<Rightarrow> AList.update (group_key r) (g\<lparr>kg_entries := kg_entries g @ [entry]\<rparr>) gs)"

fun group_loop :: "(jsval \<Rightarrow> 'e + routing_route) \<Rightarrow> nat \<Rightarrow> jsval list \<Rightarrow> (jsstr \<times> key_group) list \<Rightarrow> 'e + key_group list option" where
  "group_loop route_key i [] gs = Inr (Some (map snd gs))"
| "group_loop route_key i (k # ks) gs =
    (if as_route_key k = None then Inr None
     else rbind (route_key k) (\<lambda>r. group_loop route_key (Suc i) ks (add_to_group (i, k) r gs)))"

definition routedKeyGroups :: "jsval list \<Rightarrow> (jsval \<Rightarrow> 'e + routing_route) \<Rightarrow> 'e + key_group list option" where
  "routedKeyGroups keys route_key = (if keys = [] then Inr None else group_loop route_key 0 keys [])"

text \<open>\<open>route_data\<close> gives the route of a command, if it has one.\<close>

fun single_route_loop :: "('c \<Rightarrow> routing_route option) \<Rightarrow> 'c list \<Rightarrow> routing_route option \<Rightarrow> routing_route option" where
  "single_route_loop route_data [] route = route"
| "single_route_loop route_data (c # cs) route =
    (case route_data c of
       None \<Rightarrow> None
     | Some r \<Rightarrow>
         (case route of
            None \<Rightarrow> single_route_loop route_data cs (Some r)
          | Some r0 \<Rightarrow>
              if rt_endpoint_key r0 \<noteq> rt_endpoint_key r \<or> rt_lane r0 \<noteq> rt_lane r then None
              else single_route_loop route_data cs route))"

definition singleRouteForCommands :: "('c \<Rightarrow> routing_route option) \<Rightarrow> 'c list \<Rightarrow> routing_route option" where
  "singleRouteForCommands route_data cs = single_route_loop route_data cs None"

definition route_id :: "routing_route \<Rightarrow> jsstr \<times> nat" where
  "route_id r = (rt_endpoint_key r, rt_lane r)"

lemma single_route_same:
  "single_route_loop route_data cs route = Some r \<Longrightarrow>
    (\<forall>r0. route = Some r0 \<longrightarrow> route_id r0 = route_id r) \<and> (\<forall>c \<in> set cs. \<exists>rc. route_data c = Some rc \<and> route_id rc = route_id r)"
proof (induction route_data cs route rule: single_route_loop.induct)
  case (2 route_data c cs route)
  from "2.prems" obtain rc where rc: "route_data c = Some rc" by (auto split: option.splits)
  show ?case
  proof (cases route)
    case None
    with "2.prems" rc have "single_route_loop route_data cs (Some rc) = Some r" by simp
    from "2.IH"(1) [OF rc None this] rc None show ?thesis by auto
  next
    case (Some r0)
    with "2.prems" rc have same: "\<not> (rt_endpoint_key r0 \<noteq> rt_endpoint_key rc \<or> rt_lane r0 \<noteq> rt_lane rc)"
      and rest: "single_route_loop route_data cs route = Some r" by (auto split: if_splits)
    have "route_id rc = route_id r0" using same by (simp add: route_id_def)
    with "2.IH"(2) [OF rc Some same rest] rc Some show ?thesis by auto
  qed
qed simp

lemma nat_text_no_zero: "0 \<notin> set (nat_text n)"
  using nat_text_digits [of n] by (auto simp: is_digit_def)

lemma group_key_inj: "group_key r = group_key r' \<longleftrightarrow> route_id r = route_id r'"
proof
  assume eq: "group_key r = group_key r'"
  have tail: "takeWhile (\<lambda>u. u \<noteq> 0) (rev (group_key q)) = rev (nat_text (rt_lane q))" for q
  proof -
    have "\<forall>u \<in> set (rev (nat_text (rt_lane q))). u \<noteq> 0" using nat_text_no_zero by auto
    then show ?thesis
      using takeWhile_append2 [of "rev (nat_text (rt_lane q))" "\<lambda>u. u \<noteq> 0" "0 # rev (rt_endpoint_key q)"]
      by (simp add: group_key_def)
  qed
  have "nat_text (rt_lane r) = nat_text (rt_lane r')" using tail [of r] tail [of r'] eq by simp
  moreover from this eq have "rt_endpoint_key r = rt_endpoint_key r'" by (simp add: group_key_def)
  ultimately show "route_id r = route_id r'" by (simp add: route_id_def nat_text_inj)
qed (simp add: group_key_def route_id_def)

definition groups_ok :: "(jsval \<Rightarrow> 'e + routing_route) \<Rightarrow> nat \<Rightarrow> (jsstr \<times> key_group) list \<Rightarrow> bool" where
  "groups_ok route_key i gs \<longleftrightarrow> distinct (map fst gs) \<and> (\<forall>(key, g) \<in> set gs. key = group_key (kg_route g) \<and>
    sorted_wrt (<) (map fst (kg_entries g)) \<and> kg_entries g \<noteq> [] \<and>
    (\<forall>(j, k) \<in> set (kg_entries g). j < i \<and> (\<exists>r. route_key k = Inr r \<and> route_id r = route_id (kg_route g))))"

definition all_entries :: "(jsstr \<times> key_group) list \<Rightarrow> (nat \<times> jsval) multiset" where
  "all_entries gs = mset (concat (map (kg_entries \<circ> snd) gs))"

lemma add_to_group_entries: "all_entries (add_to_group entry r gs) = add_mset entry (all_entries gs)"
proof (cases "map_of gs (group_key r)")
  case None
  then show ?thesis by (simp add: add_to_group_def all_entries_def)
next
  case (Some g)
  have "map_of gs key = Some g \<Longrightarrow> all_entries (AList.update key (g\<lparr>kg_entries := kg_entries g @ [entry]\<rparr>) gs) =
      add_mset entry (all_entries gs)" for key
    by (induction gs) (auto simp: all_entries_def split: if_splits)
  with Some show ?thesis by (simp add: add_to_group_def)
qed

lemma update_subset: "set (AList.update k v al) \<subseteq> insert (k, v) (set al)"
  by (induction al) auto

lemma add_to_group_ok:
  assumes ok: "groups_ok route_key i gs" and r: "route_key k = Inr r"
  shows "groups_ok route_key (Suc i) (add_to_group (i, k) r gs)"
proof (cases "map_of gs (group_key r)")
  case None
  then have "group_key r \<notin> fst ` set gs" by (simp add: map_of_eq_None_iff)
  then show ?thesis using ok r None unfolding groups_ok_def by (fastforce simp: add_to_group_def)
next
  case (Some g)
  let ?g = "g\<lparr>kg_entries := kg_entries g @ [(i, k)]\<rparr>"
  have g: "(group_key r, g) \<in> set gs" using Some by (rule map_of_SomeD)
  have G: "group_key r = group_key (kg_route g)" "sorted_wrt (<) (map fst (kg_entries g))"
    "\<forall>(j, k) \<in> set (kg_entries g). j < i \<and> (\<exists>r. route_key k = Inr r \<and> route_id r = route_id (kg_route g))"
    using ok g unfolding groups_ok_def by blast+
  have new: "\<forall>(j, k') \<in> set (kg_entries ?g). j < Suc i \<and> (\<exists>r. route_key k' = Inr r \<and> route_id r = route_id (kg_route ?g))"
    using G(1,3) r group_key_inj by fastforce
  have sorted: "sorted_wrt (<) (map fst (kg_entries ?g))" using G(2,3) by (fastforce simp: sorted_wrt_append)
  have sub: "set (AList.update (group_key r) ?g gs) \<subseteq> insert (group_key r, ?g) (set gs)" by (rule update_subset)
  have old: "(\<lambda>(key, g). key = group_key (kg_route g) \<and> sorted_wrt (<) (map fst (kg_entries g)) \<and> kg_entries g \<noteq> [] \<and>
      (\<forall>(j, k) \<in> set (kg_entries g). j < Suc i \<and> (\<exists>r. route_key k = Inr r \<and> route_id r = route_id (kg_route g)))) kg"
    if "kg \<in> set gs" for kg
    using ok that unfolding groups_ok_def by (fastforce simp: less_Suc_eq)
  show ?thesis unfolding groups_ok_def add_to_group_def Some option.case
  proof (intro conjI ballI)
    show "distinct (map fst (AList.update (group_key r) ?g gs))" using ok by (simp add: groups_ok_def distinct_update)
  next
    fix kg assume "kg \<in> set (AList.update (group_key r) ?g gs)"
    with sub consider "kg = (group_key r, ?g)" | "kg \<in> set gs" by blast
    then show "case kg of (key, g) \<Rightarrow> key = group_key (kg_route g) \<and> sorted_wrt (<) (map fst (kg_entries g)) \<and> kg_entries g \<noteq> [] \<and>
        (\<forall>(j, k) \<in> set (kg_entries g). j < Suc i \<and> (\<exists>r. route_key k = Inr r \<and> route_id r = route_id (kg_route g)))"
    proof cases
      case 1
      then show ?thesis using G(1) sorted new by simp
    qed (rule old)
  qed
qed

lemma group_loop_ok:
  "group_loop route_key i ks gs = Inr (Some out) \<Longrightarrow> groups_ok route_key i gs \<Longrightarrow>
    \<exists>gs'. out = map snd gs' \<and> groups_ok route_key (i + length ks) gs' \<and>
      all_entries gs' = all_entries gs + mset (zip [i..<i + length ks] ks)"
proof (induction ks arbitrary: i gs)
  case (Cons k ks)
  from Cons.prems(1) obtain r where r: "route_key k = Inr r"
    and rest: "group_loop route_key (Suc i) ks (add_to_group (i, k) r gs) = Inr (Some out)"
    by (auto split: if_splits)
  from Cons.IH [OF rest add_to_group_ok [OF Cons.prems(2) r]] obtain gs' where gs': "out = map snd gs'"
    "groups_ok route_key (Suc i + length ks) gs'"
    "all_entries gs' = all_entries (add_to_group (i, k) r gs) + mset (zip [Suc i..<Suc i + length ks] ks)" by blast
  have "zip [i..<i + length (k # ks)] (k # ks) = (i, k) # zip [Suc i..<Suc i + length ks] ks"
    by (simp add: upt_conv_Cons del: upt_Suc)
  with gs' show ?case by (intro exI [of _ gs']) (simp add: add_to_group_entries)
qed auto

text \<open>C35. A command over many keys is split by route without loss: every key is in exactly one group, in its
  original order and with its position, each key of a group has the route of the group, and no two groups
  share an endpoint and a lane. A batch sent over one route consists of commands of that route.\<close>

theorem key_groups_partition:
  assumes "routedKeyGroups keys route_key = Inr (Some groups)" "singleRouteForCommands route_data cs = Some route"
  shows "mset (concat (map kg_entries groups)) = mset (zip [0..<length keys] keys) \<and>
    list_all (\<lambda>g. sorted_wrt (<) (map fst (kg_entries g)) \<and> kg_entries g \<noteq> [] \<and>
      list_all (\<lambda>(j, k). \<exists>r. route_key k = Inr r \<and> route_id r = route_id (kg_route g)) (kg_entries g)) groups \<and>
    distinct (map (\<lambda>g. route_id (kg_route g)) groups) \<and>
    list_all (\<lambda>c. \<exists>r. route_data c = Some r \<and> route_id r = route_id route) cs"
proof -
  have "group_loop route_key 0 keys [] = Inr (Some groups)" using assms(1) by (auto simp: routedKeyGroups_def split: if_splits)
  then obtain gs where gs: "groups = map snd gs" "groups_ok route_key (length keys) gs"
    "all_entries gs = mset (zip [0..<length keys] keys)"
    using group_loop_ok [of route_key 0 keys "[]" groups] by (auto simp: groups_ok_def all_entries_def)
  have "map fst gs = map (\<lambda>g. group_key (kg_route (snd g))) gs" using gs(2) by (auto simp: groups_ok_def)
  then have "distinct (map (\<lambda>g. group_key (kg_route (snd g))) gs)" using gs(2) by (metis groups_ok_def)
  then have "distinct (map (\<lambda>g. route_id (kg_route g)) groups)"
    unfolding gs(1) distinct_map by (auto simp: inj_on_def group_key_inj)
  moreover have "list_all (\<lambda>g. sorted_wrt (<) (map fst (kg_entries g)) \<and> kg_entries g \<noteq> [] \<and>
      list_all (\<lambda>(j, k). \<exists>r. route_key k = Inr r \<and> route_id r = route_id (kg_route g)) (kg_entries g)) groups"
    using gs(2) unfolding gs(1) groups_ok_def list_all_iff by fastforce
  moreover have "list_all (\<lambda>c. \<exists>r. route_data c = Some r \<and> route_id r = route_id route) cs"
    using single_route_same [OF assms(2) [unfolded singleRouteForCommands_def]] by (simp add: list_all_iff)
  ultimately show ?thesis using gs(3) unfolding gs(1) all_entries_def by simp
qed

definition demo_route :: "nat \<Rightarrow> routing_route" where
  "demo_route lane = \<lparr>rt_shard = 0, rt_lane = lane, rt_endpoint_key = ascii ''n1:6388'',
    rt_endpoint = \<lparr>ep_node = ascii ''n1'', ep_host = ascii ''n1'', ep_port = 6388, ep_tls_port = None\<rparr>, rt_leader = ascii ''n1''\<rparr>"

definition demo_key_route :: "jsval \<Rightarrow> unit + routing_route" where
  "demo_key_route k = Inr (demo_route (if k = JStr [98] then 2 else 1))"

definition demo_groups :: "key_group list" where
  "demo_groups = [\<lparr>kg_entries = [(0, JStr [97]), (2, JStr [99])], kg_route = demo_route 1\<rparr>,
    \<lparr>kg_entries = [(1, JStr [98])], kg_route = demo_route 2\<rparr>]"

lemma demo_groups_routed: "routedKeyGroups [JStr [97], JStr [98], JStr [99]] demo_key_route = Inr (Some demo_groups)"
  by (simp add: routedKeyGroups_def demo_key_route_def add_to_group_def demo_groups_def group_key_inj route_id_def demo_route_def)

lemma demo_single_route: "singleRouteForCommands (\<lambda>_. Some (demo_route 1)) [(), ()] = Some (demo_route 1)"
  by (simp add: singleRouteForCommands_def)

theorem key_groups_partition_witness:
  "mset (concat (map kg_entries demo_groups)) = mset (zip [0..<3] [JStr [97], JStr [98], JStr [99]]) \<and>
    distinct (map (\<lambda>g. route_id (kg_route g)) demo_groups)"
  using key_groups_partition [OF demo_groups_routed demo_single_route] by (simp add: numeral_3_eq_3)

end
