(* ===== verification/JsObject.thy ===== *)
theory JsObject
  imports NumberText "HOL-Library.AList"
begin

text \<open>
  Building plain objects: \<open>setOwnValue\<close> of \<open>src/src/protocol-core.ts\<close> (an own property, whatever its
  name), the spread of one object into another, and \<open>delete\<close>. Own properties are enumerated with the
  array-index names first, in ascending order, then the others in the order they were added.
\<close>

section \<open>Own properties\<close>

type_synonym js_object = "(jsstr \<times> jsval) list"

definition array_index :: "jsstr \<Rightarrow> nat option" where
  "array_index s =
    (if s \<noteq> [] \<and> list_all is_digit s \<and> (s = [0x30] \<or> s ! 0 \<noteq> 0x30) \<and> digits_value s < 2 ^ 32 - 1
     then Some (digits_value s) else None)"

text \<open>Whether a name that is there stays in front of a new one.\<close>

definition stays_before :: "jsstr \<Rightarrow> jsstr \<Rightarrow> bool" where
  "stays_before new old =
    (case array_index new of
       None \<Rightarrow> True
     | Some i \<Rightarrow> (case array_index old of Some j \<Rightarrow> j < i | None \<Rightarrow> False))"

definition set_own :: "js_object \<Rightarrow> jsstr \<Rightarrow> jsval \<Rightarrow> js_object" where
  "set_own target key v =
    (if own key target \<noteq> None then AList.update key v target
     else takeWhile (\<lambda>e. stays_before key (fst e)) target @
       (key, v) # dropWhile (\<lambda>e. stays_before key (fst e)) target)"

abbreviation put :: "js_object \<Rightarrow> string \<Rightarrow> jsval \<Rightarrow> js_object" where
  "put target name v \<equiv> set_own target (ascii name) v"

definition delete_own :: "js_object \<Rightarrow> string \<Rightarrow> js_object" where
  "delete_own target name = AList.delete (ascii name) target"

text \<open>\<open>{ ...target, ...source }\<close>.\<close>

definition spread :: "js_object \<Rightarrow> js_object \<Rightarrow> js_object" where
  "spread target source = fold (\<lambda>(k, v) o'. set_own o' k v) source target"

text \<open>An object literal.\<close>

definition object_of :: "(string \<times> jsval) list \<Rightarrow> js_object" where
  "object_of entries = map (\<lambda>(name, v). (ascii name, v)) entries"

text \<open>\<open>optionalText(value)?.toUpperCase()\<close>: the token an option starts with.\<close>

definition option_token :: "jsval \<Rightarrow> jsstr option" where
  "option_token v = map_option to_upper (optional_text v)"

section \<open>Lemmas\<close>

lemma own_Cons: "own k ((k', v) # kvs) = (if k = k' then Some v else own k kvs)"
  by (simp add: own_def)

lemma own_Nil [simp]: "own k [] = None"
  by (simp add: own_def)

lemma own_append: "own k (xs @ ys) = (case own k xs of None \<Rightarrow> own k ys | Some v \<Rightarrow> Some v)"
  by (simp add: own_def map_add_def split: option.split)

lemma own_None: "own k kvs = None \<longleftrightarrow> k \<notin> set (map fst kvs)"
  by (simp add: own_def map_of_eq_None_iff)

lemma own_insert:
  assumes "own k (xs @ ys) = None"
  shows "own k' (xs @ (k, v) # ys) = (if k' = k then Some v else own k' (xs @ ys))"
  using assms by (auto simp: own_append own_Cons split: option.splits)

lemma own_set_own [simp]: "own k' (set_own target k v) = (if k' = k then Some v else own k' target)"
proof (cases "own k target")
  case None
  let ?p = "\<lambda>e :: jsstr \<times> jsval. stays_before k (fst e)"
  have "own k (takeWhile ?p target @ dropWhile ?p target) = None" using None by simp
  from own_insert [OF this] None show ?thesis by (simp add: set_own_def)
next
  case (Some w)
  then show ?thesis by (auto simp: set_own_def own_def update_conv')
qed

lemma own_key: "k \<in> set (map fst kvs) \<longleftrightarrow> own k kvs \<noteq> None"
  by (simp only: own_None not_not)

lemma keys_set_own: "set (map fst (set_own target k v)) = insert k (set (map fst target))"
  by (rule set_eqI) (simp only: own_key own_set_own insert_iff, simp)

lemma distinct_middle: "distinct (xs @ k # ys) \<longleftrightarrow> k \<notin> set (xs @ ys) \<and> distinct (xs @ ys)"
  by auto

lemma distinct_set_own: "distinct (map fst target) \<Longrightarrow> distinct (map fst (set_own target k v))"
proof (cases "own k target")
  case None
  assume d: "distinct (map fst target)"
  let ?p = "\<lambda>e :: jsstr \<times> jsval. stays_before k (fst e)"
  have "map fst (takeWhile ?p target) @ map fst (dropWhile ?p target) = map fst target"
    by (simp only: map_append [symmetric] takeWhile_dropWhile_id)
  then have "distinct (map fst (takeWhile ?p target) @ k # map fst (dropWhile ?p target))"
    using d None unfolding distinct_middle by (simp only: own_None simp_thms)
  then show ?thesis using None by (simp add: set_own_def)
next
  case (Some w)
  assume "distinct (map fst target)"
  then show ?thesis using Some by (simp add: set_own_def distinct_update)
qed

lemma own_delete: "own k' (delete_own target name) = (if k' = ascii name then None else own k' target)"
  by (simp add: own_def delete_own_def delete_conv')

lemma distinct_delete_own: "distinct (map fst target) \<Longrightarrow> distinct (map fst (delete_own target name))"
  by (simp add: delete_own_def distinct_delete)

lemma own_spread:
  "distinct (map fst source) \<Longrightarrow>
    own k (spread target source) = (case own k source of None \<Rightarrow> own k target | Some v \<Rightarrow> Some v)"
proof (induction source arbitrary: target)
  case (Cons e source)
  obtain k' v' where e: "e = (k', v')" by (cases e)
  from Cons.prems e have "own k' source = None" by (simp add: own_None)
  then show ?case using Cons e by (auto simp: spread_def own_Cons split: option.split)
qed (simp add: spread_def)

lemma distinct_spread: "distinct (map fst target) \<Longrightarrow> distinct (map fst (spread target source))"
  unfolding spread_def by (induction source arbitrary: target) (auto simp: distinct_set_own)

lemma set_alist_update: "set (AList.update k v xs) \<subseteq> insert (k, v) (set xs)"
  by (induction xs) auto

lemma set_set_own: "e \<in> set (set_own target k v) \<Longrightarrow> e = (k, v) \<or> e \<in> set target"
  using set_alist_update [of k v target]
  by (auto simp: set_own_def split: if_splits dest: set_takeWhileD set_dropWhileD)

end
