(* ===== verification/KeyValueCommands.thy ===== *)
theory KeyValueCommands
  imports JsObject CommandExec
begin

text \<open>
  The typed payloads of the key/value commands (\<open>src/src/protocol-kv.ts\<close>). A builder returns a
  command, or \<open>None\<close> (\<open>undefined\<close>) when its arguments have to go through the generic command path,
  or throws.
\<close>

section \<open>Arguments\<close>

definition isBinaryCommandArgument :: "jsval \<Rightarrow> bool" where
  "isBinaryCommandArgument v = (case v of JStr _ \<Rightarrow> True | JBuf _ \<Rightarrow> True | _ \<Rightarrow> False)"

text \<open>An object that is not null.\<close>

definition isDirectKvValueArgument :: "jsval \<Rightarrow> bool" where
  "isDirectKvValueArgument v \<longleftrightarrow> isBinaryCommandArgument v \<or>
    (case v of JU8 _ \<Rightarrow> True | JArr _ \<Rightarrow> True | JObj _ \<Rightarrow> True | JMap _ \<Rightarrow> True | JOther \<Rightarrow> True | _ \<Rightarrow> False)"

definition parsedInteger :: "jsval \<Rightarrow> jsval option" where
  "parsedInteger v =
    (case integer_arg v of Inl _ \<Rightarrow> None | Inr (JBig _) \<Rightarrow> None | Inr parsed \<Rightarrow> Some parsed)"

definition positiveSafeInteger :: "jsval \<Rightarrow> int option" where
  "positiveSafeInteger v =
    (case parsedInteger v of Some (JInt i) \<Rightarrow> if i > 0 then Some i else None | _ \<Rightarrow> None)"

definition parsedNumber :: "jsval \<Rightarrow> jsval option" where
  "parsedNumber v = (case numberArg v of Inl _ \<Rightarrow> None | Inr n \<Rightarrow> Some n)"

definition binaryToken :: "jsval \<Rightarrow> jsstr option" where
  "binaryToken v =
    (case v of JStr s \<Rightarrow> Some (to_upper s) | JBuf b \<Rightarrow> Some (to_upper (utf8_decode b)) | _ \<Rightarrow> None)"

definition max_seconds :: int where
  "max_seconds = MAX_SAFE div 1000"

definition typed :: "string \<Rightarrow> (string \<times> jsval) list \<Rightarrow> protocol_command option" where
  "typed name entries = Some (plain_command (command_opcode name) (JObj (object_of entries)))"

section \<open>SET and MSET\<close>

text \<open>The options of SET; the flags are \<open>expirySeen\<close>, \<open>nxSeen\<close> and \<open>xxSeen\<close>.\<close>

fun set_options :: "bool \<Rightarrow> bool \<Rightarrow> bool \<Rightarrow> js_object \<Rightarrow> jsval list \<Rightarrow> js_object option" where
  "set_options expiry nx xx payload [] = Some payload"
| "set_options expiry nx xx payload (a # rest) =
    (let token = option_token a;
         is = (\<lambda>name. token = Some (ascii name))
     in if is ''EX'' \<or> is ''PX'' \<or> is ''EXAT'' \<or> is ''PXAT'' then
          (case rest of
             [] \<Rightarrow> None
           | b # rest' \<Rightarrow>
               if expiry then None
               else (case positiveSafeInteger b of
                 None \<Rightarrow> None
               | Some i \<Rightarrow>
                   if is ''EX'' \<and> i > max_seconds then None
                   else set_options True nx xx
                     (put payload (if is ''EX'' \<or> is ''PX'' then ''ttl'' else if is ''EXAT'' then ''exat'' else ''pxat'')
                       (JInt (if is ''EX'' then i * 1000 else i))) rest'))
        else if is ''NX'' then (if xx then None else set_options expiry True xx (put payload ''nx'' (JBool True)) rest)
        else if is ''XX'' then (if nx then None else set_options expiry nx True (put payload ''xx'' (JBool True)) rest)
        else if is ''GET'' then set_options expiry nx xx (put payload ''get'' (JBool True)) rest
        else if is ''KEEPTTL'' then
          (if expiry then None else set_options True nx xx (put payload ''keepttl'' (JBool True)) rest)
        else None)"

definition stringSetPayload :: "jsval list \<Rightarrow> js_object option" where
  "stringSetPayload args =
    (if \<not> isBinaryCommandArgument (arg_at args 0) \<or> \<not> isDirectKvValueArgument (arg_at args 1) then None
     else set_options False False False
       (object_of [(''key'', arg_at args 0), (''value'', arg_at args 1)]) (drop 2 args))"

fun key_value_pairs :: "jsval list \<Rightarrow> jsval list option" where
  "key_value_pairs (k # v # rest) =
    (if \<not> isBinaryCommandArgument k \<or> \<not> isDirectKvValueArgument v then None
     else map_option (\<lambda>pairs. JArr [k, v] # pairs) (key_value_pairs rest))"
| "key_value_pairs _ = Some []"

definition typedKeyValuePairs :: "jsval list \<Rightarrow> jsval list option res" where
  "typedKeyValuePairs args =
    (if odd (length args) then Inl (ferric_error ''MSET requires key/value pairs'')
     else Inr (key_value_pairs args))"

section \<open>Locks, compare-and-set, rate limits and computed values\<close>

definition compareAndSwapCommand :: "jsval list \<Rightarrow> protocol_command option" where
  "compareAndSwapCommand args =
    (let n = length args; key = arg_at args 0;
         payload = [(''expected'', arg_at args 1), (''key'', key), (''value'', arg_at args 2)]
     in if \<not> isBinaryCommandArgument key \<or> (n \<noteq> 3 \<and> n \<noteq> 5) then None
        else if n = 5 then
          (if binaryToken (arg_at args 3) \<noteq> Some (ascii ''EX'') then None
           else (case positiveSafeInteger (arg_at args 4) of
               None \<Rightarrow> None
             | Some seconds \<Rightarrow>
                 if seconds > max_seconds then None
                 else typed ''CAS'' (payload @ [(''ttl'', JInt (seconds * 1000))])))
        else typed ''CAS'' payload)"

definition lockCommand :: "string \<Rightarrow> jsval list \<Rightarrow> protocol_command option" where
  "lockCommand name args =
    (if length args \<noteq> 3 \<or> \<not> isBinaryCommandArgument (arg_at args 0) \<or> \<not> isBinaryCommandArgument (arg_at args 1)
     then None
     else (case positiveSafeInteger (arg_at args 2) of
         None \<Rightarrow> None
       | Some ttl \<Rightarrow> typed name [(''key'', arg_at args 0), (''owner'', arg_at args 1), (''ttl_ms'', JInt ttl)]))"

definition rateLimitCommand :: "jsval list \<Rightarrow> protocol_command option" where
  "rateLimitCommand args =
    (let n = length args; key = arg_at args 0 in
     if \<not> isBinaryCommandArgument key \<or> (n \<noteq> 3 \<and> n \<noteq> 4) then None
     else (case (positiveSafeInteger (arg_at args 1), positiveSafeInteger (arg_at args 2)) of
         (Some window, Some limit) \<Rightarrow>
           if n = 4 then
             (case positiveSafeInteger (arg_at args 3) of
                None \<Rightarrow> None
              | Some c \<Rightarrow> typed ''RATELIMIT.ADD''
                  [(''count'', JInt c), (''key'', key), (''max'', JInt limit), (''window_ms'', JInt window)])
           else typed ''RATELIMIT.ADD'' [(''key'', key), (''max'', JInt limit), (''window_ms'', JInt window)]
       | _ \<Rightarrow> None))"

definition fetchOrComputeCommand :: "jsval list \<Rightarrow> protocol_command option" where
  "fetchOrComputeCommand args =
    (let n = length args; key = arg_at args 0 in
     if \<not> isBinaryCommandArgument key \<or> (n \<noteq> 2 \<and> n \<noteq> 3) then None
     else (case positiveSafeInteger (arg_at args 1) of
         None \<Rightarrow> None
       | Some ttl \<Rightarrow>
           if n = 3 \<and> \<not> isBinaryCommandArgument (arg_at args 2) then None
           else map_option (\<lambda>c. c\<lparr>pc_server_block_ms := Some (JInt ttl)\<rparr>) (typed ''FETCH_OR_COMPUTE''
             ((if n = 3 then [(''hint'', arg_at args 2)] else []) @ [(''key'', key), (''ttl_ms'', JInt ttl)]))))"

definition fetchOrComputeResultCommand :: "jsval list \<Rightarrow> protocol_command option res" where
  "fetchOrComputeResultCommand args =
    (if length args \<noteq> 4 \<or> \<not> isBinaryCommandArgument (arg_at args 0) \<or> \<not> isBinaryCommandArgument (arg_at args 1) then
       Inl (ferric_error ''FETCH_OR_COMPUTE_RESULT requires key, ownership token, value, and ttl_ms'')
     else (case positiveSafeInteger (arg_at args 3) of
         None \<Rightarrow> Inl (ferric_error ''FETCH_OR_COMPUTE_RESULT ttl_ms must be positive'')
       | Some ttl \<Rightarrow> Inr (typed ''FETCH_OR_COMPUTE_RESULT''
           [(''key'', arg_at args 0), (''token'', arg_at args 1), (''ttl_ms'', JInt ttl), (''value'', arg_at args 2)])))"

definition fetchOrComputeErrorCommand :: "jsval list \<Rightarrow> protocol_command option res" where
  "fetchOrComputeErrorCommand args =
    (if length args \<noteq> 3 \<or> \<not> isBinaryCommandArgument (arg_at args 0) \<or>
        \<not> isBinaryCommandArgument (arg_at args 1) \<or> \<not> isBinaryCommandArgument (arg_at args 2) then
       Inl (ferric_error ''FETCH_OR_COMPUTE_ERROR requires key, ownership token, and message'')
     else Inr (typed ''FETCH_OR_COMPUTE_ERROR''
       [(''key'', arg_at args 0), (''message'', arg_at args 2), (''token'', arg_at args 1)]))"

section \<open>Hashes, lists, sets and sorted sets\<close>

fun hash_fields :: "js_object \<Rightarrow> jsval list \<Rightarrow> js_object option" where
  "hash_fields props (JStr field # v # rest) =
    (if isBinaryCommandArgument v then hash_fields (set_own props field v) rest else None)"
| "hash_fields props [] = Some props"
| "hash_fields props _ = None"

definition hashSetCommand :: "jsval list \<Rightarrow> protocol_command option" where
  "hashSetCommand args =
    (if \<not> isBinaryCommandArgument (arg_at args 0) \<or> length args < 3 \<or> even (length args) then None
     else (case hash_fields [] (tl args) of
         None \<Rightarrow> None
       | Some props \<Rightarrow> typed ''HSET'' [(''fields'', JObj props), (''key'', arg_at args 0)]))"

definition keyOnlyCommand :: "string \<Rightarrow> jsval list \<Rightarrow> protocol_command option" where
  "keyOnlyCommand name args =
    (if length args = 1 \<and> isBinaryCommandArgument (arg_at args 0) then typed name [(''key'', arg_at args 0)] else None)"

definition binaryFieldsCommand :: "string \<Rightarrow> jsval list \<Rightarrow> string \<Rightarrow> nat \<Rightarrow> protocol_command option" where
  "binaryFieldsCommand name args field n =
    (if length args \<noteq> n \<or> \<not> isBinaryCommandArgument (arg_at args 0) \<or> \<not> isBinaryCommandArgument (arg_at args 1)
     then None
     else typed name [(field, arg_at args 1), (''key'', arg_at args 0)])"

definition binaryListCommand :: "string \<Rightarrow> jsval list \<Rightarrow> string \<Rightarrow> protocol_command option" where
  "binaryListCommand name args field =
    (if \<not> isBinaryCommandArgument (arg_at args 0) \<or> length args < 2 then None
     else if \<not> list_all (\<lambda>v. v = JHole \<or> isBinaryCommandArgument v) (tl args) then None
     else typed name [(field, JArr (tl args)), (''key'', arg_at args 0)])"

definition listPopCommand :: "string \<Rightarrow> jsval list \<Rightarrow> protocol_command option" where
  "listPopCommand name args =
    (let n = length args; key = arg_at args 0 in
     if \<not> isBinaryCommandArgument key \<or> (n \<noteq> 1 \<and> n \<noteq> 2) then None
     else if n = 1 then typed name [(''key'', key)]
     else (case parsedInteger (arg_at args 1) of
         Some (JInt c) \<Rightarrow>
           if c \<le> 0 \<or> c = 1 then None else typed name [(''count'', JInt c), (''key'', key)]
       | _ \<Rightarrow> None))"

definition rangeCommand :: "string \<Rightarrow> jsval list \<Rightarrow> bool \<Rightarrow> protocol_command option" where
  "rangeCommand name args allowWithScores =
    (let n = length args; key = arg_at args 0 in
     if \<not> isBinaryCommandArgument key \<or> (n \<noteq> 3 \<and> (\<not> allowWithScores \<or> n \<noteq> 4)) then None
     else (case (parsedInteger (arg_at args 1), parsedInteger (arg_at args 2)) of
         (Some start, Some stop) \<Rightarrow>
           if n = 4 \<and> binaryToken (arg_at args 3) \<noteq> Some (ascii ''WITHSCORES'') then None
           else typed name ([(''key'', key), (''start'', start), (''stop'', stop)] @
             (if n = 4 then [(''withscores'', JBool True)] else []))
       | _ \<Rightarrow> None))"

fun scored_members :: "jsval list \<Rightarrow> jsval list option" where
  "scored_members (s # m # rest) =
    (case parsedNumber s of
       None \<Rightarrow> None
     | Some score \<Rightarrow>
         if isBinaryCommandArgument m then map_option (\<lambda>items. JArr [score, m] # items) (scored_members rest)
         else None)"
| "scored_members _ = Some []"

definition sortedSetAddCommand :: "jsval list \<Rightarrow> protocol_command option" where
  "sortedSetAddCommand args =
    (if \<not> isBinaryCommandArgument (arg_at args 0) \<or> length args < 3 \<or> even (length args) then None
     else (case scored_members (tl args) of
         None \<Rightarrow> None
       | Some items \<Rightarrow> typed ''ZADD'' [(''items'', JArr items), (''key'', arg_at args 0)]))"

section \<open>Dispatch\<close>

definition collectionProtocolCommand :: "jsstr \<Rightarrow> jsval list \<Rightarrow> protocol_command option res" where
  "collectionProtocolCommand command args =
    (let is = (\<lambda>name. command = ascii name)
     in if is ''CAS'' then Inr (compareAndSwapCommand args)
        else if is ''LOCK'' then Inr (lockCommand ''LOCK'' args)
        else if is ''UNLOCK'' then Inr (binaryFieldsCommand ''UNLOCK'' args ''owner'' 2)
        else if is ''EXTEND'' then Inr (lockCommand ''EXTEND'' args)
        else if is ''RATELIMIT.ADD'' then Inr (rateLimitCommand args)
        else if is ''FETCH_OR_COMPUTE'' then Inr (fetchOrComputeCommand args)
        else if is ''FETCH_OR_COMPUTE_RESULT'' then fetchOrComputeResultCommand args
        else if is ''FETCH_OR_COMPUTE_ERROR'' then fetchOrComputeErrorCommand args
        else if is ''HSET'' then Inr (hashSetCommand args)
        else if is ''HGET'' then Inr (binaryFieldsCommand ''HGET'' args ''field'' 2)
        else if is ''HMGET'' then Inr (binaryListCommand ''HMGET'' args ''fields'')
        else if is ''HGETALL'' then Inr (keyOnlyCommand ''HGETALL'' args)
        else if is ''LPUSH'' then Inr (binaryListCommand ''LPUSH'' args ''values'')
        else if is ''RPUSH'' then Inr (binaryListCommand ''RPUSH'' args ''values'')
        else if is ''LPOP'' then Inr (listPopCommand ''LPOP'' args)
        else if is ''RPOP'' then Inr (listPopCommand ''RPOP'' args)
        else if is ''LRANGE'' then Inr (rangeCommand ''LRANGE'' args False)
        else if is ''SADD'' then Inr (binaryListCommand ''SADD'' args ''members'')
        else if is ''SREM'' then Inr (binaryListCommand ''SREM'' args ''members'')
        else if is ''SMEMBERS'' then Inr (keyOnlyCommand ''SMEMBERS'' args)
        else if is ''SISMEMBER'' then Inr (binaryFieldsCommand ''SISMEMBER'' args ''member'' 2)
        else if is ''ZADD'' then Inr (sortedSetAddCommand args)
        else if is ''ZREM'' then Inr (binaryListCommand ''ZREM'' args ''members'')
        else if is ''ZRANGE'' then Inr (rangeCommand ''ZRANGE'' args True)
        else if is ''ZSCORE'' then Inr (binaryFieldsCommand ''ZSCORE'' args ''member'' 2)
        else Inr None)"

section \<open>Types of the payload fields\<close>

text \<open>What the server is promised about the fields of a typed command: the type of each, and whether
  it is always there.\<close>

datatype field_type = Binary | AnyValue | PositiveInt | SafeInteger | TrueFlag | BinaryList | BinaryMap | ScoredMembers

fun scored_member :: "jsval \<Rightarrow> bool" where
  "scored_member (JArr [score, m]) = (is_finite score \<and> isBinaryCommandArgument m)"
| "scored_member _ = False"

definition conforms :: "jsval \<Rightarrow> field_type \<Rightarrow> bool" where
  "conforms v t =
    (case t of
       Binary \<Rightarrow> isBinaryCommandArgument v
     | AnyValue \<Rightarrow> True
     | PositiveInt \<Rightarrow> (case v of JInt i \<Rightarrow> 0 < i \<and> i \<le> MAX_SAFE | _ \<Rightarrow> False)
     | SafeInteger \<Rightarrow> (case v of JInt i \<Rightarrow> safe_int i | JFloat w \<Rightarrow> w = 0x8000000000000000 | _ \<Rightarrow> False)
     | TrueFlag \<Rightarrow> v = JBool True
     | BinaryList \<Rightarrow> (case v of JArr vs \<Rightarrow> list_all (\<lambda>x. x = JHole \<or> isBinaryCommandArgument x) vs | _ \<Rightarrow> False)
     | BinaryMap \<Rightarrow> (case v of JObj kvs \<Rightarrow> list_all (\<lambda>e. isBinaryCommandArgument (snd e)) kvs \<and> distinct (map fst kvs)
         | _ \<Rightarrow> False)
     | ScoredMembers \<Rightarrow> (case v of JArr vs \<Rightarrow> list_all scored_member vs | _ \<Rightarrow> False))"

definition kv_schema :: "string \<Rightarrow> (string \<times> field_type \<times> bool) list" where
  "kv_schema name =
    (''key'', Binary, True) #
    (if name = ''CAS'' then [(''expected'', AnyValue, True), (''value'', AnyValue, True), (''ttl'', PositiveInt, False)]
     else if name \<in> {''LOCK'', ''EXTEND''} then [(''owner'', Binary, True), (''ttl_ms'', PositiveInt, True)]
     else if name = ''UNLOCK'' then [(''owner'', Binary, True)]
     else if name = ''RATELIMIT.ADD'' then
       [(''count'', PositiveInt, False), (''max'', PositiveInt, True), (''window_ms'', PositiveInt, True)]
     else if name = ''FETCH_OR_COMPUTE'' then [(''hint'', Binary, False), (''ttl_ms'', PositiveInt, True)]
     else if name = ''FETCH_OR_COMPUTE_RESULT'' then
       [(''token'', Binary, True), (''ttl_ms'', PositiveInt, True), (''value'', AnyValue, True)]
     else if name = ''FETCH_OR_COMPUTE_ERROR'' then [(''message'', Binary, True), (''token'', Binary, True)]
     else if name = ''HSET'' then [(''fields'', BinaryMap, True)]
     else if name = ''HGET'' then [(''field'', Binary, True)]
     else if name = ''HMGET'' then [(''fields'', BinaryList, True)]
     else if name \<in> {''LPUSH'', ''RPUSH''} then [(''values'', BinaryList, True)]
     else if name \<in> {''LPOP'', ''RPOP''} then [(''count'', PositiveInt, False)]
     else if name = ''LRANGE'' then [(''start'', SafeInteger, True), (''stop'', SafeInteger, True)]
     else if name = ''ZRANGE'' then
       [(''start'', SafeInteger, True), (''stop'', SafeInteger, True), (''withscores'', TrueFlag, False)]
     else if name \<in> {''SADD'', ''SREM'', ''ZREM''} then [(''members'', BinaryList, True)]
     else if name \<in> {''SISMEMBER'', ''ZSCORE''} then [(''member'', Binary, True)]
     else if name = ''ZADD'' then [(''items'', ScoredMembers, True)]
     else [])"

definition object_conforms :: "js_object \<Rightarrow> (string \<times> field_type \<times> bool) list \<Rightarrow> bool" where
  "object_conforms kvs schema \<longleftrightarrow> distinct (map fst kvs) \<and>
    list_all (\<lambda>(name, t, needed).
      case own (ascii name) kvs of None \<Rightarrow> \<not> needed | Some v \<Rightarrow> conforms v t) schema \<and>
    list_all (\<lambda>e. fst e \<in> set (map (\<lambda>entry. ascii (fst entry)) schema)) kvs"

definition typed_ok :: "string \<Rightarrow> jsval list \<Rightarrow> protocol_command \<Rightarrow> bool" where
  "typed_ok name args c \<longleftrightarrow> pc_opcode c = command_opcode name \<and>
    (\<exists>kvs. pc_payload c = JObj kvs \<and> object_conforms kvs (kv_schema name) \<and>
      own (ascii ''key'') kvs = Some (arg_at args 0))"

section \<open>Lemmas\<close>

lemma own_object_of: "own (ascii name) (object_of entries) = map_of entries name"
  by (induction entries) (auto simp: object_of_def own_Cons)

lemma typed_okI:
  assumes "typed name entries = Some c"
    and "distinct (map fst entries)" "map_of entries ''key'' = Some (arg_at args 0)"
    and "list_all (\<lambda>(f, t, needed). case map_of entries f of None \<Rightarrow> \<not> needed | Some v \<Rightarrow> conforms v t) (kv_schema name)"
    and "set (map fst entries) \<subseteq> set (map fst (kv_schema name))"
  shows "typed_ok name args c"
proof -
  have c: "c = plain_command (command_opcode name) (JObj (object_of entries))"
    using assms(1) by (simp add: typed_def)
  have keys: "map fst (object_of entries) = map ascii (map fst entries)"
    by (simp add: object_of_def case_prod_beta)
  have "inj_on ascii (set (map fst entries))" by (rule inj_onI) simp
  then have "distinct (map fst (object_of entries))"
    unfolding keys distinct_map [of ascii] using assms(2) by blast
  moreover have "list_all (\<lambda>e. fst e \<in> set (map (\<lambda>entry. ascii (fst entry)) (kv_schema name))) (object_of entries)"
    using assms(5) by (force simp: list_all_iff object_of_def)
  ultimately show ?thesis
    using assms(3,4) by (simp add: typed_ok_def c plain_command_def object_conforms_def own_object_of)
qed

lemma parsedInteger_safe: "parsedInteger v = Some n \<Longrightarrow> conforms n SafeInteger"
proof -
  assume "parsedInteger v = Some n"
  then have "integer_arg v = Inr n" "\<forall>i. n \<noteq> JBig i"
    by (auto simp: parsedInteger_def split: sum.splits jsval.splits)
  with integer_arg_Inr [of v n] show ?thesis by (auto simp: conforms_def)
qed

lemma positive_conforms: "positiveSafeInteger v = Some i \<Longrightarrow> conforms (JInt i) PositiveInt"
  using parsedInteger_safe [of v "JInt i"]
  by (auto simp: positiveSafeInteger_def conforms_def safe_int_def split: option.splits jsval.splits if_splits)

lemma typed_fields [simp]: "typed name entries = Some c \<Longrightarrow> pc_opcode c = command_opcode name"
  by (auto simp: typed_def plain_command_def)

lemma compare_and_swap_ok: "compareAndSwapCommand args = Some c \<Longrightarrow> typed_ok ''CAS'' args c"
  by (auto simp: compareAndSwapCommand_def kv_schema_def conforms_def [of _ Binary] conforms_def [of _ AnyValue]
      max_seconds_def Let_def split: if_splits option.splits
      elim!: typed_okI dest: positive_conforms)
    (auto simp: conforms_def positiveSafeInteger_def split: option.splits jsval.splits if_splits)

lemma lock_ok: "lockCommand name args = Some c \<Longrightarrow> name \<in> {''LOCK'', ''EXTEND''} \<Longrightarrow> typed_ok name args c"
  by (auto simp: lockCommand_def kv_schema_def conforms_def [of _ Binary] split: if_splits option.splits
      elim!: typed_okI dest: positive_conforms)

lemma rate_limit_ok: "rateLimitCommand args = Some c \<Longrightarrow> typed_ok ''RATELIMIT.ADD'' args c"
  by (auto simp: rateLimitCommand_def kv_schema_def conforms_def [of _ Binary] Let_def
      split: if_splits option.splits elim!: typed_okI dest: positive_conforms)

lemma binary_fields_ok:
  assumes "binaryFieldsCommand name args field n = Some c"
    and "kv_schema name = [(''key'', Binary, True), (field, Binary, True)]" "field \<noteq> ''key''"
  shows "typed_ok name args c"
  using assms by (auto simp: binaryFieldsCommand_def conforms_def split: if_splits elim!: typed_okI)

lemma binary_list_ok:
  assumes "binaryListCommand name args field = Some c"
    and "kv_schema name = [(''key'', Binary, True), (field, BinaryList, True)]" "field \<noteq> ''key''"
  shows "typed_ok name args c"
  using assms by (auto simp: binaryListCommand_def conforms_def split: if_splits elim!: typed_okI)

lemma key_only_ok:
  assumes "keyOnlyCommand name args = Some c" "kv_schema name = [(''key'', Binary, True)]"
  shows "typed_ok name args c"
  using assms by (auto simp: keyOnlyCommand_def conforms_def split: if_splits elim!: typed_okI)

lemma list_pop_ok: "listPopCommand name args = Some c \<Longrightarrow> name \<in> {''LPOP'', ''RPOP''} \<Longrightarrow> typed_ok name args c"
  by (auto simp: listPopCommand_def kv_schema_def conforms_def [of _ Binary] Let_def
      split: if_splits option.splits jsval.splits elim!: typed_okI)
    (auto simp: conforms_def safe_int_def dest!: parsedInteger_safe)

lemma range_ok:
  assumes "rangeCommand name args scores = Some c" "name = ''LRANGE'' \<and> \<not> scores \<or> name = ''ZRANGE''"
  shows "typed_ok name args c"
  using assms
  by (auto simp: rangeCommand_def kv_schema_def conforms_def [of _ Binary] conforms_def [of _ TrueFlag] Let_def
      split: if_splits option.splits elim!: typed_okI dest: parsedInteger_safe)

lemma typed_ok_block: "typed_ok name args c \<Longrightarrow> typed_ok name args (c\<lparr>pc_server_block_ms := b\<rparr>)"
  by (simp add: typed_ok_def)

lemma fetch_ok: "fetchOrComputeCommand args = Some c \<Longrightarrow> typed_ok ''FETCH_OR_COMPUTE'' args c"
  by (auto simp: fetchOrComputeCommand_def kv_schema_def conforms_def [of _ Binary] Let_def
      split: if_splits option.splits intro!: typed_ok_block elim!: typed_okI dest: positive_conforms)

lemma fetch_result_ok: "fetchOrComputeResultCommand args = Inr (Some c) \<Longrightarrow> typed_ok ''FETCH_OR_COMPUTE_RESULT'' args c"
  by (auto simp: fetchOrComputeResultCommand_def kv_schema_def conforms_def [of _ Binary] conforms_def [of _ AnyValue]
      split: if_splits option.splits elim!: typed_okI dest: positive_conforms)

lemma fetch_error_ok: "fetchOrComputeErrorCommand args = Inr (Some c) \<Longrightarrow> typed_ok ''FETCH_OR_COMPUTE_ERROR'' args c"
  by (auto simp: fetchOrComputeErrorCommand_def kv_schema_def conforms_def [of _ Binary]
      split: if_splits option.splits elim!: typed_okI)

lemma hash_fields_ok:
  "hash_fields props vs = Some props' \<Longrightarrow> conforms (JObj props) BinaryMap \<Longrightarrow> conforms (JObj props') BinaryMap"
proof (induction props vs rule: hash_fields.induct)
  case (1 props field v rest)
  then have "hash_fields (set_own props field v) rest = Some props'" "isBinaryCommandArgument v"
    by (auto split: if_splits)
  moreover have "conforms (JObj (set_own props field v)) BinaryMap"
    using 1(3) \<open>isBinaryCommandArgument v\<close> set_set_own [of _ props field v]
    by (fastforce simp: conforms_def list_all_iff distinct_set_own)
  ultimately show ?case using 1(1) by blast
qed auto

lemma hash_set_ok: "hashSetCommand args = Some c \<Longrightarrow> typed_ok ''HSET'' args c"
  by (auto simp: hashSetCommand_def kv_schema_def conforms_def [of _ Binary]
      split: if_splits option.splits elim!: typed_okI dest!: hash_fields_ok) (simp_all add: conforms_def)

lemma scored_members_ok: "scored_members vs = Some items \<Longrightarrow> list_all scored_member items"
  by (induction vs arbitrary: items rule: scored_members.induct)
    (auto simp: parsedNumber_def numberArg_finite split: option.splits if_splits sum.splits)

lemma sorted_set_add_ok: "sortedSetAddCommand args = Some c \<Longrightarrow> typed_ok ''ZADD'' args c"
  by (auto simp: sortedSetAddCommand_def kv_schema_def conforms_def [of _ Binary] conforms_def [of _ ScoredMembers]
      split: if_splits option.splits elim!: typed_okI dest!: scored_members_ok)


subsection \<open>The options of SET\<close>

text \<open>The options as words, each read on its own, and what a sequence of words means: one lifetime at
  most, and not both conditions.\<close>

datatype set_word = Expires string int | Keep | OnlyNew | OnlyOld | Previous

definition expiry_word :: "jsstr option \<Rightarrow> int \<Rightarrow> set_word option" where
  "expiry_word token i =
    (if token = Some (ascii ''EX'') then (if i > max_seconds then None else Some (Expires ''ttl'' (i * 1000)))
     else if token = Some (ascii ''PX'') then Some (Expires ''ttl'' i)
     else if token = Some (ascii ''EXAT'') then Some (Expires ''exat'' i)
     else Some (Expires ''pxat'' i))"

definition flag_word :: "jsstr option \<Rightarrow> set_word option" where
  "flag_word token =
    (if token = Some (ascii ''NX'') then Some OnlyNew else if token = Some (ascii ''XX'') then Some OnlyOld
     else if token = Some (ascii ''GET'') then Some Previous else if token = Some (ascii ''KEEPTTL'') then Some Keep
     else None)"

definition is_expiry :: "jsstr option \<Rightarrow> bool" where
  "is_expiry token \<longleftrightarrow> token \<in> {Some (ascii ''EX''), Some (ascii ''PX''), Some (ascii ''EXAT''), Some (ascii ''PXAT'')}"

fun set_words :: "jsval list \<Rightarrow> set_word list option" where
  "set_words [] = Some []"
| "set_words (a # rest) =
    (let token = option_token a in
     if is_expiry token then
       (case rest of
          [] \<Rightarrow> None
        | b # rest' \<Rightarrow>
            (case Option.bind (positiveSafeInteger b) (expiry_word token) of
               None \<Rightarrow> None
             | Some w \<Rightarrow> map_option (Cons w) (set_words rest')))
     else (case flag_word token of None \<Rightarrow> None | Some w \<Rightarrow> map_option (Cons w) (set_words rest)))"

fun put_word :: "set_word \<Rightarrow> js_object \<Rightarrow> js_object" where
  "put_word (Expires field i) payload = put payload field (JInt i)"
| "put_word Keep payload = put payload ''keepttl'' (JBool True)"
| "put_word OnlyNew payload = put payload ''nx'' (JBool True)"
| "put_word OnlyOld payload = put payload ''xx'' (JBool True)"
| "put_word Previous payload = put payload ''get'' (JBool True)"

fun lifetime :: "set_word \<Rightarrow> bool" where
  "lifetime (Expires field i) = True"
| "lifetime Keep = True"
| "lifetime w = False"

definition words_ok :: "bool \<Rightarrow> bool \<Rightarrow> bool \<Rightarrow> set_word list \<Rightarrow> bool" where
  "words_ok expiry nx xx ws \<longleftrightarrow>
    (if expiry then 1 else 0) + length (filter lifetime ws) \<le> (1 :: nat) \<and>
    \<not> ((nx \<or> OnlyNew \<in> set ws) \<and> (xx \<or> OnlyOld \<in> set ws))"

lemma words_ok_Cons [simp]:
  "words_ok e n x (Expires f i # ws) \<longleftrightarrow> \<not> e \<and> words_ok True n x ws"
  "words_ok e n x (Keep # ws) \<longleftrightarrow> \<not> e \<and> words_ok True n x ws"
  "words_ok e n x (OnlyNew # ws) \<longleftrightarrow> words_ok e True x ws"
  "words_ok e n x (OnlyOld # ws) \<longleftrightarrow> words_ok e n True ws"
  "words_ok e n x (Previous # ws) \<longleftrightarrow> words_ok e n x ws"
  by (auto simp: words_ok_def)

lemma words_ok_conflict [simp]: "\<not> words_ok e True True ws"
  by (simp add: words_ok_def)

lemma set_options_words:
  "\<not> (n \<and> x) \<Longrightarrow> set_options e n x p opts =
    (case set_words opts of None \<Rightarrow> None
     | Some ws \<Rightarrow> if words_ok e n x ws then Some (fold put_word ws p) else None)"
proof (induction opts arbitrary: e n x p rule: set_words.induct)
  case (2 a rest)
  let ?t = "option_token a"
  show ?case
  proof (cases "is_expiry ?t")
    case True
    show ?thesis
    proof (cases rest)
      case (Cons b rest')
      have names: "?t = Some (ascii ''EX'') \<or> ?t = Some (ascii ''PX'') \<or> ?t = Some (ascii ''EXAT'') \<or> ?t = Some (ascii ''PXAT'')"
        using True by (simp add: is_expiry_def)
      show ?thesis
      proof (cases "Option.bind (positiveSafeInteger b) (expiry_word ?t)")
        case None
        then have "positiveSafeInteger b = None \<or>
            (\<exists>i. positiveSafeInteger b = Some i \<and> ?t = Some (ascii ''EX'') \<and> i > max_seconds)"
          by (cases "positiveSafeInteger b") (auto simp: expiry_word_def split: if_splits)
        then show ?thesis
          using names None True unfolding Cons by (elim disjE exE conjE) (simp_all add: Let_def)
      next
        case (Some w)
        note ih = 2(1) [OF refl True Cons Some, of n x True]
        from Some obtain i where i: "positiveSafeInteger b = Some i" "expiry_word ?t i = Some w"
          by (cases "positiveSafeInteger b") auto
        then show ?thesis
          using names ih 2(3) Some True unfolding Cons
          by (elim disjE; cases "set_words rest'")
            (simp_all add: Let_def expiry_word_def split: if_splits, auto)
      qed
    qed (use True in \<open>auto simp: is_expiry_def Let_def\<close>)
  next
    case False
    show ?thesis
    proof (cases "flag_word ?t")
      case None
      with False show ?thesis by (simp add: is_expiry_def flag_word_def Let_def split: if_splits)
    next
      case (Some w)
      note ih = 2(2) [OF refl False Some]
      from Some have "?t = Some (ascii ''NX'') \<and> w = OnlyNew \<or> ?t = Some (ascii ''XX'') \<and> w = OnlyOld \<or>
          ?t = Some (ascii ''GET'') \<and> w = Previous \<or> ?t = Some (ascii ''KEEPTTL'') \<and> w = Keep"
        by (simp add: flag_word_def split: if_splits)
      then show ?thesis
        using ih [of True x] ih [of n True] ih [of n x] 2(3) Some False
        by (elim disjE conjE; cases "set_words rest") (simp_all add: Let_def)
    qed
  qed
qed (simp add: words_ok_def)

section \<open>Properties\<close>

text \<open>C10. Every typed key/value command is well typed: whatever arguments the dispatcher accepts, the
  command has the opcode of its name and a payload object with the key in front of the arguments, exactly
  the fields the server expects for it, and in each field a value of the promised type: durations and
  counts are positive safe integers, ranges safe integers, scores finite numbers, members binary.\<close>

theorem typed_commands_conform:
  assumes "collectionProtocolCommand (ascii name) args = Inr (Some c)"
  shows "pc_opcode c = command_opcode name \<and> (\<exists>kvs. pc_payload c = JObj kvs \<and>
    object_conforms kvs (kv_schema name) \<and> own (ascii ''key'') kvs = Some (arg_at args 0))"
proof -
  have "typed_ok name args c"
    using assms unfolding collectionProtocolCommand_def Let_def ascii_eq
    by (simp split: if_splits add: compare_and_swap_ok lock_ok rate_limit_ok fetch_ok fetch_result_ok fetch_error_ok
        hash_set_ok key_only_ok list_pop_ok range_ok sorted_set_add_ok binary_fields_ok binary_list_ok kv_schema_def)
  then show ?thesis by (simp add: typed_ok_def)
qed

definition demo_pop :: protocol_command where
  "demo_pop = plain_command (command_opcode ''LPOP'')
    (JObj [(ascii ''count'', JInt 3), (ascii ''key'', JStr (ascii ''k''))])"

lemma demo_pop_built:
  "collectionProtocolCommand (ascii ''LPOP'') [JStr (ascii ''k''), JInt 3] = Inr (Some demo_pop)"
  by (simp add: collectionProtocolCommand_def listPopCommand_def parsedInteger_def integer_arg_def safe_int_def
      isBinaryCommandArgument_def arg_at_def typed_def object_of_def demo_pop_def)

theorem typed_commands_conform_witness:
  "\<exists>kvs. pc_payload demo_pop = JObj kvs \<and> object_conforms kvs (kv_schema ''LPOP'') \<and>
    own (ascii ''key'') kvs = Some (JStr (ascii ''k''))"
  using typed_commands_conform [OF demo_pop_built] by (simp add: arg_at_def)

text \<open>C39. The options of SET: they are accepted exactly when each reads as a word of the grammar (a lifetime
  with a positive safe integer, EX within the range of milliseconds), at most one of them sets the
  lifetime (KEEPTTL included) and NX and XX do not come together; the payload is then the key and the value
  with the fields of the words. Anything else goes through the generic command.\<close>

theorem set_options_grammar:
  "stringSetPayload args =
    (if isBinaryCommandArgument (arg_at args 0) \<and> isDirectKvValueArgument (arg_at args 1) then
       (case set_words (drop 2 args) of
         None \<Rightarrow> None
       | Some ws \<Rightarrow>
           if length (filter lifetime ws) \<le> 1 \<and> \<not> (OnlyNew \<in> set ws \<and> OnlyOld \<in> set ws)
           then Some (fold put_word ws (object_of [(''key'', arg_at args 0), (''value'', arg_at args 1)]))
           else None)
     else None)"
  by (cases "set_words (drop 2 args)") (auto simp: stringSetPayload_def set_options_words words_ok_def)

text \<open>A blank score is the number zero, so that it is encoded as the score 0 instead of being left to the
  generic command, where the server would refuse it.\<close>

lemma blank_score_is_zero:
  "sortedSetAddCommand [JStr k, JStr [], JStr m] =
    typed ''ZADD'' [(''items'', JArr [JArr [JInt 0, JStr m]]), (''key'', JStr k)]"
  using numberArg_blank [of "[]"]
  by (simp add: sortedSetAddCommand_def isBinaryCommandArgument_def arg_at_def parsedNumber_def)

end
