(* ===== verification/FlowOptions.thy ===== *)
theory FlowOptions
  imports JsObject CommandGrammar
begin

text \<open>
  The options of the Flow commands (\<open>src/src/protocol-flow-options.ts\<close>, with
  \<open>src/src/protocol-array-validation.ts\<close> and \<open>src/src/protocol-flow-option-value.ts\<close>): a run of arguments is
  read option by option into the fields of a payload. The cases of the switch are a table from the
  option's name to what it does; \<open>None\<close> is the return of \<open>undefined\<close>, which sends the command through
  the generic path. The nested objects and arrays of a payload are its own, so that updating them in
  place is replacing the field.
\<close>

section \<open>Dense arguments\<close>

definition hasOwnCommandArgument :: "string \<Rightarrow> jsval list \<Rightarrow> nat \<Rightarrow> nat \<Rightarrow> bool res" where
  "hasOwnCommandArgument part args i last_index =
    (if i \<ge> last_index then Inr False
     else if arg_at args i = JHole \<or> i \<ge> length args then Inl (Thrown TypeErr ''arguments must be dense'' [JStr (ascii part)])
     else Inr True)"

definition denseCommandArgumentSlice :: "jsval list \<Rightarrow> nat \<Rightarrow> nat \<Rightarrow> string \<Rightarrow> jsval list res" where
  "denseCommandArgumentSlice args start n option =
    rmap (\<lambda>i. if arg_at args i = JHole \<or> i \<ge> length args
      then Inl (Thrown TypeErr ''values must be dense'' [JStr (ascii option)]) else Inr (args ! i)) [start..<start + n]"

definition denseCommandArgumentTail :: "jsval list \<Rightarrow> nat \<Rightarrow> string \<Rightarrow> jsval list res" where
  "denseCommandArgumentTail args start option = denseCommandArgumentSlice args start (length args - start) option"

text \<open>\<open>if (!hasOwnCommandArgument(...)) return undefined\<close>, then the argument.\<close>

definition with_arg :: "jsval list \<Rightarrow> nat \<Rightarrow> nat \<Rightarrow> (jsval \<Rightarrow> 'a option res) \<Rightarrow> 'a option res" where
  "with_arg args i e f =
    rbind (hasOwnCommandArgument ''Flow options'' args i e) (\<lambda>b. if b then f (args ! i) else Inr None)"

section \<open>Writing fields\<close>

definition putScalar :: "js_object \<Rightarrow> string \<Rightarrow> jsval list \<Rightarrow> nat \<Rightarrow> nat \<Rightarrow> js_object option res" where
  "putScalar payload key args i e = with_arg args i e (\<lambda>v. Inr (Some (put payload key v)))"

definition putNumber :: "js_object \<Rightarrow> string \<Rightarrow> jsval list \<Rightarrow> nat \<Rightarrow> nat \<Rightarrow> js_object option res" where
  "putNumber payload key args i e = with_arg args i e (\<lambda>v.
    rbind (integer_arg v) (\<lambda>n.
    case n of JBig _ \<Rightarrow> Inl (ferric_error ''numeric command argument exceeds the JavaScript safe range'')
    | _ \<Rightarrow> Inr (Some (put payload key n))))"

definition putInteger :: "js_object \<Rightarrow> string \<Rightarrow> jsval list \<Rightarrow> nat \<Rightarrow> nat \<Rightarrow> js_object option res" where
  "putInteger payload key args i e = with_arg args i e (\<lambda>v.
    rbind (integer_arg v) (\<lambda>n. Inr (Some (put payload key n))))"

definition putPositiveOrInfinity :: "js_object \<Rightarrow> string \<Rightarrow> jsval list \<Rightarrow> nat \<Rightarrow> nat \<Rightarrow> js_object option res" where
  "putPositiveOrInfinity payload key args i e = with_arg args i e (\<lambda>v.
    rbind (as_text v) (\<lambda>t.
    if to_upper t = ascii ''INFINITY'' then Inr (Some (put payload key (JStr (ascii ''infinity''))))
    else rbind (integer_arg v) (\<lambda>n. Inr (Some (put payload key n)))))"

text \<open>The value of a flag is optional; the result has the index of the next option.\<close>

definition putOptionalBool :: "js_object \<Rightarrow> string \<Rightarrow> jsval list \<Rightarrow> nat \<Rightarrow> nat \<Rightarrow> (js_object \<times> nat) option res" where
  "putOptionalBool payload key args i e =
    rbind (hasOwnCommandArgument ''Flow options'' args (i + 1) e) (\<lambda>given.
    rbind (if given then is_bool_token (args ! (i + 1)) else Inr False) (\<lambda>token.
    if token then rbind (bool_arg (args ! (i + 1))) (\<lambda>b. Inr (Some (put payload key (JBool b), i + 2)))
    else Inr (Some (put payload key (JBool True), i + 1))))"

text \<open>\<open>ensureObjectField\<close> and \<open>ensureArrayField\<close>, followed by the update of what they return. An object
  that is not plain has no entries of its own to update.\<close>

definition put_entry :: "js_object \<Rightarrow> string \<Rightarrow> jsstr \<Rightarrow> jsval \<Rightarrow> js_object" where
  "put_entry payload field name v =
    (case own (ascii field) payload of
       Some (JObj kvs) \<Rightarrow> put payload field (JObj (set_own kvs name v))
     | Some (JMap _) \<Rightarrow> payload
     | Some JOther \<Rightarrow> payload
     | _ \<Rightarrow> put payload field (JObj (set_own [] name v)))"

definition push_element :: "js_object \<Rightarrow> string \<Rightarrow> jsval \<Rightarrow> js_object" where
  "push_element payload field v =
    (case own (ascii field) payload of
       Some (JArr vs) \<Rightarrow> put payload field (JArr (vs @ [v]))
     | _ \<Rightarrow> put payload field (JArr [v]))"

definition setFlowOptionValue :: "js_object \<Rightarrow> string \<Rightarrow> jsval \<Rightarrow> bool \<Rightarrow> js_object" where
  "setFlowOptionValue payload field v repeated =
    (case own (ascii field) payload of
       Some previous \<Rightarrow>
         if repeated then
           put payload field (JArr ((case previous of JArr vs \<Rightarrow> vs | _ \<Rightarrow> [previous]) @ [v]))
         else put payload field v
     | None \<Rightarrow> put payload field v)"

text \<open>STATE and STATES collect into \<open>states\<close> as soon as there is more than one.\<close>

definition add_states :: "js_object \<Rightarrow> jsval list \<Rightarrow> js_object \<Rightarrow> js_object" where
  "add_states payload states otherwise =
    (case own (ascii ''states'') payload of
       Some (JArr vs) \<Rightarrow> put payload ''states'' (JArr (vs @ states))
     | _ \<Rightarrow>
         (case own (ascii ''state'') payload of
            Some s \<Rightarrow> delete_own (put payload ''states'' (JArr (s # states))) ''state''
          | None \<Rightarrow> otherwise))"

section \<open>The options\<close>

datatype flow_option =
    Scalar string
  | StateOption
  | StatesOption
  | PartitionsOption
  | Text string
  | RepeatedText string
  | Entry string
  | Element string
  | Number string
  | Integer string
  | PositiveOrInfinity string
  | OptionalBool string
  | ValueOption
  | PayloadOption
  | NoPayloadOption

definition flow_options :: "(string \<times> flow_option) list" where
  "flow_options = [
    (''TYPE'', Scalar ''type''), (''STATE'', StateOption), (''STATES'', StatesOption),
    (''PARTITION'', Scalar ''partition_key''), (''PARTITIONS'', PartitionsOption),
    (''PARENT_FLOW_ID'', Scalar ''parent_flow_id''), (''ROOT_FLOW_ID'', Scalar ''root_flow_id''),
    (''CORRELATION_ID'', Scalar ''correlation_id''), (''OWNER_FLOW_ID'', Scalar ''owner_flow_id''),
    (''NAME'', Scalar ''name''), (''GROUP'', Scalar ''group_id''),
    (''WAIT'', Text ''wait''), (''WAIT_STATE'', Text ''wait_state''), (''SUCCESS'', Text ''success''),
    (''FAILURE'', Text ''failure''), (''FROM_STATE'', Text ''from_state''),
    (''ON_CHILD_FAILED'', Text ''on_child_failed''), (''ON_PARENT_CLOSED'', Text ''on_parent_closed''),
    (''SIGNAL'', Text ''signal''), (''IDEMPOTENCY'', Text ''idempotency_key''),
    (''IF_STATE'', RepeatedText ''if_state''), (''TRANSITION_TO'', Text ''transition_to''),
    (''TO_EVENT'', Text ''to_event''), (''EXPECT_STATE'', Text ''expect_state''),
    (''LEASE_TOKEN'', Scalar ''lease_token''), (''RESULT'', Scalar ''result''), (''ERROR'', Scalar ''error''),
    (''REASON'', Scalar ''reason''), (''VALUE'', ValueOption),
    (''ATTRIBUTE'', Entry ''attributes''), (''ATTRIBUTE_MERGE'', Entry ''attributes_merge''),
    (''VALUE_REF'', Entry ''value_refs''), (''STATE_META'', Entry ''state_meta''),
    (''DROP_VALUE'', Element ''drop_values''), (''OVERRIDE_VALUE'', Element ''override_values''),
    (''ATTRIBUTE_DELETE'', Element ''attributes_delete''), (''WORKER'', Scalar ''worker''),
    (''LEASE_MS'', Number ''lease_ms''), (''LIMIT'', Number ''limit''), (''PRIORITY'', Number ''priority''),
    (''NOW'', Number ''now_ms''), (''RUN_AT'', Number ''run_at_ms''),
    (''RETENTION_TTL_MS'', Number ''retention_ttl_ms''), (''MAX_ACTIVE_MS'', PositiveOrInfinity ''max_active_ms''),
    (''TTL'', Number ''ttl_ms''), (''FENCING'', Integer ''fencing_token''), (''BLOCK'', Number ''block_ms''),
    (''BLOCK_MS'', Number ''block_ms''), (''RECLAIM_RATIO'', Number ''reclaim_ratio''),
    (''MAXBYTES'', Number ''payload_max_bytes''), (''VALUE_MAX_BYTES'', Number ''value_max_bytes''),
    (''RETURN'', Scalar ''return''), (''IDEMPOTENT'', OptionalBool ''idempotent''),
    (''INDEPENDENT'', OptionalBool ''independent''), (''RECLAIM_EXPIRED'', OptionalBool ''reclaim_expired''),
    (''INCLUDE_STATE'', OptionalBool ''include_state''), (''FULL'', OptionalBool ''full''),
    (''OVERRIDE'', OptionalBool ''override''), (''PAYLOAD'', PayloadOption), (''NOPAYLOAD'', NoPayloadOption)]"

definition flow_option_of :: "jsstr \<Rightarrow> flow_option option" where
  "flow_option_of token = map_option snd (find (\<lambda>entry. ascii (fst entry) = token) flow_options)"

record option_config =
  oc_allowed :: catalog
  oc_payload_value :: bool
  oc_read_values :: bool
  oc_required :: catalog

definition count_arg :: "jsval \<Rightarrow> int res" where
  "count_arg v = rbind (safe_integer_number_arg v) (\<lambda>n. Inr (case n of JInt c \<Rightarrow> c | _ \<Rightarrow> 0))"

text \<open>\<open>index += n\<close> after a field was written.\<close>

definition advance :: "nat \<Rightarrow> js_object option res \<Rightarrow> (js_object \<times> nat) option res" where
  "advance i r = rbind r (\<lambda>p. Inr (map_option (\<lambda>payload. (payload, i)) p))"

text \<open>The counted list of an option.\<close>

definition counted :: "jsval list \<Rightarrow> nat \<Rightarrow> nat \<Rightarrow> string \<Rightarrow> (jsval list \<Rightarrow> js_object) \<Rightarrow> (js_object \<times> nat) option res" where
  "counted args i e name f =
    with_arg args (i + 1) e (\<lambda>v. rbind (count_arg v) (\<lambda>c.
    if c < 0 \<or> int (i + 2) + c > int e then Inr None
    else rbind (denseCommandArgumentSlice args (i + 2) (nat c) name) (\<lambda>vs.
      Inr (Some (f vs, i + 2 + nat c)))))"

definition entry_option :: "jsval list \<Rightarrow> nat \<Rightarrow> nat \<Rightarrow> js_object \<Rightarrow> string \<Rightarrow> (js_object \<times> nat) option res" where
  "entry_option args i e payload field =
    with_arg args (i + 1) e (\<lambda>name. with_arg args (i + 2) e (\<lambda>v.
    rbind (as_text name) (\<lambda>t. Inr (Some (put_entry payload field t v, i + 3)))))"

fun option_step :: "option_config \<Rightarrow> jsval list \<Rightarrow> nat \<Rightarrow> js_object \<Rightarrow> nat \<Rightarrow> flow_option \<Rightarrow> (js_object \<times> nat) option res"
where
  "option_step cfg args e payload i (Scalar field) = advance (i + 2) (putScalar payload field args (i + 1) e)"
| "option_step cfg args e payload i StateOption =
    with_arg args (i + 1) e (\<lambda>v. Inr (Some (add_states payload [v] (put payload ''state'' v), i + 2)))"
| "option_step cfg args e payload i StatesOption =
    counted args i e ''STATES'' (\<lambda>vs. add_states payload vs (put payload ''states'' (JArr vs)))"
| "option_step cfg args e payload i PartitionsOption =
    counted args i e ''PARTITIONS'' (\<lambda>vs. put payload ''partition_keys'' (JArr vs))"
| "option_step cfg args e payload i (Text field) =
    with_arg args (i + 1) e (\<lambda>v. Inr (Some (setFlowOptionValue payload field v False, i + 2)))"
| "option_step cfg args e payload i (RepeatedText field) =
    with_arg args (i + 1) e (\<lambda>v. Inr (Some (setFlowOptionValue payload field v True, i + 2)))"
| "option_step cfg args e payload i (Entry field) = entry_option args i e payload field"
| "option_step cfg args e payload i (Element field) =
    with_arg args (i + 1) e (\<lambda>v. Inr (Some (push_element payload field v, i + 2)))"
| "option_step cfg args e payload i (Number field) = advance (i + 2) (putNumber payload field args (i + 1) e)"
| "option_step cfg args e payload i (Integer field) = advance (i + 2) (putInteger payload field args (i + 1) e)"
| "option_step cfg args e payload i (PositiveOrInfinity field) =
    advance (i + 2) (putPositiveOrInfinity payload field args (i + 1) e)"
| "option_step cfg args e payload i (OptionalBool field) = putOptionalBool payload field args i e"
| "option_step cfg args e payload i ValueOption =
    (if oc_read_values cfg then
       with_arg args (i + 1) e (\<lambda>v. Inr (Some (push_element payload ''values'' v, i + 2)))
     else entry_option args i e payload ''values'')"
| "option_step cfg args e payload i PayloadOption =
    (if oc_payload_value cfg then advance (i + 2) (putScalar payload ''payload'' args (i + 1) e)
     else Inr (Some (put payload ''payload'' (JBool True), i + 1)))"
| "option_step cfg args e payload i NoPayloadOption = Inr (Some (put payload ''payload'' (JBool False), i + 1))"

section \<open>Reading all the options\<close>

lemma has_own_Inr [simp]:
  "hasOwnCommandArgument part args i e = Inr b \<longleftrightarrow>
    (b \<longleftrightarrow> i < e) \<and> (i < e \<longrightarrow> i < length args \<and> arg_at args i \<noteq> JHole)"
  by (auto simp: hasOwnCommandArgument_def)

lemma with_arg_Inr [simp]:
  "with_arg args i e f = Inr (Some r) \<longleftrightarrow>
    i < e \<and> i < length args \<and> arg_at args i \<noteq> JHole \<and> f (args ! i) = Inr (Some r)"
  by (auto simp: with_arg_def)

lemma advance_Inr [simp]: "advance j r = Inr (Some (p, j')) \<longleftrightarrow> j' = j \<and> r = Inr (Some p)"
  by (cases r) (auto simp: advance_def)

lemma putScalar_Inr [simp]: "putScalar p key args i e = Inr (Some p') \<longleftrightarrow>
    i < e \<and> i < length args \<and> arg_at args i \<noteq> JHole \<and> p' = put p key (args ! i)"
  by (auto simp: putScalar_def)

lemma numeric_puts_advance:
  "putNumber p key args i e = Inr (Some p') \<Longrightarrow> i < e"
  "putInteger p key args i e = Inr (Some p') \<Longrightarrow> i < e"
  "putPositiveOrInfinity p key args i e = Inr (Some p') \<Longrightarrow> i < e"
  by (auto simp: putNumber_def putInteger_def putPositiveOrInfinity_def)

lemma counted_Inr:
  "counted args i e name f = Inr (Some (p', i')) \<longleftrightarrow> (\<exists>c vs. i + 1 < e \<and> i + 1 < length args \<and>
    arg_at args (i + 1) \<noteq> JHole \<and> count_arg (args ! (i + 1)) = Inr (int c) \<and> i + 2 + c \<le> e \<and>
    denseCommandArgumentSlice args (i + 2) c name = Inr vs \<and> p' = f vs \<and> i' = i + 2 + c)"
proof -
  have "\<not> (c < 0 \<or> int (i + 2) + c > int e) \<longleftrightarrow> (\<exists>k. c = int k \<and> i + 2 + k \<le> e)" for c
    by (auto simp: intro!: exI [of _ "nat c"])
  then show ?thesis
    unfolding counted_def with_arg_Inr rbind_eq_Inr by (auto split: if_splits)
qed

lemma entry_option_Inr:
  "entry_option args i e p field = Inr (Some (p', i')) \<longleftrightarrow> i + 2 < e \<and> i + 2 < length args \<and>
    arg_at args (i + 1) \<noteq> JHole \<and> arg_at args (i + 2) \<noteq> JHole \<and> i' = i + 3 \<and>
    (\<exists>t. as_text (args ! (i + 1)) = Inr t \<and> p' = put_entry p field t (args ! (i + 2)))"
  by (auto simp: entry_option_def)

lemma putOptionalBool_Inr:
  assumes "putOptionalBool p key args i e = Inr (Some (p', i'))"
  shows "\<exists>b. p' = put p key (JBool b)" "i' = i + 1 \<or> i' = i + 2 \<and> i + 1 < e"
  using assms by (auto simp: putOptionalBool_def split: if_splits)

lemma option_step_advances:
  assumes "option_step cfg args e p i opt = Inr (Some (p', i'))" "i < e"
  shows "i < i' \<and> i' \<le> e"
  using assms
  by (cases opt) (auto simp: counted_Inr entry_option_Inr dest: numeric_puts_advance putOptionalBool_Inr(2) split: if_splits)

text \<open>The loop; \<open>seen\<close> are the names that were read.\<close>

function flow_loop ::
  "option_config \<Rightarrow> jsval list \<Rightarrow> nat \<Rightarrow> nat \<Rightarrow> jsstr list \<Rightarrow> js_object \<Rightarrow> (js_object \<times> jsstr list) option res"
where
  "flow_loop cfg args e i seen payload =
    (if i < e then
       rbind (hasOwnCommandArgument ''Flow options'' args i e) (\<lambda>_.
       rbind (as_text (args ! i)) (\<lambda>t.
       if \<not> has (oc_allowed cfg) (to_upper t) then Inr None
       else case flow_option_of (to_upper t) of
           None \<Rightarrow> Inr None
         | Some opt \<Rightarrow>
             rbind (option_step cfg args e payload i opt) (\<lambda>r.
             case r of
               None \<Rightarrow> Inr None
             | Some (payload', i') \<Rightarrow> flow_loop cfg args e i' (to_upper t # seen) payload')))
     else Inr (Some (payload, seen)))"
  by pat_completeness auto
termination
  by (relation "measure (\<lambda>(cfg, args, e, i, seen, payload). e - i)")
    (auto dest: option_step_advances)

declare flow_loop.simps [simp del]

definition parseFlowOptions :: "jsval list \<Rightarrow> nat \<Rightarrow> nat \<Rightarrow> option_config \<Rightarrow> js_object option res" where
  "parseFlowOptions args start e cfg =
    rbind (flow_loop cfg args e start [] []) (\<lambda>r.
    Inr (case r of
        None \<Rightarrow> None
      | Some (payload, seen) \<Rightarrow>
          if list_all (\<lambda>name. ascii name \<in> set seen) (oc_required cfg) then Some payload else None))"

section \<open>Types of the fields\<close>

text \<open>What an option may leave in the payload: the field and the type of its value.\<close>

definition is_object :: "jsval \<Rightarrow> bool" where
  "is_object v = (case v of JObj _ \<Rightarrow> True | _ \<Rightarrow> False)"

definition is_array :: "jsval \<Rightarrow> bool" where
  "is_array v = (case v of JArr _ \<Rightarrow> True | _ \<Rightarrow> False)"

definition is_safe_number :: "jsval \<Rightarrow> bool" where
  "is_safe_number v = (case v of JInt i \<Rightarrow> safe_int i | JFloat w \<Rightarrow> w = 0x8000000000000000 | _ \<Rightarrow> False)"

definition is_int64 :: "jsval \<Rightarrow> bool" where
  "is_int64 v = (is_safe_number v \<or> (case v of JBig i \<Rightarrow> MIN_I64 \<le> i \<and> i \<le> MAX_I64 | _ \<Rightarrow> False))"

fun field_matches :: "option_config \<Rightarrow> flow_option \<Rightarrow> jsstr \<Rightarrow> jsval \<Rightarrow> bool" where
  "field_matches cfg (Scalar f) k v = (k = ascii f)"
| "field_matches cfg StateOption k v = (k = ascii ''state'' \<or> k = ascii ''states'' \<and> is_array v)"
| "field_matches cfg StatesOption k v = (k = ascii ''states'' \<and> is_array v)"
| "field_matches cfg PartitionsOption k v = (k = ascii ''partition_keys'' \<and> is_array v)"
| "field_matches cfg (Text f) k v = (k = ascii f)"
| "field_matches cfg (RepeatedText f) k v = (k = ascii f)"
| "field_matches cfg (Entry f) k v = (k = ascii f \<and> is_object v)"
| "field_matches cfg (Element f) k v = (k = ascii f \<and> is_array v)"
| "field_matches cfg (Number f) k v = (k = ascii f \<and> is_safe_number v)"
| "field_matches cfg (Integer f) k v = (k = ascii f \<and> is_int64 v)"
| "field_matches cfg (PositiveOrInfinity f) k v = (k = ascii f \<and> (is_int64 v \<or> v = JStr (ascii ''infinity'')))"
| "field_matches cfg (OptionalBool f) k v = (k = ascii f \<and> (v = JBool True \<or> v = JBool False))"
| "field_matches cfg ValueOption k v =
    (k = ascii ''values'' \<and> (if oc_read_values cfg then is_array v else is_object v))"
| "field_matches cfg PayloadOption k v = (k = ascii ''payload'' \<and> (oc_payload_value cfg \<or> v = JBool True))"
| "field_matches cfg NoPayloadOption k v = (k = ascii ''payload'' \<and> v = JBool False)"

text \<open>Every field comes from an option the command allows, with a value of that option's type.\<close>

definition flow_field_ok :: "option_config \<Rightarrow> jsstr \<times> jsval \<Rightarrow> bool" where
  "flow_field_ok cfg kv \<longleftrightarrow>
    list_ex (\<lambda>(name, opt). name \<in> set (oc_allowed cfg) \<and> field_matches cfg opt (fst kv) (snd kv)) flow_options"

definition flow_payload_ok :: "option_config \<Rightarrow> js_object \<Rightarrow> bool" where
  "flow_payload_ok cfg payload \<longleftrightarrow> distinct (map fst payload) \<and> list_all (flow_field_ok cfg) payload"

text \<open>The field by which an option that was read can be found.\<close>

fun option_present :: "flow_option \<Rightarrow> js_object \<Rightarrow> bool" where
  "option_present (Scalar f) p = (own (ascii f) p \<noteq> None)"
| "option_present StateOption p = (own (ascii ''state'') p \<noteq> None \<or> own (ascii ''states'') p \<noteq> None)"
| "option_present (Text f) p = (own (ascii f) p \<noteq> None)"
| "option_present (Number f) p = (own (ascii f) p \<noteq> None)"
| "option_present (Integer f) p = (own (ascii f) p \<noteq> None)"
| "option_present _ p = True"

definition seen_present :: "jsstr list \<Rightarrow> js_object \<Rightarrow> bool" where
  "seen_present seen p \<longleftrightarrow> (\<forall>t \<in> set seen. case flow_option_of t of None \<Rightarrow> False | Some opt \<Rightarrow> option_present opt p)"

section \<open>Lemmas\<close>

lemma numeric_types:
  "integer_arg v = Inr n \<Longrightarrow> is_int64 n"
  "integer_arg v = Inr n \<Longrightarrow> \<not> (\<exists>i. n = JBig i) \<Longrightarrow> is_safe_number n"
  using integer_arg_Inr [of v n] by (auto simp: is_int64_def is_safe_number_def)

lemma payload_ok_put:
  assumes "flow_payload_ok cfg p" "flow_field_ok cfg (ascii f, v)"
  shows "flow_payload_ok cfg (put p f v)"
  using assms set_set_own [of _ p "ascii f" v]
  by (fastforce simp: flow_payload_ok_def list_all_iff distinct_set_own)

lemma set_delete_own: "set (delete_own p f) \<subseteq> set p"
  by (auto simp: delete_own_def AList.delete_eq)

lemma payload_ok_delete: "flow_payload_ok cfg p \<Longrightarrow> flow_payload_ok cfg (delete_own p f)"
  using set_delete_own [of p f] by (auto simp: flow_payload_ok_def list_all_iff distinct_delete_own)

lemma option_of_in_table:
  assumes "flow_option_of t = Some opt"
  shows "\<exists>name. (name, opt) \<in> set flow_options \<and> t = ascii name"
proof -
  from assms obtain x where x: "find (\<lambda>entry. ascii (fst entry) = t) flow_options = Some x" "snd x = opt"
    by (auto simp: flow_option_of_def)
  then obtain i where "i < length flow_options" "flow_options ! i = x" "ascii (fst x) = t"
    by (auto simp: find_Some_iff)
  then have "x \<in> set flow_options" using nth_mem by blast
  with x(2) \<open>ascii (fst x) = t\<close> show ?thesis by (cases x) auto
qed

lemma field_okI:
  assumes "flow_option_of t = Some opt" "has (oc_allowed cfg) t" "field_matches cfg opt k v"
  shows "flow_field_ok cfg (k, v)"
proof -
  from assms(1) obtain name where n: "(name, opt) \<in> set flow_options" "t = ascii name"
    using option_of_in_table by blast
  with assms(2) have "name \<in> set (oc_allowed cfg)" by simp
  with n assms(3) show ?thesis by (force simp: flow_field_ok_def list_ex_iff)
qed

lemma payload_ok_entry:
  assumes "flow_payload_ok cfg p" "\<forall>kvs. flow_field_ok cfg (ascii f, JObj kvs)"
  shows "flow_payload_ok cfg (put_entry p f name v)"
  using assms by (auto simp: put_entry_def payload_ok_put split: option.split jsval.split)

lemma payload_ok_push:
  assumes "flow_payload_ok cfg p" "\<forall>vs. flow_field_ok cfg (ascii f, JArr vs)"
  shows "flow_payload_ok cfg (push_element p f v)"
  using assms by (auto simp: push_element_def payload_ok_put split: option.split jsval.split)

lemma payload_ok_states:
  assumes "flow_payload_ok cfg p" "\<forall>vs. flow_field_ok cfg (ascii ''states'', JArr vs)" "flow_payload_ok cfg q"
  shows "flow_payload_ok cfg (add_states p vs q)"
  using assms by (auto simp: add_states_def payload_ok_put payload_ok_delete split: option.split jsval.split)

lemma payload_ok_text:
  assumes "flow_payload_ok cfg p" "\<forall>v. flow_field_ok cfg (ascii f, v)"
  shows "flow_payload_ok cfg (setFlowOptionValue p f v b)"
  using assms by (auto simp: setFlowOptionValue_def payload_ok_put split: option.split)

lemma putNumber_ok: "putNumber p f args i e = Inr (Some p') \<Longrightarrow> \<exists>n. p' = put p f n \<and> is_safe_number n"
proof -
  assume "putNumber p f args i e = Inr (Some p')"
  then obtain n where n: "integer_arg (args ! i) = Inr n"
      "(case n of JBig _ \<Rightarrow> Inl (ferric_error ''numeric command argument exceeds the JavaScript safe range'')
        | _ \<Rightarrow> Inr (Some (put p f n))) = Inr (Some p')"
    by (auto simp: putNumber_def)
  then have "p' = put p f n" "\<not> (\<exists>i. n = JBig i)" by (cases n; simp)+
  with numeric_types(2) [OF n(1)] show ?thesis by blast
qed

lemma putInteger_ok: "putInteger p f args i e = Inr (Some p') \<Longrightarrow> \<exists>n. p' = put p f n \<and> is_int64 n"
  using numeric_types(1) by (auto simp: putInteger_def)

lemma putPositiveOrInfinity_ok:
  "putPositiveOrInfinity p f args i e = Inr (Some p') \<Longrightarrow>
    \<exists>n. p' = put p f n \<and> (is_int64 n \<or> n = JStr (ascii ''infinity''))"
  using numeric_types(1) by (auto simp: putPositiveOrInfinity_def split: if_splits)

lemma option_step_ok:
  assumes t: "flow_option_of t = Some opt" "has (oc_allowed cfg) t"
    and p: "flow_payload_ok cfg p" and step: "option_step cfg args e p i opt = Inr (Some (p', i'))"
  shows "flow_payload_ok cfg p'"
proof -
  note field = field_okI [OF t]
  show ?thesis
  proof (cases opt)
    case (Number f)
    with step obtain n where "p' = put p f n" "is_safe_number n" by (auto dest: putNumber_ok)
    with p field Number show ?thesis by (simp add: payload_ok_put)
  next
    case (Integer f)
    with step obtain n where "p' = put p f n" "is_int64 n" by (auto dest: putInteger_ok)
    with p field Integer show ?thesis by (simp add: payload_ok_put)
  next
    case (PositiveOrInfinity f)
    with step obtain n where "p' = put p f n" "is_int64 n \<or> n = JStr (ascii ''infinity'')"
      by (auto dest: putPositiveOrInfinity_ok)
    with p field PositiveOrInfinity show ?thesis by (simp add: payload_ok_put)
  next
    case (OptionalBool f)
    with step obtain b where "p' = put p f (JBool b)" by (auto dest: putOptionalBool_Inr(1))
    with p field OptionalBool show ?thesis by (cases b) (simp_all add: payload_ok_put)
  next
    case (Entry f)
    with p field step show ?thesis by (auto simp: entry_option_Inr is_object_def intro!: payload_ok_entry)
  next
    case (Element f)
    with p field step show ?thesis by (auto simp: is_array_def intro!: payload_ok_push)
  next
    case ValueOption
    with p field step show ?thesis
      by (auto simp: entry_option_Inr is_object_def is_array_def split: if_splits
          intro!: payload_ok_push payload_ok_entry)
  next
    case (Text f)
    with p field step show ?thesis by (auto intro!: payload_ok_text)
  next
    case (RepeatedText f)
    with p field step show ?thesis by (auto intro!: payload_ok_text)
  next
    case StateOption
    with p field step show ?thesis by (auto simp: is_array_def intro!: payload_ok_states payload_ok_put)
  next
    case StatesOption
    with p field step show ?thesis
      by (auto simp: counted_Inr is_array_def intro!: payload_ok_states payload_ok_put)
  next
    case PartitionsOption
    with p field step show ?thesis by (auto simp: counted_Inr is_array_def intro!: payload_ok_put)
  qed (use p field step in \<open>auto intro!: payload_ok_put split: if_splits\<close>)
qed

text \<open>Fields stay, except that \<open>state\<close> gives way to \<open>states\<close>.\<close>

definition keeps :: "js_object \<Rightarrow> js_object \<Rightarrow> bool" where
  "keeps p p' \<longleftrightarrow> (\<forall>k. own k p \<noteq> None \<longrightarrow> own k p' \<noteq> None \<or> k = ascii ''state'' \<and> own (ascii ''states'') p' \<noteq> None)"

lemma keeps_put [simp]: "keeps p (put p f v)"
  by (simp add: keeps_def)

lemma keeps_helpers: "keeps p (put_entry p f name v)" "keeps p (push_element p f v)" "keeps p (setFlowOptionValue p f v b)"
  by (auto simp: put_entry_def push_element_def setFlowOptionValue_def keeps_def split: option.split jsval.split)

lemma keeps_states: "keeps p q \<Longrightarrow> keeps p (add_states p vs q)"
  by (auto simp: add_states_def keeps_def own_delete split: option.split jsval.split)

lemma option_step_keeps:
  assumes "option_step cfg args e p i opt = Inr (Some (p', i'))"
  shows "keeps p p'"
  using assms
  by (cases opt) (auto simp: counted_Inr entry_option_Inr keeps_helpers keeps_states split: if_splits
      dest: putNumber_ok putInteger_ok putPositiveOrInfinity_ok putOptionalBool_Inr(1))

text \<open>Only STATE writes the field \<open>state\<close>.\<close>

lemma plain_fields: "list_all (\<lambda>entry. case snd entry of
    Scalar f \<Rightarrow> f \<noteq> ''state'' | Text f \<Rightarrow> f \<noteq> ''state'' | Number f \<Rightarrow> f \<noteq> ''state'' | Integer f \<Rightarrow> f \<noteq> ''state'' | _ \<Rightarrow> True)
    flow_options"
  by (simp add: flow_options_def)

lemma present_kept:
  assumes "flow_option_of t = Some opt" "option_present opt p" "keeps p p'"
  shows "option_present opt p'"
proof -
  from option_of_in_table [OF assms(1)] obtain name where "(name, opt) \<in> set flow_options" by blast
  then have "case opt of Scalar f \<Rightarrow> f \<noteq> ''state'' | Text f \<Rightarrow> f \<noteq> ''state'' | Number f \<Rightarrow> f \<noteq> ''state''
      | Integer f \<Rightarrow> f \<noteq> ''state'' | _ \<Rightarrow> True"
    using plain_fields by (fastforce simp: list_all_iff)
  then show ?thesis using assms(2,3) by (cases opt) (auto simp: keeps_def)
qed

lemma present_after_step:
  assumes "option_step cfg args e p i opt = Inr (Some (p', i'))"
  shows "option_present opt p'"
  using assms
  by (cases opt) (auto simp: setFlowOptionValue_def add_states_def own_delete split: option.splits jsval.splits
      dest!: putNumber_ok putInteger_ok)

lemma flow_loop_ok:
  "flow_loop cfg args e i seen p = Inr (Some (p', seen')) \<Longrightarrow> flow_payload_ok cfg p \<Longrightarrow> seen_present seen p \<Longrightarrow>
    flow_payload_ok cfg p' \<and> seen_present seen' p'"
proof (induction cfg args e i seen p rule: flow_loop.induct)
  case (1 cfg args e i seen p)
  show ?case
  proof (cases "i < e")
    case False
    with 1 show ?thesis by (simp add: flow_loop.simps [of cfg args e i])
  next
    case True
    with 1(2) obtain t opt q j where s: "hasOwnCommandArgument ''Flow options'' args i e = Inr True"
        "as_text (args ! i) = Inr t" "has (oc_allowed cfg) (to_upper t)" "flow_option_of (to_upper t) = Some opt"
        "option_step cfg args e p i opt = Inr (Some (q, j))"
        "flow_loop cfg args e j (to_upper t # seen) q = Inr (Some (p', seen'))"
      by (auto simp: flow_loop.simps [of cfg args e i] split: if_splits option.splits)
    have ok: "flow_payload_ok cfg q" by (rule option_step_ok [OF s(4,3) 1(3) s(5)])
    have kept: "keeps p q" by (rule option_step_keeps [OF s(5)])
    have "seen_present (to_upper t # seen) q"
      using 1(4) present_after_step [OF s(5)] present_kept [OF _ _ kept] s(4)
      by (fastforce simp: seen_present_def split: option.splits)
    with 1(1) [OF True s(1,2) _ s(4,5) refl refl s(6) ok] s(3) show ?thesis by blast
  qed
qed

section \<open>Options of the connection commands\<close>

definition OPTION_FIELDS :: "(string \<times> string) list" where
  "OPTION_FIELDS = [(''CONSISTENT_PROJECTION'', ''consistent_projection''), (''COUNT'', ''count''), (''FROM_MS'', ''from_ms''),
    (''INCLUDE_COLD'', ''include_cold''), (''PARTITION'', ''partition_key''), (''REV'', ''rev''), (''STATE'', ''state''),
    (''TERMINAL_ONLY'', ''terminal_only''), (''TO_MS'', ''to_ms'')]"

definition BOOL_OPTION_FIELDS :: catalog where
  "BOOL_OPTION_FIELDS = [''consistent_projection'', ''include_cold'', ''rev'', ''terminal_only'']"

text \<open>The field of a token that is not in the table is the token in lower case.\<close>

definition option_field :: "jsstr \<Rightarrow> jsstr" where
  "option_field token =
    (case find (\<lambda>entry. ascii (fst entry) = token) OPTION_FIELDS of
       Some entry \<Rightarrow> ascii (snd entry)
     | None \<Rightarrow> to_lower token)"

definition both_given :: "jsval list \<Rightarrow> nat \<Rightarrow> bool res" where
  "both_given args i =
    rbind (hasOwnCommandArgument ''Flow options'' args (i + 1) (length args)) (\<lambda>a.
    if a then hasOwnCommandArgument ''Flow options'' args (i + 2) (length args) else Inr False)"

function option_map_loop :: "jsval list \<Rightarrow> nat \<Rightarrow> js_object \<Rightarrow> js_object option res" where
  "option_map_loop args i payload =
    (if i < length args then
       rbind (hasOwnCommandArgument ''Flow options'' args i (length args)) (\<lambda>_.
       rbind (as_text (args ! i)) (\<lambda>t.
       let token = to_upper t in
       if token = ascii ''ATTRIBUTE'' \<or> token = ascii ''STATE_META'' then
         rbind (both_given args i) (\<lambda>given.
         if \<not> given then Inl (Thrown FerricStoreError ''requires name and value'' [JStr token])
         else rbind (as_text (args ! (i + 1))) (\<lambda>name.
           option_map_loop args (i + 3)
             (put_entry payload (if token = ascii ''ATTRIBUTE'' then ''attributes'' else ''state_meta'') name (args ! (i + 2)))))
       else
         rbind (hasOwnCommandArgument ''Flow options'' args (i + 1) (length args)) (\<lambda>given.
         if \<not> given then Inl (Thrown FerricStoreError ''requires a value'' [JStr token])
         else if has BOOL_OPTION_FIELDS (option_field token) then
           rbind (is_bool_token (args ! (i + 1))) (\<lambda>b.
           if b then rbind (bool_arg (args ! (i + 1))) (\<lambda>v.
             option_map_loop args (i + 2) (set_own payload (option_field token) (JBool v)))
           else Inr None)
         else option_map_loop args (i + 2) (set_own payload (option_field token) (args ! (i + 1))))))
     else Inr (Some payload))"
  by pat_completeness auto
termination
  by (relation "measure (\<lambda>(args, i, payload). length args - i)") auto

declare option_map_loop.simps [simp del]

definition optionMap :: "jsval list \<Rightarrow> js_object option res" where
  "optionMap args = option_map_loop args 0 []"

section \<open>Properties\<close>

text \<open>C11. The payload of a Flow command is well typed: whenever the options are accepted, every field of the
  payload was written by an option the command allows and has the type of that option (counts and times
  are safe integers, fencing tokens signed 64-bit integers, flags booleans, values and attributes
  objects, lists arrays), no field is there twice, and every required option has its field.\<close>

theorem flow_payloads_conform:
  assumes "parseFlowOptions args start e cfg = Inr (Some payload)"
  shows "flow_payload_ok cfg payload \<and>
    (\<forall>name \<in> set (oc_required cfg). case flow_option_of (ascii name) of
       None \<Rightarrow> False | Some opt \<Rightarrow> option_present opt payload)"
proof -
  from assms obtain seen where loop: "flow_loop cfg args e start [] [] = Inr (Some (payload, seen))"
      and needed: "list_all (\<lambda>name. ascii name \<in> set seen) (oc_required cfg)"
    by (auto simp: parseFlowOptions_def split: option.splits if_splits)
  have "flow_payload_ok cfg payload \<and> seen_present seen payload"
    by (rule flow_loop_ok [OF loop]) (simp_all add: flow_payload_ok_def seen_present_def)
  with needed show ?thesis by (auto simp: seen_present_def list_all_iff)
qed

definition demo_config :: option_config where
  "demo_config = \<lparr>oc_allowed = [''NOW'', ''FULL''], oc_payload_value = True,
    oc_read_values = False, oc_required = [''NOW'']\<rparr>"

definition demo_flow_args :: "jsval list" where
  "demo_flow_args = [JStr (ascii ''now''), JInt 5]"

lemma demo_flow_parsed:
  "parseFlowOptions demo_flow_args 0 2 demo_config = Inr (Some [(ascii ''now_ms'', JInt 5)])"
  by code_simp

theorem flow_payloads_conform_witness:
  "flow_payload_ok demo_config [(ascii ''now_ms'', JInt 5)]"
  using flow_payloads_conform [OF demo_flow_parsed] by blast

end
