(* ===== verification/FlowItems.thy ===== *)
theory FlowItems
  imports FlowOptions
begin

text \<open>
  The items of the Flow commands over many flows (\<open>src/src/protocol-flow-items.ts\<close>): finding the token
  that ends the options, and reading the items behind it. The main lemma relates the two readings of the
  option part: the search for the item token skips exactly what the option parser reads.
\<close>

section \<open>The end of the options\<close>

definition entry_tokens :: catalog where
  "entry_tokens = [''ATTRIBUTE'', ''ATTRIBUTE_MERGE'', ''VALUE'', ''VALUE_REF'', ''STATE_META'']"

definition flag_tokens :: catalog where
  "flag_tokens = [''IDEMPOTENT'', ''INDEPENDENT'', ''RECLAIM_EXPIRED'', ''INCLUDE_STATE'', ''FULL'', ''OVERRIDE'']"

definition counted_tokens :: catalog where
  "counted_tokens = [''STATES'', ''PARTITIONS'']"

definition item_tokens :: catalog where
  "item_tokens = [''ITEMS'', ''ITEMS_EXT'']"

text \<open>How far the index moves over an option, or \<open>None\<close> for the return of -1.\<close>

definition option_stride :: "jsval list \<Rightarrow> nat \<Rightarrow> jsstr \<Rightarrow> nat option res" where
  "option_stride args i token =
    (if has entry_tokens token then Inr (Some 3)
     else if token = ascii ''ATTRIBUTE_DELETE'' then Inr (Some 2)
     else if has flag_tokens token then
       rbind (if i + 1 < length args then is_bool_token (args ! (i + 1)) else Inr False) (\<lambda>b.
       Inr (Some (if b then 2 else 1)))
     else if has counted_tokens token then
       rbind (count_arg (arg_at args (i + 1))) (\<lambda>c.
       Inr (if c < 0 then None else Some (2 + nat c)))
     else if token = ascii ''NOPAYLOAD'' then Inr (Some 1)
     else Inr (Some 2))"

lemma option_stride_pos: "option_stride args i token = Inr (Some n) \<Longrightarrow> 0 < n"
  by (auto simp: option_stride_def split: if_splits)

function findItemToken :: "jsval list \<Rightarrow> nat \<Rightarrow> nat option res" where
  "findItemToken args i =
    (if i < length args then
       rbind (as_text (args ! i)) (\<lambda>t.
       if has item_tokens (to_upper t) then Inr (Some i)
       else rbind (option_stride args i (to_upper t)) (\<lambda>n.
         case n of None \<Rightarrow> Inr None | Some k \<Rightarrow> findItemToken args (i + k)))
     else Inr None)"
  by pat_completeness auto
termination
  by (relation "measure (\<lambda>(args, i). length args - i)") (auto dest: option_stride_pos)

declare findItemToken.simps [simp del]

section \<open>Items\<close>

fun named_entries :: "nat \<Rightarrow> jsval list \<Rightarrow> js_object \<Rightarrow> (js_object \<times> jsval list) res" where
  "named_entries (Suc n) (name # v # rest) target =
    rbind (as_text name) (\<lambda>t. named_entries n rest (set_own target t v))"
| "named_entries n rest target = Inr (target, rest)"

text \<open>The rest of the values stands for the index.\<close>

definition parseNamedCountMap :: "jsval list \<Rightarrow> (js_object \<times> jsval list) option res" where
  "parseNamedCountMap values =
    (case values of
       [] \<Rightarrow> Inr None
     | v # rest \<Rightarrow>
         rbind (count_arg v) (\<lambda>c.
         if c < 0 \<or> c * 2 > int (length rest) then Inr None
         else rbind (named_entries (nat c) rest []) (\<lambda>r. Inr (Some r))))"

definition optional_object :: "string \<Rightarrow> js_object \<Rightarrow> (string \<times> jsval) list" where
  "optional_object name kvs = (if kvs = [] then [] else [(name, JObj kvs)])"

text \<open>The two maps behind an item: its values and its value references.\<close>

definition item_maps :: "jsval list \<Rightarrow> ((string \<times> jsval) list \<times> jsval list) option res" where
  "item_maps values =
    rbind (parseNamedCountMap values) (\<lambda>a.
    case a of None \<Rightarrow> Inr None
    | Some (vs, rest) \<Rightarrow>
        rbind (parseNamedCountMap rest) (\<lambda>b.
        Inr (map_option (\<lambda>(refs, rest'). (optional_object ''values'' vs @ optional_object ''value_refs'' refs, rest')) b)))"

fun create_items_ext :: "nat \<Rightarrow> bool \<Rightarrow> jsval list \<Rightarrow> (jsval list \<times> jsval list) option res" where
  "create_items_ext 0 mixed values = Inr (Some ([], values))"
| "create_items_ext (Suc n) mixed values =
    (case values of
       i # place # payload # rest \<Rightarrow>
         rbind (item_maps rest) (\<lambda>r.
         case r of None \<Rightarrow> Inr None
         | Some (maps, rest') \<Rightarrow>
             rbind (create_items_ext n mixed rest') (\<lambda>items.
             Inr (map_option (\<lambda>(more, end_rest).
               (JObj (object_of ([(''id'', i), (''payload'', payload)] @
                  (if \<not> command_token_is place (ascii ''-'') \<and> (mixed \<or> \<not> nullish place)
                   then [(''partition_key'', place)] else []) @ maps)) # more, end_rest)) items)))
     | _ \<Rightarrow> Inr None)"

definition parseFlowCreateItemsExt :: "jsval list \<Rightarrow> nat \<Rightarrow> bool \<Rightarrow> jsval list option res" where
  "parseFlowCreateItemsExt values n mixed =
    rbind (create_items_ext n mixed values) (\<lambda>r.
    Inr (case r of Some (items, []) \<Rightarrow> Some items | _ \<Rightarrow> None))"

fun spawn_children_ext :: "nat \<Rightarrow> jsval list \<Rightarrow> (jsval list \<times> jsval list) option res" where
  "spawn_children_ext 0 values = Inr (Some ([], values))"
| "spawn_children_ext (Suc n) values =
    (case values of
       i # place # kind # payload # rest \<Rightarrow>
         rbind (item_maps rest) (\<lambda>r.
         case r of None \<Rightarrow> Inr None
         | Some (maps, rest') \<Rightarrow>
             rbind (spawn_children_ext n rest') (\<lambda>children.
             Inr (map_option (\<lambda>(more, end_rest).
               (JObj (object_of ([(''id'', i), (''type'', kind), (''payload'', payload)] @
                  (if command_token_is place (ascii ''-'') then [] else [(''partition_key'', place)]) @ maps))
                # more, end_rest)) children)))
     | _ \<Rightarrow> Inr None)"

definition parseFlowSpawnChildrenExt :: "jsval list \<Rightarrow> nat \<Rightarrow> jsval list option res" where
  "parseFlowSpawnChildrenExt values n =
    rbind (spawn_children_ext n values) (\<lambda>r.
    Inr (case r of Some (children, []) \<Rightarrow> Some children | _ \<Rightarrow> None))"

text \<open>Rows of a fixed width.\<close>

fun rows :: "nat \<Rightarrow> nat \<Rightarrow> 'a list \<Rightarrow> 'a list list" where
  "rows 0 width xs = []"
| "rows (Suc n) width xs = take width xs # rows n width (drop width xs)"

definition spawn_child :: "bool \<Rightarrow> jsval list \<Rightarrow> jsval" where
  "spawn_child mixed row =
    JObj (object_of ([(''id'', row ! 0), (''type'', row ! (if mixed then 2 else 1)), (''payload'', row ! (if mixed then 3 else 2))] @
      (if mixed then [(''partition_key'', row ! 1)] else [])))"

definition parseFlowSpawnChildren :: "jsval list \<Rightarrow> bool \<Rightarrow> jsval list option" where
  "parseFlowSpawnChildren values mixed =
    (let width = (if mixed then 4 else 3) in
     if values = [] \<or> length values mod width \<noteq> 0 then None
     else Some (map (spawn_child mixed) (rows (length values div width) width values)))"

section \<open>The search agrees with the option parser\<close>

definition option_width :: "flow_option \<Rightarrow> nat option" where
  "option_width opt =
    (case opt of
       Entry _ \<Rightarrow> Some 3 | ValueOption \<Rightarrow> Some 3 | NoPayloadOption \<Rightarrow> Some 1
     | OptionalBool _ \<Rightarrow> None | StatesOption \<Rightarrow> None | PartitionsOption \<Rightarrow> None | _ \<Rightarrow> Some 2)"

text \<open>The table of options against the groups of tokens of the search.\<close>

definition is_flag :: "flow_option \<Rightarrow> bool" where
  "is_flag opt = (case opt of OptionalBool _ \<Rightarrow> True | _ \<Rightarrow> False)"

definition groups_ok :: "string \<Rightarrow> flow_option \<Rightarrow> bool" where
  "groups_ok name opt \<longleftrightarrow>
    name \<notin> set item_tokens \<and>
    (name \<in> set entry_tokens \<longleftrightarrow> option_width opt = Some 3) \<and>
    (name \<in> set flag_tokens \<longleftrightarrow> is_flag opt) \<and>
    (name \<in> set counted_tokens \<longleftrightarrow> opt = StatesOption \<or> opt = PartitionsOption) \<and>
    (name = ''NOPAYLOAD'' \<longleftrightarrow> opt = NoPayloadOption) \<and> (opt = PayloadOption \<longrightarrow> name = ''PAYLOAD'') \<and>
    (name = ''ATTRIBUTE_DELETE'' \<longrightarrow> option_width opt = Some 2)"

lemma table_groups: "list_all (\<lambda>entry. groups_ok (fst entry) (snd entry)) flow_options"
  by (simp add: groups_ok_def flow_options_def item_tokens_def entry_tokens_def flag_tokens_def
      counted_tokens_def option_width_def is_flag_def)

lemma groups_of: "(name, opt) \<in> set flow_options \<Longrightarrow> groups_ok name opt"
  using table_groups by (fastforce simp: list_all_iff)

text \<open>The reading of an option's width by the parser and by the search, where the configuration reads
  VALUE and PAYLOAD with their values.\<close>

definition plain_config :: "option_config \<Rightarrow> bool" where
  "plain_config cfg \<longleftrightarrow> \<not> oc_read_values cfg \<and> (oc_payload_value cfg \<or> ''PAYLOAD'' \<notin> set (oc_allowed cfg))"

lemma bool_text_well_formed: "well_formed (ascii (if b then ''true'' else ''false''))"
proof -
  have "well_formed (ascii ''true'')" "well_formed (ascii ''false'')" by code_simp+
  then show ?thesis by simp
qed

lemma item_token_no_bool:
  assumes "as_text v = Inr t" "has item_tokens (to_upper t)"
  shows "is_bool_token v = Inr False"
proof (cases v)
  case (JBool b)
  have "to_upper (ascii ''true'') = ascii ''TRUE''" "to_upper (ascii ''false'') = ascii ''FALSE''"
    by code_simp+
  moreover have "t = ascii (if b then ''true'' else ''false'')"
    using assms(1) JBool utf8_decode_encode [OF bool_text_well_formed [of b]] by (simp add: as_text_def)
  ultimately show ?thesis using assms(2) by (cases b) (simp_all add: item_tokens_def)
qed (use assms in \<open>auto simp: is_bool_token_def item_tokens_def has_iff\<close>)

lemma putOptionalBool_given:
  assumes "putOptionalBool p key args i e = Inr (Some (p', i'))" "i + 1 < e"
  shows "\<exists>b. is_bool_token (args ! (i + 1)) = Inr b \<and> i' = i + (if b then 2 else 1)"
proof -
  from assms obtain tok where tok: "is_bool_token (args ! (i + 1)) = Inr tok"
      "(if tok then rbind (bool_arg (args ! (i + 1))) (\<lambda>b. Inr (Some (put p key (JBool b), i + 2)))
        else Inr (Some (put p key (JBool True), i + 1))) = Inr (Some (p', i'))"
    unfolding putOptionalBool_def rbind_eq_Inr has_own_Inr by metis
  then show ?thesis by (cases tok) auto
qed

lemma putOptionalBool_absent:
  assumes "putOptionalBool p key args i e = Inr (Some (p', i'))" "\<not> i + 1 < e"
  shows "i' = i + 1"
  using assms by (auto simp: putOptionalBool_def)

lemma step_stride:
  assumes "option_step cfg args e p i opt = Inr (Some (p', i'))" "flow_option_of t = Some opt" "has (oc_allowed cfg) t"
    and "plain_config cfg" "i < e" "e < length args"
    and "is_bool_token (args ! e) = Inr False"
  shows "option_stride args i t = Inr (Some (i' - i))"
proof -
  from option_of_in_table [OF assms(2)] obtain name where n: "(name, opt) \<in> set flow_options" "t = ascii name" by blast
  from groups_of [OF n(1)] have g:
    "name \<in> set entry_tokens \<longleftrightarrow> option_width opt = Some 3" "name \<in> set flag_tokens \<longleftrightarrow> is_flag opt"
    "name \<in> set counted_tokens \<longleftrightarrow> opt = StatesOption \<or> opt = PartitionsOption"
    "name = ''NOPAYLOAD'' \<longleftrightarrow> opt = NoPayloadOption" "opt = PayloadOption \<longrightarrow> name = ''PAYLOAD''"
    "name = ''ATTRIBUTE_DELETE'' \<longrightarrow> option_width opt = Some 2"
    unfolding groups_ok_def by blast+
  have plain: "option_stride args i t = Inr (Some 2)"
    if "option_width opt = Some 2" "\<not> is_flag opt" "opt \<noteq> StatesOption" "opt \<noteq> PartitionsOption" "opt \<noteq> NoPayloadOption"
    using that g by (auto simp: option_stride_def n(2))
  have three: "option_stride args i t = Inr (Some 3)" if "option_width opt = Some 3"
    using that g(1) by (simp add: option_stride_def n(2))
  have many: "option_stride args i t = Inr (Some (i' - i))"
    if "counted args i e s f = Inr (Some (p', i'))" "opt = StatesOption \<or> opt = PartitionsOption" for s f
  proof -
    from that(1) obtain c where c: "count_arg (args ! (i + 1)) = Inr (int c)" "i + 1 < length args" "i' = i + 2 + c"
      unfolding counted_Inr by blast
    have w: "option_width opt = None" "\<not> is_flag opt"
      using that(2) by (auto simp: option_width_def is_flag_def)
    have "name \<notin> set entry_tokens" "name \<notin> set flag_tokens" "name \<noteq> ''ATTRIBUTE_DELETE''"
      using g(1,2,6) w by simp_all
    with that(2) g(3) c show ?thesis by (simp add: option_stride_def n(2) arg_at_def)
  qed
  show ?thesis
  proof (cases opt)
    case (OptionalBool f)
    then have w: "option_width opt = None" "is_flag opt" by (simp_all add: option_width_def is_flag_def)
    then have "name \<notin> set entry_tokens" "name \<noteq> ''ATTRIBUTE_DELETE''" "name \<in> set flag_tokens"
      using g(1,2,6) by simp_all
    moreover have "i + 1 < length args" using assms(5,6) by simp
    moreover have "\<exists>b. is_bool_token (args ! (i + 1)) = Inr b \<and> i' = i + (if b then 2 else 1)"
    proof (cases "i + 1 < e")
      case True
      with putOptionalBool_given assms(1) OptionalBool show ?thesis by simp
    next
      case False
      then have "i + 1 = e" using assms(5) by simp
      with putOptionalBool_absent [of p f args i e p' i'] False assms(1,7) OptionalBool show ?thesis by auto
    qed
    then obtain b where "is_bool_token (args ! (i + 1)) = Inr b" "i' = i + (if b then 2 else 1)" by blast
    ultimately show ?thesis by (simp add: option_stride_def n(2))
  next
    case StatesOption
    with assms(1) many show ?thesis by simp
  next
    case PartitionsOption
    with assms(1) many show ?thesis by simp
  next
    case NoPayloadOption
    then have "name = ''NOPAYLOAD''" using g(4) by simp
    with assms(1) NoPayloadOption show ?thesis
      by (auto simp: option_stride_def n(2) entry_tokens_def flag_tokens_def counted_tokens_def)
  next
    case PayloadOption
    with assms(3,4) g(5) n(2) have "oc_payload_value cfg" by (auto simp: plain_config_def)
    with PayloadOption assms(1) plain show ?thesis by (simp add: option_width_def is_flag_def)
  next
    case ValueOption
    with assms(1,4) three show ?thesis by (simp add: plain_config_def entry_option_Inr option_width_def)
  next
    case (Entry f)
    with assms(1) three show ?thesis by (simp add: entry_option_Inr option_width_def)
  qed (use assms(1) plain in \<open>auto simp: option_width_def is_flag_def\<close>)
qed

lemma flow_loop_item_token:
  "flow_loop cfg args e i seen p = Inr (Some r) \<Longrightarrow> plain_config cfg \<Longrightarrow> i \<le> e \<Longrightarrow> e < length args \<Longrightarrow>
    as_text (args ! e) = Inr t \<Longrightarrow> has item_tokens (to_upper t) \<Longrightarrow> findItemToken args i = Inr (Some e)"
proof (induction cfg args e i seen p rule: flow_loop.induct)
  case (1 cfg args e i seen p)
  show ?case
  proof (cases "i < e")
    case False
    with 1(4-7) show ?thesis by (simp add: findItemToken.simps [of args e])
  next
    case True
    with 1(2) obtain u opt q j where s: "hasOwnCommandArgument ''Flow options'' args i e = Inr True"
        "as_text (args ! i) = Inr u" "has (oc_allowed cfg) (to_upper u)" "flow_option_of (to_upper u) = Some opt"
        "option_step cfg args e p i opt = Inr (Some (q, j))"
        "flow_loop cfg args e j (to_upper u # seen) q = Inr (Some r)"
      by (auto simp: flow_loop.simps [of cfg args e i] split: if_splits option.splits)
    have j: "i < j" "j \<le> e" using option_step_advances [OF s(5) True] by auto
    obtain name where "(name, opt) \<in> set flow_options" "to_upper u = ascii name"
      using option_of_in_table [OF s(4)] by blast
    then have "\<not> has item_tokens (to_upper u)" using groups_of by (auto simp: groups_ok_def)
    moreover have "option_stride args i (to_upper u) = Inr (Some (j - i))"
      by (rule step_stride [OF s(5,4,3) 1(3) True 1(5) item_token_no_bool [OF 1(6,7)]])
    moreover have "findItemToken args j = Inr (Some e)"
      using 1(1) [OF True s(1,2) _ s(4,5) refl refl s(6) 1(3) j(2) 1(5-7)] s(3) by blast
    ultimately show ?thesis using True 1(5) j s(2) by (simp add: findItemToken.simps [of args i])
  qed
qed

section \<open>Properties\<close>

text \<open>C40. The options of a command over many flows end where the search for the item token says: if the
  arguments up to some item token read as options, the search stops exactly there, so that neither an
  option's value that looks like the token nor a flag without a value can move the border, and there is
  only one way to cut the arguments into options and items.\<close>

theorem options_end_at_item_token:
  assumes "parseFlowOptions args start e cfg = Inr (Some payload)" "plain_config cfg"
    and "start \<le> e" "e < length args" "as_text (args ! e) = Inr t" "has item_tokens (to_upper t)"
  shows "findItemToken args start = Inr (Some e)"
proof -
  from assms(1) obtain r where "flow_loop cfg args e start [] [] = Inr (Some r)"
    by (auto simp: parseFlowOptions_def split: option.splits)
  then show ?thesis using assms(2-6) by (rule flow_loop_item_token)
qed

definition demo_items_args :: "jsval list" where
  "demo_items_args = [JStr (ascii ''now''), JInt 5, JStr (ascii ''items''), JStr (ascii ''ITEMS'')]"

lemma demo_items_parsed:
  "parseFlowOptions demo_items_args 0 2 demo_config = Inr (Some [(ascii ''now_ms'', JInt 5)])"
  by code_simp

theorem options_end_at_item_token_witness: "findItemToken demo_items_args 0 = Inr (Some 2)"
proof -
  have a: "plain_config demo_config" "(0 :: nat) \<le> 2" "2 < length demo_items_args"
    by (simp_all add: plain_config_def demo_config_def demo_items_args_def)
  have b: "as_text (demo_items_args ! 2) = Inr (ascii ''items'')" by code_simp
  have "to_upper (ascii ''items'') = ascii ''ITEMS''" by code_simp
  then have c: "has item_tokens (to_upper (ascii ''items''))" by (simp add: item_tokens_def)
  show ?thesis by (rule options_end_at_item_token [OF demo_items_parsed a b c])
qed

end
