(* ===== verification/CompactResponse.thy ===== *)
theory CompactResponse
  imports ProtocolValue Errors CommandCatalog Frame JsObject
begin

unbundle bit_operations_syntax

text \<open>
  Compact responses (\<open>src/src/protocol-compact-response.ts\<close>, \<open>src/src/protocol-compact-collections.ts\<close>): what a
  server that speaks the compact codecs answers. A reader takes the body, an offset and the item budget that
  is left, and returns a value, the offset behind it and the budget that is left then. The integer reads of a
  \<open>Buffer\<close> throw a \<open>RangeError\<close> outside of it; that no reader ever runs into one is part of what is shown.
\<close>

section \<open>Readers\<close>

type_synonym 'a reader = "bytes \<Rightarrow> nat \<Rightarrow> nat \<Rightarrow> ('a \<times> nat \<times> nat) res"

text \<open>\<open>readUInt8\<close>, \<open>readUInt32BE\<close>, \<open>readBigUInt64BE\<close> of width \<open>k\<close>, and \<open>readBigInt64BE\<close>.\<close>

definition read_uint :: "nat \<Rightarrow> bytes \<Rightarrow> nat \<Rightarrow> nat res" where
  "read_uint k data off =
    (if off + k \<le> length data then Inr (be_nat (subarray off (off + k) data))
     else Inl (Thrown RangeErr ''ERR_OUT_OF_RANGE'' [JInt (int off)]))"

definition read_int64 :: "bytes \<Rightarrow> nat \<Rightarrow> int res" where
  "read_int64 data off =
    (if off + 8 \<le> length data then Inr (read_i64 (subarray off (off + 8) data))
     else Inl (Thrown RangeErr ''ERR_OUT_OF_RANGE'' [JInt (int off)]))"

definition safe_or_big :: "int \<Rightarrow> jsval" where
  "safe_or_big i = (if safe_int i then JInt i else JBig i)"

text \<open>A loop that reads one element after the other; the element may depend on its index.\<close>

fun read_times :: "(nat \<Rightarrow> 'a reader) \<Rightarrow> nat \<Rightarrow> nat \<Rightarrow> 'a list reader" where
  "read_times rd i 0 data off left = Inr ([], off, left)"
| "read_times rd i (Suc n) data off left =
    rbind (rd i data off left) (\<lambda>(v, off, left).
    rbind (read_times rd (Suc i) n data off left) (\<lambda>(vs, off, left). Inr (v # vs, off, left)))"

definition read_binary_value :: "jsval reader" where
  "read_binary_value data off left = rbind (read_binary data off) (\<lambda>(v, off). Inr (JBuf v, off, left))"

definition requireCompactContainer :: "nat \<Rightarrow> nat \<Rightarrow> nat res" where
  "requireCompactContainer count left =
    (if count > DEFAULT_MAX_VALUE_ITEMS
     then Inl (ferric_error ''native compact response container exceeds max items'')
     else consume_decode_items count left)"

text \<open>The element count behind the leading tag of a list.\<close>

definition list_count :: "bytes \<Rightarrow> nat \<Rightarrow> (nat \<times> nat) res" where
  "list_count data left =
    rbind (require_available data 0 5) (\<lambda>_.
    rbind (read_uint 4 data 1) (\<lambda>count.
    rbind (requireCompactContainer count left) (\<lambda>left. Inr (count, left))))"

definition ends_body :: "bytes \<Rightarrow> string \<Rightarrow> 'a \<times> nat \<times> nat \<Rightarrow> ('a \<times> nat) res" where
  "ends_body data msg r = (case r of (v, off, left) \<Rightarrow>
    if off \<noteq> length data then Inl (ferric_error msg) else Inr (v, left))"

section \<open>Collections\<close>

definition integer_at :: "nat \<Rightarrow> jsval reader" where
  "integer_at i data off left = rbind (read_int64 data off) (\<lambda>v. Inr (safe_or_big v, off + 8, left))"

definition decodeCompactIntegerList :: "bytes \<Rightarrow> nat \<Rightarrow> (jsval list \<times> nat) res" where
  "decodeCompactIntegerList data left =
    rbind (list_count data left) (\<lambda>(count, left).
    if length data \<noteq> 5 + count * 8 then Inl (ferric_error ''invalid compact integer list response'')
    else rbind (read_times integer_at 0 count data 5 left) (\<lambda>(vs, off, left). Inr (vs, left)))"

definition readCompactBinaryList :: "jsval reader" where
  "readCompactBinaryList data off left =
    rbind (require_available data off 4) (\<lambda>_.
    rbind (read_uint 4 data off) (\<lambda>count.
    rbind (requireCompactContainer count left) (\<lambda>left.
    rbind (read_times (\<lambda>_. read_binary_value) 0 count data (off + 4) left) (\<lambda>(vs, off, left).
    Inr (JArr vs, off, left)))))"

text \<open>\<open>setProtocolMapEntry\<close> with a key that is a string or bytes from the wire.\<close>

definition setProtocolMapEntry :: "js_object \<Rightarrow> jsstr + bytes \<Rightarrow> jsval \<Rightarrow> js_object res" where
  "setProtocolMapEntry target key v = (case key of
      Inr encoded \<Rightarrow>
        if \<not> is_utf8 encoded then Inl (ferric_error ''native protocol map key must be valid UTF-8'')
        else if own (utf8_decode encoded) target \<noteq> None then
          Inl (Thrown FerricStoreError ''native protocol response contains duplicate map key'' [JStr (utf8_decode encoded)])
        else Inr (set_own target (utf8_decode encoded) v)
    | Inl name \<Rightarrow>
        if \<not> well_formed name then Inl (ferric_error ''native protocol map key must be valid UTF-8'')
        else if own name target \<noteq> None then
          Inl (Thrown FerricStoreError ''native protocol response contains duplicate map key'' [JStr name])
        else Inr (set_own target name v))"

text \<open>A loop that reads a key and a value and enters them into an object.\<close>

fun read_entries :: "(jsstr + bytes) reader \<Rightarrow> jsval reader \<Rightarrow> nat \<Rightarrow> js_object \<Rightarrow> js_object reader" where
  "read_entries key val 0 target data off left = Inr (target, off, left)"
| "read_entries key val (Suc n) target data off left =
    rbind (key data off left) (\<lambda>(k, off, left).
    rbind (val data off left) (\<lambda>(v, off, left).
    rbind (setProtocolMapEntry target k v) (\<lambda>target.
    read_entries key val n target data off left)))"

definition read_binary_key :: "(jsstr + bytes) reader" where
  "read_binary_key data off left = rbind (read_binary data off) (\<lambda>(k, off). Inr (Inr k, off, left))"

definition readCompactBinaryMap :: "jsval reader" where
  "readCompactBinaryMap data off left =
    rbind (require_available data off 4) (\<lambda>_.
    rbind (read_uint 4 data off) (\<lambda>count.
    rbind (requireCompactContainer count left) (\<lambda>left.
    rbind (read_entries read_binary_key read_binary_value count [] data (off + 4) left) (\<lambda>(kvs, off, left).
    Inr (JObj kvs, off, left)))))"

definition decodeCompactBinaryListList :: "bytes \<Rightarrow> nat \<Rightarrow> (jsval list \<times> nat) res" where
  "decodeCompactBinaryListList data left =
    rbind (list_count data left) (\<lambda>(count, left).
    rbind (read_times (\<lambda>_. readCompactBinaryList) 0 count data 5 left)
      (ends_body data ''trailing compact binary list-list bytes''))"

definition decodeCompactBinaryMapList :: "bytes \<Rightarrow> nat \<Rightarrow> (jsval list \<times> nat) res" where
  "decodeCompactBinaryMapList data left =
    rbind (list_count data left) (\<lambda>(count, left).
    rbind (read_times (\<lambda>_. readCompactBinaryMap) 0 count data 5 left)
      (ends_body data ''trailing compact binary map-list bytes''))"

section \<open>Key/value answers\<close>

definition decodeCompactOkList :: "bytes \<Rightarrow> nat \<Rightarrow> (jsval list \<times> nat) res" where
  "decodeCompactOkList data left =
    rbind (list_count data left) (\<lambda>(count, left).
    if length data \<noteq> 5 then Inl (ferric_error ''invalid compact OK list response'')
    else Inr (replicate count (JBuf [0x4F, 0x4B]), left))"

definition decodeCompactKvGet :: "bytes \<Rightarrow> jsval res" where
  "decodeCompactKvGet data =
    rbind (require_available data 0 2) (\<lambda>_.
    rbind (read_uint 1 data 1) (\<lambda>present.
    if present = 0 then
      (if length data \<noteq> 2 then Inl (ferric_error ''trailing compact GET bytes'') else Inr JNull)
    else if present \<noteq> 1 then Inl (ferric_error ''invalid compact GET response'')
    else rbind (read_binary data 2) (\<lambda>(v, off).
      if off \<noteq> length data then Inl (ferric_error ''trailing compact GET bytes'') else Inr (JBuf v))))"

definition mget_value :: "nat \<Rightarrow> jsval reader" where
  "mget_value i data off left =
    rbind (require_available data off 1) (\<lambda>_.
    rbind (read_uint 1 data off) (\<lambda>present.
    if present = 0 then Inr (JNull, off + 1, left)
    else if present = 1 then read_binary_value data (off + 1) left
    else Inl (ferric_error ''invalid compact MGET value marker'')))"

definition decodeCompactMget :: "bytes \<Rightarrow> nat \<Rightarrow> (jsval list \<times> nat) res" where
  "decodeCompactMget data left =
    rbind (list_count data left) (\<lambda>(count, left).
    rbind (read_times mget_value 0 count data 5 left) (ends_body data ''trailing compact MGET bytes''))"

definition decodeCompactMgetFixed :: "bytes \<Rightarrow> nat \<Rightarrow> (jsval list \<times> nat) res" where
  "decodeCompactMgetFixed data left =
    rbind (require_available data 0 9) (\<lambda>_.
    rbind (read_uint 4 data 1) (\<lambda>count.
    rbind (read_uint 4 data 5) (\<lambda>n.
    rbind (requireCompactContainer count left) (\<lambda>left.
    if n = NULL_U32 \<or> length data \<noteq> 9 + count * n then Inl (ferric_error ''invalid compact fixed MGET response'')
    else if n = 0 then Inr (replicate count (JBuf []), left)
    else Inr (map (\<lambda>i. JBuf (subarray (9 + i * n) (9 + i * n + n) data)) [0..<count], left)))))"

section \<open>Flow answers\<close>

definition decode_value_in :: "jsval reader" where
  "decode_value_in data off left = decode_value_with_budget data off left"

definition readOptionalBinary :: "jsval reader" where
  "readOptionalBinary data off left =
    rbind (require_available data off 4) (\<lambda>_.
    rbind (read_uint 4 data off) (\<lambda>n.
    if n = NULL_U32 then Inr (JNull, off + 4, left)
    else rbind (require_available data (off + 4) n) (\<lambda>_.
      Inr (JBuf (subarray (off + 4) (off + 4 + n) data), off + 4 + n, left))))"

definition readCompactClaimJob :: "claim_mode \<Rightarrow> jsval reader" where
  "readCompactClaimJob mode data off left =
    rbind (read_binary_value data off left) (\<lambda>(job, off, left).
    rbind (readOptionalBinary data off left) (\<lambda>(part, off, left).
    rbind (read_binary_value data off left) (\<lambda>(lease, off, left).
    rbind (require_available data off 8) (\<lambda>_.
    rbind (read_int64 data off) (\<lambda>fencing.
    let row = [job, part, lease, safe_or_big fencing]; off = off + 8 in
    case mode of
      ClaimBase \<Rightarrow> rbind (consume_decode_items 4 left) (\<lambda>left. Inr (JArr row, off, left))
    | ClaimAttrs \<Rightarrow>
        rbind (consume_decode_items 6 left) (\<lambda>left.
        rbind (decode_value_in data off left) (\<lambda>(attrs, off, left). Inr (JArr (row @ [JNull, attrs]), off, left)))
    | ClaimState \<Rightarrow>
        rbind (readOptionalBinary data off left) (\<lambda>(run_state, off, left).
        rbind (consume_decode_items 5 left) (\<lambda>left. Inr (JArr (row @ [run_state]), off, left)))
    | ClaimStateAttrs \<Rightarrow>
        rbind (readOptionalBinary data off left) (\<lambda>(run_state, off, left).
        rbind (consume_decode_items 6 left) (\<lambda>left.
        rbind (decode_value_in data off left) (\<lambda>(attrs, off, left).
        Inr (JArr (row @ [run_state, attrs]), off, left)))))))))"

text \<open>\<open>tryReadCompactClaimJobs\<close>: \<open>None\<close> for the caught \<open>FerricStoreError\<close> and \<open>RangeError\<close>.\<close>

definition tryReadCompactClaimJobs :: "nat \<Rightarrow> claim_mode \<Rightarrow> bytes \<Rightarrow> nat \<Rightarrow> nat \<Rightarrow> (jsval list \<times> nat \<times> nat) option res" where
  "tryReadCompactClaimJobs count mode data off left =
    (case read_times (\<lambda>_. readCompactClaimJob mode) 0 count data off left of
       Inr r \<Rightarrow> Inr (Some r)
     | Inl (Thrown c msg args) \<Rightarrow> if c = TypeErr \<or> c = SyntaxErr then Inl (Thrown c msg args) else Inr None)"

fun first_claim_mode :: "nat \<Rightarrow> claim_mode list \<Rightarrow> bytes \<Rightarrow> nat \<Rightarrow> (jsval list \<times> nat) res" where
  "first_claim_mode count [] data left = Inl (ferric_error ''trailing compact claim jobs bytes'')"
| "first_claim_mode count (mode # modes) data left =
    rbind (tryReadCompactClaimJobs count mode data 5 left) (\<lambda>r.
    case r of
      Some (vs, off, left') \<Rightarrow> if off = length data then Inr (vs, left') else first_claim_mode count modes data left
    | None \<Rightarrow> first_claim_mode count modes data left)"

definition decodeCompactClaimJobs :: "bytes \<Rightarrow> nat \<Rightarrow> claim_mode option \<Rightarrow> (jsval list \<times> nat) res" where
  "decodeCompactClaimJobs data left mode =
    rbind (list_count data left) (\<lambda>(count, left).
    case mode of
      Some m \<Rightarrow> rbind (read_times (\<lambda>_. readCompactClaimJob m) 0 count data 5 left)
        (ends_body data ''compact claim response did not match expected mode'')
    | None \<Rightarrow> first_claim_mode count [ClaimStateAttrs, ClaimAttrs, ClaimState, ClaimBase] data left)"

definition readCompactFlowValueRef :: "jsval reader" where
  "readCompactFlowValueRef data off left =
    rbind (consume_decode_items 1 left) (\<lambda>left.
    rbind (read_binary_value data off left) (\<lambda>(ref, off, left).
    rbind (readOptionalBinary data off left) (\<lambda>(part, off, left).
    rbind (if nullish part then Inr left else consume_decode_items 1 left) (\<lambda>left.
    rbind (readOptionalBinary data off left) (\<lambda>(owner, off, left).
    rbind (if nullish owner then Inr left else consume_decode_items 1 left) (\<lambda>left.
    Inr (JObj (object_of ([(''ref'', ref)] @ (if nullish part then [] else [(''partition_key'', part)]) @
      (if nullish owner then [] else [(''owner_flow_id'', owner)]))), off, left)))))))"

text \<open>The key of a record's field: a number of the table, or a text of its own.\<close>

definition flow_record_key :: "(jsstr + bytes) reader" where
  "flow_record_key data off left =
    rbind (require_available data off 1) (\<lambda>_.
    rbind (read_uint 1 data off) (\<lambda>n.
    if n = 0 then read_binary_key data (off + 1) left
    else Inr (Inl (if n < length FLOW_RECORD_FIELD_KEYS then ascii (FLOW_RECORD_FIELD_KEYS ! n)
      else ascii ''field_'' @ number_text (JInt (int n))), off + 1, left)))"

definition COMPACT_FLOW_RECORD :: nat where
  "COMPACT_FLOW_RECORD = 0x84"

definition COMPACT_FLOW_RECORD_LIST :: nat where
  "COMPACT_FLOW_RECORD_LIST = 0x85"

definition readCompactFlowRecord :: "jsval reader" where
  "readCompactFlowRecord data off left =
    rbind (require_available data off 5) (\<lambda>_.
    rbind (read_uint 1 data off) (\<lambda>tag.
    if tag \<noteq> COMPACT_FLOW_RECORD then Inl (ferric_error ''expected compact Flow record'')
    else rbind (read_uint 4 data (off + 1)) (\<lambda>count.
      rbind (requireCompactContainer count left) (\<lambda>left.
      rbind (read_entries flow_record_key decode_value_in count [] data (off + 5) left) (\<lambda>(kvs, off, left).
      Inr (JObj kvs, off, left))))))"

definition readCompactFlowRecordList :: "jsval reader" where
  "readCompactFlowRecordList data off left =
    rbind (require_available data off 5) (\<lambda>_.
    rbind (read_uint 1 data off) (\<lambda>tag.
    if tag \<noteq> COMPACT_FLOW_RECORD_LIST then Inl (ferric_error ''expected compact Flow record list'')
    else rbind (read_uint 4 data (off + 1)) (\<lambda>count.
      rbind (requireCompactContainer count left) (\<lambda>left.
      rbind (read_times (\<lambda>_. readCompactFlowRecord) 0 count data (off + 5) left) (\<lambda>(vs, off, left).
      Inr (JArr vs, off, left))))))"

section \<open>Pipelines\<close>

text \<open>
  What a compact response decodes to. \<open>Decoded\<close> is an array that \<open>markCompactPipelineDecoded\<close> has marked: the
  answers of the commands of a pipeline, errors among them as error objects.
\<close>

datatype item = Item jsval | Failed sdk_error

datatype reply = Plain jsval | Decoded "item list"

definition markCompactPipelineDecoded :: "jsval list \<Rightarrow> reply" where
  "markCompactPipelineDecoded vs = Decoded (map Item vs)"

definition MAX_ERROR_MESSAGE_CHARS :: nat where
  "MAX_ERROR_MESSAGE_CHARS = 4096"

definition MAX_ERROR_TEXT_BYTES :: nat where
  "MAX_ERROR_TEXT_BYTES = MAX_ERROR_MESSAGE_CHARS * 4"

definition truncate_message :: "jsstr \<Rightarrow> jsstr" where
  "truncate_message s =
    (if length s \<le> MAX_ERROR_MESSAGE_CHARS then s else take (MAX_ERROR_MESSAGE_CHARS - 1) s @ [0x2026])"

definition boundedBinaryText :: "bytes \<Rightarrow> jsstr" where
  "boundedBinaryText b = utf8_decode (subarray 0 MAX_ERROR_TEXT_BYTES b)"

text \<open>\<open>String(value)\<close> of a value that is no object.\<close>

fun string_of :: "jsval \<Rightarrow> jsstr" where
  "string_of JUndef = ascii ''undefined''"
| "string_of JHole = ascii ''undefined''"
| "string_of JNull = ascii ''null''"
| "string_of (JBool b) = ascii (if b then ''true'' else ''false'')"
| "string_of (JBig i) = number_text (JInt i)"
| "string_of (JStr s) = s"
| "string_of (JSym s) = ascii ''Symbol('' @ s @ ascii '')''"
| "string_of v = number_text v"

fun errorText :: "jsval \<Rightarrow> jsstr option" where
  "errorText (JStr s) = Some s"
| "errorText (JBuf b) = Some (boundedBinaryText b)"
| "errorText (JU8 b) = Some (boundedBinaryText b)"
| "errorText (JObj kvs) = (case own (ascii ''message'') kvs of
      None \<Rightarrow> None
    | Some m \<Rightarrow> (case m of
        JBuf b \<Rightarrow> Some (boundedBinaryText b)
      | JU8 b \<Rightarrow> Some (boundedBinaryText b)
      | JArr _ \<Rightarrow> None | JObj _ \<Rightarrow> None | JMap _ \<Rightarrow> None | JOther \<Rightarrow> None
      | _ \<Rightarrow> Some (string_of m)))"
| "errorText _ = None"

fun errorDescription :: "jsval \<Rightarrow> jsstr" where
  "errorDescription (JArr xs) = ascii ''[array length='' @ number_text (JInt (int (length xs))) @ ascii '']''"
| "errorDescription (JMap kvs) = ascii ''[map size='' @ number_text (JInt (int (length kvs))) @ ascii '']''"
| "errorDescription (JObj kvs) = ascii ''[object]''"
| "errorDescription JOther = ascii ''[object]''"
| "errorDescription v = string_of v"

definition protocolErrorMessage :: "nat \<Rightarrow> jsval \<Rightarrow> jsstr" where
  "protocolErrorMessage status v =
    (case errorText v of
       Some t \<Rightarrow> truncate_message t
     | None \<Rightarrow> truncate_message (ascii ''ERR native request failed status='' @ number_text (JInt (int status)) @
         ascii '': '' @ errorDescription v))"

text \<open>A successful item of a pipeline, by its kind.\<close>

definition success_reader :: "claim_mode \<Rightarrow> nat \<Rightarrow> jsval reader option" where
  "success_reader mode kind =
    (if kind = 0 then Some (\<lambda>data off left. Inr (JNull, off, left))
     else if kind = 1 then Some read_binary_value
     else if kind = 2 then Some readCompactFlowRecord
     else if kind = 3 then Some readCompactFlowRecordList
     else if kind = 4 then Some (readCompactClaimJob mode)
     else if kind = 5 then Some readCompactFlowValueRef
     else if kind = 6 then Some readCompactBinaryList
     else if kind = 7 then Some readCompactBinaryMap
     else None)"

definition pipeline_success :: "claim_mode \<Rightarrow> jsval reader" where
  "pipeline_success mode data off left =
    rbind (require_available data off 1) (\<lambda>_.
    rbind (read_uint 1 data off) (\<lambda>kind.
    case success_reader mode kind of
      Some rd \<Rightarrow> rd data (off + 1) left
    | None \<Rightarrow> Inl (ferric_error ''unknown compact pipeline success kind'')))"

definition pipeline_failure :: "nat \<Rightarrow> jsval \<Rightarrow> sdk_error" where
  "pipeline_failure status v =
    classifyServerError (protocolErrorMessage (if status = 1 then 4 else 1) v) v JUndef
      (JStr (ascii (if status = 1 then ''busy'' else ''error'')))"

text \<open>\<open>claimModes?.[index] ?? "base"\<close>.\<close>

definition mode_of_item :: "claim_mode option list option \<Rightarrow> nat \<Rightarrow> claim_mode" where
  "mode_of_item modes i =
    (case modes of None \<Rightarrow> ClaimBase
     | Some ms \<Rightarrow> if i < length ms then (case ms ! i of None \<Rightarrow> ClaimBase | Some m \<Rightarrow> m) else ClaimBase)"

definition pipeline_item :: "claim_mode option list option \<Rightarrow> nat \<Rightarrow> item reader" where
  "pipeline_item modes i data off left =
    rbind (require_available data off 1) (\<lambda>_.
    rbind (read_uint 1 data off) (\<lambda>status.
    if status = 0 then
      rbind (pipeline_success (mode_of_item modes i) data (off + 1) left) (\<lambda>(v, off, left). Inr (Item v, off, left))
    else if status = 1 \<or> status = 2 then
      rbind (read_binary_value data (off + 1) left) (\<lambda>(v, off, left). Inr (Failed (pipeline_failure status v), off, left))
    else Inl (Thrown FerricStoreError ''unknown compact pipeline status'' [JInt (int status), JBool False, JBool False])))"

definition decodeCompactPipeline :: "bytes \<Rightarrow> nat \<Rightarrow> claim_mode option list option \<Rightarrow> (item list \<times> nat) res" where
  "decodeCompactPipeline data left modes =
    rbind (list_count data left) (\<lambda>(count, left).
    if count > (length data - 5) div 2 then
      Inl (ferric_error ''compact pipeline item count exceeds response bytes'')
    else rbind (read_times (pipeline_item modes) 0 count data 5 left)
      (ends_body data ''trailing compact pipeline bytes''))"

section \<open>Query results\<close>

definition MAX_RECORDS :: nat where "MAX_RECORDS = 100"

definition MIN_CURSOR_BYTES :: nat where "MIN_CURSOR_BYTES = 16"

definition MAX_CURSOR_BYTES :: nat where "MAX_CURSOR_BYTES = 4096"

definition CURSOR_PREFIX :: bytes where
  "CURSOR_PREFIX = utf8_encode (ascii ''fqc1_'')"

definition QUERY_CONTRACT :: jsval where
  "QUERY_CONTRACT = JBuf (utf8_encode (ascii ''ferric.flow.query.result/v1''))"

definition MAX_SIGNED_64 :: int where "MAX_SIGNED_64 = 2 ^ 63 - 1"

definition RECORD_FIELDS :: "string list" where
  "RECORD_FIELDS = [''id'', ''type'', ''state'', ''version'', ''priority'', ''partition_key'', ''created_at_ms'',
    ''updated_at_ms'', ''next_run_at_ms'', ''lease_deadline_ms'', ''attempts'', ''run_state'', ''max_active_ms'',
    ''parent_flow_id'', ''root_flow_id'', ''correlation_id'', ''attributes'', ''state_meta'', ''event_id'', ''fields'']"

definition QUALITY_VALUES :: "string list list" where
  "QUALITY_VALUES = [[''authoritative'', ''projected_exact'', ''exact'', ''not_applicable''],
    [''current'', ''projection_watermark'', ''not_applicable''],
    [''complete'', ''unavailable''],
    [''none'', ''complete'', ''authenticated_seek'', ''live_seek'']]"

definition QUALITY_FIELDS :: "string list" where
  "QUALITY_FIELDS = [''exactness'', ''freshness'', ''coverage'', ''pagination'']"

definition USAGE_FIELDS :: "string list" where
  "USAGE_FIELDS = [''range_seeks'', ''range_pages'', ''scanned_entries'', ''scanned_bytes'', ''hydrated_records'',
    ''residual_checks'', ''duplicate_entries'', ''result_records'', ''response_bytes'', ''memory_high_water_bytes'',
    ''wall_time_us'']"

text \<open>\<open>detachDecodedBinary\<close> copies small slices out of a large backing buffer; their bytes stay the same.\<close>

definition readU64 :: "bytes \<Rightarrow> nat \<Rightarrow> (jsval \<times> nat) res" where
  "readU64 data off =
    rbind (require_available data off 8) (\<lambda>_.
    rbind (read_uint 8 data off) (\<lambda>n.
    Inr (if int n \<le> MAX_SAFE then JInt (int n) else JBig (int n), off + 8)))"

text \<open>\<open>BigInt(value)\<close> of a counter that was read.\<close>

fun counter :: "jsval \<Rightarrow> int" where
  "counter (JInt i) = i"
| "counter (JBig i) = i"
| "counter _ = 0"

definition usageInteger :: "js_object \<Rightarrow> string \<Rightarrow> int" where
  "usageInteger usage field = (case own (ascii field) usage of Some v \<Rightarrow> counter v | None \<Rightarrow> 0)"

fun read_quality :: "(string \<times> string list) list \<Rightarrow> bytes \<Rightarrow> nat \<Rightarrow> js_object \<Rightarrow> (js_object \<times> nat) res" where
  "read_quality [] data off quality = Inr (quality, off)"
| "read_quality ((field, vals) # schema) data off quality =
    rbind (read_uint 1 data off) (\<lambda>code.
    if code < length vals
    then read_quality schema data (off + 1) (put quality field (JBuf (utf8_encode (ascii (vals ! code)))))
    else Inl (ferric_error ''invalid compact FLOW.QUERY quality code''))"

fun read_usage :: "string list \<Rightarrow> bytes \<Rightarrow> nat \<Rightarrow> js_object \<Rightarrow> (js_object \<times> nat) res" where
  "read_usage [] data off usage = Inr (usage, off)"
| "read_usage (field # names) data off usage =
    rbind (readU64 data off) (\<lambda>(v, off).
    if counter v > MAX_SIGNED_64
    then Inl (ferric_error ''compact FLOW.QUERY usage exceeds signed 64-bit range'')
    else read_usage names data off (put usage field v))"

definition validateCompactUsage :: "js_object \<Rightarrow> unit res" where
  "validateCompactUsage usage =
    (let scanned = usageInteger usage ''scanned_entries'' in
     if usageInteger usage ''hydrated_records'' > scanned \<or>
        usageInteger usage ''duplicate_entries'' > scanned \<or>
        usageInteger usage ''range_pages'' > scanned + usageInteger usage ''range_seeks'' \<or>
        usageInteger usage ''residual_checks'' > scanned * 12
     then Inl (ferric_error ''compact FLOW.QUERY usage counters are inconsistent'') else Inr ())"

definition validateCompactRecordUsage :: "js_object \<Rightarrow> nat \<Rightarrow> unit res" where
  "validateCompactRecordUsage usage count =
    (let n = usageInteger usage ''result_records'' in
     if n \<noteq> int count \<or> n > usageInteger usage ''scanned_entries''
     then Inl (ferric_error ''compact FLOW.QUERY record usage is inconsistent'') else Inr ())"

definition readPage :: "bytes \<Rightarrow> nat \<Rightarrow> (jsval \<times> nat) res" where
  "readPage data off =
    rbind (require_available data off 5) (\<lambda>_.
    rbind (read_uint 1 data off) (\<lambda>more_code.
    rbind (read_uint 4 data (off + 1)) (\<lambda>n.
    if more_code = 0 \<and> n = NULL_U32 then
      Inr (JObj (object_of [(''has_more'', JBool False), (''cursor'', JNull)]), off + 5)
    else if more_code \<noteq> 1 \<or> n < MIN_CURSOR_BYTES \<or> n = NULL_U32 \<or> n > MAX_CURSOR_BYTES then
      Inl (ferric_error ''invalid compact FLOW.QUERY page cursor'')
    else rbind (require_available data (off + 5) n) (\<lambda>_.
      let cursor = subarray (off + 5) (off + 5 + n) data in
      if subarray 0 (length CURSOR_PREFIX) cursor \<noteq> CURSOR_PREFIX \<or> \<not> is_utf8 cursor then
        Inl (ferric_error ''invalid compact FLOW.QUERY page cursor'')
      else Inr (JObj (object_of [(''has_more'', JBool True), (''cursor'', JBuf cursor)]), off + 5 + n)))))"

text \<open>The fields whose bit is set, in the order of their numbers; \<open>populationCount\<close> is how many there are.\<close>

definition record_fields_of :: "nat \<Rightarrow> string list" where
  "record_fields_of bitmap = map (nth RECORD_FIELDS) (filter (\<lambda>i. odd (bitmap div 2 ^ i)) [0..<length RECORD_FIELDS])"

lemma and_nat_le: "(m::nat) AND n \<le> n"
proof (induction n arbitrary: m rule: less_induct)
  case (less n)
  show ?case
  proof (cases "n = 0")
    case False
    have "(m div 2) AND (n div 2) \<le> n div 2" using False less [of "n div 2"] by simp
    then have "m AND n \<le> of_bool (odd m \<and> odd n) + 2 * (n div 2)" by (subst and_nat_rec) simp
    also have "\<dots> \<le> n" by (cases "odd n") (simp_all add: odd_iff_mod_2_eq_one [symmetric])
    finally show ?thesis .
  qed simp
qed

function populationCount :: "nat \<Rightarrow> nat" where
  "populationCount n = (if n = 0 then 0 else Suc (populationCount (n AND (n - 1))))"
  by pat_completeness auto
termination
proof (relation "measure id")
  show "(n AND (n - 1), n) \<in> measure id" if "n \<noteq> 0" for n
    using and_nat_le [of n "n - 1"] that by simp
qed simp

declare populationCount.simps [simp del]

definition readRecord :: "nat \<Rightarrow> jsval reader" where
  "readRecord i data off left =
    rbind (require_available data off 4) (\<lambda>_.
    rbind (read_uint 4 data off) (\<lambda>bitmap.
    if bitmap \<ge> 2 ^ length RECORD_FIELDS then Inl (ferric_error ''compact FLOW.QUERY record contains reserved fields'')
    else rbind (consume_decode_items (populationCount bitmap) left) (\<lambda>left.
      rbind (read_times (\<lambda>_. decode_value_in) 0 (length (record_fields_of bitmap)) data (off + 4) left) (\<lambda>(vs, off, left).
      Inr (JObj (object_of (zip (record_fields_of bitmap) vs)), off, left)))))"

definition query_records :: "js_object \<Rightarrow> js_object \<Rightarrow> bytes \<Rightarrow> nat \<Rightarrow> nat \<Rightarrow> (jsval \<times> nat \<times> nat) res" where
  "query_records quality usage data off left =
    rbind (readPage data off) (\<lambda>(page, off).
    rbind (require_available data off 4) (\<lambda>_.
    rbind (read_uint 4 data off) (\<lambda>count.
    if count > MAX_RECORDS then Inl (ferric_error ''compact FLOW.QUERY page exceeds 100 records'')
    else rbind (validateCompactRecordUsage usage count) (\<lambda>_.
      rbind (consume_decode_items count left) (\<lambda>left.
      rbind (read_times readRecord 0 count data (off + 4) left) (\<lambda>(records, off, left).
      Inr (JObj (object_of [(''version'', QUERY_CONTRACT), (''records'', JArr records), (''page'', page),
        (''quality'', JObj quality), (''usage'', JObj usage)]), off, left)))))))"

definition query_count :: "js_object \<Rightarrow> js_object \<Rightarrow> bytes \<Rightarrow> nat \<Rightarrow> nat \<Rightarrow> (jsval \<times> nat \<times> nat) res" where
  "query_count quality usage data off left =
    (if usageInteger usage ''result_records'' \<noteq> 1 then
       Inl (ferric_error ''compact FLOW.QUERY count usage is inconsistent'')
     else rbind (readU64 data off) (\<lambda>(v, off).
       if counter v > MAX_SIGNED_64 then Inl (ferric_error ''compact FLOW.QUERY count exceeds signed 64-bit range'')
       else Inr (JObj (object_of [(''version'', QUERY_CONTRACT),
         (''result'', JObj (object_of [(''kind'', JBuf (utf8_encode (ascii ''count''))), (''value'', v)])),
         (''quality'', JObj quality), (''usage'', JObj usage)]), off, left)))"

definition COMPACT_FLOW_QUERY_RESULT :: nat where
  "COMPACT_FLOW_QUERY_RESULT = 0xA0"

definition decodeCompactFlowQueryResult :: "bytes \<Rightarrow> nat \<Rightarrow> (jsval \<times> nat) res" where
  "decodeCompactFlowQueryResult data left =
    rbind (require_available data 0 (2 + length QUALITY_FIELDS + length USAGE_FIELDS * 8)) (\<lambda>_.
    rbind (read_uint 1 data 0) (\<lambda>tag.
    if tag \<noteq> COMPACT_FLOW_QUERY_RESULT then Inl (ferric_error ''expected compact FLOW.QUERY result'')
    else rbind (read_uint 1 data 1) (\<lambda>kind.
      rbind (read_quality (zip QUALITY_FIELDS QUALITY_VALUES) data 2 []) (\<lambda>(quality, off).
      rbind (read_usage USAGE_FIELDS data off []) (\<lambda>(usage, off).
      rbind (validateCompactUsage usage) (\<lambda>_.
      rbind (if kind = 0 then query_records quality usage data off left
          else if kind = 1 then query_count quality usage data off left
          else Inl (Thrown FerricStoreError ''unsupported compact FLOW.QUERY result kind'' [JInt (int kind)])) (\<lambda>(v, off, left).
      if off \<noteq> length data then Inl (ferric_error ''trailing compact FLOW.QUERY result bytes'')
      else if usageInteger usage ''response_bytes'' \<noteq> int (length data) then
        Inl (ferric_error ''compact FLOW.QUERY response_bytes does not match its payload'')
      else Inr (v, left))))))))"

section \<open>Choosing the codec\<close>

text \<open>\<open>ResponseDecodeHints\<close>; \<open>compactResponseOpcodes\<close> maps a codec to the opcodes the server uses it for.\<close>

record decode_hints =
  hint_claim_mode :: "claim_mode option"
  hint_items :: "nat option"
  hint_opcodes :: "(string \<times> nat list) list option"
  hint_pipeline_modes :: "claim_mode option list option"

definition compactResponseOpcodeSupports :: "(string \<times> nat list) list option \<Rightarrow> string \<Rightarrow> nat \<Rightarrow> bool" where
  "compactResponseOpcodeSupports capabilities codec opcode =
    (case capabilities of None \<Rightarrow> False
     | Some m \<Rightarrow> (case map_of m codec of None \<Rightarrow> False | Some ops \<Rightarrow> opcode \<in> set ops))"

definition supports :: "decode_hints \<Rightarrow> string \<Rightarrow> nat \<Rightarrow> bool" where
  "supports hints codec opcode = compactResponseOpcodeSupports (hint_opcodes hints) codec opcode"

definition COUNTED_COMPACT_TAGS :: "nat list" where
  "COUNTED_COMPACT_TAGS = [0x80, 0x81, 0x83, 0x85, 0x86, 0x87, 0x88, 0x89, 0x95]"

definition validateCompactResponseItems :: "nat \<Rightarrow> nat \<Rightarrow> bytes \<Rightarrow> decode_hints \<Rightarrow> unit res" where
  "validateCompactResponseItems tag opcode data hints =
    (case (if opcode = command_opcode ''SET'' \<or> opcode = command_opcode ''MSET'' then Some 1 else hint_items hints) of
       None \<Rightarrow> Inr ()
     | Some expected \<Rightarrow>
         if tag \<notin> set COUNTED_COMPACT_TAGS then Inr ()
         else rbind (require_available data 0 5) (\<lambda>_.
           rbind (read_uint 4 data 1) (\<lambda>actual.
           if actual \<noteq> expected then
             Inl (Thrown FerricStoreError ''compact response returned a wrong number of items'' [JInt (int actual), JInt (int expected)])
           else Inr ())))"

text \<open>The array a list codec returns: marked when it answers a pipeline.\<close>

definition list_reply :: "nat \<Rightarrow> (jsval list \<times> nat) res \<Rightarrow> reply option res" where
  "list_reply opcode r = rbind r (\<lambda>(vs, left).
    Inr (Some (if opcode = command_opcode ''PIPELINE'' then markCompactPipelineDecoded vs else Plain (JArr vs))))"

definition marked_reply :: "(jsval list \<times> nat) res \<Rightarrow> reply option res" where
  "marked_reply r = rbind r (\<lambda>(vs, left). Inr (Some (markCompactPipelineDecoded vs)))"

definition plain_reply :: "(jsval \<times> nat) res \<Rightarrow> reply option res" where
  "plain_reply r = rbind r (\<lambda>(v, left). Inr (Some (Plain v)))"

definition ok_reply :: "nat \<Rightarrow> jsval list \<Rightarrow> reply" where
  "ok_reply opcode vs =
    (if opcode = command_opcode ''PIPELINE'' then markCompactPipelineDecoded vs
     else Plain (if length vs = 1 then JStr (ascii ''OK'') else JArr vs))"

definition row_list :: "jsval \<Rightarrow> jsval list" where
  "row_list v = (case v of JArr vs \<Rightarrow> vs | _ \<Rightarrow> [])"

definition compact_record :: "bytes \<Rightarrow> nat \<Rightarrow> (jsval \<times> nat) res" where
  "compact_record data left = rbind (readCompactFlowRecord data 0 left) (ends_body data ''trailing compact Flow record bytes'')"

definition compact_record_list :: "bytes \<Rightarrow> nat \<Rightarrow> (jsval list \<times> nat) res" where
  "compact_record_list data left =
    rbind (rbind (readCompactFlowRecordList data 0 left) (ends_body data ''trailing compact Flow record list bytes''))
      (\<lambda>(v, left). Inr (row_list v, left))"

text \<open>\<open>None\<close> when no codec that the server may use for the opcode has the tag.\<close>

definition decode_tagged :: "nat \<Rightarrow> nat \<Rightarrow> bytes \<Rightarrow> decode_hints \<Rightarrow> reply option res" where
  "decode_tagged tag opcode body hints =
    (let left = DEFAULT_MAX_VALUE_ITEMS;
         pipeline = (opcode = command_opcode ''PIPELINE'' \<and> supports hints ''pipeline_v1'' opcode) in
     if tag = 0x81 \<and> (supports hints ''ok_list_v1'' opcode \<or> pipeline) then
       rbind (decodeCompactOkList body left) (\<lambda>(vs, left). Inr (Some (ok_reply opcode vs)))
     else if tag = 0x82 \<and> supports hints ''kv_get_v1'' opcode then
       rbind (decodeCompactKvGet body) (\<lambda>v. Inr (Some (Plain v)))
     else if (tag = 0x83 \<or> tag = 0x89) \<and> (supports hints ''kv_mget_v1'' opcode \<or> pipeline) then
       list_reply opcode (if tag = 0x83 then decodeCompactMget body left else decodeCompactMgetFixed body left)
     else if tag = 0x88 \<and> pipeline then marked_reply (decodeCompactIntegerList body left)
     else if tag = 0x86 \<and> pipeline then marked_reply (decodeCompactBinaryListList body left)
     else if tag = 0x87 \<and> pipeline then marked_reply (decodeCompactBinaryMapList body left)
     else if tag = 0x95 \<and> pipeline then
       rbind (decodeCompactPipeline body left (hint_pipeline_modes hints)) (\<lambda>(items, left). Inr (Some (Decoded items)))
     else if tag = 0x80 \<and> (supports hints ''flow_claim_jobs_v1'' opcode \<or> pipeline) then
       list_reply opcode (decodeCompactClaimJobs body left (hint_claim_mode hints))
     else if tag = COMPACT_FLOW_RECORD \<and> supports hints ''flow_record_v1'' opcode then
       plain_reply (compact_record body left)
     else if tag = COMPACT_FLOW_RECORD_LIST \<and> (supports hints ''flow_record_list_v1'' opcode \<or> pipeline) then
       list_reply opcode (compact_record_list body left)
     else if tag = COMPACT_FLOW_QUERY_RESULT \<and> supports hints ''flow_query_result_v1'' opcode then
       plain_reply (decodeCompactFlowQueryResult body left)
     else Inr None)"

definition tryDecodeCompactResponse :: "nat \<Rightarrow> bytes \<Rightarrow> decode_hints \<Rightarrow> reply option res" where
  "tryDecodeCompactResponse opcode body hints =
    (if body = [] then Inr None
     else rbind (read_uint 1 body 0) (\<lambda>tag.
       rbind (validateCompactResponseItems tag opcode body hints) (\<lambda>_.
       decode_tagged tag opcode body hints)))"

end
