(* ===== verification/CompactResponseBounds.thy ===== *)
theory CompactResponseBounds
  imports CompactResponse
begin

text \<open>
  What holds of the readers of compact responses on any bytes at all: they stay inside the body, take from
  the item budget exactly the container slots of what they return, and refuse with an error of the library,
  never with a \<open>RangeError\<close> of a read outside the buffer.
\<close>

section \<open>The contract of a reader\<close>

definition library_error :: "error \<Rightarrow> bool" where
  "library_error e = (case e of Thrown c msg args \<Rightarrow> c = FerricStoreError)"

lemma library_error_simps [simp]: "library_error (Thrown c msg args) \<longleftrightarrow> c = FerricStoreError"
  by (simp add: library_error_def)

text \<open>A computation that returns a result with a property, or refuses with an error of the library.\<close>

definition safe :: "'a res \<Rightarrow> ('a \<Rightarrow> bool) \<Rightarrow> bool" where
  "safe m P = (case m of Inl e \<Rightarrow> library_error e | Inr x \<Rightarrow> P x)"

lemma safe_bind: "safe m P \<Longrightarrow> (\<And>x. P x \<Longrightarrow> safe (f x) Q) \<Longrightarrow> safe (rbind m f) Q"
  by (cases m) (simp_all add: safe_def)

lemma safe_bind_read:
  "safe m (\<lambda>(v, off, left). P v off left) \<Longrightarrow> (\<And>v off left. P v off left \<Longrightarrow> safe (f v off left) Q) \<Longrightarrow>
    safe (rbind m (\<lambda>(v, off, left). f v off left)) Q"
  by (cases m) (auto simp: safe_def)

lemma safe_bind_pair:
  "safe m (\<lambda>(a, b). P a b) \<Longrightarrow> (\<And>a b. P a b \<Longrightarrow> safe (f a b) Q) \<Longrightarrow> safe (rbind m (\<lambda>(a, b). f a b)) Q"
  by (cases m) (auto simp: safe_def)

lemma safe_Inr: "P x \<Longrightarrow> safe (Inr x) P"
  by (simp add: safe_def)

lemma safe_slots: "safe (consume_decode_items n left) (\<lambda>_. True)"
  by (simp add: safe_def consume_decode_items_def)

locale wire_reader =
  fixes rd :: "nat \<Rightarrow> 'a reader" and weight :: "'a \<Rightarrow> nat"
  assumes stays: "rd i data off left = Inr (v, off', left') \<Longrightarrow> off \<le> length data \<Longrightarrow>
      off \<le> off' \<and> off' \<le> length data \<and> left = left' + weight v"
    and refuses: "rd i data off left = Inl e \<Longrightarrow> off \<le> length data \<Longrightarrow> library_error e"
begin

lemma rows_stay:
  "read_times rd i n data off left = Inr (vs, off', left') \<Longrightarrow> off \<le> length data \<Longrightarrow>
    off \<le> off' \<and> off' \<le> length data \<and> length vs = n \<and> left = left' + sum_list (map weight vs)"
proof (induction n arbitrary: i off left vs)
  case (Suc n)
  from Suc.prems(1) obtain v o1 l1 ws where h: "rd i data off left = Inr (v, o1, l1)"
    "read_times rd (Suc i) n data o1 l1 = Inr (ws, off', left')" "vs = v # ws" by auto
  from stays [OF h(1) Suc.prems(2)] Suc.IH [OF h(2)] h(3) show ?case by auto
qed simp

lemma rows_refuse: "read_times rd i n data off left = Inl e \<Longrightarrow> off \<le> length data \<Longrightarrow> library_error e"
proof (induction n arbitrary: i off left)
  case (Suc n)
  then show ?case
    using stays [of i data off left] refuses [of i data off left] by (auto simp: rbind_eq_Inl)
qed simp

lemma safe_read: "off \<le> length data \<Longrightarrow> safe (rd i data off left) (\<lambda>(v, off', left'). off' \<le> length data)"
  using stays [of i data off left] refuses [of i data off left] by (auto simp: safe_def split: sum.splits)

end

section \<open>The tagged values\<close>

lemma read_binary_refuses: "read_binary data off = Inl e \<Longrightarrow> library_error e"
  by (auto simp: read_binary_def require_available_def value_truncated_def Let_def rbind_eq_Inl split: if_splits)

lemma set_entry_refuses: "set_protocol_map_entry target key v = Inl e \<Longrightarrow> library_error e"
  by (auto simp: set_protocol_map_entry_def Let_def split: if_splits)

lemma require_value_container_refuses: "require_value_container n d limits left = Inl e \<Longrightarrow> library_error e"
  by (auto simp: require_value_container_def consume_decode_items_def split: if_splits)

lemma require_available_refuses: "require_available data off n = Inl e \<Longrightarrow> library_error e"
  by (auto simp: require_available_def value_truncated_def)

lemmas value_refusals = read_binary_refuses set_entry_refuses require_value_container_refuses require_available_refuses

lemma decode_refuses:
  "decode_at data off limits left d = Inl e \<Longrightarrow> library_error e"
  "decode_items data off n limits left d = Inl e \<Longrightarrow> library_error e"
  "decode_entries data off n target limits left d = Inl e \<Longrightarrow> library_error e"
proof (induction data off limits left d and data off n limits left d and data off n target limits left d
    arbitrary: e and e and e rule: decode_at_decode_items_decode_entries.induct)
  case (1 data off limits left d)
  note prem = "1.prems" [unfolded decode_at.simps [of data off limits left d] Let_def]
  consider "unat (data ! off) = 5" | "unat (data ! off) = 6" | "unat (data ! off) \<noteq> 5" "unat (data ! off) \<noteq> 6"
    by blast
  then show ?case
  proof cases
    case 1
    with prem "1.IH"(1) show ?thesis by (auto simp: rbind_eq_Inl dest: value_refusals)
  next
    case 2
    with prem "1.IH"(2) show ?thesis by (auto simp: rbind_eq_Inl dest: value_refusals)
  next
    case 3
    with prem show ?thesis by (auto simp: rbind_eq_Inl dest: value_refusals split: if_splits)
  qed
next
  case (3 data off n limits left d)
  from "3.prems" "3.IH" show ?case by (auto simp: rbind_eq_Inl)
next
  case (5 data off n target limits left d)
  from "5.prems" "5.IH" show ?case by (auto simp: rbind_eq_Inl dest: value_refusals)
qed simp_all

interpretation tagged: wire_reader "\<lambda>_. decode_value_in" value_items
  by unfold_locales
    (auto simp: decode_value_in_def decode_value_with_budget_def dest: decode_budget(1) decode_refuses(1))

lemma read_uint_refuses: "off + k \<le> length data \<Longrightarrow> read_uint k data off \<noteq> Inl e"
  by (simp add: read_uint_def)

interpretation binary: wire_reader "\<lambda>_. read_binary_value" value_items
  by unfold_locales (auto simp: read_binary_value_def rbind_eq_Inl dest: read_binary_bounds read_binary_refuses)

lemmas reading = rbind_eq_Inl require_available_def value_truncated_def read_uint_def read_int64_def
  requireCompactContainer_def consume_decode_items_def

interpretation optional: wire_reader "\<lambda>_. readOptionalBinary" value_items
  by unfold_locales (auto simp: readOptionalBinary_def reading split: if_splits)

interpretation integers: wire_reader "\<lambda>i data off left. rbind (require_available data off 8) (\<lambda>_. integer_at i data off left)" value_items
  by unfold_locales (auto simp: integer_at_def safe_or_big_def reading split: if_splits)

interpretation mget: wire_reader mget_value value_items
  using binary.stays binary.refuses
  by unfold_locales (fastforce simp: mget_value_def reading split: if_splits)+

section \<open>Collections\<close>

interpretation binary_list: wire_reader "\<lambda>_. readCompactBinaryList" value_items
  by unfold_locales (auto simp: readCompactBinaryList_def reading split: if_splits dest: binary.rows_stay binary.rows_refuse)

text \<open>Objects: a key and a value per entry, each key once.\<close>

lemma fresh_entry_items:
  assumes "own k target = None"
  shows "length (set_own target k v) = Suc (length target)"
    "entries_items (set_own target k v) = value_items v + entries_items target"
proof -
  define a where "a = takeWhile (\<lambda>e. stays_before k (fst e)) target"
  define b where "b = dropWhile (\<lambda>e. stays_before k (fst e)) target"
  have split: "target = a @ b" by (simp add: a_def b_def)
  have eq: "set_own target k v = a @ (k, v) # b" using assms by (simp add: set_own_def a_def b_def)
  show "length (set_own target k v) = Suc (length target)" unfolding eq by (simp add: split)
  show "entries_items (set_own target k v) = value_items v + entries_items target"
    unfolding eq by (simp add: split entries_items_def)
qed

lemma set_map_entry_stays:
  "setProtocolMapEntry target k v = Inr target' \<Longrightarrow>
    length target' = Suc (length target) \<and> entries_items target' = value_items v + entries_items target"
  by (cases k) (auto simp: setProtocolMapEntry_def fresh_entry_items split: if_splits)

lemma set_map_entry_refuses: "setProtocolMapEntry target k v = Inl e \<Longrightarrow> library_error e"
  by (cases k) (auto simp: setProtocolMapEntry_def split: if_splits)

locale entry_reader = wire_reader "\<lambda>_. val" value_items for val :: "jsval reader" +
  fixes key :: "(jsstr + bytes) reader"
  assumes key_stays: "key data off left = Inr (k, off', left') \<Longrightarrow> off \<le> length data \<Longrightarrow>
      off \<le> off' \<and> off' \<le> length data \<and> left' = left"
    and key_refuses: "key data off left = Inl e \<Longrightarrow> off \<le> length data \<Longrightarrow> library_error e"
begin

lemma entries_stay:
  "read_entries key val n target data off left = Inr (kvs, off', left') \<Longrightarrow> off \<le> length data \<Longrightarrow>
    off \<le> off' \<and> off' \<le> length data \<and> length kvs = length target + n \<and>
    left + entries_items target = left' + entries_items kvs"
proof (induction n arbitrary: target off left)
  case (Suc n)
  from Suc.prems(1) obtain k o1 l1 v o2 l2 target' where h: "key data off left = Inr (k, o1, l1)"
    "val data o1 l1 = Inr (v, o2, l2)" "setProtocolMapEntry target k v = Inr target'"
    "read_entries key val n target' data o2 l2 = Inr (kvs, off', left')" by auto
  from key_stays [OF h(1) Suc.prems(2)] stays [OF h(2)] Suc.IH [OF h(4)] set_map_entry_stays [OF h(3)]
  show ?case by auto
qed simp

lemma entries_refuse: "read_entries key val n target data off left = Inl e \<Longrightarrow> off \<le> length data \<Longrightarrow> library_error e"
proof (induction n arbitrary: target off left)
  case (Suc n)
  from Suc.prems(1) consider "key data off left = Inl e"
    | k o1 l1 where "key data off left = Inr (k, o1, l1)" "val data o1 l1 = Inl e"
    | k o1 l1 v o2 l2 where "key data off left = Inr (k, o1, l1)" "val data o1 l1 = Inr (v, o2, l2)"
        "setProtocolMapEntry target k v = Inl e"
    | k o1 l1 v o2 l2 target' where "key data off left = Inr (k, o1, l1)" "val data o1 l1 = Inr (v, o2, l2)"
        "read_entries key val n target' data o2 l2 = Inl e"
    by (auto simp: rbind_eq_Inl)
  then show ?case
  proof cases
    case 1
    then show ?thesis using key_refuses Suc.prems(2) by blast
  next
    case 2
    then show ?thesis using key_stays [OF 2(1) Suc.prems(2)] refuses by blast
  next
    case 3
    then show ?thesis using set_map_entry_refuses by blast
  next
    case 4
    then show ?thesis using key_stays [OF 4(1) Suc.prems(2)] stays [OF 4(2)] Suc.IH by blast
  qed
qed simp

end

lemma read_binary_key_stays: "read_binary_key data off left = Inr (k, off', left') \<Longrightarrow>
    off \<le> off' \<and> off' \<le> length data \<and> left' = left"
  by (auto simp: read_binary_key_def dest: read_binary_bounds)

lemma read_binary_key_refuses: "read_binary_key data off left = Inl e \<Longrightarrow> library_error e"
  by (auto simp: read_binary_key_def rbind_eq_Inl dest: read_binary_refuses)

interpretation binary_entries: entry_reader read_binary_value read_binary_key
  by unfold_locales (auto dest: read_binary_key_stays read_binary_key_refuses)

interpretation record_entries: entry_reader decode_value_in flow_record_key
  by unfold_locales
    (auto simp: flow_record_key_def reading split: if_splits dest: read_binary_key_stays read_binary_key_refuses)

lemma object_items: "value_items (JObj kvs) = length kvs + entries_items kvs"
  by (simp add: entries_items_def)

interpretation binary_map: wire_reader "\<lambda>_. readCompactBinaryMap" value_items
  by unfold_locales
    (auto simp: readCompactBinaryMap_def reading object_items entries_items_def [of "[]"] simp del: value_items.simps
      split: if_splits dest!: binary_entries.entries_stay dest: binary_entries.entries_refuse)

section \<open>Flow answers\<close>

interpretation flow_record: wire_reader "\<lambda>_. readCompactFlowRecord" value_items
  by unfold_locales
    (auto simp: readCompactFlowRecord_def reading object_items entries_items_def [of "[]"] simp del: value_items.simps
      split: if_splits dest!: record_entries.entries_stay dest: record_entries.entries_refuse)

interpretation record_list: wire_reader "\<lambda>_. readCompactFlowRecordList" value_items
  by unfold_locales (auto simp: readCompactFlowRecordList_def reading split: if_splits
      dest: flow_record.rows_stay flow_record.rows_refuse)

text \<open>A claimed job: the first four fields are the same in every form.\<close>

definition claim_row :: "jsval list reader" where
  "claim_row data off left =
    rbind (read_binary_value data off left) (\<lambda>(job, off, left).
    rbind (readOptionalBinary data off left) (\<lambda>(part, off, left).
    rbind (read_binary_value data off left) (\<lambda>(lease, off, left).
    rbind (require_available data off 8) (\<lambda>_.
    rbind (read_int64 data off) (\<lambda>fencing.
    Inr ([job, part, lease, safe_or_big fencing], off + 8, left))))))"

definition claim_tail :: "claim_mode \<Rightarrow> jsval list \<Rightarrow> jsval reader" where
  "claim_tail mode row data off left =
    (case mode of
      ClaimBase \<Rightarrow> rbind (consume_decode_items 4 left) (\<lambda>left. Inr (JArr row, off, left))
    | ClaimAttrs \<Rightarrow>
        rbind (consume_decode_items 6 left) (\<lambda>left.
        rbind (decode_value_in data off left) (\<lambda>(attrs, off, left). Inr (JArr (row @ [JNull, attrs]), off, left)))
    | ClaimState \<Rightarrow>
        rbind (readOptionalBinary data off left) (\<lambda>(run_state, off, left).
        rbind (consume_decode_items 5 left) (\<lambda>left. Inr (JArr (row @ [run_state]), off, left)))
    | ClaimStateAttrs \<Rightarrow>
        rbind (readOptionalBinary data off left) (\<lambda>(run_state, off, left).
        rbind (consume_decode_items 6 left) (\<lambda>left.
        rbind (decode_value_in data off left) (\<lambda>(attrs, off, left).
        Inr (JArr (row @ [run_state, attrs]), off, left)))))"

lemma claim_job_split:
  "readCompactClaimJob mode data off left = rbind (claim_row data off left) (\<lambda>(row, off, left). claim_tail mode row data off left)"
  by (simp add: readCompactClaimJob_def claim_row_def claim_tail_def Let_def rbind_def split: sum.splits)

lemma claim_row_stays:
  "claim_row data off left = Inr (row, off', left') \<Longrightarrow> off \<le> length data \<Longrightarrow>
    off \<le> off' \<and> off' \<le> length data \<and> length row = 4 \<and> left = left' + sum_list (map value_items row)"
  by (auto simp: claim_row_def safe_or_big_def reading split: if_splits dest!: binary.stays optional.stays)

lemma claim_row_refuses: "claim_row data off left = Inl e \<Longrightarrow> off \<le> length data \<Longrightarrow> library_error e"
  unfolding claim_row_def
  by (auto simp: reading split: if_splits dest: binary.refuses optional.refuses dest!: binary.stays optional.stays)

lemma claim_tail_stays:
  "claim_tail mode row data off left = Inr (v, off', left') \<Longrightarrow> off \<le> length data \<Longrightarrow> length row = 4 \<Longrightarrow>
    off \<le> off' \<and> off' \<le> length data \<and> left + sum_list (map value_items row) = left' + value_items v"
  by (cases mode)
    (auto simp: claim_tail_def consume_decode_items_def split: if_splits dest!: tagged.stays optional.stays)

lemma claim_tail_refuses: "claim_tail mode row data off left = Inl e \<Longrightarrow> off \<le> length data \<Longrightarrow> library_error e"
  by (cases mode)
    (auto simp: claim_tail_def rbind_eq_Inl consume_decode_items_def split: if_splits
      dest: tagged.refuses optional.refuses dest!: optional.stays)

interpretation claim_job: wire_reader "\<lambda>_. readCompactClaimJob mode" value_items for mode
proof (unfold_locales, goal_cases)
  case (1 i data off left v off' left')
  then show ?case
    by (auto simp: claim_job_split dest!: claim_row_stays claim_tail_stays)
next
  case (2 i data off left e)
  then show ?case
    by (auto simp: claim_job_split rbind_eq_Inl dest: claim_row_refuses claim_tail_refuses dest!: claim_row_stays)
qed

text \<open>One slot for a field that is there.\<close>

lemma field_slot:
  "(if nullish v then Inr left else consume_decode_items 1 left) = Inr left' \<Longrightarrow>
    left = left' + (if nullish v then 0 else 1)"
  "(if nullish v then Inr left else consume_decode_items 1 left) = Inl e \<Longrightarrow> library_error e"
  by (auto simp: consume_decode_items_def split: if_splits)

lemma safe_field: "safe (if nullish v then Inr left else consume_decode_items 1 left) (\<lambda>_. True)"
  by (simp add: safe_def consume_decode_items_def)

interpretation value_ref: wire_reader "\<lambda>_. readCompactFlowValueRef" value_items
proof (unfold_locales, goal_cases)
  case (1 i data off left v off' left')
  from 1(1) obtain l0 ref o1 l1 part o2 l2 l3 owner o4 l4 where h: "consume_decode_items 1 left = Inr l0"
    "read_binary_value data off l0 = Inr (ref, o1, l1)" "readOptionalBinary data o1 l1 = Inr (part, o2, l2)"
    "(if nullish part then Inr l2 else consume_decode_items 1 l2) = Inr l3"
    "readOptionalBinary data o2 l3 = Inr (owner, o4, l4)"
    "(if nullish owner then Inr l4 else consume_decode_items 1 l4) = Inr left'"
    "off' = o4" "v = JObj (object_of ([(''ref'', ref)] @ (if nullish part then [] else [(''partition_key'', part)]) @
      (if nullish owner then [] else [(''owner_flow_id'', owner)])))"
    unfolding readCompactFlowValueRef_def by fastforce
  have null: "value_items w = 0" if "nullish w" for w using that by (auto simp: nullish_def)
  have "left = Suc l0" using h(1) by (simp add: consume_decode_items_def split: if_splits)
  moreover note binary.stays [OF h(2) 1(2)]
  moreover from this have "o1 \<le> length data" by simp
  note optional.stays [OF h(3) this]
  moreover from this have "o2 \<le> length data" by simp
  note optional.stays [OF h(5) this]
  moreover note field_slot(1) [OF h(4)] field_slot(1) [OF h(6)]
  ultimately show ?case by (simp add: h(7,8) object_of_def null)
next
  case (2 i data off left e)
  have "safe (readCompactFlowValueRef data off left) (\<lambda>_. True)"
    unfolding readCompactFlowValueRef_def
    by (intro safe_bind [OF safe_slots] safe_bind [OF safe_field] safe_bind_read [OF binary.safe_read]
        safe_bind_read [OF optional.safe_read] safe_Inr TrueI 2(2))
  with 2(1) show ?case by (simp add: safe_def)
qed

section \<open>Pipelines\<close>

definition item_weight :: "item \<Rightarrow> nat" where
  "item_weight x = (case x of Item v \<Rightarrow> value_items v | Failed e \<Rightarrow> 0)"

lemma success_readers: "success_reader mode kind = Some rd \<Longrightarrow> wire_reader (\<lambda>_. rd) value_items"
  by (auto simp: success_reader_def split: if_splits
    intro: binary.wire_reader_axioms flow_record.wire_reader_axioms record_list.wire_reader_axioms
      claim_job.wire_reader_axioms value_ref.wire_reader_axioms binary_list.wire_reader_axioms binary_map.wire_reader_axioms
      wire_reader.intro)

interpretation success: wire_reader "\<lambda>_. pipeline_success mode" value_items for mode
proof (unfold_locales, goal_cases)
  case (1 i data off left v off' left')
  from 1(1) obtain kind rd where h: "off + 1 \<le> length data" "success_reader mode kind = Some rd"
      "rd data (off + 1) left = Inr (v, off', left')"
    by (auto simp: pipeline_success_def require_available_def split: option.splits)
  from wire_reader.stays [OF success_readers [OF h(2)] h(3,1)] show ?case by simp
next
  case (2 i data off left e)
  then consider "library_error e"
    | kind rd where "off + 1 \<le> length data" "success_reader mode kind = Some rd" "rd data (off + 1) left = Inl e"
    by (auto simp: pipeline_success_def reading split: option.splits if_splits)
  then show ?case using wire_reader.refuses [OF success_readers] by metis
qed

text \<open>The value in an error of a pipeline is a binary, so it takes no slot.\<close>

lemma binary_value_shape:
  "read_binary_value data off left = Inr (v, off', left') \<Longrightarrow> value_items v = 0 \<and> left' = left"
  by (auto simp: read_binary_value_def)

interpretation items: wire_reader "pipeline_item modes" item_weight for modes
proof (unfold_locales, goal_cases)
  case (1 i data off left v off' left')
  then show ?case
    by (auto simp: pipeline_item_def reading item_weight_def split: if_splits
      dest!: success.stays dest: binary.stays binary_value_shape)
next
  case (2 i data off left e)
  then show ?case
    by (auto simp: pipeline_item_def reading split: if_splits dest: success.refuses binary.refuses)
qed

section \<open>Whole responses\<close>

text \<open>The container slots of what a compact response decodes to.\<close>

definition reply_items :: "reply \<Rightarrow> nat" where
  "reply_items r = (case r of Plain v \<Rightarrow> value_items v | Decoded xs \<Rightarrow> length xs + sum_list (map item_weight xs))"

text \<open>A list with the budget it was read under: its slots are what was taken.\<close>

definition list_bounded :: "nat \<Rightarrow> jsval list \<times> nat \<Rightarrow> bool" where
  "list_bounded left r = (case r of (vs, left') \<Rightarrow> left = left' + value_items (JArr vs))"

lemma safe_cong: "safe m P \<Longrightarrow> (\<And>x. P x \<Longrightarrow> Q x) \<Longrightarrow> safe m Q"
  by (auto simp: safe_def split: sum.splits)

lemma safe_if: "(b \<Longrightarrow> safe m P) \<Longrightarrow> (\<not> b \<Longrightarrow> safe m' P) \<Longrightarrow> safe (if b then m else m') P"
  by simp

lemma safe_refused: "safe (Inl (Thrown FerricStoreError msg args)) P"
  by (simp add: safe_def)

lemma safe_container: "safe (requireCompactContainer count left) (\<lambda>left'. left = left' + count)"
  by (simp add: safe_def requireCompactContainer_def consume_decode_items_def)

lemma safe_available: "safe (require_available data off n) (\<lambda>_. off + n \<le> length data)"
  by (simp add: safe_def require_available_def require_ok_def value_truncated_def)

lemma safe_uint: "off + k \<le> length data \<Longrightarrow> safe (read_uint k data off) (\<lambda>_. True)"
  by (simp add: safe_def read_uint_def)

lemma safe_list_count:
  "safe (list_count data left) (\<lambda>(count, left'). 5 \<le> length data \<and> left = left' + count)"
  unfolding list_count_def
  by (rule safe_bind [OF safe_available], rule safe_bind [OF safe_uint], simp, rule safe_bind [OF safe_container])
    (simp add: safe_Inr)

lemma safe_ends: "safe (Inr r) (\<lambda>(v, off, left). P (v, left)) \<Longrightarrow> safe (ends_body data msg r) P"
  by (auto simp: ends_body_def safe_def)

context wire_reader
begin

lemma safe_rows:
  assumes "off \<le> length data"
  shows "safe (read_times rd i n data off left)
    (\<lambda>(vs, off', left'). length vs = n \<and> left = left' + sum_list (map weight vs))"
  using rows_stay [OF _ assms] rows_refuse [OF _ assms] by (auto simp: safe_def split: sum.splits)

end

lemma safe_tuple: "(\<And>a b. P (a, b) \<Longrightarrow> safe (f a b) Q) \<Longrightarrow> P x \<Longrightarrow> safe (case x of (a, b) \<Rightarrow> f a b) Q"
  by (cases x) simp

text \<open>A list codec that reads its rows with one reader.\<close>

lemma rows_bounded:
  assumes "wire_reader rd value_items"
  shows "safe (rbind (list_count data left) (\<lambda>(count, left).
      rbind (read_times rd 0 count data 5 left) (ends_body data msg))) (list_bounded left)"
proof -
  have rows: "safe (rbind (read_times rd 0 count data 5 left') (ends_body data msg)) (list_bounded (left' + count))"
    if "5 \<le> length data" for count left'
    by (rule safe_bind [OF wire_reader.safe_rows [OF assms that]])
      (auto simp: ends_body_def safe_def list_bounded_def)
  show ?thesis by (rule safe_bind [OF safe_list_count]) (auto intro: rows)
qed

lemma integer_list_bounded: "safe (decodeCompactIntegerList data left) (list_bounded left)"
proof -
  have rows: "\<exists>vs off' left''. read_times integer_at i n data off left' = Inr (vs, off', left') \<and>
      length vs = n \<and> sum_list (map value_items vs) = 0"
    if "off + n * 8 \<le> length data" for i n off left'
    using that
  proof (induction n arbitrary: i off)
    case (Suc n)
    then have "off + 8 \<le> length data" "off + 8 + n * 8 \<le> length data" by simp_all
    from Suc.IH [OF this(2), of "Suc i"] this(1) show ?case
      by (auto simp: integer_at_def read_int64_def safe_or_big_def)
  qed simp
  show ?thesis
    unfolding decodeCompactIntegerList_def
  proof (rule safe_bind [OF safe_list_count])
    fix x assume x: "case x of (count, left') \<Rightarrow> 5 \<le> length data \<and> left = left' + count"
    obtain count left' where [simp]: "x = (count, left')" by (cases x)
    show "safe (case x of (count, left) \<Rightarrow>
        if length data \<noteq> 5 + count * 8 then Inl (ferric_error ''invalid compact integer list response'')
        else rbind (read_times integer_at 0 count data 5 left) (\<lambda>(vs, off, left). Inr (vs, left))) (list_bounded left)"
    proof (cases "length data = 5 + count * 8")
      case True
      with rows [of 5 count 0 left'] x show ?thesis by (auto simp: safe_def list_bounded_def)
    qed (simp add: safe_def)
  qed
qed

lemma fixed_bounded: "safe (decodeCompactMgetFixed data left) (list_bounded left)"
proof -
  have slots: "sum_list (map (value_items \<circ> (\<lambda>i. JBuf (f i))) xs) = 0" for f :: "nat \<Rightarrow> bytes" and xs
    by (induction xs) simp_all
  have none: "sum_list (replicate count (0::nat)) = 0" for count by (simp add: sum_list_replicate)
  show ?thesis
    unfolding decodeCompactMgetFixed_def
    by (rule safe_bind [OF safe_available], rule safe_bind [OF safe_uint], simp, rule safe_bind [OF safe_uint], simp,
        rule safe_bind [OF safe_container])
      (simp add: safe_def list_bounded_def slots none)
qed

lemma ok_list_bounded: "safe (decodeCompactOkList data left) (list_bounded left)"
proof -
  have none: "sum_list (replicate count (0::nat)) = 0" for count by (simp add: sum_list_replicate)
  show ?thesis
    unfolding decodeCompactOkList_def
    by (rule safe_bind [OF safe_list_count]) (auto simp: safe_def list_bounded_def none)
qed

lemma safe_binary: "safe (read_binary data off) (\<lambda>_. True)"
  using read_binary_refuses [of data off] by (auto simp: safe_def split: sum.splits)

lemma get_bounded: "safe (decodeCompactKvGet data) (\<lambda>v. value_items v = 0)"
  unfolding decodeCompactKvGet_def
  by (rule safe_bind [OF safe_available], rule safe_bind [OF safe_uint], simp,
      intro safe_if safe_refused safe_Inr safe_bind [OF safe_binary])
    (auto simp: safe_def)

lemma claim_modes_bounded:
  assumes "5 \<le> length data"
  shows "safe (first_claim_mode count modes data left) (list_bounded (left + count))"
proof (induction modes)
  case (Cons mode modes)
  show ?case
  proof (cases "read_times (\<lambda>_. readCompactClaimJob mode) 0 count data 5 left")
    case (Inl e)
    then show ?thesis
      using claim_job.rows_refuse [OF Inl assms] Cons by (cases e) (simp add: tryReadCompactClaimJobs_def)
  next
    case (Inr r)
    obtain vs off left' where r: "r = (vs, off, left')" by (cases r)
    from Inr claim_job.rows_stay [OF Inr [unfolded r] assms] Cons show ?thesis
      by (simp add: tryReadCompactClaimJobs_def r safe_def list_bounded_def)
  qed
qed (simp add: safe_def)

lemma claim_jobs_bounded: "safe (decodeCompactClaimJobs data left mode) (list_bounded left)"
proof (cases mode)
  case None
  show ?thesis
    unfolding decodeCompactClaimJobs_def None
    by (rule safe_bind [OF safe_list_count]) (auto intro!: claim_modes_bounded simp del: first_claim_mode.simps)
next
  case (Some m)
  show ?thesis
    using rows_bounded [OF claim_job.wire_reader_axioms, of data left m "''compact claim response did not match expected mode''"]
    unfolding decodeCompactClaimJobs_def Some by simp
qed

lemma whole_bounded:
  assumes "wire_reader (\<lambda>_. rd) value_items"
  shows "safe (rbind (rd data 0 left) (ends_body data msg)) (\<lambda>(v, left'). left = left' + value_items v)"
proof -
  have "safe (rd data 0 left) (\<lambda>(v, off', left'). left = left' + value_items v)"
    using wire_reader.stays [OF assms, of data 0 left] wire_reader.refuses [OF assms, of data 0 left]
    by (auto simp: safe_def split: sum.splits)
  then show ?thesis by (rule safe_bind) (auto simp: ends_body_def safe_def)
qed

lemma record_list_bounded: "safe (compact_record_list data left) (list_bounded left)"
proof -
  have shape: "\<exists>vs. v = JArr vs" if "readCompactFlowRecordList data off left = Inr (v, off', left')" for v off off' left'
    using that by (auto simp: readCompactFlowRecordList_def split: if_splits)
  note whole = whole_bounded [OF record_list.wire_reader_axioms, of data left "''trailing compact Flow record list bytes''"]
  show ?thesis
    unfolding compact_record_list_def
  proof (cases "readCompactFlowRecordList data 0 left")
    case (Inr r)
    obtain v off left' where r: "r = (v, off, left')" by (cases r)
    from shape [OF Inr [unfolded r]] obtain vs where "v = JArr vs" by blast
    with whole Inr show "safe (rbind (rbind (readCompactFlowRecordList data 0 left)
        (ends_body data ''trailing compact Flow record list bytes'')) (\<lambda>(v, left). Inr (row_list v, left))) (list_bounded left)"
      by (auto simp: r ends_body_def safe_def list_bounded_def row_list_def split: if_splits)
  qed (use whole in \<open>simp add: safe_def\<close>)
qed

lemma pipeline_bounded:
  "safe (decodeCompactPipeline data left modes) (\<lambda>(xs, left'). left = left' + reply_items (Decoded xs))"
proof -
  have rows: "safe (rbind (read_times (pipeline_item modes) 0 count data 5 left') (ends_body data msg))
      (\<lambda>(xs, left''). left' + count = left'' + reply_items (Decoded xs))" if "5 \<le> length data" for count left' msg
    by (rule safe_bind [OF items.safe_rows [OF that]]) (auto simp: ends_body_def safe_def reply_items_def)
  show ?thesis
    unfolding decodeCompactPipeline_def
    by (rule safe_bind [OF safe_list_count]) (auto intro!: safe_if safe_refused rows)
qed

section \<open>Query results\<close>

lemma populationCount_even: "populationCount (2 * m) = populationCount m"
proof (induction m rule: less_induct)
  case (less m)
  show ?case
  proof (cases "m = 0")
    case False
    have step: "2 * m AND (2 * m - 1) = 2 * (m AND (m - 1))"
    proof -
      have "(2 * m - 1) div 2 = m - 1" using False by presburger
      then show ?thesis by (subst and_nat_rec) simp
    qed
    have "m AND (m - 1) < m" using and_nat_le [of m "m - 1"] False by simp
    from less [OF this] show ?thesis
      by (subst populationCount.simps, subst (2) populationCount.simps) (use False step in simp)
  qed simp
qed

lemma populationCount_odd: "populationCount (Suc (2 * m)) = Suc (populationCount m)"
proof -
  have "Suc (2 * m) AND 2 * m = 2 * m" by (subst and_nat_rec) simp
  then show ?thesis by (subst populationCount.simps) (simp add: populationCount_even)
qed

lemma populationCount_bits:
  "n < 2 ^ k \<Longrightarrow> populationCount n = length (filter (\<lambda>i. odd (n div 2 ^ i)) [0..<k])"
proof (induction k arbitrary: n)
  case 0
  then show ?case by (simp add: populationCount.simps)
next
  case (Suc k)
  have shift: "[0..<Suc k] = 0 # map Suc [0..<k]" by (simp add: map_Suc_upt upt_conv_Cons del: upt_Suc)
  have half: "n div 2 < 2 ^ k" using Suc.prems by simp
  have "length (filter (\<lambda>i. odd (n div 2 ^ i)) [0..<Suc k]) =
      (if odd n then 1 else 0) + length (filter (\<lambda>i. odd (n div 2 div 2 ^ i)) [0..<k])"
    unfolding shift by (simp add: filter_map comp_def div_mult2_eq)
  moreover have "populationCount n = (if odd n then 1 else 0) + populationCount (n div 2)"
    using populationCount_even [of "n div 2"] populationCount_odd [of "n div 2"]
    by (cases "odd n") (auto elim!: evenE oddE)
  ultimately show ?case using Suc.IH [OF half] by simp
qed

lemma record_fields_length: "length (record_fields_of bitmap) = length (filter (\<lambda>i. odd (bitmap div 2 ^ i)) [0..<length RECORD_FIELDS])"
  by (simp add: record_fields_of_def)

interpretation query_record: wire_reader readRecord value_items
proof (unfold_locales, goal_cases)
  case (1 i data off left v off' left')
  from 1(1) obtain bitmap l1 vs where h: "off + 4 \<le> length data" "bitmap < 2 ^ length RECORD_FIELDS"
      "consume_decode_items (populationCount bitmap) left = Inr l1"
      "read_times (\<lambda>_. decode_value_in) 0 (length (record_fields_of bitmap)) data (off + 4) l1 = Inr (vs, off', left')"
      "v = JObj (object_of (zip (record_fields_of bitmap) vs))"
    by (fastforce simp: readRecord_def require_available_def not_le split: if_splits)
  note rows = tagged.rows_stay [OF h(4,1)]
  have "map snd (object_of (zip (record_fields_of bitmap) vs)) = vs"
    using rows by (simp add: object_of_def case_prod_unfold comp_def)
  then have "entries_items (object_of (zip (record_fields_of bitmap) vs)) = sum_list (map value_items vs)"
    by (metis (no_types, lifting) entries_items_def comp_apply list.map_comp map_eq_conv)
  moreover have "length (object_of (zip (record_fields_of bitmap) vs)) = populationCount bitmap"
    using rows populationCount_bits [OF h(2)] by (simp add: object_of_def record_fields_length)
  ultimately show ?case
    using rows h(3) unfolding h(5) object_items by (auto simp: consume_decode_items_def split: if_splits)
next
  case (2 i data off left e)
  then show ?case by (auto simp: readRecord_def reading split: if_splits dest: tagged.rows_refuse)
qed

lemma safe_page: "safe (readPage data off) (\<lambda>(page, off'). off' \<le> length data \<and> value_items page = 2)"
  unfolding readPage_def
  by (rule safe_bind [OF safe_available], rule safe_bind [OF safe_uint], simp, rule safe_bind [OF safe_uint], simp)
    (auto simp: safe_def require_available_def value_truncated_def require_ok_def object_of_def Let_def)

lemma safe_u64: "safe (readU64 data off) (\<lambda>(v, off'). off' \<le> length data \<and> value_items v = 0)"
  unfolding readU64_def
  by (rule safe_bind [OF safe_available], rule safe_bind [OF safe_uint], simp) (simp add: safe_def)

lemma put_fresh_items: "own (ascii name) kvs = None \<Longrightarrow> value_items v = 0 \<Longrightarrow>
    value_items (JObj (put kvs name v)) = Suc (value_items (JObj kvs))"
  by (simp add: object_items fresh_entry_items del: value_items.simps)

lemma put_items_le: "value_items v = 0 \<Longrightarrow> value_items (JObj (put kvs name v)) \<le> Suc (value_items (JObj kvs))"
proof (cases "own (ascii name) kvs")
  case (Some w)
  assume v: "value_items v = 0"
  have "length (AList.update (ascii name) v kvs) = length kvs \<and>
      entries_items (AList.update (ascii name) v kvs) \<le> entries_items kvs"
    using Some unfolding own_def by (induction kvs) (auto simp: entries_items_def v)
  then show ?thesis using Some by (simp add: object_items set_own_def del: value_items.simps)
qed (simp add: put_fresh_items del: value_items.simps)

lemma safe_quality:
  "off + length schema \<le> length data \<Longrightarrow>
    safe (read_quality schema data off quality)
      (\<lambda>(quality', off'). off' = off + length schema \<and> value_items (JObj quality') \<le> value_items (JObj quality) + length schema)"
proof (induction schema arbitrary: off quality)
  case (Cons entry schema)
  obtain field vals where [simp]: "entry = (field, vals)" by (cases entry)
  show ?case
  proof (simp del: value_items.simps, rule safe_bind [OF safe_uint], goal_cases)
    case 1
    then show ?case using Cons.prems by simp
  next
    case (2 code)
    have "value_items (JObj (put quality field (JBuf (utf8_encode (ascii (vals ! code)))))) \<le> Suc (value_items (JObj quality))"
      by (rule put_items_le) simp
    with Cons.prems show ?case
      by (auto intro!: safe_if safe_refused safe_cong [OF Cons.IH] simp del: value_items.simps)
  qed
qed (simp add: safe_def)

lemma safe_usage:
  "safe (read_usage names data off usage)
    (\<lambda>(usage', off'). value_items (JObj usage') \<le> value_items (JObj usage) + length names)"
proof (induction names arbitrary: off usage)
  case (Cons field names)
  show ?case
  proof (simp del: value_items.simps, rule safe_bind [OF safe_u64], clarsimp simp del: value_items.simps, goal_cases)
    case (1 v off')
    from put_items_le [OF 1(2), of usage field] show ?case
      by (auto intro!: safe_refused safe_cong [OF Cons.IH] simp del: value_items.simps)
  qed
qed (simp add: safe_def)

text \<open>The fixed part of a result: at most five top-level fields, and those of the page or the count, the quality
  and the usage.\<close>

definition QUERY_FIELDS :: nat where
  "QUERY_FIELDS = 5 + 2 + length QUALITY_FIELDS + length USAGE_FIELDS"

lemma literal_items: "value_items (JObj (object_of entries)) = length entries + sum_list (map (\<lambda>e. value_items (snd e)) entries)"
  by (simp add: object_of_def case_prod_unfold comp_def)

lemma safe_records:
  assumes "value_items (JObj quality) \<le> length QUALITY_FIELDS" "value_items (JObj usage) \<le> length USAGE_FIELDS"
  shows "safe (query_records quality usage data off left)
    (\<lambda>(v, off', left'). value_items v + left' \<le> left + QUERY_FIELDS)"
  unfolding query_records_def
proof (rule safe_bind [OF safe_page], clarsimp simp del: value_items.simps, goal_cases)
  case (1 page off')
  have body: "safe (rbind (consume_decode_items count left) (\<lambda>left.
      rbind (read_times readRecord 0 count data (off' + 4) left) (\<lambda>(records, off, left).
      Inr (JObj (object_of [(''version'', QUERY_CONTRACT), (''records'', JArr records), (''page'', page),
        (''quality'', JObj quality), (''usage'', JObj usage)]), off, left))))
      (\<lambda>(v, off', left'). value_items v + left' \<le> left + QUERY_FIELDS)" if "off' + 4 \<le> length data" for count
  proof (rule safe_bind [where P = "\<lambda>l. left = l + count"])
    show "safe (consume_decode_items count left) (\<lambda>l. left = l + count)" by (simp add: safe_def consume_decode_items_def)
  next
    fix l assume l: "left = l + count"
    have total: "value_items (JObj (object_of [(''version'', QUERY_CONTRACT), (''records'', JArr records), (''page'', page),
        (''quality'', JObj quality), (''usage'', JObj usage)])) + l' \<le> left + QUERY_FIELDS"
      if "length records = count" "l = l' + sum_list (map value_items records)" for records l'
      using assms 1(2) l that
      by (simp add: literal_items QUERY_CONTRACT_def QUERY_FIELDS_def del: value_items.simps(2))
    show "safe (rbind (read_times readRecord 0 count data (off' + 4) l) (\<lambda>(records, off, left).
        Inr (JObj (object_of [(''version'', QUERY_CONTRACT), (''records'', JArr records), (''page'', page),
          (''quality'', JObj quality), (''usage'', JObj usage)]), off, left)))
      (\<lambda>(v, off', left'). value_items v + left' \<le> left + QUERY_FIELDS)"
      by (rule safe_bind [OF query_record.safe_rows [OF that]]) (auto intro!: safe_Inr total simp del: value_items.simps)
  qed
  have usage: "safe (validateCompactRecordUsage usage count) (\<lambda>_. True)" for count
    by (simp add: safe_def validateCompactRecordUsage_def Let_def)
  show ?case
    by (rule safe_bind [OF safe_available], rule safe_bind [OF safe_uint], simp, intro safe_if safe_refused safe_bind [OF usage] body) simp
qed

lemma safe_count:
  assumes "value_items (JObj quality) \<le> length QUALITY_FIELDS" "value_items (JObj usage) \<le> length USAGE_FIELDS"
  shows "safe (query_count quality usage data off left) (\<lambda>(v, off', left'). value_items v + left' \<le> left + QUERY_FIELDS)"
proof -
  have total: "value_items (JObj (object_of [(''version'', QUERY_CONTRACT),
         (''result'', JObj (object_of [(''kind'', JBuf (utf8_encode (ascii ''count''))), (''value'', v)])),
         (''quality'', JObj quality), (''usage'', JObj usage)])) + left \<le> left + QUERY_FIELDS" if "value_items v = 0" for v
    using assms that by (simp add: literal_items QUERY_CONTRACT_def QUERY_FIELDS_def del: value_items.simps(2))
  show ?thesis
    unfolding query_count_def
    by (intro safe_if safe_refused safe_bind [OF safe_u64])
      (auto intro!: safe_if safe_refused safe_Inr total simp del: value_items.simps)
qed

lemma query_result_bounded:
  "safe (decodeCompactFlowQueryResult data left) (\<lambda>(v, left'). value_items v + left' \<le> left + QUERY_FIELDS)"
proof -
  have usage: "safe (validateCompactUsage usage) (\<lambda>_. True)" for usage
    by (simp add: safe_def validateCompactUsage_def Let_def)
  show ?thesis
    unfolding decodeCompactFlowQueryResult_def
  proof (rule safe_bind [OF safe_available], rule safe_bind [OF safe_uint], simp, intro safe_if safe_refused,
      rule safe_bind [OF safe_uint], simp, goal_cases)
    case (1 tag kind)
    have "2 + length (zip QUALITY_FIELDS QUALITY_VALUES) \<le> length data"
      using 1(1) by simp
    note quality = safe_quality [OF this, of "[]"]
    show ?case
    proof (rule safe_bind_pair [OF quality], rule safe_bind_pair [OF safe_usage], rule safe_bind [OF usage], goal_cases)
      case (1 quality off usage off')
      have none: "value_items (JObj []) = 0" by simp
      from 1 have le: "value_items (JObj quality) \<le> length QUALITY_FIELDS" "value_items (JObj usage) \<le> length USAGE_FIELDS"
        by (auto simp: QUALITY_FIELDS_def QUALITY_VALUES_def none simp del: value_items.simps(2))
      show ?case
        by (rule safe_bind_read [where P = "\<lambda>v off left'. value_items v + left' \<le> left + QUERY_FIELDS"])
          (auto intro!: safe_records safe_count le safe_refused simp: safe_Inr simp del: value_items.simps)
    qed
  qed
qed

section \<open>The response as a whole\<close>

definition fits_in :: "nat \<Rightarrow> reply option \<Rightarrow> bool" where
  "fits_in n r = (case r of None \<Rightarrow> True | Some reply \<Rightarrow> reply_items reply \<le> n)"

lemma marked_items: "reply_items (markCompactPipelineDecoded vs) = value_items (JArr vs)"
  by (simp add: reply_items_def markCompactPipelineDecoded_def item_weight_def comp_def)

lemma plain_items: "reply_items (Plain v) = value_items v"
  by (simp add: reply_items_def)

lemma list_fits: "safe r (list_bounded left) \<Longrightarrow> safe (list_reply opcode r) (fits_in left)"
  unfolding list_reply_def
  by (erule safe_bind) (auto simp: safe_def fits_in_def marked_items list_bounded_def plain_items)

lemma marked_fits: "safe r (list_bounded left) \<Longrightarrow> safe (marked_reply r) (fits_in left)"
  unfolding marked_reply_def by (erule safe_bind) (auto simp: safe_def fits_in_def marked_items list_bounded_def)

lemma plain_fits: "safe r (\<lambda>(v, left'). value_items v + left' \<le> n) \<Longrightarrow> safe (plain_reply r) (fits_in n)"
  unfolding plain_reply_def by (erule safe_bind) (auto simp: safe_def fits_in_def reply_items_def)

lemma fits_in_mono: "safe m (fits_in n) \<Longrightarrow> n \<le> n' \<Longrightarrow> safe m (fits_in n')"
  by (erule safe_cong) (auto simp: fits_in_def split: option.splits)

lemma tagged_fits:
  fixes opcode :: nat
  defines "M \<equiv> DEFAULT_MAX_VALUE_ITEMS + QUERY_FIELDS"
  shows "safe (decode_tagged tag opcode body hints) (fits_in M)"
proof -
  let ?L = DEFAULT_MAX_VALUE_ITEMS
  have up: "safe m (fits_in M)" if "safe m (fits_in ?L)" for m using fits_in_mono [OF that] by (simp add: M_def)
  have ok: "safe (rbind (decodeCompactOkList body ?L) (\<lambda>(vs, left). Inr (Some (ok_reply opcode vs)))) (fits_in M)"
    by (rule up, rule safe_bind [OF ok_list_bounded])
      (auto simp: safe_def fits_in_def ok_reply_def marked_items plain_items list_bounded_def)
  have get: "safe (rbind (decodeCompactKvGet body) (\<lambda>v. Inr (Some (Plain v)))) (fits_in M)"
    by (rule safe_bind [OF get_bounded]) (simp add: safe_def fits_in_def reply_items_def)
  have pipe: "safe (rbind (decodeCompactPipeline body ?L modes) (\<lambda>(items, left). Inr (Some (Decoded items)))) (fits_in M)" for modes
    by (rule up, rule safe_bind [OF pipeline_bounded]) (auto simp: safe_def fits_in_def)
  have mget: "safe (if tag = 0x83 then decodeCompactMget body ?L else decodeCompactMgetFixed body ?L) (list_bounded ?L)"
    using fixed_bounded rows_bounded [OF mget.wire_reader_axioms] by (simp add: decodeCompactMget_def)
  have lists: "safe (decodeCompactBinaryListList body ?L) (list_bounded ?L)"
      "safe (decodeCompactBinaryMapList body ?L) (list_bounded ?L)"
    using rows_bounded [OF binary_list.wire_reader_axioms] rows_bounded [OF binary_map.wire_reader_axioms]
    by (simp_all add: decodeCompactBinaryListList_def decodeCompactBinaryMapList_def)
  have single: "safe (plain_reply (compact_record body ?L)) (fits_in M)"
    by (rule up, rule plain_fits, unfold compact_record_def, rule safe_cong [OF whole_bounded [OF flow_record.wire_reader_axioms]]) auto
  have query: "safe (plain_reply (decodeCompactFlowQueryResult body ?L)) (fits_in M)"
    by (rule plain_fits) (use query_result_bounded M_def in simp)
  have none: "safe (Inr None) (fits_in M)" by (simp add: safe_def fits_in_def)
  show ?thesis
    unfolding decode_tagged_def Let_def
    by (intro safe_if ok get up [OF list_fits [OF mget]] up [OF marked_fits [OF integer_list_bounded]]
        up [OF marked_fits [OF lists(1)]] up [OF marked_fits [OF lists(2)]] pipe
        up [OF list_fits [OF claim_jobs_bounded]] single up [OF list_fits [OF record_list_bounded]] query none)
qed

lemma counted_safe: "safe (validateCompactResponseItems tag opcode data hints) (\<lambda>_. True)"
  by (auto simp: validateCompactResponseItems_def safe_def require_available_def value_truncated_def read_uint_def rbind_def
      require_ok_def split: option.splits sum.splits)

text \<open>Whatever bytes a server sends as a compact response, decoding them ends with a value, with the answer
  that no codec applies, or with an error of the library, never with a read outside the buffer; and a value
  never has more container slots than the item budget allows (the fixed fields of a query result aside).\<close>

theorem compact_responses_are_bounded:
  "case tryDecodeCompactResponse opcode body hints of
     Inl e \<Rightarrow> library_error e
   | Inr None \<Rightarrow> True
   | Inr (Some reply) \<Rightarrow> reply_items reply \<le> DEFAULT_MAX_VALUE_ITEMS + QUERY_FIELDS"
proof -
  have "safe (tryDecodeCompactResponse opcode body hints) (fits_in (DEFAULT_MAX_VALUE_ITEMS + QUERY_FIELDS))"
  proof (cases body)
    case (Cons b bs)
    show ?thesis
      unfolding tryDecodeCompactResponse_def
      by (auto intro!: safe_bind [OF safe_uint] safe_bind [OF counted_safe] tagged_fits simp: Cons)
  qed (simp add: tryDecodeCompactResponse_def safe_def fits_in_def)
  then show ?thesis by (auto simp: safe_def fits_in_def split: sum.splits option.splits)
qed

end
