(* ===== verification/ProtocolResponse.thy ===== *)
theory ProtocolResponse
  imports CompactResponseBounds
begin

text \<open>
  Responses (\<open>src/src/protocol-response.ts\<close>): from a response frame to the value a command returns or the error
  it fails with, and from the response of a pipeline to the answers of its commands.
\<close>

section \<open>One response\<close>

text \<open>What is thrown: an error of the library about the response, or the error the server answered with.\<close>

datatype failure = Refused error | Server sdk_error

definition refusing :: "'a res \<Rightarrow> failure + 'a" where
  "refusing r = (case r of Inl e \<Rightarrow> Inl (Refused e) | Inr x \<Rightarrow> Inr x)"

definition KNOWN_NATIVE_RESPONSE_STATUSES :: "nat list" where
  "KNOWN_NATIVE_RESPONSE_STATUSES = [0, 1, 2, 3, 4, 5, 6]"

definition decodeResponseValue :: "nat \<Rightarrow> bytes \<Rightarrow> decode_hints \<Rightarrow> bool \<Rightarrow> bool \<Rightarrow> reply res" where
  "decodeResponseValue opcode body hints allow_compact custom_payload =
    rbind (if custom_payload \<and> allow_compact then tryDecodeCompactResponse opcode body hints else Inr None) (\<lambda>compact.
    case compact of
      Some v \<Rightarrow> Inr v
    | None \<Rightarrow>
        if custom_payload then
          Inl (Thrown FerricStoreError ''unsupported or malformed custom protocol response'' [JBuf body])
        else rbind (decode_value body) (\<lambda>(v, off).
          if off \<noteq> length body then
            Inl (Thrown FerricStoreError ''native protocol response has trailing bytes'' [JBuf body])
          else Inr (Plain v)))"

definition raw_value :: "reply \<Rightarrow> jsval" where
  "raw_value r = (case r of Plain v \<Rightarrow> v | Decoded _ \<Rightarrow> JUndef)"

definition unretryable :: "jsval \<Rightarrow> err_options" where
  "unretryable raw = (raw_options raw JUndef)\<lparr>opt_retryable := Some False, opt_safe_to_retry := Some False\<rparr>"

text \<open>The error of a response whose status is not OK.\<close>

definition status_error :: "nat \<Rightarrow> jsval \<Rightarrow> sdk_error" where
  "status_error status v =
    (if status \<notin> set KNOWN_NATIVE_RESPONSE_STATUSES then
       new_error FerricStoreError (ascii ''unknown native response status '' @ number_text (JInt (int status))) (unretryable v)
     else classifyServerError (protocolErrorMessage status v) v JUndef (JInt (int status)))"

definition decodeResponse :: "response_frame \<Rightarrow> nat \<Rightarrow> decode_hints \<Rightarrow> failure + reply" where
  "decodeResponse frame expected_opcode hints =
    (if rf_opcode frame \<noteq> expected_opcode then
       Inl (Refused (Thrown FerricStoreError ''protocol response mismatch''
         [JInt (int expected_opcode), JInt (int (rf_opcode frame))]))
     else if flag_set (rf_flags frame) FLAG_COMPRESSED then
       Inl (Refused (ferric_error ''compressed native protocol responses are not supported by this SDK yet''))
     else if length (rf_body frame) < 2 then
       Inl (Refused (Thrown FerricStoreError ''short native protocol response body'' [JBuf (rf_body frame)]))
     else
       (let status = be_nat (subarray 0 2 (rf_body frame)); body = drop 2 (rf_body frame) in
        rbind (refusing (decodeResponseValue (rf_opcode frame) body hints (status = 0)
          (flag_set (rf_flags frame) FLAG_CUSTOM_PAYLOAD))) (\<lambda>v.
        if status = 0 then Inr v else Inl (Server (status_error status (raw_value v))))))"

section \<open>The answers of a pipeline\<close>

fun pipelineStatusToken :: "jsval \<Rightarrow> jsstr option" where
  "pipelineStatusToken (JStr s) = Some (to_lower s)"
| "pipelineStatusToken (JBuf b) = Some (to_lower (utf8_decode b))"
| "pipelineStatusToken (JU8 b) = Some (to_lower (utf8_decode b))"
| "pipelineStatusToken _ = None"

definition PIPELINE_STATUSES :: "(string \<times> nat) list" where
  "PIPELINE_STATUSES = [(''ok'', 0), (''error'', 1), (''auth'', 2), (''noperm'', 3), (''busy'', 4), (''reroute'', 5),
    (''bad_request'', 6)]"

text \<open>A status with its code.\<close>

definition pipelineStatus :: "jsval \<Rightarrow> (string \<times> nat) option" where
  "pipelineStatus v = (case pipelineStatusToken v of None \<Rightarrow> None
    | Some t \<Rightarrow> find (\<lambda>(name, code). t = ascii name) PIPELINE_STATUSES)"

text \<open>\<open>JSON.stringify\<close> of a string.\<close>

definition hex_digit_unit :: "nat \<Rightarrow> 16 word" where
  "hex_digit_unit n = (if n < 10 then of_nat (0x30 + n) else of_nat (0x57 + n))"

definition unit_escape :: "16 word \<Rightarrow> jsstr" where
  "unit_escape u = ascii [CHR 0x5C, CHR ''u''] @
    map (\<lambda>k. hex_digit_unit (unat u div 16 ^ k mod 16)) [3, 2, 1, 0]"

fun json_units :: "jsstr \<Rightarrow> jsstr" where
  "json_units [] = []"
| "json_units (u # s) =
    (if u = 0x22 \<or> u = 0x5C then [0x5C, u] @ json_units s
     else if u = 0x08 then [0x5C, 0x62] @ json_units s
     else if u = 0x0C then [0x5C, 0x66] @ json_units s
     else if u = 0x0A then [0x5C, 0x6E] @ json_units s
     else if u = 0x0D then [0x5C, 0x72] @ json_units s
     else if u = 0x09 then [0x5C, 0x74] @ json_units s
     else if u < 0x20 then unit_escape u @ json_units s
     else if is_high u then
       (case s of
          v # s' \<Rightarrow> if is_low v then u # v # json_units s' else unit_escape u @ json_units s
        | [] \<Rightarrow> unit_escape u)
     else if is_low u then unit_escape u @ json_units s
     else u # json_units s)"

definition json_text :: "jsstr \<Rightarrow> jsstr" where
  "json_text s = [0x22] @ json_units s @ [0x22]"

text \<open>What an element of the response stands for, once it is known that there are status tuples.\<close>

definition item_answer :: "jsval \<Rightarrow> item" where
  "item_answer x =
    (case x of
       JArr (head # payload # rest) \<Rightarrow>
         (case pipelineStatus head of
            Some (name, code) \<Rightarrow>
              if name = ''ok'' then Item payload
              else Failed (classifyServerError (protocolErrorMessage code payload) payload JUndef (JStr (ascii name)))
          | None \<Rightarrow>
              (case pipelineStatusToken head of
                 Some t \<Rightarrow> Failed (new_error FerricStoreError
                   (ascii ''unknown native pipeline status '' @ json_text t) (unretryable x))
               | None \<Rightarrow> Item x))
     | _ \<Rightarrow> Item x)"

definition has_status :: "jsval \<Rightarrow> bool" where
  "has_status x = (case x of JArr (head # payload # rest) \<Rightarrow> pipelineStatus head \<noteq> None | _ \<Rightarrow> False)"

fun first_failure :: "item list \<Rightarrow> sdk_error option" where
  "first_failure [] = None"
| "first_failure (Failed e # xs) = Some e"
| "first_failure (Item v # xs) = first_failure xs"

text \<open>The loop over the elements; it throws at the first failure when it is asked to.\<close>

fun unwrap_items :: "bool \<Rightarrow> jsval list \<Rightarrow> failure + item list" where
  "unwrap_items throw_errors [] = Inr []"
| "unwrap_items throw_errors (x # xs) =
    (case item_answer x of
       Failed e \<Rightarrow> if throw_errors then Inl (Server e)
         else rbind (unwrap_items throw_errors xs) (\<lambda>ys. Inr (Failed e # ys))
     | Item v \<Rightarrow> rbind (unwrap_items throw_errors xs) (\<lambda>ys. Inr (Item v # ys)))"

definition unwrapPipelineResponse :: "reply \<Rightarrow> bool \<Rightarrow> nat option \<Rightarrow> failure + item list" where
  "unwrapPipelineResponse r throw_errors expected =
    (case (case r of Decoded xs \<Rightarrow> Some (length xs) | Plain (JArr vs) \<Rightarrow> Some (length vs) | _ \<Rightarrow> None) of
       None \<Rightarrow> Inl (Refused (ferric_error ''native pipeline returned an invalid response''))
     | Some n \<Rightarrow>
         if expected \<noteq> None \<and> expected \<noteq> Some n then
           Inl (Refused (Thrown FerricStoreError ''native pipeline returned a wrong number of items''
             [JInt (int n), JInt (int (the expected))]))
         else (case r of
             Decoded xs \<Rightarrow>
               (case (if throw_errors then first_failure xs else None) of Some e \<Rightarrow> Inl (Server e) | None \<Rightarrow> Inr xs)
           | Plain (JArr vs) \<Rightarrow>
               if \<not> list_ex has_status vs then Inr (map Item vs) else unwrap_items throw_errors vs
           | _ \<Rightarrow> Inl (Refused (ferric_error ''native pipeline returned an invalid response''))))"

section \<open>What a response means\<close>

lemma decode_whole:
  assumes "encode_value_with_limit v limit = Inr bs" "wire_ok v"
  shows "decode_value bs = Inr (wire_value v, length bs)"
proof -
  from assms(1) obtain plan budget where "plan_value v \<lparr>max_bytes = limit, remaining_bytes = limit,
      remaining_items = DEFAULT_MAX_VALUE_ITEMS\<rparr> 0 = Inr (plan, budget)" "write_plan plan = Inr bs"
    by (auto simp: encode_value_with_limit_def plan_value_with_limit_def)
  from plan_roundtrip(1) [OF this assms(2), of bs 0 "[]"] show ?thesis
    by (simp add: decode_value_def decode_value_at_def default_limits_def)
qed

text \<open>A response says what the server put into it: the frame of a value with status 0 gives the value, and with
  any other status no value but an error, of the class the status and the value decide; a frame for another
  opcode, a compressed frame and a custom payload under a failure status are refused.\<close>

theorem responses_mean_their_status:
  assumes "encode_value_with_limit v limit = Inr bs" "wire_ok v"
    and "rf_body frame = be_bytes 2 status @ bs" "status < 65536"
  shows "decodeResponse frame opcode hints =
    (if rf_opcode frame \<noteq> opcode then
       Inl (Refused (Thrown FerricStoreError ''protocol response mismatch'' [JInt (int opcode), JInt (int (rf_opcode frame))]))
     else if flag_set (rf_flags frame) FLAG_COMPRESSED then
       Inl (Refused (ferric_error ''compressed native protocol responses are not supported by this SDK yet''))
     else if flag_set (rf_flags frame) FLAG_CUSTOM_PAYLOAD then
       (if status = 0 then refusing (decodeResponseValue opcode bs hints True True)
        else Inl (Refused (Thrown FerricStoreError ''unsupported or malformed custom protocol response'' [JBuf bs])))
     else if status = 0 then Inr (Plain (wire_value v))
     else Inl (Server (status_error status (wire_value v))))"
proof -
  have head: "be_nat (subarray 0 2 (rf_body frame)) = status" "drop 2 (rf_body frame) = bs" "2 \<le> length (rf_body frame)"
    using assms(4) by (simp_all add: assms(3) subarray_def)
  show ?thesis
    using head decode_whole [OF assms(1,2)]
    by (auto simp: decodeResponse_def decodeResponseValue_def refusing_def raw_value_def rbind_def split: sum.splits)
qed

definition answer_frame :: response_frame where
  "answer_frame = \<lparr>rf_flags = 0, rf_lane_id = 1, rf_opcode = 7, rf_request_id = 1, rf_body_length = 8,
    rf_body = [0, 3, 4, 0, 0, 0, 1, 0x61]\<rparr>"

theorem responses_mean_their_status_witness:
  "decodeResponse answer_frame 7 hints = Inl (Server (status_error 3 (JBuf [0x61])))"
proof -
  have enc: "encode_value_with_limit (JStr (ascii ''a'')) 64 = Inr [4, 0, 0, 0, 1, 0x61]"
    by (simp add: encode_simps)
  have ok: "wire_ok (JStr (ascii ''a''))" by (simp add: utf8_of_point_def ascii_def is_high_def is_low_def)
  have two: "be_bytes 2 3 = [0, 3]" by (simp add: numeral_2_eq_2)
  have body: "rf_body answer_frame = be_bytes 2 3 @ [4, 0, 0, 0, 1, 0x61]" by (simp add: answer_frame_def two)
  have v: "wire_value (JStr (ascii ''a'')) = JBuf [0x61]" by (simp add: utf8_of_point_def ascii_def is_high_def is_low_def)
  show ?thesis
    using responses_mean_their_status [OF enc ok body, of 7 hints, unfolded v] by (simp add: answer_frame_def flag_set_def)
qed

section \<open>What the response of a pipeline means\<close>

text \<open>The answers of the commands, in their order, read off the response without the loop.\<close>

definition pipeline_answers :: "reply \<Rightarrow> item list option" where
  "pipeline_answers r =
    (case r of
       Decoded xs \<Rightarrow> Some xs
     | Plain (JArr vs) \<Rightarrow> Some (map (if \<exists>x \<in> set vs. has_status x then item_answer else Item) vs)
     | _ \<Rightarrow> None)"

lemma unwrap_items_answers:
  "unwrap_items throw_errors vs =
    (case (if throw_errors then first_failure (map item_answer vs) else None) of
       Some e \<Rightarrow> Inl (Server e) | None \<Rightarrow> Inr (map item_answer vs))"
  by (induction vs) (auto split: item.splits option.splits)

lemma first_failure_items: "first_failure (map Item vs) = None"
  by (induction vs) auto

text \<open>The response of a pipeline is taken apart position by position: there is one answer per command, as many
  as were sent, in their order; when failures are to be thrown, the first failed command's error is what is
  thrown, and otherwise the errors stand at the places of their commands.\<close>

theorem pipeline_response_is_read_in_order:
  "unwrapPipelineResponse r throw_errors expected =
    (case pipeline_answers r of
       None \<Rightarrow> Inl (Refused (ferric_error ''native pipeline returned an invalid response''))
     | Some xs \<Rightarrow>
         if expected \<notin> {None, Some (length xs)} then
           Inl (Refused (Thrown FerricStoreError ''native pipeline returned a wrong number of items''
             [JInt (int (length xs)), JInt (int (the expected))]))
         else (case (if throw_errors then first_failure xs else None) of
             Some e \<Rightarrow> Inl (Server e) | None \<Rightarrow> Inr xs))"
proof (cases r)
  case (Plain v)
  then show ?thesis
    by (cases v) (auto simp: unwrapPipelineResponse_def pipeline_answers_def unwrap_items_answers list_ex_iff first_failure_items)
next
  case (Decoded xs)
  then show ?thesis by (auto simp: unwrapPipelineResponse_def pipeline_answers_def)
qed

end
