(* ===== verification/CompactFields.thy ===== *)
theory CompactFields
  imports FlowItems Frame
begin

text \<open>
  The building blocks of the compact binary requests (\<open>src/src/protocol-core.ts\<close>): what may be written as a
  length-prefixed value, its length, the limit of the body, and the single writes. A compact request is
  described by the list of its writes; the code adds up their lengths first, allocates a buffer of that
  length and fills it, write after write.
\<close>

section \<open>Scalars\<close>

definition isCompactBinaryArgument :: "jsval \<Rightarrow> bool" where
  "isCompactBinaryArgument v = (case v of JStr _ \<Rightarrow> True | JBuf _ \<Rightarrow> True | JU8 _ \<Rightarrow> True | _ \<Rightarrow> False)"

definition isCompactBinaryScalar :: "jsval \<Rightarrow> bool" where
  "isCompactBinaryScalar v =
    (nullish v \<or> (case v of JStr _ \<Rightarrow> True | JInt _ \<Rightarrow> True | JFloat _ \<Rightarrow> True | JBig _ \<Rightarrow> True | JBool _ \<Rightarrow> True
      | JSym _ \<Rightarrow> True | JBuf _ \<Rightarrow> True | JU8 _ \<Rightarrow> True | _ \<Rightarrow> False))"

definition isSafeIntegerNumber :: "jsval \<Rightarrow> bool" where
  "isSafeIntegerNumber v = (case v of JInt i \<Rightarrow> safe_int i | JFloat w \<Rightarrow> w = 0x8000000000000000 | _ \<Rightarrow> False)"

definition isOptionalSafeIntegerNumber :: "jsval \<Rightarrow> bool" where
  "isOptionalSafeIntegerNumber v \<longleftrightarrow> nullish v \<or> isSafeIntegerNumber v"

text \<open>\<open>BigInt(value)\<close> of a safe integer.\<close>

definition int_of_number :: "jsval \<Rightarrow> int" where
  "int_of_number v = (case v of JInt i \<Rightarrow> i | _ \<Rightarrow> 0)"

definition optionalI64 :: "jsval \<Rightarrow> int" where
  "optionalI64 v = (case v of JInt i \<Rightarrow> i | JFloat _ \<Rightarrow> 0 | _ \<Rightarrow> MIN_I64)"

definition compactBinaryByteLength :: "jsval \<Rightarrow> nat res" where
  "compactBinaryByteLength v =
    rbind (binary_value_byte_length v) (\<lambda>n.
    if n \<ge> NULL_U32 then Inl (ferric_error ''compact binary command argument exceeds the 32-bit length limit'')
    else Inr n)"

definition compactBinaryEncodedLength :: "jsval \<Rightarrow> nat res" where
  "compactBinaryEncodedLength v = rbind (compactBinaryByteLength v) (\<lambda>n. Inr (4 + n))"

definition compactOptionalBinaryEncodedLength :: "jsval \<Rightarrow> nat res" where
  "compactOptionalBinaryEncodedLength v = (if nullish v then Inr 4 else compactBinaryEncodedLength v)"

definition assertCompactPayloadFits :: "nat \<Rightarrow> jsval \<Rightarrow> unit res" where
  "assertCompactPayloadFits n max_body_bytes =
    (if n > normalize_encode_limit max_body_bytes
     then Inl (request_frame_too_large (normalize_encode_limit max_body_bytes)) else Inr ())"

definition compactPayloadFits :: "nat \<Rightarrow> jsval \<Rightarrow> bool" where
  "compactPayloadFits n max_body_bytes \<longleftrightarrow> n \<le> normalize_encode_limit max_body_bytes"

section \<open>Writes\<close>

datatype wire_field = FByte nat | FU16 nat | FU32 nat | FI64 int | FBinary jsval | FOptional "jsval option"

fun write_field :: "wire_field \<Rightarrow> bytes res" where
  "write_field (FByte n) = write_uint 1 (int n)"
| "write_field (FU16 n) = write_uint 2 (int n)"
| "write_field (FU32 n) = write_uint 4 (int n)"
| "write_field (FI64 i) = write_i64 i"
| "write_field (FBinary v) = rbind (to_buffer v) (\<lambda>b. rbind (write_uint 4 (int (length b))) (\<lambda>h. Inr (h @ b)))"
| "write_field (FOptional None) = write_uint 4 (int NULL_U32)"
| "write_field (FOptional (Some v)) = rbind (to_buffer v) (\<lambda>b. rbind (write_uint 4 (int (length b))) (\<lambda>h. Inr (h @ b)))"

definition write_fields :: "wire_field list \<Rightarrow> bytes res" where
  "write_fields fs = rbind (rmap write_field fs) (\<lambda>parts. Inr (concat parts))"

text \<open>\<open>Buffer.allocUnsafe(total)\<close> and the writes, each at the offset the one before has left. The state is
  the buffer and the offset. A number is refused when it does not fit into the buffer; the bytes of a value
  are copied as far as they fit (\<open>copy\<close>, \<open>write\<close>), and the offset moves on by their length all the same.
  What was never written, whose content is unspecified, is shown as 0.\<close>

definition put_number :: "bytes \<Rightarrow> bytes \<times> nat \<Rightarrow> (bytes \<times> nat) res" where
  "put_number b st =
    (case st of (out, offset) \<Rightarrow>
       if offset + length b > length out then Inl (Thrown RangeErr ''ERR_OUT_OF_RANGE'' [])
       else Inr (take offset out @ b @ drop (offset + length b) out, offset + length b))"

definition put_copy :: "bytes \<Rightarrow> bytes \<times> nat \<Rightarrow> bytes \<times> nat" where
  "put_copy b st =
    (case st of (out, offset) \<Rightarrow>
       let n = min (length b) (length out - offset)
       in (take offset out @ take n b @ drop (offset + n) out, offset + length b))"

text \<open>\<open>writeBinary\<close>.\<close>

definition put_binary :: "jsval \<Rightarrow> bytes \<times> nat \<Rightarrow> (bytes \<times> nat) res" where
  "put_binary v st =
    rbind (to_buffer v) (\<lambda>b.
    rbind (write_uint 4 (int (length b))) (\<lambda>header.
    rbind (put_number header st) (\<lambda>st.
    Inr (put_copy b st))))"

fun put_field :: "wire_field \<Rightarrow> bytes \<times> nat \<Rightarrow> (bytes \<times> nat) res" where
  "put_field (FBinary v) st = put_binary v st"
| "put_field (FOptional (Some v)) st = put_binary v st"
| "put_field f st = rbind (write_field f) (\<lambda>b. put_number b st)"

fun put_fields :: "wire_field list \<Rightarrow> bytes \<times> nat \<Rightarrow> (bytes \<times> nat) res" where
  "put_fields [] st = Inr st"
| "put_fields (f # fs) st = rbind (put_field f st) (put_fields fs)"

definition fill_buffer :: "nat \<Rightarrow> wire_field list \<Rightarrow> bytes res" where
  "fill_buffer total_bytes fs = rbind (put_fields fs (replicate total_bytes 0, 0)) (\<lambda>(out, offset). Inr out)"

definition compact_command :: "nat \<Rightarrow> nat \<Rightarrow> wire_field list \<Rightarrow> protocol_command option res" where
  "compact_command opcode total_bytes fs =
    rbind (fill_buffer total_bytes fs) (\<lambda>out.
    Inr (Some ((plain_command opcode (JBuf out))\<lparr>pc_flags := Some FLAG_CUSTOM_PAYLOAD\<rparr>)))"

text \<open>\<open>compactManyRequestTag\<close> of \<open>src/src/protocol-flow-compact-common.ts\<close>.\<close>

definition compactManyRequestTag :: "jsval \<Rightarrow> nat \<Rightarrow> nat \<Rightarrow> nat option res" where
  "compactManyRequestTag v regular ok_on_success =
    rbind (if nullish v then Inr [] else rbind (as_text v) (\<lambda>t. Inr (to_upper t))) (\<lambda>mode.
    Inr (if mode = [] then Some regular
         else if mode = ascii ''OK_ON_SUCCESS'' then Some ok_on_success else None))"

definition compactClaimReturnMode :: "jsval \<Rightarrow> nat option res" where
  "compactClaimReturnMode v =
    rbind (if nullish v then Inr [] else rbind (as_text v) (\<lambda>t. Inr (to_upper t))) (\<lambda>mode.
    Inr (if mode = ascii ''JOBS_COMPACT'' then Some 1
         else if mode \<in> {ascii ''JOBS_COMPACT_STATE'', ascii ''JOBS_COMPACT_WITH_STATE''} then Some 2
         else if mode \<in> {ascii ''JOBS_COMPACT_ATTRS'', ascii ''JOBS_COMPACT_ATTRIBUTES''} then Some 3
         else if mode \<in> {ascii ''JOBS_COMPACT_STATE_ATTRS'', ascii ''JOBS_COMPACT_WITH_STATE_ATTRS'',
             ascii ''JOBS_COMPACT_STATE_ATTRIBUTES'', ascii ''JOBS_COMPACT_WITH_STATE_ATTRIBUTES''} then Some 4
         else None))"

text \<open>A property that may be absent.\<close>

definition field_of :: "js_object \<Rightarrow> string \<Rightarrow> jsval" where
  "field_of options name = (case own (ascii name) options of None \<Rightarrow> JUndef | Some v \<Rightarrow> v)"

definition any_present :: "js_object \<Rightarrow> string list \<Rightarrow> bool" where
  "any_present options names = list_ex (\<lambda>name. own (ascii name) options \<noteq> None) names"

section \<open>Rows\<close>

text \<open>A loop that adds up the lengths of the rows and gives up at the first row with no compact form.\<close>

fun sum_rows :: "('r \<Rightarrow> nat option res) \<Rightarrow> 'r list \<Rightarrow> nat option res" where
  "sum_rows f [] = Inr (Some 0)"
| "sum_rows f (r # rs) =
    rbind (f r) (\<lambda>n.
    case n of None \<Rightarrow> Inr None
    | Some n \<Rightarrow> rbind (sum_rows f rs) (\<lambda>m. Inr (map_option (\<lambda>m. n + m) m)))"

text \<open>Whether every row passes a check that may throw.\<close>

fun all_rows :: "('r \<Rightarrow> bool res) \<Rightarrow> 'r list \<Rightarrow> bool res" where
  "all_rows f [] = Inr True"
| "all_rows f (r # rs) = rbind (f r) (\<lambda>b. if b then all_rows f rs else Inr False)"

definition add_lengths :: "nat res list \<Rightarrow> nat res" where
  "add_lengths rs = rbind (rmap id rs) (\<lambda>ns. Inr (sum_list ns))"

text \<open>The total is checked against the limit before anything is written.\<close>

definition checked_command ::
  "nat \<Rightarrow> nat option res \<Rightarrow> jsval \<Rightarrow> wire_field list \<Rightarrow> protocol_command option res" where
  "checked_command opcode planned limit fs =
    rbind planned (\<lambda>t.
    case t of None \<Rightarrow> Inr None
    | Some n \<Rightarrow> rbind (assertCompactPayloadFits n limit) (\<lambda>_. compact_command opcode n fs))"

abbreviation MAX_COUNT :: nat where "MAX_COUNT \<equiv> 0xFFFFFFFF"

section \<open>Lengths\<close>

definition field_size :: "wire_field \<Rightarrow> nat res" where
  "field_size f =
    (case f of FByte _ \<Rightarrow> Inr 1 | FU16 _ \<Rightarrow> Inr 2 | FU32 _ \<Rightarrow> Inr 4 | FI64 _ \<Rightarrow> Inr 8 | FBinary v \<Rightarrow> compactBinaryEncodedLength v
     | FOptional None \<Rightarrow> Inr 4 | FOptional (Some v) \<Rightarrow> compactBinaryEncodedLength v)"

fun fields_size :: "wire_field list \<Rightarrow> nat res" where
  "fields_size [] = Inr 0"
| "fields_size (f # fs) = rbind (field_size f) (\<lambda>n. rbind (fields_size fs) (\<lambda>m. Inr (n + m)))"

lemma write_field_length: "write_field f = Inr b \<Longrightarrow> field_size f = Inr n \<Longrightarrow> length b = n"
  by (cases f rule: write_field.cases)
    (auto simp: field_size_def write_uint_Inr compactBinaryEncodedLength_def compactBinaryByteLength_def
      binary_value_byte_length_def custom_payload_bytes_def write_i64_def split: if_splits)

lemma write_fields_simps:
  "write_fields [] = Inr []"
  "write_fields (f # fs) = rbind (write_field f) (\<lambda>b. rbind (write_fields fs) (\<lambda>bs. Inr (b @ bs)))"
  by (simp_all add: write_fields_def rbind_assoc)

lemma write_fields_length: "write_fields fs = Inr b \<Longrightarrow> fields_size fs = Inr n \<Longrightarrow> length b = n"
  by (induction fs arbitrary: b n) (auto simp: write_fields_simps dest: write_field_length)

lemma fields_size_append:
  "fields_size (xs @ ys) = rbind (fields_size xs) (\<lambda>n. rbind (fields_size ys) (\<lambda>m. Inr (n + m)))"
  by (induction xs) (auto simp: rbind_def add.assoc split: sum.splits)

section \<open>Reading the fields back\<close>

datatype wire_kind = KByte | KU16 | KU32 | KI64 | KBinary | KOptional

datatype wire_item = IByte nat | IU16 nat | IU32 nat | II64 int | IBinary bytes | IOptional "bytes option"

definition field_kind :: "wire_field \<Rightarrow> wire_kind" where
  "field_kind f =
    (case f of FByte _ \<Rightarrow> KByte | FU16 _ \<Rightarrow> KU16 | FU32 _ \<Rightarrow> KU32 | FI64 _ \<Rightarrow> KI64 | FBinary _ \<Rightarrow> KBinary
     | FOptional _ \<Rightarrow> KOptional)"

definition bytes_of :: "jsval \<Rightarrow> bytes" where
  "bytes_of v = (case to_buffer v of Inr b \<Rightarrow> b | Inl _ \<Rightarrow> [])"

definition field_item :: "wire_field \<Rightarrow> wire_item" where
  "field_item f =
    (case f of FByte n \<Rightarrow> IByte n | FU16 n \<Rightarrow> IU16 n | FU32 n \<Rightarrow> IU32 n | FI64 i \<Rightarrow> II64 i
     | FBinary v \<Rightarrow> IBinary (bytes_of v) | FOptional v \<Rightarrow> IOptional (map_option bytes_of v))"

definition read_nat :: "nat \<Rightarrow> bytes \<Rightarrow> (nat \<times> bytes) option" where
  "read_nat k bs = (if length bs < k then None else Some (be_nat (take k bs), drop k bs))"

definition read_counted :: "nat \<Rightarrow> bytes \<Rightarrow> (bytes \<times> bytes) option" where
  "read_counted n bs = (if length bs < n then None else Some (take n bs, drop n bs))"

definition read_field :: "wire_kind \<Rightarrow> bytes \<Rightarrow> (wire_item \<times> bytes) option" where
  "read_field k bs =
    (case k of
       KByte \<Rightarrow> map_option (map_prod IByte id) (read_nat 1 bs)
     | KU16 \<Rightarrow> map_option (map_prod IU16 id) (read_nat 2 bs)
     | KU32 \<Rightarrow> map_option (map_prod IU32 id) (read_nat 4 bs)
     | KI64 \<Rightarrow> if length bs < 8 then None else Some (II64 (read_i64 (take 8 bs)), drop 8 bs)
     | KBinary \<Rightarrow> (case read_nat 4 bs of None \<Rightarrow> None
         | Some (n, bs') \<Rightarrow> map_option (map_prod IBinary id) (read_counted n bs'))
     | KOptional \<Rightarrow> (case read_nat 4 bs of None \<Rightarrow> None
         | Some (n, bs') \<Rightarrow> if n = NULL_U32 then Some (IOptional None, bs')
             else map_option (map_prod (\<lambda>b. IOptional (Some b)) id) (read_counted n bs')))"

fun read_fields :: "wire_kind list \<Rightarrow> bytes \<Rightarrow> (wire_item list \<times> bytes) option" where
  "read_fields [] bs = Some ([], bs)"
| "read_fields (k # ks) bs =
    (case read_field k bs of None \<Rightarrow> None
     | Some (x, bs') \<Rightarrow> map_option (\<lambda>(xs, rest). (x # xs, rest)) (read_fields ks bs'))"

lemma read_nat_be: "n < 256 ^ k \<Longrightarrow> read_nat k (be_bytes k n @ rest) = Some (n, rest)"
  by (simp add: read_nat_def)

lemma read_counted_append: "read_counted (length b) (b @ rest) = Some (b, rest)"
  by (simp add: read_counted_def)

lemma binary_length_small:
  assumes "compactBinaryEncodedLength v = Inr n"
  shows "\<exists>b. to_buffer v = Inr b \<and> length b < NULL_U32 \<and> bytes_of v = b"
  using assms by (auto simp: compactBinaryEncodedLength_def compactBinaryByteLength_def binary_value_byte_length_def
      custom_payload_bytes_def bytes_of_def split: if_splits)

lemma null_u32_bound: "NULL_U32 < 256 ^ 4"
  by simp

lemma read_write_field:
  assumes "write_field f = Inr b" "field_size f = Inr n"
  shows "read_field (field_kind f) (b @ rest) = Some (field_item f, rest)"
proof (cases f)
  case (FByte i)
  with assms(1) have "read_nat 1 (b @ rest) = Some (i, rest)" using read_nat_be [of i 1 rest]
    by (auto simp: write_uint_Inr simp del: be_bytes.simps)
  with FByte show ?thesis by (simp add: read_field_def field_kind_def field_item_def)
next
  case (FI64 i)
  with assms(1) have "write_i64 i = Inr b" by simp
  from read_write_i64 [OF this] FI64 show ?thesis by (simp add: read_field_def field_kind_def field_item_def)
next
  case (FBinary v)
  from binary_length_small [of v n] assms(2) FBinary obtain d
    where d: "to_buffer v = Inr d" "length d < NULL_U32" "bytes_of v = d" by (auto simp: field_size_def)
  then have "length d < 256 ^ 4" using null_u32_bound by linarith
  then have r: "read_nat 4 (be_bytes 4 (length d) @ d @ rest) = Some (length d, d @ rest)" by (rule read_nat_be)
  with d FBinary assms(1) show ?thesis
    by (auto simp: read_field_def field_kind_def field_item_def write_uint_Inr read_counted_append)
next
  case (FOptional v)
  show ?thesis
  proof (cases v)
    case None
    have r: "read_nat 4 (be_bytes 4 NULL_U32 @ rest) = Some (NULL_U32, rest)" by (rule read_nat_be [OF null_u32_bound])
    show ?thesis using assms(1) FOptional None r
      by (auto simp: read_field_def field_kind_def field_item_def write_uint_Inr)
  next
    case (Some w)
    from binary_length_small [of w n] assms(2) FOptional Some obtain d
      where d: "to_buffer w = Inr d" "length d < NULL_U32" "bytes_of w = d" by (auto simp: field_size_def)
    then have "length d < 256 ^ 4" using null_u32_bound by linarith
    then have r: "read_nat 4 (be_bytes 4 (length d) @ d @ rest) = Some (length d, d @ rest)" by (rule read_nat_be)
    with d FOptional Some assms(1) show ?thesis
      by (auto simp: read_field_def field_kind_def field_item_def write_uint_Inr read_counted_append)
  qed
qed (use assms in \<open>auto simp: read_field_def field_kind_def field_item_def write_uint_Inr read_nat_be read_nat_def\<close>)

lemma read_write_fields:
  "write_fields fs = Inr b \<Longrightarrow> fields_size fs = Inr n \<Longrightarrow>
    read_fields (map field_kind fs) (b @ rest) = Some (map field_item fs, rest)"
  by (induction fs arbitrary: b n) (auto simp: write_fields_simps read_write_field)

lemma write_fields_append:
  "write_fields (xs @ ys) = rbind (write_fields xs) (\<lambda>a. rbind (write_fields ys) (\<lambda>b. Inr (a @ b)))"
  by (induction xs) (auto simp: write_fields_simps rbind_def split: sum.splits)

section \<open>Planned lengths\<close>

lemma sum_rows_size:
  assumes "\<And>r n. f r = Inr (Some n) \<Longrightarrow> fields_size (g r) = Inr n" "sum_rows f rs = Inr (Some m)"
  shows "fields_size (concat (map g rs)) = Inr m"
  using assms(2)
proof (induction rs arbitrary: m)
  case (Cons r rs)
  from Cons.prems obtain n k where "f r = Inr (Some n)" "sum_rows f rs = Inr (Some k)" "m = n + k"
    by (auto split: option.splits)
  with Cons.IH assms(1) show ?case by (auto simp: fields_size_append)
qed simp

text \<open>A buffer of the planned length takes all the writes, and nothing of it is left unwritten.\<close>

lemma put_number_room:
  "length b \<le> k \<Longrightarrow> put_number b (a @ replicate k 0, length a) =
    Inr (a @ b @ replicate (k - length b) 0, length a + length b)"
  by (simp add: put_number_def)

lemma put_copy_room:
  "length b \<le> k \<Longrightarrow> put_copy b (a @ replicate k 0, length a) =
    (a @ b @ replicate (k - length b) 0, length a + length b)"
  by (simp add: put_copy_def Let_def)

lemma put_binary_room:
  assumes "write_field (FBinary v) = Inr b" "length b \<le> k"
  shows "put_binary v (a @ replicate k 0, length a) =
    Inr (a @ b @ replicate (k - length b) 0, length a + length b)"
proof -
  from assms(1) obtain d h where d: "to_buffer v = Inr d" "write_uint 4 (int (length d)) = Inr h" "b = h @ d"
    by auto
  have "length h \<le> k" "length d \<le> k - length h" using assms(2) d(3) by auto
  with put_number_room [of h k a] put_copy_room [of d "k - length h" "a @ h"] show ?thesis
    by (simp add: put_binary_def d add.assoc)
qed

lemma put_field_room:
  assumes "write_field f = Inr b" "length b \<le> k"
  shows "put_field f (a @ replicate k 0, length a) =
    Inr (a @ b @ replicate (k - length b) 0, length a + length b)"
  using assms put_number_room put_binary_room by (cases f rule: write_field.cases) auto

lemma put_field_error: "write_field f = Inl e \<Longrightarrow> put_field f st = Inl e"
  by (cases f rule: write_field.cases) (auto simp: put_binary_def rbind_def split: sum.splits)

lemma put_fields_room:
  "fields_size fs = Inr n \<Longrightarrow> n \<le> k \<Longrightarrow> put_fields fs (a @ replicate k 0, length a) =
    rbind (write_fields fs) (\<lambda>b. Inr (a @ b @ replicate (k - length b) 0, length a + length b))"
proof (induction fs arbitrary: n k a)
  case (Cons f fs)
  from Cons.prems(1) obtain x y where xy: "field_size f = Inr x" "fields_size fs = Inr y" "n = x + y" by auto
  show ?case
  proof (cases "write_field f")
    case (Inl e)
    then show ?thesis by (simp add: put_field_error write_fields_simps)
  next
    case (Inr b)
    from write_field_length [OF Inr xy(1)] have b: "length b = x" .
    with Cons.prems(2) xy(3) have k: "length b \<le> k" "y \<le> k - length b" by simp_all
    have "put_fields (f # fs) (a @ replicate k 0, length a) =
        put_fields fs ((a @ b) @ replicate (k - length b) 0, length (a @ b))"
      by (simp add: put_field_room [OF Inr k(1)])
    also have "\<dots> = rbind (write_fields fs) (\<lambda>c. Inr ((a @ b) @ c @ replicate (k - length b - length c) 0,
        length (a @ b) + length c))"
      by (rule Cons.IH [OF xy(2) k(2)])
    finally show ?thesis using Inr by (simp add: write_fields_simps rbind_assoc add.assoc)
  qed
qed (simp add: write_fields_simps)

lemma fill_buffer_exact:
  assumes "fields_size fs = Inr n"
  shows "fill_buffer n fs = write_fields fs"
proof (cases "write_fields fs")
  case (Inl e)
  then show ?thesis using put_fields_room [OF assms order_refl, of "[]"] by (simp add: fill_buffer_def)
next
  case (Inr b)
  from write_fields_length [OF this assms] have "length b = n" .
  with Inr show ?thesis using put_fields_room [OF assms order_refl, of "[]"] by (simp add: fill_buffer_def)
qed

lemma checked_command_body:
  assumes "checked_command opcode planned limit fs = Inr (Some c)"
    and "\<And>n. planned = Inr (Some n) \<Longrightarrow> fields_size fs = Inr n"
  shows "\<exists>out. pc_payload c = JBuf out \<and> pc_opcode c = opcode \<and> pc_flags c = Some FLAG_CUSTOM_PAYLOAD \<and>
    length out \<le> normalize_encode_limit limit \<and> planned = Inr (Some (length out)) \<and>
    write_fields fs = Inr out \<and> fields_size fs = Inr (length out)"
proof -
  from assms(1) obtain n out where n: "planned = Inr (Some n)" "n \<le> normalize_encode_limit limit"
      and fill: "fill_buffer n fs = Inr out"
      and c: "c = (plain_command opcode (JBuf out))\<lparr>pc_flags := Some FLAG_CUSTOM_PAYLOAD\<rparr>"
    by (auto simp: checked_command_def compact_command_def assertCompactPayloadFits_def split: option.splits if_splits)
  from assms(2) [OF n(1)] have size: "fields_size fs = Inr n" .
  with fill have out: "write_fields fs = Inr out" by (simp add: fill_buffer_exact)
  moreover from write_fields_length [OF out size] have "length out = n" .
  ultimately show ?thesis using n size c by (simp add: plain_command_def)
qed

end
