(* ===== verification/FlowCompact.thy ===== *)
theory FlowCompact
  imports CompactFields
begin

text \<open>
  The compact binary requests of the Flow commands (\<open>src/src/protocol-flow-compact.ts\<close>,
  \<open>src/src/protocol-flow-compact-transition.ts\<close>, \<open>src/src/protocol-flow-compact-single.ts\<close>). Each builder
  returns \<open>None\<close> when an option or an argument has no place in the compact form, adds up the length of
  the request, checks the limit, and writes the fields in order.
\<close>

section \<open>FLOW.CREATE_MANY\<close>

definition create_row_total :: "bool \<Rightarrow> jsval list \<Rightarrow> nat option res" where
  "create_row_total mixed row =
    (let payload = row ! (if mixed then 2 else 1) in
     if \<not> isCompactBinaryScalar (row ! 0) \<or> (mixed \<and> \<not> isCompactBinaryScalar (row ! 1)) \<or>
        \<not> isCompactBinaryScalar payload then Inr None
     else rbind (add_lengths ([compactBinaryEncodedLength (row ! 0)] @
       (if mixed then [compactBinaryEncodedLength (row ! 1)] else []) @ [compactBinaryEncodedLength payload]))
       (\<lambda>n. Inr (Some n)))"

definition create_row_fields :: "bool \<Rightarrow> jsval list \<Rightarrow> wire_field list" where
  "create_row_fields mixed row =
    [FBinary (row ! 0)] @ (if mixed then [FBinary (row ! 1)] else []) @ [FBinary (row ! (if mixed then 2 else 1))]"

definition create_total :: "jsstr \<Rightarrow> bool \<Rightarrow> bool \<Rightarrow> js_object \<Rightarrow> jsval list list \<Rightarrow> nat option res" where
  "create_total scope mixed auto options items =
    rbind (add_lengths ([compactBinaryEncodedLength (field_of options ''type''),
        compactBinaryEncodedLength (field_of options ''state'')] @
      (if \<not> auto \<and> \<not> mixed then [compactOptionalBinaryEncodedLength (JStr scope)] else []))) (\<lambda>n.
    rbind (sum_rows (create_row_total mixed) items) (\<lambda>m.
    Inr (map_option (\<lambda>m. 1 + n + 8 + 8 + 1 + 1 + 4 + m) m)))"

definition run_at_of :: "js_object \<Rightarrow> jsval" where
  "run_at_of options =
    (if nullish (field_of options ''run_at_ms'') then field_of options ''now_ms'' else field_of options ''run_at_ms'')"

definition create_fields :: "jsstr \<Rightarrow> bool \<Rightarrow> bool \<Rightarrow> js_object \<Rightarrow> jsval list list \<Rightarrow> wire_field list" where
  "create_fields scope mixed auto options items =
    [FByte (if mixed then 0x9E else if auto then 0x90 else 0x96),
     FBinary (field_of options ''type''), FBinary (field_of options ''state'')] @
    (if \<not> auto \<and> \<not> mixed then [FOptional (Some (JStr scope))] else []) @
    [FI64 (int_of_number (field_of options ''now_ms'')), FI64 (int_of_number (run_at_of options)),
     FByte (independent_mode (field_of options ''independent'')), FByte 1, FU32 (length items)] @
    concat (map (create_row_fields mixed) items)"

definition compactFlowCreateManyPayload ::
  "jsstr \<Rightarrow> jsval list \<Rightarrow> bool \<Rightarrow> bool \<Rightarrow> js_object \<Rightarrow> jsval \<Rightarrow> protocol_command option res" where
  "compactFlowCreateManyPayload scope raw mixed auto options limit =
    (let kind = field_of options ''type''; state = field_of options ''state'';
         width = (if mixed then 3 else 2); n = length raw div width
     in if any_present options [''priority'', ''idempotent'', ''max_active_ms'', ''retention_ttl_ms'', ''attributes'',
            ''state_meta'', ''values'', ''value_refs''] \<or>
          \<not> isCompactBinaryScalar kind \<or> \<not> isCompactBinaryScalar state \<or> kind = JUndef \<or> state = JUndef \<or>
          \<not> isSafeIntegerNumber (field_of options ''now_ms'') \<or> \<not> isSafeIntegerNumber (run_at_of options) then Inr None
        else if n > MAX_COUNT then Inr None
        else checked_command (command_opcode ''FLOW.CREATE_MANY'') (create_total scope mixed auto options (rows n width raw)) limit
          (create_fields scope mixed auto options (rows n width raw)))"

section \<open>FLOW.CLAIM_DUE\<close>

definition reclaim_ratio :: "js_object \<Rightarrow> jsval" where
  "reclaim_ratio options =
    (if nullish (field_of options ''reclaim_ratio'') then JInt 25 else field_of options ''reclaim_ratio'')"

definition partition_keys_of :: "js_object \<Rightarrow> jsval list option" where
  "partition_keys_of options = (case field_of options ''partition_keys'' of JArr vs \<Rightarrow> Some vs | _ \<Rightarrow> None)"

definition dense_key_length :: "jsval \<Rightarrow> nat res" where
  "dense_key_length v =
    (if v = JHole then Inl (Thrown TypeErr ''PARTITIONS values must be dense'' []) else compactBinaryEncodedLength v)"

definition claim_partition_total :: "js_object \<Rightarrow> nat res" where
  "claim_partition_total options =
    (case partition_keys_of options of
       Some keys \<Rightarrow> rbind (add_lengths (map dense_key_length keys)) (\<lambda>n. Inr (5 + n))
     | None \<Rightarrow>
         if nullish (field_of options ''partition_key'') then Inr 1
         else rbind (compactBinaryEncodedLength (field_of options ''partition_key'')) (\<lambda>n. Inr (1 + n)))"

definition claim_total :: "jsval \<Rightarrow> js_object \<Rightarrow> nat option res" where
  "claim_total kind options =
    rbind (add_lengths [compactBinaryEncodedLength kind,
      compactOptionalBinaryEncodedLength (field_of options ''state''),
      compactBinaryEncodedLength (field_of options ''worker'')]) (\<lambda>n.
    rbind (claim_partition_total options) (\<lambda>m.
    Inr (Some (1 + n + 8 + 8 + 8 + 1 + 8 + 8 + 1 + m))))"

definition claim_partition_fields :: "js_object \<Rightarrow> wire_field list" where
  "claim_partition_fields options =
    (case partition_keys_of options of
       Some keys \<Rightarrow> [FByte 2, FU32 (length keys)] @ map FBinary keys
     | None \<Rightarrow>
         if nullish (field_of options ''partition_key'') then [FByte 0]
         else [FByte 1, FBinary (field_of options ''partition_key'')])"

definition optional_value :: "jsval \<Rightarrow> jsval option" where
  "optional_value v = (if nullish v then None else Some v)"

definition claim_fields :: "jsval \<Rightarrow> js_object \<Rightarrow> nat \<Rightarrow> wire_field list" where
  "claim_fields kind options return_mode =
    [FByte 0x91, FBinary kind, FOptional (optional_value (field_of options ''state'')),
     FBinary (field_of options ''worker''), FI64 (int_of_number (field_of options ''lease_ms'')),
     FI64 (int_of_number (field_of options ''limit'')), FI64 (optionalI64 (field_of options ''block_ms'')),
     FByte (if field_of options ''reclaim_expired'' = JBool False then 0 else 1),
     FI64 (int_of_number (reclaim_ratio options)), FI64 (optionalI64 (field_of options ''priority'')),
     FByte return_mode] @ claim_partition_fields options"

definition compactFlowClaimDuePayload :: "jsval \<Rightarrow> js_object \<Rightarrow> jsval \<Rightarrow> protocol_command option res" where
  "compactFlowClaimDuePayload kind options limit =
    (if any_present options [''states'', ''now_ms'', ''payload_max_bytes'', ''value_max_bytes'', ''values'', ''include_state''] \<or>
        field_of options ''payload'' = JBool True \<or> field_of options ''worker'' = JUndef \<or>
        \<not> isSafeIntegerNumber (field_of options ''lease_ms'') \<or> \<not> isSafeIntegerNumber (field_of options ''limit'') \<or>
        \<not> isOptionalSafeIntegerNumber (field_of options ''block_ms'') \<or> \<not> isSafeIntegerNumber (reclaim_ratio options) \<or>
        \<not> isOptionalSafeIntegerNumber (field_of options ''priority'') then Inr None
     else rbind (compactClaimReturnMode (field_of options ''return'')) (\<lambda>mode.
       case mode of None \<Rightarrow> Inr None
       | Some return_mode \<Rightarrow>
           if (case partition_keys_of options of Some keys \<Rightarrow> length keys > MAX_COUNT | None \<Rightarrow> False) then Inr None
           else checked_command (command_opcode ''FLOW.CLAIM_DUE'') (claim_total kind options) limit (claim_fields kind options return_mode)))"

section \<open>FLOW.COMPLETE_MANY, FLOW.FAIL_MANY, FLOW.RETRY_MANY\<close>

text \<open>The fencing token of a row, once it is known to be an integer.\<close>

definition fencing_of :: "jsval \<Rightarrow> int" where
  "fencing_of v = (case i64_arg v of Inr i \<Rightarrow> i | Inl _ \<Rightarrow> 0)"

definition claimed_row_ok :: "bool \<Rightarrow> jsval list \<Rightarrow> bool res" where
  "claimed_row_ok mixed row =
    (let width = (if mixed then 4 else 3) in
     if \<not> isCompactBinaryScalar (row ! 0) \<or> (mixed \<and> \<not> isCompactBinaryScalar (row ! 1)) \<or>
        \<not> isCompactBinaryScalar (row ! (width - 2)) then Inr False
     else rbind (i64_arg (row ! (width - 1))) (\<lambda>_. Inr True))"

definition claimed_row_total :: "bool \<Rightarrow> jsval list \<Rightarrow> nat option res" where
  "claimed_row_total mixed row =
    (let width = (if mixed then 4 else 3) in
     rbind (i64_arg (row ! (width - 1))) (\<lambda>_.
     rbind (add_lengths [compactBinaryEncodedLength (row ! 0),
       compactOptionalBinaryEncodedLength (if mixed then row ! 1 else JNull),
       compactBinaryEncodedLength (row ! (width - 2))]) (\<lambda>n.
     Inr (Some (n + 8)))))"

definition claimed_row_fields :: "bool \<Rightarrow> jsval list \<Rightarrow> wire_field list" where
  "claimed_row_fields mixed row =
    (let width = (if mixed then 4 else 3) in
     [FBinary (row ! 0), FOptional (if mixed then Some (row ! 1) else None), FBinary (row ! (width - 2)),
      FI64 (fencing_of (row ! (width - 1)))])"

text \<open>The length, with the length of the fixed fields after the partition.\<close>

definition claimed_total :: "jsstr \<Rightarrow> bool \<Rightarrow> bool \<Rightarrow> nat \<Rightarrow> jsval list list \<Rightarrow> nat option res" where
  "claimed_total scope mixed auto fixed items =
    rbind (compactOptionalBinaryEncodedLength (if \<not> auto \<and> \<not> mixed then JStr scope else JNull)) (\<lambda>n.
    rbind (sum_rows (claimed_row_total mixed) items) (\<lambda>m.
    Inr (map_option (\<lambda>m. 1 + n + fixed + m) m)))"

definition complete_fields :: "nat \<Rightarrow> jsstr \<Rightarrow> bool \<Rightarrow> bool \<Rightarrow> js_object \<Rightarrow> jsval list list \<Rightarrow> wire_field list" where
  "complete_fields tag scope mixed auto options items =
    [FByte tag, FOptional (if \<not> auto \<and> \<not> mixed then Some (JStr scope) else None),
     FI64 (int_of_number (field_of options ''now_ms'')), FByte (independent_mode (field_of options ''independent'')),
     FU32 (length items)] @ concat (map (claimed_row_fields mixed) items)"

definition retry_fields :: "nat \<Rightarrow> jsstr \<Rightarrow> bool \<Rightarrow> bool \<Rightarrow> js_object \<Rightarrow> jsval list list \<Rightarrow> wire_field list" where
  "retry_fields tag scope mixed auto options items =
    [FByte tag, FOptional (if \<not> auto \<and> \<not> mixed then Some (JStr scope) else None),
     FI64 (int_of_number (field_of options ''now_ms'')), FI64 (int_of_number (field_of options ''run_at_ms'')),
     FByte (independent_mode (field_of options ''independent'')), FU32 (length items)] @
    concat (map (claimed_row_fields mixed) items)"

text \<open>A request whose smallest possible length is over the limit: it is refused for its length only when all
  the rows have a compact form.\<close>

definition minimum_fits :: "nat \<Rightarrow> jsval \<Rightarrow> bool res \<Rightarrow> bool res" where
  "minimum_fits minimum limit eligible =
    (if compactPayloadFits minimum limit then Inr True
     else rbind eligible (\<lambda>b. if b then rbind (assertCompactPayloadFits minimum limit) (\<lambda>_. Inr True) else Inr False))"

definition compactFlowCompleteManyPayload ::
  "nat \<Rightarrow> jsstr \<Rightarrow> jsval list \<Rightarrow> bool \<Rightarrow> bool \<Rightarrow> js_object \<Rightarrow> jsval \<Rightarrow> protocol_command option res" where
  "compactFlowCompleteManyPayload opcode scope raw mixed auto options limit =
    (let width = (if mixed then 4 else 3); n = length raw div width; items = rows n width raw in
     if any_present options [''error'', ''result'', ''payload'', ''ttl_ms'', ''state_meta'', ''values'', ''value_refs'',
            ''drop_values'', ''override_values'', ''attributes_merge'', ''attributes_delete''] \<or>
        \<not> isSafeIntegerNumber (field_of options ''now_ms'') then Inr None
     else rbind (compactManyRequestTag (field_of options ''return'') 0x92 0x93) (\<lambda>tag.
       case tag of None \<Rightarrow> Inr None
       | Some tag \<Rightarrow>
           if n > MAX_COUNT then Inr None
           else rbind (minimum_fits (18 + n * 20) limit (all_rows (claimed_row_ok mixed) items)) (\<lambda>b.
             if b then checked_command opcode (claimed_total scope mixed auto (8 + 1 + 4) items) limit
               (complete_fields tag scope mixed auto options items)
             else Inr None)))"

definition compactFlowRetryManyPayload ::
  "jsstr \<Rightarrow> jsval list \<Rightarrow> bool \<Rightarrow> bool \<Rightarrow> js_object \<Rightarrow> jsval \<Rightarrow> protocol_command option res" where
  "compactFlowRetryManyPayload scope raw mixed auto options limit =
    (let width = (if mixed then 4 else 3); n = length raw div width; items = rows n width raw in
     if any_present options [''error'', ''payload'', ''state_meta'', ''values'', ''value_refs'',
            ''drop_values'', ''override_values'', ''attributes_merge'', ''attributes_delete''] \<or>
        \<not> isSafeIntegerNumber (field_of options ''now_ms'') \<or>
        \<not> isSafeIntegerNumber (field_of options ''run_at_ms'') then Inr None
     else rbind (compactManyRequestTag (field_of options ''return'') 0x97 0x98) (\<lambda>tag.
       case tag of None \<Rightarrow> Inr None
       | Some tag \<Rightarrow>
           if n > MAX_COUNT then Inr None
           else rbind (minimum_fits (26 + n * 20) limit (all_rows (claimed_row_ok mixed) items)) (\<lambda>b.
             if b then checked_command (command_opcode ''FLOW.RETRY_MANY'') (claimed_total scope mixed auto (8 + 8 + 1 + 4) items) limit
               (retry_fields tag scope mixed auto options items)
             else Inr None)))"

section \<open>FLOW.CANCEL_MANY\<close>

definition cancel_allowed :: catalog where
  "cancel_allowed = [''REASON'', ''TTL'', ''NOW'', ''INDEPENDENT'', ''STATE_META'', ''VALUE'', ''VALUE_REF'',
    ''DROP_VALUE'', ''OVERRIDE_VALUE'', ''ATTRIBUTE_MERGE'', ''ATTRIBUTE_DELETE'', ''RETURN'']"

definition nonnegative_ms :: "jsval \<Rightarrow> bool" where
  "nonnegative_ms v \<longleftrightarrow> isSafeIntegerNumber v \<and> 0 \<le> int_of_number v"

definition cancel_row_ok :: "bool \<Rightarrow> jsval list \<Rightarrow> bool res" where
  "cancel_row_ok mixed row =
    (if \<not> isCompactBinaryArgument (row ! 0) \<or> (mixed \<and> \<not> isCompactBinaryArgument (row ! 1)) then Inr False
     else rbind (i64_arg (row ! (if mixed then 2 else 1))) (\<lambda>i. Inr (i \<ge> 0)))"

definition cancel_row_total :: "bool \<Rightarrow> jsval list \<Rightarrow> nat option res" where
  "cancel_row_total mixed row =
    (if \<not> isCompactBinaryArgument (row ! 0) \<or> (mixed \<and> \<not> isCompactBinaryArgument (row ! 1)) then Inr None
     else rbind (compactBinaryByteLength (row ! 0)) (\<lambda>n.
       rbind (if mixed then compactBinaryByteLength (row ! 1) else Inr 0) (\<lambda>m.
       rbind (i64_arg (row ! (if mixed then 2 else 1))) (\<lambda>i.
       Inr (if i < 0 then None else Some (4 + n + 4 + m + 8))))))"

definition cancel_row_fields :: "bool \<Rightarrow> jsval list \<Rightarrow> wire_field list" where
  "cancel_row_fields mixed row =
    [FBinary (row ! 0), FOptional (if mixed then Some (row ! 1) else None),
     FI64 (fencing_of (row ! (if mixed then 2 else 1)))]"

definition cancel_total :: "jsval \<Rightarrow> bool \<Rightarrow> jsval list list \<Rightarrow> nat option res" where
  "cancel_total scope mixed items =
    rbind (if mixed then Inr 0 else compactBinaryByteLength scope) (\<lambda>n.
    rbind (sum_rows (cancel_row_total mixed) items) (\<lambda>m.
    Inr (map_option (\<lambda>m. 1 + 4 + n + 8 + 1 + 4 + m) m)))"

definition cancel_fields :: "nat \<Rightarrow> jsval \<Rightarrow> bool \<Rightarrow> js_object \<Rightarrow> jsval list list \<Rightarrow> wire_field list" where
  "cancel_fields tag scope mixed options items =
    [FByte tag, FOptional (if mixed then None else Some scope), FI64 (int_of_number (field_of options ''now_ms'')),
     FByte (independent_mode (field_of options ''independent'')), FU32 (length items)] @
    concat (map (cancel_row_fields mixed) items)"

definition cancel_items :: "jsval \<Rightarrow> bool \<Rightarrow> js_object \<Rightarrow> nat \<Rightarrow> jsval list \<Rightarrow> jsval \<Rightarrow> protocol_command option res" where
  "cancel_items scope mixed options tag raw limit =
    (let width = (if mixed then 3 else 2); n = length raw div width; items = rows n width raw in
     if raw = [] \<or> length raw mod width \<noteq> 0 \<or> n > MAX_COUNT then Inr None
     else rbind (minimum_fits (18 + n * 16) limit (all_rows (cancel_row_ok mixed) items)) (\<lambda>b.
       if b then rbind (checked_command (command_opcode ''FLOW.CANCEL_MANY'') (cancel_total scope mixed items) limit
           (cancel_fields tag scope mixed options items)) (\<lambda>c.
           Inr (map_option (\<lambda>c. c\<lparr>pc_response_items := Some n\<rparr>) c))
       else Inr None))"

definition compactFlowCancelManyPayload :: "jsval list \<Rightarrow> jsval \<Rightarrow> protocol_command option res" where
  "compactFlowCancelManyPayload args limit =
    (if length args < 3 \<or> \<not> isCompactBinaryArgument (args ! 0) then Inr None
     else rbind (as_text (args ! 0)) (\<lambda>scope.
       rbind (findItemToken args 1) (\<lambda>at.
       case at of None \<Rightarrow> Inr None
       | Some at \<Rightarrow>
           if \<not> command_token_is (args ! at) (ascii ''ITEMS'') then Inr None
           else rbind (parseFlowOptions args 1 at \<lparr>oc_allowed = cancel_allowed, oc_payload_value = False, oc_read_values = False, oc_required = []\<rparr>) (\<lambda>options.
             case options of None \<Rightarrow> Inr None
             | Some options \<Rightarrow>
                 if any_present options [''reason'', ''ttl_ms'', ''state_meta'', ''values'', ''value_refs'',
                      ''drop_values'', ''override_values'', ''attributes_merge'', ''attributes_delete''] \<or>
                    \<not> nonnegative_ms (field_of options ''now_ms'') then Inr None
                 else rbind (compactManyRequestTag (field_of options ''return'') 0x99 0x9A) (\<lambda>tag.
                   case tag of None \<Rightarrow> Inr None
                   | Some tag \<Rightarrow>
                       rbind (denseCommandArgumentTail args (at + 1) ''ITEMS'') (\<lambda>raw.
                       cancel_items (args ! 0) (to_upper scope = ascii ''MIXED'') options tag raw limit))))))"

section \<open>FLOW.TRANSITION_MANY\<close>

definition lease_value :: "jsval \<Rightarrow> jsval option" where
  "lease_value v = (if command_token_is v (ascii ''-'') then None else Some v)"

definition transition_row_eligible :: "bool \<Rightarrow> jsval list \<Rightarrow> bool" where
  "transition_row_eligible mixed row \<longleftrightarrow>
    isCompactBinaryArgument (row ! 0) \<and> (mixed \<longrightarrow> isCompactBinaryArgument (row ! 1)) \<and>
    isCompactBinaryArgument (row ! (if mixed then 3 else 2))"

definition transition_row_ok :: "bool \<Rightarrow> jsval list \<Rightarrow> bool res" where
  "transition_row_ok mixed row =
    (if \<not> transition_row_eligible mixed row then Inr False
     else rbind (i64_arg (row ! (if mixed then 2 else 1))) (\<lambda>i. Inr (i \<ge> 0)))"

definition transition_row_total :: "bool \<Rightarrow> jsval list \<Rightarrow> nat option res" where
  "transition_row_total mixed row =
    (if \<not> transition_row_eligible mixed row then Inr None
     else rbind (compactBinaryByteLength (row ! 0)) (\<lambda>n.
       rbind (if mixed then compactBinaryByteLength (row ! 1) else Inr 0) (\<lambda>m.
       rbind (i64_arg (row ! (if mixed then 2 else 1))) (\<lambda>i.
       if i < 0 then Inr None
       else rbind (case lease_value (row ! (if mixed then 3 else 2)) of None \<Rightarrow> Inr 0 | Some v \<Rightarrow> compactBinaryByteLength v) (\<lambda>l.
         Inr (Some (4 + n + 4 + m + 8 + 4 + l)))))))"

definition transition_row_fields :: "bool \<Rightarrow> jsval list \<Rightarrow> wire_field list" where
  "transition_row_fields mixed row =
    [FBinary (row ! 0), FOptional (if mixed then Some (row ! 1) else None),
     FI64 (fencing_of (row ! (if mixed then 2 else 1))), FOptional (lease_value (row ! (if mixed then 3 else 2)))]"

definition transition_total :: "jsval \<Rightarrow> jsval \<Rightarrow> jsval \<Rightarrow> bool \<Rightarrow> jsval list list \<Rightarrow> nat option res" where
  "transition_total scope from_state to_state mixed items =
    rbind (compactBinaryByteLength from_state) (\<lambda>f.
    rbind (compactBinaryByteLength to_state) (\<lambda>t.
    rbind (if mixed then Inr 0 else compactBinaryByteLength scope) (\<lambda>n.
    rbind (sum_rows (transition_row_total mixed) items) (\<lambda>m.
    Inr (map_option (\<lambda>m. 1 + 4 + f + 4 + t + 4 + n + 8 + 8 + 1 + 4 + m) m)))))"

definition transition_fields ::
  "nat \<Rightarrow> jsval \<Rightarrow> jsval \<Rightarrow> jsval \<Rightarrow> bool \<Rightarrow> js_object \<Rightarrow> jsval list list \<Rightarrow> wire_field list" where
  "transition_fields tag scope from_state to_state mixed options items =
    [FByte tag, FBinary from_state, FBinary to_state, FOptional (if mixed then None else Some scope),
     FI64 (int_of_number (field_of options ''now_ms'')), FI64 (int_of_number (run_at_of options)),
     FByte (independent_mode (field_of options ''independent'')), FU32 (length items)] @
    concat (map (transition_row_fields mixed) items)"

definition compactFlowTransitionManyPayload ::
  "jsval \<Rightarrow> jsval \<Rightarrow> jsval \<Rightarrow> jsval list \<Rightarrow> bool \<Rightarrow> js_object \<Rightarrow> jsval \<Rightarrow> protocol_command option res" where
  "compactFlowTransitionManyPayload scope from_state to_state raw mixed options limit =
    (let width = (if mixed then 4 else 3); n = length raw div width; items = rows n width raw in
     if any_present options [''payload'', ''priority'', ''state_meta'', ''values'', ''value_refs'',
            ''drop_values'', ''override_values'', ''attributes_merge'', ''attributes_delete''] \<or>
        \<not> nonnegative_ms (field_of options ''now_ms'') \<or> \<not> nonnegative_ms (run_at_of options) then Inr None
     else rbind (compactManyRequestTag (field_of options ''return'') 0x9B 0x9C) (\<lambda>tag.
       case tag of None \<Rightarrow> Inr None
       | Some tag \<Rightarrow>
           if n > MAX_COUNT then Inr None
           else rbind (minimum_fits (34 + n * 20) limit (all_rows (transition_row_ok mixed) items)) (\<lambda>b.
             if b then checked_command (command_opcode ''FLOW.TRANSITION_MANY'')
               (transition_total scope from_state to_state mixed items) limit
               (transition_fields tag scope from_state to_state mixed options items)
             else Inr None)))"

section \<open>FLOW.VALUE.MGET\<close>

definition ref_total :: "jsval \<Rightarrow> nat option res" where
  "ref_total v =
    (if \<not> isCompactBinaryArgument v then Inr None else rbind (compactBinaryByteLength v) (\<lambda>n. Inr (Some (4 + n))))"

definition value_mget_fields :: "jsval list \<Rightarrow> jsval \<Rightarrow> wire_field list" where
  "value_mget_fields refs cap =
    [FByte 0x9D, FI64 (optionalI64 cap), FU32 (length refs)] @ map FBinary refs"

definition compactFlowValueMGetPayload :: "jsval list \<Rightarrow> jsval \<Rightarrow> jsval \<Rightarrow> protocol_command option res" where
  "compactFlowValueMGetPayload refs cap limit =
    (if length refs > MAX_COUNT \<or> \<not> (nullish cap \<or> nonnegative_ms cap) then Inr None
     else rbind (minimum_fits (13 + length refs * 4) limit (Inr (list_all isCompactBinaryArgument refs))) (\<lambda>b.
       if b then checked_command (command_opcode ''FLOW.VALUE.MGET'')
         (rbind (sum_rows ref_total refs) (\<lambda>m. Inr (map_option (\<lambda>m. 1 + 8 + 4 + m) m))) limit
         (value_mget_fields refs cap)
       else Inr None))"

section \<open>Reading a request back\<close>

text \<open>The fields in front of the number of rows and the fields of a row, by the tag of the request.\<close>

definition request_layout :: "nat \<Rightarrow> (wire_kind list \<times> wire_kind list) option" where
  "request_layout tag =
    (if tag = 0x90 then Some ([KBinary, KBinary, KI64, KI64, KByte, KByte], [KBinary, KBinary])
     else if tag = 0x96 then Some ([KBinary, KBinary, KOptional, KI64, KI64, KByte, KByte], [KBinary, KBinary])
     else if tag = 0x9E then Some ([KBinary, KBinary, KI64, KI64, KByte, KByte], [KBinary, KBinary, KBinary])
     else if tag \<in> {0x92, 0x93} then Some ([KOptional, KI64, KByte], [KBinary, KOptional, KBinary, KI64])
     else if tag \<in> {0x97, 0x98} then Some ([KOptional, KI64, KI64, KByte], [KBinary, KOptional, KBinary, KI64])
     else if tag \<in> {0x99, 0x9A} then Some ([KOptional, KI64, KByte], [KBinary, KOptional, KI64])
     else if tag \<in> {0x9B, 0x9C} then
       Some ([KBinary, KBinary, KOptional, KI64, KI64, KByte], [KBinary, KOptional, KI64, KOptional])
     else if tag = 0x9D then Some ([KI64], [KBinary])
     else None)"

definition claim_layout :: "wire_kind list" where
  "claim_layout = [KBinary, KOptional, KBinary, KI64, KI64, KI64, KByte, KI64, KI64, KByte]"

text \<open>The number of rows, the rows, and nothing after them.\<close>

definition decode_rows :: "wire_kind list \<Rightarrow> bytes \<Rightarrow> wire_item list option" where
  "decode_rows row_kinds bs =
    (case read_nat 4 bs of None \<Rightarrow> None
     | Some (n, bs') \<Rightarrow>
         (case read_fields (concat (replicate n row_kinds)) bs' of
            Some (xs, []) \<Rightarrow> Some (IU32 n # xs) | _ \<Rightarrow> None))"

definition decode_partitions :: "bytes \<Rightarrow> wire_item list option" where
  "decode_partitions bs =
    (case read_nat 1 bs of None \<Rightarrow> None
     | Some (kind, bs') \<Rightarrow>
         map_option (\<lambda>xs. IByte kind # xs)
           (if kind = 2 then decode_rows [KBinary] bs'
            else (case read_fields (if kind = 1 then [KBinary] else []) bs' of Some (xs, []) \<Rightarrow> Some xs | _ \<Rightarrow> None)))"

definition decode_request :: "bytes \<Rightarrow> wire_item list option" where
  "decode_request bs =
    (case read_nat 1 bs of None \<Rightarrow> None
     | Some (tag, bs') \<Rightarrow>
         map_option (\<lambda>xs. IByte tag # xs)
           (if tag = 0x91 then
              (case read_fields claim_layout bs' of None \<Rightarrow> None
               | Some (xs, rest) \<Rightarrow> map_option (\<lambda>ys. xs @ ys) (decode_partitions rest))
            else (case request_layout tag of None \<Rightarrow> None
              | Some (header, row_kinds) \<Rightarrow>
                  (case read_fields header bs' of None \<Rightarrow> None
                   | Some (xs, rest) \<Rightarrow> map_option (\<lambda>ys. xs @ ys) (decode_rows row_kinds rest)))))"

text \<open>The requests.\<close>

datatype flow_request =
    CreateMany jsstr "jsval list" bool bool js_object
  | ClaimDue jsval js_object
  | CompleteMany nat jsstr "jsval list" bool bool js_object
  | RetryMany jsstr "jsval list" bool bool js_object
  | CancelMany "jsval list"
  | TransitionMany jsval jsval jsval "jsval list" bool js_object
  | ValueMGet "jsval list" jsval

definition flow_body :: "flow_request \<Rightarrow> jsval \<Rightarrow> protocol_command option res" where
  "flow_body r limit =
    (case r of
       CreateMany scope raw mixed auto options \<Rightarrow> compactFlowCreateManyPayload scope raw mixed auto options limit
     | ClaimDue kind options \<Rightarrow> compactFlowClaimDuePayload kind options limit
     | CompleteMany opcode scope raw mixed auto options \<Rightarrow>
         compactFlowCompleteManyPayload opcode scope raw mixed auto options limit
     | RetryMany scope raw mixed auto options \<Rightarrow> compactFlowRetryManyPayload scope raw mixed auto options limit
     | CancelMany args \<Rightarrow> compactFlowCancelManyPayload args limit
     | TransitionMany scope from_state to_state raw mixed options \<Rightarrow>
         compactFlowTransitionManyPayload scope from_state to_state raw mixed options limit
     | ValueMGet refs cap \<Rightarrow> compactFlowValueMGetPayload refs cap limit)"

definition items_of :: "nat \<Rightarrow> jsval list \<Rightarrow> jsval list list" where
  "items_of width raw = rows (length raw div width) width raw"

text \<open>What the arguments of FLOW.CANCEL_MANY consist of: whether the items carry their partitions, the
  options in front of ITEMS, and the items.\<close>

definition cancel_parts :: "jsval list \<Rightarrow> bool \<times> js_object \<times> jsval list" where
  "cancel_parts args =
    (case findItemToken args 1 of
       Inr (Some at) \<Rightarrow>
         ((case as_text (args ! 0) of Inr scope \<Rightarrow> to_upper scope = ascii ''MIXED'' | Inl _ \<Rightarrow> False),
          (case parseFlowOptions args 1 at \<lparr>oc_allowed = cancel_allowed, oc_payload_value = False, oc_read_values = False, oc_required = []\<rparr> of
             Inr (Some options) \<Rightarrow> options | _ \<Rightarrow> []),
          (case denseCommandArgumentTail args (at + 1) ''ITEMS'' of Inr raw \<Rightarrow> raw | Inl _ \<Rightarrow> []))
     | _ \<Rightarrow> (False, [], []))"

text \<open>The length each builder computes before it allocates the buffer.\<close>

definition planned_total :: "flow_request \<Rightarrow> nat option res" where
  "planned_total r =
    (case r of
       CreateMany scope raw mixed auto options \<Rightarrow>
         create_total scope mixed auto options (items_of (if mixed then 3 else 2) raw)
     | ClaimDue kind options \<Rightarrow> claim_total kind options
     | CompleteMany opcode scope raw mixed auto options \<Rightarrow>
         claimed_total scope mixed auto (8 + 1 + 4) (items_of (if mixed then 4 else 3) raw)
     | RetryMany scope raw mixed auto options \<Rightarrow>
         claimed_total scope mixed auto (8 + 8 + 1 + 4) (items_of (if mixed then 4 else 3) raw)
     | CancelMany args \<Rightarrow>
         (case cancel_parts args of (mixed, options, raw) \<Rightarrow>
            cancel_total (args ! 0) mixed (items_of (if mixed then 3 else 2) raw))
     | TransitionMany scope from_state to_state raw mixed options \<Rightarrow>
         transition_total scope from_state to_state mixed (items_of (if mixed then 4 else 3) raw)
     | ValueMGet refs cap \<Rightarrow> rbind (sum_rows ref_total refs) (\<lambda>m. Inr (map_option (\<lambda>m. 1 + 8 + 4 + m) m)))"

section \<open>What a request must say\<close>

text \<open>The contents of the requests, stated over the arguments and options alone: every field of the wire
  with where its value comes from. \<open>SNumber\<close> is a number, \<open>SLimit\<close> a number that may be missing (the
  smallest 64-bit integer then), \<open>SInteger\<close> an argument that stands for a 64-bit integer, \<open>SValue\<close> and
  \<open>SOptional\<close> are bytes.\<close>

datatype source = SByte nat | SCount nat | SNumber jsval | SLimit jsval | SInteger jsval | SValue jsval
  | SOptional "jsval option"

definition number_is :: "jsval \<Rightarrow> int \<Rightarrow> bool" where
  "number_is v i \<longleftrightarrow> v = JInt i \<or> v = JFloat 0x8000000000000000 \<and> i = 0"

definition limit_is :: "jsval \<Rightarrow> int \<Rightarrow> bool" where
  "limit_is v i \<longleftrightarrow> (if nullish v then i = - (2 ^ 63) else number_is v i)"

fun says :: "source \<Rightarrow> wire_item \<Rightarrow> bool" where
  "says (SByte n) (IByte m) \<longleftrightarrow> m = n"
| "says (SCount n) (IU32 m) \<longleftrightarrow> m = n"
| "says (SNumber v) (II64 i) \<longleftrightarrow> number_is v i"
| "says (SLimit v) (II64 i) \<longleftrightarrow> limit_is v i"
| "says (SInteger v) (II64 i) \<longleftrightarrow> i64_arg v = Inr i"
| "says (SValue v) (IBinary b) \<longleftrightarrow> to_buffer v = Inr b"
| "says (SOptional None) (IOptional b) \<longleftrightarrow> b = None"
| "says (SOptional (Some v)) (IOptional (Some b)) \<longleftrightarrow> to_buffer v = Inr b"
| "says _ _ \<longleftrightarrow> False"

text \<open>\<open>value ?? otherwise\<close>.\<close>

definition or_else :: "jsval \<Rightarrow> jsval \<Rightarrow> jsval" where
  "or_else v otherwise = (if nullish v then otherwise else v)"

text \<open>Whether the RETURN option is the given word, in any case.\<close>

definition wants :: "js_object \<Rightarrow> string \<Rightarrow> bool" where
  "wants options word \<longleftrightarrow> \<not> nullish (field_of options ''return'') \<and>
    (case as_text (field_of options ''return'') of Inr t \<Rightarrow> to_upper t = ascii word | Inl _ \<Rightarrow> False)"

definition independent_byte :: "js_object \<Rightarrow> nat" where
  "independent_byte options =
    (if field_of options ''independent'' = JBool True then 2
     else if field_of options ''independent'' = JBool False then 1 else 0)"

definition job_byte :: "js_object \<Rightarrow> nat" where
  "job_byte options =
    (if wants options ''JOBS_COMPACT'' then 1
     else if wants options ''JOBS_COMPACT_STATE'' \<or> wants options ''JOBS_COMPACT_WITH_STATE'' then 2
     else if wants options ''JOBS_COMPACT_ATTRS'' \<or> wants options ''JOBS_COMPACT_ATTRIBUTES'' then 3
     else 4)"

text \<open>Rows of \<open>width\<close> arguments, each given by the index of its first argument.\<close>

definition source_rows :: "nat \<Rightarrow> nat \<Rightarrow> (nat \<Rightarrow> source list) \<Rightarrow> source list" where
  "source_rows n width f = SCount n # concat (map (\<lambda>j. f (width * j)) [0..<n])"

definition claimed_source :: "jsval list \<Rightarrow> bool \<Rightarrow> nat \<Rightarrow> source list" where
  "claimed_source raw mixed i =
    (if mixed then [SValue (raw ! i), SOptional (Some (raw ! (i + 1))), SValue (raw ! (i + 2)), SInteger (raw ! (i + 3))]
     else [SValue (raw ! i), SOptional None, SValue (raw ! (i + 1)), SInteger (raw ! (i + 2))])"

definition cancel_source :: "jsval list \<Rightarrow> bool \<Rightarrow> nat \<Rightarrow> source list" where
  "cancel_source raw mixed i =
    (if mixed then [SValue (raw ! i), SOptional (Some (raw ! (i + 1))), SInteger (raw ! (i + 2))]
     else [SValue (raw ! i), SOptional None, SInteger (raw ! (i + 1))])"

definition lease_source :: "jsval \<Rightarrow> source" where
  "lease_source v = SOptional (if command_token_is v (ascii ''-'') then None else Some v)"

definition transition_source :: "jsval list \<Rightarrow> bool \<Rightarrow> nat \<Rightarrow> source list" where
  "transition_source raw mixed i =
    (if mixed then [SValue (raw ! i), SOptional (Some (raw ! (i + 1))), SInteger (raw ! (i + 2)), lease_source (raw ! (i + 3))]
     else [SValue (raw ! i), SOptional None, SInteger (raw ! (i + 1)), lease_source (raw ! (i + 2))])"

definition required_fields :: "flow_request \<Rightarrow> source list" where
  "required_fields r =
    (case r of
       CreateMany scope raw mixed auto options \<Rightarrow>
         (let width = (if mixed then 3 else 2) in
         [SByte (if mixed then 0x9E else if auto then 0x90 else 0x96),
          SValue (field_of options ''type''), SValue (field_of options ''state'')] @
         (if mixed \<or> auto then [] else [SOptional (Some (JStr scope))]) @
         [SNumber (field_of options ''now_ms''),
          SNumber (or_else (field_of options ''run_at_ms'') (field_of options ''now_ms'')),
          SByte (independent_byte options), SByte 1] @
         source_rows (length raw div width) width (\<lambda>i. map (\<lambda>c. SValue (raw ! (i + c))) [0..<width]))
     | ClaimDue kind options \<Rightarrow>
         [SByte 0x91, SValue kind,
          SOptional (if nullish (field_of options ''state'') then None else Some (field_of options ''state'')),
          SValue (field_of options ''worker''), SNumber (field_of options ''lease_ms''),
          SNumber (field_of options ''limit''), SLimit (field_of options ''block_ms''),
          SByte (if field_of options ''reclaim_expired'' = JBool False then 0 else 1),
          SNumber (or_else (field_of options ''reclaim_ratio'') (JInt 25)),
          SLimit (field_of options ''priority''), SByte (job_byte options)] @
         (case field_of options ''partition_keys'' of
            JArr keys \<Rightarrow> [SByte 2, SCount (length keys)] @ map SValue keys
          | _ \<Rightarrow> if nullish (field_of options ''partition_key'') then [SByte 0]
              else [SByte 1, SValue (field_of options ''partition_key'')])
     | CompleteMany opcode scope raw mixed auto options \<Rightarrow>
         (let width = (if mixed then 4 else 3) in
         [SByte (if wants options ''OK_ON_SUCCESS'' then 0x93 else 0x92),
          SOptional (if mixed \<or> auto then None else Some (JStr scope)), SNumber (field_of options ''now_ms''),
          SByte (independent_byte options)] @
         source_rows (length raw div width) width (claimed_source raw mixed))
     | RetryMany scope raw mixed auto options \<Rightarrow>
         (let width = (if mixed then 4 else 3) in
         [SByte (if wants options ''OK_ON_SUCCESS'' then 0x98 else 0x97),
          SOptional (if mixed \<or> auto then None else Some (JStr scope)), SNumber (field_of options ''now_ms''),
          SNumber (field_of options ''run_at_ms''), SByte (independent_byte options)] @
         source_rows (length raw div width) width (claimed_source raw mixed))
     | CancelMany args \<Rightarrow>
         (case cancel_parts args of (mixed, options, raw) \<Rightarrow>
          let width = (if mixed then 3 else 2) in
         [SByte (if wants options ''OK_ON_SUCCESS'' then 0x9A else 0x99),
          SOptional (if mixed then None else Some (args ! 0)), SNumber (field_of options ''now_ms''),
          SByte (independent_byte options)] @
         source_rows (length raw div width) width (cancel_source raw mixed))
     | TransitionMany scope from_state to_state raw mixed options \<Rightarrow>
         (let width = (if mixed then 4 else 3) in
         [SByte (if wants options ''OK_ON_SUCCESS'' then 0x9C else 0x9B), SValue from_state, SValue to_state,
          SOptional (if mixed then None else Some scope), SNumber (field_of options ''now_ms''),
          SNumber (or_else (field_of options ''run_at_ms'') (field_of options ''now_ms'')),
          SByte (independent_byte options)] @
         source_rows (length raw div width) width (transition_source raw mixed))
     | ValueMGet refs cap \<Rightarrow> [SByte 0x9D, SLimit cap, SCount (length refs)] @ map SValue refs)"

section \<open>Where the written fields come from\<close>

fun comes_from :: "source \<Rightarrow> wire_field \<Rightarrow> bool" where
  "comes_from (SByte n) (FByte m) \<longleftrightarrow> m = n"
| "comes_from (SCount n) (FU32 m) \<longleftrightarrow> m = n"
| "comes_from (SNumber v) (FI64 i) \<longleftrightarrow> number_is v i"
| "comes_from (SLimit v) (FI64 i) \<longleftrightarrow> limit_is v i"
| "comes_from (SInteger v) (FI64 i) \<longleftrightarrow> i64_arg v = Inr i"
| "comes_from (SValue v) (FBinary w) \<longleftrightarrow> w = v"
| "comes_from (SOptional v) (FOptional w) \<longleftrightarrow> w = v"
| "comes_from _ _ \<longleftrightarrow> False"

lemma comes_from_says:
  assumes "comes_from s f" "field_size f = Inr n"
  shows "says s (field_item f)"
proof (cases f)
  case (FBinary v)
  with assms binary_length_small [of v n] show ?thesis by (cases s) (auto simp: field_item_def field_size_def)
next
  case (FOptional w)
  with assms obtain v where s: "s = SOptional w" by (cases s) auto
  with FOptional assms binary_length_small [of "the w" n] show ?thesis
    by (cases w) (auto simp: field_item_def field_size_def)
qed (use assms in \<open>cases s; auto simp: field_item_def\<close>)+

lemma all_come_from_says:
  "list_all2 comes_from ss fs \<Longrightarrow> fields_size fs = Inr n \<Longrightarrow> list_all2 says ss (map field_item fs)"
  by (induction ss fs arbitrary: n rule: list_all2_induct) (auto dest: comes_from_says)

lemma safe_number: "isSafeIntegerNumber v \<Longrightarrow> number_is v (int_of_number v)"
  by (cases v) (auto simp: isSafeIntegerNumber_def number_is_def int_of_number_def)

lemma safe_limit: "isOptionalSafeIntegerNumber v \<Longrightarrow> limit_is v (optionalI64 v)"
  by (cases v) (auto simp: isOptionalSafeIntegerNumber_def isSafeIntegerNumber_def limit_is_def number_is_def
      optionalI64_def nullish_def)

lemma many_tag:
  assumes "compactManyRequestTag (field_of options ''return'') regular ok_on_success = Inr (Some tag)"
  shows "tag = (if wants options ''OK_ON_SUCCESS'' then ok_on_success else regular)"
proof -
  have "ascii ''OK_ON_SUCCESS'' \<noteq> []" by (simp add: ascii_def)
  with assms show ?thesis
    by (auto simp: compactManyRequestTag_def wants_def split: if_splits sum.splits)
qed

lemma claim_mode_byte:
  assumes "compactClaimReturnMode (field_of options ''return'') = Inr (Some mode)"
  shows "mode = job_byte options"
proof (cases "nullish (field_of options ''return'')")
  case True
  have empty: "([] = ascii (c # w)) = False" for c w by (simp add: ascii_def)
  from True assms show ?thesis
    by (simp only: compactClaimReturnMode_def if_True rbind_Inr insert_iff empty_iff empty simp_thms if_False) simp
next
  case False
  with assms obtain t where t: "as_text (field_of options ''return'') = Inr t"
    by (auto simp: compactClaimReturnMode_def)
  have w: "wants options word \<longleftrightarrow> to_upper t = ascii word" for word
    using False by (simp add: wants_def t)
  show ?thesis
    using assms False unfolding compactClaimReturnMode_def job_byte_def w
    by (simp add: t insert_iff empty_iff split: if_split_asm) auto
qed

lemma independent_is_byte: "independent_mode (field_of options ''independent'') = independent_byte options"
  by (simp add: independent_mode_def independent_byte_def split: jsval.split)

lemma fencing_integer: "i64_arg v = Inr i \<Longrightarrow> fencing_of v = i"
  by (simp add: fencing_of_def)

text \<open>The rows.\<close>

lemma rows_map: "rows n width xs = map (\<lambda>j. take width (drop (width * j) xs)) [0..<n]"
proof (induction n arbitrary: xs)
  case (Suc n)
  have "[0..<Suc n] = 0 # map Suc [0..<n]" by (simp add: upt_conv_Cons map_Suc_upt del: upt_Suc)
  with Suc show ?case by (simp add: comp_def add.commute)
qed simp

lemma list_all2_concat: "list_all2 (list_all2 P) xss yss \<Longrightarrow> list_all2 P (concat xss) (concat yss)"
  by (induction rule: list_all2_induct) (auto intro: list_all2_appendI)

lemma rows_come_from:
  assumes "\<And>j row. row \<in> set (items_of width raw) \<Longrightarrow> (\<And>c. c < width \<Longrightarrow> row ! c = raw ! (width * j + c)) \<Longrightarrow>
      list_all2 comes_from (f (width * j)) (g row)"
  shows "list_all2 comes_from (source_rows (length raw div width) width f)
    (FU32 (length (items_of width raw)) # concat (map g (items_of width raw)))"
proof -
  let ?n = "length raw div width"
  have items: "items_of width raw = map (\<lambda>j. take width (drop (width * j) raw)) [0..<?n]"
    by (simp add: items_of_def rows_map)
  have "list_all2 comes_from (f (width * j)) (g (take width (drop (width * j) raw)))" if j: "j < ?n" for j
  proof (rule assms)
    show "take width (drop (width * j) raw) \<in> set (items_of width raw)" using j by (auto simp: items)
    have "width * j \<le> length raw"
      using j by (metis less_imp_le mult_le_mono2 order_trans times_div_less_eq_dividend)
    then show "take width (drop (width * j) raw) ! c = raw ! (width * j + c)" if "c < width" for c
      using that by simp
  qed
  then have "list_all2 (list_all2 comes_from) (map (\<lambda>j. f (width * j)) [0..<?n]) (map g (items_of width raw))"
    by (simp add: items list_all2_map1 list_all2_map2 list_all2_same)
  from list_all2_concat [OF this] show ?thesis by (simp add: source_rows_def items)
qed

section \<open>Planned lengths\<close>

lemma length_rows [simp]: "length (rows n w xs) = n"
  by (induction n arbitrary: xs) simp_all

lemma encoded_length_Inr: "compactBinaryEncodedLength v = Inr n \<longleftrightarrow> n \<ge> 4 \<and> compactBinaryByteLength v = Inr (n - 4)"
  by (cases "compactBinaryByteLength v") (auto simp: compactBinaryEncodedLength_def)

lemma optional_length_Inr:
  "compactOptionalBinaryEncodedLength v = Inr n \<Longrightarrow>
    field_size (FOptional (if nullish v then None else Some v)) = Inr n"
  by (auto simp: compactOptionalBinaryEncodedLength_def field_size_def split: if_splits)

lemma optional_length_eq: "compactOptionalBinaryEncodedLength v = compactBinaryEncodedLength v"
  by (cases v) (auto simp: compactOptionalBinaryEncodedLength_def compactBinaryEncodedLength_def compactBinaryByteLength_def
      binary_value_byte_length_def custom_payload_bytes_def nullish_def)

lemma encoded_length_null [simp]: "compactBinaryEncodedLength JNull = Inr 4"
  using optional_length_eq [of JNull] by (simp add: compactOptionalBinaryEncodedLength_def nullish_def)

lemma add_lengths_simps [simp]:
  "add_lengths [] = Inr 0"
  "add_lengths (r # rs) = rbind r (\<lambda>n. rbind (add_lengths rs) (\<lambda>m. Inr (n + m)))"
  by (simp_all add: add_lengths_def rbind_assoc)

lemma add_lengths_append:
  "add_lengths (xs @ ys) = rbind (add_lengths xs) (\<lambda>n. rbind (add_lengths ys) (\<lambda>m. Inr (n + m)))"
  by (induction xs) (auto simp: rbind_def add.assoc split: sum.splits)

lemma create_row_size: "create_row_total mixed row = Inr (Some n) \<Longrightarrow> fields_size (create_row_fields mixed row) = Inr n"
  by (cases mixed) (auto simp: create_row_total_def create_row_fields_def Let_def field_size_def split: if_splits)

lemma claimed_row_size: "claimed_row_total mixed row = Inr (Some n) \<Longrightarrow> fields_size (claimed_row_fields mixed row) = Inr n"
  by (cases mixed)
    (auto simp: claimed_row_total_def claimed_row_fields_def Let_def field_size_def optional_length_eq split: if_splits)

lemma encoded_of_byte_length [simp]: "compactBinaryByteLength v = Inr n \<Longrightarrow> compactBinaryEncodedLength v = Inr (4 + n)"
  by (simp add: compactBinaryEncodedLength_def)

lemma cancel_row_size: "cancel_row_total mixed row = Inr (Some n) \<Longrightarrow> fields_size (cancel_row_fields mixed row) = Inr n"
  by (cases mixed)
    (auto simp: cancel_row_total_def cancel_row_fields_def field_size_def split: if_splits)

lemma transition_row_size:
  "transition_row_total mixed row = Inr (Some n) \<Longrightarrow> fields_size (transition_row_fields mixed row) = Inr n"
  by (cases mixed)
    (auto simp: transition_row_total_def transition_row_fields_def field_size_def
      split: if_splits option.splits)

lemma ref_size: "ref_total v = Inr (Some n) \<Longrightarrow> fields_size [FBinary v] = Inr n"
  by (auto simp: ref_total_def field_size_def split: if_splits)

lemmas rows_size [simp] =
  sum_rows_size [OF create_row_size] sum_rows_size [OF claimed_row_size] sum_rows_size [OF cancel_row_size]
  sum_rows_size [OF transition_row_size] sum_rows_size [OF ref_size]

lemma create_size:
  "create_total scope mixed auto options items = Inr (Some n) \<Longrightarrow> fields_size (create_fields scope mixed auto options items) = Inr n"
  by (auto simp: create_total_def create_fields_def fields_size_append field_size_def add_lengths_append optional_length_eq split: if_splits)

lemma claimed_header_size:
  assumes "claimed_total scope mixed auto fixed items = Inr (Some n)"
    and "fields_size header = Inr fixed"
  shows "fields_size ([FByte tag, FOptional (if \<not> auto \<and> \<not> mixed then Some (JStr scope) else None)] @ header @
    concat (map (claimed_row_fields mixed) items)) = Inr n"
  using assms
  by (auto simp: claimed_total_def fields_size_append field_size_def optional_length_eq split: if_splits)

lemma complete_size:
  "claimed_total scope mixed auto (8 + 1 + 4) items = Inr (Some n) \<Longrightarrow>
    fields_size (complete_fields tag scope mixed auto options items) = Inr n"
  using claimed_header_size [of scope mixed auto "8 + 1 + 4" items n
      "[FI64 (int_of_number (field_of options ''now_ms'')), FByte (independent_mode (field_of options ''independent'')),
     FU32 (length items)]" tag]
  by (simp add: complete_fields_def field_size_def)

lemma retry_size:
  "claimed_total scope mixed auto (8 + 8 + 1 + 4) items = Inr (Some n) \<Longrightarrow>
    fields_size (retry_fields tag scope mixed auto options items) = Inr n"
  using claimed_header_size [of scope mixed auto "8 + 8 + 1 + 4" items n
      "[FI64 (int_of_number (field_of options ''now_ms'')), FI64 (int_of_number (field_of options ''run_at_ms'')),
     FByte (independent_mode (field_of options ''independent'')), FU32 (length items)]" tag]
  by (simp add: retry_fields_def field_size_def)

lemma cancel_size:
  "cancel_total scope mixed items = Inr (Some n) \<Longrightarrow> fields_size (cancel_fields tag scope mixed options items) = Inr n"
  by (auto simp: cancel_total_def cancel_fields_def fields_size_append field_size_def split: if_splits)

lemma transition_size:
  "transition_total scope from_state to_state mixed items = Inr (Some n) \<Longrightarrow>
    fields_size (transition_fields tag scope from_state to_state mixed options items) = Inr n"
  by (auto simp: transition_total_def transition_fields_def fields_size_append field_size_def split: if_splits)

lemma value_mget_size:
  assumes "rbind (sum_rows ref_total refs) (\<lambda>m. Inr (map_option (\<lambda>m. 1 + 8 + 4 + m) m)) = Inr (Some n)"
  shows "fields_size (value_mget_fields refs cap) = Inr n"
proof -
  have eq: "concat (map (\<lambda>v. [FBinary v]) refs) = map FBinary refs" by (induction refs) simp_all
  from assms show ?thesis
    using sum_rows_size [of ref_total "\<lambda>v. [FBinary v]" refs] ref_size by (auto simp: value_mget_fields_def field_size_def fields_size_append eq)
qed

lemma keys_size: "add_lengths (map dense_key_length keys) = Inr n \<Longrightarrow> fields_size (map FBinary keys) = Inr n"
  by (induction keys arbitrary: n) (auto simp: dense_key_length_def field_size_def split: if_splits)

lemma claim_size:
  "claim_total kind options = Inr (Some n) \<Longrightarrow> fields_size (claim_fields kind options mode) = Inr n"
  by (auto simp: claim_total_def claim_fields_def claim_partition_total_def claim_partition_fields_def fields_size_append
      field_size_def optional_value_def compactOptionalBinaryEncodedLength_def
      dest!: keys_size split: if_splits option.splits)

section \<open>Properties\<close>

lemma read_fields_append:
  "read_fields (ks @ ks') bs =
    (case read_fields ks bs of None \<Rightarrow> None
     | Some (xs, rest) \<Rightarrow> map_option (\<lambda>(ys, rest'). (xs @ ys, rest')) (read_fields ks' rest))"
  by (induction ks arbitrary: bs) (auto simp: map_option_case split: option.splits)

lemma rows_kinds:
  "(\<And>r. map field_kind (g r) = ks) \<Longrightarrow> map field_kind (concat (map g rs)) = concat (replicate (length rs) ks)"
  by (induction rs) simp_all

lemma write_fields_append_Inr:
  "write_fields (xs @ ys) = Inr out \<longleftrightarrow> (\<exists>a b. write_fields xs = Inr a \<and> write_fields ys = Inr b \<and> out = a @ b)"
  by (auto simp: write_fields_append)

lemma fields_size_append_Inr:
  "fields_size (xs @ ys) = Inr n \<longleftrightarrow> (\<exists>a b. fields_size xs = Inr a \<and> fields_size ys = Inr b \<and> n = a + b)"
  by (auto simp: fields_size_append)

lemma write_fields_Cons_Inr:
  "write_fields (f # fs) = Inr out \<longleftrightarrow> (\<exists>a b. write_field f = Inr a \<and> write_fields fs = Inr b \<and> out = a @ b)"
  by (auto simp: write_fields_simps)

text \<open>A write of a number is read back.\<close>

lemma read_nat_write_byte: "write_field (FByte n) = Inr b \<Longrightarrow> read_nat 1 (b @ rest) = Some (n, rest)"
  using read_nat_be [of n 1 rest] by (auto simp: write_uint_Inr simp del: be_bytes.simps)

lemma read_nat_write_u32: "write_field (FU32 n) = Inr b \<Longrightarrow> read_nat 4 (b @ rest) = Some (n, rest)"
  using read_nat_be [of n 4 rest] by (auto simp: write_uint_Inr)

text \<open>Rows after their number.\<close>

lemma decode_rows_written:
  assumes "write_fields (FU32 (length rs) # concat (map g rs)) = Inr out"
    and "fields_size (FU32 (length rs) # concat (map g rs)) = Inr n" "\<And>r. map field_kind (g r) = ks"
  shows "decode_rows ks out = Some (map field_item (FU32 (length rs) # concat (map g rs)))"
proof -
  from assms(1) obtain a b where ab: "write_field (FU32 (length rs)) = Inr a" "write_fields (concat (map g rs)) = Inr b"
      "out = a @ b" by (auto simp: write_fields_Cons_Inr)
  from assms(2) obtain m where "fields_size (concat (map g rs)) = Inr m" by auto
  from read_write_fields [OF ab(2) this, of "[]"]
  have "read_fields (concat (replicate (length rs) ks)) b = Some (map field_item (concat (map g rs)), [])"
    by (simp add: rows_kinds [OF assms(3)])
  with read_nat_write_u32 [OF ab(1), of b] ab(3) show ?thesis by (simp add: decode_rows_def field_item_def)
qed

lemma decode_request_written:
  assumes "write_fields (FByte tag # header @ FU32 (length rs) # concat (map g rs)) = Inr out"
    and "fields_size (FByte tag # header @ FU32 (length rs) # concat (map g rs)) = Inr n"
    and "request_layout tag = Some (map field_kind header, ks)" "tag \<noteq> 0x91" "\<And>r. map field_kind (g r) = ks"
  shows "decode_request out = Some (map field_item (FByte tag # header @ FU32 (length rs) # concat (map g rs)))"
proof -
  from assms(1) obtain a b c where abc: "write_field (FByte tag) = Inr a" "write_fields header = Inr b"
      "write_fields (FU32 (length rs) # concat (map g rs)) = Inr c" "out = a @ b @ c"
    by (auto simp: write_fields_Cons_Inr write_fields_append_Inr)
  from assms(2) obtain k l where kl: "fields_size header = Inr k" "fields_size (FU32 (length rs) # concat (map g rs)) = Inr l"
    by (auto simp: fields_size_append_Inr)
  from read_write_fields [OF abc(2) kl(1), of c] have "read_fields (map field_kind header) (b @ c) = Some (map field_item header, c)" .
  moreover from decode_rows_written [OF abc(3) kl(2) assms(5)]
  have "decode_rows ks c = Some (map field_item (FU32 (length rs) # concat (map g rs)))" .
  ultimately show ?thesis
    using read_nat_write_byte [OF abc(1), of "b @ c"] abc(4) assms(3,4) by (simp add: decode_request_def field_item_def)
qed

text \<open>What is promised of the body of a request with the given fields.\<close>

definition body_decodes :: "nat option res \<Rightarrow> wire_field list \<Rightarrow> jsval \<Rightarrow> protocol_command \<Rightarrow> bool" where
  "body_decodes planned fs limit c \<longleftrightarrow>
    (\<exists>out. pc_payload c = JBuf out \<and> pc_flags c = Some FLAG_CUSTOM_PAYLOAD \<and>
      length out \<le> normalize_encode_limit limit \<and> planned = Inr (Some (length out)) \<and>
      fields_size fs = Inr (length out) \<and> decode_request out = Some (map field_item fs))"

lemma body_decodesI:
  assumes "checked_command opcode planned limit fs = Inr (Some c)"
    and "\<And>n. planned = Inr (Some n) \<Longrightarrow> fields_size fs = Inr n"
    and "\<And>out n. write_fields fs = Inr out \<Longrightarrow> fields_size fs = Inr n \<Longrightarrow> decode_request out = Some (map field_item fs)"
  shows "body_decodes planned fs limit c"
proof -
  have "\<exists>out. pc_payload c = JBuf out \<and> pc_opcode c = opcode \<and> pc_flags c = Some FLAG_CUSTOM_PAYLOAD \<and>
      length out \<le> normalize_encode_limit limit \<and> planned = Inr (Some (length out)) \<and>
      write_fields fs = Inr out \<and> fields_size fs = Inr (length out)"
    by (rule checked_command_body [OF assms(1)]) (rule assms(2))
  then obtain out where c: "pc_payload c = JBuf out" "pc_flags c = Some FLAG_CUSTOM_PAYLOAD" "length out \<le> normalize_encode_limit limit"
      "planned = Inr (Some (length out))"
      and w: "write_fields fs = Inr out" "fields_size fs = Inr (length out)" by (elim exE conjE) (rule that)
  show ?thesis unfolding body_decodes_def using c w(2) assms(3) [OF w] by (intro exI conjI)
qed

lemma body_planned: "body_decodes planned fs limit c \<Longrightarrow> \<exists>n. planned = Inr (Some n)"
  unfolding body_decodes_def by blast

text \<open>A request made of a header and rows.\<close>

lemma rows_body:
  assumes built: "checked_command opcode planned limit fs = Inr (Some c)"
    and fields: "fs = FByte tag # header @ FU32 (length rs) # concat (map g rs)"
    and size: "\<And>n. planned = Inr (Some n) \<Longrightarrow> fields_size fs = Inr n"
    and layout: "request_layout tag = Some (map field_kind header, ks)" "tag \<noteq> 0x91" "\<And>r. map field_kind (g r) = ks"
  shows "body_decodes planned fs limit c"
proof (rule body_decodesI [OF built size])
  fix out n
  assume "write_fields fs = Inr out" "fields_size fs = Inr n"
  then show "decode_request out = Some (map field_item fs)"
    unfolding fields by (rule decode_request_written [OF _ _ layout])
qed

lemma tag_values:
  assumes "compactManyRequestTag v regular ok_on_success = Inr (Some tag)"
  shows "tag = regular \<or> tag = ok_on_success"
  using assms by (auto simp: compactManyRequestTag_def split: if_splits)

lemma create_decodes:
  assumes "compactFlowCreateManyPayload scope raw mixed auto options limit = Inr (Some c)"
  shows "body_decodes (create_total scope mixed auto options (items_of (if mixed then 3 else 2) raw))
    (create_fields scope mixed auto options (items_of (if mixed then 3 else 2) raw)) limit c"
proof -
  let ?items = "items_of (if mixed then 3 else 2) raw"
  let ?header = "[FBinary (field_of options ''type''), FBinary (field_of options ''state'')] @
    (if \<not> auto \<and> \<not> mixed then [FOptional (Some (JStr scope))] else []) @
    [FI64 (int_of_number (field_of options ''now_ms'')), FI64 (int_of_number (run_at_of options)),
     FByte (independent_mode (field_of options ''independent'')), FByte 1]"
  let ?tag = "if mixed then 0x9E else if auto then 0x90 else 0x96 :: nat"
  have fields: "create_fields scope mixed auto options ?items =
      FByte ?tag # ?header @ FU32 (length ?items) # concat (map (create_row_fields mixed) ?items)"
    by (simp add: create_fields_def)
  from assms have built: "checked_command (command_opcode ''FLOW.CREATE_MANY'') (create_total scope mixed auto options ?items) limit
      (create_fields scope mixed auto options ?items) = Inr (Some c)"
    by (auto simp: compactFlowCreateManyPayload_def Let_def items_of_def split: if_splits)
  show ?thesis
  proof (rule rows_body [OF built fields create_size])
    show "request_layout ?tag = Some (map field_kind ?header, if mixed then [KBinary, KBinary, KBinary] else [KBinary, KBinary])"
      by (simp add: request_layout_def field_kind_def)
    show "map field_kind (create_row_fields mixed r) = (if mixed then [KBinary, KBinary, KBinary] else [KBinary, KBinary])" for r
      by (simp add: create_row_fields_def field_kind_def)
  qed (simp_all)
qed

lemma complete_decodes:
  assumes "compactFlowCompleteManyPayload opcode scope raw mixed auto options limit = Inr (Some c)"
  shows "body_decodes (claimed_total scope mixed auto (8 + 1 + 4) (items_of (if mixed then 4 else 3) raw))
    (complete_fields (if wants options ''OK_ON_SUCCESS'' then 0x93 else 0x92) scope mixed auto options
      (items_of (if mixed then 4 else 3) raw)) limit c"
proof -
  let ?items = "items_of (if mixed then 4 else 3) raw"
  let ?tag = "if wants options ''OK_ON_SUCCESS'' then 0x93 else 0x92 :: nat"
  let ?header = "[FOptional (if \<not> auto \<and> \<not> mixed then Some (JStr scope) else None),
     FI64 (int_of_number (field_of options ''now_ms'')), FByte (independent_mode (field_of options ''independent''))]"
  have fields: "complete_fields ?tag scope mixed auto options ?items =
      FByte ?tag # ?header @ FU32 (length ?items) # concat (map (claimed_row_fields mixed) ?items)"
    by (simp add: complete_fields_def)
  from assms obtain tag where tag: "compactManyRequestTag (field_of options ''return'') 0x92 0x93 = Inr (Some tag)"
    and built: "checked_command opcode (claimed_total scope mixed auto (8 + 1 + 4) ?items) limit
      (complete_fields tag scope mixed auto options ?items) = Inr (Some c)"
    by (auto simp: compactFlowCompleteManyPayload_def Let_def items_of_def split: if_splits option.splits)
  have eq: "?tag = tag" using many_tag [OF tag] by simp
  show ?thesis
  proof (rule rows_body [OF built [folded eq] fields complete_size])
    show "request_layout ?tag = Some (map field_kind ?header, [KBinary, KOptional, KBinary, KI64])"
      using tag_values [OF tag] by (auto simp: eq request_layout_def field_kind_def)
    show "map field_kind (claimed_row_fields mixed r) = [KBinary, KOptional, KBinary, KI64]" for r
      by (simp add: claimed_row_fields_def field_kind_def Let_def)
    show "?tag \<noteq> 0x91" using tag_values [OF tag] by (auto simp: eq)
  qed assumption+
qed

lemma retry_decodes:
  assumes "compactFlowRetryManyPayload scope raw mixed auto options limit = Inr (Some c)"
  shows "body_decodes (claimed_total scope mixed auto (8 + 8 + 1 + 4) (items_of (if mixed then 4 else 3) raw))
    (retry_fields (if wants options ''OK_ON_SUCCESS'' then 0x98 else 0x97) scope mixed auto options
      (items_of (if mixed then 4 else 3) raw)) limit c"
proof -
  let ?items = "items_of (if mixed then 4 else 3) raw"
  let ?tag = "if wants options ''OK_ON_SUCCESS'' then 0x98 else 0x97 :: nat"
  let ?header = "[FOptional (if \<not> auto \<and> \<not> mixed then Some (JStr scope) else None),
     FI64 (int_of_number (field_of options ''now_ms'')), FI64 (int_of_number (field_of options ''run_at_ms'')),
     FByte (independent_mode (field_of options ''independent''))]"
  have fields: "retry_fields ?tag scope mixed auto options ?items =
      FByte ?tag # ?header @ FU32 (length ?items) # concat (map (claimed_row_fields mixed) ?items)"
    by (simp add: retry_fields_def)
  from assms obtain tag where tag: "compactManyRequestTag (field_of options ''return'') 0x97 0x98 = Inr (Some tag)"
    and built: "checked_command (command_opcode ''FLOW.RETRY_MANY'') (claimed_total scope mixed auto (8 + 8 + 1 + 4) ?items) limit
      (retry_fields tag scope mixed auto options ?items) = Inr (Some c)"
    by (auto simp: compactFlowRetryManyPayload_def Let_def items_of_def split: if_splits option.splits)
  have eq: "?tag = tag" using many_tag [OF tag] by simp
  show ?thesis
  proof (rule rows_body [OF built [folded eq] fields retry_size])
    show "request_layout ?tag = Some (map field_kind ?header, [KBinary, KOptional, KBinary, KI64])"
      using tag_values [OF tag] by (auto simp: eq request_layout_def field_kind_def)
    show "map field_kind (claimed_row_fields mixed r) = [KBinary, KOptional, KBinary, KI64]" for r
      by (simp add: claimed_row_fields_def field_kind_def Let_def)
    show "?tag \<noteq> 0x91" using tag_values [OF tag] by (auto simp: eq)
  qed assumption+
qed

lemma transition_decodes:
  assumes "compactFlowTransitionManyPayload scope from_state to_state raw mixed options limit = Inr (Some c)"
  shows "body_decodes (transition_total scope from_state to_state mixed (items_of (if mixed then 4 else 3) raw))
    (transition_fields (if wants options ''OK_ON_SUCCESS'' then 0x9C else 0x9B) scope from_state to_state mixed
      options (items_of (if mixed then 4 else 3) raw)) limit c"
proof -
  let ?items = "items_of (if mixed then 4 else 3) raw"
  let ?tag = "if wants options ''OK_ON_SUCCESS'' then 0x9C else 0x9B :: nat"
  let ?header = "[FBinary from_state, FBinary to_state, FOptional (if mixed then None else Some scope),
     FI64 (int_of_number (field_of options ''now_ms'')), FI64 (int_of_number (run_at_of options)),
     FByte (independent_mode (field_of options ''independent''))]"
  have fields: "transition_fields ?tag scope from_state to_state mixed options ?items =
      FByte ?tag # ?header @ FU32 (length ?items) # concat (map (transition_row_fields mixed) ?items)"
    by (simp add: transition_fields_def)
  from assms obtain tag where tag: "compactManyRequestTag (field_of options ''return'') 0x9B 0x9C = Inr (Some tag)"
    and built: "checked_command (command_opcode ''FLOW.TRANSITION_MANY'') (transition_total scope from_state to_state mixed ?items) limit
      (transition_fields tag scope from_state to_state mixed options ?items) = Inr (Some c)"
    by (auto simp: compactFlowTransitionManyPayload_def Let_def items_of_def split: if_splits option.splits)
  have eq: "?tag = tag" using many_tag [OF tag] by simp
  show ?thesis
  proof (rule rows_body [OF built [folded eq] fields transition_size])
    show "request_layout ?tag = Some (map field_kind ?header, [KBinary, KOptional, KI64, KOptional])"
      using tag_values [OF tag] by (auto simp: eq request_layout_def field_kind_def)
    show "map field_kind (transition_row_fields mixed r) = [KBinary, KOptional, KI64, KOptional]" for r
      by (simp add: transition_row_fields_def field_kind_def)
    show "?tag \<noteq> 0x91" using tag_values [OF tag] by (auto simp: eq)
  qed assumption+
qed

lemma body_decodes_items [simp]:
  "body_decodes planned fs limit (c\<lparr>pc_response_items := n\<rparr>) = body_decodes planned fs limit c"
  by (simp add: body_decodes_def)

lemma cancel_decodes:
  assumes "cancel_items scope mixed options tag raw limit = Inr (Some c)" "tag \<in> {0x99, 0x9A}"
  shows "body_decodes (cancel_total scope mixed (items_of (if mixed then 3 else 2) raw))
    (cancel_fields tag scope mixed options (items_of (if mixed then 3 else 2) raw)) limit c"
proof -
  let ?items = "items_of (if mixed then 3 else 2) raw"
  let ?header = "[FOptional (if mixed then None else Some scope), FI64 (int_of_number (field_of options ''now_ms'')),
     FByte (independent_mode (field_of options ''independent''))]"
  have fields: "cancel_fields tag scope mixed options ?items =
      FByte tag # ?header @ FU32 (length ?items) # concat (map (cancel_row_fields mixed) ?items)"
    by (simp add: cancel_fields_def)
  from assms(1) obtain c' n where c: "c = c'\<lparr>pc_response_items := n\<rparr>"
    and built: "checked_command (command_opcode ''FLOW.CANCEL_MANY'') (cancel_total scope mixed ?items) limit
      (cancel_fields tag scope mixed options ?items) = Inr (Some c')"
    by (auto simp: cancel_items_def Let_def items_of_def split: if_splits option.splits)
  have "body_decodes (cancel_total scope mixed ?items) (cancel_fields tag scope mixed options ?items) limit c'"
  proof (rule rows_body [OF built fields cancel_size])
    show "request_layout tag = Some (map field_kind ?header, [KBinary, KOptional, KI64])"
      using assms(2) by (auto simp: request_layout_def field_kind_def)
    show "map field_kind (cancel_row_fields mixed r) = [KBinary, KOptional, KI64]" for r
      by (simp add: cancel_row_fields_def field_kind_def)
  qed (use assms(2) in auto)
  then show ?thesis by (simp add: c)
qed

lemma value_mget_decodes:
  assumes "compactFlowValueMGetPayload refs cap limit = Inr (Some c)"
  shows "body_decodes (rbind (sum_rows ref_total refs) (\<lambda>m. Inr (map_option (\<lambda>m. 1 + 8 + 4 + m) m)))
    (value_mget_fields refs cap) limit c"
proof -
  have fields: "value_mget_fields refs cap =
      FByte 0x9D # [FI64 (optionalI64 cap)] @ FU32 (length refs) # concat (map (\<lambda>v. [FBinary v]) refs)"
    by (simp add: value_mget_fields_def)
  from assms have built: "checked_command (command_opcode ''FLOW.VALUE.MGET'')
      (rbind (sum_rows ref_total refs) (\<lambda>m. Inr (map_option (\<lambda>m. 1 + 8 + 4 + m) m))) limit
      (value_mget_fields refs cap) = Inr (Some c)"
    unfolding compactFlowValueMGetPayload_def by (auto split: if_splits simp del: rbind_eq_Inr simp: rbind_eq_Inr [where y = "Some c"])
  show ?thesis
  proof (rule rows_body [OF built fields value_mget_size])
    show "request_layout 0x9D = Some (map field_kind [FI64 (optionalI64 cap)], [KBinary])"
      by (simp add: request_layout_def field_kind_def)
    show "map field_kind [FBinary r] = [KBinary]" for r by (simp add: field_kind_def)
  qed simp_all
qed

lemma partitions_decoded:
  assumes "write_fields (claim_partition_fields options) = Inr out" "fields_size (claim_partition_fields options) = Inr n"
  shows "decode_partitions out = Some (map field_item (claim_partition_fields options))"
proof (cases "partition_keys_of options")
  case (Some keys)
  have fields: "claim_partition_fields options = FByte 2 # FU32 (length keys) # concat (map (\<lambda>v. [FBinary v]) keys)"
    by (simp add: claim_partition_fields_def Some)
  from assms(1) obtain a b where ab: "write_field (FByte 2) = Inr a" "out = a @ b"
      "write_fields (FU32 (length keys) # concat (map (\<lambda>v. [FBinary v]) keys)) = Inr b"
    by (auto simp: fields write_fields_Cons_Inr)
  from assms(2) obtain m where m: "fields_size (FU32 (length keys) # concat (map (\<lambda>v. [FBinary v]) keys)) = Inr m"
    by (auto simp: fields)
  have "decode_rows [KBinary] b = Some (map field_item (FU32 (length keys) # concat (map (\<lambda>v. [FBinary v]) keys)))"
    by (rule decode_rows_written [OF ab(3) m]) (simp add: field_kind_def)
  with read_nat_write_byte [OF ab(1), of b] ab(2) show ?thesis by (simp add: decode_partitions_def fields field_item_def)
next
  case None
  define kind where "kind = (if nullish (field_of options ''partition_key'') then 0 else 1 :: nat)"
  define fs where "fs = (if kind = 1 then [FBinary (field_of options ''partition_key'')] else [])"
  have fields: "claim_partition_fields options = FByte kind # fs"
    by (simp add: claim_partition_fields_def None kind_def fs_def)
  from assms(1) obtain a b where ab: "write_field (FByte kind) = Inr a" "write_fields fs = Inr b" "out = a @ b"
    by (auto simp: fields write_fields_Cons_Inr)
  from assms(2) obtain m where m: "fields_size fs = Inr m" by (auto simp: fields)
  have kinds: "map field_kind fs = (if kind = 1 then [KBinary] else [])" by (simp add: fs_def field_kind_def)
  from read_write_fields [OF ab(2) m, of "[]"] have "read_fields (if kind = 1 then [KBinary] else []) b = Some (map field_item fs, [])"
    by (simp add: kinds)
  moreover have "kind \<noteq> 2" by (simp add: kind_def)
  ultimately show ?thesis
    using read_nat_write_byte [OF ab(1), of b] ab(3) by (simp add: decode_partitions_def fields field_item_def)
qed

lemma claim_decodes:
  assumes "compactFlowClaimDuePayload kind options limit = Inr (Some c)"
  shows "body_decodes (claim_total kind options) (claim_fields kind options (job_byte options)) limit c"
proof -
  let ?mode = "job_byte options"
  let ?header = "[FBinary kind, FOptional (optional_value (field_of options ''state'')),
     FBinary (field_of options ''worker''), FI64 (int_of_number (field_of options ''lease_ms'')),
     FI64 (int_of_number (field_of options ''limit'')), FI64 (optionalI64 (field_of options ''block_ms'')),
     FByte (if field_of options ''reclaim_expired'' = JBool False then 0 else 1),
     FI64 (int_of_number (reclaim_ratio options)), FI64 (optionalI64 (field_of options ''priority'')),
     FByte ?mode]"
  have fields: "claim_fields kind options ?mode = FByte 0x91 # ?header @ claim_partition_fields options"
    by (simp add: claim_fields_def)
  from assms obtain m where mode: "compactClaimReturnMode (field_of options ''return'') = Inr (Some m)"
    and built: "checked_command (command_opcode ''FLOW.CLAIM_DUE'') (claim_total kind options) limit
      (claim_fields kind options m) = Inr (Some c)"
    by (auto simp: compactFlowClaimDuePayload_def split: if_splits option.splits)
  have eq: "?mode = m" using claim_mode_byte [OF mode] by simp
  show ?thesis
  proof (rule body_decodesI [OF built [folded eq] claim_size])
    fix out n
    assume w: "write_fields (claim_fields kind options ?mode) = Inr out" and s: "fields_size (claim_fields kind options ?mode) = Inr n"
    from w obtain a b d where abd: "write_field (FByte 0x91) = Inr a" "write_fields ?header = Inr b"
        "write_fields (claim_partition_fields options) = Inr d" "out = a @ b @ d"
      unfolding fields write_fields_Cons_Inr [of "FByte 0x91"] write_fields_append_Inr by blast
    from s obtain k l where kl: "fields_size ?header = Inr k" "fields_size (claim_partition_fields options) = Inr l"
      unfolding fields fields_size.simps(2) [of "FByte 0x91"] rbind_eq_Inr fields_size_append_Inr by blast
    have kinds: "map field_kind ?header = claim_layout" by (simp add: claim_layout_def field_kind_def)
    from read_write_fields [OF abd(2) kl(1), of d]
    have "read_fields claim_layout (b @ d) = Some (map field_item ?header, d)" by (simp only: kinds)
    with partitions_decoded [OF abd(3) kl(2)] read_nat_write_byte [OF abd(1), of "b @ d"] abd(4)
    show "decode_request out = Some (map field_item (claim_fields kind options ?mode))"
      by (simp add: decode_request_def fields field_item_def)
  qed
qed

section \<open>The fields are the required ones\<close>

lemma sum_rows_mem: "sum_rows f vs = Inr (Some n) \<Longrightarrow> v \<in> set vs \<Longrightarrow> \<exists>k. f v = Inr (Some k)"
  by (induction vs arbitrary: n) (auto split: option.splits)

lemma create_required:
  assumes "compactFlowCreateManyPayload scope raw mixed auto options limit = Inr (Some c)"
  shows "list_all2 comes_from (required_fields (CreateMany scope raw mixed auto options))
    (create_fields scope mixed auto options (items_of (if mixed then 3 else 2) raw))"
proof -
  from assms have "number_is (field_of options ''now_ms'') (int_of_number (field_of options ''now_ms''))"
    "number_is (or_else (field_of options ''run_at_ms'') (field_of options ''now_ms'')) (int_of_number (run_at_of options))"
    by (auto simp: compactFlowCreateManyPayload_def Let_def run_at_of_def or_else_def safe_number split: if_splits)
  moreover have "list_all2 comes_from
      (source_rows (length raw div (if mixed then 3 else 2)) (if mixed then 3 else 2)
        (\<lambda>i. map (\<lambda>c. SValue (raw ! (i + c))) [0..<if mixed then 3 else 2]))
      (FU32 (length (items_of (if mixed then 3 else 2) raw)) #
        concat (map (create_row_fields mixed) (items_of (if mixed then 3 else 2) raw)))"
  proof (rule rows_come_from)
    fix j row
    assume "\<And>c. c < (if mixed then 3 else 2) \<Longrightarrow> row ! c = raw ! ((if mixed then 3 else 2) * j + c)"
    from this [of 0] this [of 1] this [of 2]
    show "list_all2 comes_from (map (\<lambda>c. SValue (raw ! ((if mixed then 3 else 2) * j + c))) [0..<if mixed then 3 else 2])
        (create_row_fields mixed row)"
      by (cases mixed) (simp_all add: create_row_fields_def upt_rec)
  qed
  ultimately show ?thesis
    by (cases mixed) (simp_all add: required_fields_def create_fields_def Let_def independent_is_byte)
qed

lemma claimed_rows_required:
  assumes "claimed_total scope mixed auto fixed (items_of (if mixed then 4 else 3) raw) = Inr (Some n)"
  shows "list_all2 comes_from
    (source_rows (length raw div (if mixed then 4 else 3)) (if mixed then 4 else 3) (claimed_source raw mixed))
    (FU32 (length (items_of (if mixed then 4 else 3) raw)) #
      concat (map (claimed_row_fields mixed) (items_of (if mixed then 4 else 3) raw)))"
proof (rule rows_come_from)
  fix j row
  assume row: "row \<in> set (items_of (if mixed then 4 else 3) raw)"
    and at: "\<And>c. c < (if mixed then 4 else 3) \<Longrightarrow> row ! c = raw ! ((if mixed then 4 else 3) * j + c)"
  from assms obtain m where "sum_rows (claimed_row_total mixed) (items_of (if mixed then 4 else 3) raw) = Inr (Some m)"
    by (auto simp: claimed_total_def)
  from sum_rows_mem [OF this row] obtain k where "claimed_row_total mixed row = Inr (Some k)" by blast
  then obtain i where "i64_arg (row ! (if mixed then 3 else 2)) = Inr i"
    by (cases mixed) (auto simp: claimed_row_total_def Let_def)
  with at [of 0] at [of 1] at [of 2] at [of 3]
  show "list_all2 comes_from (claimed_source raw mixed ((if mixed then 4 else 3) * j)) (claimed_row_fields mixed row)"
    by (cases mixed) (simp_all add: claimed_source_def claimed_row_fields_def fencing_integer)
qed

lemma complete_required:
  assumes "compactFlowCompleteManyPayload opcode scope raw mixed auto options limit = Inr (Some c)"
    and "claimed_total scope mixed auto (8 + 1 + 4) (items_of (if mixed then 4 else 3) raw) = Inr (Some n)"
  shows "list_all2 comes_from (required_fields (CompleteMany opcode scope raw mixed auto options))
    (complete_fields (if wants options ''OK_ON_SUCCESS'' then 0x93 else 0x92) scope mixed auto options
      (items_of (if mixed then 4 else 3) raw))"
proof -
  from assms(1) have "number_is (field_of options ''now_ms'') (int_of_number (field_of options ''now_ms''))"
    by (auto simp: compactFlowCompleteManyPayload_def Let_def safe_number split: if_splits)
  with claimed_rows_required [OF assms(2)] show ?thesis
    by (simp add: required_fields_def complete_fields_def Let_def independent_is_byte)
qed

lemma retry_required:
  assumes "compactFlowRetryManyPayload scope raw mixed auto options limit = Inr (Some c)"
    and "claimed_total scope mixed auto (8 + 8 + 1 + 4) (items_of (if mixed then 4 else 3) raw) = Inr (Some n)"
  shows "list_all2 comes_from (required_fields (RetryMany scope raw mixed auto options))
    (retry_fields (if wants options ''OK_ON_SUCCESS'' then 0x98 else 0x97) scope mixed auto options
      (items_of (if mixed then 4 else 3) raw))"
proof -
  from assms(1) have "number_is (field_of options ''now_ms'') (int_of_number (field_of options ''now_ms''))"
    "number_is (field_of options ''run_at_ms'') (int_of_number (field_of options ''run_at_ms''))"
    by (auto simp: compactFlowRetryManyPayload_def Let_def safe_number split: if_splits)
  with claimed_rows_required [OF assms(2)] show ?thesis
    by (simp add: required_fields_def retry_fields_def Let_def independent_is_byte)
qed

lemma transition_required:
  assumes "compactFlowTransitionManyPayload scope from_state to_state raw mixed options limit = Inr (Some c)"
    and "transition_total scope from_state to_state mixed (items_of (if mixed then 4 else 3) raw) = Inr (Some n)"
  shows "list_all2 comes_from (required_fields (TransitionMany scope from_state to_state raw mixed options))
    (transition_fields (if wants options ''OK_ON_SUCCESS'' then 0x9C else 0x9B) scope from_state to_state mixed
      options (items_of (if mixed then 4 else 3) raw))"
proof -
  from assms(1) have "number_is (field_of options ''now_ms'') (int_of_number (field_of options ''now_ms''))"
    "number_is (or_else (field_of options ''run_at_ms'') (field_of options ''now_ms'')) (int_of_number (run_at_of options))"
    by (auto simp: compactFlowTransitionManyPayload_def Let_def nonnegative_ms_def run_at_of_def or_else_def
        safe_number split: if_splits)
  moreover have "list_all2 comes_from
      (source_rows (length raw div (if mixed then 4 else 3)) (if mixed then 4 else 3) (transition_source raw mixed))
      (FU32 (length (items_of (if mixed then 4 else 3) raw)) #
        concat (map (transition_row_fields mixed) (items_of (if mixed then 4 else 3) raw)))"
  proof (rule rows_come_from)
    fix j row
    assume row: "row \<in> set (items_of (if mixed then 4 else 3) raw)"
      and at: "\<And>c. c < (if mixed then 4 else 3) \<Longrightarrow> row ! c = raw ! ((if mixed then 4 else 3) * j + c)"
    from assms(2) obtain m where
      "sum_rows (transition_row_total mixed) (items_of (if mixed then 4 else 3) raw) = Inr (Some m)"
      by (auto simp: transition_total_def)
    from sum_rows_mem [OF this row] obtain k where "transition_row_total mixed row = Inr (Some k)" by blast
    then obtain i where "i64_arg (row ! (if mixed then 2 else 1)) = Inr i"
      by (auto simp: transition_row_total_def split: if_split_asm)
    with at [of 0] at [of 1] at [of 2] at [of 3]
    show "list_all2 comes_from (transition_source raw mixed ((if mixed then 4 else 3) * j)) (transition_row_fields mixed row)"
      by (cases mixed)
        (simp_all add: transition_source_def transition_row_fields_def fencing_integer lease_source_def lease_value_def)
  qed
  ultimately show ?thesis
    by (simp add: required_fields_def transition_fields_def Let_def independent_is_byte)
qed

text \<open>FLOW.CANCEL_MANY, from its arguments.\<close>

lemma cancel_built:
  assumes "compactFlowCancelManyPayload args limit = Inr (Some c)"
  obtains mixed options raw where "cancel_parts args = (mixed, options, raw)"
    and "cancel_items (args ! 0) mixed options (if wants options ''OK_ON_SUCCESS'' then 0x9A else 0x99) raw limit = Inr (Some c)"
    and "number_is (field_of options ''now_ms'') (int_of_number (field_of options ''now_ms''))"
proof -
  let ?config = "\<lparr>oc_allowed = cancel_allowed, oc_payload_value = False, oc_read_values = False, oc_required = []\<rparr>"
  note unfolds = compactFlowCancelManyPayload_def
  obtain scope where scope: "as_text (args ! 0) = Inr scope"
    using assms by (cases "as_text (args ! 0)") (simp_all add: unfolds split: if_split_asm)
  obtain found where found: "findItemToken args 1 = Inr found"
    using assms scope by (cases "findItemToken args 1") (simp_all add: unfolds split: if_split_asm)
  obtain at where at: "found = Some at"
    using assms scope found by (cases found) (simp_all add: unfolds split: if_split_asm)
  obtain parsed where parsed: "parseFlowOptions args 1 at ?config = Inr parsed"
    using assms scope found at by (cases "parseFlowOptions args 1 at ?config") (simp_all add: unfolds split: if_split_asm)
  obtain options where options: "parsed = Some options"
    using assms scope found at parsed by (cases parsed) (simp_all add: unfolds split: if_split_asm)
  have rest: "nonnegative_ms (field_of options ''now_ms'') \<and>
      rbind (compactManyRequestTag (field_of options ''return'') 0x99 0x9A) (\<lambda>tag.
        case tag of None \<Rightarrow> Inr None
        | Some tag \<Rightarrow>
            rbind (denseCommandArgumentTail args (Suc at) ''ITEMS'') (\<lambda>raw.
            cancel_items (args ! 0) (to_upper scope = ascii ''MIXED'') options tag raw limit)) = Inr (Some c)"
    using assms scope found at parsed options
    by (simp add: unfolds split: if_split_asm del: rbind_eq_Inr)
  then obtain tag raw where raw: "denseCommandArgumentTail args (Suc at) ''ITEMS'' = Inr raw"
      and tag: "compactManyRequestTag (field_of options ''return'') 0x99 0x9A = Inr (Some tag)"
      and built: "cancel_items (args ! 0) (to_upper scope = ascii ''MIXED'') options tag raw limit = Inr (Some c)"
    by (auto split: option.splits)
  have "cancel_parts args = (to_upper scope = ascii ''MIXED'', options, raw)"
    using scope found at parsed options raw by (simp add: cancel_parts_def)
  moreover note built [unfolded many_tag [OF tag]]
  moreover have "number_is (field_of options ''now_ms'') (int_of_number (field_of options ''now_ms''))"
    using rest safe_number by (simp add: nonnegative_ms_def)
  ultimately show ?thesis by (rule that)
qed

lemma cancel_rows_required:
  assumes "cancel_total scope mixed (items_of (if mixed then 3 else 2) raw) = Inr (Some n)"
  shows "list_all2 comes_from
      (source_rows (length raw div (if mixed then 3 else 2)) (if mixed then 3 else 2) (cancel_source raw mixed))
      (FU32 (length (items_of (if mixed then 3 else 2) raw)) #
        concat (map (cancel_row_fields mixed) (items_of (if mixed then 3 else 2) raw)))"
proof (rule rows_come_from)
  fix j row
  assume row: "row \<in> set (items_of (if mixed then 3 else 2) raw)"
    and at: "\<And>c. c < (if mixed then 3 else 2) \<Longrightarrow> row ! c = raw ! ((if mixed then 3 else 2) * j + c)"
  from assms obtain m where "sum_rows (cancel_row_total mixed) (items_of (if mixed then 3 else 2) raw) = Inr (Some m)"
    by (auto simp: cancel_total_def)
  from sum_rows_mem [OF this row] obtain k where "cancel_row_total mixed row = Inr (Some k)" by blast
  then obtain i where "i64_arg (row ! (if mixed then 2 else 1)) = Inr i"
    by (auto simp: cancel_row_total_def split: if_split_asm)
  with at [of 0] at [of 1] at [of 2]
  show "list_all2 comes_from (cancel_source raw mixed ((if mixed then 3 else 2) * j)) (cancel_row_fields mixed row)"
    by (cases mixed) (simp_all add: cancel_source_def cancel_row_fields_def fencing_integer)
qed

lemma cancel_required:
  assumes "compactFlowCancelManyPayload args limit = Inr (Some c)"
  shows "\<exists>fs. body_decodes (planned_total (CancelMany args)) fs limit c \<and>
    list_all2 comes_from (required_fields (CancelMany args)) fs"
proof -
  from cancel_built [OF assms] obtain mixed options raw where parts: "cancel_parts args = (mixed, options, raw)"
    and built: "cancel_items (args ! 0) mixed options (if wants options ''OK_ON_SUCCESS'' then 0x9A else 0x99) raw limit = Inr (Some c)"
    and now_ms: "number_is (field_of options ''now_ms'') (int_of_number (field_of options ''now_ms''))" .
  let ?fs = "cancel_fields (if wants options ''OK_ON_SUCCESS'' then 0x9A else 0x99) (args ! 0) mixed options
    (items_of (if mixed then 3 else 2) raw)"
  from cancel_decodes [OF built] have body: "body_decodes (planned_total (CancelMany args)) ?fs limit c"
    by (simp add: planned_total_def parts)
  from body_planned [OF this] obtain n where
    "cancel_total (args ! 0) mixed (items_of (if mixed then 3 else 2) raw) = Inr (Some n)"
    by (auto simp: planned_total_def parts)
  from cancel_rows_required [OF this] now_ms
  have "list_all2 comes_from (required_fields (CancelMany args)) ?fs"
    by (simp add: required_fields_def parts cancel_fields_def Let_def independent_is_byte)
  with body show ?thesis by blast
qed

lemma values_come_from: "list_all2 comes_from (map SValue vs) (map FBinary vs)"
  by (simp add: list_all2_map1 list_all2_map2 list_all2_same)

lemma value_mget_required:
  assumes "compactFlowValueMGetPayload refs cap limit = Inr (Some c)"
  shows "list_all2 comes_from (required_fields (ValueMGet refs cap)) (value_mget_fields refs cap)"
proof -
  have "isOptionalSafeIntegerNumber cap"
    using assms by (auto simp: compactFlowValueMGetPayload_def isOptionalSafeIntegerNumber_def nonnegative_ms_def split: if_splits)
  then show ?thesis
    by (simp add: required_fields_def value_mget_fields_def values_come_from safe_limit)
qed

lemma claim_required:
  assumes "compactFlowClaimDuePayload kind options limit = Inr (Some c)"
  shows "list_all2 comes_from (required_fields (ClaimDue kind options)) (claim_fields kind options (job_byte options))"
proof -
  from assms have "number_is (field_of options ''lease_ms'') (int_of_number (field_of options ''lease_ms''))"
    "number_is (field_of options ''limit'') (int_of_number (field_of options ''limit''))"
    "number_is (or_else (field_of options ''reclaim_ratio'') (JInt 25)) (int_of_number (reclaim_ratio options))"
    "limit_is (field_of options ''block_ms'') (optionalI64 (field_of options ''block_ms''))"
    "limit_is (field_of options ''priority'') (optionalI64 (field_of options ''priority''))"
    by (auto simp: compactFlowClaimDuePayload_def reclaim_ratio_def or_else_def safe_number safe_limit split: if_splits)
  moreover have "list_all2 comes_from (case field_of options ''partition_keys'' of
            JArr keys \<Rightarrow> [SByte 2, SCount (length keys)] @ map SValue keys
          | _ \<Rightarrow> if nullish (field_of options ''partition_key'') then [SByte 0]
              else [SByte 1, SValue (field_of options ''partition_key'')]) (claim_partition_fields options)"
    by (cases "field_of options ''partition_keys''")
      (simp_all add: claim_partition_fields_def partition_keys_of_def values_come_from)
  ultimately show ?thesis
    unfolding required_fields_def claim_fields_def flow_request.case
    by (intro list_all2_appendI) (simp_all add: optional_value_def)
qed

text \<open>C13. The compact requests of the Flow commands say what they must and are of the planned size. Whenever a
  builder returns a request, its body has exactly the length that was computed before the buffer was
  allocated, within the limit, and reading it by its leading tag alone gives, with no byte left over, the
  fields the command must send, item by item and in order: the numbers and texts of the options (a missing
  run time is the current time, a missing reclaim ratio 25, a missing limit the smallest 64-bit integer), the
  scope unless the items carry their own, the number of items, and for every item its bytes and its fencing
  token as an integer.\<close>

theorem compact_requests_decode:
  assumes "flow_body r limit = Inr (Some c)"
  shows "\<exists>out items. pc_payload c = JBuf out \<and> pc_flags c = Some FLAG_CUSTOM_PAYLOAD \<and>
    length out \<le> normalize_encode_limit limit \<and> planned_total r = Inr (Some (length out)) \<and>
    decode_request out = Some items \<and> list_all2 says (required_fields r) items"
proof -
  have "\<exists>fs. body_decodes (planned_total r) fs limit c \<and> list_all2 comes_from (required_fields r) fs"
  proof (cases r)
    case (CreateMany scope raw mixed auto options)
    with assms create_decodes [of scope raw mixed auto options limit c] create_required [of scope raw mixed auto options limit c]
    show ?thesis by (auto simp: flow_body_def planned_total_def)
  next
    case (ClaimDue kind options)
    with assms claim_decodes [of kind options limit c] claim_required [of kind options limit c] show ?thesis
      by (auto simp: flow_body_def planned_total_def)
  next
    case (CompleteMany opcode scope raw mixed auto options)
    with assms have built: "compactFlowCompleteManyPayload opcode scope raw mixed auto options limit = Inr (Some c)"
      by (simp add: flow_body_def)
    from complete_decodes [OF built] body_planned [OF complete_decodes [OF built]] complete_required [OF built]
    show ?thesis unfolding CompleteMany planned_total_def flow_request.case by blast
  next
    case (RetryMany scope raw mixed auto options)
    with assms have built: "compactFlowRetryManyPayload scope raw mixed auto options limit = Inr (Some c)"
      by (simp add: flow_body_def)
    from retry_decodes [OF built] body_planned [OF retry_decodes [OF built]] retry_required [OF built]
    show ?thesis unfolding RetryMany planned_total_def flow_request.case by blast
  next
    case (CancelMany args)
    with assms cancel_required [of args limit c] show ?thesis by (simp add: flow_body_def)
  next
    case (TransitionMany scope from_state to_state raw mixed options)
    with assms have built: "compactFlowTransitionManyPayload scope from_state to_state raw mixed options limit = Inr (Some c)"
      by (simp add: flow_body_def)
    from transition_decodes [OF built] body_planned [OF transition_decodes [OF built]] transition_required [OF built]
    show ?thesis unfolding TransitionMany planned_total_def flow_request.case by blast
  next
    case (ValueMGet refs cap)
    with assms value_mget_decodes [of refs cap limit c] value_mget_required [of refs cap limit c] show ?thesis
      by (auto simp: flow_body_def planned_total_def)
  qed
  then show ?thesis using all_come_from_says unfolding body_decodes_def by blast
qed

definition demo_mget :: protocol_command where
  "demo_mget = (plain_command (command_opcode ''FLOW.VALUE.MGET'')
    (JBuf ([0x9D, 0x80, 0, 0, 0, 0, 0, 0, 0] @ [0, 0, 0, 1] @ [0, 0, 0, 1, 0x72])))\<lparr>pc_flags := Some FLAG_CUSTOM_PAYLOAD\<rparr>"

lemma be_bytes_4: "be_bytes 4 n = [of_nat (n div 16777216), of_nat (n div 65536), of_nat (n div 256), of_nat n]"
proof -
  have four: "(4::nat) = Suc (Suc (Suc (Suc 0)))" by simp
  show ?thesis unfolding four by simp
qed

lemma demo_mget_built: "flow_body (ValueMGet [JBuf [0x72]] JUndef) (JInt 64) = Inr (Some demo_mget)"
proof -
  have len: "compactBinaryByteLength (JBuf [0x72]) = Inr 1"
    by (simp add: compactBinaryByteLength_def binary_value_byte_length_def custom_payload_bytes_def)
  have limit: "normalize_encode_limit (JInt 64) = 64" by (simp add: normalize_encode_limit_def)
  have i64: "write_i64 (optionalI64 JUndef) = Inr [0x80, 0, 0, 0, 0, 0, 0, 0]"
    by (simp add: optionalI64_def write_i64_def be_bytes_2_8)
  have u32: "write_uint 4 1 = Inr [0, 0, 0, 1]" "write_uint (Suc 0) 0x9D = Inr [0x9D]" by (simp_all add: write_uint_def be_bytes_4)
  have size: "fields_size (value_mget_fields [JBuf [0x72]] JUndef) = Inr 18"
    by (simp add: value_mget_fields_def field_size_def compactBinaryEncodedLength_def len)
  have "write_fields (value_mget_fields [JBuf [0x72]] JUndef) =
      Inr ([0x9D, 0x80, 0, 0, 0, 0, 0, 0, 0] @ [0, 0, 0, 1] @ [0, 0, 0, 1, 0x72])"
    by (simp add: value_mget_fields_def write_fields_simps i64 u32)
  then have "fill_buffer 18 (value_mget_fields [JBuf [0x72]] JUndef) =
      Inr ([0x9D, 0x80, 0, 0, 0, 0, 0, 0, 0] @ [0, 0, 0, 1] @ [0, 0, 0, 1, 0x72])"
    by (simp add: fill_buffer_exact [OF size])
  then show ?thesis
    by (simp add: flow_body_def compactFlowValueMGetPayload_def minimum_fits_def compactPayloadFits_def limit ref_total_def
        isCompactBinaryArgument_def len checked_command_def assertCompactPayloadFits_def compact_command_def demo_mget_def
        nullish_def)
qed

theorem compact_requests_decode_witness:
  "\<exists>out items. pc_payload demo_mget = JBuf out \<and> length out = 18 \<and> decode_request out = Some items \<and>
    list_all2 says [SByte 0x9D, SLimit JUndef, SCount 1, SValue (JBuf [0x72])] items"
proof -
  have fields: "required_fields (ValueMGet [JBuf [0x72]] JUndef) =
      [SByte 0x9D, SLimit JUndef, SCount 1, SValue (JBuf [0x72])]" by (simp add: required_fields_def)
  from compact_requests_decode [OF demo_mget_built] obtain out items where
      "pc_payload demo_mget = JBuf out" "decode_request out = Some items"
      "list_all2 says [SByte 0x9D, SLimit JUndef, SCount 1, SValue (JBuf [0x72])] items"
    unfolding fields by (elim exE conjE) (rule that)
  moreover from this(1) have "length out = 18" by (auto simp: demo_mget_def plain_command_def)
  ultimately show ?thesis by blast
qed

end
