(* ===== verification/FlowAdmin.thy ===== *)
theory FlowAdmin
  imports FlowItems CommandExec
begin

text \<open>
  The administrative Flow commands and FLOW.HISTORY (\<open>src/src/protocol-flow-admin.ts\<close>): leading fields, then
  name/value options from one table.
\<close>

section \<open>Tables\<close>

definition FLOW_ADMIN_COMMANDS :: "(string \<times> string list) list" where
  "FLOW_ADMIN_COMMANDS = [
    (''FLOW.STATS'', [''type'']), (''FLOW.ATTRIBUTES'', [''type'']),
    (''FLOW.ATTRIBUTE_VALUES'', [''type'', ''attribute'']), (''FLOW.SCHEDULE.CREATE'', [''id'']),
    (''FLOW.SCHEDULE.GET'', [''id'']), (''FLOW.SCHEDULE.DELETE'', [''id'']),
    (''FLOW.SCHEDULE.FIRE_DUE'', []), (''FLOW.SCHEDULE.LIST'', []), (''FLOW.SCHEDULE.FIRE'', [''id'']),
    (''FLOW.SCHEDULE.PAUSE'', [''id'']), (''FLOW.SCHEDULE.RESUME'', [''id'']),
    (''FLOW.EFFECT.RESERVE'', [''id'']), (''FLOW.EFFECT.CONFIRM'', [''id'']),
    (''FLOW.EFFECT.FAIL'', [''id'']), (''FLOW.EFFECT.COMPENSATE'', [''id'']),
    (''FLOW.EFFECT.GET'', [''id'']), (''FLOW.GOVERNANCE.LEDGER'', [''id'']),
    (''FLOW.APPROVAL.REQUEST'', [''id'']), (''FLOW.APPROVAL.APPROVE'', [''id'']),
    (''FLOW.APPROVAL.REJECT'', [''id'']), (''FLOW.APPROVAL.GET'', [''id'']),
    (''FLOW.APPROVAL.LIST'', []), (''FLOW.GOVERNANCE.OVERVIEW'', []),
    (''FLOW.CIRCUIT.OPEN'', [''scope'']), (''FLOW.CIRCUIT.CLOSE'', [''scope'']),
    (''FLOW.CIRCUIT.GET'', [''scope'']), (''FLOW.BUDGET.RESERVE'', [''scope'']),
    (''FLOW.BUDGET.GET'', [''scope'']), (''FLOW.BUDGET.LIST'', []),
    (''FLOW.BUDGET.COMMIT'', [''scope'']), (''FLOW.BUDGET.RELEASE'', [''scope'']),
    (''FLOW.LIMIT.LEASE'', [''scope'']), (''FLOW.LIMIT.SPEND'', [''scope'']),
    (''FLOW.LIMIT.RELEASE'', [''scope'']), (''FLOW.LIMIT.GET'', [''scope'']), (''FLOW.LIMIT.LIST'', [])]"

definition FLOW_ADMIN_BOOLEAN_FIELDS :: "string list" where
  "FLOW_ADMIN_BOOLEAN_FIELDS =
    [''consistent_projection'', ''include_cold'', ''overwrite'', ''rev'', ''terminal_only'', ''values'']"

definition FLOW_ADMIN_FIELDS :: "(string \<times> string) list" where
  "FLOW_ADMIN_FIELDS = [
    (''ACTUAL_AMOUNT'', ''actual_amount''), (''AMOUNT'', ''amount''), (''APPROVER'', ''approver''),
    (''ASSIGNEES'', ''assignees''), (''AT_MS'', ''at_ms''), (''BLOCK'', ''block_ms''),
    (''BLOCK_MS'', ''block_ms''), (''CATCHUP_POLICY'', ''catchup_policy''),
    (''CONSISTENT_PROJECTION'', ''consistent_projection''), (''CORRELATION_ID'', ''correlation_id''),
    (''COUNT'', ''count''), (''CRON'', ''cron''), (''DEADLINE_MS'', ''deadline_ms''),
    (''DELAY_MS'', ''delay_ms''), (''EFFECT_KEY'', ''effect_key''), (''EFFECT_TYPE'', ''effect_type''),
    (''END_AT_MS'', ''end_at_ms''), (''ERROR'', ''error''), (''EVENT'', ''event''),
    (''EVERY_MS'', ''every_ms''), (''EXPIRES_AT_MS'', ''expires_at_ms''),
    (''EXTERNAL_ID'', ''external_id''), (''FAILURE_THRESHOLD'', ''failure_threshold''),
    (''FENCING'', ''fencing_token''), (''FENCING_TOKEN'', ''fencing_token''),
    (''FLOW_ID'', ''flow_id''), (''FROM_EVENT'', ''from_event''), (''FROM_MS'', ''from_ms''),
    (''FROM_VERSION'', ''from_version''), (''GOVERNANCE_SCOPE'', ''governance_scope''),
    (''IDEMPOTENCY_KEY'', ''idempotency_key''), (''INCLUDE_COLD'', ''include_cold''),
    (''INITIAL_STATE'', ''initial_state''), (''ITEMS'', ''items''), (''KIND'', ''kind''),
    (''LATENCY_MS'', ''latency_ms''), (''LEASE_MS'', ''lease_ms''), (''LEASE_TOKEN'', ''lease_token''),
    (''LIMIT'', ''limit''), (''MAX_ACTIVE_MS'', ''max_active_ms''), (''MAX_FIRES'', ''max_fires''),
    (''MAXBYTES'', ''payload_max_bytes''), (''NOW'', ''now_ms''), (''OPEN_MS'', ''open_ms''),
    (''OPERATION_DIGEST'', ''operation_digest''), (''OVERLAP_POLICY'', ''overlap_policy''),
    (''OVERLAP_RETRY_MS'', ''overlap_retry_ms''), (''OVERWRITE'', ''overwrite''),
    (''PARENT_FLOW_ID'', ''parent_flow_id''), (''PARTITION'', ''partition_key''),
    (''PAYLOAD'', ''payload''), (''PAYLOAD_MAX_BYTES'', ''payload_max_bytes''),
    (''POLICY_HASH'', ''policy_hash''), (''POLICY_VERSION'', ''policy_version''),
    (''PRIORITY'', ''priority''), (''REASON'', ''reason''), (''REQUESTED_BY'', ''requested_by''),
    (''RESERVATION_ID'', ''reservation_id''), (''RESULT'', ''result''),
    (''RETENTION_TTL_MS'', ''retention_ttl_ms''), (''REV'', ''rev''), (''RETURN'', ''return''),
    (''ROOT_FLOW_ID'', ''root_flow_id''), (''SCOPE'', ''scope''), (''SHARD_ID'', ''shard_id''),
    (''START_AT_MS'', ''start_at_ms''), (''STATE'', ''state''), (''STATUS'', ''status''),
    (''STATES'', ''states''), (''STEPS'', ''steps''), (''TARGET'', ''target''),
    (''TARGET_TYPE'', ''target_type''), (''TERMINAL_ONLY'', ''terminal_only''),
    (''TIMEOUT_MS'', ''timeout_ms''), (''TIMEZONE'', ''timezone''), (''TO_EVENT'', ''to_event''),
    (''TO_MS'', ''to_ms''), (''TO_VERSION'', ''to_version''), (''TTL_MS'', ''ttl_ms''),
    (''TYPE'', ''type''), (''USAGE'', ''usage''), (''VALUES'', ''values''),
    (''WINDOW_MS'', ''window_ms''), (''WORKER'', ''worker'')]"

text \<open>The entry of a token.\<close>

definition entry_of :: "(string \<times> 'a) list \<Rightarrow> jsstr \<Rightarrow> 'a option" where
  "entry_of table token = map_of (map (\<lambda>(name, x). (ascii name, x)) table) token"

section \<open>FLOW.HISTORY\<close>

definition history_fields :: "(string \<times> string) list" where
  "history_fields = [(''COUNT'', ''count''), (''PARTITION'', ''partition_key''), (''FROM_EVENT'', ''from_event''),
    (''TO_EVENT'', ''to_event''), (''FROM_MS'', ''from_ms''), (''TO_MS'', ''to_ms''), (''FROM_VERSION'', ''from_version''),
    (''TO_VERSION'', ''to_version''), (''EVENT'', ''event''), (''WORKER'', ''worker''),
    (''PAYLOAD_MAX_BYTES'', ''payload_max_bytes''), (''MAXBYTES'', ''payload_max_bytes'')]"

definition history_flags :: "(string \<times> string) list" where
  "history_flags = [(''REV'', ''rev''), (''INCLUDE_COLD'', ''include_cold''),
    (''CONSISTENT_PROJECTION'', ''consistent_projection''), (''VALUES'', ''values'')]"

definition history_option :: "js_object \<Rightarrow> jsstr \<Rightarrow> jsval \<Rightarrow> js_object option res" where
  "history_option payload token v =
    (case entry_of history_fields token of
       Some field \<Rightarrow> Inr (Some (put payload field v))
     | None \<Rightarrow>
         (case entry_of history_flags token of
            Some field \<Rightarrow>
              rbind (is_bool_token v) (\<lambda>b.
              if b then rbind (bool_arg v) (\<lambda>w. Inr (Some (put payload field (JBool w)))) else Inr None)
          | None \<Rightarrow> Inr None))"

text \<open>Reading an argument of a dense array: a hole throws.\<close>

definition dense_arg :: "string \<Rightarrow> jsval list \<Rightarrow> nat \<Rightarrow> jsval option res" where
  "dense_arg part args i =
    rbind (hasOwnCommandArgument part args i (length args)) (\<lambda>b. Inr (if b then Some (args ! i) else None))"

function history_loop :: "jsval list \<Rightarrow> nat \<Rightarrow> js_object \<Rightarrow> js_object option res" where
  "history_loop args i payload =
    (if i < length args then
       rbind (dense_arg ''Flow history arguments'' args i) (\<lambda>_.
       rbind (dense_arg ''Flow history arguments'' args (i + 1)) (\<lambda>_.
       case option_token (args ! i) of
         None \<Rightarrow> Inr None
       | Some token \<Rightarrow>
           if nullish (arg_at args (i + 1)) then Inr None
           else rbind (history_option payload token (arg_at args (i + 1))) (\<lambda>r.
             case r of None \<Rightarrow> Inr None | Some payload' \<Rightarrow> history_loop args (i + 2) payload')))
     else Inr (Some payload))"
  by pat_completeness auto
termination
  by (relation "measure (\<lambda>(args, i, payload). length args - i)") auto

declare history_loop.simps [simp del]

definition flowHistoryPayload :: "jsval list \<Rightarrow> protocol_command option res" where
  "flowHistoryPayload args =
    (if args = [] \<or> even (length args) then Inr None
     else rbind (dense_arg ''Flow history arguments'' args 0) (\<lambda>_.
       rbind (history_loop args 1 (object_of [(''id'', args ! 0)])) (\<lambda>r.
       Inr (map_option (\<lambda>payload. plain_command (command_opcode ''FLOW.HISTORY'') (JObj payload)) r))))"

section \<open>Administrative commands\<close>

definition admin_entries :: "(string \<times> string) list" where
  "admin_entries = [(''ATTRIBUTE'', ''attributes''), (''ATTRIBUTE_MERGE'', ''attributes_merge''),
    (''STATE_META'', ''state_meta''), (''VALUE'', ''values''), (''VALUE_REF'', ''value_refs'')]"

definition admin_lists :: "(string \<times> string) list" where
  "admin_lists = [(''ATTRIBUTE_DELETE'', ''attributes_delete''), (''DROP_VALUE'', ''drop_values''),
    (''OVERRIDE_VALUE'', ''override_values'')]"

abbreviation admin_arg :: "jsval list \<Rightarrow> nat \<Rightarrow> jsval option res" where
  "admin_arg \<equiv> dense_arg ''Flow admin arguments''"

fun leading_values :: "jsval list \<Rightarrow> nat \<Rightarrow> string list \<Rightarrow> js_object \<Rightarrow> js_object res" where
  "leading_values args i [] payload = Inr payload"
| "leading_values args i (field # others) payload =
    rbind (admin_arg args i) (\<lambda>_. leading_values args (i + 1) others (put payload field (arg_at args i)))"

definition reservation_ids :: "jsval list \<Rightarrow> nat \<Rightarrow> nat \<Rightarrow> jsval list option res" where
  "reservation_ids args start n =
    foldr (\<lambda>i rest.
      rbind (admin_arg args i) (\<lambda>_.
      if nullish (arg_at args i) then Inr None
      else rbind rest (\<lambda>r. Inr (map_option (\<lambda>vs. arg_at args i # vs) r)))) [start..<start + n] (Inr (Some []))"

text \<open>One option at \<open>i\<close>: the payload and the index after it.\<close>

definition admin_option :: "jsval list \<Rightarrow> nat \<Rightarrow> js_object \<Rightarrow> jsstr \<Rightarrow> (js_object \<times> nat) option res" where
  "admin_option args i payload token =
    (case entry_of admin_entries token of
       Some field \<Rightarrow>
         rbind (admin_arg args (i + 1)) (\<lambda>a.
         case a of None \<Rightarrow> Inr None
         | Some name \<Rightarrow> rbind (admin_arg args (i + 2)) (\<lambda>b.
             case b of None \<Rightarrow> Inr None
             | Some v \<Rightarrow> rbind (as_text name) (\<lambda>t. Inr (Some (put_entry payload field t v, i + 3)))))
     | None \<Rightarrow>
     (case entry_of admin_lists token of
       Some field \<Rightarrow>
         rbind (admin_arg args (i + 1)) (\<lambda>a.
         case a of None \<Rightarrow> Inr None | Some v \<Rightarrow> Inr (Some (push_element payload field v, i + 2)))
     | None \<Rightarrow>
     if token = ascii ''RESERVATION_IDS'' then
       rbind (admin_arg args (i + 1)) (\<lambda>a.
       case a of None \<Rightarrow> Inr None
       | Some v \<Rightarrow> rbind (count_arg v) (\<lambda>n.
           if n \<le> 0 \<or> int i + 2 + n > int (length args) then Inr None
           else rbind (reservation_ids args (i + 2) (nat n)) (\<lambda>ids.
             Inr (map_option (\<lambda>vs. (put payload ''reservation_ids'' (JArr vs), i + 2 + nat n)) ids))))
     else (case entry_of FLOW_ADMIN_FIELDS token of
       None \<Rightarrow> Inr None
     | Some field \<Rightarrow>
         rbind (admin_arg args (i + 1)) (\<lambda>a.
         case a of None \<Rightarrow> Inr None
         | Some v \<Rightarrow>
             if field \<in> set FLOW_ADMIN_BOOLEAN_FIELDS then
               rbind (is_bool_token v) (\<lambda>b.
               if b then rbind (bool_arg v) (\<lambda>w. Inr (Some (put payload field (JBool w), i + 2))) else Inr None)
             else Inr (Some (put payload field v, i + 2))))))"

lemma admin_option_advances: "admin_option args i payload token = Inr (Some (payload', j)) \<Longrightarrow> i < j"
  by (auto simp: admin_option_def split: option.splits if_splits)

function admin_loop :: "jsval list \<Rightarrow> nat \<Rightarrow> js_object \<Rightarrow> js_object option res" where
  "admin_loop args i payload =
    (if i < length args then
       rbind (admin_arg args i) (\<lambda>_.
       case option_token (args ! i) of
         None \<Rightarrow> Inr None
       | Some token \<Rightarrow>
           rbind (admin_option args i payload token) (\<lambda>r.
           case r of None \<Rightarrow> Inr None | Some (payload', j) \<Rightarrow> admin_loop args j payload'))
     else Inr (Some payload))"
  by pat_completeness auto
termination
  by (relation "measure (\<lambda>(args, i, payload). length args - i)") (auto dest!: admin_option_advances)

declare admin_loop.simps [simp del]

definition flowAdminPayload :: "nat \<Rightarrow> jsval list \<Rightarrow> string list \<Rightarrow> protocol_command option res" where
  "flowAdminPayload opcode args leading =
    (if length args < length leading then Inr None
     else rbind (leading_values args 0 leading []) (\<lambda>payload.
       rbind (admin_loop args (length leading) payload) (\<lambda>r.
       Inr (map_option (\<lambda>payload. (plain_command opcode (JObj payload))\<lparr>pc_server_block_ms :=
           (case own (ascii ''block_ms'') payload of
              Some v \<Rightarrow> if opcode = command_opcode ''FLOW.SCHEDULE.FIRE_DUE'' \<and> \<not> nullish v then blockDurationMs v 1 else None
            | None \<Rightarrow> None)\<rparr>) r))))"

end
