(* ===== verification/FlowPolicy.thy ===== *)
theory FlowPolicy
  imports FlowAdmin
begin

text \<open>
  Flow policies (\<open>src/src/protocol-flow-policy.ts\<close>). Options before the first STATE belong to the flow type,
  those after a STATE to that state. The code keeps a reference to the object the options go to; here it is
  the name of the state, and the object is looked up and written back.
\<close>

section \<open>Arrays of strings in JSON\<close>

text \<open>\<open>JSON.parse\<close>, as far as it decides whether a text is an array of strings, and which.\<close>

definition json_space :: "16 word \<Rightarrow> bool" where
  "json_space u \<longleftrightarrow> u = 0x20 \<or> u = 0x09 \<or> u = 0x0A \<or> u = 0x0D"

definition hex_digit :: "16 word \<Rightarrow> (16 word) option" where
  "hex_digit u =
    (if is_digit u then Some (u - 0x30) else if 0x41 \<le> u \<and> u \<le> 0x46 then Some (u - 0x37)
     else if 0x61 \<le> u \<and> u \<le> 0x66 then Some (u - 0x57) else None)"

definition hex_unit :: "jsstr \<Rightarrow> (16 word) option" where
  "hex_unit s = (case map hex_digit s of
     [Some a, Some b, Some c, Some d] \<Rightarrow> Some (a * 4096 + b * 256 + c * 16 + d) | _ \<Rightarrow> None)"

definition json_escapes :: "(16 word \<times> 16 word) list" where
  "json_escapes = [(0x22, 0x22), (0x5C, 0x5C), (0x2F, 0x2F), (0x62, 0x08), (0x66, 0x0C), (0x6E, 0x0A), (0x72, 0x0D), (0x74, 0x09)]"

text \<open>The characters of a string after its opening quote, and what follows the closing one.\<close>

fun json_chars :: "jsstr \<Rightarrow> (jsstr \<times> jsstr) option" where
  "json_chars [] = None"
| "json_chars (u # s) =
    (if u = 0x22 then Some ([], s)
     else if u = 0x5C then
       (case s of
          [] \<Rightarrow> None
        | e # s' \<Rightarrow>
            if e = 0x75 then
              (case s' of
                 a # b # c # d # s'' \<Rightarrow>
                   (case hex_unit [a, b, c, d] of None \<Rightarrow> None
                    | Some x \<Rightarrow> map_option (\<lambda>(t, rest). (x # t, rest)) (json_chars s''))
               | _ \<Rightarrow> None)
            else (case map_of json_escapes e of None \<Rightarrow> None
              | Some x \<Rightarrow> map_option (\<lambda>(t, rest). (x # t, rest)) (json_chars s')))
     else if u < 0x20 then None
     else map_option (\<lambda>(t, rest). (u # t, rest)) (json_chars s))"

definition json_string :: "jsstr \<Rightarrow> (jsstr \<times> jsstr) option" where
  "json_string s = (case dropWhile json_space s of u # s' \<Rightarrow> if u = 0x22 then json_chars s' else None | [] \<Rightarrow> None)"

lemma json_chars_shorter: "json_chars s = Some (t, rest) \<Longrightarrow> length rest < length s"
  by (induction s arbitrary: t rest rule: json_chars.induct)
    (fastforce split: if_splits list.splits option.splits)+

lemma json_string_shorter: "json_string s = Some (t, rest) \<Longrightarrow> length rest < length s"
  using length_dropWhile_le [of json_space s]
  by (auto simp: json_string_def split: list.splits if_splits dest!: json_chars_shorter)

text \<open>After an element: a comma and another element, or the closing bracket.\<close>

function json_elements :: "jsstr \<Rightarrow> (jsstr list \<times> jsstr) option" where
  "json_elements s =
    (case json_string s of
       None \<Rightarrow> None
     | Some (t, rest) \<Rightarrow>
         (case dropWhile json_space rest of
            [] \<Rightarrow> None
          | u # rest' \<Rightarrow>
              if u = 0x5D then Some ([t], rest')
              else if u = 0x2C then map_option (\<lambda>(ts, end_rest). (t # ts, end_rest)) (json_elements rest')
              else None))"
  by pat_completeness auto
termination
proof (relation "measure length")
  fix s x t rest u rest'
  assume "json_string s = Some x" "(t, rest) = x" "dropWhile json_space rest = u # rest'"
  then have "length rest < length s" "length (u # rest') \<le> length rest"
    using json_string_shorter length_dropWhile_le [of json_space rest] by auto
  then show "(rest', s) \<in> measure length" by simp
qed simp

declare json_elements.simps [simp del]

definition json_string_array :: "jsstr \<Rightarrow> jsstr list option" where
  "json_string_array s =
    (case dropWhile json_space s of
       [] \<Rightarrow> None
     | u # s' \<Rightarrow>
         if u \<noteq> 0x5B then None
         else (let parsed = (case dropWhile json_space s' of
                   [] \<Rightarrow> None
                 | v # rest \<Rightarrow> if v = 0x5D then Some ([], rest) else json_elements s')
               in case parsed of
                    Some (ts, rest) \<Rightarrow> if dropWhile json_space rest = [] then Some ts else None
                  | None \<Rightarrow> None))"

section \<open>Values\<close>

definition isBinaryArgument :: "jsval \<Rightarrow> bool" where
  "isBinaryArgument v = (case v of JStr _ \<Rightarrow> True | JBuf _ \<Rightarrow> True | JU8 _ \<Rightarrow> True | _ \<Rightarrow> False)"

definition integerOption :: "jsval \<Rightarrow> jsval option" where
  "integerOption v = (case safe_integer_number_arg v of Inr n \<Rightarrow> Some n | Inl _ \<Rightarrow> None)"

definition lower_text :: "jsval \<Rightarrow> jsstr option" where
  "lower_text v = map_option to_lower (optional_text v)"

definition maxActiveOption :: "jsval \<Rightarrow> jsval option" where
  "maxActiveOption v =
    (if isBinaryArgument v \<and> (case as_text v of Inr t \<Rightarrow> to_lower t = ascii ''infinity'' | Inl _ \<Rightarrow> False)
     then Some (JStr (ascii ''infinity'')) else integerOption v)"

definition is_string :: "jsval \<Rightarrow> bool" where
  "is_string v = (case v of JStr _ \<Rightarrow> True | _ \<Rightarrow> False)"

definition indexedAttributes :: "jsval \<Rightarrow> jsval option" where
  "indexedAttributes v =
    (case v of
       JArr items \<Rightarrow> if list_all (\<lambda>x. x = JHole \<or> is_string x) items then Some v else None
     | _ \<Rightarrow> (case optional_text v of None \<Rightarrow> None
         | Some source \<Rightarrow> map_option (\<lambda>ts. JArr (map JStr ts)) (json_string_array source)))"

section \<open>FLOW.POLICY.SET\<close>

definition object_at :: "string \<Rightarrow> js_object \<Rightarrow> js_object" where
  "object_at name target = (case own (ascii name) target of Some (JObj kvs) \<Rightarrow> kvs | _ \<Rightarrow> [])"

text \<open>\<open>core.setOwnValue(objectField(target, name), key, value)\<close>.\<close>

definition put_in :: "js_object \<Rightarrow> string \<Rightarrow> string \<Rightarrow> jsval \<Rightarrow> js_object" where
  "put_in target name key v = put target name (JObj (put (object_at name target) key v))"

record policy =
  po_payload :: js_object
  po_states :: js_object
  po_target :: "jsstr option"

definition target_object :: "policy \<Rightarrow> js_object" where
  "target_object p =
    (case po_target p of None \<Rightarrow> po_payload p
     | Some s \<Rightarrow> (case own s (po_states p) of Some (JObj kvs) \<Rightarrow> kvs | _ \<Rightarrow> []))"

definition set_target :: "js_object \<Rightarrow> policy \<Rightarrow> policy" where
  "set_target kvs p =
    (case po_target p of
       None \<Rightarrow> p\<lparr>po_payload := kvs\<rparr>
     | Some s \<Rightarrow> (let states = set_own (po_states p) s (JObj kvs)
         in p\<lparr>po_states := states, po_payload := put (po_payload p) ''states'' (JObj states)\<rparr>))"

text \<open>An option of the flow type only.\<close>

definition type_field :: "policy \<Rightarrow> string \<Rightarrow> jsval option \<Rightarrow> policy option" where
  "type_field p field v =
    (if po_target p = None then map_option (\<lambda>w. p\<lparr>po_payload := put (po_payload p) field w\<rparr>) v else None)"

text \<open>An option of a group of the target.\<close>

definition group_field :: "policy \<Rightarrow> string \<Rightarrow> string \<Rightarrow> jsval option \<Rightarrow> policy option" where
  "group_field p name key v = map_option (\<lambda>w. set_target (put_in (target_object p) name key w) p) v"

definition backoff_field :: "policy \<Rightarrow> string \<Rightarrow> jsval option \<Rightarrow> policy option" where
  "backoff_field p key v =
    map_option (\<lambda>w. set_target (put (target_object p) ''retry''
      (JObj (put_in (object_at ''retry'' (target_object p)) ''backoff'' key w))) p) v"

definition BACKOFF_FIELDS :: "(string \<times> string) list" where
  "BACKOFF_FIELDS = [(''BASE_MS'', ''base_ms''), (''MAX_MS'', ''max_ms''), (''JITTER_PCT'', ''jitter_pct'')]"

definition RETENTION_FIELDS :: "(string \<times> string) list" where
  "RETENTION_FIELDS = [(''RETENTION_TTL'', ''ttl_ms''), (''RETENTION_TTL_MS'', ''ttl_ms''),
    (''HISTORY_MAX_EVENTS'', ''history_max_events'')]"

definition nonnegative_option :: "jsval \<Rightarrow> jsval option" where
  "nonnegative_option v =
    (case integerOption v of Some (JInt i) \<Rightarrow> if i < 0 then None else Some (JInt i) | r \<Rightarrow> r)"

definition policy_mode :: "jsval \<Rightarrow> jsval option" where
  "policy_mode v =
    (if isBinaryArgument v then
       (case lower_text v of
          Some m \<Rightarrow> if m = ascii ''fifo'' \<or> m = ascii ''parallel'' then Some (JStr m) else None
        | None \<Rightarrow> None)
     else None)"

definition policy_option :: "policy \<Rightarrow> jsstr \<Rightarrow> jsval \<Rightarrow> policy option res" where
  "policy_option p token v =
    (let is = (\<lambda>name. token = ascii name)
     in if is ''STATE'' then
          (if isBinaryArgument v then
             rbind (as_text v) (\<lambda>s. Inr (Some (set_target [] (p\<lparr>po_target := Some s\<rparr>))))
           else Inr None)
        else if is ''MODE'' then
          Inr (if po_target p = None then None
               else map_option (\<lambda>w. set_target (put (target_object p) ''mode'' w) p) (policy_mode v))
        else if is ''EXPECTED_GENERATION'' then Inr (type_field p ''expected_generation'' (nonnegative_option v))
        else if is ''REPLACE'' then
          (if po_target p = None then
             rbind (is_bool_token v) (\<lambda>b.
             if b then rbind (bool_arg v) (\<lambda>w. Inr (type_field p ''replace'' (Some (JBool w)))) else Inr None)
           else Inr None)
        else if is ''MAX_ACTIVE_MS'' then Inr (type_field p ''max_active_ms'' (maxActiveOption v))
        else if is ''INDEXED_STATE_META'' then
          Inr (type_field p ''indexed_state_meta'' (if isBinaryArgument v then Some v else None))
        else if is ''INDEXED_ATTRIBUTES'' then Inr (type_field p ''indexed_attributes'' (indexedAttributes v))
        else if is ''MAX_RETRIES'' then Inr (group_field p ''retry'' ''max_retries'' (integerOption v))
        else if is ''EXHAUSTED_TO'' then
          Inr (group_field p ''retry'' ''exhausted_to'' (if isBinaryArgument v then Some v else None))
        else (case entry_of BACKOFF_FIELDS token of
          Some field \<Rightarrow> Inr (backoff_field p field (integerOption v))
        | None \<Rightarrow>
        if is ''BACKOFF'' then
          Inr (backoff_field p ''kind'' (if isBinaryArgument v then map_option JStr (lower_text v) else None))
        else (case entry_of RETENTION_FIELDS token of
          Some field \<Rightarrow> Inr (if po_target p = None then None else group_field p ''retention'' field (integerOption v))
        | None \<Rightarrow> Inr None)))"

abbreviation policy_arg :: "jsval list \<Rightarrow> nat \<Rightarrow> jsval option res" where
  "policy_arg \<equiv> dense_arg ''Flow policy arguments''"

function policy_loop :: "jsval list \<Rightarrow> nat \<Rightarrow> policy \<Rightarrow> policy option res" where
  "policy_loop args i p =
    (if i < length args then
       rbind (policy_arg args i) (\<lambda>a.
       rbind (policy_arg args (i + 1)) (\<lambda>b.
       case (option_token (args ! i), b) of
         (Some token, Some v) \<Rightarrow>
           if nullish v then Inr None
           else rbind (policy_option p token v) (\<lambda>r.
             case r of None \<Rightarrow> Inr None | Some p' \<Rightarrow> policy_loop args (i + 2) p')
       | _ \<Rightarrow> Inr None))
     else Inr (Some p))"
  by pat_completeness auto
termination
  by (relation "measure (\<lambda>(args, i, p). length args - i)") auto

declare policy_loop.simps [simp del]

definition flowPolicySetPayload :: "jsval list \<Rightarrow> protocol_command option res" where
  "flowPolicySetPayload args =
    rbind (policy_arg args 0) (\<lambda>a.
    case a of None \<Rightarrow> Inr None
    | Some kind \<Rightarrow>
        if \<not> isBinaryArgument kind then Inr None
        else rbind (policy_loop args 1 \<lparr>po_payload = object_of [(''type'', kind)], po_states = [], po_target = None\<rparr>) (\<lambda>r.
          Inr (map_option (\<lambda>p. plain_command (command_opcode ''FLOW.POLICY.SET'') (JObj (po_payload p))) r)))"

section \<open>FLOW.POLICY.GET\<close>

definition flowPolicyGetPayload :: "jsval list \<Rightarrow> protocol_command option res" where
  "flowPolicyGetPayload args =
    rbind (policy_arg args 0) (\<lambda>a.
    case a of None \<Rightarrow> Inr None
    | Some kind \<Rightarrow>
        if \<not> isBinaryArgument kind \<or> length args \<notin> {1, 3} then Inr None
        else if length args = 1 then
          Inr (Some (plain_command (command_opcode ''FLOW.POLICY.GET'') (JObj (object_of [(''type'', kind)]))))
        else rbind (policy_arg args 1) (\<lambda>_. rbind (policy_arg args 2) (\<lambda>_.
          Inr (if option_token (args ! 1) = Some (ascii ''STATE'') \<and> isBinaryArgument (args ! 2)
            then Some (plain_command (command_opcode ''FLOW.POLICY.GET'')
              (JObj (object_of [(''type'', kind), (''state'', args ! 2)])))
            else None))))"

end
