(* ===== verification/FlowCommands.thy ===== *)
theory FlowCommands
  imports FlowCompact FlowPolicy
begin

text \<open>
  The Flow commands (\<open>src/src/protocol-flow.ts\<close>, \<open>src/src/protocol-flow-routing.ts\<close>,
  \<open>src/src/protocol-flow-signal.ts\<close>, \<open>src/src/flow-block-validation.ts\<close>): from the arguments of a command to the
  request, in the compact form where there is one. A builder returns \<open>None\<close> (\<open>undefined\<close>) for arguments that
  have to go through the generic command, or throws.
\<close>

section \<open>Options and payloads\<close>

definition flow_config :: "catalog \<Rightarrow> catalog \<Rightarrow> option_config" where
  "flow_config allowed required =
    \<lparr>oc_allowed = allowed, oc_payload_value = False, oc_read_values = False, oc_required = required\<rparr>"

definition write_config :: "catalog \<Rightarrow> catalog \<Rightarrow> option_config" where
  "write_config allowed required =
    \<lparr>oc_allowed = allowed, oc_payload_value = True, oc_read_values = False, oc_required = required\<rparr>"

definition read_config :: "catalog \<Rightarrow> option_config" where
  "read_config allowed =
    \<lparr>oc_allowed = allowed, oc_payload_value = False, oc_read_values = True, oc_required = []\<rparr>"

text \<open>Parse the options, then go on with them.\<close>

definition with_options ::
  "jsval list \<Rightarrow> nat \<Rightarrow> nat \<Rightarrow> option_config \<Rightarrow> (js_object \<Rightarrow> 'a option res) \<Rightarrow> 'a option res" where
  "with_options args start e cfg f =
    rbind (parseFlowOptions args start e cfg) (\<lambda>o'. case o' of None \<Rightarrow> Inr None | Some options \<Rightarrow> f options)"

text \<open>\<open>{ name: value, ..., ...options }\<close> as the payload of a command.\<close>

definition flow_command :: "string \<Rightarrow> (string \<times> jsval) list \<Rightarrow> js_object \<Rightarrow> protocol_command option res" where
  "flow_command name entries options =
    Inr (Some (plain_command (command_opcode name) (JObj (spread (object_of entries) options))))"

section \<open>Commands on one flow\<close>

definition create_allowed :: catalog where
  "create_allowed = [''TYPE'', ''STATE'', ''NOW'', ''PARTITION'', ''PAYLOAD'', ''PARENT_FLOW_ID'', ''ROOT_FLOW_ID'',
    ''CORRELATION_ID'', ''RUN_AT'', ''PRIORITY'', ''IDEMPOTENT'', ''MAX_ACTIVE_MS'', ''RETENTION_TTL_MS'', ''ATTRIBUTE'',
    ''STATE_META'', ''VALUE'', ''VALUE_REF'']"

definition flowCreatePayload :: "jsval list \<Rightarrow> protocol_command option res" where
  "flowCreatePayload args =
    (if length args < 7 then Inr None
     else with_options args 1 (length args) (write_config create_allowed [''TYPE'', ''STATE'', ''NOW''])
       (flow_command ''FLOW.CREATE'' [(''id'', arg_at args 0)]))"

definition flowGetPayload :: "jsval list \<Rightarrow> protocol_command option res" where
  "flowGetPayload args =
    (if args = [] then Inr None
     else with_options args 1 (length args)
       (read_config [''PARTITION'', ''FULL'', ''PAYLOAD'', ''NOPAYLOAD'', ''MAXBYTES'', ''VALUE'', ''VALUE_MAX_BYTES''])
       (flow_command ''FLOW.GET'' [(''id'', arg_at args 0)]))"

definition flowValuePutPayload :: "jsval list \<Rightarrow> protocol_command option res" where
  "flowValuePutPayload args =
    (if args = [] then Inr None
     else with_options args 1 (length args)
       (flow_config [''NOW'', ''PARTITION'', ''OWNER_FLOW_ID'', ''NAME'', ''OVERRIDE'', ''TTL''] [])
       (flow_command ''FLOW.VALUE.PUT'' [(''value'', arg_at args 0)]))"

definition flowSignalPayload :: "jsval list \<Rightarrow> protocol_command option res" where
  "flowSignalPayload args =
    (if length args < 3 then Inr None
     else with_options args 1 (length args)
       (flow_config [''SIGNAL'', ''PARTITION'', ''IDEMPOTENCY'', ''IF_STATE'', ''TRANSITION_TO'', ''RUN_AT'', ''NOW'',
         ''VALUE'', ''VALUE_REF'', ''DROP_VALUE'', ''OVERRIDE_VALUE''] [''SIGNAL''])
       (flow_command ''FLOW.SIGNAL'' [(''id'', arg_at args 0)]))"

definition flowLeaseMutationPayload :: "string \<Rightarrow> jsval list \<Rightarrow> catalog \<Rightarrow> protocol_command option res" where
  "flowLeaseMutationPayload name args allowed =
    (if length args < 2 then Inr None
     else with_options args 2 (length args) (write_config allowed [''FENCING'', ''NOW''])
       (flow_command name [(''id'', arg_at args 0), (''lease_token'', arg_at args 1)]))"

definition flowCompletePayload :: "jsval list \<Rightarrow> protocol_command option res" where
  "flowCompletePayload args = flowLeaseMutationPayload ''FLOW.COMPLETE'' args
    [''FENCING'', ''NOW'', ''PARTITION'', ''RESULT'', ''PAYLOAD'', ''TTL'', ''STATE_META'',
     ''VALUE'', ''VALUE_REF'', ''DROP_VALUE'', ''OVERRIDE_VALUE'', ''ATTRIBUTE_MERGE'', ''ATTRIBUTE_DELETE'']"

definition flowTransitionPayload :: "jsval list \<Rightarrow> protocol_command option res" where
  "flowTransitionPayload args =
    (if length args < 3 then Inr None
     else with_options args 3 (length args)
       (write_config [''LEASE_TOKEN'', ''FENCING'', ''NOW'', ''PARTITION'', ''PAYLOAD'', ''RUN_AT'', ''PRIORITY'',
         ''STATE_META'', ''VALUE'', ''VALUE_REF'', ''DROP_VALUE'', ''OVERRIDE_VALUE'', ''ATTRIBUTE_MERGE'',
         ''ATTRIBUTE_DELETE''] [''LEASE_TOKEN'', ''FENCING'', ''NOW''])
       (flow_command ''FLOW.TRANSITION''
         [(''id'', arg_at args 0), (''from_state'', arg_at args 1), (''to_state'', arg_at args 2)]))"

definition flowReclaimPayload :: "jsval list \<Rightarrow> protocol_command option res" where
  "flowReclaimPayload args =
    (if args = [] then Inr None
     else with_options args 1 (length args)
       (read_config [''STATE'', ''PARTITION'', ''PARTITIONS'', ''WORKER'', ''LEASE_MS'', ''LIMIT'', ''PRIORITY'', ''NOW'',
         ''RETURN'', ''PAYLOAD'', ''NOPAYLOAD'', ''MAXBYTES'', ''INCLUDE_STATE'', ''VALUE'', ''VALUE_MAX_BYTES''])
       (\<lambda>options. Inr (Some (plain_command (command_opcode ''FLOW.RECLAIM'')
         (JObj (put options ''type'' (arg_at args 0)))))))"

section \<open>FLOW.VALUE.MGET and FLOW.CREATE_MANY\<close>

definition with_response_items :: "nat \<Rightarrow> protocol_command \<Rightarrow> protocol_command" where
  "with_response_items n c = c\<lparr>pc_response_items := Some n\<rparr>"

text \<open>The compact form where it is allowed and exists, the plain one otherwise.\<close>

definition compact_or ::
  "bool \<Rightarrow> protocol_command option res \<Rightarrow> nat \<Rightarrow> protocol_command \<Rightarrow> protocol_command option res" where
  "compact_or allow_compact compact n c =
    rbind (if allow_compact then compact else Inr None) (\<lambda>r.
    Inr (Some (with_response_items n (case r of Some c' \<Rightarrow> c' | None \<Rightarrow> c))))"

definition flowValueMGetPayload :: "jsval list \<Rightarrow> jsval \<Rightarrow> bool \<Rightarrow> protocol_command option res" where
  "flowValueMGetPayload args limit allow_compact =
    (let parts = splitFlowValueMGetArguments args 0; refs = mget_refs parts
     in if args = [] \<or> refs = [] then Inr None
        else rbind (if has_max_bytes parts then safe_integer_number_arg (max_bytes_arg parts) else Inr JUndef) (\<lambda>cap.
          compact_or allow_compact (compactFlowValueMGetPayload refs cap limit) (length refs)
            (plain_command (command_opcode ''FLOW.VALUE.MGET'')
              (JObj (object_of ([(''refs'', JArr refs)] @ (if has_max_bytes parts then [(''max_bytes'', cap)] else [])))))))"

definition create_many_allowed :: catalog where
  "create_many_allowed = [''TYPE'', ''STATE'', ''NOW'', ''RUN_AT'', ''PRIORITY'', ''IDEMPOTENT'', ''INDEPENDENT'',
    ''MAX_ACTIVE_MS'', ''RETENTION_TTL_MS'', ''ATTRIBUTE'', ''STATE_META'', ''VALUE'', ''VALUE_REF'']"

text \<open>\<open>{ ...options, items }\<close>, with the partition where it is one for all.\<close>

definition many_payload :: "string \<Rightarrow> js_object \<Rightarrow> jsval list \<Rightarrow> jsval option \<Rightarrow> protocol_command" where
  "many_payload name options items scope =
    plain_command (command_opcode name)
      (JObj (let payload = put options ''items'' (JArr items)
        in case scope of Some s \<Rightarrow> put payload ''partition_key'' s | None \<Rightarrow> payload))"

definition flowCreateManyPayload :: "jsval list \<Rightarrow> jsval \<Rightarrow> bool \<Rightarrow> protocol_command option res" where
  "flowCreateManyPayload args limit allow_compact =
    (if length args < 2 then Inr None
     else rbind (as_text (arg_at args 0)) (\<lambda>scope.
       rbind (findItemToken args 1) (\<lambda>at.
       case at of None \<Rightarrow> Inr None
       | Some at \<Rightarrow>
           with_options args 1 at (flow_config create_many_allowed [''TYPE'']) (\<lambda>options.
             let mixed = to_upper scope = ascii ''MIXED'';
                 auto = to_upper scope \<in> {ascii ''AUTO'', ascii ''NONE''};
                 place = (if auto \<or> mixed then None else Some (JStr scope));
                 width = (if mixed then 3 else 2)
             in rbind (as_text (arg_at args at)) (\<lambda>token.
                if to_upper token = ascii ''ITEMS_EXT'' then
                  rbind (count_arg (arg_at args (at + 1))) (\<lambda>n.
                  if n < 0 then Inr None
                  else rbind (denseCommandArgumentTail args (at + 2) ''ITEMS_EXT'') (\<lambda>tail.
                    rbind (parseFlowCreateItemsExt tail (nat n) mixed) (\<lambda>items.
                    Inr (map_option (\<lambda>items. with_response_items (length items)
                      (many_payload ''FLOW.CREATE_MANY'' options items place)) items))))
                else rbind (denseCommandArgumentTail args (at + 1) ''ITEMS'') (\<lambda>raw.
                  if raw = [] \<or> length raw mod width \<noteq> 0 then Inr None
                  else compact_or allow_compact (compactFlowCreateManyPayload scope raw mixed auto options limit)
                    (length raw div width)
                    (many_payload ''FLOW.CREATE_MANY'' options (map JArr (rows (length raw div width) width raw)) place)))))))"

section \<open>FLOW.CLAIM_DUE\<close>

text \<open>\<open>flow-block-validation.ts\<close>.\<close>

definition MAX_FLOW_BLOCK_MS :: int where
  "MAX_FLOW_BLOCK_MS = 4294967295"

definition block_error :: error where
  "block_error = Thrown TypeErr ''blockMs must be a safe non-negative integer no greater than 4294967295'' []"

definition validateFlowBlockMs :: "jsval \<Rightarrow> unit res" where
  "validateFlowBlockMs v =
    (if nullish v \<or> nonnegative_ms v \<and> int_of_number v \<le> MAX_FLOW_BLOCK_MS then Inr () else Inl block_error)"

definition validateRawFlowBlockMs :: "jsval \<Rightarrow> unit res" where
  "validateRawFlowBlockMs v = (case integer_arg v of Inl _ \<Rightarrow> Inl block_error | Inr n \<Rightarrow> validateFlowBlockMs n)"

definition block_tokens :: catalog where
  "block_tokens = [''BLOCK'', ''BLOCK_MS'']"

definition pair_tokens :: catalog where
  "pair_tokens = [''STATE'', ''PARTITION'', ''WORKER'', ''LEASE_MS'', ''LIMIT'', ''PRIORITY'', ''NOW'', ''RECLAIM_RATIO'',
    ''RETURN'', ''MAXBYTES'', ''VALUE'', ''VALUE_MAX_BYTES'']"

text \<open>Every token that could start a block option, where the options cannot be told apart.\<close>

function block_fallback :: "jsval list \<Rightarrow> nat \<Rightarrow> unit res" where
  "block_fallback args i =
    (if i < length args then
       rbind (as_text (arg_at args i)) (\<lambda>t.
       rbind (if has block_tokens (to_upper t) then validateRawFlowBlockMs (arg_at args (i + 1)) else Inr ()) (\<lambda>_.
       block_fallback args (i + 1)))
     else Inr ())"
  by pat_completeness auto
termination
  by (relation "measure (\<lambda>(args, i). length args - i)") auto

declare block_fallback.simps [simp del]

text \<open>\<open>Number(value)\<close> as a count: a safe integer that is not negative. Text, numbers, booleans and null can be
  one, and an array through the text of its only element; a symbol throws.\<close>

fun has_symbol :: "jsval \<Rightarrow> bool" where
  "has_symbol (JSym _) = True"
| "has_symbol (JArr vs) = list_ex has_symbol vs"
| "has_symbol _ = False"

fun number_text :: "jsval \<Rightarrow> jsstr option" where
  "number_text (JArr vs) = (case vs of [] \<Rightarrow> Some [] | [v] \<Rightarrow> if nullish v then Some [] else number_text v | _ \<Rightarrow> None)"
| "number_text (JU8 b) = (case b of [] \<Rightarrow> Some [] | [x] \<Rightarrow> Some (nat_text (unat x)) | _ \<Rightarrow> None)"
| "number_text (JStr s) = Some s"
| "number_text (JBuf b) = Some (utf8_decode b)"
| "number_text (JInt i) = Some (int_text i)"
| "number_text (JBig i) = Some (int_text i)"
| "number_text (JFloat w) = (if w = 0x8000000000000000 then Some (ascii ''0'') else None)"
| "number_text _ = None"

definition number_value :: "jsval \<Rightarrow> jsval" where
  "number_value v =
    (case v of
       JInt _ \<Rightarrow> v | JFloat _ \<Rightarrow> v
     | JBool b \<Rightarrow> JInt (if b then 1 else 0)
     | JNull \<Rightarrow> JInt 0
     | _ \<Rightarrow> (case number_text v of Some t \<Rightarrow> number_of_text t | None \<Rightarrow> JFloat NAN))"

definition raw_count :: "jsval \<Rightarrow> int option res" where
  "raw_count v =
    (if has_symbol v then Inl (Thrown TypeErr ''Cannot convert a Symbol value to a number'' [])
     else let n = number_value v in Inr (if nonnegative_ms n then Some (int_of_number n) else None))"

function block_options :: "jsval list \<Rightarrow> nat \<Rightarrow> unit res" where
  "block_options args i =
    (if i < length args then
       rbind (as_text (arg_at args i)) (\<lambda>t.
       let token = to_upper t
       in if has block_tokens token then
            rbind (validateRawFlowBlockMs (arg_at args (i + 1))) (\<lambda>_. block_options args (i + 2))
          else if has pair_tokens token then block_options args (i + 2)
          else if has [''STATES'', ''PARTITIONS''] token then
            rbind (raw_count (arg_at args (i + 1))) (\<lambda>r.
            case r of
               Some n \<Rightarrow>
                 if n > int (length args) - int (i + 2) then block_fallback args (i + 2)
                 else block_options args (i + 2 + nat n)
             | None \<Rightarrow> block_fallback args (i + 2))
          else if has [''RECLAIM_EXPIRED'', ''INCLUDE_STATE''] token then
            rbind (if i + 1 < length args then is_bool_token (arg_at args (i + 1)) else Inr False) (\<lambda>b.
            block_options args (if b then i + 2 else i + 1))
          else if has [''PAYLOAD'', ''NOPAYLOAD''] token then block_options args (i + 1)
          else block_fallback args i)
     else Inr ())"
  by pat_completeness auto
termination
  by (relation "measure (\<lambda>(args, i). length args - i)") auto

declare block_options.simps [simp del]

definition validateRawFlowClaimBlockOptions :: "jsval list \<Rightarrow> unit res" where
  "validateRawFlowClaimBlockOptions args = block_options args 1"

text \<open>\<open>protocol-flow-routing.ts\<close>.\<close>

definition withFlowPartitionRouting :: "protocol_command \<Rightarrow> js_object \<Rightarrow> protocol_command" where
  "withFlowPartitionRouting command payload =
    (let key = own (ascii ''partition_key'') payload;
         keys = (case own (ascii ''partition_keys'') payload of Some (JArr vs) \<Rightarrow> Some vs | _ \<Rightarrow> None)
     in if key = None \<and> keys = None then command
        else command\<lparr>pc_partition_key := key, pc_partition_keys := keys\<rparr>)"

definition flowCommandExecWithRouting :: "jsstr \<Rightarrow> jsval list \<Rightarrow> nat \<Rightarrow> catalog \<Rightarrow> protocol_command res" where
  "flowCommandExecWithRouting command args option_start allowed =
    rbind (commandExec (JStr command # args)) (\<lambda>fallback.
    Inr (if list_ex (\<lambda>v. command_token_is v (ascii ''PARTITION'') \<or> command_token_is v (ascii ''PARTITIONS''))
           (drop option_start args)
         then (case parseFlowOptions args option_start (length args) (write_config allowed []) of
             Inr (Some options) \<Rightarrow> withFlowPartitionRouting fallback options
           | _ \<Rightarrow> fallback)
         else fallback))"

text \<open>The expansion of STATES into single states looks at every argument, so that it may meet the word as the
  value of another option, with anything after it; the count may move it back. It may not return: \<open>None\<close>.\<close>

definition int_arg_at :: "jsval list \<Rightarrow> int \<Rightarrow> jsval" where
  "int_arg_at args i = (if i < 0 then JUndef else arg_at args (nat i))"

partial_function (option) expand_from :: "jsval list \<Rightarrow> int \<Rightarrow> jsval list \<Rightarrow> jsval list res option" where
  "expand_from args i expanded =
    (if i < int (length args) then
       (if command_token_is (int_arg_at args i) (ascii ''STATES'') then
          (case count_arg (int_arg_at args (i + 1)) of
             Inl e \<Rightarrow> Some (Inl e)
           | Inr n \<Rightarrow> expand_from args (i + 2 + n) (expanded @
               concat (map (\<lambda>k. [JStr (ascii ''STATE''), int_arg_at args (i + 2 + int k)]) [0..<nat n])))
        else expand_from args (i + 1) (expanded @ [int_arg_at args i]))
     else Some (Inr expanded))"

definition expandFlowClaimStates :: "jsval list \<Rightarrow> jsval list res option" where
  "expandFlowClaimStates args = expand_from args 0 []"

definition claim_allowed :: catalog where
  "claim_allowed = [''STATE'', ''STATES'', ''PARTITION'', ''PARTITIONS'', ''WORKER'', ''LEASE_MS'', ''LIMIT'', ''PRIORITY'',
    ''NOW'', ''BLOCK'', ''BLOCK_MS'', ''RECLAIM_EXPIRED'', ''RECLAIM_RATIO'', ''RETURN'', ''PAYLOAD'', ''NOPAYLOAD'',
    ''MAXBYTES'', ''INCLUDE_STATE'', ''VALUE'', ''VALUE_MAX_BYTES'']"

definition compactClaimResponseMode :: "jsval \<Rightarrow> claim_mode option res" where
  "compactClaimResponseMode v =
    rbind (compactClaimReturnMode v) (\<lambda>m.
    Inr (case m of None \<Rightarrow> None
      | Some m \<Rightarrow> if m = 1 then Some ClaimBase else if m = 2 then Some ClaimState
          else if m = 3 then Some ClaimAttrs else Some ClaimStateAttrs))"

text \<open>\<open>return_mode.startsWith("JOBS_COMPACT")\<close>.\<close>

definition compact_return :: "js_object \<Rightarrow> bool res" where
  "compact_return options =
    rbind (if nullish (field_of options ''return'') then Inr [] else rbind (as_text (field_of options ''return'')) (\<lambda>t. Inr (to_upper t)))
      (\<lambda>mode. Inr (take 12 mode = ascii ''JOBS_COMPACT''))"

definition claim_block_ms :: "js_object \<Rightarrow> jsval option" where
  "claim_block_ms options =
    (case field_of options ''block_ms'' of
       JInt i \<Rightarrow> if i \<ge> 0 then Some (JInt i) else None
     | JFloat w \<Rightarrow> if w = 0x8000000000000000 then Some (JFloat w) else None
     | _ \<Rightarrow> None)"

text \<open>A claim that answers with compact jobs.\<close>

definition compact_claim :: "jsval list \<Rightarrow> js_object \<Rightarrow> jsval \<Rightarrow> bool \<Rightarrow> protocol_command option res" where
  "compact_claim args options limit allow_compact =
    rbind (if allow_compact then compactFlowClaimDuePayload (arg_at args 0) options limit else Inr None) (\<lambda>compact.
    rbind (compactClaimResponseMode (field_of options ''return'')) (\<lambda>mode.
    Inr (Some ((case compact of
        Some c \<Rightarrow> c
      | None \<Rightarrow> plain_command (command_opcode ''FLOW.CLAIM_DUE'') (JObj (put options ''type'' (arg_at args 0))))
      \<lparr>pc_claim_mode := mode, pc_server_block_ms := claim_block_ms options\<rparr>))))"

text \<open>A claim that goes through the generic command, with several states written one by one.\<close>

definition generic_claim :: "jsval list \<Rightarrow> js_object \<Rightarrow> protocol_command option res option" where
  "generic_claim args options =
    (case (case field_of options ''states'' of JArr _ \<Rightarrow> expandFlowClaimStates args | _ \<Rightarrow> Some (Inr args)) of
       None \<Rightarrow> None
     | Some r \<Rightarrow> Some (rbind r (\<lambda>args'.
         rbind (commandExec (JStr (ascii ''FLOW.CLAIM_DUE'') # args')) (\<lambda>fallback.
         Inr (Some (withFlowPartitionRouting fallback options))))))"

definition flowClaimDuePayload :: "jsval list \<Rightarrow> jsval \<Rightarrow> bool \<Rightarrow> protocol_command option res option" where
  "flowClaimDuePayload args limit allow_compact =
    (if args = [] then Some (Inr None)
     else case rbind (validateRawFlowClaimBlockOptions args) (\<lambda>_. parseFlowOptions args 1 (length args) (read_config claim_allowed)) of
       Inl e \<Rightarrow> Some (Inl e)
     | Inr None \<Rightarrow> Some (Inr None)
     | Inr (Some options) \<Rightarrow>
         (case rbind (validateFlowBlockMs (field_of options ''block_ms'')) (\<lambda>_. compact_return options) of
            Inl e \<Rightarrow> Some (Inl e)
          | Inr True \<Rightarrow> Some (compact_claim args options limit allow_compact)
          | Inr False \<Rightarrow> generic_claim args options))"

section \<open>Commands on claimed flows\<close>

definition claimed_many_allowed :: "string \<Rightarrow> catalog" where
  "claimed_many_allowed command =
    [''NOW'', ''INDEPENDENT'', ''PAYLOAD'', ''STATE_META'', ''VALUE'', ''VALUE_REF'', ''DROP_VALUE'', ''OVERRIDE_VALUE'',
     ''ATTRIBUTE_MERGE'', ''ATTRIBUTE_DELETE''] @
    (if command = ''FLOW.COMPLETE_MANY'' then [''RESULT'', ''TTL'']
     else [''ERROR''] @ (if command = ''FLOW.RETRY_MANY'' then [''RUN_AT''] else []) @
       (if command = ''FLOW.FAIL_MANY'' then [''TTL''] else [])) @ [''RETURN'']"

definition flowClaimedManyPayload :: "string \<Rightarrow> jsval list \<Rightarrow> jsval \<Rightarrow> bool \<Rightarrow> protocol_command option res" where
  "flowClaimedManyPayload command args limit allow_compact =
    (if length args < 2 then Inr None
     else rbind (as_text (arg_at args 0)) (\<lambda>scope.
       rbind (findItemToken args 1) (\<lambda>at.
       case at of None \<Rightarrow> Inr None
       | Some at \<Rightarrow>
           with_options args 1 at (write_config (claimed_many_allowed command) []) (\<lambda>options.
             let mixed = to_upper scope = ascii ''MIXED''; auto = to_upper scope = ascii ''AUTO'';
                 width = (if mixed then 4 else 3)
             in rbind (denseCommandArgumentTail args (at + 1) ''ITEMS'') (\<lambda>raw.
                if raw = [] \<or> length raw mod width \<noteq> 0 then Inr None
                else compact_or allow_compact
                  (if command = ''FLOW.RETRY_MANY'' then compactFlowRetryManyPayload scope raw mixed auto options limit
                   else compactFlowCompleteManyPayload (command_opcode command) scope raw mixed auto options limit)
                  (length raw div width)
                  (many_payload command options (map JArr (rows (length raw div width) width raw))
                    (if auto \<or> mixed then None else Some (JStr scope))))))))"

definition transition_item :: "bool \<Rightarrow> jsval list \<Rightarrow> jsval" where
  "transition_item mixed row =
    (let lease = row ! (if mixed then 3 else 2)
     in JObj (object_of ([(''id'', row ! 0), (''fencing_token'', row ! (if mixed then 2 else 1))] @
       (if mixed then [(''partition_key'', row ! 1)] else []) @
       (if command_token_is lease (ascii ''-'') then [] else [(''lease_token'', lease)]))))"

definition flowTransitionManyPayload :: "jsval list \<Rightarrow> jsval \<Rightarrow> bool \<Rightarrow> protocol_command option res" where
  "flowTransitionManyPayload args limit allow_compact =
    (if length args < 4 then Inr None
     else rbind (as_text (arg_at args 0)) (\<lambda>scope.
       rbind (findItemToken args 3) (\<lambda>at.
       case at of None \<Rightarrow> Inr None
       | Some at \<Rightarrow>
           with_options args 3 at (write_config [''PAYLOAD'', ''RUN_AT'', ''PRIORITY'', ''NOW'', ''INDEPENDENT'', ''STATE_META'',
               ''VALUE'', ''VALUE_REF'', ''DROP_VALUE'', ''OVERRIDE_VALUE'', ''ATTRIBUTE_MERGE'', ''ATTRIBUTE_DELETE'',
               ''RETURN''] []) (\<lambda>options.
             let mixed = to_upper scope = ascii ''MIXED''; width = (if mixed then 4 else 3)
             in rbind (denseCommandArgumentTail args (at + 1) ''ITEMS'') (\<lambda>raw.
                if raw = [] \<or> length raw mod width \<noteq> 0 then Inr None
                else compact_or allow_compact
                  (if list_all isCompactBinaryArgument [arg_at args 0, arg_at args 1, arg_at args 2]
                   then compactFlowTransitionManyPayload (arg_at args 0) (arg_at args 1) (arg_at args 2) raw mixed options limit
                   else Inr None)
                  (length raw div width)
                  (many_payload ''FLOW.TRANSITION_MANY''
                    (spread (object_of [(''from_state'', arg_at args 1), (''to_state'', arg_at args 2)]) options)
                    (map (transition_item mixed) (rows (length raw div width) width raw))
                    (if mixed then None else Some (arg_at args 0))))))))"

definition flowSpawnChildrenPayload :: "jsval list \<Rightarrow> protocol_command option res" where
  "flowSpawnChildrenPayload args =
    (if length args < 2 then Inr None
     else rbind (findItemToken args 1) (\<lambda>at.
       case at of None \<Rightarrow> Inr None
       | Some at \<Rightarrow>
           with_options args 1 at (flow_config [''GROUP'', ''WAIT'', ''NOW'', ''PARTITION'', ''LEASE_TOKEN'', ''FENCING'',
               ''WAIT_STATE'', ''SUCCESS'', ''FAILURE'', ''FROM_STATE'', ''ON_CHILD_FAILED'', ''ON_PARENT_CLOSED'',
               ''MAX_ACTIVE_MS'', ''VALUE'', ''VALUE_REF''] []) (\<lambda>options.
             rbind (as_text (arg_at args at)) (\<lambda>token.
             rbind (if to_upper token = ascii ''ITEMS_EXT'' then
                 rbind (count_arg (arg_at args (at + 1))) (\<lambda>n.
                 if n < 0 then Inr None
                 else rbind (denseCommandArgumentTail args (at + 2) ''ITEMS_EXT'') (\<lambda>tail.
                   parseFlowSpawnChildrenExt tail (nat n)))
               else (let mixed = at + 1 < length args \<and> command_token_is (arg_at args (at + 1)) (ascii ''MIXED'')
                 in rbind (denseCommandArgumentTail args (at + (if mixed then 2 else 1)) ''ITEMS'') (\<lambda>tail.
                    Inr (parseFlowSpawnChildren tail mixed)))) (\<lambda>children.
             Inr (map_option (\<lambda>children. plain_command (command_opcode ''FLOW.SPAWN_CHILDREN'')
               (JObj (put (spread (object_of [(''id'', arg_at args 0)]) options) ''children'' (JArr children)))) children))))))"

end
