(* ===== verification/CompactRequest.thy ===== *)
theory CompactRequest
  imports FlowCompact
begin

text \<open>
  The compact pipelines and the compact MSET and MGET (\<open>src/src/protocol-compact-request.ts\<close>): a request for a
  whole batch of commands of one kind, with the arguments of all of them one after the other.
\<close>

section \<open>MSET and MGET\<close>

definition dense_scalar :: "string \<Rightarrow> jsval \<Rightarrow> bool res" where
  "dense_scalar message v =
    (if v = JHole then Inl (Thrown TypeErr message []) else Inr (isCompactBinaryScalar v))"

definition compactArgumentsEligible :: "jsval list \<Rightarrow> string \<Rightarrow> bool res" where
  "compactArgumentsEligible args message = all_rows (dense_scalar message) args"

definition argument_total :: "string \<Rightarrow> jsval \<Rightarrow> nat option res" where
  "argument_total message v =
    rbind (dense_scalar message v) (\<lambda>b.
    if b then rbind (compactBinaryByteLength v) (\<lambda>n. Inr (Some (4 + n))) else Inr None)"

text \<open>The total of a list of rows, after the header of six bytes.\<close>

definition after_header :: "nat option res \<Rightarrow> nat option res" where
  "after_header r = rbind r (\<lambda>m. Inr (map_option (\<lambda>m. 6 + m) m))"

text \<open>\<open>writeCompactPipelineHeader\<close>.\<close>

definition pipeline_header :: "nat \<Rightarrow> nat \<Rightarrow> wire_field list" where
  "pipeline_header mode n = [FByte 0x94, FByte mode, FU32 n]"

definition compactMsetPayload :: "jsval list \<Rightarrow> jsval \<Rightarrow> protocol_command option res" where
  "compactMsetPayload args limit =
    (if length args mod 2 \<noteq> 0 then Inl (ferric_error ''MSET requires key/value pairs'')
     else rbind (minimum_fits (6 + length args * 4) limit (compactArgumentsEligible args ''MSET arguments must be dense'')) (\<lambda>b.
       if b then checked_command (command_opcode ''MSET'')
         (after_header (sum_rows (argument_total ''MSET arguments must be dense'') args)) limit
         (pipeline_header 1 (length args div 2) @ map FBinary args)
       else Inr None))"

definition compactKeyPipelinePayload :: "nat \<Rightarrow> jsval list \<Rightarrow> nat \<Rightarrow> jsval \<Rightarrow> protocol_command option res" where
  "compactKeyPipelinePayload opcode args mode limit =
    rbind (minimum_fits (6 + length args * 4) limit (compactArgumentsEligible args ''command arguments must be dense'')) (\<lambda>b.
      if b then checked_command opcode
        (after_header (sum_rows (argument_total ''command arguments must be dense'') args)) limit
        (pipeline_header mode (length args) @ map FBinary args)
      else Inr None)"

section \<open>Pipelines\<close>

definition commands_error :: error where
  "commands_error = Thrown TypeErr ''pipeline commands must be a dense array of command arrays'' []"

definition arguments_error :: error where
  "arguments_error = Thrown TypeErr ''pipeline command arguments must be dense'' []"

text \<open>A command is an array of arguments; anything else (a hole included) is refused.\<close>

definition command_args :: "jsval \<Rightarrow> jsval list res" where
  "command_args v = (case v of JArr c \<Rightarrow> Inr c | _ \<Rightarrow> Inl commands_error)"

text \<open>A command of the given name and number of arguments whose arguments can be written: its arguments.\<close>

definition pipeline_command :: "string \<Rightarrow> nat \<Rightarrow> jsval \<Rightarrow> jsval list option res" where
  "pipeline_command name argc v =
    rbind (command_args v) (\<lambda>c.
    if length c \<noteq> argc then Inr None
    else if JHole \<in> set c then Inl arguments_error
    else rbind (command_name_is (c ! 0) (ascii name)) (\<lambda>b.
      Inr (if b \<and> list_all isCompactBinaryScalar (tl c) then Some (tl c) else None)))"

definition compactPipelineEligible :: "jsval list \<Rightarrow> string \<Rightarrow> nat \<Rightarrow> bool res" where
  "compactPipelineEligible commands name argc =
    all_rows (\<lambda>v. rbind (pipeline_command name argc v) (\<lambda>c. Inr (c \<noteq> None))) commands"

definition command_total :: "string \<Rightarrow> nat \<Rightarrow> jsval \<Rightarrow> nat option res" where
  "command_total name argc v =
    rbind (pipeline_command name argc v) (\<lambda>c.
    case c of None \<Rightarrow> Inr None
    | Some args \<Rightarrow> rbind (add_lengths (map compactBinaryEncodedLength args)) (\<lambda>n. Inr (Some n)))"

definition arguments_of :: "jsval \<Rightarrow> jsval list" where
  "arguments_of v = (case v of JArr c \<Rightarrow> tl c | _ \<Rightarrow> [])"

definition command_fields :: "jsval \<Rightarrow> wire_field list" where
  "command_fields v = map FBinary (arguments_of v)"

definition checked_bytes :: "nat option res \<Rightarrow> jsval \<Rightarrow> wire_field list \<Rightarrow> bytes option res" where
  "checked_bytes planned limit fs =
    rbind planned (\<lambda>t.
    case t of None \<Rightarrow> Inr None
    | Some n \<Rightarrow> rbind (assertCompactPayloadFits n limit) (\<lambda>_. rbind (fill_buffer n fs) (\<lambda>out. Inr (Some out))))"

text \<open>\<open>compactSetPipelinePayload\<close>, \<open>compactGetPipelinePayload\<close> and \<open>compactPubSubPublishPipelinePayload\<close> are
  the same function with another name, number of arguments and mode.\<close>

definition same_command_pipeline :: "string \<Rightarrow> nat \<Rightarrow> nat \<Rightarrow> jsval list \<Rightarrow> jsval \<Rightarrow> bytes option res" where
  "same_command_pipeline name argc mode commands limit =
    rbind (minimum_fits (6 + length commands * ((argc - 1) * 4)) limit (compactPipelineEligible commands name argc)) (\<lambda>b.
      if b then checked_bytes (after_header (sum_rows (command_total name argc) commands)) limit
        (pipeline_header mode (length commands) @ concat (map command_fields commands))
      else Inr None)"

definition compactSetPipelinePayload :: "jsval list \<Rightarrow> jsval \<Rightarrow> bytes option res" where
  "compactSetPipelinePayload = same_command_pipeline ''SET'' 3 0x81"

definition compactGetPipelinePayload :: "jsval list \<Rightarrow> jsval \<Rightarrow> bytes option res" where
  "compactGetPipelinePayload = same_command_pipeline ''GET'' 2 0x82"

definition compactPubSubPublishPipelinePayload :: "jsval list \<Rightarrow> jsval \<Rightarrow> bytes option res" where
  "compactPubSubPublishPipelinePayload = same_command_pipeline ''PUBLISH'' 3 0xA3"

text \<open>XADD key * field value ...: the id is left out, the number of field/value pairs is written.\<close>

definition xadd_values :: "jsval list \<Rightarrow> jsval list" where
  "xadd_values c = c ! 1 # drop 3 c"

definition xadd_minimum :: "jsval \<Rightarrow> nat option res" where
  "xadd_minimum v =
    rbind (command_args v) (\<lambda>c.
    if length c < 5 \<or> (length c - 3) mod 2 \<noteq> 0 then Inr None
    else if JHole \<in> set c then Inl arguments_error
    else if \<not> command_token_is (c ! 0) (ascii ''XADD'') \<or> \<not> command_token_is (c ! 2) (ascii ''*'') then Inr None
    else if (length c - 3) div 2 > 0xFFFF then Inr None
    else if list_all isCompactBinaryScalar (xadd_values c) then Inr (Some (2 + (length c - 2) * 4)) else Inr None)"

definition xadd_total :: "jsval \<Rightarrow> nat option res" where
  "xadd_total v =
    rbind (command_args v) (\<lambda>c.
    rbind (add_lengths (map compactBinaryEncodedLength (xadd_values c))) (\<lambda>n. Inr (Some (2 + n))))"

definition xadd_fields :: "jsval \<Rightarrow> wire_field list" where
  "xadd_fields v =
    (case v of JArr c \<Rightarrow> [FBinary (c ! 1), FU16 ((length c - 3) div 2)] @ map FBinary (drop 3 c) | _ \<Rightarrow> [])"

definition compactStreamXAddPipelinePayload :: "jsval list \<Rightarrow> jsval \<Rightarrow> bytes option res" where
  "compactStreamXAddPipelinePayload commands limit =
    rbind (after_header (sum_rows xadd_minimum commands)) (\<lambda>minimum.
    case minimum of None \<Rightarrow> Inr None
    | Some minimum \<Rightarrow>
        rbind (assertCompactPayloadFits minimum limit) (\<lambda>_.
        checked_bytes (after_header (sum_rows xadd_total commands)) limit
          (pipeline_header 0xA2 (length commands) @ concat (map xadd_fields commands))))"

definition compactPipelinePayload :: "jsval list \<Rightarrow> jsval \<Rightarrow> bool \<Rightarrow> bool \<Rightarrow> bytes option res" where
  "compactPipelinePayload commands limit allow_xadd allow_publish =
    (case commands of
       [] \<Rightarrow> rbind (assertCompactPayloadFits 6 limit) (\<lambda>_. rbind (fill_buffer 6 (pipeline_header 0x82 0)) (\<lambda>out. Inr (Some out)))
     | first # _ \<Rightarrow>
         if first = JHole then Inl commands_error
         else let name = (case first of JArr c \<Rightarrow> arg_at c 0 | _ \<Rightarrow> JUndef) in
           rbind (command_name_is name (ascii ''SET'')) (\<lambda>b.
           if b then compactSetPipelinePayload commands limit
           else rbind (command_name_is name (ascii ''GET'')) (\<lambda>b.
           if b then compactGetPipelinePayload commands limit
           else rbind (command_name_is name (ascii ''XADD'')) (\<lambda>b.
           if b then (if allow_xadd then compactStreamXAddPipelinePayload commands limit else Inr None)
           else rbind (command_name_is name (ascii ''PUBLISH'')) (\<lambda>b.
           if b then (if allow_publish then compactPubSubPublishPipelinePayload commands limit else Inr None)
           else Inr None)))))"

section \<open>Reading a pipeline back\<close>

definition item_bytes :: "wire_item \<Rightarrow> bytes" where
  "item_bytes x = (case x of IBinary b \<Rightarrow> b | _ \<Rightarrow> [])"

definition read_binaries :: "nat \<Rightarrow> bytes \<Rightarrow> (bytes list \<times> bytes) option" where
  "read_binaries n bs =
    map_option (\<lambda>(xs, rest). (map item_bytes xs, rest)) (read_fields (replicate n KBinary) bs)"

text \<open>The arguments of one command, by the mode of the pipeline.\<close>

definition read_command :: "nat \<Rightarrow> bytes \<Rightarrow> (bytes list \<times> bytes) option" where
  "read_command mode bs =
    (if mode = 0xA2 then
       (case read_binaries 1 bs of None \<Rightarrow> None
        | Some (key, bs') \<Rightarrow>
            (case read_nat 2 bs' of None \<Rightarrow> None
             | Some (n, bs'') \<Rightarrow> map_option (\<lambda>(xs, rest). (key @ xs, rest)) (read_binaries (2 * n) bs'')))
     else read_binaries (if mode = 0x82 then 1 else 2) bs)"

fun read_commands :: "nat \<Rightarrow> nat \<Rightarrow> bytes \<Rightarrow> (bytes list list \<times> bytes) option" where
  "read_commands mode 0 bs = Some ([], bs)"
| "read_commands mode (Suc n) bs =
    (case read_command mode bs of None \<Rightarrow> None
     | Some (x, bs') \<Rightarrow> map_option (\<lambda>(xs, rest). (x # xs, rest)) (read_commands mode n bs'))"

definition decode_pipeline :: "bytes \<Rightarrow> (nat \<times> bytes list list) option" where
  "decode_pipeline bs =
    (case read_fields [KByte, KByte, KU32] bs of
       Some ([IByte tag, IByte mode, IU32 n], rest) \<Rightarrow>
         if tag \<noteq> 0x94 then None
         else (case read_commands mode n rest of Some (xs, []) \<Rightarrow> Some (mode, xs) | _ \<Rightarrow> None)
     | _ \<Rightarrow> None)"

definition pipeline_name :: "nat \<Rightarrow> string" where
  "pipeline_name mode =
    (if mode = 0x81 then ''SET'' else if mode = 0x82 then ''GET'' else if mode = 0xA2 then ''XADD'' else ''PUBLISH'')"

text \<open>What a pipeline of the mode sends of a command.\<close>

definition sent_arguments :: "nat \<Rightarrow> jsval \<Rightarrow> bytes list" where
  "sent_arguments mode v =
    (case v of JArr c \<Rightarrow> map bytes_of (if mode = 0xA2 then xadd_values c else tl c) | _ \<Rightarrow> [])"

lemma read_binaries_written:
  assumes "write_fields (map FBinary vs) = Inr b" "fields_size (map FBinary vs) = Inr n"
  shows "read_binaries (length vs) (b @ rest) = Some (map bytes_of vs, rest)"
proof -
  have "map field_kind (map FBinary vs) = replicate (length vs) KBinary"
    by (simp add: field_kind_def map_replicate_const comp_def)
  with read_write_fields [OF assms, of rest] show ?thesis
    by (simp add: read_binaries_def field_item_def item_bytes_def comp_def)
qed

lemma read_commands_written:
  assumes "\<And>v b n rest. v \<in> set vs \<Longrightarrow> write_fields (g v) = Inr b \<Longrightarrow> fields_size (g v) = Inr n \<Longrightarrow>
      read_command mode (b @ rest) = Some (h v, rest)"
    and "write_fields (concat (map g vs)) = Inr out" "fields_size (concat (map g vs)) = Inr m"
  shows "read_commands mode (length vs) (out @ rest) = Some (map h vs, rest)"
  using assms
proof (induction vs arbitrary: out m)
  case Nil
  then show ?case by (simp add: write_fields_simps)
next
  case (Cons v vs)
  from Cons.prems(2) obtain a b where ab: "write_fields (g v) = Inr a" "write_fields (concat (map g vs)) = Inr b" "out = a @ b"
    by (auto simp: write_fields_append_Inr)
  from Cons.prems(3) obtain k l where kl: "fields_size (g v) = Inr k" "fields_size (concat (map g vs)) = Inr l"
    by (auto simp: fields_size_append_Inr)
  from Cons.prems(1) [of v, OF _ ab(1) kl(1), of "b @ rest"] have "read_command mode (a @ b @ rest) = Some (h v, b @ rest)" by simp
  moreover have "read_commands mode (length vs) (b @ rest) = Some (map h vs, rest)"
    by (rule Cons.IH [OF _ ab(2) kl(2)]) (use Cons.prems(1) in auto)
  ultimately show ?case using ab(3) by simp
qed

lemma decode_pipeline_written:
  assumes "\<And>v b n rest. v \<in> set vs \<Longrightarrow> write_fields (g v) = Inr b \<Longrightarrow> fields_size (g v) = Inr n \<Longrightarrow>
      read_command mode (b @ rest) = Some (h v, rest)"
    and "write_fields (pipeline_header mode (length vs) @ concat (map g vs)) = Inr out"
    and "fields_size (pipeline_header mode (length vs) @ concat (map g vs)) = Inr m"
  shows "decode_pipeline out = Some (mode, map h vs)"
proof -
  from assms(2) obtain a b where ab: "write_fields (pipeline_header mode (length vs)) = Inr a"
      "write_fields (concat (map g vs)) = Inr b" "out = a @ b"
    unfolding write_fields_append_Inr by blast
  from assms(3) obtain k l where kl: "fields_size (pipeline_header mode (length vs)) = Inr k"
      "fields_size (concat (map g vs)) = Inr l" unfolding fields_size_append_Inr by blast
  from read_write_fields [OF ab(1) kl(1), of b]
  have "read_fields [KByte, KByte, KU32] (a @ b) = Some ([IByte 0x94, IByte mode, IU32 (length vs)], b)"
    by (simp add: pipeline_header_def field_kind_def field_item_def)
  moreover have "read_commands mode (length vs) (b @ []) = Some (map h vs, [])"
    by (rule read_commands_written [OF assms(1) ab(2) kl(2)])
  ultimately show ?thesis using ab(3) by (simp add: decode_pipeline_def)
qed

lemma checked_bytes_body:
  assumes "checked_bytes planned limit fs = Inr (Some out)"
    and "\<And>n. planned = Inr (Some n) \<Longrightarrow> fields_size fs = Inr n"
  shows "length out \<le> normalize_encode_limit limit \<and> write_fields fs = Inr out \<and> fields_size fs = Inr (length out)"
proof -
  from assms(1) obtain n where n: "planned = Inr (Some n)" "n \<le> normalize_encode_limit limit"
      and fill: "fill_buffer n fs = Inr out"
    by (auto simp: checked_bytes_def assertCompactPayloadFits_def split: option.splits if_splits)
  from assms(2) [OF n(1)] have fits: "fields_size fs = Inr n" .
  with fill have out: "write_fields fs = Inr out" by (simp add: fill_buffer_exact)
  moreover from write_fields_length [OF out fits] have "length out = n" .
  ultimately show ?thesis using n fits by simp
qed

lemma header_size: "fields_size (pipeline_header mode n) = Inr 6"
  by (simp add: pipeline_header_def field_size_def)

lemma after_header_size:
  assumes "after_header (sum_rows f vs) = Inr (Some n)" "\<And>v k. f v = Inr (Some k) \<Longrightarrow> fields_size (g v) = Inr k"
  shows "fields_size (pipeline_header mode l @ concat (map g vs)) = Inr n"
proof -
  from assms(1) obtain m where m: "sum_rows f vs = Inr (Some m)" "n = 6 + m" by (auto simp: after_header_def)
  from sum_rows_size [of f g, OF assms(2) m(1)] m(2) show ?thesis by (simp add: fields_size_append header_size)
qed

lemma binaries_size: "add_lengths (map compactBinaryEncodedLength vs) = Inr n \<Longrightarrow> fields_size (map FBinary vs) = Inr n"
  by (induction vs arbitrary: n) (auto simp: field_size_def)

section \<open>Properties\<close>

lemma read_command_plain:
  assumes "write_fields (map FBinary vs) = Inr b" "fields_size (map FBinary vs) = Inr n"
    and "mode \<noteq> 0xA2" "length vs = (if mode = 0x82 then 1 else 2)"
  shows "read_command mode (b @ rest) = Some (map bytes_of vs, rest)"
  using read_binaries_written [OF assms(1,2), of rest] assms(3,4) by (simp add: read_command_def)

lemma read_command_xadd:
  assumes "write_fields (xadd_fields (JArr c)) = Inr b" "fields_size (xadd_fields (JArr c)) = Inr n"
    and "(length c - 3) mod 2 = 0" "(length c - 3) div 2 \<le> 0xFFFF"
  shows "read_command 0xA2 (b @ rest) = Some (map bytes_of (xadd_values c), rest)"
proof -
  let ?n = "(length c - 3) div 2"
  have fields: "xadd_fields (JArr c) = map FBinary [c ! 1] @ FU16 ?n # map FBinary (drop 3 c)" by (simp add: xadd_fields_def)
  from assms(1) obtain x y z where xyz: "write_fields (map FBinary [c ! 1]) = Inr x" "write_field (FU16 ?n) = Inr y"
      "write_fields (map FBinary (drop 3 c)) = Inr z" "b = x @ y @ z"
    unfolding fields write_fields_append_Inr write_fields_Cons_Inr [of "FU16 ?n"] by blast
  from assms(2) obtain k l where kl: "fields_size (map FBinary [c ! 1]) = Inr k" "fields_size (map FBinary (drop 3 c)) = Inr l"
    unfolding fields fields_size_append_Inr fields_size.simps(2) [of "FU16 ?n"] rbind_eq_Inr by blast
  from read_binaries_written [OF xyz(1) kl(1), of "y @ z @ rest"]
  have "read_binaries 1 (x @ y @ z @ rest) = Some ([bytes_of (c ! 1)], y @ z @ rest)" by simp
  moreover have "read_nat 2 (y @ z @ rest) = Some (?n, z @ rest)"
    using xyz(2) assms(4) read_nat_be [of ?n 2 "z @ rest"] by (auto simp: write_uint_Inr)
  moreover have "length (drop 3 c) = 2 * ?n" using assms(3) by (metis length_drop mult_div_mod_eq add.right_neutral)
  then have "read_binaries (2 * ?n) (z @ rest) = Some (map bytes_of (drop 3 c), rest)"
    using read_binaries_written [OF xyz(3) kl(2), of rest] by simp
  ultimately show ?thesis using xyz(4) by (simp add: read_command_def xadd_values_def)
qed

lemma pipeline_command_spec:
  assumes "pipeline_command name argc v = Inr (Some args)" "argc \<ge> 1"
  shows "\<exists>c. v = JArr c \<and> length c = argc \<and> args = tl c \<and> command_name_is (c ! 0) (ascii name) = Inr True"
  using assms by (auto simp: pipeline_command_def command_args_def split: jsval.splits if_splits)

definition pipeline_decodes :: "nat \<Rightarrow> jsval list \<Rightarrow> jsval \<Rightarrow> bytes \<Rightarrow> bool" where
  "pipeline_decodes mode commands limit out \<longleftrightarrow>
    length out \<le> normalize_encode_limit limit \<and> decode_pipeline out = Some (mode, map (sent_arguments mode) commands) \<and>
    (\<forall>v \<in> set commands. \<exists>c. v = JArr c \<and> c \<noteq> [] \<and> command_name_is (c ! 0) (ascii (pipeline_name mode)) = Inr True)"

lemma same_command_decodes:
  assumes "same_command_pipeline (pipeline_name mode) argc mode commands limit = Inr (Some out)"
    and mode: "mode \<noteq> 0xA2" "argc = (if mode = 0x82 then 2 else 3)"
  shows "pipeline_decodes mode commands limit out"
proof -
  let ?f = "command_total (pipeline_name mode) argc"
  let ?fs = "pipeline_header mode (length commands) @ concat (map command_fields commands)"
  from assms(1) have built: "checked_bytes (after_header (sum_rows ?f commands)) limit ?fs = Inr (Some out)"
    by (auto simp: same_command_pipeline_def split: if_splits)
  then obtain n where n: "sum_rows ?f commands = Inr (Some n)"
    by (auto simp: checked_bytes_def after_header_def split: option.splits)
  have row: "\<exists>c. v = JArr c \<and> length c = argc \<and> command_name_is (c ! 0) (ascii (pipeline_name mode)) = Inr True \<and>
      add_lengths (map compactBinaryEncodedLength (tl c)) = Inr k" if "?f v = Inr (Some k)" for v k
    using that mode(2)
    by (auto simp: command_total_def split: option.splits dest!: pipeline_command_spec)
  have size: "fields_size (command_fields v) = Inr k" if "?f v = Inr (Some k)" for v k
    using row [OF that] by (auto simp: command_fields_def arguments_of_def intro: binaries_size)
  have sized: "fields_size ?fs = Inr n'" if "after_header (sum_rows ?f commands) = Inr (Some n')" for n'
    by (rule after_header_size [OF that size])
  from checked_bytes_body [OF built sized]
  have out: "length out \<le> normalize_encode_limit limit" "write_fields ?fs = Inr out" "fields_size ?fs = Inr (length out)" by blast+
  have cmd: "\<exists>c. v = JArr c \<and> length c = argc \<and> command_name_is (c ! 0) (ascii (pipeline_name mode)) = Inr True"
    if "v \<in> set commands" for v
    using sum_rows_mem [OF n that] row by blast
  have "decode_pipeline out = Some (mode, map (sent_arguments mode) commands)"
  proof (rule decode_pipeline_written [OF _ out(2,3)])
    fix v b n rest
    assume v: "v \<in> set commands" and w: "write_fields (command_fields v) = Inr b" "fields_size (command_fields v) = Inr n"
    from cmd [OF v] obtain c where c: "v = JArr c" "length c = argc" by blast
    with w mode show "read_command mode (b @ rest) = Some (sent_arguments mode v, rest)"
      using read_command_plain [of "tl c" b n mode rest] by (simp add: command_fields_def arguments_of_def sent_arguments_def)
  qed
  moreover have "\<exists>c. v = JArr c \<and> c \<noteq> [] \<and> command_name_is (c ! 0) (ascii (pipeline_name mode)) = Inr True"
    if v: "v \<in> set commands" for v
  proof -
    from cmd [OF v] obtain c where c: "v = JArr c" "length c = argc"
        "command_name_is (c ! 0) (ascii (pipeline_name mode)) = Inr True" by blast
    then have "c \<noteq> []" using mode(2) by (auto split: if_splits)
    with c show ?thesis by blast
  qed
  ultimately show ?thesis using out(1) by (simp add: pipeline_decodes_def)
qed

lemma token_is_name: "command_token_is v t \<Longrightarrow> command_name_is v t = Inr True"
  by (cases v) (auto simp: command_name_is_def as_text_def)

lemma xadd_decodes:
  assumes "compactStreamXAddPipelinePayload commands limit = Inr (Some out)"
  shows "pipeline_decodes 0xA2 commands limit out"
proof -
  let ?fs = "pipeline_header 0xA2 (length commands) @ concat (map xadd_fields commands)"
  from assms obtain m where m: "sum_rows xadd_minimum commands = Inr (Some m)"
      and built: "checked_bytes (after_header (sum_rows xadd_total commands)) limit ?fs = Inr (Some out)"
    by (auto simp: compactStreamXAddPipelinePayload_def after_header_def split: option.splits)
  have size: "fields_size (xadd_fields v) = Inr k" if "xadd_total v = Inr (Some k)" for v k
    using that by (auto simp: xadd_total_def command_args_def xadd_fields_def xadd_values_def field_size_def
        split: jsval.splits dest: binaries_size)
  have sized: "fields_size ?fs = Inr n'" if "after_header (sum_rows xadd_total commands) = Inr (Some n')" for n'
    by (rule after_header_size [OF that size])
  from checked_bytes_body [OF built sized]
  have out: "length out \<le> normalize_encode_limit limit" "write_fields ?fs = Inr out" "fields_size ?fs = Inr (length out)" by blast+
  have cmd: "\<exists>c. v = JArr c \<and> (length c - 3) mod 2 = 0 \<and> (length c - 3) div 2 \<le> 0xFFFF \<and>
      c \<noteq> [] \<and> command_name_is (c ! 0) (ascii ''XADD'') = Inr True" if v: "v \<in> set commands" for v
  proof -
    from sum_rows_mem [OF m v] obtain k where "xadd_minimum v = Inr (Some k)" by blast
    then show ?thesis
      by (auto simp: xadd_minimum_def command_args_def token_is_name split: jsval.splits if_splits)
  qed
  have "decode_pipeline out = Some (0xA2, map (sent_arguments 0xA2) commands)"
  proof (rule decode_pipeline_written [OF _ out(2,3)])
    fix v b n rest
    assume v: "v \<in> set commands" and w: "write_fields (xadd_fields v) = Inr b" "fields_size (xadd_fields v) = Inr n"
    obtain c where c: "v = JArr c" "(length c - 3) mod 2 = 0" "(length c - 3) div 2 \<le> 0xFFFF"
      using cmd [OF v] by (elim exE conjE) (rule that)
    with w show "read_command 0xA2 (b @ rest) = Some (sent_arguments 0xA2 v, rest)"
      using read_command_xadd [of c b n rest] by (simp add: sent_arguments_def)
  qed
  moreover have "pipeline_name 0xA2 = ''XADD''" by (simp add: pipeline_name_def)
  moreover have "\<exists>c. v = JArr c \<and> c \<noteq> [] \<and> command_name_is (c ! 0) (ascii ''XADD'') = Inr True"
    if "v \<in> set commands" for v
    using cmd [OF that] by (elim exE conjE) (intro exI conjI)
  ultimately show ?thesis using out(1) unfolding pipeline_decodes_def by (simp only: simp_thms) blast
qed

lemma compact_pipeline_commands:
  assumes "compactPipelinePayload commands limit allow_xadd allow_publish = Inr (Some out)"
  shows "\<exists>mode. pipeline_decodes mode commands limit out"
proof (cases commands)
  case Nil
  from assms Nil have w: "write_fields (pipeline_header 0x82 (length ([] :: jsval list)) @ concat (map command_fields [])) = Inr out"
      and fits: "6 \<le> normalize_encode_limit limit"
    by (auto simp: compactPipelinePayload_def assertCompactPayloadFits_def fill_buffer_exact [OF header_size]
        split: if_splits)
  have s: "fields_size (pipeline_header 0x82 (length ([] :: jsval list)) @ concat (map command_fields [])) = Inr 6"
    by (simp add: header_size)
  have "decode_pipeline out = Some (0x82, map (sent_arguments 0x82) [])" by (rule decode_pipeline_written [OF _ w s]) simp
  moreover from write_fields_length [OF w s] have "length out = 6" .
  ultimately show ?thesis using fits Nil by (auto simp: pipeline_decodes_def)
next
  case (Cons first rest)
  have names: "pipeline_name 0x81 = ''SET''" "pipeline_name 0x82 = ''GET''" "pipeline_name 0xA3 = ''PUBLISH''"
    by (simp_all add: pipeline_name_def)
  from assms Cons consider "compactSetPipelinePayload commands limit = Inr (Some out)"
      | "compactGetPipelinePayload commands limit = Inr (Some out)"
      | "compactStreamXAddPipelinePayload commands limit = Inr (Some out)"
      | "compactPubSubPublishPipelinePayload commands limit = Inr (Some out)"
    by (auto simp: compactPipelinePayload_def Let_def split: if_splits)
  then show ?thesis
  proof cases
    case 1
    then show ?thesis
      using same_command_decodes [where mode = "0x81" and argc = 3] by (auto simp: compactSetPipelinePayload_def names)
  next
    case 2
    then show ?thesis
      using same_command_decodes [where mode = "0x82" and argc = 2] by (auto simp: compactGetPipelinePayload_def names)
  next
    case 3
    then show ?thesis using xadd_decodes by blast
  next
    case 4
    then show ?thesis
      using same_command_decodes [where mode = "0xA3" and argc = 3] by (auto simp: compactPubSubPublishPipelinePayload_def names)
  qed
qed

text \<open>C14. A compact pipeline stands for exactly the commands it replaces: when the compact form is chosen, every
  command is an array whose name is that of the mode, the body is within the limit, and reading the body
  back gives the mode and, command by command and in order, the bytes of the arguments (for XADD the key
  and the field/value pairs, the id being the star), with nothing left over.\<close>

theorem compact_pipelines_decode:
  assumes "compactPipelinePayload commands limit allow_xadd allow_publish = Inr (Some out)"
  shows "length out \<le> normalize_encode_limit limit \<and>
    (\<exists>mode. decode_pipeline out = Some (mode, map (sent_arguments mode) commands) \<and>
      (\<forall>v \<in> set commands. \<exists>c. v = JArr c \<and> command_name_is (c ! 0) (ascii (pipeline_name mode)) = Inr True))"
  using compact_pipeline_commands [OF assms] unfolding pipeline_decodes_def by blast

definition demo_gets :: "jsval list" where
  "demo_gets = [JArr [JStr (ascii ''GET''), JBuf [0x6B]], JArr [JStr (ascii ''GET''), JBuf []]]"

definition demo_body :: bytes where
  "demo_body = [0x94, 0x82] @ [0, 0, 0, 2] @ [0, 0, 0, 1, 0x6B] @ [0, 0, 0, 0]"

lemma demo_gets_built: "compactPipelinePayload demo_gets (JInt 64) True True = Inr (Some demo_body)"
proof -
  have len: "compactBinaryEncodedLength (JBuf [0x6B]) = Inr 5" "compactBinaryEncodedLength (JBuf []) = Inr 4"
    by (simp_all add: compactBinaryEncodedLength_def compactBinaryByteLength_def binary_value_byte_length_def custom_payload_bytes_def)
  have limit: "normalize_encode_limit (JInt 64) = 64" by (simp add: normalize_encode_limit_def)
  have u: "write_uint 4 2 = Inr [0, 0, 0, 2]" "write_uint 4 1 = Inr [0, 0, 0, 1]" "write_uint 4 0 = Inr [0, 0, 0, 0]"
      "write_uint (Suc 0) 0x94 = Inr [0x94]" "write_uint (Suc 0) 0x82 = Inr [0x82]"
    by (simp_all add: write_uint_def be_bytes_4)
  have name: "command_name_is (JStr (ascii ''GET'')) (ascii ''GET'') = Inr True"
      "command_name_is (JStr (ascii ''GET'')) (ascii ''SET'') = Inr False"
    by (simp_all add: command_name_is_def to_upper_ascii)
  have row: "command_total ''GET'' 2 (JArr [JStr (ascii ''GET''), JBuf [0x6B]]) = Inr (Some 5)"
      "command_total ''GET'' 2 (JArr [JStr (ascii ''GET''), JBuf []]) = Inr (Some 4)"
    by (simp_all add: command_total_def pipeline_command_def command_args_def name len isCompactBinaryScalar_def nullish_def)
  have "write_fields (pipeline_header 0x82 2 @ concat (map command_fields demo_gets)) = Inr demo_body"
    by (simp add: pipeline_header_def demo_gets_def command_fields_def arguments_of_def write_fields_simps u demo_body_def)
  moreover have "fields_size (pipeline_header 0x82 2 @ concat (map command_fields demo_gets)) = Inr 15"
    by (simp add: pipeline_header_def demo_gets_def command_fields_def arguments_of_def field_size_def len)
  ultimately have "fill_buffer 15 (pipeline_header 0x82 2 @ concat (map command_fields demo_gets)) = Inr demo_body"
    by (simp only: fill_buffer_exact)
  then show ?thesis using row
    by (simp add: compactPipelinePayload_def Let_def numeral_2_eq_2 demo_gets_def arg_at_def name compactGetPipelinePayload_def
        same_command_pipeline_def minimum_fits_def compactPayloadFits_def limit checked_bytes_def after_header_def
        row assertCompactPayloadFits_def)
qed

theorem compact_pipelines_decode_witness:
  "\<exists>mode. decode_pipeline demo_body = Some (mode, map (sent_arguments mode) demo_gets)"
  using compact_pipelines_decode [OF demo_gets_built] by blast

end
