(* ===== verification/FlowQueryRequest.thy ===== *)
theory FlowQueryRequest
  imports JsObject NumberArg
begin

text \<open>
  FLOW.QUERY requests (\<open>src/src/flow-query-request.ts\<close>): the arguments built from a query and its parameters,
  and the payload built from the arguments, with the bounds on both.
\<close>

section \<open>Text\<close>

abbreviation type_error :: "string \<Rightarrow> jsval list \<Rightarrow> error" where
  "type_error msg vs \<equiv> Thrown TypeErr msg vs"

abbreviation FLOW_QUERY_MAX_BYTES :: nat where "FLOW_QUERY_MAX_BYTES \<equiv> 16384"
abbreviation FLOW_QUERY_MAX_PARAMETERS :: nat where "FLOW_QUERY_MAX_PARAMETERS \<equiv> 64"
abbreviation FLOW_QUERY_MAX_PARAMETER_NAME_BYTES :: nat where "FLOW_QUERY_MAX_PARAMETER_NAME_BYTES \<equiv> 128"
abbreviation FLOW_QUERY_MAX_PARAMETER_VALUE_BYTES :: nat where "FLOW_QUERY_MAX_PARAMETER_VALUE_BYTES \<equiv> 65535"

definition FLOW_QUERY_LANGUAGE_VERSION :: jsstr where
  "FLOW_QUERY_LANGUAGE_VERSION = ascii ''FQL1''"

definition validateUnicodeScalarText :: "jsstr \<Rightarrow> string \<Rightarrow> unit res" where
  "validateUnicodeScalarText s part =
    (if well_formed s then Inr () else Inl (type_error ''must be valid UTF-8'' [JStr (ascii part)]))"

text \<open>A decoder that refuses invalid bytes and drops a leading byte order mark.\<close>

definition fatal_decode :: "bytes \<Rightarrow> jsstr option" where
  "fatal_decode b =
    (if is_utf8 b then Some (case utf8_decode b of u # s \<Rightarrow> if u = 0xFEFF then s else u # s | [] \<Rightarrow> []) else None)"

definition commandText :: "jsval \<Rightarrow> string \<Rightarrow> jsstr res" where
  "commandText v part =
    (case v of
       JStr s \<Rightarrow> rbind (validateUnicodeScalarText s part) (\<lambda>_. Inr s)
     | JBuf b \<Rightarrow> (case fatal_decode b of Some s \<Rightarrow> Inr s
         | None \<Rightarrow> Inl (type_error ''must be valid UTF-8'' [JStr (ascii part)]))
     | JU8 b \<Rightarrow> (case fatal_decode b of Some s \<Rightarrow> Inr s
         | None \<Rightarrow> Inl (type_error ''must be valid UTF-8'' [JStr (ascii part)]))
     | _ \<Rightarrow> Inl (type_error ''must be text'' [JStr (ascii part)]))"

definition validateFlowQueryText :: "jsval \<Rightarrow> unit res" where
  "validateFlowQueryText query =
    (case query of
       JStr s \<Rightarrow>
         if trim_spaces s = [] then Inl (type_error ''FLOW.QUERY query must not be empty'' [])
         else rbind (validateUnicodeScalarText s ''FLOW.QUERY query'') (\<lambda>_.
           if length (utf8_encode s) > FLOW_QUERY_MAX_BYTES
           then Inl (type_error ''FLOW.QUERY query exceeds 16384 bytes'' []) else Inr ())
     | _ \<Rightarrow> Inl (type_error ''FLOW.QUERY query must be text'' []))"

definition is_letter_or_digit :: "16 word \<Rightarrow> bool" where
  "is_letter_or_digit u \<longleftrightarrow> 0x41 \<le> u \<and> u \<le> 0x5A \<or> 0x61 \<le> u \<and> u \<le> 0x7A \<or> is_digit u"

text \<open>\<open>PARAMETER_NAME\<close> and \<open>INDEX_ID\<close>.\<close>

definition name_unit :: "16 word \<Rightarrow> bool" where
  "name_unit u \<longleftrightarrow> is_letter_or_digit u \<or> u \<in> {0x5F, 0x2E, 0x2D}"

definition index_unit :: "16 word \<Rightarrow> bool" where
  "index_unit u \<longleftrightarrow> name_unit u \<or> u = 0x3A"

definition validateFlowQueryIndexId :: "jsval \<Rightarrow> unit res" where
  "validateFlowQueryIndexId v =
    (case v of
       JStr s \<Rightarrow> if 1 \<le> length s \<and> length s \<le> 64 \<and> list_all index_unit s then Inr ()
         else Inl (type_error ''query index id must be 1..64 ASCII letters, digits, underscores, dashes, colons or dots'' [])
     | _ \<Rightarrow> Inl (type_error ''query index id must be 1..64 ASCII letters, digits, underscores, dashes, colons or dots'' []))"

section \<open>Keywords\<close>

definition isFlowQueryAsciiWhitespaceCode :: "16 word \<Rightarrow> bool" where
  "isFlowQueryAsciiWhitespaceCode code \<longleftrightarrow> code = 0x20 \<or> code = 0x09 \<or> code = 0x0A \<or> code = 0x0D"

definition trimFlowQueryAsciiWhitespaceStart :: "jsstr \<Rightarrow> jsstr" where
  "trimFlowQueryAsciiWhitespaceStart value = dropWhile isFlowQueryAsciiWhitespaceCode value"

definition trimFlowQueryAsciiWhitespace :: "jsstr \<Rightarrow> jsstr" where
  "trimFlowQueryAsciiWhitespace value =
    rev (dropWhile isFlowQueryAsciiWhitespaceCode (rev (trimFlowQueryAsciiWhitespaceStart value)))"

definition upper_letter :: "16 word \<Rightarrow> 16 word" where
  "upper_letter u = (if 0x61 \<le> u \<and> u \<le> 0x7A then u - 0x20 else u)"

definition matchesFlowQueryAsciiKeyword :: "jsstr \<Rightarrow> int \<Rightarrow> jsstr \<Rightarrow> bool" where
  "matchesFlowQueryAsciiKeyword value offset keyword =
    (if offset < 0 \<or> offset + int (length keyword) > int (length value) then False
     else map upper_letter (take (length keyword) (drop (nat offset) value)) = keyword)"

definition hasFlowExplainPrefix :: "jsstr \<Rightarrow> bool" where
  "hasFlowExplainPrefix query =
    (let source = trimFlowQueryAsciiWhitespaceStart query
     in matchesFlowQueryAsciiKeyword source 0 (ascii ''EXPLAIN'') \<and>
        (length source = 7 \<or> isFlowQueryAsciiWhitespaceCode (source ! 7)))"

section \<open>Parameters\<close>

definition validateFlowQueryParameterName :: "jsstr \<Rightarrow> unit res" where
  "validateFlowQueryParameterName name =
    rbind (validateUnicodeScalarText name ''FLOW.QUERY parameter name'') (\<lambda>_.
    let n = length (utf8_encode name) in
    if n = 0 \<or> n > FLOW_QUERY_MAX_PARAMETER_NAME_BYTES \<or> \<not> list_all name_unit name
    then Inl (type_error ''FLOW.QUERY parameter names must be 1..128 ASCII letters, digits, underscores, dots or dashes'' [])
    else Inr ())"

definition validateParameterValueSize :: "nat \<Rightarrow> jsstr \<Rightarrow> unit res" where
  "validateParameterValueSize n name =
    (if n > FLOW_QUERY_MAX_PARAMETER_VALUE_BYTES
     then Inl (type_error ''FLOW.QUERY parameter exceeds 65535 bytes'' [JStr name]) else Inr ())"

definition normalizeFlowQueryParameter :: "jsval \<Rightarrow> jsstr \<Rightarrow> jsval res" where
  "normalizeFlowQueryParameter v name =
    (let refused = Inl (type_error
       ''FLOW.QUERY parameter must be text, bytes, boolean, a finite float, or a signed 64-bit integer'' [JStr name])
     in case v of
       JStr s \<Rightarrow> rbind (validateUnicodeScalarText s ''FLOW.QUERY parameter'') (\<lambda>_.
         rbind (validateParameterValueSize (length (utf8_encode s)) name) (\<lambda>_. Inr v))
     | JBuf b \<Rightarrow> rbind (validateParameterValueSize (length b) name) (\<lambda>_. Inr v)
     | JU8 b \<Rightarrow> rbind (validateParameterValueSize (length b) name) (\<lambda>_. Inr (JBuf b))
     | JBool _ \<Rightarrow> Inr v
     | JBig i \<Rightarrow> if MIN_I64 \<le> i \<and> i \<le> MAX_I64 then Inr v else refused
     | JInt i \<Rightarrow> if safe_int i then Inr v else refused
     | JFloat _ \<Rightarrow> if is_finite v then Inr v else refused
     | _ \<Rightarrow> refused)"

text \<open>\<open>Array.prototype.sort\<close> on strings: by code units, stable.\<close>

fun units_le :: "jsstr \<Rightarrow> jsstr \<Rightarrow> bool" where
  "units_le [] t = True"
| "units_le (u # s) [] = False"
| "units_le (u # s) (v # t) = (u < v \<or> u = v \<and> units_le s t)"

fun insert_name :: "jsstr \<Rightarrow> jsstr list \<Rightarrow> jsstr list" where
  "insert_name x [] = [x]"
| "insert_name x (y # ys) = (if units_le x y then x # y # ys else y # insert_name x ys)"

definition sort_names :: "jsstr list \<Rightarrow> jsstr list" where
  "sort_names xs = foldr insert_name xs []"

definition flowQueryParameterEntries :: "jsval \<Rightarrow> (jsstr \<times> jsval) list res" where
  "flowQueryParameterEntries params =
    (case params of
       JObj props \<Rightarrow>
         if length props > FLOW_QUERY_MAX_PARAMETERS
         then Inl (type_error ''FLOW.QUERY accepts at most 64 named parameters'' [])
         else rmap (\<lambda>name.
           rbind (validateFlowQueryParameterName name) (\<lambda>_.
           rbind (normalizeFlowQueryParameter (case own name props of Some v \<Rightarrow> v | None \<Rightarrow> JUndef) name) (\<lambda>v.
           Inr (name, v)))) (sort_names (map fst props))
     | _ \<Rightarrow> Inl (type_error ''FLOW.QUERY params must be a plain object'' []))"

section \<open>Requests\<close>

definition flowQueryArgs :: "jsval \<Rightarrow> jsval \<Rightarrow> jsval list res" where
  "flowQueryArgs query params =
    rbind (validateFlowQueryText query) (\<lambda>_.
    rbind (flowQueryParameterEntries (if params = JUndef then JObj [] else params)) (\<lambda>entries.
    Inr ([JStr (ascii ''FLOW.QUERY''), JStr FLOW_QUERY_LANGUAGE_VERSION, query] @
      concat (map (\<lambda>(name, v). [JStr name, v]) entries))))"

fun query_params :: "jsval list \<Rightarrow> js_object \<Rightarrow> js_object res" where
  "query_params (n # v # rest) params =
    rbind (commandText n ''FLOW.QUERY parameter name'') (\<lambda>name.
    rbind (validateFlowQueryParameterName name) (\<lambda>_.
    if own name params \<noteq> None then Inl (type_error ''FLOW.QUERY parameter is duplicated'' [JStr name])
    else rbind (normalizeFlowQueryParameter v name) (\<lambda>w. query_params rest (set_own params name w))))"
| "query_params _ params = Inr params"

definition flowQueryPayload :: "jsval list \<Rightarrow> jsval res" where
  "flowQueryPayload args =
    (if length args < 2 then Inl (type_error ''FLOW.QUERY requires version and query'' [])
     else if (length args - 2) mod 2 \<noteq> 0 then Inl (type_error ''FLOW.QUERY parameters must be name/value pairs'' [])
     else rbind (commandText (args ! 0) ''FLOW.QUERY version'') (\<lambda>version.
       if version \<noteq> FLOW_QUERY_LANGUAGE_VERSION then Inl (type_error ''FLOW.QUERY requires version FQL1'' [])
       else rbind (commandText (args ! 1) ''FLOW.QUERY query'') (\<lambda>query.
         rbind (validateFlowQueryText (JStr query)) (\<lambda>_.
         if (length args - 2) div 2 > FLOW_QUERY_MAX_PARAMETERS
         then Inl (type_error ''FLOW.QUERY accepts at most 64 named parameters'' [])
         else rbind (query_params (drop 2 args) []) (\<lambda>params.
           Inr (JObj (object_of ([(''version'', JStr version), (''query'', JStr query)] @
             (if (length args - 2) div 2 = 0 then [] else [(''params'', JObj params)])))))))))"

section \<open>Properties\<close>

lemma set_insert_name: "set (insert_name x ys) = insert x (set ys)"
  by (induction ys) auto

lemma distinct_insert_name: "distinct (insert_name x ys) \<longleftrightarrow> distinct (x # ys)"
  by (induction ys) (auto simp: set_insert_name)

lemma sort_names_set: "set (sort_names xs) = set xs" "distinct (sort_names xs) = distinct xs"
    "length (sort_names xs) = length xs"
proof -
  have l: "length (insert_name x ys) = Suc (length ys)" for x ys by (induction ys) auto
  show s: "set (sort_names xs) = set xs" by (induction xs) (auto simp: sort_names_def set_insert_name)
  show "length (sort_names xs) = length xs" by (induction xs) (auto simp: sort_names_def l)
  show "distinct (sort_names xs) = distinct xs"
  proof (induction xs)
    case (Cons x xs)
    have "set (sort_names xs) = set xs" for xs by (induction xs) (auto simp: sort_names_def set_insert_name)
    with Cons show ?case by (simp add: sort_names_def distinct_insert_name) 
  qed (simp add: sort_names_def)
qed

text \<open>A normalized parameter is normal.\<close>

lemma normalize_parameter_idem:
  "normalizeFlowQueryParameter v name = Inr w \<Longrightarrow> normalizeFlowQueryParameter w name = Inr w"
  by (auto simp: normalizeFlowQueryParameter_def Let_def split: jsval.splits if_splits)

lemma parameter_text:
  "validateFlowQueryParameterName name = Inr () \<Longrightarrow> commandText (JStr name) part = Inr name"
  by (auto simp: validateFlowQueryParameterName_def validateUnicodeScalarText_def commandText_def split: if_splits)

lemma query_params_entries:
  assumes "\<And>name w. (name, w) \<in> set entries \<Longrightarrow> validateFlowQueryParameterName name = Inr () \<and>
      normalizeFlowQueryParameter w name = Inr w"
    and "distinct (map fst entries)" "\<And>name. name \<in> set (map fst entries) \<Longrightarrow> own name params = None"
  shows "\<exists>params'. query_params (concat (map (\<lambda>(name, v). [JStr name, v]) entries)) params = Inr params' \<and>
    (\<forall>k. own k params' = (case map_of entries k of Some v \<Rightarrow> Some v | None \<Rightarrow> own k params))"
  using assms
proof (induction entries arbitrary: params)
  case (Cons e entries)
  obtain name w where e: "e = (name, w)" by (cases e)
  have ok: "validateFlowQueryParameterName name = Inr ()" "normalizeFlowQueryParameter w name = Inr w"
    using Cons.prems(1) [of name w] e by auto
  have fresh: "own name params = None" using Cons.prems(3) e by simp
  have "\<exists>params'. query_params (concat (map (\<lambda>(name, v). [JStr name, v]) entries)) (set_own params name w) = Inr params' \<and>
      (\<forall>k. own k params' = (case map_of entries k of Some v \<Rightarrow> Some v | None \<Rightarrow> own k (set_own params name w)))"
    by (rule Cons.IH) (use Cons.prems e in auto)
  then obtain params' where p: "query_params (concat (map (\<lambda>(name, v). [JStr name, v]) entries)) (set_own params name w) = Inr params'"
    "\<And>k. own k params' = (case map_of entries k of Some v \<Rightarrow> Some v | None \<Rightarrow> own k (set_own params name w))" by blast
  have "map_of entries name = None" using Cons.prems(2) e by (simp add: map_of_eq_None_iff)
  then have "own k params' = (case map_of (e # entries) k of Some v \<Rightarrow> Some v | None \<Rightarrow> own k params)" for k
    by (auto simp: p(2) e split: option.split)
  with p(1) ok fresh show ?case by (simp add: e parameter_text)
qed simp

definition parameter_entry :: "js_object \<Rightarrow> jsstr \<Rightarrow> (jsstr \<times> jsval) res" where
  "parameter_entry props name =
    rbind (validateFlowQueryParameterName name) (\<lambda>_.
    rbind (normalizeFlowQueryParameter (case own name props of Some v \<Rightarrow> v | None \<Rightarrow> JUndef) name) (\<lambda>v.
    Inr (name, v)))"

lemma entries_spec:
  assumes "rmap (parameter_entry props) names = Inr entries"
  shows "map fst entries = names"
    and "(name, w) \<in> set entries \<Longrightarrow> validateFlowQueryParameterName name = Inr () \<and>
      normalizeFlowQueryParameter (case own name props of Some v \<Rightarrow> v | None \<Rightarrow> JUndef) name = Inr w"
  using assms by (induction names arbitrary: entries) (auto simp: parameter_entry_def)

lemma version_well_formed: "well_formed FLOW_QUERY_LANGUAGE_VERSION"
  by (rule ascii_well_formed) (simp add: FLOW_QUERY_LANGUAGE_VERSION_def ascii_def)

text \<open>C15. A query and its parameters arrive: the arguments built from them are accepted by the payload builder,
  and the payload has the version, the very text of the query, and for every parameter its normalized value
  under its name and no other name; the text is within 16 KiB and there are at most 64 parameters.\<close>

theorem flow_query_roundtrip:
  assumes "flowQueryArgs (JStr query) (JObj props) = Inr args" "distinct (map fst props)"
  shows "length (utf8_encode query) \<le> FLOW_QUERY_MAX_BYTES \<and> length props \<le> FLOW_QUERY_MAX_PARAMETERS \<and>
    (\<exists>payload params. flowQueryPayload (tl args) = Inr (JObj payload) \<and>
      own (ascii ''version'') payload = Some (JStr FLOW_QUERY_LANGUAGE_VERSION) \<and>
      own (ascii ''query'') payload = Some (JStr query) \<and>
      own (ascii ''params'') payload = (if props = [] then None else Some (JObj params)) \<and>
      (\<forall>name. map_option Inr (own name params) =
        map_option (\<lambda>v. normalizeFlowQueryParameter v name) (own name props)))"
proof -
  from assms(1) obtain entries where query_ok: "validateFlowQueryText (JStr query) = Inr ()"
      and entries: "flowQueryParameterEntries (JObj props) = Inr entries"
      and args: "args = [JStr (ascii ''FLOW.QUERY''), JStr FLOW_QUERY_LANGUAGE_VERSION, JStr query] @
        concat (map (\<lambda>(name, v). [JStr name, v]) entries)"
    by (auto simp: flowQueryArgs_def)
  from entries have few: "length props \<le> FLOW_QUERY_MAX_PARAMETERS"
      and rows: "rmap (parameter_entry props) (sort_names (map fst props)) = Inr entries"
    by (auto simp: flowQueryParameterEntries_def parameter_entry_def [abs_def] split: if_splits)
  note spec = entries_spec [OF rows]
  have names: "distinct (map fst entries)" "set (map fst entries) = set (map fst props)" "length entries = length props"
    using assms(2) spec(1) sort_names_set [of "map fst props"] by (simp_all del: set_map, metis length_map)
  have rest: "drop 2 (tl args) = concat (map (\<lambda>(name, v). [JStr name, v]) entries)" by (simp add: args)
  have len: "length (concat (map (\<lambda>(name, v). [JStr name, v]) entries)) = 2 * length props"
    unfolding names(3) [symmetric] by (induction entries) auto
  have "\<exists>params. query_params (concat (map (\<lambda>(name, v). [JStr name, v]) entries)) [] = Inr params \<and>
      (\<forall>k. own k params = (case map_of entries k of Some v \<Rightarrow> Some v | None \<Rightarrow> own k []))"
  proof (rule query_params_entries)
    show "validateFlowQueryParameterName name = Inr () \<and> normalizeFlowQueryParameter w name = Inr w"
      if "(name, w) \<in> set entries" for name w
      using spec(2) [OF that] normalize_parameter_idem by blast
  qed (use names in auto)
  then obtain params where params: "query_params (concat (map (\<lambda>(name, v). [JStr name, v]) entries)) [] = Inr params"
      "\<And>k. own k params = (case map_of entries k of Some v \<Rightarrow> Some v | None \<Rightarrow> own k [])" by blast
  have own_params: "own k params = map_of entries k" for k using params(2) [of k] by (cases "map_of entries k") simp_all
  have q: "length (utf8_encode query) \<le> FLOW_QUERY_MAX_BYTES" "well_formed query"
    using query_ok by (auto simp: validateFlowQueryText_def validateUnicodeScalarText_def split: if_splits)
  have version: "commandText (JStr FLOW_QUERY_LANGUAGE_VERSION) part = Inr FLOW_QUERY_LANGUAGE_VERSION" for part
    by (simp add: commandText_def validateUnicodeScalarText_def version_well_formed)
  have each: "map_option Inr (own name params) = map_option (\<lambda>v. normalizeFlowQueryParameter v name) (own name props)" for name
  proof (cases "own name props")
    case None
    then have "name \<notin> set (map fst entries)" by (simp only: names(2) own_None [symmetric])
    with None show ?thesis by (simp add: own_params map_of_eq_None_iff)
  next
    case (Some v)
    then have "name \<in> set (map fst entries)" unfolding names(2) own_key by simp
    then obtain w where w: "map_of entries name = Some w" by (metis map_of_eq_None_iff not_None_eq set_map)
    from spec(2) [OF map_of_SomeD [OF w]] Some show ?thesis by (simp add: own_params w)
  qed
  define payload where "payload = object_of ([(''version'', JStr FLOW_QUERY_LANGUAGE_VERSION), (''query'', JStr query)] @
      (if length props = 0 then [] else [(''params'', JObj params)]))"
  have "flowQueryPayload (tl args) = Inr (JObj payload)"
    using query_ok few q(2) len params(1)
    by (simp add: flowQueryPayload_def rest args version_well_formed commandText_def validateUnicodeScalarText_def payload_def)
  moreover have "own (ascii ''version'') payload = Some (JStr FLOW_QUERY_LANGUAGE_VERSION)"
      "own (ascii ''query'') payload = Some (JStr query)"
      "own (ascii ''params'') payload = (if props = [] then None else Some (JObj params))"
    by (simp_all add: payload_def object_of_def own_Cons)
  ultimately show ?thesis using q(1) few each by blast
qed

definition demo_query :: jsstr where
  "demo_query = ascii ''FROM a''"

lemma demo_query_args: "flowQueryArgs (JStr demo_query) (JObj []) =
    Inr [JStr (ascii ''FLOW.QUERY''), JStr FLOW_QUERY_LANGUAGE_VERSION, JStr demo_query]"
proof -
  have "trim_spaces demo_query \<noteq> []" "well_formed demo_query" "length (utf8_encode demo_query) \<le> FLOW_QUERY_MAX_BYTES"
    by code_simp+
  then show ?thesis
    by (simp add: flowQueryArgs_def validateFlowQueryText_def validateUnicodeScalarText_def flowQueryParameterEntries_def
        sort_names_def)
qed

theorem flow_query_roundtrip_witness:
  "\<exists>payload. flowQueryPayload [JStr FLOW_QUERY_LANGUAGE_VERSION, JStr demo_query] = Inr (JObj payload) \<and>
    own (ascii ''query'') payload = Some (JStr demo_query) \<and> own (ascii ''params'') payload = None"
  using flow_query_roundtrip [OF demo_query_args] by auto

end
