(* ===== verification/ProtocolCommand.thy ===== *)
theory ProtocolCommand
  imports FlowCommands CompactRequest FlowQueryRequest KeyValueCommands KeySlots
begin

text \<open>
  From the arguments of a command to the request on the wire (\<open>buildProtocolCommand\<close> and
  \<open>tryPipelineCommand\<close> of \<open>src/src/protocol.ts\<close>). The outer option is \<open>None\<close> when the code does not return,
  which only the expansion of the states of a claim can cause.
\<close>

section \<open>One command\<close>

definition control_command :: "string \<Rightarrow> (string \<times> jsval) list \<Rightarrow> protocol_command" where
  "control_command name entries = (plain_command (command_opcode name) (JObj (object_of entries)))\<lparr>pc_lane_id := Some 0\<rparr>"

text \<open>\<open>builder(commandArgs) ?? commandExec(args)\<close>.\<close>

definition or_exec :: "jsval list \<Rightarrow> protocol_command option res \<Rightarrow> protocol_command res" where
  "or_exec args r = rbind r (\<lambda>c. case c of Some command \<Rightarrow> Inr command | None \<Rightarrow> commandExec args)"

definition every_binary :: "jsval list \<Rightarrow> bool" where
  "every_binary args = list_all (\<lambda>v. v = JHole \<or> isBinaryCommandArgument v) args"

text \<open>\<open>asText(value).toUpperCase() === name\<close>.\<close>

definition upper_text_is :: "jsval \<Rightarrow> string \<Rightarrow> bool res" where
  "upper_text_is v name = rbind (as_text v) (\<lambda>t. Inr (to_upper t = ascii name))"

text \<open>The commands of the connection itself: \<open>None\<close> for any other.\<close>

definition build_control :: "jsstr \<Rightarrow> jsval list \<Rightarrow> jsval list \<Rightarrow> protocol_command option res" where
  "build_control command args rest =
    (let is = (\<lambda>name. command = ascii name); n = length rest
     in if is ''COMMAND_EXEC'' \<and> n \<ge> 1 then rbind (commandExec rest) (\<lambda>c. Inr (Some c))
        else if is ''HELLO'' \<or> is ''STARTUP'' \<or> is ''WINDOW_UPDATE'' then
          rbind (optionMap rest) (\<lambda>payload.
          case payload of
            None \<Rightarrow> rbind (commandExec args) (\<lambda>c. Inr (Some c))
          | Some kvs \<Rightarrow> Inr (Some ((plain_command
              (command_opcode (if is ''HELLO'' then ''HELLO'' else if is ''STARTUP'' then ''STARTUP'' else ''WINDOW_UPDATE''))
              (JObj kvs))\<lparr>pc_lane_id := Some 0\<rparr>)))
        else if is ''AUTH'' \<and> (n = 1 \<or> n = 2) then
          Inr (Some (control_command ''AUTH''
            (if n = 1 then [(''password'', arg_at rest 0), (''username'', JStr (ascii ''default''))]
             else [(''password'', arg_at rest 1), (''username'', arg_at rest 0)])))
        else if is ''PING'' \<and> n \<le> 1 then
          Inr (Some (control_command ''PING'' (if n = 0 then [] else [(''message'', arg_at rest 0)])))
        else if is ''OPTIONS'' \<and> n = 0 then Inr (Some (control_command ''OPTIONS'' []))
        else if is ''BACKPRESSURE'' \<and> n = 0 then Inr (Some (control_command ''BACKPRESSURE'' []))
        else if is ''QUIT'' \<and> n = 0 then Inr (Some (control_command ''QUIT'' []))
        else if is ''ROUTE'' \<and> n = 1 then Inr (Some (control_command ''ROUTE'' [(''key'', arg_at rest 0)]))
        else if is ''ROUTE_BATCH'' then Inr (Some (control_command ''ROUTE_BATCH'' [(''keys'', JArr rest)]))
        else if is ''SHARDS'' \<and> n = 0 then Inr (Some (control_command ''SHARDS'' []))
        else rbind (if is ''CLIENT'' then upper_text_is (arg_at rest 0) ''SETNAME'' else Inr False) (\<lambda>setname.
          if setname \<and> n = 2 then Inr (Some (control_command ''CLIENT.SETNAME'' [(''name'', arg_at rest 1)]))
          else if is ''CLIENT.SETNAME'' \<and> n = 1 then
            Inr (Some (control_command ''CLIENT.SETNAME'' [(''name'', arg_at rest 0)]))
          else rbind (if is ''CLIENT'' then upper_text_is (arg_at rest 0) ''INFO'' else Inr False) (\<lambda>info.
            if info \<and> n = 1 \<or> is ''CLIENT.INFO'' \<and> n = 0 then Inr (Some (control_command ''CLIENT.INFO'' []))
            else Inr None)))"

text \<open>The key/value commands: \<open>None\<close> for any other.\<close>

definition build_kv :: "jsstr \<Rightarrow> jsval list \<Rightarrow> jsval list \<Rightarrow> jsval \<Rightarrow> bool \<Rightarrow> protocol_command option res" where
  "build_kv command args rest limit allow_custom =
    (let is = (\<lambda>name. command = ascii name); n = length rest;
         some = (\<lambda>r. rbind r (\<lambda>c. Inr (Some c)))
     in if is ''GET'' \<and> n = 1 then
          some (if isBinaryCommandArgument (arg_at rest 0)
            then Inr (plain_command (command_opcode ''GET'') (JObj (object_of [(''key'', arg_at rest 0)])))
            else commandExec args)
        else if is ''SET'' \<and> n \<ge> 2 then
          some (case stringSetPayload rest of
              None \<Rightarrow> commandExec args
            | Some payload \<Rightarrow> Inr (with_response_items 1 (plain_command (command_opcode ''SET'') (JObj payload))))
        else if is ''MGET'' \<and> n > 0 then
          some (rbind (if allow_custom then compactKeyPipelinePayload (command_opcode ''MGET'') rest 2 limit else Inr None) (\<lambda>r.
            case r of
              Some c \<Rightarrow> Inr (with_response_items n c)
            | None \<Rightarrow>
                if every_binary rest
                then Inr (with_response_items n (plain_command (command_opcode ''MGET'') (JObj (object_of [(''keys'', JArr rest)]))))
                else commandExec args))
        else if is ''MSET'' \<and> n \<ge> 2 \<and> even n then
          some (rbind (if allow_custom then compactMsetPayload rest limit else Inr None) (\<lambda>r.
            case r of
              Some c \<Rightarrow> Inr (with_response_items 1 c)
            | None \<Rightarrow> rbind (typedKeyValuePairs rest) (\<lambda>pairs.
                case pairs of
                  None \<Rightarrow> commandExec args
                | Some ps \<Rightarrow> Inr (with_response_items 1
                    (plain_command (command_opcode ''MSET'') (JObj (object_of [(''pairs'', JArr ps)])))))))
        else if is ''DEL'' \<and> n > 0 then
          some (if every_binary rest
            then Inr (plain_command (command_opcode ''DEL'') (JObj (object_of [(''keys'', JArr rest)])))
            else commandExec args)
        else collectionProtocolCommand command rest)"

definition retry_allowed :: catalog where
  "retry_allowed = [''FENCING'', ''NOW'', ''PARTITION'', ''ERROR'', ''PAYLOAD'', ''RUN_AT'', ''STATE_META'',
    ''VALUE'', ''VALUE_REF'', ''DROP_VALUE'', ''OVERRIDE_VALUE'', ''ATTRIBUTE_MERGE'', ''ATTRIBUTE_DELETE'']"

definition fail_allowed :: catalog where
  "fail_allowed = [''FENCING'', ''NOW'', ''PARTITION'', ''ERROR'', ''PAYLOAD'', ''TTL'', ''STATE_META'',
    ''VALUE'', ''VALUE_REF'', ''DROP_VALUE'', ''OVERRIDE_VALUE'', ''ATTRIBUTE_MERGE'', ''ATTRIBUTE_DELETE'']"

definition flow_cancel_allowed :: catalog where
  "flow_cancel_allowed = [''FENCING'', ''NOW'', ''LEASE_TOKEN'', ''PARTITION'', ''REASON'', ''TTL'', ''STATE_META'',
    ''VALUE'', ''VALUE_REF'', ''DROP_VALUE'', ''OVERRIDE_VALUE'', ''ATTRIBUTE_MERGE'', ''ATTRIBUTE_DELETE'']"

text \<open>The Flow commands but FLOW.CLAIM_DUE, and every other command.\<close>

definition build_flow :: "jsstr \<Rightarrow> jsval list \<Rightarrow> jsval list \<Rightarrow> jsval \<Rightarrow> bool \<Rightarrow> protocol_command res" where
  "build_flow command args rest limit allow_custom =
    (let is = (\<lambda>name. command = ascii name); otherwise = or_exec args
     in if is ''FLOW.HISTORY'' then otherwise (flowHistoryPayload rest)
        else if is ''FLOW.QUERY'' then
          rbind (flowQueryPayload rest) (\<lambda>payload. Inr (plain_command (command_opcode ''FLOW.QUERY'') payload))
        else if is ''FLOW.POLICY.SET'' then otherwise (flowPolicySetPayload rest)
        else if is ''FLOW.POLICY.GET'' then otherwise (flowPolicyGetPayload rest)
        else (case find (\<lambda>entry. command = ascii (fst entry)) FLOW_ADMIN_COMMANDS of
          Some (name, leading) \<Rightarrow> otherwise (flowAdminPayload (command_opcode name) rest leading)
        | None \<Rightarrow>
        if is ''FLOW.CREATE'' then otherwise (flowCreatePayload rest)
        else if is ''FLOW.GET'' then otherwise (flowGetPayload rest)
        else if is ''FLOW.VALUE.PUT'' then otherwise (flowValuePutPayload rest)
        else if is ''FLOW.VALUE.MGET'' then otherwise (flowValueMGetPayload rest limit allow_custom)
        else if is ''FLOW.CREATE_MANY'' then otherwise (flowCreateManyPayload rest limit allow_custom)
        else if is ''FLOW.RECLAIM'' then otherwise (flowReclaimPayload rest)
        else if is ''FLOW.COMPLETE'' then otherwise (flowCompletePayload rest)
        else if is ''FLOW.TRANSITION'' then otherwise (flowTransitionPayload rest)
        else if is ''FLOW.RETRY'' then otherwise (flowLeaseMutationPayload ''FLOW.RETRY'' rest retry_allowed)
        else if is ''FLOW.FAIL'' then otherwise (flowLeaseMutationPayload ''FLOW.FAIL'' rest fail_allowed)
        else if is ''FLOW.SIGNAL'' then otherwise (flowSignalPayload rest)
        else if is ''FLOW.CANCEL'' then flowCommandExecWithRouting command rest 1 flow_cancel_allowed
        else if is ''FLOW.EXTEND_LEASE'' then
          flowCommandExecWithRouting command rest 2 [''FENCING'', ''LEASE_MS'', ''NOW'', ''PARTITION'', ''RETURN'']
        else if is ''FLOW.REWIND'' then
          flowCommandExecWithRouting command rest 1 [''NOW'', ''PARTITION'', ''TO_EVENT'', ''EXPECT_STATE'', ''REASON'']
        else if is ''FLOW.COMPLETE_MANY'' then otherwise (flowClaimedManyPayload ''FLOW.COMPLETE_MANY'' rest limit allow_custom)
        else if is ''FLOW.RETRY_MANY'' then otherwise (flowClaimedManyPayload ''FLOW.RETRY_MANY'' rest limit allow_custom)
        else if is ''FLOW.FAIL_MANY'' then otherwise (flowClaimedManyPayload ''FLOW.FAIL_MANY'' rest limit allow_custom)
        else if is ''FLOW.CANCEL_MANY'' then
          otherwise (if allow_custom then compactFlowCancelManyPayload rest limit else Inr None)
        else if is ''FLOW.TRANSITION_MANY'' then otherwise (flowTransitionManyPayload rest limit allow_custom)
        else if is ''FLOW.SPAWN_CHILDREN'' then otherwise (flowSpawnChildrenPayload rest)
        else if is ''FLOW.START_AND_CLAIM'' then
          otherwise (flowAdminPayload (command_opcode ''FLOW.START_AND_CLAIM'') rest [''id''])
        else if is ''FLOW.STEP_CONTINUE'' then
          otherwise (flowAdminPayload (command_opcode ''FLOW.STEP_CONTINUE'') rest
            [''id'', ''lease_token'', ''from_state'', ''to_state''])
        else if is ''FLOW.RUN_STEPS_MANY'' then
          otherwise (flowAdminPayload (command_opcode ''FLOW.RUN_STEPS_MANY'') rest [])
        else commandExec args))"

text \<open>The checks, then the commands of the connection and the key/value commands; the name is kept for the rest.\<close>

definition build_ordinary :: "jsval list \<Rightarrow> jsval \<Rightarrow> bool \<Rightarrow> (jsstr \<times> protocol_command option) res" where
  "build_ordinary args limit allow_custom =
    rbind (as_text (arg_at args 0)) (\<lambda>t.
    let command = to_upper t; rest = tl args in
    rbind (assertNormalizedNotPinned args (Some command)) (\<lambda>_.
    rbind (if command = ascii ''MSET'' \<or> command = ascii ''MSETNX''
      then assert_kv_shares_slot False args (JStr command) else Inr False) (\<lambda>_.
    rbind (build_control command args rest) (\<lambda>control.
    case control of
      Some c \<Rightarrow> Inr (command, Some c)
    | None \<Rightarrow> rbind (build_kv command args rest limit allow_custom) (\<lambda>kv. Inr (command, kv))))))"

definition buildProtocolCommand :: "jsval list \<Rightarrow> jsval \<Rightarrow> bool \<Rightarrow> protocol_command res option" where
  "buildProtocolCommand args limit allow_custom =
    (if args = [] then Some (Inl (ferric_error ''command requires at least one argument''))
     else case build_ordinary args limit allow_custom of
       Inl e \<Rightarrow> Some (Inl e)
     | Inr (command, Some c) \<Rightarrow> Some (Inr c)
     | Inr (command, None) \<Rightarrow>
         if command = ascii ''FLOW.CLAIM_DUE'' then
           map_option (or_exec args) (flowClaimDuePayload (tl args) limit allow_custom)
         else Some (build_flow command args (tl args) limit allow_custom))"

section \<open>Pipelines\<close>

definition is_zero :: "jsval \<Rightarrow> bool" where
  "is_zero v \<longleftrightarrow> v = JInt 0 \<or> v = JFloat 0x8000000000000000"

text \<open>The sum of two durations, which are not negative.\<close>

definition add_number :: "jsval \<Rightarrow> jsval \<Rightarrow> jsval" where
  "add_number a b =
    (case (number_ratio a, number_ratio b) of
       ((_, n, d), (_, m, e)) \<Rightarrow> double_of_ratio False (n * e + m * d) (d * e))"

text \<open>\<open>pipelineBlockMs\<close> after one more command.\<close>

definition add_block_ms :: "jsval option \<Rightarrow> jsval option \<Rightarrow> jsval option" where
  "add_block_ms block command_block =
    (case command_block of
       None \<Rightarrow> block
     | Some ms \<Rightarrow>
         if is_zero ms then Some (JInt 0)
         else (case block of
             None \<Rightarrow> Some (min_safe (add_number (JInt 0) ms))
           | Some total_ms \<Rightarrow> if is_zero total_ms then block else Some (min_safe (add_number total_ms ms))))"

fun build_all :: "jsval list \<Rightarrow> jsval \<Rightarrow> protocol_command list res option" where
  "build_all [] limit = Some (Inr [])"
| "build_all (v # vs) limit =
    (case command_args v of
       Inl e \<Rightarrow> Some (Inl e)
     | Inr args \<Rightarrow>
         (case buildProtocolCommand args limit False of
            None \<Rightarrow> None
          | Some (Inl e) \<Rightarrow> Some (Inl e)
          | Some (Inr c) \<Rightarrow>
              (case build_all vs limit of
                 None \<Rightarrow> None
               | Some (Inl e) \<Rightarrow> Some (Inl e)
               | Some (Inr cs) \<Rightarrow> Some (Inr (c # cs)))))"

text \<open>The arguments of a command that was found to be an array.\<close>

definition args_of :: "jsval \<Rightarrow> jsval list" where
  "args_of v = (case v of JArr c \<Rightarrow> c | _ \<Rightarrow> [])"

text \<open>A command of the pipeline, and whether it keeps the pipeline from being built.\<close>

definition pipeline_protocol :: "jsval list \<Rightarrow> protocol_command \<Rightarrow> (protocol_command \<times> bool) res" where
  "pipeline_protocol original protocol =
    rbind (case pc_flags protocol of
        None \<Rightarrow> Inr protocol
      | Some flags \<Rightarrow> if flags = 0 then Inr protocol else commandExec original) (\<lambda>c.
    rbind (if commandMutatesConnectionState original then Inr True else isConnectionBlockingCommand original) (\<lambda>sensitive.
    Inr (c, sensitive \<or> pc_opcode protocol < COMMAND_EXEC_OPCODE)))"

definition pipeline_entry :: "nat \<Rightarrow> protocol_command \<Rightarrow> jsval" where
  "pipeline_entry i c =
    JObj (object_of [(''body'', pc_payload c),
      (''lane_id'', JInt (int (case pc_lane_id c of Some l \<Rightarrow> l | None \<Rightarrow> lane_for_opcode (pc_opcode c)))),
      (''opcode'', JInt (int (pc_opcode c))), (''request_id'', JInt (int i + 1))])"

definition pipeline_request :: "protocol_command list \<Rightarrow> protocol_command" where
  "pipeline_request cs =
    (plain_command (command_opcode ''PIPELINE'')
      (JObj (object_of [(''atomicity'', JStr (ascii ''none'')),
        (''commands'', JArr (map (\<lambda>i. pipeline_entry i (cs ! i)) [0..<length cs])),
        (''return'', JStr (ascii ''compact''))])))
    \<lparr>pc_response_items := Some (length cs),
     pc_pipeline_modes := (if list_ex (\<lambda>c. pc_claim_mode c \<noteq> None) cs then Some (map pc_claim_mode cs) else None),
     pc_server_block_ms := fold (\<lambda>c block. add_block_ms block (pc_server_block_ms c)) cs None\<rparr>"

definition tryPipelineCommand ::
  "jsval list \<Rightarrow> jsval \<Rightarrow> bool \<Rightarrow> bool \<Rightarrow> protocol_command option res option" where
  "tryPipelineCommand commands limit allow_xadd allow_publish =
    (case compactPipelinePayload commands limit allow_xadd allow_publish of
       Inl e \<Rightarrow> Some (Inl e)
     | Inr (Some out) \<Rightarrow> Some (Inr (Some (with_response_items (length commands)
         ((plain_command (command_opcode ''PIPELINE'') (JBuf out))\<lparr>pc_flags := Some FLAG_CUSTOM_PAYLOAD\<rparr>))))
     | Inr None \<Rightarrow>
         (case build_all commands limit of
            None \<Rightarrow> None
          | Some (Inl e) \<Rightarrow> Some (Inl e)
          | Some (Inr protocols) \<Rightarrow>
              Some (rbind (rmap (\<lambda>i. pipeline_protocol (args_of (commands ! i)) (protocols ! i)) [0..<length commands])
                (\<lambda>rows. Inr (if list_ex snd rows then None else Some (pipeline_request (map fst rows)))))))"

definition pipelineCommand :: "jsval list \<Rightarrow> jsval \<Rightarrow> protocol_command res option" where
  "pipelineCommand commands limit =
    map_option (\<lambda>r. rbind r (\<lambda>c. case c of Some command \<Rightarrow> Inr command
      | None \<Rightarrow> Inl (ferric_error ''native pipeline could not be encoded'')))
    (tryPipelineCommand commands limit True True)"

section \<open>Structured requests\<close>

text \<open>A builder that never makes a custom body.\<close>

definition structured :: "protocol_command option res \<Rightarrow> bool" where
  "structured r \<longleftrightarrow> (\<forall>c. r = Inr (Some c) \<longrightarrow> pc_flags c = None)"

definition structured_command :: "protocol_command res \<Rightarrow> bool" where
  "structured_command r \<longleftrightarrow> (\<forall>c. r = Inr c \<longrightarrow> pc_flags c = None)"

lemma plain_flags [simp]: "pc_flags (plain_command opcode payload) = None"
  by (simp add: plain_command_def)

lemma structured_simps [simp]:
  "structured (Inl e)" "structured (Inr None)" "structured (Inr (Some c)) = (pc_flags c = None)"
  "structured_command (Inl e)" "structured_command (Inr c) = (pc_flags c = None)"
  by (simp_all add: structured_def structured_command_def)

lemma structured_bind: "(\<And>x. r = Inr x \<Longrightarrow> structured (f x)) \<Longrightarrow> structured (rbind r f)"
  by (cases r) simp_all

lemma structured_command_bind: "(\<And>x. r = Inr x \<Longrightarrow> structured_command (f x)) \<Longrightarrow> structured_command (rbind r f)"
  by (cases r) simp_all

lemma structured_some: "structured_command r \<Longrightarrow> structured (rbind r (\<lambda>c. Inr (Some c)))"
  by (cases r) simp_all

lemma structured_exec [simp]: "structured_command (commandExec args)"
  by (auto simp: commandExec_def structured_command_def)

lemma structured_or_exec: "structured r \<Longrightarrow> structured_command (or_exec args r)"
  unfolding or_exec_def by (rule structured_command_bind) (auto simp: structured_def split: option.split)

lemma structured_with_options: "(\<And>o'. structured (f o')) \<Longrightarrow> structured (with_options args start e cfg f)"
  unfolding with_options_def by (rule structured_bind) (simp split: option.split)

lemma structured_flow_command [simp]: "structured (flow_command name entries options)"
  by (simp add: flow_command_def)

lemma structured_map: "(\<And>x. pc_flags (f x) = None) \<Longrightarrow> structured (Inr (map_option f r))"
  by (cases r) simp_all

lemma flags_updates [simp]:
  "pc_flags (with_response_items n c) = pc_flags c" "pc_flags (many_payload name options items scope) = None"
  by (simp_all add: with_response_items_def many_payload_def)

lemma structured_compact_or: "structured (compact_or False compact n (plain_command opcode payload))"
  "structured (compact_or False compact n (many_payload name options items scope))"
  by (simp_all add: compact_or_def)

lemmas structured_rules = structured_bind structured_with_options structured_map structured_compact_or structured_or_exec

lemma structured_single:
  "structured (flowCreatePayload args)" "structured (flowGetPayload args)" "structured (flowValuePutPayload args)"
  "structured (flowSignalPayload args)" "structured (flowLeaseMutationPayload name args allowed)"
  "structured (flowCompletePayload args)" "structured (flowTransitionPayload args)" "structured (flowReclaimPayload args)"
  unfolding flowCreatePayload_def flowGetPayload_def flowValuePutPayload_def flowSignalPayload_def
    flowLeaseMutationPayload_def flowCompletePayload_def flowTransitionPayload_def flowReclaimPayload_def
  by (simp_all add: structured_with_options)

lemma structured_admin:
  "structured (flowHistoryPayload args)" "structured (flowAdminPayload opcode args leading)"
  "structured (flowPolicySetPayload args)" "structured (flowPolicyGetPayload args)"
proof -
  show "structured (flowHistoryPayload args)"
    unfolding flowHistoryPayload_def by (auto intro!: structured_rules)
  show "structured (flowAdminPayload opcode args leading)"
    unfolding flowAdminPayload_def by (auto intro!: structured_rules)
  show "structured (flowPolicySetPayload args)"
    unfolding flowPolicySetPayload_def by (auto intro!: structured_rules split: option.split)
  show "structured (flowPolicyGetPayload args)"
    unfolding flowPolicyGetPayload_def by (auto intro!: structured_rules split: option.split)
qed

lemma structured_many:
  "structured (flowValueMGetPayload args limit False)" "structured (flowCreateManyPayload args limit False)"
  "structured (flowClaimedManyPayload command args limit False)" "structured (flowTransitionManyPayload args limit False)"
  "structured (flowSpawnChildrenPayload args)"
proof -
  show "structured (flowValueMGetPayload args limit False)"
    unfolding flowValueMGetPayload_def Let_def by (auto intro!: structured_rules)
  show "structured (flowCreateManyPayload args limit False)"
    unfolding flowCreateManyPayload_def Let_def by (auto intro!: structured_rules split: option.split)
  show "structured (flowClaimedManyPayload command args limit False)"
    unfolding flowClaimedManyPayload_def Let_def by (auto intro!: structured_rules split: option.split)
  show "structured (flowTransitionManyPayload args limit False)"
    unfolding flowTransitionManyPayload_def Let_def by (auto intro!: structured_rules split: option.split)
  show "structured (flowSpawnChildrenPayload args)"
    unfolding flowSpawnChildrenPayload_def Let_def by (auto intro!: structured_rules split: option.split)
qed

lemma structured_if: "structured x \<Longrightarrow> structured y \<Longrightarrow> structured (if b then x else y)"
  by simp

lemma structured_command_if: "structured_command x \<Longrightarrow> structured_command y \<Longrightarrow> structured_command (if b then x else y)"
  by simp

lemma structured_case: "structured x \<Longrightarrow> (\<And>v. structured (f v)) \<Longrightarrow> structured (case o' of None \<Rightarrow> x | Some v \<Rightarrow> f v)"
  by (cases o') simp_all

lemma structured_control_command [simp]: "pc_flags (control_command name entries) = None"
  by (simp add: control_command_def)

lemma exec_flags [dest]: "commandExec args = Inr c \<Longrightarrow> pc_flags c = None"
  using structured_exec [of args] by (simp add: structured_command_def)

lemma structured_control: "structured (build_control command args rest)"
  unfolding build_control_def Let_def
  by (intro structured_if structured_bind structured_case) auto

lemma structured_routing: "structured_command (flowCommandExecWithRouting command rest start allowed)"
  unfolding flowCommandExecWithRouting_def
  by (rule structured_command_bind)
    (use structured_exec in \<open>auto simp: structured_command_def withFlowPartitionRouting_def Let_def split: sum.split option.split\<close>)

lemma structured_admin_case:
  "structured_command x \<Longrightarrow> (\<And>name leading. structured_command (f name leading)) \<Longrightarrow>
    structured_command (case o' of None \<Rightarrow> x | Some (name, leading) \<Rightarrow> f name leading)"
  by (cases o') auto

lemma structured_query: "structured_command (rbind (flowQueryPayload rest) (\<lambda>payload. Inr (plain_command opcode payload)))"
  by (rule structured_command_bind) simp

lemma structured_cancel: "structured (if False then compactFlowCancelManyPayload rest limit else Inr None)"
  by simp

lemma structured_flow: "structured_command (build_flow command args rest limit False)"
  unfolding build_flow_def Let_def
  by (intro structured_command_if structured_or_exec structured_single structured_admin structured_many structured_routing
      structured_admin_case structured_query structured_exec structured_cancel)

lemma structured_typed [simp]: "structured (Inr (typed name entries))"
  unfolding typed_def by simp

lemma structured_Inr_if: "structured (Inr x) \<Longrightarrow> structured (Inr y) \<Longrightarrow> structured (Inr (if b then x else y))"
  by simp

lemma structured_Inr_case:
  "structured (Inr x) \<Longrightarrow> (\<And>v. structured (Inr (f v))) \<Longrightarrow> structured (Inr (case o' of None \<Rightarrow> x | Some v \<Rightarrow> f v))"
  by (cases o') simp_all

lemma structured_Inr_pair: "(\<And>a b. structured (Inr (f a b))) \<Longrightarrow> structured (Inr (case p of (a, b) \<Rightarrow> f a b))"
  by (cases p) simp

lemmas structured_kv_rules = structured_if structured_Inr_if structured_Inr_case structured_Inr_pair structured_case

lemma structured_pop: "structured (Inr (listPopCommand name rest))"
  unfolding listPopCommand_def Let_def by (intro structured_kv_rules) (simp_all split: jsval.split)

lemma structured_map_typed: "structured (Inr (map_option (\<lambda>c. c\<lparr>pc_server_block_ms := b\<rparr>) (typed name entries)))"
  unfolding typed_def by simp

lemma structured_collection: "structured (collectionProtocolCommand command rest)"
  unfolding collectionProtocolCommand_def Let_def compareAndSwapCommand_def lockCommand_def rateLimitCommand_def
    fetchOrComputeCommand_def fetchOrComputeResultCommand_def fetchOrComputeErrorCommand_def hashSetCommand_def
    keyOnlyCommand_def binaryFieldsCommand_def binaryListCommand_def rangeCommand_def sortedSetAddCommand_def
  by (intro structured_kv_rules structured_pop structured_map_typed structured_typed structured_simps)

lemma structured_plain_if: "pc_flags c = None \<Longrightarrow> structured_command y \<Longrightarrow> structured_command (if b then Inr c else y)"
  by simp

lemma structured_command_case:
  "structured_command x \<Longrightarrow> (\<And>v. structured_command (f v)) \<Longrightarrow>
    structured_command (case o' of None \<Rightarrow> x | Some v \<Rightarrow> f v)"
  by (cases o') simp_all

lemma structured_kv: "structured (build_kv command args rest limit False)"
proof -
  have mget: "structured_command (rbind (if False then compact else Inr None) (\<lambda>r. case r of
      Some c \<Rightarrow> Inr (with_response_items n c) | None \<Rightarrow> x))" if "structured_command x" for compact n x
    using that by simp
  show ?thesis
    unfolding build_kv_def Let_def
    by (intro structured_if structured_some mget structured_collection structured_plain_if structured_exec
        structured_command_if structured_command_case structured_command_bind) simp_all
qed

lemma structured_compact_claim: "structured (compact_claim args options limit False)"
  unfolding compact_claim_def by (intro structured_bind) simp

lemma routing_flags [simp]: "pc_flags (withFlowPartitionRouting c options) = pc_flags c"
  by (simp add: withFlowPartitionRouting_def Let_def)

lemma case_Some_result: "(case x of None \<Rightarrow> None | Some q \<Rightarrow> Some (f q)) = Some r \<Longrightarrow> \<exists>q. r = f q"
  by (cases x) auto

lemma structured_generic_claim:
  assumes "generic_claim args options = Some r"
  shows "structured r"
proof -
  from case_Some_result [OF assms [unfolded generic_claim_def]]
  obtain r' where "r = rbind r' (\<lambda>args'.
         rbind (commandExec (JStr (ascii ''FLOW.CLAIM_DUE'') # args')) (\<lambda>fallback.
         Inr (Some (withFlowPartitionRouting fallback options))))" by blast
  then show ?thesis by (auto intro!: structured_bind)
qed

lemma structured_claim:
  assumes "flowClaimDuePayload args limit False = Some r"
  shows "structured r"
proof (cases "args = []")
  case True
  with assms show ?thesis by (auto simp: flowClaimDuePayload_def)
next
  case False
  define p where "p = rbind (validateRawFlowClaimBlockOptions args)
    (\<lambda>_. parseFlowOptions args 1 (length args) (read_config claim_allowed))"
  have eq: "(case p of Inl e \<Rightarrow> Some (Inl e) | Inr None \<Rightarrow> Some (Inr None)
     | Inr (Some options) \<Rightarrow>
         (case rbind (validateFlowBlockMs (field_of options ''block_ms'')) (\<lambda>_. compact_return options) of
            Inl e \<Rightarrow> Some (Inl e)
          | Inr True \<Rightarrow> Some (compact_claim args options limit False)
          | Inr False \<Rightarrow> generic_claim args options)) = Some r"
    using assms False by (simp only: flowClaimDuePayload_def p_def if_False)
  show ?thesis
  proof (cases p)
    case (Inr o')
    show ?thesis
    proof (cases o')
      case (Some options)
      define q where "q = rbind (validateFlowBlockMs (field_of options ''block_ms'')) (\<lambda>_. compact_return options)"
      from eq Inr Some have "(case q of Inl e \<Rightarrow> Some (Inl e) | Inr True \<Rightarrow> Some (compact_claim args options limit False)
          | Inr False \<Rightarrow> generic_claim args options) = Some r" by (simp only: sum.case option.case q_def)
      then show ?thesis
        using structured_compact_claim [of args options limit] structured_generic_claim [of args options r]
        by (cases q) (auto split: bool.splits)
    qed (use eq Inr in auto)
  qed (use eq in auto)
qed

lemma ordinary_structured:
  assumes "build_ordinary args limit False = Inr (command, Some c)"
  shows "pc_flags c = None"
proof -
  from assms have "build_control command args (tl args) = Inr (Some c) \<or>
      build_kv command args (tl args) limit False = Inr (Some c)"
    by (auto simp: build_ordinary_def Let_def split: option.splits)
  then show ?thesis
    using structured_control [of command args "tl args"] structured_kv [of command args "tl args" limit]
    by (auto simp: structured_def)
qed

lemma build_structured:
  assumes "buildProtocolCommand args limit False = Some (Inr c)"
  shows "pc_flags c = None"
proof -
  from assms obtain r where r: "build_ordinary args limit False = Inr r"
    by (auto simp: buildProtocolCommand_def split: if_splits sum.splits)
  obtain command built where r': "r = (command, built)" by (cases r)
  show ?thesis
  proof (cases built)
    case (Some d)
    with r r' assms have "d = c" by (simp add: buildProtocolCommand_def split: if_splits)
    with r r' Some show ?thesis using ordinary_structured by blast
  next
    case None
    show ?thesis
    proof (cases "command = ascii ''FLOW.CLAIM_DUE''")
      case True
      with None r r' assms have "map_option (or_exec args) (flowClaimDuePayload (tl args) limit False) = Some (Inr c)"
        by (simp add: buildProtocolCommand_def split: if_splits)
      then obtain q where q: "flowClaimDuePayload (tl args) limit False = Some q" "or_exec args q = Inr c" by auto
      from structured_or_exec [OF structured_claim [OF q(1)], of args] q(2) show ?thesis
        by (simp add: structured_command_def)
    next
      case False
      with None r r' assms have "build_flow command args (tl args) limit False = Inr c"
        by (simp add: buildProtocolCommand_def split: if_splits)
      then show ?thesis using structured_flow [of command args "tl args" limit] by (simp add: structured_command_def)
    qed
  qed
qed

section \<open>Properties\<close>

text \<open>A command that may share its connection: it neither changes the state of the connection nor blocks it.\<close>

definition shares_connection :: "jsval \<Rightarrow> bool" where
  "shares_connection v \<longleftrightarrow>
    (\<exists>args. v = JArr args \<and> \<not> commandMutatesConnectionState args \<and> isConnectionBlockingCommand args = Inr False)"

lemma build_all_nth:
  "build_all commands limit = Some (Inr cs) \<Longrightarrow> length cs = length commands \<and>
    (\<forall>i < length commands. \<exists>args. commands ! i = JArr args \<and> buildProtocolCommand args limit False = Some (Inr (cs ! i)))"
proof (induction commands arbitrary: cs)
  case (Cons v vs)
  from Cons.prems obtain args c ds where h: "command_args v = Inr args" "buildProtocolCommand args limit False = Some (Inr c)"
      "build_all vs limit = Some (Inr ds)" "cs = c # ds"
    by (auto split: sum.splits option.splits)
  then have "v = JArr args" by (auto simp: command_args_def split: jsval.splits)
  with h Cons.IH [OF h(3)] show ?case by (auto simp: nth_Cons split: nat.split)
qed simp

lemma pipeline_protocol_shares:
  assumes "pipeline_protocol args p = Inr (c, False)" "pc_flags p = None"
  shows "c = p \<and> \<not> commandMutatesConnectionState args \<and> isConnectionBlockingCommand args = Inr False \<and>
    COMMAND_EXEC_OPCODE \<le> pc_opcode p"
  using assms by (auto simp: pipeline_protocol_def split: if_splits)

lemma named_command_shares:
  assumes "command_name_is (c ! 0) (ascii name) = Inr True" "c \<noteq> []" "name \<in> {''SET'', ''GET'', ''XADD'', ''PUBLISH''}"
  shows "shares_connection (JArr c)"
proof -
  have "to_upper (ascii name) = ascii name" using assms(3) by (auto simp: to_upper_ascii)
  then have tok: "command_name (c ! 0) \<in> {None, Some (ascii name)}"
    using assms(1) by (cases "c ! 0") (auto simp: command_name_is_def command_name_def as_text_def)
  have names: "ascii name \<noteq> ascii ''COMMAND_EXEC''" "ascii name \<noteq> ascii ''CLIENT''"
      "\<not> has connectionStateMutationCommands (ascii name)" "\<not> has connectionBlockingCommands (ascii name)"
    using assms(3) by (elim insertE; (simp add: connectionStateMutationCommands_def connectionBlockingCommands_def)?)+
  have at: "arg_at c 0 = c ! 0" using assms(2) by (simp add: arg_at_def)
  have "connectionScopedCommandName c (command_name (arg_at c 0)) = command_name (c ! 0)"
    using tok names by (auto simp: connectionScopedCommandName_def at Let_def)
  then have "\<not> commandMutatesConnectionState c"
    using tok names by (auto simp: commandMutatesConnectionState_def name_in_def)
  moreover have "unwrapped c = c" using tok names by (auto simp: unwrapped_def at)
  then have "isConnectionBlockingCommand c = Inr False"
    using tok names by (auto simp: isConnectionBlockingCommand_def Let_def at split: option.split)
  ultimately show ?thesis by (simp add: shares_connection_def)
qed

lemma pipeline_commands_spec:
  assumes marked: "rmap (\<lambda>i. pipeline_protocol (args_of (commands ! i)) (cs ! i)) [0..<length commands] = Inr marked"
    and built: "build_all commands limit = Some (Inr cs)" and none: "\<not> list_ex snd marked"
  shows "map fst marked = cs \<and> (\<forall>v \<in> set commands. shares_connection v) \<and>
    (\<forall>c \<in> set cs. COMMAND_EXEC_OPCODE \<le> pc_opcode c)"
proof -
  note cs = build_all_nth [OF built]
  from marked have l2: "list_all2 (\<lambda>i row. pipeline_protocol (args_of (commands ! i)) (cs ! i) = Inr row)
      [0..<length commands] marked" by (simp add: rmap_Inr_iff)
  then have len: "length marked = length commands" by (simp add: list_all2_conv_all_nth)
  have row: "fst (marked ! i) = cs ! i \<and> shares_connection (commands ! i) \<and> COMMAND_EXEC_OPCODE \<le> pc_opcode (cs ! i)"
    if i: "i < length commands" for i
  proof -
    from cs i obtain args where args: "commands ! i = JArr args" "buildProtocolCommand args limit False = Some (Inr (cs ! i))"
      by blast
    from l2 i have "pipeline_protocol (args_of (commands ! i)) (cs ! i) = Inr (marked ! i)"
      by (simp add: list_all2_conv_all_nth)
    moreover have "\<not> snd (marked ! i)" using none i len by (auto simp: list_ex_iff)
    then have "marked ! i = (fst (marked ! i), False)" by (cases "marked ! i") simp
    ultimately have "pipeline_protocol args (cs ! i) = Inr (fst (marked ! i), False)" using args(1) by (simp add: args_of_def)
    from pipeline_protocol_shares [OF this build_structured [OF args(2)]] args(1)
    show ?thesis by (auto simp: shares_connection_def)
  qed
  have "map fst marked = cs" using row len cs by (auto intro!: nth_equalityI)
  moreover have "shares_connection v" if v: "v \<in> set commands" for v
  proof -
    from v obtain i where "i < length commands" "v = commands ! i" by (metis in_set_conv_nth)
    with row show ?thesis by blast
  qed
  moreover have "COMMAND_EXEC_OPCODE \<le> pc_opcode c" if c: "c \<in> set cs" for c
  proof -
    from c obtain i where "i < length cs" "c = cs ! i" by (metis in_set_conv_nth)
    with row cs show ?thesis by metis
  qed
  ultimately show ?thesis by blast
qed

text \<open>What an entry of the plain form must say of the command it stands for: exactly four fields, the
  body, opcode and lane of the request the command has on its own (lane 1 when it names none), and the
  number of the request.\<close>

definition stands_for :: "jsval \<Rightarrow> nat \<Rightarrow> protocol_command \<Rightarrow> bool" where
  "stands_for entry number c \<longleftrightarrow> (\<exists>fields. entry = JObj fields \<and>
    map fst fields = [ascii ''body'', ascii ''lane_id'', ascii ''opcode'', ascii ''request_id''] \<and>
    own (ascii ''body'') fields = Some (pc_payload c) \<and>
    own (ascii ''opcode'') fields = Some (JInt (int (pc_opcode c))) \<and>
    own (ascii ''lane_id'') fields = Some (JInt (case pc_lane_id c of None \<Rightarrow> 1 | Some lane \<Rightarrow> int lane)) \<and>
    own (ascii ''request_id'') fields = Some (JInt (int number)))"

lemma command_exec_opcode: "COMMAND_EXEC_OPCODE = 0x100"
  by (rule command_opcode_iff) (simp add: COMMAND_OPCODES_def)

lemma pipeline_entry_stands:
  "0x100 \<le> pc_opcode c \<Longrightarrow> stands_for (pipeline_entry i c) (i + 1) c"
  by (simp add: stands_for_def pipeline_entry_def object_of_def own_Cons lane_for_opcode_def
      split: option.split)

text \<open>C4. Nothing in a pipeline depends on the connection: whenever a batch of commands is turned into one
  pipeline request, compact or not, every command is an array that neither changes the state of the
  connection nor blocks it. In the plain form there is one entry per command, in order and numbered from
  one, with the body, opcode and lane of the structured request that the very command would have on its
  own, none of them a control command, and the claim modes of these requests. The compact form decodes to
  the commands' own arguments.\<close>

theorem pipelines_keep_the_connection:
  assumes "tryPipelineCommand commands limit allow_xadd allow_publish = Some (Inr (Some c))"
  shows "pc_opcode c = command_opcode ''PIPELINE'' \<and> pc_response_items c = Some (length commands) \<and>
    (\<forall>v \<in> set commands. shares_connection v) \<and>
    (case pc_flags c of
       None \<Rightarrow> \<exists>cs kvs entries. length cs = length commands \<and> length entries = length commands \<and>
         pc_payload c = JObj kvs \<and> own (ascii ''atomicity'') kvs = Some (JStr (ascii ''none'')) \<and>
         own (ascii ''return'') kvs = Some (JStr (ascii ''compact'')) \<and>
         own (ascii ''commands'') kvs = Some (JArr entries) \<and>
         pc_pipeline_modes c =
           (if \<exists>d \<in> set cs. pc_claim_mode d \<noteq> None then Some (map pc_claim_mode cs) else None) \<and>
         (\<forall>i < length commands. \<exists>args. commands ! i = JArr args \<and>
           buildProtocolCommand args limit False = Some (Inr (cs ! i)) \<and> pc_flags (cs ! i) = None \<and>
           0x100 \<le> pc_opcode (cs ! i) \<and> stands_for (entries ! i) (i + 1) (cs ! i))
     | Some flags \<Rightarrow> flags = FLAG_CUSTOM_PAYLOAD \<and>
         (\<exists>out mode. pc_payload c = JBuf out \<and> decode_pipeline out = Some (mode, map (sent_arguments mode) commands)))"
proof (cases "compactPipelinePayload commands limit allow_xadd allow_publish")
  case (Inl e)
  with assms show ?thesis by (simp add: tryPipelineCommand_def)
next
  case (Inr compact)
  show ?thesis
  proof (cases compact)
    case (Some out)
    with Inr assms have c: "c = with_response_items (length commands)
        ((plain_command (command_opcode ''PIPELINE'') (JBuf out))\<lparr>pc_flags := Some FLAG_CUSTOM_PAYLOAD\<rparr>)"
      by (simp add: tryPipelineCommand_def)
    from compact_pipeline_commands [OF Inr [unfolded Some], unfolded pipeline_decodes_def] obtain mode
      where mode: "decode_pipeline out = Some (mode, map (sent_arguments mode) commands)"
        "\<forall>v \<in> set commands. \<exists>c. v = JArr c \<and> c \<noteq> [] \<and> command_name_is (c ! 0) (ascii (pipeline_name mode)) = Inr True"
      by blast
    have "pipeline_name mode \<in> {''SET'', ''GET'', ''XADD'', ''PUBLISH''}" by (simp add: pipeline_name_def)
    note shares = named_command_shares [OF _ _ this]
    have "\<forall>v \<in> set commands. shares_connection v"
    proof
      fix v
      assume "v \<in> set commands"
      with mode(2) obtain c where "v = JArr c" "c \<noteq> []" "command_name_is (c ! 0) (ascii (pipeline_name mode)) = Inr True"
        by blast
      with shares [of c] show "shares_connection v" by simp
    qed
    with mode(1) show ?thesis by (simp add: c with_response_items_def plain_command_def)
  next
    case None
    from assms Inr None obtain cs where cs: "build_all commands limit = Some (Inr cs)"
      by (auto simp: tryPipelineCommand_def split: option.splits sum.splits)
    define marked_result where "marked_result = rmap (\<lambda>i. pipeline_protocol (args_of (commands ! i)) (cs ! i)) [0..<length commands]"
    from assms Inr None cs have "rbind marked_result (\<lambda>marked. Inr (if list_ex snd marked then None
        else Some (pipeline_request (map fst marked)))) = Inr (Some c)"
      by (simp add: tryPipelineCommand_def marked_result_def)
    then obtain marked where marked: "marked_result = Inr marked" "\<not> list_ex snd marked" "c = pipeline_request (map fst marked)"
      by (auto split: if_splits)
    from pipeline_commands_spec [OF marked(1) [unfolded marked_result_def] cs marked(2)]
    have spec: "map fst marked = cs" "\<forall>v \<in> set commands. shares_connection v" "\<forall>d \<in> set cs. COMMAND_EXEC_OPCODE \<le> pc_opcode d"
      by blast+
    note own_of = build_all_nth [OF cs]
    then have len: "length cs = length commands" by blast
    define entries where "entries = map (\<lambda>i. pipeline_entry i (cs ! i)) [0..<length cs]"
    have rows_ok: "\<exists>args. commands ! i = JArr args \<and> buildProtocolCommand args limit False = Some (Inr (cs ! i)) \<and>
        pc_flags (cs ! i) = None \<and> 0x100 \<le> pc_opcode (cs ! i) \<and> stands_for (entries ! i) (i + 1) (cs ! i)"
      if i: "i < length commands" for i
    proof -
      from own_of i obtain args where args: "commands ! i = JArr args"
        "buildProtocolCommand args limit False = Some (Inr (cs ! i))" by blast
      have "0x100 \<le> pc_opcode (cs ! i)" using spec(3) i len by (simp add: command_exec_opcode)
      with args build_structured [OF args(2)] pipeline_entry_stands [of "cs ! i" i] show ?thesis
        by (simp add: entries_def i len)
    qed
    have "length entries = length commands" by (simp add: entries_def len)
    moreover have "pc_flags c = None" "pc_opcode c = command_opcode ''PIPELINE''"
      "pc_response_items c = Some (length commands)"
      "pc_pipeline_modes c =
        (if \<exists>d \<in> set cs. pc_claim_mode d \<noteq> None then Some (map pc_claim_mode cs) else None)"
      "pc_payload c = JObj (object_of [(''atomicity'', JStr (ascii ''none'')),
        (''commands'', JArr entries), (''return'', JStr (ascii ''compact''))])"
      by (simp_all add: marked(3) spec(1) pipeline_request_def plain_command_def len entries_def list_ex_iff)
    ultimately show ?thesis
      using len rows_ok spec(2) by (auto simp: object_of_def own_Cons)
  qed
qed

theorem pipelines_keep_the_connection_witness:
  "shares_connection (JArr [JStr (ascii ''GET''), JBuf [0x6B]])"
proof -
  have "tryPipelineCommand demo_gets (JInt 64) True True = Some (Inr (Some (with_response_items (length demo_gets)
      ((plain_command (command_opcode ''PIPELINE'') (JBuf demo_body))\<lparr>pc_flags := Some FLAG_CUSTOM_PAYLOAD\<rparr>))))"
    by (simp add: tryPipelineCommand_def demo_gets_built)
  from pipelines_keep_the_connection [OF this] show ?thesis by (simp add: demo_gets_def)
qed

end
