(* ===== verification/RoutePlanner.thy ===== *)
theory RoutePlanner
  imports FlowRouting ProtocolCommand
begin

text \<open>
  The route of a command (\<open>src/src/topology-routing.ts\<close>, \<open>src/src/topology-route-planner.ts\<close>,
  \<open>src/src/topology-route-snapshot.ts\<close>): from its arguments to the key it is routed by, or to none, which
  sends it over the control connection. The cache of partition routes is threaded through; the outer option
  is \<open>None\<close> where building the command does not return.
\<close>

section \<open>Keys of a request\<close>

definition PAYLOAD_KEY_FIELDS :: "string list" where
  "PAYLOAD_KEY_FIELDS = [''key'', ''partition_key'', ''id'', ''owner_flow_id'', ''parent_flow_id'', ''root_flow_id'',
    ''correlation_id'', ''scope'']"

definition isRoutingKey :: "jsval \<Rightarrow> bool" where
  "isRoutingKey v \<longleftrightarrow> as_route_key v \<noteq> None"

text \<open>The first elements of the pairs that are arrays with an element.\<close>

definition pair_heads :: "jsval list \<Rightarrow> jsval list" where
  "pair_heads ps = concat (map (\<lambda>p. case p of JArr (k # _) \<Rightarrow> [k] | _ \<Rightarrow> []) ps)"

definition routingKeyFromProtocolPayload :: "jsstr option \<Rightarrow> protocol_command \<Rightarrow> jsval option" where
  "routingKeyFromProtocolPayload name c =
    (if pc_opcode c < 0x0100 \<or> name \<in> {Some (ascii ''CLUSTER.KEYSLOT''), Some (ascii ''SHARDS''), Some (ascii ''ROUTE'')}
     then None
     else case pc_payload c of
         JObj _ \<Rightarrow>
           (case filter isRoutingKey (map (\<lambda>f. getField (pc_payload c) [f]) PAYLOAD_KEY_FIELDS) of
              v # _ \<Rightarrow> Some v
            | [] \<Rightarrow>
                (case getField (pc_payload c) [''keys''] of
                   JArr keys \<Rightarrow> singleShardKey keys
                 | _ \<Rightarrow>
                     (case getField (pc_payload c) [''pairs''] of
                        JArr ps \<Rightarrow> singleShardKey (pair_heads ps)
                      | _ \<Rightarrow> None)))
       | _ \<Rightarrow> None)"

text \<open>\<open>None\<close> when the grammar does not know the keys of the command.\<close>

definition routingKeyFromArgs :: "jsstr option \<Rightarrow> jsval list \<Rightarrow> jsval option option" where
  "routingKeyFromArgs name args = map_option singleShardKey (routingKeyArguments name args)"

section \<open>Flow commands\<close>

record routing_data =
  rd_command :: "protocol_command option"
  rd_key :: jsval

type_synonym 'a cached = "'a \<times> route_cache"

definition flowRoutingResult :: "jsval option \<Rightarrow> protocol_command option \<Rightarrow> routing_data option" where
  "flowRoutingResult key command = map_option (\<lambda>k. \<lparr>rd_command = command, rd_key = k\<rparr>) key"

text \<open>The logical partition of a value as a key.\<close>

definition partition_lookup :: "bool \<Rightarrow> jsval \<Rightarrow> route_cache \<Rightarrow> jsval option cached" where
  "partition_lookup claim v c =
    (case (if claim then flowClaimLogicalPartitionRoutingKey v c else flowLogicalPartitionRoutingKey v c) of
       (key, c1) \<Rightarrow> (map_option JStr key, c1))"

definition partitions_lookup :: "bool \<Rightarrow> jsval \<Rightarrow> route_cache \<Rightarrow> jsval option cached" where
  "partitions_lookup claim v c =
    (case v of
       JArr vs \<Rightarrow> if claim then singleShardFlowClaimPartitionKey vs c else singleShardFlowPartitionKey vs c
     | _ \<Rightarrow> (None, c))"

text \<open>The inner option is \<open>None\<close> where the command does not say its partition.\<close>

definition flowPartitionRoutingKeyFromCommand ::
  "protocol_command option \<Rightarrow> bool \<Rightarrow> route_cache \<Rightarrow> jsval option option cached" where
  "flowPartitionRoutingKeyFromCommand command claim c =
    (case command of
       None \<Rightarrow> (None, c)
     | Some cmd \<Rightarrow>
         (case pc_partition_key cmd of
            Some v \<Rightarrow> (case partition_lookup claim v c of (key, c1) \<Rightarrow> (Some key, c1))
          | None \<Rightarrow>
         (case pc_partition_keys cmd of
            Some vs \<Rightarrow> (case partitions_lookup claim (JArr vs) c of (key, c1) \<Rightarrow> (Some key, c1))
          | None \<Rightarrow>
         (case pc_payload cmd of
            JObj payload \<Rightarrow>
              if pc_opcode cmd = COMMAND_EXEC_OPCODE then (None, c)
              else (case own (ascii ''partition_key'') payload of
                  Some v \<Rightarrow> (case partition_lookup claim v c of (key, c1) \<Rightarrow> (Some key, c1))
                | None \<Rightarrow> (case own (ascii ''partition_keys'') payload of
                      Some v \<Rightarrow> (case partitions_lookup claim v c of (key, c1) \<Rightarrow> (Some key, c1))
                    | None \<Rightarrow> (None, c)))
          | _ \<Rightarrow> (None, c)))))"

definition MANY_COMMANDS :: catalog where
  "MANY_COMMANDS = [''FLOW.CREATE_MANY'', ''FLOW.COMPLETE_MANY'', ''FLOW.TRANSITION_MANY'', ''FLOW.RETRY_MANY'',
    ''FLOW.FAIL_MANY'', ''FLOW.CANCEL_MANY'']"

text \<open>The partition of a command over many flows, unless its items are spread.\<close>

definition many_partition :: "jsval \<Rightarrow> bool" where
  "many_partition v =
    (case v of
       JStr s \<Rightarrow> to_upper s \<notin> {ascii ''AUTO'', ascii ''MIXED''}
     | JBuf b \<Rightarrow> to_upper (utf8_decode b) \<notin> {ascii ''AUTO'', ascii ''MIXED''}
     | _ \<Rightarrow> False)"

definition has_partition_option :: "jsval list \<Rightarrow> bool" where
  "has_partition_option args =
    list_ex (\<lambda>v. command_token v \<in> {Some (ascii ''PARTITION''), Some (ascii ''PARTITIONS'')}) args"

definition owner_route :: "protocol_command option \<Rightarrow> routing_data option" where
  "owner_route command =
    (case command of
       None \<Rightarrow> None
     | Some cmd \<Rightarrow>
         (case pc_payload cmd of
            JObj _ \<Rightarrow>
              (let owner = getField (pc_payload cmd) [''owner_flow_id'']; value_name = getField (pc_payload cmd) [''name''] in
               if pc_opcode cmd \<noteq> COMMAND_EXEC_OPCODE \<and> isRoutingKey owner \<and> isRoutingKey value_name
               then flowRoutingResult (map_option JStr (flowAutoIdRoutingKey owner)) (Some cmd) else None)
          | _ \<Rightarrow> None))"

text \<open>The commands that have to be parsed first; \<open>parsed\<close> is the request, if one was built.\<close>

definition flow_parsed_route ::
  "jsstr \<Rightarrow> jsval list \<Rightarrow> protocol_command option \<Rightarrow> route_cache \<Rightarrow> routing_data option cached" where
  "flow_parsed_route name flow_args parsed c =
    (if has_partition_option flow_args then
       (case flowPartitionRoutingKeyFromCommand parsed (name = ascii ''FLOW.CLAIM_DUE'' \<or> name = ascii ''FLOW.RECLAIM'') c of
          (None, c1) \<Rightarrow> (None, c1)
        | (Some key, c1) \<Rightarrow> (flowRoutingResult key (if name = ascii ''FLOW.CLAIM_DUE'' then None else parsed), c1))
     else if name = ascii ''FLOW.VALUE.PUT'' then (owner_route parsed, c)
     else if has typeScopedFlowCommands name \<or> \<not> has flowStateIdCommands name then (None, c)
     else (flowRoutingResult (map_option JStr (flowAutoIdRoutingKey (flow_args ! 0))) parsed, c))"

definition flowRoutingData :: "jsstr \<Rightarrow> jsval list \<Rightarrow> route_cache \<Rightarrow> routing_data option cached option" where
  "flowRoutingData name args c =
    (let start = view_start (commandView args); flow_args = drop start args in
     if flow_args = [] then Some (None, c)
     else if name = ascii ''FLOW.VALUE.MGET'' then
       Some (flowRoutingResult (singleShardKey (mget_refs (splitFlowValueMGetArguments args start))) None, c)
     else if has flowScheduleCommands name \<or> name = ascii ''FLOW.QUERY'' then Some (None, c)
     else if has flowApprovalIdCommands name \<or> has flowGovernanceScopeCommands name then
       Some (case partition_lookup False (flow_args ! 0) c of (key, c1) \<Rightarrow> (flowRoutingResult key None, c1))
     else if has MANY_COMMANDS name then
       Some (if many_partition (flow_args ! 0)
         then (case partition_lookup False (flow_args ! 0) c of (key, c1) \<Rightarrow> (flowRoutingResult key None, c1))
         else (None, c))
     else if has_partition_option flow_args \<or> name = ascii ''FLOW.VALUE.PUT'' then
       (case buildProtocolCommand args (JInt MAX_SAFE) False of
          None \<Rightarrow> None
        | Some (Inl e) \<Rightarrow> Some (None, c)
        | Some (Inr cmd) \<Rightarrow> Some (flow_parsed_route name flow_args (Some cmd) c))
     else Some (flow_parsed_route name flow_args None c))"

section \<open>The route\<close>

type_synonym 'r planned = "protocol_command option \<times> 'r"

text \<open>\<open>route\<close> is the lookup in the current topology, which may throw.\<close>

definition topologyRouteData ::
  "jsval list \<Rightarrow> (jsval \<Rightarrow> 'e + 'r) \<Rightarrow> route_cache \<Rightarrow> ('e + 'r planned option) cached option" where
  "topologyRouteData args route c =
    (let name = view_name (commandView args);
         routed = (\<lambda>command key. rbind (route key) (\<lambda>r. Inr (Some (command, r)))) in
     if args = [] then Some (Inr None, c)
     else if (case name of Some n \<Rightarrow> prefix (ascii ''FLOW.'') n | None \<Rightarrow> False) then
       map_option (\<lambda>(data, c1). (case data of None \<Rightarrow> Inr None | Some d \<Rightarrow> routed (rd_command d) (rd_key d), c1))
         (flowRoutingData (the name) args c)
     else (case routingKeyFromArgs name args of
         Some None \<Rightarrow> Some (Inr None, c)
       | Some (Some key) \<Rightarrow> Some (routed None key, c)
       | None \<Rightarrow>
           (case buildProtocolCommand args (JInt MAX_SAFE) True of
              None \<Rightarrow> None
            | Some (Inl e) \<Rightarrow> Some (Inr None, c)
            | Some (Inr cmd) \<Rightarrow>
                Some (case routingKeyFromProtocolPayload name cmd of
                    None \<Rightarrow> Inr None
                  | Some key \<Rightarrow> routed (Some cmd) key, c))))"

definition MAX_TOPOLOGY_PLANNING_ATTEMPTS :: nat where
  "MAX_TOPOLOGY_PLANNING_ATTEMPTS = 8"

text \<open>Whether a route that was planned earlier is still the one of its slot.\<close>

definition topologyRouteIsCurrent :: "routing_topology \<Rightarrow> routing_route \<Rightarrow> nat option \<Rightarrow> bool" where
  "topologyRouteIsCurrent topology route slot =
    (case (case slot of None \<Rightarrow> None
        | Some s \<Rightarrow> if s < length (tp_slots topology) then tp_slots topology ! s else None) of
       None \<Rightarrow> False
     | Some current \<Rightarrow>
         rt_endpoint_key current = rt_endpoint_key route \<and> rt_lane current = rt_lane route \<and>
         rt_shard current = rt_shard route \<and> rt_leader current = rt_leader route \<and>
         sameEndpoint (rt_endpoint current) (rt_endpoint route))"

definition routedCommandArgs :: "jsstr \<Rightarrow> (nat \<times> jsval) list \<Rightarrow> jsval list \<Rightarrow> jsval list" where
  "routedCommandArgs name entries extra = JStr name # map snd entries @ extra"

section \<open>A routed command is on one shard\<close>

definition topology_lookup :: "routing_topology \<Rightarrow> jsval \<Rightarrow> (routing_route \<times> nat) res" where
  "topology_lookup topology key =
    (case as_route_key key of
       Some k \<Rightarrow> routeKey topology k
     | None \<Rightarrow> Inl (Thrown TypeErr ''key'' [key]))"

text \<open>The keys a command names, where they are arguments of their own.\<close>

definition argument_keys :: "jsval list \<Rightarrow> jsval list option" where
  "argument_keys args =
    (case view_name (commandView args) of
       Some name \<Rightarrow>
         if name = ascii ''FLOW.VALUE.MGET'' then
           Some (mget_refs (splitFlowValueMGetArguments args (view_start (commandView args))))
         else if prefix (ascii ''FLOW.'') name then None
         else routingKeyArguments (Some name) args
     | None \<Rightarrow> None)"

lemma single_shard_slot:
  assumes "singleShardKey keys = Some first"
  shows "first \<in> set keys \<and> (\<exists>k. as_route_key first = Some k \<and>
    (\<forall>v \<in> set keys. \<exists>k'. as_route_key v = Some k' \<and> routing_slot_for_key k' = routing_slot_for_key k))"
proof -
  from assms obtain rest where keys: "keys = first # rest" by (auto simp: singleShardKey_def split: list.splits sum.splits if_splits)
  define f where "f = (\<lambda>k. case as_route_key k of None \<Rightarrow> Inl () | Some r \<Rightarrow> Inr (routing_slot_for_key r))"
  from assms obtain slots where slots: "rmap f keys = Inr slots" "list_all (\<lambda>s. s = slots ! 0) slots"
    by (auto simp: singleShardKey_def keys f_def split: sum.splits if_splits)
  have all: "list_all2 (\<lambda>v s. f v = Inr s) keys slots" using slots(1) by (simp add: rmap_Inr_iff)
  then obtain s where s: "slots ! 0 = s" "f first = Inr s" by (auto simp: keys list_all2_Cons1)
  then obtain k where k: "as_route_key first = Some k" "routing_slot_for_key k = s"
    by (auto simp: f_def split: option.splits)
  have "\<exists>k'. as_route_key v = Some k' \<and> routing_slot_for_key k' = s" if "v \<in> set keys" for v
  proof -
    from that obtain i where i: "i < length keys" "v = keys ! i" by (auto simp: in_set_conv_nth)
    with all have "slots ! i \<in> set slots" "f v = Inr (slots ! i)" by (auto simp: list_all2_conv_all_nth)
    then obtain t where "t \<in> set slots" "f v = Inr t" by blast
    moreover from this slots(2) s(1) have "t = s" by (auto simp: list_all_iff)
    ultimately show ?thesis by (auto simp: f_def split: option.splits)
  qed
  with k show ?thesis by (auto simp: keys)
qed

lemma single_shard_lookup:
  assumes "singleShardKey keys = Some first" "topology_lookup t first = Inr r" "v \<in> set keys"
  shows "topology_lookup t v = Inr r"
  using single_shard_slot [OF assms(1)] assms(2,3) by (fastforce simp: topology_lookup_def routeKey_def Let_def)

text \<open>A command is never sent to a shard that does not own one of its keys: when a command whose keys are
  arguments is planned onto a route, every single one of its keys is routed there by the topology.\<close>

theorem routed_commands_own_their_keys:
  assumes "topologyRouteData args (topology_lookup t) c = Some (Inr (Some (command, r)), c')"
    and "argument_keys args = Some keys"
  shows "keys \<noteq> [] \<and> (\<forall>key \<in> set keys. topology_lookup t key = Inr r)"
proof -
  from assms(1) have ne: "args \<noteq> []" by (auto simp: topologyRouteData_def)
  from assms(2) obtain name where name: "view_name (commandView args) = Some name" by (auto simp: argument_keys_def split: option.splits)
  have "\<exists>first. singleShardKey keys = Some first \<and> topology_lookup t first = Inr r"
  proof (cases "name = ascii ''FLOW.VALUE.MGET''")
    case True
    have pre: "prefix (ascii ''FLOW.'') name" by (simp add: True ascii_def)
    from assms(2) have keys: "keys = mget_refs (splitFlowValueMGetArguments args (view_start (commandView args)))"
      by (simp add: argument_keys_def name True)
    have data: "flowRoutingData name args c =
        Some (if drop (view_start (commandView args)) args = [] then None else flowRoutingResult (singleShardKey keys) None, c)"
      by (simp add: flowRoutingData_def True Let_def keys)
    have "topologyRouteData args (topology_lookup t) c =
        map_option (\<lambda>(data, c1). (case data of None \<Rightarrow> Inr None
          | Some d \<Rightarrow> rbind (topology_lookup t (rd_key d)) (\<lambda>r. Inr (Some (rd_command d, r))), c1)) (flowRoutingData name args c)"
      using ne pre by (simp add: topologyRouteData_def name)
    with assms(1) data show ?thesis
      by (cases "singleShardKey keys") (auto simp: flowRoutingResult_def split: if_splits)
  next
    case False
    with assms(2) name have np: "\<not> prefix (ascii ''FLOW.'') name" and keys: "routingKeyArguments (Some name) args = Some keys"
      by (auto simp: argument_keys_def split: if_splits)
    have "topologyRouteData args (topology_lookup t) c =
        Some (case singleShardKey keys of None \<Rightarrow> Inr None
          | Some key \<Rightarrow> rbind (topology_lookup t key) (\<lambda>r. Inr (Some (None, r))), c)"
      using ne np by (simp add: topologyRouteData_def name routingKeyFromArgs_def keys split: option.splits)
    with assms(1) show ?thesis by (auto split: option.splits)
  qed
  then obtain first where first: "singleShardKey keys = Some first" "topology_lookup t first = Inr r" by blast
  from single_shard_lookup [OF this] single_shard_slot [OF first(1)] show ?thesis by auto
qed

end
