(* ===== verification/TopologyPipeline.thy ===== *)
theory TopologyPipeline
  imports RoutePlanner PipelineExecution
begin

text \<open>
  A pipeline over several endpoints (\<open>src/src/topology-pipeline.ts\<close>): its commands are split into units, one per
  route, one for the control connection, and one for each command that is decomposed by itself; the units
  run with their dependencies, and the answers are put back into the places of the commands. How a unit is
  executed on its connection is not modelled: its outcome is a parameter.
\<close>

section \<open>Units\<close>

datatype unit_kind = Routed routing_route | Control | Standalone

record pipeline_unit =
  pu_kind :: unit_kind
  pu_indices :: "nat list"

text \<open>The tables of the loop over the commands: the groups by route, in the order of their first commands, the
  control commands and the commands on their own.\<close>

record unit_tables =
  ut_groups :: "(jsstr \<times> routing_route \<times> nat list) list"
  ut_control :: "nat list"
  ut_standalone :: "nat list"

text \<open>\<open>routed i\<close> is the route of command \<open>i\<close>, if it has one; \<open>splits i\<close> says that its name is one of the commands
  that are decomposed.\<close>

definition add_command :: "(nat \<Rightarrow> routing_route option) \<Rightarrow> (nat \<Rightarrow> bool) \<Rightarrow> nat \<Rightarrow> unit_tables \<Rightarrow> unit_tables" where
  "add_command routed splits i ut =
    (case routed i of
       None \<Rightarrow>
         if splits i then ut\<lparr>ut_standalone := ut_standalone ut @ [i]\<rparr>
         else ut\<lparr>ut_control := ut_control ut @ [i]\<rparr>
     | Some r \<Rightarrow>
         (case map_of (ut_groups ut) (group_key r) of
            None \<Rightarrow> ut\<lparr>ut_groups := ut_groups ut @ [(group_key r, r, [i])]\<rparr>
          | Some (r0, is) \<Rightarrow> ut\<lparr>ut_groups := AList.update (group_key r) (r0, is @ [i]) (ut_groups ut)\<rparr>))"

definition empty_units :: unit_tables where
  "empty_units = \<lparr>ut_groups = [], ut_control = [], ut_standalone = []\<rparr>"

definition units_of :: "unit_tables \<Rightarrow> pipeline_unit list" where
  "units_of ut =
    map (\<lambda>(key, r, is). \<lparr>pu_kind = Routed r, pu_indices = is\<rparr>) (ut_groups ut) @
    (if ut_control ut = [] then [] else [\<lparr>pu_kind = Control, pu_indices = ut_control ut\<rparr>]) @
    map (\<lambda>i. \<lparr>pu_kind = Standalone, pu_indices = [i]\<rparr>) (ut_standalone ut)"

definition pipeline_units :: "(nat \<Rightarrow> routing_route option) \<Rightarrow> (nat \<Rightarrow> bool) \<Rightarrow> nat \<Rightarrow> pipeline_unit list" where
  "pipeline_units routed splits n = units_of (fold (add_command routed splits) [0..<n] empty_units)"

text \<open>The name of the command, for the second table.\<close>

definition decomposable :: "jsval list \<Rightarrow> bool" where
  "decomposable command =
    (case view_name (commandView command) of None \<Rightarrow> False | Some name \<Rightarrow> has decomposableCommandNames name)"

section \<open>Dependencies between units\<close>

definition unitByCommand :: "pipeline_unit list \<Rightarrow> nat \<Rightarrow> nat option" where
  "unitByCommand us = map_of (concat (map (\<lambda>u. map (\<lambda>i. (i, u)) (pu_indices (us ! u))) [0..<length us]))"

text \<open>What a unit waits for: the units of the earlier commands its commands depend on, each once.\<close>

definition add_dependency :: "pipeline_unit list \<Rightarrow> nat \<Rightarrow> nat \<Rightarrow> int \<Rightarrow> nat list list \<Rightarrow> nat list list" where
  "add_dependency us i u d deps =
    (if d < 0 \<or> int i \<le> d then deps
     else case unitByCommand us (nat d) of
         None \<Rightarrow> deps
       | Some v \<Rightarrow> if v = u \<or> v \<in> set (deps ! u) then deps else deps[u := deps ! u @ [v]])"

definition unit_dependencies :: "pipeline_unit list \<Rightarrow> int list list \<Rightarrow> nat list list" where
  "unit_dependencies us command_deps =
    fold (\<lambda>i deps. case unitByCommand us i of
        None \<Rightarrow> deps
      | Some u \<Rightarrow> fold (add_dependency us i u) (command_deps ! i) deps)
      [0..<length command_deps] (replicate (length us) [])"

text \<open>
  \<open>runUnit\<close>: the task of a unit is created once its dependencies' tasks are; creating these comes first, in the
  same call. The list is the tasks created so far, in the order of their creation. \<open>None\<close> when the calls do
  not end.
\<close>

partial_function (option) run_units :: "nat list list \<Rightarrow> nat list \<Rightarrow> nat list \<Rightarrow> nat list option" where
  "run_units deps todo tasks =
    (case todo of
       [] \<Rightarrow> Some tasks
     | u # us \<Rightarrow>
         if u \<in> set tasks then run_units deps us tasks
         else Option.bind (run_units deps (deps ! u) tasks) (\<lambda>created. run_units deps us (created @ [u])))"

declare run_units.simps [code]

text \<open>The order in which the tasks of a pipeline are created; without dependencies they are simply started.\<close>

definition unit_order :: "pipeline_unit list \<Rightarrow> int list list option \<Rightarrow> nat list option" where
  "unit_order us command_deps =
    (case command_deps of
       None \<Rightarrow> Some [0..<length us]
     | Some ds \<Rightarrow>
         (let deps = unit_dependencies us ds in
          if list_all (\<lambda>d. d = []) deps then Some [0..<length us] else run_units deps [0..<length us] []))"

section \<open>Answers\<close>

text \<open>What a unit ends with: its responses with their rejection flags, or the error it failed with. The answer of a
  command on its own is a list of one. The error for a wrong number of answers carries no raw value here.\<close>

type_synonym unit_outcome = "thrown + thrown list \<times> bool list option"

record pipeline_output =
  out_values :: "thrown option list"
  out_rejected :: "nat list"

definition captureGroupFailure :: "nat list \<Rightarrow> thrown \<Rightarrow> pipeline_output \<Rightarrow> pipeline_output" where
  "captureGroupFailure is e out =
    \<lparr>out_values = fold (\<lambda>i vs. vs[i := Some e]) is (out_values out), out_rejected = out_rejected out @ is\<rparr>"

definition group_mismatch :: thrown where
  "group_mismatch = Sdk (new_error FerricStoreError (ascii ''topology pipeline response did not match command group'')
    (raw_options JUndef JUndef))"

fun store_responses :: "nat list \<Rightarrow> thrown list \<Rightarrow> bool list \<Rightarrow> pipeline_output \<Rightarrow> pipeline_output" where
  "store_responses (i # is) (r # rs) (b # bs) out =
    store_responses is rs bs (out\<lparr>out_values := (out_values out)[i := Some r],
      out_rejected := (if b then out_rejected out @ [i] else out_rejected out)\<rparr>)"
| "store_responses (i # is) (r # rs) [] out =
    store_responses is rs [] (out\<lparr>out_values := (out_values out)[i := Some r]\<rparr>)"
| "store_responses _ _ _ out = out"

definition captureGroupResponses :: "nat list \<Rightarrow> unit_outcome \<Rightarrow> pipeline_output \<Rightarrow> pipeline_output" where
  "captureGroupResponses is outcome out =
    (case outcome of
       Inl e \<Rightarrow> captureGroupFailure is e out
     | Inr (rs, flags) \<Rightarrow>
         if length rs \<noteq> length is then captureGroupFailure is group_mismatch out
         else store_responses is rs (case flags of None \<Rightarrow> [] | Some bs \<Rightarrow> bs) out)"

definition capture_all :: "pipeline_unit list \<Rightarrow> unit_outcome list \<Rightarrow> nat \<Rightarrow> pipeline_output" where
  "capture_all us outcomes n =
    fold (\<lambda>(u, r). captureGroupResponses (pu_indices u) r) (zip us outcomes)
      \<lparr>out_values = replicate n None, out_rejected = []\<rparr>"

text \<open>The whole of \<open>execute\<close> behind the split: the answers in their places, the flags of those that were
  rejected, and the first error where errors are to be thrown.\<close>

definition finish_pipeline :: "pipeline_options \<Rightarrow> pipeline_output \<Rightarrow> thrown + thrown list" where
  "finish_pipeline options out =
    surfaceFirstPipelineItemError (map the (out_values out))
      (if out_rejected out = [] then None
       else Some (map (\<lambda>i. i \<in> set (out_rejected out)) [0..<length (out_values out)])) options"

section \<open>The units are a partition\<close>

definition table_indices :: "unit_tables \<Rightarrow> nat multiset" where
  "table_indices ut = mset (concat (map (snd \<circ> snd) (ut_groups ut))) + mset (ut_control ut) + mset (ut_standalone ut)"

text \<open>After the commands below \<open>n\<close>: the groups have different keys, each holds, in ascending order, commands whose
  route is that of the group.\<close>

definition group_ok :: "(nat \<Rightarrow> routing_route option) \<Rightarrow> nat \<Rightarrow> jsstr \<times> routing_route \<times> nat list \<Rightarrow> bool" where
  "group_ok routed n e = (case e of (key, r, is) \<Rightarrow> key = group_key r \<and> is \<noteq> [] \<and> sorted_wrt (<) is \<and>
    (\<forall>i \<in> set is. i < n \<and> (\<exists>q. routed i = Some q \<and> group_key q = key)))"

definition unit_tables_ok :: "(nat \<Rightarrow> routing_route option) \<Rightarrow> (nat \<Rightarrow> bool) \<Rightarrow> nat \<Rightarrow> unit_tables \<Rightarrow> bool" where
  "unit_tables_ok routed splits n ut \<longleftrightarrow>
    distinct (map fst (ut_groups ut)) \<and> table_indices ut = mset [0..<n] \<and>
    (\<forall>e \<in> set (ut_groups ut). group_ok routed n e) \<and>
    sorted_wrt (<) (ut_control ut) \<and> (\<forall>i \<in> set (ut_control ut). i < n \<and> routed i = None \<and> \<not> splits i) \<and>
    (\<forall>i \<in> set (ut_standalone ut). i < n \<and> routed i = None \<and> splits i)"

lemma update_middle:
  "k \<notin> set (map fst xs) \<Longrightarrow> AList.update k v (xs @ (k, w) # ys) = xs @ (k, v) # ys"
  by (induction xs) auto

lemma group_ok_Suc: "group_ok routed n e \<Longrightarrow> group_ok routed (Suc n) e"
  by (auto simp: group_ok_def)

lemma add_command_ok:
  assumes ok: "unit_tables_ok routed splits n ut"
  shows "unit_tables_ok routed splits (Suc n) (add_command routed splits n ut)"
proof (cases "routed n")
  case None
  then show ?thesis
    using ok group_ok_Suc by (fastforce simp: unit_tables_ok_def add_command_def table_indices_def sorted_wrt_append)
next
  case (Some r)
  show ?thesis
  proof (cases "map_of (ut_groups ut) (group_key r)")
    case fresh: None
    then have "group_key r \<notin> set (map fst (ut_groups ut))" by (simp add: map_of_eq_None_iff)
    moreover have "group_ok routed (Suc n) (group_key r, r, [n])" using Some by (auto simp: group_ok_def)
    ultimately show ?thesis
      using ok Some fresh group_ok_Suc by (fastforce simp: unit_tables_ok_def add_command_def table_indices_def)
  next
    case there: (Some x)
    obtain r0 ks where x: "x = (r0, ks)" by (cases x)
    from there x have "(group_key r, r0, ks) \<in> set (ut_groups ut)" by (simp add: map_of_SomeD)
    then obtain before after where split: "ut_groups ut = before @ (group_key r, r0, ks) # after"
      by (meson split_list)
    from ok have ok_keys: "distinct (map fst (ut_groups ut))" and ok_total: "table_indices ut = mset [0..<n]"
      unfolding unit_tables_ok_def by blast+
    from ok_keys have dist: "group_key r \<notin> set (map fst before)" "group_key r \<notin> set (map fst after)"
      unfolding split by simp_all
    have new: "add_command routed splits n ut = ut\<lparr>ut_groups := before @ (group_key r, r0, ks @ [n]) # after\<rparr>"
      using Some there x by (simp add: add_command_def split update_middle [OF dist(1)])
    from ok split have old: "group_ok routed n (group_key r, r0, ks)" by (simp add: unit_tables_ok_def)
    have grown: "group_ok routed (Suc n) (group_key r, r0, ks @ [n])"
      using old Some by (auto simp: group_ok_def sorted_wrt_append less_Suc_eq)
    have "\<forall>e \<in> set (ut_groups ut). group_ok routed (Suc n) e" using ok group_ok_Suc unfolding unit_tables_ok_def by blast
    with grown have entries: "\<forall>e \<in> set (before @ (group_key r, r0, ks @ [n]) # after). group_ok routed (Suc n) e"
      unfolding split by auto
    have keys: "distinct (map fst (before @ (group_key r, r0, ks @ [n]) # after))"
      using dist ok_keys unfolding split by simp
    have total: "table_indices (ut\<lparr>ut_groups := before @ (group_key r, r0, ks @ [n]) # after\<rparr>) = mset [0..<Suc n]"
      using ok_total unfolding table_indices_def split by simp
    have others: "sorted_wrt (<) (ut_control ut) \<and> (\<forall>i \<in> set (ut_control ut). i < Suc n \<and> routed i = None \<and> \<not> splits i) \<and>
        (\<forall>i \<in> set (ut_standalone ut). i < Suc n \<and> routed i = None \<and> splits i)"
      using ok unfolding unit_tables_ok_def by (meson less_SucI)
    show ?thesis
      using entries keys total others unfolding new unit_tables_ok_def by simp
  qed
qed

lemma tables_after: "unit_tables_ok routed splits n (fold (add_command routed splits) [0..<n] empty_units)"
proof (induction n)
  case 0
  then show ?case by (simp add: unit_tables_ok_def empty_units_def table_indices_def)
next
  case (Suc n)
  from add_command_ok [OF Suc] show ?case by simp
qed

text \<open>The units of a pipeline of \<open>n\<close> commands.\<close>

definition unit_ok :: "(nat \<Rightarrow> routing_route option) \<Rightarrow> (nat \<Rightarrow> bool) \<Rightarrow> pipeline_unit \<Rightarrow> bool" where
  "unit_ok routed splits u \<longleftrightarrow> pu_indices u \<noteq> [] \<and> sorted_wrt (<) (pu_indices u) \<and>
    (case pu_kind u of
       Routed r \<Rightarrow> \<forall>i \<in> set (pu_indices u). \<exists>q. routed i = Some q \<and> route_id q = route_id r
     | Control \<Rightarrow> \<forall>i \<in> set (pu_indices u). routed i = None \<and> \<not> splits i
     | Standalone \<Rightarrow> \<exists>i. pu_indices u = [i] \<and> routed i = None \<and> splits i)"

lemma units_indices: "mset (concat (map pu_indices (units_of ut))) = table_indices ut"
proof -
  have "concat (map pu_indices (map (\<lambda>i. \<lparr>pu_kind = Standalone, pu_indices = [i]\<rparr>) is)) = is" for "is"
    by (induction "is") simp_all
  then show ?thesis
    by (simp add: units_of_def table_indices_def comp_def case_prod_unfold)
qed

lemma units_partition:
  "mset (concat (map pu_indices (pipeline_units routed splits n))) = mset [0..<n]"
  "u \<in> set (pipeline_units routed splits n) \<Longrightarrow> unit_ok routed splits u"
proof -
  let ?ut = "fold (add_command routed splits) [0..<n] empty_units"
  note ok = tables_after [of routed splits n]
  show "mset (concat (map pu_indices (pipeline_units routed splits n))) = mset [0..<n]"
    using ok by (simp add: pipeline_units_def units_indices unit_tables_ok_def)
  show "unit_ok routed splits u" if "u \<in> set (pipeline_units routed splits n)"
  proof -
    from that consider key r "is" where "(key, r, is) \<in> set (ut_groups ?ut)" "u = \<lparr>pu_kind = Routed r, pu_indices = is\<rparr>"
      | "ut_control ?ut \<noteq> []" "u = \<lparr>pu_kind = Control, pu_indices = ut_control ?ut\<rparr>"
      | i where "i \<in> set (ut_standalone ?ut)" "u = \<lparr>pu_kind = Standalone, pu_indices = [i]\<rparr>"
      by (auto simp: pipeline_units_def units_of_def split: if_splits)
    then show ?thesis
    proof cases
      case 1
      with ok have "key = group_key r" "is \<noteq> []" "sorted_wrt (<) is"
          "\<forall>i \<in> set is. \<exists>q. routed i = Some q \<and> group_key q = key"
        by (auto simp: unit_tables_ok_def group_ok_def)
      with 1(2) show ?thesis by (simp add: unit_ok_def group_key_inj)
    qed (use ok in \<open>auto simp: unit_tables_ok_def unit_ok_def\<close>)
  qed
qed

text \<open>So every command is in one unit, which the table finds.\<close>

lemma unit_pairs_mset:
  "mset (map fst (concat (map (\<lambda>u. map (\<lambda>i. (i, u)) (pu_indices (us ! u))) [0..<length us]))) =
    mset (concat (map pu_indices us))"
proof -
  have "map fst (concat (map (\<lambda>u. map (\<lambda>i. (i, u)) (pu_indices (us ! u))) ks)) = concat (map (\<lambda>u. pu_indices (us ! u)) ks)" for ks
    by (induction ks) (simp_all add: comp_def)
  moreover have "map (\<lambda>u. pu_indices (us ! u)) [0..<length us] = map pu_indices us"
    by (rule nth_equalityI) simp_all
  ultimately show ?thesis by simp
qed

lemma unit_of_command:
  assumes "mset (concat (map pu_indices us)) = mset [0..<n]"
  shows "unitByCommand us i = Some u \<longleftrightarrow> u < length us \<and> i \<in> set (pu_indices (us ! u))"
    and "i < n \<longleftrightarrow> (\<exists>u. unitByCommand us i = Some u)"
proof -
  let ?ps = "concat (map (\<lambda>u. map (\<lambda>i. (i, u)) (pu_indices (us ! u))) [0..<length us])"
  have "mset (map fst ?ps) = mset [0..<n]" using unit_pairs_mset [of us] assms by simp
  then have dist: "distinct (map fst ?ps)" and dom: "set (map fst ?ps) = {0..<n}"
    by (metis distinct_upt mset_eq_imp_distinct_iff, metis set_mset_mset set_upt)
  have "unitByCommand us i = Some u \<longleftrightarrow> (i, u) \<in> set ?ps"
    using map_of_eq_Some_iff [OF dist] by (simp add: unitByCommand_def)
  then show "unitByCommand us i = Some u \<longleftrightarrow> u < length us \<and> i \<in> set (pu_indices (us ! u))"
    by auto
  have "i \<in> set (map fst ?ps) \<longleftrightarrow> i < n" using dom by simp
  then show "i < n \<longleftrightarrow> (\<exists>u. unitByCommand us i = Some u)"
    by (metis (no_types, lifting) map_of_eq_None_iff not_None_eq set_map unitByCommand_def)
qed

section \<open>The tasks\<close>

lemma add_dependency_length [simp]: "length (add_dependency us i u d deps) = length deps"
  by (simp add: add_dependency_def split: option.splits)

lemma add_dependencies_length [simp]: "length (fold (add_dependency us i u) ds deps) = length deps"
  by (induction ds arbitrary: deps) simp_all

definition row_dependencies :: "pipeline_unit list \<Rightarrow> int list list \<Rightarrow> nat \<Rightarrow> nat list list \<Rightarrow> nat list list" where
  "row_dependencies us command_deps i deps =
    (case unitByCommand us i of
       None \<Rightarrow> deps
     | Some u \<Rightarrow> fold (add_dependency us i u) (command_deps ! i) deps)"

lemma unit_dependencies_rows:
  "unit_dependencies us command_deps =
    fold (row_dependencies us command_deps) [0..<length command_deps] (replicate (length us) [])"
  unfolding unit_dependencies_def
  by (rule fold_cong) (simp_all add: row_dependencies_def fun_eq_iff)

lemma add_unit_dependencies_set:
  assumes "u < length deps"
  shows "set (fold (add_dependency us i u) ds deps ! w) = set (deps ! w) \<union>
    (if w = u then {v. v \<noteq> u \<and> (\<exists>d \<in> set ds. 0 \<le> d \<and> d < int i \<and> unitByCommand us (nat d) = Some v)} else {})"
  using assms
proof (induction ds arbitrary: deps)
  case (Cons d ds)
  then have "u < length (add_dependency us i u d deps)" by simp
  from Cons.IH [OF this] Cons.prems show ?case
    by (auto simp: add_dependency_def nth_list_update split: option.splits if_splits)
qed simp

lemma unit_in_range: "unitByCommand us i = Some u \<Longrightarrow> u < length us"
  unfolding unitByCommand_def by (drule map_of_SomeD) auto

text \<open>A unit waits for another one when one of its commands depends on an earlier command of that unit.\<close>

definition waits_for :: "pipeline_unit list \<Rightarrow> int list list \<Rightarrow> nat \<Rightarrow> nat \<Rightarrow> bool" where
  "waits_for us command_deps u v \<longleftrightarrow> v \<noteq> u \<and>
    (\<exists>i < length command_deps. unitByCommand us i = Some u \<and>
      (\<exists>d \<in> set (command_deps ! i). 0 \<le> d \<and> d < int i \<and> unitByCommand us (nat d) = Some v))"

lemma row_dependencies_set:
  assumes "w < length deps" "length deps = length us"
  shows "set (row_dependencies us command_deps i deps ! w) = set (deps ! w) \<union>
    {v. v \<noteq> w \<and> unitByCommand us i = Some w \<and>
      (\<exists>d \<in> set (command_deps ! i). 0 \<le> d \<and> d < int i \<and> unitByCommand us (nat d) = Some v)}"
proof (cases "unitByCommand us i")
  case (Some u)
  then have "u < length deps" using unit_in_range assms(2) by simp
  from add_unit_dependencies_set [OF this] Some show ?thesis by (auto simp: row_dependencies_def)
qed (simp add: row_dependencies_def)

lemma row_dependencies_length [simp]:
  "length (fold (row_dependencies us command_deps) is deps) = length deps"
  by (induction "is" arbitrary: deps) (simp_all add: row_dependencies_def split: option.split)

lemma unit_dependencies_set:
  assumes "w < length us"
  shows "set (unit_dependencies us command_deps ! w) = {v. waits_for us command_deps w v}"
proof -
  let ?deps = "\<lambda>k. fold (row_dependencies us command_deps) [0..<k] (replicate (length us) [])"
  have "set (?deps k ! w) = {v. v \<noteq> w \<and> (\<exists>i < k. unitByCommand us i = Some w \<and>
      (\<exists>d \<in> set (command_deps ! i). 0 \<le> d \<and> d < int i \<and> unitByCommand us (nat d) = Some v))}" for k
  proof (induction k)
    case (Suc k)
    have "w < length (?deps k)" "length (?deps k) = length us" using assms by simp_all
    from row_dependencies_set [OF this, of command_deps k] Suc show ?case by (auto simp: less_Suc_eq)
  qed (simp add: assms)
  then show ?thesis by (auto simp: unit_dependencies_rows waits_for_def)
qed

lemma unit_dependencies_length [simp]: "length (unit_dependencies us command_deps) = length us"
  by (simp add: unit_dependencies_rows)

subsection \<open>Creating the tasks\<close>

text \<open>The order of the tasks: each after those it waits for.\<close>

definition in_order :: "nat list list \<Rightarrow> nat list \<Rightarrow> bool" where
  "in_order deps tasks \<longleftrightarrow> distinct tasks \<and> (\<forall>i < length tasks. set (deps ! (tasks ! i)) \<subseteq> set (take i tasks))"

definition needs :: "nat list list \<Rightarrow> (nat \<times> nat) set" where
  "needs deps = {(v, u). u < length deps \<and> v \<in> set (deps ! u)}"

lemma in_order_snoc:
  "in_order deps tasks \<Longrightarrow> u \<notin> set tasks \<Longrightarrow> set (deps ! u) \<subseteq> set tasks \<Longrightarrow> in_order deps (tasks @ [u])"
  by (auto simp: in_order_def nth_append less_Suc_eq)

text \<open>What a call does: the tasks of the list and of all they need are there afterwards, in order, and nothing else
  is new.\<close>

definition runs :: "nat list list \<Rightarrow> nat list \<Rightarrow> bool" where
  "runs deps todo \<longleftrightarrow> (\<forall>tasks. in_order deps tasks \<longrightarrow>
    (\<exists>tasks'. run_units deps todo tasks = Some tasks' \<and> in_order deps tasks' \<and>
      set todo \<union> set tasks \<subseteq> set tasks' \<and>
      set tasks' \<subseteq> set tasks \<union> {v. \<exists>u \<in> set todo. (v, u) \<in> (needs deps)\<^sup>*}))"

lemma runs_list:
  assumes acyc: "acyclic (needs deps)"
    and units: "\<And>u. u \<in> set todo \<Longrightarrow> u < length deps \<and> runs deps (deps ! u)"
  shows "runs deps todo"
  unfolding runs_def
proof (intro allI impI)
  fix tasks
  assume "in_order deps tasks"
  then show "\<exists>tasks'. run_units deps todo tasks = Some tasks' \<and> in_order deps tasks' \<and>
      set todo \<union> set tasks \<subseteq> set tasks' \<and>
      set tasks' \<subseteq> set tasks \<union> {v. \<exists>u \<in> set todo. (v, u) \<in> (needs deps)\<^sup>*}"
    using units
  proof (induction todo arbitrary: tasks)
    case Nil
    then show ?case by (subst run_units.simps) simp
  next
    case (Cons u us)
    show ?case
    proof (cases "u \<in> set tasks")
      case True
      from Cons.IH [OF Cons.prems(1)] Cons.prems(2) obtain tasks' where
        "run_units deps us tasks = Some tasks'" "in_order deps tasks'" "set us \<union> set tasks \<subseteq> set tasks'"
        "set tasks' \<subseteq> set tasks \<union> {v. \<exists>u \<in> set us. (v, u) \<in> (needs deps)\<^sup>*}" by auto
      with True show ?thesis by (subst run_units.simps) auto
    next
      case False
      from Cons.prems(2) [of u] have u: "u < length deps" "runs deps (deps ! u)" by simp_all
      from u(2) Cons.prems(1) obtain created where created: "run_units deps (deps ! u) tasks = Some created"
        "in_order deps created" "set (deps ! u) \<union> set tasks \<subseteq> set created"
        "set created \<subseteq> set tasks \<union> {v. \<exists>w \<in> set (deps ! u). (v, w) \<in> (needs deps)\<^sup>*}"
        unfolding runs_def by blast
      have before: "{v. \<exists>w \<in> set (deps ! u). (v, w) \<in> (needs deps)\<^sup>*} \<subseteq> {v. (v, u) \<in> (needs deps)\<^sup>+}"
        using u(1) by (auto simp: needs_def intro: rtrancl_into_trancl1)
      have "u \<notin> set created"
        using created(4) before False acyc unfolding acyclic_def by blast
      with in_order_snoc [OF created(2)] created(3) have "in_order deps (created @ [u])" by blast
      from Cons.IH [OF this] Cons.prems(2) obtain tasks' where rest:
        "run_units deps us (created @ [u]) = Some tasks'" "in_order deps tasks'"
        "set us \<union> set (created @ [u]) \<subseteq> set tasks'"
        "set tasks' \<subseteq> set (created @ [u]) \<union> {v. \<exists>u \<in> set us. (v, u) \<in> (needs deps)\<^sup>*}" by auto
      have "run_units deps (u # us) tasks = Some tasks'"
        using False created(1) rest(1) by (subst run_units.simps) simp
      moreover have "set (u # us) \<union> set tasks \<subseteq> set tasks'" using rest(3) created(3) by auto
      moreover have "set tasks' \<subseteq> set tasks \<union> {v. \<exists>w \<in> set (u # us). (v, w) \<in> (needs deps)\<^sup>*}"
        using rest(4) created(4) before by (auto dest: trancl_into_rtrancl)
      ultimately show ?thesis using rest(2) by blast
    qed
  qed
qed

lemma runs_acyclic:
  assumes acyc: "acyclic (needs deps)" and range: "\<And>u. u < length deps \<Longrightarrow> set (deps ! u) \<subseteq> {..<length deps}"
  shows "runs deps [0..<length deps]"
proof -
  have "finite (needs deps)"
    by (rule finite_subset [of _ "{..<length deps} \<times> {..<length deps}"]) (use range in \<open>auto simp: needs_def\<close>)
  with acyc have wf: "wf (needs deps)" by (simp add: finite_acyclic_wf)
  have "u < length deps \<Longrightarrow> runs deps (deps ! u)" for u
  proof (induction u rule: wf_induct_rule [OF wf])
    case (1 u)
    then show ?case using range [of u] by (intro runs_list [OF acyc]) (auto simp: needs_def)
  qed
  then show ?thesis by (intro runs_list [OF acyc]) simp
qed

text \<open>A set of units each of which needs one of the set never gets a task.\<close>

definition left_out :: "nat list list \<Rightarrow> nat list \<Rightarrow> nat list \<Rightarrow> nat list \<Rightarrow> bool" where
  "left_out deps todo tasks tasks' \<longleftrightarrow> (\<forall>S. (\<forall>u \<in> S. set (deps ! u) \<inter> S \<noteq> {}) \<longrightarrow> set tasks \<inter> S = {} \<longrightarrow>
    set todo \<inter> S = {} \<and> set tasks' \<inter> S = {})"

lemma left_outD:
  "left_out deps todo tasks tasks' \<Longrightarrow> \<forall>u \<in> S. set (deps ! u) \<inter> S \<noteq> {} \<Longrightarrow> set tasks \<inter> S = {} \<Longrightarrow>
    set todo \<inter> S = {} \<and> set tasks' \<inter> S = {}"
  unfolding left_out_def by blast

lemma stuck_units:
  assumes "run_units deps todo tasks = Some tasks'"
  shows "left_out deps todo tasks tasks'"
proof (rule run_units.raw_induct [OF _ assms])
  fix run deps todo tasks tasks'
  assume IH: "\<And>deps todo tasks tasks'. run deps todo tasks = Some tasks' \<Longrightarrow> left_out deps todo tasks tasks'"
    and step: "(case todo of [] \<Rightarrow> Some tasks
     | u # us \<Rightarrow> if u \<in> set tasks then run deps us tasks
         else Option.bind (run deps (deps ! u) tasks) (\<lambda>created. run deps us (created @ [u]))) = Some tasks'"
  show "left_out deps todo tasks tasks'"
    unfolding left_out_def
  proof (intro allI impI)
    fix S
    assume S: "\<forall>u \<in> S. set (deps ! u) \<inter> S \<noteq> {}" "set tasks \<inter> S = {}"
    show "set todo \<inter> S = {} \<and> set tasks' \<inter> S = {}"
    proof (cases todo)
      case Nil
      with step S show ?thesis by simp
    next
      case (Cons u us)
      show ?thesis
      proof (cases "u \<in> set tasks")
        case True
        with step Cons have "run deps us tasks = Some tasks'" by simp
        from left_outD [OF IH [OF this] S] True S(2) Cons show ?thesis by auto
      next
        case False
        with step Cons obtain created where created: "run deps (deps ! u) tasks = Some created"
          "run deps us (created @ [u]) = Some tasks'" by (auto simp: bind_eq_Some_conv)
        from left_outD [OF IH [OF created(1)] S] have out: "set (deps ! u) \<inter> S = {}" "set created \<inter> S = {}" by simp_all
        with S(1) have "u \<notin> S" by blast
        with out(2) have "set (created @ [u]) \<inter> S = {}" by auto
        from left_outD [OF IH [OF created(2)] S(1) this] \<open>u \<notin> S\<close> Cons show ?thesis by auto
      qed
    qed
  qed
qed

subsection \<open>The order of the units\<close>

lemma needs_waits:
  "needs (unit_dependencies us ds) = {(v, u). u < length us \<and> waits_for us ds u v}"
  by (auto simp: needs_def unit_dependencies_set)

lemma waits_range: "waits_for us ds u v \<Longrightarrow> u < length us \<and> v < length us"
  by (auto simp: waits_for_def dest: unit_in_range)

text \<open>The tasks of a pipeline: without a cycle, every unit gets one, after all those it waits for; with a cycle
  of units waiting for each other, creating the tasks never ends.\<close>

theorem units_run_unless_cyclic:
  assumes "acyclic {(v, u). waits_for us ds u v}"
  shows "\<exists>order. unit_order us (Some ds) = Some order \<and> distinct order \<and> set order = {..<length us} \<and>
    (\<forall>i < length order. \<forall>v. waits_for us ds (order ! i) v \<longrightarrow> v \<in> set (take i order))"
proof -
  let ?deps = "unit_dependencies us ds"
  have eq: "needs ?deps = {(v, u). waits_for us ds u v}"
    using waits_range by (auto simp: needs_waits)
  show ?thesis
  proof (cases "list_all (\<lambda>d. d = []) ?deps")
    case True
    then have "\<not> waits_for us ds u v" if "u < length us" for u v
      using that unit_dependencies_set [OF that, of ds] by (auto simp: list_all_length)
    with True waits_range show ?thesis by (auto simp: unit_order_def Let_def)
  next
    case False
    have "runs ?deps [0..<length ?deps]"
      using assms eq waits_range
      by (intro runs_acyclic) (auto simp: unit_dependencies_set)
    then obtain order where order: "run_units ?deps [0..<length us] [] = Some order" "in_order ?deps order"
      "{..<length us} \<subseteq> set order" "set order \<subseteq> {v. \<exists>u < length us. (v, u) \<in> (needs ?deps)\<^sup>*}"
      unfolding runs_def by (elim allE [of _ "[]"]) (auto simp: in_order_def unit_dependencies_set Bex_def atLeast0LessThan)
    have "v < length us" if "(v, u) \<in> (needs ?deps)\<^sup>*" "u < length us" for v u
      using that by (induction rule: converse_rtrancl_induct) (auto simp: eq dest: waits_range)
    with order(3,4) have set: "set order = {..<length us}" by blast
    have "v \<in> set (take i order)" if "i < length order" "waits_for us ds (order ! i) v" for i v
    proof -
      have "v \<in> set (?deps ! (order ! i))"
        using that waits_range unit_dependencies_set [of "order ! i" us ds] by simp
      with order(2) that(1) show ?thesis by (auto simp: in_order_def)
    qed
    with False order(1,2) set show ?thesis by (auto simp: unit_order_def Let_def in_order_def)
  qed
qed

theorem cyclic_units_never_run:
  assumes "\<not> acyclic {(v, u). waits_for us ds u v}"
  shows "unit_order us (Some ds) = None"
proof -
  let ?deps = "unit_dependencies us ds" and ?R = "{(v, u). waits_for us ds u v}"
  let ?S = "{u. (u, u) \<in> ?R\<^sup>+}"
  from assms obtain x where x: "x \<in> ?S" by (auto simp: acyclic_def)
  have range: "u < length us" if "u \<in> ?S" for u
    using that by (auto elim: tranclE dest: waits_range)
  have cycle: "\<exists>v \<in> ?S. waits_for us ds u v" if "u \<in> ?S" for u
  proof -
    from that obtain v where "(u, v) \<in> ?R\<^sup>*" "(v, u) \<in> ?R" by (auto elim: tranclE intro: trancl_into_rtrancl)
    then have "(v, v) \<in> ?R\<^sup>+" "waits_for us ds u v" by (auto intro: rtrancl_into_trancl2)
    then show ?thesis by blast
  qed
  have deps: "\<forall>u \<in> ?S. set (?deps ! u) \<inter> ?S \<noteq> {}"
    using cycle range by (fastforce simp: unit_dependencies_set)
  have "run_units ?deps [0..<length us] [] = None"
  proof (rule ccontr)
    assume "run_units ?deps [0..<length us] [] \<noteq> None"
    then obtain tasks where "run_units ?deps [0..<length us] [] = Some tasks" by blast
    from left_outD [OF stuck_units [OF this] deps] have "set [0..<length us] \<inter> ?S = {}" by simp
    moreover have "x \<in> set [0..<length us]" using range [OF x] by simp
    ultimately show False using x by blast
  qed
  moreover have "\<not> list_all (\<lambda>d. d = []) ?deps"
    using deps x range by (fastforce simp: list_all_length)
  ultimately show ?thesis by (simp add: unit_order_def)
qed

text \<open>SET k1, MGET k1 k2 over two shards, SET k1 again: the two SETs make one unit, MGET is on its own, the unit
  waits for MGET and MGET for the unit.\<close>

theorem mutual_units_never_run:
  "unit_order [\<lparr>pu_kind = Routed r, pu_indices = [0, 2]\<rparr>, \<lparr>pu_kind = Standalone, pu_indices = [1]\<rparr>]
    (Some [[], [0], [1]]) = None"
proof (rule cyclic_units_never_run)
  let ?us = "[\<lparr>pu_kind = Routed r, pu_indices = [0, 2]\<rparr>, \<lparr>pu_kind = Standalone, pu_indices = [1]\<rparr>]"
    and ?ds = "[[], [0], [1]] :: int list list"
  have units: "unitByCommand ?us = [0 \<mapsto> 0, 1 \<mapsto> 1, 2 \<mapsto> 0]"
    by (auto simp: unitByCommand_def fun_eq_iff)
  have "waits_for ?us ?ds 1 0"
    unfolding waits_for_def units by (rule conjI, simp) (rule exI [of _ 1], simp)
  moreover have "waits_for ?us ?ds 0 1"
    unfolding waits_for_def units by (rule conjI, simp) (rule exI [of _ 2], simp)
  ultimately have "(0, 1) \<in> {(v, u). waits_for ?us ?ds u v}" "(1, 0) \<in> {(v, u). waits_for ?us ?ds u v}"
    by (simp_all only: mem_Collect_eq prod.case)
  from trancl_into_trancl [OF r_into_trancl [OF this(1)] this(2)]
  show "\<not> acyclic {(v, u). waits_for ?us ?ds u v}" unfolding acyclic_def by (meson allE)
qed

section \<open>Every command gets its answer\<close>

text \<open>What a unit's outcome says about the \<open>k\<close>-th of its \<open>n\<close> commands: the answer, and whether it is a rejection.\<close>

definition answer_of :: "nat \<Rightarrow> unit_outcome \<Rightarrow> nat \<Rightarrow> thrown \<times> bool" where
  "answer_of n outcome k =
    (case outcome of
       Inl e \<Rightarrow> (e, True)
     | Inr (rs, flags) \<Rightarrow>
         if length rs \<noteq> n then (group_mismatch, True)
         else (rs ! k, case flags of None \<Rightarrow> False | Some bs \<Rightarrow> k < length bs \<and> bs ! k))"

definition stored :: "pipeline_output \<Rightarrow> pipeline_output \<Rightarrow> nat list \<Rightarrow> (nat \<Rightarrow> thrown \<times> bool) \<Rightarrow> bool" where
  "stored old new is f \<longleftrightarrow>
    length (out_values new) = length (out_values old) \<and>
    (\<forall>k < length is. out_values new ! (is ! k) = Some (fst (f k)) \<and>
      (is ! k \<in> set (out_rejected new) \<longleftrightarrow> is ! k \<in> set (out_rejected old) \<or> snd (f k))) \<and>
    (\<forall>i. i \<notin> set is \<longrightarrow> out_values new ! i = out_values old ! i \<and>
      (i \<in> set (out_rejected new) \<longleftrightarrow> i \<in> set (out_rejected old)))"

lemma stored_Cons:
  assumes "stored (out\<lparr>out_values := (out_values out)[i := Some (fst (f 0))],
      out_rejected := (if snd (f 0) then out_rejected out @ [i] else out_rejected out)\<rparr>) new is (\<lambda>k. f (Suc k))"
    and i: "i \<notin> set is" "i < length (out_values out)"
  shows "stored out new (i # is) f"
proof -
  from assms(1) i have "out_values new ! i = Some (fst (f 0)) \<and> (i \<in> set (out_rejected new) \<longleftrightarrow> i \<in> set (out_rejected out) \<or> snd (f 0))"
    by (simp add: stored_def)
  moreover from assms(1) i have "out_values new ! (is ! k) = Some (fst (f (Suc k))) \<and>
      (is ! k \<in> set (out_rejected new) \<longleftrightarrow> is ! k \<in> set (out_rejected out) \<or> snd (f (Suc k)))" if "k < length is" for k
    using that nth_mem [OF that] by (auto simp: stored_def split: if_splits)
  moreover from assms(1) i have "out_values new ! j = out_values out ! j \<and>
      (j \<in> set (out_rejected new) \<longleftrightarrow> j \<in> set (out_rejected out))" if "j \<noteq> i" "j \<notin> set is" for j
    using that by (simp add: stored_def)
  moreover have "length (out_values new) = length (out_values out)" using assms(1) by (simp add: stored_def)
  ultimately show ?thesis unfolding stored_def
    by (intro conjI allI impI) (auto simp: nth_Cons' dest: Suc_pred)
qed

lemma failure_values:
  "length (fold (\<lambda>i vs. vs[i := Some e]) is vs) = length vs"
  "set is \<subseteq> {..<length vs} \<Longrightarrow>
    fold (\<lambda>i vs. vs[i := Some e]) is vs ! j = (if j \<in> set is then Some e else vs ! j)"
proof -
  show len: "length (fold (\<lambda>i vs. vs[i := Some e]) is vs) = length vs" for vs
    by (induction "is" arbitrary: vs) simp_all
  show "set is \<subseteq> {..<length vs} \<Longrightarrow>
      fold (\<lambda>i vs. vs[i := Some e]) is vs ! j = (if j \<in> set is then Some e else vs ! j)"
    by (induction "is" arbitrary: vs) (auto simp: nth_list_update)
qed

lemma failure_stored:
  assumes "set is \<subseteq> {..<length (out_values out)}"
  shows "stored out (captureGroupFailure is e out) is (\<lambda>_. (e, True))"
  using assms by (auto simp: stored_def captureGroupFailure_def failure_values in_set_conv_nth)

lemma responses_stored:
  assumes "length rs = length is" "distinct is" "set is \<subseteq> {..<length (out_values out)}"
  shows "stored out (store_responses is rs bs out) is (\<lambda>k. (rs ! k, k < length bs \<and> bs ! k))"
  using assms
proof (induction "is" rs bs out rule: store_responses.induct)
  case (1 i "is" r rs b bs out)
  then show ?case by (intro stored_Cons) simp_all
next
  case (2 i "is" r rs out)
  then show ?case by (intro stored_Cons) simp_all
qed (auto simp: stored_def)

lemma capture_stored:
  assumes "distinct is" "set is \<subseteq> {..<length (out_values out)}"
  shows "stored out (captureGroupResponses is outcome out) is (answer_of (length is) outcome)"
proof (cases outcome)
  case (Inl e)
  then show ?thesis using failure_stored [OF assms(2), of e] by (simp add: captureGroupResponses_def answer_of_def [abs_def])
next
  case (Inr r)
  obtain rs flags where r: "r = (rs, flags)" by (cases r)
  show ?thesis
  proof (cases "length rs = length is")
    case True
    with Inr r show ?thesis
      using responses_stored [OF True assms, of "case flags of None \<Rightarrow> [] | Some bs \<Rightarrow> bs"]
      by (cases flags) (simp_all add: captureGroupResponses_def answer_of_def [abs_def])
  next
    case False
    with Inr r show ?thesis
      using failure_stored [OF assms(2), of group_mismatch] by (simp add: captureGroupResponses_def answer_of_def [abs_def])
  qed
qed

text \<open>Every command of a pipeline gets the answer its unit had for it, in its own place, and is marked as rejected
  exactly if that answer is a rejection, an answer of a failed or mismatched unit included.\<close>

theorem commands_get_their_answers:
  assumes "mset (concat (map pu_indices us)) = mset [0..<n]" "length outcomes = length us"
  shows "length (out_values (capture_all us outcomes n)) = n \<and>
    (\<forall>u < length us. \<forall>k < length (pu_indices (us ! u)).
      out_values (capture_all us outcomes n) ! (pu_indices (us ! u) ! k) =
        Some (fst (answer_of (length (pu_indices (us ! u))) (outcomes ! u) k)) \<and>
      (pu_indices (us ! u) ! k \<in> set (out_rejected (capture_all us outcomes n)) \<longleftrightarrow>
        snd (answer_of (length (pu_indices (us ! u))) (outcomes ! u) k)))"
proof -
  let ?ok = "\<lambda>us outcomes out. length (out_values out) = n \<and> set (out_rejected out) \<subseteq> set (concat (map pu_indices us)) \<and>
    (\<forall>u < length us. \<forall>k < length (pu_indices (us ! u)).
      out_values out ! (pu_indices (us ! u) ! k) = Some (fst (answer_of (length (pu_indices (us ! u))) (outcomes ! u) k)) \<and>
      (pu_indices (us ! u) ! k \<in> set (out_rejected out) \<longleftrightarrow>
        snd (answer_of (length (pu_indices (us ! u))) (outcomes ! u) k)))"
  from assms(1) have "distinct (concat (map pu_indices us))" "set (concat (map pu_indices us)) \<subseteq> {..<n}"
    by (metis distinct_upt mset_eq_imp_distinct_iff, metis atLeast0LessThan mset_eq_setD set_upt subset_refl)
  with assms(2) have "?ok us outcomes (capture_all us outcomes n)"
  proof (induction us arbitrary: outcomes rule: rev_induct)
    case Nil
    then show ?case by (simp add: capture_all_def)
  next
    case (snoc u us)
    from snoc.prems(1) obtain os r where os: "outcomes = os @ [r]" "length os = length us"
      by (metis length_append_singleton length_Suc_conv_rev)
    let ?out = "capture_all us os n"
    from snoc os have IH: "?ok us os ?out" by simp
    from snoc.prems have u: "distinct (pu_indices u)" "set (pu_indices u) \<subseteq> {..<length (out_values ?out)}"
      and apart: "set (pu_indices u) \<inter> set (concat (map pu_indices us)) = {}" using IH by auto
    have new: "capture_all (us @ [u]) outcomes n = captureGroupResponses (pu_indices u) r ?out"
      using os by (simp add: capture_all_def)
    note st = capture_stored [OF u, of r]
    have old: "pu_indices (us ! v) ! k \<notin> set (pu_indices u)" if "v < length us" "k < length (pu_indices (us ! v))" for v k
      using apart that by (fastforce dest: nth_mem)
    have fresh: "pu_indices u ! k \<notin> set (out_rejected ?out)" if "k < length (pu_indices u)" for k
      using apart IH that by (meson disjoint_iff nth_mem subset_iff)
    have same: "j = k" if "pu_indices u ! j = pu_indices u ! k" "j < length (pu_indices u)" "k < length (pu_indices u)" for j k
      using u(1) that by (simp add: nth_eq_iff_index_eq)
    show ?case
      unfolding new using IH st old fresh same os
      by (auto simp: stored_def nth_append less_Suc_eq)
  qed
  then show ?thesis by simp
qed

end
