(* ===== verification/Spec2Isabelle.thy ===== *)
theory Spec2Isabelle
  imports ReceiveBuffer ChunkAssembler FlowControl CommandPolicy Errors Topology AutoBatchOrdering AutoBatch NativeConnection Http2SlotPool
    PipelineExecution ReconnectingExecutor FlowRouting KeyValueCommands FlowItems
    ProtocolResponse CompactResponseBounds RoutePlanner TopologyPipeline
begin

text \<open>
  Verification of the FerricStore TypeScript SDK.

  The program is the client library of a key/value store with durable workflows ("Flow"). A call of the
  client becomes a list of command arguments; the protocol layer turns it into a request (an opcode and a
  payload); the request is framed and written to a socket under the server's flow control; the bytes that
  come back are cut into frames, put together from chunks and decoded. Around that, executors batch
  commands, replay them after a lost connection, and choose the endpoint by the key. This development
  models that path from the arguments to the bytes and back, and the state machines around it. File names
  below are relative to \<open>src/src\<close>; the manifest maps every definition to its lines.

  The language. \<open>Prelude\<close>, \<open>JsValue\<close>, \<open>Utf8\<close>, \<open>JsObject\<close>, \<open>Tables\<close>, \<open>NumberText\<close>, \<open>NumberArg\<close> hold what the
  sources use of JavaScript: a string is a list of 16-bit code units (\<open>jsstr\<close>), a buffer a list of bytes,
  a value a tree (\<open>jsval\<close>), an object an association list in enumeration order, \<open>Map\<close> and \<open>Set\<close> lists in
  insertion order, a number an integer or the bits of a double. A function that can throw returns
  \<open>thrown + 'a\<close> (\<open>Inl\<close> is the throw), one that may return \<open>undefined\<close> an option inside it. Code that may not
  return is a \<open>partial_function (option)\<close>, \<open>None\<close> meaning that it does not return; there is no fuel
  anywhere. Objects the code shares and mutates live in explicit stores (\<open>AutoBatch\<close>, \<open>Http2SlotPool\<close>,
  \<open>ReconnectingExecutor\<close>).

  From arguments to requests. \<open>CommandCatalog\<close> has the tables of commands, opcodes and option names
  (\<open>command-metadata.ts\<close>, \<open>protocol-constants.ts\<close>); \<open>CommandGrammar\<close> says where the keys of a command are;
  \<open>CommandExec\<close>, \<open>RequestContext\<close> are the generic command with its blocking time and authorization data;
  \<open>KeyValueCommands\<close> the typed key/value commands (\<open>protocol-kv.ts\<close>); \<open>FlowOptions\<close>, \<open>FlowItems\<close>, \<open>FlowCommands\<close>,
  \<open>FlowPolicy\<close>, \<open>FlowAdmin\<close>, \<open>FlowQueryRequest\<close> the Flow commands (\<open>protocol-flow*.ts\<close>,
  \<open>flow-query-request.ts\<close>); \<open>CompactFields\<close>, \<open>FlowCompact\<close>, \<open>CompactRequest\<close> the compact binary bodies
  (\<open>protocol-flow-compact*.ts\<close>, \<open>protocol-compact-request.ts\<close>); \<open>ProtocolCommand\<close> puts them together
  (\<open>buildProtocolCommand\<close>, \<open>tryPipelineCommand\<close> of \<open>protocol.ts\<close>). What is shown: accepted typed commands
  have exactly the fields of their opcode with values of their types; a compact Flow body, written field by
  field into a buffer of the planned length, is read back to the fields the request calls for, as the input
  says them, and has that length; a pipeline request stands for its commands one by one, and contains no
  command that depends on the connection.

  Bytes. \<open>ProtocolValue\<close> is the tagged value encoding with its budgets, \<open>Frame\<close> the frames, \<open>ReceiveBuffer\<close>
  the incoming buffer against the interface of \<open>FrameStream\<close>, \<open>ChunkAssembler\<close> the chunked responses:
  round trips, planned against written lengths, independence of how the socket cuts the stream, and the limits
  of the assembler over every history of frames, discards and resets.

  Responses. \<open>CompactResponse\<close> reads the compact answers (\<open>protocol-compact-response.ts\<close>,
  \<open>protocol-compact-collections.ts\<close>, \<open>protocol-flow-query-result.ts\<close>), \<open>CompactResponseBounds\<close> shows, over a
  locale of readers that every one of them interprets, that they stay inside the body and the item budget and
  only ever refuse with an error of the library; \<open>ProtocolResponse\<close> is \<open>decodeResponse\<close> and
  \<open>unwrapPipelineResponse\<close> (\<open>protocol-response.ts\<close>), with what a caller may rely on.

  The connection. \<open>FlowControl\<close> (\<open>native-flow-control.ts\<close>), \<open>NativeConnection\<close> (write queue, request
  numbers, pending requests, time-outs) and \<open>Http2SlotPool\<close> are state machines with invariants over all
  reachable states: credits are accounted for, never above the limits in force, and granted in order; a
  request reported as unsent was never written, frames are written in order, slots are neither lost nor handed out twice.

  Executors. \<open>AutoBatchOrdering\<close> plans the order of a batch and \<open>AutoBatch\<close> runs batches, both on the
  access history of \<open>AccessOrder\<close> (a locale interpreted on the plan's table and on the batch executor's
  shared key states); \<open>PipelineExecution\<close> runs a pipeline command by command; \<open>ReconnectingExecutor\<close> is the
  interleaving of calls, reconnection and close; \<open>CommandPolicy\<close> and \<open>Errors\<close> decide where a command may
  run and when it may be replayed. What is shown: conflicting commands keep their order, everything
  accepted is answered once, an idle executor holds no record of a key, and a replay is one that is safe.

  Routing. \<open>Crc32\<close> (against the long division of the standard), \<open>KeySlots\<close>, \<open>Topology\<close>, \<open>FlowRouting\<close>: the slot
  of a key, the routing table made from the server's answer, the routing keys of Flow partitions with their
  bounded cache (SHA-256 written out). \<open>RoutePlanner\<close> is the route of a command (\<open>topology-routing.ts\<close>,
  \<open>topology-route-planner.ts\<close>): a command with its keys as arguments is only sent where all of them live.
  \<open>TopologyPipeline\<close> splits a pipeline over the endpoints (\<open>topology-pipeline.ts\<close>): the units are a partition of
  the commands, each command gets its answer, and the units run unless they wait for each other in a
  cycle, in which case the calls do not end (see the findings of the manifest).

  Bounds. Wire integers are words of their width or integers checked against the code's own limits; the
  budgets of the encoder and decoder, the limits of the chunk assembler, of the route cache and of the
  flow control are those of the sources. Loops are structural or have a measure, apart from the four
  partial functions: the two of the slot pool are proved to return on every reachable state, the tasks of
  a pipeline exactly when no units wait for each other, and the expansion of the states of a claim may
  not (see the findings of the manifest).

  Parameters and assumptions. The platform's URL parser is an argument of \<open>Topology\<close>; executors, sockets and timers are
  the environment of the step relations, whose steps may happen in any order. Values are trees, so that
  checks for cycles, getters, proxies and holes in arrays have no counterpart; memory sharing between a
  frame and the values cut from it is not visible.

  Not modelled: sockets, TLS, HTTP and their start-up (\<open>native-negotiation.ts\<close>, \<open>http-*.ts\<close>), which are
  event handlers of the platform; the topology client's asynchronous refresh and scatter; the facade classes
  (\<open>client*.ts\<close>, \<open>store*.ts\<close>, \<open>modules.ts\<close>), which assemble argument lists; the workers and workflows
  (\<open>queue*.ts\<close>, \<open>worker*.ts\<close>, \<open>workflow*.ts\<close>), polling loops over promises; and the integrations
  (\<open>langgraph\<close>, \<open>openai-agents.ts\<close>, \<open>agent-persistence\<close>), whose frameworks are not part of the repository.
\<close>

end
